(* ===== verification/Seqc_Prelude.thy ===== *)
theory Seqc_Prelude
  imports Main "HOL-Library.Monad_Syntax" "HOL-Library.Multiset"
begin

unbundle bit_operations_syntax

section \<open>Shared vocabulary\<close>

text \<open>
  What every component of the library shares: the status codes of
  \<open>include/seqc/status.h\<close>, the arithmetic of a 64-bit \<open>size_t\<close>, the reading of \<open>None\<close>
  as "the C program has no defined result here" (a null or out-of-range access, a read of
  bytes that were never written, a loop that does not end), and the separation of the
  allocator's live blocks into the blocks one object owns and all the others.
  The generic list lemmas that the component theories share are at the end.
\<close>

named_theorems size_simps \<open>wrap-around arithmetic that is known not to wrap\<close>
named_theorems mem_simps \<open>evaluation of guarded memory accesses\<close>

text \<open>
  Maps of blocks stay folded: a map is looked into only at an address known to be the
  updated one or another.
\<close>

declare fun_upd_apply [simp del]
declare fun_upd_same [simp]
declare fun_upd_other [simp]

subsection \<open>Status codes\<close>

datatype seqc_status_t = SEQC_OK | SEQC_NOT_FOUND | SEQC_DUPLICATE | SEQC_OOM | SEQC_INVALID

subsection \<open>Sizes: arithmetic modulo \<open>2 ^ 64\<close>\<close>

type_synonym size_t = nat
type_synonym addr = nat

definition size_mod :: nat where
  "size_mod = 2 ^ 64"

definition SIZE_MAX :: size_t where
  "SIZE_MAX = 2 ^ 64 - 1"

definition wadd :: "size_t \<Rightarrow> size_t \<Rightarrow> size_t" where
  "wadd a b = (a + b) mod size_mod"

definition wsub :: "size_t \<Rightarrow> size_t \<Rightarrow> size_t" where
  "wsub a b = (a + (size_mod - b mod size_mod)) mod size_mod"

definition wmul :: "size_t \<Rightarrow> size_t \<Rightarrow> size_t" where
  "wmul a b = (a * b) mod size_mod"

lemma wadd_exact [size_simps]: "a + b < 2 ^ 64 \<Longrightarrow> wadd a b = a + b"
  by (simp add: wadd_def size_mod_def)

lemma wmul_exact [size_simps]: "a * b < 2 ^ 64 \<Longrightarrow> wmul a b = a * b"
  by (simp add: wmul_def size_mod_def)

lemma wsub_exact [size_simps]:
  assumes "b \<le> a" and "a < 2 ^ 64"
  shows "wsub a b = a - b"
proof -
  obtain c where c: "a = c + b" using assms(1) by (metis le_add_diff_inverse2)
  have "b < size_mod" "c < size_mod" using assms c by (simp_all add: size_mod_def)
  then have "wsub a b = (c + size_mod) mod size_mod" by (simp add: wsub_def c)
  also have "\<dots> = c" using \<open>c < size_mod\<close> by simp
  finally show ?thesis by (simp add: c)
qed

lemma wadd_le: "wadd a b \<le> a + b"
  by (simp add: wadd_def)

lemma wadd_bound: "wadd a b < 2 ^ 64"
  by (simp add: wadd_def size_mod_def)

lemma wmul_bound: "wmul a b < 2 ^ 64"
  by (simp add: wmul_def size_mod_def)

lemma wsub_bound: "wsub a b < 2 ^ 64"
  by (simp add: wsub_def size_mod_def)

text \<open>Masking with a capacity that is a power of two is the remainder.\<close>

lemma mask_mod: "n AND (2 ^ k - 1) = n mod 2 ^ k" for n :: nat
  by (simp add: take_bit_eq_mod [symmetric] take_bit_eq_mask mask_eq_exp_minus_1)

text \<open>\<open>long long\<close>, a signed type of 64 bits.\<close>

definition LLONG_MIN :: int where
  "LLONG_MIN = - (2 ^ 63)"

definition LLONG_MAX :: int where
  "LLONG_MAX = 2 ^ 63 - 1"

definition llong :: "int \<Rightarrow> bool" where
  "llong v \<longleftrightarrow> LLONG_MIN \<le> v \<and> v \<le> LLONG_MAX"

text \<open>The largest block an allocator grants: \<open>PTRDIFF_MAX\<close> bytes, as for every C object.\<close>

definition PTRDIFF_MAX :: size_t where
  "PTRDIFF_MAX = 2 ^ 63 - 1"

lemma double_exact:
  assumes "c * e \<le> PTRDIFF_MAX" and "0 < e"
  shows "wmul c 2 = c * 2" and "wmul (c * 2) e = c * 2 * e" and "c \<le> SIZE_MAX div 2"
proof -
  have c: "c \<le> c * e" using assms(2) by simp
  with assms(1) have c63: "c \<le> 2 ^ 63 - 1" unfolding PTRDIFF_MAX_def by linarith
  then show "wmul c 2 = c * 2" by (intro wmul_exact) simp
  show "c \<le> SIZE_MAX div 2" using c63 by (simp add: SIZE_MAX_def)
  have "c * 2 * e = 2 * (c * e)" by simp
  also have "\<dots> < 2 ^ 64" using assms(1) by (simp add: PTRDIFF_MAX_def)
  finally show "wmul (c * 2) e = c * 2 * e" by (rule wmul_exact)
qed

subsection \<open>Ownership of blocks\<close>

text \<open>
  The live blocks of the allocator are a finite map from addresses to sizes. \<open>owns L R B\<close>
  splits them into the blocks \<open>B\<close> of one object and the rest \<open>R\<close>, disjointly. An operation
  that takes \<open>owns L R B\<close> to \<open>owns L' R B'\<close> for every \<open>R\<close> touches nothing outside its object,
  leaks nothing and frees nothing twice.
\<close>

definition owns :: "(addr \<rightharpoonup> size_t) \<Rightarrow> (addr \<rightharpoonup> size_t) \<Rightarrow> (addr \<rightharpoonup> size_t) \<Rightarrow> bool" where
  "owns L R B \<longleftrightarrow> L = R ++ B \<and> dom R \<inter> dom B = {}"

lemma owns_empty [simp]: "owns L R Map.empty \<longleftrightarrow> L = R"
  by (auto simp: owns_def)

lemma owns_alloc:
  assumes "owns L R B" and "p \<notin> dom L"
  shows "owns (L(p \<mapsto> n)) R (B(p \<mapsto> n))"
  using assms by (auto simp: owns_def)

lemma owns_free:
  assumes "owns L R B" and "p \<in> dom B"
  shows "owns (L(p := None)) R (B(p := None))"
proof -
  from assms have "p \<notin> dom R" and L: "L = R ++ B" and d: "dom R \<inter> dom B = {}"
    by (auto simp: owns_def)
  then have "L(p := None) = R ++ B(p := None)"
    by (auto simp: fun_eq_iff map_add_def domIff fun_upd_apply)
  with d show ?thesis by (auto simp: owns_def)
qed

lemma owns_lookup: "owns L R B \<Longrightarrow> B p = Some n \<Longrightarrow> L p = Some n"
  by (auto simp: owns_def)

lemma owns_fresh: "owns L R B \<Longrightarrow> p \<notin> dom L \<Longrightarrow> p \<notin> dom B"
  by (auto simp: owns_def)

lemma owns_same: "owns L R B \<Longrightarrow> L' = L \<Longrightarrow> owns L' R B"
  by simp

text \<open>
  Two objects side by side: \<open>owns2 L R A B\<close>. Either can take its step in the frame of the
  other.
\<close>

definition owns2 ::
  "(addr \<rightharpoonup> size_t) \<Rightarrow> (addr \<rightharpoonup> size_t) \<Rightarrow> (addr \<rightharpoonup> size_t) \<Rightarrow> (addr \<rightharpoonup> size_t) \<Rightarrow> bool" where
  "owns2 L R A B \<longleftrightarrow> owns L (R ++ A) B \<and> dom R \<inter> dom A = {}"

lemma owns2_sym: "owns2 L R A B \<Longrightarrow> owns2 L R B A"
proof -
  assume h: "owns2 L R A B"
  then have "dom A \<inter> dom B = {}" by (auto simp: owns2_def owns_def)
  then have "A ++ B = B ++ A" by (rule map_add_comm)
  then have "R ++ A ++ B = R ++ B ++ A" by (metis map_add_assoc)
  with h show ?thesis by (auto simp: owns2_def owns_def)
qed

lemma owns2_right: "owns2 L R A B \<Longrightarrow> owns L (R ++ A) B"
  by (simp add: owns2_def)

lemma owns2_left: "owns2 L R A B \<Longrightarrow> owns L (R ++ B) A"
  by (rule owns2_right [OF owns2_sym])

lemma owns2_step_right: "owns2 L R A B \<Longrightarrow> owns L' (R ++ A) B' \<Longrightarrow> owns2 L' R A B'"
  by (simp add: owns2_def)

lemma owns2_step_left: "owns2 L R A B \<Longrightarrow> owns L' (R ++ B) A' \<Longrightarrow> owns2 L' R A' B"
  by (rule owns2_sym, rule owns2_step_right [OF owns2_sym])

lemma owns2_close_right: "owns2 L R A B \<Longrightarrow> L' = R ++ A \<Longrightarrow> owns L' R A"
  by (auto simp: owns2_def owns_def)

lemma owns2_close_left: "owns2 L R A B \<Longrightarrow> L' = R ++ B \<Longrightarrow> owns L' R B"
  by (rule owns2_close_right [OF owns2_sym])

lemma owns2_empty: "owns L R A \<Longrightarrow> owns2 L R A Map.empty"
  by (auto simp: owns2_def owns_def)

lemma owns2I: "owns L R A \<Longrightarrow> owns L' L B \<Longrightarrow> owns2 L' R A B"
  by (auto simp: owns2_def owns_def)

text \<open>A third block, held through the steps of the other two.\<close>

lemma owns2_hold:
  assumes "owns2 L R A B" and "p \<notin> dom L"
  shows "owns2 (L(p \<mapsto> n)) (R(p \<mapsto> n)) A B"
proof -
  from assms have p: "p \<notin> dom A" "p \<notin> dom B" and L: "L = R ++ A ++ B"
    by (auto simp: owns2_def owns_def)
  then have "L(p \<mapsto> n) = R(p \<mapsto> n) ++ A ++ B" by (simp add: map_add_upd_left)
  with assms p show ?thesis by (auto simp: owns2_def owns_def)
qed

lemma owns_unhold:
  assumes "owns L (R(p \<mapsto> n)) A" and "p \<notin> dom R"
  shows "owns L R (A(p \<mapsto> n))"
  using assms by (auto simp: owns_def map_add_upd_left)

lemma owns_held: "owns L (R(p \<mapsto> n)) A \<Longrightarrow> p \<notin> dom A"
  by (auto simp: owns_def)

lemma owns_wrap_iff:
  "p \<notin> dom A \<and> owns L R (A(p \<mapsto> n)) \<longleftrightarrow> p \<notin> dom R \<and> owns L (R(p \<mapsto> n)) A"
  by (auto simp: owns_def map_add_upd_left domIff)

text \<open>
  One object inside another: the blocks \<open>C\<close> of the outer object are the blocks \<open>B\<close> of the inner
  one and its own, \<open>X\<close>. The inner one takes its steps in the frame of \<open>X\<close>.
\<close>

definition joined :: "(addr \<rightharpoonup> size_t) \<Rightarrow> (addr \<rightharpoonup> size_t) \<Rightarrow> (addr \<rightharpoonup> size_t) \<Rightarrow> bool" where
  "joined C B X \<longleftrightarrow> C = B ++ X \<and> dom B \<inter> dom X = {}"

lemma joined_open: "joined C B X \<Longrightarrow> owns L R C \<Longrightarrow> owns L (R ++ X) B"
  by (auto simp: joined_def owns_def map_add_comm [of B X])

lemma joined_close:
  assumes "joined C B X" and "owns L R C" and "owns L' (R ++ X) B'"
  shows "owns L' R (B' ++ X)" and "joined (B' ++ X) B' X"
proof -
  from assms(3) have d: "dom B' \<inter> dom X = {}" by (auto simp: owns_def)
  from assms(3) have "L' = R ++ (X ++ B')" by (simp add: owns_def)
  then have "L' = R ++ (B' ++ X)" by (simp add: map_add_comm [OF d])
  then show "owns L' R (B' ++ X)" using assms by (auto simp: joined_def owns_def)
  show "joined (B' ++ X) B' X" using d by (simp add: joined_def)
qed

lemma joined_sym: "joined C B X \<Longrightarrow> joined C X B"
  by (metis joined_def map_add_comm inf_commute)

lemma joined_empty: "joined B B Map.empty"
  by (simp add: joined_def)

lemma joined_owns:
  assumes "owns L R A" and "owns L' L B"
  shows "owns L' R (A ++ B)" and "joined (A ++ B) A B"
  using assms by (auto simp: joined_def owns_def)

lemma joined_rest: "joined C B X \<Longrightarrow> owns L R C \<Longrightarrow> L' = R ++ X \<Longrightarrow> owns L' R X"
  by (auto simp: joined_def owns_def)

lemma joined_upd: "p \<notin> dom B \<Longrightarrow> joined (B(p \<mapsto> n)) B [p \<mapsto> n]"
  by (simp add: joined_def)

lemma joined_upd2: "p \<notin> dom B \<Longrightarrow> q \<notin> dom (B(p \<mapsto> n)) \<Longrightarrow> joined (B(p \<mapsto> n, q \<mapsto> m)) B [p \<mapsto> n, q \<mapsto> m]"
  by (auto simp: joined_def)

lemma map_upd_free: "m a = Some k \<Longrightarrow> m b = None \<Longrightarrow> m(b \<mapsto> n, a := None) = m(a := None, b \<mapsto> n)"
  by (auto simp: fun_eq_iff fun_upd_apply)

subsection \<open>Lists\<close>

lemma take_Suc_update:
  "n < length xs \<Longrightarrow> take (Suc n) (xs[n := x]) = take n xs @ [x]"
  by (simp add: take_Suc_conv_app_nth)

lemma list_all_take_nth:
  "(\<forall>x \<in> set (take n xs). P x) \<longleftrightarrow> (\<forall>i < n. i < length xs \<longrightarrow> P (xs ! i))"
  by (auto simp: set_conv_nth)

lemma those_map_Some: "those (map Some xs) = Some xs"
  by (induction xs) simp_all

lemma rotate_nth: "i < length xs \<Longrightarrow> rotate h xs ! i = xs ! ((h + i) mod length xs)"
  by (simp add: nth_rotate)

end
