(* ===== verification/Seqc_Alloc.thy ===== *)
theory Seqc_Alloc
  imports Seqc_Prelude
begin

section \<open>The allocator interface\<close>

text \<open>
  \<open>allocator_t\<close> is the interface of the companion library \<open>arena_allocator\<close>, which is not
  part of this repository: a pointer to a table of three functions and their context. It is a
  parameter here. The table's functions act on a world \<open>'w\<close> that stands for everything behind
  the context pointer; an allocator whose table is NULL is \<open>None\<close>. Alignments, which only the
  allocator reads, are left out.
  What the collections rely on is the locale \<open>heap_allocator\<close>. It is interpreted on the
  allocators that the repository does contain, those of \<open>test/oom_alloc.h\<close>, over a model of
  C's \<open>malloc\<close>, \<open>realloc\<close> and \<open>free\<close>.
\<close>

record 'w vtable =
  vt_alloc :: "size_t \<Rightarrow> 'w \<Rightarrow> addr option \<times> 'w"
  vt_realloc :: "addr option \<Rightarrow> size_t \<Rightarrow> size_t \<Rightarrow> 'w \<Rightarrow> addr option \<times> 'w"
  vt_free :: "addr option \<Rightarrow> size_t \<Rightarrow> 'w \<Rightarrow> 'w"

type_synonym 'w allocator_t = "'w vtable option"

fun mem_alloc :: "'w allocator_t \<Rightarrow> size_t \<Rightarrow> 'w \<Rightarrow> (addr option \<times> 'w) option" where
  "mem_alloc None n w = None"
| "mem_alloc (Some t) n w = Some (vt_alloc t n w)"

fun mem_realloc ::
  "'w allocator_t \<Rightarrow> addr option \<Rightarrow> size_t \<Rightarrow> size_t \<Rightarrow> 'w \<Rightarrow> (addr option \<times> 'w) option" where
  "mem_realloc None p m n w = None"
| "mem_realloc (Some t) p m n w = Some (vt_realloc t p m n w)"

fun mem_free :: "'w allocator_t \<Rightarrow> addr option \<Rightarrow> size_t \<Rightarrow> 'w \<Rightarrow> 'w option" where
  "mem_free None p n w = None"
| "mem_free (Some t) p n w = Some (vt_free t p n w)"

subsection \<open>Refusing\<close>

text \<open>
  Running out of memory is an outcome the properties allow only to an allocator that refuses some
  request of a size the operation makes. An allocator that grants every request up to \<open>n\<close>
  bytes does not satisfy \<open>refuses t n\<close>.
\<close>

definition refuses :: "'w vtable \<Rightarrow> size_t \<Rightarrow> bool" where
  "refuses t n \<longleftrightarrow>
     (\<exists>k w. k \<le> n \<and> (fst (vt_alloc t k w) = None \<or> (\<exists>p m. fst (vt_realloc t p m k w) = None)))"

lemma refuses_alloc: "mem_alloc (Some t) k w = Some (None, w') \<Longrightarrow> k \<le> n \<Longrightarrow> refuses t n"
  unfolding refuses_def by (rule exI [of _ k], rule exI [of _ w]) simp

lemma refuses_realloc: "mem_realloc (Some t) p m k w = Some (None, w') \<Longrightarrow> k \<le> n \<Longrightarrow> refuses t n"
  unfolding refuses_def by (rule exI [of _ k], rule exI [of _ w]) (simp, metis fst_conv)

lemma refuses_mono: "refuses t m \<Longrightarrow> m \<le> n \<Longrightarrow> refuses t n"
  unfolding refuses_def by (meson le_trans)

text \<open>The largest request of a collection of \<open>n\<close> elements of \<open>es\<close> bytes: a buffer that doubles, a node, a struct.\<close>

definition growth :: "size_t \<Rightarrow> nat \<Rightarrow> size_t" where
  "growth es n = (2 * n + 16) * es + 256"

lemma refuses_growth: "refuses t k \<Longrightarrow> k \<le> (2 * n + 16) * es + 256 \<Longrightarrow> refuses t (growth es n)"
  unfolding growth_def by (rule refuses_mono)

text \<open>An iterator's allocator refuses some request that is not absurd.\<close>

definition starved :: "'w allocator_t \<Rightarrow> bool" where
  "starved al \<longleftrightarrow> (case al of None \<Rightarrow> False | Some t \<Rightarrow> refuses t PTRDIFF_MAX)"

lemma starvedI: "refuses t n \<Longrightarrow> n \<le> PTRDIFF_MAX \<Longrightarrow> starved (Some t)"
  unfolding starved_def by (simp add: refuses_mono)

lemma starved_small: "refuses t n \<Longrightarrow> n \<le> 256 \<Longrightarrow> starved (Some t)"
  by (erule starvedI) (simp add: PTRDIFF_MAX_def)

lemma refuses_doubled: "refuses t (c * es) \<Longrightarrow> c \<le> 2 * n + 16 \<Longrightarrow> refuses t (growth es n)"
  by (erule refuses_growth) (simp add: mult_le_mono1 trans_le_add1)

lemma growth_small: "refuses t n \<Longrightarrow> n \<le> 256 \<Longrightarrow> refuses t (growth es k)"
  by (erule refuses_growth) simp

subsection \<open>What the library relies on\<close>

text \<open>
  \<open>live w\<close> maps the address of each block that is allocated in \<open>w\<close> to its size. A block that
  is granted is fresh and at most \<open>PTRDIFF_MAX\<close> bytes; a request that fails changes no block.
  Freeing is only promised to work with the size the block was allocated with, and
  reallocating only with an old size within the block.
\<close>

locale heap_allocator =
  fixes t :: "'w vtable" and live :: "'w \<Rightarrow> addr \<rightharpoonup> size_t"
  assumes alloc_granted: "vt_alloc t n w = (Some p, w') \<Longrightarrow>
      p \<notin> dom (live w) \<and> live w' = (live w)(p \<mapsto> n) \<and> n \<le> PTRDIFF_MAX"
    and alloc_refused: "vt_alloc t n w = (None, w') \<Longrightarrow> live w' = live w"
    and realloc_null_granted: "vt_realloc t None m n w = (Some p, w') \<Longrightarrow>
      p \<notin> dom (live w) \<and> live w' = (live w)(p \<mapsto> n) \<and> n \<le> PTRDIFF_MAX"
    and realloc_granted: "vt_realloc t (Some a) m n w = (Some p, w') \<Longrightarrow>
      live w a = Some k \<Longrightarrow> m \<le> k \<Longrightarrow>
      p \<notin> dom ((live w)(a := None)) \<and> live w' = (live w)(a := None, p \<mapsto> n) \<and> n \<le> PTRDIFF_MAX"
    and realloc_refused: "vt_realloc t q m n w = (None, w') \<Longrightarrow> live w' = live w"
    and free_block: "live w p = Some n \<Longrightarrow> live (vt_free t (Some p) n w) = (live w)(p := None)"
    and free_null: "live (vt_free t None n w) = live w"
begin

lemma owns_mem_alloc:
  assumes "owns (live w) R B" and "mem_alloc (Some t) n w = Some (Some p, w')"
  shows "owns (live w') R (B(p \<mapsto> n))" and "p \<notin> dom B" and "n \<le> PTRDIFF_MAX"
proof -
  from assms(2) have "vt_alloc t n w = (Some p, w')" by simp
  from alloc_granted [OF this]
  have g: "p \<notin> dom (live w)" "live w' = (live w)(p \<mapsto> n)" "n \<le> PTRDIFF_MAX" by auto
  show "owns (live w') R (B(p \<mapsto> n))" unfolding g(2) by (rule owns_alloc [OF assms(1) g(1)])
  show "p \<notin> dom B" by (rule owns_fresh [OF assms(1) g(1)])
  show "n \<le> PTRDIFF_MAX" by (rule g(3))
qed

lemma owns_mem_alloc_refused:
  "owns (live w) R B \<Longrightarrow> mem_alloc (Some t) n w = Some (None, w') \<Longrightarrow> owns (live w') R B"
  using alloc_refused by fastforce

lemma owns_mem_realloc:
  assumes "owns (live w) R B" and "B a = Some k" and "m \<le> k"
    and "mem_realloc (Some t) (Some a) m n w = Some (Some p, w')"
  shows "owns (live w') R (B(a := None, p \<mapsto> n))" and "p \<notin> dom (B(a := None))"
    and "n \<le> PTRDIFF_MAX"
proof -
  have k: "live w a = Some k" by (rule owns_lookup [OF assms(1,2)])
  from assms(4) have "vt_realloc t (Some a) m n w = (Some p, w')" by simp
  from realloc_granted [OF this k assms(3)]
  have g: "p \<notin> dom ((live w)(a := None))" "live w' = (live w)(a := None, p \<mapsto> n)"
    "n \<le> PTRDIFF_MAX" by auto
  have o: "owns ((live w)(a := None)) R (B(a := None))"
    by (rule owns_free [OF assms(1)]) (use assms(2) in auto)
  show "owns (live w') R (B(a := None, p \<mapsto> n))" unfolding g(2) by (rule owns_alloc [OF o g(1)])
  show "p \<notin> dom (B(a := None))" by (rule owns_fresh [OF o g(1)])
  show "n \<le> PTRDIFF_MAX" by (rule g(3))
qed

lemma owns_mem_realloc_null:
  assumes "owns (live w) R B" and "mem_realloc (Some t) None m n w = Some (Some p, w')"
  shows "owns (live w') R (B(p \<mapsto> n))" and "p \<notin> dom B" and "n \<le> PTRDIFF_MAX"
proof -
  from assms(2) have "vt_realloc t None m n w = (Some p, w')" by simp
  from realloc_null_granted [OF this]
  have g: "p \<notin> dom (live w)" "live w' = (live w)(p \<mapsto> n)" "n \<le> PTRDIFF_MAX" by auto
  show "owns (live w') R (B(p \<mapsto> n))" unfolding g(2) by (rule owns_alloc [OF assms(1) g(1)])
  show "p \<notin> dom B" by (rule owns_fresh [OF assms(1) g(1)])
  show "n \<le> PTRDIFF_MAX" by (rule g(3))
qed

lemma owns_mem_realloc_refused:
  "owns (live w) R B \<Longrightarrow> mem_realloc (Some t) q m n w = Some (None, w') \<Longrightarrow> owns (live w') R B"
  using realloc_refused by fastforce

lemma owns_mem_free:
  assumes "owns (live w) R B" and "B p = Some n"
  obtains w' where "mem_free (Some t) (Some p) n w = Some w'" and "owns (live w') R (B(p := None))"
proof -
  have "live (vt_free t (Some p) n w) = (live w)(p := None)"
    by (rule free_block [OF owns_lookup [OF assms]])
  with owns_free [OF assms(1), of p] assms(2) show ?thesis
    using that by (simp add: domI)
qed

end

subsection \<open>The C heap and the allocators of the test suite\<close>

text \<open>
  The world of \<open>test/oom_alloc.h\<close>: the heap of \<open>malloc\<close> and the counter of \<open>oom_ctx_t\<close>.
  \<open>malloc\<close> hands out increasing addresses; it may fail, and does for a request above
  \<open>PTRDIFF_MAX\<close>.
\<close>

record c_heap =
  hp_next :: addr
  hp_live :: "addr \<rightharpoonup> size_t"
  remaining :: size_t

definition malloc :: "size_t \<Rightarrow> c_heap \<Rightarrow> addr option \<times> c_heap" where
  "malloc n h =
     (if n \<le> PTRDIFF_MAX \<and> hp_live h (hp_next h) = None
      then (Some (hp_next h), h\<lparr>hp_next := Suc (hp_next h), hp_live := (hp_live h)(hp_next h \<mapsto> n)\<rparr>)
      else (None, h))"

definition c_free :: "addr option \<Rightarrow> c_heap \<Rightarrow> c_heap" where
  "c_free p h = (case p of None \<Rightarrow> h | Some a \<Rightarrow> h\<lparr>hp_live := (hp_live h)(a := None)\<rparr>)"

definition c_realloc :: "addr option \<Rightarrow> size_t \<Rightarrow> c_heap \<Rightarrow> addr option \<times> c_heap" where
  "c_realloc p n h =
     (case malloc n h of
        (None, h') \<Rightarrow> (None, h')
      | (Some q, h') \<Rightarrow> (Some q, c_free p h'))"

definition sys_allocator :: "c_heap vtable" where
  "sys_allocator = \<lparr>vt_alloc = malloc, vt_realloc = (\<lambda>p m n. c_realloc p n), vt_free = (\<lambda>p n. c_free p)\<rparr>"

definition null_allocator :: "'w vtable" where
  "null_allocator =
     \<lparr>vt_alloc = (\<lambda>n w. (None, w)), vt_realloc = (\<lambda>p m n w. (None, w)), vt_free = (\<lambda>p n w. w)\<rparr>"

definition oom_alloc :: "size_t \<Rightarrow> c_heap \<Rightarrow> addr option \<times> c_heap" where
  "oom_alloc n h =
     (if remaining h = 0 then (None, h) else malloc n (h\<lparr>remaining := remaining h - 1\<rparr>))"

definition oom_realloc :: "addr option \<Rightarrow> size_t \<Rightarrow> size_t \<Rightarrow> c_heap \<Rightarrow> addr option \<times> c_heap" where
  "oom_realloc p m n h =
     (if remaining h = 0 then (None, h) else c_realloc p n (h\<lparr>remaining := remaining h - 1\<rparr>))"

definition oom_after_allocator :: "c_heap vtable" where
  "oom_after_allocator = \<lparr>vt_alloc = oom_alloc, vt_realloc = oom_realloc, vt_free = (\<lambda>p n. c_free p)\<rparr>"

definition heap_with :: "size_t \<Rightarrow> c_heap" where
  "heap_with n = \<lparr>hp_next = 1, hp_live = Map.empty, remaining = n\<rparr>"

lemmas c_heap_defs = malloc_def c_free_def c_realloc_def sys_allocator_def null_allocator_def
  oom_alloc_def oom_realloc_def oom_after_allocator_def heap_with_def

interpretation sys: heap_allocator sys_allocator hp_live
  by unfold_locales (auto simp: c_heap_defs map_upd_free split: if_splits option.splits)

interpretation oom: heap_allocator oom_after_allocator hp_live
  by unfold_locales (auto simp: c_heap_defs map_upd_free split: if_splits option.splits)

text \<open>The allocator that always fails has no live block, and frees none.\<close>

interpretation nul: heap_allocator null_allocator "\<lambda>_. Map.empty"
  by unfold_locales (auto simp: null_allocator_def)

end
