(* ===== verification/Seqc_Roomy.thy ===== *)
theory Seqc_Roomy
  imports Seqc_Alloc
begin

section \<open>An allocator that refuses nothing reasonable\<close>

text \<open>
  An allocator that grants every request up to \<open>PTRDIFF_MAX\<close> bytes. Its world is the list of
  the blocks; a new block lies above all of them. The witnesses use it where a property leaves room
  for an allocator that refuses, so that the outcome they show is the one with memory.
\<close>

definition roomy_fresh :: "(addr \<times> size_t) list \<Rightarrow> addr" where
  "roomy_fresh h = Suc (sum_list (map fst h))"

definition roomy_alloc :: "size_t \<Rightarrow> (addr \<times> size_t) list \<Rightarrow> addr option \<times> (addr \<times> size_t) list" where
  "roomy_alloc n h = (if n \<le> PTRDIFF_MAX then (Some (roomy_fresh h), (roomy_fresh h, n) # h) else (None, h))"

definition roomy_free :: "addr option \<Rightarrow> size_t \<Rightarrow> (addr \<times> size_t) list \<Rightarrow> (addr \<times> size_t) list" where
  "roomy_free p n h = (case p of None \<Rightarrow> h | Some a \<Rightarrow> filter (\<lambda>b. fst b \<noteq> a) h)"

definition roomy_realloc ::
  "addr option \<Rightarrow> size_t \<Rightarrow> size_t \<Rightarrow> (addr \<times> size_t) list \<Rightarrow> addr option \<times> (addr \<times> size_t) list" where
  "roomy_realloc p m n h =
     (if n \<le> PTRDIFF_MAX then (Some (roomy_fresh h), (roomy_fresh h, n) # roomy_free p m h) else (None, h))"

definition roomy_allocator :: "(addr \<times> size_t) list vtable" where
  "roomy_allocator = \<lparr>vt_alloc = roomy_alloc, vt_realloc = roomy_realloc, vt_free = roomy_free\<rparr>"

lemma roomy_fresh_new: "map_of h (roomy_fresh h) = None"
proof -
  have "a \<le> sum_list (map fst h)" if "a \<in> fst ` set h" for a using that by (induction h) (auto intro: trans_le_add2)
  then have "roomy_fresh h \<notin> fst ` set h" unfolding roomy_fresh_def by (meson Suc_n_not_le_n)
  then show ?thesis by (simp add: map_of_eq_None_iff)
qed

lemma roomy_delete: "map_of (filter (\<lambda>b. fst b \<noteq> a) h) = (map_of h)(a := None)"
  by (induction h) (auto simp: fun_upd_twist)

interpretation roomy: heap_allocator roomy_allocator map_of
  by unfold_locales
    (use roomy_fresh_new in \<open>auto simp: roomy_allocator_def roomy_alloc_def roomy_realloc_def roomy_free_def roomy_delete split: if_splits\<close>)

lemma roomy_refuses: "n \<le> PTRDIFF_MAX \<Longrightarrow> \<not> refuses roomy_allocator n"
  by (auto simp: refuses_def roomy_allocator_def roomy_alloc_def roomy_realloc_def)

lemma roomy_not_starved: "\<not> starved (Some roomy_allocator)"
  by (simp add: starved_def roomy_refuses)

end
