(* ===== verification/Seqc_Lifetime.thy ===== *)
theory Seqc_Lifetime
  imports Seqc_Roomy
begin

section \<open>Whole programs over one collection\<close>

text \<open>
  A client creates a collection, applies any sequence of operations and destroys it. The
  locale \<open>lifetime_laws\<close> says what the operations of a collection owe to an abstract
  specification, and proves what follows for every such program: it never runs into undefined
  behaviour, every result is one that the specification allows, and in the end the allocator's
  blocks are those of the start.
\<close>

fun run_ops ::
  "('op \<Rightarrow> 'c \<Rightarrow> 'w \<Rightarrow> ('r \<times> 'c \<times> 'w) option) \<Rightarrow> 'op list \<Rightarrow> 'c \<Rightarrow> 'w \<Rightarrow> ('r list \<times> 'c \<times> 'w) option" where
  "run_ops step [] c w = Some ([], c, w)"
| "run_ops step (p # ps) c w = do {
     (r, c, w) \<leftarrow> step p c w;
     (rs, c, w) \<leftarrow> run_ops step ps c w;
     Some (r # rs, c, w)
   }"

text \<open>A call on a handle that is not NULL.\<close>

definition on_handle ::
  "('op \<Rightarrow> 'c option \<Rightarrow> 'w \<Rightarrow> ('r \<times> 'c option \<times> 'w) option) \<Rightarrow> 'op \<Rightarrow> 'c \<Rightarrow> 'w \<Rightarrow> ('r \<times> 'c \<times> 'w) option" where
  "on_handle call p u w = do { (r, v, w) \<leftarrow> call p (Some u) w; u \<leftarrow> v; Some (r, u, w) }"

lemma on_handleI: "call p (Some u) w = Some (r, Some u', w') \<Longrightarrow> on_handle call p u w = Some (r, u', w')"
  by (simp add: on_handle_def)

text \<open>
  \<open>allowed spec ps m rs m'\<close>: starting from the abstract value \<open>m\<close>, the operations \<open>ps\<close> may
  answer \<open>rs\<close> and end in \<open>m'\<close>.
\<close>

inductive allowed :: "('op \<Rightarrow> 'm \<Rightarrow> 'r \<Rightarrow> 'm \<Rightarrow> bool) \<Rightarrow> 'op list \<Rightarrow> 'm \<Rightarrow> 'r list \<Rightarrow> 'm \<Rightarrow> bool"
  for spec where
  allowed_Nil: "allowed spec [] m [] m"
| allowed_Cons: "spec p m r m' \<Longrightarrow> allowed spec ps m' rs m'' \<Longrightarrow> allowed spec (p # ps) m (r # rs) m''"

inductive_simps allowed_Nil_iff [simp]: "allowed spec [] m rs m'"
inductive_simps allowed_Cons_iff: "allowed spec (p # ps) m rs m'"

definition lifetime ::
  "('w \<Rightarrow> ('c option \<times> 'w) option) \<Rightarrow> ('op \<Rightarrow> 'c \<Rightarrow> 'w \<Rightarrow> ('r \<times> 'c \<times> 'w) option) \<Rightarrow>
   ('c \<Rightarrow> 'w \<Rightarrow> 'w option) \<Rightarrow> 'op list \<Rightarrow> 'w \<Rightarrow> ('r list option \<times> 'w) option" where
  "lifetime create step destroy ps w = do {
     (c, w) \<leftarrow> create w;
     case c of
       None \<Rightarrow> Some (None, w)
     | Some c \<Rightarrow> do {
         (rs, c, w) \<leftarrow> run_ops step ps c w;
         w \<leftarrow> destroy c w;
         Some (Some rs, w)
       }
   }"

text \<open>
  What is right: the program has a defined result, leaves the blocks as they were, fails to create
  the collection only if the allocator refuses a request, and gets only answers that are allowed.
\<close>

definition lifetime_ok ::
  "'w vtable \<Rightarrow> ('w \<Rightarrow> addr \<rightharpoonup> size_t) \<Rightarrow> ('op \<Rightarrow> 'm \<Rightarrow> 'r \<Rightarrow> 'm \<Rightarrow> bool) \<Rightarrow> 'm \<Rightarrow> 'op list \<Rightarrow> 'w \<Rightarrow>
   ('r list option \<times> 'w) option \<Rightarrow> bool" where
  "lifetime_ok t live spec m0 ps w res \<longleftrightarrow>
     (\<exists>r w'. res = Some (r, w') \<and> live w' = live w \<and>
        (case r of None \<Rightarrow> starved (Some t) | Some rs \<Rightarrow> \<exists>m. allowed spec ps m0 rs m))"

text \<open>A collection whose elements have \<open>es\<close> bytes.\<close>

definition sized ::
  "('c \<Rightarrow> size_t) \<Rightarrow> size_t \<Rightarrow> ((addr \<rightharpoonup> size_t) \<Rightarrow> 'w \<Rightarrow> 'c \<Rightarrow> 'm \<Rightarrow> bool) \<Rightarrow> (addr \<rightharpoonup> size_t) \<Rightarrow> 'w \<Rightarrow> 'c \<Rightarrow> 'm \<Rightarrow> bool" where
  "sized sz es at R w c m \<longleftrightarrow> at R w c m \<and> sz c = es"

lemma sizedD: "sized sz es at R w c m \<Longrightarrow> at R w c m" "sized sz es at R w c m \<Longrightarrow> sz c = es"
  by (simp_all add: sized_def)

locale lifetime_laws = heap_allocator t live
  for t :: "'w vtable" and live :: "'w \<Rightarrow> addr \<rightharpoonup> size_t" +
  fixes create :: "'w \<Rightarrow> ('c option \<times> 'w) option"
    and step :: "'op \<Rightarrow> 'c \<Rightarrow> 'w \<Rightarrow> ('r \<times> 'c \<times> 'w) option"
    and destroy :: "'c \<Rightarrow> 'w \<Rightarrow> 'w option"
    and spec :: "'op \<Rightarrow> 'm \<Rightarrow> 'r \<Rightarrow> 'm \<Rightarrow> bool"
    and m0 :: 'm
    and legal :: "'op \<Rightarrow> bool"
    and at :: "(addr \<rightharpoonup> size_t) \<Rightarrow> 'w \<Rightarrow> 'c \<Rightarrow> 'm \<Rightarrow> bool"
  assumes create_law: "\<exists>c w'. create w = Some (c, w') \<and>
      (case c of None \<Rightarrow> live w' = live w \<and> starved (Some t) | Some c \<Rightarrow> at (live w) w' c m0)"
    and step_law: "at R w c m \<Longrightarrow> legal p \<Longrightarrow>
      \<exists>r c' w' m'. step p c w = Some (r, c', w') \<and> spec p m r m' \<and> at R w' c' m'"
    and destroy_law: "at R w c m \<Longrightarrow> \<exists>w'. destroy c w = Some w' \<and> live w' = R"
begin

lemma run_allowed:
  assumes "at R w c m" and "\<forall>p \<in> set ps. legal p"
  shows "\<exists>rs c' w' m'. run_ops step ps c w = Some (rs, c', w') \<and> allowed spec ps m rs m' \<and> at R w' c' m'"
  using assms
proof (induction ps arbitrary: w c m)
  case (Cons p ps)
  from Cons.prems step_law obtain r c1 w1 m1 where
    1: "step p c w = Some (r, c1, w1)" "spec p m r m1" "at R w1 c1 m1" by fastforce
  from Cons.IH [OF 1(3)] Cons.prems(2) obtain rs c' w' m' where
    2: "run_ops step ps c1 w1 = Some (rs, c', w')" "allowed spec ps m1 rs m'" "at R w' c' m'" by auto
  have "run_ops step (p # ps) c w = Some (r # rs, c', w')" using 1(1) 2(1) by simp
  moreover have "allowed spec (p # ps) m (r # rs) m'" using 1(2) 2(2) by (rule allowed_Cons)
  ultimately show ?case using 2(3) by blast
qed (auto intro: allowed_Nil)

lemma lifetime_is_ok:
  assumes "\<forall>p \<in> set ps. legal p"
  shows "lifetime_ok t live spec m0 ps w (lifetime create step destroy ps w)"
proof -
  obtain c w1 where c: "create w = Some (c, w1)"
    "case c of None \<Rightarrow> live w1 = live w \<and> starved (Some t) | Some c \<Rightarrow> at (live w) w1 c m0" using create_law by blast
  show ?thesis
  proof (cases c)
    case None
    with c show ?thesis by (simp add: lifetime_ok_def lifetime_def)
  next
    case (Some c1)
    with c have "at (live w) w1 c1 m0" by simp
    from run_allowed [OF this assms] obtain rs c2 w2 m where
      2: "run_ops step ps c1 w1 = Some (rs, c2, w2)" "allowed spec ps m0 rs m" "at (live w) w2 c2 m" by blast
    from destroy_law [OF 2(3)] obtain w3 where 3: "destroy c2 w2 = Some w3" "live w3 = live w" by blast
    have "lifetime create step destroy ps w = Some (Some rs, w3)"
      using c(1) Some 2(1) 3(1) by (simp add: lifetime_def)
    then show ?thesis using 2(2) 3(2) by (auto simp: lifetime_ok_def)
  qed
qed

end

end
