(* ===== verification/Seqc_Buffer.thy ===== *)
theory Seqc_Buffer
  imports Seqc_Roomy
begin

section \<open>Element buffers\<close>

text \<open>
  A buffer of elements is a block of memory read and written in steps of the element size:
  cell \<open>i\<close> is the \<open>elem_size\<close> bytes at \<open>data + i * elem_size\<close>, \<open>None\<close> while they were never
  written. A block of \<open>n\<close> bytes holds \<open>n div elem_size\<close> cells, so a request whose byte count
  wrapped around gives a short block. An access through NULL, outside the block or to a cell
  that was never written has no defined result.
  \<open>buf_is d cap xs\<close> says that the buffer has \<open>cap\<close> cells (none, when \<open>data\<close> is NULL) and starts
  with the elements \<open>xs\<close>.
\<close>

record 'a block =
  blk_addr :: addr
  cells :: "'a option list"

subsection \<open>Allocation\<close>

definition block_alloc ::
  "'w allocator_t \<Rightarrow> size_t \<Rightarrow> size_t \<Rightarrow> 'w \<Rightarrow> ('a block option \<times> 'w) option" where
  "block_alloc al es n w = do {
     (p, w) \<leftarrow> mem_alloc al n w;
     Some (map_option (\<lambda>a. \<lparr>blk_addr = a, cells = replicate (n div es) None\<rparr>) p, w)
   }"

text \<open>Reallocation keeps the first \<open>old\<close> bytes, the size the caller names, and no more.\<close>

definition block_resized :: "size_t \<Rightarrow> 'a block option \<Rightarrow> size_t \<Rightarrow> size_t \<Rightarrow> 'a option list" where
  "block_resized es b old new =
     take (new div es)
       (take (old div es) (case b of None \<Rightarrow> [] | Some c \<Rightarrow> cells c) @ replicate (new div es) None)"

definition block_realloc ::
  "'w allocator_t \<Rightarrow> size_t \<Rightarrow> 'a block option \<Rightarrow> size_t \<Rightarrow> size_t \<Rightarrow> 'w \<Rightarrow> ('a block option \<times> 'w) option" where
  "block_realloc al es b old new w = do {
     (p, w) \<leftarrow> mem_realloc al (map_option blk_addr b) old new w;
     Some (map_option (\<lambda>a. \<lparr>blk_addr = a, cells = block_resized es b old new\<rparr>) p, w)
   }"

definition block_free :: "'w allocator_t \<Rightarrow> 'a block option \<Rightarrow> size_t \<Rightarrow> 'w \<Rightarrow> 'w option" where
  "block_free al b n w = mem_free al (map_option blk_addr b) n w"

subsection \<open>Access\<close>

definition block_read :: "'a block option \<Rightarrow> nat \<Rightarrow> 'a option" where
  "block_read b i = do { c \<leftarrow> b; if i < length (cells c) then cells c ! i else None }"

definition block_write :: "'a block option \<Rightarrow> nat \<Rightarrow> 'a \<Rightarrow> 'a block option option" where
  "block_write b i x = do {
     c \<leftarrow> b;
     if i < length (cells c) then Some (Some (c\<lparr>cells := (cells c)[i := Some x]\<rparr>)) else None
   }"

text \<open>\<open>memmove\<close> of \<open>n\<close> cells within a block, and \<open>memcpy\<close> of \<open>n\<close> cells between two.\<close>

definition overwrite :: "'b list \<Rightarrow> nat \<Rightarrow> 'b list \<Rightarrow> 'b list" where
  "overwrite xs i ys = take i xs @ ys @ drop (i + length ys) xs"

definition block_copy :: "'a block option \<Rightarrow> nat \<Rightarrow> 'a block option \<Rightarrow> nat \<Rightarrow> nat \<Rightarrow> 'a block option option" where
  "block_copy dst i src j n = do {
     d \<leftarrow> dst;
     s \<leftarrow> src;
     if i + n \<le> length (cells d) \<and> j + n \<le> length (cells s)
     then Some (Some (d\<lparr>cells := overwrite (cells d) i (take n (drop j (cells s)))\<rparr>)) else None
   }"

definition block_move :: "'a block option \<Rightarrow> nat \<Rightarrow> nat \<Rightarrow> nat \<Rightarrow> 'a block option option" where
  "block_move b i j n = block_copy b i b j n"

lemma length_overwrite [simp]: "i + length ys \<le> length xs \<Longrightarrow> length (overwrite xs i ys) = length xs"
  by (simp add: overwrite_def)

lemma nth_overwrite:
  "i + length ys \<le> length xs \<Longrightarrow> k < length xs \<Longrightarrow>
   overwrite xs i ys ! k = (if i \<le> k \<and> k < i + length ys then ys ! (k - i) else xs ! k)"
  by (auto simp: overwrite_def nth_append)

subsection \<open>Pointers to elements\<close>

text \<open>
  A pointer into a buffer is the buffer and an index. \<open>seqc_copy_out\<close> of \<open>src/collection.h\<close>
  is the copying half of every accessor: it is given what the pointer points to (\<open>None\<close> for a
  NULL pointer, \<open>Some None\<close> for bytes never written) and whether \<open>out\<close> is non-NULL.
\<close>

type_synonym 'a elem_ptr = "'a block \<times> nat"

definition ptr_read :: "'a elem_ptr \<Rightarrow> 'a option" where
  "ptr_read p = block_read (Some (fst p)) (snd p)"

fun seqc_copy_out :: "'a option option \<Rightarrow> bool \<Rightarrow> (seqc_status_t \<times> 'a option) option" where
  "seqc_copy_out None out = Some (SEQC_NOT_FOUND, None)"
| "seqc_copy_out (Some c) True = do { x \<leftarrow> c; Some (SEQC_OK, Some x) }"
| "seqc_copy_out (Some c) False = Some (SEQC_OK, None)"

lemma seqc_copy_out_Some [simp]:
  "seqc_copy_out (Some (Some x)) out = Some (SEQC_OK, if out then Some x else None)"
  by (cases out) simp_all

subsection \<open>What a buffer holds\<close>

definition buf_is :: "'a block option \<Rightarrow> size_t \<Rightarrow> 'a list \<Rightarrow> bool" where
  "buf_is d cap xs \<longleftrightarrow>
     (case d of
        None \<Rightarrow> cap = 0 \<and> xs = []
      | Some b \<Rightarrow> 0 < cap \<and> length (cells b) = cap \<and> length xs \<le> cap \<and>
          take (length xs) (cells b) = map Some xs)"

text \<open>
  Element sizes for which the first buffer of a collection (16 elements) has a byte count that
  does not wrap around: up to \<open>2 ^ 60 - 1\<close> bytes.
\<close>

definition elem_size_ok :: "size_t \<Rightarrow> bool" where
  "elem_size_ok es \<longleftrightarrow> 0 < es \<and> es < 2 ^ 60"

lemma elem_size_ok_pos: "elem_size_ok es \<Longrightarrow> 0 < es"
  by (simp add: elem_size_ok_def)

lemma cap_small:
  assumes "c * es \<le> PTRDIFF_MAX" and "elem_size_ok es"
  shows "c < 2 ^ 63"
proof -
  have "c * 1 \<le> c * es" by (rule mult_le_mono2) (use assms(2) in \<open>simp add: elem_size_ok_def\<close>)
  then have "c \<le> PTRDIFF_MAX" using assms(1) by linarith
  then show ?thesis by (simp add: PTRDIFF_MAX_def)
qed

lemma first_cap_exact: "elem_size_ok es \<Longrightarrow> c \<le> 16 \<Longrightarrow> wmul c es = c * es"
proof (rule wmul_exact)
  assume "elem_size_ok es" "c \<le> 16"
  then have "c * es \<le> 16 * (2 ^ 60 - 1)" unfolding elem_size_ok_def by (intro mult_le_mono) auto
  then show "c * es < 2 ^ 64" by simp
qed

definition own_block :: "(addr \<rightharpoonup> size_t) \<Rightarrow> 'a block option \<Rightarrow> size_t \<Rightarrow> (addr \<rightharpoonup> size_t)" where
  "own_block B d n = (case d of None \<Rightarrow> B | Some b \<Rightarrow> B(blk_addr b \<mapsto> n))"

definition apart :: "(addr \<rightharpoonup> size_t) \<Rightarrow> 'a block option \<Rightarrow> bool" where
  "apart B d \<longleftrightarrow> (case d of None \<Rightarrow> True | Some b \<Rightarrow> blk_addr b \<notin> dom B)"

lemma own_block_simps [simp]:
  "own_block B None n = B" "own_block B (Some b) n = B(blk_addr b \<mapsto> n)"
  by (simp_all add: own_block_def)

lemma apart_simps [simp]: "apart B None" "apart B (Some b) \<longleftrightarrow> blk_addr b \<notin> dom B"
  by (simp_all add: apart_def)

lemma buf_is_None [simp]: "buf_is None cap xs \<longleftrightarrow> cap = 0 \<and> xs = []"
  by (simp add: buf_is_def)

lemma buf_is_len: "buf_is d cap xs \<Longrightarrow> length xs \<le> cap"
  by (auto simp: buf_is_def split: option.splits)

lemma buf_is_SomeE:
  assumes "buf_is (Some b) cap xs"
  obtains ys where "0 < cap" and "cells b = map Some xs @ ys" and "length xs + length ys = cap"
proof -
  have "cells b = map Some xs @ drop (length xs) (cells b)"
    using assms append_take_drop_id [of "length xs" "cells b"] by (simp add: buf_is_def)
  moreover have "length xs + length (drop (length xs) (cells b)) = cap"
    using assms by (simp add: buf_is_def)
  moreover have "0 < cap" using assms by (simp add: buf_is_def)
  ultimately show ?thesis using that by blast
qed

lemma buf_is_SomeI:
  "cells b = map Some xs @ ys \<Longrightarrow> length xs + length ys = cap \<Longrightarrow> 0 < cap \<Longrightarrow> buf_is (Some b) cap xs"
  by (simp add: buf_is_def)

lemma buf_is_shared: "buf_is d cap xs \<Longrightarrow> length xs < cap \<or> xs \<noteq> [] \<Longrightarrow> \<exists>b. d = Some b"
  by (cases d) auto

lemma buf_is_prefix:
  assumes "buf_is d cap (xs @ zs)"
  shows "buf_is d cap xs"
proof (cases d)
  case (Some b)
  from assms [unfolded Some] obtain ys
    where "0 < cap" "cells b = map Some (xs @ zs) @ ys" "length (xs @ zs) + length ys = cap"
    by (rule buf_is_SomeE)
  then show ?thesis
    unfolding Some by (intro buf_is_SomeI [of b xs "map Some zs @ ys"]) simp_all
qed (use assms in simp)

lemma block_read_is [mem_simps]:
  assumes "buf_is d cap xs" and "i < length xs"
  shows "block_read d i = Some (xs ! i)"
proof (cases d)
  case (Some b)
  with assms(1) obtain ys where "cells b = map Some xs @ ys" by (auto elim: buf_is_SomeE)
  with Some assms(2) show ?thesis by (simp add: block_read_def nth_append)
qed (use assms in simp)

lemma block_write_is:
  assumes "buf_is d cap xs" and "i < length xs"
  obtains d' where "block_write d i x = Some d'" and "buf_is d' cap (xs[i := x])"
    and "map_option blk_addr d' = map_option blk_addr d"
proof (cases d)
  case None
  with assms show ?thesis by simp
next
  case (Some b)
  from assms(1) [unfolded Some] obtain ys
    where ys: "0 < cap" "cells b = map Some xs @ ys" "length xs + length ys = cap"
    by (rule buf_is_SomeE)
  let ?b = "b\<lparr>cells := (cells b)[i := Some x]\<rparr>"
  have "block_write d i x = Some (Some ?b)"
    using assms(2) ys Some by (simp add: block_write_def)
  moreover have "cells ?b = map Some (xs[i := x]) @ ys"
    using assms(2) ys by (simp add: list_update_append map_update)
  then have "buf_is (Some ?b) cap (xs[i := x])" by (rule buf_is_SomeI) (use ys in simp_all)
  ultimately show ?thesis using that Some by simp
qed

lemma block_append_is:
  assumes "buf_is d cap xs" and "length xs < cap"
  obtains d' where "block_write d (length xs) x = Some d'" and "buf_is d' cap (xs @ [x])"
    and "map_option blk_addr d' = map_option blk_addr d"
proof (cases d)
  case None
  with assms show ?thesis by simp
next
  case (Some b)
  from assms(1) [unfolded Some] obtain ys
    where ys: "0 < cap" "cells b = map Some xs @ ys" "length xs + length ys = cap"
    by (rule buf_is_SomeE)
  with assms(2) obtain z zs where z: "ys = z # zs" by (cases ys) auto
  let ?b = "b\<lparr>cells := (cells b)[length xs := Some x]\<rparr>"
  have "block_write d (length xs) x = Some (Some ?b)"
    using assms(2) ys Some by (simp add: block_write_def)
  moreover have "cells ?b = map Some (xs @ [x]) @ zs"
    using ys z by (simp add: list_update_append)
  then have "buf_is (Some ?b) cap (xs @ [x])" by (rule buf_is_SomeI) (use ys z in simp_all)
  ultimately show ?thesis using that Some by simp
qed

lemma own_block_same_addr:
  "map_option blk_addr d' = map_option blk_addr d \<Longrightarrow> own_block B d' n = own_block B d n"
  "map_option blk_addr d' = map_option blk_addr d \<Longrightarrow> apart B d' = apart B d"
  by (cases d; cases d'; simp)+

subsection \<open>Allocation keeps ownership\<close>

context heap_allocator begin

lemma block_alloc_fresh:
  assumes "owns (live w) R B" and "0 < es" and "0 < c"
  obtains (granted) b :: "'e block" and w' where "block_alloc (Some t) es (c * es) w = Some (Some b, w')"
      and "cells b = replicate c None" and "owns (live w') R (B(blk_addr b \<mapsto> c * es))"
      and "blk_addr b \<notin> dom B" and "c * es \<le> PTRDIFF_MAX"
  | (refused) w' where "block_alloc (Some t) es (c * es) w = Some (None :: 'e block option, w')" and "owns (live w') R B"
      and "refuses t (c * es)"
proof -
  obtain p w' where m: "mem_alloc (Some t) (c * es) w = Some (p, w')" by (cases "vt_alloc t (c * es) w") simp
  show ?thesis
  proof (cases p)
    case None
    with m have "refuses t (c * es)" by (intro refuses_alloc [of t "c * es" w w']) simp_all
    with m None show ?thesis
      using refused [of w'] owns_mem_alloc_refused [OF assms(1), of "c * es" w'] by (simp add: block_alloc_def)
  next
    case (Some a)
    let ?b = "\<lparr>blk_addr = a, cells = replicate c None\<rparr>"
    from m Some have m': "mem_alloc (Some t) (c * es) w = Some (Some a, w')" by simp
    note g = owns_mem_alloc [OF assms(1) m']
    have "block_alloc (Some t) es (c * es) w = Some (Some ?b, w')"
      using m' assms(2) by (simp add: block_alloc_def del: mem_alloc.simps)
    then show ?thesis using granted [of ?b w'] g by simp
  qed
qed

lemma block_realloc_is:
  assumes own: "owns (live w) R (own_block B d (cap * es))" and ap: "apart B d"
    and d: "buf_is d cap xs" and es: "0 < es" and c: "length xs \<le> c" "0 < c"
  obtains (granted) b w' where
      "block_realloc (Some t) es d (length xs * es) (c * es) w = Some (Some b, w')"
      and "buf_is (Some b) c xs" and "owns (live w') R (own_block B (Some b) (c * es))"
      and "apart B (Some b)" and "c * es \<le> PTRDIFF_MAX"
  | (refused) w' where "block_realloc (Some t) es d (length xs * es) (c * es) w = Some (None, w')"
      and "owns (live w') R (own_block B d (cap * es))" and "refuses t (c * es)"
proof -
  let ?m = "length xs * es" and ?n = "c * es" and ?q = "map_option blk_addr d"
  obtain p w' where r: "mem_realloc (Some t) ?q ?m ?n w = Some (p, w')"
    by (cases "vt_realloc t ?q ?m ?n w") simp
  show ?thesis
  proof (cases p)
    case None
    with r have "refuses t ?n" by (intro refuses_realloc [of t ?q ?m ?n w w']) simp_all
    with None r refused [of w'] owns_mem_realloc_refused [OF own, of ?q ?m ?n w'] show ?thesis
      by (simp add: block_realloc_def)
  next
    case (Some a)
    let ?b = "\<lparr>blk_addr = a, cells = block_resized es d ?m ?n\<rparr>"
    from r Some have r': "mem_realloc (Some t) ?q ?m ?n w = Some (Some a, w')" by simp
    have eq: "block_realloc (Some t) es d ?m ?n w = Some (Some ?b, w')"
      using r' by (simp add: block_realloc_def del: mem_realloc.simps)
    have "cells ?b = map Some xs @ replicate (c - length xs) None"
    proof (cases d)
      case None
      with d es show ?thesis by (simp add: block_resized_def)
    next
      case (Some b0)
      with d have "take (length xs) (cells b0) = map Some xs" by (simp add: buf_is_def)
      with Some es c show ?thesis by (simp add: block_resized_def min_absorb2)
    qed
    then have xs: "buf_is (Some ?b) c xs" by (rule buf_is_SomeI) (use c in simp_all)
    have "owns (live w') R (own_block B (Some ?b) ?n) \<and> apart B (Some ?b) \<and> ?n \<le> PTRDIFF_MAX"
    proof (cases d)
      case None
      with own r' have "owns (live w) R B" "mem_realloc (Some t) None ?m ?n w = Some (Some a, w')" by auto
      from owns_mem_realloc_null [OF this] show ?thesis by simp
    next
      case (Some b0)
      from Some own have own0: "owns (live w) R (B(blk_addr b0 \<mapsto> cap * es))" by simp
      have le: "?m \<le> cap * es" using buf_is_len [OF d] by simp
      from Some r' have r0: "mem_realloc (Some t) (Some (blk_addr b0)) ?m ?n w = Some (Some a, w')" by simp
      have "B(blk_addr b0 := None) = B" using ap Some by (auto simp: fun_eq_iff fun_upd_apply)
      with owns_mem_realloc [OF own0 _ le r0] show ?thesis by auto
    qed
    with granted [OF eq xs] show ?thesis by blast
  qed
qed

lemma block_free_own:
  assumes "owns (live w) R (own_block B (Some b) n)" and "apart B (Some b)"
  obtains w' where "block_free (Some t) (Some b) n w = Some w'" and "owns (live w') R B"
proof -
  have "(B(blk_addr b \<mapsto> n)) (blk_addr b) = Some n" by simp
  moreover have "(B(blk_addr b \<mapsto> n))(blk_addr b := None) = B" using assms(2) by (auto simp: fun_eq_iff fun_upd_apply)
  ultimately show ?thesis
    using owns_mem_free [of w R "B(blk_addr b \<mapsto> n)" "blk_addr b" n] assms(1) that
    by (auto simp: block_free_def)
qed

text \<open>Swapping a new block for the old buffer, and freeing an object that has a buffer.\<close>

lemma block_swap:
  assumes own: "owns (live w) R ((own_block B d m)(a \<mapsto> n))" and a: "a \<notin> dom (own_block B d m)"
    and ap: "apart B d"
  obtains w' where "(if d = None then Some w else block_free (Some t) d m w) = Some w'"
    and "owns (live w') R (B(a \<mapsto> n))" and "a \<notin> dom B"
proof (cases d)
  case None
  with own a that show ?thesis by simp
next
  case (Some b)
  with a have ne: "a \<noteq> blk_addr b" "a \<notin> dom B" by auto
  have "owns (live w) R ((B(a \<mapsto> n))(blk_addr b \<mapsto> m))"
    using own Some fun_upd_twist [OF ne(1), of B "Some n" "Some m"] by simp
  moreover have "blk_addr b \<notin> dom (B(a \<mapsto> n))" using ap Some ne by auto
  ultimately obtain w' where "block_free (Some t) (Some b) m w = Some w'" "owns (live w') R (B(a \<mapsto> n))"
    using block_free_own [of w R "B(a \<mapsto> n)" b m] by auto
  with that Some ne show ?thesis by simp
qed

lemma free_with_buffer:
  assumes own: "owns (live w) R (own_block [a \<mapsto> k] d (cap * es))" and ap: "apart [a \<mapsto> k] d"
    and le: "cap * es \<le> PTRDIFF_MAX"
  obtains w1 w2 where "(if d = None then Some w else block_free (Some t) d (wmul cap es) w) = Some w1"
    and "mem_free (Some t) (Some a) k w1 = Some w2" and "live w2 = R"
proof -
  have n: "wmul cap es = cap * es" by (rule wmul_exact) (use le in \<open>simp add: PTRDIFF_MAX_def\<close>)
  obtain w1 where w1: "(if d = None then Some w else block_free (Some t) d (cap * es) w) = Some w1"
      "owns (live w1) R [a \<mapsto> k]"
  proof (cases d)
    case None
    with own that show ?thesis by simp
  next
    case (Some b)
    with own ap obtain w' where "block_free (Some t) (Some b) (cap * es) w = Some w'" "owns (live w') R [a \<mapsto> k]"
      using block_free_own [of w R "[a \<mapsto> k]" b "cap * es"] by auto
    with that Some show ?thesis by simp
  qed
  obtain w2 where "mem_free (Some t) (Some a) k w1 = Some w2" "owns (live w2) R ([a \<mapsto> k](a := None))"
    by (rule owns_mem_free [OF w1(2), of a k]) simp_all
  moreover have "(if d = None then Some w else block_free (Some t) d (wmul cap es) w) = Some w1"
    unfolding n by (rule w1(1))
  ultimately show ?thesis by (intro that [of w1 w2]) simp_all
qed

end

end
