(* ===== verification/Seqc_Slice.thy ===== *)
theory Seqc_Slice
  imports Seqc_Buffer
begin

section \<open>Slices\<close>

text \<open>
  \<open>slice_t\<close> of \<open>include/seqc/slice.h\<close> and \<open>src/slice/slice.c\<close>: a view \<open>{ptr, len, elem_size}\<close>
  of elements that someone else owns. The view holds the buffer as it was when the slice was
  taken, so a slice used after its owner changed is outside the model.
\<close>

record 'a slice_t =
  sl_ptr :: "'a block option"
  sl_len :: size_t
  sl_elem_size :: size_t

definition slice_get_ptr :: "'a slice_t \<Rightarrow> size_t \<Rightarrow> 'a elem_ptr option" where
  "slice_get_ptr s i =
     (case sl_ptr s of
        None \<Rightarrow> None
      | Some b \<Rightarrow> if sl_elem_size s = 0 \<or> i \<ge> sl_len s then None else Some (b, i))"

definition slice_get :: "'a slice_t \<Rightarrow> size_t \<Rightarrow> bool \<Rightarrow> (seqc_status_t \<times> 'a option) option" where
  "slice_get s i out = seqc_copy_out (map_option ptr_read (slice_get_ptr s i)) out"

text \<open>The linear search of \<open>slice_find\<close> and \<open>vec_find\<close>, from index \<open>i\<close> up to \<open>n\<close>.\<close>

function find_from :: "'a block option \<Rightarrow> size_t \<Rightarrow> ('a \<Rightarrow> bool) \<Rightarrow> size_t \<Rightarrow> 'a elem_ptr option option" where
  "find_from d n pred i =
     (if i < n then do {
        x \<leftarrow> block_read d i;
        b \<leftarrow> d;
        if pred x then Some (Some (b, i)) else find_from d n pred (Suc i)
      } else Some None)"
  by pat_completeness auto
termination
  by (relation "measure (\<lambda>(d, n, pred, i). n - i)") auto

declare find_from.simps [simp del]

definition slice_find :: "'a slice_t \<Rightarrow> ('a \<Rightarrow> bool) option \<Rightarrow> 'a elem_ptr option option" where
  "slice_find s pred =
     (case (sl_ptr s, pred) of
        (Some b, Some p) \<Rightarrow> if sl_elem_size s = 0 then Some None else find_from (Some b) (sl_len s) p 0
      | _ \<Rightarrow> Some None)"

definition slice_any :: "'a slice_t \<Rightarrow> ('a \<Rightarrow> bool) option \<Rightarrow> bool option" where
  "slice_any s pred = do { p \<leftarrow> slice_find s pred; Some (p \<noteq> None) }"

subsection \<open>What a slice shows\<close>

definition slice_is :: "'a slice_t \<Rightarrow> 'a list \<Rightarrow> bool" where
  "slice_is s xs \<longleftrightarrow> sl_len s = length xs \<and> (\<exists>cap. buf_is (sl_ptr s) cap xs)"

primrec first_index :: "('a \<Rightarrow> bool) \<Rightarrow> 'a list \<Rightarrow> nat option" where
  "first_index P [] = None"
| "first_index P (x # xs) = (if P x then Some 0 else map_option Suc (first_index P xs))"

lemma first_index_None: "first_index P xs = None \<longleftrightarrow> (\<forall>x \<in> set xs. \<not> P x)"
  by (induction xs) auto

lemma first_index_Some:
  "first_index P xs = Some i \<Longrightarrow> i < length xs \<and> P (xs ! i) \<and> (\<forall>j < i. \<not> P (xs ! j))"
proof (induction xs arbitrary: i)
  case (Cons x xs)
  show ?case
  proof (cases "P x")
    case False
    with Cons.prems obtain k where "first_index P xs = Some k" "i = Suc k" by auto
    with Cons.IH [of k] False show ?thesis by (auto simp: nth_Cons split: nat.splits)
  qed (use Cons.prems in auto)
qed simp

text \<open>The search finds the first element that satisfies the predicate, if there is one.\<close>

lemma find_from_is:
  assumes d: "buf_is (Some b) cap xs" and "i \<le> length xs"
  shows "find_from (Some b) (length xs) P i =
    Some (map_option (\<lambda>k. (b, i + k)) (first_index P (drop i xs)))"
  using assms(2)
proof (induction "length xs - i" arbitrary: i)
  case 0
  then show ?case by (simp add: find_from.simps)
next
  case (Suc n)
  then have i: "i < length xs" by simp
  then have IH: "find_from (Some b) (length xs) P (Suc i) =
      Some (map_option (\<lambda>k. (b, Suc i + k)) (first_index P (drop (Suc i) xs)))"
    using Suc by (intro Suc.hyps(1)) auto
  have "drop i xs = xs ! i # drop (Suc i) xs" using i by (simp add: Cons_nth_drop_Suc)
  with i IH show ?case
    by (simp add: find_from.simps [of "Some b" "length xs" P i] block_read_is [OF d i]
        option.map_comp comp_def)
qed

lemma slice_find_is:
  assumes "slice_is s xs" and "sl_elem_size s > 0"
  shows "slice_find s (Some P) =
    Some (case sl_ptr s of None \<Rightarrow> None | Some b \<Rightarrow> map_option (Pair b) (first_index P xs))"
  using assms find_from_is [of _ _ xs 0 P]
  by (auto simp: slice_find_def slice_is_def split: option.splits)

lemma slice_get_is:
  assumes "slice_is s xs" and "sl_elem_size s > 0"
  shows "slice_get s i out =
    Some (if i < length xs then (SEQC_OK, if out then Some (xs ! i) else None) else (SEQC_NOT_FOUND, None))"
proof (cases "i < length xs")
  case True
  with assms(1) obtain b cap where "sl_ptr s = Some b" "buf_is (Some b) cap xs"
    by (cases "sl_ptr s") (auto simp: slice_is_def)
  with True assms show ?thesis
    by (simp add: slice_get_def slice_get_ptr_def slice_is_def ptr_read_def block_read_is)
next
  case False
  with assms show ?thesis
    by (auto simp: slice_get_def slice_get_ptr_def slice_is_def split: option.splits)
qed

end
