(* ===== verification/Seqc_Iter.thy ===== *)
theory Seqc_Iter
  imports Seqc_Slice
begin

section \<open>Iterators: the interface and the slice sources\<close>

text \<open>
  \<open>iter_t\<close> of \<open>include/seqc/iter.h\<close>: three function pointers (NULL is \<open>None\<close>), a state they
  act on, an element size and an allocator. The state type \<open>'s\<close> is a parameter, where the C
  struct has a \<open>void *\<close>; the functions take the state and the allocator's world, and \<open>next\<close>
  and \<open>peek\<close> return the element they wrote to \<open>out\<close>, or \<open>None\<close> for \<open>false\<close>. The functions
  of an iterator that read \<open>it->allocator\<close> are given it when the iterator is built.
  Every state that lives in an allocated block holds that block's address in a field
  \<open>self\<close>, which its \<open>destroy\<close> function frees.

  Sizes of structs are those of a target with 8-byte pointers and \<open>size_t\<close>.
\<close>

record ('a, 's, 'w) iter_t =
  it_next :: "('s \<Rightarrow> 'w \<Rightarrow> ('a option \<times> 's \<times> 'w) option) option"
  it_destroy :: "('s \<Rightarrow> 'w \<Rightarrow> 'w option) option"
  it_peek :: "('s \<Rightarrow> 'w \<Rightarrow> ('a option \<times> 's \<times> 'w) option) option"
  it_state :: "'s option"
  it_elem_size :: size_t
  it_allocator :: "'w allocator_t"

text \<open>The zero iterator, which every constructor returns when it fails.\<close>

definition iter_zero :: "('a, 's, 'w) iter_t" where
  "iter_zero = \<lparr>it_next = None, it_destroy = None, it_peek = None, it_state = None,
     it_elem_size = 0, it_allocator = None\<rparr>"

definition iter_is_valid :: "('a, 's, 'w) iter_t \<Rightarrow> bool" where
  "iter_is_valid it \<longleftrightarrow> it_next it \<noteq> None"

definition iter_next :: "('a, 's, 'w) iter_t \<Rightarrow> 'w \<Rightarrow> ('a option \<times> ('a, 's, 'w) iter_t \<times> 'w) option" where
  "iter_next it w =
     (case it_next it of
        None \<Rightarrow> Some (None, it, w)
      | Some f \<Rightarrow> do {
          s \<leftarrow> it_state it;
          (r, s', w') \<leftarrow> f s w;
          Some (r, it\<lparr>it_state := Some s'\<rparr>, w')
        })"

definition iter_destroy :: "('a, 's, 'w) iter_t \<Rightarrow> 'w \<Rightarrow> 'w option" where
  "iter_destroy it w =
     (case it_destroy it of None \<Rightarrow> Some w | Some f \<Rightarrow> do { s \<leftarrow> it_state it; f s w })"

definition iter_peek :: "('a, 's, 'w) iter_t \<Rightarrow> 'w \<Rightarrow> ('a option \<times> ('a, 's, 'w) iter_t \<times> 'w) option" where
  "iter_peek it w =
     (case it_peek it of
        None \<Rightarrow> Some (None, it, w)
      | Some f \<Rightarrow> do {
          s \<leftarrow> it_state it;
          (r, s', w') \<leftarrow> f s w;
          Some (r, it\<lparr>it_state := Some s'\<rparr>, w')
        })"

text \<open>
  The compound literal \<open>(iter_t){.next = ..., .destroy = ..., .state = s, .elem_size = ...,
  .allocator = ...}\<close> at the end of every constructor.
\<close>

definition iter_make ::
  "('s \<Rightarrow> 'w \<Rightarrow> ('a option \<times> 's \<times> 'w) option) \<Rightarrow> ('s \<Rightarrow> 'w \<Rightarrow> 'w option) \<Rightarrow> 's \<Rightarrow> size_t \<Rightarrow>
   'w allocator_t \<Rightarrow> ('a, 's, 'w) iter_t" where
  "iter_make nx dr s es al = \<lparr>it_next = Some nx, it_destroy = Some dr, it_peek = None,
     it_state = Some s, it_elem_size = es, it_allocator = al\<rparr>"

lemma iter_make_simps [simp]:
  "iter_is_valid (iter_make nx dr s es al)"
  "it_elem_size (iter_make nx dr s es al) = es"
  "it_allocator (iter_make nx dr s es al) = al"
  "iter_destroy (iter_make nx dr s es al) w = dr s w"
  "iter_next (iter_make nx dr s es al) w =
     do { (r, s', w') \<leftarrow> nx s w; Some (r, iter_make nx dr s' es al, w') }"
  by (simp_all add: iter_make_def iter_is_valid_def iter_destroy_def iter_next_def)

lemma iter_zero_simps [simp]:
  "\<not> iter_is_valid iter_zero"
  "iter_destroy iter_zero w = Some w"
  "iter_next iter_zero w = Some (None, iter_zero, w)"
  "it_elem_size iter_zero = 0"
  by (simp_all add: iter_zero_def iter_is_valid_def iter_destroy_def iter_next_def)

subsection \<open>What an iterator yields\<close>

text \<open>
  \<open>iter_closes live it B\<close>: destroying \<open>it\<close> frees exactly the blocks \<open>B\<close>.
  \<open>iter_rep live xs it B\<close>: whatever the allocator does between the calls, \<open>it\<close> yields the
  elements \<open>xs\<close>, each call defined, and then reports the end; at every moment the blocks it
  owns are those that destroying it frees.
\<close>

definition iter_closes ::
  "('w \<Rightarrow> addr \<rightharpoonup> size_t) \<Rightarrow> ('a, 's, 'w) iter_t \<Rightarrow> (addr \<rightharpoonup> size_t) \<Rightarrow> bool" where
  "iter_closes live it B \<longleftrightarrow>
     (\<forall>w R. owns (live w) R B \<longrightarrow> (\<exists>w'. iter_destroy it w = Some w' \<and> live w' = R))"

primrec iter_rep ::
  "('w \<Rightarrow> addr \<rightharpoonup> size_t) \<Rightarrow> 'a list \<Rightarrow> ('a, 's, 'w) iter_t \<Rightarrow> (addr \<rightharpoonup> size_t) \<Rightarrow> bool" where
  "iter_rep live [] it B \<longleftrightarrow> iter_closes live it B \<and>
     (\<forall>w R. owns (live w) R B \<longrightarrow>
        (\<exists>it' w' B'. iter_next it w = Some (None, it', w') \<and> owns (live w') R B' \<and> iter_closes live it' B'))"
| "iter_rep live (x # xs) it B \<longleftrightarrow> iter_closes live it B \<and>
     (\<forall>w R. owns (live w) R B \<longrightarrow>
        (\<exists>it' w' B'. iter_next it w = Some (Some x, it', w') \<and> owns (live w') R B' \<and> iter_rep live xs it' B'))"

lemma iter_rep_closes: "iter_rep live xs it B \<Longrightarrow> iter_closes live it B"
  by (cases xs) simp_all

lemma iter_destroy_closes:
  assumes "iter_closes live it B" and "owns (live w) R B"
  obtains w' where "iter_destroy it w = Some w'" and "live w' = R"
  using assms unfolding iter_closes_def by blast

text \<open>The calls of a loop that drains an iterator.\<close>

lemma iter_rep_NilE:
  assumes "iter_rep live [] it B" and "owns (live w) R B"
  obtains it' w' B' where "iter_next it w = Some (None, it', w')" and "owns (live w') R B'"
    and "iter_closes live it' B'"
proof -
  from assms(1) have "\<forall>w R. owns (live w) R B \<longrightarrow>
    (\<exists>it' w' B'. iter_next it w = Some (None, it', w') \<and> owns (live w') R B' \<and> iter_closes live it' B')"
    unfolding iter_rep.simps by (rule conjunct2)
  with assms(2) that show ?thesis by blast
qed

lemma iter_rep_ConsE:
  assumes "iter_rep live (x # xs) it B" and "owns (live w) R B"
  obtains it' w' B' where "iter_next it w = Some (Some x, it', w')" and "owns (live w') R B'"
    and "iter_rep live xs it' B'"
proof -
  from assms(1) have "\<forall>w R. owns (live w) R B \<longrightarrow>
    (\<exists>it' w' B'. iter_next it w = Some (Some x, it', w') \<and> owns (live w') R B' \<and> iter_rep live xs it' B')"
    unfolding iter_rep.simps by (rule conjunct2)
  with assms(2) that show ?thesis by blast
qed

text \<open>The same read backwards, in general and for an iterator that leaves the allocator alone.\<close>

lemma iter_rep_NilI:
  assumes "iter_closes live it B"
    and "\<And>w R. owns (live w) R B \<Longrightarrow>
      \<exists>it' w' B'. iter_next it w = Some (None, it', w') \<and> owns (live w') R B' \<and> iter_closes live it' B'"
  shows "iter_rep live [] it B"
  unfolding iter_rep.simps using assms by blast

lemma iter_rep_ConsI:
  assumes "iter_closes live it B"
    and "\<And>w R. owns (live w) R B \<Longrightarrow>
      \<exists>it' w' B'. iter_next it w = Some (Some x, it', w') \<and> owns (live w') R B' \<and> iter_rep live xs it' B'"
  shows "iter_rep live (x # xs) it B"
  unfolding iter_rep.simps using assms by blast

lemma iter_rep_Nil_still:
  assumes "iter_closes live it B" and "\<And>w. iter_next it w = Some (None, it', w)"
    and "iter_closes live it' B"
  shows "iter_rep live [] it B"
  by (rule iter_rep_NilI [OF assms(1)]) (use assms in blast)

lemma iter_rep_Cons_still:
  assumes "iter_closes live it B" and "\<And>w. iter_next it w = Some (Some x, it', w)"
    and "iter_rep live xs it' B"
  shows "iter_rep live (x # xs) it B"
  by (rule iter_rep_ConsI [OF assms(1)]) (use assms in blast)

text \<open>A failed iterator yields nothing and owns nothing.\<close>

lemma iter_closes_zero: "iter_closes live iter_zero Map.empty"
  by (simp add: iter_closes_def)

lemma iter_rep_zero: "iter_rep live [] iter_zero Map.empty"
  by (rule iter_rep_Nil_still [OF iter_closes_zero _ iter_closes_zero]) simp

subsection \<open>Slices as sources\<close>

record 'a slice_iter_state_t =
  ss_self :: addr
  ss_ptr :: "'a block option"
  ss_len :: size_t
  ss_elem_size :: size_t
  ss_pos :: size_t

definition sizeof_slice_iter_state_t :: size_t where
  "sizeof_slice_iter_state_t = 32"

lemma sizeof_slice_iter_state_t_small [simp]: "sizeof_slice_iter_state_t \<le> 256"
  by (simp add: sizeof_slice_iter_state_t_def)

definition slice_next ::
  "'a slice_iter_state_t \<Rightarrow> 'w \<Rightarrow> ('a option \<times> 'a slice_iter_state_t \<times> 'w) option" where
  "slice_next s w =
     (if ss_pos s \<ge> ss_len s then Some (None, s, w)
      else do {
        x \<leftarrow> block_read (ss_ptr s) (ss_pos s);
        Some (Some x, s\<lparr>ss_pos := Suc (ss_pos s)\<rparr>, w)
      })"

definition slice_rev_next ::
  "'a slice_iter_state_t \<Rightarrow> 'w \<Rightarrow> ('a option \<times> 'a slice_iter_state_t \<times> 'w) option" where
  "slice_rev_next s w =
     (if ss_pos s = 0 then Some (None, s, w)
      else do {
        x \<leftarrow> block_read (ss_ptr s) (ss_pos s - 1);
        Some (Some x, s\<lparr>ss_pos := ss_pos s - 1\<rparr>, w)
      })"

definition slice_drop :: "'w allocator_t \<Rightarrow> 'a slice_iter_state_t \<Rightarrow> 'w \<Rightarrow> 'w option" where
  "slice_drop al s w = mem_free al (Some (ss_self s)) sizeof_slice_iter_state_t w"

definition iter_from_slice ::
  "'a slice_t \<Rightarrow> 'w allocator_t \<Rightarrow> 'w \<Rightarrow> (('a, 'a slice_iter_state_t, 'w) iter_t \<times> 'w) option" where
  "iter_from_slice s al w = do {
     (p, w) \<leftarrow> mem_alloc al sizeof_slice_iter_state_t w;
     case p of
       None \<Rightarrow> Some (iter_zero, w)
     | Some a \<Rightarrow> Some (iter_make slice_next (slice_drop al)
         \<lparr>ss_self = a, ss_ptr = sl_ptr s, ss_len = sl_len s, ss_elem_size = sl_elem_size s, ss_pos = 0\<rparr>
         (sl_elem_size s) al, w)
   }"

definition iter_from_slice_rev ::
  "'a slice_t \<Rightarrow> 'w allocator_t \<Rightarrow> 'w \<Rightarrow> (('a, 'a slice_iter_state_t, 'w) iter_t \<times> 'w) option" where
  "iter_from_slice_rev s al w = do {
     (p, w) \<leftarrow> mem_alloc al sizeof_slice_iter_state_t w;
     case p of
       None \<Rightarrow> Some (iter_zero, w)
     | Some a \<Rightarrow> Some (iter_make slice_rev_next (slice_drop al)
         \<lparr>ss_self = a, ss_ptr = sl_ptr s, ss_len = sl_len s, ss_elem_size = sl_elem_size s, ss_pos = sl_len s\<rparr>
         (sl_elem_size s) al, w)
   }"

text \<open>
  A constructor's contract, for every source and adaptor: it either fails, leaving the
  blocks as they were, or gives a valid iterator of the wanted elements that owns its blocks.
\<close>

definition iter_built ::
  "('w \<Rightarrow> addr \<rightharpoonup> size_t) \<Rightarrow> 'w allocator_t \<Rightarrow> (addr \<rightharpoonup> size_t) \<Rightarrow> size_t \<Rightarrow> 'a list \<Rightarrow>
   (('a, 's, 'w) iter_t \<times> 'w) option \<Rightarrow> bool" where
  "iter_built live al R es xs r \<longleftrightarrow>
     (\<exists>it w'. r = Some (it, w') \<and>
        ((it = iter_zero \<and> live w' = R \<and> starved al) \<or>
         (iter_is_valid it \<and> it_elem_size it = es \<and> it_allocator it = al \<and>
          (\<exists>B. owns (live w') R B \<and> iter_rep live xs it B))))"

lemma iter_built_zero: "r = Some (iter_zero, w') \<Longrightarrow> live w' = R \<Longrightarrow> starved al \<Longrightarrow> iter_built live al R es xs r"
  by (simp add: iter_built_def)

lemma iter_built_valid:
  "r = Some (it, w') \<Longrightarrow> iter_is_valid it \<Longrightarrow> it_elem_size it = es \<Longrightarrow> owns (live w') R B \<Longrightarrow>
   iter_rep live xs it B \<Longrightarrow> it_allocator it = al \<Longrightarrow> iter_built live al R es xs r"
  unfolding iter_built_def by blast

context heap_allocator begin

text \<open>An iterator whose state is one block: what it takes to show that closing frees it.\<close>

lemma iter_closes_block:
  assumes "\<And>w. iter_destroy it w = mem_free (Some t) (Some a) n w"
  shows "iter_closes live it [a \<mapsto> n]"
  unfolding iter_closes_def
proof (intro allI impI)
  fix w R
  assume "owns (live w) R [a \<mapsto> n]"
  then obtain w' where "mem_free (Some t) (Some a) n w = Some w'" "owns (live w') R ([a \<mapsto> n](a := None))"
    by (rule owns_mem_free [where p = a and n = n]) simp
  with assms show "\<exists>w'. iter_destroy it w = Some w' \<and> live w' = R"
    by (auto simp del: mem_free.simps)
qed

lemma slice_iter_closes:
  "ss_self s = a \<Longrightarrow>
   iter_closes live (iter_make nx (slice_drop (Some t)) s es al) [a \<mapsto> sizeof_slice_iter_state_t]"
  by (rule iter_closes_block) (simp add: slice_drop_def)

lemma slice_next_end: "ss_len s \<le> ss_pos s \<Longrightarrow> slice_next s w = Some (None, s, w)"
  by (simp add: slice_next_def)

lemma slice_next_elem:
  "ss_pos s < ss_len s \<Longrightarrow> block_read (ss_ptr s) (ss_pos s) = Some x \<Longrightarrow>
   slice_next s w = Some (Some x, s\<lparr>ss_pos := Suc (ss_pos s)\<rparr>, w)"
  by (simp add: slice_next_def)

lemma slice_rev_next_end: "ss_pos s = 0 \<Longrightarrow> slice_rev_next s w = Some (None, s, w)"
  by (simp add: slice_rev_next_def)

lemma slice_rev_next_elem:
  "ss_pos s = Suc n \<Longrightarrow> block_read (ss_ptr s) n = Some x \<Longrightarrow>
   slice_rev_next s w = Some (Some x, s\<lparr>ss_pos := n\<rparr>, w)"
  by (simp add: slice_rev_next_def)

lemma slice_iter_rep:
  assumes "buf_is (ss_ptr s) cap (xs @ ys)" and "ss_len s = length (xs @ ys)"
    and "ss_pos s = length xs" and "ss_self s = a"
  shows "iter_rep live ys (iter_make slice_next (slice_drop (Some t)) s es al) [a \<mapsto> sizeof_slice_iter_state_t]"
  using assms
proof (induction ys arbitrary: xs s)
  case Nil
  then show ?case
    by (intro iter_rep_Nil_still [OF slice_iter_closes _ slice_iter_closes]) (auto simp: slice_next_end)
next
  case (Cons y ys)
  from Cons.prems have "block_read (ss_ptr s) (length xs) = Some y" by (simp add: block_read_is)
  moreover from Cons.IH [of "s\<lparr>ss_pos := Suc (ss_pos s)\<rparr>" "xs @ [y]"] Cons.prems
  have "iter_rep live ys (iter_make slice_next (slice_drop (Some t)) (s\<lparr>ss_pos := Suc (ss_pos s)\<rparr>) es al)
     [a \<mapsto> sizeof_slice_iter_state_t]" by simp
  ultimately show ?case using Cons.prems
    by (intro iter_rep_Cons_still slice_iter_closes) (auto simp: slice_next_elem)
qed

lemma slice_iter_rev_rep:
  assumes "buf_is (ss_ptr s) cap (xs @ ys)" and "ss_pos s = length xs" and "ss_self s = a"
  shows "iter_rep live (rev xs) (iter_make slice_rev_next (slice_drop (Some t)) s es al) [a \<mapsto> sizeof_slice_iter_state_t]"
  using assms
proof (induction xs arbitrary: ys s rule: rev_induct)
  case Nil
  then show ?case
    unfolding rev.simps
    by (intro iter_rep_Nil_still [OF slice_iter_closes _ slice_iter_closes]) (auto simp: slice_rev_next_end)
next
  case (snoc x xs)
  from snoc.prems have "block_read (ss_ptr s) (length xs) = Some x" by (simp add: block_read_is nth_append)
  moreover from snoc.IH [of "s\<lparr>ss_pos := ss_pos s - 1\<rparr>" "x # ys"] snoc.prems
  have "iter_rep live (rev xs) (iter_make slice_rev_next (slice_drop (Some t)) (s\<lparr>ss_pos := ss_pos s - 1\<rparr>) es al)
     [a \<mapsto> sizeof_slice_iter_state_t]" by simp
  ultimately show ?case
    unfolding rev_append rev.simps append.simps using snoc.prems
    by (intro iter_rep_Cons_still slice_iter_closes) (auto simp: slice_rev_next_elem)
qed

text \<open>The state block of a constructor that allocates one.\<close>

text \<open>A block for a state, in the presence of other blocks, and alone.\<close>

lemma state_alloc:
  assumes "owns (live w) R B"
  obtains (granted) a w' where "mem_alloc (Some t) n w = Some (Some a, w')"
      and "owns (live w') R (B(a \<mapsto> n))" and "a \<notin> dom B"
  | (refused) w' where "mem_alloc (Some t) n w = Some (None, w')" and "owns (live w') R B" and "refuses t n"
proof -
  obtain p w' where m: "mem_alloc (Some t) n w = Some (p, w')" by (cases "vt_alloc t n w") simp
  show ?thesis
  proof (cases p)
    case None
    with m have "refuses t n" by (intro refuses_alloc [of t n w w']) simp_all
    with None m owns_mem_alloc_refused [OF assms, of n w'] refused [of w'] show ?thesis by simp
  next
    case (Some a)
    with m owns_mem_alloc [OF assms, of n a w'] granted [of a w'] show ?thesis by simp
  qed
qed

lemma iter_state_alloc:
  obtains (granted) a w' where "mem_alloc (Some t) n w = Some (Some a, w')"
      and "owns (live w') (live w) [a \<mapsto> n]"
  | (refused) w' where "mem_alloc (Some t) n w = Some (None, w')" and "live w' = live w" and "refuses t n"
proof -
  obtain p w' where m: "mem_alloc (Some t) n w = Some (p, w')" by (cases "vt_alloc t n w") simp
  have o: "owns (live w) (live w) Map.empty" by simp
  show ?thesis
  proof (cases p)
    case None
    with m have "refuses t n" by (intro refuses_alloc [of t n w w']) simp_all
    with None m owns_mem_alloc_refused [OF o, of n w'] refused [of w'] show ?thesis by simp
  next
    case (Some a)
    with m owns_mem_alloc(1) [OF o, of n a w'] granted [of a w'] show ?thesis by simp
  qed
qed

lemma release_one:
  assumes "owns (live w) R [a \<mapsto> n]"
  obtains w' where "mem_free (Some t) (Some a) n w = Some w'" and "live w' = R"
  by (rule owns_mem_free [OF assms, of a n]) (simp_all add: that)

text \<open>A scratch block that is held through other steps is released.\<close>

lemma release_held:
  assumes "owns (live w) (R(a \<mapsto> n)) A" and "a \<notin> dom R"
  obtains w' where "mem_free (Some t) (Some a) n w = Some w'" and "owns (live w') R A"
proof -
  have o: "owns (live w) R (A(a \<mapsto> n))" by (rule owns_unhold [OF assms])
  obtain w' where w': "mem_free (Some t) (Some a) n w = Some w'" "owns (live w') R ((A(a \<mapsto> n))(a := None))"
    by (rule owns_mem_free [OF o, of a n]) simp_all
  have "(A(a \<mapsto> n))(a := None) = A"
    using owns_held [OF assms(1)] by (auto simp: fun_eq_iff fun_upd_apply)
  with w' that show ?thesis by simp
qed

text \<open>A scratch block taken while two objects are alive.\<close>

lemma hold_alloc:
  assumes "owns2 (live w) R A B"
  obtains (granted) a w' where "mem_alloc (Some t) n w = Some (Some a, w')"
      and "owns2 (live w') (R(a \<mapsto> n)) A B" and "a \<notin> dom R"
  | (refused) w' where "mem_alloc (Some t) n w = Some (None, w')" and "owns2 (live w') R A B" and "refuses t n"
proof -
  obtain p w' where m: "mem_alloc (Some t) n w = Some (p, w')" by (cases "vt_alloc t n w") simp
  show ?thesis
  proof (cases p)
    case None
    with m have "live w' = live w" "refuses t n" using alloc_refused by (auto intro: refuses_alloc [of t n w w'])
    with m None assms show ?thesis by (intro refused [of w']) simp_all
  next
    case (Some a)
    with m have g: "a \<notin> dom (live w)" "live w' = (live w)(a \<mapsto> n)" using alloc_granted by auto
    have "a \<notin> dom R" using g(1) assms by (auto simp: owns2_def owns_def)
    with m Some owns2_hold [OF assms g(1), of n] g(2) show ?thesis by (intro granted [of a w']) simp_all
  qed
qed

lemma iter_from_slice_built:
  assumes "slice_is s xs"
  shows "iter_built live (Some t) (live w) (sl_elem_size s) xs (iter_from_slice s (Some t) w)"
proof (rule iter_state_alloc [of sizeof_slice_iter_state_t w])
  fix a w'
  assume m: "mem_alloc (Some t) sizeof_slice_iter_state_t w = Some (Some a, w')"
    and o: "owns (live w') (live w) [a \<mapsto> sizeof_slice_iter_state_t]"
  from assms obtain cap where "buf_is (sl_ptr s) cap ([] @ xs)" "sl_len s = length xs"
    by (auto simp: slice_is_def)
  then show ?thesis
    by (intro iter_built_valid [OF _ _ _ o slice_iter_rep])
      (auto simp: iter_from_slice_def m simp del: mem_alloc.simps)
next
  fix w'
  assume "mem_alloc (Some t) sizeof_slice_iter_state_t w = Some (None, w')" "live w' = live w" "refuses t sizeof_slice_iter_state_t"
  then show ?thesis
    by (intro iter_built_zero [of _ w']) (simp_all add: iter_from_slice_def starved_small del: mem_alloc.simps)
qed

lemma iter_from_slice_rev_built:
  assumes "slice_is s xs"
  shows "iter_built live (Some t) (live w) (sl_elem_size s) (rev xs) (iter_from_slice_rev s (Some t) w)"
proof (rule iter_state_alloc [of sizeof_slice_iter_state_t w])
  fix a w'
  assume m: "mem_alloc (Some t) sizeof_slice_iter_state_t w = Some (Some a, w')"
    and o: "owns (live w') (live w) [a \<mapsto> sizeof_slice_iter_state_t]"
  from assms obtain cap where "buf_is (sl_ptr s) cap (xs @ [])" "sl_len s = length xs"
    by (auto simp: slice_is_def)
  then show ?thesis
    by (intro iter_built_valid [OF _ _ _ o slice_iter_rev_rep [where ys = "[]"]])
      (auto simp: iter_from_slice_rev_def m simp del: mem_alloc.simps)
next
  fix w'
  assume "mem_alloc (Some t) sizeof_slice_iter_state_t w = Some (None, w')" "live w' = live w" "refuses t sizeof_slice_iter_state_t"
  then show ?thesis
    by (intro iter_built_zero [of _ w']) (simp_all add: iter_from_slice_rev_def starved_small del: mem_alloc.simps)
qed

end

end
