(* ===== verification/Seqc_Compare.thy ===== *)
theory Seqc_Compare
  imports Seqc_Prelude
begin

section \<open>Comparison functions\<close>

text \<open>
  \<open>compare_fn\<close> of \<open>include/seqc/iter.h\<close>: negative, zero or positive. The library's ordered
  containers and \<open>qsort\<close> rely on such a function being a total preorder; elements that compare
  equal need not be equal. The comparison function of the README's example and of the tests,
  \<open>(x > y) - (x < y)\<close>, is one.
\<close>

type_synonym 'a compare_fn = "'a \<Rightarrow> 'a \<Rightarrow> int"

locale compare_order =
  fixes cmp :: "'a compare_fn"
  assumes cmp_sym: "sgn (cmp a b) = - sgn (cmp b a)"
    and cmp_trans: "cmp a b \<le> 0 \<Longrightarrow> cmp b c \<le> 0 \<Longrightarrow> cmp a c \<le> 0"
begin

lemma cmp_refl: "cmp a a = 0"
  using cmp_sym [of a a] by (simp add: sgn_if split: if_splits)

lemma cmp_gt_iff: "0 < cmp a b \<longleftrightarrow> cmp b a < 0"
  using cmp_sym [of a b] by (auto simp: sgn_if split: if_splits)

lemma cmp_zero_iff: "cmp a b = 0 \<longleftrightarrow> cmp b a = 0"
  using cmp_sym [of a b] by (auto simp: sgn_if split: if_splits)

lemma cmp_less_flip: "cmp a b < 0 \<Longrightarrow> 0 < cmp b a"
  by (simp add: cmp_gt_iff)

lemma cmp_total: "cmp a b \<le> 0 \<or> cmp b a \<le> 0"
  using cmp_gt_iff [of a b] by linarith

lemma cmp_not_less: "\<not> cmp a b < 0 \<longleftrightarrow> cmp b a \<le> 0"
  using cmp_gt_iff [of b a] cmp_zero_iff [of a b] by linarith

lemma cmp_less_trans1: "cmp a b < 0 \<Longrightarrow> cmp b c \<le> 0 \<Longrightarrow> cmp a c < 0"
  using cmp_trans [of b c a] cmp_not_less [of a c] cmp_not_less [of a b] by linarith

lemma cmp_less_trans2: "cmp a b \<le> 0 \<Longrightarrow> cmp b c < 0 \<Longrightarrow> cmp a c < 0"
  using cmp_trans [of c a b] cmp_not_less [of a c] cmp_not_less [of b c] by linarith

lemma cmp_less_trans: "cmp a b < 0 \<Longrightarrow> cmp b c < 0 \<Longrightarrow> cmp a c < 0"
  by (rule cmp_less_trans1 [OF _ less_imp_le])

lemma cmp_equal_left: "cmp a b = 0 \<Longrightarrow> cmp a c < 0 \<longleftrightarrow> cmp b c < 0"
  using cmp_less_trans2 [of a b c] cmp_less_trans2 [of b a c] cmp_zero_iff [of a b] by auto

lemma cmp_equal_right: "cmp a b = 0 \<Longrightarrow> cmp c a < 0 \<longleftrightarrow> cmp c b < 0"
  using cmp_less_trans1 [of c a b] cmp_less_trans1 [of c b a] cmp_zero_iff [of a b] by auto

lemma cmp_equal_trans: "cmp a b = 0 \<Longrightarrow> cmp b c = 0 \<Longrightarrow> cmp a c = 0"
  using cmp_trans [of a b c] cmp_trans [of c b a] cmp_zero_iff [of a b] cmp_zero_iff [of b c]
    cmp_gt_iff [of a c] cmp_zero_iff [of a c] by linarith

end

definition int_cmp :: "int compare_fn" where
  "int_cmp x y = (if x > y then 1 else 0) - (if x < y then 1 else 0)"

interpretation int_cmp: compare_order int_cmp
  by unfold_locales (auto simp: int_cmp_def split: if_splits)

subsection \<open>The C library's \<open>qsort\<close>\<close>

text \<open>
  \<open>qsort\<close> is a parameter of the operations that call it. What the C standard promises of it
  for a comparison function that is a total preorder: the same elements, in ascending order.
\<close>

type_synonym 'a qsort_fn = "'a compare_fn \<Rightarrow> 'a list \<Rightarrow> 'a list"

definition qsort_ok :: "'a qsort_fn \<Rightarrow> bool" where
  "qsort_ok qsort \<longleftrightarrow>
     (\<forall>cmp xs. compare_order cmp \<longrightarrow>
        mset (qsort cmp xs) = mset xs \<and> sorted_wrt (\<lambda>a b. cmp a b \<le> 0) (qsort cmp xs))"

lemma qsort_ok_mset: "qsort_ok qsort \<Longrightarrow> compare_order cmp \<Longrightarrow> mset (qsort cmp xs) = mset xs"
  by (simp add: qsort_ok_def)

lemma qsort_ok_sorted:
  "qsort_ok qsort \<Longrightarrow> compare_order cmp \<Longrightarrow> sorted_wrt (\<lambda>a b. cmp a b \<le> 0) (qsort cmp xs)"
  by (simp add: qsort_ok_def)

lemma qsort_ok_length: "qsort_ok qsort \<Longrightarrow> compare_order cmp \<Longrightarrow> length (qsort cmp xs) = length xs"
  by (rule mset_eq_length) (rule qsort_ok_mset)

text \<open>A function that meets this contract: insertion sort.\<close>

fun insert_by :: "'a compare_fn \<Rightarrow> 'a \<Rightarrow> 'a list \<Rightarrow> 'a list" where
  "insert_by cmp x [] = [x]"
| "insert_by cmp x (y # ys) = (if cmp x y \<le> 0 then x # y # ys else y # insert_by cmp x ys)"

definition insertion_sort :: "'a qsort_fn" where
  "insertion_sort cmp xs = foldr (insert_by cmp) xs []"

lemma mset_insert_by: "mset (insert_by cmp x ys) = add_mset x (mset ys)"
  by (induction ys) auto

lemma sorted_insert_by:
  assumes "compare_order cmp" and "sorted_wrt (\<lambda>a b. cmp a b \<le> 0) ys"
  shows "sorted_wrt (\<lambda>a b. cmp a b \<le> 0) (insert_by cmp x ys)"
  using assms(2)
proof (induction ys)
  case (Cons y ys)
  have s: "set (insert_by cmp x ys) = insert x (set ys)"
    by (metis mset_insert_by set_mset_add_mset_insert set_mset_mset)
  show ?case
  proof (cases "cmp x y \<le> 0")
    case True
    then show ?thesis using Cons.prems compare_order.cmp_trans [OF assms(1), of x y] by auto
  next
    case False
    then have "cmp y x \<le> 0" using compare_order.cmp_total [OF assms(1), of x y] by blast
    with False Cons s show ?thesis by auto
  qed
qed simp

lemma qsort_ok_insertion_sort: "qsort_ok insertion_sort"
  unfolding qsort_ok_def insertion_sort_def
proof (intro allI impI conjI)
  fix cmp :: "'a compare_fn" and xs
  assume c: "compare_order cmp"
  show "mset (foldr (insert_by cmp) xs []) = mset xs"
    by (induction xs) (simp_all add: mset_insert_by)
  show "sorted_wrt (\<lambda>a b. cmp a b \<le> 0) (foldr (insert_by cmp) xs [])"
    by (induction xs) (simp_all add: sorted_insert_by [OF c])
qed

end
