(* ===== verification/Seqc_Vec.thy ===== *)
theory Seqc_Vec
  imports Seqc_Iter Seqc_Compare
begin

section \<open>The growable array\<close>

text \<open>
  \<open>src/vec/vec.c\<close>. A handle \<open>vec_t *\<close> is an option, \<open>None\<close> for NULL; the struct's own block is
  at \<open>v_self\<close>. An operation that changes the vector returns the new one. Elements passed by
  pointer are options, \<open>None\<close> for NULL; a flag \<open>out\<close> tells whether an output pointer is
  non-NULL, and the element written through it is part of the result.
\<close>

definition INITIAL_CAP :: size_t where
  "INITIAL_CAP = 16"

record ('a, 'w) vec_t =
  v_self :: addr
  v_data :: "'a block option"
  v_len :: size_t
  v_cap :: size_t
  v_elem_size :: size_t
  v_alloc :: "'w allocator_t"

definition sizeof_vec_t :: size_t where
  "sizeof_vec_t = 48"

lemma sizeof_vec_t_small [simp]: "sizeof_vec_t \<le> 256"
  by (simp add: sizeof_vec_t_def)

subsection \<open>Operations\<close>

definition vec_create :: "size_t \<Rightarrow> 'w allocator_t \<Rightarrow> 'w \<Rightarrow> (('a, 'w) vec_t option \<times> 'w) option" where
  "vec_create es al w =
     (if es = 0 \<or> al = None then Some (None, w)
      else do {
        (p, w) \<leftarrow> mem_alloc al sizeof_vec_t w;
        case p of
          None \<Rightarrow> Some (None, w)
        | Some a \<Rightarrow> Some (Some \<lparr>v_self = a, v_data = None, v_len = 0, v_cap = 0,
            v_elem_size = es, v_alloc = al\<rparr>, w)
      })"

definition vec_create_with_cap ::
  "size_t \<Rightarrow> size_t \<Rightarrow> 'w allocator_t \<Rightarrow> 'w \<Rightarrow> (('a, 'w) vec_t option \<times> 'w) option" where
  "vec_create_with_cap es capacity al w =
     (if es = 0 \<or> capacity = 0 \<or> al = None then Some (None, w)
      else do {
        (p, w) \<leftarrow> mem_alloc al sizeof_vec_t w;
        case p of
          None \<Rightarrow> Some (None, w)
        | Some a \<Rightarrow> do {
            (d, w) \<leftarrow> block_alloc al es (wmul capacity es) w;
            if d = None then do { w \<leftarrow> mem_free al (Some a) sizeof_vec_t w; Some (None, w) }
            else Some (Some \<lparr>v_self = a, v_data = d, v_len = 0, v_cap = capacity,
              v_elem_size = es, v_alloc = al\<rparr>, w)
          }
      })"

definition vec_len :: "('a, 'w) vec_t option \<Rightarrow> size_t" where
  "vec_len v = (case v of None \<Rightarrow> 0 | Some u \<Rightarrow> v_len u)"

definition vec_elem_size :: "('a, 'w) vec_t option \<Rightarrow> size_t" where
  "vec_elem_size v = (case v of None \<Rightarrow> 0 | Some u \<Rightarrow> v_elem_size u)"

definition vec_cap :: "('a, 'w) vec_t option \<Rightarrow> size_t" where
  "vec_cap v = (case v of None \<Rightarrow> 0 | Some u \<Rightarrow> v_cap u)"

text \<open>
  \<open>vec_push\<close>: \<open>vec_push_grow\<close> is its first \<open>if\<close>, which makes room when the vector is full.
\<close>

definition vec_push_grow :: "('a, 'w) vec_t \<Rightarrow> 'w \<Rightarrow> (seqc_status_t \<times> ('a, 'w) vec_t \<times> 'w) option" where
  "vec_push_grow u w =
     (if v_len u = v_cap u then
        if v_cap u > SIZE_MAX div 2 then Some (SEQC_OOM, u, w)
        else let new_cap = (if v_cap u = 0 then INITIAL_CAP else wmul (v_cap u) 2) in do {
          (nd, w) \<leftarrow> block_realloc (v_alloc u) (v_elem_size u) (v_data u)
             (wmul (v_len u) (v_elem_size u)) (wmul new_cap (v_elem_size u)) w;
          if nd = None then Some (SEQC_OOM, u, w)
          else Some (SEQC_OK, u\<lparr>v_data := nd, v_cap := new_cap\<rparr>, w)
        }
      else Some (SEQC_OK, u, w))"

definition vec_push ::
  "('a, 'w) vec_t option \<Rightarrow> 'a option \<Rightarrow> 'w \<Rightarrow> (seqc_status_t \<times> ('a, 'w) vec_t option \<times> 'w) option" where
  "vec_push v elem w =
     (case (v, elem) of
        (Some u, Some x) \<Rightarrow> do {
          (st, u, w) \<leftarrow> vec_push_grow u w;
          if st \<noteq> SEQC_OK then Some (st, Some u, w)
          else do {
            d \<leftarrow> block_write (v_data u) (v_len u) x;
            Some (SEQC_OK, Some (u\<lparr>v_data := d, v_len := Suc (v_len u)\<rparr>), w)
          }
        }
      | _ \<Rightarrow> Some (SEQC_INVALID, v, w))"

definition vec_get_ptr :: "('a, 'w) vec_t option \<Rightarrow> size_t \<Rightarrow> 'a elem_ptr option" where
  "vec_get_ptr v i =
     (case v of
        None \<Rightarrow> None
      | Some u \<Rightarrow> if i \<ge> v_len u then None else map_option (\<lambda>b. (b, i)) (v_data u))"

definition vec_get :: "('a, 'w) vec_t option \<Rightarrow> size_t \<Rightarrow> bool \<Rightarrow> (seqc_status_t \<times> 'a option) option" where
  "vec_get v i out =
     (case v of
        None \<Rightarrow> Some (SEQC_INVALID, None)
      | Some u \<Rightarrow> seqc_copy_out (map_option ptr_read (vec_get_ptr v i)) out)"

definition vec_as_slice :: "('a, 'w) vec_t option \<Rightarrow> 'a slice_t" where
  "vec_as_slice v =
     (case v of
        None \<Rightarrow> \<lparr>sl_ptr = None, sl_len = 0, sl_elem_size = 0\<rparr>
      | Some u \<Rightarrow> \<lparr>sl_ptr = v_data u, sl_len = v_len u, sl_elem_size = v_elem_size u\<rparr>)"

definition vec_iter ::
  "('a, 'w) vec_t option \<Rightarrow> 'w \<Rightarrow> (('a, 'a slice_iter_state_t, 'w) iter_t \<times> 'w) option" where
  "vec_iter v w =
     (case v of None \<Rightarrow> Some (iter_zero, w) | Some u \<Rightarrow> iter_from_slice (vec_as_slice v) (v_alloc u) w)"

definition vec_iter_rev ::
  "('a, 'w) vec_t option \<Rightarrow> 'w \<Rightarrow> (('a, 'a slice_iter_state_t, 'w) iter_t \<times> 'w) option" where
  "vec_iter_rev v w =
     (case v of None \<Rightarrow> Some (iter_zero, w) | Some u \<Rightarrow> iter_from_slice_rev (vec_as_slice v) (v_alloc u) w)"

definition vec_pop ::
  "('a, 'w) vec_t option \<Rightarrow> bool \<Rightarrow> (seqc_status_t \<times> 'a option \<times> ('a, 'w) vec_t option) option" where
  "vec_pop v out =
     (case v of
        None \<Rightarrow> Some (SEQC_NOT_FOUND, None, None)
      | Some u \<Rightarrow>
          if v_len u = 0 then Some (SEQC_NOT_FOUND, None, v)
          else let u = u\<lparr>v_len := v_len u - 1\<rparr> in
            if out then do {
              x \<leftarrow> block_read (v_data u) (v_len u);
              Some (SEQC_OK, Some x, Some u)
            } else Some (SEQC_OK, None, Some u))"

definition vec_set ::
  "('a, 'w) vec_t option \<Rightarrow> size_t \<Rightarrow> 'a option \<Rightarrow> ('a, 'w) vec_t option option" where
  "vec_set v i elem =
     (case (v, elem) of
        (Some u, Some x) \<Rightarrow>
          if i \<ge> v_len u then Some v
          else do { d \<leftarrow> block_write (v_data u) i x; Some (Some (u\<lparr>v_data := d\<rparr>)) }
      | _ \<Rightarrow> Some v)"

definition vec_reserve ::
  "('a, 'w) vec_t option \<Rightarrow> size_t \<Rightarrow> 'w \<Rightarrow> (seqc_status_t \<times> ('a, 'w) vec_t option \<times> 'w) option" where
  "vec_reserve v capacity w =
     (case v of
        None \<Rightarrow> Some (SEQC_INVALID, None, w)
      | Some u \<Rightarrow>
          if capacity \<le> v_cap u then Some (SEQC_OK, v, w)
          else do {
            (nd, w) \<leftarrow> block_realloc (v_alloc u) (v_elem_size u) (v_data u)
               (wmul (v_len u) (v_elem_size u)) (wmul capacity (v_elem_size u)) w;
            if nd = None then Some (SEQC_OOM, v, w)
            else Some (SEQC_OK, Some (u\<lparr>v_data := nd, v_cap := capacity\<rparr>), w)
          })"

definition vec_insert ::
  "('a, 'w) vec_t option \<Rightarrow> size_t \<Rightarrow> 'a option \<Rightarrow> 'w \<Rightarrow> (seqc_status_t \<times> ('a, 'w) vec_t option \<times> 'w) option" where
  "vec_insert v i elem w =
     (case (v, elem) of
        (Some u, Some x) \<Rightarrow>
          if i > v_len u then Some (SEQC_INVALID, v, w)
          else do {
            (st, v, w) \<leftarrow>
              (if v_len u = v_cap u
               then vec_reserve v (if v_cap u = 0 then INITIAL_CAP else wmul (v_cap u) 2) w
               else Some (SEQC_OK, v, w));
            if st \<noteq> SEQC_OK then Some (st, v, w)
            else do {
              u \<leftarrow> v;
              d \<leftarrow> block_move (v_data u) (Suc i) i (v_len u - i);
              d \<leftarrow> block_write d i x;
              Some (SEQC_OK, Some (u\<lparr>v_data := d, v_len := Suc (v_len u)\<rparr>), w)
            }
          }
      | _ \<Rightarrow> Some (SEQC_INVALID, v, w))"

definition vec_remove :: "('a, 'w) vec_t option \<Rightarrow> size_t \<Rightarrow> ('a, 'w) vec_t option option" where
  "vec_remove v i =
     (case v of
        None \<Rightarrow> Some None
      | Some u \<Rightarrow>
          if i \<ge> v_len u then Some v
          else do {
            d \<leftarrow> block_move (v_data u) i (Suc i) (v_len u - i - 1);
            Some (Some (u\<lparr>v_data := d, v_len := v_len u - 1\<rparr>))
          })"

definition vec_clear :: "('a, 'w) vec_t option \<Rightarrow> ('a, 'w) vec_t option" where
  "vec_clear v = map_option (\<lambda>u. u\<lparr>v_len := 0\<rparr>) v"

definition vec_truncate :: "('a, 'w) vec_t option \<Rightarrow> size_t \<Rightarrow> ('a, 'w) vec_t option" where
  "vec_truncate v len = map_option (\<lambda>u. if len < v_len u then u\<lparr>v_len := len\<rparr> else u) v"

definition vec_find :: "('a, 'w) vec_t option \<Rightarrow> ('a \<Rightarrow> bool) option \<Rightarrow> 'a elem_ptr option option" where
  "vec_find v pred =
     (case (v, pred) of
        (Some u, Some P) \<Rightarrow> find_from (v_data u) (v_len u) P 0
      | _ \<Rightarrow> Some None)"

definition vec_any :: "('a, 'w) vec_t option \<Rightarrow> ('a \<Rightarrow> bool) option \<Rightarrow> bool option" where
  "vec_any v pred = do { p \<leftarrow> vec_find v pred; Some (p \<noteq> None) }"

definition vec_destroy :: "('a, 'w) vec_t option \<Rightarrow> 'w \<Rightarrow> 'w option" where
  "vec_destroy v w =
     (case v of
        None \<Rightarrow> Some w
      | Some u \<Rightarrow> do {
          w \<leftarrow> (if v_data u = None then Some w
                else block_free (v_alloc u) (v_data u) (wmul (v_cap u) (v_elem_size u)) w);
          mem_free (v_alloc u) (Some (v_self u)) sizeof_vec_t w
        })"

text \<open>
  \<open>vec_sort\<close> hands the first \<open>len\<close> cells to the C library's \<open>qsort\<close>, a parameter: the standard
  fixes what it returns only up to the order of elements that compare equal.
\<close>

definition vec_sort ::
  "'a qsort_fn \<Rightarrow> ('a, 'w) vec_t option \<Rightarrow> 'a compare_fn option \<Rightarrow> ('a, 'w) vec_t option option" where
  "vec_sort qsort v cmp =
     (case (v, cmp) of
        (Some u, Some c) \<Rightarrow>
          if v_len u < 2 then Some v
          else do {
            b \<leftarrow> v_data u;
            xs \<leftarrow> those (take (v_len u) (cells b));
            Some (Some (u\<lparr>v_data := Some (b\<lparr>cells := overwrite (cells b) 0 (map Some (qsort c xs))\<rparr>)\<rparr>))
          }
      | _ \<Rightarrow> Some v)"

partial_function (option) vec_extend_loop ::
  "('a, 's, 'w) iter_t \<Rightarrow> ('a, 'w) vec_t option \<Rightarrow> 'w \<Rightarrow>
   (seqc_status_t \<times> ('a, 's, 'w) iter_t \<times> ('a, 'w) vec_t option \<times> 'w) option" where
  "vec_extend_loop it v w = do {
     (r, it, w) \<leftarrow> iter_next it w;
     case r of
       None \<Rightarrow> Some (SEQC_OK, it, v, w)
     | Some x \<Rightarrow> do {
         (st, v, w) \<leftarrow> vec_push v (Some x) w;
         if st \<noteq> SEQC_OK then Some (st, it, v, w) else vec_extend_loop it v w
       }
   }"

definition vec_extend ::
  "('a, 'w) vec_t option \<Rightarrow> ('a, 's, 'w) iter_t \<Rightarrow> 'w \<Rightarrow> (seqc_status_t \<times> ('a, 'w) vec_t option \<times> 'w) option" where
  "vec_extend v it w =
     (if v = None \<or> \<not> iter_is_valid it \<or> it_elem_size it \<noteq> vec_elem_size v then do {
        w \<leftarrow> iter_destroy it w;
        Some (SEQC_INVALID, v, w)
      } else do {
        u \<leftarrow> v;
        (p, w) \<leftarrow> mem_alloc (v_alloc u) (v_elem_size u) w;
        case p of
          None \<Rightarrow> do { w \<leftarrow> iter_destroy it w; Some (SEQC_OOM, v, w) }
        | Some a \<Rightarrow> do {
            (st, it, v, w) \<leftarrow> vec_extend_loop it v w;
            w \<leftarrow> iter_destroy it w;
            u \<leftarrow> v;
            w \<leftarrow> mem_free (v_alloc u) (Some a) (v_elem_size u) w;
            Some (st, v, w)
          }
      })"

definition vec_is_empty :: "('a, 'w) vec_t option \<Rightarrow> bool" where
  "vec_is_empty v = (case v of None \<Rightarrow> True | Some u \<Rightarrow> v_len u = 0)"

subsection \<open>The invariant\<close>

text \<open>
  \<open>vec_is t v xs\<close>: \<open>v\<close> holds the elements \<open>xs\<close>, and its fields agree with its buffer.
  \<open>vec_at t live R w v xs\<close> adds that \<open>v\<close> owns its struct and its buffer, next to the blocks \<open>R\<close>.
\<close>

definition vec_is :: "'w vtable \<Rightarrow> ('a, 'w) vec_t \<Rightarrow> 'a list \<Rightarrow> bool" where
  "vec_is t v xs \<longleftrightarrow>
     v_alloc v = Some t \<and> elem_size_ok (v_elem_size v) \<and> v_len v = length xs \<and>
     buf_is (v_data v) (v_cap v) xs \<and> v_cap v * v_elem_size v \<le> PTRDIFF_MAX \<and>
     apart [v_self v \<mapsto> sizeof_vec_t] (v_data v)"

definition vec_blocks :: "('a, 'w) vec_t \<Rightarrow> (addr \<rightharpoonup> size_t)" where
  "vec_blocks v = own_block [v_self v \<mapsto> sizeof_vec_t] (v_data v) (v_cap v * v_elem_size v)"

definition vec_at ::
  "'w vtable \<Rightarrow> ('w \<Rightarrow> addr \<rightharpoonup> size_t) \<Rightarrow> (addr \<rightharpoonup> size_t) \<Rightarrow> 'w \<Rightarrow> ('a, 'w) vec_t \<Rightarrow> 'a list \<Rightarrow> bool" where
  "vec_at t live R w v xs \<longleftrightarrow> vec_is t v xs \<and> owns (live w) R (vec_blocks v)"

text \<open>The fields that no operation on the elements changes.\<close>

definition vec_same :: "('a, 'w) vec_t \<Rightarrow> ('a, 'w) vec_t \<Rightarrow> bool" where
  "vec_same v v' \<longleftrightarrow> v_self v' = v_self v \<and> v_elem_size v' = v_elem_size v \<and> v_alloc v' = v_alloc v"

lemma vec_same_refl [simp]: "vec_same v v"
  by (simp add: vec_same_def)

lemma vec_same_trans: "vec_same u v \<Longrightarrow> vec_same v w \<Longrightarrow> vec_same u w"
  by (simp add: vec_same_def)

lemma vec_is_elem_size: "vec_is t v xs \<Longrightarrow> v_elem_size v \<le> PTRDIFF_MAX"
  by (simp add: vec_is_def elem_size_ok_def PTRDIFF_MAX_def)

lemma vec_is_len: "vec_is t v xs \<Longrightarrow> vec_len (Some v) = length xs"
  by (simp add: vec_is_def vec_len_def)

lemma vec_is_cap: "vec_is t v xs \<Longrightarrow> length xs \<le> v_cap v"
  by (auto simp: vec_is_def dest: buf_is_len)

lemma vec_is_data: "vec_is t v xs \<Longrightarrow> xs \<noteq> [] \<Longrightarrow> \<exists>b. v_data v = Some b"
  by (cases "v_data v") (auto simp: vec_is_def)

text \<open>Replacing the contents of the buffer, in place.\<close>

lemma vec_at_update:
  assumes "vec_at t live R w v xs" and "buf_is d (v_cap v) ys"
    and "map_option blk_addr d = map_option blk_addr (v_data v)" and "n = length ys"
  shows "vec_at t live R w (v\<lparr>v_data := d, v_len := n\<rparr>) ys"
  using assms own_block_same_addr [OF assms(3)]
  by (simp add: vec_at_def vec_is_def vec_blocks_def)

lemma vec_at_shrink:
  assumes "vec_at t live R w v (xs @ ys)"
  shows "vec_at t live R w (v\<lparr>v_len := length xs\<rparr>) xs"
  using vec_at_update [OF assms, of "v_data v" xs "length xs"] assms
  by (auto simp: vec_at_def vec_is_def dest: buf_is_prefix)

subsection \<open>Reading\<close>

lemma vec_get_is:
  assumes "vec_is t v xs"
  shows "vec_get (Some v) i out =
    Some (if i < length xs then (SEQC_OK, if out then Some (xs ! i) else None) else (SEQC_NOT_FOUND, None))"
proof (cases "i < length xs")
  case True
  then obtain b where b: "v_data v = Some b" using vec_is_data [OF assms] by fastforce
  with assms True have "block_read (Some b) i = Some (xs ! i)"
    by (auto simp: vec_is_def intro: block_read_is)
  with True assms b show ?thesis by (simp add: vec_get_def vec_get_ptr_def vec_is_def ptr_read_def)
next
  case False
  with assms show ?thesis by (simp add: vec_get_def vec_get_ptr_def vec_is_def)
qed

lemma vec_as_slice_is: "vec_is t v xs \<Longrightarrow> slice_is (vec_as_slice (Some v)) xs"
  by (auto simp: vec_is_def vec_as_slice_def slice_is_def)

lemma vec_find_is:
  assumes "vec_is t v xs"
  shows "vec_find (Some v) (Some P) =
    Some (case v_data v of None \<Rightarrow> None | Some b \<Rightarrow> map_option (Pair b) (first_index P xs))"
proof (cases "v_data v")
  case None
  with assms show ?thesis by (simp add: vec_is_def vec_find_def find_from.simps)
next
  case (Some b)
  with assms show ?thesis
    using find_from_is [of b "v_cap v" xs 0 P] by (simp add: vec_is_def vec_find_def)
qed

lemma vec_any_is:
  assumes "vec_is t v xs"
  shows "vec_any (Some v) (Some P) = Some (\<exists>x \<in> set xs. P x)"
proof -
  have "xs = [] \<or> (\<exists>b. v_data v = Some b)" using vec_is_data [OF assms] by blast
  then show ?thesis
    unfolding vec_any_def vec_find_is [OF assms]
    using first_index_None [of P xs] by (auto split: option.splits)
qed

subsection \<open>Writing and shrinking\<close>

lemma vec_pop_snoc:
  assumes "vec_at t live R w v (xs @ [x])"
  shows "vec_pop (Some v) out =
      Some (SEQC_OK, if out then Some x else None, Some (v\<lparr>v_len := length xs\<rparr>))"
    and "vec_at t live R w (v\<lparr>v_len := length xs\<rparr>) xs"
proof -
  from assms have "block_read (v_data v) (length xs) = Some x"
    by (auto simp: vec_at_def vec_is_def block_read_is)
  with assms show "vec_pop (Some v) out =
      Some (SEQC_OK, if out then Some x else None, Some (v\<lparr>v_len := length xs\<rparr>))"
    by (simp add: vec_pop_def vec_at_def vec_is_def Let_def)
  show "vec_at t live R w (v\<lparr>v_len := length xs\<rparr>) xs" by (rule vec_at_shrink [OF assms])
qed

lemma vec_pop_empty: "vec_is t v [] \<Longrightarrow> vec_pop (Some v) out = Some (SEQC_NOT_FOUND, None, Some v)"
  by (simp add: vec_pop_def vec_is_def)

lemma vec_set_at:
  assumes "vec_at t live R w v xs" and "i < length xs"
  obtains v' where "vec_set (Some v) i (Some x) = Some (Some v')"
    and "vec_at t live R w v' (xs[i := x])" and "vec_same v v'"
proof -
  from assms have "buf_is (v_data v) (v_cap v) xs" by (simp add: vec_at_def vec_is_def)
  then obtain d where d: "block_write (v_data v) i x = Some d" "buf_is d (v_cap v) (xs[i := x])"
      "map_option blk_addr d = map_option blk_addr (v_data v)"
    using assms(2) by (rule block_write_is)
  have "vec_at t live R w (v\<lparr>v_data := d, v_len := length xs\<rparr>) (xs[i := x])"
    by (rule vec_at_update [OF assms(1) d(2,3)]) simp
  moreover have "v\<lparr>v_data := d, v_len := length xs\<rparr> = v\<lparr>v_data := d\<rparr>"
    using assms(1) by (simp add: vec_at_def vec_is_def)
  ultimately have "vec_at t live R w (v\<lparr>v_data := d\<rparr>) (xs[i := x])" by simp
  then show ?thesis
    using that assms d(1) by (simp add: vec_set_def vec_at_def vec_is_def vec_same_def)
qed

lemma vec_truncate_at:
  assumes "vec_at t live R w v xs"
  obtains v' where "vec_truncate (Some v) n = Some v'" and "vec_at t live R w v' (take n xs)" and "vec_same v v'"
proof (cases "n < length xs")
  case True
  with assms have "vec_at t live R w (v\<lparr>v_len := n\<rparr>) (take n xs)"
    using vec_at_shrink [of t live R w v "take n xs" "drop n xs"] by simp
  moreover have "vec_truncate (Some v) n = Some (v\<lparr>v_len := n\<rparr>)"
    using True assms by (simp add: vec_truncate_def vec_at_def vec_is_def)
  ultimately show ?thesis using that by (simp add: vec_same_def)
next
  case False
  then have "vec_truncate (Some v) n = Some v" using assms by (simp add: vec_truncate_def vec_at_def vec_is_def)
  then show ?thesis by (rule that) (use False assms in simp_all)
qed

lemma vec_clear_at:
  "vec_at t live R w v xs \<Longrightarrow> vec_at t live R w (v\<lparr>v_len := 0\<rparr>) []"
  using vec_at_shrink [of t live R w v "[]" xs] by simp

lemma block_move_left_is:
  assumes "buf_is d cap (xs @ y # ys)"
  obtains d' where "block_move d (length xs) (Suc (length xs)) (length ys) = Some d'"
    and "buf_is d' cap (xs @ ys)" and "map_option blk_addr d' = map_option blk_addr d"
proof (cases d)
  case None
  with assms show ?thesis by simp
next
  case (Some b)
  from assms [unfolded Some] obtain zs where
    z: "0 < cap" "cells b = map Some (xs @ y # ys) @ zs" "length (xs @ y # ys) + length zs = cap"
    by (rule buf_is_SomeE)
  let ?b = "b\<lparr>cells := map Some (xs @ ys) @ drop (length xs + length ys) (cells b)\<rparr>"
  have "block_move d (length xs) (Suc (length xs)) (length ys) = Some (Some ?b)"
    using z Some by (simp add: block_move_def block_copy_def overwrite_def)
  moreover have "buf_is (Some ?b) cap (xs @ ys)"
    by (rule buf_is_SomeI [where ys = "drop (length xs + length ys) (cells b)"]) (use z in simp_all)
  ultimately show ?thesis using that Some by simp
qed

lemma block_insert_is:
  assumes "buf_is d cap (xs @ ys)" and "length (xs @ ys) < cap"
  obtains d' d'' where "block_move d (Suc (length xs)) (length xs) (length ys) = Some d'"
    and "block_write d' (length xs) x = Some d''"
    and "buf_is d'' cap (xs @ x # ys)" and "map_option blk_addr d'' = map_option blk_addr d"
proof (cases d)
  case None
  with assms show ?thesis by simp
next
  case (Some b)
  from assms(1) [unfolded Some] obtain zs where
    z: "0 < cap" "cells b = map Some (xs @ ys) @ zs" "length (xs @ ys) + length zs = cap"
    by (rule buf_is_SomeE)
  from z assms(2) obtain z0 z1 where zs: "zs = z0 # z1" by (cases zs) auto
  let ?c = "take (Suc (length xs)) (cells b) @ map Some ys @ z1"
  have len: "length (cells b) = length xs + length ys + Suc (length z1)" using z zs by simp
  have "drop (Suc (length xs) + length ys) (cells b) = z1" using z zs by simp
  then have m: "block_move d (Suc (length xs)) (length xs) (length ys) = Some (Some (b\<lparr>cells := ?c\<rparr>))"
    using z Some len by (simp add: block_move_def block_copy_def overwrite_def)
  have "take (Suc (length xs)) (cells b) = map Some xs @ [hd (map Some ys @ zs)]"
    using z zs by (cases ys) simp_all
  then have "?c[length xs := Some x] = map Some (xs @ x # ys) @ z1"
    by (simp add: list_update_append)
  then have w: "block_write (Some (b\<lparr>cells := ?c\<rparr>)) (length xs) x =
      Some (Some (b\<lparr>cells := map Some (xs @ x # ys) @ z1\<rparr>))"
    using len by (simp add: block_write_def)
  have "buf_is (Some (b\<lparr>cells := map Some (xs @ x # ys) @ z1\<rparr>)) cap (xs @ x # ys)"
    by (rule buf_is_SomeI [where ys = z1]) (use z zs in simp_all)
  with that m w Some show ?thesis by simp
qed

lemma vec_remove_at:
  assumes "vec_at t live R w v (xs @ y # ys)"
  obtains v' where "vec_remove (Some v) (length xs) = Some (Some v')"
    and "vec_at t live R w v' (xs @ ys)" and "vec_same v v'"
proof -
  from assms have "buf_is (v_data v) (v_cap v) (xs @ y # ys)" by (simp add: vec_at_def vec_is_def)
  then obtain d where d: "block_move (v_data v) (length xs) (Suc (length xs)) (length ys) = Some d"
      "buf_is d (v_cap v) (xs @ ys)" "map_option blk_addr d = map_option blk_addr (v_data v)"
    by (rule block_move_left_is)
  have len: "v_len v = Suc (length xs + length ys)" using assms by (simp add: vec_at_def vec_is_def)
  have "vec_at t live R w (v\<lparr>v_data := d, v_len := length (xs @ ys)\<rparr>) (xs @ ys)"
    by (rule vec_at_update [OF assms d(2,3)]) simp
  with that d(1) len show ?thesis by (simp add: vec_remove_def vec_same_def)
qed

subsection \<open>Growing\<close>

context heap_allocator begin

lemma vec_push_grow_at:
  assumes v: "vec_at t live R w v xs"
  obtains (ok) v' w' where "vec_push_grow v w = Some (SEQC_OK, v', w')"
      and "vec_at t live R w' v' xs" and "length xs < v_cap v'" and "vec_same v v'"
  | (oom) w' where "vec_push_grow v w = Some (SEQC_OOM, v, w')" and "vec_at t live R w' v xs"
      and "v_cap v = length xs" and "refuses t (growth (v_elem_size v) (length xs))"
proof (cases "v_len v = v_cap v")
  case False
  with v vec_is_cap [of t v xs] have "length xs < v_cap v" by (simp add: vec_at_def vec_is_def)
  with ok [of v w] v False show ?thesis by (simp add: vec_push_grow_def)
next
  case True
  let ?es = "v_elem_size v" and ?B = "[v_self v \<mapsto> sizeof_vec_t]"
  from v have f: "v_alloc v = Some t" "elem_size_ok ?es" "v_len v = length xs"
      "buf_is (v_data v) (v_cap v) xs" "v_cap v * ?es \<le> PTRDIFF_MAX" "apart ?B (v_data v)"
      "owns (live w) R (own_block ?B (v_data v) (v_cap v * ?es))"
    by (simp_all add: vec_at_def vec_is_def vec_blocks_def)
  note es = elem_size_ok_pos [OF f(2)] and grow = double_exact [OF f(5) elem_size_ok_pos [OF f(2)]]
  define nc where "nc = (if v_cap v = 0 then INITIAL_CAP else wmul (v_cap v) 2)"
  have nc: "nc = (if v_cap v = 0 then 16 else v_cap v * 2)" using grow(1) by (simp add: nc_def INITIAL_CAP_def)
  have eq: "wmul nc ?es = nc * ?es" using grow(2) first_cap_exact [OF f(2), of 16] by (simp add: nc)
  have len: "wmul (v_len v) ?es = length xs * ?es"
    using f(3,5) True by (intro trans [OF wmul_exact]) (simp_all add: PTRDIFF_MAX_def)
  have lt: "length xs < nc" "0 < nc" using True f(3) nc by auto
  have eqn: "vec_push_grow v w = do {
      (nd, w) \<leftarrow> block_realloc (Some t) ?es (v_data v) (length xs * ?es) (nc * ?es) w;
      if nd = None then Some (SEQC_OOM, v, w)
      else Some (SEQC_OK, v\<lparr>v_data := nd, v_cap := nc\<rparr>, w) }"
    unfolding vec_push_grow_def Let_def nc_def [symmetric] len eq f(1) using True grow(3) by simp
  show ?thesis
  proof (cases rule: block_realloc_is [OF f(7,6,4) es less_imp_le [OF lt(1)] lt(2)])
    case (1 b w')
    then have "vec_at t live R w' (v\<lparr>v_data := Some b, v_cap := nc\<rparr>) xs"
      using f by (simp add: vec_at_def vec_is_def vec_blocks_def)
    then show ?thesis by (rule ok [rotated 1]) (use 1(1) lt in \<open>simp_all add: eqn vec_same_def\<close>)
  next
    case (2 w')
    have "refuses t (growth (v_elem_size v) (length xs))" by (rule refuses_doubled [OF 2(3)]) (use nc True f(3) in simp)
    moreover from 2 have "vec_at t live R w' v xs" using v by (simp add: vec_at_def vec_blocks_def)
    ultimately show ?thesis by (intro oom) (use 2(1) True f(3) in \<open>simp_all add: eqn\<close>)
  qed
qed

lemma vec_at_append:
  assumes "vec_at t live R w v xs" and "length xs < v_cap v"
  obtains d where "block_write (v_data v) (v_len v) x = Some d"
    and "vec_at t live R w (v\<lparr>v_data := d, v_len := Suc (v_len v)\<rparr>) (xs @ [x])"
proof -
  from assms have "buf_is (v_data v) (v_cap v) xs" "v_len v = length xs"
    by (simp_all add: vec_at_def vec_is_def)
  then obtain d where d: "block_write (v_data v) (v_len v) x = Some d" "buf_is d (v_cap v) (xs @ [x])"
      "map_option blk_addr d = map_option blk_addr (v_data v)"
    using block_append_is [OF _ assms(2), of "v_data v" x] by metis
  show ?thesis
    using that [OF d(1)] vec_at_update [OF assms(1) d(2,3), of "Suc (v_len v)"] \<open>v_len v = length xs\<close>
    by simp
qed

lemma vec_push_at:
  assumes v: "vec_at t live R w v xs"
  obtains (ok) v' w' where "vec_push (Some v) (Some x) w = Some (SEQC_OK, Some v', w')"
      and "vec_at t live R w' v' (xs @ [x])" and "vec_same v v'"
  | (oom) w' where "vec_push (Some v) (Some x) w = Some (SEQC_OOM, Some v, w')"
      and "vec_at t live R w' v xs" and "v_cap v = length xs" and "refuses t (growth (v_elem_size v) (length xs))"
proof (cases rule: vec_push_grow_at [OF v])
  case (1 v' w')
  obtain d where d: "block_write (v_data v') (v_len v') x = Some d"
    "vec_at t live R w' (v'\<lparr>v_data := d, v_len := Suc (v_len v')\<rparr>) (xs @ [x])"
    by (rule vec_at_append [OF 1(2,3)])
  from 1(1) d(1) have "vec_push (Some v) (Some x) w =
      Some (SEQC_OK, Some (v'\<lparr>v_data := d, v_len := Suc (v_len v')\<rparr>), w')"
    by (simp add: vec_push_def)
  with ok d(2) 1(4) show ?thesis by (simp add: vec_same_def)
next
  case (2 w')
  with oom show ?thesis by (simp add: vec_push_def)
qed

lemma vec_reserve_at:
  assumes v: "vec_at t live R w v xs" and cap: "capacity * v_elem_size v < 2 ^ 64"
  obtains (ok) v' w' where "vec_reserve (Some v) capacity w = Some (SEQC_OK, Some v', w')"
      and "vec_at t live R w' v' xs" and "capacity \<le> v_cap v'" and "vec_same v v'"
  | (oom) w' where "vec_reserve (Some v) capacity w = Some (SEQC_OOM, Some v, w')"
      and "vec_at t live R w' v xs" and "v_cap v < capacity"
      and "refuses t (capacity * v_elem_size v)"
proof (cases "capacity \<le> v_cap v")
  case True
  with ok [of v w] v show ?thesis by (simp add: vec_reserve_def)
next
  case False
  let ?es = "v_elem_size v" and ?B = "[v_self v \<mapsto> sizeof_vec_t]"
  from v have f: "v_alloc v = Some t" "elem_size_ok ?es" "v_len v = length xs"
      "buf_is (v_data v) (v_cap v) xs" "v_cap v * ?es \<le> PTRDIFF_MAX" "apart ?B (v_data v)"
      "owns (live w) R (own_block ?B (v_data v) (v_cap v * ?es))"
    by (simp_all add: vec_at_def vec_is_def vec_blocks_def)
  note es = elem_size_ok_pos [OF f(2)]
  have lt: "length xs \<le> capacity" "0 < capacity" using False buf_is_len [OF f(4)] by auto
  have "length xs * ?es \<le> capacity * ?es" using lt(1) by (rule mult_le_mono1)
  then have len: "wmul (v_len v) ?es = length xs * ?es"
    unfolding f(3) using cap by (intro wmul_exact) (rule le_less_trans)
  have eqn: "vec_reserve (Some v) capacity w = do {
      (nd, w) \<leftarrow> block_realloc (Some t) ?es (v_data v) (length xs * ?es) (capacity * ?es) w;
      if nd = None then Some (SEQC_OOM, Some v, w)
      else Some (SEQC_OK, Some (v\<lparr>v_data := nd, v_cap := capacity\<rparr>), w) }"
    using False by (simp add: vec_reserve_def len f(1) wmul_exact [OF cap])
  show ?thesis
  proof (cases rule: block_realloc_is [OF f(7,6,4) es lt])
    case (1 b w')
    then have "vec_at t live R w' (v\<lparr>v_data := Some b, v_cap := capacity\<rparr>) xs"
      using f by (simp add: vec_at_def vec_is_def vec_blocks_def)
    then show ?thesis by (rule ok [rotated 1]) (use 1(1) lt in \<open>simp_all add: eqn vec_same_def\<close>)
  next
    case (2 w')
    then have "vec_at t live R w' v xs" using v by (simp add: vec_at_def vec_blocks_def)
    with 2(3) show ?thesis by (intro oom) (use 2(1) False in \<open>simp_all add: eqn\<close>)
  qed
qed

lemma vec_insert_at:
  assumes v: "vec_at t live R w v (xs @ ys)"
  obtains (ok) v' w' where "vec_insert (Some v) (length xs) (Some x) w = Some (SEQC_OK, Some v', w')"
      and "vec_at t live R w' v' (xs @ x # ys)" and "vec_same v v'"
  | (oom) w' where "vec_insert (Some v) (length xs) (Some x) w = Some (SEQC_OOM, Some v, w')"
      and "vec_at t live R w' v (xs @ ys)" and "refuses t (growth (v_elem_size v) (length (xs @ ys)))"
proof -
  let ?res = "if v_len v = v_cap v
     then vec_reserve (Some v) (if v_cap v = 0 then INITIAL_CAP else wmul (v_cap v) 2) w
     else Some (SEQC_OK, Some v, w)"
  from v have f: "elem_size_ok (v_elem_size v)" "v_len v = length xs + length ys"
      "v_cap v * v_elem_size v \<le> PTRDIFF_MAX" by (simp_all add: vec_at_def vec_is_def)
  note es = elem_size_ok_pos [OF f(1)] and grow = double_exact [OF f(3) elem_size_ok_pos [OF f(1)]]
  define nc where "nc = (if v_cap v = 0 then INITIAL_CAP else wmul (v_cap v) 2)"
  have nc: "nc = (if v_cap v = 0 then 16 else v_cap v * 2)" using grow(1) by (simp add: nc_def INITIAL_CAP_def)
  have "wmul nc (v_elem_size v) = nc * v_elem_size v"
    using grow(2) first_cap_exact [OF f(1), of 16] by (simp add: nc)
  then have nce: "nc * v_elem_size v < 2 ^ 64" using wmul_bound by metis
  consider (room) v1 w1 where "?res = Some (SEQC_OK, Some v1, w1)" "vec_at t live R w1 v1 (xs @ ys)"
      "length (xs @ ys) < v_cap v1" "vec_same v v1"
    | (none) w1 where "?res = Some (SEQC_OOM, Some v, w1)" "vec_at t live R w1 v (xs @ ys)"
      "refuses t (growth (v_elem_size v) (length (xs @ ys)))"
  proof (cases "v_len v = v_cap v")
    case True
    then have lt: "length (xs @ ys) < nc" "nc \<le> 2 * length (xs @ ys) + 16" using f(2) nc by simp_all
    from v nce show ?thesis
    proof (cases rule: vec_reserve_at)
      case (ok v1 w1)
      then show ?thesis using room [of v1 w1] lt(1) True unfolding nc_def [symmetric] by simp
    next
      case (oom w1)
      then show ?thesis using none [of w1] refuses_doubled [OF oom(4) lt(2)] True unfolding nc_def [symmetric] by simp
    qed
  next
    case False
    with v vec_is_cap [of t v "xs @ ys"] have "length (xs @ ys) < v_cap v"
      by (simp add: vec_at_def vec_is_def)
    with room [of v w] v False show ?thesis by simp
  qed
  then show ?thesis
  proof cases
    case room
    from room(2) have "buf_is (v_data v1) (v_cap v1) (xs @ ys)" and l1: "v_len v1 = length xs + length ys"
      by (simp_all add: vec_at_def vec_is_def)
    from this(1) room(3) obtain d d' where d: "block_move (v_data v1) (Suc (length xs)) (length xs) (length ys) = Some d"
        "block_write d (length xs) x = Some d'" "buf_is d' (v_cap v1) (xs @ x # ys)"
        "map_option blk_addr d' = map_option blk_addr (v_data v1)"
      by (rule block_insert_is)
    have "vec_at t live R w1 (v1\<lparr>v_data := d', v_len := Suc (v_len v1)\<rparr>) (xs @ x # ys)"
      by (rule vec_at_update [OF room(2) d(3,4)]) (simp add: l1)
    moreover have "vec_insert (Some v) (length xs) (Some x) w =
        Some (SEQC_OK, Some (v1\<lparr>v_data := d', v_len := Suc (v_len v1)\<rparr>), w1)"
      using room(1) d(1,2) l1 f(2) by (simp add: vec_insert_def)
    ultimately show ?thesis using ok room(4) by (simp add: vec_same_def)
  next
    case none
    then show ?thesis using oom f(2) by (simp add: vec_insert_def)
  qed
qed

subsection \<open>Creation and destruction\<close>

lemma vec_create_at:
  assumes "elem_size_ok es" and "live w = R"
  obtains (ok) v :: "('e, 'w) vec_t" and w' where "vec_create es (Some t) w = Some (Some v, w')"
      and "vec_at t live R w' v []" and "v_elem_size v = es"
  | (oom) w' where "vec_create es (Some t) w = Some (None :: ('e, 'w) vec_t option, w')" and "live w' = R"
      and "starved (Some t)"
proof (cases rule: iter_state_alloc [of sizeof_vec_t w])
  case (granted a w')
  let ?v = "\<lparr>v_self = a, v_data = None, v_len = 0, v_cap = 0, v_elem_size = es, v_alloc = Some t\<rparr>"
  have "vec_create es (Some t) w = Some (Some ?v, w')"
    using granted(1) assms by (simp add: vec_create_def elem_size_ok_def del: mem_alloc.simps)
  then show ?thesis
    by (rule ok) (use granted(2) assms in \<open>simp_all add: vec_at_def vec_is_def vec_blocks_def\<close>)
next
  case (refused w')
  then have "vec_create es (Some t) w = Some (None :: ('e, 'w) vec_t option, w')"
    using assms by (simp add: vec_create_def elem_size_ok_def del: mem_alloc.simps)
  then show ?thesis by (rule oom) (use refused(2) starved_small [OF refused(3)] assms in simp_all)
qed

lemma vec_create_with_cap_at:
  assumes "elem_size_ok es" and "live w = R" and "0 < capacity" and "capacity * es < 2 ^ 64"
  obtains (ok) v :: "('e, 'w) vec_t" and w' where "vec_create_with_cap es capacity (Some t) w = Some (Some v, w')"
      and "vec_at t live R w' v []" and "v_elem_size v = es" and "v_cap v = capacity"
  | (oom) w' where "vec_create_with_cap es capacity (Some t) w = Some (None :: ('e, 'w) vec_t option, w')" and "live w' = R"
proof (cases rule: iter_state_alloc [of sizeof_vec_t w])
  case (granted a w1)
  note es = elem_size_ok_pos [OF assms(1)]
  from granted(2) assms(2) have o: "owns (live w1) R [a \<mapsto> sizeof_vec_t]" by simp
  show ?thesis
  proof (cases rule: block_alloc_fresh [where 'e = 'e, OF o es assms(3)])
    case (1 b w2)
    let ?v = "\<lparr>v_self = a, v_data = Some b, v_len = 0, v_cap = capacity, v_elem_size = es, v_alloc = Some t\<rparr>"
    have "vec_create_with_cap es capacity (Some t) w = Some (Some ?v, w2)"
      using \<open>mem_alloc (Some t) sizeof_vec_t w = Some (Some a, w1)\<close> 1(1) es assms(3)
      by (simp add: vec_create_with_cap_def wmul_exact [OF assms(4)] del: mem_alloc.simps)
    moreover have "buf_is (Some b) capacity []"
      by (rule buf_is_SomeI [where ys = "cells b"]) (use 1(2) assms(3) in simp_all)
    ultimately show ?thesis
      by (intro ok [of ?v w2]) (use 1 assms in \<open>simp_all add: vec_at_def vec_is_def vec_blocks_def\<close>)
  next
    case (2 w2)
    obtain w3 where "mem_free (Some t) (Some a) sizeof_vec_t w2 = Some w3"
        "owns (live w3) R ([a \<mapsto> sizeof_vec_t](a := None))"
      by (rule owns_mem_free [OF 2(2), of a sizeof_vec_t]) simp_all
    with \<open>mem_alloc (Some t) sizeof_vec_t w = Some (Some a, w1)\<close> 2(1) es assms(3) show ?thesis
      by (intro oom [of w3])
        (simp_all add: vec_create_with_cap_def wmul_exact [OF assms(4)] del: mem_alloc.simps mem_free.simps)
  qed
next
  case (refused w')
  then have "vec_create_with_cap es capacity (Some t) w = Some (None :: ('e, 'w) vec_t option, w')"
    using assms by (simp add: vec_create_with_cap_def elem_size_ok_def del: mem_alloc.simps)
  then show ?thesis by (rule oom) (use refused(2) assms in simp)
qed

text \<open>\<open>vec_destroy\<close> frees the buffer and the struct, each with the size it was allocated with.\<close>

lemma vec_destroy_at:
  assumes v: "vec_at t live R w v xs"
  obtains w' where "vec_destroy (Some v) w = Some w'" and "live w' = R"
proof -
  from v have f: "v_alloc v = Some t" "v_cap v * v_elem_size v \<le> PTRDIFF_MAX"
      "apart [v_self v \<mapsto> sizeof_vec_t] (v_data v)"
      "owns (live w) R (own_block [v_self v \<mapsto> sizeof_vec_t] (v_data v) (v_cap v * v_elem_size v))"
    by (simp_all add: vec_at_def vec_is_def vec_blocks_def)
  obtain w1 w2 where "(if v_data v = None then Some w
       else block_free (Some t) (v_data v) (wmul (v_cap v) (v_elem_size v)) w) = Some w1"
      "mem_free (Some t) (Some (v_self v)) sizeof_vec_t w1 = Some w2" "live w2 = R"
    by (rule free_with_buffer [OF f(4,3,2)])
  with that show ?thesis unfolding vec_destroy_def option.case f(1) by simp
qed

subsection \<open>Iterating and extending\<close>

lemma vec_iter_built:
  "vec_is t v xs \<Longrightarrow> iter_built live (Some t) (live w) (v_elem_size v) xs (vec_iter (Some v) w)"
  using iter_from_slice_built [OF vec_as_slice_is, of t v xs w]
  by (simp add: vec_iter_def vec_is_def vec_as_slice_def)

lemma vec_iter_rev_built:
  "vec_is t v xs \<Longrightarrow> iter_built live (Some t) (live w) (v_elem_size v) (rev xs) (vec_iter_rev (Some v) w)"
  using iter_from_slice_rev_built [OF vec_as_slice_is, of t v xs w]
  by (simp add: vec_iter_rev_def vec_is_def vec_as_slice_def)

text \<open>
  What a drain into a collection leaves: either everything arrived, or the allocator refused
  some element and exactly those before it arrived.
\<close>

lemma vec_extend_loop_at:
  assumes "vec_is t v xs" and "owns2 (live w) R (vec_blocks v) B" and "iter_rep live ys it B"
  shows "\<exists>st it' v' w' B' k. vec_extend_loop it (Some v) w = Some (st, it', Some v', w') \<and>
    owns2 (live w') R (vec_blocks v') B' \<and> iter_closes live it' B' \<and> vec_same v v' \<and>
    vec_is t v' (xs @ take k ys) \<and> (st = SEQC_OK \<and> k = length ys \<or> st = SEQC_OOM \<and> k < length ys)"
  using assms
proof (induction ys arbitrary: it w B v xs)
  case Nil
  obtain it' w' B' where n: "iter_next it w = Some (None, it', w')"
      "owns (live w') (R ++ vec_blocks v) B'" "iter_closes live it' B'"
    by (rule iter_rep_NilE [OF Nil.prems(3) owns2_right [OF Nil.prems(2)]])
  have "owns2 (live w') R (vec_blocks v) B'" by (rule owns2_step_right [OF Nil.prems(2) n(2)])
  moreover have "vec_extend_loop it (Some v) w = Some (SEQC_OK, it', Some v, w')"
    using n(1) by (simp add: vec_extend_loop.simps)
  ultimately show ?case using n(3) Nil.prems(1) by (intro exI conjI) simp_all
next
  case (Cons y ys)
  obtain it1 w1 B1 where n: "iter_next it w = Some (Some y, it1, w1)"
      "owns (live w1) (R ++ vec_blocks v) B1" "iter_rep live ys it1 B1"
    by (rule iter_rep_ConsE [OF Cons.prems(3) owns2_right [OF Cons.prems(2)]])
  have o1: "owns2 (live w1) R (vec_blocks v) B1" by (rule owns2_step_right [OF Cons.prems(2) n(2)])
  then have "vec_at t live (R ++ B1) w1 v xs"
    using Cons.prems(1) owns2_left by (simp add: vec_at_def)
  then show ?case
  proof (cases rule: vec_push_at [where x = y])
    case (ok v2 w2)
    then have "vec_is t v2 (xs @ [y])" "owns2 (live w2) R (vec_blocks v2) B1"
      using owns2_step_left [OF o1] by (auto simp: vec_at_def)
    from Cons.IH [OF this n(3)] obtain st it' v' w' B' k where
      IH: "vec_extend_loop it1 (Some v2) w2 = Some (st, it', Some v', w')"
        "owns2 (live w') R (vec_blocks v') B'" "iter_closes live it' B'" "vec_same v2 v'"
        "vec_is t v' ((xs @ [y]) @ take k ys)"
        "st = SEQC_OK \<and> k = length ys \<or> st = SEQC_OOM \<and> k < length ys" by blast
    have "vec_extend_loop it (Some v) w = Some (st, it', Some v', w')"
      using n(1) ok(1) IH(1) by (simp add: vec_extend_loop.simps [of it])
    with IH vec_same_trans [OF ok(3) IH(4)] show ?thesis
      by (intro exI [of _ st] exI [of _ it'] exI [of _ v'] exI [of _ w'] exI [of _ B'] exI [of _ "Suc k"]) auto
  next
    case (oom w2)
    then have "owns2 (live w2) R (vec_blocks v) B1"
      using owns2_step_left [OF o1] by (auto simp: vec_at_def)
    moreover have "vec_extend_loop it (Some v) w = Some (SEQC_OOM, it1, Some v, w2)"
      using n(1) oom(1) by (simp add: vec_extend_loop.simps [of it])
    ultimately show ?thesis using iter_rep_closes [OF n(3)] Cons.prems(1)
      by (intro exI [of _ SEQC_OOM] exI [of _ it1] exI [of _ v] exI [of _ w2] exI [of _ B1] exI [of _ 0]) simp
  qed
qed

lemma vec_extend_at:
  assumes v: "vec_is t v xs" and o: "owns2 (live w) R (vec_blocks v) B"
    and it: "iter_rep live ys it B" "iter_is_valid it" "it_elem_size it = v_elem_size v"
  shows "\<exists>st v' w' k. vec_extend (Some v) it w = Some (st, Some v', w') \<and> vec_same v v' \<and>
    vec_at t live R w' v' (xs @ take k ys) \<and>
    (st = SEQC_OK \<and> k = length ys \<or> st = SEQC_OOM \<and> k \<le> length ys)"
proof (cases rule: hold_alloc [OF o, of "v_elem_size v"])
  case (1 a w1)
  from v have al: "v_alloc v = Some t" by (simp add: vec_is_def)
  from vec_extend_loop_at [OF v 1(2) it(1)] obtain st it' v' w2 B' k where
    l: "vec_extend_loop it (Some v) w1 = Some (st, it', Some v', w2)"
      "owns2 (live w2) (R(a \<mapsto> v_elem_size v)) (vec_blocks v') B'" "iter_closes live it' B'" "vec_same v v'"
      "vec_is t v' (xs @ take k ys)" "st = SEQC_OK \<and> k = length ys \<or> st = SEQC_OOM \<and> k < length ys"
    by blast
  obtain w3 where w3: "iter_destroy it' w2 = Some w3" "live w3 = R(a \<mapsto> v_elem_size v) ++ vec_blocks v'"
    by (rule iter_destroy_closes [OF l(3) owns2_right [OF l(2)]])
  obtain w4 where w4: "mem_free (Some t) (Some a) (v_elem_size v) w3 = Some w4" "owns (live w4) R (vec_blocks v')"
    by (rule release_held [OF owns2_close_right [OF l(2) w3(2)] 1(3)])
  have "vec_extend (Some v) it w = Some (st, Some v', w4)"
    using it(2,3) 1(1) l(1,4) w3(1) w4(1) al
    by (simp add: vec_extend_def vec_elem_size_def vec_same_def del: mem_alloc.simps mem_free.simps)
  then show ?thesis using l(4,5,6) w4(2) by (fastforce simp: vec_at_def)
next
  case (2 w1)
  from v have al: "v_alloc v = Some t" by (simp add: vec_is_def)
  obtain w3 where w3: "iter_destroy it w1 = Some w3" "live w3 = R ++ vec_blocks v"
    by (rule iter_destroy_closes [OF iter_rep_closes [OF it(1)] owns2_right [OF 2(2)]])
  have "vec_extend (Some v) it w = Some (SEQC_OOM, Some v, w3)"
    using it(2,3) 2(1) w3(1) al
    by (simp add: vec_extend_def vec_elem_size_def del: mem_alloc.simps mem_free.simps)
  moreover have "vec_at t live R w3 v (xs @ take 0 ys)"
    using v owns2_close_right [OF 2(2) w3(2)] by (simp add: vec_at_def)
  ultimately show ?thesis
    by (intro exI [of _ SEQC_OOM] exI [of _ v] exI [of _ w3] exI [of _ 0]) simp
qed

end

subsection \<open>Sorting\<close>

lemma vec_sort_at:
  assumes v: "vec_at t live R w v xs" and q: "qsort_ok qsort" and c: "compare_order cmp"
  obtains v' ys where "vec_sort qsort (Some v) (Some cmp) = Some (Some v')"
    and "vec_at t live R w v' ys" and "mset ys = mset xs" and "sorted_wrt (\<lambda>a b. cmp a b \<le> 0) ys"
proof (cases "length xs < 2")
  case True
  then have "sorted_wrt (\<lambda>a b. cmp a b \<le> 0) xs" by (cases xs) auto
  with that [of v xs] True v show ?thesis by (simp add: vec_sort_def vec_at_def vec_is_def)
next
  case False
  from v have f: "v_len v = length xs" "buf_is (v_data v) (v_cap v) xs" by (simp_all add: vec_at_def vec_is_def)
  with False obtain b where b: "v_data v = Some b" by (cases "v_data v") auto
  from f(2) [unfolded b] obtain zs where z: "0 < v_cap v" "cells b = map Some xs @ zs" "length xs + length zs = v_cap v"
    by (rule buf_is_SomeE)
  let ?ys = "qsort cmp xs" and ?b = "b\<lparr>cells := map Some (qsort cmp xs) @ zs\<rparr>"
  have len: "length ?ys = length xs" by (rule qsort_ok_length [OF q c])
  have "buf_is (Some ?b) (v_cap v) ?ys" by (rule buf_is_SomeI [where ys = zs]) (use z len in simp_all)
  from vec_at_update [OF v this, of "v_len v"] b len f(1)
  have "vec_at t live R w (v\<lparr>v_data := Some ?b, v_len := v_len v\<rparr>) ?ys" by simp
  moreover have "v\<lparr>v_data := Some ?b, v_len := v_len v\<rparr> = v\<lparr>v_data := Some ?b\<rparr>" by simp
  ultimately have "vec_at t live R w (v\<lparr>v_data := Some ?b\<rparr>) ?ys" by metis
  moreover have "vec_sort qsort (Some v) (Some cmp) = Some (Some (v\<lparr>v_data := Some ?b\<rparr>))"
    using False f(1) b z(2) len by (simp add: vec_sort_def those_map_Some overwrite_def)
  ultimately show ?thesis using that qsort_ok_mset [OF q c] qsort_ok_sorted [OF q c] by blast
qed

end
