(* ===== verification/Seqc_Collection.thy ===== *)
theory Seqc_Collection
  imports Seqc_Iter
begin

section \<open>The body that every \<open>X_extend\<close> shares\<close>

text \<open>
  \<open>src/collection.c\<close>: drain an iterator into a collection with the collection's own add
  function, a parameter of type \<open>seqc_add_fn\<close>. The temporary element buffer is allocated and
  freed; what passes through it is the element that \<open>iter_next\<close> returns.
  The locale \<open>collection_add\<close> states what \<open>seqc_extend\<close> relies on an add function for, and proves
  once what a drain leaves. Each collection interprets it on its own add function.
\<close>

type_synonym ('a, 'c, 'w) seqc_add_fn =
  "'c option \<Rightarrow> 'a option \<Rightarrow> 'w \<Rightarrow> (seqc_status_t \<times> 'c option \<times> 'w) option"

partial_function (option) seqc_extend_loop ::
  "('a, 'c, 'w) seqc_add_fn \<Rightarrow> ('a, 's, 'w) iter_t \<Rightarrow> 'c option \<Rightarrow> 'w \<Rightarrow>
   (seqc_status_t \<times> ('a, 's, 'w) iter_t \<times> 'c option \<times> 'w) option" where
  "seqc_extend_loop add it c w = do {
     (r, it, w) \<leftarrow> iter_next it w;
     case r of
       None \<Rightarrow> Some (SEQC_OK, it, c, w)
     | Some x \<Rightarrow> do {
         (added, c, w) \<leftarrow> add c (Some x) w;
         if added \<noteq> SEQC_OK \<and> added \<noteq> SEQC_DUPLICATE then Some (added, it, c, w)
         else seqc_extend_loop add it c w
       }
   }"

definition seqc_extend ::
  "'c option \<Rightarrow> ('a, 'c, 'w) seqc_add_fn \<Rightarrow> size_t \<Rightarrow> 'w allocator_t \<Rightarrow> ('a, 's, 'w) iter_t \<Rightarrow> 'w \<Rightarrow>
   (seqc_status_t \<times> 'c option \<times> 'w) option" where
  "seqc_extend coll add es al it w =
     (if coll = None \<or> \<not> iter_is_valid it \<or> it_elem_size it \<noteq> es then do {
        w \<leftarrow> iter_destroy it w;
        Some (SEQC_INVALID, coll, w)
      } else do {
        (elem, w) \<leftarrow> mem_alloc al es w;
        case elem of
          None \<Rightarrow> do { w \<leftarrow> iter_destroy it w; Some (SEQC_OOM, coll, w) }
        | Some a \<Rightarrow> do {
            (st, it, coll, w) \<leftarrow> seqc_extend_loop add it coll w;
            w \<leftarrow> iter_destroy it w;
            w \<leftarrow> mem_free al (Some a) es w;
            Some (st, coll, w)
          }
      })"

subsection \<open>The contract of an add function\<close>

text \<open>
  \<open>holds c m\<close>: the collection \<open>c\<close> holds what the abstract value \<open>m\<close> says; \<open>put m x\<close>: what adding
  \<open>x\<close> to \<open>m\<close> gives; \<open>full c m\<close>: the allocator refuses a request that adding to \<open>m\<close> may need. Only
  then may an add fail, and it leaves the contents as they were: \<open>rests c m\<close>, which is less than
  \<open>holds c m\<close> where a failed add may have enlarged the table.
\<close>

locale collection_fill = heap_allocator t live
  for t :: "'w vtable" and live :: "'w \<Rightarrow> addr \<rightharpoonup> size_t" +
  fixes add :: "'c option \<Rightarrow> 'a option \<Rightarrow> 'w \<Rightarrow> (seqc_status_t \<times> 'c option \<times> 'w) option"
    and blocks :: "'c \<Rightarrow> addr \<rightharpoonup> size_t"
    and holds :: "'c \<Rightarrow> 'm \<Rightarrow> bool"
    and rests :: "'c \<Rightarrow> 'm \<Rightarrow> bool"
    and put :: "'m \<Rightarrow> 'a \<Rightarrow> 'm"
    and same :: "'c \<Rightarrow> 'c \<Rightarrow> bool"
    and full :: "'c \<Rightarrow> 'm \<Rightarrow> bool"
  assumes add_step: "holds c m \<Longrightarrow> owns (live w) R (blocks c) \<Longrightarrow>
      \<exists>st c' w'. add (Some c) (Some x) w = Some (st, Some c', w') \<and> owns (live w') R (blocks c') \<and>
        same c c' \<and>
        (if st = SEQC_OK \<or> st = SEQC_DUPLICATE then holds c' (put m x) else st = SEQC_OOM \<and> rests c' m \<and> full c m)"
    and holds_rests: "holds c m \<Longrightarrow> rests c m"
    and same_refl: "same c c"
    and full_same: "same c c' \<Longrightarrow> full c' m \<Longrightarrow> full c m"
    and same_trans: "same c c' \<Longrightarrow> same c' c'' \<Longrightarrow> same c c''"
begin

lemma add_cases:
  assumes "holds c m" and "owns (live w) R (blocks c)"
  obtains (added) st c' w' where "add (Some c) (Some x) w = Some (st, Some c', w')"
      and "owns (live w') R (blocks c')" and "same c c'" and "holds c' (put m x)"
      and "st = SEQC_OK \<or> st = SEQC_DUPLICATE"
  | (stuck) c' w' where "add (Some c) (Some x) w = Some (SEQC_OOM, Some c', w')"
      and "owns (live w') R (blocks c')" and "same c c'" and "rests c' m" and "full c m"
  using add_step [OF assms, of x] by (metis (full_types))

lemma extend_loop:
  assumes "holds c m" and "owns2 (live w) R (blocks c) B" and "iter_rep live xs it B"
  shows "\<exists>st it' c' w' B' k. seqc_extend_loop add it (Some c) w = Some (st, it', Some c', w') \<and>
    owns2 (live w') R (blocks c') B' \<and> iter_closes live it' B' \<and> same c c' \<and>
    rests c' (foldl put m (take k xs)) \<and>
    (st = SEQC_OK \<and> k = length xs \<or> st = SEQC_OOM \<and> k < length xs \<and> full c (foldl put m (take k xs)))"
  using assms
proof (induction xs arbitrary: it w B c m)
  case Nil
  obtain it' w' B' where n: "iter_next it w = Some (None, it', w')"
      "owns (live w') (R ++ blocks c) B'" "iter_closes live it' B'"
    by (rule iter_rep_NilE [OF Nil.prems(3) owns2_right [OF Nil.prems(2)]])
  have "owns2 (live w') R (blocks c) B'" by (rule owns2_step_right [OF Nil.prems(2) n(2)])
  moreover have "seqc_extend_loop add it (Some c) w = Some (SEQC_OK, it', Some c, w')"
    using n(1) by (simp add: seqc_extend_loop.simps)
  ultimately show ?case using n(3) holds_rests [OF Nil.prems(1)] same_refl by (intro exI conjI) simp_all
next
  case (Cons x xs)
  obtain it1 w1 B1 where n: "iter_next it w = Some (Some x, it1, w1)"
      "owns (live w1) (R ++ blocks c) B1" "iter_rep live xs it1 B1"
    by (rule iter_rep_ConsE [OF Cons.prems(3) owns2_right [OF Cons.prems(2)]])
  have o1: "owns2 (live w1) R (blocks c) B1" by (rule owns2_step_right [OF Cons.prems(2) n(2)])
  from Cons.prems(1) owns2_left [OF o1] show ?case
  proof (cases rule: add_cases [where x = x])
    case (added st2 c2 w2)
    have "owns2 (live w2) R (blocks c2) B1" by (rule owns2_step_left [OF o1 added(2)])
    from Cons.IH [OF added(4) this n(3)] obtain st it' c' w' B' k where
      IH: "seqc_extend_loop add it1 (Some c2) w2 = Some (st, it', Some c', w')"
        "owns2 (live w') R (blocks c') B'" "iter_closes live it' B'" "same c2 c'"
        "rests c' (foldl put (put m x) (take k xs))"
        "st = SEQC_OK \<and> k = length xs \<or> st = SEQC_OOM \<and> k < length xs \<and> full c2 (foldl put (put m x) (take k xs))" by blast
    have "seqc_extend_loop add it (Some c) w = Some (st, it', Some c', w')"
      using n(1) added(1,5) IH(1) by (auto simp: seqc_extend_loop.simps [of _ it])
    with IH same_trans [OF added(3) IH(4)] full_same [OF added(3)] show ?thesis
      by (intro exI [of _ st] exI [of _ it'] exI [of _ c'] exI [of _ w'] exI [of _ B'] exI [of _ "Suc k"]) auto
  next
    case (stuck c2 w2)
    have "owns2 (live w2) R (blocks c2) B1" by (rule owns2_step_left [OF o1 stuck(2)])
    moreover have "seqc_extend_loop add it (Some c) w = Some (SEQC_OOM, it1, Some c2, w2)"
      using n(1) stuck(1) by (simp add: seqc_extend_loop.simps [of _ it])
    ultimately show ?thesis using iter_rep_closes [OF n(3)] stuck(3-5)
      by (intro exI [of _ SEQC_OOM] exI [of _ it1] exI [of _ c2] exI [of _ w2] exI [of _ B1] exI [of _ 0]) simp
  qed
qed

text \<open>
  A drain frees the iterator and the temporary buffer on every path; either everything arrived,
  or the allocator refused and exactly a prefix arrived.
\<close>

lemma extend_at:
  assumes c: "holds c m" and o: "owns2 (live w) R (blocks c) B"
    and it: "iter_rep live xs it B" "iter_is_valid it" "it_elem_size it = es"
  shows "\<exists>st c' w' k. seqc_extend (Some c) add es (Some t) it w = Some (st, Some c', w') \<and>
    owns (live w') R (blocks c') \<and> same c c' \<and> rests c' (foldl put m (take k xs)) \<and>
    (st = SEQC_OK \<and> k = length xs \<or>
     st = SEQC_OOM \<and> k \<le> length xs \<and> (full c (foldl put m (take k xs)) \<or> k = 0 \<and> refuses t es))"
proof (cases rule: hold_alloc [OF o, of es])
  case (1 a w1)
  from extend_loop [OF c 1(2) it(1)] obtain st it' c' w2 B' k where
    l: "seqc_extend_loop add it (Some c) w1 = Some (st, it', Some c', w2)"
      "owns2 (live w2) (R(a \<mapsto> es)) (blocks c') B'" "iter_closes live it' B'" "same c c'"
      "rests c' (foldl put m (take k xs))" "st = SEQC_OK \<and> k = length xs \<or> st = SEQC_OOM \<and> k < length xs \<and> full c (foldl put m (take k xs))"
    by blast
  obtain w3 where w3: "iter_destroy it' w2 = Some w3" "live w3 = R(a \<mapsto> es) ++ blocks c'"
    by (rule iter_destroy_closes [OF l(3) owns2_right [OF l(2)]])
  obtain w4 where w4: "mem_free (Some t) (Some a) es w3 = Some w4" "owns (live w4) R (blocks c')"
    by (rule release_held [OF owns2_close_right [OF l(2) w3(2)] 1(3)])
  have "seqc_extend (Some c) add es (Some t) it w = Some (st, Some c', w4)"
    using it(2,3) 1(1) l(1,4) w3(1) w4(1) by (simp add: seqc_extend_def del: mem_alloc.simps mem_free.simps)
  then show ?thesis using l(4,5,6) w4(2) by fastforce
next
  case (2 w1)
  obtain w3 where w3: "iter_destroy it w1 = Some w3" "live w3 = R ++ blocks c"
    by (rule iter_destroy_closes [OF iter_rep_closes [OF it(1)] owns2_right [OF 2(2)]])
  have "seqc_extend (Some c) add es (Some t) it w = Some (SEQC_OOM, Some c, w3)"
    using it(2,3) 2(1) w3(1) by (simp add: seqc_extend_def del: mem_alloc.simps mem_free.simps)
  then show ?thesis using holds_rests [OF c] same_refl 2(3) owns2_close_right [OF 2(2) w3(2)]
    by (intro exI [of _ SEQC_OOM] exI [of _ c] exI [of _ w3] exI [of _ 0]) simp
qed

end

text \<open>Most collections are exactly as they were.\<close>

locale collection_add = collection_fill t live add blocks holds holds put same full
  for t :: "'w vtable" and live :: "'w \<Rightarrow> addr \<rightharpoonup> size_t"
    and add :: "'c option \<Rightarrow> 'a option \<Rightarrow> 'w \<Rightarrow> (seqc_status_t \<times> 'c option \<times> 'w) option"
    and blocks holds put same full
begin

lemmas drain_at = extend_at

end

lemma foldl_snoc: "foldl (\<lambda>zs x. zs @ [x]) ys xs = ys @ xs"
  by (induction xs arbitrary: ys) simp_all

text \<open>An argument that is rejected is still consumed: the iterator is closed.\<close>

lemma seqc_extend_rejects:
  assumes "\<not> iter_is_valid it \<or> it_elem_size it \<noteq> es \<or> c = None"
    and "iter_closes live it B" and "owns (live w) R B"
  obtains w' where "seqc_extend c add es al it w = Some (SEQC_INVALID, c, w')" and "live w' = R"
proof -
  from assms(2,3) obtain w' where "iter_destroy it w = Some w'" "live w' = R" by (rule iter_destroy_closes)
  with assms(1) that show ?thesis by (auto simp: seqc_extend_def)
qed

end
