(* ===== verification/Seqc_Stack.thy ===== *)
theory Seqc_Stack
  imports Seqc_Vec Seqc_Collection
begin

section \<open>The stack\<close>

text \<open>
  \<open>src/stack/stack.c\<close>: a struct around a \<open>vec_t\<close>; the top of the stack is the end of the vector.
  Seen from the vector, the block of the struct is one more block that belongs to someone else,
  so every lemma about the vector carries over (\<open>stack_at_vec\<close>).
\<close>

record ('a, 'w) seqc_stack_t =
  st_self :: addr
  st_vec :: "('a, 'w) vec_t option"
  st_alloc :: "'w allocator_t"

definition sizeof_seqc_stack_t :: size_t where
  "sizeof_seqc_stack_t = 16"

lemma sizeof_seqc_stack_t_small [simp]: "sizeof_seqc_stack_t \<le> 256"
  by (simp add: sizeof_seqc_stack_t_def)

subsection \<open>Operations\<close>

definition stack_create :: "size_t \<Rightarrow> 'w allocator_t \<Rightarrow> 'w \<Rightarrow> (('a, 'w) seqc_stack_t option \<times> 'w) option" where
  "stack_create es al w = do {
     (p, w) \<leftarrow> mem_alloc al sizeof_seqc_stack_t w;
     case p of
       None \<Rightarrow> Some (None, w)
     | Some a \<Rightarrow> do {
         (v, w) \<leftarrow> vec_create es al w;
         case v of
           None \<Rightarrow> do { w \<leftarrow> mem_free al (Some a) sizeof_seqc_stack_t w; Some (None, w) }
         | Some _ \<Rightarrow> Some (Some \<lparr>st_self = a, st_vec = v, st_alloc = al\<rparr>, w)
       }
   }"

definition stack_push ::
  "('a, 'w) seqc_stack_t option \<Rightarrow> 'a option \<Rightarrow> 'w \<Rightarrow> (seqc_status_t \<times> ('a, 'w) seqc_stack_t option \<times> 'w) option" where
  "stack_push s elem w =
     (case s of
        None \<Rightarrow> Some (SEQC_INVALID, None, w)
      | Some u \<Rightarrow> do {
          (st, v, w) \<leftarrow> vec_push (st_vec u) elem w;
          Some (st, Some (u\<lparr>st_vec := v\<rparr>), w)
        })"

definition stack_pop ::
  "('a, 'w) seqc_stack_t option \<Rightarrow> bool \<Rightarrow> (seqc_status_t \<times> 'a option \<times> ('a, 'w) seqc_stack_t option) option" where
  "stack_pop s out =
     (case s of
        None \<Rightarrow> Some (SEQC_INVALID, None, None)
      | Some u \<Rightarrow> do {
          (st, x, v) \<leftarrow> vec_pop (st_vec u) out;
          Some (st, x, Some (u\<lparr>st_vec := v\<rparr>))
        })"

definition stack_peek_ptr :: "('a, 'w) seqc_stack_t option \<Rightarrow> 'a elem_ptr option" where
  "stack_peek_ptr s =
     (case s of
        None \<Rightarrow> None
      | Some u \<Rightarrow> if vec_len (st_vec u) = 0 then None
                  else vec_get_ptr (st_vec u) (vec_len (st_vec u) - 1))"

definition stack_is_empty :: "('a, 'w) seqc_stack_t option \<Rightarrow> bool" where
  "stack_is_empty s = (case s of None \<Rightarrow> True | Some u \<Rightarrow> vec_len (st_vec u) = 0)"

definition stack_len :: "('a, 'w) seqc_stack_t option \<Rightarrow> size_t" where
  "stack_len s = (case s of None \<Rightarrow> 0 | Some u \<Rightarrow> vec_len (st_vec u))"

definition stack_iter ::
  "('a, 'w) seqc_stack_t option \<Rightarrow> 'w \<Rightarrow> (('a, 'a slice_iter_state_t, 'w) iter_t \<times> 'w) option" where
  "stack_iter s w = (case s of None \<Rightarrow> Some (iter_zero, w) | Some u \<Rightarrow> vec_iter (st_vec u) w)"

definition stack_iter_rev ::
  "('a, 'w) seqc_stack_t option \<Rightarrow> 'w \<Rightarrow> (('a, 'a slice_iter_state_t, 'w) iter_t \<times> 'w) option" where
  "stack_iter_rev s w = (case s of None \<Rightarrow> Some (iter_zero, w) | Some u \<Rightarrow> vec_iter_rev (st_vec u) w)"

definition stack_clear :: "('a, 'w) seqc_stack_t option \<Rightarrow> ('a, 'w) seqc_stack_t option" where
  "stack_clear s = map_option (\<lambda>u. u\<lparr>st_vec := vec_clear (st_vec u)\<rparr>) s"

definition stack_destroy :: "('a, 'w) seqc_stack_t option \<Rightarrow> 'w \<Rightarrow> 'w option" where
  "stack_destroy s w =
     (case s of
        None \<Rightarrow> Some w
      | Some u \<Rightarrow> do {
          w \<leftarrow> vec_destroy (st_vec u) w;
          mem_free (st_alloc u) (Some (st_self u)) sizeof_seqc_stack_t w
        })"

definition stack_peek :: "('a, 'w) seqc_stack_t option \<Rightarrow> bool \<Rightarrow> (seqc_status_t \<times> 'a option) option" where
  "stack_peek s out =
     (if s = None then Some (SEQC_INVALID, None)
      else seqc_copy_out (map_option ptr_read (stack_peek_ptr s)) out)"

definition stack_extend ::
  "('a, 'w) seqc_stack_t option \<Rightarrow> ('a, 's, 'w) iter_t \<Rightarrow> 'w \<Rightarrow>
   (seqc_status_t \<times> ('a, 'w) seqc_stack_t option \<times> 'w) option" where
  "stack_extend s it w =
     (case s of
        None \<Rightarrow> do { w \<leftarrow> iter_destroy it w; Some (SEQC_INVALID, None, w) }
      | Some u \<Rightarrow> seqc_extend s stack_push (vec_elem_size (st_vec u)) (st_alloc u) it w)"

subsection \<open>The invariant\<close>

definition stack_is :: "'w vtable \<Rightarrow> ('a, 'w) seqc_stack_t \<Rightarrow> 'a list \<Rightarrow> bool" where
  "stack_is t s xs \<longleftrightarrow>
     st_alloc s = Some t \<and> (\<exists>v. st_vec s = Some v \<and> vec_is t v xs \<and> st_self s \<notin> dom (vec_blocks v))"

definition stack_blocks :: "('a, 'w) seqc_stack_t \<Rightarrow> (addr \<rightharpoonup> size_t)" where
  "stack_blocks s =
     (case st_vec s of None \<Rightarrow> Map.empty | Some v \<Rightarrow> vec_blocks v)(st_self s \<mapsto> sizeof_seqc_stack_t)"

definition stack_at ::
  "'w vtable \<Rightarrow> ('w \<Rightarrow> addr \<rightharpoonup> size_t) \<Rightarrow> (addr \<rightharpoonup> size_t) \<Rightarrow> 'w \<Rightarrow> ('a, 'w) seqc_stack_t \<Rightarrow> 'a list \<Rightarrow> bool" where
  "stack_at t live R w s xs \<longleftrightarrow> stack_is t s xs \<and> owns (live w) R (stack_blocks s)"

definition stack_elem_size :: "('a, 'w) seqc_stack_t \<Rightarrow> size_t" where
  "stack_elem_size s = vec_elem_size (st_vec s)"

definition stack_same :: "('a, 'w) seqc_stack_t \<Rightarrow> ('a, 'w) seqc_stack_t \<Rightarrow> bool" where
  "stack_same s s' \<longleftrightarrow> st_self s' = st_self s \<and> st_alloc s' = st_alloc s \<and> stack_elem_size s' = stack_elem_size s"

lemma stack_at_vec:
  "stack_at t live R w s xs \<longleftrightarrow>
     st_alloc s = Some t \<and> st_self s \<notin> dom R \<and>
     (\<exists>v. st_vec s = Some v \<and> vec_at t live (R(st_self s \<mapsto> sizeof_seqc_stack_t)) w v xs)"
  unfolding stack_at_def stack_is_def stack_blocks_def vec_at_def
  using owns_wrap_iff by (metis (mono_tags, lifting) option.simps(5))

lemma stack_atE:
  assumes "stack_at t live R w s xs"
  obtains v where "st_vec s = Some v" and "st_alloc s = Some t" and "st_self s \<notin> dom R"
    and "vec_at t live (R(st_self s \<mapsto> sizeof_seqc_stack_t)) w v xs"
  using assms unfolding stack_at_vec by blast

lemma stack_atI:
  "st_alloc s = Some t \<Longrightarrow> st_self s \<notin> dom R \<Longrightarrow>
   vec_at t live (R(st_self s \<mapsto> sizeof_seqc_stack_t)) w v xs \<Longrightarrow> stack_at t live R w (s\<lparr>st_vec := Some v\<rparr>) xs"
  unfolding stack_at_vec by simp

lemma stack_is_len: "stack_is t s xs \<Longrightarrow> stack_len (Some s) = length xs"
  by (auto simp: stack_is_def stack_len_def vec_is_len)

text \<open>Popping and peeking see the element pushed last.\<close>

lemma stack_pop_snoc:
  assumes "stack_at t live R w s (xs @ [x])"
  obtains s' where "stack_pop (Some s) out = Some (SEQC_OK, if out then Some x else None, Some s')"
    and "stack_at t live R w s' xs" and "stack_same s s'"
proof -
  from assms obtain v where v: "st_vec s = Some v" "st_alloc s = Some t" "st_self s \<notin> dom R"
    "vec_at t live (R(st_self s \<mapsto> sizeof_seqc_stack_t)) w v (xs @ [x])" by (rule stack_atE)
  note v' = vec_pop_snoc [OF v(4)]
  from v'(1) [of out] v(1) stack_atI [OF v(2,3) v'(2)] that show ?thesis
    by (simp add: stack_pop_def stack_same_def stack_elem_size_def vec_elem_size_def)
qed

lemma stack_pop_empty:
  assumes "stack_is t s []"
  shows "stack_pop (Some s) out = Some (SEQC_NOT_FOUND, None, Some s)"
  using assms vec_pop_empty by (fastforce simp: stack_is_def stack_pop_def)

lemma stack_peek_is:
  assumes "stack_is t s xs"
  shows "stack_peek (Some s) out =
    Some (if xs = [] then (SEQC_NOT_FOUND, None) else (SEQC_OK, if out then Some (last xs) else None))"
proof -
  from assms obtain v where v: "st_vec s = Some v" "vec_is t v xs" by (auto simp: stack_is_def)
  show ?thesis
  proof (cases "xs = []")
    case True
    with v show ?thesis by (simp add: stack_peek_def stack_peek_ptr_def vec_is_len)
  next
    case False
    then have "length xs - 1 < length xs" by (cases xs) auto
    moreover have "stack_peek (Some s) out = vec_get (Some v) (length xs - 1) out"
      using v False by (simp add: stack_peek_def stack_peek_ptr_def vec_is_len vec_get_def)
    ultimately show ?thesis using vec_get_is [OF v(2), of "length xs - 1" out] False
      by (simp add: last_conv_nth)
  qed
qed

lemma stack_clear_at:
  assumes "stack_at t live R w s xs"
  obtains s' where "stack_clear (Some s) = Some s'" and "stack_at t live R w s' []" and "stack_same s s'"
proof -
  from assms obtain v where v: "st_vec s = Some v" "st_alloc s = Some t" "st_self s \<notin> dom R"
    "vec_at t live (R(st_self s \<mapsto> sizeof_seqc_stack_t)) w v xs" by (rule stack_atE)
  have c: "vec_clear (Some v) = Some (v\<lparr>v_len := 0\<rparr>)" by (simp add: vec_clear_def)
  have "vec_at t live (R(st_self s \<mapsto> sizeof_seqc_stack_t)) w (v\<lparr>v_len := 0\<rparr>) []"
    using vec_clear_at [OF v(4)] c by simp
  from stack_atI [OF v(2,3) this] v(1) c that show ?thesis
    by (simp add: stack_clear_def stack_same_def stack_elem_size_def vec_elem_size_def)
qed

context heap_allocator begin

lemma stack_push_at:
  assumes "stack_at t live R w s xs"
  obtains (ok) s' w' where "stack_push (Some s) (Some x) w = Some (SEQC_OK, Some s', w')"
      and "stack_at t live R w' s' (xs @ [x])" and "stack_same s s'"
  | (oom) w' where "stack_push (Some s) (Some x) w = Some (SEQC_OOM, Some s, w')"
      and "stack_at t live R w' s xs" and "refuses t (growth (stack_elem_size s) (length xs))"
proof -
  from assms obtain v where v: "st_vec s = Some v" "st_alloc s = Some t" "st_self s \<notin> dom R"
    "vec_at t live (R(st_self s \<mapsto> sizeof_seqc_stack_t)) w v xs" by (rule stack_atE)
  from v(4) show ?thesis
  proof (cases rule: vec_push_at [where x = x])
    case (ok v' w')
    from stack_atI [OF v(2,3) ok(2)] ok(1,3) v(1) that(1) [of "s\<lparr>st_vec := Some v'\<rparr>" w'] show ?thesis
      by (simp add: stack_push_def stack_same_def stack_elem_size_def vec_same_def vec_elem_size_def)
  next
    case (oom w')
    have s: "s\<lparr>st_vec := Some v\<rparr> = s" using v(1) by (cases s) simp
    have "stack_at t live R w' s xs" using stack_atI [OF v(2,3) oom(2)] unfolding s .
    moreover have "stack_push (Some s) (Some x) w = Some (SEQC_OOM, Some s, w')"
      using oom(1) v(1) by (simp add: stack_push_def s)
    moreover have "refuses t (growth (stack_elem_size s) (length xs))" using oom(4) v(1) by (simp add: stack_elem_size_def vec_elem_size_def)
    ultimately show ?thesis by (intro that(2))
  qed
qed

lemma stack_create_at:
  assumes "elem_size_ok es" and "live w = R"
  obtains (ok) s :: "('e, 'w) seqc_stack_t" and w' where "stack_create es (Some t) w = Some (Some s, w')"
      and "stack_at t live R w' s []" and "stack_elem_size s = es"
  | (oom) w' where "stack_create es (Some t) w = Some (None :: ('e, 'w) seqc_stack_t option, w')"
      and "live w' = R" and "starved (Some t)"
proof (cases rule: iter_state_alloc [of sizeof_seqc_stack_t w])
  case (granted a w1)
  from granted(2) assms(2) have o: "owns (live w1) R ([a \<mapsto> sizeof_seqc_stack_t])" by simp
  with owns_wrap_iff [of a Map.empty "live w1" R sizeof_seqc_stack_t]
  have a: "a \<notin> dom R" "live w1 = R(a \<mapsto> sizeof_seqc_stack_t)" by simp_all
  show ?thesis
  proof (cases rule: vec_create_at [OF assms(1) a(2), where 'e = 'e])
    case (1 v w2)
    let ?s = "\<lparr>st_self = a, st_vec = Some v, st_alloc = Some t\<rparr>"
    have "stack_create es (Some t) w = Some (Some ?s, w2)"
      using granted(1) 1(1) by (simp add: stack_create_def del: mem_alloc.simps)
    moreover have "stack_at t live R w2 ?s []" using a(1) 1(2) by (simp add: stack_at_vec)
    ultimately show ?thesis using ok 1(3) by (simp add: stack_elem_size_def vec_elem_size_def)
  next
    case (2 w2)
    then have "owns (live w2) R [a \<mapsto> sizeof_seqc_stack_t]"
      using owns_wrap_iff [of a Map.empty "live w2" R sizeof_seqc_stack_t] a(1) by simp
    then obtain w3 where "mem_free (Some t) (Some a) sizeof_seqc_stack_t w2 = Some w3"
        "owns (live w3) R ([a \<mapsto> sizeof_seqc_stack_t](a := None))"
      by (rule owns_mem_free [of _ _ _ a sizeof_seqc_stack_t]) simp_all
    with granted(1) 2(1,3) show ?thesis
      by (intro oom [of w3]) (simp_all add: stack_create_def del: mem_alloc.simps mem_free.simps)
  qed
next
  case (refused w')
  then show ?thesis using assms starved_small [OF refused(3)]
    by (intro oom [of w']) (simp_all add: stack_create_def del: mem_alloc.simps)
qed

lemma stack_destroy_at:
  assumes "stack_at t live R w s xs"
  obtains w' where "stack_destroy (Some s) w = Some w'" and "live w' = R"
proof -
  from assms obtain v where v: "st_vec s = Some v" "st_alloc s = Some t" "st_self s \<notin> dom R"
    "vec_at t live (R(st_self s \<mapsto> sizeof_seqc_stack_t)) w v xs" by (rule stack_atE)
  obtain w1 where w1: "vec_destroy (Some v) w = Some w1" "live w1 = R(st_self s \<mapsto> sizeof_seqc_stack_t)"
    by (rule vec_destroy_at [OF v(4)])
  have o: "owns (live w1) (R(st_self s \<mapsto> sizeof_seqc_stack_t)) Map.empty" using w1(2) by simp
  obtain w2 where w2: "mem_free (Some t) (Some (st_self s)) sizeof_seqc_stack_t w1 = Some w2"
      "owns (live w2) R Map.empty"
    by (rule release_held [OF o v(3)])
  with w1(1) v(1,2) that show ?thesis by (simp add: stack_destroy_def del: mem_free.simps)
qed

lemma stack_iter_built:
  "stack_is t s xs \<Longrightarrow> iter_built live (Some t) (live w) (stack_elem_size s) xs (stack_iter (Some s) w)"
  using vec_iter_built by (fastforce simp: stack_is_def stack_iter_def stack_elem_size_def vec_elem_size_def)

lemma stack_iter_rev_built:
  "stack_is t s xs \<Longrightarrow> iter_built live (Some t) (live w) (stack_elem_size s) (rev xs) (stack_iter_rev (Some s) w)"
  using vec_iter_rev_built by (fastforce simp: stack_is_def stack_iter_rev_def stack_elem_size_def vec_elem_size_def)

lemma stack_collection:
  "collection_add t live stack_push stack_blocks (stack_is t) (\<lambda>xs x. xs @ [x]) stack_same
    (\<lambda>c xs. refuses t (growth (stack_elem_size c) (length xs)))"
proof unfold_locales
  fix s :: "('e, 'w) seqc_stack_t" and xs :: "'e list" and w R x
  assume "stack_is t s xs" "owns (live w) R (stack_blocks s)"
  then have "stack_at t live R w s xs" by (simp add: stack_at_def)
  then show "\<exists>st s' w'. stack_push (Some s) (Some x) w = Some (st, Some s', w') \<and>
      owns (live w') R (stack_blocks s') \<and> stack_same s s' \<and>
      (if st = SEQC_OK \<or> st = SEQC_DUPLICATE then stack_is t s' (xs @ [x]) else st = SEQC_OOM \<and> stack_is t s' xs \<and>
         refuses t (growth (stack_elem_size s) (length xs)))"
    by (cases rule: stack_push_at [where x = x]) (auto simp: stack_at_def stack_same_def)
qed (simp_all add: stack_same_def)

lemma stack_extend_at:
  assumes "stack_is t s ys" and "owns2 (live w) R (stack_blocks s) B"
    and "iter_rep live xs it B" and "iter_is_valid it" and "it_elem_size it = stack_elem_size s"
  shows "\<exists>st s' w' k. stack_extend (Some s) it w = Some (st, Some s', w') \<and> stack_same s s' \<and>
    stack_at t live R w' s' (ys @ take k xs) \<and>
    (st = SEQC_OK \<and> k = length xs \<or> st = SEQC_OOM \<and> k \<le> length xs \<and>
      (refuses t (growth (stack_elem_size s) (length (ys @ take k xs))) \<or> k = 0 \<and> refuses t (stack_elem_size s)))"
proof -
  have "stack_extend (Some s) it w = seqc_extend (Some s) stack_push (stack_elem_size s) (Some t) it w"
    using assms(1) by (simp add: stack_extend_def stack_elem_size_def stack_is_def)
  with collection_add.drain_at [OF stack_collection assms] show ?thesis
    unfolding stack_at_def foldl_snoc by metis
qed

end

interpretation sys_stack: collection_add sys_allocator hp_live stack_push stack_blocks
  "stack_is sys_allocator" "\<lambda>xs x. xs @ [x]" stack_same
  "\<lambda>c xs. refuses sys_allocator (growth (stack_elem_size c) (length xs))"
  by (rule sys.stack_collection)

end
