(* ===== verification/Seqc_Ring.thy ===== *)
theory Seqc_Ring
  imports Seqc_Buffer
begin

section \<open>Circular buffers\<close>

text \<open>
  What \<open>queue_t\<close> and \<open>ringbuf_t\<close> have in common: a buffer of \<open>cap\<close> cells in which element \<open>i\<close>
  is in cell \<open>(head + i) mod cap\<close>. The lemmas say what reading, writing and moving the two ends
  do to the sequence of elements.
\<close>

definition ring_is :: "'a block option \<Rightarrow> size_t \<Rightarrow> size_t \<Rightarrow> 'a list \<Rightarrow> bool" where
  "ring_is d cap h xs \<longleftrightarrow>
     (case d of
        None \<Rightarrow> cap = 0 \<and> h = 0 \<and> xs = []
      | Some b \<Rightarrow> h < cap \<and> length (cells b) = cap \<and> length xs \<le> cap \<and>
          (\<forall>i < length xs. cells b ! ((h + i) mod cap) = Some (xs ! i)))"

lemma ring_is_None [simp]: "ring_is None cap h xs \<longleftrightarrow> cap = 0 \<and> h = 0 \<and> xs = []"
  by (simp add: ring_is_def)

lemma ring_is_len: "ring_is d cap h xs \<Longrightarrow> length xs \<le> cap"
  by (auto simp: ring_is_def split: option.splits)

lemma ring_is_head: "ring_is d cap h xs \<Longrightarrow> h \<le> cap"
  by (auto simp: ring_is_def split: option.splits)

lemma ring_is_SomeE:
  assumes "ring_is d cap h xs" and "0 < cap"
  obtains b where "d = Some b" and "h < cap" and "length (cells b) = cap" and "length xs \<le> cap"
    and "\<And>i. i < length xs \<Longrightarrow> cells b ! ((h + i) mod cap) = Some (xs ! i)"
  using assms by (cases d) (auto simp: ring_is_def)

lemma ring_is_SomeI:
  "h < cap \<Longrightarrow> length (cells b) = cap \<Longrightarrow> length xs \<le> cap \<Longrightarrow>
   (\<And>i. i < length xs \<Longrightarrow> cells b ! ((h + i) mod cap) = Some (xs ! i)) \<Longrightarrow> ring_is (Some b) cap h xs"
  by (simp add: ring_is_def)

text \<open>An index wraps around at most once.\<close>

lemma ring_index: "h < c \<Longrightarrow> i \<le> c \<Longrightarrow> (h + i) mod c = (if h + i < c then h + i else h + i - c)" for h :: nat
  by (simp add: mod_if)

lemma ring_index_inj:
  "h < c \<Longrightarrow> i < c \<Longrightarrow> j < c \<Longrightarrow> (h + i) mod c = (h + j) mod c \<longleftrightarrow> i = j" for h :: nat
  by (auto simp: ring_index split: if_splits)

lemma ring_prev_succ:
  fixes h :: nat
  assumes "h < c"
  shows "((h + c - 1) mod c + Suc i) mod c = (h + i) mod c"
proof -
  have "((h + c - 1) mod c + Suc i) mod c = (h + c - 1 + Suc i) mod c" by (rule mod_add_left_eq)
  also have "h + c - 1 + Suc i = h + i + c" using assms by simp
  finally show ?thesis by simp
qed

lemma ring_succ_prev:
  fixes h :: nat
  assumes "0 < c"
  shows "((h + Suc n) mod c + c - 1) mod c = (h + n) mod c"
proof -
  have "(h + Suc n) mod c + c - 1 = (h + Suc n) mod c + (c - 1)" using assms by simp
  then have "((h + Suc n) mod c + c - 1) mod c = (h + Suc n + (c - 1)) mod c"
    by (simp only: mod_add_left_eq)
  also have "h + Suc n + (c - 1) = h + n + c" using assms by simp
  finally show ?thesis by simp
qed

subsection \<open>The two ends\<close>

lemma ring_read:
  assumes "ring_is d cap h xs" and "i < length xs"
  shows "block_read d ((h + i) mod cap) = Some (xs ! i)"
proof -
  have "0 < cap" using assms ring_is_len by fastforce
  from assms(1) this obtain b where "d = Some b" "length (cells b) = cap"
      "\<And>i. i < length xs \<Longrightarrow> cells b ! ((h + i) mod cap) = Some (xs ! i)" by (rule ring_is_SomeE) blast
  with assms(2) \<open>0 < cap\<close> show ?thesis by (simp add: block_read_def)
qed

lemma ring_front:
  assumes "ring_is d cap h (x # xs)"
  shows "block_read d h = Some x" and "ring_is d cap (Suc h mod cap) xs" and "h < cap"
proof -
  have c: "0 < cap" using ring_is_len [OF assms] by simp
  from assms c obtain b where b: "d = Some b" "h < cap" "length (cells b) = cap" "length (x # xs) \<le> cap"
      "\<And>i. i < length (x # xs) \<Longrightarrow> cells b ! ((h + i) mod cap) = Some ((x # xs) ! i)"
    by (rule ring_is_SomeE) blast
  show "h < cap" by (rule b(2))
  show "block_read d h = Some x" using ring_read [OF assms, of 0] b(2) by simp
  have "cells b ! ((Suc h mod cap + i) mod cap) = Some (xs ! i)" if "i < length xs" for i
    using b(5) [of "Suc i"] that by (simp add: mod_add_left_eq)
  then show "ring_is d cap (Suc h mod cap) xs" unfolding b(1)
    by (intro ring_is_SomeI) (use b c in simp_all)
qed

lemma ring_back:
  assumes "ring_is d cap h (xs @ [x])"
  shows "block_read d ((h + length xs) mod cap) = Some x" and "ring_is d cap h xs"
proof -
  show "block_read d ((h + length xs) mod cap) = Some x" using ring_read [OF assms, of "length xs"] by simp
  have "0 < cap" using ring_is_len [OF assms] by simp
  with assms obtain b where b: "d = Some b" "h < cap" "length (cells b) = cap" "length (xs @ [x]) \<le> cap"
      "\<And>i. i < length (xs @ [x]) \<Longrightarrow> cells b ! ((h + i) mod cap) = Some ((xs @ [x]) ! i)"
    by (rule ring_is_SomeE) blast
  have "cells b ! ((h + i) mod cap) = Some (xs ! i)" if "i < length xs" for i
    using b(5) [of i] that by (simp add: nth_append)
  then show "ring_is d cap h xs" unfolding b(1) by (intro ring_is_SomeI) (use b in simp_all)
qed

lemma ring_push_back:
  assumes "ring_is d cap h xs" and "length xs < cap"
  obtains d' where "block_write d ((h + length xs) mod cap) x = Some d'" and "ring_is d' cap h (xs @ [x])"
    and "map_option blk_addr d' = map_option blk_addr d"
proof -
  have "0 < cap" using assms(2) by simp
  with assms(1) obtain b where b: "d = Some b" "h < cap" "length (cells b) = cap" "length xs \<le> cap"
      "\<And>i. i < length xs \<Longrightarrow> cells b ! ((h + i) mod cap) = Some (xs ! i)"
    by (rule ring_is_SomeE) blast
  let ?k = "(h + length xs) mod cap" and ?b = "b\<lparr>cells := (cells b)[(h + length xs) mod cap := Some x]\<rparr>"
  have k: "?k < cap" using assms(2) by simp
  have "block_write d ?k x = Some (Some ?b)" using b(1,3) k by (simp add: block_write_def)
  moreover have "cells ?b ! ((h + i) mod cap) = Some ((xs @ [x]) ! i)" if "i < length (xs @ [x])" for i
    using that b(5) [of i] b(2,3) k assms(2) ring_index_inj [of h cap i "length xs"]
    by (auto simp: nth_append nth_list_update less_Suc_eq)
  then have "ring_is (Some ?b) cap h (xs @ [x])"
    by (intro ring_is_SomeI) (use b assms(2) in simp_all)
  ultimately show ?thesis using that b(1) by simp
qed

lemma ring_push_front:
  assumes "ring_is d cap h xs" and "length xs < cap"
  obtains d' where "block_write d ((h + cap - 1) mod cap) x = Some d'"
    and "ring_is d' cap ((h + cap - 1) mod cap) (x # xs)"
    and "map_option blk_addr d' = map_option blk_addr d"
proof -
  have "0 < cap" using assms(2) by simp
  with assms(1) obtain b where b: "d = Some b" "h < cap" "length (cells b) = cap" "length xs \<le> cap"
      "\<And>i. i < length xs \<Longrightarrow> cells b ! ((h + i) mod cap) = Some (xs ! i)"
    by (rule ring_is_SomeE) blast
  let ?k = "(h + cap - 1) mod cap"
  let ?b = "b\<lparr>cells := (cells b)[?k := Some x]\<rparr>"
  have k: "?k < cap" using b(2) by simp
  have "block_write d ?k x = Some (Some ?b)" using b(1,3) k by (simp add: block_write_def)
  moreover have "cells ?b ! ((?k + i) mod cap) = Some ((x # xs) ! i)" if "i < length (x # xs)" for i
  proof (cases i)
    case 0
    with k b(3) show ?thesis by simp
  next
    case (Suc j)
    with that assms(2) have j: "j < length xs" "Suc j < cap" by simp_all
    have ne: "(?k + Suc j) mod cap \<noteq> ?k" using ring_index_inj [OF k j(2), of 0] k by simp
    have "(?k + Suc j) mod cap = (h + j) mod cap" by (rule ring_prev_succ [OF b(2)])
    with ne b(5) [OF j(1)] Suc show ?thesis by simp
  qed
  then have "ring_is (Some ?b) cap ?k (x # xs)"
    by (intro ring_is_SomeI) (use b k assms(2) in simp_all)
  ultimately show ?thesis using that b(1) by simp
qed

text \<open>A buffer that was filled from its start is a circular buffer with head 0.\<close>

lemma ring_is_linear:
  assumes "0 < cap" and "length (cells b) = cap" and "length xs \<le> cap"
    and "take (length xs) (cells b) = map Some xs"
  shows "ring_is (Some b) cap 0 xs"
proof (rule ring_is_SomeI)
  fix i assume i: "i < length xs"
  have "cells b ! i = take (length xs) (cells b) ! i" using i by simp
  also have "\<dots> = Some (xs ! i)" using i assms(4) by simp
  finally show "cells b ! ((0 + i) mod cap) = Some (xs ! i)" using i assms(3) by simp
qed (use assms in simp_all)

lemma ring_is_clear: "ring_is d cap h xs \<Longrightarrow> ring_is d cap 0 []"
  by (auto simp: ring_is_def split: option.splits)

text \<open>The bytes from cell \<open>h\<close> up to the end of the buffer, then those from cell 0.\<close>

lemma ring_straight:
  assumes "ring_is (Some b) cap h xs" and "h + length xs \<le> cap"
  shows "take (length xs) (drop h (cells b)) = map Some xs"
proof (rule nth_equalityI)
  show "length (take (length xs) (drop h (cells b))) = length (map Some xs)"
    using assms by (auto simp: ring_is_def)
  fix i assume i: "i < length (take (length xs) (drop h (cells b)))"
  then have "i < length xs" "h + i < cap" using assms(2) by auto
  with assms i show "take (length xs) (drop h (cells b)) ! i = map Some xs ! i"
    by (auto simp: ring_is_def)
qed

lemma ring_wrapped:
  assumes "ring_is (Some b) cap h xs" and "cap < h + length xs"
  shows "take (cap - h) (drop h (cells b)) @ take (length xs - (cap - h)) (cells b) = map Some xs"
proof (rule nth_equalityI)
  from assms(1) have b: "h < cap" "length (cells b) = cap" "length xs \<le> cap"
      "\<And>i. i < length xs \<Longrightarrow> cells b ! ((h + i) mod cap) = Some (xs ! i)"
    by (auto simp: ring_is_def)
  then have l: "length (take (cap - h) (drop h (cells b))) = cap - h"
    "length (take (length xs - (cap - h)) (cells b)) = length xs - (cap - h)" by auto
  with b assms(2) show "length (take (cap - h) (drop h (cells b)) @ take (length xs - (cap - h)) (cells b)) =
      length (map Some xs)" by simp
  fix i assume "i < length (take (cap - h) (drop h (cells b)) @ take (length xs - (cap - h)) (cells b))"
  with l b assms(2) have i: "i < length xs" by simp
  show "(take (cap - h) (drop h (cells b)) @ take (length xs - (cap - h)) (cells b)) ! i = map Some xs ! i"
  proof (cases "h + i < cap")
    case True
    then have "i < cap - h" by simp
    with True b(4) [OF i] b(2) i l(1) show ?thesis by (simp add: nth_append)
  next
    case False
    then have "(h + i) mod cap = i - (cap - h)" using ring_index [of h cap i] b(1,3) i by simp
    moreover have "\<not> i < cap - h" using False by simp
    ultimately show ?thesis using b(4) [OF i] False b(1,2) i l(1) assms(2) by (simp add: nth_append)
  qed
qed

end
