(* ===== verification/Seqc_Queue.thy ===== *)
theory Seqc_Queue
  imports Seqc_Ring Seqc_Collection
begin

section \<open>The queue\<close>

text \<open>
  \<open>src/queue/queue.c\<close>: a circular buffer that doubles when it is full. \<open>queue_grow\<close> allocates
  the larger buffer first, copies the elements to its start in logical order and frees the old
  one, so a refused request leaves the queue as it was.
\<close>

definition QUEUE_INITIAL_CAP :: size_t where
  "QUEUE_INITIAL_CAP = 16"

record ('a, 'w) queue_t =
  q_self :: addr
  q_buf :: "'a block option"
  q_cap :: size_t
  q_len :: size_t
  q_head :: size_t
  q_elem_size :: size_t
  q_alloc :: "'w allocator_t"

definition sizeof_queue_t :: size_t where
  "sizeof_queue_t = 56"

lemma sizeof_queue_t_small [simp]: "sizeof_queue_t \<le> 256"
  by (simp add: sizeof_queue_t_def)

subsection \<open>Operations\<close>

definition queue_create :: "size_t \<Rightarrow> 'w allocator_t \<Rightarrow> 'w \<Rightarrow> (('a, 'w) queue_t option \<times> 'w) option" where
  "queue_create es al w = do {
     (p, w) \<leftarrow> mem_alloc al sizeof_queue_t w;
     case p of
       None \<Rightarrow> Some (None, w)
     | Some a \<Rightarrow> Some (Some \<lparr>q_self = a, q_buf = None, q_cap = 0, q_len = 0, q_head = 0,
         q_elem_size = es, q_alloc = al\<rparr>, w)
   }"

text \<open>The copying loop of \<open>queue_grow\<close>.\<close>

function queue_copy :: "('a, 'w) queue_t \<Rightarrow> 'a block option \<Rightarrow> size_t \<Rightarrow> 'a block option option" where
  "queue_copy q nb i =
     (if i < q_len q then do {
        nb \<leftarrow> block_copy nb i (q_buf q) (wadd (q_head q) i mod (if q_cap q = 0 then 1 else q_cap q)) 1;
        queue_copy q nb (Suc i)
      } else Some nb)"
  by pat_completeness auto
termination
  by (relation "measure (\<lambda>(q, nb, i). q_len q - i)") auto

declare queue_copy.simps [simp del]

definition queue_grow :: "('a, 'w) queue_t \<Rightarrow> 'w \<Rightarrow> (seqc_status_t \<times> ('a, 'w) queue_t \<times> 'w) option" where
  "queue_grow q w =
     (if q_cap q > SIZE_MAX div 2 then Some (SEQC_OOM, q, w)
      else let new_cap = (if q_cap q = 0 then QUEUE_INITIAL_CAP else wmul (q_cap q) 2) in do {
        (nb, w) \<leftarrow> block_alloc (q_alloc q) (q_elem_size q) (wmul new_cap (q_elem_size q)) w;
        if nb = None then Some (SEQC_OOM, q, w)
        else do {
          nb \<leftarrow> queue_copy q nb 0;
          w \<leftarrow> (if q_buf q = None then Some w
                else block_free (q_alloc q) (q_buf q) (wmul (q_cap q) (q_elem_size q)) w);
          Some (SEQC_OK, q\<lparr>q_buf := nb, q_cap := new_cap, q_head := 0\<rparr>, w)
        }
      })"

definition queue_push ::
  "('a, 'w) queue_t option \<Rightarrow> 'a option \<Rightarrow> 'w \<Rightarrow> (seqc_status_t \<times> ('a, 'w) queue_t option \<times> 'w) option" where
  "queue_push q elem w =
     (case (q, elem) of
        (Some u, Some x) \<Rightarrow> do {
          (s, u, w) \<leftarrow> (if q_len u = q_cap u then queue_grow u w else Some (SEQC_OK, u, w));
          if s \<noteq> SEQC_OK then Some (s, Some u, w)
          else do {
            d \<leftarrow> block_write (q_buf u) (wadd (q_head u) (q_len u) mod q_cap u) x;
            Some (SEQC_OK, Some (u\<lparr>q_buf := d, q_len := Suc (q_len u)\<rparr>), w)
          }
        }
      | _ \<Rightarrow> Some (SEQC_INVALID, q, w))"

definition queue_pop ::
  "('a, 'w) queue_t option \<Rightarrow> bool \<Rightarrow> (seqc_status_t \<times> 'a option \<times> ('a, 'w) queue_t option) option" where
  "queue_pop q out =
     (case q of
        None \<Rightarrow> Some (SEQC_NOT_FOUND, None, None)
      | Some u \<Rightarrow>
          if q_len u = 0 then Some (SEQC_NOT_FOUND, None, q)
          else do {
            x \<leftarrow> (if out then map_option Some (block_read (q_buf u) (q_head u)) else Some None);
            Some (SEQC_OK, x, Some (u\<lparr>q_head := wadd (q_head u) 1 mod q_cap u, q_len := q_len u - 1\<rparr>))
          })"

definition queue_front_ptr :: "('a, 'w) queue_t option \<Rightarrow> 'a elem_ptr option" where
  "queue_front_ptr q =
     (case q of
        None \<Rightarrow> None
      | Some u \<Rightarrow> if q_len u = 0 then None else map_option (\<lambda>b. (b, q_head u)) (q_buf u))"

definition queue_back_ptr :: "('a, 'w) queue_t option \<Rightarrow> 'a elem_ptr option" where
  "queue_back_ptr q =
     (case q of
        None \<Rightarrow> None
      | Some u \<Rightarrow> if q_len u = 0 then None
                  else map_option (\<lambda>b. (b, wsub (wadd (q_head u) (q_len u)) 1 mod q_cap u)) (q_buf u))"

definition queue_is_empty :: "('a, 'w) queue_t option \<Rightarrow> bool" where
  "queue_is_empty q = (case q of None \<Rightarrow> True | Some u \<Rightarrow> q_len u = 0)"

definition queue_len :: "('a, 'w) queue_t option \<Rightarrow> size_t" where
  "queue_len q = (case q of None \<Rightarrow> 0 | Some u \<Rightarrow> q_len u)"

definition queue_clear :: "('a, 'w) queue_t option \<Rightarrow> ('a, 'w) queue_t option" where
  "queue_clear q = map_option (\<lambda>u. u\<lparr>q_len := 0, q_head := 0\<rparr>) q"

definition queue_destroy :: "('a, 'w) queue_t option \<Rightarrow> 'w \<Rightarrow> 'w option" where
  "queue_destroy q w =
     (case q of
        None \<Rightarrow> Some w
      | Some u \<Rightarrow> do {
          w \<leftarrow> (if q_buf u = None then Some w
                else block_free (q_alloc u) (q_buf u) (wmul (q_cap u) (q_elem_size u)) w);
          mem_free (q_alloc u) (Some (q_self u)) sizeof_queue_t w
        })"

definition queue_front :: "('a, 'w) queue_t option \<Rightarrow> bool \<Rightarrow> (seqc_status_t \<times> 'a option) option" where
  "queue_front q out =
     (if q = None then Some (SEQC_INVALID, None)
      else seqc_copy_out (map_option ptr_read (queue_front_ptr q)) out)"

definition queue_back :: "('a, 'w) queue_t option \<Rightarrow> bool \<Rightarrow> (seqc_status_t \<times> 'a option) option" where
  "queue_back q out =
     (if q = None then Some (SEQC_INVALID, None)
      else seqc_copy_out (map_option ptr_read (queue_back_ptr q)) out)"

definition queue_extend ::
  "('a, 'w) queue_t option \<Rightarrow> ('a, 's, 'w) iter_t \<Rightarrow> 'w \<Rightarrow>
   (seqc_status_t \<times> ('a, 'w) queue_t option \<times> 'w) option" where
  "queue_extend q it w =
     (case q of
        None \<Rightarrow> do { w \<leftarrow> iter_destroy it w; Some (SEQC_INVALID, None, w) }
      | Some u \<Rightarrow> seqc_extend q queue_push (q_elem_size u) (q_alloc u) it w)"

subsection \<open>Iterators\<close>

text \<open>The iterator's state copies the queue's fields; \<open>qi_pos\<close> is \<open>head\<close> forwards and \<open>tail\<close> backwards.\<close>

record 'a queue_iter_state_t =
  qi_self :: addr
  qi_buf :: "'a block option"
  qi_pos :: size_t
  qi_cap :: size_t
  qi_remaining :: size_t
  qi_elem_size :: size_t

definition sizeof_queue_iter_state_t :: size_t where
  "sizeof_queue_iter_state_t = 40"

lemma sizeof_queue_iter_state_t_small [simp]: "sizeof_queue_iter_state_t \<le> 256"
  by (simp add: sizeof_queue_iter_state_t_def)

definition queue_iter_next ::
  "'a queue_iter_state_t \<Rightarrow> 'w \<Rightarrow> ('a option \<times> 'a queue_iter_state_t \<times> 'w) option" where
  "queue_iter_next s w =
     (if qi_remaining s = 0 \<or> qi_cap s = 0 then Some (None, s, w)
      else do {
        x \<leftarrow> block_read (qi_buf s) (qi_pos s);
        Some (Some x, s\<lparr>qi_pos := wadd (qi_pos s) 1 mod qi_cap s, qi_remaining := qi_remaining s - 1\<rparr>, w)
      })"

definition queue_iter_rev_next ::
  "'a queue_iter_state_t \<Rightarrow> 'w \<Rightarrow> ('a option \<times> 'a queue_iter_state_t \<times> 'w) option" where
  "queue_iter_rev_next s w =
     (if qi_remaining s = 0 \<or> qi_cap s = 0 then Some (None, s, w)
      else do {
        x \<leftarrow> block_read (qi_buf s) (qi_pos s);
        Some (Some x, s\<lparr>qi_pos := wsub (wadd (qi_pos s) (qi_cap s)) 1 mod qi_cap s,
          qi_remaining := qi_remaining s - 1\<rparr>, w)
      })"

definition queue_iter_drop :: "'w allocator_t \<Rightarrow> 'a queue_iter_state_t \<Rightarrow> 'w \<Rightarrow> 'w option" where
  "queue_iter_drop al s w = mem_free al (Some (qi_self s)) sizeof_queue_iter_state_t w"

definition queue_iter ::
  "('a, 'w) queue_t option \<Rightarrow> 'w \<Rightarrow> (('a, 'a queue_iter_state_t, 'w) iter_t \<times> 'w) option" where
  "queue_iter q w =
     (case q of
        None \<Rightarrow> Some (iter_zero, w)
      | Some u \<Rightarrow> do {
          (p, w) \<leftarrow> mem_alloc (q_alloc u) sizeof_queue_iter_state_t w;
          case p of
            None \<Rightarrow> Some (iter_zero, w)
          | Some a \<Rightarrow> Some (iter_make queue_iter_next (queue_iter_drop (q_alloc u))
              \<lparr>qi_self = a, qi_buf = q_buf u, qi_pos = q_head u, qi_cap = q_cap u,
               qi_remaining = q_len u, qi_elem_size = q_elem_size u\<rparr> (q_elem_size u) (q_alloc u), w)
        })"

definition queue_iter_rev ::
  "('a, 'w) queue_t option \<Rightarrow> 'w \<Rightarrow> (('a, 'a queue_iter_state_t, 'w) iter_t \<times> 'w) option" where
  "queue_iter_rev q w =
     (case q of
        None \<Rightarrow> Some (iter_zero, w)
      | Some u \<Rightarrow> do {
          (p, w) \<leftarrow> mem_alloc (q_alloc u) sizeof_queue_iter_state_t w;
          case p of
            None \<Rightarrow> Some (iter_zero, w)
          | Some a \<Rightarrow> Some (iter_make queue_iter_rev_next (queue_iter_drop (q_alloc u))
              \<lparr>qi_self = a, qi_buf = q_buf u,
               qi_pos = (if q_len u > 0 then wsub (wadd (q_head u) (q_len u)) 1 mod q_cap u else 0),
               qi_cap = q_cap u, qi_remaining = q_len u, qi_elem_size = q_elem_size u\<rparr>
              (q_elem_size u) (q_alloc u), w)
        })"

subsection \<open>The invariant\<close>

definition queue_is :: "'w vtable \<Rightarrow> ('a, 'w) queue_t \<Rightarrow> 'a list \<Rightarrow> bool" where
  "queue_is t q xs \<longleftrightarrow>
     q_alloc q = Some t \<and> elem_size_ok (q_elem_size q) \<and> q_len q = length xs \<and>
     ring_is (q_buf q) (q_cap q) (q_head q) xs \<and> q_cap q * q_elem_size q \<le> PTRDIFF_MAX \<and>
     apart [q_self q \<mapsto> sizeof_queue_t] (q_buf q)"

definition queue_blocks :: "('a, 'w) queue_t \<Rightarrow> (addr \<rightharpoonup> size_t)" where
  "queue_blocks q = own_block [q_self q \<mapsto> sizeof_queue_t] (q_buf q) (q_cap q * q_elem_size q)"

definition queue_at ::
  "'w vtable \<Rightarrow> ('w \<Rightarrow> addr \<rightharpoonup> size_t) \<Rightarrow> (addr \<rightharpoonup> size_t) \<Rightarrow> 'w \<Rightarrow> ('a, 'w) queue_t \<Rightarrow> 'a list \<Rightarrow> bool" where
  "queue_at t live R w q xs \<longleftrightarrow> queue_is t q xs \<and> owns (live w) R (queue_blocks q)"

definition queue_same :: "('a, 'w) queue_t \<Rightarrow> ('a, 'w) queue_t \<Rightarrow> bool" where
  "queue_same q q' \<longleftrightarrow> q_self q' = q_self q \<and> q_elem_size q' = q_elem_size q \<and> q_alloc q' = q_alloc q"

lemma queue_is_len: "queue_is t q xs \<Longrightarrow> queue_len (Some q) = length xs"
  by (simp add: queue_is_def queue_len_def)

lemma queue_is_ring: "queue_is t q xs \<Longrightarrow> ring_is (q_buf q) (q_cap q) (q_head q) xs"
  by (simp add: queue_is_def)

text \<open>Indices stay far from wrapping around \<open>size_t\<close>.\<close>


lemma queue_cap_small: "queue_is t q xs \<Longrightarrow> q_cap q < 2 ^ 63"
  by (rule cap_small [of _ "q_elem_size q"]) (simp_all add: queue_is_def)

lemma queue_index_exact:
  assumes "queue_is t q xs" and "i \<le> length xs"
  shows "wadd (q_head q) i = q_head q + i"
proof (rule wadd_exact)
  have "q_head q \<le> q_cap q" "length xs \<le> q_cap q"
    using ring_is_head [OF queue_is_ring [OF assms(1)]] ring_is_len [OF queue_is_ring [OF assms(1)]] .
  with queue_cap_small [OF assms(1)] assms(2) show "q_head q + i < 2 ^ 64" by simp
qed

subsection \<open>The two ends\<close>

lemma queue_pop_Cons:
  assumes "queue_at t live R w q (x # xs)"
  obtains q' where "queue_pop (Some q) out = Some (SEQC_OK, if out then Some x else None, Some q')"
    and "queue_at t live R w q' xs" and "queue_same q q'"
proof -
  from assms have q: "queue_is t q (x # xs)" "owns (live w) R (queue_blocks q)" by (simp_all add: queue_at_def)
  note r = ring_front [OF queue_is_ring [OF q(1)]]
  let ?q = "q\<lparr>q_head := Suc (q_head q) mod q_cap q, q_len := q_len q - 1\<rparr>"
  have "queue_pop (Some q) out = Some (SEQC_OK, if out then Some x else None, Some ?q)"
    using q(1) r(1) queue_index_exact [OF q(1), of 1] by (auto simp: queue_pop_def queue_is_def)
  moreover have "queue_at t live R w ?q xs"
    using q r(2) by (simp add: queue_at_def queue_is_def queue_blocks_def)
  ultimately show ?thesis by (rule that) (simp add: queue_same_def)
qed

lemma queue_pop_empty: "queue_is t q [] \<Longrightarrow> queue_pop (Some q) out = Some (SEQC_NOT_FOUND, None, Some q)"
  by (simp add: queue_pop_def queue_is_def)

lemma ring_is_block: "ring_is d cap h xs \<Longrightarrow> xs \<noteq> [] \<Longrightarrow> \<exists>b. d = Some b"
  by (cases d) auto

lemma queue_front_is:
  assumes "queue_is t q xs"
  shows "queue_front (Some q) out =
    Some (if xs = [] then (SEQC_NOT_FOUND, None) else (SEQC_OK, if out then Some (hd xs) else None))"
proof (cases xs)
  case Nil
  with assms show ?thesis by (simp add: queue_front_def queue_front_ptr_def queue_is_def)
next
  case (Cons x ys)
  with queue_is_ring [OF assms] obtain b where "q_buf q = Some b" by (auto dest: ring_is_block)
  with Cons assms ring_front(1) [of "q_buf q" "q_cap q" "q_head q" x ys] show ?thesis
    by (simp add: queue_front_def queue_front_ptr_def queue_is_def ptr_read_def)
qed

lemma queue_last_index:
  assumes "queue_is t q (xs @ [x])"
  shows "wsub (wadd (q_head q) (q_len q)) 1 mod q_cap q = (q_head q + length xs) mod q_cap q"
proof -
  have l: "q_len q = Suc (length xs)" using assms by (simp add: queue_is_def)
  have "wadd (q_head q) (q_len q) = q_head q + Suc (length xs)"
    using queue_index_exact [OF assms, of "Suc (length xs)"] l by simp
  moreover have "wadd (q_head q) (q_len q) < 2 ^ 64" by (rule wadd_bound)
  ultimately show ?thesis using wsub_exact [of 1 "q_head q + Suc (length xs)"] by simp
qed

lemma queue_back_is:
  assumes "queue_is t q xs"
  shows "queue_back (Some q) out =
    Some (if xs = [] then (SEQC_NOT_FOUND, None) else (SEQC_OK, if out then Some (last xs) else None))"
proof (cases xs rule: rev_cases)
  case Nil
  with assms show ?thesis by (simp add: queue_back_def queue_back_ptr_def queue_is_def)
next
  case (snoc ys x)
  with queue_is_ring [OF assms] obtain b where b: "q_buf q = Some b" by (auto dest: ring_is_block)
  from snoc assms have q: "queue_is t q (ys @ [x])" by simp
  then have "q_len q \<noteq> 0" by (simp add: queue_is_def)
  with b snoc queue_last_index [OF q] ring_back(1) [OF queue_is_ring [OF q]] show ?thesis
    by (simp add: queue_back_def queue_back_ptr_def ptr_read_def)
qed

lemma queue_clear_at:
  assumes "queue_at t live R w q xs"
  obtains q' where "queue_clear (Some q) = Some q'" and "queue_at t live R w q' []" and "queue_same q q'"
proof -
  have "queue_at t live R w (q\<lparr>q_len := 0, q_head := 0\<rparr>) []"
    using assms ring_is_clear [OF queue_is_ring, of t q xs]
    by (simp add: queue_at_def queue_is_def queue_blocks_def)
  with that show ?thesis by (simp add: queue_clear_def queue_same_def)
qed

subsection \<open>Growing\<close>

text \<open>The loop brings the elements into the new buffer, in order.\<close>

lemma queue_copy_is:
  assumes q: "queue_is t q xs" and "i \<le> length xs"
    and "length (cells b) = c" and "length xs \<le> c" and "take i (cells b) = map Some (take i xs)"
  shows "\<exists>b'. queue_copy q (Some b) i = Some (Some b') \<and> blk_addr b' = blk_addr b \<and>
    length (cells b') = c \<and> take (length xs) (cells b') = map Some xs"
  using assms(2,3,5)
proof (induction "length xs - i" arbitrary: i b)
  case 0
  then show ?case using q by (simp add: queue_copy.simps queue_is_def)
next
  case (Suc n)
  then have i: "i < length xs" by simp
  then have "0 < q_cap q" using ring_is_len [OF queue_is_ring [OF q]] by simp
  with queue_is_ring [OF q] obtain b0 where b0: "q_buf q = Some b0" "length (cells b0) = q_cap q"
      "\<And>i. i < length xs \<Longrightarrow> cells b0 ! ((q_head q + i) mod q_cap q) = Some (xs ! i)"
    by (rule ring_is_SomeE) blast
  let ?s = "(q_head q + i) mod q_cap q" and ?b = "b\<lparr>cells := overwrite (cells b) i [Some (xs ! i)]\<rparr>"
  have s: "?s < q_cap q" using \<open>0 < q_cap q\<close> by simp
  have "take 1 (drop ?s (cells b0)) = [Some (xs ! i)]"
    using s b0(2,3) i by (simp add: take_Suc_conv_app_nth hd_drop_conv_nth flip: take_drop)
  then have copy: "block_copy (Some b) i (q_buf q) ?s 1 = Some (Some ?b)"
    using s b0(1,2) i Suc.prems assms(4) by (simp add: block_copy_def)
  have le: "i + 1 \<le> length (cells b)" using i Suc.prems(2) assms(4) by simp
  have "take (Suc i) (cells ?b) = map Some (take (Suc i) xs)"
    using le i Suc.prems(3) by (simp add: overwrite_def take_Suc_conv_app_nth)
  then have "\<exists>b'. queue_copy q (Some ?b) (Suc i) = Some (Some b') \<and> blk_addr b' = blk_addr ?b \<and>
      length (cells b') = c \<and> take (length xs) (cells b') = map Some xs"
    by (intro Suc.hyps(1)) (use Suc i le in simp_all)
  moreover have "queue_copy q (Some b) i = queue_copy q (Some ?b) (Suc i)"
    using i q copy \<open>0 < q_cap q\<close> queue_index_exact [OF q, of i]
    by (simp add: queue_copy.simps [of q "Some b" i] queue_is_def)
  ultimately show ?case by simp
qed

context heap_allocator begin

lemma queue_grow_at:
  fixes q :: "('e, 'w) queue_t"
  assumes at: "queue_at t live R w q xs" and full: "length xs = q_cap q"
  obtains (ok) q' w' where "queue_grow q w = Some (SEQC_OK, q', w')"
      and "queue_at t live R w' q' xs" and "queue_same q q'" and "length xs < q_cap q'"
  | (oom) w' where "queue_grow q w = Some (SEQC_OOM, q, w')" and "queue_at t live R w' q xs"
      and "refuses t (growth (q_elem_size q) (length xs))"
proof -
  let ?es = "q_elem_size q" and ?S = "[q_self q \<mapsto> sizeof_queue_t]"
  from at have q: "queue_is t q xs" and o: "owns (live w) R (own_block ?S (q_buf q) (q_cap q * ?es))"
    by (simp_all add: queue_at_def queue_blocks_def)
  from q have f: "elem_size_ok ?es" "q_cap q * ?es \<le> PTRDIFF_MAX" "q_alloc q = Some t" "q_len q = length xs"
      "apart ?S (q_buf q)"
    by (simp_all add: queue_is_def)
  note es = elem_size_ok_pos [OF f(1)]
  note grow = double_exact [OF f(2) es]
  define nc where "nc = (if q_cap q = 0 then QUEUE_INITIAL_CAP else wmul (q_cap q) 2)"
  have nc: "nc = (if q_cap q = 0 then 16 else q_cap q * 2)" using grow(1) by (simp add: nc_def QUEUE_INITIAL_CAP_def)
  have nce: "wmul nc ?es = nc * ?es"
    using grow(2) first_cap_exact [OF f(1), of 16] by (simp add: nc)
  have room: "length xs < nc" using full by (simp add: nc)
  have "0 < nc" using room by simp
  from o es this show ?thesis
  proof (cases rule: block_alloc_fresh [where 'e = 'e])
    case (granted b w1)
    have "\<exists>b'. queue_copy q (Some b) 0 = Some (Some b') \<and> blk_addr b' = blk_addr b \<and>
        length (cells b') = nc \<and> take (length xs) (cells b') = map Some xs"
      by (rule queue_copy_is [OF q]) (use granted(2) room in simp_all)
    then obtain b' where b': "queue_copy q (Some b) 0 = Some (Some b')" "blk_addr b' = blk_addr b"
        "length (cells b') = nc" "take (length xs) (cells b') = map Some xs" by blast
    obtain w2 where w2: "(if q_buf q = None then Some w1 else block_free (Some t) (q_buf q) (q_cap q * ?es) w1) = Some w2"
        "owns (live w2) R (?S(blk_addr b \<mapsto> nc * ?es))" "blk_addr b \<notin> dom ?S"
      by (rule block_swap [OF granted(3,4) f(5)])
    let ?q = "q\<lparr>q_buf := Some b', q_cap := nc, q_head := 0\<rparr>"
    have cap: "wmul (q_cap q) ?es = q_cap q * ?es"
      by (rule wmul_exact) (use f(2) in \<open>simp add: PTRDIFF_MAX_def\<close>)
    have "queue_grow q w = Some (SEQC_OK, ?q, w2)"
      using grow(3) granted(1) b'(1) w2(1)
      unfolding queue_grow_def nc_def [symmetric] Let_def f(3) nce cap by simp
    moreover have "ring_is (Some b') nc 0 xs" by (rule ring_is_linear) (use b' room in simp_all)
    then have "queue_at t live R w2 ?q xs"
      using f w2(2,3) b'(2) granted(5) by (simp add: queue_at_def queue_is_def queue_blocks_def)
    ultimately show ?thesis using ok room by (simp add: queue_same_def)
  next
    case (refused w1)
    then have "queue_grow q w = Some (SEQC_OOM, q, w1)"
      using grow(3) unfolding queue_grow_def nc_def [symmetric] Let_def f(3) nce by simp
    moreover have "queue_at t live R w1 q xs" using q refused(2) by (simp add: queue_at_def queue_blocks_def)
    moreover have "refuses t (growth (q_elem_size q) (length xs))" by (rule refuses_doubled [OF refused(3)]) (simp add: nc full)
    ultimately show ?thesis by (rule oom)
  qed
qed

lemma queue_push_at:
  assumes at: "queue_at t live R w q xs"
  obtains (ok) q' w' where "queue_push (Some q) (Some x) w = Some (SEQC_OK, Some q', w')"
      and "queue_at t live R w' q' (xs @ [x])" and "queue_same q q'"
  | (oom) w' where "queue_push (Some q) (Some x) w = Some (SEQC_OOM, Some q, w')"
      and "queue_at t live R w' q xs" and "q_cap q = length xs" and "refuses t (growth (q_elem_size q) (length xs))"
proof -
  have l: "q_len q = length xs" using at by (simp add: queue_at_def queue_is_def)
  let ?g = "if q_len q = q_cap q then queue_grow q w else Some (SEQC_OK, q, w)"
  consider (room) q1 w1 where "?g = Some (SEQC_OK, q1, w1)" "queue_at t live R w1 q1 xs"
      "length xs < q_cap q1" "queue_same q q1"
    | (none) w1 where "?g = Some (SEQC_OOM, q, w1)" "queue_at t live R w1 q xs" "q_cap q = length xs"
      "refuses t (growth (q_elem_size q) (length xs))"
  proof (cases "length xs = q_cap q")
    case True
    with queue_grow_at [OF at True] that l show ?thesis by metis
  next
    case False
    with ring_is_len [OF queue_is_ring, of t q xs] at have "length xs < q_cap q"
      by (simp add: queue_at_def)
    with that(1) [of q w] at l show ?thesis by (simp add: queue_same_def)
  qed
  then show ?thesis
  proof cases
    case (room q1 w1)
    from room(2) have q: "queue_is t q1 xs" by (simp add: queue_at_def)
    from queue_is_ring [OF q] room(3) obtain d where
      d: "block_write (q_buf q1) ((q_head q1 + length xs) mod q_cap q1) x = Some d"
        "ring_is d (q_cap q1) (q_head q1) (xs @ [x])" "map_option blk_addr d = map_option blk_addr (q_buf q1)"
      by (rule ring_push_back)
    let ?q = "q1\<lparr>q_buf := d, q_len := Suc (q_len q1)\<rparr>"
    have "queue_push (Some q) (Some x) w = Some (SEQC_OK, Some ?q, w1)"
      using room(1) d(1) queue_index_exact [OF q order_refl] q by (simp add: queue_push_def queue_is_def)
    moreover have "queue_at t live R w1 ?q (xs @ [x])"
      using room(2) d(2) own_block_same_addr [OF d(3)] by (simp add: queue_at_def queue_is_def queue_blocks_def)
    ultimately show ?thesis using room(4) by (intro ok [of ?q w1]) (simp_all add: queue_same_def)
  next
    case (none w1)
    then show ?thesis by (intro oom [of w1]) (simp_all add: queue_push_def)
  qed
qed

lemma queue_create_at:
  assumes "elem_size_ok es" and "live w = R"
  obtains (ok) q :: "('e, 'w) queue_t" and w' where "queue_create es (Some t) w = Some (Some q, w')"
      and "queue_at t live R w' q []" and "q_elem_size q = es"
  | (oom) w' where "queue_create es (Some t) w = Some (None :: ('e, 'w) queue_t option, w')" and "live w' = R"
      and "starved (Some t)"
proof (cases rule: iter_state_alloc [of sizeof_queue_t w])
  case (granted a w')
  let ?q = "\<lparr>q_self = a, q_buf = None, q_cap = 0, q_len = 0, q_head = 0, q_elem_size = es, q_alloc = Some t\<rparr>"
  have "queue_create es (Some t) w = Some (Some ?q, w')"
    using granted(1) by (simp add: queue_create_def del: mem_alloc.simps)
  then show ?thesis
    by (rule ok) (use granted(2) assms in \<open>simp_all add: queue_at_def queue_is_def queue_blocks_def\<close>)
next
  case (refused w')
  then show ?thesis using assms starved_small [OF refused(3)] by (intro oom [of w']) (simp_all add: queue_create_def del: mem_alloc.simps)
qed

lemma queue_destroy_at:
  assumes q: "queue_at t live R w q xs"
  obtains w' where "queue_destroy (Some q) w = Some w'" and "live w' = R"
proof -
  from q have f: "q_alloc q = Some t" "q_cap q * q_elem_size q \<le> PTRDIFF_MAX"
      "apart [q_self q \<mapsto> sizeof_queue_t] (q_buf q)"
      "owns (live w) R (own_block [q_self q \<mapsto> sizeof_queue_t] (q_buf q) (q_cap q * q_elem_size q))"
    by (simp_all add: queue_at_def queue_is_def queue_blocks_def)
  obtain w1 w2 where "(if q_buf q = None then Some w
       else block_free (Some t) (q_buf q) (wmul (q_cap q) (q_elem_size q)) w) = Some w1"
      "mem_free (Some t) (Some (q_self q)) sizeof_queue_t w1 = Some w2" "live w2 = R"
    by (rule free_with_buffer [OF f(4,3,2)])
  with that show ?thesis unfolding queue_destroy_def option.case f(1) by simp
qed

subsection \<open>Iterating and extending\<close>

lemma queue_iter_closes:
  "qi_self s = a \<Longrightarrow>
   iter_closes live (iter_make nx (queue_iter_drop (Some t)) s es al) [a \<mapsto> sizeof_queue_iter_state_t]"
  by (rule iter_closes_block) (simp add: queue_iter_drop_def)

lemma queue_iter_next_end: "qi_remaining s = 0 \<Longrightarrow> queue_iter_next s w = Some (None, s, w)"
  by (simp add: queue_iter_next_def)

lemma queue_iter_next_elem:
  "qi_remaining s = Suc n \<Longrightarrow> 0 < qi_cap s \<Longrightarrow> Suc (qi_pos s) < 2 ^ 64 \<Longrightarrow>
   block_read (qi_buf s) (qi_pos s) = Some x \<Longrightarrow>
   queue_iter_next s w = Some (Some x, s\<lparr>qi_pos := Suc (qi_pos s) mod qi_cap s, qi_remaining := n\<rparr>, w)"
  by (simp add: queue_iter_next_def wadd_exact)

lemma queue_iter_rep:
  assumes "ring_is (qi_buf s) (qi_cap s) (qi_pos s) xs" and "qi_remaining s = length xs"
    and "qi_cap s < 2 ^ 63" and "qi_self s = a"
  shows "iter_rep live xs (iter_make queue_iter_next (queue_iter_drop (Some t)) s es al)
    [a \<mapsto> sizeof_queue_iter_state_t]"
  using assms
proof (induction xs arbitrary: s)
  case Nil
  then show ?case
    by (intro iter_rep_Nil_still [OF queue_iter_closes _ queue_iter_closes]) (auto simp: queue_iter_next_end)
next
  case (Cons x xs)
  note r = ring_front [OF Cons.prems(1)]
  let ?s = "s\<lparr>qi_pos := Suc (qi_pos s) mod qi_cap s, qi_remaining := length xs\<rparr>"
  have "iter_rep live xs (iter_make queue_iter_next (queue_iter_drop (Some t)) ?s es al) [a \<mapsto> sizeof_queue_iter_state_t]"
    by (rule Cons.IH) (use r(2) Cons.prems in simp_all)
  moreover have "queue_iter_next s w = Some (Some x, ?s, w)" for w :: 'w
    by (rule queue_iter_next_elem) (use r Cons.prems in simp_all)
  ultimately show ?case using Cons.prems by (intro iter_rep_Cons_still queue_iter_closes) auto
qed

lemma queue_iter_rev_next_end: "qi_remaining s = 0 \<Longrightarrow> queue_iter_rev_next s w = Some (None, s, w)"
  by (simp add: queue_iter_rev_next_def)

lemma queue_iter_rev_next_elem:
  assumes "qi_remaining s = Suc n" and "qi_pos s < qi_cap s" and "qi_cap s < 2 ^ 63"
    and "block_read (qi_buf s) (qi_pos s) = Some x"
  shows "queue_iter_rev_next s w =
    Some (Some x, s\<lparr>qi_pos := (qi_pos s + qi_cap s - 1) mod qi_cap s, qi_remaining := n\<rparr>, w)"
proof -
  have "wadd (qi_pos s) (qi_cap s) = qi_pos s + qi_cap s" by (rule wadd_exact) (use assms in simp)
  moreover have "wsub (qi_pos s + qi_cap s) 1 = qi_pos s + qi_cap s - 1"
    by (rule wsub_exact) (use assms in simp_all)
  ultimately show ?thesis using assms by (simp add: queue_iter_rev_next_def)
qed

lemma queue_iter_rev_rep:
  assumes "ring_is (qi_buf s) (qi_cap s) h xs" and "qi_remaining s = length xs"
    and "xs \<noteq> [] \<Longrightarrow> qi_pos s = (h + length xs - 1) mod qi_cap s" and "qi_cap s < 2 ^ 63" and "qi_self s = a"
  shows "iter_rep live (rev xs) (iter_make queue_iter_rev_next (queue_iter_drop (Some t)) s es al)
    [a \<mapsto> sizeof_queue_iter_state_t]"
  using assms
proof (induction xs arbitrary: s rule: rev_induct)
  case Nil
  then show ?case unfolding rev.simps
    by (intro iter_rep_Nil_still [OF queue_iter_closes _ queue_iter_closes]) (auto simp: queue_iter_rev_next_end)
next
  case (snoc x xs)
  note r = ring_back [OF snoc.prems(1)]
  have c: "0 < qi_cap s" using ring_is_len [OF snoc.prems(1)] by simp
  have p: "qi_pos s = (h + length xs) mod qi_cap s" using snoc.prems(3) by simp
  let ?s = "s\<lparr>qi_pos := (qi_pos s + qi_cap s - 1) mod qi_cap s, qi_remaining := length xs\<rparr>"
  have "iter_rep live (rev xs) (iter_make queue_iter_rev_next (queue_iter_drop (Some t)) ?s es al)
      [a \<mapsto> sizeof_queue_iter_state_t]"
  proof (rule snoc.IH)
    assume "xs \<noteq> []"
    then obtain n where "length xs = Suc n" by (cases xs) auto
    with p ring_succ_prev [OF c, of h n] show "qi_pos ?s = (h + length xs - 1) mod qi_cap ?s" by simp
  qed (use r(2) snoc.prems in simp_all)
  moreover have "queue_iter_rev_next s w = Some (Some x, ?s, w)" for w :: 'w
    by (rule queue_iter_rev_next_elem) (use r p c snoc.prems in simp_all)
  ultimately show ?case unfolding rev_append rev.simps append.simps
    using snoc.prems by (intro iter_rep_Cons_still queue_iter_closes) auto
qed

lemma queue_iter_built:
  assumes "queue_is t q xs"
  shows "iter_built live (Some t) (live w) (q_elem_size q) xs (queue_iter (Some q) w)"
proof (cases rule: iter_state_alloc [of sizeof_queue_iter_state_t w])
  case (granted a w')
  have al: "q_alloc q = Some t" using assms by (simp add: queue_is_def)
  show ?thesis
    by (rule iter_built_valid [OF _ _ _ granted(2) queue_iter_rep
        [of "\<lparr>qi_self = a, qi_buf = q_buf q, qi_pos = q_head q, qi_cap = q_cap q,
              qi_remaining = q_len q, qi_elem_size = q_elem_size q\<rparr>" xs a "q_elem_size q" "Some t"]])
      (use assms queue_cap_small [OF assms] granted(1) al in
        \<open>simp_all add: queue_iter_def queue_is_def del: mem_alloc.simps\<close>)
next
  case (refused w')
  then show ?thesis using assms
    by (intro iter_built_zero [of _ w']) (simp_all add: starved_small [OF refused(3)] queue_iter_def queue_is_def del: mem_alloc.simps)
qed

lemma queue_iter_rev_built:
  assumes "queue_is t q xs"
  shows "iter_built live (Some t) (live w) (q_elem_size q) (rev xs) (queue_iter_rev (Some q) w)"
proof (cases rule: iter_state_alloc [of sizeof_queue_iter_state_t w])
  case (granted a w')
  have al: "q_alloc q = Some t" using assms by (simp add: queue_is_def)
  have p: "wsub (wadd (q_head q) (q_len q)) 1 mod q_cap q = (q_head q + length xs - 1) mod q_cap q" if "xs \<noteq> []"
    using that assms queue_last_index [of t q "butlast xs" "last xs"] by (cases xs rule: rev_cases) simp_all
  show ?thesis
    by (rule iter_built_valid [OF _ _ _ granted(2) queue_iter_rev_rep
        [of "\<lparr>qi_self = a, qi_buf = q_buf q,
              qi_pos = (if q_len q > 0 then wsub (wadd (q_head q) (q_len q)) 1 mod q_cap q else 0), qi_cap = q_cap q,
              qi_remaining = q_len q, qi_elem_size = q_elem_size q\<rparr>" "q_head q" xs a "q_elem_size q" "Some t"]])
      (use assms queue_cap_small [OF assms] granted(1) al p in
        \<open>simp_all add: queue_iter_rev_def queue_is_def del: mem_alloc.simps\<close>)
next
  case (refused w')
  then show ?thesis using assms
    by (intro iter_built_zero [of _ w']) (simp_all add: starved_small [OF refused(3)] queue_iter_rev_def queue_is_def del: mem_alloc.simps)
qed

lemma queue_collection:
  "collection_add t live queue_push queue_blocks (queue_is t) (\<lambda>xs x. xs @ [x]) queue_same
    (\<lambda>c xs. refuses t (growth (q_elem_size c) (length xs)))"
proof unfold_locales
  fix q :: "('e, 'w) queue_t" and xs :: "'e list" and w R x
  assume "queue_is t q xs" "owns (live w) R (queue_blocks q)"
  then have "queue_at t live R w q xs" by (simp add: queue_at_def)
  then show "\<exists>st q' w'. queue_push (Some q) (Some x) w = Some (st, Some q', w') \<and>
      owns (live w') R (queue_blocks q') \<and> queue_same q q' \<and>
      (if st = SEQC_OK \<or> st = SEQC_DUPLICATE then queue_is t q' (xs @ [x]) else st = SEQC_OOM \<and> queue_is t q' xs \<and>
         refuses t (growth (q_elem_size q) (length xs)))"
    by (cases rule: queue_push_at [where x = x]) (auto simp: queue_at_def queue_same_def)
qed (simp_all add: queue_same_def)

lemma queue_extend_at:
  assumes "queue_is t q ys" and "owns2 (live w) R (queue_blocks q) B"
    and "iter_rep live xs it B" and "iter_is_valid it" and "it_elem_size it = q_elem_size q"
  shows "\<exists>st q' w' k. queue_extend (Some q) it w = Some (st, Some q', w') \<and> queue_same q q' \<and>
    queue_at t live R w' q' (ys @ take k xs) \<and>
    (st = SEQC_OK \<and> k = length xs \<or> st = SEQC_OOM \<and> k \<le> length xs \<and>
      (refuses t (growth (q_elem_size q) (length (ys @ take k xs))) \<or> k = 0 \<and> refuses t (q_elem_size q)))"
proof -
  have "queue_extend (Some q) it w = seqc_extend (Some q) queue_push (q_elem_size q) (Some t) it w"
    using assms(1) by (simp add: queue_extend_def queue_is_def)
  with collection_add.drain_at [OF queue_collection assms] show ?thesis
    unfolding queue_at_def foldl_snoc by metis
qed

end

interpretation sys_queue: collection_add sys_allocator hp_live queue_push queue_blocks
  "queue_is sys_allocator" "\<lambda>xs x. xs @ [x]" queue_same
  "\<lambda>c xs. refuses sys_allocator (growth (q_elem_size c) (length xs))"
  by (rule sys.queue_collection)

end
