(* ===== verification/Seqc_Ringbuf.thy ===== *)
theory Seqc_Ringbuf
  imports Seqc_Ring Seqc_Collection
begin

section \<open>The double-ended ring buffer\<close>

text \<open>
  \<open>src/ringbuf/ringbuf.c\<close>: a circular buffer whose capacity is a power of two, so that an index
  wraps around by masking. \<open>rb_grow\<close> copies the elements in one or two pieces.
\<close>

definition RINGBUF_INITIAL_CAP :: size_t where
  "RINGBUF_INITIAL_CAP = 8"

record ('a, 'w) ringbuf_t =
  rb_self :: addr
  rb_data :: "'a block option"
  rb_cap :: size_t
  rb_len :: size_t
  rb_head :: size_t
  rb_elem_size :: size_t
  rb_alloc :: "'w allocator_t"

definition sizeof_ringbuf_t :: size_t where
  "sizeof_ringbuf_t = 56"

lemma sizeof_ringbuf_t_small [simp]: "sizeof_ringbuf_t \<le> 256"
  by (simp add: sizeof_ringbuf_t_def)

subsection \<open>Operations\<close>

definition rb_slot :: "('a, 'w) ringbuf_t \<Rightarrow> size_t \<Rightarrow> size_t" where
  "rb_slot r logical = wadd (rb_head r) logical AND wsub (rb_cap r) 1"

text \<open>The copying step of \<open>rb_grow\<close>: in one piece, or in two when the contents wrap around.\<close>

definition rb_linearise :: "('a, 'w) ringbuf_t \<Rightarrow> 'a block option \<Rightarrow> 'a block option option" where
  "rb_linearise r nd =
     (if rb_len r > 0 then
        let tail = wadd (rb_head r) (rb_len r) in
        if tail \<le> rb_cap r then block_copy nd 0 (rb_data r) (rb_head r) (rb_len r)
        else let first = wsub (rb_cap r) (rb_head r) in do {
          nd \<leftarrow> block_copy nd 0 (rb_data r) (rb_head r) first;
          block_copy nd first (rb_data r) 0 (wsub (rb_len r) first)
        }
      else Some nd)"

definition rb_grow :: "('a, 'w) ringbuf_t \<Rightarrow> 'w \<Rightarrow> (seqc_status_t \<times> ('a, 'w) ringbuf_t \<times> 'w) option" where
  "rb_grow r w =
     (if rb_cap r > SIZE_MAX div 2 then Some (SEQC_OOM, r, w)
      else let new_cap = (if rb_cap r = 0 then RINGBUF_INITIAL_CAP else wmul (rb_cap r) 2) in do {
        (nd, w) \<leftarrow> block_alloc (rb_alloc r) (rb_elem_size r) (wmul new_cap (rb_elem_size r)) w;
        if nd = None then Some (SEQC_OOM, r, w)
        else do {
          nd \<leftarrow> rb_linearise r nd;
          w \<leftarrow> (if rb_data r = None then Some w
                else block_free (rb_alloc r) (rb_data r) (wmul (rb_cap r) (rb_elem_size r)) w);
          Some (SEQC_OK, r\<lparr>rb_data := nd, rb_cap := new_cap, rb_head := 0\<rparr>, w)
        }
      })"

definition ringbuf_create :: "size_t \<Rightarrow> 'w allocator_t \<Rightarrow> 'w \<Rightarrow> (('a, 'w) ringbuf_t option \<times> 'w) option" where
  "ringbuf_create es al w = do {
     (p, w) \<leftarrow> mem_alloc al sizeof_ringbuf_t w;
     case p of
       None \<Rightarrow> Some (None, w)
     | Some a \<Rightarrow> Some (Some \<lparr>rb_self = a, rb_data = None, rb_cap = 0, rb_len = 0, rb_head = 0,
         rb_elem_size = es, rb_alloc = al\<rparr>, w)
   }"

definition ringbuf_push_back ::
  "('a, 'w) ringbuf_t option \<Rightarrow> 'a option \<Rightarrow> 'w \<Rightarrow> (seqc_status_t \<times> ('a, 'w) ringbuf_t option \<times> 'w) option" where
  "ringbuf_push_back r elem w =
     (case (r, elem) of
        (Some u, Some x) \<Rightarrow> do {
          (st, u, w) \<leftarrow> (if rb_len u = rb_cap u then rb_grow u w else Some (SEQC_OK, u, w));
          if st \<noteq> SEQC_OK then Some (st, Some u, w)
          else do {
            d \<leftarrow> block_write (rb_data u) (rb_slot u (rb_len u)) x;
            Some (SEQC_OK, Some (u\<lparr>rb_data := d, rb_len := Suc (rb_len u)\<rparr>), w)
          }
        }
      | _ \<Rightarrow> Some (SEQC_INVALID, r, w))"

definition ringbuf_push_front ::
  "('a, 'w) ringbuf_t option \<Rightarrow> 'a option \<Rightarrow> 'w \<Rightarrow> (seqc_status_t \<times> ('a, 'w) ringbuf_t option \<times> 'w) option" where
  "ringbuf_push_front r elem w =
     (case (r, elem) of
        (Some u, Some x) \<Rightarrow> do {
          (st, u, w) \<leftarrow> (if rb_len u = rb_cap u then rb_grow u w else Some (SEQC_OK, u, w));
          if st \<noteq> SEQC_OK then Some (st, Some u, w)
          else let head = wsub (wadd (rb_head u) (rb_cap u)) 1 AND wsub (rb_cap u) 1 in do {
            d \<leftarrow> block_write (rb_data u) head x;
            Some (SEQC_OK, Some (u\<lparr>rb_data := d, rb_head := head, rb_len := Suc (rb_len u)\<rparr>), w)
          }
        }
      | _ \<Rightarrow> Some (SEQC_INVALID, r, w))"

definition ringbuf_pop_front ::
  "('a, 'w) ringbuf_t option \<Rightarrow> bool \<Rightarrow> (seqc_status_t \<times> 'a option \<times> ('a, 'w) ringbuf_t option) option" where
  "ringbuf_pop_front r out =
     (case r of
        None \<Rightarrow> Some (SEQC_NOT_FOUND, None, None)
      | Some u \<Rightarrow>
          if rb_len u = 0 then Some (SEQC_NOT_FOUND, None, r)
          else do {
            x \<leftarrow> (if out then map_option Some (block_read (rb_data u) (rb_head u)) else Some None);
            Some (SEQC_OK, x,
              Some (u\<lparr>rb_head := wadd (rb_head u) 1 AND wsub (rb_cap u) 1, rb_len := rb_len u - 1\<rparr>))
          })"

definition ringbuf_pop_back ::
  "('a, 'w) ringbuf_t option \<Rightarrow> bool \<Rightarrow> (seqc_status_t \<times> 'a option \<times> ('a, 'w) ringbuf_t option) option" where
  "ringbuf_pop_back r out =
     (case r of
        None \<Rightarrow> Some (SEQC_NOT_FOUND, None, None)
      | Some u \<Rightarrow>
          if rb_len u = 0 then Some (SEQC_NOT_FOUND, None, r)
          else do {
            x \<leftarrow> (if out then map_option Some (block_read (rb_data u) (rb_slot u (rb_len u - 1))) else Some None);
            Some (SEQC_OK, x, Some (u\<lparr>rb_len := rb_len u - 1\<rparr>))
          })"

definition ringbuf_get_ptr :: "('a, 'w) ringbuf_t option \<Rightarrow> size_t \<Rightarrow> 'a elem_ptr option" where
  "ringbuf_get_ptr r i =
     (case r of
        None \<Rightarrow> None
      | Some u \<Rightarrow> if i \<ge> rb_len u then None else map_option (\<lambda>b. (b, rb_slot u i)) (rb_data u))"

definition ringbuf_get :: "('a, 'w) ringbuf_t option \<Rightarrow> size_t \<Rightarrow> bool \<Rightarrow> (seqc_status_t \<times> 'a option) option" where
  "ringbuf_get r i out =
     (if r = None then Some (SEQC_INVALID, None)
      else seqc_copy_out (map_option ptr_read (ringbuf_get_ptr r i)) out)"

definition ringbuf_len :: "('a, 'w) ringbuf_t option \<Rightarrow> size_t" where
  "ringbuf_len r = (case r of None \<Rightarrow> 0 | Some u \<Rightarrow> rb_len u)"

definition ringbuf_cap :: "('a, 'w) ringbuf_t option \<Rightarrow> size_t" where
  "ringbuf_cap r = (case r of None \<Rightarrow> 0 | Some u \<Rightarrow> rb_cap u)"

definition ringbuf_is_empty :: "('a, 'w) ringbuf_t option \<Rightarrow> bool" where
  "ringbuf_is_empty r = (case r of None \<Rightarrow> True | Some u \<Rightarrow> rb_len u = 0)"

definition ringbuf_clear :: "('a, 'w) ringbuf_t option \<Rightarrow> ('a, 'w) ringbuf_t option" where
  "ringbuf_clear r = map_option (\<lambda>u. u\<lparr>rb_len := 0, rb_head := 0\<rparr>) r"

definition ringbuf_destroy :: "('a, 'w) ringbuf_t option \<Rightarrow> 'w \<Rightarrow> 'w option" where
  "ringbuf_destroy r w =
     (case r of
        None \<Rightarrow> Some w
      | Some u \<Rightarrow> do {
          w \<leftarrow> (if rb_data u = None then Some w
                else block_free (rb_alloc u) (rb_data u) (wmul (rb_cap u) (rb_elem_size u)) w);
          mem_free (rb_alloc u) (Some (rb_self u)) sizeof_ringbuf_t w
        })"

definition ringbuf_front_ptr :: "('a, 'w) ringbuf_t option \<Rightarrow> 'a elem_ptr option" where
  "ringbuf_front_ptr r = ringbuf_get_ptr r 0"

definition ringbuf_back_ptr :: "('a, 'w) ringbuf_t option \<Rightarrow> 'a elem_ptr option" where
  "ringbuf_back_ptr r =
     (case r of None \<Rightarrow> None | Some u \<Rightarrow> if rb_len u > 0 then ringbuf_get_ptr r (rb_len u - 1) else None)"

definition ringbuf_front :: "('a, 'w) ringbuf_t option \<Rightarrow> bool \<Rightarrow> (seqc_status_t \<times> 'a option) option" where
  "ringbuf_front r out =
     (if r = None then Some (SEQC_INVALID, None)
      else seqc_copy_out (map_option ptr_read (ringbuf_front_ptr r)) out)"

definition ringbuf_back :: "('a, 'w) ringbuf_t option \<Rightarrow> bool \<Rightarrow> (seqc_status_t \<times> 'a option) option" where
  "ringbuf_back r out =
     (if r = None then Some (SEQC_INVALID, None)
      else seqc_copy_out (map_option ptr_read (ringbuf_back_ptr r)) out)"

definition ringbuf_extend ::
  "('a, 'w) ringbuf_t option \<Rightarrow> ('a, 's, 'w) iter_t \<Rightarrow> 'w \<Rightarrow>
   (seqc_status_t \<times> ('a, 'w) ringbuf_t option \<times> 'w) option" where
  "ringbuf_extend r it w =
     (case r of
        None \<Rightarrow> do { w \<leftarrow> iter_destroy it w; Some (SEQC_INVALID, None, w) }
      | Some u \<Rightarrow> seqc_extend r ringbuf_push_back (rb_elem_size u) (rb_alloc u) it w)"

subsection \<open>Iterators\<close>

text \<open>
  The state points to the buffer being walked, which must not change meanwhile: the state holds
  the buffer as it was when the iterator was made.
\<close>

record ('a, 'w) ringbuf_iter_state_t =
  ri_self :: addr
  ri_r :: "('a, 'w) ringbuf_t"
  ri_pos :: size_t

definition sizeof_ringbuf_iter_state_t :: size_t where
  "sizeof_ringbuf_iter_state_t = 16"

lemma sizeof_ringbuf_iter_state_t_small [simp]: "sizeof_ringbuf_iter_state_t \<le> 256"
  by (simp add: sizeof_ringbuf_iter_state_t_def)

definition ringbuf_iter_next ::
  "('a, 'w) ringbuf_iter_state_t \<Rightarrow> 'w \<Rightarrow> ('a option \<times> ('a, 'w) ringbuf_iter_state_t \<times> 'w) option" where
  "ringbuf_iter_next s w =
     (if ri_pos s \<ge> rb_len (ri_r s) then Some (None, s, w)
      else do {
        x \<leftarrow> block_read (rb_data (ri_r s)) (rb_slot (ri_r s) (ri_pos s));
        Some (Some x, s\<lparr>ri_pos := Suc (ri_pos s)\<rparr>, w)
      })"

definition ringbuf_iter_rev_next ::
  "('a, 'w) ringbuf_iter_state_t \<Rightarrow> 'w \<Rightarrow> ('a option \<times> ('a, 'w) ringbuf_iter_state_t \<times> 'w) option" where
  "ringbuf_iter_rev_next s w =
     (if ri_pos s = 0 then Some (None, s, w)
      else let s = s\<lparr>ri_pos := ri_pos s - 1\<rparr> in do {
        x \<leftarrow> block_read (rb_data (ri_r s)) (rb_slot (ri_r s) (ri_pos s));
        Some (Some x, s, w)
      })"

definition ringbuf_iter_drop :: "'w allocator_t \<Rightarrow> ('a, 'w) ringbuf_iter_state_t \<Rightarrow> 'w \<Rightarrow> 'w option" where
  "ringbuf_iter_drop al s w = mem_free al (Some (ri_self s)) sizeof_ringbuf_iter_state_t w"

definition ringbuf_iter ::
  "('a, 'w) ringbuf_t option \<Rightarrow> 'w \<Rightarrow> (('a, ('a, 'w) ringbuf_iter_state_t, 'w) iter_t \<times> 'w) option" where
  "ringbuf_iter r w =
     (case r of
        None \<Rightarrow> Some (iter_zero, w)
      | Some u \<Rightarrow> do {
          (p, w) \<leftarrow> mem_alloc (rb_alloc u) sizeof_ringbuf_iter_state_t w;
          case p of
            None \<Rightarrow> Some (iter_zero, w)
          | Some a \<Rightarrow> Some (iter_make ringbuf_iter_next (ringbuf_iter_drop (rb_alloc u))
              \<lparr>ri_self = a, ri_r = u, ri_pos = 0\<rparr> (rb_elem_size u) (rb_alloc u), w)
        })"

definition ringbuf_iter_rev ::
  "('a, 'w) ringbuf_t option \<Rightarrow> 'w \<Rightarrow> (('a, ('a, 'w) ringbuf_iter_state_t, 'w) iter_t \<times> 'w) option" where
  "ringbuf_iter_rev r w =
     (case r of
        None \<Rightarrow> Some (iter_zero, w)
      | Some u \<Rightarrow> do {
          (p, w) \<leftarrow> mem_alloc (rb_alloc u) sizeof_ringbuf_iter_state_t w;
          case p of
            None \<Rightarrow> Some (iter_zero, w)
          | Some a \<Rightarrow> Some (iter_make ringbuf_iter_rev_next (ringbuf_iter_drop (rb_alloc u))
              \<lparr>ri_self = a, ri_r = u, ri_pos = rb_len u\<rparr> (rb_elem_size u) (rb_alloc u), w)
        })"

subsection \<open>The invariant\<close>

definition ringbuf_is :: "'w vtable \<Rightarrow> ('a, 'w) ringbuf_t \<Rightarrow> 'a list \<Rightarrow> bool" where
  "ringbuf_is t r xs \<longleftrightarrow>
     rb_alloc r = Some t \<and> elem_size_ok (rb_elem_size r) \<and> rb_len r = length xs \<and>
     ring_is (rb_data r) (rb_cap r) (rb_head r) xs \<and> rb_cap r * rb_elem_size r \<le> PTRDIFF_MAX \<and>
     (rb_cap r = 0 \<or> (\<exists>k. rb_cap r = 2 ^ k)) \<and> apart [rb_self r \<mapsto> sizeof_ringbuf_t] (rb_data r)"

definition ringbuf_blocks :: "('a, 'w) ringbuf_t \<Rightarrow> (addr \<rightharpoonup> size_t)" where
  "ringbuf_blocks r = own_block [rb_self r \<mapsto> sizeof_ringbuf_t] (rb_data r) (rb_cap r * rb_elem_size r)"

definition ringbuf_at ::
  "'w vtable \<Rightarrow> ('w \<Rightarrow> addr \<rightharpoonup> size_t) \<Rightarrow> (addr \<rightharpoonup> size_t) \<Rightarrow> 'w \<Rightarrow> ('a, 'w) ringbuf_t \<Rightarrow> 'a list \<Rightarrow> bool" where
  "ringbuf_at t live R w r xs \<longleftrightarrow> ringbuf_is t r xs \<and> owns (live w) R (ringbuf_blocks r)"

definition ringbuf_same :: "('a, 'w) ringbuf_t \<Rightarrow> ('a, 'w) ringbuf_t \<Rightarrow> bool" where
  "ringbuf_same r r' \<longleftrightarrow> rb_self r' = rb_self r \<and> rb_elem_size r' = rb_elem_size r \<and> rb_alloc r' = rb_alloc r"

lemma ringbuf_is_ring: "ringbuf_is t r xs \<Longrightarrow> ring_is (rb_data r) (rb_cap r) (rb_head r) xs"
  by (simp add: ringbuf_is_def)

lemma ringbuf_is_len: "ringbuf_is t r xs \<Longrightarrow> ringbuf_len (Some r) = length xs"
  by (simp add: ringbuf_is_def ringbuf_len_def)

lemma ringbuf_cap_small: "ringbuf_is t r xs \<Longrightarrow> rb_cap r < 2 ^ 63"
  by (rule cap_small [of _ "rb_elem_size r"]) (simp_all add: ringbuf_is_def)

lemma ringbuf_mask:
  assumes "ringbuf_is t r xs" and "0 < rb_cap r"
  shows "n AND wsub (rb_cap r) 1 = n mod rb_cap r"
proof -
  from assms obtain k where k: "rb_cap r = 2 ^ k" by (auto simp: ringbuf_is_def)
  have "wsub (rb_cap r) 1 = rb_cap r - 1"
    by (rule wsub_exact) (use assms ringbuf_cap_small [OF assms(1)] in simp_all)
  then show ?thesis by (simp only: k mask_mod)
qed

lemma ringbuf_slot:
  assumes "ringbuf_is t r xs" and "0 < rb_cap r" and "i \<le> length xs"
  shows "rb_slot r i = (rb_head r + i) mod rb_cap r"
proof -
  have "rb_head r \<le> rb_cap r" "length xs \<le> rb_cap r"
    using ring_is_head [OF ringbuf_is_ring [OF assms(1)]] ring_is_len [OF ringbuf_is_ring [OF assms(1)]] .
  then have "wadd (rb_head r) i = rb_head r + i"
    using ringbuf_cap_small [OF assms(1)] assms(3) by (intro wadd_exact) simp
  then show ?thesis by (simp only: rb_slot_def ringbuf_mask [OF assms(1,2)])
qed

lemma ringbuf_is_cap_pos: "ringbuf_is t r xs \<Longrightarrow> xs \<noteq> [] \<Longrightarrow> 0 < rb_cap r"
  by (cases xs) (auto dest!: ringbuf_is_ring ring_is_len)

subsection \<open>Access\<close>

lemma ringbuf_get_is:
  assumes "ringbuf_is t r xs"
  shows "ringbuf_get (Some r) i out =
    Some (if i < length xs then (SEQC_OK, if out then Some (xs ! i) else None) else (SEQC_NOT_FOUND, None))"
proof (cases "i < length xs")
  case True
  then have c: "0 < rb_cap r" using ringbuf_is_cap_pos [OF assms] by (cases xs) auto
  with ringbuf_is_ring [OF assms] obtain b where "rb_data r = Some b" by (rule ring_is_SomeE)
  with True c ring_read [OF ringbuf_is_ring [OF assms] True] ringbuf_slot [OF assms c, of i] assms
  show ?thesis by (simp add: ringbuf_get_def ringbuf_get_ptr_def ringbuf_is_def ptr_read_def)
next
  case False
  with assms show ?thesis by (simp add: ringbuf_get_def ringbuf_get_ptr_def ringbuf_is_def)
qed

lemma ringbuf_front_is:
  assumes "ringbuf_is t r xs"
  shows "ringbuf_front (Some r) out =
    Some (if xs = [] then (SEQC_NOT_FOUND, None) else (SEQC_OK, if out then Some (hd xs) else None))"
  using ringbuf_get_is [OF assms, of 0 out]
  by (cases xs) (simp_all add: ringbuf_get_def ringbuf_front_def ringbuf_front_ptr_def)

lemma ringbuf_back_is:
  assumes "ringbuf_is t r xs"
  shows "ringbuf_back (Some r) out =
    Some (if xs = [] then (SEQC_NOT_FOUND, None) else (SEQC_OK, if out then Some (last xs) else None))"
proof (cases xs rule: rev_cases)
  case Nil
  with assms show ?thesis by (simp add: ringbuf_back_def ringbuf_back_ptr_def ringbuf_is_def)
next
  case (snoc ys y)
  with ringbuf_get_is [OF assms, of "length ys" out] assms show ?thesis
    by (simp add: ringbuf_get_def ringbuf_back_def ringbuf_back_ptr_def ringbuf_is_def)
qed

lemma ringbuf_pop_front_Cons:
  assumes "ringbuf_at t live R w r (x # xs)"
  obtains r' where "ringbuf_pop_front (Some r) out = Some (SEQC_OK, if out then Some x else None, Some r')"
    and "ringbuf_at t live R w r' xs" and "ringbuf_same r r'"
proof -
  from assms have r: "ringbuf_is t r (x # xs)" "owns (live w) R (ringbuf_blocks r)" by (simp_all add: ringbuf_at_def)
  note f = ring_front [OF ringbuf_is_ring [OF r(1)]]
  have c: "0 < rb_cap r" using f(3) by simp
  have "wadd (rb_head r) 1 AND wsub (rb_cap r) 1 = Suc (rb_head r) mod rb_cap r"
    using ringbuf_slot [OF r(1) c, of 1] by (simp add: rb_slot_def)
  then have "ringbuf_pop_front (Some r) out = Some (SEQC_OK, if out then Some x else None,
      Some (r\<lparr>rb_head := Suc (rb_head r) mod rb_cap r, rb_len := rb_len r - 1\<rparr>))"
    using r(1) f(1) by (simp add: ringbuf_pop_front_def ringbuf_is_def)
  moreover have "ringbuf_at t live R w (r\<lparr>rb_head := Suc (rb_head r) mod rb_cap r, rb_len := rb_len r - 1\<rparr>) xs"
    using r f(2) by (simp add: ringbuf_at_def ringbuf_is_def ringbuf_blocks_def)
  ultimately show ?thesis by (rule that) (simp add: ringbuf_same_def)
qed

lemma ringbuf_pop_back_snoc:
  assumes "ringbuf_at t live R w r (xs @ [x])"
  obtains r' where "ringbuf_pop_back (Some r) out = Some (SEQC_OK, if out then Some x else None, Some r')"
    and "ringbuf_at t live R w r' xs" and "ringbuf_same r r'"
proof -
  from assms have r: "ringbuf_is t r (xs @ [x])" "owns (live w) R (ringbuf_blocks r)" by (simp_all add: ringbuf_at_def)
  note b = ring_back [OF ringbuf_is_ring [OF r(1)]]
  have l: "rb_len r = Suc (length xs)" using r(1) by (simp add: ringbuf_is_def)
  have "rb_slot r (length xs) = (rb_head r + length xs) mod rb_cap r"
    by (rule ringbuf_slot [OF r(1) ringbuf_is_cap_pos [OF r(1)]]) simp_all
  then have "ringbuf_pop_back (Some r) out = Some (SEQC_OK, if out then Some x else None,
      Some (r\<lparr>rb_len := rb_len r - 1\<rparr>))"
    using l b(1) by (simp add: ringbuf_pop_back_def)
  moreover have "ringbuf_at t live R w (r\<lparr>rb_len := rb_len r - 1\<rparr>) xs"
    using r b(2) by (simp add: ringbuf_at_def ringbuf_is_def ringbuf_blocks_def)
  ultimately show ?thesis by (rule that) (simp add: ringbuf_same_def)
qed

lemma ringbuf_pop_empty:
  "ringbuf_is t r [] \<Longrightarrow> ringbuf_pop_front (Some r) out = Some (SEQC_NOT_FOUND, None, Some r)"
  "ringbuf_is t r [] \<Longrightarrow> ringbuf_pop_back (Some r) out = Some (SEQC_NOT_FOUND, None, Some r)"
  by (simp_all add: ringbuf_pop_front_def ringbuf_pop_back_def ringbuf_is_def)

lemma ringbuf_clear_at:
  assumes "ringbuf_at t live R w r xs"
  obtains r' where "ringbuf_clear (Some r) = Some r'" and "ringbuf_at t live R w r' []" and "ringbuf_same r r'"
proof -
  have "ringbuf_at t live R w (r\<lparr>rb_len := 0, rb_head := 0\<rparr>) []"
    using assms ring_is_clear [OF ringbuf_is_ring, of t r xs]
    by (simp add: ringbuf_at_def ringbuf_is_def ringbuf_blocks_def)
  with that show ?thesis by (simp add: ringbuf_clear_def ringbuf_same_def)
qed

subsection \<open>Growing\<close>

lemma block_copy_cells:
  assumes "i + n \<le> length (cells d)" and "j + n \<le> length (cells s)"
  shows "block_copy (Some d) i (Some s) j n =
    Some (Some (d\<lparr>cells := overwrite (cells d) i (take n (drop j (cells s)))\<rparr>))"
  using assms by (simp add: block_copy_def)

lemma rb_linearise_is:
  assumes r: "ringbuf_is t r xs" and n: "length (cells b) = nc" "length xs \<le> nc"
  shows "\<exists>b'. rb_linearise r (Some b) = Some (Some b') \<and> blk_addr b' = blk_addr b \<and>
    length (cells b') = nc \<and> take (length xs) (cells b') = map Some xs"
proof (cases "xs = []")
  case True
  with r n show ?thesis by (simp add: rb_linearise_def ringbuf_is_def)
next
  case False
  note ring = ringbuf_is_ring [OF r]
  have c: "0 < rb_cap r" by (rule ringbuf_is_cap_pos [OF r False])
  with ring obtain b0 where b0: "rb_data r = Some b0" "rb_head r < rb_cap r" "length (cells b0) = rb_cap r"
    by (rule ring_is_SomeE)
  note ring0 = ring [unfolded b0(1)] and small = ringbuf_cap_small [OF r]
  have l: "rb_len r = length xs" "length xs \<noteq> 0" using r False by (simp_all add: ringbuf_is_def)
  have le: "length xs \<le> rb_cap r" by (rule ring_is_len [OF ring])
  have tail: "wadd (rb_head r) (length xs) = rb_head r + length xs"
    by (rule wadd_exact) (use small le b0(2) in simp)
  show ?thesis
  proof (cases "rb_head r + length xs \<le> rb_cap r")
    case True
    have "block_copy (Some b) 0 (Some b0) (rb_head r) (length xs) =
        Some (Some (b\<lparr>cells := overwrite (cells b) 0 (map Some xs)\<rparr>))"
      using block_copy_cells [of 0 "length xs" b "rb_head r" b0] True n b0(3) ring_straight [OF ring0 True] by simp
    then have "rb_linearise r (Some b) = Some (Some (b\<lparr>cells := overwrite (cells b) 0 (map Some xs)\<rparr>))"
      using True l tail b0(1) by (simp add: rb_linearise_def)
    then show ?thesis using n by (simp add: overwrite_def)
  next
    case False
    let ?f = "rb_cap r - rb_head r"
    let ?p = "take ?f (drop (rb_head r) (cells b0))" and ?q = "take (length xs - ?f) (cells b0)"
    have f: "wsub (rb_cap r) (rb_head r) = ?f" by (rule wsub_exact) (use b0(2) small in simp_all)
    have g: "wsub (length xs) ?f = length xs - ?f" by (rule wsub_exact) (use False le small in simp_all)
    have pq: "?p @ ?q = map Some xs" using ring_wrapped [OF ring0] False by simp
    have lp: "length ?p = ?f" and lq: "length ?q = length xs - ?f" using b0(3) le by simp_all
    let ?b1 = "b\<lparr>cells := overwrite (cells b) 0 ?p\<rparr>"
    have l1: "length (cells ?b1) = nc" using lp n False by simp
    have 1: "block_copy (Some b) 0 (Some b0) (rb_head r) ?f = Some (Some ?b1)"
      using block_copy_cells [of 0 ?f b "rb_head r" b0] n b0(2,3) False by simp
    have 2: "block_copy (Some ?b1) ?f (Some b0) 0 (length xs - ?f) =
        Some (Some (b\<lparr>cells := overwrite (cells ?b1) ?f ?q\<rparr>))"
      using block_copy_cells [of ?f "length xs - ?f" ?b1 0 b0] n l1 b0(3) le False by simp
    have k: "length xs - ?f + ?f = length xs" using False by linarith
    have "overwrite (cells ?b1) ?f ?q = ?p @ ?q @ drop (length xs - ?f + ?f) (cells b)"
      using lp lq n False by (simp add: overwrite_def)
    then have "overwrite (cells ?b1) ?f ?q = (?p @ ?q) @ drop (length xs) (cells b)"
      unfolding k append_assoc .
    then have "overwrite (cells ?b1) ?f ?q = map Some xs @ drop (length xs) (cells b)" unfolding pq .
    moreover have "rb_linearise r (Some b) = Some (Some (b\<lparr>cells := overwrite (cells ?b1) ?f ?q\<rparr>))"
      using False l tail f g 1 2 b0(1) by (simp add: rb_linearise_def Let_def)
    ultimately show ?thesis using n by simp
  qed
qed

context heap_allocator begin

lemma rb_grow_at:
  fixes r :: "('e, 'w) ringbuf_t"
  assumes at: "ringbuf_at t live R w r xs" and full: "length xs = rb_cap r"
  obtains (ok) r' w' where "rb_grow r w = Some (SEQC_OK, r', w')"
      and "ringbuf_at t live R w' r' xs" and "ringbuf_same r r'" and "length xs < rb_cap r'"
  | (oom) w' where "rb_grow r w = Some (SEQC_OOM, r, w')" and "ringbuf_at t live R w' r xs"
      and "refuses t (growth (rb_elem_size r) (length xs))"
proof -
  let ?es = "rb_elem_size r" and ?S = "[rb_self r \<mapsto> sizeof_ringbuf_t]"
  from at have r: "ringbuf_is t r xs" and o: "owns (live w) R (own_block ?S (rb_data r) (rb_cap r * ?es))"
    by (simp_all add: ringbuf_at_def ringbuf_blocks_def)
  from r have f: "elem_size_ok ?es" "rb_cap r * ?es \<le> PTRDIFF_MAX" "rb_alloc r = Some t" "rb_len r = length xs"
      "apart ?S (rb_data r)"
    by (simp_all add: ringbuf_is_def)
  note es = elem_size_ok_pos [OF f(1)]
  note grow = double_exact [OF f(2) es]
  define nc where "nc = (if rb_cap r = 0 then RINGBUF_INITIAL_CAP else wmul (rb_cap r) 2)"
  have nc: "nc = (if rb_cap r = 0 then 8 else rb_cap r * 2)"
    using grow(1) by (simp add: nc_def RINGBUF_INITIAL_CAP_def)
  have pow: "\<exists>k. nc = 2 ^ k"
  proof (cases "rb_cap r = 0")
    case True
    then show ?thesis unfolding nc by (intro exI [of _ 3]) simp
  next
    case False
    with r obtain k where "rb_cap r = 2 ^ k" by (auto simp: ringbuf_is_def)
    with False show ?thesis unfolding nc by (intro exI [of _ "Suc k"]) simp
  qed
  have nce: "wmul nc ?es = nc * ?es"
    using grow(2) first_cap_exact [OF f(1), of 8] by (simp add: nc)
  have room: "length xs < nc" using full by (simp add: nc)
  have "0 < nc" using room by simp
  from o es this show ?thesis
  proof (cases rule: block_alloc_fresh [where 'e = 'e])
    case (granted b w1)
    have "\<exists>b'. rb_linearise r (Some b) = Some (Some b') \<and> blk_addr b' = blk_addr b \<and>
        length (cells b') = nc \<and> take (length xs) (cells b') = map Some xs"
      by (rule rb_linearise_is [OF r]) (use granted(2) room in simp_all)
    then obtain b' where b': "rb_linearise r (Some b) = Some (Some b')" "blk_addr b' = blk_addr b"
        "length (cells b') = nc" "take (length xs) (cells b') = map Some xs" by blast
    obtain w2 where w2: "(if rb_data r = None then Some w1 else block_free (Some t) (rb_data r) (rb_cap r * ?es) w1) = Some w2"
        "owns (live w2) R (?S(blk_addr b \<mapsto> nc * ?es))" "blk_addr b \<notin> dom ?S"
      by (rule block_swap [OF granted(3,4) f(5)])
    let ?r = "r\<lparr>rb_data := Some b', rb_cap := nc, rb_head := 0\<rparr>"
    have cap: "wmul (rb_cap r) ?es = rb_cap r * ?es"
      by (rule wmul_exact) (use f(2) in \<open>simp add: PTRDIFF_MAX_def\<close>)
    have "rb_grow r w = Some (SEQC_OK, ?r, w2)"
      using grow(3) granted(1) b'(1) w2(1)
      unfolding rb_grow_def nc_def [symmetric] Let_def f(3) nce cap by simp
    moreover have "ring_is (Some b') nc 0 xs" by (rule ring_is_linear) (use b' room in simp_all)
    then have "ringbuf_at t live R w2 ?r xs"
      using f w2(2,3) b'(2) granted(5) pow by (simp add: ringbuf_at_def ringbuf_is_def ringbuf_blocks_def)
    ultimately show ?thesis using ok room by (simp add: ringbuf_same_def)
  next
    case (refused w1)
    then have "rb_grow r w = Some (SEQC_OOM, r, w1)"
      using grow(3) unfolding rb_grow_def nc_def [symmetric] Let_def f(3) nce by simp
    moreover have "ringbuf_at t live R w1 r xs" using r refused(2) by (simp add: ringbuf_at_def ringbuf_blocks_def)
    moreover have "refuses t (growth (rb_elem_size r) (length xs))" by (rule refuses_doubled [OF refused(3)]) (simp add: nc full)
    ultimately show ?thesis by (rule oom)
  qed
qed

text \<open>The first step of both pushes.\<close>

lemma ringbuf_room_at:
  assumes at: "ringbuf_at t live R w r xs"
  obtains (room) r1 w1 where "(if rb_len r = rb_cap r then rb_grow r w else Some (SEQC_OK, r, w)) = Some (SEQC_OK, r1, w1)"
      and "ringbuf_at t live R w1 r1 xs" and "length xs < rb_cap r1" and "ringbuf_same r r1"
  | (full) w1 where "(if rb_len r = rb_cap r then rb_grow r w else Some (SEQC_OK, r, w)) = Some (SEQC_OOM, r, w1)"
      and "ringbuf_at t live R w1 r xs" and "rb_cap r = length xs" and "refuses t (growth (rb_elem_size r) (length xs))"
proof (cases "length xs = rb_cap r")
  case True
  moreover have "rb_len r = length xs" using at by (simp add: ringbuf_at_def ringbuf_is_def)
  ultimately show ?thesis using rb_grow_at [OF at True] room full by metis
next
  case False
  have l: "rb_len r = length xs" using at by (simp add: ringbuf_at_def ringbuf_is_def)
  from False ring_is_len [OF ringbuf_is_ring, of t r xs] at have "length xs < rb_cap r"
    by (simp add: ringbuf_at_def)
  with room [of r w] at l show ?thesis by (simp add: ringbuf_same_def)
qed

lemma ringbuf_push_back_at:
  assumes at: "ringbuf_at t live R w r xs"
  obtains (ok) r' w' where "ringbuf_push_back (Some r) (Some x) w = Some (SEQC_OK, Some r', w')"
      and "ringbuf_at t live R w' r' (xs @ [x])" and "ringbuf_same r r'"
  | (oom) w' where "ringbuf_push_back (Some r) (Some x) w = Some (SEQC_OOM, Some r, w')"
      and "ringbuf_at t live R w' r xs" and "rb_cap r = length xs" and "refuses t (growth (rb_elem_size r) (length xs))"
  using at
proof (cases rule: ringbuf_room_at)
  case (room r1 w1)
  from room(2) have r: "ringbuf_is t r1 xs" by (simp add: ringbuf_at_def)
  have c: "0 < rb_cap r1" using room(3) by simp
  from ringbuf_is_ring [OF r] room(3) obtain d where
    d: "block_write (rb_data r1) ((rb_head r1 + length xs) mod rb_cap r1) x = Some d"
      "ring_is d (rb_cap r1) (rb_head r1) (xs @ [x])" "map_option blk_addr d = map_option blk_addr (rb_data r1)"
    by (rule ring_push_back)
  let ?r = "r1\<lparr>rb_data := d, rb_len := Suc (rb_len r1)\<rparr>"
  have "ringbuf_push_back (Some r) (Some x) w = Some (SEQC_OK, Some ?r, w1)"
    using room(1) d(1) ringbuf_slot [OF r c order_refl] r by (simp add: ringbuf_push_back_def ringbuf_is_def)
  moreover have "ringbuf_at t live R w1 ?r (xs @ [x])"
    using room(2) d(2) own_block_same_addr [OF d(3)] by (simp add: ringbuf_at_def ringbuf_is_def ringbuf_blocks_def)
  ultimately show ?thesis using room(4) by (intro ok [of ?r w1]) (simp_all add: ringbuf_same_def)
next
  case (full w1)
  then show ?thesis by (intro oom [of w1]) (simp_all add: ringbuf_push_back_def)
qed

lemma ringbuf_push_front_at:
  assumes at: "ringbuf_at t live R w r xs"
  obtains (ok) r' w' where "ringbuf_push_front (Some r) (Some x) w = Some (SEQC_OK, Some r', w')"
      and "ringbuf_at t live R w' r' (x # xs)" and "ringbuf_same r r'"
  | (oom) w' where "ringbuf_push_front (Some r) (Some x) w = Some (SEQC_OOM, Some r, w')"
      and "ringbuf_at t live R w' r xs" and "rb_cap r = length xs" and "refuses t (growth (rb_elem_size r) (length xs))"
  using at
proof (cases rule: ringbuf_room_at)
  case (room r1 w1)
  from room(2) have r: "ringbuf_is t r1 xs" by (simp add: ringbuf_at_def)
  have c: "0 < rb_cap r1" using room(3) by simp
  let ?h = "(rb_head r1 + rb_cap r1 - 1) mod rb_cap r1"
  note small = ringbuf_cap_small [OF r] ring_is_head [OF ringbuf_is_ring [OF r]]
  have "wadd (rb_head r1) (rb_cap r1) = rb_head r1 + rb_cap r1" by (rule wadd_exact) (use small in simp)
  moreover have "wsub (rb_head r1 + rb_cap r1) 1 = rb_head r1 + rb_cap r1 - 1"
    by (rule wsub_exact) (use small c in simp_all)
  ultimately have h: "wsub (wadd (rb_head r1) (rb_cap r1)) 1 AND wsub (rb_cap r1) 1 = ?h"
    by (simp only: ringbuf_mask [OF r c])
  from ringbuf_is_ring [OF r] room(3) obtain d where
    d: "block_write (rb_data r1) ?h x = Some d"
      "ring_is d (rb_cap r1) ?h (x # xs)" "map_option blk_addr d = map_option blk_addr (rb_data r1)"
    by (rule ring_push_front)
  let ?r = "r1\<lparr>rb_data := d, rb_head := ?h, rb_len := Suc (rb_len r1)\<rparr>"
  have "ringbuf_push_front (Some r) (Some x) w = Some (SEQC_OK, Some ?r, w1)"
    unfolding ringbuf_push_front_def using room(1) d(1) h by simp
  moreover have "ringbuf_at t live R w1 ?r (x # xs)"
    using room(2) d(2) own_block_same_addr [OF d(3)] by (simp add: ringbuf_at_def ringbuf_is_def ringbuf_blocks_def)
  ultimately show ?thesis using room(4) by (intro ok [of ?r w1]) (simp_all add: ringbuf_same_def)
next
  case (full w1)
  then show ?thesis by (intro oom [of w1]) (simp_all add: ringbuf_push_front_def)
qed

lemma ringbuf_create_at:
  assumes "elem_size_ok es" and "live w = R"
  obtains (ok) r :: "('e, 'w) ringbuf_t" and w' where "ringbuf_create es (Some t) w = Some (Some r, w')"
      and "ringbuf_at t live R w' r []" and "rb_elem_size r = es"
  | (oom) w' where "ringbuf_create es (Some t) w = Some (None :: ('e, 'w) ringbuf_t option, w')" and "live w' = R"
      and "starved (Some t)"
proof (cases rule: iter_state_alloc [of sizeof_ringbuf_t w])
  case (granted a w')
  let ?r = "\<lparr>rb_self = a, rb_data = None, rb_cap = 0, rb_len = 0, rb_head = 0, rb_elem_size = es, rb_alloc = Some t\<rparr>"
  have "ringbuf_create es (Some t) w = Some (Some ?r, w')"
    using granted(1) by (simp add: ringbuf_create_def del: mem_alloc.simps)
  then show ?thesis
    by (rule ok) (use granted(2) assms in \<open>simp_all add: ringbuf_at_def ringbuf_is_def ringbuf_blocks_def\<close>)
next
  case (refused w')
  then show ?thesis using assms starved_small [OF refused(3)] by (intro oom [of w']) (simp_all add: ringbuf_create_def del: mem_alloc.simps)
qed

lemma ringbuf_destroy_at:
  assumes r: "ringbuf_at t live R w r xs"
  obtains w' where "ringbuf_destroy (Some r) w = Some w'" and "live w' = R"
proof -
  from r have f: "rb_alloc r = Some t" "rb_cap r * rb_elem_size r \<le> PTRDIFF_MAX"
      "apart [rb_self r \<mapsto> sizeof_ringbuf_t] (rb_data r)"
      "owns (live w) R (own_block [rb_self r \<mapsto> sizeof_ringbuf_t] (rb_data r) (rb_cap r * rb_elem_size r))"
    by (simp_all add: ringbuf_at_def ringbuf_is_def ringbuf_blocks_def)
  obtain w1 w2 where "(if rb_data r = None then Some w
       else block_free (Some t) (rb_data r) (wmul (rb_cap r) (rb_elem_size r)) w) = Some w1"
      "mem_free (Some t) (Some (rb_self r)) sizeof_ringbuf_t w1 = Some w2" "live w2 = R"
    by (rule free_with_buffer [OF f(4,3,2)])
  with that show ?thesis unfolding ringbuf_destroy_def option.case f(1) by simp
qed

subsection \<open>Iterating and extending\<close>

lemma ringbuf_iter_closes:
  "ri_self s = a \<Longrightarrow>
   iter_closes live (iter_make nx (ringbuf_iter_drop (Some t)) s es al) [a \<mapsto> sizeof_ringbuf_iter_state_t]"
  by (rule iter_closes_block) (simp add: ringbuf_iter_drop_def)

lemma ringbuf_read_slot:
  assumes "ringbuf_is t r xs" and "i < length xs"
  shows "block_read (rb_data r) (rb_slot r i) = Some (xs ! i)"
proof -
  have "0 < rb_cap r" using ringbuf_is_cap_pos [OF assms(1)] assms(2) by (cases xs) auto
  with ringbuf_slot [OF assms(1), of i] ring_read [OF ringbuf_is_ring [OF assms(1)] assms(2)] assms(2)
  show ?thesis by simp
qed

lemma ringbuf_iter_rep:
  assumes "ringbuf_is t (ri_r s) (xs @ ys)" and "ri_pos s = length xs" and "ri_self s = a"
  shows "iter_rep live ys (iter_make ringbuf_iter_next (ringbuf_iter_drop (Some t)) s es al)
    [a \<mapsto> sizeof_ringbuf_iter_state_t]"
  using assms
proof (induction ys arbitrary: xs s)
  case Nil
  have "ringbuf_iter_next s w = Some (None, s, w)" for w :: 'w
    using Nil by (simp add: ringbuf_iter_next_def ringbuf_is_def)
  then show ?case using Nil.prems(3)
    by (intro iter_rep_Nil_still [OF ringbuf_iter_closes _ ringbuf_iter_closes]) auto
next
  case (Cons y ys)
  let ?s = "s\<lparr>ri_pos := Suc (ri_pos s)\<rparr>"
  have "iter_rep live ys (iter_make ringbuf_iter_next (ringbuf_iter_drop (Some t)) ?s es al)
      [a \<mapsto> sizeof_ringbuf_iter_state_t]"
    by (rule Cons.IH [of ?s "xs @ [y]"]) (use Cons.prems in simp_all)
  moreover have "ringbuf_iter_next s w = Some (Some y, ?s, w)" for w :: 'w
    using Cons.prems ringbuf_read_slot [OF Cons.prems(1), of "length xs"]
    by (simp add: ringbuf_iter_next_def ringbuf_is_def)
  ultimately show ?case using Cons.prems by (intro iter_rep_Cons_still ringbuf_iter_closes) auto
qed

lemma ringbuf_iter_rev_rep:
  assumes "ringbuf_is t (ri_r s) (xs @ ys)" and "ri_pos s = length xs" and "ri_self s = a"
  shows "iter_rep live (rev xs) (iter_make ringbuf_iter_rev_next (ringbuf_iter_drop (Some t)) s es al)
    [a \<mapsto> sizeof_ringbuf_iter_state_t]"
  using assms
proof (induction xs arbitrary: ys s rule: rev_induct)
  case Nil
  have "ringbuf_iter_rev_next s w = Some (None, s, w)" for w :: 'w
    using Nil by (simp add: ringbuf_iter_rev_next_def)
  then show ?case unfolding rev.simps using Nil.prems(3)
    by (intro iter_rep_Nil_still [OF ringbuf_iter_closes _ ringbuf_iter_closes]) auto
next
  case (snoc x xs)
  let ?s = "s\<lparr>ri_pos := length xs\<rparr>"
  have "iter_rep live (rev xs) (iter_make ringbuf_iter_rev_next (ringbuf_iter_drop (Some t)) ?s es al)
      [a \<mapsto> sizeof_ringbuf_iter_state_t]"
    by (rule snoc.IH [of ?s "x # ys"]) (use snoc.prems in simp_all)
  moreover have "ringbuf_iter_rev_next s w = Some (Some x, ?s, w)" for w :: 'w
    using snoc.prems ringbuf_read_slot [OF snoc.prems(1), of "length xs"]
    by (simp add: ringbuf_iter_rev_next_def Let_def nth_append)
  ultimately show ?case unfolding rev_append rev.simps append.simps
    using snoc.prems by (intro iter_rep_Cons_still ringbuf_iter_closes) auto
qed

lemma ringbuf_iter_built:
  assumes "ringbuf_is t r xs"
  shows "iter_built live (Some t) (live w) (rb_elem_size r) xs (ringbuf_iter (Some r) w)"
proof (cases rule: iter_state_alloc [of sizeof_ringbuf_iter_state_t w])
  case (granted a w')
  have al: "rb_alloc r = Some t" using assms by (simp add: ringbuf_is_def)
  show ?thesis
    by (rule iter_built_valid [OF _ _ _ granted(2) ringbuf_iter_rep
        [of "\<lparr>ri_self = a, ri_r = r, ri_pos = 0\<rparr>" "[]" xs a "rb_elem_size r" "Some t"]])
      (use assms granted(1) al in \<open>simp_all add: ringbuf_iter_def del: mem_alloc.simps\<close>)
next
  case (refused w')
  then show ?thesis using assms
    by (intro iter_built_zero [of _ w']) (simp_all add: starved_small [OF refused(3)] ringbuf_iter_def ringbuf_is_def del: mem_alloc.simps)
qed

lemma ringbuf_iter_rev_built:
  assumes "ringbuf_is t r xs"
  shows "iter_built live (Some t) (live w) (rb_elem_size r) (rev xs) (ringbuf_iter_rev (Some r) w)"
proof (cases rule: iter_state_alloc [of sizeof_ringbuf_iter_state_t w])
  case (granted a w')
  have al: "rb_alloc r = Some t" "rb_len r = length xs" using assms by (simp_all add: ringbuf_is_def)
  show ?thesis
    by (rule iter_built_valid [OF _ _ _ granted(2) ringbuf_iter_rev_rep
        [of "\<lparr>ri_self = a, ri_r = r, ri_pos = rb_len r\<rparr>" xs "[]" a "rb_elem_size r" "Some t"]])
      (use assms granted(1) al in \<open>simp_all add: ringbuf_iter_rev_def del: mem_alloc.simps\<close>)
next
  case (refused w')
  then show ?thesis using assms
    by (intro iter_built_zero [of _ w']) (simp_all add: starved_small [OF refused(3)] ringbuf_iter_rev_def ringbuf_is_def del: mem_alloc.simps)
qed

lemma ringbuf_collection:
  "collection_add t live ringbuf_push_back ringbuf_blocks (ringbuf_is t) (\<lambda>xs x. xs @ [x]) ringbuf_same
    (\<lambda>c xs. refuses t (growth (rb_elem_size c) (length xs)))"
proof unfold_locales
  fix r :: "('e, 'w) ringbuf_t" and xs :: "'e list" and w R x
  assume "ringbuf_is t r xs" "owns (live w) R (ringbuf_blocks r)"
  then have "ringbuf_at t live R w r xs" by (simp add: ringbuf_at_def)
  then show "\<exists>st r' w'. ringbuf_push_back (Some r) (Some x) w = Some (st, Some r', w') \<and>
      owns (live w') R (ringbuf_blocks r') \<and> ringbuf_same r r' \<and>
      (if st = SEQC_OK \<or> st = SEQC_DUPLICATE then ringbuf_is t r' (xs @ [x]) else st = SEQC_OOM \<and> ringbuf_is t r' xs \<and>
         refuses t (growth (rb_elem_size r) (length xs)))"
    by (cases rule: ringbuf_push_back_at [where x = x]) (auto simp: ringbuf_at_def ringbuf_same_def)
qed (simp_all add: ringbuf_same_def)

lemma ringbuf_extend_at:
  assumes "ringbuf_is t r ys" and "owns2 (live w) R (ringbuf_blocks r) B"
    and "iter_rep live xs it B" and "iter_is_valid it" and "it_elem_size it = rb_elem_size r"
  shows "\<exists>st r' w' k. ringbuf_extend (Some r) it w = Some (st, Some r', w') \<and> ringbuf_same r r' \<and>
    ringbuf_at t live R w' r' (ys @ take k xs) \<and>
    (st = SEQC_OK \<and> k = length xs \<or> st = SEQC_OOM \<and> k \<le> length xs \<and>
      (refuses t (growth (rb_elem_size r) (length (ys @ take k xs))) \<or> k = 0 \<and> refuses t (rb_elem_size r)))"
proof -
  have "ringbuf_extend (Some r) it w = seqc_extend (Some r) ringbuf_push_back (rb_elem_size r) (Some t) it w"
    using assms(1) by (simp add: ringbuf_extend_def ringbuf_is_def)
  with collection_add.drain_at [OF ringbuf_collection assms] show ?thesis
    unfolding ringbuf_at_def foldl_snoc by metis
qed

end

interpretation sys_ringbuf: collection_add sys_allocator hp_live ringbuf_push_back ringbuf_blocks
  "ringbuf_is sys_allocator" "\<lambda>xs x. xs @ [x]" ringbuf_same
  "\<lambda>c xs. refuses sys_allocator (growth (rb_elem_size c) (length xs))"
  by (rule sys.ringbuf_collection)

end
