(* ===== verification/Seqc_Heap.thy ===== *)
theory Seqc_Heap
  imports Seqc_Compare
begin

section \<open>Binary heaps in a list\<close>

text \<open>
  The reference functions for the sifting loops of \<open>src/pqueue/pqueue.c\<close>: the same steps on a
  list. The parent of index \<open>k\<close> is \<open>(k - 1) div 2\<close>, its children are \<open>2 * k + 1\<close> and \<open>2 * k + 2\<close>.
\<close>

abbreviation par :: "nat \<Rightarrow> nat" where
  "par k \<equiv> (k - 1) div 2"

definition swap :: "'a list \<Rightarrow> nat \<Rightarrow> nat \<Rightarrow> 'a list" where
  "swap xs i j = xs[i := xs ! j, j := xs ! i]"

lemma length_swap [simp]: "length (swap xs i j) = length xs"
  by (simp add: swap_def)

lemma nth_swap:
  "i < length xs \<Longrightarrow> j < length xs \<Longrightarrow>
   swap xs i j ! k = (if k = j then xs ! i else if k = i then xs ! j else xs ! k)"
  by (simp add: swap_def nth_list_update)

lemma mset_swap_at [simp]: "i < length xs \<Longrightarrow> j < length xs \<Longrightarrow> mset (swap xs i j) = mset xs"
  by (simp add: swap_def mset_swap)

text \<open>The index that \<open>sift_down\<close> calls \<open>smallest\<close>.\<close>

definition smallest :: "'a compare_fn \<Rightarrow> 'a list \<Rightarrow> nat \<Rightarrow> nat" where
  "smallest cmp xs i =
     (let l = 2 * i + 1; r = 2 * i + 2;
          m = (if l < length xs \<and> cmp (xs ! l) (xs ! i) < 0 then l else i)
      in if r < length xs \<and> cmp (xs ! r) (xs ! m) < 0 then r else m)"

function down :: "'a compare_fn \<Rightarrow> 'a list \<Rightarrow> nat \<Rightarrow> 'a list" where
  "down cmp xs i =
     (if smallest cmp xs i = i then xs
      else down cmp (swap xs i (smallest cmp xs i)) (smallest cmp xs i))"
  by pat_completeness auto
termination
  by (relation "measure (\<lambda>(cmp, xs, i). length xs - i)") (auto simp: smallest_def Let_def split: if_splits)

function up :: "'a compare_fn \<Rightarrow> 'a list \<Rightarrow> nat \<Rightarrow> 'a list" where
  "up cmp xs i =
     (if 0 < i \<and> cmp (xs ! i) (xs ! par i) < 0 then up cmp (swap xs i (par i)) (par i) else xs)"
  by pat_completeness auto
termination
  by (relation "measure (\<lambda>(cmp, xs, i). i)") auto

declare down.simps [simp del] up.simps [simp del]

lemma smallest_cases:
  "smallest cmp xs i = i \<or>
   (smallest cmp xs i < length xs \<and> (smallest cmp xs i = 2 * i + 1 \<or> smallest cmp xs i = 2 * i + 2))"
  by (auto simp: smallest_def Let_def)

lemma par_smallest: "smallest cmp xs i \<noteq> i \<Longrightarrow> par (smallest cmp xs i) = i \<and> i < smallest cmp xs i"
  using smallest_cases [of cmp xs i] by auto

lemma smallest_bound: "smallest cmp xs i \<noteq> i \<Longrightarrow> smallest cmp xs i < length xs"
  using smallest_cases [of cmp xs i] by auto

lemma mset_down: "mset (down cmp xs i) = mset xs"
proof (induction cmp xs i rule: down.induct)
  case (1 cmp xs i)
  show ?case
  proof (cases "smallest cmp xs i = i")
    case False
    then have "smallest cmp xs i < length xs" "i < length xs"
      using smallest_bound par_smallest by fastforce+
    with 1 [OF False] False show ?thesis by (simp add: down.simps [of cmp xs i])
  qed (simp add: down.simps)
qed

lemma length_down [simp]: "length (down cmp xs i) = length xs"
  by (metis mset_down size_mset)

lemma mset_up: "i < length xs \<Longrightarrow> mset (up cmp xs i) = mset xs"
proof (induction cmp xs i rule: up.induct)
  case (1 cmp xs i)
  then show ?case by (auto simp: up.simps [of cmp xs i])
qed

lemma length_up [simp]: "i < length xs \<Longrightarrow> length (up cmp xs i) = length xs"
  by (metis mset_up size_mset)

subsection \<open>The heap property\<close>

text \<open>\<open>heap_from cmp lo xs\<close>: every element from index \<open>lo\<close> on is at most its children.\<close>

definition heap_from :: "'a compare_fn \<Rightarrow> nat \<Rightarrow> 'a list \<Rightarrow> bool" where
  "heap_from cmp lo xs \<longleftrightarrow>
     (\<forall>k < length xs. 0 < k \<longrightarrow> lo \<le> par k \<longrightarrow> cmp (xs ! par k) (xs ! k) \<le> 0)"

definition heap :: "'a compare_fn \<Rightarrow> 'a list \<Rightarrow> bool" where
  "heap cmp xs \<longleftrightarrow> heap_from cmp 0 xs"

text \<open>The invariants of the two loops: the property fails at most at \<open>i\<close>, and mends across it.\<close>

definition down_inv :: "'a compare_fn \<Rightarrow> nat \<Rightarrow> 'a list \<Rightarrow> nat \<Rightarrow> bool" where
  "down_inv cmp lo xs i \<longleftrightarrow> lo \<le> i \<and>
     (\<forall>k < length xs. 0 < k \<longrightarrow> lo \<le> par k \<longrightarrow> par k \<noteq> i \<longrightarrow> cmp (xs ! par k) (xs ! k) \<le> 0) \<and>
     (\<forall>k < length xs. 0 < k \<longrightarrow> par k = i \<longrightarrow> 0 < i \<longrightarrow> lo \<le> par i \<longrightarrow> cmp (xs ! par i) (xs ! k) \<le> 0)"

definition up_inv :: "'a compare_fn \<Rightarrow> 'a list \<Rightarrow> nat \<Rightarrow> bool" where
  "up_inv cmp xs i \<longleftrightarrow>
     (\<forall>k < length xs. 0 < k \<longrightarrow> k \<noteq> i \<longrightarrow> cmp (xs ! par k) (xs ! k) \<le> 0) \<and>
     (\<forall>k < length xs. 0 < k \<longrightarrow> par k = i \<longrightarrow> 0 < i \<longrightarrow> cmp (xs ! par i) (xs ! k) \<le> 0)"

lemma child_cases: "0 < k \<Longrightarrow> par k = i \<Longrightarrow> k = 2 * i + 1 \<or> k = 2 * i + 2" for k :: nat
  by auto

context compare_order begin

lemma smallest_least:
  assumes "0 < k" and "par k = i" and "k < length xs"
  shows "cmp (xs ! smallest cmp xs i) (xs ! k) \<le> 0"
  using child_cases [OF assms(1,2)] assms(3) cmp_refl
    cmp_not_less [of "xs ! (2 * i + 1)" "xs ! i"]
    cmp_not_less [of "xs ! (2 * i + 2)" "xs ! i"] cmp_not_less [of "xs ! (2 * i + 2)" "xs ! (2 * i + 1)"]
    cmp_trans [of "xs ! (2 * i + 2)" "xs ! i" "xs ! (2 * i + 1)"]
    cmp_trans [of "xs ! (2 * i + 2)" "xs ! (2 * i + 1)" "xs ! (2 * i + 1)"]
  by (auto simp: smallest_def Let_def)

lemma smallest_less: "smallest cmp xs i \<noteq> i \<Longrightarrow> cmp (xs ! smallest cmp xs i) (xs ! i) < 0"
  using cmp_less_trans [of "xs ! (2 * i + 2)" "xs ! (2 * i + 1)" "xs ! i"]
  by (auto simp: smallest_def Let_def split: if_splits)

lemma down_step:
  assumes inv: "down_inv cmp lo xs i" and s: "smallest cmp xs i \<noteq> i"
  shows "down_inv cmp lo (swap xs i (smallest cmp xs i)) (smallest cmp xs i)"
proof -
  define s where "s = smallest cmp xs i"
  have sp: "par s = i" "i < s" "s < length xs" "cmp (xs ! s) (xs ! i) < 0"
    using par_smallest [OF assms(2)] smallest_bound [OF assms(2)] smallest_less [OF assms(2)]
    by (simp_all add: s_def)
  have i: "i < length xs" using sp by simp
  have lo: "lo \<le> i" using inv by (simp add: down_inv_def)
  have edge: "cmp (xs ! par k) (xs ! k) \<le> 0" if "k < length xs" "0 < k" "lo \<le> par k" "par k \<noteq> i" for k
    using inv that by (simp add: down_inv_def)
  have across: "cmp (xs ! par i) (xs ! k) \<le> 0" if "k < length xs" "0 < k" "par k = i" "0 < i" "lo \<le> par i" for k
    using inv that by (simp add: down_inv_def)
  have least: "cmp (xs ! s) (xs ! k) \<le> 0" if "k < length xs" "0 < k" "par k = i" for k
    using smallest_least [of k i xs] that by (simp add: s_def)
  note sw = nth_swap [OF i sp(3)]
  have "cmp (swap xs i s ! par k) (swap xs i s ! k) \<le> 0"
    if k: "k < length xs" "0 < k" "lo \<le> par k" "par k \<noteq> s" for k
  proof (cases "par k = i")
    case True
    show ?thesis
    proof (cases "k = s")
      case True
      then show ?thesis using sp sw by simp
    next
      case False
      moreover have "k \<noteq> i" using True k(2) by auto
      ultimately show ?thesis using True sp sw least [OF k(1,2) True] by simp
    qed
  next
    case False
    show ?thesis
    proof (cases "k = i")
      case True
      have "par i \<noteq> i" "par i \<noteq> s" using True k(2) sp(2) by auto
      then show ?thesis using True sw across [OF sp(3) _ sp(1)] k sp(2) by simp
    next
      case ki: False
      have "k \<noteq> s" using False sp(1) by auto
      then show ?thesis using False ki sw edge [OF k(1,2,3) False] k(4) by simp
    qed
  qed
  moreover have "cmp (swap xs i s ! par s) (swap xs i s ! k) \<le> 0"
    if k: "k < length xs" "0 < k" "par k = s" for k
  proof -
    have ne: "k \<noteq> s" "k \<noteq> i" using k sp(2) by auto
    have "cmp (xs ! s) (xs ! k) \<le> 0" using edge [OF k(1,2)] k(3) lo sp(2) by simp
    then show ?thesis using ne sw sp(1,2) by simp
  qed
  ultimately show ?thesis using lo sp(2) unfolding s_def [symmetric] by (simp add: down_inv_def)
qed

lemma down_heap: "down_inv cmp lo xs i \<Longrightarrow> heap_from cmp lo (down cmp xs i)"
proof (induction "length xs - i" arbitrary: xs i rule: less_induct)
  case (less xs i)
  show ?case
  proof (cases "smallest cmp xs i = i")
    case True
    have "cmp (xs ! par k) (xs ! k) \<le> 0" if "k < length xs" "0 < k" "lo \<le> par k" for k
      using less.prems that smallest_least [of k i xs] True by (cases "par k = i") (simp_all add: down_inv_def)
    then show ?thesis using True by (simp add: down.simps [of cmp xs i] heap_from_def)
  next
    case False
    have "heap_from cmp lo (down cmp (swap xs i (smallest cmp xs i)) (smallest cmp xs i))"
      by (rule less.hyps [OF _ down_step [OF less.prems False]])
        (use par_smallest [OF False] smallest_bound [OF False] in \<open>auto intro: diff_less_mono2\<close>)
    then show ?thesis using False by (simp add: down.simps [of cmp xs i])
  qed
qed

lemma up_step:
  assumes inv: "up_inv cmp xs i" and i: "0 < i" "i < length xs" and less: "cmp (xs ! i) (xs ! par i) < 0"
  shows "up_inv cmp (swap xs i (par i)) (par i)"
proof -
  define p where "p = par i"
  have p: "p < i" "p < length xs" using i by (auto simp: p_def)
  have less: "cmp (xs ! i) (xs ! p) < 0" using less by (simp add: p_def)
  have edge: "cmp (xs ! par k) (xs ! k) \<le> 0" if "k < length xs" "0 < k" "k \<noteq> i" for k
    using inv that by (simp add: up_inv_def)
  have across: "cmp (xs ! p) (xs ! k) \<le> 0" if "k < length xs" "0 < k" "par k = i" for k
    using inv that i(1) by (simp add: up_inv_def p_def)
  note sw = nth_swap [OF i(2) p(2)]
  have "cmp (swap xs i p ! par k) (swap xs i p ! k) \<le> 0" if k: "k < length xs" "0 < k" "k \<noteq> p" for k
  proof (cases "k = i")
    case True
    moreover have "par i = p" "p \<noteq> i" using p(1) by (simp_all add: p_def)
    ultimately show ?thesis using sw less by simp
  next
    case False
    consider "par k = i" | "par k = p" "par k \<noteq> i" | "par k \<noteq> p" "par k \<noteq> i" by blast
    then show ?thesis
    proof cases
      case 1
      then show ?thesis using sw False k across [OF k(1,2) 1] p(1) by simp
    next
      case 2
      have "cmp (xs ! p) (xs ! k) \<le> 0" using edge [OF k(1,2) False] 2 by simp
      then have "cmp (xs ! i) (xs ! k) \<le> 0" using less cmp_trans [of "xs ! i" "xs ! p"] by simp
      then show ?thesis using sw False 2 k p(1) by simp
    next
      case 3
      then show ?thesis using sw False k edge [OF k(1,2) False] by simp
    qed
  qed
  moreover have "cmp (swap xs i p ! par p) (swap xs i p ! k) \<le> 0"
    if k: "k < length xs" "0 < k" "par k = p" "0 < p" for k
  proof -
    have pp: "cmp (xs ! par p) (xs ! p) \<le> 0" using edge [of p] p k(4) by simp
    have ne: "par p \<noteq> p" "par p \<noteq> i" "k \<noteq> p" using k p by auto
    show ?thesis
    proof (cases "k = i")
      case True
      with pp ne sw p(1) show ?thesis by simp
    next
      case False
      have "cmp (xs ! p) (xs ! k) \<le> 0" using edge [OF k(1,2) False] k(3) by simp
      with pp have "cmp (xs ! par p) (xs ! k) \<le> 0" by (rule cmp_trans)
      with ne False sw show ?thesis by simp
    qed
  qed
  ultimately show ?thesis unfolding p_def [symmetric] by (simp add: up_inv_def)
qed

lemma up_heap: "up_inv cmp xs i \<Longrightarrow> i < length xs \<Longrightarrow> heap cmp (up cmp xs i)"
proof (induction i arbitrary: xs rule: less_induct)
  case (less i xs)
  show ?case
  proof (cases "0 < i \<and> cmp (xs ! i) (xs ! par i) < 0")
    case True
    then have "up_inv cmp (swap xs i (par i)) (par i)" using up_step [OF less.prems(1)] less.prems(2) by simp
    moreover have "par i < length (swap xs i (par i))" using less.prems(2) by auto
    moreover have "par i < i" using True by auto
    ultimately have "heap cmp (up cmp (swap xs i (par i)) (par i))" by (intro less.IH)
    then show ?thesis using True by (simp add: up.simps [of cmp xs i])
  next
    case False
    then have "cmp (xs ! par k) (xs ! k) \<le> 0" if "k < length xs" "0 < k" for k
      using less.prems(1) that cmp_not_less [of "xs ! i" "xs ! par i"] by (cases "k = i") (auto simp: up_inv_def)
    moreover have "up cmp xs i = xs" using False by (subst up.simps) auto
    ultimately show ?thesis by (simp add: heap_def heap_from_def)
  qed
qed

text \<open>The first element of a heap is a least one.\<close>

lemma heap_root:
  assumes "heap cmp xs" and "k < length xs"
  shows "cmp (xs ! 0) (xs ! k) \<le> 0"
  using assms(2)
proof (induction k rule: less_induct)
  case (less k)
  show ?case
  proof (cases "k = 0")
    case True
    then show ?thesis by (simp add: cmp_refl)
  next
    case False
    then have p: "par k < k" by auto
    with less have "cmp (xs ! 0) (xs ! par k) \<le> 0" by simp
    moreover have "cmp (xs ! par k) (xs ! k) \<le> 0"
      using assms(1) less.prems False by (simp add: heap_def heap_from_def)
    ultimately show ?thesis by (rule cmp_trans)
  qed
qed

lemma heap_snoc_up:
  assumes "heap cmp xs"
  shows "heap cmp (up cmp (xs @ [x]) (length xs))"
proof (rule up_heap)
  have "cmp ((xs @ [x]) ! par k) ((xs @ [x]) ! k) \<le> 0" if "k < length xs" "0 < k" for k
    using assms that by (auto simp: nth_append heap_def heap_from_def)
  moreover have "par k < length xs" if "k < length (xs @ [x])" "0 < k" for k using that by auto
  ultimately show "up_inv cmp (xs @ [x]) (length xs)" unfolding up_inv_def
    by (metis length_append_singleton less_antisym less_not_refl)
qed simp

lemma heap_pop_down:
  assumes "heap cmp (x # xs @ [y])"
  shows "heap cmp (down cmp (y # xs) 0)"
  unfolding heap_def
proof (rule down_heap)
  have "cmp ((y # xs) ! par k) ((y # xs) ! k) \<le> 0"
    if k: "k < length (y # xs)" "0 < k" "par k \<noteq> 0" for k
  proof -
    have "k < length (x # xs @ [y])" using k(1) by simp
    then have "cmp ((x # xs @ [y]) ! par k) ((x # xs @ [y]) ! k) \<le> 0"
      using assms k(2) unfolding heap_def heap_from_def by blast
    moreover obtain j m where "k = Suc j" "par k = Suc m" using k(2,3) by (metis not0_implies_Suc not_gr0)
    moreover have "par k < k" using k(2) by auto
    ultimately show ?thesis using k by (simp add: nth_append)
  qed
  then show "down_inv cmp 0 (y # xs) 0" unfolding down_inv_def by blast
qed

lemma heap_from_down: "heap_from cmp (Suc i) xs \<Longrightarrow> heap_from cmp i (down cmp xs i)"
  by (rule down_heap) (auto simp: down_inv_def heap_from_def)

text \<open>Without children there is nothing to check.\<close>

lemma heap_from_half: "length xs \<le> 2 * i + 1 \<Longrightarrow> heap_from cmp i xs"
  by (auto simp: heap_from_def)

end

end
