(* ===== verification/Seqc_Pqueue.thy ===== *)
theory Seqc_Pqueue
  imports Seqc_Vec Seqc_Collection Seqc_Heap
begin

section \<open>The priority queue\<close>

text \<open>
  \<open>src/pqueue/pqueue.c\<close>: a binary heap in a \<open>vec_t\<close>. The loops are modelled on the vector, with
  every access through \<open>vec_get_ptr\<close>, and shown to take the steps of the list functions
  \<open>up\<close> and \<open>down\<close>.
\<close>

record ('a, 'w) pqueue_t =
  pq_self :: addr
  pq_data :: "('a, 'w) vec_t option"
  pq_cmp :: "'a compare_fn"
  pq_alloc :: "'w allocator_t"

definition sizeof_pqueue_t :: size_t where
  "sizeof_pqueue_t = 24"

lemma sizeof_pqueue_t_small [simp]: "sizeof_pqueue_t \<le> 256"
  by (simp add: sizeof_pqueue_t_def)

subsection \<open>Operations\<close>

definition pqueue_create ::
  "size_t \<Rightarrow> 'a compare_fn \<Rightarrow> 'w allocator_t \<Rightarrow> 'w \<Rightarrow> (('a, 'w) pqueue_t option \<times> 'w) option" where
  "pqueue_create es cmp al w = do {
     (p, w) \<leftarrow> mem_alloc al sizeof_pqueue_t w;
     case p of
       None \<Rightarrow> Some (None, w)
     | Some a \<Rightarrow> do {
         (v, w) \<leftarrow> vec_create es al w;
         Some (Some \<lparr>pq_self = a, pq_data = v, pq_cmp = cmp, pq_alloc = al\<rparr>, w)
       }
   }"

text \<open>The element at an index, through the pointer: a NULL pointer is undefined behaviour.\<close>

definition pq_elem :: "('a, 'w) pqueue_t \<Rightarrow> size_t \<Rightarrow> 'a option" where
  "pq_elem q i = do { p \<leftarrow> vec_get_ptr (pq_data q) i; ptr_read p }"

definition pq_compare :: "('a, 'w) pqueue_t \<Rightarrow> size_t \<Rightarrow> size_t \<Rightarrow> int option" where
  "pq_compare q i j = do { x \<leftarrow> pq_elem q i; y \<leftarrow> pq_elem q j; Some (pq_cmp q x y) }"

definition pq_store :: "('a, 'w) pqueue_t \<Rightarrow> size_t \<Rightarrow> 'a \<Rightarrow> ('a, 'w) pqueue_t option" where
  "pq_store q i x = do {
     (b, k) \<leftarrow> vec_get_ptr (pq_data q) i;
     d \<leftarrow> block_write (Some b) k x;
     Some (q\<lparr>pq_data := map_option (\<lambda>v. v\<lparr>v_data := d\<rparr>) (pq_data q)\<rparr>)
   }"

definition swap_elems :: "('a, 'w) pqueue_t \<Rightarrow> size_t \<Rightarrow> size_t \<Rightarrow> ('a, 'w) pqueue_t option" where
  "swap_elems q i j = do {
     x \<leftarrow> pq_elem q i;
     y \<leftarrow> pq_elem q j;
     q \<leftarrow> pq_store q i y;
     pq_store q j x
   }"

function sift_up :: "('a, 'w) pqueue_t \<Rightarrow> size_t \<Rightarrow> ('a, 'w) pqueue_t option" where
  "sift_up q i =
     (if i > 0 then do {
        c \<leftarrow> pq_compare q i ((i - 1) div 2);
        if c < 0 then do {
          q \<leftarrow> swap_elems q i ((i - 1) div 2);
          sift_up q ((i - 1) div 2)
        } else Some q
      } else Some q)"
  by pat_completeness auto
termination
  by (relation "measure snd") auto

declare sift_up.simps [simp del]

text \<open>The body of \<open>sift_down\<close>'s loop up to its test: the index of the least of a node and its children.\<close>

definition pq_smallest :: "size_t \<Rightarrow> ('a, 'w) pqueue_t \<Rightarrow> size_t \<Rightarrow> size_t option" where
  "pq_smallest n q i =
     (let left = wadd (wmul 2 i) 1; right = wadd (wmul 2 i) 2 in do {
        s \<leftarrow> (if left < n
              then do { c \<leftarrow> pq_compare q left i; Some (if c < 0 then left else i) }
              else Some i);
        if right < n
        then do { c \<leftarrow> pq_compare q right s; Some (if c < 0 then right else s) }
        else Some s
      })"

partial_function (option) sift_down_loop ::
  "size_t \<Rightarrow> ('a, 'w) pqueue_t \<Rightarrow> size_t \<Rightarrow> ('a, 'w) pqueue_t option" where
  "sift_down_loop n q i = do {
     s \<leftarrow> pq_smallest n q i;
     if s = i then Some q
     else do {
       q \<leftarrow> swap_elems q i s;
       sift_down_loop n q s
     }
   }"

definition sift_down :: "('a, 'w) pqueue_t \<Rightarrow> size_t \<Rightarrow> ('a, 'w) pqueue_t option" where
  "sift_down q i = sift_down_loop (vec_len (pq_data q)) q i"

text \<open>
  \<open>pqueue_create_from_vec\<close>: the pushing loop, which ignores the status of each push, and the
  \<open>do\<close>-\<open>while\<close> loop of Floyd's heapify, entered with \<open>i = len / 2\<close>.
\<close>

function pq_push_all :: "'a slice_t \<Rightarrow> ('a, 'w) pqueue_t \<Rightarrow> size_t \<Rightarrow> 'w \<Rightarrow> (('a, 'w) pqueue_t \<times> 'w) option" where
  "pq_push_all s q i w =
     (if i < sl_len s then do {
        x \<leftarrow> block_read (sl_ptr s) i;
        (st, v, w) \<leftarrow> vec_push (pq_data q) (Some x) w;
        pq_push_all s (q\<lparr>pq_data := v\<rparr>) (Suc i) w
      } else Some (q, w))"
  by pat_completeness auto
termination
  by (relation "measure (\<lambda>(s, q, i, w). sl_len s - i)") auto

declare pq_push_all.simps [simp del]

fun heapify :: "('a, 'w) pqueue_t \<Rightarrow> size_t \<Rightarrow> ('a, 'w) pqueue_t option" where
  "heapify q 0 = Some q"
| "heapify q (Suc i) = do { q \<leftarrow> sift_down q i; heapify q i }"

definition pqueue_create_from_vec ::
  "('a, 'w) vec_t option \<Rightarrow> 'a compare_fn \<Rightarrow> 'w allocator_t \<Rightarrow> 'w \<Rightarrow> (('a, 'w) pqueue_t option \<times> 'w) option" where
  "pqueue_create_from_vec v cmp al w =
     (let s = vec_as_slice v in do {
        (q, w) \<leftarrow> pqueue_create (sl_elem_size s) cmp al w;
        case q of
          None \<Rightarrow> Some (None, w)
        | Some q \<Rightarrow> do {
            (q, w) \<leftarrow> pq_push_all s q 0 w;
            q \<leftarrow> (if sl_len s > 1 then heapify q (sl_len s div 2) else Some q);
            Some (Some q, w)
          }
      })"

definition pqueue_push ::
  "('a, 'w) pqueue_t option \<Rightarrow> 'a option \<Rightarrow> 'w \<Rightarrow> (seqc_status_t \<times> ('a, 'w) pqueue_t option \<times> 'w) option" where
  "pqueue_push q elem w =
     (case (q, elem) of
        (Some u, Some x) \<Rightarrow> do {
          (s, v, w) \<leftarrow> vec_push (pq_data u) (Some x) w;
          let u = u\<lparr>pq_data := v\<rparr>;
          if s \<noteq> SEQC_OK then Some (s, Some u, w)
          else do {
            u \<leftarrow> sift_up u (vec_len (pq_data u) - 1);
            Some (SEQC_OK, Some u, w)
          }
        }
      | _ \<Rightarrow> Some (SEQC_INVALID, q, w))"

definition pqueue_pop ::
  "('a, 'w) pqueue_t option \<Rightarrow> bool \<Rightarrow> (seqc_status_t \<times> 'a option \<times> ('a, 'w) pqueue_t option) option" where
  "pqueue_pop q out =
     (case q of
        None \<Rightarrow> Some (SEQC_NOT_FOUND, None, None)
      | Some u \<Rightarrow>
          if vec_len (pq_data u) = 0 then Some (SEQC_NOT_FOUND, None, q)
          else do {
            x \<leftarrow> (if out then map_option Some (pq_elem u 0) else Some None);
            let last = vec_len (pq_data u) - 1;
            u \<leftarrow> (if last > 0 then do { y \<leftarrow> pq_elem u last; pq_store u 0 y } else Some u);
            (st, d, v) \<leftarrow> vec_pop (pq_data u) False;
            let u = u\<lparr>pq_data := v\<rparr>;
            u \<leftarrow> (if vec_len (pq_data u) > 0 then sift_down u 0 else Some u);
            Some (SEQC_OK, x, Some u)
          })"

definition pqueue_peek_ptr :: "('a, 'w) pqueue_t option \<Rightarrow> 'a elem_ptr option" where
  "pqueue_peek_ptr q = (case q of None \<Rightarrow> None | Some u \<Rightarrow> vec_get_ptr (pq_data u) 0)"

definition pqueue_peek :: "('a, 'w) pqueue_t option \<Rightarrow> bool \<Rightarrow> (seqc_status_t \<times> 'a option) option" where
  "pqueue_peek q out =
     (if q = None then Some (SEQC_INVALID, None)
      else seqc_copy_out (map_option ptr_read (pqueue_peek_ptr q)) out)"

definition pqueue_len :: "('a, 'w) pqueue_t option \<Rightarrow> size_t" where
  "pqueue_len q = (case q of None \<Rightarrow> 0 | Some u \<Rightarrow> vec_len (pq_data u))"

definition pqueue_is_empty :: "('a, 'w) pqueue_t option \<Rightarrow> bool" where
  "pqueue_is_empty q = (case q of None \<Rightarrow> True | Some u \<Rightarrow> vec_len (pq_data u) = 0)"

definition pqueue_clear :: "('a, 'w) pqueue_t option \<Rightarrow> ('a, 'w) pqueue_t option" where
  "pqueue_clear q = map_option (\<lambda>u. u\<lparr>pq_data := vec_clear (pq_data u)\<rparr>) q"

definition pqueue_destroy :: "('a, 'w) pqueue_t option \<Rightarrow> 'w \<Rightarrow> 'w option" where
  "pqueue_destroy q w =
     (case q of
        None \<Rightarrow> Some w
      | Some u \<Rightarrow> do {
          w \<leftarrow> vec_destroy (pq_data u) w;
          mem_free (pq_alloc u) (Some (pq_self u)) sizeof_pqueue_t w
        })"

definition pqueue_iter ::
  "('a, 'w) pqueue_t option \<Rightarrow> 'w \<Rightarrow> (('a, 'a slice_iter_state_t, 'w) iter_t \<times> 'w) option" where
  "pqueue_iter q w = (case q of None \<Rightarrow> Some (iter_zero, w) | Some u \<Rightarrow> vec_iter (pq_data u) w)"

definition pqueue_iter_rev ::
  "('a, 'w) pqueue_t option \<Rightarrow> 'w \<Rightarrow> (('a, 'a slice_iter_state_t, 'w) iter_t \<times> 'w) option" where
  "pqueue_iter_rev q w = (case q of None \<Rightarrow> Some (iter_zero, w) | Some u \<Rightarrow> vec_iter_rev (pq_data u) w)"

text \<open>The loop of \<open>pqueue_drain\<close>: pop element \<open>i\<close> straight into cell \<open>i\<close> of the result.\<close>

fun pq_drain_loop ::
  "('a, 'w) pqueue_t option \<Rightarrow> 'a block option \<Rightarrow> size_t \<Rightarrow> nat \<Rightarrow> (('a, 'w) pqueue_t option \<times> 'a block option) option" where
  "pq_drain_loop q buf i 0 = Some (q, buf)"
| "pq_drain_loop q buf i (Suc left) = do {
     (st, x, q) \<leftarrow> pqueue_pop q True;
     buf \<leftarrow> (case x of None \<Rightarrow> Some buf | Some y \<Rightarrow> block_write buf i y);
     pq_drain_loop q buf (Suc i) left
   }"

definition pqueue_drain ::
  "('a, 'w) pqueue_t option \<Rightarrow> 'w allocator_t \<Rightarrow> 'w \<Rightarrow> ('a slice_t \<times> ('a, 'w) pqueue_t option \<times> 'w) option" where
  "pqueue_drain q al w = do {
     u \<leftarrow> q;
     let n = pqueue_len q;
     let es = vec_elem_size (pq_data u);
     if n = 0 then Some (\<lparr>sl_ptr = None, sl_len = 0, sl_elem_size = es\<rparr>, q, w)
     else do {
       (buf, w) \<leftarrow> block_alloc al es (wmul n es) w;
       if buf = None then Some (\<lparr>sl_ptr = None, sl_len = 0, sl_elem_size = es\<rparr>, pqueue_clear q, w)
       else do {
         (q, buf) \<leftarrow> pq_drain_loop q buf 0 n;
         Some (\<lparr>sl_ptr = buf, sl_len = n, sl_elem_size = es\<rparr>, q, w)
       }
     }
   }"

definition pqueue_extend ::
  "('a, 'w) pqueue_t option \<Rightarrow> ('a, 's, 'w) iter_t \<Rightarrow> 'w \<Rightarrow>
   (seqc_status_t \<times> ('a, 'w) pqueue_t option \<times> 'w) option" where
  "pqueue_extend q it w =
     (case q of
        None \<Rightarrow> do { w \<leftarrow> iter_destroy it w; Some (SEQC_INVALID, None, w) }
      | Some u \<Rightarrow> seqc_extend q pqueue_push (vec_elem_size (pq_data u)) (pq_alloc u) it w)"

subsection \<open>The invariant\<close>

text \<open>
  \<open>pqueue_holds\<close> says where the elements are stored, \<open>pqueue_at\<close> that they form a heap for a
  comparison function that is a total preorder.
\<close>

definition pqueue_is :: "'w vtable \<Rightarrow> ('a, 'w) pqueue_t \<Rightarrow> 'a list \<Rightarrow> bool" where
  "pqueue_is t q xs \<longleftrightarrow>
     pq_alloc q = Some t \<and> (\<exists>v. pq_data q = Some v \<and> vec_is t v xs \<and> pq_self q \<notin> dom (vec_blocks v))"

definition pqueue_blocks :: "('a, 'w) pqueue_t \<Rightarrow> (addr \<rightharpoonup> size_t)" where
  "pqueue_blocks q =
     (case pq_data q of None \<Rightarrow> Map.empty | Some v \<Rightarrow> vec_blocks v)(pq_self q \<mapsto> sizeof_pqueue_t)"

definition pqueue_holds ::
  "'w vtable \<Rightarrow> ('w \<Rightarrow> addr \<rightharpoonup> size_t) \<Rightarrow> (addr \<rightharpoonup> size_t) \<Rightarrow> 'w \<Rightarrow> ('a, 'w) pqueue_t \<Rightarrow> 'a list \<Rightarrow> bool" where
  "pqueue_holds t live R w q xs \<longleftrightarrow> pqueue_is t q xs \<and> owns (live w) R (pqueue_blocks q)"

definition pq_ordered :: "('a, 'w) pqueue_t \<Rightarrow> 'a list \<Rightarrow> bool" where
  "pq_ordered q xs \<longleftrightarrow> compare_order (pq_cmp q) \<and> heap (pq_cmp q) xs"

definition pqueue_at ::
  "'w vtable \<Rightarrow> ('w \<Rightarrow> addr \<rightharpoonup> size_t) \<Rightarrow> (addr \<rightharpoonup> size_t) \<Rightarrow> 'w \<Rightarrow> ('a, 'w) pqueue_t \<Rightarrow> 'a list \<Rightarrow> bool" where
  "pqueue_at t live R w q xs \<longleftrightarrow> pqueue_holds t live R w q xs \<and> pq_ordered q xs"

definition pqueue_elem_size :: "('a, 'w) pqueue_t \<Rightarrow> size_t" where
  "pqueue_elem_size q = vec_elem_size (pq_data q)"

definition pqueue_same :: "('a, 'w) pqueue_t \<Rightarrow> ('a, 'w) pqueue_t \<Rightarrow> bool" where
  "pqueue_same q q' \<longleftrightarrow> pq_self q' = pq_self q \<and> pq_alloc q' = pq_alloc q \<and> pq_cmp q' = pq_cmp q \<and>
     pqueue_elem_size q' = pqueue_elem_size q"

text \<open>For \<open>X_extend\<close>, a queue holds a multiset.\<close>

definition pqueue_has :: "'w vtable \<Rightarrow> ('a, 'w) pqueue_t \<Rightarrow> 'a multiset \<Rightarrow> bool" where
  "pqueue_has t q M \<longleftrightarrow> (\<exists>xs. pqueue_is t q xs \<and> pq_ordered q xs \<and> mset xs = M)"

lemma pqueue_same_refl [simp]: "pqueue_same q q"
  by (simp add: pqueue_same_def)

lemma pqueue_same_trans: "pqueue_same q q' \<Longrightarrow> pqueue_same q' q'' \<Longrightarrow> pqueue_same q q''"
  by (simp add: pqueue_same_def)

lemma pq_ordered_same: "pqueue_same q q' \<Longrightarrow> pq_ordered q' xs \<longleftrightarrow> compare_order (pq_cmp q) \<and> heap (pq_cmp q) xs"
  by (simp add: pq_ordered_def pqueue_same_def)

lemma pqueue_holds_vec:
  "pqueue_holds t live R w q xs \<longleftrightarrow>
     pq_alloc q = Some t \<and> pq_self q \<notin> dom R \<and>
     (\<exists>v. pq_data q = Some v \<and> vec_at t live (R(pq_self q \<mapsto> sizeof_pqueue_t)) w v xs)"
  unfolding pqueue_holds_def pqueue_is_def pqueue_blocks_def vec_at_def
  using owns_wrap_iff by (metis (mono_tags, lifting) option.simps(5))

lemma pqueue_holdsE:
  assumes "pqueue_holds t live R w q xs"
  obtains v where "pq_data q = Some v" and "pq_alloc q = Some t" and "pq_self q \<notin> dom R"
    and "vec_at t live (R(pq_self q \<mapsto> sizeof_pqueue_t)) w v xs"
  using assms unfolding pqueue_holds_vec by blast

lemma pqueue_holdsI:
  "pq_alloc q = Some t \<Longrightarrow> pq_self q \<notin> dom R \<Longrightarrow>
   vec_at t live (R(pq_self q \<mapsto> sizeof_pqueue_t)) w v xs \<Longrightarrow> pqueue_holds t live R w (q\<lparr>pq_data := Some v\<rparr>) xs"
  unfolding pqueue_holds_vec by simp

lemma pqueue_is_len: "pqueue_is t q xs \<Longrightarrow> vec_len (pq_data q) = length xs"
  by (auto simp: pqueue_is_def vec_is_len)

lemma pqueue_holds_is: "pqueue_holds t live R w q xs \<Longrightarrow> pqueue_is t q xs"
  by (simp add: pqueue_holds_def)

lemma pqueue_is_small:
  assumes "pqueue_is t q xs"
  shows "length xs \<le> PTRDIFF_MAX"
proof -
  from assms obtain v where v: "vec_is t v xs" by (auto simp: pqueue_is_def)
  then have "v_cap v < 2 ^ 63" by (intro cap_small [of _ "v_elem_size v"]) (simp_all add: vec_is_def)
  with vec_is_cap [OF v] show ?thesis by (simp add: PTRDIFF_MAX_def)
qed

subsection \<open>Elements and sifting\<close>

lemma pq_elem_is:
  assumes "pqueue_is t q xs" and "i < length xs"
  shows "pq_elem q i = Some (xs ! i)"
proof -
  from assms(1) obtain v where v: "pq_data q = Some v" "vec_is t v xs" by (auto simp: pqueue_is_def)
  moreover have "xs \<noteq> []" using assms(2) by auto
  ultimately obtain b where "v_data v = Some b" using vec_is_data by blast
  with v assms(2) show ?thesis
    by (auto simp: pq_elem_def vec_get_ptr_def ptr_read_def vec_is_def intro: block_read_is)
qed

lemma pq_compare_is:
  "pqueue_is t q xs \<Longrightarrow> i < length xs \<Longrightarrow> j < length xs \<Longrightarrow>
   pq_compare q i j = Some (pq_cmp q (xs ! i) (xs ! j))"
  by (simp add: pq_compare_def pq_elem_is)

lemma pq_store_at:
  assumes "pqueue_holds t live R w q xs" and "i < length xs"
  obtains q' where "pq_store q i x = Some q'" and "pqueue_holds t live R w q' (xs[i := x])" and "pqueue_same q q'"
proof -
  from assms(1) obtain v where v: "pq_data q = Some v" "pq_alloc q = Some t" "pq_self q \<notin> dom R"
    "vec_at t live (R(pq_self q \<mapsto> sizeof_pqueue_t)) w v xs" by (rule pqueue_holdsE)
  obtain v' where v': "vec_set (Some v) i (Some x) = Some (Some v')"
    "vec_at t live (R(pq_self q \<mapsto> sizeof_pqueue_t)) w v' (xs[i := x])" "vec_same v v'"
    by (rule vec_set_at [OF v(4) assms(2)])
  have "i < v_len v" using v(4) assms(2) by (simp add: vec_at_def vec_is_def)
  moreover from this v'(1) obtain b where "v_data v = Some b"
    by (cases "v_data v") (simp_all add: vec_set_def block_write_def)
  ultimately have "pq_store q i x = Some (q\<lparr>pq_data := Some v'\<rparr>)"
    using v'(1) v(1) by (auto simp: pq_store_def vec_set_def vec_get_ptr_def split: bind_splits)
  then show ?thesis
    using that pqueue_holdsI [OF v(2,3) v'(2)] v'(3) v(1)
    by (simp add: pqueue_same_def pqueue_elem_size_def vec_same_def vec_elem_size_def)
qed

lemma swap_elems_at:
  assumes "pqueue_holds t live R w q xs" and "i < length xs" and "j < length xs"
  obtains q' where "swap_elems q i j = Some q'" and "pqueue_holds t live R w q' (swap xs i j)" and "pqueue_same q q'"
proof -
  from assms(1,2) obtain q1 where 1: "pq_store q i (xs ! j) = Some q1"
    "pqueue_holds t live R w q1 (xs[i := xs ! j])" "pqueue_same q q1" by (rule pq_store_at)
  from 1(2) obtain q2 where 2: "pq_store q1 j (xs ! i) = Some q2"
    "pqueue_holds t live R w q2 (xs[i := xs ! j, j := xs ! i])" "pqueue_same q1 q2"
    by (rule pq_store_at [where i = j and x = "xs ! i"]) (use assms in simp_all)
  have "swap_elems q i j = Some q2"
    using 1(1) 2(1) assms(2,3) pq_elem_is [OF pqueue_holds_is [OF assms(1)]] by (simp add: swap_elems_def)
  then show ?thesis using that 2(2) pqueue_same_trans [OF 1(3) 2(3)] by (simp add: swap_def)
qed

text \<open>Both loops take the steps of their reference function.\<close>

lemma sift_up_at:
  assumes "pqueue_holds t live R w q xs" and "i < length xs"
  obtains q' where "sift_up q i = Some q'" and "pqueue_holds t live R w q' (up (pq_cmp q) xs i)" and "pqueue_same q q'"
  using assms
proof (induction i arbitrary: q xs thesis rule: less_induct)
  case (less i q xs)
  note at = pqueue_holds_is [OF less.prems(2)]
  show ?case
  proof (cases "0 < i \<and> pq_cmp q (xs ! i) (xs ! par i) < 0")
    case True
    then have p: "par i < i" "par i < length xs" using less.prems(3) by auto
    obtain q1 where q1: "swap_elems q i (par i) = Some q1"
        "pqueue_holds t live R w q1 (swap xs i (par i))" "pqueue_same q q1"
      by (rule swap_elems_at [OF less.prems(2,3) p(2)])
    obtain q2 where q2: "sift_up q1 (par i) = Some q2"
        "pqueue_holds t live R w q2 (up (pq_cmp q1) (swap xs i (par i)) (par i))" "pqueue_same q1 q2"
      by (rule less.IH [OF p(1) _ q1(2)]) (use p in simp_all)
    have "pq_cmp q1 = pq_cmp q" using q1(3) by (simp add: pqueue_same_def)
    moreover have "sift_up q i = Some q2"
      using q1(1) q2(1) True pq_compare_is [OF at less.prems(3) p(2)] by (subst sift_up.simps) simp
    ultimately show ?thesis
      using less.prems(1) q2(2) pqueue_same_trans [OF q1(3) q2(3)] True by (simp add: up.simps [of _ xs i])
  next
    case False
    then have "up (pq_cmp q) xs i = xs" by (subst up.simps) auto
    moreover have "sift_up q i = Some q"
    proof (cases "0 < i")
      case True
      then have "par i < length xs" using less.prems(3) by auto
      with True False show ?thesis
        using pq_compare_is [OF at less.prems(3)] by (subst sift_up.simps) simp
    qed (simp add: sift_up.simps)
    ultimately show ?thesis using less.prems(1,2) by simp
  qed
qed

lemma pq_smallest_is:
  assumes "pqueue_is t q xs" and "i < length xs"
  shows "pq_smallest (length xs) q i = Some (smallest (pq_cmp q) xs i)"
proof -
  have i: "i < 2 ^ 63 - 1" using assms(2) pqueue_is_small [OF assms(1)] by (simp add: PTRDIFF_MAX_def)
  then have d: "wmul 2 i = 2 * i" by (intro wmul_exact) simp
  have l: "wadd (wmul 2 i) 1 = 2 * i + 1" unfolding d by (rule wadd_exact) (use i in simp)
  have r: "wadd (wmul 2 i) 2 = 2 * i + 2" unfolding d by (rule wadd_exact) (use i in simp)
  show ?thesis
    unfolding pq_smallest_def Let_def l r using assms(2) pq_compare_is [OF assms(1)]
    by (simp add: smallest_def Let_def)
qed

lemma sift_down_loop_at:
  assumes "pqueue_holds t live R w q xs" and "i < length xs"
  obtains q' where "sift_down_loop (length xs) q i = Some q'"
    and "pqueue_holds t live R w q' (down (pq_cmp q) xs i)" and "pqueue_same q q'"
  using assms
proof (induction "length xs - i" arbitrary: i q xs thesis rule: less_induct)
  case (less i xs q)
  note at = pqueue_holds_is [OF less.prems(2)]
  define s where "s = smallest (pq_cmp q) xs i"
  have s: "pq_smallest (length xs) q i = Some s"
    unfolding s_def by (rule pq_smallest_is [OF at less.prems(3)])
  show ?case
  proof (cases "s = i")
    case True
    then have "sift_down_loop (length xs) q i = Some q" using s by (simp add: sift_down_loop.simps)
    moreover have "down (pq_cmp q) xs i = xs" using True by (subst down.simps) (simp add: s_def)
    ultimately show ?thesis using less.prems(1,2) by simp
  next
    case False
    then have b: "s < length xs" "i < s"
      using smallest_bound par_smallest unfolding s_def by metis+
    obtain q1 where q1: "swap_elems q i s = Some q1" "pqueue_holds t live R w q1 (swap xs i s)" "pqueue_same q q1"
      by (rule swap_elems_at [OF less.prems(2,3) b(1)])
    obtain q2 where q2: "sift_down_loop (length (swap xs i s)) q1 s = Some q2"
        "pqueue_holds t live R w q2 (down (pq_cmp q1) (swap xs i s) s)" "pqueue_same q1 q2"
      by (rule less.hyps [OF _ _ q1(2)]) (use b in \<open>auto intro: diff_less_mono2\<close>)
    have "pq_cmp q1 = pq_cmp q" using q1(3) by (simp add: pqueue_same_def)
    moreover have "sift_down_loop (length xs) q i = Some q2"
      using s False q1(1) q2(1) by (subst sift_down_loop.simps) simp
    ultimately show ?thesis
      using less.prems(1) q2(2) pqueue_same_trans [OF q1(3) q2(3)] False
      by (simp add: down.simps [of _ xs i] s_def)
  qed
qed

lemma sift_down_at:
  assumes "pqueue_holds t live R w q xs" and "i < length xs"
  obtains q' where "sift_down q i = Some q'" and "pqueue_holds t live R w q' (down (pq_cmp q) xs i)"
    and "pqueue_same q q'"
  using sift_down_loop_at [OF assms] pqueue_is_len [OF pqueue_holds_is [OF assms(1)]]
  by (metis sift_down_def)

text \<open>Sifting from an index past the end, which heapify does when pushes failed, does nothing.\<close>

lemma sift_down_beyond:
  assumes "pqueue_is t q xs" and "length xs \<le> i" and "i < PTRDIFF_MAX"
  shows "sift_down q i = Some q"
proof -
  have i: "i < 2 ^ 63 - 1" using assms(3) by (simp add: PTRDIFF_MAX_def)
  then have d: "wmul 2 i = 2 * i" by (intro wmul_exact) simp
  have "wadd (wmul 2 i) 1 = 2 * i + 1" "wadd (wmul 2 i) 2 = 2 * i + 2"
    unfolding d using i by (intro wadd_exact; simp)+
  then have "pq_smallest (length xs) q i = Some i" using assms(2) by (simp add: pq_smallest_def)
  then show ?thesis using pqueue_is_len [OF assms(1)] by (simp add: sift_down_def sift_down_loop.simps)
qed

lemma heapify_at:
  assumes "pqueue_holds t live R w q xs" and "n \<le> PTRDIFF_MAX" and "compare_order (pq_cmp q)"
    and "heap_from (pq_cmp q) n xs"
  obtains q' ys where "heapify q n = Some q'" and "pqueue_at t live R w q' ys" and "mset ys = mset xs"
    and "pqueue_same q q'"
  using assms
proof (induction n arbitrary: q xs thesis)
  case 0
  then show ?case by (auto simp: pqueue_at_def pq_ordered_def heap_def)
next
  case (Suc i)
  show ?case
  proof (cases "i < length xs")
    case True
    obtain q1 where q1: "sift_down q i = Some q1" "pqueue_holds t live R w q1 (down (pq_cmp q) xs i)" "pqueue_same q q1"
      by (rule sift_down_at [OF Suc.prems(2) True])
    have c: "pq_cmp q1 = pq_cmp q" using q1(3) by (simp add: pqueue_same_def)
    have "heap_from (pq_cmp q1) i (down (pq_cmp q) xs i)"
      unfolding c by (rule compare_order.heap_from_down [OF Suc.prems(4,5)])
    then obtain q2 ys where "heapify q1 i = Some q2" "pqueue_at t live R w q2 ys"
        "mset ys = mset (down (pq_cmp q) xs i)" "pqueue_same q1 q2"
      using Suc.IH [OF _ q1(2)] Suc.prems(3,4) c by auto
    then show ?thesis using Suc.prems(1) q1 by (simp add: mset_down pqueue_same_trans)
  next
    case False
    then have "sift_down q i = Some q"
      using sift_down_beyond [OF pqueue_holds_is [OF Suc.prems(2)]] Suc.prems(3) by simp
    moreover have "heap_from (pq_cmp q) i xs"
      by (rule compare_order.heap_from_half [OF Suc.prems(4)]) (use False in simp)
    then obtain q' ys where "heapify q i = Some q'" "pqueue_at t live R w q' ys" "mset ys = mset xs"
        "pqueue_same q q'"
      using Suc.IH [OF _ Suc.prems(2) _ Suc.prems(4)] Suc.prems(3) by auto
    ultimately show ?thesis using Suc.prems(1) by simp
  qed
qed

subsection \<open>Popping and peeking\<close>

lemma pqueue_peek_is:
  assumes "pqueue_is t q xs"
  shows "pqueue_peek (Some q) out =
    Some (if xs = [] then (SEQC_NOT_FOUND, None) else (SEQC_OK, if out then Some (hd xs) else None))"
proof -
  from assms obtain v where v: "pq_data q = Some v" "vec_is t v xs" by (auto simp: pqueue_is_def)
  have "pqueue_peek (Some q) out = vec_get (Some v) 0 out"
    using v by (simp add: pqueue_peek_def pqueue_peek_ptr_def vec_get_def)
  then show ?thesis using vec_get_is [OF v(2), of 0 out] by (cases xs) simp_all
qed

lemma pqueue_drop_last:
  assumes "pqueue_holds t live R w q (xs @ [y])"
  obtains v' where "vec_pop (pq_data q) False = Some (SEQC_OK, None, Some v')"
    and "pqueue_holds t live R w (q\<lparr>pq_data := Some v'\<rparr>) xs" and "pqueue_same q (q\<lparr>pq_data := Some v'\<rparr>)"
proof -
  from assms obtain v where v: "pq_data q = Some v" "pq_alloc q = Some t" "pq_self q \<notin> dom R"
    "vec_at t live (R(pq_self q \<mapsto> sizeof_pqueue_t)) w v (xs @ [y])" by (rule pqueue_holdsE)
  note v' = vec_pop_snoc [OF v(4)]
  from v'(1) [of False] v(1) pqueue_holdsI [OF v(2,3) v'(2)] that show ?thesis
    by (simp add: pqueue_same_def pqueue_elem_size_def vec_elem_size_def)
qed

text \<open>The root moves out, the last element takes its place and is sifted down.\<close>

lemma pqueue_pop_at:
  assumes "pqueue_at t live R w q (x # xs)"
  obtains q' ys where "pqueue_pop (Some q) out = Some (SEQC_OK, if out then Some x else None, Some q')"
    and "pqueue_at t live R w q' ys" and "mset ys = mset xs" and "pqueue_same q q'"
proof -
  from assms have h: "pqueue_holds t live R w q (x # xs)" and c: "compare_order (pq_cmp q)"
    and hp: "heap (pq_cmp q) (x # xs)" by (simp_all add: pqueue_at_def pq_ordered_def)
  note len = pqueue_is_len [OF pqueue_holds_is]
  have e0: "pq_elem q 0 = Some x" using pq_elem_is [OF pqueue_holds_is [OF h], of 0] by simp
  show ?thesis
  proof (cases xs rule: rev_cases)
    case Nil
    with h have "pqueue_holds t live R w q ([] @ [x])" by simp
    then obtain v' where v': "vec_pop (pq_data q) False = Some (SEQC_OK, None, Some v')"
      "pqueue_holds t live R w (q\<lparr>pq_data := Some v'\<rparr>) []" "pqueue_same q (q\<lparr>pq_data := Some v'\<rparr>)"
      by (rule pqueue_drop_last)
    have "pqueue_pop (Some q) out = Some (SEQC_OK, if out then Some x else None, Some (q\<lparr>pq_data := Some v'\<rparr>))"
      using len [OF h] len [OF v'(2)] v'(1) e0 Nil by (simp add: pqueue_pop_def)
    moreover have "pqueue_at t live R w (q\<lparr>pq_data := Some v'\<rparr>) []"
      using v'(2) c by (simp add: pqueue_at_def pq_ordered_def heap_def heap_from_def)
    ultimately show ?thesis using that v'(3) Nil by simp
  next
    case (snoc ys y)
    have lst: "pq_elem q (length xs) = Some y"
      using pq_elem_is [OF pqueue_holds_is [OF h], of "length xs"] snoc by (simp add: nth_append)
    obtain q1 where q1: "pq_store q 0 y = Some q1" "pqueue_holds t live R w q1 ((x # xs)[0 := y])" "pqueue_same q q1"
      by (rule pq_store_at [OF h, of 0 y]) simp_all
    then have "pqueue_holds t live R w q1 ((y # ys) @ [y])" by (simp add: snoc)
    then obtain v' where v': "vec_pop (pq_data q1) False = Some (SEQC_OK, None, Some v')"
      "pqueue_holds t live R w (q1\<lparr>pq_data := Some v'\<rparr>) (y # ys)" "pqueue_same q1 (q1\<lparr>pq_data := Some v'\<rparr>)"
      by (rule pqueue_drop_last)
    from v'(2) obtain q2 where q2: "sift_down (q1\<lparr>pq_data := Some v'\<rparr>) 0 = Some q2"
      "pqueue_holds t live R w q2 (down (pq_cmp q1) (y # ys) 0)" "pqueue_same (q1\<lparr>pq_data := Some v'\<rparr>) q2"
      by (rule sift_down_at [where i = 0]) simp_all
    have same: "pqueue_same q q2" using q1(3) v'(3) q2(3) pqueue_same_trans by blast
    have eq: "pq_cmp q1 = pq_cmp q" using q1(3) by (simp add: pqueue_same_def)
    have "pqueue_pop (Some q) out = Some (SEQC_OK, if out then Some x else None, Some q2)"
      using len [OF h] len [OF v'(2)] v'(1) e0 lst q1(1) q2(1) snoc by (simp add: pqueue_pop_def)
    moreover have "heap (pq_cmp q) (down (pq_cmp q) (y # ys) 0)"
      using compare_order.heap_pop_down [OF c, of x ys y] hp snoc by simp
    then have "pqueue_at t live R w q2 (down (pq_cmp q) (y # ys) 0)"
      using q2(2) c eq pq_ordered_same [OF same] by (simp add: pqueue_at_def)
    ultimately show ?thesis using that same snoc by (simp add: mset_down)
  qed
qed

lemma pqueue_pop_empty: "pqueue_is t q [] \<Longrightarrow> pqueue_pop (Some q) out = Some (SEQC_NOT_FOUND, None, Some q)"
  using pqueue_is_len [of t q "[]"] by (simp add: pqueue_pop_def)

text \<open>Draining pops the elements in ascending order.\<close>

lemma pq_drain_loop_at:
  assumes "pqueue_at t live R w q xs" and "buf_is buf c zs" and "length zs + length xs \<le> c"
    and "sorted_wrt (\<lambda>a b. pq_cmp q a b \<le> 0) zs" and "\<forall>z \<in> set zs. \<forall>x \<in> set xs. pq_cmp q z x \<le> 0"
  obtains q' buf' ys where "pq_drain_loop (Some q) buf (length zs) (length xs) = Some (Some q', buf')"
    and "pqueue_at t live R w q' []" and "buf_is buf' c (zs @ ys)" and "mset ys = mset xs"
    and "sorted_wrt (\<lambda>a b. pq_cmp q a b \<le> 0) (zs @ ys)" and "map_option blk_addr buf' = map_option blk_addr buf"
    and "pqueue_same q q'"
  using assms
proof (induction "length xs" arbitrary: xs q buf zs thesis)
  case 0
  then show ?case by simp
next
  case (Suc n)
  from Suc.hyps(2) obtain x us where xs: "xs = x # us" "length us = n" by (cases xs) auto
  with Suc.prems(2) have at: "pqueue_at t live R w q (x # us)" by simp
  then have c: "compare_order (pq_cmp q)" and hp: "heap (pq_cmp q) (x # us)"
    by (simp_all add: pqueue_at_def pq_ordered_def)
  from at obtain q1 ys where q1: "pqueue_pop (Some q) True = Some (SEQC_OK, Some x, Some q1)"
      "pqueue_at t live R w q1 ys" "mset ys = mset us" "pqueue_same q q1"
    by (rule pqueue_pop_at [where out = True]) simp
  have eq: "pq_cmp q1 = pq_cmp q" using q1(4) by (simp add: pqueue_same_def)
  have ly: "n = length ys" using q1(3) xs(2) by (metis mset_eq_length)
  have sy: "set ys = set us" using q1(3) by (rule mset_eq_setD)
  have min: "pq_cmp q x u \<le> 0" if "u \<in> set us" for u
    using that compare_order.heap_root [OF c hp] by (metis in_set_conv_nth insert_iff list.simps(15) nth_Cons_0)
  have "length zs < c" using Suc.prems(4) xs by simp
  with Suc.prems(3) obtain b where b: "block_write buf (length zs) x = Some b" "buf_is b c (zs @ [x])"
      "map_option blk_addr b = map_option blk_addr buf" by (rule block_append_is)
  obtain q2 buf2 ys2 where r: "pq_drain_loop (Some q1) b (length (zs @ [x])) (length ys) = Some (Some q2, buf2)"
      "pqueue_at t live R w q2 []" "buf_is buf2 c ((zs @ [x]) @ ys2)" "mset ys2 = mset ys"
      "sorted_wrt (\<lambda>a b. pq_cmp q1 a b \<le> 0) ((zs @ [x]) @ ys2)" "map_option blk_addr buf2 = map_option blk_addr b"
      "pqueue_same q1 q2"
  proof (rule Suc.hyps(1) [OF ly _ q1(2) b(2)])
    show "sorted_wrt (\<lambda>a b. pq_cmp q1 a b \<le> 0) (zs @ [x])"
      using Suc.prems(5,6) xs by (simp add: eq sorted_wrt_append)
    show "\<forall>z \<in> set (zs @ [x]). \<forall>x \<in> set ys. pq_cmp q1 z x \<le> 0"
      using Suc.prems(6) xs min by (auto simp: eq sy)
  qed (use Suc.prems(4) xs ly in simp_all)
  have "pq_drain_loop (Some q) buf (length zs) (length xs) = Some (Some q2, buf2)"
    using q1(1) b(1) r(1) xs ly by simp
  then show ?case
    by (rule Suc.prems(1) [where ys = "x # ys2"])
      (use r b(3) eq xs q1(3) pqueue_same_trans [OF q1(4) r(7)] in simp_all)
qed

context heap_allocator begin

lemma pqueue_push_at:
  assumes "pqueue_at t live R w q xs"
  obtains (ok) q' ys w' where "pqueue_push (Some q) (Some x) w = Some (SEQC_OK, Some q', w')"
      and "pqueue_at t live R w' q' ys" and "mset ys = add_mset x (mset xs)" and "pqueue_same q q'"
  | (oom) w' where "pqueue_push (Some q) (Some x) w = Some (SEQC_OOM, Some q, w')"
      and "pqueue_at t live R w' q xs" and "refuses t (growth (pqueue_elem_size q) (length xs))"
proof -
  from assms have h: "pqueue_holds t live R w q xs" and c: "compare_order (pq_cmp q)" "heap (pq_cmp q) xs"
    by (simp_all add: pqueue_at_def pq_ordered_def)
  from h obtain v where v: "pq_data q = Some v" "pq_alloc q = Some t" "pq_self q \<notin> dom R"
    "vec_at t live (R(pq_self q \<mapsto> sizeof_pqueue_t)) w v xs" by (rule pqueue_holdsE)
  from v(4) show ?thesis
  proof (cases rule: vec_push_at [where x = x])
    case (ok v' w')
    let ?q = "q\<lparr>pq_data := Some v'\<rparr>"
    have s: "pqueue_same q ?q" using ok(3) v(1)
      by (simp add: pqueue_same_def pqueue_elem_size_def vec_same_def vec_elem_size_def)
    note h' = pqueue_holdsI [OF v(2,3) ok(2)]
    obtain q2 where q2: "sift_up ?q (length xs) = Some q2"
        "pqueue_holds t live R w' q2 (up (pq_cmp ?q) (xs @ [x]) (length xs))" "pqueue_same ?q q2"
      by (rule sift_up_at [OF h', of "length xs"]) simp_all
    have "vec_len (Some v') = Suc (length xs)" using pqueue_is_len [OF pqueue_holds_is [OF h']] by simp
    then have "pqueue_push (Some q) (Some x) w = Some (SEQC_OK, Some q2, w')"
      using ok(1) v(1) q2(1) by (simp add: pqueue_push_def)
    moreover have "pqueue_same q q2" by (rule pqueue_same_trans [OF s q2(3)])
    moreover have "pqueue_at t live R w' q2 (up (pq_cmp q) (xs @ [x]) (length xs))"
      using q2(2) compare_order.heap_snoc_up [OF c] c(1) pq_ordered_same [OF \<open>pqueue_same q q2\<close>]
      by (simp add: pqueue_at_def)
    ultimately show ?thesis using that(1) by (simp add: mset_up)
  next
    case (oom w')
    have q: "q\<lparr>pq_data := Some v\<rparr> = q" using v(1) by (cases q) simp
    have "pqueue_holds t live R w' q xs" using pqueue_holdsI [OF v(2,3) oom(2)] unfolding q .
    then have "pqueue_at t live R w' q xs" using c by (simp add: pqueue_at_def pq_ordered_def)
    moreover have "pqueue_push (Some q) (Some x) w = Some (SEQC_OOM, Some q, w')"
      using oom(1) v(1) by (simp add: pqueue_push_def q)
    moreover have "refuses t (growth (pqueue_elem_size q) (length xs))" using oom(4) v(1) by (simp add: pqueue_elem_size_def vec_elem_size_def)
    ultimately show ?thesis by (intro that(2))
  qed
qed

lemma pqueue_create_holds:
  assumes "elem_size_ok es" and "live w = R"
  obtains (ok) q :: "('e, 'w) pqueue_t" and w' where "pqueue_create es cmp (Some t) w = Some (Some q, w')"
      and "pqueue_holds t live R w' q []" and "pqueue_elem_size q = es" and "pq_cmp q = cmp"
  | (hollow) q :: "('e, 'w) pqueue_t" and w' where "pqueue_create es cmp (Some t) w = Some (Some q, w')"
      and "pq_data q = None" and "pq_alloc q = Some t" and "pq_cmp q = cmp" and "owns (live w') R (pqueue_blocks q)"
      and "starved (Some t)"
  | (oom) w' where "pqueue_create es cmp (Some t) w = Some (None :: ('e, 'w) pqueue_t option, w')"
      and "live w' = R" and "starved (Some t)"
proof (cases rule: iter_state_alloc [of sizeof_pqueue_t w])
  case (granted a w1)
  from granted(2) assms(2) have o: "owns (live w1) R ([a \<mapsto> sizeof_pqueue_t])" by simp
  with owns_wrap_iff [of a Map.empty "live w1" R sizeof_pqueue_t]
  have a: "a \<notin> dom R" "live w1 = R(a \<mapsto> sizeof_pqueue_t)" by simp_all
  show ?thesis
  proof (cases rule: vec_create_at [OF assms(1) a(2), where 'e = 'e])
    case (1 v w2)
    let ?q = "\<lparr>pq_self = a, pq_data = Some v, pq_cmp = cmp, pq_alloc = Some t\<rparr>"
    have "pqueue_create es cmp (Some t) w = Some (Some ?q, w2)"
      using granted(1) 1(1) by (simp add: pqueue_create_def del: mem_alloc.simps)
    moreover have "pqueue_holds t live R w2 ?q []" using a(1) 1(2) by (simp add: pqueue_holds_vec)
    ultimately show ?thesis using ok 1(3) by (simp add: pqueue_elem_size_def vec_elem_size_def)
  next
    case (2 w2)
    then have "owns (live w2) R [a \<mapsto> sizeof_pqueue_t]"
      using owns_wrap_iff [of a Map.empty "live w2" R sizeof_pqueue_t] a(1) by simp
    with granted(1) 2(1,3) show ?thesis
      by (intro hollow [of "\<lparr>pq_self = a, pq_data = None, pq_cmp = cmp, pq_alloc = Some t\<rparr>" w2])
        (simp_all add: pqueue_create_def pqueue_blocks_def del: mem_alloc.simps)
  qed
next
  case (refused w')
  then show ?thesis using assms starved_small [OF refused(3)]
    by (intro oom [of w']) (simp_all add: pqueue_create_def del: mem_alloc.simps)
qed

text \<open>The queue of a vector: each element that a push refused is missing.\<close>

lemma pq_push_all_at:
  assumes "pqueue_holds t live R w q ys" and "slice_is s xs" and "i \<le> length xs"
  obtains q' zs w' where "pq_push_all s q i w = Some (q', w')" and "pqueue_holds t live R w' q' zs"
    and "mset zs \<subseteq># mset ys + mset (drop i xs)" and "pqueue_same q q'"
  using assms
proof (induction "length xs - i" arbitrary: i q ys w thesis)
  case 0
  then have "pq_push_all s q i w = Some (q, w)" by (simp add: pq_push_all.simps slice_is_def)
  with 0 show ?case by simp
next
  case (Suc n)
  then have i: "i < length xs" by simp
  from Suc.prems(3) i obtain cap where "buf_is (sl_ptr s) cap xs" "sl_len s = length xs"
    by (auto simp: slice_is_def)
  with i have rd: "block_read (sl_ptr s) i = Some (xs ! i)" "i < sl_len s" by (simp_all add: block_read_is)
  from Suc.prems(2) obtain v where v: "pq_data q = Some v" "pq_alloc q = Some t" "pq_self q \<notin> dom R"
    "vec_at t live (R(pq_self q \<mapsto> sizeof_pqueue_t)) w v ys" by (rule pqueue_holdsE)
  have d: "drop i xs = xs ! i # drop (Suc i) xs" using i by (simp add: Cons_nth_drop_Suc)
  obtain st v' w1 us where p: "vec_push (Some v) (Some (xs ! i)) w = Some (st, Some v', w1)"
      "vec_at t live (R(pq_self q \<mapsto> sizeof_pqueue_t)) w1 v' us" "vec_same v v'"
      "mset us \<subseteq># add_mset (xs ! i) (mset ys)"
    using v(4)
  proof (cases rule: vec_push_at [where x = "xs ! i"])
    case (ok v' w')
    then show ?thesis by (intro that [of SEQC_OK v' w' "ys @ [xs ! i]"]) simp_all
  next
    case (oom w')
    then show ?thesis by (intro that [of SEQC_OOM v w' ys]) simp_all
  qed
  let ?q = "q\<lparr>pq_data := Some v'\<rparr>"
  have same: "pqueue_same q ?q" using p(3) v(1)
    by (simp add: pqueue_same_def pqueue_elem_size_def vec_same_def vec_elem_size_def)
  obtain q' zs w' where r: "pq_push_all s ?q (Suc i) w1 = Some (q', w')" "pqueue_holds t live R w' q' zs"
      "mset zs \<subseteq># mset us + mset (drop (Suc i) xs)" "pqueue_same ?q q'"
  proof (rule Suc.hyps(1) [OF _ _ pqueue_holdsI [OF v(2,3) p(2)] Suc.prems(3)])
    show "n = length xs - Suc i" using Suc.hyps(2) by simp
    show "Suc i \<le> length xs" using i by simp
  qed
  have "pq_push_all s q i w = Some (q', w')"
    using rd p(1) v(1) r(1) by (subst pq_push_all.simps) simp
  moreover have "mset zs \<subseteq># mset ys + mset (drop i xs)"
    using subset_mset.order_trans [OF r(3) subset_mset.add_right_mono [OF p(4), of "mset (drop (Suc i) xs)"]]
    unfolding d by simp
  ultimately show ?case using Suc.prems(1) r(2) pqueue_same_trans [OF same r(4)] by blast
qed

lemma hollow_inert:
  assumes "pq_data q = None"
  shows "pqueue_push (Some q) elem w = Some (SEQC_INVALID, Some q, w)"
proof (cases elem)
  case (Some x)
  have "q\<lparr>pq_data := None\<rparr> = q" using assms by (cases q) simp
  with assms Some show ?thesis by (simp add: pqueue_push_def vec_push_def)
qed (simp add: pqueue_push_def)

lemma pq_push_all_hollow:
  assumes "pq_data q = None" and "slice_is s xs"
  shows "pq_push_all s q i w = Some (q, w)"
proof (induction "length xs - i" arbitrary: i)
  case 0
  then show ?case using assms by (simp add: pq_push_all.simps slice_is_def)
next
  case (Suc n)
  then have i: "i < length xs" by simp
  from assms(2) i obtain cap where "buf_is (sl_ptr s) cap xs" "sl_len s = length xs"
    by (auto simp: slice_is_def)
  with i have rd: "block_read (sl_ptr s) i = Some (xs ! i)" "i < sl_len s" by (simp_all add: block_read_is)
  have "pq_push_all s q (Suc i) w = Some (q, w)" by (rule Suc.hyps(1)) (use Suc.hyps(2) in simp)
  moreover have "q\<lparr>pq_data := None\<rparr> = q" using assms(1) by (cases q) simp
  ultimately have "pq_push_all s (q\<lparr>pq_data := None\<rparr>) (Suc i) w = Some (q, w)" by metis
  then show ?case using rd assms(1) by (subst pq_push_all.simps) (simp add: vec_push_def)
qed

lemma heapify_hollow:
  assumes "pq_data q = None"
  shows "heapify q n = Some q"
proof (induction n)
  case (Suc i)
  have "sift_down q i = Some q"
    using assms by (simp add: sift_down_def sift_down_loop.simps pq_smallest_def vec_len_def)
  with Suc show ?case by simp
qed simp

lemma pqueue_create_from_vec_at:
  assumes v: "vec_is t v xs" and c: "compare_order cmp" and "live w = R"
  obtains (ok) q ys w' where "pqueue_create_from_vec (Some v) cmp (Some t) w = Some (Some q, w')"
      and "pqueue_at t live R w' q ys" and "mset ys \<subseteq># mset xs" and "pqueue_elem_size q = v_elem_size v"
  | (hollow) q w' where "pqueue_create_from_vec (Some v) cmp (Some t) w = Some (Some q, w')"
      and "pq_data q = None" and "owns (live w') R (pqueue_blocks q)"
  | (oom) w' where "pqueue_create_from_vec (Some v) cmp (Some t) w = Some (None, w')" and "live w' = R"
proof -
  define s where "s = vec_as_slice (Some v)"
  have s: "slice_is s xs" "sl_len s = length xs" "sl_elem_size s = v_elem_size v"
    using vec_as_slice_is [OF v] v by (simp_all add: s_def vec_as_slice_def vec_is_def)
  have es: "elem_size_ok (v_elem_size v)" using v by (simp add: vec_is_def)
  show ?thesis
  proof (cases rule: pqueue_create_holds [OF es assms(3), of cmp])
    case (1 q w1)
    obtain q1 ys w2 where q1: "pq_push_all s q 0 w1 = Some (q1, w2)" "pqueue_holds t live R w2 q1 ys"
        "mset ys \<subseteq># mset xs" "pqueue_same q q1"
      by (rule pq_push_all_at [OF 1(2) s(1), of 0]) simp_all
    have cmp: "pq_cmp q1 = cmp" using q1(4) 1(4) by (simp add: pqueue_same_def)
    have len: "length ys \<le> length xs" using q1(3) by (metis size_mset size_mset_mono)
    have hf: "heap_from (pq_cmp q1) (length xs div 2) ys"
      unfolding cmp by (rule compare_order.heap_from_half [OF c]) (use len in linarith)
    have "length xs \<le> PTRDIFF_MAX"
      using cap_small [of "v_cap v" "v_elem_size v"] vec_is_cap [OF v] v
      by (simp add: vec_is_def PTRDIFF_MAX_def)
    then have half: "length xs div 2 \<le> PTRDIFF_MAX" by simp
    from q1(2) half _ hf obtain q2 zs where q2: "heapify q1 (length xs div 2) = Some q2"
        "pqueue_at t live R w2 q2 zs" "mset zs = mset ys" "pqueue_same q1 q2"
      by (rule heapify_at) (use c cmp in simp_all)
    show ?thesis
    proof (cases "length xs > 1")
      case True
      have "pqueue_create_from_vec (Some v) cmp (Some t) w = Some (Some q2, w2)"
        unfolding pqueue_create_from_vec_def Let_def s_def [symmetric] s(2,3)
        using 1(1) q1(1) q2(1) True by simp
      then show ?thesis
        by (rule ok [OF _ q2(2)]) (use q2 q1 1(3) in \<open>simp_all add: pqueue_same_def\<close>)
    next
      case False
      have "pqueue_create_from_vec (Some v) cmp (Some t) w = Some (Some q1, w2)"
        unfolding pqueue_create_from_vec_def Let_def s_def [symmetric] s(2,3)
        using 1(1) q1(1) False by simp
      moreover have "heap cmp ys" using len False by (auto simp: heap_def heap_from_def)
      then have "pqueue_at t live R w2 q1 ys" using q1(2) c cmp by (simp add: pqueue_at_def pq_ordered_def)
      ultimately show ?thesis
        by (rule ok) (use q1 1(3) in \<open>simp_all add: pqueue_same_def\<close>)
    qed
  next
    case (2 q w1)
    have "pqueue_create_from_vec (Some v) cmp (Some t) w = Some (Some q, w1)"
      unfolding pqueue_create_from_vec_def Let_def s_def [symmetric] s(2,3)
      using 2(1) pq_push_all_hollow [OF 2(2) s(1)] heapify_hollow [OF 2(2)] by simp
    then show ?thesis by (rule hollow) (use 2 in simp_all)
  next
    case (3 w1)
    then have "pqueue_create_from_vec (Some v) cmp (Some t) w = Some (None, w1)"
      unfolding pqueue_create_from_vec_def Let_def s_def [symmetric] s(2,3) by simp
    then show ?thesis by (rule oom) (rule 3(2))
  qed
qed

lemma pqueue_clear_at:
  assumes "pqueue_at t live R w q xs"
  obtains q' where "pqueue_clear (Some q) = Some q'" and "pqueue_at t live R w q' []" and "pqueue_same q q'"
proof -
  from assms have h: "pqueue_holds t live R w q xs" and c: "compare_order (pq_cmp q)"
    by (simp_all add: pqueue_at_def pq_ordered_def)
  from h obtain v where v: "pq_data q = Some v" "pq_alloc q = Some t" "pq_self q \<notin> dom R"
    "vec_at t live (R(pq_self q \<mapsto> sizeof_pqueue_t)) w v xs" by (rule pqueue_holdsE)
  let ?q = "q\<lparr>pq_data := Some (v\<lparr>v_len := 0\<rparr>)\<rparr>"
  have "pqueue_at t live R w ?q []"
    using pqueue_holdsI [OF v(2,3) vec_clear_at [OF v(4)]] c
    by (simp add: pqueue_at_def pq_ordered_def heap_def heap_from_def)
  moreover have "pqueue_clear (Some q) = Some ?q" using v(1) by (simp add: pqueue_clear_def vec_clear_def)
  ultimately show ?thesis using that v(1)
    by (simp add: pqueue_same_def pqueue_elem_size_def vec_elem_size_def)
qed

lemma pqueue_destroy_at:
  assumes "pqueue_holds t live R w q xs"
  obtains w' where "pqueue_destroy (Some q) w = Some w'" and "live w' = R"
proof -
  from assms obtain v where v: "pq_data q = Some v" "pq_alloc q = Some t" "pq_self q \<notin> dom R"
    "vec_at t live (R(pq_self q \<mapsto> sizeof_pqueue_t)) w v xs" by (rule pqueue_holdsE)
  obtain w1 where w1: "vec_destroy (Some v) w = Some w1" "live w1 = R(pq_self q \<mapsto> sizeof_pqueue_t)"
    by (rule vec_destroy_at [OF v(4)])
  have o: "owns (live w1) (R(pq_self q \<mapsto> sizeof_pqueue_t)) Map.empty" using w1(2) by simp
  obtain w2 where w2: "mem_free (Some t) (Some (pq_self q)) sizeof_pqueue_t w1 = Some w2"
      "owns (live w2) R Map.empty"
    by (rule release_held [OF o v(3)])
  with w1(1) v(1,2) that show ?thesis by (simp add: pqueue_destroy_def del: mem_free.simps)
qed

lemma pqueue_iter_built:
  "pqueue_is t q xs \<Longrightarrow> iter_built live (Some t) (live w) (pqueue_elem_size q) xs (pqueue_iter (Some q) w)"
  using vec_iter_built by (fastforce simp: pqueue_is_def pqueue_iter_def pqueue_elem_size_def vec_elem_size_def)

lemma pqueue_iter_rev_built:
  "pqueue_is t q xs \<Longrightarrow> iter_built live (Some t) (live w) (pqueue_elem_size q) (rev xs) (pqueue_iter_rev (Some q) w)"
  using vec_iter_rev_built
  by (fastforce simp: pqueue_is_def pqueue_iter_rev_def pqueue_elem_size_def vec_elem_size_def)

text \<open>
  \<open>pqueue_drain\<close>: the caller gets the elements in ascending order in a buffer of its own; when
  the buffer is refused, the elements are lost.
\<close>

lemma pqueue_drain_at:
  assumes at: "pqueue_at t live R w q xs" and ne: "xs \<noteq> []"
  obtains (ok) s q' b ys w' where "pqueue_drain (Some q) (Some t) w = Some (s, Some q', w')"
      and "slice_is s ys" and "mset ys = mset xs" and "sorted_wrt (\<lambda>a b. pq_cmp q a b \<le> 0) ys"
      and "sl_ptr s = Some b" and "pqueue_is t q' []" and "pq_ordered q' []"
      and "owns2 (live w') R (pqueue_blocks q') [blk_addr b \<mapsto> length xs * pqueue_elem_size q]"
  | (oom) s q' w' where "pqueue_drain (Some q) (Some t) w = Some (s, Some q', w')"
      and "slice_is s []" and "pqueue_at t live R w' q' []"
proof -
  let ?es = "pqueue_elem_size q"
  from at have h: "pqueue_holds t live R w q xs" by (simp add: pqueue_at_def)
  note at' = pqueue_holds_is [OF h]
  from at' obtain v where v: "pq_data q = Some v" "vec_is t v xs" by (auto simp: pqueue_is_def)
  have es: "0 < ?es" "vec_elem_size (pq_data q) = ?es"
    using v by (simp_all add: pqueue_elem_size_def vec_elem_size_def vec_is_def elem_size_ok_def)
  have n: "pqueue_len (Some q) = length xs" using pqueue_is_len [OF at'] by (simp add: pqueue_len_def)
  have "length xs * ?es \<le> v_cap v * ?es" using vec_is_cap [OF v(2)] by simp
  also have "\<dots> \<le> PTRDIFF_MAX" using v by (simp add: pqueue_elem_size_def vec_elem_size_def vec_is_def)
  finally have mul: "wmul (length xs) ?es = length xs * ?es" by (intro wmul_exact) (simp add: PTRDIFF_MAX_def)
  have o: "owns (live w) (R ++ pqueue_blocks q) Map.empty" and o2: "owns2 (live w) R (pqueue_blocks q) Map.empty"
    using h owns2_empty by (auto simp: pqueue_holds_def owns_def)
  have pos: "0 < length xs" using ne by simp
  show ?thesis
  proof (cases rule: block_alloc_fresh [OF o es(1) pos, where 'e = 'a])
    case (1 b w1)
    have b: "buf_is (Some b) (length xs) []" by (rule buf_is_SomeI [where ys = "cells b"]) (use 1(2) pos in simp_all)
    have o3: "owns2 (live w1) R (pqueue_blocks q) [blk_addr b \<mapsto> length xs * ?es]"
      by (rule owns2_step_right [OF o2 1(3)])
    have at1: "pqueue_at t live (R ++ [blk_addr b \<mapsto> length xs * ?es]) w1 q xs"
      using at at' owns2_left [OF o3] by (simp add: pqueue_at_def pqueue_holds_def)
    obtain q' buf' ys where r: "pq_drain_loop (Some q) (Some b) (length ([] :: 'a list)) (length xs) = Some (Some q', buf')"
        "pqueue_at t live (R ++ [blk_addr b \<mapsto> length xs * ?es]) w1 q' []" "buf_is buf' (length xs) ([] @ ys)"
        "mset ys = mset xs" "sorted_wrt (\<lambda>a b. pq_cmp q a b \<le> 0) ([] @ ys)"
        "map_option blk_addr buf' = map_option blk_addr (Some b)" "pqueue_same q q'"
      by (rule pq_drain_loop_at [OF at1 b]) simp_all
    from r(6) obtain b' where b': "buf' = Some b'" "blk_addr b' = blk_addr b" by auto
    have "pqueue_drain (Some q) (Some t) w = Some (\<lparr>sl_ptr = Some b', sl_len = length xs, sl_elem_size = ?es\<rparr>, Some q', w1)"
      using n ne es(2) mul 1(1) r(1) b'(1) by (simp add: pqueue_drain_def)
    moreover have "slice_is \<lparr>sl_ptr = Some b', sl_len = length xs, sl_elem_size = ?es\<rparr> ys"
      using r(3,4) b'(1) mset_eq_length [OF r(4)] by (auto simp: slice_is_def)
    moreover have "owns2 (live w1) R (pqueue_blocks q') [blk_addr b' \<mapsto> length xs * ?es]"
      using owns2_step_left [OF o3, of "live w1" "pqueue_blocks q'"] r(2) b'(2)
      by (simp add: pqueue_at_def pqueue_holds_def)
    ultimately show ?thesis
      using ok r(2,4,5) by (simp add: pqueue_at_def pqueue_holds_def)
  next
    case (2 w1)
    have "owns (live w1) R (pqueue_blocks q)" using owns2_step_right [OF o2 2(2)] by (simp add: owns2_def owns_def)
    then have "pqueue_at t live R w1 q xs" using at by (simp add: pqueue_at_def pqueue_holds_def)
    then obtain q' where "pqueue_clear (Some q) = Some q'" "pqueue_at t live R w1 q' []" by (rule pqueue_clear_at)
    then show ?thesis using oom n ne es(2) mul 2(1) by (simp add: pqueue_drain_def slice_is_def)
  qed
qed

lemma pqueue_collection:
  "collection_add t live pqueue_push pqueue_blocks (pqueue_has t) (\<lambda>M x. add_mset x M) pqueue_same
    (\<lambda>c M. refuses t (growth (pqueue_elem_size c) (size M)))"
proof unfold_locales
  fix q :: "('e, 'w) pqueue_t" and M w R x
  assume a: "pqueue_has t q M" "owns (live w) R (pqueue_blocks q)"
  then obtain xs where "pqueue_at t live R w q xs" "mset xs = M"
    by (auto simp: pqueue_has_def pqueue_at_def pqueue_holds_def)
  then show "\<exists>st q' w'. pqueue_push (Some q) (Some x) w = Some (st, Some q', w') \<and>
      owns (live w') R (pqueue_blocks q') \<and> pqueue_same q q' \<and>
      (if st = SEQC_OK \<or> st = SEQC_DUPLICATE then pqueue_has t q' (add_mset x M) else st = SEQC_OOM \<and> pqueue_has t q' M \<and>
         refuses t (growth (pqueue_elem_size q) (size M)))"
    by (cases rule: pqueue_push_at [where x = x])
      (auto simp: pqueue_at_def pqueue_holds_def pqueue_has_def)
qed (simp_all add: pqueue_same_def)

lemma foldl_add_mset: "foldl (\<lambda>M x. add_mset x M) N xs = N + mset xs"
  by (induction xs arbitrary: N) simp_all

lemma pqueue_extend_at:
  assumes "pqueue_has t q M" and "owns2 (live w) R (pqueue_blocks q) B"
    and "iter_rep live xs it B" and "iter_is_valid it" and "it_elem_size it = pqueue_elem_size q"
  shows "\<exists>st q' w' k. pqueue_extend (Some q) it w = Some (st, Some q', w') \<and> pqueue_same q q' \<and>
    pqueue_has t q' (M + mset (take k xs)) \<and> owns (live w') R (pqueue_blocks q') \<and>
    (st = SEQC_OK \<and> k = length xs \<or> st = SEQC_OOM \<and> k \<le> length xs \<and>
      (refuses t (growth (pqueue_elem_size q) (size (M + mset (take k xs)))) \<or> k = 0 \<and> refuses t (pqueue_elem_size q)))"
proof -
  have "pqueue_extend (Some q) it w = seqc_extend (Some q) pqueue_push (pqueue_elem_size q) (Some t) it w"
    using assms(1) by (auto simp: pqueue_extend_def pqueue_elem_size_def pqueue_has_def pqueue_is_def)
  with collection_add.drain_at [OF pqueue_collection assms] show ?thesis
    unfolding foldl_add_mset by metis
qed

end

interpretation sys_pqueue: collection_add sys_allocator hp_live pqueue_push pqueue_blocks
  "pqueue_has sys_allocator" "\<lambda>M x. add_mset x M" pqueue_same
  "\<lambda>c M. refuses sys_allocator (growth (pqueue_elem_size c) (size M))"
  by (rule sys.pqueue_collection)

end
