(* ===== verification/Seqc_Array_Lifetimes.thy ===== *)
theory Seqc_Array_Lifetimes
  imports Seqc_Lifetime Seqc_Stack Seqc_Queue Seqc_Ringbuf Seqc_Pqueue
begin

section \<open>The array-backed collections against sequences\<close>

text \<open>
  For each collection in an array: a datatype of calls, the call itself (\<open>X_call\<close>), what the
  abstract sequence or multiset may answer (\<open>X_spec\<close>), and the proof that the two agree, as an
  instance of \<open>lifetime_laws\<close>. An answer is a status and the element written through \<open>out\<close>.
\<close>

type_synonym 'a answer = "seqc_status_t \<times> 'a option"

text \<open>
  What an operation that allocates may do: its effect, or nothing, when the allocator refuses some
  request of at most \<open>n\<close> bytes.
\<close>

abbreviation (input) may_fail :: "'w vtable \<Rightarrow> size_t \<Rightarrow> 'm \<Rightarrow> 'a answer \<Rightarrow> 'm \<Rightarrow> 'm \<Rightarrow> bool" where
  "may_fail t n m r m' m1 \<equiv>
     r = (SEQC_OK, None) \<and> m' = m1 \<or> r = (SEQC_OOM, None) \<and> m' = m \<and> refuses t n"

subsection \<open>\<open>vec_t\<close>\<close>

datatype 'a vec_op = VPush 'a | VPop | VInsert size_t 'a | VRemove size_t | VSet size_t 'a
  | VTruncate size_t | VClear | VReserve size_t | VGet size_t

fun vec_call :: "'a vec_op \<Rightarrow> ('a, 'w) vec_t option \<Rightarrow> 'w \<Rightarrow> ('a answer \<times> ('a, 'w) vec_t option \<times> 'w) option" where
  "vec_call (VPush x) v w = do { (st, v, w) \<leftarrow> vec_push v (Some x) w; Some ((st, None), v, w) }"
| "vec_call VPop v w = do { (st, x, v) \<leftarrow> vec_pop v True; Some ((st, x), v, w) }"
| "vec_call (VInsert i x) v w = do { (st, v, w) \<leftarrow> vec_insert v i (Some x) w; Some ((st, None), v, w) }"
| "vec_call (VRemove i) v w = do { v \<leftarrow> vec_remove v i; Some ((SEQC_OK, None), v, w) }"
| "vec_call (VSet i x) v w = do { v \<leftarrow> vec_set v i (Some x); Some ((SEQC_OK, None), v, w) }"
| "vec_call (VTruncate n) v w = Some ((SEQC_OK, None), vec_truncate v n, w)"
| "vec_call VClear v w = Some ((SEQC_OK, None), vec_clear v, w)"
| "vec_call (VReserve n) v w = do { (st, v, w) \<leftarrow> vec_reserve v n w; Some ((st, None), v, w) }"
| "vec_call (VGet i) v w = do { r \<leftarrow> vec_get v i True; Some (r, v, w) }"

fun vec_spec :: "'w vtable \<Rightarrow> size_t \<Rightarrow> 'a vec_op \<Rightarrow> 'a list \<Rightarrow> 'a answer \<Rightarrow> 'a list \<Rightarrow> bool" where
  "vec_spec t es (VPush x) xs r ys \<longleftrightarrow> may_fail t (growth es (length xs)) xs r ys (xs @ [x])"
| "vec_spec t es VPop xs r ys \<longleftrightarrow>
     (if xs = [] then r = (SEQC_NOT_FOUND, None) \<and> ys = [] else r = (SEQC_OK, Some (last xs)) \<and> ys = butlast xs)"
| "vec_spec t es (VInsert i x) xs r ys \<longleftrightarrow>
     (if i \<le> length xs then may_fail t (growth es (length xs)) xs r ys (take i xs @ x # drop i xs) else r = (SEQC_INVALID, None) \<and> ys = xs)"
| "vec_spec t es (VRemove i) xs r ys \<longleftrightarrow> r = (SEQC_OK, None) \<and> ys = take i xs @ drop (Suc i) xs"
| "vec_spec t es (VSet i x) xs r ys \<longleftrightarrow> r = (SEQC_OK, None) \<and> ys = xs[i := x]"
| "vec_spec t es (VTruncate n) xs r ys \<longleftrightarrow> r = (SEQC_OK, None) \<and> ys = take n xs"
| "vec_spec t es VClear xs r ys \<longleftrightarrow> r = (SEQC_OK, None) \<and> ys = []"
| "vec_spec t es (VReserve n) xs r ys \<longleftrightarrow> may_fail t (n * es) xs r ys xs"
| "vec_spec t es (VGet i) xs r ys \<longleftrightarrow>
     ys = xs \<and> r = (if i < length xs then (SEQC_OK, Some (xs ! i)) else (SEQC_NOT_FOUND, None))"

text \<open>A reservation must not wrap around: \<open>vec_reserve\<close> does not check it.\<close>

fun vec_legal :: "size_t \<Rightarrow> 'a vec_op \<Rightarrow> bool" where
  "vec_legal es (VReserve n) \<longleftrightarrow> n * es < 2 ^ 64"
| "vec_legal es _ \<longleftrightarrow> True"

definition vec_alive ::
  "'w vtable \<Rightarrow> ('w \<Rightarrow> addr \<rightharpoonup> size_t) \<Rightarrow> size_t \<Rightarrow> (addr \<rightharpoonup> size_t) \<Rightarrow> 'w \<Rightarrow> ('a, 'w) vec_t \<Rightarrow> 'a list \<Rightarrow> bool" where
  "vec_alive t live es R w v xs \<longleftrightarrow> vec_at t live R w v xs \<and> v_elem_size v = es"

lemma vec_aliveI: "vec_at t live R w v' ys \<Longrightarrow> vec_same v v' \<Longrightarrow> v_elem_size v = es \<Longrightarrow> vec_alive t live es R w v' ys"
  by (simp add: vec_alive_def vec_same_def)

context heap_allocator begin

lemma vec_call_insert:
  assumes v: "vec_at t live R w v xs"
  shows "\<exists>r v' w' ys. vec_call (VInsert i x) (Some v) w = Some (r, Some v', w') \<and>
    vec_spec t (v_elem_size v) (VInsert i x) xs r ys \<and> vec_at t live R w' v' ys \<and> vec_same v v'"
proof (cases "i \<le> length xs")
  case True
  then have "vec_at t live R w v (take i xs @ drop i xs)" and i: "length (take i xs) = i" using v by simp_all
  then show ?thesis
  proof (cases rule: vec_insert_at [where x = x])
    case (ok v' w')
    with True i show ?thesis by (auto simp: min_absorb2)
  next
    case (oom w')
    with True i show ?thesis by (auto simp: min_absorb2)
  qed
next
  case False
  then have "vec_call (VInsert i x) (Some v) w = Some ((SEQC_INVALID, None), Some v, w)"
    using v by (simp add: vec_insert_def vec_at_def vec_is_def)
  then show ?thesis using False v by fastforce
qed

lemma vec_call_remove:
  assumes v: "vec_at t live R w v xs"
  shows "\<exists>v'. vec_call (VRemove i) (Some v) w = Some ((SEQC_OK, None), Some v', w) \<and>
    vec_at t live R w v' (take i xs @ drop (Suc i) xs) \<and> vec_same v v'"
proof (cases "i < length xs")
  case True
  then have "vec_at t live R w v (take i xs @ xs ! i # drop (Suc i) xs)" and i: "length (take i xs) = i"
    using v by (simp_all add: id_take_nth_drop [symmetric])
  from this(1) obtain v' where "vec_remove (Some v) (length (take i xs)) = Some (Some v')"
    "vec_at t live R w v' (take i xs @ drop (Suc i) xs)" "vec_same v v'" by (rule vec_remove_at)
  then show ?thesis unfolding i by auto
next
  case False
  then have "vec_remove (Some v) i = Some (Some v)" using v by (simp add: vec_remove_def vec_at_def vec_is_def)
  then show ?thesis using False v by auto
qed

lemma vec_call_set:
  assumes v: "vec_at t live R w v xs"
  shows "\<exists>v'. vec_call (VSet i x) (Some v) w = Some ((SEQC_OK, None), Some v', w) \<and>
    vec_at t live R w v' (xs[i := x]) \<and> vec_same v v'"
proof (cases "i < length xs")
  case True
  from v this obtain v' where "vec_set (Some v) i (Some x) = Some (Some v')"
    "vec_at t live R w v' (xs[i := x])" "vec_same v v'" by (rule vec_set_at)
  then show ?thesis by auto
next
  case False
  then have "vec_set (Some v) i (Some x) = Some (Some v)" using v by (simp add: vec_set_def vec_at_def vec_is_def)
  then show ?thesis using False v by (auto simp: list_update_beyond)
qed

lemma vec_call_pop:
  assumes v: "vec_at t live R w v xs"
  shows "\<exists>r v' ys. vec_call VPop (Some v) w = Some (r, Some v', w) \<and> vec_spec t (v_elem_size v) VPop xs r ys \<and>
    vec_at t live R w v' ys \<and> vec_same v v'"
proof (cases xs rule: rev_cases)
  case Nil
  with v vec_pop_empty [of t v True] show ?thesis by (simp add: vec_at_def)
next
  case (snoc ys y)
  with v have "vec_at t live R w v (ys @ [y])" by simp
  from vec_pop_snoc(1) [OF this, of True] vec_pop_snoc(2) [OF this] snoc show ?thesis
    by (auto simp: vec_same_def)
qed

lemma vec_call_law:
  assumes v: "vec_at t live R w v xs" and es: "vec_legal (v_elem_size v) p"
  shows "\<exists>r v' w' ys. vec_call p (Some v) w = Some (r, Some v', w') \<and> vec_spec t (v_elem_size v) p xs r ys \<and>
    vec_at t live R w' v' ys \<and> vec_same v v'"
proof (cases p)
  case (VPush x)
  from v show ?thesis unfolding VPush by (cases rule: vec_push_at [where x = x]) auto
next
  case VPop
  then show ?thesis using vec_call_pop [OF v] by blast
next
  case (VInsert i x)
  then show ?thesis using vec_call_insert [OF v] by blast
next
  case (VRemove i)
  then show ?thesis using vec_call_remove [OF v, of i] by auto
next
  case (VSet i x)
  then show ?thesis using vec_call_set [OF v, of i x] by auto
next
  case (VTruncate n)
  from v obtain v' where "vec_truncate (Some v) n = Some v'" "vec_at t live R w v' (take n xs)" "vec_same v v'"
    by (rule vec_truncate_at)
  then show ?thesis using VTruncate by auto
next
  case VClear
  then show ?thesis using vec_clear_at [OF v] by (auto simp: vec_clear_def vec_same_def)
next
  case (VReserve n)
  then have "n * v_elem_size v < 2 ^ 64" using es by simp
  from v this show ?thesis unfolding VReserve by (cases rule: vec_reserve_at) auto
next
  case (VGet i)
  then show ?thesis using v vec_get_is [of t v xs i True] by (auto simp: vec_at_def)
qed

lemma vec_lifetime_laws:
  assumes "elem_size_ok es"
  shows "lifetime_laws t live (vec_create es (Some t)) (on_handle vec_call) (\<lambda>v. vec_destroy (Some v))
    (vec_spec t es) [] (vec_legal es) (vec_alive t live es)"
proof unfold_locales
  fix w
  show "\<exists>c w'. vec_create es (Some t) w = Some (c, w') \<and>
      (case c of None \<Rightarrow> live w' = live w \<and> starved (Some t) | Some c \<Rightarrow> vec_alive t live es (live w) w' c ([] :: 'e list))"
    by (cases rule: vec_create_at [OF assms refl, of w, where 'e = 'e]) (auto simp: vec_alive_def)
next
  fix R w and p :: "'e vec_op" and v :: "('e, 'w) vec_t" and xs
  assume "vec_alive t live es R w v xs" "vec_legal es p"
  then show "\<exists>r v' w' ys. on_handle vec_call p v w = Some (r, v', w') \<and> vec_spec t es p xs r ys \<and>
      vec_alive t live es R w' v' ys"
    using vec_call_law [of R w v xs p] by (fastforce simp: vec_alive_def vec_same_def intro: on_handleI)
next
  fix R w and v :: "('e, 'w) vec_t" and xs
  assume "vec_alive t live es R w v xs"
  then have "vec_at t live R w v xs" by (simp add: vec_alive_def)
  then show "\<exists>w'. vec_destroy (Some v) w = Some w' \<and> live w' = R" by (rule vec_destroy_at) blast
qed

end

interpretation sys_vec_life: lifetime_laws sys_allocator hp_live "vec_create 4 (Some sys_allocator)"
  "on_handle vec_call" "\<lambda>v. vec_destroy (Some v)" "vec_spec sys_allocator 4" "[]" "vec_legal 4" "vec_alive sys_allocator hp_live 4"
  by (rule sys.vec_lifetime_laws) (simp add: elem_size_ok_def)

subsection \<open>\<open>seqc_stack_t\<close>\<close>

datatype 'a stack_op = SPush 'a | SPop | SPeek | SClear

fun stack_call ::
  "'a stack_op \<Rightarrow> ('a, 'w) seqc_stack_t option \<Rightarrow> 'w \<Rightarrow> ('a answer \<times> ('a, 'w) seqc_stack_t option \<times> 'w) option" where
  "stack_call (SPush x) s w = do { (st, s, w) \<leftarrow> stack_push s (Some x) w; Some ((st, None), s, w) }"
| "stack_call SPop s w = do { (st, x, s) \<leftarrow> stack_pop s True; Some ((st, x), s, w) }"
| "stack_call SPeek s w = do { r \<leftarrow> stack_peek s True; Some (r, s, w) }"
| "stack_call SClear s w = Some ((SEQC_OK, None), stack_clear s, w)"

fun stack_spec :: "'w vtable \<Rightarrow> size_t \<Rightarrow> 'a stack_op \<Rightarrow> 'a list \<Rightarrow> 'a answer \<Rightarrow> 'a list \<Rightarrow> bool" where
  "stack_spec t es (SPush x) xs r ys \<longleftrightarrow> may_fail t (growth es (length xs)) xs r ys (xs @ [x])"
| "stack_spec t es SPop xs r ys \<longleftrightarrow>
     (if xs = [] then r = (SEQC_NOT_FOUND, None) \<and> ys = [] else r = (SEQC_OK, Some (last xs)) \<and> ys = butlast xs)"
| "stack_spec t es SPeek xs r ys \<longleftrightarrow>
     ys = xs \<and> r = (if xs = [] then (SEQC_NOT_FOUND, None) else (SEQC_OK, Some (last xs)))"
| "stack_spec t es SClear xs r ys \<longleftrightarrow> r = (SEQC_OK, None) \<and> ys = []"

context heap_allocator begin

lemma stack_call_law:
  assumes s: "stack_at t live R w s xs"
  shows "\<exists>r s' w' ys. stack_call p (Some s) w = Some (r, Some s', w') \<and> stack_spec t (stack_elem_size s) p xs r ys \<and>
    stack_at t live R w' s' ys \<and> stack_same s s'"
proof (cases p)
  case (SPush x)
  from s show ?thesis unfolding SPush by (cases rule: stack_push_at [where x = x]) (auto simp: stack_same_def)
next
  case SPop
  show ?thesis
  proof (cases xs rule: rev_cases)
    case Nil
    with s SPop stack_pop_empty [of t s True] show ?thesis by (simp add: stack_at_def stack_same_def)
  next
    case (snoc ys y)
    with s have "stack_at t live R w s (ys @ [y])" by simp
    then obtain s' where "stack_pop (Some s) True = Some (SEQC_OK, Some y, Some s')" "stack_at t live R w s' ys" "stack_same s s'"
      using stack_pop_snoc [of t live R w s ys y True] by (metis (full_types))
    with SPop snoc show ?thesis by auto
  qed
next
  case SPeek
  with s stack_peek_is [of t s xs True] show ?thesis by (auto simp: stack_at_def stack_same_def)
next
  case SClear
  from s obtain s' where "stack_clear (Some s) = Some s'" "stack_at t live R w s' []" "stack_same s s'" by (rule stack_clear_at)
  with SClear show ?thesis by auto
qed

lemma stack_lifetime_laws:
  assumes "elem_size_ok es"
  shows "lifetime_laws t live (stack_create es (Some t)) (on_handle stack_call) (\<lambda>s. stack_destroy (Some s))
    (stack_spec t es) [] (\<lambda>_. True) (sized stack_elem_size es (stack_at t live))"
proof unfold_locales
  fix w
  show "\<exists>c w'. stack_create es (Some t) w = Some (c, w') \<and>
      (case c of None \<Rightarrow> live w' = live w \<and> starved (Some t) | Some c \<Rightarrow> sized stack_elem_size es (stack_at t live) (live w) w' c ([] :: 'e list))"
    by (cases rule: stack_create_at [OF assms refl, of w, where 'e = 'e]) (auto simp: sized_def)
next
  fix R w and p :: "'e stack_op" and s :: "('e, 'w) seqc_stack_t" and xs
  assume "sized stack_elem_size es (stack_at t live) R w s xs"
  then show "\<exists>r s' w' ys. on_handle stack_call p s w = Some (r, s', w') \<and> stack_spec t es p xs r ys \<and>
      sized stack_elem_size es (stack_at t live) R w' s' ys"
    using stack_call_law [of R w s xs p] by (fastforce simp: sized_def stack_same_def intro: on_handleI)
next
  fix R w and s :: "('e, 'w) seqc_stack_t" and xs
  assume "sized stack_elem_size es (stack_at t live) R w s xs"
  then have "stack_at t live R w s xs" by (rule sizedD)
  then show "\<exists>w'. stack_destroy (Some s) w = Some w' \<and> live w' = R" by (rule stack_destroy_at) blast
qed

end

interpretation sys_stack_life: lifetime_laws sys_allocator hp_live "stack_create 4 (Some sys_allocator)"
  "on_handle stack_call" "\<lambda>s. stack_destroy (Some s)" "stack_spec sys_allocator 4" "[]" "\<lambda>_. True"
  "sized stack_elem_size 4 (stack_at sys_allocator hp_live)"
  by (rule sys.stack_lifetime_laws) (simp add: elem_size_ok_def)

subsection \<open>\<open>queue_t\<close>\<close>

datatype 'a queue_op = QPush 'a | QPop | QFront | QBack | QClear

fun queue_call ::
  "'a queue_op \<Rightarrow> ('a, 'w) queue_t option \<Rightarrow> 'w \<Rightarrow> ('a answer \<times> ('a, 'w) queue_t option \<times> 'w) option" where
  "queue_call (QPush x) q w = do { (st, q, w) \<leftarrow> queue_push q (Some x) w; Some ((st, None), q, w) }"
| "queue_call QPop q w = do { (st, x, q) \<leftarrow> queue_pop q True; Some ((st, x), q, w) }"
| "queue_call QFront q w = do { r \<leftarrow> queue_front q True; Some (r, q, w) }"
| "queue_call QBack q w = do { r \<leftarrow> queue_back q True; Some (r, q, w) }"
| "queue_call QClear q w = Some ((SEQC_OK, None), queue_clear q, w)"

fun queue_spec :: "'w vtable \<Rightarrow> size_t \<Rightarrow> 'a queue_op \<Rightarrow> 'a list \<Rightarrow> 'a answer \<Rightarrow> 'a list \<Rightarrow> bool" where
  "queue_spec t es (QPush x) xs r ys \<longleftrightarrow> may_fail t (growth es (length xs)) xs r ys (xs @ [x])"
| "queue_spec t es QPop xs r ys \<longleftrightarrow>
     (if xs = [] then r = (SEQC_NOT_FOUND, None) \<and> ys = [] else r = (SEQC_OK, Some (hd xs)) \<and> ys = tl xs)"
| "queue_spec t es QFront xs r ys \<longleftrightarrow>
     ys = xs \<and> r = (if xs = [] then (SEQC_NOT_FOUND, None) else (SEQC_OK, Some (hd xs)))"
| "queue_spec t es QBack xs r ys \<longleftrightarrow>
     ys = xs \<and> r = (if xs = [] then (SEQC_NOT_FOUND, None) else (SEQC_OK, Some (last xs)))"
| "queue_spec t es QClear xs r ys \<longleftrightarrow> r = (SEQC_OK, None) \<and> ys = []"

context heap_allocator begin

lemma queue_call_law:
  assumes q: "queue_at t live R w q xs"
  shows "\<exists>r q' w' ys. queue_call p (Some q) w = Some (r, Some q', w') \<and> queue_spec t (q_elem_size q) p xs r ys \<and>
    queue_at t live R w' q' ys \<and> queue_same q q'"
proof (cases p)
  case (QPush x)
  from q show ?thesis unfolding QPush by (cases rule: queue_push_at [where x = x]) (auto simp: queue_same_def)
next
  case QPop
  show ?thesis
  proof (cases xs)
    case Nil
    with q QPop queue_pop_empty [of t q True] show ?thesis by (simp add: queue_at_def queue_same_def)
  next
    case (Cons y ys)
    with q have "queue_at t live R w q (y # ys)" by simp
    then obtain q' where "queue_pop (Some q) True = Some (SEQC_OK, Some y, Some q')" "queue_at t live R w q' ys" "queue_same q q'"
      using queue_pop_Cons [where out = True] by (metis (full_types))
    with QPop Cons show ?thesis by auto
  qed
next
  case QFront
  with q queue_front_is [of t q xs True] show ?thesis by (auto simp: queue_at_def queue_same_def)
next
  case QBack
  with q queue_back_is [of t q xs True] show ?thesis by (auto simp: queue_at_def queue_same_def)
next
  case QClear
  from q obtain q' where "queue_clear (Some q) = Some q'" "queue_at t live R w q' []" "queue_same q q'" by (rule queue_clear_at)
  with QClear show ?thesis by auto
qed

lemma queue_lifetime_laws:
  assumes "elem_size_ok es"
  shows "lifetime_laws t live (queue_create es (Some t)) (on_handle queue_call) (\<lambda>q. queue_destroy (Some q))
    (queue_spec t es) [] (\<lambda>_. True) (sized q_elem_size es (queue_at t live))"
proof unfold_locales
  fix w
  show "\<exists>c w'. queue_create es (Some t) w = Some (c, w') \<and>
      (case c of None \<Rightarrow> live w' = live w \<and> starved (Some t) | Some c \<Rightarrow> sized q_elem_size es (queue_at t live) (live w) w' c ([] :: 'e list))"
    by (cases rule: queue_create_at [OF assms refl, of w, where 'e = 'e]) (auto simp: sized_def)
next
  fix R w and p :: "'e queue_op" and q :: "('e, 'w) queue_t" and xs
  assume "sized q_elem_size es (queue_at t live) R w q xs"
  then show "\<exists>r q' w' ys. on_handle queue_call p q w = Some (r, q', w') \<and> queue_spec t es p xs r ys \<and>
      sized q_elem_size es (queue_at t live) R w' q' ys"
    using queue_call_law [of R w q xs p] by (fastforce simp: sized_def queue_same_def intro: on_handleI)
next
  fix R w and q :: "('e, 'w) queue_t" and xs
  assume "sized q_elem_size es (queue_at t live) R w q xs"
  then have "queue_at t live R w q xs" by (rule sizedD)
  then show "\<exists>w'. queue_destroy (Some q) w = Some w' \<and> live w' = R" by (rule queue_destroy_at) blast
qed

end

interpretation sys_queue_life: lifetime_laws sys_allocator hp_live "queue_create 4 (Some sys_allocator)"
  "on_handle queue_call" "\<lambda>q. queue_destroy (Some q)" "queue_spec sys_allocator 4" "[]" "\<lambda>_. True"
  "sized q_elem_size 4 (queue_at sys_allocator hp_live)"
  by (rule sys.queue_lifetime_laws) (simp add: elem_size_ok_def)

subsection \<open>\<open>ringbuf_t\<close>\<close>

datatype 'a ringbuf_op = RPushBack 'a | RPushFront 'a | RPopFront | RPopBack | RGet size_t | RFront | RBack | RClear

fun ringbuf_call ::
  "'a ringbuf_op \<Rightarrow> ('a, 'w) ringbuf_t option \<Rightarrow> 'w \<Rightarrow> ('a answer \<times> ('a, 'w) ringbuf_t option \<times> 'w) option" where
  "ringbuf_call (RPushBack x) q w = do { (st, q, w) \<leftarrow> ringbuf_push_back q (Some x) w; Some ((st, None), q, w) }"
| "ringbuf_call (RPushFront x) q w = do { (st, q, w) \<leftarrow> ringbuf_push_front q (Some x) w; Some ((st, None), q, w) }"
| "ringbuf_call RPopFront q w = do { (st, x, q) \<leftarrow> ringbuf_pop_front q True; Some ((st, x), q, w) }"
| "ringbuf_call RPopBack q w = do { (st, x, q) \<leftarrow> ringbuf_pop_back q True; Some ((st, x), q, w) }"
| "ringbuf_call (RGet i) q w = do { r \<leftarrow> ringbuf_get q i True; Some (r, q, w) }"
| "ringbuf_call RFront q w = do { r \<leftarrow> ringbuf_front q True; Some (r, q, w) }"
| "ringbuf_call RBack q w = do { r \<leftarrow> ringbuf_back q True; Some (r, q, w) }"
| "ringbuf_call RClear q w = Some ((SEQC_OK, None), ringbuf_clear q, w)"

fun ringbuf_spec :: "'w vtable \<Rightarrow> size_t \<Rightarrow> 'a ringbuf_op \<Rightarrow> 'a list \<Rightarrow> 'a answer \<Rightarrow> 'a list \<Rightarrow> bool" where
  "ringbuf_spec t es (RPushBack x) xs r ys \<longleftrightarrow> may_fail t (growth es (length xs)) xs r ys (xs @ [x])"
| "ringbuf_spec t es (RPushFront x) xs r ys \<longleftrightarrow> may_fail t (growth es (length xs)) xs r ys (x # xs)"
| "ringbuf_spec t es RPopFront xs r ys \<longleftrightarrow>
     (if xs = [] then r = (SEQC_NOT_FOUND, None) \<and> ys = [] else r = (SEQC_OK, Some (hd xs)) \<and> ys = tl xs)"
| "ringbuf_spec t es RPopBack xs r ys \<longleftrightarrow>
     (if xs = [] then r = (SEQC_NOT_FOUND, None) \<and> ys = [] else r = (SEQC_OK, Some (last xs)) \<and> ys = butlast xs)"
| "ringbuf_spec t es (RGet i) xs r ys \<longleftrightarrow>
     ys = xs \<and> r = (if i < length xs then (SEQC_OK, Some (xs ! i)) else (SEQC_NOT_FOUND, None))"
| "ringbuf_spec t es RFront xs r ys \<longleftrightarrow>
     ys = xs \<and> r = (if xs = [] then (SEQC_NOT_FOUND, None) else (SEQC_OK, Some (hd xs)))"
| "ringbuf_spec t es RBack xs r ys \<longleftrightarrow>
     ys = xs \<and> r = (if xs = [] then (SEQC_NOT_FOUND, None) else (SEQC_OK, Some (last xs)))"
| "ringbuf_spec t es RClear xs r ys \<longleftrightarrow> r = (SEQC_OK, None) \<and> ys = []"

context heap_allocator begin

lemma ringbuf_call_pops:
  assumes q: "ringbuf_at t live R w q xs" and p: "p = RPopFront \<or> p = RPopBack"
  shows "\<exists>r q' ys. ringbuf_call p (Some q) w = Some (r, Some q', w) \<and> ringbuf_spec t (rb_elem_size q) p xs r ys \<and>
    ringbuf_at t live R w q' ys \<and> ringbuf_same q q'"
proof (cases "xs = []")
  case True
  with p q ringbuf_pop_empty [of t q True] show ?thesis by (auto simp: ringbuf_at_def ringbuf_same_def)
next
  case False
  from q False have f: "ringbuf_at t live R w q (hd xs # tl xs)" by simp
  from q False have b: "ringbuf_at t live R w q (butlast xs @ [last xs])" by simp
  obtain q1 where "ringbuf_pop_front (Some q) True = Some (SEQC_OK, Some (hd xs), Some q1)" "ringbuf_at t live R w q1 (tl xs)"
    "ringbuf_same q q1"
    using ringbuf_pop_front_Cons [OF f, of True] by (metis (full_types))
  moreover obtain q2 where "ringbuf_pop_back (Some q) True = Some (SEQC_OK, Some (last xs), Some q2)" "ringbuf_at t live R w q2 (butlast xs)"
    "ringbuf_same q q2"
    using ringbuf_pop_back_snoc [OF b, of True] by (metis (full_types))
  ultimately show ?thesis using p False by auto
qed

lemma ringbuf_call_law:
  assumes q: "ringbuf_at t live R w q xs"
  shows "\<exists>r q' w' ys. ringbuf_call p (Some q) w = Some (r, Some q', w') \<and> ringbuf_spec t (rb_elem_size q) p xs r ys \<and>
    ringbuf_at t live R w' q' ys \<and> ringbuf_same q q'"
proof -
  from q have r: "ringbuf_is t q xs" by (simp add: ringbuf_at_def)
  show ?thesis
  proof (cases p)
    case (RPushBack x)
    from q show ?thesis unfolding RPushBack by (cases rule: ringbuf_push_back_at [where x = x]) (auto simp: ringbuf_same_def)
  next
    case (RPushFront x)
    from q show ?thesis unfolding RPushFront by (cases rule: ringbuf_push_front_at [where x = x]) (auto simp: ringbuf_same_def)
  next
    case RPopFront
    with ringbuf_call_pops [OF q] show ?thesis by blast
  next
    case RPopBack
    with ringbuf_call_pops [OF q] show ?thesis by blast
  next
    case (RGet i)
    with q ringbuf_get_is [OF r, of i True] show ?thesis by (auto simp: ringbuf_same_def)
  next
    case RFront
    with q ringbuf_front_is [OF r, of True] show ?thesis by (auto simp: ringbuf_same_def)
  next
    case RBack
    with q ringbuf_back_is [OF r, of True] show ?thesis by (auto simp: ringbuf_same_def)
  next
    case RClear
    from q obtain q' where "ringbuf_clear (Some q) = Some q'" "ringbuf_at t live R w q' []" "ringbuf_same q q'" by (rule ringbuf_clear_at)
    with RClear show ?thesis by auto
  qed
qed

lemma ringbuf_lifetime_laws:
  assumes "elem_size_ok es"
  shows "lifetime_laws t live (ringbuf_create es (Some t)) (on_handle ringbuf_call) (\<lambda>q. ringbuf_destroy (Some q))
    (ringbuf_spec t es) [] (\<lambda>_. True) (sized rb_elem_size es (ringbuf_at t live))"
proof unfold_locales
  fix w
  show "\<exists>c w'. ringbuf_create es (Some t) w = Some (c, w') \<and>
      (case c of None \<Rightarrow> live w' = live w \<and> starved (Some t) | Some c \<Rightarrow> sized rb_elem_size es (ringbuf_at t live) (live w) w' c ([] :: 'e list))"
    by (cases rule: ringbuf_create_at [OF assms refl, of w, where 'e = 'e]) (auto simp: sized_def)
next
  fix R w and p :: "'e ringbuf_op" and q :: "('e, 'w) ringbuf_t" and xs
  assume "sized rb_elem_size es (ringbuf_at t live) R w q xs"
  then show "\<exists>r q' w' ys. on_handle ringbuf_call p q w = Some (r, q', w') \<and> ringbuf_spec t es p xs r ys \<and>
      sized rb_elem_size es (ringbuf_at t live) R w' q' ys"
    using ringbuf_call_law [of R w q xs p] by (fastforce simp: sized_def ringbuf_same_def intro: on_handleI)
next
  fix R w and q :: "('e, 'w) ringbuf_t" and xs
  assume "sized rb_elem_size es (ringbuf_at t live) R w q xs"
  then have "ringbuf_at t live R w q xs" by (rule sizedD)
  then show "\<exists>w'. ringbuf_destroy (Some q) w = Some w' \<and> live w' = R" by (rule ringbuf_destroy_at) blast
qed

end

interpretation sys_ringbuf_life: lifetime_laws sys_allocator hp_live "ringbuf_create 4 (Some sys_allocator)"
  "on_handle ringbuf_call" "\<lambda>q. ringbuf_destroy (Some q)" "ringbuf_spec sys_allocator 4" "[]" "\<lambda>_. True"
  "sized rb_elem_size 4 (ringbuf_at sys_allocator hp_live)"
  by (rule sys.ringbuf_lifetime_laws) (simp add: elem_size_ok_def)

subsection \<open>\<open>pqueue_t\<close>\<close>

text \<open>
  A queue whose vector could not be allocated is handed out all the same: it stays empty and
  answers every push with \<open>SEQC_INVALID\<close>.
\<close>

datatype 'a pqueue_op = PPush 'a | PPop | PPeek | PClear

fun pqueue_call ::
  "'a pqueue_op \<Rightarrow> ('a, 'w) pqueue_t option \<Rightarrow> 'w \<Rightarrow> ('a answer \<times> ('a, 'w) pqueue_t option \<times> 'w) option" where
  "pqueue_call (PPush x) q w = do { (st, q, w) \<leftarrow> pqueue_push q (Some x) w; Some ((st, None), q, w) }"
| "pqueue_call PPop q w = do { (st, x, q) \<leftarrow> pqueue_pop q True; Some ((st, x), q, w) }"
| "pqueue_call PPeek q w = do { r \<leftarrow> pqueue_peek q True; Some (r, q, w) }"
| "pqueue_call PClear q w = Some ((SEQC_OK, None), pqueue_clear q, w)"

definition least_of :: "'a compare_fn \<Rightarrow> 'a multiset \<Rightarrow> 'a \<Rightarrow> bool" where
  "least_of cmp M x \<longleftrightarrow> x \<in># M \<and> (\<forall>y \<in># M. cmp x y \<le> 0)"

fun pqueue_spec :: "'w vtable \<Rightarrow> size_t \<Rightarrow> 'a compare_fn \<Rightarrow> 'a pqueue_op \<Rightarrow> 'a multiset \<Rightarrow> 'a answer \<Rightarrow> 'a multiset \<Rightarrow> bool" where
  "pqueue_spec t es cmp (PPush x) M r N \<longleftrightarrow>
     may_fail t (growth es (size M)) M r N (add_mset x M) \<or>
     r = (SEQC_INVALID, None) \<and> M = {#} \<and> N = {#} \<and> starved (Some t)"
| "pqueue_spec t es cmp PPop M r N \<longleftrightarrow>
     (if M = {#} then r = (SEQC_NOT_FOUND, None) \<and> N = {#}
      else \<exists>x. least_of cmp M x \<and> r = (SEQC_OK, Some x) \<and> N = M - {#x#})"
| "pqueue_spec t es cmp PPeek M r N \<longleftrightarrow> N = M \<and>
     (if M = {#} then r = (SEQC_NOT_FOUND, None) else \<exists>x. least_of cmp M x \<and> r = (SEQC_OK, Some x))"
| "pqueue_spec t es cmp PClear M r N \<longleftrightarrow> r = (SEQC_OK, None) \<and> N = {#}"

definition pqueue_alive ::
  "'w vtable \<Rightarrow> ('w \<Rightarrow> addr \<rightharpoonup> size_t) \<Rightarrow> 'a compare_fn \<Rightarrow> size_t \<Rightarrow> (addr \<rightharpoonup> size_t) \<Rightarrow> 'w \<Rightarrow> ('a, 'w) pqueue_t \<Rightarrow> 'a multiset \<Rightarrow> bool" where
  "pqueue_alive t live cmp es R w q M \<longleftrightarrow> pq_cmp q = cmp \<and>
     ((\<exists>xs. pqueue_at t live R w q xs \<and> mset xs = M) \<and> pqueue_elem_size q = es \<or>
      M = {#} \<and> starved (Some t) \<and> pq_data q = None \<and> pq_alloc q = Some t \<and> owns (live w) R (pqueue_blocks q))"

lemma pqueue_heap_least:
  assumes "pqueue_at t live R w q (x # xs)"
  shows "least_of (pq_cmp q) (mset (x # xs)) x"
  unfolding least_of_def
proof (intro conjI ballI)
  fix y assume "y \<in># mset (x # xs)"
  then obtain k where "k < length (x # xs)" "(x # xs) ! k = y" by (metis in_set_conv_nth set_mset_mset)
  with compare_order.heap_root [of "pq_cmp q" "x # xs" k] assms show "pq_cmp q x y \<le> 0"
    by (auto simp: pqueue_at_def pq_ordered_def)
qed simp

context heap_allocator begin

lemma pqueue_call_law:
  assumes q: "pqueue_at t live R w q xs"
  shows "\<exists>r q' w' ys. pqueue_call p (Some q) w = Some (r, Some q', w') \<and>
    pqueue_spec t (pqueue_elem_size q) (pq_cmp q) p (mset xs) r (mset ys) \<and> pqueue_at t live R w' q' ys \<and> pqueue_same q q'"
proof (cases p)
  case (PPush x)
  from q show ?thesis
  proof (cases rule: pqueue_push_at [where x = x])
    case (ok q' ys w')
    then show ?thesis by (intro exI [of _ "(SEQC_OK, None)"] exI [of _ q'] exI [of _ w'] exI [of _ ys])
      (simp add: pqueue_same_def PPush)
  next
    case (oom w')
    then show ?thesis
      by (intro exI [of _ "(SEQC_OOM, None)"] exI [of _ q] exI [of _ w'] exI [of _ xs]) (simp add: PPush)
  qed
next
  case PPop
  show ?thesis
  proof (cases xs)
    case Nil
    with q PPop pqueue_pop_empty [of t q True] show ?thesis by (auto simp: pqueue_at_def pqueue_holds_def)
  next
    case (Cons x us)
    with q have c: "pqueue_at t live R w q (x # us)" by simp
    then obtain q' ys where "pqueue_pop (Some q) True = Some (SEQC_OK, Some x, Some q')"
      "pqueue_at t live R w q' ys" "mset ys = mset us" "pqueue_same q q'"
      using pqueue_pop_at [OF c, of True] by (metis (full_types))
    with PPop Cons pqueue_heap_least [OF c] show ?thesis
      by (intro exI [of _ "(SEQC_OK, Some x)"] exI [of _ q'] exI [of _ w] exI [of _ ys]) (simp add: pqueue_same_def)
  qed
next
  case PPeek
  from q have "pqueue_is t q xs" by (simp add: pqueue_at_def pqueue_holds_def)
  from pqueue_peek_is [OF this, of True] PPeek q show ?thesis
    using pqueue_heap_least [of t live R w q "hd xs" "tl xs"]
    by (intro exI [of _ "if xs = [] then (SEQC_NOT_FOUND, None) else (SEQC_OK, Some (hd xs))"]
        exI [of _ q] exI [of _ w] exI [of _ xs]) (cases xs; simp)
next
  case PClear
  from q obtain q' where "pqueue_clear (Some q) = Some q'" "pqueue_at t live R w q' []" "pqueue_same q q'"
    by (rule pqueue_clear_at)
  with PClear show ?thesis
    by (intro exI [of _ "(SEQC_OK, None)"] exI [of _ q'] exI [of _ w] exI [of _ "[]"]) (simp add: pqueue_same_def)
qed

lemma pqueue_call_hollow:
  assumes q: "pq_data q = None" and "starved (Some t)"
  shows "\<exists>r. pqueue_call p (Some q) w = Some (r, Some q, w) \<and> pqueue_spec t es cmp p {#} r {#}"
proof -
  have "q\<lparr>pq_data := None\<rparr> = q" using q by (cases q) simp
  then show ?thesis using assms hollow_inert [OF q]
    by (cases p) (simp_all add: pqueue_pop_def pqueue_peek_def pqueue_peek_ptr_def pqueue_clear_def
        vec_len_def vec_get_ptr_def vec_clear_def)
qed

lemma pqueue_destroy_hollow:
  assumes "pq_data q = None" and "pq_alloc q = Some t" and "owns (live w) R (pqueue_blocks q)"
  shows "\<exists>w'. pqueue_destroy (Some q) w = Some w' \<and> live w' = R"
proof -
  have o: "owns (live w) R [pq_self q \<mapsto> sizeof_pqueue_t]" using assms(1,3) by (simp add: pqueue_blocks_def)
  obtain w' where "mem_free (Some t) (Some (pq_self q)) sizeof_pqueue_t w = Some w'"
    "owns (live w') R ([pq_self q \<mapsto> sizeof_pqueue_t](pq_self q := None))"
    by (rule owns_mem_free [OF o, of "pq_self q" sizeof_pqueue_t]) simp_all
  with assms(1,2) show ?thesis by (simp add: pqueue_destroy_def vec_destroy_def del: mem_free.simps)
qed

lemma pqueue_lifetime_laws:
  fixes cmp :: "'e compare_fn"
  assumes "elem_size_ok es" and c: "compare_order cmp"
  shows "lifetime_laws t live (pqueue_create es cmp (Some t)) (on_handle pqueue_call) (\<lambda>q. pqueue_destroy (Some q))
    (pqueue_spec t es cmp) {#} (\<lambda>_. True) (pqueue_alive t live cmp es)"
proof unfold_locales
  fix w
  show "\<exists>c w'. pqueue_create es cmp (Some t) w = Some (c, w') \<and>
      (case c of None \<Rightarrow> live w' = live w \<and> starved (Some t) | Some c \<Rightarrow> pqueue_alive t live cmp es (live w) w' c {#})"
    by (cases rule: pqueue_create_holds [OF assms(1) refl, of cmp w])
      (use c in \<open>auto simp: pqueue_alive_def pqueue_at_def pq_ordered_def heap_def heap_from_def\<close>)
next
  fix R w and p :: "'e pqueue_op" and q :: "('e, 'w) pqueue_t" and M
  assume "pqueue_alive t live cmp es R w q M"
  then show "\<exists>r q' w' N. on_handle pqueue_call p q w = Some (r, q', w') \<and> pqueue_spec t es cmp p M r N \<and>
      pqueue_alive t live cmp es R w' q' N"
    unfolding pqueue_alive_def using pqueue_call_law [of R w q _ p] pqueue_call_hollow [of q p w es cmp]
    unfolding pqueue_same_def by (metis on_handleI)
next
  fix R w and q :: "('e, 'w) pqueue_t" and M
  assume "pqueue_alive t live cmp es R w q M"
  then show "\<exists>w'. pqueue_destroy (Some q) w = Some w' \<and> live w' = R"
    using pqueue_destroy_hollow [of q w R] pqueue_destroy_at [of R w q]
    unfolding pqueue_alive_def pqueue_at_def by metis
qed

end

interpretation sys_pqueue_life: lifetime_laws sys_allocator hp_live "pqueue_create 4 int_cmp (Some sys_allocator)"
  "on_handle pqueue_call" "\<lambda>q. pqueue_destroy (Some q)" "pqueue_spec sys_allocator 4 int_cmp" "{#}" "\<lambda>_. True"
  "pqueue_alive sys_allocator hp_live int_cmp 4"
  by (rule sys.pqueue_lifetime_laws) (simp_all add: elem_size_ok_def int_cmp.compare_order_axioms)

end
