(* ===== verification/Seqc_Nodes.thy ===== *)
theory Seqc_Nodes
  imports Seqc_Collection
begin

section \<open>Linked nodes in memory\<close>

text \<open>
  What \<open>list_t\<close> and \<open>dlist_t\<close> have in common: nodes that the allocator placed at addresses, a
  map from addresses to node records, and chains through a link field \<open>nx\<close>. Following a link
  into an address that is not in the map is an access to freed memory and has no result.
\<close>

definition SEQC_MAX_ALIGN :: size_t where
  "SEQC_MAX_ALIGN = 16"

text \<open>The offset of the element behind a header of \<open>h\<close> bytes: \<open>h\<close> rounded up to the alignment.\<close>

definition data_offset :: "size_t \<Rightarrow> size_t" where
  "data_offset h = (h + SEQC_MAX_ALIGN - 1) div SEQC_MAX_ALIGN * SEQC_MAX_ALIGN"

lemma data_offset_le: "data_offset h \<le> h + 15"
  using div_times_less_eq_dividend [of "h + 15" 16] by (simp add: data_offset_def SEQC_MAX_ALIGN_def)

lemma refuses_node: "refuses t (wadd (data_offset h) es) \<Longrightarrow> h \<le> 240 \<Longrightarrow> refuses t (growth es n)"
  by (erule refuses_growth) (use wadd_le [of "data_offset h" es] data_offset_le [of h] in \<open>simp add: add_mult_distrib\<close>)

lemma refuses_tree_node: "refuses t (wadd (data_offset h) es) \<Longrightarrow> h \<le> 240 \<Longrightarrow> refuses t (es + 256)"
  by (erule refuses_mono) (use wadd_le [of "data_offset h" es] data_offset_le [of h] in simp)

primrec chain :: "('n \<Rightarrow> addr option) \<Rightarrow> (addr \<rightharpoonup> 'n) \<Rightarrow> addr option \<Rightarrow> addr list \<Rightarrow> addr option \<Rightarrow> bool" where
  "chain nx N p [] q \<longleftrightarrow> p = q"
| "chain nx N p (a # as) q \<longleftrightarrow> p = Some a \<and> (\<exists>n. N a = Some n \<and> chain nx N (nx n) as q)"

definition data_are :: "('n \<Rightarrow> 'a) \<Rightarrow> (addr \<rightharpoonup> 'n) \<Rightarrow> addr list \<Rightarrow> 'a list \<Rightarrow> bool" where
  "data_are dat N as xs \<longleftrightarrow> list_all2 (\<lambda>a x. \<exists>n. N a = Some n \<and> dat n = x) as xs"

definition last_addr :: "addr list \<Rightarrow> addr option" where
  "last_addr as = (if as = [] then None else Some (last as))"

lemma last_addr_simps [simp]: "last_addr [] = None" "last_addr (as @ [a]) = Some a" "last_addr (as @ [b, a]) = Some a"
  by (simp_all add: last_addr_def)

lemma last_addr_Cons: "last_addr (a # as) = (if as = [] then Some a else last_addr as)"
  by (simp add: last_addr_def)

lemma chain_append: "chain nx N p (as @ bs) q \<longleftrightarrow> (\<exists>r. chain nx N p as r \<and> chain nx N r bs q)"
  by (induction as arbitrary: p) auto

lemma chain_dom: "chain nx N p as q \<Longrightarrow> set as \<subseteq> dom N"
  by (induction as arbitrary: p) auto

lemma chain_upd: "a \<notin> set as \<Longrightarrow> chain nx (N(a := x)) p as q \<longleftrightarrow> chain nx N p as q"
  by (induction as arbitrary: p) auto

text \<open>Changing a node in a way that keeps its link, or its data.\<close>

lemma chain_upd_same: "N a = Some n \<Longrightarrow> nx n' = nx n \<Longrightarrow> chain nx (N(a \<mapsto> n')) p as q \<longleftrightarrow> chain nx N p as q"
  by (induction as arbitrary: p) (auto simp: fun_upd_apply)

lemma data_are_upd: "a \<notin> set as \<Longrightarrow> data_are dat (N(a := x)) as xs \<longleftrightarrow> data_are dat N as xs"
  unfolding data_are_def by (intro list.rel_cong) (auto simp: fun_upd_apply)

lemma data_are_upd_same:
  "N a = Some n \<Longrightarrow> dat n' = dat n \<Longrightarrow> data_are dat (N(a \<mapsto> n')) as xs \<longleftrightarrow> data_are dat N as xs"
  unfolding data_are_def by (intro list.rel_cong) (auto simp: fun_upd_apply)

lemma data_are_Nil [simp]: "data_are dat N [] xs \<longleftrightarrow> xs = []"
  by (simp add: data_are_def)

lemma data_are_Cons: "data_are dat N (a # as) (x # xs) \<longleftrightarrow> (\<exists>n. N a = Some n \<and> dat n = x) \<and> data_are dat N as xs"
  by (simp add: data_are_def)

lemma data_are_snoc:
  "data_are dat N (as @ [a]) (xs @ [x]) \<longleftrightarrow> data_are dat N as xs \<and> (\<exists>n. N a = Some n \<and> dat n = x)"
proof (cases "length as = length xs")
  case True
  then show ?thesis by (simp add: data_are_def list_all2_append)
next
  case False
  then show ?thesis by (auto simp: data_are_def dest: list_all2_lengthD)
qed

lemma data_are_length: "data_are dat N as xs \<Longrightarrow> length as = length xs"
  by (simp add: data_are_def list_all2_lengthD)

lemma data_are_ConsE:
  assumes "data_are dat N as (x # xs)"
  obtains a as' n where "as = a # as'" and "N a = Some n" and "dat n = x" and "data_are dat N as' xs"
  using assms unfolding data_are_def by (auto simp: list_all2_Cons2)

lemma data_are_snocE:
  assumes "data_are dat N as (xs @ [x])"
  obtains as' a n where "as = as' @ [a]" and "N a = Some n" and "dat n = x" and "data_are dat N as' xs"
proof -
  from data_are_length [OF assms] have "as \<noteq> []" by auto
  then obtain as' a where as: "as = as' @ [a]" by (metis rev_exhaust)
  from assms [unfolded as data_are_snoc] that as show ?thesis by blast
qed

subsection \<open>Blocks\<close>

definition node_blocks :: "size_t \<Rightarrow> (addr \<rightharpoonup> 'n) \<Rightarrow> (addr \<rightharpoonup> size_t)" where
  "node_blocks k N = (\<lambda>a. map_option (\<lambda>_. k) (N a))"

lemma dom_node_blocks [simp]: "dom (node_blocks k N) = dom N"
  by (auto simp: node_blocks_def)

lemma node_blocks_empty [simp]: "node_blocks k Map.empty = Map.empty"
  by (simp add: node_blocks_def)

lemma node_blocks_new: "node_blocks k (N(a \<mapsto> n)) = (node_blocks k N)(a \<mapsto> k)"
  by (auto simp: node_blocks_def fun_upd_apply)

lemma node_blocks_drop: "node_blocks k (N(a := None)) = (node_blocks k N)(a := None)"
  by (auto simp: node_blocks_def fun_upd_apply)

lemma node_blocks_keep: "N a = Some n \<Longrightarrow> node_blocks k (N(a \<mapsto> n')) = node_blocks k N"
  by (auto simp: node_blocks_def fun_upd_apply fun_eq_iff)

lemma node_blocks_cong:
  assumes "dom M = dom N"
  shows "node_blocks k M = node_blocks k N"
proof
  fix a
  from assms have "M a = None \<longleftrightarrow> N a = None" by (metis domIff)
  then show "node_blocks k M a = node_blocks k N a"
    by (cases "M a"; cases "N a") (simp_all add: node_blocks_def)
qed

lemma node_blocks_at: "N a = Some n \<Longrightarrow> node_blocks k N a = Some k"
  by (simp add: node_blocks_def)

text \<open>The loop of \<open>list_clear\<close> and \<open>dlist_clear\<close>: free each node after reading its link.\<close>

partial_function (option) free_chain ::
  "'w allocator_t \<Rightarrow> size_t \<Rightarrow> ('n \<Rightarrow> addr option) \<Rightarrow> (addr \<rightharpoonup> 'n) \<Rightarrow> addr option \<Rightarrow> 'w \<Rightarrow> ((addr \<rightharpoonup> 'n) \<times> 'w) option" where
  "free_chain al k nx N cur w =
     (case cur of
        None \<Rightarrow> Some (N, w)
      | Some a \<Rightarrow> do {
          n \<leftarrow> N a;
          w \<leftarrow> mem_free al (Some a) k w;
          free_chain al k nx (N(a := None)) (nx n) w
        })"

context heap_allocator begin

lemma free_chain_at:
  assumes "chain nx N p as None" and "distinct as" and "dom N = set as" and "owns (live w) F (node_blocks k N)"
  shows "\<exists>w'. free_chain (Some t) k nx N p w = Some (Map.empty, w') \<and> live w' = F"
  using assms
proof (induction as arbitrary: N p w)
  case Nil
  then show ?case by (simp add: free_chain.simps)
next
  case (Cons a as)
  from Cons.prems(1) obtain n where p: "p = Some a" "N a = Some n" "chain nx N (nx n) as None" by auto
  obtain w1 where w1: "mem_free (Some t) (Some a) k w = Some w1"
      "owns (live w1) F ((node_blocks k N)(a := None))"
    by (rule owns_mem_free [OF Cons.prems(4) node_blocks_at [of N a n k, OF p(2)]])
  have "\<exists>w'. free_chain (Some t) k nx (N(a := None)) (nx n) w1 = Some (Map.empty, w') \<and> live w' = F"
    by (rule Cons.IH) (use Cons.prems p(3) w1(2) in \<open>auto simp: chain_upd node_blocks_drop\<close>)
  then show ?case using p w1(1) by (simp add: free_chain.simps [of _ _ _ N] del: mem_free.simps)
qed

text \<open>Allocating and releasing one node.\<close>

lemma node_alloc:
  assumes "owns (live w) F (node_blocks k N)"
  obtains (granted) a w' where "mem_alloc (Some t) k w = Some (Some a, w')" and "a \<notin> dom N" and "a \<notin> dom F"
      and "\<And>n. owns (live w') F (node_blocks k (N(a \<mapsto> n)))"
  | (refused) w' where "mem_alloc (Some t) k w = Some (None, w')" and "owns (live w') F (node_blocks k N)"
      and "refuses t k"
proof -
  obtain p w' where m: "mem_alloc (Some t) k w = Some (p, w')" by (cases "vt_alloc t k w") simp
  show ?thesis
  proof (cases p)
    case None
    with m have "refuses t k" by (intro refuses_alloc [of t k w w']) simp_all
    with m None owns_mem_alloc_refused [OF assms, of k w'] refused [of w'] show ?thesis by simp
  next
    case (Some a)
    with m have m': "mem_alloc (Some t) k w = Some (Some a, w')" by simp
    note g = owns_mem_alloc [OF assms m']
    have "a \<notin> dom F" using g(1) by (auto simp: owns_def)
    then show ?thesis using granted [OF m'] g(1,2) by (simp add: node_blocks_new)
  qed
qed

lemma node_free:
  assumes "owns (live w) F (node_blocks k N)" and "N a = Some n"
  obtains w' where "mem_free (Some t) (Some a) k w = Some w'" and "owns (live w') F (node_blocks k (N(a := None)))"
  using owns_mem_free [OF assms(1) node_blocks_at [of N a n k, OF assms(2)]] that by (metis node_blocks_drop)

end

end
