(* ===== verification/Seqc_List.thy ===== *)
theory Seqc_List
  imports Seqc_Nodes Seqc_Lifetime
begin

section \<open>The singly linked list\<close>

text \<open>
  \<open>src/list/list.c\<close>. The nodes of a list, wherever the allocator placed them, are the map
  \<open>l_nodes\<close>; \<open>head\<close>, \<open>tail\<close> and the links are addresses.
\<close>

record 'a list_node_t =
  ln_next :: "addr option"
  ln_data :: 'a

record ('a, 'w) list_t =
  l_self :: addr
  l_head :: "addr option"
  l_tail :: "addr option"
  l_len :: size_t
  l_elem_size :: size_t
  l_alloc :: "'w allocator_t"
  l_nodes :: "addr \<rightharpoonup> 'a list_node_t"

definition sizeof_list_node_t :: size_t where
  "sizeof_list_node_t = 8"

definition sizeof_list_t :: size_t where
  "sizeof_list_t = 48"

lemma sizeof_list_node_t_small [simp]: "sizeof_list_node_t \<le> 256" "sizeof_list_t \<le> 256"
  by (simp_all add: sizeof_list_node_t_def sizeof_list_t_def)

subsection \<open>Operations\<close>

definition list_node_alloc_size :: "size_t \<Rightarrow> size_t" where
  "list_node_alloc_size es = wadd (data_offset sizeof_list_node_t) es"

definition list_make_node ::
  "('a, 'w) list_t \<Rightarrow> 'a \<Rightarrow> 'w \<Rightarrow> (addr option \<times> ('a, 'w) list_t \<times> 'w) option" where
  "list_make_node l x w = do {
     (p, w) \<leftarrow> mem_alloc (l_alloc l) (list_node_alloc_size (l_elem_size l)) w;
     case p of
       None \<Rightarrow> Some (None, l, w)
     | Some a \<Rightarrow> Some (Some a, l\<lparr>l_nodes := (l_nodes l)(a \<mapsto> \<lparr>ln_next = None, ln_data = x\<rparr>)\<rparr>, w)
   }"

definition set_next :: "('a, 'w) list_t \<Rightarrow> addr \<Rightarrow> addr option \<Rightarrow> ('a, 'w) list_t option" where
  "set_next l a p = do {
     n \<leftarrow> l_nodes l a;
     Some (l\<lparr>l_nodes := (l_nodes l)(a \<mapsto> n\<lparr>ln_next := p\<rparr>)\<rparr>)
   }"

definition list_create :: "size_t \<Rightarrow> 'w allocator_t \<Rightarrow> 'w \<Rightarrow> (('a, 'w) list_t option \<times> 'w) option" where
  "list_create es al w = do {
     (p, w) \<leftarrow> mem_alloc al sizeof_list_t w;
     case p of
       None \<Rightarrow> Some (None, w)
     | Some a \<Rightarrow> Some (Some \<lparr>l_self = a, l_head = None, l_tail = None, l_len = 0,
         l_elem_size = es, l_alloc = al, l_nodes = Map.empty\<rparr>, w)
   }"

definition list_push_front ::
  "('a, 'w) list_t option \<Rightarrow> 'a option \<Rightarrow> 'w \<Rightarrow> (seqc_status_t \<times> ('a, 'w) list_t option \<times> 'w) option" where
  "list_push_front l elem w =
     (case (l, elem) of
        (Some u, Some x) \<Rightarrow> do {
          (node, u, w) \<leftarrow> list_make_node u x w;
          case node of
            None \<Rightarrow> Some (SEQC_OOM, Some u, w)
          | Some a \<Rightarrow> do {
              u \<leftarrow> set_next u a (l_head u);
              let u = u\<lparr>l_head := Some a\<rparr>;
              let u = (if l_tail u = None then u\<lparr>l_tail := Some a\<rparr> else u);
              Some (SEQC_OK, Some (u\<lparr>l_len := Suc (l_len u)\<rparr>), w)
            }
        }
      | _ \<Rightarrow> Some (SEQC_INVALID, l, w))"

definition list_push_back ::
  "('a, 'w) list_t option \<Rightarrow> 'a option \<Rightarrow> 'w \<Rightarrow> (seqc_status_t \<times> ('a, 'w) list_t option \<times> 'w) option" where
  "list_push_back l elem w =
     (case (l, elem) of
        (Some u, Some x) \<Rightarrow> do {
          (node, u, w) \<leftarrow> list_make_node u x w;
          case node of
            None \<Rightarrow> Some (SEQC_OOM, Some u, w)
          | Some a \<Rightarrow> do {
              u \<leftarrow> (case l_tail u of
                      Some b \<Rightarrow> set_next u b (Some a)
                    | None \<Rightarrow> Some (u\<lparr>l_head := Some a\<rparr>));
              Some (SEQC_OK, Some (u\<lparr>l_tail := Some a, l_len := Suc (l_len u)\<rparr>), w)
            }
        }
      | _ \<Rightarrow> Some (SEQC_INVALID, l, w))"

definition list_node_data :: "('a, 'w) list_t \<Rightarrow> addr \<Rightarrow> 'a option" where
  "list_node_data l a = map_option ln_data (l_nodes l a)"

definition list_free_node :: "('a, 'w) list_t \<Rightarrow> addr \<Rightarrow> 'w \<Rightarrow> (('a, 'w) list_t \<times> 'w) option" where
  "list_free_node l a w = do {
     w \<leftarrow> mem_free (l_alloc l) (Some a) (list_node_alloc_size (l_elem_size l)) w;
     Some (l\<lparr>l_nodes := (l_nodes l)(a := None)\<rparr>, w)
   }"

definition list_pop_front ::
  "('a, 'w) list_t option \<Rightarrow> bool \<Rightarrow> 'w \<Rightarrow> (seqc_status_t \<times> 'a option \<times> ('a, 'w) list_t option \<times> 'w) option" where
  "list_pop_front l out w =
     (case l of
        None \<Rightarrow> Some (SEQC_NOT_FOUND, None, None, w)
      | Some u \<Rightarrow>
          (case l_head u of
             None \<Rightarrow> Some (SEQC_NOT_FOUND, None, l, w)
           | Some a \<Rightarrow> do {
               x \<leftarrow> (if out then map_option Some (list_node_data u a) else Some None);
               n \<leftarrow> l_nodes u a;
               let u = u\<lparr>l_head := ln_next n\<rparr>;
               let u = (if l_head u = None then u\<lparr>l_tail := None\<rparr> else u);
               (u, w) \<leftarrow> list_free_node u a w;
               Some (SEQC_OK, x, Some (u\<lparr>l_len := l_len u - 1\<rparr>), w)
             }))"

text \<open>The walk to the second-to-last node.\<close>

partial_function (option) list_find_prev ::
  "(addr \<rightharpoonup> 'a list_node_t) \<Rightarrow> addr option \<Rightarrow> addr \<Rightarrow> addr option" where
  "list_find_prev N tail prev = do {
     n \<leftarrow> N prev;
     if ln_next n = tail then Some prev
     else do { p \<leftarrow> ln_next n; list_find_prev N tail p }
   }"

definition list_pop_back ::
  "('a, 'w) list_t option \<Rightarrow> bool \<Rightarrow> 'w \<Rightarrow> (seqc_status_t \<times> 'a option \<times> ('a, 'w) list_t option \<times> 'w) option" where
  "list_pop_back l out w =
     (case l of
        None \<Rightarrow> Some (SEQC_NOT_FOUND, None, None, w)
      | Some u \<Rightarrow>
          (case l_head u of
             None \<Rightarrow> Some (SEQC_NOT_FOUND, None, l, w)
           | Some h \<Rightarrow>
               if l_head u = l_tail u then list_pop_front l out w
               else do {
                 prev \<leftarrow> list_find_prev (l_nodes u) (l_tail u) h;
                 tail \<leftarrow> l_tail u;
                 x \<leftarrow> (if out then map_option Some (list_node_data u tail) else Some None);
                 (u, w) \<leftarrow> list_free_node u tail w;
                 u \<leftarrow> set_next u prev None;
                 Some (SEQC_OK, x, Some (u\<lparr>l_tail := Some prev, l_len := l_len u - 1\<rparr>), w)
               }))"

definition list_front_ptr :: "('a, 'w) list_t option \<Rightarrow> addr option" where
  "list_front_ptr l = do { u \<leftarrow> l; l_head u }"

definition list_back_ptr :: "('a, 'w) list_t option \<Rightarrow> addr option" where
  "list_back_ptr l = do { u \<leftarrow> l; l_tail u }"

definition list_is_empty :: "('a, 'w) list_t option \<Rightarrow> bool" where
  "list_is_empty l = (case l of None \<Rightarrow> True | Some u \<Rightarrow> l_len u = 0)"

definition list_len :: "('a, 'w) list_t option \<Rightarrow> size_t" where
  "list_len l = (case l of None \<Rightarrow> 0 | Some u \<Rightarrow> l_len u)"

definition list_clear :: "('a, 'w) list_t option \<Rightarrow> 'w \<Rightarrow> (('a, 'w) list_t option \<times> 'w) option" where
  "list_clear l w =
     (case l of
        None \<Rightarrow> Some (None, w)
      | Some u \<Rightarrow> do {
          (N, w) \<leftarrow> free_chain (l_alloc u) (list_node_alloc_size (l_elem_size u)) ln_next (l_nodes u) (l_head u) w;
          Some (Some (u\<lparr>l_nodes := N, l_head := None, l_tail := None, l_len := 0\<rparr>), w)
        })"

definition list_destroy :: "('a, 'w) list_t option \<Rightarrow> 'w \<Rightarrow> 'w option" where
  "list_destroy l w =
     (case l of
        None \<Rightarrow> Some w
      | Some u \<Rightarrow> do {
          (l, w) \<leftarrow> list_clear l w;
          mem_free (l_alloc u) (Some (l_self u)) sizeof_list_t w
        })"

definition list_front :: "('a, 'w) list_t option \<Rightarrow> bool \<Rightarrow> (seqc_status_t \<times> 'a option) option" where
  "list_front l out =
     (case l of
        None \<Rightarrow> Some (SEQC_INVALID, None)
      | Some u \<Rightarrow> seqc_copy_out (map_option (list_node_data u) (list_front_ptr l)) out)"

definition list_back :: "('a, 'w) list_t option \<Rightarrow> bool \<Rightarrow> (seqc_status_t \<times> 'a option) option" where
  "list_back l out =
     (case l of
        None \<Rightarrow> Some (SEQC_INVALID, None)
      | Some u \<Rightarrow> seqc_copy_out (map_option (list_node_data u) (list_back_ptr l)) out)"

definition list_extend ::
  "('a, 'w) list_t option \<Rightarrow> ('a, 's, 'w) iter_t \<Rightarrow> 'w \<Rightarrow> (seqc_status_t \<times> ('a, 'w) list_t option \<times> 'w) option" where
  "list_extend l it w =
     (case l of
        None \<Rightarrow> do { w \<leftarrow> iter_destroy it w; Some (SEQC_INVALID, None, w) }
      | Some u \<Rightarrow> seqc_extend l list_push_back (l_elem_size u) (l_alloc u) it w)"

subsection \<open>The iterator\<close>

text \<open>The state holds the nodes as they were when the iterator was made: the list must not change.\<close>

record 'a list_iter_state_t =
  li_self :: addr
  li_current :: "addr option"
  li_elem_size :: size_t
  li_nodes :: "addr \<rightharpoonup> 'a list_node_t"

definition sizeof_list_iter_state_t :: size_t where
  "sizeof_list_iter_state_t = 16"

lemma sizeof_list_iter_state_t_small [simp]: "sizeof_list_iter_state_t \<le> 256"
  by (simp add: sizeof_list_iter_state_t_def)

definition list_iter_next :: "'a list_iter_state_t \<Rightarrow> 'w \<Rightarrow> ('a option \<times> 'a list_iter_state_t \<times> 'w) option" where
  "list_iter_next s w =
     (case li_current s of
        None \<Rightarrow> Some (None, s, w)
      | Some a \<Rightarrow> do {
          n \<leftarrow> li_nodes s a;
          Some (Some (ln_data n), s\<lparr>li_current := ln_next n\<rparr>, w)
        })"

definition list_iter_drop :: "'w allocator_t \<Rightarrow> 'a list_iter_state_t \<Rightarrow> 'w \<Rightarrow> 'w option" where
  "list_iter_drop al s w = mem_free al (Some (li_self s)) sizeof_list_iter_state_t w"

definition list_iter ::
  "('a, 'w) list_t option \<Rightarrow> 'w \<Rightarrow> (('a, 'a list_iter_state_t, 'w) iter_t \<times> 'w) option" where
  "list_iter l w =
     (case l of
        None \<Rightarrow> Some (iter_zero, w)
      | Some u \<Rightarrow> do {
          (p, w) \<leftarrow> mem_alloc (l_alloc u) sizeof_list_iter_state_t w;
          case p of
            None \<Rightarrow> Some (iter_zero, w)
          | Some a \<Rightarrow> Some (iter_make list_iter_next (list_iter_drop (l_alloc u))
              \<lparr>li_self = a, li_current = l_head u, li_elem_size = l_elem_size u, li_nodes = l_nodes u\<rparr>
              (l_elem_size u) (l_alloc u), w)
        })"

subsection \<open>The invariant\<close>

text \<open>\<open>list_nodes_are l as xs\<close>: the nodes are at the addresses \<open>as\<close>, in this order, and hold \<open>xs\<close>.\<close>

definition list_nodes_are :: "('a, 'w) list_t \<Rightarrow> addr list \<Rightarrow> 'a list \<Rightarrow> bool" where
  "list_nodes_are l as xs \<longleftrightarrow>
     distinct as \<and> dom (l_nodes l) = set as \<and> chain ln_next (l_nodes l) (l_head l) as None \<and>
     data_are ln_data (l_nodes l) as xs \<and> l_tail l = last_addr as \<and> l_len l = length as"

definition list_is :: "'w vtable \<Rightarrow> ('a, 'w) list_t \<Rightarrow> 'a list \<Rightarrow> bool" where
  "list_is t l xs \<longleftrightarrow>
     l_alloc l = Some t \<and> elem_size_ok (l_elem_size l) \<and> l_self l \<notin> dom (l_nodes l) \<and>
     (\<exists>as. list_nodes_are l as xs)"

definition list_blocks :: "('a, 'w) list_t \<Rightarrow> (addr \<rightharpoonup> size_t)" where
  "list_blocks l =
     (node_blocks (list_node_alloc_size (l_elem_size l)) (l_nodes l))(l_self l \<mapsto> sizeof_list_t)"

definition list_at ::
  "'w vtable \<Rightarrow> ('w \<Rightarrow> addr \<rightharpoonup> size_t) \<Rightarrow> (addr \<rightharpoonup> size_t) \<Rightarrow> 'w \<Rightarrow> ('a, 'w) list_t \<Rightarrow> 'a list \<Rightarrow> bool" where
  "list_at t live R w l xs \<longleftrightarrow> list_is t l xs \<and> owns (live w) R (list_blocks l)"

definition list_same :: "('a, 'w) list_t \<Rightarrow> ('a, 'w) list_t \<Rightarrow> bool" where
  "list_same l l' \<longleftrightarrow> l_self l' = l_self l \<and> l_elem_size l' = l_elem_size l \<and> l_alloc l' = l_alloc l"

text \<open>Seen from the nodes, the block of the struct belongs to the surroundings.\<close>

definition list_frame :: "(addr \<rightharpoonup> size_t) \<Rightarrow> ('a, 'w) list_t \<Rightarrow> (addr \<rightharpoonup> size_t)" where
  "list_frame R l = R(l_self l \<mapsto> sizeof_list_t)"

lemma list_atE:
  assumes "list_at t live R w l xs"
  obtains as where "l_alloc l = Some t" and "elem_size_ok (l_elem_size l)" and "l_self l \<notin> dom R"
    and "owns (live w) (list_frame R l) (node_blocks (list_node_alloc_size (l_elem_size l)) (l_nodes l))"
    and "list_nodes_are l as xs"
  using assms owns_wrap_iff [of "l_self l" "node_blocks (list_node_alloc_size (l_elem_size l)) (l_nodes l)"
      "live w" R sizeof_list_t]
  by (auto simp: list_at_def list_is_def list_blocks_def list_frame_def)

lemma list_atI:
  assumes "l_alloc l = Some t" and "elem_size_ok (l_elem_size l)" and "l_self l \<notin> dom R"
    and "owns (live w) (list_frame R l) (node_blocks (list_node_alloc_size (l_elem_size l)) (l_nodes l))"
    and "list_nodes_are l as xs"
  shows "list_at t live R w l xs"
  using assms owns_wrap_iff [of "l_self l" "node_blocks (list_node_alloc_size (l_elem_size l)) (l_nodes l)"
      "live w" R sizeof_list_t]
  by (auto simp: list_at_def list_is_def list_blocks_def list_frame_def)

lemma list_is_len: "list_is t l xs \<Longrightarrow> list_len (Some l) = length xs"
  by (auto simp: list_is_def list_nodes_are_def list_len_def dest: data_are_length)

lemma list_nodes_Nil: "list_nodes_are l as [] \<Longrightarrow> as = [] \<and> l_head l = None \<and> l_tail l = None \<and> l_len l = 0"
  by (auto simp: list_nodes_are_def data_are_def)

lemma list_nodes_ConsE:
  assumes "list_nodes_are l as (x # xs)"
  obtains a as' n where "as = a # as'" and "l_head l = Some a" and "l_nodes l a = Some n" and "ln_data n = x"
    and "chain ln_next (l_nodes l) (ln_next n) as' None" and "data_are ln_data (l_nodes l) as' xs"
    and "l_len l = Suc (length as')"
proof -
  from assms have "data_are ln_data (l_nodes l) as (x # xs)" by (simp add: list_nodes_are_def)
  then obtain a as' n where "as = a # as'" "l_nodes l a = Some n" "ln_data n = x" "data_are ln_data (l_nodes l) as' xs"
    by (rule data_are_ConsE)
  with assms that show ?thesis by (auto simp: list_nodes_are_def)
qed

subsection \<open>Reading\<close>

lemma list_front_is:
  assumes "list_is t l xs"
  shows "list_front (Some l) out =
    Some (if xs = [] then (SEQC_NOT_FOUND, None) else (SEQC_OK, if out then Some (hd xs) else None))"
proof -
  from assms obtain as where as: "list_nodes_are l as xs" by (auto simp: list_is_def)
  show ?thesis
  proof (cases xs)
    case Nil
    with as list_nodes_Nil [of l as] show ?thesis by (simp add: list_front_def list_front_ptr_def)
  next
    case (Cons x ys)
    from as [unfolded Cons] obtain a n where "l_head l = Some a" "l_nodes l a = Some n" "ln_data n = x"
      by (rule list_nodes_ConsE)
    with Cons show ?thesis by (simp add: list_front_def list_front_ptr_def list_node_data_def)
  qed
qed

lemma list_back_is:
  assumes "list_is t l xs"
  shows "list_back (Some l) out =
    Some (if xs = [] then (SEQC_NOT_FOUND, None) else (SEQC_OK, if out then Some (last xs) else None))"
proof -
  from assms obtain as where as: "list_nodes_are l as xs" by (auto simp: list_is_def)
  show ?thesis
  proof (cases xs rule: rev_cases)
    case Nil
    with as list_nodes_Nil [of l as] show ?thesis by (simp add: list_back_def list_back_ptr_def)
  next
    case (snoc ys y)
    from as snoc have "data_are ln_data (l_nodes l) as (ys @ [y])" by (simp add: list_nodes_are_def)
    then obtain as' a n where "as = as' @ [a]" "l_nodes l a = Some n" "ln_data n = y" by (rule data_are_snocE)
    with as snoc show ?thesis
      by (simp add: list_back_def list_back_ptr_def list_node_data_def list_nodes_are_def)
  qed
qed

subsection \<open>Pushing\<close>

lemma list_nodes_push_front:
  assumes "list_nodes_are l as xs" and "a \<notin> dom (l_nodes l)"
    and "l' = l\<lparr>l_nodes := (l_nodes l)(a \<mapsto> \<lparr>ln_next = l_head l, ln_data = x\<rparr>), l_head := Some a,
          l_tail := (if l_tail l = None then Some a else l_tail l), l_len := Suc (l_len l)\<rparr>"
  shows "list_nodes_are l' (a # as) (x # xs)"
proof -
  have "a \<notin> set as" using assms(1,2) by (auto simp: list_nodes_are_def)
  moreover have "l_tail l = None \<longleftrightarrow> as = []" using assms(1) by (simp add: list_nodes_are_def last_addr_def)
  ultimately show ?thesis using assms(1)
    by (simp add: assms(3) list_nodes_are_def chain_upd data_are_upd data_are_Cons last_addr_Cons)
qed

lemma list_nodes_push_back:
  assumes "list_nodes_are l as xs" and "a \<notin> dom (l_nodes l)"
    and "u = l\<lparr>l_nodes := (l_nodes l)(a \<mapsto> \<lparr>ln_next = None, ln_data = x\<rparr>)\<rparr>"
  obtains u' where "(case l_tail u of Some b \<Rightarrow> set_next u b (Some a) | None \<Rightarrow> Some (u\<lparr>l_head := Some a\<rparr>)) = Some u'"
    and "list_nodes_are (u'\<lparr>l_tail := Some a, l_len := Suc (l_len u')\<rparr>) (as @ [a]) (xs @ [x])"
    and "l_nodes u' = (l_nodes u)(a \<mapsto> \<lparr>ln_next = None, ln_data = x\<rparr>) \<or>
         (\<exists>b n. l_nodes u b = Some n \<and> l_nodes u' = (l_nodes u)(b \<mapsto> n\<lparr>ln_next := Some a\<rparr>))"
    and "list_same l u'"
proof (cases as rule: rev_cases)
  case Nil
  with assms(1) have "xs = []" "l_tail l = None" "l_nodes l = Map.empty" "l_len l = 0"
    by (auto simp: list_nodes_are_def)
  with Nil that [of "u\<lparr>l_head := Some a\<rparr>"] assms(3) show ?thesis
    by (simp add: list_nodes_are_def data_are_Cons list_same_def last_addr_def)
next
  case (snoc bs b)
  from assms(1) have l: "distinct as" "dom (l_nodes l) = set as" "chain ln_next (l_nodes l) (l_head l) as None"
      "data_are ln_data (l_nodes l) as xs" "l_tail l = last_addr as" "l_len l = length as"
    by (simp_all add: list_nodes_are_def)
  have ne: "a \<notin> set as" "a \<noteq> b" "b \<notin> set bs" using assms(2) l(1,2) snoc by auto
  let ?N = "(l_nodes l)(a \<mapsto> \<lparr>ln_next = None, ln_data = x\<rparr>)"
  from l(3) snoc obtain r n where c: "chain ln_next (l_nodes l) (l_head l) bs r" "r = Some b" "l_nodes l b = Some n"
    by (auto simp: chain_append)
  let ?M = "?N(b \<mapsto> n\<lparr>ln_next := Some a\<rparr>)"
  have nb: "?N b = Some n" using c(3) ne(2) by simp
  have ch: "chain ln_next ?M (l_head l) (bs @ [b, a]) None"
    unfolding chain_append using c ne snoc by (intro exI [of _ r]) (auto simp: chain_upd fun_upd_apply)
  have da: "data_are ln_data ?M (as @ [a]) (xs @ [x])"
    unfolding data_are_snoc
    using data_are_upd_same [of ?N b n ln_data "n\<lparr>ln_next := Some a\<rparr>", OF nb] l(4) ne
    by (simp add: data_are_upd fun_upd_apply)
  have dm: "dom ?M = set (as @ [a])" using l(2) snoc by auto
  have s: "set_next u b (Some a) = Some (u\<lparr>l_nodes := ?M\<rparr>)" using nb by (simp add: set_next_def assms(3))
  show ?thesis
  proof (rule that [of "u\<lparr>l_nodes := ?M\<rparr>"])
    show "(case l_tail u of Some b \<Rightarrow> set_next u b (Some a) | None \<Rightarrow> Some (u\<lparr>l_head := Some a\<rparr>)) = Some (u\<lparr>l_nodes := ?M\<rparr>)"
      using s l(5) snoc by (simp add: assms(3))
    show "list_nodes_are (u\<lparr>l_nodes := ?M, l_tail := Some a, l_len := Suc (l_len (u\<lparr>l_nodes := ?M\<rparr>))\<rparr>) (as @ [a]) (xs @ [x])"
      using l ne ch da dm snoc by (simp add: list_nodes_are_def assms(3))
  qed (use nb in \<open>auto simp: assms(3) list_same_def\<close>)
qed

subsection \<open>Popping\<close>

text \<open>Taking the first node off.\<close>

lemma list_nodes_pop_front:
  assumes "list_nodes_are l (a # as) (x # xs)" and "l_nodes l a = Some n"
    and "l' = l\<lparr>l_nodes := (l_nodes l)(a := None), l_head := ln_next n,
          l_tail := (if ln_next n = None then None else l_tail l), l_len := l_len l - 1\<rparr>"
  shows "list_nodes_are l' as xs"
proof -
  from assms(1,2) have c: "chain ln_next (l_nodes l) (ln_next n) as None" and "a \<notin> set as"
    by (auto simp: list_nodes_are_def)
  moreover from c have "ln_next n = None \<longleftrightarrow> as = []" by (cases as) auto
  ultimately show ?thesis using assms(1,2)
    by (auto simp: assms(3) list_nodes_are_def chain_upd data_are_upd data_are_Cons last_addr_Cons)
qed

text \<open>The walk ends at the node before the last.\<close>

lemma list_find_prev_is:
  assumes "chain ln_next N p (as @ [a, b]) None" and "distinct (as @ [a, b])" and "p = Some c"
  shows "list_find_prev N (Some b) c = Some a"
  using assms
proof (induction as arbitrary: p c)
  case Nil
  then show ?case by (auto simp: list_find_prev.simps)
next
  case (Cons d as)
  from Cons.prems obtain n where n: "c = d" "N d = Some n" "chain ln_next N (ln_next n) (as @ [a, b]) None" by auto
  obtain e where e: "ln_next n = Some e" "e \<in> set (as @ [a])" using n(3) by (cases as) auto
  then have "e \<noteq> b" using Cons.prems(2) by auto
  moreover have "list_find_prev N (Some b) e = Some a"
    by (rule Cons.IH [OF n(3) _ e(1)]) (use Cons.prems(2) in simp)
  ultimately show ?case using n(1,2) e(1) by (subst list_find_prev.simps) simp
qed

text \<open>Unhooking the last of at least two nodes.\<close>

lemma list_nodes_pop_back:
  assumes "list_nodes_are l (as @ [a, b]) (xs @ [x])" and "l_nodes l a = Some n"
    and "l' = l\<lparr>l_nodes := (l_nodes l)(b := None, a \<mapsto> n\<lparr>ln_next := None\<rparr>), l_tail := Some a, l_len := l_len l - 1\<rparr>"
  shows "list_nodes_are l' (as @ [a]) xs"
proof -
  from assms(1) have l: "distinct (as @ [a, b])" "dom (l_nodes l) = set (as @ [a, b])"
      "chain ln_next (l_nodes l) (l_head l) (as @ [a, b]) None"
      "data_are ln_data (l_nodes l) ((as @ [a]) @ [b]) (xs @ [x])" "l_len l = length (as @ [a, b])"
    by (simp_all add: list_nodes_are_def)
  let ?N = "(l_nodes l)(b := None)"
  have na: "?N a = Some n" using assms(2) l(1) by simp
  from l(3) obtain r where r: "chain ln_next (l_nodes l) (l_head l) as r" "r = Some a" by (auto simp: chain_append)
  then have ch: "chain ln_next (?N(a \<mapsto> n\<lparr>ln_next := None\<rparr>)) (l_head l) (as @ [a]) None"
    unfolding chain_append using l(1) by (intro exI [of _ r]) (simp add: chain_upd)
  have "data_are ln_data (l_nodes l) (as @ [a]) xs" using l(4) unfolding data_are_snoc by blast
  then have da: "data_are ln_data (?N(a \<mapsto> n\<lparr>ln_next := None\<rparr>)) (as @ [a]) xs"
    using data_are_upd_same [of ?N a n ln_data "n\<lparr>ln_next := None\<rparr>", OF na] l(1)
    by (simp add: data_are_upd)
  have "dom (?N(a \<mapsto> n\<lparr>ln_next := None\<rparr>)) = set (as @ [a])" using l(1,2) by auto
  then show ?thesis using ch da l(1,5) by (simp add: assms(3) list_nodes_are_def)
qed

context heap_allocator begin

lemma list_make_node_at:
  assumes "list_at t live R w l xs"
  obtains (granted) a w' where
      "list_make_node l x w = Some (Some a, l\<lparr>l_nodes := (l_nodes l)(a \<mapsto> \<lparr>ln_next = None, ln_data = x\<rparr>)\<rparr>, w')"
      and "a \<notin> dom (l_nodes l)" and "a \<noteq> l_self l"
      and "\<And>n. owns (live w') (list_frame R l)
        (node_blocks (list_node_alloc_size (l_elem_size l)) ((l_nodes l)(a \<mapsto> n)))"
  | (refused) w' where "list_make_node l x w = Some (None, l, w')" and "list_at t live R w' l xs"
      and "refuses t (growth (l_elem_size l) (length xs))"
proof -
  from assms obtain as where l: "l_alloc l = Some t" "elem_size_ok (l_elem_size l)" "l_self l \<notin> dom R"
    "owns (live w) (list_frame R l) (node_blocks (list_node_alloc_size (l_elem_size l)) (l_nodes l))"
    "list_nodes_are l as xs" by (rule list_atE)
  from l(4) show ?thesis
  proof (cases rule: node_alloc)
    case (granted a w')
    have "a \<noteq> l_self l" using granted(3) by (auto simp: list_frame_def)
    moreover have "list_make_node l x w = Some (Some a, l\<lparr>l_nodes := (l_nodes l)(a \<mapsto> \<lparr>ln_next = None, ln_data = x\<rparr>)\<rparr>, w')"
      using granted(1) l(1) by (simp add: list_make_node_def del: mem_alloc.simps)
    ultimately show ?thesis using that(1) granted by blast
  next
    case (refused w')
    have "list_at t live R w' l xs" using l refused(2) by (intro list_atI)
    moreover have "refuses t (growth (l_elem_size l) (length xs))"
      by (rule refuses_node [OF refused(3) [unfolded list_node_alloc_size_def]]) (simp add: sizeof_list_node_t_def)
    ultimately show ?thesis using that(2) refused(1) l(1) by (simp add: list_make_node_def del: mem_alloc.simps)
  qed
qed

lemma list_push_front_at:
  assumes at: "list_at t live R w l xs"
  obtains (ok) l' w' where "list_push_front (Some l) (Some x) w = Some (SEQC_OK, Some l', w')"
      and "list_at t live R w' l' (x # xs)" and "list_same l l'"
  | (oom) w' where "list_push_front (Some l) (Some x) w = Some (SEQC_OOM, Some l, w')"
      and "list_at t live R w' l xs" and "refuses t (growth (l_elem_size l) (length xs))"
  using at
proof (cases rule: list_make_node_at [where x = x])
  case (granted a w')
  from at obtain as where l: "l_alloc l = Some t" "elem_size_ok (l_elem_size l)" "l_self l \<notin> dom R"
    "list_nodes_are l as xs" by (rule list_atE)
  let ?n = "\<lparr>ln_next = l_head l, ln_data = x\<rparr>"
  let ?l = "l\<lparr>l_nodes := (l_nodes l)(a \<mapsto> ?n), l_head := Some a,
      l_tail := (if l_tail l = None then Some a else l_tail l), l_len := Suc (l_len l)\<rparr>"
  have "list_nodes_are ?l (a # as) (x # xs)" by (rule list_nodes_push_front [OF l(4) granted(2)]) simp
  then have "list_at t live R w' ?l (x # xs)"
    by (intro list_atI) (use l granted(4) in \<open>simp_all add: list_frame_def\<close>)
  moreover have "list_push_front (Some l) (Some x) w = Some (SEQC_OK, Some ?l, w')"
    using granted(1) by (simp add: list_push_front_def set_next_def Let_def)
  ultimately show ?thesis by (intro ok [of ?l w']) (simp_all add: list_same_def)
next
  case (refused w')
  then show ?thesis by (intro oom [of w']) (simp_all add: list_push_front_def)
qed

lemma list_push_back_at:
  assumes at: "list_at t live R w l xs"
  obtains (ok) l' w' where "list_push_back (Some l) (Some x) w = Some (SEQC_OK, Some l', w')"
      and "list_at t live R w' l' (xs @ [x])" and "list_same l l'"
  | (oom) w' where "list_push_back (Some l) (Some x) w = Some (SEQC_OOM, Some l, w')"
      and "list_at t live R w' l xs" and "refuses t (growth (l_elem_size l) (length xs))"
  using at
proof (cases rule: list_make_node_at [where x = x])
  case (granted a w')
  from at obtain as where l: "l_alloc l = Some t" "elem_size_ok (l_elem_size l)" "l_self l \<notin> dom R"
    "list_nodes_are l as xs" by (rule list_atE)
  let ?n = "\<lparr>ln_next = None, ln_data = x\<rparr>"
  let ?u = "l\<lparr>l_nodes := (l_nodes l)(a \<mapsto> ?n)\<rparr>"
  obtain u' where u': "(case l_tail ?u of Some b \<Rightarrow> set_next ?u b (Some a) | None \<Rightarrow> Some (?u\<lparr>l_head := Some a\<rparr>)) = Some u'"
    "list_nodes_are (u'\<lparr>l_tail := Some a, l_len := Suc (l_len u')\<rparr>) (as @ [a]) (xs @ [x])"
    "l_nodes u' = (l_nodes ?u)(a \<mapsto> ?n) \<or>
         (\<exists>b n. l_nodes ?u b = Some n \<and> l_nodes u' = (l_nodes ?u)(b \<mapsto> n\<lparr>ln_next := Some a\<rparr>))"
    "list_same l u'"
    by (rule list_nodes_push_back [OF l(4) granted(2) refl, of x])
  let ?l = "u'\<lparr>l_tail := Some a, l_len := Suc (l_len u')\<rparr>"
  have "node_blocks k (l_nodes u') = node_blocks k ((l_nodes l)(a \<mapsto> ?n))" for k
    using u'(3) node_blocks_keep [of "(l_nodes l)(a \<mapsto> ?n)"] by auto
  then have "owns (live w') (list_frame R ?l) (node_blocks (list_node_alloc_size (l_elem_size ?l)) (l_nodes ?l))"
    using granted(4) [of ?n] u'(4) by (simp add: list_same_def list_frame_def)
  then have "list_at t live R w' ?l (xs @ [x])"
    using u'(2,4) l by (intro list_atI) (simp_all add: list_same_def)
  moreover have "list_push_back (Some l) (Some x) w = Some (SEQC_OK, Some ?l, w')"
    using granted(1) u'(1) by (simp add: list_push_back_def)
  ultimately show ?thesis using u'(4) by (intro ok [of ?l w']) (simp_all add: list_same_def)
next
  case (refused w')
  then show ?thesis by (intro oom [of w']) (simp_all add: list_push_back_def)
qed

lemma list_pop_front_at:
  assumes at: "list_at t live R w l (x # xs)"
  obtains l' w' where "list_pop_front (Some l) out w = Some (SEQC_OK, if out then Some x else None, Some l', w')"
    and "list_at t live R w' l' xs" and "list_same l l'"
proof -
  from at obtain bs where l: "l_alloc l = Some t" "elem_size_ok (l_elem_size l)" "l_self l \<notin> dom R"
    "owns (live w) (list_frame R l) (node_blocks (list_node_alloc_size (l_elem_size l)) (l_nodes l))"
    "list_nodes_are l bs (x # xs)" by (rule list_atE)
  from l(5) obtain a as n where a: "bs = a # as" "l_head l = Some a" "l_nodes l a = Some n" "ln_data n = x"
    by (rule list_nodes_ConsE)
  obtain w' where w': "mem_free (Some t) (Some a) (list_node_alloc_size (l_elem_size l)) w = Some w'"
    "owns (live w') (list_frame R l) (node_blocks (list_node_alloc_size (l_elem_size l)) ((l_nodes l)(a := None)))"
    by (rule node_free [of w "list_frame R l" _ "l_nodes l" a n, OF l(4) a(3)])
  let ?l = "l\<lparr>l_nodes := (l_nodes l)(a := None), l_head := ln_next n,
      l_tail := (if ln_next n = None then None else l_tail l), l_len := l_len l - 1\<rparr>"
  have "list_nodes_are ?l as xs" by (rule list_nodes_pop_front [OF l(5) [unfolded a(1)] a(3) refl])
  then have "list_at t live R w' ?l xs"
    by (intro list_atI) (use l w'(2) in \<open>simp_all add: list_frame_def\<close>)
  moreover have "list_pop_front (Some l) out w = Some (SEQC_OK, if out then Some x else None, Some ?l, w')"
    using a w'(1) l(1) by (simp add: list_pop_front_def list_node_data_def list_free_node_def Let_def del: mem_free.simps)
  ultimately show ?thesis using that by (simp add: list_same_def)
qed

lemma list_pop_empty:
  assumes "list_is t l []"
  shows "list_pop_front (Some l) out w = Some (SEQC_NOT_FOUND, None, Some l, w)"
    and "list_pop_back (Some l) out w = Some (SEQC_NOT_FOUND, None, Some l, w)"
  using assms by (auto simp: list_is_def list_pop_front_def list_pop_back_def dest: list_nodes_Nil)

lemma list_pop_back_at:
  assumes at: "list_at t live R w l (xs @ [x])"
  obtains l' w' where "list_pop_back (Some l) out w = Some (SEQC_OK, if out then Some x else None, Some l', w')"
    and "list_at t live R w' l' xs" and "list_same l l'"
proof -
  from at obtain bs where l: "l_alloc l = Some t" "elem_size_ok (l_elem_size l)" "l_self l \<notin> dom R"
    "owns (live w) (list_frame R l) (node_blocks (list_node_alloc_size (l_elem_size l)) (l_nodes l))"
    "list_nodes_are l bs (xs @ [x])" by (rule list_atE)
  from l(5) have d: "data_are ln_data (l_nodes l) bs (xs @ [x])" "l_tail l = last_addr bs"
    "chain ln_next (l_nodes l) (l_head l) bs None" "distinct bs" by (simp_all add: list_nodes_are_def)
  from d(1) obtain cs b m where b: "bs = cs @ [b]" "l_nodes l b = Some m" "ln_data m = x" by (rule data_are_snocE)
  show ?thesis
  proof (cases cs rule: rev_cases)
    case Nil
    with b(1) d(1) have "xs = []" using data_are_length [OF d(1)] by simp
    with at have "list_at t live R w l (x # [])" by simp
    then obtain l' w' where p: "list_pop_front (Some l) out w = Some (SEQC_OK, if out then Some x else None, Some l', w')"
      "list_at t live R w' l' []" "list_same l l'" by (rule list_pop_front_at)
    have "list_pop_back (Some l) out w = list_pop_front (Some l) out w"
      using d(2,3) b(1) Nil by (auto simp: list_pop_back_def last_addr_def)
    with p that \<open>xs = []\<close> show ?thesis by simp
  next
    case (snoc as a)
    then have bs: "bs = as @ [a, b]" using b(1) by simp
    from d(3) obtain n where n: "l_nodes l a = Some n" by (auto simp: bs chain_append)
    obtain h where h: "l_head l = Some h" "h \<in> set (as @ [a])" using d(3) by (cases as) (auto simp: bs)
    then have ne: "l_head l \<noteq> l_tail l" "a \<noteq> b" using d(2,4) bs by (auto simp: last_addr_def)
    have prev: "list_find_prev (l_nodes l) (Some b) h = Some a"
      by (rule list_find_prev_is [OF d(3) [unfolded bs] d(4) [unfolded bs] h(1)])
    obtain w' where w': "mem_free (Some t) (Some b) (list_node_alloc_size (l_elem_size l)) w = Some w'"
      "owns (live w') (list_frame R l) (node_blocks (list_node_alloc_size (l_elem_size l)) ((l_nodes l)(b := None)))"
      by (rule node_free [of w "list_frame R l" _ "l_nodes l" b m, OF l(4) b(2)])
    let ?M = "(l_nodes l)(b := None, a \<mapsto> n\<lparr>ln_next := None\<rparr>)"
    let ?l = "l\<lparr>l_nodes := ?M, l_tail := Some a, l_len := l_len l - 1\<rparr>"
    have na: "((l_nodes l)(b := None)) a = Some n" using n ne(2) by simp
    have "list_nodes_are ?l (as @ [a]) xs" by (rule list_nodes_pop_back [OF l(5) [unfolded bs] n refl])
    moreover have "owns (live w') (list_frame R ?l) (node_blocks (list_node_alloc_size (l_elem_size ?l)) (l_nodes ?l))"
      using w'(2) node_blocks_keep [of "(l_nodes l)(b := None)" a n, OF na] by (simp add: list_frame_def)
    ultimately have "list_at t live R w' ?l xs" by (intro list_atI) (use l in simp_all)
    moreover have "l_tail l = Some b" using d(2) bs by (simp add: last_addr_def)
    then have "list_pop_back (Some l) out w = Some (SEQC_OK, if out then Some x else None, Some ?l, w')"
      using h(1) ne prev b(2,3) w'(1) l(1) na
      by (simp add: list_pop_back_def list_node_data_def list_free_node_def set_next_def del: mem_free.simps)
    ultimately show ?thesis using that by (simp add: list_same_def)
  qed
qed

subsection \<open>Creation and destruction\<close>

lemma list_create_at:
  assumes "elem_size_ok es" and "live w = R"
  obtains (ok) l :: "('e, 'w) list_t" and w' where "list_create es (Some t) w = Some (Some l, w')"
      and "list_at t live R w' l []" and "l_elem_size l = es"
  | (oom) w' where "list_create es (Some t) w = Some (None :: ('e, 'w) list_t option, w')" and "live w' = R"
      and "starved (Some t)"
proof (cases rule: iter_state_alloc [of sizeof_list_t w])
  case (granted a w')
  let ?l = "\<lparr>l_self = a, l_head = None, l_tail = None, l_len = 0, l_elem_size = es, l_alloc = Some t, l_nodes = Map.empty\<rparr>"
  have "list_create es (Some t) w = Some (Some ?l, w')"
    using granted(1) by (simp add: list_create_def del: mem_alloc.simps)
  then show ?thesis
    by (rule ok) (use granted(2) assms in
      \<open>simp_all add: list_at_def list_is_def list_nodes_are_def list_blocks_def data_are_def\<close>)
next
  case (refused w')
  then show ?thesis using assms starved_small [OF refused(3)] by (intro oom [of w']) (simp_all add: list_create_def del: mem_alloc.simps)
qed

lemma list_clear_at:
  assumes at: "list_at t live R w l xs"
  obtains l' w' where "list_clear (Some l) w = Some (Some l', w')" and "list_at t live R w' l' []"
    and "list_same l l'" and "live w' = list_frame R l"
proof -
  from at obtain as where l: "l_alloc l = Some t" "elem_size_ok (l_elem_size l)" "l_self l \<notin> dom R"
    "owns (live w) (list_frame R l) (node_blocks (list_node_alloc_size (l_elem_size l)) (l_nodes l))"
    "list_nodes_are l as xs" by (rule list_atE)
  from l(5) have "\<exists>w'. free_chain (Some t) (list_node_alloc_size (l_elem_size l)) ln_next (l_nodes l) (l_head l) w =
      Some (Map.empty, w') \<and> live w' = list_frame R l"
    by (intro free_chain_at [OF _ _ _ l(4)]) (auto simp: list_nodes_are_def)
  then obtain w' where w': "free_chain (Some t) (list_node_alloc_size (l_elem_size l)) ln_next (l_nodes l) (l_head l) w =
      Some (Map.empty, w')" "live w' = list_frame R l" by blast
  let ?l = "l\<lparr>l_nodes := Map.empty, l_head := None, l_tail := None, l_len := 0\<rparr>"
  have "list_at t live R w' ?l []"
    by (rule list_atI [where as = "[]"])
      (use l w'(2) in \<open>simp_all add: list_frame_def list_nodes_are_def data_are_def\<close>)
  moreover have "list_clear (Some l) w = Some (Some ?l, w')" using w'(1) l(1) by (simp add: list_clear_def)
  ultimately show ?thesis using that w'(2) by (simp add: list_same_def)
qed

lemma list_destroy_at:
  assumes at: "list_at t live R w l xs"
  obtains w' where "list_destroy (Some l) w = Some w'" and "live w' = R"
proof -
  from at obtain as where l: "l_alloc l = Some t" "l_self l \<notin> dom R" by (rule list_atE)
  from at obtain l1 w1 where c: "list_clear (Some l) w = Some (Some l1, w1)" "live w1 = list_frame R l"
    by (rule list_clear_at)
  have o: "owns (live w1) (R(l_self l \<mapsto> sizeof_list_t)) Map.empty" using c(2) by (simp add: list_frame_def)
  obtain w2 where "mem_free (Some t) (Some (l_self l)) sizeof_list_t w1 = Some w2" "owns (live w2) R Map.empty"
    by (rule release_held [OF o l(2)])
  with c(1) l(1) that show ?thesis by (simp add: list_destroy_def del: mem_free.simps)
qed

subsection \<open>Iterating and extending\<close>

lemma list_iter_closes:
  "li_self s = a \<Longrightarrow>
   iter_closes live (iter_make nx (list_iter_drop (Some t)) s es al) [a \<mapsto> sizeof_list_iter_state_t]"
  by (rule iter_closes_block) (simp add: list_iter_drop_def)

lemma list_iter_rep:
  assumes "chain ln_next (li_nodes s) (li_current s) as None" and "data_are ln_data (li_nodes s) as xs"
    and "li_self s = a"
  shows "iter_rep live xs (iter_make list_iter_next (list_iter_drop (Some t)) s es al) [a \<mapsto> sizeof_list_iter_state_t]"
  using assms
proof (induction xs arbitrary: as s)
  case Nil
  then have "li_current s = None" by (auto simp: data_are_def)
  then have "list_iter_next s w = Some (None, s, w)" for w :: 'w by (simp add: list_iter_next_def)
  then show ?case using Nil.prems(3)
    by (intro iter_rep_Nil_still [OF list_iter_closes _ list_iter_closes]) auto
next
  case (Cons x xs)
  from Cons.prems(2) obtain b as' n where b: "as = b # as'" "li_nodes s b = Some n" "ln_data n = x"
    "data_are ln_data (li_nodes s) as' xs" by (rule data_are_ConsE)
  let ?s = "s\<lparr>li_current := ln_next n\<rparr>"
  have "iter_rep live xs (iter_make list_iter_next (list_iter_drop (Some t)) ?s es al) [a \<mapsto> sizeof_list_iter_state_t]"
    by (rule Cons.IH [of ?s as']) (use Cons.prems b in auto)
  moreover have "list_iter_next s w = Some (Some x, ?s, w)" for w :: 'w
    using Cons.prems(1) b by (auto simp: list_iter_next_def)
  ultimately show ?case using Cons.prems by (intro iter_rep_Cons_still list_iter_closes) auto
qed

lemma list_iter_built:
  assumes "list_is t l xs"
  shows "iter_built live (Some t) (live w) (l_elem_size l) xs (list_iter (Some l) w)"
proof (cases rule: iter_state_alloc [of sizeof_list_iter_state_t w])
  case (granted a w')
  from assms obtain as where l: "l_alloc l = Some t" "list_nodes_are l as xs" by (auto simp: list_is_def)
  show ?thesis
    by (rule iter_built_valid [OF _ _ _ granted(2) list_iter_rep
        [of "\<lparr>li_self = a, li_current = l_head l, li_elem_size = l_elem_size l, li_nodes = l_nodes l\<rparr>" as xs a
            "l_elem_size l" "Some t"]])
      (use l granted(1) in \<open>simp_all add: list_iter_def list_nodes_are_def del: mem_alloc.simps\<close>)
next
  case (refused w')
  then show ?thesis using assms
    by (intro iter_built_zero [of _ w']) (simp_all add: starved_small [OF refused(3)] list_iter_def list_is_def del: mem_alloc.simps)
qed

lemma list_collection:
  "collection_add t live list_push_back list_blocks (list_is t) (\<lambda>xs x. xs @ [x]) list_same
    (\<lambda>c xs. refuses t (growth (l_elem_size c) (length xs)))"
proof unfold_locales
  fix l :: "('e, 'w) list_t" and xs :: "'e list" and w R x
  assume "list_is t l xs" "owns (live w) R (list_blocks l)"
  then have "list_at t live R w l xs" by (simp add: list_at_def)
  then show "\<exists>st l' w'. list_push_back (Some l) (Some x) w = Some (st, Some l', w') \<and>
      owns (live w') R (list_blocks l') \<and> list_same l l' \<and>
      (if st = SEQC_OK \<or> st = SEQC_DUPLICATE then list_is t l' (xs @ [x]) else st = SEQC_OOM \<and> list_is t l' xs \<and>
         refuses t (growth (l_elem_size l) (length xs)))"
    by (cases rule: list_push_back_at [where x = x]) (auto simp: list_at_def list_same_def)
qed (simp_all add: list_same_def)

lemma list_extend_at:
  assumes "list_is t l ys" and "owns2 (live w) R (list_blocks l) B"
    and "iter_rep live xs it B" and "iter_is_valid it" and "it_elem_size it = l_elem_size l"
  shows "\<exists>st l' w' k. list_extend (Some l) it w = Some (st, Some l', w') \<and> list_same l l' \<and>
    list_at t live R w' l' (ys @ take k xs) \<and>
    (st = SEQC_OK \<and> k = length xs \<or> st = SEQC_OOM \<and> k \<le> length xs \<and>
      (refuses t (growth (l_elem_size l) (length (ys @ take k xs))) \<or> k = 0 \<and> refuses t (l_elem_size l)))"
proof -
  have "list_extend (Some l) it w = seqc_extend (Some l) list_push_back (l_elem_size l) (Some t) it w"
    using assms(1) by (simp add: list_extend_def list_is_def)
  with collection_add.drain_at [OF list_collection assms] show ?thesis
    unfolding list_at_def foldl_snoc by metis
qed

end

interpretation sys_list: collection_add sys_allocator hp_live list_push_back list_blocks
  "list_is sys_allocator" "\<lambda>xs x. xs @ [x]" list_same
  "\<lambda>c xs. refuses sys_allocator (growth (l_elem_size c) (length xs))"
  by (rule sys.list_collection)

end
