(* ===== verification/Seqc_Dlist.thy ===== *)
theory Seqc_Dlist
  imports Seqc_Nodes
begin

section \<open>The doubly linked list\<close>

text \<open>
  \<open>src/dlist/dlist.c\<close>. The list is held together by two chains, one through \<open>next\<close> from the head
  and one through \<open>prev\<close> from the tail. Exchanging the two directions (\<open>mirror\<close>) turns a list
  around, so what is proved of the front holds of the back.
\<close>

record 'a dlist_node_t =
  dn_prev :: "addr option"
  dn_next :: "addr option"
  dn_data :: 'a

record ('a, 'w) dlist_t =
  d_self :: addr
  d_head :: "addr option"
  d_tail :: "addr option"
  d_len :: size_t
  d_elem_size :: size_t
  d_alloc :: "'w allocator_t"
  d_nodes :: "addr \<rightharpoonup> 'a dlist_node_t"

definition sizeof_dlist_node_t :: size_t where
  "sizeof_dlist_node_t = 16"

definition sizeof_dlist_t :: size_t where
  "sizeof_dlist_t = 48"

lemma sizeof_dlist_node_t_small [simp]: "sizeof_dlist_node_t \<le> 256" "sizeof_dlist_t \<le> 256"
  by (simp_all add: sizeof_dlist_node_t_def sizeof_dlist_t_def)

subsection \<open>Operations\<close>

definition dlist_node_alloc_size :: "size_t \<Rightarrow> size_t" where
  "dlist_node_alloc_size es = wadd (data_offset sizeof_dlist_node_t) es"

definition dlist_make_node ::
  "('a, 'w) dlist_t \<Rightarrow> 'a \<Rightarrow> 'w \<Rightarrow> (addr option \<times> ('a, 'w) dlist_t \<times> 'w) option" where
  "dlist_make_node l x w = do {
     (p, w) \<leftarrow> mem_alloc (d_alloc l) (dlist_node_alloc_size (d_elem_size l)) w;
     case p of
       None \<Rightarrow> Some (None, l, w)
     | Some a \<Rightarrow> Some (Some a,
         l\<lparr>d_nodes := (d_nodes l)(a \<mapsto> \<lparr>dn_prev = None, dn_next = None, dn_data = x\<rparr>)\<rparr>, w)
   }"

definition dset_next :: "('a, 'w) dlist_t \<Rightarrow> addr \<Rightarrow> addr option \<Rightarrow> ('a, 'w) dlist_t option" where
  "dset_next l a p = do {
     n \<leftarrow> d_nodes l a;
     Some (l\<lparr>d_nodes := (d_nodes l)(a \<mapsto> n\<lparr>dn_next := p\<rparr>)\<rparr>)
   }"

definition dset_prev :: "('a, 'w) dlist_t \<Rightarrow> addr \<Rightarrow> addr option \<Rightarrow> ('a, 'w) dlist_t option" where
  "dset_prev l a p = do {
     n \<leftarrow> d_nodes l a;
     Some (l\<lparr>d_nodes := (d_nodes l)(a \<mapsto> n\<lparr>dn_prev := p\<rparr>)\<rparr>)
   }"

text \<open>\<open>node->prev\<close> and \<open>node->next\<close> are read anew at each use, as in the source.\<close>

definition dlist_unlink_and_free :: "('a, 'w) dlist_t \<Rightarrow> addr \<Rightarrow> 'w \<Rightarrow> (('a, 'w) dlist_t \<times> 'w) option" where
  "dlist_unlink_and_free l a w = do {
     n \<leftarrow> d_nodes l a;
     l \<leftarrow> (case dn_prev n of
             Some b \<Rightarrow> dset_next l b (dn_next n)
           | None \<Rightarrow> Some (l\<lparr>d_head := dn_next n\<rparr>));
     n \<leftarrow> d_nodes l a;
     l \<leftarrow> (case dn_next n of
             Some c \<Rightarrow> dset_prev l c (dn_prev n)
           | None \<Rightarrow> Some (l\<lparr>d_tail := dn_prev n\<rparr>));
     w \<leftarrow> mem_free (d_alloc l) (Some a) (dlist_node_alloc_size (d_elem_size l)) w;
     Some (l\<lparr>d_nodes := (d_nodes l)(a := None), d_len := d_len l - 1\<rparr>, w)
   }"

definition dlist_create :: "size_t \<Rightarrow> 'w allocator_t \<Rightarrow> 'w \<Rightarrow> (('a, 'w) dlist_t option \<times> 'w) option" where
  "dlist_create es al w = do {
     (p, w) \<leftarrow> mem_alloc al sizeof_dlist_t w;
     case p of
       None \<Rightarrow> Some (None, w)
     | Some a \<Rightarrow> Some (Some \<lparr>d_self = a, d_head = None, d_tail = None, d_len = 0,
         d_elem_size = es, d_alloc = al, d_nodes = Map.empty\<rparr>, w)
   }"

definition dlist_push_front ::
  "('a, 'w) dlist_t option \<Rightarrow> 'a option \<Rightarrow> 'w \<Rightarrow> (seqc_status_t \<times> ('a, 'w) dlist_t option \<times> 'w) option" where
  "dlist_push_front l elem w =
     (case (l, elem) of
        (Some u, Some x) \<Rightarrow> do {
          (node, u, w) \<leftarrow> dlist_make_node u x w;
          case node of
            None \<Rightarrow> Some (SEQC_OOM, Some u, w)
          | Some a \<Rightarrow> do {
              u \<leftarrow> dset_next u a (d_head u);
              u \<leftarrow> (case d_head u of
                      Some h \<Rightarrow> dset_prev u h (Some a)
                    | None \<Rightarrow> Some (u\<lparr>d_tail := Some a\<rparr>));
              Some (SEQC_OK, Some (u\<lparr>d_head := Some a, d_len := Suc (d_len u)\<rparr>), w)
            }
        }
      | _ \<Rightarrow> Some (SEQC_INVALID, l, w))"

definition dlist_push_back ::
  "('a, 'w) dlist_t option \<Rightarrow> 'a option \<Rightarrow> 'w \<Rightarrow> (seqc_status_t \<times> ('a, 'w) dlist_t option \<times> 'w) option" where
  "dlist_push_back l elem w =
     (case (l, elem) of
        (Some u, Some x) \<Rightarrow> do {
          (node, u, w) \<leftarrow> dlist_make_node u x w;
          case node of
            None \<Rightarrow> Some (SEQC_OOM, Some u, w)
          | Some a \<Rightarrow> do {
              u \<leftarrow> dset_prev u a (d_tail u);
              u \<leftarrow> (case d_tail u of
                      Some b \<Rightarrow> dset_next u b (Some a)
                    | None \<Rightarrow> Some (u\<lparr>d_head := Some a\<rparr>));
              Some (SEQC_OK, Some (u\<lparr>d_tail := Some a, d_len := Suc (d_len u)\<rparr>), w)
            }
        }
      | _ \<Rightarrow> Some (SEQC_INVALID, l, w))"

definition dlist_node_data :: "('a, 'w) dlist_t \<Rightarrow> addr \<Rightarrow> 'a option" where
  "dlist_node_data l a = map_option dn_data (d_nodes l a)"

definition dlist_pop_front ::
  "('a, 'w) dlist_t option \<Rightarrow> bool \<Rightarrow> 'w \<Rightarrow> (seqc_status_t \<times> 'a option \<times> ('a, 'w) dlist_t option \<times> 'w) option" where
  "dlist_pop_front l out w =
     (case l of
        None \<Rightarrow> Some (SEQC_NOT_FOUND, None, None, w)
      | Some u \<Rightarrow>
          (case d_head u of
             None \<Rightarrow> Some (SEQC_NOT_FOUND, None, l, w)
           | Some a \<Rightarrow> do {
               x \<leftarrow> (if out then map_option Some (dlist_node_data u a) else Some None);
               (u, w) \<leftarrow> dlist_unlink_and_free u a w;
               Some (SEQC_OK, x, Some u, w)
             }))"

definition dlist_pop_back ::
  "('a, 'w) dlist_t option \<Rightarrow> bool \<Rightarrow> 'w \<Rightarrow> (seqc_status_t \<times> 'a option \<times> ('a, 'w) dlist_t option \<times> 'w) option" where
  "dlist_pop_back l out w =
     (case l of
        None \<Rightarrow> Some (SEQC_NOT_FOUND, None, None, w)
      | Some u \<Rightarrow>
          (case d_tail u of
             None \<Rightarrow> Some (SEQC_NOT_FOUND, None, l, w)
           | Some a \<Rightarrow> do {
               x \<leftarrow> (if out then map_option Some (dlist_node_data u a) else Some None);
               (u, w) \<leftarrow> dlist_unlink_and_free u a w;
               Some (SEQC_OK, x, Some u, w)
             }))"

definition dlist_front_ptr :: "('a, 'w) dlist_t option \<Rightarrow> addr option" where
  "dlist_front_ptr l = do { u \<leftarrow> l; d_head u }"

definition dlist_back_ptr :: "('a, 'w) dlist_t option \<Rightarrow> addr option" where
  "dlist_back_ptr l = do { u \<leftarrow> l; d_tail u }"

definition dlist_is_empty :: "('a, 'w) dlist_t option \<Rightarrow> bool" where
  "dlist_is_empty l = (case l of None \<Rightarrow> True | Some u \<Rightarrow> d_len u = 0)"

definition dlist_len :: "('a, 'w) dlist_t option \<Rightarrow> size_t" where
  "dlist_len l = (case l of None \<Rightarrow> 0 | Some u \<Rightarrow> d_len u)"

definition dlist_clear :: "('a, 'w) dlist_t option \<Rightarrow> 'w \<Rightarrow> (('a, 'w) dlist_t option \<times> 'w) option" where
  "dlist_clear l w =
     (case l of
        None \<Rightarrow> Some (None, w)
      | Some u \<Rightarrow> do {
          (N, w) \<leftarrow> free_chain (d_alloc u) (dlist_node_alloc_size (d_elem_size u)) dn_next (d_nodes u) (d_head u) w;
          Some (Some (u\<lparr>d_nodes := N, d_head := None, d_tail := None, d_len := 0\<rparr>), w)
        })"

definition dlist_destroy :: "('a, 'w) dlist_t option \<Rightarrow> 'w \<Rightarrow> 'w option" where
  "dlist_destroy l w =
     (case l of
        None \<Rightarrow> Some w
      | Some u \<Rightarrow> do {
          (l, w) \<leftarrow> dlist_clear l w;
          mem_free (d_alloc u) (Some (d_self u)) sizeof_dlist_t w
        })"

definition dlist_front :: "('a, 'w) dlist_t option \<Rightarrow> bool \<Rightarrow> (seqc_status_t \<times> 'a option) option" where
  "dlist_front l out =
     (case l of
        None \<Rightarrow> Some (SEQC_INVALID, None)
      | Some u \<Rightarrow> seqc_copy_out (map_option (dlist_node_data u) (dlist_front_ptr l)) out)"

definition dlist_back :: "('a, 'w) dlist_t option \<Rightarrow> bool \<Rightarrow> (seqc_status_t \<times> 'a option) option" where
  "dlist_back l out =
     (case l of
        None \<Rightarrow> Some (SEQC_INVALID, None)
      | Some u \<Rightarrow> seqc_copy_out (map_option (dlist_node_data u) (dlist_back_ptr l)) out)"

definition dlist_extend ::
  "('a, 'w) dlist_t option \<Rightarrow> ('a, 's, 'w) iter_t \<Rightarrow> 'w \<Rightarrow> (seqc_status_t \<times> ('a, 'w) dlist_t option \<times> 'w) option" where
  "dlist_extend l it w =
     (case l of
        None \<Rightarrow> do { w \<leftarrow> iter_destroy it w; Some (SEQC_INVALID, None, w) }
      | Some u \<Rightarrow> seqc_extend l dlist_push_back (d_elem_size u) (d_alloc u) it w)"

subsection \<open>The iterators\<close>

text \<open>The two directions share their state; the nodes are those of the moment the iterator was made.\<close>

record 'a dlist_iter_state_t =
  di_self :: addr
  di_current :: "addr option"
  di_elem_size :: size_t
  di_nodes :: "addr \<rightharpoonup> 'a dlist_node_t"

definition sizeof_dlist_iter_state_t :: size_t where
  "sizeof_dlist_iter_state_t = 16"

lemma sizeof_dlist_iter_state_t_small [simp]: "sizeof_dlist_iter_state_t \<le> 256"
  by (simp add: sizeof_dlist_iter_state_t_def)

definition dlist_iter_next_fwd ::
  "'a dlist_iter_state_t \<Rightarrow> 'w \<Rightarrow> ('a option \<times> 'a dlist_iter_state_t \<times> 'w) option" where
  "dlist_iter_next_fwd s w =
     (case di_current s of
        None \<Rightarrow> Some (None, s, w)
      | Some a \<Rightarrow> do {
          n \<leftarrow> di_nodes s a;
          Some (Some (dn_data n), s\<lparr>di_current := dn_next n\<rparr>, w)
        })"

definition dlist_iter_next_rev ::
  "'a dlist_iter_state_t \<Rightarrow> 'w \<Rightarrow> ('a option \<times> 'a dlist_iter_state_t \<times> 'w) option" where
  "dlist_iter_next_rev s w =
     (case di_current s of
        None \<Rightarrow> Some (None, s, w)
      | Some a \<Rightarrow> do {
          n \<leftarrow> di_nodes s a;
          Some (Some (dn_data n), s\<lparr>di_current := dn_prev n\<rparr>, w)
        })"

definition dlist_iter_drop :: "'w allocator_t \<Rightarrow> 'a dlist_iter_state_t \<Rightarrow> 'w \<Rightarrow> 'w option" where
  "dlist_iter_drop al s w = mem_free al (Some (di_self s)) sizeof_dlist_iter_state_t w"

definition dlist_iter ::
  "('a, 'w) dlist_t option \<Rightarrow> 'w \<Rightarrow> (('a, 'a dlist_iter_state_t, 'w) iter_t \<times> 'w) option" where
  "dlist_iter l w =
     (case l of
        None \<Rightarrow> Some (iter_zero, w)
      | Some u \<Rightarrow> do {
          (p, w) \<leftarrow> mem_alloc (d_alloc u) sizeof_dlist_iter_state_t w;
          case p of
            None \<Rightarrow> Some (iter_zero, w)
          | Some a \<Rightarrow> Some (iter_make dlist_iter_next_fwd (dlist_iter_drop (d_alloc u))
              \<lparr>di_self = a, di_current = d_head u, di_elem_size = d_elem_size u, di_nodes = d_nodes u\<rparr>
              (d_elem_size u) (d_alloc u), w)
        })"

definition dlist_iter_rev ::
  "('a, 'w) dlist_t option \<Rightarrow> 'w \<Rightarrow> (('a, 'a dlist_iter_state_t, 'w) iter_t \<times> 'w) option" where
  "dlist_iter_rev l w =
     (case l of
        None \<Rightarrow> Some (iter_zero, w)
      | Some u \<Rightarrow> do {
          (p, w) \<leftarrow> mem_alloc (d_alloc u) sizeof_dlist_iter_state_t w;
          case p of
            None \<Rightarrow> Some (iter_zero, w)
          | Some a \<Rightarrow> Some (iter_make dlist_iter_next_rev (dlist_iter_drop (d_alloc u))
              \<lparr>di_self = a, di_current = d_tail u, di_elem_size = d_elem_size u, di_nodes = d_nodes u\<rparr>
              (d_elem_size u) (d_alloc u), w)
        })"

subsection \<open>The invariant\<close>

definition dlist_nodes_are :: "('a, 'w) dlist_t \<Rightarrow> addr list \<Rightarrow> 'a list \<Rightarrow> bool" where
  "dlist_nodes_are l as xs \<longleftrightarrow>
     distinct as \<and> dom (d_nodes l) = set as \<and>
     chain dn_next (d_nodes l) (d_head l) as None \<and> chain dn_prev (d_nodes l) (d_tail l) (rev as) None \<and>
     data_are dn_data (d_nodes l) as xs \<and> d_len l = length as"

definition dlist_is :: "'w vtable \<Rightarrow> ('a, 'w) dlist_t \<Rightarrow> 'a list \<Rightarrow> bool" where
  "dlist_is t l xs \<longleftrightarrow>
     d_alloc l = Some t \<and> elem_size_ok (d_elem_size l) \<and> d_self l \<notin> dom (d_nodes l) \<and>
     (\<exists>as. dlist_nodes_are l as xs)"

definition dlist_blocks :: "('a, 'w) dlist_t \<Rightarrow> (addr \<rightharpoonup> size_t)" where
  "dlist_blocks l =
     (node_blocks (dlist_node_alloc_size (d_elem_size l)) (d_nodes l))(d_self l \<mapsto> sizeof_dlist_t)"

definition dlist_at ::
  "'w vtable \<Rightarrow> ('w \<Rightarrow> addr \<rightharpoonup> size_t) \<Rightarrow> (addr \<rightharpoonup> size_t) \<Rightarrow> 'w \<Rightarrow> ('a, 'w) dlist_t \<Rightarrow> 'a list \<Rightarrow> bool" where
  "dlist_at t live R w l xs \<longleftrightarrow> dlist_is t l xs \<and> owns (live w) R (dlist_blocks l)"

definition dlist_same :: "('a, 'w) dlist_t \<Rightarrow> ('a, 'w) dlist_t \<Rightarrow> bool" where
  "dlist_same l l' \<longleftrightarrow> d_self l' = d_self l \<and> d_elem_size l' = d_elem_size l \<and> d_alloc l' = d_alloc l"

definition dlist_frame :: "(addr \<rightharpoonup> size_t) \<Rightarrow> ('a, 'w) dlist_t \<Rightarrow> (addr \<rightharpoonup> size_t)" where
  "dlist_frame R l = R(d_self l \<mapsto> sizeof_dlist_t)"

lemma dlist_atE:
  assumes "dlist_at t live R w l xs"
  obtains as where "d_alloc l = Some t" and "elem_size_ok (d_elem_size l)" and "d_self l \<notin> dom R"
    and "owns (live w) (dlist_frame R l) (node_blocks (dlist_node_alloc_size (d_elem_size l)) (d_nodes l))"
    and "dlist_nodes_are l as xs"
  using assms owns_wrap_iff [of "d_self l" "node_blocks (dlist_node_alloc_size (d_elem_size l)) (d_nodes l)"
      "live w" R sizeof_dlist_t]
  by (auto simp: dlist_at_def dlist_is_def dlist_blocks_def dlist_frame_def)

lemma dlist_atI:
  assumes "d_alloc l = Some t" and "elem_size_ok (d_elem_size l)" and "d_self l \<notin> dom R"
    and "owns (live w) (dlist_frame R l) (node_blocks (dlist_node_alloc_size (d_elem_size l)) (d_nodes l))"
    and "dlist_nodes_are l as xs"
  shows "dlist_at t live R w l xs"
  using assms owns_wrap_iff [of "d_self l" "node_blocks (dlist_node_alloc_size (d_elem_size l)) (d_nodes l)"
      "live w" R sizeof_dlist_t]
  by (auto simp: dlist_at_def dlist_is_def dlist_blocks_def dlist_frame_def)

lemma dlist_is_len: "dlist_is t l xs \<Longrightarrow> dlist_len (Some l) = length xs"
  by (auto simp: dlist_is_def dlist_nodes_are_def dlist_len_def dest: data_are_length)

subsection \<open>Turning a list around\<close>

definition dn_turn :: "'a dlist_node_t \<Rightarrow> 'a dlist_node_t" where
  "dn_turn n = \<lparr>dn_prev = dn_next n, dn_next = dn_prev n, dn_data = dn_data n\<rparr>"

definition turn_nodes :: "(addr \<rightharpoonup> 'a dlist_node_t) \<Rightarrow> (addr \<rightharpoonup> 'a dlist_node_t)" where
  "turn_nodes N = (\<lambda>a. map_option dn_turn (N a))"

definition mirror :: "('a, 'w) dlist_t \<Rightarrow> ('a, 'w) dlist_t" where
  "mirror l = l\<lparr>d_head := d_tail l, d_tail := d_head l, d_nodes := turn_nodes (d_nodes l)\<rparr>"

lemma dn_turn_simps [simp]:
  "dn_prev (dn_turn n) = dn_next n" "dn_next (dn_turn n) = dn_prev n" "dn_data (dn_turn n) = dn_data n"
  by (simp_all add: dn_turn_def)

lemma dn_turn_turn [simp]: "dn_turn (dn_turn n) = n"
  by (simp add: dn_turn_def)

lemma dn_next_upd: "\<lparr>dn_prev = dn_prev n, dn_next = q, dn_data = dn_data n\<rparr> = n\<lparr>dn_next := q\<rparr>"
  by (cases n) simp

lemma mirror_simps [simp]:
  "d_head (mirror l) = d_tail l" "d_tail (mirror l) = d_head l" "d_nodes (mirror l) = turn_nodes (d_nodes l)"
  "d_len (mirror l) = d_len l" "d_self (mirror l) = d_self l" "d_elem_size (mirror l) = d_elem_size l"
  "d_alloc (mirror l) = d_alloc l"
  by (simp_all add: mirror_def)

lemma turn_nodes_upd: "turn_nodes (N(a \<mapsto> n)) = (turn_nodes N)(a \<mapsto> dn_turn n)"
  "turn_nodes (N(a := None)) = (turn_nodes N)(a := None)"
  by (auto simp: turn_nodes_def fun_upd_apply)

lemma turn_nodes_at: "turn_nodes N a = map_option dn_turn (N a)"
  by (simp add: turn_nodes_def)

lemma dom_turn_nodes [simp]: "dom (turn_nodes N) = dom N"
  by (auto simp: turn_nodes_def)

lemma chain_turn:
  "chain dn_prev (turn_nodes N) p as q \<longleftrightarrow> chain dn_next N p as q"
  "chain dn_next (turn_nodes N) p as q \<longleftrightarrow> chain dn_prev N p as q"
  by (induction as arbitrary: p) (auto simp: turn_nodes_at)

lemma data_are_turn: "data_are dn_data (turn_nodes N) as xs \<longleftrightarrow> data_are dn_data N as xs"
  unfolding data_are_def by (intro list.rel_cong) (auto simp: turn_nodes_at)

lemma data_are_rev: "data_are dat N (rev as) (rev xs) \<longleftrightarrow> data_are dat N as xs"
  by (simp add: data_are_def list_all2_rev)

lemma dlist_nodes_mirror: "dlist_nodes_are (mirror l) (rev as) (rev xs) \<longleftrightarrow> dlist_nodes_are l as xs"
  by (auto simp: dlist_nodes_are_def chain_turn data_are_turn data_are_rev)

subsection \<open>The front of the nodes, and by turning around the back\<close>

lemma dlist_nodes_ConsE:
  assumes "dlist_nodes_are l as (x # xs)"
  obtains a as' n where "as = a # as'" and "d_head l = Some a" and "d_nodes l a = Some n" and "dn_data n = x"
    and "dn_prev n = None" and "chain dn_next (d_nodes l) (dn_next n) as' None"
proof -
  from assms have d: "data_are dn_data (d_nodes l) as (x # xs)" "chain dn_next (d_nodes l) (d_head l) as None"
    "chain dn_prev (d_nodes l) (d_tail l) (rev as) None" by (simp_all add: dlist_nodes_are_def)
  from d(1) obtain a as' n where a: "as = a # as'" "d_nodes l a = Some n" "dn_data n = x" by (rule data_are_ConsE)
  with d(2,3) have "d_head l = Some a" "chain dn_next (d_nodes l) (dn_next n) as' None" "dn_prev n = None"
    by (auto simp: chain_append)
  with a that show ?thesis by blast
qed

definition pushed_nodes :: "('a, 'w) dlist_t \<Rightarrow> addr \<Rightarrow> 'a \<Rightarrow> (addr \<rightharpoonup> 'a dlist_node_t)" where
  "pushed_nodes l a x =
     (let N = (d_nodes l)(a \<mapsto> \<lparr>dn_prev = None, dn_next = d_head l, dn_data = x\<rparr>) in
      case d_head l of None \<Rightarrow> N | Some h \<Rightarrow> N(h \<mapsto> (the (N h))\<lparr>dn_prev := Some a\<rparr>))"

definition pushed :: "('a, 'w) dlist_t \<Rightarrow> addr \<Rightarrow> 'a \<Rightarrow> ('a, 'w) dlist_t" where
  "pushed l a x = l\<lparr>d_nodes := pushed_nodes l a x, d_head := Some a,
     d_tail := (if d_head l = None then Some a else d_tail l), d_len := Suc (d_len l)\<rparr>"

lemma pushed_are:
  assumes "dlist_nodes_are l as xs" and "a \<notin> dom (d_nodes l)"
  shows "dlist_nodes_are (pushed l a x) (a # as) (x # xs)"
proof (cases as)
  case Nil
  with assms show ?thesis
    by (auto simp: dlist_nodes_are_def pushed_def pushed_nodes_def data_are_def)
next
  case (Cons h bs)
  from assms have l: "distinct as" "dom (d_nodes l) = set as" "chain dn_next (d_nodes l) (d_head l) as None"
      "chain dn_prev (d_nodes l) (d_tail l) (rev as) None" "data_are dn_data (d_nodes l) as xs" "d_len l = length as"
    by (simp_all add: dlist_nodes_are_def)
  from l(3) Cons obtain n where h: "d_head l = Some h" "d_nodes l h = Some n"
      "chain dn_next (d_nodes l) (dn_next n) bs None" by auto
  have ne: "a \<noteq> h" "h \<noteq> a" "a \<notin> set as" "a \<notin> set bs" "h \<notin> set bs" using assms(2) l(1,2) Cons by auto
  define M where "M = pushed_nodes l a x"
  have M: "M = (d_nodes l)(a \<mapsto> \<lparr>dn_prev = None, dn_next = Some h, dn_data = x\<rparr>, h \<mapsto> n\<lparr>dn_prev := Some a\<rparr>)"
    using h ne by (simp add: M_def pushed_nodes_def)
  have "chain dn_next M (Some a) (a # as) None" unfolding M using h ne Cons by (simp add: chain_upd fun_upd_apply)
  moreover obtain r where r: "chain dn_prev (d_nodes l) (d_tail l) (rev bs) r" "r = Some h" "dn_prev n = None"
    using l(4) Cons h(2) by (auto simp: chain_append)
  then have "chain dn_prev M (d_tail l) (rev bs @ [h, a]) None"
    unfolding M chain_append using ne by (intro exI [of _ r]) (simp add: chain_upd fun_upd_apply)
  then have "chain dn_prev M (d_tail l) (rev (a # as)) None" by (simp add: Cons)
  moreover have "data_are dn_data M as xs"
    unfolding M using l(5) ne data_are_upd_same [of "(d_nodes l)(a \<mapsto> \<lparr>dn_prev = None, dn_next = Some h, dn_data = x\<rparr>)"
        h n dn_data "n\<lparr>dn_prev := Some a\<rparr>"] h(2) by (simp add: data_are_upd)
  moreover have "dom M = set (a # as)" unfolding M using l(2) Cons by auto
  moreover have "M a = Some \<lparr>dn_prev = None, dn_next = Some h, dn_data = x\<rparr>" unfolding M using ne by simp
  ultimately show ?thesis using l ne h(1)
    by (simp add: dlist_nodes_are_def pushed_def M_def [symmetric] data_are_Cons)
qed

lemma pushed_back_are:
  assumes "dlist_nodes_are l as xs" and "a \<notin> dom (d_nodes l)"
  shows "dlist_nodes_are (mirror (pushed (mirror l) a x)) (as @ [a]) (xs @ [x])"
proof -
  have "dlist_nodes_are (pushed (mirror l) a x) (a # rev as) (x # rev xs)"
    by (rule pushed_are) (use assms in \<open>simp_all add: dlist_nodes_mirror\<close>)
  then show ?thesis
    using dlist_nodes_mirror [of "pushed (mirror l) a x" "a # rev as" "x # rev xs"] by simp
qed

definition unlinked :: "('a, 'w) dlist_t \<Rightarrow> addr \<Rightarrow> addr option \<Rightarrow> ('a, 'w) dlist_t" where
  "unlinked l a p = l\<lparr>
     d_nodes := (case p of None \<Rightarrow> (d_nodes l)(a := None)
                 | Some h \<Rightarrow> (d_nodes l)(h \<mapsto> (the (d_nodes l h))\<lparr>dn_prev := None\<rparr>, a := None)),
     d_head := p, d_tail := (if p = None then None else d_tail l), d_len := d_len l - 1\<rparr>"

lemma unlinked_are:
  assumes "dlist_nodes_are l (a # as) (x # xs)" and "d_nodes l a = Some n"
  shows "dlist_nodes_are (unlinked l a (dn_next n)) as xs"
proof -
  from assms(1) have l: "distinct (a # as)" "dom (d_nodes l) = set (a # as)"
      "chain dn_next (d_nodes l) (d_head l) (a # as) None" "chain dn_prev (d_nodes l) (d_tail l) (rev as @ [a]) None"
      "data_are dn_data (d_nodes l) (a # as) (x # xs)" "d_len l = Suc (length as)"
    by (simp_all add: dlist_nodes_are_def)
  have c: "chain dn_next (d_nodes l) (dn_next n) as None" using l(3) assms(2) by auto
  have d: "data_are dn_data (d_nodes l) as xs" using l(5) by (simp add: data_are_Cons)
  show ?thesis
  proof (cases as)
    case Nil
    with c l d assms(2) show ?thesis by (auto simp: dlist_nodes_are_def unlinked_def data_are_def)
  next
    case (Cons h bs)
    with c obtain m where h: "dn_next n = Some h" "d_nodes l h = Some m" by auto
    have ne: "a \<noteq> h" "h \<noteq> a" "a \<notin> set as" "a \<notin> set bs" "h \<notin> set bs" using l(1) Cons by auto
    let ?M = "(d_nodes l)(h \<mapsto> m\<lparr>dn_prev := None\<rparr>, a := None)"
    have "chain dn_next ?M (Some h) as None"
      using c h ne chain_upd_same [of "d_nodes l" h m dn_next "m\<lparr>dn_prev := None\<rparr>"] by (simp add: chain_upd)
    moreover obtain r where r: "chain dn_prev (d_nodes l) (d_tail l) (rev bs) r" "r = Some h"
      using l(4) Cons by (auto simp: chain_append)
    then have "chain dn_prev ?M (d_tail l) (rev bs @ [h]) None"
      unfolding chain_append using ne by (intro exI [of _ r]) (simp add: chain_upd fun_upd_apply)
    moreover have "data_are dn_data ?M as xs"
      using d ne data_are_upd_same [of "d_nodes l" h m dn_data "m\<lparr>dn_prev := None\<rparr>"] h(2) by (simp add: data_are_upd)
    moreover have "dom ?M = set as" using l(2) Cons ne by auto
    ultimately show ?thesis using l(1,6) h Cons by (simp add: dlist_nodes_are_def unlinked_def)
  qed
qed

lemma unlinked_back_are:
  assumes "dlist_nodes_are l (as @ [a]) (xs @ [x])" and "d_nodes l a = Some n"
  shows "dlist_nodes_are (mirror (unlinked (mirror l) a (dn_prev n))) as xs"
proof -
  have "dlist_nodes_are (unlinked (mirror l) a (dn_next (dn_turn n))) (rev as) (rev xs)"
    by (rule unlinked_are [of _ _ _ x])
      (use assms dlist_nodes_mirror [of l "as @ [a]" "xs @ [x]"] in \<open>simp_all add: turn_nodes_at\<close>)
  then show ?thesis
    using dlist_nodes_mirror [of "unlinked (mirror l) a (dn_prev n)" "rev as" "rev xs"] by simp
qed

subsection \<open>What the operations leave\<close>

lemma turn_turn [simp]: "turn_nodes (turn_nodes N) = N"
  by (auto simp: turn_nodes_def option.map_comp comp_def option.map_ident)

lemma dlist_nodes_snocE:
  assumes "dlist_nodes_are l as (xs @ [x])"
  obtains as' a n where "as = as' @ [a]" and "d_tail l = Some a" and "d_nodes l a = Some n" and "dn_data n = x"
    and "dn_next n = None" and "chain dn_prev (d_nodes l) (dn_prev n) (rev as') None"
proof -
  have "dlist_nodes_are (mirror l) (rev as) (x # rev xs)" using assms dlist_nodes_mirror [of l as "xs @ [x]"] by simp
  then obtain a bs m where m: "rev as = a # bs" "d_head (mirror l) = Some a" "d_nodes (mirror l) a = Some m"
    "dn_data m = x" "dn_prev m = None" "chain dn_next (d_nodes (mirror l)) (dn_next m) bs None"
    by (rule dlist_nodes_ConsE)
  from m(3) obtain n where n: "d_nodes l a = Some n" "m = dn_turn n" by (auto simp: turn_nodes_at)
  from m(1) have "as = rev bs @ [a]" by (metis rev.simps(2) rev_rev_ident)
  with m n that [of "rev bs" a n] show ?thesis by (simp add: chain_turn)
qed

lemma dlist_nodes_Nil:
  "dlist_nodes_are l as [] \<Longrightarrow> as = [] \<and> d_head l = None \<and> d_tail l = None \<and> d_len l = 0 \<and> d_nodes l = Map.empty"
  by (auto simp: dlist_nodes_are_def data_are_def)

lemma dlist_head_tail:
  assumes "dlist_nodes_are l as xs"
  shows "d_head l = None \<longleftrightarrow> as = []" and "d_tail l = None \<longleftrightarrow> as = []"
    and "d_head l = Some h \<Longrightarrow> \<exists>n. d_nodes l h = Some n" and "d_tail l = Some b \<Longrightarrow> \<exists>n. d_nodes l b = Some n"
proof -
  from assms have d: "chain dn_next (d_nodes l) (d_head l) as None" "chain dn_prev (d_nodes l) (d_tail l) (rev as) None"
    by (simp_all add: dlist_nodes_are_def)
  show "d_head l = None \<longleftrightarrow> as = []" "d_head l = Some h \<Longrightarrow> \<exists>n. d_nodes l h = Some n"
    using d(1) by (cases as; auto)+
  show "d_tail l = None \<longleftrightarrow> as = []" "d_tail l = Some b \<Longrightarrow> \<exists>n. d_nodes l b = Some n"
    using d(2) by (cases as rule: rev_cases; auto)+
qed

lemma pushed_dom: "(\<And>h. d_head l = Some h \<Longrightarrow> h \<in> dom (d_nodes l)) \<Longrightarrow> dom (d_nodes (pushed l a x)) = insert a (dom (d_nodes l))"
  by (cases "d_head l") (simp_all add: pushed_def pushed_nodes_def Let_def insert_absorb insert_commute [of a])

lemma unlinked_dom: "(\<And>h. p = Some h \<Longrightarrow> h \<in> dom (d_nodes l)) \<Longrightarrow> dom (d_nodes (unlinked l a p)) = dom (d_nodes l) - {a}"
  by (cases p) (auto simp: unlinked_def)

text \<open>The two pushes write exactly these nodes, and unlinking at either end exactly those.\<close>

lemma dlist_push_front_eval:
  assumes "dlist_make_node l x w =
      Some (Some a, l\<lparr>d_nodes := (d_nodes l)(a \<mapsto> \<lparr>dn_prev = None, dn_next = None, dn_data = x\<rparr>)\<rparr>, w')"
    and "dlist_nodes_are l as xs" and "a \<notin> dom (d_nodes l)"
  shows "dlist_push_front (Some l) (Some x) w = Some (SEQC_OK, Some (pushed l a x), w')"
proof (cases "d_head l")
  case None
  with assms(1) show ?thesis
    by (simp add: dlist_push_front_def dset_next_def pushed_def pushed_nodes_def)
next
  case (Some h)
  with dlist_head_tail(3) [OF assms(2)] obtain n where "d_nodes l h = Some n" by blast
  moreover from this assms(3) have "h \<noteq> a" by auto
  ultimately show ?thesis using assms(1) Some
    by (simp add: dlist_push_front_def dset_next_def dset_prev_def pushed_def pushed_nodes_def)
qed

lemma dlist_push_back_eval:
  assumes "dlist_make_node l x w =
      Some (Some a, l\<lparr>d_nodes := (d_nodes l)(a \<mapsto> \<lparr>dn_prev = None, dn_next = None, dn_data = x\<rparr>)\<rparr>, w')"
    and "dlist_nodes_are l as xs" and "a \<notin> dom (d_nodes l)"
  shows "dlist_push_back (Some l) (Some x) w = Some (SEQC_OK, Some (mirror (pushed (mirror l) a x)), w')"
proof (cases "d_tail l")
  case None
  then have "d_head l = None" using dlist_head_tail(1,2) [OF assms(2)] by simp
  with None assms(1) show ?thesis
    by (simp add: dlist_push_back_def dset_prev_def pushed_def pushed_nodes_def mirror_def turn_nodes_upd dn_turn_def)
next
  case (Some b)
  with dlist_head_tail(4) [OF assms(2)] obtain n where "d_nodes l b = Some n" by blast
  moreover from this assms(3) have "b \<noteq> a" by auto
  ultimately show ?thesis using assms(1) Some
    by (simp add: dlist_push_back_def dset_prev_def dset_next_def pushed_def pushed_nodes_def mirror_def
        turn_nodes_upd dn_turn_def turn_nodes_at dn_next_upd)
qed

lemma dlist_unlink_front_eval:
  assumes "dlist_nodes_are l (a # as) xs" and "d_nodes l a = Some n" and "dn_prev n = None"
    and "mem_free (d_alloc l) (Some a) (dlist_node_alloc_size (d_elem_size l)) w = Some w'"
  shows "dlist_unlink_and_free l a w = Some (unlinked l a (dn_next n), w')"
proof (cases "dn_next n")
  case None
  with assms show ?thesis by (simp add: dlist_unlink_and_free_def unlinked_def)
next
  case (Some h)
  with assms(1,2) have "\<exists>m. d_nodes l h = Some m" "h \<noteq> a"
    by (cases as; auto simp: dlist_nodes_are_def)+
  with Some assms(2-) show ?thesis
    by (auto simp: dlist_unlink_and_free_def unlinked_def dset_prev_def)
qed

lemma dlist_unlink_back_eval:
  assumes "dlist_nodes_are l (as @ [a]) xs" and "d_nodes l a = Some n" and "dn_next n = None"
    and "mem_free (d_alloc l) (Some a) (dlist_node_alloc_size (d_elem_size l)) w = Some w'"
  shows "dlist_unlink_and_free l a w = Some (mirror (unlinked (mirror l) a (dn_prev n)), w')"
proof (cases "dn_prev n")
  case None
  with assms show ?thesis
    by (simp add: dlist_unlink_and_free_def unlinked_def mirror_def turn_nodes_upd)
next
  case (Some b)
  with assms(1,2) have "\<exists>m. d_nodes l b = Some m" "b \<noteq> a"
    by (cases as rule: rev_cases; auto simp: dlist_nodes_are_def)+
  with Some assms(2-) show ?thesis
    by (auto simp: dlist_unlink_and_free_def unlinked_def dset_next_def mirror_def turn_nodes_upd turn_nodes_at
        dn_turn_def dn_next_upd)
qed

context heap_allocator begin

lemma dlist_make_node_at:
  assumes "dlist_at t live R w l xs"
  obtains (granted) a w' where
      "dlist_make_node l x w =
        Some (Some a, l\<lparr>d_nodes := (d_nodes l)(a \<mapsto> \<lparr>dn_prev = None, dn_next = None, dn_data = x\<rparr>)\<rparr>, w')"
      and "a \<notin> dom (d_nodes l)"
      and "\<And>n. owns (live w') (dlist_frame R l)
        (node_blocks (dlist_node_alloc_size (d_elem_size l)) ((d_nodes l)(a \<mapsto> n)))"
  | (refused) w' where "dlist_make_node l x w = Some (None, l, w')" and "dlist_at t live R w' l xs"
      and "refuses t (growth (d_elem_size l) (length xs))"
proof -
  from assms obtain as where l: "d_alloc l = Some t" "elem_size_ok (d_elem_size l)" "d_self l \<notin> dom R"
    "owns (live w) (dlist_frame R l) (node_blocks (dlist_node_alloc_size (d_elem_size l)) (d_nodes l))"
    "dlist_nodes_are l as xs" by (rule dlist_atE)
  from l(4) show ?thesis
  proof (cases rule: node_alloc)
    case (granted a w')
    have "dlist_make_node l x w =
        Some (Some a, l\<lparr>d_nodes := (d_nodes l)(a \<mapsto> \<lparr>dn_prev = None, dn_next = None, dn_data = x\<rparr>)\<rparr>, w')"
      using granted(1) l(1) by (simp add: dlist_make_node_def del: mem_alloc.simps)
    then show ?thesis using that(1) granted by blast
  next
    case (refused w')
    have "dlist_at t live R w' l xs" using l refused(2) by (intro dlist_atI)
    moreover have "refuses t (growth (d_elem_size l) (length xs))"
      by (rule refuses_node [OF refused(3) [unfolded dlist_node_alloc_size_def]]) (simp add: sizeof_dlist_node_t_def)
    ultimately show ?thesis using that(2) refused(1) l(1) by (simp add: dlist_make_node_def del: mem_alloc.simps)
  qed
qed

text \<open>Ownership follows the domain of the node map.\<close>

lemma dlist_at_nodes:
  assumes "dlist_at t live R w l xs" and "dlist_same l l'" and "dom (d_nodes l') = dom N"
    and "owns (live w') (dlist_frame R l) (node_blocks (dlist_node_alloc_size (d_elem_size l)) N)"
    and "dlist_nodes_are l' as ys"
  shows "dlist_at t live R w' l' ys"
  using assms(1)
proof (rule dlist_atE)
  fix bs
  assume l: "d_alloc l = Some t" "elem_size_ok (d_elem_size l)" "d_self l \<notin> dom R"
  have "node_blocks (dlist_node_alloc_size (d_elem_size l)) (d_nodes l') =
      node_blocks (dlist_node_alloc_size (d_elem_size l)) N" by (rule node_blocks_cong [OF assms(3)])
  with l assms show ?thesis by (intro dlist_atI) (simp_all add: dlist_same_def dlist_frame_def)
qed

lemma dlist_same_pushed [simp]:
  "dlist_same l (pushed l a x)" "dlist_same l (mirror (pushed (mirror l) a x))"
  "dlist_same l (unlinked l a p)" "dlist_same l (mirror (unlinked (mirror l) a p))"
  by (simp_all add: dlist_same_def pushed_def unlinked_def)

lemma dlist_push_front_at:
  assumes at: "dlist_at t live R w l xs"
  obtains (ok) l' w' where "dlist_push_front (Some l) (Some x) w = Some (SEQC_OK, Some l', w')"
      and "dlist_at t live R w' l' (x # xs)" and "dlist_same l l'"
  | (oom) w' where "dlist_push_front (Some l) (Some x) w = Some (SEQC_OOM, Some l, w')"
      and "dlist_at t live R w' l xs" and "refuses t (growth (d_elem_size l) (length xs))"
  using at
proof (cases rule: dlist_make_node_at [where x = x])
  case (granted a w')
  from at obtain as where as: "dlist_nodes_are l as xs" by (rule dlist_atE)
  have "dlist_at t live R w' (pushed l a x) (x # xs)"
  proof (rule dlist_at_nodes [OF at _ _ granted(3) pushed_are [OF as granted(2)]])
    show "dom (d_nodes (pushed l a x)) = dom ((d_nodes l)(a \<mapsto> undefined))"
      using dlist_head_tail(3) [OF as] by (subst pushed_dom) auto
  qed simp
  then show ?thesis
    by (intro ok [OF dlist_push_front_eval [OF granted(1) as granted(2)]]) simp_all
next
  case (refused w')
  then show ?thesis by (intro oom [of w']) (simp_all add: dlist_push_front_def)
qed

lemma dlist_push_back_at:
  assumes at: "dlist_at t live R w l xs"
  obtains (ok) l' w' where "dlist_push_back (Some l) (Some x) w = Some (SEQC_OK, Some l', w')"
      and "dlist_at t live R w' l' (xs @ [x])" and "dlist_same l l'"
  | (oom) w' where "dlist_push_back (Some l) (Some x) w = Some (SEQC_OOM, Some l, w')"
      and "dlist_at t live R w' l xs" and "refuses t (growth (d_elem_size l) (length xs))"
  using at
proof (cases rule: dlist_make_node_at [where x = x])
  case (granted a w')
  from at obtain as where as: "dlist_nodes_are l as xs" by (rule dlist_atE)
  have "dlist_at t live R w' (mirror (pushed (mirror l) a x)) (xs @ [x])"
  proof (rule dlist_at_nodes [OF at _ _ granted(3) pushed_back_are [OF as granted(2)]])
    show "dom (d_nodes (mirror (pushed (mirror l) a x))) = dom ((d_nodes l)(a \<mapsto> undefined))"
      using dlist_head_tail(4) [OF as] pushed_dom [of "mirror l" a x] by auto
  qed simp
  then show ?thesis
    by (intro ok [OF dlist_push_back_eval [OF granted(1) as granted(2)]]) simp_all
next
  case (refused w')
  then show ?thesis by (intro oom [of w']) (simp_all add: dlist_push_back_def)
qed

lemma dlist_pop_front_at:
  assumes at: "dlist_at t live R w l (x # xs)"
  obtains l' w' where "dlist_pop_front (Some l) out w = Some (SEQC_OK, if out then Some x else None, Some l', w')"
    and "dlist_at t live R w' l' xs" and "dlist_same l l'"
proof -
  from at obtain bs where l: "d_alloc l = Some t" 
    "owns (live w) (dlist_frame R l) (node_blocks (dlist_node_alloc_size (d_elem_size l)) (d_nodes l))"
    "dlist_nodes_are l bs (x # xs)" by (rule dlist_atE)
  from l(3) obtain a as n where a: "bs = a # as" "d_head l = Some a" "d_nodes l a = Some n" "dn_data n = x"
    "dn_prev n = None" "chain dn_next (d_nodes l) (dn_next n) as None" by (rule dlist_nodes_ConsE)
  obtain w' where w': "mem_free (Some t) (Some a) (dlist_node_alloc_size (d_elem_size l)) w = Some w'"
    "owns (live w') (dlist_frame R l) (node_blocks (dlist_node_alloc_size (d_elem_size l)) ((d_nodes l)(a := None)))"
    by (rule node_free [of w "dlist_frame R l" _ "d_nodes l" a n, OF l(2) a(3)])
  have u: "dlist_unlink_and_free l a w = Some (unlinked l a (dn_next n), w')"
    by (rule dlist_unlink_front_eval [OF l(3) [unfolded a(1)] a(3,5)]) (simp only: l(1) w'(1))
  have "dlist_at t live R w' (unlinked l a (dn_next n)) xs"
  proof (rule dlist_at_nodes [OF at _ _ w'(2) unlinked_are [OF l(3) [unfolded a(1)] a(3)]])
    have "h \<in> dom (d_nodes l)" if "dn_next n = Some h" for h
      using a(6) that by (cases as) auto
    then show "dom (d_nodes (unlinked l a (dn_next n))) = dom ((d_nodes l)(a := None))"
      using unlinked_dom [of "dn_next n" l a] by simp
  qed simp
  moreover have "dlist_pop_front (Some l) out w =
      Some (SEQC_OK, if out then Some x else None, Some (unlinked l a (dn_next n)), w')"
    using a u by (simp add: dlist_pop_front_def dlist_node_data_def)
  ultimately show ?thesis using that by simp
qed

lemma dlist_pop_back_at:
  assumes at: "dlist_at t live R w l (xs @ [x])"
  obtains l' w' where "dlist_pop_back (Some l) out w = Some (SEQC_OK, if out then Some x else None, Some l', w')"
    and "dlist_at t live R w' l' xs" and "dlist_same l l'"
proof -
  from at obtain bs where l: "d_alloc l = Some t" 
    "owns (live w) (dlist_frame R l) (node_blocks (dlist_node_alloc_size (d_elem_size l)) (d_nodes l))"
    "dlist_nodes_are l bs (xs @ [x])" by (rule dlist_atE)
  from l(3) obtain as a n where a: "bs = as @ [a]" "d_tail l = Some a" "d_nodes l a = Some n" "dn_data n = x"
    "dn_next n = None" "chain dn_prev (d_nodes l) (dn_prev n) (rev as) None" by (rule dlist_nodes_snocE)
  obtain w' where w': "mem_free (Some t) (Some a) (dlist_node_alloc_size (d_elem_size l)) w = Some w'"
    "owns (live w') (dlist_frame R l) (node_blocks (dlist_node_alloc_size (d_elem_size l)) ((d_nodes l)(a := None)))"
    by (rule node_free [of w "dlist_frame R l" _ "d_nodes l" a n, OF l(2) a(3)])
  let ?l = "mirror (unlinked (mirror l) a (dn_prev n))"
  have u: "dlist_unlink_and_free l a w = Some (?l, w')"
    by (rule dlist_unlink_back_eval [OF l(3) [unfolded a(1)] a(3,5)]) (simp only: l(1) w'(1))
  have "dlist_at t live R w' ?l xs"
  proof (rule dlist_at_nodes [OF at _ _ w'(2) unlinked_back_are [OF l(3) [unfolded a(1)] a(3)]])
    have "h \<in> dom (d_nodes (mirror l))" if "dn_prev n = Some h" for h
      using a(6) that by (cases as rule: rev_cases) auto
    then show "dom (d_nodes ?l) = dom ((d_nodes l)(a := None))"
      using unlinked_dom [of "dn_prev n" "mirror l" a] by auto
  qed simp
  moreover have "dlist_pop_back (Some l) out w = Some (SEQC_OK, if out then Some x else None, Some ?l, w')"
    using a u by (simp add: dlist_pop_back_def dlist_node_data_def)
  ultimately show ?thesis using that by simp
qed

end

lemma dlist_pop_empty:
  assumes "dlist_is t l []"
  shows "dlist_pop_front (Some l) out w = Some (SEQC_NOT_FOUND, None, Some l, w)"
    and "dlist_pop_back (Some l) out w = Some (SEQC_NOT_FOUND, None, Some l, w)"
  using assms by (auto simp: dlist_is_def dlist_pop_front_def dlist_pop_back_def dest: dlist_nodes_Nil)

lemma dlist_front_is:
  assumes "dlist_is t l xs"
  shows "dlist_front (Some l) out =
    Some (if xs = [] then (SEQC_NOT_FOUND, None) else (SEQC_OK, if out then Some (hd xs) else None))"
proof -
  from assms obtain as where as: "dlist_nodes_are l as xs" by (auto simp: dlist_is_def)
  show ?thesis
  proof (cases xs)
    case Nil
    with as dlist_nodes_Nil [of l as] show ?thesis by (simp add: dlist_front_def dlist_front_ptr_def)
  next
    case (Cons x ys)
    from as [unfolded Cons] obtain a n where "d_head l = Some a" "d_nodes l a = Some n" "dn_data n = x"
      by (rule dlist_nodes_ConsE)
    with Cons show ?thesis by (simp add: dlist_front_def dlist_front_ptr_def dlist_node_data_def)
  qed
qed

lemma dlist_back_is:
  assumes "dlist_is t l xs"
  shows "dlist_back (Some l) out =
    Some (if xs = [] then (SEQC_NOT_FOUND, None) else (SEQC_OK, if out then Some (last xs) else None))"
proof -
  from assms obtain as where as: "dlist_nodes_are l as xs" by (auto simp: dlist_is_def)
  show ?thesis
  proof (cases xs rule: rev_cases)
    case Nil
    with as dlist_nodes_Nil [of l as] show ?thesis by (simp add: dlist_back_def dlist_back_ptr_def)
  next
    case (snoc ys x)
    from as [unfolded snoc] obtain a n where "d_tail l = Some a" "d_nodes l a = Some n" "dn_data n = x"
      by (rule dlist_nodes_snocE)
    with snoc show ?thesis by (simp add: dlist_back_def dlist_back_ptr_def dlist_node_data_def)
  qed
qed

context heap_allocator begin

subsection \<open>Creation and destruction\<close>

lemma dlist_create_at:
  assumes "elem_size_ok es" and "live w = R"
  obtains (ok) l :: "('e, 'w) dlist_t" and w' where "dlist_create es (Some t) w = Some (Some l, w')"
      and "dlist_at t live R w' l []" and "d_elem_size l = es"
  | (oom) w' where "dlist_create es (Some t) w = Some (None :: ('e, 'w) dlist_t option, w')" and "live w' = R"
      and "starved (Some t)"
proof (cases rule: iter_state_alloc [of sizeof_dlist_t w])
  case (granted a w')
  let ?l = "\<lparr>d_self = a, d_head = None, d_tail = None, d_len = 0, d_elem_size = es, d_alloc = Some t, d_nodes = Map.empty\<rparr>"
  have "dlist_create es (Some t) w = Some (Some ?l, w')"
    using granted(1) by (simp add: dlist_create_def del: mem_alloc.simps)
  then show ?thesis
    by (rule ok) (use granted(2) assms in
      \<open>simp_all add: dlist_at_def dlist_is_def dlist_nodes_are_def dlist_blocks_def data_are_def\<close>)
next
  case (refused w')
  then show ?thesis using assms starved_small [OF refused(3)] by (intro oom [of w']) (simp_all add: dlist_create_def del: mem_alloc.simps)
qed

lemma dlist_clear_at:
  assumes at: "dlist_at t live R w l xs"
  obtains l' w' where "dlist_clear (Some l) w = Some (Some l', w')" and "dlist_at t live R w' l' []"
    and "dlist_same l l'" and "live w' = dlist_frame R l"
proof -
  from at obtain as where l: "d_alloc l = Some t" "elem_size_ok (d_elem_size l)" "d_self l \<notin> dom R"
    "owns (live w) (dlist_frame R l) (node_blocks (dlist_node_alloc_size (d_elem_size l)) (d_nodes l))"
    "dlist_nodes_are l as xs" by (rule dlist_atE)
  from l(5) have "\<exists>w'. free_chain (Some t) (dlist_node_alloc_size (d_elem_size l)) dn_next (d_nodes l) (d_head l) w =
      Some (Map.empty, w') \<and> live w' = dlist_frame R l"
    by (intro free_chain_at [OF _ _ _ l(4)]) (auto simp: dlist_nodes_are_def)
  then obtain w' where w': "free_chain (Some t) (dlist_node_alloc_size (d_elem_size l)) dn_next (d_nodes l) (d_head l) w =
      Some (Map.empty, w')" "live w' = dlist_frame R l" by blast
  let ?l = "l\<lparr>d_nodes := Map.empty, d_head := None, d_tail := None, d_len := 0\<rparr>"
  have "dlist_at t live R w' ?l []"
    by (rule dlist_atI [where as = "[]"])
      (use l w'(2) in \<open>simp_all add: dlist_frame_def dlist_nodes_are_def data_are_def\<close>)
  moreover have "dlist_clear (Some l) w = Some (Some ?l, w')" using w'(1) l(1) by (simp add: dlist_clear_def)
  ultimately show ?thesis using that w'(2) by (simp add: dlist_same_def)
qed

lemma dlist_destroy_at:
  assumes at: "dlist_at t live R w l xs"
  obtains w' where "dlist_destroy (Some l) w = Some w'" and "live w' = R"
proof -
  from at have l: "d_alloc l = Some t" "d_self l \<notin> dom R" by (auto elim: dlist_atE)
  from at obtain l1 w1 where c: "dlist_clear (Some l) w = Some (Some l1, w1)" "live w1 = dlist_frame R l"
    by (rule dlist_clear_at)
  have o: "owns (live w1) (R(d_self l \<mapsto> sizeof_dlist_t)) Map.empty" using c(2) by (simp add: dlist_frame_def)
  obtain w2 where "mem_free (Some t) (Some (d_self l)) sizeof_dlist_t w1 = Some w2" "owns (live w2) R Map.empty"
    by (rule release_held [OF o l(2)])
  with c(1) l(1) that show ?thesis by (simp add: dlist_destroy_def del: mem_free.simps)
qed

subsection \<open>Iterating and extending\<close>

lemma dlist_iter_closes:
  "di_self s = a \<Longrightarrow>
   iter_closes live (iter_make nx (dlist_iter_drop (Some t)) s es al) [a \<mapsto> sizeof_dlist_iter_state_t]"
  by (rule iter_closes_block) (simp add: dlist_iter_drop_def)

text \<open>One lemma for both directions: \<open>step\<close> follows the link \<open>lnk\<close>.\<close>

lemma dlist_iter_rep:
  assumes step: "\<And>s w. step s w = (case di_current s of None \<Rightarrow> Some (None, s, w :: 'w)
      | Some a \<Rightarrow> do { n \<leftarrow> di_nodes s a; Some (Some (dn_data n), s\<lparr>di_current := lnk n\<rparr>, w) })"
    and "chain lnk (di_nodes s) (di_current s) as None" and "data_are dn_data (di_nodes s) as xs"
    and "di_self s = a"
  shows "iter_rep live xs (iter_make step (dlist_iter_drop (Some t)) s es al) [a \<mapsto> sizeof_dlist_iter_state_t]"
  using assms(2-)
proof (induction xs arbitrary: as s)
  case Nil
  then have "di_current s = None" by (auto simp: data_are_def)
  then have "step s w = Some (None, s, w)" for w by (simp add: step)
  then show ?case using Nil.prems(3)
    by (intro iter_rep_Nil_still [OF dlist_iter_closes _ dlist_iter_closes]) auto
next
  case (Cons x xs)
  from Cons.prems(2) obtain b as' n where b: "as = b # as'" "di_nodes s b = Some n" "dn_data n = x"
    "data_are dn_data (di_nodes s) as' xs" by (rule data_are_ConsE)
  let ?s = "s\<lparr>di_current := lnk n\<rparr>"
  have "iter_rep live xs (iter_make step (dlist_iter_drop (Some t)) ?s es al) [a \<mapsto> sizeof_dlist_iter_state_t]"
    by (rule Cons.IH [of ?s as']) (use Cons.prems b in auto)
  moreover have "step s w = Some (Some x, ?s, w)" for w
    using Cons.prems(1) b by (auto simp: step)
  ultimately show ?case using Cons.prems by (intro iter_rep_Cons_still dlist_iter_closes) auto
qed

lemma dlist_iter_built:
  assumes "dlist_is t l xs"
  shows "iter_built live (Some t) (live w) (d_elem_size l) xs (dlist_iter (Some l) w)"
proof (cases rule: iter_state_alloc [of sizeof_dlist_iter_state_t w])
  case (granted a w')
  from assms obtain as where l: "d_alloc l = Some t" "dlist_nodes_are l as xs" by (auto simp: dlist_is_def)
  show ?thesis
    by (rule iter_built_valid [OF _ _ _ granted(2) dlist_iter_rep [OF dlist_iter_next_fwd_def, of
          "\<lparr>di_self = a, di_current = d_head l, di_elem_size = d_elem_size l, di_nodes = d_nodes l\<rparr>" as xs a
            "d_elem_size l" "Some t"]])
      (use l granted(1) in \<open>simp_all add: dlist_iter_def dlist_nodes_are_def del: mem_alloc.simps\<close>)
next
  case (refused w')
  then show ?thesis using assms
    by (intro iter_built_zero [of _ w']) (simp_all add: starved_small [OF refused(3)] dlist_iter_def dlist_is_def del: mem_alloc.simps)
qed

lemma dlist_iter_rev_built:
  assumes "dlist_is t l xs"
  shows "iter_built live (Some t) (live w) (d_elem_size l) (rev xs) (dlist_iter_rev (Some l) w)"
proof (cases rule: iter_state_alloc [of sizeof_dlist_iter_state_t w])
  case (granted a w')
  from assms obtain as where l: "d_alloc l = Some t" "dlist_nodes_are l as xs" by (auto simp: dlist_is_def)
  show ?thesis
    by (rule iter_built_valid [OF _ _ _ granted(2) dlist_iter_rep [OF dlist_iter_next_rev_def, of
          "\<lparr>di_self = a, di_current = d_tail l, di_elem_size = d_elem_size l, di_nodes = d_nodes l\<rparr>" "rev as" "rev xs" a
            "d_elem_size l" "Some t"]])
      (use l granted(1) in \<open>simp_all add: dlist_iter_rev_def dlist_nodes_are_def data_are_rev del: mem_alloc.simps\<close>)
next
  case (refused w')
  then show ?thesis using assms
    by (intro iter_built_zero [of _ w']) (simp_all add: starved_small [OF refused(3)] dlist_iter_rev_def dlist_is_def del: mem_alloc.simps)
qed

lemma dlist_collection:
  "collection_add t live dlist_push_back dlist_blocks (dlist_is t) (\<lambda>xs x. xs @ [x]) dlist_same
    (\<lambda>c xs. refuses t (growth (d_elem_size c) (length xs)))"
proof unfold_locales
  fix l :: "('e, 'w) dlist_t" and xs :: "'e list" and w R x
  assume "dlist_is t l xs" "owns (live w) R (dlist_blocks l)"
  then have "dlist_at t live R w l xs" by (simp add: dlist_at_def)
  then show "\<exists>st l' w'. dlist_push_back (Some l) (Some x) w = Some (st, Some l', w') \<and>
      owns (live w') R (dlist_blocks l') \<and> dlist_same l l' \<and>
      (if st = SEQC_OK \<or> st = SEQC_DUPLICATE then dlist_is t l' (xs @ [x]) else st = SEQC_OOM \<and> dlist_is t l' xs \<and>
         refuses t (growth (d_elem_size l) (length xs)))"
    by (cases rule: dlist_push_back_at [where x = x]) (auto simp: dlist_at_def dlist_same_def)
qed (simp_all add: dlist_same_def)

lemma dlist_extend_at:
  assumes "dlist_is t l ys" and "owns2 (live w) R (dlist_blocks l) B"
    and "iter_rep live xs it B" and "iter_is_valid it" and "it_elem_size it = d_elem_size l"
  shows "\<exists>st l' w' k. dlist_extend (Some l) it w = Some (st, Some l', w') \<and> dlist_same l l' \<and>
    dlist_at t live R w' l' (ys @ take k xs) \<and>
    (st = SEQC_OK \<and> k = length xs \<or> st = SEQC_OOM \<and> k \<le> length xs \<and>
      (refuses t (growth (d_elem_size l) (length (ys @ take k xs))) \<or> k = 0 \<and> refuses t (d_elem_size l)))"
proof -
  have "dlist_extend (Some l) it w = seqc_extend (Some l) dlist_push_back (d_elem_size l) (Some t) it w"
    using assms(1) by (simp add: dlist_extend_def dlist_is_def)
  with collection_add.drain_at [OF dlist_collection assms] show ?thesis
    unfolding dlist_at_def foldl_snoc by metis
qed

end

interpretation sys_dlist: collection_add sys_allocator hp_live dlist_push_back dlist_blocks
  "dlist_is sys_allocator" "\<lambda>xs x. xs @ [x]" dlist_same
  "\<lambda>c xs. refuses sys_allocator (growth (d_elem_size c) (length xs))"
  by (rule sys.dlist_collection)

end
