(* ===== verification/Seqc_List_Lifetimes.thy ===== *)
theory Seqc_List_Lifetimes
  imports Seqc_Array_Lifetimes Seqc_List Seqc_Dlist
begin

section \<open>The linked lists against sequences\<close>

text \<open>
  Both linked lists offer the operations of a double-ended queue and owe them to the same
  specification.
\<close>

datatype 'a deque_op = PushBack 'a | PushFront 'a | PopFront | PopBack | Front | Back | Clear

fun deque_spec :: "'w vtable \<Rightarrow> size_t \<Rightarrow> 'a deque_op \<Rightarrow> 'a list \<Rightarrow> 'a answer \<Rightarrow> 'a list \<Rightarrow> bool" where
  "deque_spec t es (PushBack x) xs r ys \<longleftrightarrow> may_fail t (growth es (length xs)) xs r ys (xs @ [x])"
| "deque_spec t es (PushFront x) xs r ys \<longleftrightarrow> may_fail t (growth es (length xs)) xs r ys (x # xs)"
| "deque_spec t es PopFront xs r ys \<longleftrightarrow>
     (if xs = [] then r = (SEQC_NOT_FOUND, None) \<and> ys = [] else r = (SEQC_OK, Some (hd xs)) \<and> ys = tl xs)"
| "deque_spec t es PopBack xs r ys \<longleftrightarrow>
     (if xs = [] then r = (SEQC_NOT_FOUND, None) \<and> ys = [] else r = (SEQC_OK, Some (last xs)) \<and> ys = butlast xs)"
| "deque_spec t es Front xs r ys \<longleftrightarrow>
     ys = xs \<and> r = (if xs = [] then (SEQC_NOT_FOUND, None) else (SEQC_OK, Some (hd xs)))"
| "deque_spec t es Back xs r ys \<longleftrightarrow>
     ys = xs \<and> r = (if xs = [] then (SEQC_NOT_FOUND, None) else (SEQC_OK, Some (last xs)))"
| "deque_spec t es Clear xs r ys \<longleftrightarrow> r = (SEQC_OK, None) \<and> ys = []"

subsection \<open>\<open>list_t\<close>\<close>

fun list_call ::
  "'a deque_op \<Rightarrow> ('a, 'w) list_t option \<Rightarrow> 'w \<Rightarrow> ('a answer \<times> ('a, 'w) list_t option \<times> 'w) option" where
  "list_call (PushBack x) l w = do { (st, l, w) \<leftarrow> list_push_back l (Some x) w; Some ((st, None), l, w) }"
| "list_call (PushFront x) l w = do { (st, l, w) \<leftarrow> list_push_front l (Some x) w; Some ((st, None), l, w) }"
| "list_call PopFront l w = do { (st, x, l, w) \<leftarrow> list_pop_front l True w; Some ((st, x), l, w) }"
| "list_call PopBack l w = do { (st, x, l, w) \<leftarrow> list_pop_back l True w; Some ((st, x), l, w) }"
| "list_call Front l w = do { r \<leftarrow> list_front l True; Some (r, l, w) }"
| "list_call Back l w = do { r \<leftarrow> list_back l True; Some (r, l, w) }"
| "list_call Clear l w = do { (l, w) \<leftarrow> list_clear l w; Some ((SEQC_OK, None), l, w) }"

context heap_allocator begin

lemma list_call_pops:
  assumes l: "list_at t live R w l xs" and p: "p = PopFront \<or> p = PopBack"
  shows "\<exists>r l' w' ys. list_call p (Some l) w = Some (r, Some l', w') \<and> deque_spec t (l_elem_size l) p xs r ys \<and>
    list_at t live R w' l' ys \<and> list_same l l'"
proof (cases "xs = []")
  case True
  with p l list_pop_empty [where l = l and out = True and w = w] show ?thesis by (auto simp: list_at_def list_same_def)
next
  case False
  from l False have f: "list_at t live R w l (hd xs # tl xs)" by simp
  from l False have b: "list_at t live R w l (butlast xs @ [last xs])" by simp
  obtain l1 w1 where "list_pop_front (Some l) True w = Some (SEQC_OK, Some (hd xs), Some l1, w1)"
    "list_at t live R w1 l1 (tl xs)" "list_same l l1"
    using list_pop_front_at [OF f, of True] by (metis (full_types))
  moreover obtain l2 w2 where "list_pop_back (Some l) True w = Some (SEQC_OK, Some (last xs), Some l2, w2)"
    "list_at t live R w2 l2 (butlast xs)" "list_same l l2"
    using list_pop_back_at [OF b, of True] by (metis (full_types))
  ultimately show ?thesis using p False by auto
qed

lemma list_call_law:
  assumes l: "list_at t live R w l xs"
  shows "\<exists>r l' w' ys. list_call p (Some l) w = Some (r, Some l', w') \<and> deque_spec t (l_elem_size l) p xs r ys \<and>
    list_at t live R w' l' ys \<and> list_same l l'"
proof (cases p)
  case (PushBack x)
  from l show ?thesis unfolding PushBack by (cases rule: list_push_back_at [where x = x]) (auto simp: list_same_def)
next
  case (PushFront x)
  from l show ?thesis unfolding PushFront by (cases rule: list_push_front_at [where x = x]) (auto simp: list_same_def)
next
  case PopFront
  with list_call_pops [OF l] show ?thesis by blast
next
  case PopBack
  with list_call_pops [OF l] show ?thesis by blast
next
  case Front
  with l list_front_is [of t l xs True] show ?thesis by (auto simp: list_at_def list_same_def)
next
  case Back
  with l list_back_is [of t l xs True] show ?thesis by (auto simp: list_at_def list_same_def)
next
  case Clear
  from l obtain l' w' where "list_clear (Some l) w = Some (Some l', w')" "list_at t live R w' l' []" "list_same l l'" by (rule list_clear_at)
  with Clear show ?thesis by auto
qed

lemma list_lifetime_laws:
  assumes "elem_size_ok es"
  shows "lifetime_laws t live (list_create es (Some t)) (on_handle list_call) (\<lambda>l. list_destroy (Some l))
    (deque_spec t es) [] (\<lambda>_. True) (sized l_elem_size es (list_at t live))"
proof unfold_locales
  fix w
  show "\<exists>c w'. list_create es (Some t) w = Some (c, w') \<and>
      (case c of None \<Rightarrow> live w' = live w \<and> starved (Some t) | Some c \<Rightarrow> sized l_elem_size es (list_at t live) (live w) w' c ([] :: 'e list))"
    by (cases rule: list_create_at [OF assms refl, of w, where 'e = 'e]) (auto simp: sized_def)
next
  fix R w and p :: "'e deque_op" and l :: "('e, 'w) list_t" and xs
  assume "sized l_elem_size es (list_at t live) R w l xs"
  then show "\<exists>r l' w' ys. on_handle list_call p l w = Some (r, l', w') \<and> deque_spec t es p xs r ys \<and>
      sized l_elem_size es (list_at t live) R w' l' ys"
    using list_call_law [of R w l xs p] by (fastforce simp: sized_def list_same_def intro: on_handleI)
next
  fix R w and l :: "('e, 'w) list_t" and xs
  assume "sized l_elem_size es (list_at t live) R w l xs"
  then have "list_at t live R w l xs" by (rule sizedD)
  then show "\<exists>w'. list_destroy (Some l) w = Some w' \<and> live w' = R" by (rule list_destroy_at) blast
qed

end

interpretation sys_list_life: lifetime_laws sys_allocator hp_live "list_create 4 (Some sys_allocator)"
  "on_handle list_call" "\<lambda>l. list_destroy (Some l)" "deque_spec sys_allocator 4" "[]" "\<lambda>_. True"
  "sized l_elem_size 4 (list_at sys_allocator hp_live)"
  by (rule sys.list_lifetime_laws) (simp add: elem_size_ok_def)

subsection \<open>\<open>dlist_t\<close>\<close>

fun dlist_call ::
  "'a deque_op \<Rightarrow> ('a, 'w) dlist_t option \<Rightarrow> 'w \<Rightarrow> ('a answer \<times> ('a, 'w) dlist_t option \<times> 'w) option" where
  "dlist_call (PushBack x) l w = do { (st, l, w) \<leftarrow> dlist_push_back l (Some x) w; Some ((st, None), l, w) }"
| "dlist_call (PushFront x) l w = do { (st, l, w) \<leftarrow> dlist_push_front l (Some x) w; Some ((st, None), l, w) }"
| "dlist_call PopFront l w = do { (st, x, l, w) \<leftarrow> dlist_pop_front l True w; Some ((st, x), l, w) }"
| "dlist_call PopBack l w = do { (st, x, l, w) \<leftarrow> dlist_pop_back l True w; Some ((st, x), l, w) }"
| "dlist_call Front l w = do { r \<leftarrow> dlist_front l True; Some (r, l, w) }"
| "dlist_call Back l w = do { r \<leftarrow> dlist_back l True; Some (r, l, w) }"
| "dlist_call Clear l w = do { (l, w) \<leftarrow> dlist_clear l w; Some ((SEQC_OK, None), l, w) }"

context heap_allocator begin

lemma dlist_call_pops:
  assumes l: "dlist_at t live R w l xs" and p: "p = PopFront \<or> p = PopBack"
  shows "\<exists>r l' w' ys. dlist_call p (Some l) w = Some (r, Some l', w') \<and> deque_spec t (d_elem_size l) p xs r ys \<and>
    dlist_at t live R w' l' ys \<and> dlist_same l l'"
proof (cases "xs = []")
  case True
  with p l dlist_pop_empty [where l = l and out = True and w = w] show ?thesis by (auto simp: dlist_at_def dlist_same_def)
next
  case False
  from l False have f: "dlist_at t live R w l (hd xs # tl xs)" by simp
  from l False have b: "dlist_at t live R w l (butlast xs @ [last xs])" by simp
  obtain l1 w1 where "dlist_pop_front (Some l) True w = Some (SEQC_OK, Some (hd xs), Some l1, w1)"
    "dlist_at t live R w1 l1 (tl xs)" "dlist_same l l1"
    using dlist_pop_front_at [OF f, of True] by (metis (full_types))
  moreover obtain l2 w2 where "dlist_pop_back (Some l) True w = Some (SEQC_OK, Some (last xs), Some l2, w2)"
    "dlist_at t live R w2 l2 (butlast xs)" "dlist_same l l2"
    using dlist_pop_back_at [OF b, of True] by (metis (full_types))
  ultimately show ?thesis using p False by auto
qed

lemma dlist_call_law:
  assumes l: "dlist_at t live R w l xs"
  shows "\<exists>r l' w' ys. dlist_call p (Some l) w = Some (r, Some l', w') \<and> deque_spec t (d_elem_size l) p xs r ys \<and>
    dlist_at t live R w' l' ys \<and> dlist_same l l'"
proof (cases p)
  case (PushBack x)
  from l show ?thesis unfolding PushBack by (cases rule: dlist_push_back_at [where x = x]) (auto simp: dlist_same_def)
next
  case (PushFront x)
  from l show ?thesis unfolding PushFront by (cases rule: dlist_push_front_at [where x = x]) (auto simp: dlist_same_def)
next
  case PopFront
  with dlist_call_pops [OF l] show ?thesis by blast
next
  case PopBack
  with dlist_call_pops [OF l] show ?thesis by blast
next
  case Front
  with l dlist_front_is [of t l xs True] show ?thesis by (auto simp: dlist_at_def dlist_same_def)
next
  case Back
  with l dlist_back_is [of t l xs True] show ?thesis by (auto simp: dlist_at_def dlist_same_def)
next
  case Clear
  from l obtain l' w' where "dlist_clear (Some l) w = Some (Some l', w')" "dlist_at t live R w' l' []" "dlist_same l l'" by (rule dlist_clear_at)
  with Clear show ?thesis by auto
qed

lemma dlist_lifetime_laws:
  assumes "elem_size_ok es"
  shows "lifetime_laws t live (dlist_create es (Some t)) (on_handle dlist_call) (\<lambda>l. dlist_destroy (Some l))
    (deque_spec t es) [] (\<lambda>_. True) (sized d_elem_size es (dlist_at t live))"
proof unfold_locales
  fix w
  show "\<exists>c w'. dlist_create es (Some t) w = Some (c, w') \<and>
      (case c of None \<Rightarrow> live w' = live w \<and> starved (Some t) | Some c \<Rightarrow> sized d_elem_size es (dlist_at t live) (live w) w' c ([] :: 'e list))"
    by (cases rule: dlist_create_at [OF assms refl, of w, where 'e = 'e]) (auto simp: sized_def)
next
  fix R w and p :: "'e deque_op" and l :: "('e, 'w) dlist_t" and xs
  assume "sized d_elem_size es (dlist_at t live) R w l xs"
  then show "\<exists>r l' w' ys. on_handle dlist_call p l w = Some (r, l', w') \<and> deque_spec t es p xs r ys \<and>
      sized d_elem_size es (dlist_at t live) R w' l' ys"
    using dlist_call_law [of R w l xs p] by (fastforce simp: sized_def dlist_same_def intro: on_handleI)
next
  fix R w and l :: "('e, 'w) dlist_t" and xs
  assume "sized d_elem_size es (dlist_at t live) R w l xs"
  then have "dlist_at t live R w l xs" by (rule sizedD)
  then show "\<exists>w'. dlist_destroy (Some l) w = Some w' \<and> live w' = R" by (rule dlist_destroy_at) blast
qed

end

interpretation sys_dlist_life: lifetime_laws sys_allocator hp_live "dlist_create 4 (Some sys_allocator)"
  "on_handle dlist_call" "\<lambda>l. dlist_destroy (Some l)" "deque_spec sys_allocator 4" "[]" "\<lambda>_. True"
  "sized d_elem_size 4 (dlist_at sys_allocator hp_live)"
  by (rule sys.dlist_lifetime_laws) (simp add: elem_size_ok_def)

end
