(* ===== verification/Seqc_Adapt.thy ===== *)
theory Seqc_Adapt
  imports Seqc_Iter
begin

section \<open>Adaptors: what they share\<close>

text \<open>
  An adaptor of \<open>src/iter/iter.c\<close> owns its sources and a few blocks of its own: its state and
  perhaps a buffer. The calls it makes of its sources happen in the frame of its own blocks.
  The locale \<open>adaptor\<close> is the contract of an adaptor's two functions, stated over the sources
  alone, and shows once that such an adaptor yields its list and frees everything. Each
  adaptor proves the contract for every allocator that keeps its own, and interprets the
  locale on the allocators of the test suite.
  Then the beginning that the constructors share.
\<close>

subsection \<open>One call of a source\<close>

declare iter_rep.simps [simp del]

definition hd_opt :: "'a list \<Rightarrow> 'a option" where
  "hd_opt xs = (case xs of [] \<Rightarrow> None | x # _ \<Rightarrow> Some x)"

lemma hd_opt_simps [simp]: "hd_opt [] = None" "hd_opt (x # xs) = Some x"
  by (simp_all add: hd_opt_def)

text \<open>What is left of an iterator of \<open>xs\<close> after one call of \<open>next\<close>.\<close>

definition iter_after ::
  "('w \<Rightarrow> addr \<rightharpoonup> size_t) \<Rightarrow> 'a list \<Rightarrow> ('a, 's, 'w) iter_t \<Rightarrow> (addr \<rightharpoonup> size_t) \<Rightarrow> bool" where
  "iter_after live xs it B = (case xs of [] \<Rightarrow> iter_closes live it B | _ # ys \<Rightarrow> iter_rep live ys it B)"

lemma iter_after_simps [simp]:
  "iter_after live [] it B = iter_closes live it B"
  "iter_after live (x # ys) it B = iter_rep live ys it B"
  by (simp_all add: iter_after_def)

lemma iter_after_closes: "iter_after live xs it B \<Longrightarrow> iter_closes live it B"
  by (cases xs) (simp_all add: iter_rep_closes)

text \<open>A source keeps its element size and its allocator.\<close>

definition same_source :: "('a, 's, 'w) iter_t \<Rightarrow> ('a, 's, 'w) iter_t \<Rightarrow> bool" where
  "same_source it it' \<longleftrightarrow> it_elem_size it' = it_elem_size it \<and> it_allocator it' = it_allocator it"

lemma same_source_refl [simp]: "same_source it it"
  by (simp add: same_source_def)

lemma same_source_trans: "same_source a b \<Longrightarrow> same_source b c \<Longrightarrow> same_source a c"
  by (simp add: same_source_def)

lemma iter_next_same: "iter_next it w = Some (r, it', w') \<Longrightarrow> same_source it it'"
  by (auto simp: iter_next_def same_source_def bind_eq_Some_conv split: option.splits)

lemma iter_rep_pull:
  assumes "iter_rep live xs it B" and "owns (live w) R B"
  obtains it' w' B' where "iter_next it w = Some (hd_opt xs, it', w')" and "owns (live w') R B'"
    and "iter_after live xs it' B'" and "same_source it it'"
proof (cases xs)
  case Nil
  with assms obtain it' w' B' where "iter_next it w = Some (None, it', w')" "owns (live w') R B'"
      "iter_closes live it' B'" by (auto elim: iter_rep_NilE)
  with Nil that [of it' w' B'] iter_next_same [of it w None it' w'] show ?thesis by simp
next
  case (Cons x ys)
  with assms obtain it' w' B' where "iter_next it w = Some (Some x, it', w')" "owns (live w') R B'"
      "iter_rep live ys it' B'" by (auto elim: iter_rep_ConsE)
  with Cons that [of it' w' B'] iter_next_same [of it w "Some x" it' w'] show ?thesis by simp
qed

text \<open>A client that calls \<open>next\<close> \<open>n\<close> times, or until it is told that there is nothing left.\<close>

fun nexts :: "nat \<Rightarrow> ('a, 's, 'w) iter_t \<Rightarrow> 'w \<Rightarrow> ('a list \<times> ('a, 's, 'w) iter_t \<times> 'w) option" where
  "nexts 0 it w = Some ([], it, w)"
| "nexts (Suc n) it w = do {
     (r, it, w) \<leftarrow> iter_next it w;
     case r of
       None \<Rightarrow> Some ([], it, w)
     | Some x \<Rightarrow> do { (xs, it, w) \<leftarrow> nexts n it w; Some (x # xs, it, w) }
   }"

text \<open>
  The rule by which an iterator is shown to yield a list: an invariant \<open>Q\<close> between the list
  that is left, the state and its blocks, which every call of \<open>next\<close> keeps in every frame.
\<close>

lemma iter_rep_machine:
  assumes "Q ys s C"
    and closes: "\<And>ys s C. Q ys s C \<Longrightarrow> iter_closes live (iter_make nx dr s es al) C"
    and step: "\<And>ys s C w R. Q ys s C \<Longrightarrow> owns (live w) R C \<Longrightarrow>
      \<exists>s' w' C'. nx s w = Some (hd_opt ys, s', w') \<and> owns (live w') R C' \<and>
        (case ys of [] \<Rightarrow> iter_closes live (iter_make nx dr s' es al) C' | _ # zs \<Rightarrow> Q zs s' C')"
  shows "iter_rep live ys (iter_make nx dr s es al) C"
  using assms(1)
proof (induction ys arbitrary: s C)
  case Nil
  show ?case
  proof (rule iter_rep_NilI [OF closes [OF Nil]])
    fix w R
    assume "owns (live w) R C"
    from step [OF Nil this] show "\<exists>it' w' B'. iter_next (iter_make nx dr s es al) w = Some (None, it', w') \<and>
        owns (live w') R B' \<and> iter_closes live it' B'" by fastforce
  qed
next
  case (Cons y ys)
  show ?case
  proof (rule iter_rep_ConsI [OF closes [OF Cons.prems]])
    fix w R
    assume "owns (live w) R C"
    from step [OF Cons.prems this] obtain s' w' C' where
      "nx s w = Some (Some y, s', w')" "owns (live w') R C'" "Q ys s' C'" by auto
    then show "\<exists>it' w' B'. iter_next (iter_make nx dr s es al) w = Some (Some y, it', w') \<and>
        owns (live w') R B' \<and> iter_rep live ys it' B'"
      using Cons.IH by (intro exI conjI) (auto)
  qed
qed

subsection \<open>The contract of an adaptor\<close>

text \<open>
  \<open>holds ys s B\<close>: in state \<open>s\<close>, with sources that own the blocks \<open>B\<close>, the adaptor has \<open>ys\<close>
  still to yield. \<open>closable s B\<close>: it can be destroyed. \<open>own s\<close>: its own blocks.
\<close>

definition adaptor_drop :: "('q \<Rightarrow> 'w \<Rightarrow> 'w option) \<Rightarrow> ('q \<Rightarrow> 'w \<Rightarrow> 'w option) \<Rightarrow> 'q \<Rightarrow> 'w \<Rightarrow> 'w option" where
  "adaptor_drop close_sources release s w = do { w \<leftarrow> close_sources s w; release s w }"

locale adaptor =
  fixes live :: "'w \<Rightarrow> addr \<rightharpoonup> size_t"
    and nx :: "'q \<Rightarrow> 'w \<Rightarrow> ('b option \<times> 'q \<times> 'w) option"
    and close_sources :: "'q \<Rightarrow> 'w \<Rightarrow> 'w option"
    and release :: "'q \<Rightarrow> 'w \<Rightarrow> 'w option"
    and own :: "'q \<Rightarrow> addr \<rightharpoonup> size_t"
    and holds :: "'b list \<Rightarrow> 'q \<Rightarrow> (addr \<rightharpoonup> size_t) \<Rightarrow> bool"
    and closable :: "'q \<Rightarrow> (addr \<rightharpoonup> size_t) \<Rightarrow> bool"
  assumes close_law: "closable s B \<Longrightarrow> owns (live w) R B \<Longrightarrow> \<exists>w'. close_sources s w = Some w' \<and> live w' = R"
    and release_law: "closable s B \<Longrightarrow> owns (live w) R (own s) \<Longrightarrow> \<exists>w'. release s w = Some w' \<and> live w' = R"
    and holds_closable: "holds ys s B \<Longrightarrow> closable s B"
    and step_law: "holds ys s B \<Longrightarrow> owns (live w) R B \<Longrightarrow>
      \<exists>s' w' B'. nx s w = Some (hd_opt ys, s', w') \<and> owns (live w') R B' \<and> own s' = own s \<and>
        (case ys of [] \<Rightarrow> closable s' B' | _ # zs \<Rightarrow> holds zs s' B')"
begin

abbreviation (input) drop_fn :: "'q \<Rightarrow> 'w \<Rightarrow> 'w option" where
  "drop_fn \<equiv> adaptor_drop close_sources release"

lemma closes:
  assumes "closable s B" and "joined C B (own s)"
  shows "iter_closes live (iter_make nx drop_fn s es al) C"
  unfolding iter_closes_def
proof (intro allI impI)
  fix w R
  assume o: "owns (live w) R C"
  obtain w1 where w1: "close_sources s w = Some w1" "live w1 = R ++ own s"
    using close_law [OF assms(1) joined_open [OF assms(2) o]] by blast
  from release_law [OF assms(1) joined_rest [OF assms(2) o w1(2)]] w1(1)
  show "\<exists>w'. iter_destroy (iter_make nx drop_fn s es al) w = Some w' \<and> live w' = R"
    by (simp add: adaptor_drop_def)
qed

lemma rep:
  assumes "holds ys s B" and "joined C B (own s)"
  shows "iter_rep live ys (iter_make nx drop_fn s es al) C"
proof (rule iter_rep_machine [where Q = "\<lambda>ys s C. \<exists>B. holds ys s B \<and> joined C B (own s)"])
  show "\<exists>B. holds ys s B \<and> joined C B (own s)" using assms by blast
next
  fix ys s C
  assume "\<exists>B. holds ys s B \<and> joined C B (own s)"
  then show "iter_closes live (iter_make nx drop_fn s es al) C" using closes holds_closable by blast
next
  fix ys s C w R
  assume "\<exists>B. holds ys s B \<and> joined C B (own s)" and o: "owns (live w) R C"
  then obtain B where h: "holds ys s B" and j: "joined C B (own s)" by blast
  obtain s' w' B' where n: "nx s w = Some (hd_opt ys, s', w')" and o': "owns (live w') (R ++ own s) B'"
    and e: "own s' = own s" and c: "case ys of [] \<Rightarrow> closable s' B' | _ # zs \<Rightarrow> holds zs s' B'"
    using step_law [OF h joined_open [OF j o]] by blast
  note j' = joined_close [OF j o o']
  have "case ys of [] \<Rightarrow> iter_closes live (iter_make nx drop_fn s' es al) (B' ++ own s)
      | _ # zs \<Rightarrow> \<exists>B. holds zs s' B \<and> joined (B' ++ own s) B (own s')"
    using c closes [of s' B' "B' ++ own s"] j'(2) by (cases ys) (auto simp: e)
  with n j'(1) show "\<exists>s' w' C'. nx s w = Some (hd_opt ys, s', w') \<and> owns (live w') R C' \<and>
      (case ys of [] \<Rightarrow> iter_closes live (iter_make nx drop_fn s' es al) C'
       | _ # zs \<Rightarrow> \<exists>B. holds zs s' B \<and> joined C' B (own s'))" by blast
qed

end

context heap_allocator begin

lemma release_two:
  assumes "owns (live w) R [a \<mapsto> n, b \<mapsto> m]" and "a \<noteq> b"
  obtains w1 w2 where "mem_free (Some t) (Some b) m w = Some w1"
    and "mem_free (Some t) (Some a) n w1 = Some w2" and "live w2 = R"
proof -
  obtain w1 where w1: "mem_free (Some t) (Some b) m w = Some w1"
      "owns (live w1) R ([a \<mapsto> n, b \<mapsto> m](b := None))"
    by (rule owns_mem_free [OF assms(1), of b m]) simp_all
  have "[a \<mapsto> n, b \<mapsto> m](b := None) = [a \<mapsto> n]" using assms(2) by (auto simp: fun_eq_iff fun_upd_apply)
  with w1(2) have "owns (live w1) R [a \<mapsto> n]" by simp
  then obtain w2 where "mem_free (Some t) (Some a) n w1 = Some w2" "live w2 = R" by (rule release_one)
  with w1(1) that show ?thesis by blast
qed

end

subsection \<open>Building an adaptor\<close>

text \<open>
  How the constructors of this section begin: a failed source fails the adaptor; the state
  block is allocated with the source's allocator; if that fails the source is destroyed.
  The second form, for the adaptors with a buffer of one element, allocates the state
  and the buffer and then looks at both.
\<close>

definition adapt ::
  "('a, 's, 'w) iter_t \<Rightarrow> size_t \<Rightarrow> (addr \<Rightarrow> ('b, 'r, 'w) iter_t) \<Rightarrow> 'w \<Rightarrow> (('b, 'r, 'w) iter_t \<times> 'w) option" where
  "adapt source n mk w =
     (if \<not> iter_is_valid source then Some (iter_zero, w)
      else do {
        (s, w) \<leftarrow> mem_alloc (it_allocator source) n w;
        case s of
          None \<Rightarrow> do { w \<leftarrow> iter_destroy source w; Some (iter_zero, w) }
        | Some a \<Rightarrow> Some (mk a, w)
      })"

definition adapt_buffered ::
  "('a, 's, 'w) iter_t \<Rightarrow> size_t \<Rightarrow> (addr \<Rightarrow> addr \<Rightarrow> ('b, 'r, 'w) iter_t) \<Rightarrow> 'w \<Rightarrow> (('b, 'r, 'w) iter_t \<times> 'w) option" where
  "adapt_buffered source n mk w =
     (if \<not> iter_is_valid source then Some (iter_zero, w)
      else do {
        (s, w) \<leftarrow> mem_alloc (it_allocator source) n w;
        (buf, w) \<leftarrow> mem_alloc (it_allocator source) (it_elem_size source) w;
        case (s, buf) of
          (Some a, Some b) \<Rightarrow> Some (mk a b, w)
        | _ \<Rightarrow> do {
            w \<leftarrow> (if s = None then Some w else mem_free (it_allocator source) s n w);
            w \<leftarrow> (if buf = None then Some w else mem_free (it_allocator source) buf (it_elem_size source) w);
            w \<leftarrow> iter_destroy source w;
            Some (iter_zero, w)
          }
      })"

text \<open>A constructed source, taken apart.\<close>

lemma iter_built_cases:
  assumes "iter_built live al R es xs (Some (it, w))"
  obtains (failed) "it = iter_zero" and "live w = R" and "starved al"
  | (valid) B where "iter_is_valid it" and "it_elem_size it = es" and "it_allocator it = al"
      and "owns (live w) R B" and "iter_rep live xs it B"
  using assms unfolding iter_built_def by blast

lemma iter_built_bind:
  assumes "iter_built live al R es xs r"
    and "\<And>it w. r = Some (it, w) \<Longrightarrow> iter_built live al R es xs (Some (it, w)) \<Longrightarrow>
      iter_built live al R es' ys (f it w)"
  shows "iter_built live al R es' ys (do { (it, w) \<leftarrow> r; f it w })"
  using assms unfolding iter_built_def by fastforce

context heap_allocator begin

lemma close_on_failure:
  assumes "iter_closes live it B" and "owns (live w) R B" and "starved al"
  shows "iter_built live al R es ys (do { w \<leftarrow> iter_destroy it w; Some (iter_zero, w) })"
proof -
  obtain w' where "iter_destroy it w = Some w'" "live w' = R" by (rule iter_destroy_closes [OF assms(1,2)])
  with assms(3) show ?thesis by (intro iter_built_zero [of _ w']) simp_all
qed

lemma adapt_built:
  assumes "iter_built live (Some t) R es xs (Some (src, w))"
    and mk: "\<And>a B. iter_rep live xs src B \<Longrightarrow> a \<notin> dom B \<Longrightarrow> it_elem_size src = es \<Longrightarrow>
      it_allocator src = Some t \<Longrightarrow>
      iter_is_valid (mk a) \<and> it_elem_size (mk a) = es' \<and> it_allocator (mk a) = Some t \<and>
      iter_rep live ys (mk a) (B(a \<mapsto> n))"
    and small: "n \<le> 256"
  shows "iter_built live (Some t) R es' ys (adapt src n mk w)"
  using assms(1)
proof (cases rule: iter_built_cases)
  case failed
  then show ?thesis by (intro iter_built_zero [of _ w]) (simp_all add: adapt_def)
next
  case (valid B)
  from valid(4) show ?thesis
  proof (cases rule: state_alloc [where n = n])
    case (granted a w')
    with valid mk [OF valid(5) granted(3) valid(2,3)] show ?thesis
      by (intro iter_built_valid [where it = "mk a" and w' = w' and B = "B(a \<mapsto> n)"]) (simp_all add: adapt_def del: mem_alloc.simps)
  next
    case (refused w')
    with valid close_on_failure [OF iter_rep_closes [OF valid(5)] refused(2) starved_small [OF refused(3) small]] show ?thesis
      by (simp add: adapt_def del: mem_alloc.simps)
  qed
qed

lemma adapt_buffered_cases:
  assumes "iter_built live (Some t) R es xs (Some (src, w))" and small: "n \<le> 256" and big: "es \<le> PTRDIFF_MAX"
  obtains (failed) w' where "adapt_buffered src n mk w = Some (iter_zero, w')" and "live w' = R" and "starved (Some t)"
  | (valid) a b B w' where "adapt_buffered src n mk w = Some (mk a b, w')" and "iter_rep live xs src B"
      and "a \<notin> dom B" and "b \<notin> dom (B(a \<mapsto> n))" and "it_elem_size src = es" and "it_allocator src = Some t"
      and "owns (live w') R (B(a \<mapsto> n, b \<mapsto> es))"
  using assms(1)
proof (cases rule: iter_built_cases)
  case src: failed
  with failed [of w] show ?thesis by (simp add: adapt_buffered_def)
next
  case src: (valid B)
  note cl = iter_rep_closes [OF src(5)]
  have close: ?thesis if h: "owns (live w1) R B" "starved (Some t)"
      "adapt_buffered src n mk w = do { w \<leftarrow> iter_destroy src w1; Some (iter_zero, w) }" for w1
  proof -
    obtain w2 where "iter_destroy src w1 = Some w2" "live w2 = R" by (rule iter_destroy_closes [OF cl h(1)])
    with h(2,3) failed [of w2] show ?thesis by simp
  qed
  from src(4) show ?thesis
  proof (cases rule: state_alloc [where n = n])
    case a: (granted a w1)
    from a(2) show ?thesis
    proof (cases rule: state_alloc [where n = es])
      case b: (granted b w2)
      with a src valid [of a b w2 B] show ?thesis by (simp add: adapt_buffered_def del: mem_alloc.simps)
    next
      case b: (refused w2)
      obtain w3 where w3: "mem_free (Some t) (Some a) n w2 = Some w3" "owns (live w3) R ((B(a \<mapsto> n))(a := None))"
        by (rule owns_mem_free [OF b(2), of a n]) simp_all
      moreover have "(B(a \<mapsto> n))(a := None) = B" using a(3) by (auto simp: fun_eq_iff fun_upd_apply)
      ultimately show ?thesis using a(1) b(1) src starvedI [OF b(3) big]
        by (intro close [of w3]) (simp_all add: adapt_buffered_def del: mem_alloc.simps mem_free.simps)
    qed
  next
    case a: (refused w1)
    from a(2) show ?thesis
    proof (cases rule: state_alloc [where n = es])
      case b: (granted b w2)
      obtain w3 where w3: "mem_free (Some t) (Some b) es w2 = Some w3" "owns (live w3) R ((B(b \<mapsto> es))(b := None))"
        by (rule owns_mem_free [OF b(2), of b es]) simp_all
      moreover have "(B(b \<mapsto> es))(b := None) = B" using b(3) by (auto simp: fun_eq_iff fun_upd_apply)
      ultimately show ?thesis using a(1) b(1) src starved_small [OF a(3) small]
        by (intro close [of w3]) (simp_all add: adapt_buffered_def del: mem_alloc.simps mem_free.simps)
    next
      case b: (refused w2)
      with a(1) src starved_small [OF a(3) small] show ?thesis
        by (intro close [of w2]) (simp_all add: adapt_buffered_def del: mem_alloc.simps)
    qed
  qed
qed

lemma adapt_buffered_built:
  assumes "iter_built live (Some t) R es xs (Some (src, w))"
    and mk: "\<And>a b B. iter_rep live xs src B \<Longrightarrow> a \<notin> dom B \<Longrightarrow> b \<notin> dom (B(a \<mapsto> n)) \<Longrightarrow>
      it_elem_size src = es \<Longrightarrow> it_allocator src = Some t \<Longrightarrow>
      iter_is_valid (mk a b) \<and> it_elem_size (mk a b) = es' \<and> it_allocator (mk a b) = Some t \<and>
      iter_rep live ys (mk a b) (B(a \<mapsto> n, b \<mapsto> es))"
    and "n \<le> 256" and "es \<le> PTRDIFF_MAX"
  shows "iter_built live (Some t) R es' ys (adapt_buffered src n mk w)"
  using assms(1,3,4)
proof (cases rule: adapt_buffered_cases [where n = n and mk = mk])
  case (failed w')
  then show ?thesis by (intro iter_built_zero)
next
  case (valid a b B w')
  with mk [OF valid(2-6)] show ?thesis by (intro iter_built_valid [where it = "mk a b" and w' = w' and B = "B(a \<mapsto> n, b \<mapsto> es)"]) simp_all
qed

text \<open>From the contract of an adaptor to the contract of its constructor.\<close>

lemma adaptor_built:
  assumes "adaptor live nx cl rel own holds closable"
    and "iter_built live (Some t) R es xs (Some (src, w))"
    and "\<And>s w. dr s w = do { w \<leftarrow> cl s w; rel s w }"
    and "\<And>a. it_elem_size src = es \<Longrightarrow> it_allocator src = Some t \<Longrightarrow> mk a = iter_make nx dr (st a) es' (Some t)"
    and "\<And>a. own (st a) = [a \<mapsto> n]"
    and "\<And>a B. iter_rep live xs src B \<Longrightarrow> holds ys (st a) B"
    and "n \<le> 256"
  shows "iter_built live (Some t) R es' ys (adapt src n mk w)"
proof (rule adapt_built [OF assms(2) _ assms(7)])
  fix a B
  assume r: "iter_rep live xs src B" and a: "a \<notin> dom B" and e: "it_elem_size src = es" "it_allocator src = Some t"
  have "dr = adaptor_drop cl rel" by (rule ext)+ (simp add: adaptor_drop_def assms(3))
  moreover have "iter_rep live ys (iter_make nx (adaptor_drop cl rel) (st a) es' (Some t)) (B(a \<mapsto> n))"
    by (rule adaptor.rep [OF assms(1) assms(6) [OF r]]) (simp add: assms(5) joined_upd [OF a])
  ultimately show "iter_is_valid (mk a) \<and> it_elem_size (mk a) = es' \<and> it_allocator (mk a) = Some t \<and>
      iter_rep live ys (mk a) (B(a \<mapsto> n))" by (simp add: assms(4) [OF e])
qed

lemma adaptor_buffered_built:
  assumes "adaptor live nx cl rel own holds closable"
    and "iter_built live (Some t) R es xs (Some (src, w))"
    and "\<And>s w. dr s w = do { w \<leftarrow> cl s w; rel s w }"
    and "\<And>a b. it_elem_size src = es \<Longrightarrow> it_allocator src = Some t \<Longrightarrow> mk a b = iter_make nx dr (st a b) es' (Some t)"
    and "\<And>a b. it_elem_size src = es \<Longrightarrow> own (st a b) = [a \<mapsto> n, b \<mapsto> es]"
    and "\<And>a b B. a \<noteq> b \<Longrightarrow> iter_rep live xs src B \<Longrightarrow> holds ys (st a b) B"
    and "n \<le> 256" and "es \<le> PTRDIFF_MAX"
  shows "iter_built live (Some t) R es' ys (adapt_buffered src n mk w)"
proof (rule adapt_buffered_built [OF assms(2) _ assms(7,8)])
  fix a b B
  assume r: "iter_rep live xs src B" and a: "a \<notin> dom B" and b: "b \<notin> dom (B(a \<mapsto> n))"
    and e: "it_elem_size src = es" "it_allocator src = Some t"
  have "dr = adaptor_drop cl rel" by (rule ext)+ (simp add: adaptor_drop_def assms(3))
  moreover have "a \<noteq> b" using b by auto
  then have "iter_rep live ys (iter_make nx (adaptor_drop cl rel) (st a b) es' (Some t)) (B(a \<mapsto> n, b \<mapsto> es))"
    by (intro adaptor.rep [OF assms(1) assms(6) [OF _ r]]) (simp_all add: assms(5) [OF e(1)] joined_upd2 [OF a b])
  ultimately show "iter_is_valid (mk a b) \<and> it_elem_size (mk a b) = es' \<and> it_allocator (mk a b) = Some t \<and>
      iter_rep live ys (mk a b) (B(a \<mapsto> n, b \<mapsto> es))" by (simp add: assms(4) [OF e])
qed

end

end
