(* ===== verification/Seqc_Iter_Sources.thy ===== *)
theory Seqc_Iter_Sources
  imports Seqc_Adapt
begin

section \<open>Generated sequences\<close>

text \<open>
  \<open>iter_generate\<close> and \<open>iter_range\<close> of \<open>src/iter/iter.c\<close>. The generating callback changes its
  context, which is part of the iterator's state here. A range counts in \<open>long long\<close>, a signed
  64-bit type: an addition that leaves its bounds has no defined result in C.
\<close>

subsection \<open>\<open>iter_generate\<close>\<close>

record ('a, 'c) generate_state_t =
  gn_self :: addr
  gn_fn :: "'c \<Rightarrow> 'a option \<times> 'c"
  gn_ctx :: 'c

definition sizeof_generate_state_t :: size_t where
  "sizeof_generate_state_t = 16"

lemma sizeof_generate_state_t_small [simp]: "sizeof_generate_state_t \<le> 256"
  by (simp add: sizeof_generate_state_t_def)

definition generate_next ::
  "('a, 'c) generate_state_t \<Rightarrow> 'w \<Rightarrow> ('a option \<times> ('a, 'c) generate_state_t \<times> 'w) option" where
  "generate_next s w = (let (r, c) = gn_fn s (gn_ctx s) in Some (r, s\<lparr>gn_ctx := c\<rparr>, w))"

definition generate_drop :: "'w allocator_t \<Rightarrow> ('a, 'c) generate_state_t \<Rightarrow> 'w \<Rightarrow> 'w option" where
  "generate_drop al s w = mem_free al (Some (gn_self s)) sizeof_generate_state_t w"

definition iter_generate ::
  "('c \<Rightarrow> 'a option \<times> 'c) \<Rightarrow> 'c \<Rightarrow> size_t \<Rightarrow> 'w allocator_t \<Rightarrow> 'w \<Rightarrow>
   (('a, ('a, 'c) generate_state_t, 'w) iter_t \<times> 'w) option" where
  "iter_generate fn ctx es al w = do {
     (p, w) \<leftarrow> mem_alloc al sizeof_generate_state_t w;
     case p of
       None \<Rightarrow> Some (iter_zero, w)
     | Some a \<Rightarrow> Some (iter_make generate_next (generate_drop al)
         \<lparr>gn_self = a, gn_fn = fn, gn_ctx = ctx\<rparr> es al, w)
   }"

text \<open>The elements a callback produces from a context until it stops.\<close>

inductive generates :: "('c \<Rightarrow> 'a option \<times> 'c) \<Rightarrow> 'c \<Rightarrow> 'a list \<Rightarrow> bool" for fn where
  generates_stop: "fn c = (None, c') \<Longrightarrow> generates fn c []"
| generates_more: "fn c = (Some x, c') \<Longrightarrow> generates fn c' xs \<Longrightarrow> generates fn c (x # xs)"

inductive_cases generates_NilE: "generates fn c []"
inductive_cases generates_ConsE: "generates fn c (x # xs)"

subsection \<open>\<open>iter_range\<close>\<close>

definition llong_add :: "int \<Rightarrow> int \<Rightarrow> int option" where
  "llong_add a b = (if LLONG_MIN \<le> a + b \<and> a + b \<le> LLONG_MAX then Some (a + b) else None)"

record range_state_t =
  rg_self :: addr
  rg_cur :: int
  rg_end :: int
  rg_step :: int

definition sizeof_range_state_t :: size_t where
  "sizeof_range_state_t = 24"

lemma sizeof_range_state_t_small [simp]: "sizeof_range_state_t \<le> 256"
  by (simp add: sizeof_range_state_t_def)

definition range_next :: "range_state_t \<Rightarrow> 'w \<Rightarrow> (int option \<times> range_state_t \<times> 'w) option" where
  "range_next s w =
     (if rg_step s > 0 \<and> rg_cur s \<ge> rg_end s then Some (None, s, w)
      else if rg_step s < 0 \<and> rg_cur s \<le> rg_end s then Some (None, s, w)
      else do {
        c \<leftarrow> llong_add (rg_cur s) (rg_step s);
        Some (Some (rg_cur s), s\<lparr>rg_cur := c\<rparr>, w)
      })"

definition range_drop :: "'w allocator_t \<Rightarrow> range_state_t \<Rightarrow> 'w \<Rightarrow> 'w option" where
  "range_drop al s w = mem_free al (Some (rg_self s)) sizeof_range_state_t w"

definition iter_range ::
  "int \<Rightarrow> int \<Rightarrow> int \<Rightarrow> 'w allocator_t \<Rightarrow> 'w \<Rightarrow> ((int, range_state_t, 'w) iter_t \<times> 'w) option" where
  "iter_range start fin step al w =
     (if step = 0 then do {
        (p, w) \<leftarrow> mem_alloc al sizeof_range_state_t w;
        case p of
          None \<Rightarrow> Some (iter_zero, w)
        | Some a \<Rightarrow> Some (iter_make range_next (range_drop al)
            \<lparr>rg_self = a, rg_cur = start, rg_end = start, rg_step = 1\<rparr> 8 al, w)
      } else do {
        (p, w) \<leftarrow> mem_alloc al sizeof_range_state_t w;
        case p of
          None \<Rightarrow> Some (iter_zero, w)
        | Some a \<Rightarrow> Some (iter_make range_next (range_drop al)
            \<lparr>rg_self = a, rg_cur = start, rg_end = fin, rg_step = step\<rparr> 8 al, w)
      })"

text \<open>The integers from \<open>s\<close> to before \<open>e\<close>, by \<open>k\<close>.\<close>

function range_list :: "int \<Rightarrow> int \<Rightarrow> int \<Rightarrow> int list" where
  "range_list s e k = (if 0 < k \<and> s < e \<or> k < 0 \<and> e < s then s # range_list (s + k) e k else [])"
  by pat_completeness auto
termination
  by (relation "measure (\<lambda>(s, e, k). nat (if 0 < k then e - s else s - e))") auto

declare range_list.simps [simp del]

text \<open>The step past the last element stays within \<open>long long\<close>.\<close>

definition range_fits :: "int \<Rightarrow> int \<Rightarrow> bool" where
  "range_fits e k \<longleftrightarrow> (0 < k \<longrightarrow> e + k \<le> LLONG_MAX + 1) \<and> (k < 0 \<longrightarrow> LLONG_MIN \<le> e + k + 1)"

lemma range_step_fits:
  assumes "0 < k \<and> s < e \<or> k < 0 \<and> e < s" and "range_fits e k" and "LLONG_MIN \<le> s" and "s \<le> LLONG_MAX"
  shows "llong_add s k = Some (s + k)"
  using assms by (auto simp: llong_add_def range_fits_def)

lemma range_list_member:
  "x \<in> set (range_list s e k) \<longleftrightarrow>
   (0 < k \<and> s \<le> x \<and> x < e \<or> k < 0 \<and> e < x \<and> x \<le> s) \<and> k dvd x - s"
proof (induction s e k rule: range_list.induct)
  case (1 s e k)
  show ?case
  proof (cases "0 < k \<and> s < e \<or> k < 0 \<and> e < s")
    case True
    have "x - s = (x - (s + k)) + k" by simp
    then have d: "k dvd x - (s + k) \<longleftrightarrow> k dvd x - s" by (metis dvd_add_triv_right_iff)
    have up: "s + k \<le> x" if "0 < k" "s \<le> x" "k dvd x - s" "x \<noteq> s"
      using zdvd_imp_le [OF that(3)] that by linarith
    have down: "x \<le> s + k" if "k < 0" "x \<le> s" "k dvd x - s" "x \<noteq> s"
    proof -
      have "- k dvd s - x" using that(3) by (simp add: dvd_diff_commute)
      from zdvd_imp_le [OF this] that show ?thesis by linarith
    qed
    have "x \<in> set (range_list s e k) \<longleftrightarrow> x = s \<or> x \<in> set (range_list (s + k) e k)"
      using True by (subst range_list.simps) auto
    then show ?thesis
      unfolding 1 [OF True] d using True up down by (cases "x = s") auto
  next
    case False
    then show ?thesis by (subst range_list.simps) auto
  qed
qed

context heap_allocator begin

lemma generate_rep:
  fixes s :: "('a, 'c) generate_state_t"
  assumes "generates (gn_fn s) (gn_ctx s) xs"
  shows "iter_rep live xs (iter_make generate_next (generate_drop (Some t)) s es al) [gn_self s \<mapsto> sizeof_generate_state_t]"
proof (rule iter_rep_machine [where Q = "\<lambda>ys (s' :: ('a, 'c) generate_state_t) C. generates (gn_fn s') (gn_ctx s') ys \<and>
    C = [gn_self s' \<mapsto> sizeof_generate_state_t]"])
  show "generates (gn_fn s) (gn_ctx s) xs \<and> [gn_self s \<mapsto> sizeof_generate_state_t] = [gn_self s \<mapsto> sizeof_generate_state_t]"
    using assms by simp
next
  fix ys and s :: "('a, 'c) generate_state_t" and C
  assume "generates (gn_fn s) (gn_ctx s) ys \<and> C = [gn_self s \<mapsto> sizeof_generate_state_t]"
  then show "iter_closes live (iter_make generate_next (generate_drop (Some t)) s es al) C"
    by (auto intro!: iter_closes_block simp: generate_drop_def)
next
  fix ys and s :: "('a, 'c) generate_state_t" and C w R
  assume h: "generates (gn_fn s) (gn_ctx s) ys \<and> C = [gn_self s \<mapsto> sizeof_generate_state_t]" and o: "owns (live w) R C"
  have cl: "iter_closes live (iter_make generate_next (generate_drop (Some t)) (s\<lparr>gn_ctx := c\<rparr>) es al) C" for c
    using h by (auto intro!: iter_closes_block simp: generate_drop_def)
  show "\<exists>s' w' C'. generate_next s w = Some (hd_opt ys, s', w') \<and> owns (live w') R C' \<and>
      (case ys of [] \<Rightarrow> iter_closes live (iter_make generate_next (generate_drop (Some t)) s' es al) C'
       | _ # zs \<Rightarrow> generates (gn_fn s') (gn_ctx s') zs \<and> C' = [gn_self s' \<mapsto> sizeof_generate_state_t])"
    using h o cl
    by (cases ys) (fastforce simp: generate_next_def elim!: generates_NilE generates_ConsE)+
qed

lemma iter_generate_built:
  assumes "generates fn ctx xs"
  shows "iter_built live (Some t) (live w) es xs (iter_generate fn ctx es (Some t) w)"
proof (cases rule: iter_state_alloc [of sizeof_generate_state_t w])
  case (granted a w')
  let ?s = "\<lparr>gn_self = a, gn_fn = fn, gn_ctx = ctx\<rparr>"
  have "iter_rep live xs (iter_make generate_next (generate_drop (Some t)) ?s es (Some t)) [a \<mapsto> sizeof_generate_state_t]"
    using generate_rep [of ?s xs] assms by simp
  then show ?thesis
    by (intro iter_built_valid [where it = "iter_make generate_next (generate_drop (Some t)) ?s es (Some t)"
          and w' = w' and B = "[a \<mapsto> sizeof_generate_state_t]"])
      (simp_all add: iter_generate_def granted del: mem_alloc.simps)
next
  case (refused w')
  then show ?thesis by (intro iter_built_zero [of _ w']) (simp_all add: iter_generate_def refused starved_small [OF refused(3)] del: mem_alloc.simps)
qed

lemma range_closes:
  "iter_closes live (iter_make range_next (range_drop (Some t)) s es al) [rg_self s \<mapsto> sizeof_range_state_t]"
  by (auto intro!: iter_closes_block simp: range_drop_def)

lemma range_rep:
  assumes "range_fits (rg_end s) (rg_step s)" and "LLONG_MIN \<le> rg_cur s" and "rg_cur s \<le> LLONG_MAX"
    and "rg_step s \<noteq> 0"
  shows "iter_rep live (range_list (rg_cur s) (rg_end s) (rg_step s))
    (iter_make range_next (range_drop (Some t)) s es al) [rg_self s \<mapsto> sizeof_range_state_t]"
  using assms
proof (induction "rg_cur s" "rg_end s" "rg_step s" arbitrary: s rule: range_list.induct)
  case 1
  show ?case
  proof (cases "0 < rg_step s \<and> rg_cur s < rg_end s \<or> rg_step s < 0 \<and> rg_end s < rg_cur s")
    case True
    let ?s = "s\<lparr>rg_cur := rg_cur s + rg_step s\<rparr>"
    note a = range_step_fits [OF True 1(2,3,4)]
    then have b: "LLONG_MIN \<le> rg_cur ?s" "rg_cur ?s \<le> LLONG_MAX"
      by (auto simp: llong_add_def split: if_splits)
    have "iter_rep live (range_list (rg_cur s + rg_step s) (rg_end s) (rg_step s))
      (iter_make range_next (range_drop (Some t)) ?s es al) [rg_self s \<mapsto> sizeof_range_state_t]"
      using 1(1) [OF True, of ?s] 1(2,5) b by simp
    then show ?thesis
      using True a range_closes
      by (subst range_list.simps)
        (auto intro!: iter_rep_Cons_still [of _ _ _ _ "iter_make range_next (range_drop (Some t)) ?s es al"] simp: range_next_def)
  next
    case False
    then have n: "range_next s w = Some (None, s, w)" for w :: 'w using 1(5) by (auto simp: range_next_def)
    have "range_list (rg_cur s) (rg_end s) (rg_step s) = []" using False by (subst range_list.simps) auto
    with range_closes n show ?thesis by (auto intro!: iter_rep_Nil_still)
  qed
qed

lemma iter_range_built:
  assumes "range_fits e k" and "LLONG_MIN \<le> s" and "s \<le> LLONG_MAX"
  shows "iter_built live (Some t) (live w) 8 (range_list s e k) (iter_range s e k (Some t) w)"
proof (cases rule: iter_state_alloc [of sizeof_range_state_t w])
  case (granted a w')
  have e: "range_list s s 1 = []" "range_list s e 0 = []" by (subst range_list.simps; simp)+
  show ?thesis
  proof (cases "k = 0")
    case True
    let ?s = "\<lparr>rg_self = a, rg_cur = s, rg_end = s, rg_step = 1\<rparr>"
    have "iter_rep live [] (iter_make range_next (range_drop (Some t)) ?s 8 (Some t)) [a \<mapsto> sizeof_range_state_t]"
      using range_closes [of ?s] by (auto intro!: iter_rep_Nil_still simp: range_next_def)
    then show ?thesis unfolding True e
      by (intro iter_built_valid [where it = "iter_make range_next (range_drop (Some t)) ?s 8 (Some t)"
            and w' = w' and B = "[a \<mapsto> sizeof_range_state_t]"])
        (simp_all add: iter_range_def granted del: mem_alloc.simps)
  next
    case False
    let ?s = "\<lparr>rg_self = a, rg_cur = s, rg_end = e, rg_step = k\<rparr>"
    have "iter_rep live (range_list s e k) (iter_make range_next (range_drop (Some t)) ?s 8 (Some t)) [a \<mapsto> sizeof_range_state_t]"
      using range_rep [of ?s] assms False by simp
    then show ?thesis
      by (intro iter_built_valid [where it = "iter_make range_next (range_drop (Some t)) ?s 8 (Some t)"
            and w' = w' and B = "[a \<mapsto> sizeof_range_state_t]"])
        (simp_all add: iter_range_def granted False del: mem_alloc.simps)
  qed
next
  case (refused w')
  then show ?thesis by (intro iter_built_zero [of _ w']) (simp_all add: iter_range_def refused starved_small [OF refused(3)] del: mem_alloc.simps)
qed

end

subsection \<open>The last element of a range\<close>

text \<open>
  The counter is advanced before the element is handed out. All elements before the last are
  handed out; whether the last one is depends on the step past it.
\<close>

lemma range_list_llong: "x \<in> set (range_list s e k) \<Longrightarrow> llong s \<Longrightarrow> llong e \<Longrightarrow> llong x"
  by (auto simp: range_list_member llong_def)

lemma range_list_ConsD:
  assumes "range_list s e k = x # xs"
  shows "x = s" and "0 < k \<and> s < e \<or> k < 0 \<and> e < s" and "range_list (s + k) e k = xs"
  using assms by (auto simp: range_list.simps [of s e k] split: if_splits)

lemma range_next_element:
  assumes "0 < rg_step s \<and> rg_cur s < rg_end s \<or> rg_step s < 0 \<and> rg_end s < rg_cur s"
  shows "range_next s w = (if llong (rg_cur s + rg_step s)
    then Some (Some (rg_cur s), s\<lparr>rg_cur := rg_cur s + rg_step s\<rparr>, w) else None)"
  using assms by (auto simp: range_next_def llong_add_def llong_def)

lemma range_nexts:
  assumes "range_list (rg_cur s) (rg_end s) (rg_step s) = xs @ [x]" and "llong (rg_cur s)" and "llong (rg_end s)"
  shows "nexts (length xs) (iter_make range_next dr s es al) w = Some (xs, iter_make range_next dr (s\<lparr>rg_cur := x\<rparr>) es al, w)"
  using assms
proof (induction xs arbitrary: s)
  case Nil
  then have "x = rg_cur s" using range_list_ConsD(1) [of "rg_cur s" "rg_end s" "rg_step s" x "[]"] by simp
  then show ?case by simp
next
  case (Cons y ys)
  let ?s = "s\<lparr>rg_cur := rg_cur s + rg_step s\<rparr>"
  from Cons.prems(1) have l: "range_list (rg_cur s) (rg_end s) (rg_step s) = y # ys @ [x]" by simp
  note c = range_list_ConsD [OF l]
  then obtain z zs where z: "range_list (rg_cur ?s) (rg_end ?s) (rg_step ?s) = z # zs" by (cases "ys @ [x]") auto
  from range_list_ConsD(1) [OF z] z c(3) l have "rg_cur ?s \<in> set (range_list (rg_cur s) (rg_end s) (rg_step s))" by simp
  then have ok: "llong (rg_cur ?s)" using Cons.prems(2,3) by (rule range_list_llong)
  have "nexts (length ys) (iter_make range_next dr ?s es al) w = Some (ys, iter_make range_next dr (?s\<lparr>rg_cur := x\<rparr>) es al, w)"
    by (rule Cons.IH) (use c(3) ok Cons.prems(3) in simp_all)
  with range_next_element [OF c(2), of w] ok c(1) show ?case by simp
qed

lemma iter_range_last:
  assumes "iter_range s e k al w = Some (it, w')" and "iter_is_valid it"
    and "range_list s e k = xs @ [x]" and "llong s" and "llong e"
  shows "\<exists>at_last after. nexts (length xs) it w' = Some (xs, at_last, w') \<and>
    iter_next at_last w' = (if llong (x + k) then Some (Some x, after, w') else None)"
proof -
  have k: "k \<noteq> 0" using assms(3) by (auto simp: range_list.simps [of s e 0])
  obtain a where it: "it = iter_make range_next (range_drop al) \<lparr>rg_self = a, rg_cur = s, rg_end = e, rg_step = k\<rparr> 8 al"
    using assms(1,2) k by (auto simp: iter_range_def bind_eq_Some_conv split: option.splits)
  let ?s = "\<lparr>rg_self = a, rg_cur = x, rg_end = e, rg_step = k\<rparr>"
  have n: "nexts (length xs) it w' = Some (xs, iter_make range_next (range_drop al) ?s 8 al, w')"
    unfolding it using range_nexts [of "\<lparr>rg_self = a, rg_cur = s, rg_end = e, rg_step = k\<rparr>" xs x] assms(3-5) by simp
  have "x \<in> set (range_list s e k)" unfolding assms(3) by simp
  then have "0 < rg_step ?s \<and> rg_cur ?s < rg_end ?s \<or> rg_step ?s < 0 \<and> rg_end ?s < rg_cur ?s"
    by (auto simp: range_list_member)
  from range_next_element [OF this, of w'] n show ?thesis by (intro exI conjI) auto
qed

end
