(* ===== verification/Seqc_Adapt_One.thy ===== *)
theory Seqc_Adapt_One
  imports Seqc_Adapt
begin

section \<open>Adaptors over one source\<close>

text \<open>
  \<open>iter_filter\<close>, \<open>iter_take\<close>, \<open>iter_take_while\<close>, \<open>iter_skip\<close>, \<open>iter_skip_while\<close> and \<open>iter_map\<close> of
  \<open>src/iter/iter.c\<close>. A callback is applied to its context, so a \<open>pred_fn\<close> with its \<open>ctx\<close>
  is a function to \<open>bool\<close>. A loop over a source may run for ever, so it is a partial function.
  Each constructor is shown to give an iterator of the list function it is named after, on
  every allocator and through every failure.
\<close>

subsection \<open>\<open>iter_filter\<close>\<close>

record ('a, 's, 'w) filter_state_t =
  fi_self :: addr
  fi_source :: "('a, 's, 'w) iter_t"
  fi_pred :: "'a \<Rightarrow> bool"

definition sizeof_filter_state_t :: size_t where
  "sizeof_filter_state_t = 72"

lemma sizeof_filter_state_t_small [simp]: "sizeof_filter_state_t \<le> 256"
  by (simp add: sizeof_filter_state_t_def)

partial_function (option) filter_pull ::
  "('a \<Rightarrow> bool) \<Rightarrow> ('a, 's, 'w) iter_t \<Rightarrow> 'w \<Rightarrow> ('a option \<times> ('a, 's, 'w) iter_t \<times> 'w) option" where
  "filter_pull pred src w = do {
     (r, src, w) \<leftarrow> iter_next src w;
     case r of
       None \<Rightarrow> Some (None, src, w)
     | Some x \<Rightarrow> if pred x then Some (Some x, src, w) else filter_pull pred src w
   }"

definition filter_next ::
  "('a, 's, 'w) filter_state_t \<Rightarrow> 'w \<Rightarrow> ('a option \<times> ('a, 's, 'w) filter_state_t \<times> 'w) option" where
  "filter_next s w = do {
     (r, src, w) \<leftarrow> filter_pull (fi_pred s) (fi_source s) w;
     Some (r, s\<lparr>fi_source := src\<rparr>, w)
   }"

definition filter_drop :: "'w allocator_t \<Rightarrow> ('a, 's, 'w) filter_state_t \<Rightarrow> 'w \<Rightarrow> 'w option" where
  "filter_drop al s w = do {
     w \<leftarrow> iter_destroy (fi_source s) w;
     mem_free al (Some (fi_self s)) sizeof_filter_state_t w
   }"

definition iter_filter ::
  "('a, 's, 'w) iter_t \<Rightarrow> ('a \<Rightarrow> bool) \<Rightarrow> 'w \<Rightarrow> (('a, ('a, 's, 'w) filter_state_t, 'w) iter_t \<times> 'w) option" where
  "iter_filter source pred w = adapt source sizeof_filter_state_t
     (\<lambda>a. iter_make filter_next (filter_drop (it_allocator source))
        \<lparr>fi_self = a, fi_source = source, fi_pred = pred\<rparr> (it_elem_size source) (it_allocator source)) w"

definition filter_holds ::
  "('w \<Rightarrow> addr \<rightharpoonup> size_t) \<Rightarrow> 'a list \<Rightarrow> ('a, 's, 'w) filter_state_t \<Rightarrow> (addr \<rightharpoonup> size_t) \<Rightarrow> bool" where
  "filter_holds live ys s B \<longleftrightarrow> (\<exists>xs. ys = filter (fi_pred s) xs \<and> iter_rep live xs (fi_source s) B)"

lemma filter_pull_at:
  assumes "iter_rep live xs src B" and "owns (live w) R B"
  shows "\<exists>src' w' B'. filter_pull P src w = Some (hd_opt (filter P xs), src', w') \<and> owns (live w') R B' \<and>
    (case filter P xs of [] \<Rightarrow> iter_closes live src' B'
     | _ # ys \<Rightarrow> \<exists>zs. ys = filter P zs \<and> iter_rep live zs src' B')"
  using assms
proof (induction xs arbitrary: src w B)
  case Nil
  obtain it' w' B' where
    "iter_next src w = Some (None, it', w')" "owns (live w') R B'" "iter_closes live it' B'"
    by (rule iter_rep_NilE [OF Nil])
  then show ?case by (intro exI [of _ it'] exI [of _ w'] exI [of _ B']) (simp add: filter_pull.simps)
next
  case (Cons x xs)
  obtain it' w' B' where
    n: "iter_next src w = Some (Some x, it', w')" "owns (live w') R B'" "iter_rep live xs it' B'"
    by (rule iter_rep_ConsE [OF Cons.prems])
  show ?case
  proof (cases "P x")
    case True
    with n show ?thesis
      by (intro exI [of _ it'] exI [of _ w'] exI [of _ B']) (auto simp: filter_pull.simps)
  next
    case False
    with n(1) have "filter_pull P src w = filter_pull P it' w'" by (simp add: filter_pull.simps [of P src])
    with Cons.IH [OF n(3,2)] False show ?thesis by simp
  qed
qed

context heap_allocator begin

lemma filter_adaptor:
  "adaptor live filter_next (\<lambda>s. iter_destroy (fi_source s))
     (\<lambda>s. mem_free (Some t) (Some (fi_self s)) sizeof_filter_state_t)
     (\<lambda>s. [fi_self s \<mapsto> sizeof_filter_state_t]) (filter_holds live) (\<lambda>s. iter_closes live (fi_source s))"
proof (unfold_locales, goal_cases)
  case (1 s B w R)
  then show ?case by (blast elim: iter_destroy_closes)
next
  case (2 s B w R)
  then show ?case by (blast elim: release_one)
next
  case (3 ys s B)
  then show ?case by (auto simp: filter_holds_def iter_rep_closes)
next
  case (4 ys s B w R)
  then obtain xs where "ys = filter (fi_pred s) xs" "iter_rep live xs (fi_source s) B"
    by (auto simp: filter_holds_def)
  with filter_pull_at [of live xs "fi_source s" B w R "fi_pred s"] 4(2) show ?case
    by (fastforce simp: filter_next_def filter_holds_def split: list.splits)
qed

lemma iter_filter_built:
  assumes "iter_built live (Some t) R es xs (Some (src, w))"
  shows "iter_built live (Some t) R es (filter P xs) (iter_filter src P w)"
  unfolding iter_filter_def
  by (rule adaptor_built [OF filter_adaptor assms])
    (auto simp: filter_drop_def filter_holds_def)

end

interpretation sys_filter: adaptor hp_live filter_next "\<lambda>s. iter_destroy (fi_source s)"
  "\<lambda>s. mem_free (Some sys_allocator) (Some (fi_self s)) sizeof_filter_state_t"
  "\<lambda>s. [fi_self s \<mapsto> sizeof_filter_state_t]" "filter_holds hp_live" "\<lambda>s. iter_closes hp_live (fi_source s)"
  by (rule sys.filter_adaptor)

subsection \<open>\<open>iter_take\<close>\<close>

record ('a, 's, 'w) take_state_t =
  tk_self :: addr
  tk_source :: "('a, 's, 'w) iter_t"
  tk_remaining :: size_t

definition sizeof_take_state_t :: size_t where
  "sizeof_take_state_t = 64"

lemma sizeof_take_state_t_small [simp]: "sizeof_take_state_t \<le> 256"
  by (simp add: sizeof_take_state_t_def)

definition take_next ::
  "('a, 's, 'w) take_state_t \<Rightarrow> 'w \<Rightarrow> ('a option \<times> ('a, 's, 'w) take_state_t \<times> 'w) option" where
  "take_next s w =
     (if tk_remaining s = 0 then Some (None, s, w)
      else do {
        (r, src, w) \<leftarrow> iter_next (tk_source s) w;
        case r of
          None \<Rightarrow> Some (None, s\<lparr>tk_source := src\<rparr>, w)
        | Some x \<Rightarrow> Some (Some x, s\<lparr>tk_source := src, tk_remaining := tk_remaining s - 1\<rparr>, w)
      })"

definition take_drop :: "'w allocator_t \<Rightarrow> ('a, 's, 'w) take_state_t \<Rightarrow> 'w \<Rightarrow> 'w option" where
  "take_drop al s w = do {
     w \<leftarrow> iter_destroy (tk_source s) w;
     mem_free al (Some (tk_self s)) sizeof_take_state_t w
   }"

definition iter_take ::
  "('a, 's, 'w) iter_t \<Rightarrow> size_t \<Rightarrow> 'w \<Rightarrow> (('a, ('a, 's, 'w) take_state_t, 'w) iter_t \<times> 'w) option" where
  "iter_take source n w = adapt source sizeof_take_state_t
     (\<lambda>a. iter_make take_next (take_drop (it_allocator source))
        \<lparr>tk_self = a, tk_source = source, tk_remaining = n\<rparr> (it_elem_size source) (it_allocator source)) w"

definition take_holds ::
  "('w \<Rightarrow> addr \<rightharpoonup> size_t) \<Rightarrow> 'a list \<Rightarrow> ('a, 's, 'w) take_state_t \<Rightarrow> (addr \<rightharpoonup> size_t) \<Rightarrow> bool" where
  "take_holds live ys s B \<longleftrightarrow> (\<exists>xs. ys = take (tk_remaining s) xs \<and> iter_rep live xs (tk_source s) B)"


context heap_allocator begin

lemma take_adaptor:
  "adaptor live take_next (\<lambda>s. iter_destroy (tk_source s))
     (\<lambda>s. mem_free (Some t) (Some (tk_self s)) sizeof_take_state_t)
     (\<lambda>s. [tk_self s \<mapsto> sizeof_take_state_t]) (take_holds live) (\<lambda>s. iter_closes live (tk_source s))"
proof (unfold_locales, goal_cases)
  case (1 s B w R)
  then show ?case by (blast elim: iter_destroy_closes)
next
  case (2 s B w R)
  then show ?case by (blast elim: release_one)
next
  case (3 ys s B)
  then show ?case by (auto simp: take_holds_def iter_rep_closes)
next
  case (4 ys s B w R)
  then obtain xs where ys: "ys = take (tk_remaining s) xs" and xs: "iter_rep live xs (tk_source s) B"
    by (auto simp: take_holds_def)
  show ?case
  proof (cases "tk_remaining s")
    case 0
    with ys 4(2) iter_rep_closes [OF xs] show ?thesis by (auto simp: take_next_def)
  next
    case (Suc k)
    obtain it' w' B' where n: "iter_next (tk_source s) w = Some (hd_opt xs, it', w')" "owns (live w') R B'"
        "iter_after live xs it' B'" by (rule iter_rep_pull [OF xs 4(2)])
    show ?thesis
    proof (cases xs)
      case Nil
      with n ys Suc show ?thesis by (auto simp: take_next_def)
    next
      case (Cons x zs)
      with n ys Suc show ?thesis
        by (fastforce simp: take_next_def take_holds_def)
    qed
  qed
qed

lemma iter_take_built:
  assumes "iter_built live (Some t) R es xs (Some (src, w))"
  shows "iter_built live (Some t) R es (take n xs) (iter_take src n w)"
  unfolding iter_take_def
  by (rule adaptor_built [OF take_adaptor assms])
    (auto simp: take_drop_def take_holds_def)

end

interpretation sys_take: adaptor hp_live take_next "\<lambda>s. iter_destroy (tk_source s)"
  "\<lambda>s. mem_free (Some sys_allocator) (Some (tk_self s)) sizeof_take_state_t"
  "\<lambda>s. [tk_self s \<mapsto> sizeof_take_state_t]" "take_holds hp_live" "\<lambda>s. iter_closes hp_live (tk_source s)"
  by (rule sys.take_adaptor)

subsection \<open>\<open>iter_take_while\<close>\<close>

record ('a, 's, 'w) take_while_state_t =
  tw_self :: addr
  tw_source :: "('a, 's, 'w) iter_t"
  tw_pred :: "'a \<Rightarrow> bool"

definition sizeof_take_while_state_t :: size_t where
  "sizeof_take_while_state_t = 72"

lemma sizeof_take_while_state_t_small [simp]: "sizeof_take_while_state_t \<le> 256"
  by (simp add: sizeof_take_while_state_t_def)

definition take_while_next ::
  "('a, 's, 'w) take_while_state_t \<Rightarrow> 'w \<Rightarrow> ('a option \<times> ('a, 's, 'w) take_while_state_t \<times> 'w) option" where
  "take_while_next s w = do {
     (r, src, w) \<leftarrow> iter_next (tw_source s) w;
     case r of
       None \<Rightarrow> Some (None, s\<lparr>tw_source := src\<rparr>, w)
     | Some x \<Rightarrow>
         if \<not> tw_pred s x then Some (None, s\<lparr>tw_source := src\<rparr>, w)
         else Some (Some x, s\<lparr>tw_source := src\<rparr>, w)
   }"

definition take_while_drop :: "'w allocator_t \<Rightarrow> ('a, 's, 'w) take_while_state_t \<Rightarrow> 'w \<Rightarrow> 'w option" where
  "take_while_drop al s w = do {
     w \<leftarrow> iter_destroy (tw_source s) w;
     mem_free al (Some (tw_self s)) sizeof_take_while_state_t w
   }"

definition iter_take_while ::
  "('a, 's, 'w) iter_t \<Rightarrow> ('a \<Rightarrow> bool) \<Rightarrow> 'w \<Rightarrow> (('a, ('a, 's, 'w) take_while_state_t, 'w) iter_t \<times> 'w) option" where
  "iter_take_while source pred w = adapt source sizeof_take_while_state_t
     (\<lambda>a. iter_make take_while_next (take_while_drop (it_allocator source))
        \<lparr>tw_self = a, tw_source = source, tw_pred = pred\<rparr> (it_elem_size source) (it_allocator source)) w"

definition take_while_holds ::
  "('w \<Rightarrow> addr \<rightharpoonup> size_t) \<Rightarrow> 'a list \<Rightarrow> ('a, 's, 'w) take_while_state_t \<Rightarrow> (addr \<rightharpoonup> size_t) \<Rightarrow> bool" where
  "take_while_holds live ys s B \<longleftrightarrow> (\<exists>xs. ys = takeWhile (tw_pred s) xs \<and> iter_rep live xs (tw_source s) B)"


context heap_allocator begin

lemma take_while_adaptor:
  "adaptor live take_while_next (\<lambda>s. iter_destroy (tw_source s))
     (\<lambda>s. mem_free (Some t) (Some (tw_self s)) sizeof_take_while_state_t)
     (\<lambda>s. [tw_self s \<mapsto> sizeof_take_while_state_t]) (take_while_holds live) (\<lambda>s. iter_closes live (tw_source s))"
proof (unfold_locales, goal_cases)
  case (1 s B w R)
  then show ?case by (blast elim: iter_destroy_closes)
next
  case (2 s B w R)
  then show ?case by (blast elim: release_one)
next
  case (3 ys s B)
  then show ?case by (auto simp: take_while_holds_def iter_rep_closes)
next
  case (4 ys s B w R)
  then obtain xs where ys: "ys = takeWhile (tw_pred s) xs" and xs: "iter_rep live xs (tw_source s) B"
    by (auto simp: take_while_holds_def)
  obtain it' w' B' where n: "iter_next (tw_source s) w = Some (hd_opt xs, it', w')" "owns (live w') R B'"
      "iter_after live xs it' B'" by (rule iter_rep_pull [OF xs 4(2)])
  show ?case
  proof (cases xs)
    case Nil
    with n ys show ?thesis by (auto simp: take_while_next_def)
  next
    case (Cons x zs)
    with n ys iter_after_closes [OF n(3)] show ?thesis
      by (cases "tw_pred s x") (fastforce simp: take_while_next_def take_while_holds_def)+
  qed
qed

lemma iter_take_while_built:
  assumes "iter_built live (Some t) R es xs (Some (src, w))"
  shows "iter_built live (Some t) R es (takeWhile pred xs) (iter_take_while src pred w)"
  unfolding iter_take_while_def
  by (rule adaptor_built [OF take_while_adaptor assms])
    (auto simp: take_while_drop_def take_while_holds_def)

end

interpretation sys_take_while: adaptor hp_live take_while_next "\<lambda>s. iter_destroy (tw_source s)"
  "\<lambda>s. mem_free (Some sys_allocator) (Some (tw_self s)) sizeof_take_while_state_t"
  "\<lambda>s. [tw_self s \<mapsto> sizeof_take_while_state_t]" "take_while_holds hp_live" "\<lambda>s. iter_closes hp_live (tw_source s)"
  by (rule sys.take_while_adaptor)

subsection \<open>\<open>iter_skip\<close>\<close>

record ('a, 's, 'w) skip_state_t =
  sk_self :: addr
  sk_source :: "('a, 's, 'w) iter_t"
  sk_remaining :: size_t

definition sizeof_skip_state_t :: size_t where
  "sizeof_skip_state_t = 64"

lemma sizeof_skip_state_t_small [simp]: "sizeof_skip_state_t \<le> 256"
  by (simp add: sizeof_skip_state_t_def)

text \<open>The loop of \<open>skip_next\<close>, with the counter it decrements.\<close>

fun skip_pull ::
  "size_t \<Rightarrow> ('a, 's, 'w) iter_t \<Rightarrow> 'w \<Rightarrow> ('a option \<times> size_t \<times> ('a, 's, 'w) iter_t \<times> 'w) option" where
  "skip_pull 0 src w = do { (r, src, w) \<leftarrow> iter_next src w; Some (r, 0, src, w) }"
| "skip_pull (Suc n) src w = do {
     (r, src, w) \<leftarrow> iter_next src w;
     case r of None \<Rightarrow> Some (None, Suc n, src, w) | Some _ \<Rightarrow> skip_pull n src w
   }"

definition skip_next ::
  "('a, 's, 'w) skip_state_t \<Rightarrow> 'w \<Rightarrow> ('a option \<times> ('a, 's, 'w) skip_state_t \<times> 'w) option" where
  "skip_next s w = do {
     (r, n, src, w) \<leftarrow> skip_pull (sk_remaining s) (sk_source s) w;
     Some (r, s\<lparr>sk_source := src, sk_remaining := n\<rparr>, w)
   }"

definition skip_drop :: "'w allocator_t \<Rightarrow> ('a, 's, 'w) skip_state_t \<Rightarrow> 'w \<Rightarrow> 'w option" where
  "skip_drop al s w = do {
     w \<leftarrow> iter_destroy (sk_source s) w;
     mem_free al (Some (sk_self s)) sizeof_skip_state_t w
   }"

definition iter_skip ::
  "('a, 's, 'w) iter_t \<Rightarrow> size_t \<Rightarrow> 'w \<Rightarrow> (('a, ('a, 's, 'w) skip_state_t, 'w) iter_t \<times> 'w) option" where
  "iter_skip source n w = adapt source sizeof_skip_state_t
     (\<lambda>a. iter_make skip_next (skip_drop (it_allocator source))
        \<lparr>sk_self = a, sk_source = source, sk_remaining = n\<rparr> (it_elem_size source) (it_allocator source)) w"

definition skip_holds ::
  "('w \<Rightarrow> addr \<rightharpoonup> size_t) \<Rightarrow> 'a list \<Rightarrow> ('a, 's, 'w) skip_state_t \<Rightarrow> (addr \<rightharpoonup> size_t) \<Rightarrow> bool" where
  "skip_holds live ys s B \<longleftrightarrow> (\<exists>xs. ys = drop (sk_remaining s) xs \<and> iter_rep live xs (sk_source s) B)"

lemma skip_pull_at:
  assumes "iter_rep live xs src B" and "owns (live w) R B"
  shows "\<exists>k src' w' B'. skip_pull n src w = Some (hd_opt (drop n xs), k, src', w') \<and> owns (live w') R B' \<and>
    (case drop n xs of [] \<Rightarrow> iter_closes live src' B' | _ # ys \<Rightarrow> k = 0 \<and> iter_rep live ys src' B')"
  using assms
proof (induction n arbitrary: xs src w B)
  case 0
  obtain it' w' B' where "iter_next src w = Some (hd_opt xs, it', w')" "owns (live w') R B'"
      "iter_after live xs it' B'" by (rule iter_rep_pull [OF 0])
  then show ?case by (cases xs) (auto)
next
  case (Suc n)
  obtain it' w' B' where n: "iter_next src w = Some (hd_opt xs, it', w')" "owns (live w') R B'"
      "iter_after live xs it' B'" by (rule iter_rep_pull [OF Suc.prems])
  show ?case
  proof (cases xs)
    case Nil
    with n show ?thesis by auto
  next
    case (Cons x ys)
    with n Suc.IH [of ys it' B' w'] show ?thesis by simp
  qed
qed


context heap_allocator begin

lemma skip_adaptor:
  "adaptor live skip_next (\<lambda>s. iter_destroy (sk_source s))
     (\<lambda>s. mem_free (Some t) (Some (sk_self s)) sizeof_skip_state_t)
     (\<lambda>s. [sk_self s \<mapsto> sizeof_skip_state_t]) (skip_holds live) (\<lambda>s. iter_closes live (sk_source s))"
proof (unfold_locales, goal_cases)
  case (1 s B w R)
  then show ?case by (blast elim: iter_destroy_closes)
next
  case (2 s B w R)
  then show ?case by (blast elim: release_one)
next
  case (3 ys s B)
  then show ?case by (auto simp: skip_holds_def iter_rep_closes)
next
  case (4 ys s B w R)
  then obtain xs where ys: "ys = drop (sk_remaining s) xs" and xs: "iter_rep live xs (sk_source s) B"
    by (auto simp: skip_holds_def)
  from skip_pull_at [OF xs 4(2), of "sk_remaining s"] ys show ?case
    by (fastforce simp: skip_next_def skip_holds_def split: list.splits)
qed

lemma iter_skip_built:
  assumes "iter_built live (Some t) R es xs (Some (src, w))"
  shows "iter_built live (Some t) R es (drop n xs) (iter_skip src n w)"
  unfolding iter_skip_def
  by (rule adaptor_built [OF skip_adaptor assms])
    (auto simp: skip_drop_def skip_holds_def)

end

interpretation sys_skip: adaptor hp_live skip_next "\<lambda>s. iter_destroy (sk_source s)"
  "\<lambda>s. mem_free (Some sys_allocator) (Some (sk_self s)) sizeof_skip_state_t"
  "\<lambda>s. [sk_self s \<mapsto> sizeof_skip_state_t]" "skip_holds hp_live" "\<lambda>s. iter_closes hp_live (sk_source s)"
  by (rule sys.skip_adaptor)

subsection \<open>\<open>iter_skip_while\<close>\<close>

record ('a, 's, 'w) skip_while_state_t =
  sw_self :: addr
  sw_source :: "('a, 's, 'w) iter_t"
  sw_pred :: "'a \<Rightarrow> bool"
  sw_done_skipping :: bool

definition sizeof_skip_while_state_t :: size_t where
  "sizeof_skip_while_state_t = 80"

lemma sizeof_skip_while_state_t_small [simp]: "sizeof_skip_while_state_t \<le> 256"
  by (simp add: sizeof_skip_while_state_t_def)

text \<open>The loop of \<open>skip_while_next\<close>; \<open>d\<close> is \<open>done_skipping\<close>.\<close>

partial_function (option) skip_while_pull ::
  "('a \<Rightarrow> bool) \<Rightarrow> bool \<Rightarrow> ('a, 's, 'w) iter_t \<Rightarrow> 'w \<Rightarrow> ('a option \<times> bool \<times> ('a, 's, 'w) iter_t \<times> 'w) option" where
  "skip_while_pull pred d src w = do {
     (r, src, w) \<leftarrow> iter_next src w;
     case r of
       None \<Rightarrow> Some (None, d, src, w)
     | Some x \<Rightarrow> if d \<or> \<not> pred x then Some (Some x, True, src, w) else skip_while_pull pred d src w
   }"

definition skip_while_next ::
  "('a, 's, 'w) skip_while_state_t \<Rightarrow> 'w \<Rightarrow> ('a option \<times> ('a, 's, 'w) skip_while_state_t \<times> 'w) option" where
  "skip_while_next s w = do {
     (r, d, src, w) \<leftarrow> skip_while_pull (sw_pred s) (sw_done_skipping s) (sw_source s) w;
     Some (r, s\<lparr>sw_source := src, sw_done_skipping := d\<rparr>, w)
   }"

definition skip_while_drop :: "'w allocator_t \<Rightarrow> ('a, 's, 'w) skip_while_state_t \<Rightarrow> 'w \<Rightarrow> 'w option" where
  "skip_while_drop al s w = do {
     w \<leftarrow> iter_destroy (sw_source s) w;
     mem_free al (Some (sw_self s)) sizeof_skip_while_state_t w
   }"

definition iter_skip_while ::
  "('a, 's, 'w) iter_t \<Rightarrow> ('a \<Rightarrow> bool) \<Rightarrow> 'w \<Rightarrow> (('a, ('a, 's, 'w) skip_while_state_t, 'w) iter_t \<times> 'w) option" where
  "iter_skip_while source pred w = adapt source sizeof_skip_while_state_t
     (\<lambda>a. iter_make skip_while_next (skip_while_drop (it_allocator source))
        \<lparr>sw_self = a, sw_source = source, sw_pred = pred, sw_done_skipping = False\<rparr> (it_elem_size source) (it_allocator source)) w"

definition skip_while_holds ::
  "('w \<Rightarrow> addr \<rightharpoonup> size_t) \<Rightarrow> 'a list \<Rightarrow> ('a, 's, 'w) skip_while_state_t \<Rightarrow> (addr \<rightharpoonup> size_t) \<Rightarrow> bool" where
  "skip_while_holds live ys s B \<longleftrightarrow> (\<exists>xs. ys = (if sw_done_skipping s then xs else dropWhile (sw_pred s) xs) \<and> iter_rep live xs (sw_source s) B)"

lemma skip_while_pull_at:
  fixes d xs P
  defines "rest \<equiv> (if d then xs else dropWhile P xs)"
  assumes "iter_rep live xs src B" and "owns (live w) R B"
  shows "\<exists>k src' w' B'. skip_while_pull P d src w = Some (hd_opt rest, k, src', w') \<and> owns (live w') R B' \<and>
    (case rest of [] \<Rightarrow> iter_closes live src' B' | _ # ys \<Rightarrow> k \<and> iter_rep live ys src' B')"
  using assms(2,3) unfolding rest_def
proof (induction xs arbitrary: src w B)
  case Nil
  obtain it' w' B' where "iter_next src w = Some (None, it', w')" "owns (live w') R B'" "iter_closes live it' B'"
    by (rule iter_rep_NilE [OF Nil])
  then show ?case by (auto simp: skip_while_pull.simps)
next
  case (Cons x xs)
  obtain it' w' B' where n: "iter_next src w = Some (Some x, it', w')" "owns (live w') R B'" "iter_rep live xs it' B'"
    by (rule iter_rep_ConsE [OF Cons.prems])
  show ?case
  proof (cases "d \<or> \<not> P x")
    case True
    with n show ?thesis by (auto simp: skip_while_pull.simps)
  next
    case False
    with n(1) have "skip_while_pull P d src w = skip_while_pull P d it' w'"
      by (simp add: skip_while_pull.simps [of _ _ src])
    with Cons.IH [OF n(3,2)] False show ?thesis by simp
  qed
qed


context heap_allocator begin

lemma skip_while_adaptor:
  "adaptor live skip_while_next (\<lambda>s. iter_destroy (sw_source s))
     (\<lambda>s. mem_free (Some t) (Some (sw_self s)) sizeof_skip_while_state_t)
     (\<lambda>s. [sw_self s \<mapsto> sizeof_skip_while_state_t]) (skip_while_holds live) (\<lambda>s. iter_closes live (sw_source s))"
proof (unfold_locales, goal_cases)
  case (1 s B w R)
  then show ?case by (blast elim: iter_destroy_closes)
next
  case (2 s B w R)
  then show ?case by (blast elim: release_one)
next
  case (3 ys s B)
  then show ?case by (auto simp: skip_while_holds_def iter_rep_closes)
next
  case (4 ys s B w R)
  then obtain xs where ys: "ys = (if sw_done_skipping s then xs else dropWhile (sw_pred s) xs)"
    and xs: "iter_rep live xs (sw_source s) B"
    by (auto simp: skip_while_holds_def)
  from skip_while_pull_at [OF xs 4(2), of "sw_pred s" "sw_done_skipping s"] show ?case
    unfolding ys [symmetric]
    by (fastforce simp: skip_while_next_def skip_while_holds_def split: list.splits)
qed

lemma iter_skip_while_built:
  assumes "iter_built live (Some t) R es xs (Some (src, w))"
  shows "iter_built live (Some t) R es (dropWhile pred xs) (iter_skip_while src pred w)"
  unfolding iter_skip_while_def
  by (rule adaptor_built [OF skip_while_adaptor assms])
    (auto simp: skip_while_drop_def skip_while_holds_def)

end

interpretation sys_skip_while: adaptor hp_live skip_while_next "\<lambda>s. iter_destroy (sw_source s)"
  "\<lambda>s. mem_free (Some sys_allocator) (Some (sw_self s)) sizeof_skip_while_state_t"
  "\<lambda>s. [sw_self s \<mapsto> sizeof_skip_while_state_t]" "skip_while_holds hp_live" "\<lambda>s. iter_closes hp_live (sw_source s)"
  by (rule sys.skip_while_adaptor)

subsection \<open>\<open>iter_map\<close>\<close>

text \<open>
  The callback writes one output element from one input element; the input is held in
  \<open>in_buf\<close>, a block of one source element. This constructor stops at the first allocation
  that fails.
\<close>

record ('a, 'b, 's, 'w) map_state_t =
  mp_self :: addr
  mp_source :: "('a, 's, 'w) iter_t"
  mp_map :: "'a \<Rightarrow> 'b"
  mp_in_buf :: addr

definition sizeof_map_state_t :: size_t where
  "sizeof_map_state_t = 80"

lemma sizeof_map_state_t_small [simp]: "sizeof_map_state_t \<le> 256"
  by (simp add: sizeof_map_state_t_def)

definition map_next ::
  "('a, 'b, 's, 'w) map_state_t \<Rightarrow> 'w \<Rightarrow> ('b option \<times> ('a, 'b, 's, 'w) map_state_t \<times> 'w) option" where
  "map_next s w = do {
     (r, src, w) \<leftarrow> iter_next (mp_source s) w;
     case r of
       None \<Rightarrow> Some (None, s\<lparr>mp_source := src\<rparr>, w)
     | Some x \<Rightarrow> Some (Some (mp_map s x), s\<lparr>mp_source := src\<rparr>, w)
   }"

definition map_drop :: "'w allocator_t \<Rightarrow> ('a, 'b, 's, 'w) map_state_t \<Rightarrow> 'w \<Rightarrow> 'w option" where
  "map_drop al s w = do {
     w \<leftarrow> iter_destroy (mp_source s) w;
     w \<leftarrow> mem_free al (Some (mp_in_buf s)) (it_elem_size (mp_source s)) w;
     mem_free al (Some (mp_self s)) sizeof_map_state_t w
   }"

definition iter_map ::
  "('a, 's, 'w) iter_t \<Rightarrow> ('a \<Rightarrow> 'b) \<Rightarrow> size_t \<Rightarrow> 'w \<Rightarrow>
   (('b, ('a, 'b, 's, 'w) map_state_t, 'w) iter_t \<times> 'w) option" where
  "iter_map source f out_elem_size w =
     (if \<not> iter_is_valid source then Some (iter_zero, w)
      else do {
        (s, w) \<leftarrow> mem_alloc (it_allocator source) sizeof_map_state_t w;
        case s of
          None \<Rightarrow> do { w \<leftarrow> iter_destroy source w; Some (iter_zero, w) }
        | Some a \<Rightarrow> do {
            (in_buf, w) \<leftarrow> mem_alloc (it_allocator source) (it_elem_size source) w;
            case in_buf of
              None \<Rightarrow> do {
                w \<leftarrow> mem_free (it_allocator source) (Some a) sizeof_map_state_t w;
                w \<leftarrow> iter_destroy source w;
                Some (iter_zero, w)
              }
            | Some b \<Rightarrow> Some (iter_make map_next (map_drop (it_allocator source))
                \<lparr>mp_self = a, mp_source = source, mp_map = f, mp_in_buf = b\<rparr>
                out_elem_size (it_allocator source), w)
          }
      })"

lemma map_drop_eq:
  "map_drop al = adaptor_drop (\<lambda>s. iter_destroy (mp_source s))
     (\<lambda>s w. do {
        w \<leftarrow> mem_free al (Some (mp_in_buf s)) (it_elem_size (mp_source s)) w;
        mem_free al (Some (mp_self s)) sizeof_map_state_t w
      })"
  by (rule ext)+ (simp add: map_drop_def adaptor_drop_def)

definition map_holds ::
  "('w \<Rightarrow> addr \<rightharpoonup> size_t) \<Rightarrow> 'b list \<Rightarrow> ('a, 'b, 's, 'w) map_state_t \<Rightarrow> (addr \<rightharpoonup> size_t) \<Rightarrow> bool" where
  "map_holds live ys s B \<longleftrightarrow> mp_self s \<noteq> mp_in_buf s \<and>
     (\<exists>xs. ys = map (mp_map s) xs \<and> iter_rep live xs (mp_source s) B)"

context heap_allocator begin

lemma map_adaptor:
  "adaptor live map_next (\<lambda>s. iter_destroy (mp_source s))
     (\<lambda>s w. do {
        w \<leftarrow> mem_free (Some t) (Some (mp_in_buf s)) (it_elem_size (mp_source s)) w;
        mem_free (Some t) (Some (mp_self s)) sizeof_map_state_t w
      })
     (\<lambda>s. [mp_self s \<mapsto> sizeof_map_state_t, mp_in_buf s \<mapsto> it_elem_size (mp_source s)])
     (map_holds live) (\<lambda>s B. mp_self s \<noteq> mp_in_buf s \<and> iter_closes live (mp_source s) B)"
proof (unfold_locales, goal_cases)
  case (1 s B w R)
  then show ?case by (blast elim: iter_destroy_closes)
next
  case (2 s B w R)
  then show ?case by (fastforce elim: release_two simp del: mem_free.simps)
next
  case (3 ys s B)
  then show ?case by (auto simp: map_holds_def iter_rep_closes)
next
  case (4 ys s B w R)
  then obtain xs where ys: "ys = map (mp_map s) xs" and xs: "iter_rep live xs (mp_source s) B"
    and ne: "mp_self s \<noteq> mp_in_buf s" by (auto simp: map_holds_def)
  obtain it' w' B' where n: "iter_next (mp_source s) w = Some (hd_opt xs, it', w')" "owns (live w') R B'"
      "iter_after live xs it' B'" "same_source (mp_source s) it'" by (rule iter_rep_pull [OF xs 4(2)])
  show ?case
  proof (cases xs)
    case Nil
    with n ys ne show ?thesis by (auto simp: map_next_def same_source_def)
  next
    case (Cons x zs)
    with n ys ne show ?thesis
      by (fastforce simp: map_next_def map_holds_def same_source_def)
  qed
qed

lemma iter_map_built:
  assumes "iter_built live (Some t) R es xs (Some (src, w))" and big: "es \<le> PTRDIFF_MAX"
  shows "iter_built live (Some t) R es' (map f xs) (iter_map src f es' w)"
  using assms(1)
proof (cases rule: iter_built_cases)
  case failed
  then show ?thesis by (intro iter_built_zero [of _ w]) (simp_all add: iter_map_def)
next
  case (valid B)
  note cl = iter_rep_closes [OF valid(5)]
  from valid(4) show ?thesis
  proof (cases rule: state_alloc [where n = sizeof_map_state_t])
    case a: (granted a w1)
    from a(2) show ?thesis
    proof (cases rule: state_alloc [where n = es])
      case b: (granted b w2)
      have ab: "a \<noteq> b" using b(3) by auto
      let ?s = "\<lparr>mp_self = a, mp_source = src, mp_map = f, mp_in_buf = b\<rparr>"
      have "iter_rep live (map f xs) (iter_make map_next (map_drop (Some t)) ?s es' (Some t))
          (B(a \<mapsto> sizeof_map_state_t, b \<mapsto> es))"
        unfolding map_drop_eq
        by (rule adaptor.rep [OF map_adaptor, of _ _ B])
          (use valid ab joined_upd2 [OF a(3) b(3)] in \<open>auto simp: map_holds_def\<close>)
      then show ?thesis
        by (intro iter_built_valid [where it = "iter_make map_next (map_drop (Some t)) ?s es' (Some t)" and w' = w2
              and B = "B(a \<mapsto> sizeof_map_state_t, b \<mapsto> es)"])
          (simp_all add: iter_map_def valid a b del: mem_alloc.simps)
    next
      case b: (refused w2)
      obtain w3 where w3: "mem_free (Some t) (Some a) sizeof_map_state_t w2 = Some w3"
          "owns (live w3) R ((B(a \<mapsto> sizeof_map_state_t))(a := None))"
        by (rule owns_mem_free [OF b(2), of a sizeof_map_state_t]) simp_all
      moreover have "(B(a \<mapsto> sizeof_map_state_t))(a := None) = B" using a(3) by (auto simp: fun_eq_iff fun_upd_apply)
      ultimately show ?thesis using close_on_failure [OF cl, of w3 R] starvedI [OF b(3) big] a(1) b(1) valid
        by (simp add: iter_map_def del: mem_alloc.simps mem_free.simps)
    qed
  next
    case (refused w1)
    with valid close_on_failure [OF cl refused(2) starved_small [OF refused(3)]] show ?thesis
      by (simp add: iter_map_def del: mem_alloc.simps)
  qed
qed

end

interpretation sys_map: adaptor hp_live map_next "\<lambda>s. iter_destroy (mp_source s)"
  "\<lambda>s w. do {
     w \<leftarrow> mem_free (Some sys_allocator) (Some (mp_in_buf s)) (it_elem_size (mp_source s)) w;
     mem_free (Some sys_allocator) (Some (mp_self s)) sizeof_map_state_t w
   }"
  "\<lambda>s. [mp_self s \<mapsto> sizeof_map_state_t, mp_in_buf s \<mapsto> it_elem_size (mp_source s)]"
  "map_holds hp_live" "\<lambda>s B. mp_self s \<noteq> mp_in_buf s \<and> iter_closes hp_live (mp_source s) B"
  by (rule sys.map_adaptor)

end
