(* ===== verification/Seqc_Adapt_Two.thy ===== *)
theory Seqc_Adapt_Two
  imports Seqc_Adapt
begin

section \<open>Adaptors over two iterators\<close>

text \<open>
  \<open>iter_chain\<close>, \<open>iter_zip\<close> and \<open>iter_flat_map\<close> of \<open>src/iter/iter.c\<close>. Each of the two iterators
  takes its calls in the frame of the other one.
\<close>

subsection \<open>\<open>iter_chain\<close>\<close>

record ('a, 's, 'r, 'w) chain_state_t =
  ch_self :: addr
  ch_first :: "('a, 's, 'w) iter_t"
  ch_second :: "('a, 'r, 'w) iter_t"
  ch_done_first :: bool

definition sizeof_chain_state_t :: size_t where
  "sizeof_chain_state_t = 120"

lemma sizeof_chain_state_t_small [simp]: "sizeof_chain_state_t \<le> 256"
  by (simp add: sizeof_chain_state_t_def)

definition chain_next ::
  "('a, 's, 'r, 'w) chain_state_t \<Rightarrow> 'w \<Rightarrow> ('a option \<times> ('a, 's, 'r, 'w) chain_state_t \<times> 'w) option" where
  "chain_next s w = do {
     (r, s, w) \<leftarrow>
       (if ch_done_first s then Some (None, s, w)
        else do {
          (r, first, w) \<leftarrow> iter_next (ch_first s) w;
          Some (r, s\<lparr>ch_first := first, ch_done_first := (r = None)\<rparr>, w)
        });
     if r \<noteq> None then Some (r, s, w)
     else do {
       (r, second, w) \<leftarrow> iter_next (ch_second s) w;
       Some (r, s\<lparr>ch_second := second\<rparr>, w)
     }
   }"

definition chain_drop :: "'w allocator_t \<Rightarrow> ('a, 's, 'r, 'w) chain_state_t \<Rightarrow> 'w \<Rightarrow> 'w option" where
  "chain_drop al s w = do {
     w \<leftarrow> iter_destroy (ch_first s) w;
     w \<leftarrow> iter_destroy (ch_second s) w;
     mem_free al (Some (ch_self s)) sizeof_chain_state_t w
   }"

definition iter_chain ::
  "('a, 's, 'w) iter_t \<Rightarrow> ('a, 'r, 'w) iter_t \<Rightarrow> 'w \<Rightarrow> (('a, ('a, 's, 'r, 'w) chain_state_t, 'w) iter_t \<times> 'w) option" where
  "iter_chain a b w =
     (if \<not> iter_is_valid a \<or> \<not> iter_is_valid b then do {
        w \<leftarrow> iter_destroy a w;
        w \<leftarrow> iter_destroy b w;
        Some (iter_zero, w)
      } else do {
        (s, w) \<leftarrow> mem_alloc (it_allocator a) sizeof_chain_state_t w;
        case s of
          None \<Rightarrow> do {
            w \<leftarrow> iter_destroy a w;
            w \<leftarrow> iter_destroy b w;
            Some (iter_zero, w)
          }
        | Some p \<Rightarrow> Some (iter_make chain_next (chain_drop (it_allocator a))
            \<lparr>ch_self = p, ch_first = a, ch_second = b, ch_done_first = False\<rparr>
            (it_elem_size a) (it_allocator a), w)
      })"

definition chain_holds ::
  "('w \<Rightarrow> addr \<rightharpoonup> size_t) \<Rightarrow> 'a list \<Rightarrow> ('a, 's, 'r, 'w) chain_state_t \<Rightarrow> (addr \<rightharpoonup> size_t) \<Rightarrow> bool" where
  "chain_holds live ys s C \<longleftrightarrow> (\<exists>xs zs A B. joined C A B \<and> iter_rep live zs (ch_second s) B \<and>
     (if ch_done_first s then ys = zs \<and> iter_closes live (ch_first s) A
      else ys = xs @ zs \<and> iter_rep live xs (ch_first s) A))"

text \<open>Two iterators that are closed one after the other.\<close>

definition closes_both ::
  "('w \<Rightarrow> addr \<rightharpoonup> size_t) \<Rightarrow> ('a, 's, 'w) iter_t \<Rightarrow> ('b, 'r, 'w) iter_t \<Rightarrow> (addr \<rightharpoonup> size_t) \<Rightarrow> bool" where
  "closes_both live a b C \<longleftrightarrow> (\<exists>A B. joined C A B \<and> iter_closes live a A \<and> iter_closes live b B)"

lemma closes_bothI: "joined C A B \<Longrightarrow> iter_closes live a A \<Longrightarrow> iter_closes live b B \<Longrightarrow> closes_both live a b C"
  by (auto simp: closes_both_def)

lemma closes_both_destroy:
  assumes "closes_both live a b C" and "owns (live w) R C"
  obtains w1 w2 where "iter_destroy a w = Some w1" and "iter_destroy b w1 = Some w2" and "live w2 = R"
proof -
  obtain A B where j: "joined C A B" and a: "iter_closes live a A" and b: "iter_closes live b B"
    using assms(1) by (auto simp: closes_both_def)
  obtain w1 where w1: "iter_destroy a w = Some w1" "live w1 = R ++ B"
    by (rule iter_destroy_closes [OF a joined_open [OF j assms(2)]])
  have "owns (live w1) R B" by (rule joined_rest [OF j assms(2) w1(2)])
  from iter_destroy_closes [OF b this] w1(1) that show ?thesis by blast
qed

lemma closes_both_fail:
  assumes "closes_both live a b C" and "owns (live w) R C" and "starved al"
  shows "iter_built live al R es ys
    (do { w \<leftarrow> iter_destroy a w; w \<leftarrow> iter_destroy b w; Some (iter_zero, w) })"
proof -
  obtain w1 w2 where "iter_destroy a w = Some w1" "iter_destroy b w1 = Some w2" "live w2 = R"
    by (rule closes_both_destroy [OF assms(1,2)])
  with assms(3) show ?thesis by (intro iter_built_zero [of _ w2]) simp_all
qed

text \<open>Two iterators, built one after the other.\<close>

lemma iter_built2_cases:
  assumes "iter_built live al R es xs (Some (a, w1))" and "iter_built live al (live w1) es' ys (Some (b, w))"
  obtains (failed) C where "\<not> iter_is_valid a \<or> \<not> iter_is_valid b" and "owns (live w) R C"
      and "closes_both live a b C" and "starved al"
  | (valid) C A B where "iter_is_valid a" and "iter_is_valid b" and "it_elem_size a = es"
      and "it_elem_size b = es'" and "it_allocator a = al" and "it_allocator b = al"
      and "owns (live w) R C" and "joined C A B" and "iter_rep live xs a A" and "iter_rep live ys b B"
  using assms(1)
proof (cases rule: iter_built_cases)
  case a: failed
  from assms(2) show ?thesis
  proof (cases rule: iter_built_cases)
    case b: failed
    have "closes_both live a b Map.empty"
      unfolding a(1) b(1) by (rule closes_bothI [OF joined_empty iter_closes_zero iter_closes_zero])
    with failed [of Map.empty] a b show ?thesis by simp
  next
    case b: (valid B)
    have "closes_both live a b B"
      by (rule closes_bothI [of _ Map.empty B])
        (use a iter_closes_zero iter_rep_closes [OF b(5)] joined_sym [OF joined_empty] in auto)
    with failed [of B] a b show ?thesis by auto
  qed
next
  case a: (valid A)
  from assms(2) show ?thesis
  proof (cases rule: iter_built_cases)
    case b: failed
    have "closes_both live a b A"
      by (rule closes_bothI [of _ A Map.empty])
        (use b iter_closes_zero iter_rep_closes [OF a(5)] joined_empty in auto)
    with failed [of A] a b show ?thesis by auto
  next
    case b: (valid B)
    note j = joined_owns [OF a(4) b(4)]
    from valid [OF a(1) b(1) a(2) b(2) a(3) b(3) j a(5) b(5)] show ?thesis .
  qed
qed

lemma chain_step:
  assumes "chain_holds live ys s C" and "owns (live w) R C"
  shows "\<exists>s' w' C'. chain_next s w = Some (hd_opt ys, s', w') \<and> owns (live w') R C' \<and> ch_self s' = ch_self s \<and>
    (case ys of [] \<Rightarrow> closes_both live (ch_first s') (ch_second s') C' | _ # zs \<Rightarrow> chain_holds live zs s' C')"
proof -
  have second: "\<exists>s' w' C'. do { (r, second, w) \<leftarrow> iter_next (ch_second s) w; Some (r, s\<lparr>ch_second := second\<rparr>, w) }
      = Some (hd_opt zs, s', w') \<and> owns (live w') R C' \<and> ch_self s' = ch_self s \<and>
      (case zs of [] \<Rightarrow> closes_both live (ch_first s') (ch_second s') C' | _ # zs \<Rightarrow> chain_holds live zs s' C')"
    if h: "joined C A B" "iter_rep live zs (ch_second s) B" "iter_closes live (ch_first s) A" "ch_done_first s"
      "owns (live w) R C" for zs s A B C w
  proof -
    note j = joined_sym [OF h(1)]
    obtain it' w' B' where n: "iter_next (ch_second s) w = Some (hd_opt zs, it', w')"
        "owns (live w') (R ++ A) B'" "iter_after live zs it' B'"
      by (rule iter_rep_pull [OF h(2) joined_open [OF j h(5)]])
    note j' = joined_close [OF j h(5) n(2)]
    let ?s = "s\<lparr>ch_second := it'\<rparr>"
    have "case zs of [] \<Rightarrow> closes_both live (ch_first ?s) (ch_second ?s) (B' ++ A)
        | _ # zs \<Rightarrow> chain_holds live zs ?s (B' ++ A)"
      using n(3) h(3,4) joined_sym [OF j'(2)]
      by (cases zs) (auto simp: closes_both_def chain_holds_def)
    with n(1) j'(1) show ?thesis
      by (intro exI [of _ ?s] exI [of _ w'] exI [of _ "B' ++ A"]) simp
  qed
  obtain xs zs A B where j: "joined C A B" and z: "iter_rep live zs (ch_second s) B"
    and f: "if ch_done_first s then ys = zs \<and> iter_closes live (ch_first s) A
      else ys = xs @ zs \<and> iter_rep live xs (ch_first s) A"
    using assms(1) unfolding chain_holds_def by blast
  show ?thesis
  proof (cases "ch_done_first s")
    case True
    with f second [OF j z _ True assms(2)] show ?thesis by (simp add: chain_next_def)
  next
    case False
    with f have f': "iter_rep live xs (ch_first s) A" "ys = xs @ zs" by auto
    obtain it' w' A' where n: "iter_next (ch_first s) w = Some (hd_opt xs, it', w')"
        "owns (live w') (R ++ B) A'" "iter_after live xs it' A'"
      by (rule iter_rep_pull [OF f'(1) joined_open [OF j assms(2)]])
    note j' = joined_close [OF j assms(2) n(2)]
    show ?thesis
    proof (cases xs)
      case Nil
      with second [OF j'(2), of zs "s\<lparr>ch_first := it', ch_done_first := True\<rparr>" w'] n z j'(1) False f'
      show ?thesis by (simp add: chain_next_def)
    next
      case (Cons x xs')
      let ?s = "s\<lparr>ch_first := it', ch_done_first := False\<rparr>"
      have "chain_holds live (xs' @ zs) ?s (A' ++ B)"
        unfolding chain_holds_def using j'(2) z n(3) Cons
        by (intro exI [of _ xs'] exI [of _ zs] exI [of _ A'] exI [of _ B]) simp
      with n(1) j'(1) False f' Cons show ?thesis
        by (intro exI [of _ ?s] exI [of _ w'] exI [of _ "A' ++ B"]) (simp add: chain_next_def)
    qed
  qed
qed

lemma chain_drop_eq:
  "chain_drop al = adaptor_drop (\<lambda>s w. do { w \<leftarrow> iter_destroy (ch_first s) w; iter_destroy (ch_second s) w })
     (\<lambda>s. mem_free al (Some (ch_self s)) sizeof_chain_state_t)"
  by (rule ext)+ (simp add: chain_drop_def adaptor_drop_def)

context heap_allocator begin

lemma chain_adaptor:
  "adaptor live chain_next (\<lambda>s w. do { w \<leftarrow> iter_destroy (ch_first s) w; iter_destroy (ch_second s) w })
     (\<lambda>s. mem_free (Some t) (Some (ch_self s)) sizeof_chain_state_t)
     (\<lambda>s. [ch_self s \<mapsto> sizeof_chain_state_t]) (chain_holds live)
     (\<lambda>s. closes_both live (ch_first s) (ch_second s))"
proof (unfold_locales, goal_cases)
  case (1 s B w R)
  then show ?case by (fastforce elim: closes_both_destroy)
next
  case (2 s B w R)
  then show ?case by (blast elim: release_one)
next
  case (3 ys s B)
  then show ?case by (auto simp: chain_holds_def split: if_splits intro: closes_bothI iter_rep_closes)
next
  case (4 ys s B w R)
  from chain_step [OF this] show ?case by fastforce
qed

lemma iter_chain_built:
  assumes "iter_built live (Some t) R es xs (Some (a, w1))"
    and "iter_built live (Some t) (live w1) es ys (Some (b, w))"
  shows "iter_built live (Some t) R es (xs @ ys) (iter_chain a b w)"
  using assms
proof (cases rule: iter_built2_cases)
  case (failed C)
  with closes_both_fail [OF failed(3,2,4)] show ?thesis by (simp add: iter_chain_def)
next
  case (valid C A B)
  from valid(7) show ?thesis
  proof (cases rule: state_alloc [where n = sizeof_chain_state_t])
    case (granted p w')
    let ?s = "\<lparr>ch_self = p, ch_first = a, ch_second = b, ch_done_first = False\<rparr>"
    have "iter_rep live (xs @ ys) (iter_make chain_next (chain_drop (Some t)) ?s es (Some t)) (C(p \<mapsto> sizeof_chain_state_t))"
      unfolding chain_drop_eq
      by (rule adaptor.rep [OF chain_adaptor, of _ _ C])
        (use valid joined_upd [OF granted(3)] in \<open>auto simp: chain_holds_def\<close>)
    then show ?thesis
      by (intro iter_built_valid [where it = "iter_make chain_next (chain_drop (Some t)) ?s es (Some t)"
            and w' = w' and B = "C(p \<mapsto> sizeof_chain_state_t)"])
        (simp_all add: iter_chain_def valid granted del: mem_alloc.simps)
  next
    case (refused w')
    have "closes_both live a b C"
      using closes_bothI [OF valid(8)] iter_rep_closes [OF valid(9)] iter_rep_closes [OF valid(10)] by blast
    from closes_both_fail [OF this refused(2) starved_small [OF refused(3)]] refused(1) valid show ?thesis
      by (simp add: iter_chain_def del: mem_alloc.simps)
  qed
qed

end

interpretation sys_chain: adaptor hp_live chain_next
  "\<lambda>s w. do { w \<leftarrow> iter_destroy (ch_first s) w; iter_destroy (ch_second s) w }"
  "\<lambda>s. mem_free (Some sys_allocator) (Some (ch_self s)) sizeof_chain_state_t"
  "\<lambda>s. [ch_self s \<mapsto> sizeof_chain_state_t]" "chain_holds hp_live"
  "\<lambda>s. closes_both hp_live (ch_first s) (ch_second s)"
  by (rule sys.chain_adaptor)

subsection \<open>\<open>iter_zip\<close>\<close>

text \<open>
  An element of the result is the bytes of one element of each source, a pair here. The first
  half waits in \<open>buf_a\<close> until the second has arrived.
\<close>

record ('a, 'b, 's, 'r, 'w) zip_state_t =
  zp_self :: addr
  zp_a :: "('a, 's, 'w) iter_t"
  zp_b :: "('b, 'r, 'w) iter_t"
  zp_a_elem_size :: size_t
  zp_buf_a :: addr

definition sizeof_zip_state_t :: size_t where
  "sizeof_zip_state_t = 128"

lemma sizeof_zip_state_t_small [simp]: "sizeof_zip_state_t \<le> 256"
  by (simp add: sizeof_zip_state_t_def)

definition zip_next ::
  "('a, 'b, 's, 'r, 'w) zip_state_t \<Rightarrow> 'w \<Rightarrow> (('a \<times> 'b) option \<times> ('a, 'b, 's, 'r, 'w) zip_state_t \<times> 'w) option" where
  "zip_next s w = do {
     (r, a, w) \<leftarrow> iter_next (zp_a s) w;
     case r of
       None \<Rightarrow> Some (None, s\<lparr>zp_a := a\<rparr>, w)
     | Some x \<Rightarrow> do {
         (r, b, w) \<leftarrow> iter_next (zp_b s) w;
         case r of
           None \<Rightarrow> Some (None, s\<lparr>zp_a := a, zp_b := b\<rparr>, w)
         | Some y \<Rightarrow> Some (Some (x, y), s\<lparr>zp_a := a, zp_b := b\<rparr>, w)
       }
   }"

definition zip_drop :: "'w allocator_t \<Rightarrow> ('a, 'b, 's, 'r, 'w) zip_state_t \<Rightarrow> 'w \<Rightarrow> 'w option" where
  "zip_drop al s w = do {
     w \<leftarrow> iter_destroy (zp_a s) w;
     w \<leftarrow> iter_destroy (zp_b s) w;
     w \<leftarrow> mem_free al (Some (zp_buf_a s)) (zp_a_elem_size s) w;
     mem_free al (Some (zp_self s)) sizeof_zip_state_t w
   }"

definition iter_zip ::
  "('a, 's, 'w) iter_t \<Rightarrow> ('b, 'r, 'w) iter_t \<Rightarrow> 'w \<Rightarrow>
   (('a \<times> 'b, ('a, 'b, 's, 'r, 'w) zip_state_t, 'w) iter_t \<times> 'w) option" where
  "iter_zip a b w =
     (if \<not> iter_is_valid a \<or> \<not> iter_is_valid b then do {
        w \<leftarrow> iter_destroy a w;
        w \<leftarrow> iter_destroy b w;
        Some (iter_zero, w)
      } else do {
        (s, w) \<leftarrow> mem_alloc (it_allocator a) sizeof_zip_state_t w;
        (buf_a, w) \<leftarrow> mem_alloc (it_allocator a) (it_elem_size a) w;
        case (s, buf_a) of
          (Some p, Some q) \<Rightarrow> Some (iter_make zip_next (zip_drop (it_allocator a))
            \<lparr>zp_self = p, zp_a = a, zp_b = b, zp_a_elem_size = it_elem_size a, zp_buf_a = q\<rparr>
            (wadd (it_elem_size a) (it_elem_size b)) (it_allocator a), w)
        | _ \<Rightarrow> do {
            w \<leftarrow> (if s = None then Some w else mem_free (it_allocator a) s sizeof_zip_state_t w);
            w \<leftarrow> (if buf_a = None then Some w else mem_free (it_allocator a) buf_a (it_elem_size a) w);
            w \<leftarrow> iter_destroy a w;
            w \<leftarrow> iter_destroy b w;
            Some (iter_zero, w)
          }
      })"

definition zip_holds ::
  "('w \<Rightarrow> addr \<rightharpoonup> size_t) \<Rightarrow> ('a \<times> 'b) list \<Rightarrow> ('a, 'b, 's, 'r, 'w) zip_state_t \<Rightarrow> (addr \<rightharpoonup> size_t) \<Rightarrow> bool" where
  "zip_holds live ys s C \<longleftrightarrow> zp_self s \<noteq> zp_buf_a s \<and>
     (\<exists>xs zs A B. joined C A B \<and> ys = zip xs zs \<and> iter_rep live xs (zp_a s) A \<and> iter_rep live zs (zp_b s) B)"

text \<open>The blocks of a zip iterator: its state and the buffer.\<close>

abbreviation zip_own :: "('a, 'b, 's, 'r, 'w) zip_state_t \<Rightarrow> addr \<rightharpoonup> size_t" where
  "zip_own s \<equiv> [zp_self s \<mapsto> sizeof_zip_state_t, zp_buf_a s \<mapsto> zp_a_elem_size s]"

lemma zip_step:
  assumes "zip_holds live ys s C" and "owns (live w) R C"
  shows "\<exists>s' w' C'. zip_next s w = Some (hd_opt ys, s', w') \<and> owns (live w') R C' \<and>
    zp_self s' = zp_self s \<and> zp_buf_a s' = zp_buf_a s \<and> zp_a_elem_size s' = zp_a_elem_size s \<and>
    (case ys of [] \<Rightarrow> closes_both live (zp_a s') (zp_b s') C' | _ # zs \<Rightarrow> zip_holds live zs s' C')"
proof -
  obtain xs zs A B where ne: "zp_self s \<noteq> zp_buf_a s" and j: "joined C A B" and ys: "ys = zip xs zs"
    and x: "iter_rep live xs (zp_a s) A" and z: "iter_rep live zs (zp_b s) B"
    using assms(1) unfolding zip_holds_def by blast
  obtain a w1 A' where n: "iter_next (zp_a s) w = Some (hd_opt xs, a, w1)"
      "owns (live w1) (R ++ B) A'" "iter_after live xs a A'"
    by (rule iter_rep_pull [OF x joined_open [OF j assms(2)]])
  note j1 = joined_close [OF j assms(2) n(2)]
  show ?thesis
  proof (cases xs)
    case Nil
    with n ys j1 closes_bothI [OF j1(2), of live a "zp_b s"] iter_rep_closes [OF z] show ?thesis
      by (intro exI [of _ "s\<lparr>zp_a := a\<rparr>"] exI [of _ w1] exI [of _ "A' ++ B"]) (simp add: zip_next_def)
  next
    case (Cons x1 xs1)
    note j2 = joined_sym [OF j1(2)]
    obtain b w2 B' where m: "iter_next (zp_b s) w1 = Some (hd_opt zs, b, w2)"
        "owns (live w2) (R ++ A') B'" "iter_after live zs b B'"
      by (rule iter_rep_pull [OF z joined_open [OF j2 j1(1)]])
    note j3 = joined_close [OF j2 j1(1) m(2)]
    let ?s = "s\<lparr>zp_a := a, zp_b := b\<rparr>"
    have "case ys of [] \<Rightarrow> closes_both live a b (B' ++ A') | _ # vs \<Rightarrow> zip_holds live vs ?s (B' ++ A')"
    proof (cases zs)
      case Nil
      with ys closes_bothI [OF joined_sym [OF j3(2)] iter_after_closes [OF n(3)] iter_after_closes [OF m(3)]]
      show ?thesis by simp
    next
      case (Cons z1 zs1)
      with \<open>xs = x1 # xs1\<close> n(3) m(3) ys ne joined_sym [OF j3(2)] show ?thesis
        by (auto simp: zip_holds_def)
    qed
    with n m j3(1) ys Cons show ?thesis
      by (intro exI [of _ ?s] exI [of _ w2] exI [of _ "B' ++ A'"]) (cases zs; simp add: zip_next_def)
  qed
qed

lemma zip_drop_eq:
  "zip_drop al = adaptor_drop (\<lambda>s w. do { w \<leftarrow> iter_destroy (zp_a s) w; iter_destroy (zp_b s) w })
     (\<lambda>s w. do {
        w \<leftarrow> mem_free al (Some (zp_buf_a s)) (zp_a_elem_size s) w;
        mem_free al (Some (zp_self s)) sizeof_zip_state_t w
      })"
  by (rule ext)+ (simp add: zip_drop_def adaptor_drop_def)

context heap_allocator begin

lemma zip_adaptor:
  "adaptor live zip_next (\<lambda>s w. do { w \<leftarrow> iter_destroy (zp_a s) w; iter_destroy (zp_b s) w })
     (\<lambda>s w. do {
        w \<leftarrow> mem_free (Some t) (Some (zp_buf_a s)) (zp_a_elem_size s) w;
        mem_free (Some t) (Some (zp_self s)) sizeof_zip_state_t w
      })
     zip_own (zip_holds live) (\<lambda>s C. zp_self s \<noteq> zp_buf_a s \<and> closes_both live (zp_a s) (zp_b s) C)"
proof (unfold_locales, goal_cases)
  case (1 s B w R)
  then show ?case by (fastforce elim: closes_both_destroy)
next
  case (2 s B w R)
  then show ?case by (fastforce elim: release_two simp del: mem_free.simps)
next
  case (3 ys s B)
  then show ?case by (auto simp: zip_holds_def intro: closes_bothI iter_rep_closes)
next
  case (4 ys s B w R)
  moreover have "zp_self s \<noteq> zp_buf_a s" using 4(1) by (simp add: zip_holds_def)
  ultimately show ?case using zip_step [OF 4] by (cases ys) fastforce+
qed

lemma iter_zip_built:
  assumes "iter_built live (Some t) R es xs (Some (a, w1))"
    and "iter_built live (Some t) (live w1) es' ys (Some (b, w))" and big: "es \<le> PTRDIFF_MAX"
  shows "iter_built live (Some t) R (wadd es es') (zip xs ys) (iter_zip a b w)"
  using assms(1,2)
proof (cases rule: iter_built2_cases)
  case (failed C)
  with closes_both_fail [OF failed(3,2,4)] show ?thesis by (simp add: iter_zip_def)
next
  case (valid C A B)
  have cl: "closes_both live a b C"
    using closes_bothI [OF valid(8)] iter_rep_closes [OF valid(9)] iter_rep_closes [OF valid(10)] by blast
  from valid(7) show ?thesis
  proof (cases rule: state_alloc [where n = sizeof_zip_state_t])
    case p: (granted p w2)
    from p(2) show ?thesis
    proof (cases rule: state_alloc [where n = es])
      case q: (granted q w3)
      let ?s = "\<lparr>zp_self = p, zp_a = a, zp_b = b, zp_a_elem_size = es, zp_buf_a = q\<rparr>"
      have "p \<noteq> q" using q(3) by auto
      then have "iter_rep live (zip xs ys) (iter_make zip_next (zip_drop (Some t)) ?s (wadd es es') (Some t))
          (C(p \<mapsto> sizeof_zip_state_t, q \<mapsto> es))"
        unfolding zip_drop_eq
        by (intro adaptor.rep [OF zip_adaptor, of _ _ C])
          (use valid joined_upd2 [OF p(3) q(3)] in \<open>auto simp: zip_holds_def\<close>)
      then show ?thesis
        by (intro iter_built_valid [where it = "iter_make zip_next (zip_drop (Some t)) ?s (wadd es es') (Some t)"
              and w' = w3 and B = "C(p \<mapsto> sizeof_zip_state_t, q \<mapsto> es)"])
          (simp_all add: iter_zip_def valid p q del: mem_alloc.simps)
    next
      case q: (refused w3)
      obtain w4 where w4: "mem_free (Some t) (Some p) sizeof_zip_state_t w3 = Some w4"
          "owns (live w4) R ((C(p \<mapsto> sizeof_zip_state_t))(p := None))"
        by (rule owns_mem_free [OF q(2), of p sizeof_zip_state_t]) simp_all
      moreover have "(C(p \<mapsto> sizeof_zip_state_t))(p := None) = C" using p(3) by (auto simp: fun_eq_iff fun_upd_apply)
      ultimately show ?thesis using closes_both_fail [OF cl, of w4 R] starvedI [OF q(3) big] p(1) q(1) valid
        by (simp add: iter_zip_def del: mem_alloc.simps mem_free.simps)
    qed
  next
    case p: (refused w2)
    from p(2) show ?thesis
    proof (cases rule: state_alloc [where n = es])
      case q: (granted q w3)
      obtain w4 where w4: "mem_free (Some t) (Some q) es w3 = Some w4" "owns (live w4) R ((C(q \<mapsto> es))(q := None))"
        by (rule owns_mem_free [OF q(2), of q es]) simp_all
      moreover have "(C(q \<mapsto> es))(q := None) = C" using q(3) by (auto simp: fun_eq_iff fun_upd_apply)
      ultimately show ?thesis using closes_both_fail [OF cl, of w4 R] starved_small [OF p(3)] p(1) q(1) valid
        by (simp add: iter_zip_def del: mem_alloc.simps mem_free.simps)
    next
      case q: (refused w3)
      with p(1) valid closes_both_fail [OF cl q(2) starved_small [OF p(3)]] show ?thesis
        by (simp add: iter_zip_def del: mem_alloc.simps)
    qed
  qed
qed

end

interpretation sys_zip: adaptor hp_live zip_next
  "\<lambda>s w. do { w \<leftarrow> iter_destroy (zp_a s) w; iter_destroy (zp_b s) w }"
  "\<lambda>s w. do {
     w \<leftarrow> mem_free (Some sys_allocator) (Some (zp_buf_a s)) (zp_a_elem_size s) w;
     mem_free (Some sys_allocator) (Some (zp_self s)) sizeof_zip_state_t w
   }"
  zip_own "zip_holds hp_live" "\<lambda>s C. zp_self s \<noteq> zp_buf_a s \<and> closes_both hp_live (zp_a s) (zp_b s) C"
  by (rule sys.zip_adaptor)

subsection \<open>\<open>iter_flat_map\<close>\<close>

text \<open>
  The callback makes a sub-iterator from an element; it may allocate, so it acts on the world.
  \<open>elem_buf\<close> holds the element while the callback reads it. The loop may run for ever over
  empty sub-iterators.
\<close>

record ('a, 'b, 's, 'r, 'w) flat_map_state_t =
  fm_self :: addr
  fm_source :: "('a, 's, 'w) iter_t"
  fm_fn :: "'a \<Rightarrow> 'w \<Rightarrow> (('b, 'r, 'w) iter_t \<times> 'w) option"
  fm_elem_buf :: addr
  fm_sub :: "('b, 'r, 'w) iter_t"
  fm_sub_active :: bool
  fm_out_elem_size :: size_t

definition sizeof_flat_map_state_t :: size_t where
  "sizeof_flat_map_state_t = 168"

lemma sizeof_flat_map_state_t_small [simp]: "sizeof_flat_map_state_t \<le> 256"
  by (simp add: sizeof_flat_map_state_t_def)

text \<open>The first half of the loop's body: the next element of the current sub-iterator.\<close>

definition flat_map_sub ::
  "('a, 'b, 's, 'r, 'w) flat_map_state_t \<Rightarrow> 'w \<Rightarrow> ('b option \<times> ('a, 'b, 's, 'r, 'w) flat_map_state_t \<times> 'w) option" where
  "flat_map_sub s w =
     (if fm_sub_active s then do {
        (r, sub, w) \<leftarrow> iter_next (fm_sub s) w;
        case r of
          Some y \<Rightarrow> Some (Some y, s\<lparr>fm_sub := sub\<rparr>, w)
        | None \<Rightarrow> do {
            w \<leftarrow> iter_destroy sub w;
            Some (None, s\<lparr>fm_sub := sub, fm_sub_active := False\<rparr>, w)
          }
      } else Some (None, s, w))"

partial_function (option) flat_map_next ::
  "('a, 'b, 's, 'r, 'w) flat_map_state_t \<Rightarrow> 'w \<Rightarrow> ('b option \<times> ('a, 'b, 's, 'r, 'w) flat_map_state_t \<times> 'w) option" where
  "flat_map_next s w = do {
     (r, s, w) \<leftarrow> flat_map_sub s w;
     if r \<noteq> None then Some (r, s, w)
     else do {
       (e, src, w) \<leftarrow> iter_next (fm_source s) w;
       case e of
         None \<Rightarrow> Some (None, s\<lparr>fm_source := src\<rparr>, w)
       | Some x \<Rightarrow> do {
           (sub, w) \<leftarrow> fm_fn s x w;
           flat_map_next (s\<lparr>fm_source := src, fm_sub := sub, fm_sub_active := True\<rparr>) w
         }
     }
   }"

definition flat_map_drop :: "'w allocator_t \<Rightarrow> ('a, 'b, 's, 'r, 'w) flat_map_state_t \<Rightarrow> 'w \<Rightarrow> 'w option" where
  "flat_map_drop al s w = do {
     w \<leftarrow> (if fm_sub_active s then iter_destroy (fm_sub s) w else Some w);
     w \<leftarrow> iter_destroy (fm_source s) w;
     w \<leftarrow> mem_free al (Some (fm_elem_buf s)) (it_elem_size (fm_source s)) w;
     mem_free al (Some (fm_self s)) sizeof_flat_map_state_t w
   }"

definition iter_flat_map ::
  "('a, 's, 'w) iter_t \<Rightarrow> ('a \<Rightarrow> 'w \<Rightarrow> (('b, 'r, 'w) iter_t \<times> 'w) option) \<Rightarrow> size_t \<Rightarrow> 'w \<Rightarrow>
   (('b, ('a, 'b, 's, 'r, 'w) flat_map_state_t, 'w) iter_t \<times> 'w) option" where
  "iter_flat_map source fn out_elem_size w = adapt_buffered source sizeof_flat_map_state_t
     (\<lambda>a b. iter_make flat_map_next (flat_map_drop (it_allocator source))
        \<lparr>fm_self = a, fm_source = source, fm_fn = fn, fm_elem_buf = b, fm_sub = iter_zero,
          fm_sub_active = False, fm_out_elem_size = out_elem_size\<rparr>
        out_elem_size (it_allocator source)) w"

text \<open>
  A callback that gives an iterator of \<open>g x\<close> for the element \<open>x\<close>. A failed iterator is one of
  the empty list, so a callback that cannot always allocate gives one of \<open>g x\<close> only where
  \<open>g x\<close> is empty.
\<close>

definition makes_subs ::
  "('w \<Rightarrow> addr \<rightharpoonup> size_t) \<Rightarrow> ('a \<Rightarrow> 'w \<Rightarrow> (('b, 'r, 'w) iter_t \<times> 'w) option) \<Rightarrow> ('a \<Rightarrow> 'b list) \<Rightarrow> bool" where
  "makes_subs live fn g \<longleftrightarrow> (\<forall>x w. \<exists>sub w' B. fn x w = Some (sub, w') \<and> owns (live w') (live w) B \<and>
     iter_rep live (g x) sub B)"

definition sub_holds ::
  "('w \<Rightarrow> addr \<rightharpoonup> size_t) \<Rightarrow> 'b list \<Rightarrow> ('a, 'b, 's, 'r, 'w) flat_map_state_t \<Rightarrow> (addr \<rightharpoonup> size_t) \<Rightarrow> bool" where
  "sub_holds live zs s B \<longleftrightarrow>
     (if fm_sub_active s then iter_rep live zs (fm_sub s) B else zs = [] \<and> B = Map.empty)"

definition flat_map_holds ::
  "('w \<Rightarrow> addr \<rightharpoonup> size_t) \<Rightarrow> ('a \<Rightarrow> 'b list) \<Rightarrow> 'b list \<Rightarrow> ('a, 'b, 's, 'r, 'w) flat_map_state_t \<Rightarrow>
   (addr \<rightharpoonup> size_t) \<Rightarrow> bool" where
  "flat_map_holds live g ys s C \<longleftrightarrow> fm_self s \<noteq> fm_elem_buf s \<and> makes_subs live (fm_fn s) g \<and>
     (\<exists>xs zs A B. joined C A B \<and> ys = zs @ concat (map g xs) \<and> iter_rep live xs (fm_source s) A \<and>
        sub_holds live zs s B)"

definition flat_map_closable ::
  "('w \<Rightarrow> addr \<rightharpoonup> size_t) \<Rightarrow> ('a, 'b, 's, 'r, 'w) flat_map_state_t \<Rightarrow> (addr \<rightharpoonup> size_t) \<Rightarrow> bool" where
  "flat_map_closable live s C \<longleftrightarrow> fm_self s \<noteq> fm_elem_buf s \<and>
     (\<exists>A B. joined C A B \<and> iter_closes live (fm_source s) A \<and>
        (if fm_sub_active s then iter_closes live (fm_sub s) B else B = Map.empty))"

abbreviation flat_map_own :: "('a, 'b, 's, 'r, 'w) flat_map_state_t \<Rightarrow> addr \<rightharpoonup> size_t" where
  "flat_map_own s \<equiv> [fm_self s \<mapsto> sizeof_flat_map_state_t, fm_elem_buf s \<mapsto> it_elem_size (fm_source s)]"

definition flat_map_same :: "('a, 'b, 's, 'r, 'w) flat_map_state_t \<Rightarrow> ('a, 'b, 's, 'r, 'w) flat_map_state_t \<Rightarrow> bool" where
  "flat_map_same s s' \<longleftrightarrow> fm_self s' = fm_self s \<and> fm_elem_buf s' = fm_elem_buf s \<and> fm_fn s' = fm_fn s \<and>
     it_elem_size (fm_source s') = it_elem_size (fm_source s)"

lemma flat_map_sub_at:
  assumes "sub_holds live zs s B" and "owns (live w) R B"
  shows "\<exists>s' w' B'. flat_map_sub s w = Some (hd_opt zs, s', w') \<and> owns (live w') R B' \<and>
    flat_map_same s s' \<and> fm_source s' = fm_source s \<and>
    (case zs of [] \<Rightarrow> \<not> fm_sub_active s' \<and> B' = Map.empty | _ # vs \<Rightarrow> sub_holds live vs s' B')"
proof (cases "fm_sub_active s")
  case False
  with assms show ?thesis
    by (auto simp: sub_holds_def flat_map_sub_def flat_map_same_def)
next
  case True
  with assms(1) have z: "iter_rep live zs (fm_sub s) B" by (simp add: sub_holds_def)
  obtain sub w1 B1 where n: "iter_next (fm_sub s) w = Some (hd_opt zs, sub, w1)" "owns (live w1) R B1"
      "iter_after live zs sub B1" by (rule iter_rep_pull [OF z assms(2)])
  show ?thesis
  proof (cases zs)
    case Nil
    with n(3) have "iter_closes live sub B1" by simp
    from iter_destroy_closes [OF this n(2)] obtain w2 where "iter_destroy sub w1 = Some w2" "live w2 = R" .
    with n(1) True Nil show ?thesis
      by (auto simp: flat_map_sub_def flat_map_same_def)
  next
    case (Cons z vs)
    with n True show ?thesis
      by (auto simp: flat_map_sub_def flat_map_same_def sub_holds_def)
  qed
qed

lemma flat_map_next_sub:
  assumes "flat_map_sub s w = Some (hd_opt (z # vs), s1, w1)" and "flat_map_same s s1"
    and "fm_source s1 = fm_source s" and "sub_holds live vs s1 B1" and "joined (B1 ++ A) A B1"
    and "iter_rep live xs (fm_source s) A" and "makes_subs live (fm_fn s) g" and "fm_self s \<noteq> fm_elem_buf s"
  shows "flat_map_next s w = Some (Some z, s1, w1)"
    and "flat_map_holds live g (vs @ concat (map g xs)) s1 (B1 ++ A)"
proof -
  show "flat_map_next s w = Some (Some z, s1, w1)" using assms(1) by (simp add: flat_map_next.simps [of s])
  show "flat_map_holds live g (vs @ concat (map g xs)) s1 (B1 ++ A)"
    unfolding flat_map_holds_def using assms(2-8)
    by (intro conjI exI [of _ xs] exI [of _ vs] exI [of _ A] exI [of _ B1]) (simp_all add: flat_map_same_def)
qed

lemma flat_map_next_at:
  assumes "iter_rep live xs (fm_source s) A" and "sub_holds live zs s B" and "joined C A B"
    and "owns (live w) R C" and "makes_subs live (fm_fn s) g" and "fm_self s \<noteq> fm_elem_buf s"
  shows "\<exists>s' w' C'. flat_map_next s w = Some (hd_opt (zs @ concat (map g xs)), s', w') \<and> owns (live w') R C' \<and>
    flat_map_same s s' \<and>
    (case zs @ concat (map g xs) of [] \<Rightarrow> flat_map_closable live s' C' | _ # vs \<Rightarrow> flat_map_holds live g vs s' C')"
  using assms
proof (induction xs arbitrary: s A zs B C w)
  case (Nil s A zs B C w)
  note j = joined_sym [OF Nil.prems(3)]
  obtain s1 w1 B1 where n: "flat_map_sub s w = Some (hd_opt zs, s1, w1)" "owns (live w1) (R ++ A) B1"
      "flat_map_same s s1" "fm_source s1 = fm_source s"
      "case zs of [] \<Rightarrow> \<not> fm_sub_active s1 \<and> B1 = Map.empty | _ # vs \<Rightarrow> sub_holds live vs s1 B1"
    using flat_map_sub_at [OF Nil.prems(2) joined_open [OF j Nil.prems(4)]] by blast
  note j1 = joined_sym [OF joined_close(2) [OF j Nil.prems(4) n(2)]] joined_close(1) [OF j Nil.prems(4) n(2)]
  show ?case
  proof (cases zs)
    case (Cons z vs)
    with n(5) have v: "sub_holds live vs s1 B1" by simp
    from flat_map_next_sub [OF n(1) [unfolded Cons] n(3,4) v j1(1) Nil.prems(1,5,6)] n(3) j1(2) Cons
    show ?thesis by (intro exI [of _ s1] exI [of _ w1] exI [of _ "B1 ++ A"]) simp
  next
    case z: Nil
    with n j1 have "owns (live w1) R A" by simp
    then obtain src w2 A' where m: "iter_next (fm_source s) w1 = Some (None, src, w2)" "owns (live w2) R A'"
        "iter_closes live src A'" "same_source (fm_source s) src"
      using iter_rep_pull [OF Nil.prems(1)] by (metis hd_opt_simps(1) iter_after_simps(1))
    with n z Nil.prems(6) joined_empty [of A'] show ?thesis
      by (intro exI [of _ "s1\<lparr>fm_source := src\<rparr>"] exI [of _ w2] exI [of _ A'])
        (auto simp: flat_map_next.simps [of s] flat_map_closable_def flat_map_same_def same_source_def)
  qed
next
  case (Cons x xs s A zs B C w)
  note j = joined_sym [OF Cons.prems(3)]
  obtain s1 w1 B1 where n: "flat_map_sub s w = Some (hd_opt zs, s1, w1)" "owns (live w1) (R ++ A) B1"
      "flat_map_same s s1" "fm_source s1 = fm_source s"
      "case zs of [] \<Rightarrow> \<not> fm_sub_active s1 \<and> B1 = Map.empty | _ # vs \<Rightarrow> sub_holds live vs s1 B1"
    using flat_map_sub_at [OF Cons.prems(2) joined_open [OF j Cons.prems(4)]] by blast
  note j1 = joined_sym [OF joined_close(2) [OF j Cons.prems(4) n(2)]] joined_close(1) [OF j Cons.prems(4) n(2)]
  show ?case
  proof (cases zs)
    case z: (Cons z vs)
    with n(5) have v: "sub_holds live vs s1 B1" by simp
    from flat_map_next_sub [OF n(1) [unfolded z] n(3,4) v j1(1) Cons.prems(1,5,6)] n(3) j1(2) z
    show ?thesis by (intro exI [of _ s1] exI [of _ w1] exI [of _ "B1 ++ A"]) simp
  next
    case Nil
    with n j1 have o1: "owns (live w1) R A" by simp
    obtain src w2 A' where m: "iter_next (fm_source s) w1 = Some (hd_opt (x # xs), src, w2)" "owns (live w2) R A'"
        "iter_after live (x # xs) src A'" "same_source (fm_source s) src"
      by (rule iter_rep_pull [OF Cons.prems(1) o1])
    obtain sub w3 B' where k: "fm_fn s x w2 = Some (sub, w3)" "owns (live w3) (live w2) B'" "iter_rep live (g x) sub B'"
      using Cons.prems(5) unfolding makes_subs_def by blast
    let ?s = "s1\<lparr>fm_source := src, fm_sub := sub, fm_sub_active := True\<rparr>"
    have eq: "flat_map_next s w = flat_map_next ?s w3"
      using n(1,3,4) m(1) k(1) Nil by (simp add: flat_map_next.simps [of s] flat_map_same_def)
    have same: "flat_map_same s ?s" using n(3,4) m(4) by (simp add: flat_map_same_def same_source_def)
    note j3 = joined_owns [OF m(2) k(2)]
    have "\<exists>s' w' C'. flat_map_next ?s w3 = Some (hd_opt (g x @ concat (map g xs)), s', w') \<and> owns (live w') R C' \<and>
      flat_map_same ?s s' \<and>
      (case g x @ concat (map g xs) of [] \<Rightarrow> flat_map_closable live s' C' | _ # vs \<Rightarrow> flat_map_holds live g vs s' C')"
      by (rule Cons.IH [OF _ _ j3(2,1)]) (use m(3) k(3) same Cons.prems(5,6) in \<open>auto simp: sub_holds_def flat_map_same_def\<close>)
    with same Nil show ?thesis unfolding eq by (fastforce simp: flat_map_same_def)
  qed
qed

lemma flat_map_drop_eq:
  "flat_map_drop al = adaptor_drop
     (\<lambda>s w. do { w \<leftarrow> (if fm_sub_active s then iter_destroy (fm_sub s) w else Some w); iter_destroy (fm_source s) w })
     (\<lambda>s w. do {
        w \<leftarrow> mem_free al (Some (fm_elem_buf s)) (it_elem_size (fm_source s)) w;
        mem_free al (Some (fm_self s)) sizeof_flat_map_state_t w
      })"
  by (rule ext)+ (simp add: flat_map_drop_def adaptor_drop_def)

context heap_allocator begin

lemma flat_map_adaptor:
  "adaptor live flat_map_next
     (\<lambda>s w. do { w \<leftarrow> (if fm_sub_active s then iter_destroy (fm_sub s) w else Some w); iter_destroy (fm_source s) w })
     (\<lambda>s w. do {
        w \<leftarrow> mem_free (Some t) (Some (fm_elem_buf s)) (it_elem_size (fm_source s)) w;
        mem_free (Some t) (Some (fm_self s)) sizeof_flat_map_state_t w
      })
     flat_map_own (flat_map_holds live g) (flat_map_closable live)"
proof (unfold_locales, goal_cases)
  case (1 s C w R)
  then obtain A B where j: "joined C A B" and a: "iter_closes live (fm_source s) A"
    and b: "if fm_sub_active s then iter_closes live (fm_sub s) B else B = Map.empty"
    by (auto simp: flat_map_closable_def)
  show ?case
  proof (cases "fm_sub_active s")
    case True
    with b have "closes_both live (fm_sub s) (fm_source s) C" using closes_bothI [OF joined_sym [OF j]] a by simp
    with True 1(2) show ?thesis by (fastforce elim: closes_both_destroy)
  next
    case False
    with b j a 1(2) show ?thesis by (auto simp: joined_def elim: iter_destroy_closes)
  qed
next
  case (2 s B w R)
  then show ?case by (fastforce simp: flat_map_closable_def elim: release_two simp del: mem_free.simps)
next
  case (3 ys s B)
  then show ?case
    by (fastforce simp: flat_map_holds_def flat_map_closable_def sub_holds_def dest: iter_rep_closes split: if_splits)
next
  case (4 ys s C w R)
  then obtain xs zs A B where h: "iter_rep live xs (fm_source s) A" "sub_holds live zs s B" "joined C A B"
    "makes_subs live (fm_fn s) g" "fm_self s \<noteq> fm_elem_buf s" and ys: "ys = zs @ concat (map g xs)"
    by (auto simp: flat_map_holds_def)
  from flat_map_next_at [OF h(1-3) 4(2) h(4,5)] show ?case
    unfolding ys [symmetric] by (fastforce simp: flat_map_same_def)
qed

lemma iter_flat_map_built:
  assumes "iter_built live (Some t) R es xs (Some (src, w))" and "makes_subs live fn g" and big: "es \<le> PTRDIFF_MAX"
  shows "iter_built live (Some t) R es' (concat (map g xs)) (iter_flat_map src fn es' w)"
  unfolding iter_flat_map_def
proof (rule adaptor_buffered_built [OF flat_map_adaptor [where g = g] assms(1), where dr = "flat_map_drop (Some t)"
      and st = "\<lambda>a b. \<lparr>fm_self = a, fm_source = src, fm_fn = fn, fm_elem_buf = b, fm_sub = iter_zero,
          fm_sub_active = False, fm_out_elem_size = es'\<rparr>"], goal_cases)
  case (4 a b B)
  then show ?case using joined_empty [of B] assms(2) by (auto simp: flat_map_holds_def sub_holds_def)
qed (simp_all add: flat_map_drop_def big)

end

interpretation sys_flat_map: adaptor hp_live flat_map_next
  "\<lambda>s w. do { w \<leftarrow> (if fm_sub_active s then iter_destroy (fm_sub s) w else Some w); iter_destroy (fm_source s) w }"
  "\<lambda>s w. do {
     w \<leftarrow> mem_free (Some sys_allocator) (Some (fm_elem_buf s)) (it_elem_size (fm_source s)) w;
     mem_free (Some sys_allocator) (Some (fm_self s)) sizeof_flat_map_state_t w
   }"
  flat_map_own "flat_map_holds hp_live g" "flat_map_closable hp_live" for g
  by (rule sys.flat_map_adaptor)

end
