(* ===== verification/Seqc_Adapt_Buffer.thy ===== *)
theory Seqc_Adapt_Buffer
  imports Seqc_Adapt Seqc_Compare
begin

section \<open>Adaptors that keep an element\<close>

text \<open>
  \<open>iter_enumerate\<close>, \<open>iter_dedup\<close> and \<open>iter_peekable\<close> of \<open>src/iter/iter.c\<close>: one source and a buffer
  of one element. The contents of the buffer are \<open>None\<close> until something was written.
\<close>

subsection \<open>\<open>iter_enumerate\<close>\<close>

text \<open>The pointer \<open>elem\<close> of an entry is what it points to until the next call.\<close>

record 'a enum_entry_t =
  en_index :: size_t
  en_elem :: 'a

record ('a, 's, 'w) enum_state_t =
  nm_self :: addr
  nm_source :: "('a, 's, 'w) iter_t"
  nm_index :: size_t
  nm_buf :: addr

definition sizeof_enum_state_t :: size_t where
  "sizeof_enum_state_t = 72"

definition sizeof_enum_entry_t :: size_t where
  "sizeof_enum_entry_t = 16"

lemma sizeof_enum_state_t_small [simp]: "sizeof_enum_state_t \<le> 256" "sizeof_enum_entry_t \<le> 256"
  by (simp_all add: sizeof_enum_state_t_def sizeof_enum_entry_t_def)

definition enum_next ::
  "('a, 's, 'w) enum_state_t \<Rightarrow> 'w \<Rightarrow> ('a enum_entry_t option \<times> ('a, 's, 'w) enum_state_t \<times> 'w) option" where
  "enum_next s w = do {
     (r, src, w) \<leftarrow> iter_next (nm_source s) w;
     case r of
       None \<Rightarrow> Some (None, s\<lparr>nm_source := src\<rparr>, w)
     | Some x \<Rightarrow> Some (Some \<lparr>en_index = nm_index s, en_elem = x\<rparr>,
         s\<lparr>nm_source := src, nm_index := wadd (nm_index s) 1\<rparr>, w)
   }"

definition enum_drop :: "'w allocator_t \<Rightarrow> ('a, 's, 'w) enum_state_t \<Rightarrow> 'w \<Rightarrow> 'w option" where
  "enum_drop al s w = do {
     w \<leftarrow> iter_destroy (nm_source s) w;
     w \<leftarrow> mem_free al (Some (nm_buf s)) (it_elem_size (nm_source s)) w;
     mem_free al (Some (nm_self s)) sizeof_enum_state_t w
   }"

definition iter_enumerate ::
  "('a, 's, 'w) iter_t \<Rightarrow> 'w \<Rightarrow> (('a enum_entry_t, ('a, 's, 'w) enum_state_t, 'w) iter_t \<times> 'w) option" where
  "iter_enumerate source w = adapt_buffered source sizeof_enum_state_t
     (\<lambda>a b. iter_make enum_next (enum_drop (it_allocator source))
        \<lparr>nm_self = a, nm_source = source, nm_index = 0, nm_buf = b\<rparr>
        sizeof_enum_entry_t (it_allocator source)) w"

text \<open>The elements with their positions; the counter of a \<open>size_t\<close> starts again at \<open>2 ^ 64\<close>.\<close>

primrec entries :: "size_t \<Rightarrow> 'a list \<Rightarrow> 'a enum_entry_t list" where
  "entries i [] = []"
| "entries i (x # xs) = \<lparr>en_index = i, en_elem = x\<rparr> # entries (wadd i 1) xs"

lemma length_entries [simp]: "length (entries i xs) = length xs"
  by (induction xs arbitrary: i) simp_all

lemma entries_nth:
  "k < length xs \<Longrightarrow> i < 2 ^ 64 \<Longrightarrow> entries i xs ! k = \<lparr>en_index = (i + k) mod 2 ^ 64, en_elem = xs ! k\<rparr>"
proof (induction xs arbitrary: i k)
  case (Cons x xs)
  show ?case
  proof (cases k)
    case 0
    with Cons.prems show ?thesis by simp
  next
    case (Suc j)
    with Cons.IH [of j "wadd i 1"] Cons.prems wadd_bound [of i 1] show ?thesis
      by (simp add: wadd_def size_mod_def mod_simps)
  qed
qed simp

definition enum_holds ::
  "('w \<Rightarrow> addr \<rightharpoonup> size_t) \<Rightarrow> 'a enum_entry_t list \<Rightarrow> ('a, 's, 'w) enum_state_t \<Rightarrow> (addr \<rightharpoonup> size_t) \<Rightarrow> bool" where
  "enum_holds live ys s B \<longleftrightarrow> nm_self s \<noteq> nm_buf s \<and>
     (\<exists>xs. ys = entries (nm_index s) xs \<and> iter_rep live xs (nm_source s) B)"

abbreviation enum_own :: "('a, 's, 'w) enum_state_t \<Rightarrow> addr \<rightharpoonup> size_t" where
  "enum_own s \<equiv> [nm_self s \<mapsto> sizeof_enum_state_t, nm_buf s \<mapsto> it_elem_size (nm_source s)]"

context heap_allocator begin

lemma enum_adaptor:
  "adaptor live enum_next (\<lambda>s. iter_destroy (nm_source s))
     (\<lambda>s w. do {
        w \<leftarrow> mem_free (Some t) (Some (nm_buf s)) (it_elem_size (nm_source s)) w;
        mem_free (Some t) (Some (nm_self s)) sizeof_enum_state_t w
      })
     enum_own (enum_holds live) (\<lambda>s B. nm_self s \<noteq> nm_buf s \<and> iter_closes live (nm_source s) B)"
proof (unfold_locales, goal_cases)
  case (1 s B w R)
  then show ?case by (blast elim: iter_destroy_closes)
next
  case (2 s B w R)
  then show ?case by (fastforce elim: release_two simp del: mem_free.simps)
next
  case (3 ys s B)
  then show ?case by (auto simp: enum_holds_def iter_rep_closes)
next
  case (4 ys s B w R)
  then obtain xs where ys: "ys = entries (nm_index s) xs" and xs: "iter_rep live xs (nm_source s) B"
    and ne: "nm_self s \<noteq> nm_buf s" by (auto simp: enum_holds_def)
  obtain it' w' B' where n: "iter_next (nm_source s) w = Some (hd_opt xs, it', w')" "owns (live w') R B'"
      "iter_after live xs it' B'" "same_source (nm_source s) it'" by (rule iter_rep_pull [OF xs 4(2)])
  show ?case
  proof (cases xs)
    case Nil
    with n ys ne show ?thesis by (auto simp: enum_next_def same_source_def)
  next
    case (Cons x zs)
    with n ys ne show ?thesis by (fastforce simp: enum_next_def enum_holds_def same_source_def)
  qed
qed

lemma iter_enumerate_built:
  assumes "iter_built live (Some t) R es xs (Some (src, w))" and big: "es \<le> PTRDIFF_MAX"
  shows "iter_built live (Some t) R sizeof_enum_entry_t (entries 0 xs) (iter_enumerate src w)"
  unfolding iter_enumerate_def
  by (rule adaptor_buffered_built [OF enum_adaptor assms(1), where dr = "enum_drop (Some t)" and
        st = "\<lambda>a b. \<lparr>nm_self = a, nm_source = src, nm_index = 0, nm_buf = b\<rparr>"])
    (auto simp: enum_drop_def enum_holds_def big)

end

interpretation sys_enum: adaptor hp_live enum_next "\<lambda>s. iter_destroy (nm_source s)"
  "\<lambda>s w. do {
     w \<leftarrow> mem_free (Some sys_allocator) (Some (nm_buf s)) (it_elem_size (nm_source s)) w;
     mem_free (Some sys_allocator) (Some (nm_self s)) sizeof_enum_state_t w
   }"
  enum_own "enum_holds hp_live" "\<lambda>s B. nm_self s \<noteq> nm_buf s \<and> iter_closes hp_live (nm_source s) B"
  by (rule sys.enum_adaptor)

subsection \<open>\<open>iter_dedup\<close>\<close>

record ('a, 's, 'w) dedup_state_t =
  dd_self :: addr
  dd_source :: "('a, 's, 'w) iter_t"
  dd_cmp :: "'a compare_fn"
  dd_last_buf :: addr
  dd_last :: "'a option"
  dd_has_last :: bool

definition sizeof_dedup_state_t :: size_t where
  "sizeof_dedup_state_t = 80"

lemma sizeof_dedup_state_t_small [simp]: "sizeof_dedup_state_t \<le> 256"
  by (simp add: sizeof_dedup_state_t_def)

text \<open>The loop of \<open>dedup_next\<close>, which compares with the contents of \<open>last_buf\<close>.\<close>

partial_function (option) dedup_pull ::
  "'a compare_fn \<Rightarrow> bool \<Rightarrow> 'a option \<Rightarrow> ('a, 's, 'w) iter_t \<Rightarrow> 'w \<Rightarrow> ('a option \<times> ('a, 's, 'w) iter_t \<times> 'w) option" where
  "dedup_pull cmp has_last l src w = do {
     (r, src, w) \<leftarrow> iter_next src w;
     case r of
       None \<Rightarrow> Some (None, src, w)
     | Some x \<Rightarrow> do {
         fresh \<leftarrow> (if \<not> has_last then Some True else do { y \<leftarrow> l; Some (cmp x y \<noteq> 0) });
         if fresh then Some (Some x, src, w) else dedup_pull cmp has_last l src w
       }
   }"

definition dedup_next ::
  "('a, 's, 'w) dedup_state_t \<Rightarrow> 'w \<Rightarrow> ('a option \<times> ('a, 's, 'w) dedup_state_t \<times> 'w) option" where
  "dedup_next s w = do {
     (r, src, w) \<leftarrow> dedup_pull (dd_cmp s) (dd_has_last s) (dd_last s) (dd_source s) w;
     case r of
       None \<Rightarrow> Some (None, s\<lparr>dd_source := src\<rparr>, w)
     | Some x \<Rightarrow> Some (Some x, s\<lparr>dd_source := src, dd_last := Some x, dd_has_last := True\<rparr>, w)
   }"

definition dedup_drop :: "'w allocator_t \<Rightarrow> size_t \<Rightarrow> ('a, 's, 'w) dedup_state_t \<Rightarrow> 'w \<Rightarrow> 'w option" where
  "dedup_drop al es s w = do {
     w \<leftarrow> iter_destroy (dd_source s) w;
     w \<leftarrow> mem_free al (Some (dd_last_buf s)) es w;
     mem_free al (Some (dd_self s)) sizeof_dedup_state_t w
   }"

definition iter_dedup ::
  "('a, 's, 'w) iter_t \<Rightarrow> 'a compare_fn \<Rightarrow> 'w \<Rightarrow> (('a, ('a, 's, 'w) dedup_state_t, 'w) iter_t \<times> 'w) option" where
  "iter_dedup source cmp w = adapt_buffered source sizeof_dedup_state_t
     (\<lambda>a b. iter_make dedup_next (dedup_drop (it_allocator source) (it_elem_size source))
        \<lparr>dd_self = a, dd_source = source, dd_cmp = cmp, dd_last_buf = b, dd_last = None, dd_has_last = False\<rparr>
        (it_elem_size source) (it_allocator source)) w"

text \<open>A list without the elements that compare equal to the one kept before.\<close>

fun dedup_from :: "'a compare_fn \<Rightarrow> 'a \<Rightarrow> 'a list \<Rightarrow> 'a list" where
  "dedup_from cmp l [] = []"
| "dedup_from cmp l (x # xs) = (if cmp x l = 0 then dedup_from cmp l xs else x # dedup_from cmp x xs)"

fun dedup_by :: "'a compare_fn \<Rightarrow> 'a list \<Rightarrow> 'a list" where
  "dedup_by cmp [] = []"
| "dedup_by cmp (x # xs) = x # dedup_from cmp x xs"

text \<open>On equality it is the library's \<open>remdups_adj\<close>.\<close>

lemma dedup_from_remdups_adj:
  assumes "\<And>x y. cmp x y = 0 \<longleftrightarrow> x = y"
  shows "remdups_adj (l # xs) = l # dedup_from cmp l xs"
  by (induction xs arbitrary: l) (simp_all add: assms)

lemma dedup_by_remdups_adj:
  assumes "\<And>x y. cmp x y = 0 \<longleftrightarrow> x = y"
  shows "dedup_by cmp xs = remdups_adj xs"
  using dedup_from_remdups_adj [of cmp, OF assms] by (cases xs) (simp_all del: remdups_adj.simps add: remdups_adj.simps(1))

lemma dedup_from_subset: "set (dedup_from cmp l xs) \<subseteq> set xs"
  by (induction cmp l xs rule: dedup_from.induct) auto

text \<open>Of a sorted list each class of equal elements is kept exactly once.\<close>

lemma dedup_from_sorted:
  assumes "compare_order cmp"
  shows "sorted_wrt (\<lambda>a b. cmp a b \<le> 0) (l # xs) \<Longrightarrow>
    sorted_wrt (\<lambda>a b. cmp a b < 0) (l # dedup_from cmp l xs) \<and>
    (\<forall>x \<in> set xs. \<exists>y \<in> insert l (set (dedup_from cmp l xs)). cmp x y = 0)"
proof (induction xs arbitrary: l)
  case (Cons x xs)
  note cmp = compare_order.cmp_zero_iff [OF assms] compare_order.cmp_less_trans2 [OF assms]
    compare_order.cmp_less_trans1 [OF assms] compare_order.cmp_refl [OF assms]
  show ?case
  proof (cases "cmp x l = 0")
    case True
    have "sorted_wrt (\<lambda>a b. cmp a b \<le> 0) (l # xs)" using Cons.prems by simp
    from Cons.IH [OF this] True show ?thesis by auto
  next
    case False
    have le: "cmp l x \<le> 0" using Cons.prems by simp
    with False cmp(1) [of x l] have lt: "cmp l x < 0" by linarith
    have "sorted_wrt (\<lambda>a b. cmp a b \<le> 0) (x # xs)" using Cons.prems by simp
    from Cons.IH [OF this] lt False compare_order.cmp_less_trans [OF assms, of l x] cmp(4) show ?thesis by auto
  qed
qed simp

lemma dedup_by_sorted:
  assumes "compare_order cmp" and "sorted_wrt (\<lambda>a b. cmp a b \<le> 0) xs"
  shows "sorted_wrt (\<lambda>a b. cmp a b < 0) (dedup_by cmp xs) \<and> set (dedup_by cmp xs) \<subseteq> set xs \<and>
    (\<forall>x \<in> set xs. \<exists>y \<in> set (dedup_by cmp xs). cmp x y = 0)"
proof (cases xs)
  case (Cons x ys)
  from dedup_from_sorted [OF assms(1) assms(2) [unfolded Cons]] dedup_from_subset [of cmp x ys]
    compare_order.cmp_refl [OF assms(1), of x] show ?thesis unfolding Cons by auto
qed simp

definition dedup_rest :: "('a, 's, 'w) dedup_state_t \<Rightarrow> 'a list \<Rightarrow> 'a list" where
  "dedup_rest s xs = (case dd_last s of None \<Rightarrow> dedup_by (dd_cmp s) xs | Some l \<Rightarrow> dedup_from (dd_cmp s) l xs)"

definition dedup_ok :: "('a, 's, 'w) dedup_state_t \<Rightarrow> bool" where
  "dedup_ok s \<longleftrightarrow> dd_self s \<noteq> dd_last_buf s \<and> (dd_has_last s \<longleftrightarrow> dd_last s \<noteq> None)"

definition dedup_holds ::
  "('w \<Rightarrow> addr \<rightharpoonup> size_t) \<Rightarrow> 'a list \<Rightarrow> ('a, 's, 'w) dedup_state_t \<Rightarrow> (addr \<rightharpoonup> size_t) \<Rightarrow> bool" where
  "dedup_holds live ys s B \<longleftrightarrow> dedup_ok s \<and> (\<exists>xs. ys = dedup_rest s xs \<and> iter_rep live xs (dd_source s) B)"

lemma dedup_pull_first:
  "iter_next src w = Some (Some x, src', w') \<Longrightarrow> dedup_pull cmp False l src w = Some (Some x, src', w')"
  by (simp add: dedup_pull.simps)

lemma dedup_pull_none:
  "iter_next src w = Some (None, src', w') \<Longrightarrow> dedup_pull cmp h l src w = Some (None, src', w')"
  by (simp add: dedup_pull.simps)

lemma dedup_pull_at:
  assumes "iter_rep live xs src B" and "owns (live w) R B"
  shows "\<exists>src' w' B'. dedup_pull cmp True (Some l) src w = Some (hd_opt (dedup_from cmp l xs), src', w') \<and>
    owns (live w') R B' \<and> (case dedup_from cmp l xs of [] \<Rightarrow> iter_closes live src' B'
      | y # ys \<Rightarrow> \<exists>zs. ys = dedup_from cmp y zs \<and> iter_rep live zs src' B')"
  using assms
proof (induction xs arbitrary: src w B)
  case Nil
  obtain it' w' B' where "iter_next src w = Some (None, it', w')" "owns (live w') R B'" "iter_closes live it' B'"
    by (rule iter_rep_NilE [OF Nil])
  then show ?case by (auto simp: dedup_pull_none)
next
  case (Cons x xs)
  obtain it' w' B' where n: "iter_next src w = Some (Some x, it', w')" "owns (live w') R B'" "iter_rep live xs it' B'"
    by (rule iter_rep_ConsE [OF Cons.prems])
  show ?case
  proof (cases "cmp x l = 0")
    case False
    with n show ?thesis by (fastforce simp: dedup_pull.simps [of _ _ _ src])
  next
    case True
    with n(1) have "dedup_pull cmp True (Some l) src w = dedup_pull cmp True (Some l) it' w'"
      by (simp add: dedup_pull.simps [of _ _ _ src])
    with Cons.IH [OF n(3,2)] True show ?thesis by simp
  qed
qed

context heap_allocator begin

lemma dedup_adaptor:
  "adaptor live dedup_next (\<lambda>s. iter_destroy (dd_source s))
     (\<lambda>s w. do {
        w \<leftarrow> mem_free (Some t) (Some (dd_last_buf s)) es w;
        mem_free (Some t) (Some (dd_self s)) sizeof_dedup_state_t w
      })
     (\<lambda>s. [dd_self s \<mapsto> sizeof_dedup_state_t, dd_last_buf s \<mapsto> es]) (dedup_holds live)
     (\<lambda>s B. dd_self s \<noteq> dd_last_buf s \<and> iter_closes live (dd_source s) B)"
proof (unfold_locales, goal_cases)
  case (1 s B w R)
  then show ?case by (blast elim: iter_destroy_closes)
next
  case (2 s B w R)
  then show ?case by (fastforce elim: release_two simp del: mem_free.simps)
next
  case (3 ys s B)
  then show ?case by (auto simp: dedup_holds_def dedup_ok_def iter_rep_closes)
next
  case (4 ys s B w R)
  then obtain xs where ys: "ys = dedup_rest s xs" and xs: "iter_rep live xs (dd_source s) B"
    and ok: "dedup_ok s" by (auto simp: dedup_holds_def)
  show ?case
  proof (cases "dd_last s")
    case None
    obtain it' w' B' where n: "iter_next (dd_source s) w = Some (hd_opt xs, it', w')" "owns (live w') R B'"
        "iter_after live xs it' B'" by (rule iter_rep_pull [OF xs 4(2)])
    with None ok ys show ?thesis
      by (cases xs) (fastforce simp: dedup_next_def dedup_pull_first dedup_pull_none dedup_holds_def dedup_ok_def dedup_rest_def)+
  next
    case (Some l)
    obtain it' w' B' where n: "dedup_pull (dd_cmp s) True (Some l) (dd_source s) w = Some (hd_opt ys, it', w')"
        "owns (live w') R B'" "case ys of [] \<Rightarrow> iter_closes live it' B'
          | y # vs \<Rightarrow> \<exists>zs. vs = dedup_from (dd_cmp s) y zs \<and> iter_rep live zs it' B'"
      using dedup_pull_at [OF xs 4(2), of "dd_cmp s" l] Some ys by (auto simp: dedup_rest_def)
    with Some ok show ?thesis
      by (cases ys) (fastforce simp: dedup_next_def dedup_holds_def dedup_ok_def dedup_rest_def)+
  qed
qed

lemma iter_dedup_built:
  assumes "iter_built live (Some t) R es xs (Some (src, w))" and big: "es \<le> PTRDIFF_MAX"
  shows "iter_built live (Some t) R es (dedup_by cmp xs) (iter_dedup src cmp w)"
  unfolding iter_dedup_def
  by (rule adaptor_buffered_built [OF dedup_adaptor assms(1), where dr = "dedup_drop (Some t) es" and
        st = "\<lambda>a b. \<lparr>dd_self = a, dd_source = src, dd_cmp = cmp, dd_last_buf = b, dd_last = None, dd_has_last = False\<rparr>"])
    (auto simp: dedup_drop_def dedup_holds_def dedup_ok_def dedup_rest_def big)

end

interpretation sys_dedup: adaptor hp_live dedup_next "\<lambda>s. iter_destroy (dd_source s)"
  "\<lambda>s w. do {
     w \<leftarrow> mem_free (Some sys_allocator) (Some (dd_last_buf s)) es w;
     mem_free (Some sys_allocator) (Some (dd_self s)) sizeof_dedup_state_t w
   }"
  "\<lambda>s. [dd_self s \<mapsto> sizeof_dedup_state_t, dd_last_buf s \<mapsto> es]" "dedup_holds hp_live"
  "\<lambda>s B. dd_self s \<noteq> dd_last_buf s \<and> iter_closes hp_live (dd_source s) B" for es
  by (rule sys.dedup_adaptor)

subsection \<open>\<open>iter_peekable\<close>\<close>

record ('a, 's, 'w) peekable_state_t =
  pk_self :: addr
  pk_source :: "('a, 's, 'w) iter_t"
  pk_buf_addr :: addr
  pk_buf :: "'a option"
  pk_has_peeked :: bool
  pk_source_done :: bool

definition sizeof_peekable_state_t :: size_t where
  "sizeof_peekable_state_t = 72"

lemma sizeof_peekable_state_t_small [simp]: "sizeof_peekable_state_t \<le> 256"
  by (simp add: sizeof_peekable_state_t_def)

definition peekable_next ::
  "('a, 's, 'w) peekable_state_t \<Rightarrow> 'w \<Rightarrow> ('a option \<times> ('a, 's, 'w) peekable_state_t \<times> 'w) option" where
  "peekable_next s w =
     (if pk_has_peeked s then do {
        x \<leftarrow> pk_buf s;
        Some (Some x, s\<lparr>pk_has_peeked := False\<rparr>, w)
      }
      else if pk_source_done s then Some (None, s, w)
      else do {
        (r, src, w) \<leftarrow> iter_next (pk_source s) w;
        Some (r, s\<lparr>pk_source := src\<rparr>, w)
      })"

definition peekable_peek ::
  "('a, 's, 'w) peekable_state_t \<Rightarrow> 'w \<Rightarrow> ('a option \<times> ('a, 's, 'w) peekable_state_t \<times> 'w) option" where
  "peekable_peek s w =
     (if pk_has_peeked s then do { x \<leftarrow> pk_buf s; Some (Some x, s, w) }
      else if pk_source_done s then Some (None, s, w)
      else do {
        (r, src, w) \<leftarrow> iter_next (pk_source s) w;
        case r of
          None \<Rightarrow> Some (None, s\<lparr>pk_source := src, pk_source_done := True\<rparr>, w)
        | Some x \<Rightarrow> Some (Some x, s\<lparr>pk_source := src, pk_buf := Some x, pk_has_peeked := True\<rparr>, w)
      })"

definition peekable_drop :: "'w allocator_t \<Rightarrow> size_t \<Rightarrow> ('a, 's, 'w) peekable_state_t \<Rightarrow> 'w \<Rightarrow> 'w option" where
  "peekable_drop al es s w = do {
     w \<leftarrow> iter_destroy (pk_source s) w;
     w \<leftarrow> mem_free al (Some (pk_buf_addr s)) es w;
     mem_free al (Some (pk_self s)) sizeof_peekable_state_t w
   }"

definition iter_peekable ::
  "('a, 's, 'w) iter_t \<Rightarrow> 'w \<Rightarrow> (('a, ('a, 's, 'w) peekable_state_t, 'w) iter_t \<times> 'w) option" where
  "iter_peekable source w = adapt_buffered source sizeof_peekable_state_t
     (\<lambda>a b. (iter_make peekable_next (peekable_drop (it_allocator source) (it_elem_size source))
        \<lparr>pk_self = a, pk_source = source, pk_buf_addr = b, pk_buf = None, pk_has_peeked = False, pk_source_done = False\<rparr>
        (it_elem_size source) (it_allocator source))\<lparr>it_peek := Some peekable_peek\<rparr>) w"

definition peekable_holds ::
  "('w \<Rightarrow> addr \<rightharpoonup> size_t) \<Rightarrow> 'a list \<Rightarrow> ('a, 's, 'w) peekable_state_t \<Rightarrow> (addr \<rightharpoonup> size_t) \<Rightarrow> bool" where
  "peekable_holds live ys s B \<longleftrightarrow> pk_self s \<noteq> pk_buf_addr s \<and>
     (if pk_has_peeked s
      then \<not> pk_source_done s \<and> (\<exists>x xs. pk_buf s = Some x \<and> ys = x # xs \<and> iter_rep live xs (pk_source s) B)
      else if pk_source_done s then ys = [] \<and> iter_closes live (pk_source s) B
      else iter_rep live ys (pk_source s) B)"

text \<open>
  What a client of a peekable iterator may do: any number of peeks between two calls of
  \<open>next\<close>. Each shows the element that \<open>next\<close> then yields, and takes nothing away.
\<close>

coinductive peek_rep ::
  "('w \<Rightarrow> addr \<rightharpoonup> size_t) \<Rightarrow> 'a list \<Rightarrow> ('a, 's, 'w) iter_t \<Rightarrow> (addr \<rightharpoonup> size_t) \<Rightarrow> bool" for live where
  peek_repI: "\<lbrakk>iter_closes live it B;
     \<forall>w R. owns (live w) R B \<longrightarrow> (\<exists>it' w' B'. iter_next it w = Some (hd_opt xs, it', w') \<and> owns (live w') R B' \<and>
       (xs = [] \<longrightarrow> iter_closes live it' B') \<and> (\<forall>y ys. xs = y # ys \<longrightarrow> peek_rep live ys it' B'));
     \<forall>w R. owns (live w) R B \<longrightarrow> (\<exists>it' w' B'. iter_peek it w = Some (hd_opt xs, it', w') \<and> owns (live w') R B' \<and>
       peek_rep live xs it' B')\<rbrakk> \<Longrightarrow> peek_rep live xs it B"

inductive_cases peek_repE: "peek_rep live xs it B"

text \<open>A client that never peeks sees an ordinary iterator.\<close>

lemma peek_rep_iter_rep: "peek_rep live xs it B \<Longrightarrow> iter_rep live xs it B"
proof (induction xs arbitrary: it B)
  case Nil
  then show ?case by (rule peek_repE) (fastforce intro!: iter_rep_NilI)
next
  case (Cons x xs)
  from Cons.prems show ?case by (rule peek_repE) (fastforce intro!: iter_rep_ConsI Cons.IH)
qed

lemma iter_with_peek [simp]:
  "iter_destroy (it\<lparr>it_peek := p\<rparr>) w = iter_destroy it w"
  "iter_is_valid (it\<lparr>it_peek := p\<rparr>) = iter_is_valid it"
  "iter_next ((iter_make nx dr s es al)\<lparr>it_peek := p\<rparr>) w =
     do { (r, s', w') \<leftarrow> nx s w; Some (r, (iter_make nx dr s' es al)\<lparr>it_peek := p\<rparr>, w') }"
  by (simp_all add: iter_destroy_def iter_next_def iter_is_valid_def iter_make_def split: option.split)

lemma iter_closes_with_peek [simp]: "iter_closes live (it\<lparr>it_peek := p\<rparr>) B = iter_closes live it B"
  by (simp add: iter_closes_def)

lemma iter_peek_make:
  "iter_peek ((iter_make nx dr s es al)\<lparr>it_peek := Some pk\<rparr>) w =
   do { (r, s', w') \<leftarrow> pk s w; Some (r, (iter_make nx dr s' es al)\<lparr>it_peek := Some pk\<rparr>, w') }"
  by (simp add: iter_peek_def iter_make_def)

text \<open>The contract of an adaptor that can peek.\<close>

locale peekable_adaptor = adaptor live nx close_sources release own holds closable
  for live :: "'w \<Rightarrow> addr \<rightharpoonup> size_t" and nx :: "'q \<Rightarrow> 'w \<Rightarrow> ('b option \<times> 'q \<times> 'w) option"
    and close_sources release own and holds :: "'b list \<Rightarrow> 'q \<Rightarrow> (addr \<rightharpoonup> size_t) \<Rightarrow> bool" and closable +
  fixes pk :: "'q \<Rightarrow> 'w \<Rightarrow> ('b option \<times> 'q \<times> 'w) option"
  assumes peek_law: "holds ys s B \<Longrightarrow> owns (live w) R B \<Longrightarrow>
      \<exists>s' w' B'. pk s w = Some (hd_opt ys, s', w') \<and> owns (live w') R B' \<and> own s' = own s \<and> holds ys s' B'"
begin

lemma peeks:
  assumes "holds ys s B" and "joined C B (own s)"
  shows "peek_rep live ys ((iter_make nx drop_fn s es al)\<lparr>it_peek := Some pk\<rparr>) C"
proof -
  let ?it = "\<lambda>s. (iter_make nx drop_fn s es al)\<lparr>it_peek := Some pk\<rparr>"
  define X where "X ys it C \<longleftrightarrow> (\<exists>s B. it = ?it s \<and> holds ys s B \<and> joined C B (own s))" for ys it C
  have "X ys it C \<Longrightarrow> peek_rep live ys it C" for ys it C
  proof (coinduction arbitrary: ys it C)
    case peek_rep
    then obtain s B where it: "it = ?it s" and h: "holds ys s B" and j: "joined C B (own s)"
      by (auto simp: X_def)
    have next_ok: "\<exists>it' w' B'. iter_next it w = Some (hd_opt ys, it', w') \<and> owns (live w') R B' \<and>
        (ys = [] \<longrightarrow> iter_closes live it' B') \<and>
        (\<forall>z zs. ys = z # zs \<longrightarrow> X zs it' B')" if o: "owns (live w) R C" for w R
    proof -
      obtain s' w' B' where n: "nx s w = Some (hd_opt ys, s', w')" "owns (live w') (R ++ own s) B'"
        "own s' = own s" "case ys of [] \<Rightarrow> closable s' B' | _ # zs \<Rightarrow> holds zs s' B'"
        using step_law [OF h joined_open [OF j o]] by blast
      note j' = joined_close [OF j o n(2)]
      have "iter_closes live (?it s') (B' ++ own s)" if "ys = []"
        using n(3,4) j'(2) closes [of s' B' "B' ++ own s"] that by simp
      moreover have "X zs (?it s') (B' ++ own s)" if "ys = z # zs" for z zs
        unfolding X_def using n(3,4) j'(2) that by (intro exI [of _ s'] exI [of _ B']) simp
      ultimately show ?thesis using n(1) j'(1) it
        by (intro exI [of _ "?it s'"] exI [of _ w'] exI [of _ "B' ++ own s"]) simp
    qed
    have peek_ok: "\<exists>it' w' B'. iter_peek it w = Some (hd_opt ys, it', w') \<and> owns (live w') R B' \<and>
        X ys it' B'" if o: "owns (live w) R C" for w R
    proof -
      obtain s' w' B' where n: "pk s w = Some (hd_opt ys, s', w')" "owns (live w') (R ++ own s) B'"
        "own s' = own s" "holds ys s' B'"
        using peek_law [OF h joined_open [OF j o]] by blast
      note j' = joined_close [OF j o n(2)]
      have "X ys (?it s') (B' ++ own s)"
        unfolding X_def using n(3,4) j'(2) by (intro exI [of _ s'] exI [of _ B']) simp
      with n(1) j'(1) it show ?thesis
        by (intro exI [of _ "?it s'"] exI [of _ w'] exI [of _ "B' ++ own s"]) (simp add: iter_peek_make)
    qed
    have "iter_closes live it C" using closes [OF holds_closable [OF h] j] it by simp
    moreover have "\<forall>w R. owns (live w) R C \<longrightarrow> (\<exists>it' w' B'. iter_next it w = Some (hd_opt ys, it', w') \<and>
        owns (live w') R B' \<and> (ys = [] \<longrightarrow> iter_closes live it' B') \<and>
        (\<forall>z zs. ys = z # zs \<longrightarrow> X zs it' B' \<or> peek_rep live zs it' B'))"
      using next_ok by metis
    moreover have "\<forall>w R. owns (live w) R C \<longrightarrow> (\<exists>it' w' B'. iter_peek it w = Some (hd_opt ys, it', w') \<and>
        owns (live w') R B' \<and> (X ys it' B' \<or> peek_rep live ys it' B'))"
      using peek_ok by metis
    ultimately show ?case by (simp del: owns_empty)
  qed
  moreover have "X ys (?it s) C" unfolding X_def using assms by blast
  ultimately show ?thesis by blast
qed

end

context heap_allocator begin

lemma peekable_is_adaptor:
  "peekable_adaptor live peekable_next (\<lambda>s. iter_destroy (pk_source s))
     (\<lambda>s w. do {
        w \<leftarrow> mem_free (Some t) (Some (pk_buf_addr s)) es w;
        mem_free (Some t) (Some (pk_self s)) sizeof_peekable_state_t w
      })
     (\<lambda>s. [pk_self s \<mapsto> sizeof_peekable_state_t, pk_buf_addr s \<mapsto> es]) (peekable_holds live)
     (\<lambda>s B. pk_self s \<noteq> pk_buf_addr s \<and> iter_closes live (pk_source s) B) peekable_peek"
proof (unfold_locales, goal_cases)
  case (1 s B w R)
  then show ?case by (blast elim: iter_destroy_closes)
next
  case (2 s B w R)
  then show ?case by (fastforce elim: release_two simp del: mem_free.simps)
next
  case (3 ys s B)
  then show ?case by (auto simp: peekable_holds_def iter_rep_closes split: if_splits)
next
  case (4 ys s B w R)
  show ?case
  proof (cases "pk_has_peeked s \<or> pk_source_done s")
    case True
    with 4 show ?thesis by (auto simp: peekable_next_def peekable_holds_def split: if_splits)
  next
    case False
    with 4(1) have xs: "iter_rep live ys (pk_source s) B" and ne: "pk_self s \<noteq> pk_buf_addr s"
      by (auto simp: peekable_holds_def)
    obtain it' w' B' where n: "iter_next (pk_source s) w = Some (hd_opt ys, it', w')" "owns (live w') R B'"
        "iter_after live ys it' B'" by (rule iter_rep_pull [OF xs 4(2)])
    with False ne show ?thesis by (cases ys) (auto simp: peekable_next_def peekable_holds_def)
  qed
next
  case (5 ys s B w R)
  show ?case
  proof (cases "pk_has_peeked s \<or> pk_source_done s")
    case True
    with 5 show ?thesis by (auto simp: peekable_peek_def peekable_holds_def split: if_splits)
  next
    case False
    with 5(1) have xs: "iter_rep live ys (pk_source s) B" and ne: "pk_self s \<noteq> pk_buf_addr s"
      by (auto simp: peekable_holds_def)
    obtain it' w' B' where n: "iter_next (pk_source s) w = Some (hd_opt ys, it', w')" "owns (live w') R B'"
        "iter_after live ys it' B'" by (rule iter_rep_pull [OF xs 5(2)])
    with False ne show ?thesis by (cases ys) (auto simp: peekable_peek_def peekable_holds_def)
  qed
qed

lemma peekable_drop_eq:
  "peekable_drop al es = adaptor_drop (\<lambda>s. iter_destroy (pk_source s))
     (\<lambda>s w. do {
        w \<leftarrow> mem_free al (Some (pk_buf_addr s)) es w;
        mem_free al (Some (pk_self s)) sizeof_peekable_state_t w
      })"
  by (rule ext)+ (simp add: peekable_drop_def adaptor_drop_def)

lemma peekable_peeks:
  assumes "iter_rep live xs src B" and "a \<notin> dom B" and "b \<notin> dom (B(a \<mapsto> sizeof_peekable_state_t))"
  shows "peek_rep live xs ((iter_make peekable_next (peekable_drop (Some t) es)
        \<lparr>pk_self = a, pk_source = src, pk_buf_addr = b, pk_buf = None, pk_has_peeked = False, pk_source_done = False\<rparr>
        es' (Some t))\<lparr>it_peek := Some peekable_peek\<rparr>) (B(a \<mapsto> sizeof_peekable_state_t, b \<mapsto> es))"
  unfolding peekable_drop_eq
  by (rule peekable_adaptor.peeks [OF peekable_is_adaptor, of _ _ B])
    (use joined_upd2 [OF assms(2,3)] assms(1,3) in \<open>auto simp: peekable_holds_def\<close>)

lemma iter_peekable_built:
  assumes "iter_built live (Some t) R es xs (Some (src, w))" and big: "es \<le> PTRDIFF_MAX"
  shows "iter_built live (Some t) R es xs (iter_peekable src w)"
  unfolding iter_peekable_def
proof (rule adapt_buffered_built [OF assms(1)], goal_cases)
  case (1 a b B)
  with peek_rep_iter_rep [OF peekable_peeks [OF 1(1-3)]] show ?case
    by (simp add: iter_make_def iter_is_valid_def)
qed (simp_all add: big)

text \<open>A client of the new iterator may peek between any two elements.\<close>

lemma iter_peekable_peeks:
  assumes "iter_built live (Some t) R es xs (Some (src, w))" and big: "es \<le> PTRDIFF_MAX"
  obtains it w' where "iter_peekable src w = Some (it, w')"
    and "it = iter_zero \<and> live w' = R \<and> starved (Some t) \<or>
      (\<exists>B. iter_is_valid it \<and> owns (live w') R B \<and> peek_rep live xs it B)"
  using assms(1) sizeof_peekable_state_t_small assms(2)
proof (cases rule: adapt_buffered_cases [where n = sizeof_peekable_state_t and
      mk = "\<lambda>a b. (iter_make peekable_next (peekable_drop (it_allocator src) (it_elem_size src))
        \<lparr>pk_self = a, pk_source = src, pk_buf_addr = b, pk_buf = None, pk_has_peeked = False, pk_source_done = False\<rparr>
        (it_elem_size src) (it_allocator src))\<lparr>it_peek := Some peekable_peek\<rparr>"])
  case (failed w')
  with that show ?thesis by (simp add: iter_peekable_def)
next
  case (valid a b B w')
  with that [OF valid(1) [folded iter_peekable_def]] peekable_peeks [OF valid(2-4), of es es] show ?thesis by auto
qed

end

interpretation sys_peekable: peekable_adaptor hp_live peekable_next "\<lambda>s. iter_destroy (pk_source s)"
  "\<lambda>s w. do {
     w \<leftarrow> mem_free (Some sys_allocator) (Some (pk_buf_addr s)) es w;
     mem_free (Some sys_allocator) (Some (pk_self s)) sizeof_peekable_state_t w
   }"
  "\<lambda>s. [pk_self s \<mapsto> sizeof_peekable_state_t, pk_buf_addr s \<mapsto> es]" "peekable_holds hp_live"
  "\<lambda>s B. pk_self s \<noteq> pk_buf_addr s \<and> iter_closes hp_live (pk_source s) B" peekable_peek for es
  by (rule sys.peekable_is_adaptor)

end
