(* ===== verification/Seqc_Adapt_Window.thy ===== *)
theory Seqc_Adapt_Window
  imports Seqc_Adapt
begin

section \<open>Windows and chunks\<close>

text \<open>
  \<open>iter_window\<close> and \<open>iter_chunks\<close> of \<open>src/iter/iter.c\<close>: they yield slices of a buffer of \<open>n\<close>
  elements that the adaptor owns and overwrites on the next call. A slice here shows the buffer
  at the moment it was handed out. The byte cnt \<open>n * elem_size\<close> of the buffer is computed
  in \<open>size_t\<close>; where it wraps around the buffer is too short for what is written to it.
\<close>

subsection \<open>The buffer\<close>

text \<open>How both constructors begin: no buffer is needed for \<open>n = 0\<close>.\<close>

definition adapt_block ::
  "('a, 's, 'w) iter_t \<Rightarrow> size_t \<Rightarrow> size_t \<Rightarrow> (addr \<Rightarrow> 'a block option \<Rightarrow> ('b, 'r, 'w) iter_t) \<Rightarrow> 'w \<Rightarrow>
   (('b, 'r, 'w) iter_t \<times> 'w) option" where
  "adapt_block source sz n mk w =
     (if \<not> iter_is_valid source then Some (iter_zero, w)
      else do {
        (s, w) \<leftarrow> mem_alloc (it_allocator source) sz w;
        (buf, w) \<leftarrow> (if n \<noteq> 0 then block_alloc (it_allocator source) (it_elem_size source) (wmul n (it_elem_size source)) w
          else Some (None, w));
        case s of
          None \<Rightarrow> do {
            w \<leftarrow> (if buf = None then Some w else block_free (it_allocator source) buf (wmul n (it_elem_size source)) w);
            w \<leftarrow> iter_destroy source w;
            Some (iter_zero, w)
          }
        | Some a \<Rightarrow>
            if n \<noteq> 0 \<and> buf = None then do {
              w \<leftarrow> mem_free (it_allocator source) (Some a) sz w;
              w \<leftarrow> iter_destroy source w;
              Some (iter_zero, w)
            } else Some (mk a buf, w)
      })"

text \<open>The blocks of such an adaptor, and its buffer while nothing or something was written.\<close>

definition block_own :: "addr \<Rightarrow> size_t \<Rightarrow> 'a block option \<Rightarrow> size_t \<Rightarrow> (addr \<rightharpoonup> size_t)" where
  "block_own a sz buf m = own_block [a \<mapsto> sz] buf m"

definition buffer_ok :: "addr \<Rightarrow> size_t \<Rightarrow> 'a block option \<Rightarrow> bool" where
  "buffer_ok a n buf \<longleftrightarrow> (if n = 0 then buf = None else \<exists>b. buf = Some b \<and> length (cells b) = n \<and> blk_addr b \<noteq> a)"

lemma block_own_same:
  "map_option blk_addr buf' = map_option blk_addr buf \<Longrightarrow> block_own a sz buf' m = block_own a sz buf m"
  unfolding block_own_def by (rule own_block_same_addr(1))

text \<open>Writing a cell of the buffer.\<close>

lemma buffer_write:
  assumes "buffer_ok a n (Some b)" and "i < n"
  shows "block_write (Some b) i x = Some (Some (b\<lparr>cells := (cells b)[i := Some x]\<rparr>))"
    and "buffer_ok a n (Some (b\<lparr>cells := (cells b)[i := Some x]\<rparr>))"
proof -
  from assms have "length (cells b) = n" "blk_addr b \<noteq> a" "n \<noteq> 0" by (simp_all add: buffer_ok_def)
  with assms(2) show "block_write (Some b) i x = Some (Some (b\<lparr>cells := (cells b)[i := Some x]\<rparr>))"
    and "buffer_ok a n (Some (b\<lparr>cells := (cells b)[i := Some x]\<rparr>))"
    by (simp_all add: buffer_ok_def block_write_def)
qed

context heap_allocator begin

lemma adapt_block_built:
  assumes "iter_built live (Some t) R es xs (Some (src, w))" and "0 < es" and big: "n * es \<le> PTRDIFF_MAX" and small: "sz \<le> 256"
    and mk: "\<And>a buf B. iter_rep live xs src B \<Longrightarrow> joined (B ++ block_own a sz buf (n * es)) B (block_own a sz buf (n * es)) \<Longrightarrow>
      buffer_ok a n buf \<Longrightarrow> it_elem_size src = es \<Longrightarrow> it_allocator src = Some t \<Longrightarrow>
      iter_is_valid (mk a buf) \<and> it_elem_size (mk a buf) = es' \<and> it_allocator (mk a buf) = Some t \<and>
      iter_rep live (ys buf) (mk a buf) (B ++ block_own a sz buf (n * es))"
  shows "\<exists>buf. (n \<noteq> 0 \<longrightarrow> buf \<noteq> None) \<and> iter_built live (Some t) R es' (ys buf) (adapt_block src sz n mk w)"
  using assms(1)
proof (cases rule: iter_built_cases)
  case failed
  then have "iter_built live (Some t) R es' zs (adapt_block src sz n mk w)" for zs
    by (intro iter_built_zero [of _ w]) (simp_all add: adapt_block_def)
  then show ?thesis by blast
next
  case (valid B)
  note cl = iter_rep_closes [OF valid(5)]
  have any: ?thesis if "\<And>zs. iter_built live (Some t) R es' zs (adapt_block src sz n mk w)" using that by blast
  have m: "wmul n es = n * es" by (rule wmul_exact) (use big in \<open>simp add: PTRDIFF_MAX_def\<close>)
  have n0: "n \<noteq> 0 \<Longrightarrow> 0 < n" by simp
  from valid(4) show ?thesis
  proof (cases rule: state_alloc [where n = sz])
    case a: (granted a w1)
    show ?thesis
    proof (cases "n = 0")
      case True
      have "joined (B ++ block_own a sz None (n * es)) B (block_own a sz None (n * es))"
        using a(3) by (simp add: joined_def block_own_def)
      from mk [OF valid(5) this _ valid(2,3)] True a valid show ?thesis
        by (intro exI [of _ None] conjI iter_built_valid [where it = "mk a None" and w' = w1 and B = "B(a \<mapsto> sz)"])
          (simp_all add: adapt_block_def buffer_ok_def block_own_def del: mem_alloc.simps)
    next
      case False
      from a(2) assms(2) n0 [OF False] show ?thesis
      proof (cases rule: block_alloc_fresh [where 'e = 'a])
        case b: (granted b w2)
        have j: "joined (B ++ block_own a sz (Some b) (n * es)) B (block_own a sz (Some b) (n * es))"
          using a(3) b(4) by (auto simp: joined_def block_own_def)
        have ok: "buffer_ok a n (Some b)" using False b by (auto simp: buffer_ok_def)
        from mk [OF valid(5) j ok valid(2,3)] False a(1) b valid m show ?thesis
          by (intro exI [of _ "Some b"] conjI iter_built_valid [where it = "mk a (Some b)" and w' = w2
                and B = "B ++ block_own a sz (Some b) (n * es)"])
            (simp_all add: adapt_block_def block_own_def del: mem_alloc.simps)
      next
        case b: (refused w2)
        obtain w3 where w3: "mem_free (Some t) (Some a) sz w2 = Some w3" "owns (live w3) R ((B(a \<mapsto> sz))(a := None))"
          by (rule owns_mem_free [OF b(2), of a sz]) simp_all
        moreover have "(B(a \<mapsto> sz))(a := None) = B" using a(3) by (auto simp: fun_eq_iff fun_upd_apply)
        ultimately show ?thesis using close_on_failure [OF cl, of w3 R] starvedI [OF b(3) big] a(1) b(1) valid False m
          by (intro any) (simp add: adapt_block_def del: mem_alloc.simps mem_free.simps)
      qed
    qed
  next
    case a: (refused w1)
    show ?thesis
    proof (cases "n = 0")
      case True
      with a valid close_on_failure [OF cl a(2) starved_small [OF a(3) small]] show ?thesis
        by (intro any) (simp add: adapt_block_def del: mem_alloc.simps)
    next
      case False
      from a(2) assms(2) n0 [OF False] show ?thesis
      proof (cases rule: block_alloc_fresh [where 'e = 'a])
        case b: (granted b w2)
        have "owns (live w2) R (own_block B (Some b) (n * es))" "apart B (Some b)" using b by simp_all
        then obtain w3 where "block_free (Some t) (Some b) (n * es) w2 = Some w3" "owns (live w3) R B"
          by (rule block_free_own)
        with close_on_failure [OF cl, of w3 R] starved_small [OF a(3) small] a(1) b(1) valid False m show ?thesis
          by (intro any) (simp add: adapt_block_def del: mem_alloc.simps)
      next
        case b: (refused w2)
        with a(1) valid close_on_failure [OF cl b(2) starved_small [OF a(3) small]] False m show ?thesis
          by (intro any) (simp add: adapt_block_def del: mem_alloc.simps)
      qed
    qed
  qed
qed

text \<open>Freeing the buffer, if there is one, and the state.\<close>

lemma release_block:
  assumes "owns (live w) R (block_own a sz buf m)" and "buffer_ok a n buf"
  obtains w1 w2 where "(if buf = None then Some w else block_free (Some t) buf m w) = Some w1"
    and "mem_free (Some t) (Some a) sz w1 = Some w2" and "live w2 = R"
proof (cases buf)
  case None
  with assms(1) have "owns (live w) R [a \<mapsto> sz]" by (simp add: block_own_def)
  then obtain w2 where "mem_free (Some t) (Some a) sz w = Some w2" "live w2 = R" by (rule release_one)
  with None that [of w w2] show ?thesis by simp
next
  case (Some b)
  with assms have o: "owns (live w) R (own_block [a \<mapsto> sz] (Some b) m)" "apart [a \<mapsto> sz] (Some b)"
    by (auto simp: block_own_def buffer_ok_def split: if_splits)
  obtain w1 where w1: "block_free (Some t) (Some b) m w = Some w1" "owns (live w1) R [a \<mapsto> sz]"
    by (rule block_free_own [OF o])
  obtain w2 where "mem_free (Some t) (Some a) sz w1 = Some w2" "live w2 = R" by (rule release_one [OF w1(2)])
  with Some w1(1) that [of w1 w2] show ?thesis by simp
qed

end

subsection \<open>\<open>iter_window\<close>\<close>

record ('a, 's, 'w) window_state_t =
  wn_self :: addr
  wn_source :: "('a, 's, 'w) iter_t"
  wn_buf :: "'a block option"
  wn_n :: size_t
  wn_elem_size :: size_t
  wn_primed :: bool

definition sizeof_window_state_t :: size_t where
  "sizeof_window_state_t = 104"

definition sizeof_slice_t :: size_t where
  "sizeof_slice_t = 24"

lemma sizeof_window_state_t_small [simp]: "sizeof_window_state_t \<le> 256" "sizeof_slice_t \<le> 256"
  by (simp_all add: sizeof_window_state_t_def sizeof_slice_t_def)

text \<open>The loop that fills the first window: \<open>k\<close> more elements, the next one to index \<open>i\<close>.\<close>

fun window_fill ::
  "nat \<Rightarrow> nat \<Rightarrow> 'a block option \<Rightarrow> ('a, 's, 'w) iter_t \<Rightarrow> 'w \<Rightarrow>
   (bool \<times> 'a block option \<times> ('a, 's, 'w) iter_t \<times> 'w) option" where
  "window_fill 0 i buf src w = Some (True, buf, src, w)"
| "window_fill (Suc k) i buf src w = do {
     (r, src, w) \<leftarrow> iter_next src w;
     case r of
       None \<Rightarrow> Some (False, buf, src, w)
     | Some x \<Rightarrow> do { buf \<leftarrow> block_write buf i x; window_fill k (Suc i) buf src w }
   }"

definition window_next ::
  "('a, 's, 'w) window_state_t \<Rightarrow> 'w \<Rightarrow> ('a slice_t option \<times> ('a, 's, 'w) window_state_t \<times> 'w) option" where
  "window_next s w =
     (if wn_n s = 0 then Some (None, s, w)
      else do {
        (ok, s, w) \<leftarrow>
          (if \<not> wn_primed s then do {
             (ok, buf, src, w) \<leftarrow> window_fill (wn_n s) 0 (wn_buf s) (wn_source s) w;
             Some (ok, s\<lparr>wn_buf := buf, wn_source := src, wn_primed := ok\<rparr>, w)
           } else do {
             buf \<leftarrow> block_move (wn_buf s) 0 1 (wn_n s - 1);
             (r, src, w) \<leftarrow> iter_next (wn_source s) w;
             case r of
               None \<Rightarrow> Some (False, s\<lparr>wn_buf := buf, wn_source := src\<rparr>, w)
             | Some x \<Rightarrow> do {
                 buf \<leftarrow> block_write buf (wn_n s - 1) x;
                 Some (True, s\<lparr>wn_buf := buf, wn_source := src\<rparr>, w)
               }
           });
        if ok then Some (Some \<lparr>sl_ptr = wn_buf s, sl_len = wn_n s, sl_elem_size = wn_elem_size s\<rparr>, s, w)
        else Some (None, s, w)
      })"

definition window_drop :: "'w allocator_t \<Rightarrow> ('a, 's, 'w) window_state_t \<Rightarrow> 'w \<Rightarrow> 'w option" where
  "window_drop al s w = do {
     w \<leftarrow> iter_destroy (wn_source s) w;
     w \<leftarrow> (if wn_buf s = None then Some w else block_free al (wn_buf s) (wmul (wn_n s) (wn_elem_size s)) w);
     mem_free al (Some (wn_self s)) sizeof_window_state_t w
   }"

definition iter_window ::
  "('a, 's, 'w) iter_t \<Rightarrow> size_t \<Rightarrow> 'w \<Rightarrow> (('a slice_t, ('a, 's, 'w) window_state_t, 'w) iter_t \<times> 'w) option" where
  "iter_window source n w = adapt_block source sizeof_window_state_t n
     (\<lambda>a buf. iter_make window_next (window_drop (it_allocator source))
        \<lparr>wn_self = a, wn_source = source, wn_buf = buf, wn_n = n, wn_elem_size = it_elem_size source, wn_primed = False\<rparr>
        sizeof_slice_t (it_allocator source)) w"

text \<open>The windows of a list, and the slice that shows one.\<close>

fun windows :: "nat \<Rightarrow> 'a list \<Rightarrow> 'a list list" where
  "windows n [] = []"
| "windows n (x # xs) = (if n = 0 \<or> length (x # xs) < n then [] else take n (x # xs) # windows n xs)"

lemma windows_length: "0 < n \<Longrightarrow> length (windows n xs) = Suc (length xs) - n"
  by (induction xs) auto

lemma windows_nth: "i < length (windows n xs) \<Longrightarrow> windows n xs ! i = take n (drop i xs)"
proof (induction xs arbitrary: i)
  case (Cons x xs)
  then show ?case by (cases i) (auto split: if_splits)
qed simp

lemma windows_zero [simp]: "windows 0 xs = []"
  by (cases xs) simp_all

lemma windows_short: "length xs < n \<Longrightarrow> windows n xs = []"
  by (cases xs) simp_all

definition shown :: "addr \<Rightarrow> size_t \<Rightarrow> 'a list \<Rightarrow> 'a slice_t" where
  "shown b es xs = \<lparr>sl_ptr = Some \<lparr>blk_addr = b, cells = map Some xs\<rparr>, sl_len = length xs, sl_elem_size = es\<rparr>"

lemma slice_is_shown: "xs \<noteq> [] \<Longrightarrow> slice_is (shown b es xs) xs"
  by (auto simp: slice_is_def shown_def buf_is_def)

lemma windows_unroll: "0 < n \<Longrightarrow> n \<le> length xs \<Longrightarrow> windows n xs = take n xs # windows n (tl xs)"
  by (cases xs) auto

definition window_holds ::
  "('w \<Rightarrow> addr \<rightharpoonup> size_t) \<Rightarrow> 'a slice_t list \<Rightarrow> ('a, 's, 'w) window_state_t \<Rightarrow> (addr \<rightharpoonup> size_t) \<Rightarrow> bool" where
  "window_holds live ys s B \<longleftrightarrow> buffer_ok (wn_self s) (wn_n s) (wn_buf s) \<and>
     (\<exists>xs. iter_rep live xs (wn_source s) B \<and>
        (case wn_buf s of
           None \<Rightarrow> ys = []
         | Some b \<Rightarrow>
             if \<not> wn_primed s then ys = map (shown (blk_addr b) (wn_elem_size s)) (windows (wn_n s) xs)
             else \<exists>vs. cells b = map Some vs \<and>
               ys = map (shown (blk_addr b) (wn_elem_size s)) (windows (wn_n s) (tl vs @ xs))))"

definition window_closable ::
  "('w \<Rightarrow> addr \<rightharpoonup> size_t) \<Rightarrow> ('a, 's, 'w) window_state_t \<Rightarrow> (addr \<rightharpoonup> size_t) \<Rightarrow> bool" where
  "window_closable live s B \<longleftrightarrow> buffer_ok (wn_self s) (wn_n s) (wn_buf s) \<and> iter_closes live (wn_source s) B"

abbreviation window_own :: "('a, 's, 'w) window_state_t \<Rightarrow> addr \<rightharpoonup> size_t" where
  "window_own s \<equiv> block_own (wn_self s) sizeof_window_state_t (wn_buf s) (wmul (wn_n s) (wn_elem_size s))"

lemma window_fill_at:
  assumes "iter_rep live xs src B" and "owns (live w) R B"
    and "cells b = map Some zs @ cs" and "length zs = i" and "length cs = k"
  shows "\<exists>src' w' B' b'. window_fill k i (Some b) src w = Some (k \<le> length xs, Some b', src', w') \<and>
    owns (live w') R B' \<and> blk_addr b' = blk_addr b \<and> length (cells b') = length (cells b) \<and>
    iter_closes live src' B' \<and>
    (k \<le> length xs \<longrightarrow> cells b' = map Some (zs @ take k xs) \<and> iter_rep live (drop k xs) src' B')"
  using assms
proof (induction k arbitrary: xs src B w b zs cs i)
  case 0
  then show ?case
    by (intro exI [of _ src] exI [of _ w] exI [of _ B] exI [of _ b]) (simp add: iter_rep_closes)
next
  case (Suc k)
  obtain it' w1 B1 where n: "iter_next src w = Some (hd_opt xs, it', w1)" "owns (live w1) R B1"
      "iter_after live xs it' B1" by (rule iter_rep_pull [OF Suc.prems(1,2)])
  show ?case
  proof (cases xs)
    case Nil
    with n show ?thesis
      by (intro exI [of _ it'] exI [of _ w1] exI [of _ B1] exI [of _ b]) simp
  next
    case (Cons x ys)
    obtain c cs' where cs: "cs = c # cs'" using Suc.prems(5) by (cases cs) auto
    let ?b = "b\<lparr>cells := (cells b)[i := Some x]\<rparr>"
    have w: "block_write (Some b) i x = Some (Some ?b)" using Suc.prems(3,4) cs by (simp add: block_write_def)
    have c: "cells ?b = map Some (zs @ [x]) @ cs'" using Suc.prems(3,4) cs by (simp add: list_update_append)
    have "\<exists>src' w' B' b'. window_fill k (Suc i) (Some ?b) it' w1 = Some (k \<le> length ys, Some b', src', w') \<and>
      owns (live w') R B' \<and> blk_addr b' = blk_addr ?b \<and> length (cells b') = length (cells ?b) \<and>
      iter_closes live src' B' \<and>
      (k \<le> length ys \<longrightarrow> cells b' = map Some ((zs @ [x]) @ take k ys) \<and> iter_rep live (drop k ys) src' B')"
      by (rule Suc.IH [OF _ n(2) c]) (use n(3) Cons cs Suc.prems(4,5) in simp_all)
    with n(1) w Cons show ?thesis by simp
  qed
qed

lemma window_unprimed:
  assumes "iter_rep live xs (wn_source s) B" and "owns (live w) R B" and "wn_buf s = Some b"
    and "buffer_ok (wn_self s) (wn_n s) (Some b)" and "\<not> wn_primed s"
    and "ys = map (shown (blk_addr b) (wn_elem_size s)) (windows (wn_n s) xs)"
  shows "\<exists>s' w' B'. window_next s w = Some (hd_opt ys, s', w') \<and> owns (live w') R B' \<and> window_own s' = window_own s \<and>
    (case ys of [] \<Rightarrow> window_closable live s' B' | _ # zs \<Rightarrow> window_holds live zs s' B')"
proof -
  have n: "0 < wn_n s" "length (cells b) = wn_n s" using assms(4) by (auto simp: buffer_ok_def split: if_splits)
  obtain src' w' B' b' where f: "window_fill (wn_n s) 0 (Some b) (wn_source s) w = Some (wn_n s \<le> length xs, Some b', src', w')"
      "owns (live w') R B'" "blk_addr b' = blk_addr b" "length (cells b') = length (cells b)"
      "iter_closes live src' B'"
      "wn_n s \<le> length xs \<longrightarrow> cells b' = map Some (take (wn_n s) xs) \<and> iter_rep live (drop (wn_n s) xs) src' B'"
    using window_fill_at [OF assms(1,2), of b "[]" "cells b" 0 "wn_n s"] n by auto
  let ?s = "s\<lparr>wn_buf := Some b', wn_source := src', wn_primed := wn_n s \<le> length xs\<rparr>"
  have ok: "buffer_ok (wn_self s) (wn_n s) (Some b')" using assms(4) f(3,4) by (auto simp: buffer_ok_def split: if_splits)
  have own: "window_own ?s = window_own s" using assms(3) f(3) by (simp add: block_own_def)
  show ?thesis
  proof (cases "wn_n s \<le> length xs")
    case False
    then have "ys = []" using assms(6) by (simp add: windows_short)
    with False f(1,2,5) own ok assms(3,5) n show ?thesis
      by (intro exI [of _ ?s] exI [of _ w'] exI [of _ B'])
        (simp add: window_next_def window_closable_def)
  next
    case True
    let ?sh = "shown (blk_addr b) (wn_elem_size s)"
    have ys: "ys = ?sh (take (wn_n s) xs) # map ?sh (windows (wn_n s) (tl xs))"
      using assms(6) windows_unroll [OF n(1) True] by simp
    have b': "Some b' = Some \<lparr>blk_addr = blk_addr b, cells = map Some (take (wn_n s) xs)\<rparr>"
      using f(3,6) True by (cases b') simp
    have "tl xs = tl (take (wn_n s) xs) @ drop (wn_n s) xs"
      using True n by (metis append_take_drop_id length_greater_0_conv order_less_le_trans take_eq_Nil
          tl_append2 not_gr_zero)
    then have "window_holds live (map ?sh (windows (wn_n s) (tl xs))) ?s B'"
      using f(3,6) True ok by (auto simp: window_holds_def intro!: exI [of _ "drop (wn_n s) xs"])
    with True f(1,2) own assms(3,5) n ys b' show ?thesis
      by (intro exI [of _ ?s] exI [of _ w'] exI [of _ B']) (simp add: window_next_def shown_def)
  qed
qed

lemma window_shift:
  assumes "cells b = map Some (v # vs)" and "length (v # vs) = n"
  shows "\<exists>b'. block_move (Some b) 0 1 (n - 1) = Some (Some b') \<and> blk_addr b' = blk_addr b \<and>
    length (cells b') = n \<and> (\<forall>x. (cells b')[n - 1 := Some x] = map Some (vs @ [x]))"
proof -
  let ?c = "overwrite (cells b) 0 (take (n - 1) (drop 1 (cells b)))"
  have c: "?c = map Some vs @ drop (length vs) (map Some (v # vs))"
    using assms by (simp add: overwrite_def)
  have "length (drop (length vs) (map Some (v # vs))) = 1" by simp
  then obtain d where d: "drop (length vs) (map Some (v # vs)) = [d]" by (metis length_0_conv length_Suc_conv One_nat_def)
  have "block_move (Some b) 0 1 (n - 1) = Some (Some (b\<lparr>cells := ?c\<rparr>))"
    using assms by (simp add: block_move_def block_copy_def)
  moreover have "length ?c = n" "?c[n - 1 := Some x] = map Some (vs @ [x])" for x
    using assms(2) unfolding c d by (auto simp: list_update_append)
  ultimately show ?thesis by (intro exI [of _ "b\<lparr>cells := ?c\<rparr>"]) simp
qed

lemma window_primed:
  assumes "iter_rep live xs (wn_source s) B" and "owns (live w) R B" and "wn_buf s = Some b"
    and "buffer_ok (wn_self s) (wn_n s) (Some b)" and "wn_primed s" and "cells b = map Some us"
    and "ys = map (shown (blk_addr b) (wn_elem_size s)) (windows (wn_n s) (tl us @ xs))"
  shows "\<exists>s' w' B'. window_next s w = Some (hd_opt ys, s', w') \<and> owns (live w') R B' \<and> window_own s' = window_own s \<and>
    (case ys of [] \<Rightarrow> window_closable live s' B' | _ # zs \<Rightarrow> window_holds live zs s' B')"
proof -
  have n: "0 < wn_n s" "length us = wn_n s" using assms(4,6) by (auto simp: buffer_ok_def split: if_splits)
  then obtain v vs where us: "us = v # vs" by (cases us) auto
  obtain b1 where b1: "block_move (Some b) 0 1 (wn_n s - 1) = Some (Some b1)" "blk_addr b1 = blk_addr b"
      "length (cells b1) = wn_n s" "\<And>x. (cells b1)[wn_n s - 1 := Some x] = map Some (vs @ [x])"
    using window_shift [of b v vs "wn_n s"] assms(6) us n by auto
  have ok1: "buffer_ok (wn_self s) (wn_n s) (Some b1)" using assms(4) b1(2,3) by (auto simp: buffer_ok_def split: if_splits)
  obtain it' w' B' where p: "iter_next (wn_source s) w = Some (hd_opt xs, it', w')" "owns (live w') R B'"
      "iter_after live xs it' B'" by (rule iter_rep_pull [OF assms(1,2)])
  show ?thesis
  proof (cases xs)
    case Nil
    then have "ys = []" using assms(7) us n by (simp add: windows_short)
    with Nil p b1 ok1 assms(3,5) n show ?thesis
      by (intro exI [of _ "s\<lparr>wn_buf := Some b1, wn_source := it'\<rparr>"] exI [of _ w'] exI [of _ B'])
        (simp add: window_next_def window_closable_def block_own_def)
  next
    case (Cons x zs)
    let ?b = "b1\<lparr>cells := (cells b1)[wn_n s - 1 := Some x]\<rparr>" and ?sh = "shown (blk_addr b) (wn_elem_size s)"
    let ?s = "s\<lparr>wn_buf := Some ?b, wn_source := it'\<rparr>"
    have wr: "block_write (Some b1) (wn_n s - 1) x = Some (Some ?b)" and ok: "buffer_ok (wn_self s) (wn_n s) (Some ?b)"
      using buffer_write [OF ok1, of "wn_n s - 1" x] n by simp_all
    have l: "wn_n s = length (vs @ [x])" using n us by simp
    have "take (wn_n s) (vs @ x # zs) = vs @ [x]" "tl (vs @ x # zs) = tl (vs @ [x]) @ zs"
      unfolding l by (cases vs; simp)+
    then have "windows (wn_n s) (vs @ x # zs) = (vs @ [x]) # windows (wn_n s) (tl (vs @ [x]) @ zs)"
      using windows_unroll [of "wn_n s" "vs @ x # zs"] l by simp
    with assms(7) us Cons have ys: "ys = ?sh (vs @ [x]) # map ?sh (windows (wn_n s) (tl (vs @ [x]) @ zs))" by simp
    have "window_holds live (map ?sh (windows (wn_n s) (tl (vs @ [x]) @ zs))) ?s B'"
      unfolding window_holds_def using ok p(3) Cons b1(2,4) assms(5)
      by (intro conjI exI [of _ zs]) (auto intro!: exI [of _ "vs @ [x]"])
    moreover have "?sh (vs @ [x]) = \<lparr>sl_ptr = Some ?b, sl_len = wn_n s, sl_elem_size = wn_elem_size s\<rparr>"
      using b1(2,4) n us by (cases b1) (simp add: shown_def)
    ultimately show ?thesis using Cons p wr b1(1,2) assms(3,5) n ys
      by (intro exI [of _ ?s] exI [of _ w'] exI [of _ B'])
        (simp add: window_next_def block_own_def)
  qed
qed

lemma window_drop_eq:
  "window_drop al = adaptor_drop (\<lambda>s. iter_destroy (wn_source s))
     (\<lambda>s w. do {
        w \<leftarrow> (if wn_buf s = None then Some w else block_free al (wn_buf s) (wmul (wn_n s) (wn_elem_size s)) w);
        mem_free al (Some (wn_self s)) sizeof_window_state_t w
      })"
  by (rule ext)+ (simp add: window_drop_def adaptor_drop_def)

context heap_allocator begin

lemma window_adaptor:
  "adaptor live window_next (\<lambda>s. iter_destroy (wn_source s))
     (\<lambda>s w. do {
        w \<leftarrow> (if wn_buf s = None then Some w else block_free (Some t) (wn_buf s) (wmul (wn_n s) (wn_elem_size s)) w);
        mem_free (Some t) (Some (wn_self s)) sizeof_window_state_t w
      })
     window_own (window_holds live) (window_closable live)"
proof (unfold_locales, goal_cases)
  case (1 s B w R)
  then show ?case by (auto simp: window_closable_def elim: iter_destroy_closes)
next
  case (2 s B w R)
  then have "buffer_ok (wn_self s) (wn_n s) (wn_buf s)" by (simp add: window_closable_def)
  from release_block [OF 2(2) this] obtain w1 w2 where
    "(if wn_buf s = None then Some w else block_free (Some t) (wn_buf s) (wmul (wn_n s) (wn_elem_size s)) w) = Some w1"
    "mem_free (Some t) (Some (wn_self s)) sizeof_window_state_t w1 = Some w2" "live w2 = R" .
  then show ?case by (simp del: mem_free.simps)
next
  case (3 ys s B)
  then show ?case by (auto simp: window_holds_def window_closable_def iter_rep_closes)
next
  case (4 ys s B w R)
  then obtain xs where ok: "buffer_ok (wn_self s) (wn_n s) (wn_buf s)" and xs: "iter_rep live xs (wn_source s) B"
    by (auto simp: window_holds_def)
  show ?case
  proof (cases "wn_buf s")
    case None
    with ok 4 show ?thesis
      by (intro exI [of _ s] exI [of _ w] exI [of _ B])
        (auto simp: window_holds_def window_next_def window_closable_def buffer_ok_def iter_rep_closes split: if_splits)
  next
    case (Some b)
    with 4 window_unprimed [of live _ s B w R b ys] window_primed [of live _ s B w R b _ ys] show ?thesis
      by (cases "wn_primed s") (auto simp: window_holds_def)
  qed
qed

lemma iter_window_built:
  fixes xs :: "'a list"
  assumes "iter_built live (Some t) R es xs (Some (src, w))" and "0 < es" and "n * es \<le> PTRDIFF_MAX"
  shows "\<exists>ys. list_all2 slice_is ys (windows n xs) \<and> iter_built live (Some t) R sizeof_slice_t ys (iter_window src n w)"
proof -
  have m: "wmul n es = n * es" by (rule wmul_exact) (use assms(3) in \<open>simp add: PTRDIFF_MAX_def\<close>)
  let ?ys = "\<lambda>buf :: 'a block option. case buf of None \<Rightarrow> [] | Some b \<Rightarrow> map (shown (blk_addr b) es) (windows n xs)"
  have "\<exists>buf. (n \<noteq> 0 \<longrightarrow> buf \<noteq> None) \<and> iter_built live (Some t) R sizeof_slice_t (?ys buf) (iter_window src n w)"
    unfolding iter_window_def
  proof (rule adapt_block_built [OF assms sizeof_window_state_t_small(1), where ys = ?ys], goal_cases)
    case (1 a buf B)
    let ?s = "\<lparr>wn_self = a, wn_source = src, wn_buf = buf, wn_n = n, wn_elem_size = es, wn_primed = False\<rparr>"
    have "window_holds live (?ys buf) ?s B" using 1(1,3) by (cases buf) (auto simp: window_holds_def)
    then have "iter_rep live (?ys buf) (iter_make window_next (window_drop (Some t)) ?s sizeof_slice_t (Some t))
        (B ++ block_own a sizeof_window_state_t buf (n * es))"
      unfolding window_drop_eq by (rule adaptor.rep [OF window_adaptor]) (use 1(2) m in simp)
    with 1(4,5) show ?case by simp
  qed
  then obtain buf where b: "n \<noteq> 0 \<longrightarrow> buf \<noteq> None"
    "iter_built live (Some t) R sizeof_slice_t (?ys buf) (iter_window src n w)" by blast
  have "list_all2 slice_is (?ys buf) (windows n xs)"
  proof (cases "n = 0")
    case False
    with b(1) obtain c where c: "buf = Some c" by auto
    have "v \<noteq> []" if "v \<in> set (windows n xs)" for v
      using that False windows_nth [of _ n xs] windows_length [of n xs] by (fastforce simp: in_set_conv_nth)
    then show ?thesis unfolding c by (auto simp: list_all2_map1 intro!: list.rel_refl_strong slice_is_shown)
  qed (cases buf; simp)
  with b(2) show ?thesis by blast
qed

end

interpretation sys_window: adaptor hp_live window_next "\<lambda>s. iter_destroy (wn_source s)"
  "\<lambda>s w. do {
     w \<leftarrow> (if wn_buf s = None then Some w
       else block_free (Some sys_allocator) (wn_buf s) (wmul (wn_n s) (wn_elem_size s)) w);
     mem_free (Some sys_allocator) (Some (wn_self s)) sizeof_window_state_t w
   }"
  window_own "window_holds hp_live" "window_closable hp_live"
  by (rule sys.window_adaptor)

subsection \<open>\<open>iter_chunks\<close>\<close>

record ('a, 's, 'w) chunk_state_t =
  ck_self :: addr
  ck_source :: "('a, 's, 'w) iter_t"
  ck_buf :: "'a block option"
  ck_n :: size_t
  ck_elem_size :: size_t
  ck_done :: bool

definition sizeof_chunk_state_t :: size_t where
  "sizeof_chunk_state_t = 104"

lemma sizeof_chunk_state_t_small [simp]: "sizeof_chunk_state_t \<le> 256"
  by (simp add: sizeof_chunk_state_t_def)

text \<open>The loop that fills a chunk; it returns the number of elements that arrived.\<close>

fun chunk_fill ::
  "nat \<Rightarrow> nat \<Rightarrow> 'a block option \<Rightarrow> ('a, 's, 'w) iter_t \<Rightarrow> 'w \<Rightarrow>
   (nat \<times> 'a block option \<times> ('a, 's, 'w) iter_t \<times> 'w) option" where
  "chunk_fill 0 cnt buf src w = Some (cnt, buf, src, w)"
| "chunk_fill (Suc k) cnt buf src w = do {
     (r, src, w) \<leftarrow> iter_next src w;
     case r of
       None \<Rightarrow> Some (cnt, buf, src, w)
     | Some x \<Rightarrow> do { buf \<leftarrow> block_write buf cnt x; chunk_fill k (Suc cnt) buf src w }
   }"

definition chunk_next ::
  "('a, 's, 'w) chunk_state_t \<Rightarrow> 'w \<Rightarrow> ('a slice_t option \<times> ('a, 's, 'w) chunk_state_t \<times> 'w) option" where
  "chunk_next s w =
     (if ck_done s then Some (None, s, w)
      else do {
        (cnt, buf, src, w) \<leftarrow> chunk_fill (ck_n s) 0 (ck_buf s) (ck_source s) w;
        if cnt = 0 then Some (None, s\<lparr>ck_buf := buf, ck_source := src\<rparr>, w)
        else Some (Some \<lparr>sl_ptr = buf, sl_len = cnt, sl_elem_size = ck_elem_size s\<rparr>,
          s\<lparr>ck_buf := buf, ck_source := src, ck_done := cnt < ck_n s\<rparr>, w)
      })"

definition chunk_drop :: "'w allocator_t \<Rightarrow> ('a, 's, 'w) chunk_state_t \<Rightarrow> 'w \<Rightarrow> 'w option" where
  "chunk_drop al s w = do {
     w \<leftarrow> iter_destroy (ck_source s) w;
     w \<leftarrow> (if ck_buf s = None then Some w else block_free al (ck_buf s) (wmul (ck_n s) (ck_elem_size s)) w);
     mem_free al (Some (ck_self s)) sizeof_chunk_state_t w
   }"

definition iter_chunks ::
  "('a, 's, 'w) iter_t \<Rightarrow> size_t \<Rightarrow> 'w \<Rightarrow> (('a slice_t, ('a, 's, 'w) chunk_state_t, 'w) iter_t \<times> 'w) option" where
  "iter_chunks source n w = adapt_block source sizeof_chunk_state_t n
     (\<lambda>a buf. iter_make chunk_next (chunk_drop (it_allocator source))
        \<lparr>ck_self = a, ck_source = source, ck_buf = buf, ck_n = n, ck_elem_size = it_elem_size source, ck_done = False\<rparr>
        sizeof_slice_t (it_allocator source)) w"

text \<open>A list in pieces of \<open>n\<close>; the last one may be shorter.\<close>

function chunks :: "nat \<Rightarrow> 'a list \<Rightarrow> 'a list list" where
  "chunks n xs = (if n = 0 \<or> xs = [] then [] else take n xs # chunks n (drop n xs))"
  by pat_completeness auto
termination
  by (relation "measure (\<lambda>(n, xs). length xs)") auto

declare chunks.simps [simp del]

lemma chunks_zero [simp]: "chunks 0 xs = []" "chunks n [] = []"
  by (subst chunks.simps; simp)+

lemma concat_chunks: "0 < n \<Longrightarrow> concat (chunks n xs) = xs"
proof (induction n xs rule: chunks.induct)
  case (1 n xs)
  then show ?case by (subst chunks.simps) simp
qed

lemma chunks_size: "v \<in> set (chunks n xs) \<Longrightarrow> v \<noteq> [] \<and> length v \<le> n"
proof (induction n xs rule: chunks.induct)
  case (1 n xs)
  then show ?case by (subst (asm) (2) chunks.simps) (auto split: if_splits)
qed

text \<open>What the slices show: the buffer keeps its old cells behind a short chunk.\<close>

function chunk_views :: "addr \<Rightarrow> size_t \<Rightarrow> nat \<Rightarrow> 'a option list \<Rightarrow> 'a list \<Rightarrow> 'a slice_t list" where
  "chunk_views b es n old xs =
     (if n = 0 \<or> xs = [] then []
      else let new = map Some (take n xs) @ drop (length xs) old in
        \<lparr>sl_ptr = Some \<lparr>blk_addr = b, cells = new\<rparr>, sl_len = min n (length xs), sl_elem_size = es\<rparr>
        # chunk_views b es n new (drop n xs))"
  by pat_completeness auto
termination
  by (relation "measure (\<lambda>(b, es, n, old, xs). length xs)") auto

declare chunk_views.simps [simp del]

lemma chunk_views_show:
  "length old = n \<Longrightarrow> list_all2 slice_is (chunk_views b es n old xs) (chunks n xs)"
proof (induction b es n old xs rule: chunk_views.induct)
  case (1 b es n old xs)
  show ?case
  proof (cases "n = 0 \<or> xs = []")
    case True
    then show ?thesis by (subst chunk_views.simps, subst chunks.simps) simp
  next
    case False
    let ?new = "map Some (take n xs) @ drop (length xs) old"
    have "length ?new = n" using "1.prems" by simp
    with 1(1) [OF False refl] have "list_all2 slice_is (chunk_views b es n ?new (drop n xs)) (chunks n (drop n xs))"
      by simp
    moreover have "slice_is \<lparr>sl_ptr = Some \<lparr>blk_addr = b, cells = ?new\<rparr>, sl_len = min n (length xs), sl_elem_size = es\<rparr> (take n xs)"
      using False "1.prems" by (auto simp: slice_is_def buf_is_def intro!: exI [of _ n])
    ultimately show ?thesis using False
      by (subst chunk_views.simps, subst chunks.simps) (simp add: Let_def)
  qed
qed

definition chunk_holds ::
  "('w \<Rightarrow> addr \<rightharpoonup> size_t) \<Rightarrow> 'a slice_t list \<Rightarrow> ('a, 's, 'w) chunk_state_t \<Rightarrow> (addr \<rightharpoonup> size_t) \<Rightarrow> bool" where
  "chunk_holds live ys s B \<longleftrightarrow> buffer_ok (ck_self s) (ck_n s) (ck_buf s) \<and>
     (if ck_done s then ys = [] \<and> iter_closes live (ck_source s) B
      else \<exists>xs. iter_rep live xs (ck_source s) B \<and>
        (case ck_buf s of
           None \<Rightarrow> ys = []
         | Some b \<Rightarrow> ys = chunk_views (blk_addr b) (ck_elem_size s) (ck_n s) (cells b) xs))"

definition chunk_closable ::
  "('w \<Rightarrow> addr \<rightharpoonup> size_t) \<Rightarrow> ('a, 's, 'w) chunk_state_t \<Rightarrow> (addr \<rightharpoonup> size_t) \<Rightarrow> bool" where
  "chunk_closable live s B \<longleftrightarrow> buffer_ok (ck_self s) (ck_n s) (ck_buf s) \<and> iter_closes live (ck_source s) B"

abbreviation chunk_own :: "('a, 's, 'w) chunk_state_t \<Rightarrow> addr \<rightharpoonup> size_t" where
  "chunk_own s \<equiv> block_own (ck_self s) sizeof_chunk_state_t (ck_buf s) (wmul (ck_n s) (ck_elem_size s))"

lemma chunk_fill_at:
  assumes "iter_rep live xs src B" and "owns (live w) R B"
    and "cells b = map Some zs @ cs" and "length zs = i" and "length cs = k"
  shows "\<exists>src' w' B' b'. chunk_fill k i (Some b) src w = Some (i + min k (length xs), Some b', src', w') \<and>
    owns (live w') R B' \<and> blk_addr b' = blk_addr b \<and>
    cells b' = map Some (zs @ take k xs) @ drop (length xs) cs \<and> iter_closes live src' B' \<and>
    (k \<le> length xs \<longrightarrow> iter_rep live (drop k xs) src' B')"
  using assms
proof (induction k arbitrary: xs src B w b zs cs i)
  case 0
  then show ?case
    by (intro exI [of _ src] exI [of _ w] exI [of _ B] exI [of _ b]) (simp add: iter_rep_closes)
next
  case (Suc k)
  obtain it' w1 B1 where n: "iter_next src w = Some (hd_opt xs, it', w1)" "owns (live w1) R B1"
      "iter_after live xs it' B1" by (rule iter_rep_pull [OF Suc.prems(1,2)])
  show ?case
  proof (cases xs)
    case Nil
    with n Suc.prems(3) show ?thesis
      by (intro exI [of _ it'] exI [of _ w1] exI [of _ B1] exI [of _ b]) simp
  next
    case (Cons x ys)
    obtain c cs' where cs: "cs = c # cs'" using Suc.prems(5) by (cases cs) auto
    let ?b = "b\<lparr>cells := (cells b)[i := Some x]\<rparr>"
    have w: "block_write (Some b) i x = Some (Some ?b)" using Suc.prems(3,4) cs by (simp add: block_write_def)
    have c: "cells ?b = map Some (zs @ [x]) @ cs'" using Suc.prems(3,4) cs by (simp add: list_update_append)
    have "\<exists>src' w' B' b'. chunk_fill k (Suc i) (Some ?b) it' w1 = Some (Suc i + min k (length ys), Some b', src', w') \<and>
      owns (live w') R B' \<and> blk_addr b' = blk_addr ?b \<and>
      cells b' = map Some ((zs @ [x]) @ take k ys) @ drop (length ys) cs' \<and> iter_closes live src' B' \<and>
      (k \<le> length ys \<longrightarrow> iter_rep live (drop k ys) src' B')"
      by (rule Suc.IH [OF _ n(2) c]) (use n(3) Cons cs Suc.prems(4,5) in simp_all)
    with n(1) w Cons cs show ?thesis by simp
  qed
qed

lemma chunk_step:
  assumes "iter_rep live xs (ck_source s) B" and "owns (live w) R B" and "ck_buf s = Some b"
    and "buffer_ok (ck_self s) (ck_n s) (Some b)" and "\<not> ck_done s"
    and "ys = chunk_views (blk_addr b) (ck_elem_size s) (ck_n s) (cells b) xs"
  shows "\<exists>s' w' B'. chunk_next s w = Some (hd_opt ys, s', w') \<and> owns (live w') R B' \<and> chunk_own s' = chunk_own s \<and>
    (case ys of [] \<Rightarrow> chunk_closable live s' B' | _ # zs \<Rightarrow> chunk_holds live zs s' B')"
proof -
  have n: "0 < ck_n s" "length (cells b) = ck_n s" using assms(4) by (auto simp: buffer_ok_def split: if_splits)
  obtain src' w' B' b' where f: "chunk_fill (ck_n s) 0 (Some b) (ck_source s) w
        = Some (min (ck_n s) (length xs), Some b', src', w')"
      "owns (live w') R B'" "blk_addr b' = blk_addr b"
      "cells b' = map Some (take (ck_n s) xs) @ drop (length xs) (cells b)" "iter_closes live src' B'"
      "ck_n s \<le> length xs \<longrightarrow> iter_rep live (drop (ck_n s) xs) src' B'"
    using chunk_fill_at [OF assms(1,2), of b "[]" "cells b" 0 "ck_n s"] n by auto
  have ok: "buffer_ok (ck_self s) (ck_n s) (Some b')" using assms(4) f(3,4) n by (auto simp: buffer_ok_def split: if_splits)
  show ?thesis
  proof (cases "xs = []")
    case True
    then have "ys = []" using assms(6) by (simp add: chunk_views.simps)
    with True f(1,2,3,5) ok assms(3,5) show ?thesis
      by (intro exI [of _ "s\<lparr>ck_buf := Some b', ck_source := src'\<rparr>"] exI [of _ w'] exI [of _ B'])
        (simp add: chunk_next_def chunk_closable_def block_own_def)
  next
    case False
    let ?s = "s\<lparr>ck_buf := Some b', ck_source := src', ck_done := min (ck_n s) (length xs) < ck_n s\<rparr>"
    let ?zs = "chunk_views (blk_addr b) (ck_elem_size s) (ck_n s) (cells b') (drop (ck_n s) xs)"
    have b': "Some b' = Some \<lparr>blk_addr = blk_addr b, cells = map Some (take (ck_n s) xs) @ drop (length xs) (cells b)\<rparr>"
      using f(3,4) by (cases b') simp
    have ys: "ys = \<lparr>sl_ptr = Some b', sl_len = min (ck_n s) (length xs), sl_elem_size = ck_elem_size s\<rparr> # ?zs"
      using assms(6) False n f(4) b' by (subst (asm) chunk_views.simps) (simp add: Let_def)
    have "chunk_holds live ?zs ?s B'"
    proof (cases "ck_n s \<le> length xs")
      case True
      with f(3,6) ok show ?thesis by (auto simp: chunk_holds_def min_def)
    next
      case short: False
      with f(5) ok show ?thesis by (simp add: chunk_holds_def min_def chunk_views.simps)
    qed
    with False f(1,2,3) assms(3,5) n ys show ?thesis
      by (intro exI [of _ ?s] exI [of _ w'] exI [of _ B']) (simp add: chunk_next_def block_own_def)
  qed
qed

lemma chunk_drop_eq:
  "chunk_drop al = adaptor_drop (\<lambda>s. iter_destroy (ck_source s))
     (\<lambda>s w. do {
        w \<leftarrow> (if ck_buf s = None then Some w else block_free al (ck_buf s) (wmul (ck_n s) (ck_elem_size s)) w);
        mem_free al (Some (ck_self s)) sizeof_chunk_state_t w
      })"
  by (rule ext)+ (simp add: chunk_drop_def adaptor_drop_def)

context heap_allocator begin

lemma chunk_adaptor:
  "adaptor live chunk_next (\<lambda>s. iter_destroy (ck_source s))
     (\<lambda>s w. do {
        w \<leftarrow> (if ck_buf s = None then Some w else block_free (Some t) (ck_buf s) (wmul (ck_n s) (ck_elem_size s)) w);
        mem_free (Some t) (Some (ck_self s)) sizeof_chunk_state_t w
      })
     chunk_own (chunk_holds live) (chunk_closable live)"
proof (unfold_locales, goal_cases)
  case (1 s B w R)
  then show ?case by (auto simp: chunk_closable_def elim: iter_destroy_closes)
next
  case (2 s B w R)
  then have "buffer_ok (ck_self s) (ck_n s) (ck_buf s)" by (simp add: chunk_closable_def)
  from release_block [OF 2(2) this] obtain w1 w2 where
    "(if ck_buf s = None then Some w else block_free (Some t) (ck_buf s) (wmul (ck_n s) (ck_elem_size s)) w) = Some w1"
    "mem_free (Some t) (Some (ck_self s)) sizeof_chunk_state_t w1 = Some w2" "live w2 = R" .
  then show ?case by (simp del: mem_free.simps)
next
  case (3 ys s B)
  then show ?case by (auto simp: chunk_holds_def chunk_closable_def iter_rep_closes split: if_splits)
next
  case (4 ys s B w R)
  show ?case
  proof (cases "ck_done s \<or> ck_buf s = None")
    case True
    have cl: "chunk_closable live s B"
      using 4(1) by (auto simp: chunk_holds_def chunk_closable_def iter_rep_closes split: if_splits)
    have "chunk_next s w = Some (None, s, w)" "ys = []"
      using True 4(1) by (auto simp: chunk_holds_def chunk_next_def buffer_ok_def split: if_splits)
    with cl 4(2) show ?thesis by (intro exI [of _ s] exI [of _ w] exI [of _ B]) simp
  next
    case False
    then obtain b where b: "ck_buf s = Some b" by auto
    with 4 False chunk_step [of live _ s B w R b ys] show ?thesis by (auto simp: chunk_holds_def)
  qed
qed

lemma iter_chunks_built:
  fixes xs :: "'a list"
  assumes "iter_built live (Some t) R es xs (Some (src, w))" and "0 < es" and "n * es \<le> PTRDIFF_MAX"
  shows "\<exists>ys. list_all2 slice_is ys (chunks n xs) \<and> iter_built live (Some t) R sizeof_slice_t ys (iter_chunks src n w)"
proof -
  have m: "wmul n es = n * es" by (rule wmul_exact) (use assms(3) in \<open>simp add: PTRDIFF_MAX_def\<close>)
  let ?ys = "\<lambda>buf :: 'a block option. case buf of None \<Rightarrow> []
    | Some b \<Rightarrow> if length (cells b) = n then chunk_views (blk_addr b) es n (cells b) xs
        else chunk_views 0 es n (replicate n None) xs"
  have "\<exists>buf. (n \<noteq> 0 \<longrightarrow> buf \<noteq> None) \<and> iter_built live (Some t) R sizeof_slice_t (?ys buf) (iter_chunks src n w)"
    unfolding iter_chunks_def
  proof (rule adapt_block_built [OF assms sizeof_chunk_state_t_small, where ys = ?ys], goal_cases)
    case (1 a buf B)
    let ?s = "\<lparr>ck_self = a, ck_source = src, ck_buf = buf, ck_n = n, ck_elem_size = es, ck_done = False\<rparr>"
    have "chunk_holds live (?ys buf) ?s B" using 1(1,3)
      by (cases buf) (auto simp: chunk_holds_def buffer_ok_def split: if_splits)
    then have "iter_rep live (?ys buf) (iter_make chunk_next (chunk_drop (Some t)) ?s sizeof_slice_t (Some t))
        (B ++ block_own a sizeof_chunk_state_t buf (n * es))"
      unfolding chunk_drop_eq by (rule adaptor.rep [OF chunk_adaptor]) (use 1(2) m in simp)
    with 1(4,5) show ?case by simp
  qed
  then obtain buf where b: "n \<noteq> 0 \<longrightarrow> buf \<noteq> None"
    "iter_built live (Some t) R sizeof_slice_t (?ys buf) (iter_chunks src n w)" by blast
  have "list_all2 slice_is (?ys buf) (chunks n xs)"
    using b(1) by (cases buf) (auto intro: chunk_views_show)
  with b(2) show ?thesis by blast
qed

end

interpretation sys_chunk: adaptor hp_live chunk_next "\<lambda>s. iter_destroy (ck_source s)"
  "\<lambda>s w. do {
     w \<leftarrow> (if ck_buf s = None then Some w
       else block_free (Some sys_allocator) (ck_buf s) (wmul (ck_n s) (ck_elem_size s)) w);
     mem_free (Some sys_allocator) (Some (ck_self s)) sizeof_chunk_state_t w
   }"
  chunk_own "chunk_holds hp_live" "chunk_closable hp_live"
  by (rule sys.chunk_adaptor)

subsection \<open>Byte counts that wrap around\<close>

text \<open>
  The granted buffer has \<open>(n * es) mod 2 ^ 64\<close> bytes. When the product wraps around it holds
  fewer than \<open>n\<close> elements. Filling it works up to its end; the write of the next element is
  outside of it.
\<close>

lemma wmul_short:
  assumes "2 ^ 64 \<le> n * es" and "0 < es"
  shows "wmul n es div es < n"
proof -
  have "wmul n es < 2 ^ 64" by (simp add: wmul_def size_mod_def)
  then have "wmul n es < n * es" using assms(1) by linarith
  then show ?thesis by (rule less_mult_imp_div_less)
qed

text \<open>
  The buffer that \<open>r\<close> has filled with the first \<open>m\<close> elements of \<open>xs\<close> is full: the source yields one
  more, and it cannot be written to index \<open>m\<close>.
\<close>

definition full_before ::
  "nat \<Rightarrow> 'a list \<Rightarrow> ('a block option \<times> ('a, 's, 'w) iter_t \<times> 'w) option \<Rightarrow> bool" where
  "full_before m xs r \<longleftrightarrow> (\<exists>b src w src' w'. r = Some (Some b, src, w) \<and> cells b = map Some (take m xs) \<and>
     iter_next src w = Some (Some (xs ! m), src', w') \<and> block_write (Some b) m (xs ! m) = None)"

lemma full_beforeI:
  assumes "iter_rep live (drop m xs) src B" and "owns (live w) R B" and "m < length xs"
    and "cells b = map Some (take m xs)"
  shows "full_before m xs (Some (Some b, src, w))"
proof -
  obtain src' w' where "iter_next src w = Some (hd_opt (drop m xs), src', w')"
    by (rule iter_rep_pull [OF assms(1,2)])
  moreover have "drop m xs = xs ! m # drop (Suc m) xs" by (rule Cons_nth_drop_Suc [symmetric]) (rule assms(3))
  moreover have "block_write (Some b) m (xs ! m) = None" using assms(3,4) by (simp add: block_write_def)
  ultimately show ?thesis using assms(4) unfolding full_before_def by fastforce
qed

lemma window_fill_more:
  "window_fill k i buf src w = Some (True, buf', src', w') \<Longrightarrow>
   window_fill (k + j) i buf src w = window_fill j (i + k) buf' src' w'"
  by (induction k arbitrary: i buf src w) (auto simp: bind_eq_Some_conv split: option.splits)

lemma chunk_fill_more:
  "chunk_fill k i buf src w = Some (i + k, buf', src', w') \<Longrightarrow>
   chunk_fill (k + j) i buf src w = chunk_fill j (i + k) buf' src' w'"
proof (induction k arbitrary: i buf src w)
  case (Suc k)
  from Suc.prems obtain x it w1 buf1 where "iter_next src w = Some (Some x, it, w1)" "block_write buf i x = Some buf1"
    "chunk_fill k (Suc i) buf1 it w1 = Some (Suc i + k, buf', src', w')"
    by (auto simp: bind_eq_Some_conv split: option.splits)
  with Suc.IH [of "Suc i" buf1 it w1] show ?case by simp
qed simp

lemma full_before_undefined:
  assumes "full_before m xs (Some (buf, src, w))"
  shows "window_fill (Suc j) m buf src w = None" and "chunk_fill (Suc j) m buf src w = None"
  using assms by (auto simp: full_before_def)

context heap_allocator begin

text \<open>The constructors with a byte count that may have wrapped around.\<close>

lemma adapt_block_any:
  assumes "iter_built live (Some t) R es xs (Some (src, w))" and "iter_is_valid src" and "n \<noteq> 0"
  obtains (failed) w' where "adapt_block src sz n mk w = Some (iter_zero, w')" and "live w' = R"
      and "refuses t (sz + wmul n es)"
  | (built) a b w' B R' where "adapt_block src sz n mk w = Some (mk a (Some b), w')"
      and "cells b = replicate (wmul n es div es) None" and "iter_rep live xs src B" and "owns (live w') R' B"
      and "it_allocator src = Some t" and "it_elem_size src = es"
proof -
  let ?m = "wmul n es"
  from assms(1,2) obtain B where src: "it_elem_size src = es" "it_allocator src = Some t" "owns (live w) R B" "iter_rep live xs src B"
    by (cases rule: iter_built_cases) auto
  note cl = iter_rep_closes [OF src(4)]
  from src(3) show ?thesis
  proof (cases rule: state_alloc [where n = sz])
    case a: (granted a w1)
    from a(2) show ?thesis
    proof (cases rule: state_alloc [where n = ?m])
      case b: (granted p w2)
      have "joined (B(a \<mapsto> sz, p \<mapsto> ?m)) B [a \<mapsto> sz, p \<mapsto> ?m]" using a(3) b(3) by (auto simp: joined_def)
      then have "owns (live w2) (R ++ [a \<mapsto> sz, p \<mapsto> ?m]) B" using b(2) by (rule joined_open)
      then show ?thesis using src a(1) b(1) assms(2,3)
        by (intro built [of a "\<lparr>blk_addr = p, cells = replicate (?m div es) None\<rparr>" w2 B])
          (simp_all add: adapt_block_def block_alloc_def del: mem_alloc.simps)
    next
      case b: (refused w2)
      obtain w3 where w3: "mem_free (Some t) (Some a) sz w2 = Some w3" "owns (live w3) R ((B(a \<mapsto> sz))(a := None))"
        by (rule owns_mem_free [OF b(2), of a sz]) simp_all
      moreover have "(B(a \<mapsto> sz))(a := None) = B" using a(3) by (auto simp: fun_eq_iff fun_upd_apply)
      ultimately obtain w4 where "iter_destroy src w3 = Some w4" "live w4 = R" using iter_destroy_closes [OF cl, of w3 R] by auto
      with w3(1) show ?thesis using src(1,2) a(1) b(1,3) assms(2,3)
        by (intro failed [of w4]) (simp_all add: adapt_block_def block_alloc_def refuses_mono del: mem_alloc.simps mem_free.simps)
    qed
  next
    case a: (refused w1)
    from a(2) show ?thesis
    proof (cases rule: state_alloc [where n = ?m])
      case b: (granted p w2)
      obtain w3 where w3: "mem_free (Some t) (Some p) ?m w2 = Some w3" "owns (live w3) R ((B(p \<mapsto> ?m))(p := None))"
        by (rule owns_mem_free [OF b(2), of p ?m]) simp_all
      moreover have "(B(p \<mapsto> ?m))(p := None) = B" using b(3) by (auto simp: fun_eq_iff fun_upd_apply)
      ultimately obtain w4 where "iter_destroy src w3 = Some w4" "live w4 = R" using iter_destroy_closes [OF cl, of w3 R] by auto
      with w3(1) show ?thesis using src(1,2) a(1,3) b(1) assms(2,3)
        by (intro failed [of w4]) (simp_all add: adapt_block_def block_alloc_def block_free_def refuses_mono del: mem_alloc.simps mem_free.simps)
    next
      case b: (refused w2)
      obtain w4 where "iter_destroy src w2 = Some w4" "live w4 = R" using iter_destroy_closes [OF cl b(2)] by auto
      then show ?thesis using src(1,2) a(1,3) b(1) assms(2,3)
        by (intro failed [of w4]) (simp_all add: adapt_block_def block_alloc_def refuses_mono del: mem_alloc.simps mem_free.simps)
    qed
  qed
qed

lemma iter_window_short:
  fixes xs :: "'a list"
  assumes "iter_built live (Some t) R es xs (Some (src, w))" and "iter_is_valid src" and "0 < es"
    and "2 ^ 64 \<le> n * es" and "wmul n es div es < length xs"
  shows "\<exists>it w'. iter_window src n w = Some (it, w') \<and>
    (\<not> iter_is_valid it \<and> live w' = R \<and> refuses t (sizeof_window_state_t + wmul n es) \<or>
     iter_is_valid it \<and> (\<exists>s. it_state it = Some s \<and>
       full_before (wmul n es div es) xs
         (do { (ok, buf, src, w) \<leftarrow> window_fill (wmul n es div es) 0 (wn_buf s) (wn_source s) w'; Some (buf, src, w) })) \<and>
     iter_next it w' = None)"
proof -
  let ?m = "wmul n es div es"
  note m = wmul_short [OF assms(4,3)]
  then have n: "n \<noteq> 0" by simp
  let ?mk = "\<lambda>a buf :: 'a block option. iter_make window_next (window_drop (it_allocator src))
    \<lparr>wn_self = a, wn_source = src, wn_buf = buf, wn_n = n, wn_elem_size = it_elem_size src, wn_primed = False\<rparr>
    sizeof_slice_t (it_allocator src)"
  from assms(1,2) n show ?thesis
  proof (cases rule: adapt_block_any [where sz = sizeof_window_state_t and mk = ?mk])
    case (failed w')
    then show ?thesis by (simp add: iter_window_def)
  next
    case (built a b w' B R')
    obtain src' w1 B' b' where f: "window_fill ?m 0 (Some b) src w' = Some (True, Some b', src', w1)" "owns (live w1) R' B'"
        "cells b' = map Some (take ?m xs)" "iter_rep live (drop ?m xs) src' B'"
      using window_fill_at [OF built(3,4), of b "[]" "cells b" 0 ?m] built(2) assms(5) by auto
    have full: "full_before ?m xs (Some (Some b', src', w1))" by (rule full_beforeI [OF f(4,2) assms(5) f(3)])
    obtain j where "n = ?m + Suc j" using m less_imp_Suc_add by force
    then have "window_fill n 0 (Some b) src w' = None"
      using window_fill_more [OF f(1), of "Suc j"] full_before_undefined(1) [OF full, of j] by simp
    then have "iter_next (?mk a (Some b)) w' = None" using n by (simp add: window_next_def)
    with built(1) f(1) full show ?thesis by (simp add: iter_window_def iter_make_def iter_is_valid_def)
  qed
qed

lemma iter_chunks_short:
  fixes xs :: "'a list"
  assumes "iter_built live (Some t) R es xs (Some (src, w))" and "iter_is_valid src" and "0 < es"
    and "2 ^ 64 \<le> n * es" and "wmul n es div es < length xs"
  shows "\<exists>it w'. iter_chunks src n w = Some (it, w') \<and>
    (\<not> iter_is_valid it \<and> live w' = R \<and> refuses t (sizeof_chunk_state_t + wmul n es) \<or>
     iter_is_valid it \<and> (\<exists>s. it_state it = Some s \<and>
       full_before (wmul n es div es) xs
         (do { (cnt, buf, src, w) \<leftarrow> chunk_fill (wmul n es div es) 0 (ck_buf s) (ck_source s) w'; Some (buf, src, w) })) \<and>
     iter_next it w' = None)"
proof -
  let ?m = "wmul n es div es"
  note m = wmul_short [OF assms(4,3)]
  then have n: "n \<noteq> 0" by simp
  let ?mk = "\<lambda>a buf :: 'a block option. iter_make chunk_next (chunk_drop (it_allocator src))
    \<lparr>ck_self = a, ck_source = src, ck_buf = buf, ck_n = n, ck_elem_size = it_elem_size src, ck_done = False\<rparr>
    sizeof_slice_t (it_allocator src)"
  from assms(1,2) n show ?thesis
  proof (cases rule: adapt_block_any [where sz = sizeof_chunk_state_t and mk = ?mk])
    case (failed w')
    then show ?thesis by (simp add: iter_chunks_def)
  next
    case (built a b w' B R')
    obtain src' w1 B' b' where f: "chunk_fill ?m 0 (Some b) src w' = Some (0 + ?m, Some b', src', w1)" "owns (live w1) R' B'"
        "cells b' = map Some (take ?m xs)" "iter_rep live (drop ?m xs) src' B'"
      using chunk_fill_at [OF built(3,4), of b "[]" "cells b" 0 ?m] built(2) assms(5) by (auto simp: min_absorb1)
    have full: "full_before ?m xs (Some (Some b', src', w1))" by (rule full_beforeI [OF f(4,2) assms(5) f(3)])
    obtain j where "n = ?m + Suc j" using m less_imp_Suc_add by force
    then have "chunk_fill n 0 (Some b) src w' = None"
      using chunk_fill_more [OF f(1), of "Suc j"] full_before_undefined(2) [OF full, of j] by simp
    then have "iter_next (?mk a (Some b)) w' = None" by (simp add: chunk_next_def)
    with built(1) f(1) full show ?thesis by (simp add: iter_chunks_def iter_make_def iter_is_valid_def)
  qed
qed

end

end
