(* ===== verification/Seqc_Terminals.thy ===== *)
theory Seqc_Terminals
  imports Seqc_Adapt Seqc_Compare
begin

section \<open>Terminals\<close>

text \<open>
  The operations of \<open>src/iter/iter.c\<close> that consume and destroy an iterator: \<open>iter_count\<close>,
  \<open>iter_foreach\<close>, \<open>iter_reduce\<close>, \<open>iter_find\<close>, \<open>iter_any\<close>, \<open>iter_all\<close>, \<open>iter_min\<close>,
  \<open>iter_max\<close>, \<open>iter_collect\<close> and \<open>iter_sort\<close>. What the iterator yields passes through a scratch
  buffer: a local array for elements of up to 512 bytes, a block otherwise. A terminal that
  cannot get its scratch buffer acts as if the iterator were empty. On every path the iterator
  is destroyed and the scratch buffer freed.
\<close>

subsection \<open>The scratch buffer\<close>

definition SEQC_SCRATCH_MAX :: size_t where
  "SEQC_SCRATCH_MAX = 512"

datatype scratch = Stack_buf | Heap_buf "addr option"

definition scratch_acquire :: "size_t \<Rightarrow> 'w allocator_t \<Rightarrow> 'w \<Rightarrow> (scratch \<times> 'w) option" where
  "scratch_acquire es al w =
     (if es \<le> SEQC_SCRATCH_MAX then Some (Stack_buf, w)
      else do { (p, w) \<leftarrow> mem_alloc al es w; Some (Heap_buf p, w) })"

fun scratch_release :: "scratch \<Rightarrow> 'w allocator_t \<Rightarrow> size_t \<Rightarrow> 'w \<Rightarrow> 'w option" where
  "scratch_release Stack_buf al n w = Some w"
| "scratch_release (Heap_buf p) al n w = mem_free al p n w"

definition scratch_null :: "scratch \<Rightarrow> bool" where
  "scratch_null p \<longleftrightarrow> p = Heap_buf None"

text \<open>
  The frame of a terminal: take a scratch buffer, run the loop \<open>body\<close>, destroy the iterator and
  release the buffer; \<open>d\<close> is what is returned without a buffer.
\<close>

definition with_scratch ::
  "('a, 's, 'w) iter_t \<Rightarrow> 'r \<Rightarrow> (('a, 's, 'w) iter_t \<Rightarrow> 'w \<Rightarrow> ('r \<times> ('a, 's, 'w) iter_t \<times> 'w) option) \<Rightarrow> 'w \<Rightarrow>
   ('r \<times> 'w) option" where
  "with_scratch it d body w = do {
     (tmp, w) \<leftarrow> scratch_acquire (it_elem_size it) (it_allocator it) w;
     if scratch_null tmp then do { w \<leftarrow> iter_destroy it w; Some (d, w) }
     else do {
       (r, it, w) \<leftarrow> body it w;
       w \<leftarrow> iter_destroy it w;
       w \<leftarrow> scratch_release tmp (it_allocator it) (it_elem_size it) w;
       Some (r, w)
     }
   }"

subsection \<open>Loops that drain, and loops that search\<close>

text \<open>\<open>while (iter_next(&it, tmp)) acc = f(acc, tmp)\<close>\<close>

partial_function (option) drain_loop ::
  "('b \<Rightarrow> 'a \<Rightarrow> 'b) \<Rightarrow> 'b \<Rightarrow> ('a, 's, 'w) iter_t \<Rightarrow> 'w \<Rightarrow> ('b \<times> ('a, 's, 'w) iter_t \<times> 'w) option" where
  "drain_loop f acc it w = do {
     (r, it, w) \<leftarrow> iter_next it w;
     case r of None \<Rightarrow> Some (acc, it, w) | Some x \<Rightarrow> drain_loop f (f acc x) it w
   }"

text \<open>\<open>while (iter_next(&it, tmp)) if (pred(tmp)) break\<close>: the element that stopped it, if any.\<close>

partial_function (option) search_loop ::
  "('a \<Rightarrow> bool) \<Rightarrow> ('a, 's, 'w) iter_t \<Rightarrow> 'w \<Rightarrow> ('a option \<times> ('a, 's, 'w) iter_t \<times> 'w) option" where
  "search_loop pred it w = do {
     (r, it, w) \<leftarrow> iter_next it w;
     case r of
       None \<Rightarrow> Some (None, it, w)
     | Some x \<Rightarrow> if pred x then Some (Some x, it, w) else search_loop pred it w
   }"

definition iter_count :: "('a, 's, 'w) iter_t \<Rightarrow> 'w \<Rightarrow> (size_t \<times> 'w) option" where
  "iter_count it = with_scratch it 0 (drain_loop (\<lambda>n _. wadd n 1) 0)"

text \<open>A visitor changes its context, an accumulator is changed by the combining function.\<close>

definition iter_foreach :: "('a, 's, 'w) iter_t \<Rightarrow> ('a \<Rightarrow> 'c \<Rightarrow> 'c) \<Rightarrow> 'c \<Rightarrow> 'w \<Rightarrow> ('c \<times> 'w) option" where
  "iter_foreach it visit ctx = with_scratch it ctx (drain_loop (\<lambda>c x. visit x c) ctx)"

definition iter_reduce :: "('a, 's, 'w) iter_t \<Rightarrow> 'c \<Rightarrow> ('c \<Rightarrow> 'a \<Rightarrow> 'c) \<Rightarrow> 'w \<Rightarrow> ('c \<times> 'w) option" where
  "iter_reduce it acc combine = with_scratch it acc (drain_loop combine acc)"

text \<open>\<open>out\<close> says whether the caller wants the element.\<close>

definition iter_find ::
  "('a, 's, 'w) iter_t \<Rightarrow> ('a \<Rightarrow> bool) \<Rightarrow> bool \<Rightarrow> 'w \<Rightarrow> ((bool \<times> 'a option) \<times> 'w) option" where
  "iter_find it pred out w = do {
     (r, w) \<leftarrow> with_scratch it None (search_loop pred) w;
     Some ((r \<noteq> None, if out then r else None), w)
   }"

definition iter_any :: "('a, 's, 'w) iter_t \<Rightarrow> ('a \<Rightarrow> bool) \<Rightarrow> 'w \<Rightarrow> (bool \<times> 'w) option" where
  "iter_any it pred w = do {
     (r, w) \<leftarrow> with_scratch it None (search_loop pred) w;
     Some (r \<noteq> None, w)
   }"

definition iter_all :: "('a, 's, 'w) iter_t \<Rightarrow> ('a \<Rightarrow> bool) \<Rightarrow> 'w \<Rightarrow> (bool \<times> 'w) option" where
  "iter_all it pred w =
     (if \<not> iter_is_valid it then Some (False, w)
      else with_scratch it False (\<lambda>it w. do {
        (r, it, w) \<leftarrow> search_loop (\<lambda>x. \<not> pred x) it w;
        Some (r = None, it, w)
      }) w)"

text \<open>
  The loop of \<open>iter_min\<close> and \<open>iter_max\<close>: \<open>better cur best\<close> is \<open>cmp(cur, best) < 0\<close> or \<open>> 0\<close>. The
  contents of \<open>best\<close> are \<open>None\<close> until the first element was copied there.
\<close>

partial_function (option) best_loop ::
  "('a \<Rightarrow> 'a \<Rightarrow> bool) \<Rightarrow> bool \<Rightarrow> 'a option \<Rightarrow> ('a, 's, 'w) iter_t \<Rightarrow> 'w \<Rightarrow>
   ((bool \<times> 'a option) \<times> ('a, 's, 'w) iter_t \<times> 'w) option" where
  "best_loop better found best it w = do {
     (r, it, w) \<leftarrow> iter_next it w;
     case r of
       None \<Rightarrow> Some ((found, best), it, w)
     | Some x \<Rightarrow> do {
         take_it \<leftarrow> (if \<not> found then Some True else do { b \<leftarrow> best; Some (better x b) });
         best_loop better True (if take_it then Some x else best) it w
       }
   }"

text \<open>Two scratch buffers; if either is missing both are released.\<close>

definition iter_best ::
  "('a \<Rightarrow> 'a \<Rightarrow> bool) \<Rightarrow> ('a, 's, 'w) iter_t \<Rightarrow> bool \<Rightarrow> 'w \<Rightarrow> ((bool \<times> 'a option) \<times> 'w) option" where
  "iter_best better it out w = do {
     (best, w) \<leftarrow> scratch_acquire (it_elem_size it) (it_allocator it) w;
     (cur, w) \<leftarrow> scratch_acquire (it_elem_size it) (it_allocator it) w;
     if scratch_null best \<or> scratch_null cur then do {
       w \<leftarrow> iter_destroy it w;
       w \<leftarrow> scratch_release best (it_allocator it) (it_elem_size it) w;
       w \<leftarrow> scratch_release cur (it_allocator it) (it_elem_size it) w;
       Some ((False, None), w)
     } else do {
       ((found, b), it, w) \<leftarrow> best_loop better False None it w;
       w \<leftarrow> iter_destroy it w;
       w \<leftarrow> scratch_release best (it_allocator it) (it_elem_size it) w;
       w \<leftarrow> scratch_release cur (it_allocator it) (it_elem_size it) w;
       Some ((found, if found \<and> out then b else None), w)
     }
   }"

definition iter_min ::
  "('a, 's, 'w) iter_t \<Rightarrow> 'a compare_fn \<Rightarrow> bool \<Rightarrow> 'w \<Rightarrow> ((bool \<times> 'a option) \<times> 'w) option" where
  "iter_min it cmp = iter_best (\<lambda>cur best. cmp cur best < 0) it"

definition iter_max ::
  "('a, 's, 'w) iter_t \<Rightarrow> 'a compare_fn \<Rightarrow> bool \<Rightarrow> 'w \<Rightarrow> ((bool \<times> 'a option) \<times> 'w) option" where
  "iter_max it cmp = iter_best (\<lambda>cur best. cmp cur best > 0) it"

subsection \<open>Collecting\<close>

text \<open>
  The loop of \<open>iter_collect\<close>. \<open>False\<close> is its early return: the buffer could not grow.
\<close>

partial_function (option) collect_loop ::
  "'w allocator_t \<Rightarrow> size_t \<Rightarrow> ('a, 's, 'w) iter_t \<Rightarrow> 'a block option \<Rightarrow> size_t \<Rightarrow> size_t \<Rightarrow> 'w \<Rightarrow>
   (bool \<times> ('a, 's, 'w) iter_t \<times> 'a block option \<times> size_t \<times> size_t \<times> 'w) option" where
  "collect_loop al es it buf len cap w = do {
     (r, it, w) \<leftarrow> iter_next it w;
     case r of
       None \<Rightarrow> Some (True, it, buf, len, cap, w)
     | Some x \<Rightarrow> do {
         (ok, buf, cap, w) \<leftarrow>
           (if len = cap then do {
              (grown, w) \<leftarrow> block_realloc al es buf (wmul cap es) (wmul (wmul cap 2) es) w;
              Some (if grown = None then (False, buf, cap, w) else (True, grown, wmul cap 2, w))
            } else Some (True, buf, cap, w));
         if \<not> ok then Some (False, it, buf, len, cap, w)
         else do {
           buf \<leftarrow> block_write buf len x;
           collect_loop al es it buf (Suc len) cap w
         }
       }
   }"

definition empty_slice :: "size_t \<Rightarrow> 'a slice_t" where
  "empty_slice es = \<lparr>sl_ptr = None, sl_len = 0, sl_elem_size = es\<rparr>"

text \<open>The end of \<open>iter_collect\<close>, when the loop is over and the iterator and the scratch are gone.\<close>

definition collect_finish ::
  "'w allocator_t \<Rightarrow> size_t \<Rightarrow> bool \<Rightarrow> 'a block option \<Rightarrow> size_t \<Rightarrow> size_t \<Rightarrow> 'w \<Rightarrow> ('a slice_t \<times> 'w) option" where
  "collect_finish al es ok buf len cap w =
     (if \<not> ok \<or> len = 0 then do {
        w \<leftarrow> block_free al buf (wmul cap es) w;
        Some (empty_slice es, w)
      } else do {
        (buf, w) \<leftarrow>
          (if len < cap then do {
             (tight, w) \<leftarrow> block_realloc al es buf (wmul cap es) (wmul len es) w;
             Some (if tight = None then (buf, w) else (tight, w))
           } else Some (buf, w));
        Some (\<lparr>sl_ptr = buf, sl_len = len, sl_elem_size = es\<rparr>, w)
      })"

definition iter_collect :: "('a, 's, 'w) iter_t \<Rightarrow> 'w allocator_t \<Rightarrow> 'w \<Rightarrow> ('a slice_t \<times> 'w) option" where
  "iter_collect it al w =
     (let es = it_elem_size it; cap = 16 in do {
       (buf, w) \<leftarrow> block_alloc al es (wmul cap es) w;
       if buf = None then do { w \<leftarrow> iter_destroy it w; Some (empty_slice es, w) }
       else do {
         (tmp, w) \<leftarrow> scratch_acquire es al w;
         if scratch_null tmp then do {
           w \<leftarrow> iter_destroy it w;
           w \<leftarrow> block_free al buf (wmul cap es) w;
           Some (empty_slice es, w)
         } else do {
           (ok, it, buf, len, cap, w) \<leftarrow> collect_loop al es it buf 0 cap w;
           w \<leftarrow> iter_destroy it w;
           w \<leftarrow> scratch_release tmp al es w;
           collect_finish al es ok buf len cap w
         }
       }
     })"

text \<open>\<open>qsort\<close> sorts the elements the slice shows.\<close>

definition iter_sort ::
  "'a qsort_fn \<Rightarrow> ('a, 's, 'w) iter_t \<Rightarrow> 'a compare_fn \<Rightarrow> 'w allocator_t \<Rightarrow> 'w \<Rightarrow> ('a slice_t \<times> 'w) option" where
  "iter_sort qsort it cmp al w = do {
     (s, w) \<leftarrow> iter_collect it al w;
     if sl_len s > 1 then do {
       b \<leftarrow> sl_ptr s;
       xs \<leftarrow> those (take (sl_len s) (cells b));
       Some (s\<lparr>sl_ptr := Some (b\<lparr>cells := overwrite (cells b) 0 (map Some (qsort cmp xs))\<rparr>)\<rparr>, w)
     } else Some (s, w)
   }"

text \<open>
  The slice shows the whole sequence and owns one block, or it is \<open>{NULL, 0}\<close> and nothing is
  left allocated: never a part of the sequence.
\<close>

definition collected ::
  "'w vtable \<Rightarrow> (addr \<rightharpoonup> size_t) \<Rightarrow> (addr \<rightharpoonup> size_t) \<Rightarrow> size_t \<Rightarrow> 'a list \<Rightarrow> 'a slice_t \<Rightarrow> bool" where
  "collected t L R es xs s \<longleftrightarrow>
     (s = empty_slice es \<and> L = R \<and> (xs = [] \<or> refuses t (growth es (length xs)))) \<or>
     (xs \<noteq> [] \<and> slice_is s xs \<and> sl_elem_size s = es \<and>
      (\<exists>n. length xs * es \<le> n \<and> owns L R (own_block Map.empty (sl_ptr s) n)))"

subsection \<open>What the loops compute\<close>

lemma drain_loop_at:
  assumes "iter_rep live xs it B" and "owns (live w) R B"
  shows "\<exists>it' w' B'. drain_loop f acc it w = Some (foldl f acc xs, it', w') \<and> owns (live w') R B' \<and>
    iter_closes live it' B' \<and> same_source it it'"
  using assms
proof (induction xs arbitrary: acc it w B)
  case Nil
  obtain it' w' B' where "iter_next it w = Some (hd_opt [], it', w')" "owns (live w') R B'"
      "iter_after live [] it' B'" "same_source it it'" by (rule iter_rep_pull [OF Nil])
  then show ?case by (auto simp: drain_loop.simps [of _ _ it])
next
  case (Cons x xs)
  obtain it' w' B' where n: "iter_next it w = Some (hd_opt (x # xs), it', w')" "owns (live w') R B'"
      "iter_after live (x # xs) it' B'" "same_source it it'" by (rule iter_rep_pull [OF Cons.prems])
  have "drain_loop f acc it w = drain_loop f (f acc x) it' w'"
    using n(1) by (simp add: drain_loop.simps [of _ _ it])
  with Cons.IH [of it' B' w' "f acc x"] n same_source_trans [OF n(4)] show ?case by fastforce
qed

lemma search_loop_at:
  assumes "iter_rep live xs it B" and "owns (live w) R B"
  shows "\<exists>it' w' B'. search_loop P it w = Some (find P xs, it', w') \<and> owns (live w') R B' \<and>
    iter_closes live it' B' \<and> same_source it it'"
  using assms
proof (induction xs arbitrary: it w B)
  case Nil
  obtain it' w' B' where "iter_next it w = Some (hd_opt [], it', w')" "owns (live w') R B'"
      "iter_after live [] it' B'" "same_source it it'" by (rule iter_rep_pull [OF Nil])
  then show ?case by (auto simp: search_loop.simps [of _ it])
next
  case (Cons x xs)
  obtain it' w' B' where n: "iter_next it w = Some (hd_opt (x # xs), it', w')" "owns (live w') R B'"
      "iter_after live (x # xs) it' B'" "same_source it it'" by (rule iter_rep_pull [OF Cons.prems])
  show ?case
  proof (cases "P x")
    case True
    with n iter_after_closes [OF n(3)] show ?thesis by (auto simp: search_loop.simps [of _ it])
  next
    case False
    then have "search_loop P it w = search_loop P it' w'"
      using n(1) by (simp add: search_loop.simps [of _ it])
    with Cons.IH [of it' B' w'] n False same_source_trans [OF n(4)] show ?thesis by fastforce
  qed
qed

text \<open>The best element so far: the first of those that no other one beats.\<close>

definition best_of :: "('a \<Rightarrow> 'a \<Rightarrow> bool) \<Rightarrow> 'a option \<Rightarrow> 'a list \<Rightarrow> 'a option" where
  "best_of better = foldl (\<lambda>b x. case b of None \<Rightarrow> Some x | Some y \<Rightarrow> Some (if better x y then x else y))"

lemma best_of_simps [simp]:
  "best_of better b [] = b"
  "best_of better None (x # xs) = best_of better (Some x) xs"
  "best_of better (Some y) (x # xs) = best_of better (Some (if better x y then x else y)) xs"
  by (simp_all add: best_of_def)

lemma best_of_found: "(best_of better b xs = None) = (b = None \<and> xs = [])"
proof (induction xs arbitrary: b)
  case (Cons x xs)
  then show ?case by (cases b) simp_all
qed simp

lemma best_loop_at:
  assumes "iter_rep live xs it B" and "owns (live w) R B"
  shows "\<exists>it' w' B'. best_loop better (b \<noteq> None) b it w = Some ((best_of better b xs \<noteq> None, best_of better b xs), it', w') \<and>
    owns (live w') R B' \<and> iter_closes live it' B' \<and> same_source it it'"
  using assms
proof (induction xs arbitrary: b it w B)
  case Nil
  obtain it' w' B' where "iter_next it w = Some (hd_opt [], it', w')" "owns (live w') R B'"
      "iter_after live [] it' B'" "same_source it it'" by (rule iter_rep_pull [OF Nil])
  then show ?case by (auto simp: best_loop.simps [of _ _ _ it])
next
  case (Cons x xs)
  obtain it' w' B' where n: "iter_next it w = Some (hd_opt (x # xs), it', w')" "owns (live w') R B'"
      "iter_after live (x # xs) it' B'" "same_source it it'" by (rule iter_rep_pull [OF Cons.prems])
  let ?b = "case b of None \<Rightarrow> x | Some y \<Rightarrow> if better x y then x else y"
  have "best_loop better (b \<noteq> None) b it w = best_loop better (Some ?b \<noteq> None) (Some ?b) it' w'"
    using n(1) by (cases b) (simp_all add: best_loop.simps [of _ _ _ it])
  moreover have "best_of better b (x # xs) = best_of better (Some ?b) xs" by (cases b) simp_all
  ultimately show ?case using Cons.IH [of it' B' w' "Some ?b"] n same_source_trans [OF n(4)] by fastforce
qed

lemma best_of_min:
  assumes "compare_order cmp" and "best_of (\<lambda>x y. cmp x y < 0) (Some b) xs = Some m"
  shows "m \<in> insert b (set xs) \<and> (\<forall>x \<in> insert b (set xs). cmp m x \<le> 0)"
  using assms(2)
proof (induction xs arbitrary: b)
  case Nil
  then show ?case using compare_order.cmp_refl [OF assms(1)] by simp
next
  case (Cons x xs)
  let ?b = "if cmp x b < 0 then x else b"
  have IH: "m \<in> insert ?b (set xs)" "\<forall>y \<in> insert ?b (set xs). cmp m y \<le> 0" using Cons by auto
  have "cmp ?b x \<le> 0" "cmp ?b b \<le> 0"
    using compare_order.cmp_refl [OF assms(1)] compare_order.cmp_not_less [OF assms(1), of x b] by auto
  with IH compare_order.cmp_trans [OF assms(1), of m ?b] show ?case by (auto split: if_splits)
qed

lemma best_of_max:
  assumes "compare_order cmp" and "best_of (\<lambda>x y. cmp x y > 0) (Some b) xs = Some m"
  shows "m \<in> insert b (set xs) \<and> (\<forall>x \<in> insert b (set xs). cmp x m \<le> 0)"
  using assms(2)
proof (induction xs arbitrary: b)
  case Nil
  then show ?case using compare_order.cmp_refl [OF assms(1)] by simp
next
  case (Cons x xs)
  let ?b = "if cmp x b > 0 then x else b"
  have IH: "m \<in> insert ?b (set xs)" "\<forall>y \<in> insert ?b (set xs). cmp y m \<le> 0" using Cons by auto
  have "cmp x ?b \<le> 0" "cmp b ?b \<le> 0"
    using compare_order.cmp_refl [OF assms(1)] compare_order.cmp_gt_iff [OF assms(1), of x b] by auto
  with IH compare_order.cmp_trans [OF assms(1), of _ ?b m] show ?case by (auto split: if_splits)
qed

text \<open>
  A body that reads an iterator of \<open>xs\<close> and returns \<open>r\<close>, in every frame.
\<close>

definition reads ::
  "('w \<Rightarrow> addr \<rightharpoonup> size_t) \<Rightarrow> (('a, 's, 'w) iter_t \<Rightarrow> 'w \<Rightarrow> ('r \<times> ('a, 's, 'w) iter_t \<times> 'w) option) \<Rightarrow>
   ('a list \<Rightarrow> 'r) \<Rightarrow> bool" where
  "reads live body r \<longleftrightarrow> (\<forall>xs it B w R. iter_rep live xs it B \<longrightarrow> owns (live w) R B \<longrightarrow>
     (\<exists>it' w' B'. body it w = Some (r xs, it', w') \<and> owns (live w') R B' \<and> iter_closes live it' B' \<and>
        same_source it it'))"

lemma reads_drain: "reads live (drain_loop f acc) (foldl f acc)"
  unfolding reads_def by (intro allI impI) (rule drain_loop_at)

lemma reads_search: "reads live (search_loop P) (find P)"
  unfolding reads_def by (intro allI impI) (rule search_loop_at)

lemma reads_best: "reads live (best_loop better False None) (\<lambda>xs. (best_of better None xs \<noteq> None, best_of better None xs))"
  unfolding reads_def
proof (intro allI impI, goal_cases)
  case (1 xs it B w R)
  from best_loop_at [OF this, of better None] show ?case by simp
qed

lemma readsE:
  assumes "reads live body r" and "iter_rep live xs it B" and "owns (live w) R B"
  obtains it' w' B' where "body it w = Some (r xs, it', w')" and "owns (live w') R B'"
    and "iter_closes live it' B'" and "same_source it it'"
  using assms unfolding reads_def by blast

text \<open>
  What a terminal owes: a value, and every block the iterator had is freed. For a valid
  iterator the value is \<open>r xs\<close>, or the value \<open>d\<close> for an empty one when no scratch buffer was
  granted, which needs elements above 512 bytes and an allocator that refuses something; for a
  failed one it is \<open>d\<close>.
\<close>

definition scratch_sure :: "('a, 's, 'w) iter_t \<Rightarrow> bool" where
  "scratch_sure it \<longleftrightarrow> it_elem_size it \<le> SEQC_SCRATCH_MAX \<or> it_elem_size it \<le> PTRDIFF_MAX \<and> \<not> starved (it_allocator it)"

lemma scratch_unsure:
  "it_elem_size it = es \<Longrightarrow> it_allocator it = al \<Longrightarrow> \<not> es \<le> SEQC_SCRATCH_MAX \<Longrightarrow> (es \<le> PTRDIFF_MAX \<Longrightarrow> starved al) \<Longrightarrow> \<not> scratch_sure it"
  by (auto simp: scratch_sure_def)

definition terminal_ok ::
  "('w \<Rightarrow> addr \<rightharpoonup> size_t) \<Rightarrow> (addr \<rightharpoonup> size_t) \<Rightarrow> ('a, 's, 'w) iter_t \<Rightarrow> 'r \<Rightarrow> 'r \<Rightarrow> ('r \<times> 'w) option \<Rightarrow> bool" where
  "terminal_ok live R it d v res \<longleftrightarrow> (\<exists>r w'. res = Some (r, w') \<and> live w' = R \<and> (r = v \<or> r = d) \<and>
     (if iter_is_valid it then scratch_sure it \<longrightarrow> r = v else r = d))"

lemma terminal_ok_map:
  assumes "terminal_ok live R it d v res"
  shows "terminal_ok live R it (g d) (g v) (do { (r, w) \<leftarrow> res; Some (g r, w) })"
proof -
  from assms obtain r w' where "res = Some (r, w')" "live w' = R" "r = v \<or> r = d"
    "if iter_is_valid it then scratch_sure it \<longrightarrow> r = v else r = d"
    by (auto simp: terminal_ok_def)
  then show ?thesis unfolding terminal_ok_def
    by (intro exI [of _ "g r"] exI [of _ w']) (auto split: if_splits)
qed

context heap_allocator begin

lemma scratch_at:
  assumes "owns (live w) R B"
  obtains (local) "scratch_acquire es (Some t) w = Some (Stack_buf, w)" and "es \<le> SEQC_SCRATCH_MAX"
  | (granted) a w' where "scratch_acquire es (Some t) w = Some (Heap_buf (Some a), w')"
      and "owns (live w') (R(a \<mapsto> es)) B" and "a \<notin> dom R" and "\<not> es \<le> SEQC_SCRATCH_MAX"
  | (refused) w' where "scratch_acquire es (Some t) w = Some (Heap_buf None, w')"
      and "owns (live w') R B" and "\<not> es \<le> SEQC_SCRATCH_MAX" and "es \<le> PTRDIFF_MAX \<Longrightarrow> starved (Some t)"
proof (cases "es \<le> SEQC_SCRATCH_MAX")
  case True
  with local show ?thesis by (simp add: scratch_acquire_def)
next
  case False
  show ?thesis
  proof (cases rule: hold_alloc [OF owns2_empty [OF assms], of es])
    case (1 a w')
    then have "owns (live w') (R(a \<mapsto> es)) B"
      using owns2_left [OF 1(2)] by simp
    with False 1 granted [of a w'] show ?thesis by (simp add: scratch_acquire_def del: mem_alloc.simps)
  next
    case (2 w')
    then have "owns (live w') R B" using owns2_left [OF 2(2)] by simp
    with False 2(1) refused [of w'] starvedI [OF 2(3)] show ?thesis by (simp add: scratch_acquire_def del: mem_alloc.simps)
  qed
qed

text \<open>The blocks that are left when an iterator was destroyed in the frame of a held block.\<close>

lemma release_held_rest:
  assumes "live w = R(a \<mapsto> n)" and "a \<notin> dom R"
  obtains w' where "mem_free (Some t) (Some a) n w = Some w'" and "live w' = R"
  using release_held [of w R a n Map.empty] assms by auto

lemma with_scratch_ok:
  assumes b: "iter_built live (Some t) R es xs (Some (it, w))" and body: "reads live body r" and d: "\<not> iter_is_valid it \<Longrightarrow> r [] = d"
  shows "terminal_ok live R it d (r xs) (with_scratch it d body w)"
  using b
proof (cases rule: iter_built_cases)
  case failed
  have o: "owns (live w) R Map.empty" using failed by simp
  have z: "iter_rep live [] it Map.empty" unfolding failed(1) by (rule iter_rep_zero)
  obtain it' w' B' where n: "body it w = Some (r [], it', w')" "owns (live w') R B'" "iter_closes live it' B'"
      "same_source it it'" by (rule readsE [OF body z o])
  obtain w2 where w2: "iter_destroy it' w' = Some w2" "live w2 = R" by (rule iter_destroy_closes [OF n(3,2)])
  have "with_scratch it d body w = Some (d, w2)"
    using n(1) w2(1) d failed by (simp add: with_scratch_def scratch_acquire_def scratch_null_def)
  with w2(2) failed show ?thesis by (simp add: terminal_ok_def)
next
  case (valid B)
  from valid(4) show ?thesis
  proof (cases rule: scratch_at [where es = es])
    case local
    obtain it' w' B' where n: "body it w = Some (r xs, it', w')" "owns (live w') R B'" "iter_closes live it' B'"
        "same_source it it'" by (rule readsE [OF body valid(5,4)])
    obtain w2 where w2: "iter_destroy it' w' = Some w2" "live w2 = R" by (rule iter_destroy_closes [OF n(3,2)])
    have "with_scratch it d body w = Some (r xs, w2)"
      using n(1) w2(1) local valid by (simp add: with_scratch_def scratch_null_def)
    with w2(2) valid show ?thesis by (simp add: terminal_ok_def)
  next
    case (granted a w1)
    obtain it' w' B' where n: "body it w1 = Some (r xs, it', w')" "owns (live w') (R(a \<mapsto> es)) B'"
        "iter_closes live it' B'" "same_source it it'" by (rule readsE [OF body valid(5) granted(2)])
    obtain w2 where w2: "iter_destroy it' w' = Some w2" "live w2 = R(a \<mapsto> es)" by (rule iter_destroy_closes [OF n(3,2)])
    obtain w3 where w3: "mem_free (Some t) (Some a) es w2 = Some w3" "live w3 = R"
      by (rule release_held_rest [OF w2(2) granted(3)])
    have "with_scratch it d body w = Some (r xs, w3)"
      using n(1,4) w2(1) w3(1) granted(1) valid
      by (simp add: with_scratch_def scratch_null_def same_source_def del: mem_free.simps)
    with w3(2) valid show ?thesis by (simp add: terminal_ok_def)
  next
    case (refused w1)
    obtain w2 where w2: "iter_destroy it w1 = Some w2" "live w2 = R"
      by (rule iter_destroy_closes [OF iter_rep_closes [OF valid(5)] refused(2)])
    have "with_scratch it d body w = Some (d, w2)"
      using w2(1) refused(1) valid by (simp add: with_scratch_def scratch_null_def)
    with w2(2) valid scratch_unsure [OF valid(2,3) refused(3,4)] show ?thesis by (simp add: terminal_ok_def)
  qed
qed

lemma iter_count_ok:
  assumes "iter_built live (Some t) R es xs (Some (it, w))"
  shows "terminal_ok live R it 0 (length xs mod 2 ^ 64) (iter_count it w)"
proof -
  have "foldl (\<lambda>n _. wadd n 1) i xs = (i + length xs) mod 2 ^ 64" if "i < 2 ^ 64" for i and xs :: "'a list"
    using that by (induction xs arbitrary: i) (simp_all add: wadd_def size_mod_def mod_simps)
  then have "foldl (\<lambda>n _. wadd n 1) 0 xs = length xs mod 2 ^ 64" for xs :: "'a list" by simp
  with with_scratch_ok [OF assms reads_drain, of "\<lambda>n _. wadd n 1" 0 0] show ?thesis
    by (simp add: iter_count_def)
qed

lemma iter_foreach_ok:
  assumes "iter_built live (Some t) R es xs (Some (it, w))"
  shows "terminal_ok live R it ctx (fold visit xs ctx) (iter_foreach it visit ctx w)"
  using with_scratch_ok [OF assms reads_drain, of "\<lambda>c x. visit x c" ctx ctx]
  by (simp add: iter_foreach_def foldl_conv_fold)

lemma iter_reduce_ok:
  assumes "iter_built live (Some t) R es xs (Some (it, w))"
  shows "terminal_ok live R it acc (foldl combine acc xs) (iter_reduce it acc combine w)"
  using with_scratch_ok [OF assms reads_drain, of combine acc acc] by (simp add: iter_reduce_def)

lemma iter_find_ok:
  assumes "iter_built live (Some t) R es xs (Some (it, w))"
  shows "terminal_ok live R it (False, None) (find P xs \<noteq> None, if out then find P xs else None) (iter_find it P out w)"
  using terminal_ok_map [OF with_scratch_ok [OF assms reads_search, of P None],
      of "\<lambda>r. (r \<noteq> None, if out then r else None)"]
  by (simp add: iter_find_def)

lemma find_not_None: "(find P xs \<noteq> None) = (\<exists>x \<in> set xs. P x)"
  by (induction xs) auto

lemma iter_any_ok:
  assumes "iter_built live (Some t) R es xs (Some (it, w))"
  shows "terminal_ok live R it False (\<exists>x \<in> set xs. P x) (iter_any it P w)"
  using terminal_ok_map [OF with_scratch_ok [OF assms reads_search, of P None], of "\<lambda>r. r \<noteq> None"]
  unfolding find_not_None iter_any_def by simp

lemma iter_all_ok:
  assumes "iter_built live (Some t) R es xs (Some (it, w))"
  shows "terminal_ok live R it False (\<forall>x \<in> set xs. P x) (iter_all it P w)"
proof (cases "iter_is_valid it")
  case False
  from assms have "live w = R" by (cases rule: iter_built_cases) (use False in simp_all)
  with False show ?thesis by (auto simp: iter_all_def terminal_ok_def)
next
  case True
  have r: "reads live (\<lambda>it w. do { (r, it, w) \<leftarrow> search_loop (\<lambda>x. \<not> P x) it w; Some (r = None, it, w) })
      (\<lambda>xs. \<forall>x \<in> set xs. P x)"
    unfolding reads_def
  proof (intro allI impI, goal_cases)
    case (1 xs it B w R)
    have "(find (\<lambda>x. \<not> P x) xs = None) = (\<forall>x \<in> set xs. P x)" by (auto simp: find_None_iff)
    with search_loop_at [OF 1, of "\<lambda>x. \<not> P x"] show ?case by fastforce
  qed
  have "terminal_ok live R it False (\<forall>x \<in> set xs. P x) (with_scratch it False (\<lambda>it w. do {
        (r, it, w) \<leftarrow> search_loop (\<lambda>x. \<not> P x) it w;
        Some (r = None, it, w)
      }) w)"
    by (rule with_scratch_ok [OF assms r]) (use True in simp)
  with True show ?thesis by (simp add: iter_all_def)
qed

text \<open>Two scratch buffers for the two elements that are compared.\<close>

lemma iter_best_ok:
  assumes b: "iter_built live (Some t) R es xs (Some (it, w))"
  shows "terminal_ok live R it (False, None)
    (xs \<noteq> [], if out then best_of better None xs else None) (iter_best better it out w)"
  using b
proof (cases rule: iter_built_cases)
  case failed
  have o: "owns (live w) R Map.empty" using failed by simp
  have z: "iter_rep live [] it Map.empty" unfolding failed(1) by (rule iter_rep_zero)
  obtain it' w' B' where n: "best_loop better False None it w = Some ((best_of better None [] \<noteq> None, best_of better None []), it', w')"
      "owns (live w') R B'" "iter_closes live it' B'" by (rule readsE [OF reads_best z o])
  obtain w2 where w2: "iter_destroy it' w' = Some w2" "live w2 = R" by (rule iter_destroy_closes [OF n(3,2)])
  have "iter_best better it out w = Some ((False, None), w2)"
    using n(1) w2(1) failed by (simp add: iter_best_def scratch_acquire_def scratch_null_def)
  with w2(2) failed show ?thesis by (simp add: terminal_ok_def)
next
  case (valid B)
  have found: "(best_of better None xs \<noteq> None) = (xs \<noteq> [])" by (simp add: best_of_found)
  let ?v = "(xs \<noteq> [], if out then best_of better None xs else None)"
  have val: "(xs \<noteq> [], if xs \<noteq> [] \<and> out then best_of better None xs else None) = ?v"
    using found by auto
  note loop = readsE [OF reads_best [where better = better] valid(5), unfolded found]
  from valid(4) show ?thesis
  proof (cases rule: scratch_at [where es = es])
    case local
    obtain it' w' B' where n: "best_loop better False None it w = Some ((xs \<noteq> [], best_of better None xs), it', w')"
        "owns (live w') R B'" "iter_closes live it' B'" by (rule loop [OF valid(4)])
    obtain w2 where w2: "iter_destroy it' w' = Some w2" "live w2 = R" by (rule iter_destroy_closes [OF n(3,2)])
    have "iter_best better it out w = Some (?v, w2)"
      using n(1) w2(1) local valid val by (simp add: iter_best_def scratch_null_def)
    with w2(2) valid show ?thesis by (simp add: terminal_ok_def)
  next
    case a: (granted a w1)
    from a(2) show ?thesis
    proof (cases rule: scratch_at [where es = es])
      case local
      with a(4) show ?thesis by simp
    next
      case c: (granted c w2)
      obtain it' w' B' where n: "best_loop better False None it w2 = Some ((xs \<noteq> [], best_of better None xs), it', w')"
          "owns (live w') (R(a \<mapsto> es, c \<mapsto> es)) B'" "iter_closes live it' B'" "same_source it it'" by (rule loop [OF c(2)])
      obtain w3 where w3: "iter_destroy it' w' = Some w3" "live w3 = R(a \<mapsto> es, c \<mapsto> es)"
        by (rule iter_destroy_closes [OF n(3,2)])
      have ne: "a \<noteq> c" "c \<notin> dom R" using c(3) by auto
      have "live w3 = (R(c \<mapsto> es))(a \<mapsto> es)" "a \<notin> dom (R(c \<mapsto> es))"
        using w3(2) a(3) ne fun_upd_twist [OF ne(1), of R "Some es" "Some es"] by auto
      then obtain w4 where w4: "mem_free (Some t) (Some a) es w3 = Some w4" "live w4 = R(c \<mapsto> es)"
        by (rule release_held_rest)
      obtain w5 where w5: "mem_free (Some t) (Some c) es w4 = Some w5" "live w5 = R"
        by (rule release_held_rest [OF w4(2) ne(2)])
      have "iter_best better it out w = Some (?v, w5)"
        using n(1,4) w3(1) w4(1) w5(1) a(1) c(1) valid val
        by (simp add: iter_best_def scratch_null_def same_source_def del: mem_free.simps)
      with w5(2) valid show ?thesis by (simp add: terminal_ok_def)
    next
      case c: (refused w2)
      obtain w3 where w3: "iter_destroy it w2 = Some w3" "live w3 = R(a \<mapsto> es)"
        by (rule iter_destroy_closes [OF iter_rep_closes [OF valid(5)] c(2)])
      obtain w4 where w4: "mem_free (Some t) (Some a) es w3 = Some w4" "live w4 = R"
        by (rule release_held_rest [OF w3(2) a(3)])
      have "iter_best better it out w = Some ((False, None), vt_free t None es w4)"
        using w3(1) w4(1) a(1) c(1) valid by (simp add: iter_best_def scratch_null_def)
      with w4(2) valid scratch_unsure [OF valid(2,3) c(3,4)] free_null show ?thesis by (simp add: terminal_ok_def)
    qed
  next
    case a: (refused w1)
    from a(2) show ?thesis
    proof (cases rule: scratch_at [where es = es])
      case local
      with a(3) show ?thesis by simp
    next
      case c: (granted c w2)
      obtain w3 where w3: "iter_destroy it w2 = Some w3" "live w3 = R(c \<mapsto> es)"
        by (rule iter_destroy_closes [OF iter_rep_closes [OF valid(5)] c(2)])
      have "live (vt_free t None es w3) = R(c \<mapsto> es)" using w3(2) free_null by simp
      then obtain w4 where w4: "mem_free (Some t) (Some c) es (vt_free t None es w3) = Some w4" "live w4 = R"
        by (rule release_held_rest) (rule c(3))
      have "iter_best better it out w = Some ((False, None), w4)"
        using w3(1) w4(1) a(1) c(1) valid by (simp add: iter_best_def scratch_null_def)
      with w4(2) valid scratch_unsure [OF valid(2,3) a(3,4)] show ?thesis by (simp add: terminal_ok_def)
    next
      case c: (refused w2)
      obtain w3 where w3: "iter_destroy it w2 = Some w3" "live w3 = R"
        by (rule iter_destroy_closes [OF iter_rep_closes [OF valid(5)] c(2)])
      have "iter_best better it out w = Some ((False, None), vt_free t None es (vt_free t None es w3))"
        using w3(1) a(1) c(1) valid by (simp add: iter_best_def scratch_null_def)
      with w3(2) valid scratch_unsure [OF valid(2,3) a(3,4)] free_null show ?thesis by (simp add: terminal_ok_def)
    qed
  qed
qed

lemma iter_min_ok:
  assumes "iter_built live (Some t) R es xs (Some (it, w))" and "compare_order cmp"
  shows "\<exists>m. terminal_ok live R it (False, None) (xs \<noteq> [], m) (iter_min it cmp True w) \<and>
    (xs \<noteq> [] \<longrightarrow> (\<exists>x \<in> set xs. m = Some x \<and> (\<forall>y \<in> set xs. cmp x y \<le> 0)))"
proof -
  have "\<exists>x \<in> set xs. best_of (\<lambda>cur best. cmp cur best < 0) None xs = Some x \<and> (\<forall>y \<in> set xs. cmp x y \<le> 0)"
    if ne: "xs \<noteq> []"
  proof -
    obtain z zs where xs: "xs = z # zs" using ne by (cases xs) auto
    obtain m where m: "best_of (\<lambda>cur best. cmp cur best < 0) (Some z) zs = Some m"
      using best_of_found [of _ "Some z" zs] by fastforce
    from best_of_min [OF assms(2) m] m xs show ?thesis by auto
  qed
  with iter_best_ok [OF assms(1), of True "\<lambda>cur best. cmp cur best < 0"] show ?thesis
    unfolding iter_min_def by (intro exI conjI impI) auto
qed

lemma iter_max_ok:
  assumes "iter_built live (Some t) R es xs (Some (it, w))" and "compare_order cmp"
  shows "\<exists>m. terminal_ok live R it (False, None) (xs \<noteq> [], m) (iter_max it cmp True w) \<and>
    (xs \<noteq> [] \<longrightarrow> (\<exists>x \<in> set xs. m = Some x \<and> (\<forall>y \<in> set xs. cmp y x \<le> 0)))"
proof -
  have "\<exists>x \<in> set xs. best_of (\<lambda>cur best. cmp cur best > 0) None xs = Some x \<and> (\<forall>y \<in> set xs. cmp y x \<le> 0)"
    if ne: "xs \<noteq> []"
  proof -
    obtain z zs where xs: "xs = z # zs" using ne by (cases xs) auto
    obtain m where m: "best_of (\<lambda>cur best. cmp cur best > 0) (Some z) zs = Some m"
      using best_of_found [of _ "Some z" zs] by fastforce
    from best_of_max [OF assms(2) m] m xs show ?thesis by auto
  qed
  with iter_best_ok [OF assms(1), of True "\<lambda>cur best. cmp cur best > 0"] show ?thesis
    unfolding iter_max_def by (intro exI conjI impI) auto
qed

subsection \<open>What \<open>iter_collect\<close> returns\<close>

lemma block_shrink_is:
  assumes own: "owns (live w) R (own_block Map.empty (Some b) (cap * es))" and b: "buf_is (Some b) cap xs"
    and es: "0 < es" and ne: "xs \<noteq> []"
  obtains (granted) c w' where "block_realloc (Some t) es (Some b) (cap * es) (length xs * es) w = Some (Some c, w')"
      and "buf_is (Some c) (length xs) xs" and "owns (live w') R (own_block Map.empty (Some c) (length xs * es))"
  | (refused) w' where "block_realloc (Some t) es (Some b) (cap * es) (length xs * es) w = Some (None, w')"
      and "owns (live w') R (own_block Map.empty (Some b) (cap * es))"
proof -
  let ?m = "cap * es" and ?n = "length xs * es"
  obtain p w' where r: "mem_realloc (Some t) (Some (blk_addr b)) ?m ?n w = Some (p, w')"
    by (cases "vt_realloc t (Some (blk_addr b)) ?m ?n w") simp
  from b obtain ys where ys: "cells b = map Some xs @ ys" "length xs + length ys = cap" by (auto elim: buf_is_SomeE)
  show ?thesis
  proof (cases p)
    case None
    with r refused [of w'] owns_mem_realloc_refused [OF own, of "Some (blk_addr b)" ?m ?n w'] show ?thesis
      by (simp add: block_realloc_def)
  next
    case (Some a)
    let ?c = "\<lparr>blk_addr = a, cells = block_resized es (Some b) ?m ?n\<rparr>"
    have eq: "block_realloc (Some t) es (Some b) ?m ?n w = Some (Some ?c, w')"
      using r Some by (simp add: block_realloc_def del: mem_realloc.simps)
    have "cells ?c = map Some xs @ []" using ys es by (simp add: block_resized_def)
    then have "buf_is (Some ?c) (length xs) xs" by (rule buf_is_SomeI) (use ne in simp_all)
    moreover have "owns (live w') R (own_block Map.empty (Some ?c) ?n)"
      using owns_mem_realloc [OF own [unfolded own_block_simps], of "blk_addr b" ?m ?m ?n a w'] r Some by simp
    ultimately show ?thesis by (rule granted [OF eq])
  qed
qed

lemma collect_loop_at:
  assumes "iter_rep live xs it B" and "owns2 (live w) R (own_block Map.empty (Some b) (cap * es)) B"
    and "buf_is (Some b) cap zs" and "elem_size_ok es" and "cap * es \<le> PTRDIFF_MAX"
  shows "\<exists>ok it' b' cap' w' B' k. collect_loop (Some t) es it (Some b) (length zs) cap w
      = Some (ok, it', Some b', length zs + k, cap', w') \<and>
    owns2 (live w') R (own_block Map.empty (Some b') (cap' * es)) B' \<and> iter_closes live it' B' \<and>
    buf_is (Some b') cap' (zs @ take k xs) \<and> cap' * es \<le> PTRDIFF_MAX \<and> k \<le> length xs \<and>
    (ok \<longrightarrow> k = length xs) \<and> (\<not> ok \<longrightarrow> refuses t (growth es (length zs + length xs)))"
  using assms
proof (induction xs arbitrary: it B w b cap zs)
  case Nil
  obtain it' w' B' where "iter_next it w = Some (None, it', w')"
      "owns (live w') (R ++ own_block Map.empty (Some b) (cap * es)) B'" "iter_closes live it' B'"
    by (rule iter_rep_NilE [OF Nil.prems(1) owns2_right [OF Nil.prems(2)]])
  with owns2_step_right [OF Nil.prems(2), of "live w'" B'] Nil.prems(3,5) show ?case
    by (intro exI [of _ True] exI [of _ it'] exI [of _ b] exI [of _ cap] exI [of _ w'] exI [of _ B'] exI [of _ 0])
      (simp add: collect_loop.simps)
next
  case (Cons x xs)
  have es: "0 < es" by (rule elem_size_ok_pos [OF Cons.prems(4)])
  have pos: "0 < cap" using Cons.prems(3) by (simp add: buf_is_def)
  note dx = double_exact [OF Cons.prems(5) es]
  have capx: "wmul cap es = cap * es" by (rule wmul_exact) (use Cons.prems(5) in \<open>simp add: PTRDIFF_MAX_def\<close>)
  obtain it1 w1 B1 where n: "iter_next it w = Some (Some x, it1, w1)"
      "owns (live w1) (R ++ own_block Map.empty (Some b) (cap * es)) B1" "iter_rep live xs it1 B1"
    by (rule iter_rep_ConsE [OF Cons.prems(1) owns2_right [OF Cons.prems(2)]])
  note o1 = owns2_step_right [OF Cons.prems(2) n(2)]
  have go: ?case
    if eq: "collect_loop (Some t) es it (Some b) (length zs) cap w =
        do { buf \<leftarrow> block_write (Some c) (length zs) x; collect_loop (Some t) es it1 buf (Suc (length zs)) cap1 w2 }"
      and c: "buf_is (Some c) cap1 zs" "length zs < cap1" "cap1 * es \<le> PTRDIFF_MAX"
        "owns2 (live w2) R (own_block Map.empty (Some c) (cap1 * es)) B1" for c cap1 w2
  proof -
    from c(1,2) obtain d' where d: "block_write (Some c) (length zs) x = Some d'" "buf_is d' cap1 (zs @ [x])"
        "map_option blk_addr d' = map_option blk_addr (Some c)" by (rule block_append_is)
    then obtain d1 where d1: "d' = Some d1" "blk_addr d1 = blk_addr c" by auto
    have "owns2 (live w2) R (own_block Map.empty (Some d1) (cap1 * es)) B1" using c(4) d1(2) by simp
    from Cons.IH [OF n(3) this d(2) [unfolded d1] Cons.prems(4) c(3)] obtain ok it' b' cap' w' B' k where
      "collect_loop (Some t) es it1 (Some d1) (length (zs @ [x])) cap1 w2
        = Some (ok, it', Some b', length (zs @ [x]) + k, cap', w')"
      "owns2 (live w') R (own_block Map.empty (Some b') (cap' * es)) B'" "iter_closes live it' B'"
      "buf_is (Some b') cap' ((zs @ [x]) @ take k xs)" "cap' * es \<le> PTRDIFF_MAX" "k \<le> length xs"
      "(ok \<longrightarrow> k = length xs) \<and> (\<not> ok \<longrightarrow> refuses t (growth es (length (zs @ [x]) + length xs)))"
      by blast
    then show ?thesis unfolding eq d(1)
      by (intro exI [of _ ok] exI [of _ it'] exI [of _ b'] exI [of _ cap'] exI [of _ w'] exI [of _ B'] exI [of _ "Suc k"])
        (simp add: d1)
  qed
  show ?case
  proof (cases "length zs = cap")
    case False
    with buf_is_len [OF Cons.prems(3)] have "length zs < cap" by simp
    moreover have "collect_loop (Some t) es it (Some b) (length zs) cap w =
        do { buf \<leftarrow> block_write (Some b) (length zs) x; collect_loop (Some t) es it1 buf (Suc (length zs)) cap w1 }"
      using n(1) False by (simp add: collect_loop.simps [of _ _ it])
    ultimately show ?thesis using go Cons.prems(3,5) o1 by blast
  next
    case True
    have sz: "length zs \<le> cap * 2" "0 < cap * 2" using True pos by simp_all
    have ap: "apart Map.empty (Some b)" by simp
    show ?thesis
    proof (cases rule: block_realloc_is [OF owns2_left [OF o1] ap Cons.prems(3) es sz])
      case (1 c w2)
      have "collect_loop (Some t) es it (Some b) (length zs) cap w =
          do { buf \<leftarrow> block_write (Some c) (length zs) x; collect_loop (Some t) es it1 buf (Suc (length zs)) (cap * 2) w2 }"
        using n(1) True 1(1) dx capx by (simp add: collect_loop.simps [of _ _ it])
      moreover have "owns2 (live w2) R (own_block Map.empty (Some c) (cap * 2 * es)) B1"
        by (rule owns2_step_left [OF o1 1(3)])
      ultimately show ?thesis using go [of c "cap * 2" w2] 1(2,5) True pos by simp
    next
      case (2 w2)
      have "collect_loop (Some t) es it (Some b) (length zs) cap w = Some (False, it1, Some b, length zs, cap, w2)"
        using n(1) True 2(1) dx capx by (simp add: collect_loop.simps [of _ _ it])
      moreover have "refuses t (growth es (length zs + length (x # xs)))"
        by (rule refuses_growth [OF 2(3)]) (use True in \<open>simp add: add_mult_distrib\<close>)
      ultimately show ?thesis using owns2_step_left [OF o1 2(2)] iter_rep_closes [OF n(3)] Cons.prems(3,5)
        by (intro exI [of _ False] exI [of _ it1] exI [of _ b] exI [of _ cap] exI [of _ w2] exI [of _ B1] exI [of _ 0]) simp
    qed
  qed
qed

lemma collect_finish_at:
  assumes o: "owns (live w) R (own_block Map.empty (Some b) (cap * es))" and b: "buf_is (Some b) cap (take k xs)"
    and es: "0 < es" and cap: "cap * es \<le> PTRDIFF_MAX"
    and k: "(ok \<longrightarrow> k = length xs) \<and> (\<not> ok \<longrightarrow> refuses t (growth es (length xs)))" "k \<le> length xs"
  shows "\<exists>s w'. collect_finish (Some t) es ok (Some b) k cap w = Some (s, w') \<and> collected t (live w') R es xs s"
proof -
  have capx: "wmul cap es = cap * es" by (rule wmul_exact) (use cap in \<open>simp add: PTRDIFF_MAX_def\<close>)
  show ?thesis
  proof (cases "\<not> ok \<or> k = 0")
    case True
    obtain w' where "block_free (Some t) (Some b) (cap * es) w = Some w'" "owns (live w') R Map.empty"
      by (rule block_free_own [OF o]) simp_all
    with True capx k show ?thesis by (auto simp: collect_finish_def collected_def split: if_splits)
  next
    case False
    with k have kx: "ok" "k = length xs" "xs \<noteq> []" by auto
    with b have bx: "buf_is (Some b) cap xs" by simp
    have le: "length xs * es \<le> cap * es" using buf_is_len [OF bx] by simp
    have lenx: "wmul (length xs) es = length xs * es"
    proof (rule wmul_exact)
      from le cap have "length xs * es \<le> PTRDIFF_MAX" by linarith
      then show "length xs * es < 2 ^ 64" by (simp add: PTRDIFF_MAX_def)
    qed
    have keep: "collected t (live w') R es xs \<lparr>sl_ptr = Some b, sl_len = length xs, sl_elem_size = es\<rparr>"
      if "owns (live w') R (own_block Map.empty (Some b) (cap * es))" for w'
      unfolding collected_def slice_is_def using that kx(3) bx le by auto
    show ?thesis
    proof (cases "length xs < cap")
      case False
      with kx keep [OF o] show ?thesis by (simp add: collect_finish_def)
    next
      case True
      show ?thesis
      proof (cases rule: block_shrink_is [OF o bx es kx(3)])
        case (1 c w')
        have "collected t (live w') R es xs \<lparr>sl_ptr = Some c, sl_len = length xs, sl_elem_size = es\<rparr>"
          unfolding collected_def slice_is_def using 1(2,3) kx(3) by auto
        with True kx 1(1) capx lenx show ?thesis by (simp add: collect_finish_def)
      next
        case (2 w')
        with True kx keep [OF 2(2)] capx lenx show ?thesis by (simp add: collect_finish_def)
      qed
    qed
  qed
qed

lemma iter_collect_failed: "\<exists>w'. iter_collect (iter_zero :: ('a, 's, 'w) iter_t) (Some t) w = Some (empty_slice 0, w') \<and> live w' = live w"
proof -
  obtain p w1 where m: "mem_alloc (Some t) 0 w = Some (p, w1)" by (cases "vt_alloc t 0 w") simp
  have e: "wmul 16 0 = 0" by (simp add: wmul_def)
  have o: "owns (live w) (live w) Map.empty" by simp
  show ?thesis
  proof (cases p)
    case None
    with m e owns_mem_alloc_refused [OF o, of 0 w1] show ?thesis
      by (simp add: iter_collect_def Let_def block_alloc_def del: mem_alloc.simps)
  next
    case (Some a)
    with m owns_mem_alloc(1) [OF o, of 0 a w1] have "owns (live w1) (live w) [a \<mapsto> 0]" by simp
    then obtain w2 where w2: "mem_free (Some t) (Some a) 0 w1 = Some w2" "live w2 = live w" by (rule release_one)
    have "collect_loop (Some t) 0 (iter_zero :: ('a, 's, 'w) iter_t) (Some \<lparr>blk_addr = a, cells = []\<rparr>) 0 16 w1 =
        Some (True, iter_zero, Some \<lparr>blk_addr = a, cells = []\<rparr>, 0, 16, w1)"
      by (simp add: collect_loop.simps)
    with m Some e w2 show ?thesis
      by (simp add: iter_collect_def Let_def block_alloc_def scratch_acquire_def scratch_null_def collect_finish_def
          block_free_def del: mem_alloc.simps mem_free.simps)
  qed
qed

lemma iter_collect_ok:
  assumes b: "iter_built live (Some t) R es xs (Some (it, w))" and es: "elem_size_ok es"
  shows "\<exists>s w'. iter_collect it (Some t) w = Some (s, w') \<and>
    (collected t (live w') R es xs s \<or> \<not> iter_is_valid it \<and> s = empty_slice 0 \<and> live w' = R \<and> starved (Some t))"
  using b
proof (cases rule: iter_built_cases)
  case failed
  with iter_collect_failed [of w] show ?thesis by auto
next
  case (valid B)
  note pos = elem_size_ok_pos [OF es]
  have cap: "wmul 16 es = 16 * es" by (rule first_cap_exact [OF es]) simp
  note cl = iter_rep_closes [OF valid(5)]
  from valid(4) pos zero_less_numeral [of "num.Bit0 (num.Bit0 (num.Bit0 (num.Bit0 num.One)))"] show ?thesis
  proof (cases rule: block_alloc_fresh [where 'e = 'a])
    case (granted d w1)
    have d: "buf_is (Some d) 16 ([] :: 'a list)" by (rule buf_is_SomeI [where ys = "cells d"]) (simp_all add: granted(2))
    have j: "joined (B(blk_addr d \<mapsto> 16 * es)) B [blk_addr d \<mapsto> 16 * es]" by (rule joined_upd [OF granted(4)])
    have o2: "owns2 (live w1) R (own_block Map.empty (Some d) (16 * es)) B"
      using joined_open [OF j granted(3)] granted(3) by (auto simp: owns2_def owns_def)
    have run: ?thesis
      if loop: "\<And>ok it' b' len cap' w'. collect_loop (Some t) es it (Some d) 0 16 w2 = Some (ok, it', Some b', len, cap', w') \<Longrightarrow>
          iter_collect it (Some t) w = do { w \<leftarrow> iter_destroy it' w'; w \<leftarrow> rel w; collect_finish (Some t) es ok (Some b') len cap' w }"
        and o: "owns2 (live w2) R' (own_block Map.empty (Some d) (16 * es)) B"
        and rel: "\<And>w A. owns (live w) R' A \<Longrightarrow> \<exists>w'. rel w = Some w' \<and> owns (live w') R A" for w2 R' rel
    proof -
      from collect_loop_at [OF valid(5) o d es granted(5), unfolded list.size add_0 append_Nil] obtain ok it' b' cap' w' B' k where
        l: "collect_loop (Some t) es it (Some d) 0 16 w2 = Some (ok, it', Some b', k, cap', w')"
          "owns2 (live w') R' (own_block Map.empty (Some b') (cap' * es)) B'" "iter_closes live it' B'"
          "buf_is (Some b') cap' (take k xs)" "cap' * es \<le> PTRDIFF_MAX" "k \<le> length xs"
          "(ok \<longrightarrow> k = length xs) \<and> (\<not> ok \<longrightarrow> refuses t (growth es (length xs)))" by blast
      obtain w3 where w3: "iter_destroy it' w' = Some w3" "live w3 = R' ++ own_block Map.empty (Some b') (cap' * es)"
        by (rule iter_destroy_closes [OF l(3) owns2_right [OF l(2)]])
      obtain w4 where w4: "rel w3 = Some w4" "owns (live w4) R (own_block Map.empty (Some b') (cap' * es))"
        using rel [OF owns2_close_right [OF l(2) w3(2)]] by blast
      from collect_finish_at [OF w4(2) l(4) pos l(5,7,6)] loop [OF l(1)] w3(1) w4(1) show ?thesis by auto
    qed
    show ?thesis
    proof (cases "es \<le> SEQC_SCRATCH_MAX")
      case True
      then have "scratch_acquire es (Some t) w1 = Some (Stack_buf, w1)" by (simp add: scratch_acquire_def)
      with granted(1) cap valid show ?thesis
        by (intro run [OF _ o2, of Some]) (simp_all add: iter_collect_def Let_def scratch_null_def)
    next
      case False
      show ?thesis
      proof (cases rule: hold_alloc [OF o2, of es])
        case (1 a w2)
        have s: "scratch_acquire es (Some t) w1 = Some (Heap_buf (Some a), w2)"
          using 1(1) False by (simp add: scratch_acquire_def del: mem_alloc.simps)
        show ?thesis
        proof (rule run [OF _ 1(2), of "mem_free (Some t) (Some a) es"])
          show "\<exists>w'. mem_free (Some t) (Some a) es w = Some w' \<and> owns (live w') R A"
            if "owns (live w) (R(a \<mapsto> es)) A" for w A
            using release_held [OF that 1(3)] by blast
        qed (use s granted(1) cap valid in \<open>simp add: iter_collect_def Let_def scratch_null_def del: mem_free.simps\<close>)
      next
        case (2 w2)
        obtain w3 where w3: "iter_destroy it w2 = Some w3" "live w3 = R ++ own_block Map.empty (Some d) (16 * es)"
          by (rule iter_destroy_closes [OF cl owns2_right [OF 2(2)]])
        obtain w4 where w4: "block_free (Some t) (Some d) (16 * es) w3 = Some w4" "owns (live w4) R Map.empty"
          by (rule block_free_own [OF owns2_close_right [OF 2(2) w3(2)]]) simp_all
        have "scratch_acquire es (Some t) w1 = Some (Heap_buf None, w2)"
          using 2(1) False by (simp add: scratch_acquire_def del: mem_alloc.simps)
        moreover have "refuses t (growth es (length xs))" by (rule refuses_growth [OF 2(3)]) (simp add: add_mult_distrib)
        ultimately show ?thesis using granted(1) cap valid w3 w4
          by (simp add: iter_collect_def Let_def scratch_null_def collected_def)
      qed
    qed
  next
    case (refused w1)
    obtain w2 where "iter_destroy it w1 = Some w2" "live w2 = R" by (rule iter_destroy_closes [OF cl refused(2)])
    moreover have "refuses t (growth es (length xs))" by (rule refuses_growth [OF refused(3)]) (simp add: add_mult_distrib)
    ultimately show ?thesis using refused(1) cap valid by (simp add: iter_collect_def Let_def collected_def)
  qed
qed

lemma iter_sort_ok:
  assumes b: "iter_built live (Some t) R es xs (Some (it, w))" and es: "elem_size_ok es"
    and q: "qsort_ok qsort" and c: "compare_order cmp"
  shows "\<exists>s w' ys. iter_sort qsort it cmp (Some t) w = Some (s, w') \<and>
    mset ys = mset xs \<and> sorted_wrt (\<lambda>a b. cmp a b \<le> 0) ys \<and>
    (collected t (live w') R es ys s \<or> \<not> iter_is_valid it \<and> s = empty_slice 0 \<and> live w' = R \<and> starved (Some t))"
proof -
  from iter_collect_ok [OF b es] obtain s w' where s: "iter_collect it (Some t) w = Some (s, w')"
    "collected t (live w') R es xs s \<or> \<not> iter_is_valid it \<and> s = empty_slice 0 \<and> live w' = R \<and> starved (Some t)" by blast
  let ?ys = "qsort cmp xs"
  note ys = qsort_ok_mset [OF q c, of xs] qsort_ok_sorted [OF q c, of xs] qsort_ok_length [OF q c, of xs]
  show ?thesis
  proof (cases "slice_is s xs \<and> length xs > 1")
    case False
    then have eq: "iter_sort qsort it cmp (Some t) w = Some (s, w')"
      using s by (auto simp: iter_sort_def collected_def empty_slice_def slice_is_def)
    show ?thesis
    proof (cases "slice_is s xs \<and> xs \<noteq> []")
      case True
      with False obtain x where "xs = [x]" by (cases xs; cases "tl xs") auto
      with eq s(2) show ?thesis by (intro exI [of _ s] exI [of _ w'] exI [of _ xs]) auto
    next
      case no: False
      have "xs = [] \<longleftrightarrow> ?ys = []" using ys(3) by auto
      with no s(2) ys(3) have "collected t (live w') R es ?ys s \<or>
          \<not> iter_is_valid it \<and> s = empty_slice 0 \<and> live w' = R \<and> starved (Some t)"
        unfolding collected_def by metis
      with eq ys show ?thesis by blast
    qed
  next
    case True
    then have sx: "slice_is s xs" "xs \<noteq> []" "1 < length xs" by auto
    then have col: "collected t (live w') R es xs s" using s(2) by (auto simp: slice_is_def empty_slice_def)
    from sx obtain d cap where d: "sl_ptr s = Some d" "buf_is (Some d) cap xs" "sl_len s = length xs"
      by (cases "sl_ptr s") (auto simp: slice_is_def)
    from d(2) obtain zs where zs: "0 < cap" "cells d = map Some xs @ zs" "length xs + length zs = cap" by (rule buf_is_SomeE)
    let ?d = "d\<lparr>cells := map Some ?ys @ zs\<rparr>"
    have "buf_is (Some ?d) cap ?ys" by (rule buf_is_SomeI [where ys = zs]) (use zs ys(3) in simp_all)
    then have "slice_is (s\<lparr>sl_ptr := Some ?d\<rparr>) ?ys" using d(3) ys(3) by (auto simp: slice_is_def)
    moreover have "?ys \<noteq> []" using ys(3) sx(2) by auto
    ultimately have "collected t (live w') R es ?ys (s\<lparr>sl_ptr := Some ?d\<rparr>)"
      using col sx(2) d(1) ys(3) by (auto simp: collected_def empty_slice_def)
    moreover have "iter_sort qsort it cmp (Some t) w = Some (s\<lparr>sl_ptr := Some ?d\<rparr>, w')"
      using s(1) sx(3) d(1,3) zs(2) ys(3) by (simp add: iter_sort_def those_map_Some overwrite_def)
    ultimately show ?thesis using ys(1,2) by blast
  qed
qed

end

end
