(* ===== verification/Seqc_Pipelines.thy ===== *)
theory Seqc_Pipelines
  imports Seqc_Vec Seqc_Iter_Sources Seqc_Adapt_One Seqc_Adapt_Two Seqc_Adapt_Buffer Seqc_Adapt_Window
    Seqc_Terminals
begin

section \<open>Properties of iterators and pipelines\<close>

text \<open>
  The properties of \<open>src/iter/iter.c\<close>, over any allocator that keeps its contract. A property of
  an adaptor is about the pipeline \<open>r\<close> that makes its source, which may have failed: then
  the adaptor fails too. Every property includes that each block a failed or finished
  pipeline took is freed, once. An iterator that failed is
  possible only if the allocator refuses some request of at most \<open>PTRDIFF_MAX\<close> bytes
  (\<open>starved\<close>), and a lost result only if it refuses one of the size that was needed. Their
  witnesses run on the allocator that grants every request.
\<close>

text \<open>A range, the source of the witnesses.\<close>

lemma range_source:
  "iter_built map_of (Some roomy_allocator) (map_of []) 8 (range_list 0 5 1)
     (iter_range 0 5 1 (Some roomy_allocator) [])"
  by (rule roomy.iter_range_built) (simp_all add: range_fits_def LLONG_MAX_def LLONG_MIN_def)

lemma range_source_any:
  "\<forall>w. iter_built map_of (Some roomy_allocator) (map_of w) 8 (range_list 0 5 1)
     (iter_range 0 5 1 (Some roomy_allocator) w)"
  by (intro allI roomy.iter_range_built) (simp_all add: range_fits_def LLONG_MAX_def LLONG_MIN_def)

lemma iter_built2_bind:
  assumes "iter_built live al R es xs r" and "\<forall>w. iter_built live al (live w) es' ys (q w)"
    and "\<And>a w1 b w. iter_built live al R es xs (Some (a, w1)) \<Longrightarrow> iter_built live al (live w1) es' ys (Some (b, w)) \<Longrightarrow>
      iter_built live al R es'' zs (f a b w)"
  shows "iter_built live al R es'' zs (do { (a, w) \<leftarrow> r; (b, w) \<leftarrow> q w; f a b w })"
proof -
  obtain a w1 where a: "r = Some (a, w1)" using assms(1) by (auto simp: iter_built_def)
  obtain b w where b: "q w1 = Some (b, w)" using assms(2) [rule_format, of w1] by (auto simp: iter_built_def)
  from assms(3) [of a w1 b w] assms(1) assms(2) [rule_format, of w1] a b show ?thesis by simp
qed

lemma iter_builtE:
  assumes "iter_built live al R es xs r"
  obtains it w where "r = Some (it, w)" and "iter_built live al R es xs (Some (it, w))"
  using assms by (auto simp: iter_built_def)

subsection \<open>A whole pipeline\<close>

text \<open>
  C8. The elements of a vector, filtered, mapped, cut to the first \<open>n\<close> and collected into a slice:
  whatever the allocator refuses on the way, the slice shows the elements the list functions
  give, or is \<open>{NULL, 0}\<close> because a request was refused, and apart from the slice's block the allocator's blocks are those
  of the start.
\<close>
theorem pipeline_collect_correct:
  assumes "heap_allocator t live" and "vec_is t v xs" and "elem_size_ok es"
  shows "\<exists>s w'. do {
      (it, w) \<leftarrow> vec_iter (Some v) w;
      (it, w) \<leftarrow> iter_filter it P w;
      (it, w) \<leftarrow> iter_map it f es w;
      (it, w) \<leftarrow> iter_take it n w;
      iter_collect it (Some t) w
    } = Some (s, w') \<and>
    (collected t (live w') (live w) es (take n (map f (filter P xs))) s \<or>
     s = empty_slice 0 \<and> live w' = live w \<and> starved (Some t))"
proof -
  note h = assms(1)
  from assms(2) have es: "v_elem_size v \<le> PTRDIFF_MAX" by (rule vec_is_elem_size)
  obtain i1 w1 where i1: "vec_iter (Some v) w = Some (i1, w1)"
      "iter_built live (Some t) (live w) (v_elem_size v) xs (Some (i1, w1))"
    by (rule iter_builtE [OF heap_allocator.vec_iter_built [OF h assms(2)]])
  obtain i2 w2 where i2: "iter_filter i1 P w1 = Some (i2, w2)"
      "iter_built live (Some t) (live w) (v_elem_size v) (filter P xs) (Some (i2, w2))"
    by (rule iter_builtE [OF heap_allocator.iter_filter_built [OF h i1(2)]])
  obtain i3 w3 where i3: "iter_map i2 f es w2 = Some (i3, w3)"
      "iter_built live (Some t) (live w) es (map f (filter P xs)) (Some (i3, w3))"
    by (rule iter_builtE [OF heap_allocator.iter_map_built [OF h i2(2) es]])
  obtain i4 w4 where i4: "iter_take i3 n w3 = Some (i4, w4)"
      "iter_built live (Some t) (live w) es (take n (map f (filter P xs))) (Some (i4, w4))"
    by (rule iter_builtE [OF heap_allocator.iter_take_built [OF h i3(2)]])
  from heap_allocator.iter_collect_ok [OF h i4(2) assms(3)] i1(1) i2(1) i3(1) i4(1) show ?thesis by auto
qed

theorem pipeline_collect_witness:
  "\<exists>s w'. do {
      (it, w) \<leftarrow> vec_iter (Some \<lparr>v_self = 7, v_data = Some \<lparr>blk_addr = 9, cells = map Some [1, 5, 2, 4, 0]\<rparr>,
        v_len = 5, v_cap = 5, v_elem_size = 4, v_alloc = Some roomy_allocator\<rparr>) [];
      (it, w) \<leftarrow> iter_filter it (\<lambda>x. x < (3 :: int)) w;
      (it, w) \<leftarrow> iter_map it (\<lambda>x. x * x) 8 w;
      (it, w) \<leftarrow> iter_take it 2 w;
      iter_collect it (Some roomy_allocator) w
    } = Some (s, w') \<and>
    collected roomy_allocator (map_of w') (map_of []) 8 [1, 4] s"
  using pipeline_collect_correct [OF roomy.heap_allocator_axioms, of
      "\<lparr>v_self = 7, v_data = Some \<lparr>blk_addr = 9, cells = map Some [1, 5, 2, 4, 0]\<rparr>,
        v_len = 5, v_cap = 5, v_elem_size = 4, v_alloc = Some roomy_allocator\<rparr>" "[1, 5, 2, 4, 0 :: int]" 8
      "[]" "\<lambda>x. x < 3" "\<lambda>x. x * x" 2]
  by (simp add: vec_is_def elem_size_ok_def buf_is_def apart_def PTRDIFF_MAX_def roomy_not_starved)

subsection \<open>Adaptors\<close>

text \<open>
  C9. The adaptors over one source give the list function they are named after.
\<close>
theorem adaptors_one_source_correct:
  assumes "heap_allocator t live" and "iter_built live (Some t) R es xs r" and "es \<le> PTRDIFF_MAX"
  shows "iter_built live (Some t) R es (filter P xs) (do { (it, w) \<leftarrow> r; iter_filter it P w }) \<and>
    iter_built live (Some t) R es' (map f xs) (do { (it, w) \<leftarrow> r; iter_map it f es' w }) \<and>
    iter_built live (Some t) R es (take n xs) (do { (it, w) \<leftarrow> r; iter_take it n w }) \<and>
    iter_built live (Some t) R es (takeWhile P xs) (do { (it, w) \<leftarrow> r; iter_take_while it P w }) \<and>
    iter_built live (Some t) R es (drop n xs) (do { (it, w) \<leftarrow> r; iter_skip it n w }) \<and>
    iter_built live (Some t) R es (dropWhile P xs) (do { (it, w) \<leftarrow> r; iter_skip_while it P w })"
  by (intro conjI iter_built_bind [OF assms(2)])
    (erule heap_allocator.iter_filter_built [OF assms(1)] heap_allocator.iter_map_built [OF assms(1) _ assms(3)]
      heap_allocator.iter_take_built [OF assms(1)] heap_allocator.iter_take_while_built [OF assms(1)]
      heap_allocator.iter_skip_built [OF assms(1)] heap_allocator.iter_skip_while_built [OF assms(1)])+

theorem adaptors_one_source_witness:
  "iter_built map_of (Some roomy_allocator) (map_of []) 8 [0, 1]
    (do { (it, w) \<leftarrow> iter_range 0 5 1 (Some roomy_allocator) []; iter_take_while it (\<lambda>x. x < 2) w })"
  using adaptors_one_source_correct [OF roomy.heap_allocator_axioms range_source, of "\<lambda>x. x < 2" 8 id 0]
  by (simp add: range_list.simps PTRDIFF_MAX_def)

text \<open>
  C10. The adaptors over two sources: concatenation, and pairs up to the shorter one.
\<close>
theorem adaptors_two_sources_correct:
  assumes "heap_allocator t live" and "iter_built live (Some t) R es xs r"
    and "\<forall>w. iter_built live (Some t) (live w) es ys (q w)" and "es \<le> PTRDIFF_MAX"
  shows "iter_built live (Some t) R es (xs @ ys) (do { (a, w) \<leftarrow> r; (b, w) \<leftarrow> q w; iter_chain a b w }) \<and>
    iter_built live (Some t) R (wadd es es) (zip xs ys) (do { (a, w) \<leftarrow> r; (b, w) \<leftarrow> q w; iter_zip a b w })"
  by (intro conjI iter_built2_bind [OF assms(2,3)])
    (erule (1) heap_allocator.iter_chain_built [OF assms(1)] heap_allocator.iter_zip_built [OF assms(1) _ _ assms(4)])+

theorem adaptors_two_sources_witness:
  "iter_built map_of (Some roomy_allocator) (map_of []) 8 [0, 1, 2, 3, 4, 0, 1, 2, 3, 4]
    (do { (a, w) \<leftarrow> iter_range 0 5 1 (Some roomy_allocator) [];
          (b, w) \<leftarrow> iter_range 0 5 1 (Some roomy_allocator) w; iter_chain a b w })"
  using adaptors_two_sources_correct [OF roomy.heap_allocator_axioms range_source range_source_any]
  by (simp add: range_list.simps PTRDIFF_MAX_def)

text \<open>
  C11. \<open>iter_flat_map\<close> yields the lists of the sub-iterators one after the other, for a callback
  that always gives an iterator of \<open>g x\<close>.
\<close>
theorem flat_map_correct:
  assumes "heap_allocator t live" and "iter_built live (Some t) R es xs r" and "makes_subs live fn g"
    and "es \<le> PTRDIFF_MAX"
  shows "iter_built live (Some t) R es' (concat (map g xs)) (do { (it, w) \<leftarrow> r; iter_flat_map it fn es' w })"
  by (rule iter_built_bind [OF assms(2)]) (rule heap_allocator.iter_flat_map_built [OF assms(1) _ assms(3,4)])

text \<open>A sub-iterator without a state of its own: it counts down from its element.\<close>

definition countdown_next :: "int \<Rightarrow> 'w \<Rightarrow> (int option \<times> int \<times> 'w) option" where
  "countdown_next k w = (if k \<le> 0 then Some (None, k, w) else Some (Some k, k - 1, w))"

definition countdown :: "int \<Rightarrow> (int, int, 'w) iter_t" where
  "countdown k = iter_make countdown_next (\<lambda>_ w. Some w) k 8 None"

lemma countdown_rep: "iter_rep live (rev [1..k]) (countdown k) Map.empty"
proof (induction "nat k" arbitrary: k)
  case 0
  then have n: "iter_next (countdown k) w = Some (None, countdown k, w)" for w :: 'a
    by (simp add: countdown_def countdown_next_def)
  have c: "iter_closes live (countdown k) Map.empty" by (simp add: countdown_def iter_closes_def)
  from 0 iter_rep_Nil_still [OF c n c] show ?case by simp
next
  case (Suc m)
  have c: "iter_closes live (countdown k) Map.empty" by (simp add: countdown_def iter_closes_def)
  have n: "iter_next (countdown k) w = Some (Some k, countdown (k - 1), w)" for w :: 'a
    using Suc(2) by (simp add: countdown_def countdown_next_def)
  have "[1..k] = [1..k - 1] @ [k]" using Suc(2) upto_rec2 [of 1 k] by simp
  moreover have "iter_rep live (rev [1..k - 1]) (countdown (k - 1)) Map.empty" using Suc by simp
  ultimately show ?case using iter_rep_Cons_still [OF c n] by simp
qed

theorem flat_map_witness:
  "iter_built map_of (Some roomy_allocator) (map_of []) 8 [1, 2, 1, 3, 2, 1, 4, 3, 2, 1]
    (do { (it, w) \<leftarrow> iter_range 0 5 1 (Some roomy_allocator) [];
          iter_flat_map it (\<lambda>x w. Some (countdown x, w)) 8 w })"
proof -
  have "makes_subs (map_of :: (addr \<times> size_t) list \<Rightarrow> addr \<rightharpoonup> size_t) (\<lambda>x w. Some (countdown x, w)) (\<lambda>x. rev [1..x])"
    unfolding makes_subs_def
  proof (intro allI)
    fix x and w :: "(addr \<times> size_t) list"
    show "\<exists>sub w' B. Some (countdown x, w) = Some (sub, w') \<and> owns (map_of w') (map_of w) B \<and>
        iter_rep map_of (rev [1..x]) sub B"
      by (intro exI [of _ "countdown x"] exI [of _ w] exI [of _ Map.empty]) (simp add: countdown_rep)
  qed
  from flat_map_correct [OF roomy.heap_allocator_axioms range_source this, of 8] show ?thesis
    by (simp add: range_list.simps upto.simps PTRDIFF_MAX_def)
qed

text \<open>
  C12. \<open>iter_window\<close> and \<open>iter_chunks\<close> yield slices that show the windows and the pieces of the
  source, when their buffer is one an allocator can grant.
\<close>
theorem windows_and_chunks_correct:
  assumes "heap_allocator t live" and "iter_built live (Some t) R es xs r" and "0 < es"
    and "n * es \<le> PTRDIFF_MAX"
  shows "(\<exists>ys. list_all2 slice_is ys (windows n xs) \<and>
      iter_built live (Some t) R sizeof_slice_t ys (do { (it, w) \<leftarrow> r; iter_window it n w })) \<and>
    (\<exists>ys. list_all2 slice_is ys (chunks n xs) \<and>
      iter_built live (Some t) R sizeof_slice_t ys (do { (it, w) \<leftarrow> r; iter_chunks it n w }))"
proof -
  from assms(2) obtain it w where r: "r = Some (it, w)" "iter_built live (Some t) R es xs (Some (it, w))"
    by (rule iter_builtE)
  from heap_allocator.iter_window_built [OF assms(1) r(2) assms(3,4)]
    heap_allocator.iter_chunks_built [OF assms(1) r(2) assms(3,4)] r(1) show ?thesis by simp
qed

theorem windows_and_chunks_witness:
  "(\<exists>ys. list_all2 slice_is ys [[0, 1], [2, 3], [4]] \<and>
      iter_built map_of (Some roomy_allocator) (map_of []) sizeof_slice_t ys
        (do { (it, w) \<leftarrow> iter_range 0 5 1 (Some roomy_allocator) []; iter_chunks it 2 w }))"
  using windows_and_chunks_correct [OF roomy.heap_allocator_axioms range_source, of 2]
  by (simp add: range_list.simps chunks.simps PTRDIFF_MAX_def)

text \<open>
  C13. \<open>iter_dedup\<close> on a sorted source yields a strictly ascending list in which every element
  of the source has exactly one equal.
\<close>
theorem dedup_sorted_correct:
  assumes "heap_allocator t live" and "iter_built live (Some t) R es xs r" and "compare_order cmp"
    and "sorted_wrt (\<lambda>a b. cmp a b \<le> 0) xs" and "es \<le> PTRDIFF_MAX"
  shows "\<exists>ys. iter_built live (Some t) R es ys (do { (it, w) \<leftarrow> r; iter_dedup it cmp w }) \<and>
    sorted_wrt (\<lambda>a b. cmp a b < 0) ys \<and> set ys \<subseteq> set xs \<and> (\<forall>x \<in> set xs. \<exists>y \<in> set ys. cmp x y = 0)"
proof (intro exI conjI)
  show "iter_built live (Some t) R es (dedup_by cmp xs) (do { (it, w) \<leftarrow> r; iter_dedup it cmp w })"
    by (rule iter_built_bind [OF assms(2)]) (rule heap_allocator.iter_dedup_built [OF assms(1) _ assms(5)])
  show "sorted_wrt (\<lambda>a b. cmp a b < 0) (dedup_by cmp xs)" "set (dedup_by cmp xs) \<subseteq> set xs"
    "\<forall>x \<in> set xs. \<exists>y \<in> set (dedup_by cmp xs). cmp x y = 0"
    using dedup_by_sorted [OF assms(3,4)] by blast+
qed

theorem dedup_sorted_witness:
  "\<exists>ys. iter_built map_of (Some roomy_allocator) (map_of []) 8 ys
      (do { (it, w) \<leftarrow> iter_range 0 5 1 (Some roomy_allocator) []; iter_dedup it (\<lambda>a b. int_cmp (a div 2) (b div 2)) w }) \<and>
    sorted_wrt (\<lambda>a b. int_cmp (a div 2) (b div 2) < 0) ys \<and> set ys \<subseteq> {0, 1, 2, 3, 4} \<and>
    (\<forall>x \<in> {0, 1, 2, 3, 4}. \<exists>y \<in> set ys. int_cmp (x div 2) (y div 2) = 0)"
proof -
  have "compare_order (\<lambda>a b :: int. int_cmp (a div 2) (b div 2))"
    by unfold_locales (auto simp: int_cmp_def split: if_splits)
  from dedup_sorted_correct [OF roomy.heap_allocator_axioms range_source this] show ?thesis
    by (simp add: range_list.simps int_cmp_def PTRDIFF_MAX_def)
qed

text \<open>
  C14. A peekable iterator: any number of peeks between two calls of \<open>next\<close>, each showing the
  element that \<open>next\<close> then yields.
\<close>
theorem peekable_correct:
  assumes "heap_allocator t live" and "iter_built live (Some t) R es xs r" and "es \<le> PTRDIFF_MAX"
  shows "\<exists>it w'. do { (it, w) \<leftarrow> r; iter_peekable it w } = Some (it, w') \<and>
    (it = iter_zero \<and> live w' = R \<and> starved (Some t) \<or>
     (\<exists>B. iter_is_valid it \<and> owns (live w') R B \<and> peek_rep live xs it B))"
proof -
  from assms(2) obtain it w where r: "r = Some (it, w)" "iter_built live (Some t) R es xs (Some (it, w))"
    by (rule iter_builtE)
  from heap_allocator.iter_peekable_peeks [OF assms(1) r(2) assms(3)] r(1) show ?thesis by (metis bind.bind_lunit case_prod_conv)
qed

theorem peekable_witness:
  "\<exists>it w'. do { (it, w) \<leftarrow> iter_range 0 5 1 (Some roomy_allocator) []; iter_peekable it w } = Some (it, w') \<and>
    (\<exists>B. iter_is_valid it \<and> owns (map_of w') (map_of []) B \<and> peek_rep map_of [0, 1, 2, 3, 4] it B)"
  using peekable_correct [OF roomy.heap_allocator_axioms range_source] by (simp add: range_list.simps roomy_not_starved PTRDIFF_MAX_def)

subsection \<open>Sources\<close>

text \<open>
  C15. A range yields the integers from its start, by its step, before its end, when the step
  past the last one stays within \<open>long long\<close>; \<open>iter_enumerate\<close> pairs element \<open>k\<close> with \<open>k\<close>.
\<close>
theorem range_and_enumerate_correct:
  assumes "heap_allocator t live" and "iter_built live (Some t) R es xs r" and "length xs \<le> 2 ^ 64" and "es \<le> PTRDIFF_MAX"
    and "range_fits e k" and "LLONG_MIN \<le> s" and "s \<le> LLONG_MAX"
  shows "iter_built live (Some t) R sizeof_enum_entry_t
      (map (\<lambda>(i, x). \<lparr>en_index = i, en_elem = x\<rparr>) (zip [0..<length xs] xs)) (do { (it, w) \<leftarrow> r; iter_enumerate it w }) \<and>
    iter_built live (Some t) (live w) 8 (range_list s e k) (iter_range s e k (Some t) w)"
proof -
  have "entries 0 xs = map (\<lambda>(i, x). \<lparr>en_index = i, en_elem = x\<rparr>) (zip [0..<length xs] xs)"
    by (rule nth_equalityI) (use assms(3) in \<open>simp_all add: entries_nth\<close>)
  then have "iter_built live (Some t) R sizeof_enum_entry_t
      (map (\<lambda>(i, x). \<lparr>en_index = i, en_elem = x\<rparr>) (zip [0..<length xs] xs)) (do { (it, w) \<leftarrow> r; iter_enumerate it w })"
    by (metis (mono_tags, lifting) iter_built_bind [OF assms(2)] heap_allocator.iter_enumerate_built [OF assms(1) _ assms(4)])
  with heap_allocator.iter_range_built [OF assms(1) assms(5-7)] show ?thesis by blast
qed

theorem range_and_enumerate_witness:
  "iter_built map_of (Some roomy_allocator) (map_of []) sizeof_enum_entry_t
     [\<lparr>en_index = 0, en_elem = 0\<rparr>, \<lparr>en_index = 1, en_elem = 1\<rparr>, \<lparr>en_index = 2, en_elem = 2\<rparr>,
      \<lparr>en_index = 3, en_elem = 3\<rparr>, \<lparr>en_index = 4, en_elem = 4\<rparr>]
     (do { (it, w) \<leftarrow> iter_range 0 5 1 (Some roomy_allocator) []; iter_enumerate it w }) \<and>
   iter_built map_of (Some roomy_allocator) (map_of []) 8 [9, 6, 3]
     (iter_range 9 0 (-3) (Some roomy_allocator) [])"
proof -
  have five: "map (\<lambda>(i, x). \<lparr>en_index = i, en_elem = x\<rparr>) (zip [0..<length (range_list 0 5 1)] (range_list 0 5 1)) =
    [\<lparr>en_index = 0, en_elem = 0\<rparr>, \<lparr>en_index = 1, en_elem = 1\<rparr>, \<lparr>en_index = 2, en_elem = 2\<rparr>,
     \<lparr>en_index = 3, en_elem = 3\<rparr>, \<lparr>en_index = 4, en_elem = 4\<rparr>]"
    by (simp add: range_list.simps upt_conv_Cons numeral_eq_Suc)
  have "length (range_list 0 5 1) \<le> 2 ^ 64" "range_list 9 0 (-3) = [9, 6, 3]" "range_fits 0 (-3)"
    by (simp_all add: range_list.simps range_fits_def LLONG_MAX_def LLONG_MIN_def)
  with range_and_enumerate_correct [OF roomy.heap_allocator_axioms range_source, of 0 "-3" 9 "[]"] five
  show ?thesis by (simp add: LLONG_MAX_def LLONG_MIN_def PTRDIFF_MAX_def)
qed

text \<open>
  C16. A range between two \<open>long long\<close> bounds has only elements that a \<open>long long\<close> can hold, but the
  counter is advanced before an element is handed out. All elements before the last are yielded;
  the call for the last one yields it exactly when the sum of it and the step is a \<open>long long\<close>, and
  otherwise overflows, which has no defined result.
\<close>
theorem range_next_overflow_undefined:
  assumes "iter_range s e k al w = Some (it, w')" and "iter_is_valid it"
    and "range_list s e k = xs @ [x]" and "llong s" and "llong e"
  shows "(\<forall>y \<in> set (range_list s e k). llong y) \<and>
    (\<exists>at_last after. nexts (length xs) it w' = Some (xs, at_last, w') \<and>
      iter_next at_last w' = (if llong (x + k) then Some (Some x, after, w') else None))"
proof
  show "\<forall>y \<in> set (range_list s e k). llong y" using range_list_llong assms(4,5) by blast
  show "\<exists>at_last after. nexts (length xs) it w' = Some (xs, at_last, w') \<and>
    iter_next at_last w' = (if llong (x + k) then Some (Some x, after, w') else None)"
    by (rule iter_range_last [OF assms])
qed

theorem range_next_overflow_witness:
  "\<exists>it w' at_last. iter_range (LLONG_MAX - 3) LLONG_MAX 2 (Some roomy_allocator) [] = Some (it, w') \<and>
    nexts 1 it w' = Some ([LLONG_MAX - 3], at_last, w') \<and> iter_next at_last w' = None"
proof -
  have two: "range_list (LLONG_MAX - 3) LLONG_MAX 2 = [LLONG_MAX - 3] @ [LLONG_MAX - 1]"
    by (simp add: range_list.simps)
  obtain it w' where r: "iter_range (LLONG_MAX - 3) LLONG_MAX 2 (Some roomy_allocator) [] = Some (it, w')" "iter_is_valid it"
    by (simp add: iter_range_def roomy_allocator_def roomy_alloc_def sizeof_range_state_t_def PTRDIFF_MAX_def)
  from range_next_overflow_undefined [OF r two] r(1) show ?thesis by (simp add: llong_def LLONG_MIN_def LLONG_MAX_def)
qed

subsection \<open>Terminals\<close>

text \<open>
  C17. \<open>iter_count\<close>, \<open>iter_foreach\<close> and \<open>iter_reduce\<close> see every element once, in order, and free
  the iterator and the scratch buffer.
\<close>
theorem fold_terminals_correct:
  assumes "heap_allocator t live" and "iter_built live (Some t) R es xs (Some (it, w))"
  shows "terminal_ok live R it 0 (length xs mod 2 ^ 64) (iter_count it w) \<and>
    terminal_ok live R it ctx (fold visit xs ctx) (iter_foreach it visit ctx w) \<and>
    terminal_ok live R it acc (foldl combine acc xs) (iter_reduce it acc combine w)"
  by (intro conjI heap_allocator.iter_count_ok [OF assms] heap_allocator.iter_foreach_ok [OF assms]
    heap_allocator.iter_reduce_ok [OF assms])

theorem fold_terminals_witness:
  "\<exists>it w. iter_range 0 5 1 (Some roomy_allocator) [] = Some (it, w) \<and>
    terminal_ok map_of (map_of []) it 0 5 (iter_count it w) \<and>
    terminal_ok map_of (map_of []) it [] [4, 3, 2, 1, 0] (iter_foreach it (#) [] w) \<and>
    terminal_ok map_of (map_of []) it 100 110 (iter_reduce it 100 (+) w)"
proof -
  obtain it w where r: "iter_range 0 5 1 (Some roomy_allocator) [] = Some (it, w)"
    using range_source by (auto simp: iter_built_def)
  from fold_terminals_correct [OF roomy.heap_allocator_axioms range_source [unfolded r], of "[]" "(#)" 100 "(+)"] r show ?thesis
    by (auto simp: range_list.simps)
qed

text \<open>
  C18. \<open>iter_find\<close>, \<open>iter_any\<close> and \<open>iter_all\<close> decide about the elements, and stop early without
  leaking the rest of the iterator. For an iterator that failed, and when the scratch buffer for
  elements of more than 512 bytes is refused, all three answer false. For \<open>iter_all\<close> and the
  scratch buffer \<open>include/seqc/iter.h\<close> says otherwise: it has the terminal act as if the iterator
  were empty, and \<open>iter_all\<close> is true for an empty one.
\<close>
theorem search_terminals_correct:
  assumes "heap_allocator t live" and "iter_built live (Some t) R es xs (Some (it, w))"
  shows "terminal_ok live R it (False, None) (\<exists>x \<in> set xs. P x, if out then find P xs else None) (iter_find it P out w) \<and>
    terminal_ok live R it False (\<exists>x \<in> set xs. P x) (iter_any it P w) \<and>
    terminal_ok live R it False (\<forall>x \<in> set xs. P x) (iter_all it P w)"
proof (intro conjI heap_allocator.iter_any_ok [OF assms] heap_allocator.iter_all_ok [OF assms])
  show "terminal_ok live R it (False, None) (\<exists>x \<in> set xs. P x, if out then find P xs else None) (iter_find it P out w)"
    using heap_allocator.iter_find_ok [OF assms, of P out] unfolding heap_allocator.find_not_None [OF assms(1)] .
qed

theorem search_terminals_witness:
  "\<exists>it w. iter_range 0 5 1 (Some roomy_allocator) [] = Some (it, w) \<and>
    terminal_ok map_of (map_of []) it (False, None) (True, Some 3) (iter_find it (\<lambda>x. 2 < x) True w)"
proof -
  obtain it w where r: "iter_range 0 5 1 (Some roomy_allocator) [] = Some (it, w)"
    using range_source by (auto simp: iter_built_def)
  from search_terminals_correct [OF roomy.heap_allocator_axioms range_source [unfolded r], of "\<lambda>x. 2 < x" True] r
  show ?thesis by (auto simp: range_list.simps)
qed

text \<open>
  C19. \<open>iter_min\<close> and \<open>iter_max\<close> return a least and a greatest element, or report that there is none.
\<close>
theorem min_max_correct:
  assumes "heap_allocator t live" and "iter_built live (Some t) R es xs (Some (it, w))" and "compare_order cmp"
  shows "(\<exists>m. terminal_ok live R it (False, None) (xs \<noteq> [], m) (iter_min it cmp True w) \<and>
      (xs \<noteq> [] \<longrightarrow> (\<exists>x \<in> set xs. m = Some x \<and> (\<forall>y \<in> set xs. cmp x y \<le> 0)))) \<and>
    (\<exists>m. terminal_ok live R it (False, None) (xs \<noteq> [], m) (iter_max it cmp True w) \<and>
      (xs \<noteq> [] \<longrightarrow> (\<exists>x \<in> set xs. m = Some x \<and> (\<forall>y \<in> set xs. cmp y x \<le> 0))))"
  by (rule conjI [OF heap_allocator.iter_min_ok [OF assms] heap_allocator.iter_max_ok [OF assms]])

theorem min_max_witness:
  "\<exists>it w. iter_range 0 5 1 (Some roomy_allocator) [] = Some (it, w) \<and>
    terminal_ok map_of (map_of []) it (False, None) (True, Some 0) (iter_min it int_cmp True w) \<and>
    terminal_ok map_of (map_of []) it (False, None) (True, Some 4) (iter_max it int_cmp True w)"
proof -
  obtain it w where r: "iter_range 0 5 1 (Some roomy_allocator) [] = Some (it, w)"
    using range_source by (auto simp: iter_built_def)
  from min_max_correct [OF roomy.heap_allocator_axioms range_source [unfolded r] int_cmp.compare_order_axioms] r
  show ?thesis by (auto simp: range_list.simps int_cmp_def)
qed

text \<open>
  C20. \<open>iter_collect\<close> returns the whole sequence in a block of its own or \<open>{NULL, 0}\<close>, never a
  part of it, through every growth of its buffer and every refusal of the allocator.
\<close>
theorem collect_correct:
  assumes "heap_allocator t live" and "iter_built live (Some t) R es xs (Some (it, w))" and "elem_size_ok es"
  shows "\<exists>s w'. iter_collect it (Some t) w = Some (s, w') \<and>
    (collected t (live w') R es xs s \<or>
     \<not> iter_is_valid it \<and> s = empty_slice 0 \<and> live w' = R \<and> starved (Some t))"
  by (rule heap_allocator.iter_collect_ok [OF assms])

theorem collect_witness:
  "\<exists>it w s w'. iter_range 0 5 1 (Some roomy_allocator) [] = Some (it, w) \<and>
    iter_collect it (Some roomy_allocator) w = Some (s, w') \<and>
    collected roomy_allocator (map_of w') (map_of []) 8 [0, 1, 2, 3, 4] s"
proof -
  obtain it w where r: "iter_range 0 5 1 (Some roomy_allocator) [] = Some (it, w)"
    using range_source by (auto simp: iter_built_def)
  from collect_correct [OF roomy.heap_allocator_axioms range_source [unfolded r]] r show ?thesis
    by (simp add: range_list.simps elem_size_ok_def roomy_not_starved)
qed

text \<open>
  C21. \<open>iter_sort\<close> collects a sorted permutation, given a \<open>qsort\<close> that keeps its contract.
\<close>
theorem iter_sort_correct:
  assumes "heap_allocator t live" and "iter_built live (Some t) R es xs (Some (it, w))" and "elem_size_ok es"
    and "qsort_ok qsort" and "compare_order cmp"
  shows "\<exists>s w' ys. iter_sort qsort it cmp (Some t) w = Some (s, w') \<and>
    mset ys = mset xs \<and> sorted_wrt (\<lambda>a b. cmp a b \<le> 0) ys \<and>
    (collected t (live w') R es ys s \<or>
     \<not> iter_is_valid it \<and> s = empty_slice 0 \<and> live w' = R \<and> starved (Some t))"
  by (rule heap_allocator.iter_sort_ok [OF assms])

theorem iter_sort_witness:
  "\<exists>it w s w' ys. iter_range 0 5 1 (Some roomy_allocator) [] = Some (it, w) \<and>
    iter_sort insertion_sort it (\<lambda>a b. int_cmp b a) (Some roomy_allocator) w = Some (s, w') \<and>
    mset ys = {#0, 1, 2, 3, 4#} \<and> sorted_wrt (\<lambda>a b. int_cmp b a \<le> 0) ys \<and>
    collected roomy_allocator (map_of w') (map_of []) 8 ys s"
proof -
  obtain it w where r: "iter_range 0 5 1 (Some roomy_allocator) [] = Some (it, w)"
    using range_source by (auto simp: iter_built_def)
  have "compare_order (\<lambda>a b :: int. int_cmp b a)" by unfold_locales (auto simp: int_cmp_def split: if_splits)
  from iter_sort_correct [OF roomy.heap_allocator_axioms range_source [unfolded r] _ qsort_ok_insertion_sort this] r
  show ?thesis by (simp add: range_list.simps elem_size_ok_def roomy_not_starved)
qed

text \<open>
  C22. The byte count \<open>n * es\<close> of the buffer of \<open>iter_window\<close> and \<open>iter_chunks\<close> is not checked. When it
  wraps around, the allocator is asked for a buffer of \<open>m < n\<close> elements. Unless it refuses that
  request, the adaptor is valid, and its first call fills the buffer with the first \<open>m\<close> elements
  of the source, is handed one more, and writes it outside the buffer: the call is undefined.
\<close>
theorem window_size_overflow_undefined:
  assumes "heap_allocator t live" and "iter_built live (Some t) R es xs (Some (src, w))" and "iter_is_valid src"
    and "0 < es" and "2 ^ 64 \<le> n * es" and "wmul n es div es < length xs"
  shows "wmul n es div es < n \<and>
    (\<exists>it w'. iter_window src n w = Some (it, w') \<and>
      (\<not> iter_is_valid it \<and> live w' = R \<and> refuses t (sizeof_window_state_t + wmul n es) \<or>
       iter_is_valid it \<and> (\<exists>s. it_state it = Some s \<and>
         full_before (wmul n es div es) xs
           (do { (ok, buf, src, w) \<leftarrow> window_fill (wmul n es div es) 0 (wn_buf s) (wn_source s) w'; Some (buf, src, w) })) \<and>
       iter_next it w' = None)) \<and>
    (\<exists>it w'. iter_chunks src n w = Some (it, w') \<and>
      (\<not> iter_is_valid it \<and> live w' = R \<and> refuses t (sizeof_chunk_state_t + wmul n es) \<or>
       iter_is_valid it \<and> (\<exists>s. it_state it = Some s \<and>
         full_before (wmul n es div es) xs
           (do { (cnt, buf, src, w) \<leftarrow> chunk_fill (wmul n es div es) 0 (ck_buf s) (ck_source s) w'; Some (buf, src, w) })) \<and>
       iter_next it w' = None))"
  by (intro conjI wmul_short [OF assms(5,4)] heap_allocator.iter_window_short [OF assms]
    heap_allocator.iter_chunks_short [OF assms])

theorem window_size_overflow_witness:
  "\<exists>src w it w'. iter_range 0 5 1 (Some roomy_allocator) [] = Some (src, w) \<and>
    iter_window src (2 ^ 61 + 1) w = Some (it, w') \<and> iter_is_valid it \<and>
    (\<exists>s. it_state it = Some s \<and> full_before 1 [0, 1, 2, 3, 4]
      (do { (ok, buf, src, w) \<leftarrow> window_fill 1 0 (wn_buf s) (wn_source s) w'; Some (buf, src, w) })) \<and>
    iter_next it w' = None"
proof -
  obtain src w where r: "iter_range 0 5 1 (Some roomy_allocator) [] = Some (src, w)"
    using range_source by (auto simp: iter_built_def)
  with range_source roomy_not_starved have v: "iter_is_valid src" by (auto simp: iter_built_def)
  have five: "range_list 0 5 1 = [0, 1, 2, 3, 4]" by (simp add: range_list.simps)
  have one: "wmul (2 ^ 61 + 1) 8 = 8" by (simp add: wmul_def size_mod_def)
  have "\<not> refuses roomy_allocator (sizeof_window_state_t + 8)"
    by (rule roomy_refuses) (simp add: sizeof_window_state_t_def PTRDIFF_MAX_def)
  with window_size_overflow_undefined [OF roomy.heap_allocator_axioms range_source [unfolded r] v, of "2 ^ 61 + 1"] r
  show ?thesis unfolding one five by auto
qed

end
