(* ===== verification/Seqc_Tree.thy ===== *)
theory Seqc_Tree
  imports Seqc_Nodes Seqc_Compare "HOL-Library.Tree"
begin

section \<open>Search trees of allocated nodes\<close>

text \<open>
  What \<open>avl_t\<close>, \<open>bstree_t\<close> and \<open>omap_t\<close> have in common. A node is a record with the address of
  its block and its inline data; a subtree reached through a pointer is the tree of its nodes,
  NULL is \<open>Leaf\<close>. The three files write the same algorithms with the compiler's field
  accesses; here they are written once, over the data's key, the rebalancing step (\<open>Some\<close> where
  there is none) and what an insertion does to a node that is already there, and each component
  instantiates them.
\<close>

record 'd tnode =
  nd_self :: addr
  nd_data :: 'd

type_synonym ('d, 'z) node_tree = "('d, 'z) tnode_scheme tree"

subsection \<open>Operations\<close>

text \<open>The loop that looks for a key.\<close>

fun tree_find :: "'k compare_fn \<Rightarrow> ('d \<Rightarrow> 'k) \<Rightarrow> 'k \<Rightarrow> ('d, 'z) node_tree \<Rightarrow> ('d, 'z) tnode_scheme option" where
  "tree_find cmp key k Leaf = None"
| "tree_find cmp key k (Node l n r) =
     (let c = cmp k (key (nd_data n)) in
      if c < 0 then tree_find cmp key k l else if c > 0 then tree_find cmp key k r else Some n)"

text \<open>The loops that follow one side; NULL is not followed.\<close>

fun leftmost :: "'n tree \<Rightarrow> 'n option" where
  "leftmost Leaf = None"
| "leftmost (Node l n r) = (if l = Leaf then Some n else leftmost l)"

fun rightmost :: "'n tree \<Rightarrow> 'n option" where
  "rightmost Leaf = None"
| "rightmost (Node l n r) = (if r = Leaf then Some n else rightmost r)"

text \<open>
  Insertion of \<open>d\<close>: the flags \<open>*inserted\<close> and \<open>*oom\<close>, the new root of the subtree. When no node
  could be made, every caller on the way returns its node untouched.
\<close>

fun tree_insert ::
  "(('d, 'z) node_tree \<Rightarrow> ('d, 'z) node_tree option) \<Rightarrow> 'w allocator_t \<Rightarrow> size_t \<Rightarrow> (addr \<Rightarrow> 'd \<Rightarrow> ('d, 'z) tnode_scheme) \<Rightarrow>
   ('d \<Rightarrow> 'd \<Rightarrow> 'd) \<Rightarrow> 'k compare_fn \<Rightarrow> ('d \<Rightarrow> 'k) \<Rightarrow> 'd \<Rightarrow> ('d, 'z) node_tree \<Rightarrow> 'w \<Rightarrow>
   (bool \<times> bool \<times> ('d, 'z) node_tree \<times> 'w) option" where
  "tree_insert bal al sz mk upd cmp key d Leaf w = do {
     (p, w) \<leftarrow> mem_alloc al sz w;
     case p of
       None \<Rightarrow> Some (False, True, Leaf, w)
     | Some a \<Rightarrow> Some (True, False, Node Leaf (mk a d) Leaf, w)
   }"
| "tree_insert bal al sz mk upd cmp key d (Node l n r) w =
     (let c = cmp (key d) (key (nd_data n)) in
      if c < 0 then do {
        (inserted, oom, new_left, w) \<leftarrow> tree_insert bal al sz mk upd cmp key d l w;
        if oom then Some (inserted, oom, Node l n r, w)
        else do { T \<leftarrow> bal (Node new_left n r); Some (inserted, oom, T, w) }
      } else if c > 0 then do {
        (inserted, oom, new_right, w) \<leftarrow> tree_insert bal al sz mk upd cmp key d r w;
        if oom then Some (inserted, oom, Node l n r, w)
        else do { T \<leftarrow> bal (Node l n new_right); Some (inserted, oom, T, w) }
      } else Some (False, False, Node l (n\<lparr>nd_data := upd d (nd_data n)\<rparr>) r, w))"

text \<open>Removal: a node with two children takes over its successor's data.\<close>

fun tree_remove ::
  "(('d, 'z) node_tree \<Rightarrow> ('d, 'z) node_tree option) \<Rightarrow> 'w allocator_t \<Rightarrow> size_t \<Rightarrow> 'k compare_fn \<Rightarrow> ('d \<Rightarrow> 'k) \<Rightarrow>
   'k \<Rightarrow> ('d, 'z) node_tree \<Rightarrow> 'w \<Rightarrow> (bool \<times> ('d, 'z) node_tree \<times> 'w) option" where
  "tree_remove bal al sz cmp key k Leaf w = Some (False, Leaf, w)"
| "tree_remove bal al sz cmp key k (Node l n r) w =
     (let c = cmp k (key (nd_data n)) in
      if c < 0 then do {
        (removed, l, w) \<leftarrow> tree_remove bal al sz cmp key k l w;
        T \<leftarrow> bal (Node l n r);
        Some (removed, T, w)
      } else if c > 0 then do {
        (removed, r, w) \<leftarrow> tree_remove bal al sz cmp key k r w;
        T \<leftarrow> bal (Node l n r);
        Some (removed, T, w)
      } else if l = Leaf then do {
        w \<leftarrow> mem_free al (Some (nd_self n)) sz w;
        Some (True, r, w)
      } else if r = Leaf then do {
        w \<leftarrow> mem_free al (Some (nd_self n)) sz w;
        Some (True, l, w)
      } else do {
        succ \<leftarrow> leftmost r;
        let n = n\<lparr>nd_data := nd_data succ\<rparr>;
        (dummy, r, w) \<leftarrow> tree_remove bal al sz cmp key (key (nd_data n)) r w;
        T \<leftarrow> bal (Node l n r);
        Some (True, T, w)
      })"

fun free_tree :: "'w allocator_t \<Rightarrow> size_t \<Rightarrow> ('d, 'z) node_tree \<Rightarrow> 'w \<Rightarrow> 'w option" where
  "free_tree al sz Leaf w = Some w"
| "free_tree al sz (Node l n r) w = do {
     w \<leftarrow> free_tree al sz l w;
     w \<leftarrow> free_tree al sz r w;
     mem_free al (Some (nd_self n)) sz w
   }"

subsection \<open>Ordered lists\<close>

text \<open>
  The reference: an ordered list without equal keys. \<open>put\<close> inserts, or updates what is there;
  \<open>del\<close> removes.
\<close>

definition ordered :: "'k compare_fn \<Rightarrow> ('d \<Rightarrow> 'k) \<Rightarrow> 'd list \<Rightarrow> bool" where
  "ordered cmp key ds \<longleftrightarrow> sorted_wrt (\<lambda>d e. cmp (key d) (key e) < 0) ds"

definition present :: "'k compare_fn \<Rightarrow> ('d \<Rightarrow> 'k) \<Rightarrow> 'k \<Rightarrow> 'd list \<Rightarrow> bool" where
  "present cmp key k ds \<longleftrightarrow> (\<exists>d \<in> set ds. cmp k (key d) = 0)"

definition look :: "'k compare_fn \<Rightarrow> ('d \<Rightarrow> 'k) \<Rightarrow> 'k \<Rightarrow> 'd list \<Rightarrow> 'd option" where
  "look cmp key k ds = find (\<lambda>d. cmp k (key d) = 0) ds"

definition put :: "'k compare_fn \<Rightarrow> ('d \<Rightarrow> 'k) \<Rightarrow> ('d \<Rightarrow> 'd \<Rightarrow> 'd) \<Rightarrow> 'd \<Rightarrow> 'd list \<Rightarrow> 'd list" where
  "put cmp key upd d ds =
     (if present cmp key (key d) ds then map (\<lambda>e. if cmp (key d) (key e) = 0 then upd d e else e) ds
      else filter (\<lambda>e. cmp (key e) (key d) < 0) ds @ d # filter (\<lambda>e. cmp (key d) (key e) < 0) ds)"

definition del :: "'k compare_fn \<Rightarrow> ('d \<Rightarrow> 'k) \<Rightarrow> 'k \<Rightarrow> 'd list \<Rightarrow> 'd list" where
  "del cmp key k ds = filter (\<lambda>d. cmp k (key d) \<noteq> 0) ds"

lemma ordered_Nil [simp]: "ordered cmp key []"
  by (simp add: ordered_def)

lemma present_Nil [simp]: "\<not> present cmp key k []"
  by (simp add: present_def)

lemma ordered_append:
  "ordered cmp key (ds @ es) \<longleftrightarrow> ordered cmp key ds \<and> ordered cmp key es \<and> (\<forall>d \<in> set ds. \<forall>e \<in> set es. cmp (key d) (key e) < 0)"
  by (simp add: ordered_def sorted_wrt_append)

lemma ordered_Cons:
  "ordered cmp key (d # ds) \<longleftrightarrow> ordered cmp key ds \<and> (\<forall>e \<in> set ds. cmp (key d) (key e) < 0)"
  by (auto simp: ordered_def)

lemma ordered_map_cong: "(\<And>d. key (f d) = key d) \<Longrightarrow> ordered cmp key (map f ds) \<longleftrightarrow> ordered cmp key ds"
  by (simp add: ordered_def sorted_wrt_map)

lemma present_append: "present cmp key k (ds @ es) \<longleftrightarrow> present cmp key k ds \<or> present cmp key k es"
  by (auto simp: present_def)

lemma present_Cons: "present cmp key k (d # ds) \<longleftrightarrow> cmp k (key d) = 0 \<or> present cmp key k ds"
  by (auto simp: present_def)

lemma look_append:
  "look cmp key k (ds @ es) = (case look cmp key k ds of None \<Rightarrow> look cmp key k es | Some d \<Rightarrow> Some d)"
  by (induction ds) (simp_all add: look_def)

lemma look_Cons: "look cmp key k (d # ds) = (if cmp k (key d) = 0 then Some d else look cmp key k ds)"
  by (simp add: look_def)

lemma look_None: "look cmp key k ds = None \<longleftrightarrow> \<not> present cmp key k ds"
  by (auto simp: look_def present_def find_None_iff)

lemma ordered_del: "ordered cmp key ds \<Longrightarrow> ordered cmp key (del cmp key k ds)"
  by (auto simp: ordered_def del_def intro: sorted_wrt_filter)

lemma del_absent: "\<not> present cmp key k ds \<Longrightarrow> del cmp key k ds = ds"
  by (auto simp: present_def del_def intro: filter_True)

context compare_order begin

text \<open>One comparison decides about a whole side of an ordered list.\<close>

lemma side_absent:
  "cmp k m < 0 \<Longrightarrow> \<forall>e \<in> set ds. cmp m (key e) < 0 \<Longrightarrow> \<not> present cmp key k ds"
  "0 < cmp k m \<Longrightarrow> \<forall>e \<in> set ds. cmp (key e) m < 0 \<Longrightarrow> \<not> present cmp key k ds"
  "cmp k m = 0 \<Longrightarrow> \<forall>e \<in> set ds. cmp m (key e) < 0 \<Longrightarrow> \<not> present cmp key k ds"
  "cmp k m = 0 \<Longrightarrow> \<forall>e \<in> set ds. cmp (key e) m < 0 \<Longrightarrow> \<not> present cmp key k ds"
proof -
  show "\<not> present cmp key k ds" if "cmp k m < 0" "\<forall>e \<in> set ds. cmp m (key e) < 0"
    using that cmp_less_trans [of k m] by (force simp: present_def)
  show "\<not> present cmp key k ds" if "0 < cmp k m" "\<forall>e \<in> set ds. cmp (key e) m < 0"
    using that cmp_less_trans [of _ m k] cmp_gt_iff [of k] cmp_zero_iff [of k] by (fastforce simp: present_def)
  show "\<not> present cmp key k ds" if "cmp k m = 0" "\<forall>e \<in> set ds. cmp m (key e) < 0"
    using that cmp_equal_left [of k m] by (force simp: present_def)
  show "\<not> present cmp key k ds" if "cmp k m = 0" "\<forall>e \<in> set ds. cmp (key e) m < 0"
    using that unfolding present_def by (metis cmp_equal_right cmp_less_flip less_irrefl)
qed

lemma put_middle:
  assumes "\<forall>e \<in> set ds. cmp (key e) (key d) < 0" and "\<forall>e \<in> set es. cmp (key d) (key e) < 0"
  shows "put cmp key upd d (ds @ es) = ds @ d # es"
proof -
  have "\<not> present cmp key (key d) ds"
    using assms(1) cmp_zero_iff [of "key d"] by (fastforce simp: present_def)
  moreover have "\<not> present cmp key (key d) es" using assms(2) by (fastforce simp: present_def)
  moreover have "filter (\<lambda>e. cmp (key d) (key e) < 0) ds = []"
    unfolding filter_empty_conv using assms(1) cmp_less_flip less_asym by blast
  moreover have "filter (\<lambda>e. cmp (key e) (key d) < 0) es = []"
    unfolding filter_empty_conv using assms(2) cmp_less_flip less_asym by blast
  ultimately show ?thesis using assms by (simp add: put_def present_append)
qed

lemma ordered_middle:
  assumes "ordered cmp key (ds @ es)" and "\<forall>e \<in> set ds. cmp (key e) (key d) < 0" and "\<forall>e \<in> set es. cmp (key d) (key e) < 0"
  shows "ordered cmp key (ds @ d # es)"
  using assms by (auto simp: ordered_append ordered_Cons)

lemma ordered_split:
  assumes "ordered cmp key ds" and "\<not> present cmp key (key d) ds"
  obtains as bs where "ds = as @ bs" and "\<forall>e \<in> set as. cmp (key e) (key d) < 0" and "\<forall>e \<in> set bs. cmp (key d) (key e) < 0"
proof -
  have "\<exists>as bs. ds = as @ bs \<and> (\<forall>e \<in> set as. cmp (key e) (key d) < 0) \<and> (\<forall>e \<in> set bs. cmp (key d) (key e) < 0)"
    using assms
  proof (induction ds)
    case (Cons c cs)
    show ?case
    proof (cases "cmp (key d) (key c) < 0")
      case True
      with Cons.prems have "\<forall>e \<in> set (c # cs). cmp (key d) (key e) < 0"
        using cmp_less_trans by (auto simp: ordered_Cons)
      then show ?thesis by (intro exI [of _ "[]"] exI [of _ "c # cs"]) simp
    next
      case False
      with Cons.prems(2) have "cmp (key c) (key d) < 0"
        using cmp_gt_iff [of "key d" "key c"] by (auto simp: present_Cons)
      moreover obtain as bs where "cs = as @ bs" "\<forall>e \<in> set as. cmp (key e) (key d) < 0" "\<forall>e \<in> set bs. cmp (key d) (key e) < 0"
        using Cons.IH Cons.prems by (auto simp: ordered_Cons present_Cons)
      ultimately show ?thesis by (intro exI [of _ "c # as"] exI [of _ bs]) simp
    qed
  qed simp
  with that show ?thesis by blast
qed

lemma ordered_put:
  assumes "ordered cmp key ds" and "\<And>e. key (upd d e) = key e"
  shows "ordered cmp key (put cmp key upd d ds)"
proof (cases "present cmp key (key d) ds")
  case True
  with assms show ?thesis by (simp add: put_def ordered_map_cong)
next
  case False
  with assms(1) obtain as bs where "ds = as @ bs" "\<forall>e \<in> set as. cmp (key e) (key d) < 0" "\<forall>e \<in> set bs. cmp (key d) (key e) < 0"
    by (rule ordered_split)
  with assms(1) show ?thesis by (simp add: put_middle ordered_middle)
qed

end

subsection \<open>The nodes of a tree\<close>

definition nodes :: "('d, 'z) node_tree \<Rightarrow> (addr \<times> 'd) list" where
  "nodes T = map (\<lambda>n. (nd_self n, nd_data n)) (inorder T)"

abbreviation selfs :: "('d, 'z) node_tree \<Rightarrow> addr list" where
  "selfs T \<equiv> map fst (nodes T)"

abbreviation elems :: "('d, 'z) node_tree \<Rightarrow> 'd list" where
  "elems T \<equiv> map snd (nodes T)"

lemma nodes_simps [simp]:
  "nodes Leaf = []"
  "nodes (Node l n r) = nodes l @ (nd_self n, nd_data n) # nodes r"
  by (simp_all add: nodes_def)

lemma nodes_empty [simp]: "nodes T = [] \<longleftrightarrow> T = Leaf"
  by (cases T) simp_all

text \<open>The nodes with one key's data updated.\<close>

definition touched :: "('d \<Rightarrow> bool) \<Rightarrow> ('d \<Rightarrow> 'd) \<Rightarrow> (addr \<times> 'd) list \<Rightarrow> (addr \<times> 'd) list" where
  "touched P upd ps = map (\<lambda>(a, e). (a, if P e then upd e else e)) ps"

lemma touched_simps [simp]:
  "touched P upd (ps @ qs) = touched P upd ps @ touched P upd qs"
  "touched P upd (p # ps) = (fst p, if P (snd p) then upd (snd p) else snd p) # touched P upd ps"
  by (simp_all add: touched_def split: prod.split)

lemma touched_fst [simp]: "map fst (touched P upd ps) = map fst ps"
  by (simp add: touched_def comp_def split_beta)

lemma touched_snd: "map snd (touched P upd ps) = map (\<lambda>e. if P e then upd e else e) (map snd ps)"
  by (simp add: touched_def comp_def split_beta)

lemma touched_absent: "\<not> present cmp key k (map snd ps) \<Longrightarrow> touched (\<lambda>e. cmp k (key e) = 0) upd ps = ps"
  unfolding touched_def by (rule map_idI) (auto simp: present_def)

lemma leftmost_is: "T \<noteq> Leaf \<Longrightarrow> \<exists>n. leftmost T = Some n \<and> (nd_self n, nd_data n) = hd (nodes T)"
  by (induction T) (auto simp: hd_append)

lemma rightmost_is: "T \<noteq> Leaf \<Longrightarrow> \<exists>n. rightmost T = Some n \<and> (nd_self n, nd_data n) = last (nodes T)"
  by (induction T) auto

subsection \<open>Balancing\<close>

text \<open>
  What insertion and removal need of the rebalancing step: given a well-formed node one of
  whose subtrees changed its height by at most one, it gives a well-formed tree of the same nodes
  whose height differs from the old one by at most one.
\<close>

locale balanced = compare_order cmp
  for cmp :: "'k compare_fn" +
  fixes bal :: "('d, 'z) node_tree \<Rightarrow> ('d, 'z) node_tree option"
    and ok :: "('d, 'z) node_tree \<Rightarrow> bool"
    and ht :: "('d, 'z) node_tree \<Rightarrow> int"
    and mk :: "addr \<Rightarrow> 'd \<Rightarrow> ('d, 'z) tnode_scheme"
    and upd :: "'d \<Rightarrow> 'd \<Rightarrow> 'd"
    and key :: "'d \<Rightarrow> 'k"
  assumes ok_Leaf: "ok Leaf"
    and ok_new: "ok (Node Leaf (mk a d) Leaf) \<and> \<bar>ht (Node Leaf (mk a d) Leaf) - ht Leaf\<bar> \<le> 1"
    and mk_fields: "nd_self (mk a d) = a \<and> nd_data (mk a d) = d"
    and ok_sub: "ok (Node l n r) \<Longrightarrow> ok l \<and> ok r"
    and ok_data: "ok (Node l n r) \<Longrightarrow> ok (Node l (n\<lparr>nd_data := d\<rparr>) r) \<and> ht (Node l (n\<lparr>nd_data := d\<rparr>) r) = ht (Node l n r)"
    and ht_left: "ok (Node l n Leaf) \<Longrightarrow> \<bar>ht l - ht (Node l n Leaf)\<bar> \<le> 1"
    and ht_right: "ok (Node Leaf n r) \<Longrightarrow> \<bar>ht r - ht (Node Leaf n r)\<bar> \<le> 1"
    and bal_left: "ok (Node l n r) \<Longrightarrow> ok l' \<Longrightarrow> \<bar>ht l' - ht l\<bar> \<le> 1 \<Longrightarrow>
      \<exists>T. bal (Node l' n r) = Some T \<and> ok T \<and> \<bar>ht T - ht (Node l n r)\<bar> \<le> 1 \<and> nodes T = nodes (Node l' n r)"
    and bal_right: "ok (Node l n r) \<Longrightarrow> ok r' \<Longrightarrow> \<bar>ht r' - ht r\<bar> \<le> 1 \<Longrightarrow>
      \<exists>T. bal (Node l n r') = Some T \<and> ok T \<and> \<bar>ht T - ht (Node l n r)\<bar> \<le> 1 \<and> nodes T = nodes (Node l n r')"
    and upd_key: "key (upd d e) = key e"
begin

lemma tree_find_is:
  assumes "ordered cmp key (elems T)"
  shows "map_option nd_data (tree_find cmp key k T) = look cmp key k (elems T)"
  using assms
proof (induction T)
  case (Node l n r)
  let ?m = "key (nd_data n)"
  from Node.prems have o: "ordered cmp key (elems l)" "ordered cmp key (elems r)"
    "\<forall>e \<in> set (elems l). cmp (key e) ?m < 0" "\<forall>e \<in> set (elems r). cmp ?m (key e) < 0"
    by (auto simp: ordered_append ordered_Cons)
  note IH = Node.IH(1) [OF o(1)] Node.IH(2) [OF o(2)]
  consider "cmp k ?m < 0" | "0 < cmp k ?m" | "cmp k ?m = 0" by linarith
  then show ?case
  proof cases
    case 1
    with side_absent(1) [OF 1 o(4)] IH(1) show ?thesis
      by (simp add: look_append look_Cons Let_def flip: look_None split: option.split)
  next
    case 2
    with side_absent(2) [OF 2 o(3)] IH(2) show ?thesis
      by (simp add: look_append look_Cons Let_def flip: look_None)
  next
    case 3
    with side_absent(4) [OF 3 o(3)] show ?thesis
      by (simp add: look_append look_Cons Let_def flip: look_None)
  qed
qed (simp add: look_def)

lemma insert_present:
  assumes "ok T" and "ordered cmp key (elems T)" and "present cmp key (key d) (elems T)"
  shows "\<exists>T'. tree_insert bal al sz mk upd cmp key d T w = Some (False, False, T', w) \<and> ok T' \<and> \<bar>ht T' - ht T\<bar> \<le> 1 \<and>
    nodes T' = touched (\<lambda>e. cmp (key d) (key e) = 0) (upd d) (nodes T)"
  using assms
proof (induction T)
  case (Node l n r)
  let ?m = "key (nd_data n)" and ?ins = "tree_insert bal al sz mk upd cmp key d"
  let ?up = "touched (\<lambda>e. cmp (key d) (key e) = 0) (upd d)"
  from Node.prems have o: "ordered cmp key (elems l)" "ordered cmp key (elems r)"
    "\<forall>e \<in> set (elems l). cmp (key e) ?m < 0" "\<forall>e \<in> set (elems r). cmp ?m (key e) < 0"
    by (auto simp: ordered_append ordered_Cons)
  from ok_sub [OF Node.prems(1)] have ok: "ok l" "ok r" by auto
  consider "cmp (key d) ?m < 0" | "0 < cmp (key d) ?m" | "cmp (key d) ?m = 0" by linarith
  then show ?case
  proof cases
    case 1
    note r = side_absent(1) [OF 1 o(4)]
    with 1 Node.prems(3) have "present cmp key (key d) (elems l)" by (simp add: present_append present_Cons)
    from Node.IH(1) [OF ok(1) o(1) this] obtain l' where
      l: "?ins l w = Some (False, False, l', w)" "ok l'" "\<bar>ht l' - ht l\<bar> \<le> 1" "nodes l' = ?up (nodes l)" by blast
    from bal_left [OF Node.prems(1) l(2,3)] 1 l(1,4) r show ?thesis by (auto simp: touched_absent)
  next
    case 2
    note l = side_absent(2) [OF 2 o(3)]
    with 2 Node.prems(3) have "present cmp key (key d) (elems r)" by (simp add: present_append present_Cons)
    from Node.IH(2) [OF ok(2) o(2) this] obtain r' where
      r: "?ins r w = Some (False, False, r', w)" "ok r'" "\<bar>ht r' - ht r\<bar> \<le> 1" "nodes r' = ?up (nodes r)" by blast
    from bal_right [OF Node.prems(1) r(2,3)] 2 r(1,4) l show ?thesis by (auto simp: touched_absent)
  next
    case 3
    with ok_data [OF Node.prems(1), of "upd d (nd_data n)"] side_absent(3) [OF 3 o(4)] side_absent(4) [OF 3 o(3)]
    show ?thesis by (simp add: touched_absent)
  qed
qed simp

lemma insert_refused:
  assumes "ordered cmp key (elems T)" and "\<not> present cmp key (key d) (elems T)"
    and "mem_alloc al sz w = Some (None, w')"
  shows "tree_insert bal al sz mk upd cmp key d T w = Some (False, True, T, w')"
  using assms
proof (induction T)
  case (Node l n r)
  let ?m = "key (nd_data n)"
  from Node.prems(1) have o: "ordered cmp key (elems l)" "ordered cmp key (elems r)"
    by (auto simp: ordered_append ordered_Cons)
  from Node.prems(2) have "\<not> present cmp key (key d) (elems l)" "\<not> present cmp key (key d) (elems r)" "cmp (key d) ?m \<noteq> 0"
    by (auto simp: present_append present_Cons)
  with Node.IH o Node.prems(3) show ?case by (simp add: Let_def)
qed simp

text \<open>A new node takes its place between the smaller and the greater ones.\<close>

lemma insert_granted:
  assumes "ok T" and "ordered cmp key (elems T)" and "\<not> present cmp key (key d) (elems T)"
    and m: "mem_alloc al sz w = Some (Some a, w')"
  shows "\<exists>T' ps qs. tree_insert bal al sz mk upd cmp key d T w = Some (True, False, T', w') \<and> ok T' \<and> \<bar>ht T' - ht T\<bar> \<le> 1 \<and>
    nodes T = ps @ qs \<and> nodes T' = ps @ (a, d) # qs \<and>
    (\<forall>e \<in> set (map snd ps). cmp (key e) (key d) < 0) \<and> (\<forall>e \<in> set (map snd qs). cmp (key d) (key e) < 0)"
  using assms(1-3)
proof (induction T)
  case Leaf
  from m mk_fields [of a d] ok_new [of a d] show ?case by (auto simp del: mem_alloc.simps)
next
  case (Node l n r)
  let ?m = "key (nd_data n)" and ?ins = "tree_insert bal al sz mk upd cmp key d"
  from Node.prems(2) have o: "ordered cmp key (elems l)" "ordered cmp key (elems r)"
    "\<forall>e \<in> set (elems l). cmp (key e) ?m < 0" "\<forall>e \<in> set (elems r). cmp ?m (key e) < 0"
    by (auto simp: ordered_append ordered_Cons)
  from Node.prems(3) have p: "\<not> present cmp key (key d) (elems l)" "\<not> present cmp key (key d) (elems r)" "cmp (key d) ?m \<noteq> 0"
    by (auto simp: present_append present_Cons)
  from ok_sub [OF Node.prems(1)] have ok: "ok l" "ok r" by auto
  show ?case
  proof (cases "cmp (key d) ?m < 0")
    case True
    from Node.IH(1) [OF ok(1) o(1) p(1)] obtain l' ps qs where
      l: "?ins l w = Some (True, False, l', w')" "ok l'" "\<bar>ht l' - ht l\<bar> \<le> 1" "nodes l = ps @ qs" "nodes l' = ps @ (a, d) # qs"
      "\<forall>e \<in> set (map snd ps). cmp (key e) (key d) < 0" "\<forall>e \<in> set (map snd qs). cmp (key d) (key e) < 0" by blast
    obtain T where T: "bal (Node l' n r) = Some T" "ok T" "\<bar>ht T - ht (Node l n r)\<bar> \<le> 1" "nodes T = nodes (Node l' n r)"
      using bal_left [OF Node.prems(1) l(2,3)] by blast
    have "\<forall>e \<in> set (map snd (qs @ (nd_self n, nd_data n) # nodes r)). cmp (key d) (key e) < 0"
      using l(7) True o(4) cmp_less_trans by auto
    with True l(1,4-6) T show ?thesis
      by (intro exI [of _ T] exI [of _ ps] exI [of _ "qs @ (nd_self n, nd_data n) # nodes r"]) simp
  next
    case False
    with p(3) have gt: "0 < cmp (key d) ?m" "\<not> cmp (key d) ?m < 0" by auto
    from Node.IH(2) [OF ok(2) o(2) p(2)] obtain r' ps qs where
      r: "?ins r w = Some (True, False, r', w')" "ok r'" "\<bar>ht r' - ht r\<bar> \<le> 1" "nodes r = ps @ qs" "nodes r' = ps @ (a, d) # qs"
      "\<forall>e \<in> set (map snd ps). cmp (key e) (key d) < 0" "\<forall>e \<in> set (map snd qs). cmp (key d) (key e) < 0" by blast
    obtain T where T: "bal (Node l n r') = Some T" "ok T" "\<bar>ht T - ht (Node l n r)\<bar> \<le> 1" "nodes T = nodes (Node l n r')"
      using bal_right [OF Node.prems(1) r(2,3)] by blast
    have "\<forall>e \<in> set (map snd (nodes l @ (nd_self n, nd_data n) # ps)). cmp (key e) (key d) < 0"
      using r(6) gt o(3) cmp_less_trans cmp_gt_iff by auto
    with gt r(1,4,5,7) T show ?thesis
      by (intro exI [of _ T] exI [of _ "nodes l @ (nd_self n, nd_data n) # ps"] exI [of _ qs]) simp
  qed
qed

end

end
