(* ===== verification/Seqc_Tree_Owned.thy ===== *)
theory Seqc_Tree_Owned
  imports Seqc_Tree
begin

section \<open>Removal, and the blocks of a tree\<close>

text \<open>
  Removal from a search tree frees exactly one node, not always the one whose data goes away.
  The blocks of a tree are those of its nodes, all of one size; insertion adds one, removal takes
  one out, \<open>free_subtree\<close> frees them all.
\<close>

lemma del_append: "del cmp key k (ds @ es) = del cmp key k ds @ del cmp key k es"
  by (simp add: del_def)

lemma del_Cons: "del cmp key k (d # ds) = (if cmp k (key d) = 0 then del cmp key k ds else d # del cmp key k ds)"
  by (simp add: del_def)

context compare_order begin

lemma del_least:
  assumes "ordered cmp key (d # ds)"
  shows "del cmp key (key d) (d # ds) = ds"
proof -
  have "\<not> present cmp key (key d) ds"
    using assms by (fastforce simp: ordered_Cons present_def)
  then show ?thesis by (simp add: del_Cons del_absent cmp_refl)
qed

end

context balanced begin

lemma remove_absent:
  assumes "ok T" and "ordered cmp key (elems T)" and "\<not> present cmp key k (elems T)"
  shows "\<exists>T'. tree_remove bal al sz cmp key k T w = Some (False, T', w) \<and> ok T' \<and> \<bar>ht T' - ht T\<bar> \<le> 1 \<and> nodes T' = nodes T"
  using assms
proof (induction T)
  case (Node l n r)
  let ?m = "key (nd_data n)" and ?rm = "tree_remove bal al sz cmp key k"
  from Node.prems have o: "ordered cmp key (elems l)" "ordered cmp key (elems r)"
    by (auto simp: ordered_append ordered_Cons)
  from Node.prems(3) have p: "\<not> present cmp key k (elems l)" "\<not> present cmp key k (elems r)" "cmp k ?m \<noteq> 0"
    by (auto simp: present_append present_Cons)
  from ok_sub [OF Node.prems(1)] have ok: "ok l" "ok r" by auto
  show ?case
  proof (cases "cmp k ?m < 0")
    case True
    from Node.IH(1) [OF ok(1) o(1) p(1)] obtain l' where
      l: "?rm l w = Some (False, l', w)" "ok l'" "\<bar>ht l' - ht l\<bar> \<le> 1" "nodes l' = nodes l" by blast
    from bal_left [OF Node.prems(1) l(2,3)] True l show ?thesis by (auto simp: Let_def)
  next
    case False
    with p(3) have gt: "0 < cmp k ?m" by auto
    from Node.IH(2) [OF ok(2) o(2) p(2)] obtain r' where
      r: "?rm r w = Some (False, r', w)" "ok r'" "\<bar>ht r' - ht r\<bar> \<le> 1" "nodes r' = nodes r" by blast
    from bal_right [OF Node.prems(1) r(2,3)] gt r show ?thesis by (auto simp: Let_def)
  qed
qed (simp add: ok_Leaf)

definition removes :: "'w allocator_t \<Rightarrow> size_t \<Rightarrow> 'k \<Rightarrow> ('d, 'z) node_tree \<Rightarrow> addr \<Rightarrow> ('d, 'z) node_tree \<Rightarrow> bool" where
  "removes al sz k T a T' \<longleftrightarrow>
     (\<forall>w. tree_remove bal al sz cmp key k T w = do { w \<leftarrow> mem_free al (Some a) sz w; Some (True, T', w) }) \<and>
     ok T' \<and> \<bar>ht T' - ht T\<bar> \<le> 1 \<and> elems T' = del cmp key k (elems T) \<and> mset (selfs T) = add_mset a (mset (selfs T'))"

lemma remove_left:
  assumes "removes al sz k l a l'" and "ok (Node l n r)" and "cmp k (key (nd_data n)) < 0"
    and "\<not> present cmp key k (elems r)"
  shows "\<exists>T'. removes al sz k (Node l n r) a T'"
proof -
  from assms(1) have l: "\<And>w. tree_remove bal al sz cmp key k l w = do { w \<leftarrow> mem_free al (Some a) sz w; Some (True, l', w) }"
    "ok l'" "\<bar>ht l' - ht l\<bar> \<le> 1" "elems l' = del cmp key k (elems l)" "mset (selfs l) = add_mset a (mset (selfs l'))"
    by (auto simp: removes_def)
  obtain T where T: "bal (Node l' n r) = Some T" "ok T" "\<bar>ht T - ht (Node l n r)\<bar> \<le> 1" "nodes T = nodes (Node l' n r)"
    using bal_left [OF assms(2) l(2,3)] by blast
  have "removes al sz k (Node l n r) a T" unfolding removes_def
    using assms(3,4) T l by (simp add: Let_def del_append del_Cons del_absent)
  then show ?thesis by blast
qed

lemma remove_right:
  assumes "removes al sz k r a r'" and "ok (Node l n r)" and "0 < cmp k (key (nd_data n))"
    and "\<not> present cmp key k (elems l)"
  shows "\<exists>T'. removes al sz k (Node l n r) a T'"
proof -
  from assms(1) have r: "\<And>w. tree_remove bal al sz cmp key k r w = do { w \<leftarrow> mem_free al (Some a) sz w; Some (True, r', w) }"
    "ok r'" "\<bar>ht r' - ht r\<bar> \<le> 1" "elems r' = del cmp key k (elems r)" "mset (selfs r) = add_mset a (mset (selfs r'))"
    by (auto simp: removes_def)
  obtain T where T: "bal (Node l n r') = Some T" "ok T" "\<bar>ht T - ht (Node l n r)\<bar> \<le> 1" "nodes T = nodes (Node l n r')"
    using bal_right [OF assms(2) r(2,3)] by blast
  have "removes al sz k (Node l n r) a T" unfolding removes_def
    using assms(3,4) T r by (simp add: Let_def del_append del_Cons del_absent)
  then show ?thesis by blast
qed

lemma remove_successor:
  assumes IH: "\<And>k. present cmp key k (elems r) \<Longrightarrow> \<exists>a r'. removes al sz k r a r'"
    and ok: "ok (Node l n r)" and o: "ordered cmp key (elems r)" and k: "cmp k (key (nd_data n)) = 0"
    and p: "\<not> present cmp key k (elems l)" "\<not> present cmp key k (elems r)" and ne: "l \<noteq> Leaf" "r \<noteq> Leaf"
  shows "\<exists>a T'. removes al sz k (Node l n r) a T'"
proof -
  obtain s where s: "leftmost r = Some s" "(nd_self s, nd_data s) = hd (nodes r)" using leftmost_is [OF ne(2)] by blast
  from ne(2) have "nodes r = (nd_self s, nd_data s) # tl (nodes r)" unfolding s(2) by simp
  then have e: "elems r = nd_data s # map snd (tl (nodes r))" by (metis list.simps(9) snd_conv)
  let ?n = "n\<lparr>nd_data := nd_data s\<rparr>"
  have "present cmp key (key (nd_data s)) (elems r)" unfolding e by (simp add: present_Cons cmp_refl)
  from IH [OF this] obtain a r' where r0: "removes al sz (key (nd_data s)) r a r'" by blast
  then have r: "\<And>w. tree_remove bal al sz cmp key (key (nd_data s)) r w = do { w \<leftarrow> mem_free al (Some a) sz w; Some (True, r', w) }"
    "ok r'" "\<bar>ht r' - ht r\<bar> \<le> 1" "elems r' = del cmp key (key (nd_data s)) (elems r)"
    "mset (selfs r) = add_mset a (mset (selfs r'))"
    by (auto simp: removes_def)
  have r': "elems r' = map snd (tl (nodes r))" using r(4) o del_least unfolding e by metis
  from ok_data [OF ok, of "nd_data s"] have ok': "ok (Node l ?n r)" "ht (Node l ?n r) = ht (Node l n r)" by auto
  obtain T where T: "bal (Node l ?n r') = Some T" "ok T" "\<bar>ht T - ht (Node l n r)\<bar> \<le> 1" "nodes T = nodes (Node l ?n r')"
    using bal_right [OF ok'(1) r(2,3)] ok'(2) by auto
  have "elems T = del cmp key k (elems (Node l n r))"
  proof -
    have "elems T = elems l @ elems r" using T(4) r' e by simp
    with k p show ?thesis by (simp add: del_append del_Cons del_absent)
  qed
  moreover have "tree_remove bal al sz cmp key k (Node l n r) w = do { w \<leftarrow> mem_free al (Some a) sz w; Some (True, T, w) }" for w
    using k ne s(1) r(1) T(1) by (simp add: Let_def)
  ultimately have "removes al sz k (Node l n r) a T" unfolding removes_def using T(2-4) r(5) by simp
  then show ?thesis by blast
qed

lemma remove_present:
  assumes "ok T" and "ordered cmp key (elems T)" and "present cmp key k (elems T)"
  shows "\<exists>a T'. removes al sz k T a T'"
  using assms
proof (induction T arbitrary: k)
  case (Node l n r)
  let ?m = "key (nd_data n)"
  from Node.prems have o: "ordered cmp key (elems l)" "ordered cmp key (elems r)"
    "\<forall>e \<in> set (elems l). cmp (key e) ?m < 0" "\<forall>e \<in> set (elems r). cmp ?m (key e) < 0"
    by (auto simp: ordered_append ordered_Cons)
  from ok_sub [OF Node.prems(1)] have ok: "ok l" "ok r" by auto
  consider "cmp k ?m < 0" | "0 < cmp k ?m" | "cmp k ?m = 0" by linarith
  then show ?case
  proof cases
    case 1
    note r = side_absent(1) [OF 1 o(4)]
    with 1 Node.prems(3) have "present cmp key k (elems l)" by (simp add: present_append present_Cons)
    from Node.IH(1) [OF ok(1) o(1) this] remove_left [OF _ Node.prems(1) 1 r] show ?thesis by blast
  next
    case 2
    note l = side_absent(2) [OF 2 o(3)]
    with 2 Node.prems(3) have "present cmp key k (elems r)" by (simp add: present_append present_Cons)
    from Node.IH(2) [OF ok(2) o(2) this] remove_right [OF _ Node.prems(1) 2 l] show ?thesis by blast
  next
    case 3
    note p = side_absent(4) [OF 3 o(3)] side_absent(3) [OF 3 o(4)]
    consider "l = Leaf" | "r = Leaf" "l \<noteq> Leaf" | "l \<noteq> Leaf" "r \<noteq> Leaf" by blast
    then show ?thesis
    proof cases
      case 1
      have "removes al sz k (Node l n r) (nd_self n) r" unfolding removes_def
        using 1 3 p ok ht_right Node.prems(1) by (simp add: Let_def del_Cons del_absent)
      then show ?thesis by blast
    next
      case 2
      have "removes al sz k (Node l n r) (nd_self n) l" unfolding removes_def
        using 2 3 p ok ht_left Node.prems(1) by (simp add: Let_def del_Cons del_append del_absent)
      then show ?thesis by blast
    next
      case 3
      show ?thesis
        by (rule remove_successor [OF Node.IH(2) [OF ok(2) o(2)] Node.prems(1) o(2) \<open>cmp k ?m = 0\<close> p 3])
    qed
  qed
qed simp

end

subsection \<open>Blocks\<close>

definition tree_blocks :: "size_t \<Rightarrow> ('d, 'z) node_tree \<Rightarrow> (addr \<rightharpoonup> size_t)" where
  "tree_blocks sz T = (\<lambda>a. if a \<in> set (selfs T) then Some sz else None)"

lemma tree_blocks_Leaf [simp]: "tree_blocks sz Leaf = Map.empty"
  by (simp add: tree_blocks_def)

lemma dom_tree_blocks [simp]: "dom (tree_blocks sz T) = set (selfs T)"
  by (auto simp: tree_blocks_def dom_def)

lemma tree_blocks_at: "a \<in> set (selfs T) \<Longrightarrow> tree_blocks sz T a = Some sz"
  by (simp add: tree_blocks_def)

lemma tree_blocks_same: "set (selfs T') = set (selfs T) \<Longrightarrow> tree_blocks sz T' = tree_blocks sz T"
  by (simp add: tree_blocks_def)

lemma tree_blocks_new: "set (selfs T') = insert a (set (selfs T)) \<Longrightarrow> tree_blocks sz T' = (tree_blocks sz T)(a \<mapsto> sz)"
  by (auto simp: tree_blocks_def fun_eq_iff fun_upd_apply)

lemma tree_blocks_drop: "set (selfs T') = set (selfs T) - {a} \<Longrightarrow> tree_blocks sz T' = (tree_blocks sz T)(a := None)"
  by (auto simp: tree_blocks_def fun_eq_iff fun_upd_apply)

context heap_allocator begin

lemma free_tree_at:
  assumes "owns (live w) F B" and "distinct (selfs T)" and "\<forall>a \<in> set (selfs T). B a = Some sz"
  shows "\<exists>w'. free_tree (Some t) sz T w = Some w' \<and> owns (live w') F (B |` (- set (selfs T)))"
  using assms
proof (induction T arbitrary: w B)
  case Leaf
  then show ?case by (simp add: restrict_map_def)
next
  case (Node l n r)
  from Node.IH(1) [OF Node.prems(1)] Node.prems(2,3) obtain w1 where
    1: "free_tree (Some t) sz l w = Some w1" "owns (live w1) F (B |` (- set (selfs l)))" by auto
  have "distinct (selfs r)" "\<forall>a \<in> set (selfs r). (B |` (- set (selfs l))) a = Some sz"
    using Node.prems(2,3) by (auto simp: restrict_map_def)
  from Node.IH(2) [OF 1(2) this] obtain w2 where
    2: "free_tree (Some t) sz r w1 = Some w2" "owns (live w2) F (B |` (- set (selfs l)) |` (- set (selfs r)))" by blast
  let ?C = "B |` (- set (selfs l)) |` (- set (selfs r))"
  have n: "?C (nd_self n) = Some sz" using Node.prems(2,3) by (auto simp: restrict_map_def)
  obtain w3 where 3: "mem_free (Some t) (Some (nd_self n)) sz w2 = Some w3" "owns (live w3) F (?C(nd_self n := None))"
    by (rule owns_mem_free [where p = "nd_self n" and n = sz, OF 2(2) n])
  have "?C(nd_self n := None) = B |` (- set (selfs (Node l n r)))"
    by (auto simp: restrict_map_def fun_eq_iff fun_upd_apply)
  with 1 2 3 show ?case by (simp del: mem_free.simps)
qed

lemma free_tree_all:
  assumes "owns (live w) F (tree_blocks sz T)" and "distinct (selfs T)"
  obtains w' where "free_tree (Some t) sz T w = Some w'" and "live w' = F"
proof -
  have "tree_blocks sz T |` (- set (selfs T)) = Map.empty" by (auto simp: tree_blocks_def restrict_map_def)
  with free_tree_at [OF assms, of sz] that show ?thesis by (auto simp: tree_blocks_at)
qed

end

subsection \<open>A tree and the struct that holds it\<close>

text \<open>
  The struct is a block of \<open>k\<close> bytes at \<open>self\<close>, its nodes are blocks of \<open>sz\<close> bytes; together they
  are what the tree owns. The data of the nodes, in order, is \<open>ds\<close>.
\<close>

definition tree_at ::
  "(('d, 'z) node_tree \<Rightarrow> bool) \<Rightarrow> 'k compare_fn \<Rightarrow> ('d \<Rightarrow> 'k) \<Rightarrow> ('w \<Rightarrow> addr \<rightharpoonup> size_t) \<Rightarrow> (addr \<rightharpoonup> size_t) \<Rightarrow> 'w \<Rightarrow>
   addr \<Rightarrow> size_t \<Rightarrow> size_t \<Rightarrow> ('d, 'z) node_tree \<Rightarrow> 'd list \<Rightarrow> bool" where
  "tree_at ok cmp key live R w self k sz T ds \<longleftrightarrow>
     ok T \<and> elems T = ds \<and> ordered cmp key ds \<and> distinct (selfs T) \<and> self \<notin> set (selfs T) \<and>
     owns (live w) R ((tree_blocks sz T)(self \<mapsto> k))"

definition tree_is ::
  "(('d, 'z) node_tree \<Rightarrow> bool) \<Rightarrow> 'k compare_fn \<Rightarrow> ('d \<Rightarrow> 'k) \<Rightarrow> addr \<Rightarrow> ('d, 'z) node_tree \<Rightarrow> 'd list \<Rightarrow> bool" where
  "tree_is ok cmp key self T ds \<longleftrightarrow>
     ok T \<and> elems T = ds \<and> ordered cmp key ds \<and> distinct (selfs T) \<and> self \<notin> set (selfs T)"

lemma tree_at_split:
  "tree_at ok cmp key live R w self k sz T ds \<longleftrightarrow>
     tree_is ok cmp key self T ds \<and> owns (live w) R ((tree_blocks sz T)(self \<mapsto> k))"
  by (auto simp: tree_at_def tree_is_def)

lemma tree_at_frame:
  assumes "tree_at ok cmp key live R w self k sz T ds"
  shows "owns (live w) (R(self \<mapsto> k)) (tree_blocks sz T)" and "self \<notin> dom R"
  using assms owns_wrap_iff [of self "tree_blocks sz T" "live w" R k] by (auto simp: tree_at_def)

lemma tree_atI:
  assumes "ok T" and "elems T = ds" and "self \<notin> dom R" and "ordered cmp key ds" and "distinct (selfs T)"
    and "owns (live w) (R(self \<mapsto> k)) (tree_blocks sz T)"
  shows "tree_at ok cmp key live R w self k sz T ds"
  using assms owns_wrap_iff [of self "tree_blocks sz T" "live w" R k] by (auto simp: tree_at_def)

lemma selfs_permuted:
  assumes "mset (selfs T) = add_mset a (mset (selfs T'))" and "distinct (selfs T)"
  shows "distinct (selfs T')" and "set (selfs T') = set (selfs T) - {a}" and "a \<in> set (selfs T)"
    and "length (nodes T) = Suc (length (nodes T'))"
proof -
  have m: "mset (selfs T) = mset (a # selfs T')" using assms(1) by simp
  have s: "set (selfs T) = insert a (set (selfs T'))" "distinct (a # selfs T')" "length (selfs T) = Suc (length (selfs T'))"
    using mset_eq_setD [OF m] mset_eq_imp_distinct_iff [OF m] assms(2) mset_eq_length [OF m] by simp_all
  from s(2,3) show "distinct (selfs T')" "length (nodes T) = Suc (length (nodes T'))" by simp_all
  from s show "set (selfs T') = set (selfs T) - {a}" "a \<in> set (selfs T)" by auto
qed

lemma put_not_empty: "put cmp key upd d ds \<noteq> []"
  by (auto simp: put_def present_def)

lemma tree_at_put_not_Leaf:
  assumes "tree_at ok cmp key live R w self k sz T (put cmp key upd d ds)"
  shows "T \<noteq> Leaf"
proof
  assume "T = Leaf"
  with assms have "put cmp key upd d ds = []" by (simp add: tree_at_def)
  with put_not_empty show False by metis
qed

lemma put_present_same: "present cmp key (key d) ds \<Longrightarrow> put cmp key (\<lambda>d e. e) d ds = ds"
  by (simp add: put_def)

locale tree_store = heap_allocator t live + balanced cmp bal ok ht mk upd key
  for t :: "'w vtable" and live :: "'w \<Rightarrow> addr \<rightharpoonup> size_t" and cmp :: "'k compare_fn"
    and bal :: "('d, 'z) node_tree \<Rightarrow> ('d, 'z) node_tree option" and ok ht mk upd and key :: "'d \<Rightarrow> 'k"
begin

lemma new_tree_at: "owns (live w) R [self \<mapsto> k] \<Longrightarrow> tree_at ok cmp key live R w self k sz Leaf []"
  by (simp add: tree_at_def ok_Leaf)

lemma insert_at:
  assumes at: "tree_at ok cmp key live R w self k sz T ds"
  obtains (added) T' w' where "tree_insert bal (Some t) sz mk upd cmp key d T w = Some (True, False, T', w')"
      and "\<not> present cmp key (key d) ds" and "tree_at ok cmp key live R w' self k sz T' (put cmp key upd d ds)"
      and "length (put cmp key upd d ds) = Suc (length ds)"
  | (present) T' where "tree_insert bal (Some t) sz mk upd cmp key d T w = Some (False, False, T', w)"
      and "present cmp key (key d) ds" and "tree_at ok cmp key live R w self k sz T' (put cmp key upd d ds)"
      and "length (put cmp key upd d ds) = length ds"
  | (oom) w' where "tree_insert bal (Some t) sz mk upd cmp key d T w = Some (False, True, T, w')"
      and "\<not> present cmp key (key d) ds" and "tree_at ok cmp key live R w' self k sz T ds"
      and "refuses t sz"
proof -
  note f = tree_at_frame [OF at]
  from at have T: "ok T" "ordered cmp key (elems T)" "elems T = ds" "distinct (selfs T)" by (auto simp: tree_at_def)
  have o: "ordered cmp key (put cmp key upd d ds)" using ordered_put [of key ds upd d] T(2,3) upd_key by simp
  show ?thesis
  proof (cases "present cmp key (key d) ds")
    case True
    have p: "present cmp key (key d) (elems T)" unfolding T(3) by (rule True)
    obtain T' where
      i: "tree_insert bal (Some t) sz mk upd cmp key d T w = Some (False, False, T', w)" "ok T'"
        "nodes T' = touched (\<lambda>e. cmp (key d) (key e) = 0) (upd d) (nodes T)"
      using insert_present [OF T(1,2) p, of "Some t" sz w] by (elim exE conjE) (rule that; assumption)
    have e: "elems T' = put cmp key upd d ds" "selfs T' = selfs T"
      using i(3) True T(3) by (simp_all add: touched_snd put_def)
    have "tree_at ok cmp key live R w self k sz T' (put cmp key upd d ds)"
      by (rule tree_atI [where ok = ok and T = T', OF i(2) e(1) f(2) o]) (use f(1) T(4) e(2) in \<open>simp_all add: tree_blocks_def\<close>)
    from present [OF i(1) True this] True show ?thesis by (simp add: put_def)
  next
    case False
    obtain p w' where m: "mem_alloc (Some t) sz w = Some (p, w')" by (cases "vt_alloc t sz w") simp
    show ?thesis
    proof (cases p)
      case None
      with m have m': "mem_alloc (Some t) sz w = Some (None, w')" by simp
      have "tree_at ok cmp key live R w' self k sz T ds"
        by (rule tree_atI [where ok = ok and T = T, OF T(1,3) f(2)]) (use T owns_mem_alloc_refused [OF f(1) m'] in simp_all)
      moreover have "tree_insert bal (Some t) sz mk upd cmp key d T w = Some (False, True, T, w')"
        by (rule insert_refused [OF T(2) _ m']) (use False T(3) in simp)
      moreover have "refuses t sz" by (rule refuses_alloc [OF m' order_refl])
      ultimately show ?thesis using oom False by blast
    next
      case (Some a)
      with m have m': "mem_alloc (Some t) sz w = Some (Some a, w')" by simp
      note g = owns_mem_alloc [OF f(1) m']
      have p: "\<not> present cmp key (key d) (elems T)" unfolding T(3) by (rule False)
      obtain T' ps qs where
        i: "tree_insert bal (Some t) sz mk upd cmp key d T w = Some (True, False, T', w')" "ok T'"
          "nodes T = ps @ qs" "nodes T' = ps @ (a, d) # qs"
          "\<forall>e \<in> set (map snd ps). cmp (key e) (key d) < 0" "\<forall>e \<in> set (map snd qs). cmp (key d) (key e) < 0"
        using insert_granted [OF T(1,2) p m'] by (elim exE conjE) (rule that; assumption)
      have ds: "put cmp key upd d ds = elems T'" unfolding T(3) [symmetric] i(3,4) map_append
        using put_middle [OF i(5,6)] by simp
      have "a \<notin> set (selfs T)" using g(2) by simp
      then have s: "distinct (selfs T')" "set (selfs T') = insert a (set (selfs T))"
        using T(4) unfolding i(3,4) by auto
      have "tree_at ok cmp key live R w' self k sz T' (put cmp key upd d ds)"
        by (rule tree_atI [where ok = ok and T = T', OF i(2) ds [symmetric] f(2) o s(1)]) (use g(1) s(2) in \<open>simp add: tree_blocks_new\<close>)
      moreover have "length (elems T') = Suc (length (elems T))" by (simp add: i(3,4))
      then have "length (put cmp key upd d ds) = Suc (length ds)" by (simp only: ds T(3))
      ultimately show ?thesis by (rule added [OF i(1) False])
    qed
  qed
qed

lemma remove_at:
  assumes at: "tree_at ok cmp key live R w self n sz T ds"
  obtains (removed) T' w' where "tree_remove bal (Some t) sz cmp key k T w = Some (True, T', w')"
      and "present cmp key k ds" and "tree_at ok cmp key live R w' self n sz T' (del cmp key k ds)"
      and "length ds = Suc (length (del cmp key k ds))"
  | (absent) T' where "tree_remove bal (Some t) sz cmp key k T w = Some (False, T', w)"
      and "\<not> present cmp key k ds" and "tree_at ok cmp key live R w self n sz T' ds"
proof -
  note f = tree_at_frame [OF at]
  from at have T: "ok T" "ordered cmp key (elems T)" "elems T = ds" "distinct (selfs T)" by (auto simp: tree_at_def)
  show ?thesis
  proof (cases "present cmp key k ds")
    case True
    have p: "present cmp key k (elems T)" unfolding T(3) by (rule True)
    obtain a T' where rm: "removes (Some t) sz k T a T'" using remove_present [OF T(1,2) p, of "Some t" sz] by blast
    have r: "tree_remove bal (Some t) sz cmp key k T w = do { w \<leftarrow> mem_free (Some t) (Some a) sz w; Some (True, T', w) }"
      "ok T'" "elems T' = del cmp key k ds" "mset (selfs T) = add_mset a (mset (selfs T'))"
      using rm [unfolded removes_def T(3)] by blast+
    note s = selfs_permuted [OF r(4) T(4)]
    obtain w' where w': "mem_free (Some t) (Some a) sz w = Some w'" "owns (live w') (R(self \<mapsto> n)) ((tree_blocks sz T)(a := None))"
      by (rule owns_mem_free [OF f(1) tree_blocks_at [OF s(3)]])
    have "ordered cmp key (del cmp key k ds)" by (rule ordered_del [OF T(2) [unfolded T(3)]])
    moreover have "owns (live w') (R(self \<mapsto> n)) (tree_blocks sz T')" unfolding tree_blocks_drop [OF s(2)] by (rule w'(2))
    ultimately have "tree_at ok cmp key live R w' self n sz T' (del cmp key k ds)"
      by (rule tree_atI [where ok = ok and T = T', OF r(2,3) f(2) _ s(1)])
    moreover have "length (elems T) = Suc (length (elems T'))" using s(4) by simp
    then have "length ds = Suc (length (del cmp key k ds))" by (simp only: r(3) T(3))
    moreover have "tree_remove bal (Some t) sz cmp key k T w = Some (True, T', w')" unfolding r(1) w'(1) by simp
    ultimately show ?thesis using removed [OF _ True] by blast
  next
    case False
    have p: "\<not> present cmp key k (elems T)" unfolding T(3) by (rule False)
    obtain T' where r: "tree_remove bal (Some t) sz cmp key k T w = Some (False, T', w)" "ok T'" "nodes T' = nodes T"
      using remove_absent [OF T(1,2) p, of "Some t" sz w] by blast
    have e: "elems T' = ds" using r(3) T(3) by simp
    have sf: "selfs T' = selfs T" unfolding r(3) ..
    have "tree_at ok cmp key live R w self n sz T' ds"
    proof (rule tree_atI [where ok = ok and T = T', OF r(2) e f(2)])
      show "ordered cmp key ds" by (rule T(2) [unfolded T(3)])
      show "distinct (selfs T')" unfolding sf by (rule T(4))
      have "tree_blocks sz T' = tree_blocks sz T" by (rule tree_blocks_same) (simp only: sf)
      with f(1) show "owns (live w) (R(self \<mapsto> n)) (tree_blocks sz T')" by simp
    qed
    from absent [OF r(1) False this] show ?thesis .
  qed
qed

lemma free_at:
  assumes at: "tree_at ok cmp key live R w self k sz T ds"
  obtains w' where "free_tree (Some t) sz T w = Some w'" and "live w' = R(self \<mapsto> k)" and "self \<notin> dom R"
    and "tree_at ok cmp key live R w' self k sz Leaf []"
proof -
  note f = tree_at_frame [OF at]
  from at have d: "distinct (selfs T)" by (simp add: tree_at_def)
  obtain w' where w': "free_tree (Some t) sz T w = Some w'" "live w' = R(self \<mapsto> k)" by (rule free_tree_all [OF f(1) d])
  have "tree_at ok cmp key live R w' self k sz Leaf []" using w'(2) f(2) ok_Leaf by (intro tree_atI) simp_all
  with that w' f(2) show ?thesis by blast
qed

end

end
