(* ===== verification/Seqc_Tree_Walk.thy ===== *)
theory Seqc_Tree_Walk
  imports Seqc_Tree_Owned
begin

section \<open>Walking a tree with a stack of nodes\<close>

text \<open>
  The iterators of the trees keep a growable stack of node pointers: \<open>current\<close> is the next node
  to push, the stack holds the nodes whose data and far side are still to come. When the stack
  cannot grow, a walk reports its end early, or, while a range is being primed, starts late.
  \<open>back\<close> selects the descending walk. A pointer to a node is the subtree below it: the tree must
  not change while it is walked.
\<close>

record 'n walk_t =
  wk_self :: addr
  wk_stack :: "'n tree block option"
  wk_len :: size_t
  wk_cap :: size_t
  wk_current :: "'n tree"

text \<open>A range walk also owns a copy of its upper bound.\<close>

record ('n, 'k) range_walk_t = "'n walk_t" +
  rw_hi :: "(addr \<times> 'k) option"

definition sizeof_ptr :: size_t where
  "sizeof_ptr = 8"

definition WALK_STACK_INIT_CAP :: size_t where
  "WALK_STACK_INIT_CAP = 16"

subsection \<open>Operations\<close>

definition spine_push ::
  "'w allocator_t \<Rightarrow> 'n tree \<Rightarrow> ('n, 'x) walk_t_scheme \<Rightarrow> 'w \<Rightarrow> (bool \<times> ('n, 'x) walk_t_scheme \<times> 'w) option" where
  "spine_push al node s w =
     (if wk_len s = wk_cap s then
        let new_cap = (if wk_cap s = 0 then WALK_STACK_INIT_CAP else wmul (wk_cap s) 2) in do {
          (grown, w) \<leftarrow> block_realloc al sizeof_ptr (wk_stack s) (wmul (wk_cap s) sizeof_ptr) (wmul new_cap sizeof_ptr) w;
          if grown = None then Some (False, s, w)
          else do {
            stack \<leftarrow> block_write grown (wk_len s) node;
            Some (True, s\<lparr>wk_stack := stack, wk_cap := new_cap, wk_len := Suc (wk_len s)\<rparr>, w)
          }
        }
      else do {
        stack \<leftarrow> block_write (wk_stack s) (wk_len s) node;
        Some (True, s\<lparr>wk_stack := stack, wk_len := Suc (wk_len s)\<rparr>, w)
      })"

text \<open>The loop that pushes the near side, from \<open>current\<close> on.\<close>

fun push_side ::
  "bool \<Rightarrow> 'w allocator_t \<Rightarrow> 'n tree \<Rightarrow> ('n, 'x) walk_t_scheme \<Rightarrow> 'w \<Rightarrow> (bool \<times> ('n, 'x) walk_t_scheme \<times> 'w) option" where
  "push_side back al Leaf s w = Some (True, s, w)"
| "push_side back al (Node l n r) s w = do {
     (ok, s, w) \<leftarrow> spine_push al (Node l n r) s w;
     if ok then push_side back al (if back then r else l) (s\<lparr>wk_current := (if back then r else l)\<rparr>) w
     else Some (False, s, w)
   }"

definition walk_next ::
  "bool \<Rightarrow> 'w allocator_t \<Rightarrow> (('d, 'z) tnode_scheme, 'x) walk_t_scheme \<Rightarrow> 'w \<Rightarrow>
   ('d option \<times> (('d, 'z) tnode_scheme, 'x) walk_t_scheme \<times> 'w) option" where
  "walk_next back al s w = do {
     (ok, s, w) \<leftarrow> push_side back al (wk_current s) s w;
     if \<not> ok \<or> wk_len s = 0 then Some (None, s, w)
     else do {
       node \<leftarrow> block_read (wk_stack s) (wk_len s - 1);
       case node of
         Leaf \<Rightarrow> None
       | Node l n r \<Rightarrow>
           Some (Some (nd_data n), s\<lparr>wk_len := wk_len s - 1, wk_current := (if back then l else r)\<rparr>, w)
     }
   }"

definition range_walk_next ::
  "'k compare_fn \<Rightarrow> ('d \<Rightarrow> 'k) \<Rightarrow> 'w allocator_t \<Rightarrow> (('d, 'z) tnode_scheme, 'k) range_walk_t \<Rightarrow> 'w \<Rightarrow>
   ('d option \<times> (('d, 'z) tnode_scheme, 'k) range_walk_t \<times> 'w) option" where
  "range_walk_next cmp key al s w = do {
     (ok, s, w) \<leftarrow> push_side False al (wk_current s) s w;
     if \<not> ok \<or> wk_len s = 0 then Some (None, s, w)
     else do {
       node \<leftarrow> block_read (wk_stack s) (wk_len s - 1);
       case node of
         Leaf \<Rightarrow> None
       | Node l n r \<Rightarrow>
           if (case rw_hi s of None \<Rightarrow> False | Some (a, hi) \<Rightarrow> cmp (key (nd_data n)) hi > 0)
           then Some (None, s\<lparr>wk_len := 0, wk_current := Leaf\<rparr>, w)
           else Some (Some (nd_data n), s\<lparr>wk_len := wk_len s - 1, wk_current := r\<rparr>, w)
     }
   }"

text \<open>Priming a range: the nodes from the lower bound on.\<close>

fun push_lo ::
  "'k compare_fn \<Rightarrow> ('d \<Rightarrow> 'k) \<Rightarrow> 'w allocator_t \<Rightarrow> 'k \<Rightarrow> ('d, 'z) node_tree \<Rightarrow> (('d, 'z) tnode_scheme, 'x) walk_t_scheme \<Rightarrow> 'w \<Rightarrow>
   ((('d, 'z) tnode_scheme, 'x) walk_t_scheme \<times> 'w) option" where
  "push_lo cmp key al lo Leaf s w = Some (s, w)"
| "push_lo cmp key al lo (Node l n r) s w =
     (if cmp (key (nd_data n)) lo < 0 then push_lo cmp key al lo r s w
      else do {
        (ok, s, w) \<leftarrow> spine_push al (Node l n r) s w;
        if \<not> ok then Some (s, w) else push_lo cmp key al lo l s w
      })"

definition spine_drop :: "'w allocator_t \<Rightarrow> ('n, 'x) walk_t_scheme \<Rightarrow> 'w \<Rightarrow> 'w option" where
  "spine_drop al s w =
     (if wk_stack s = None then Some w else block_free al (wk_stack s) (wmul (wk_cap s) sizeof_ptr) w)"

definition walk_drop :: "'w allocator_t \<Rightarrow> size_t \<Rightarrow> 'n walk_t \<Rightarrow> 'w \<Rightarrow> 'w option" where
  "walk_drop al sz s w = do {
     w \<leftarrow> spine_drop al s w;
     mem_free al (Some (wk_self s)) sz w
   }"

definition range_walk_drop :: "'w allocator_t \<Rightarrow> size_t \<Rightarrow> size_t \<Rightarrow> ('n, 'k) range_walk_t \<Rightarrow> 'w \<Rightarrow> 'w option" where
  "range_walk_drop al sz ks s w = do {
     w \<leftarrow> spine_drop al s w;
     w \<leftarrow> (case rw_hi s of None \<Rightarrow> Some w | Some (a, hi) \<Rightarrow> mem_free al (Some a) ks w);
     mem_free al (Some (wk_self s)) sz w
   }"

text \<open>The constructors: \<open>sz\<close> is the size of the state, \<open>ks\<close> that of a key, \<open>es\<close> the iterator's element size.\<close>

definition tree_iter ::
  "bool \<Rightarrow> size_t \<Rightarrow> size_t \<Rightarrow> 'w allocator_t \<Rightarrow> ('d, 'z) node_tree \<Rightarrow> 'w \<Rightarrow>
   (('d, ('d, 'z) tnode_scheme walk_t, 'w) iter_t \<times> 'w) option" where
  "tree_iter back sz es al T w = do {
     (p, w) \<leftarrow> mem_alloc al sz w;
     case p of
       None \<Rightarrow> Some (iter_zero, w)
     | Some a \<Rightarrow> Some (iter_make (walk_next back al) (walk_drop al sz)
         \<lparr>wk_self = a, wk_stack = None, wk_len = 0, wk_cap = 0, wk_current = T\<rparr> es al, w)
   }"

definition tree_iter_range ::
  "'k compare_fn \<Rightarrow> ('d \<Rightarrow> 'k) \<Rightarrow> size_t \<Rightarrow> size_t \<Rightarrow> size_t \<Rightarrow> 'w allocator_t \<Rightarrow> ('d, 'z) node_tree \<Rightarrow> 'k option \<Rightarrow> 'k option \<Rightarrow> 'w \<Rightarrow>
   (('d, (('d, 'z) tnode_scheme, 'k) range_walk_t, 'w) iter_t \<times> 'w) option" where
  "tree_iter_range cmp key sz ks es al T lo hi w = do {
     (p, w) \<leftarrow> mem_alloc al sz w;
     case p of
       None \<Rightarrow> Some (iter_zero, w)
     | Some a \<Rightarrow> do {
         (q, w) \<leftarrow> (if hi = None then Some (None, w) else mem_alloc al ks w);
         if hi \<noteq> None \<and> q = None then do {
           w \<leftarrow> mem_free al (Some a) sz w;
           Some (iter_zero, w)
         } else do {
           let s = \<lparr>wk_self = a, wk_stack = None, wk_len = 0, wk_cap = 0, wk_current = Leaf,
             rw_hi = (case (q, hi) of (Some b, Some h) \<Rightarrow> Some (b, h) | _ \<Rightarrow> None)\<rparr>;
           (s, w) \<leftarrow> (case lo of
               Some k \<Rightarrow> push_lo cmp key al k T s w
             | None \<Rightarrow> Some (s\<lparr>wk_current := T\<rparr>, w));
           Some (iter_make (range_walk_next cmp key al) (range_walk_drop al sz ks) s es al, w)
         }
       }
   }"

subsection \<open>Iterators that may end early\<close>

text \<open>
  \<open>iter_until live stop xs it B\<close>: \<open>it\<close> yields elements of \<open>xs\<close> in order, and reports the end
  after the last one, or before, but then \<open>stop\<close> holds. \<open>iter_built_until\<close> is the contract of a
  constructor of such an iterator, which fails only if the allocator is \<open>starved\<close>; the iterator may also start late when \<open>stop\<close> holds.
\<close>

primrec iter_until ::
  "('w \<Rightarrow> addr \<rightharpoonup> size_t) \<Rightarrow> ('w \<Rightarrow> bool) \<Rightarrow> 'a list \<Rightarrow> ('a, 's, 'w) iter_t \<Rightarrow> (addr \<rightharpoonup> size_t) \<Rightarrow> bool" where
  "iter_until live stop [] it B \<longleftrightarrow> iter_rep live [] it B"
| "iter_until live stop (x # xs) it B \<longleftrightarrow> iter_closes live it B \<and>
     (\<forall>w R. owns (live w) R B \<longrightarrow>
        (\<exists>it' w' B'. owns (live w') R B' \<and>
           (iter_next it w = Some (Some x, it', w') \<and> iter_until live stop xs it' B' \<or>
            iter_next it w = Some (None, it', w') \<and> stop w' \<and> iter_closes live it' B')))"

declare iter_until.simps [simp del]

definition iter_built_until ::
  "('w \<Rightarrow> addr \<rightharpoonup> size_t) \<Rightarrow> ('w \<Rightarrow> bool) \<Rightarrow> 'w allocator_t \<Rightarrow> (addr \<rightharpoonup> size_t) \<Rightarrow> size_t \<Rightarrow> 'a list \<Rightarrow>
   (('a, 's, 'w) iter_t \<times> 'w) option \<Rightarrow> bool" where
  "iter_built_until live stop al R es xs r \<longleftrightarrow>
     (\<exists>it w'. r = Some (it, w') \<and>
        ((it = iter_zero \<and> live w' = R \<and> starved al) \<or>
         (iter_is_valid it \<and> it_elem_size it = es \<and> it_allocator it = al \<and>
          (\<exists>B zs ys. owns (live w') R B \<and> iter_until live stop ys it B \<and> xs = zs @ ys \<and> (zs = [] \<or> stop w')))))"

lemma iter_until_closes: "iter_until live stop xs it B \<Longrightarrow> iter_closes live it B"
  by (cases xs) (auto simp: iter_until.simps dest: iter_rep_closes)

text \<open>When nothing stops it, such an iterator is one of all its elements.\<close>

lemma iter_until_whole:
  assumes "\<And>w. \<not> stop w"
  shows "iter_until live stop xs it B \<longleftrightarrow> iter_rep live xs it B"
proof (induction xs arbitrary: it B)
  case (Cons x xs)
  show ?case unfolding iter_until.simps iter_rep.simps Cons.IH using assms by blast
qed (simp add: iter_until.simps)

lemma iter_built_until_whole:
  assumes "iter_built_until live stop al R es xs r" and "\<And>w. \<not> stop w"
  shows "iter_built live al R es xs r"
  using assms(1) unfolding iter_built_until_def iter_built_def iter_until_whole [OF assms(2)]
  using assms(2) by fastforce

text \<open>A walk stops early when the allocator has refused to grow its stack to at most \<open>n\<close> bytes.\<close>

definition refused_growth :: "'w vtable \<Rightarrow> size_t \<Rightarrow> 'w \<Rightarrow> bool" where
  "refused_growth t N w \<longleftrightarrow> (\<exists>q m n v. n \<le> N \<and> vt_realloc t q m n v = (None, w))"

end
