(* ===== verification/Seqc_Tree_Yields.thy ===== *)
theory Seqc_Tree_Yields
  imports Seqc_Tree_Walk
begin

section \<open>What the walks yield\<close>

text \<open>
  The invariant of a walk: which data is still to come, how much room the stack needs at most,
  and which blocks it owns. From it: the walks yield the data of the tree in ascending or
  descending order, the range walk the data within its bounds, and they stop early only when
  the allocator has refused to grow the stack to a size that the height of the tree bounds.
\<close>

subsection \<open>The data still to come\<close>

definition in_order :: "bool \<Rightarrow> ('d, 'z) node_tree \<Rightarrow> 'd list" where
  "in_order back T = (if back then rev (elems T) else elems T)"

fun from_node :: "bool \<Rightarrow> ('d, 'z) node_tree \<Rightarrow> 'd list" where
  "from_node back Leaf = []"
| "from_node back (Node l n r) = nd_data n # in_order back (if back then l else r)"

definition to_come :: "bool \<Rightarrow> ('d, 'z) node_tree list \<Rightarrow> ('d, 'z) node_tree \<Rightarrow> 'd list" where
  "to_come back ss c = in_order back c @ concat (map (from_node back) (rev ss))"

lemma in_order_Leaf [simp]: "in_order back Leaf = []"
  by (simp add: in_order_def)

lemma to_come_push:
  "to_come back (ss @ [Node l n r]) (if back then r else l) = to_come back ss (Node l n r)"
  by (simp add: to_come_def in_order_def)

lemma to_come_pop:
  "to_come back (ss @ [Node l n r]) Leaf = nd_data n # to_come back ss (if back then l else r)"
  by (simp add: to_come_def)

lemma to_come_done [simp]: "to_come back [] Leaf = []"
  by (simp add: to_come_def)

lemma to_come_start: "to_come back [] T = in_order back T"
  by (simp add: to_come_def)

subsection \<open>The invariant\<close>

definition stack_room :: "nat \<Rightarrow> 'n tree list \<Rightarrow> 'n tree \<Rightarrow> bool" where
  "stack_room H ss c \<longleftrightarrow> height c + length ss \<le> H \<and> (\<forall>i < length ss. ss ! i \<noteq> Leaf \<and> height (ss ! i) + i \<le> H)"

lemma all_nth_snoc: "(\<forall>i < length (xs @ [x]). P ((xs @ [x]) ! i) i) \<longleftrightarrow> (\<forall>i < length xs. P (xs ! i) i) \<and> P x (length xs)"
  by (auto simp: nth_append less_Suc_eq)

lemma stack_room_snoc:
  "stack_room H (ss @ [x]) c \<longleftrightarrow>
     height c + Suc (length ss) \<le> H \<and> x \<noteq> Leaf \<and> height x + length ss \<le> H \<and>
     (\<forall>i < length ss. ss ! i \<noteq> Leaf \<and> height (ss ! i) + i \<le> H)"
  unfolding stack_room_def using all_nth_snoc [of ss x "\<lambda>n i. n \<noteq> Leaf \<and> height n + i \<le> H"] by auto

lemma node_height: "height (Node l n r) + k \<le> H \<Longrightarrow> height l + Suc k \<le> H \<and> height r + Suc k \<le> H"
  by auto

lemma stack_room_push:
  assumes "stack_room H ss (Node l n r)"
  shows "stack_room H (ss @ [Node l n r]) l" and "stack_room H (ss @ [Node l n r]) r"
  using assms node_height [of l n r "length ss" H] unfolding stack_room_snoc by (simp_all add: stack_room_def)

lemma stack_room_pop:
  assumes "stack_room H (ss @ [Node l n r]) c"
  shows "stack_room H ss l" and "stack_room H ss r"
  using assms node_height [of l n r "length ss" H] unfolding stack_room_snoc by (simp_all add: stack_room_def)

lemma stack_room_side:
  assumes "stack_room H ss (Node l n r)"
  shows "stack_room H ss l" and "stack_room H ss r"
  using assms node_height [of l n r "length ss" H] by (simp_all add: stack_room_def)

lemma stack_room_start: "stack_room H [] T \<longleftrightarrow> height T \<le> H"
  by (simp add: stack_room_def)

lemma stack_room_full: "stack_room H ss (Node l n r) \<Longrightarrow> length ss < H"
  by (auto simp: stack_room_def)

definition spine_is :: "('n, 'x) walk_t_scheme \<Rightarrow> 'n tree list \<Rightarrow> bool" where
  "spine_is s ss \<longleftrightarrow> buf_is (wk_stack s) (wk_cap s) ss \<and> wk_len s = length ss \<and> wk_cap s * sizeof_ptr \<le> PTRDIFF_MAX"

definition spine_blocks :: "(addr \<rightharpoonup> size_t) \<Rightarrow> ('n, 'x) walk_t_scheme \<Rightarrow> (addr \<rightharpoonup> size_t)" where
  "spine_blocks X s = own_block X (wk_stack s) (wk_cap s * sizeof_ptr)"

definition spine_at ::
  "('w \<Rightarrow> addr \<rightharpoonup> size_t) \<Rightarrow> (addr \<rightharpoonup> size_t) \<Rightarrow> 'w \<Rightarrow> (addr \<rightharpoonup> size_t) \<Rightarrow> ('n, 'x) walk_t_scheme \<Rightarrow> 'n tree list \<Rightarrow> bool" where
  "spine_at live R w X s ss \<longleftrightarrow> spine_is s ss \<and> apart X (wk_stack s) \<and> owns (live w) R (spine_blocks X s)"

lemma spine_atI: "spine_is s ss \<Longrightarrow> apart X (wk_stack s) \<Longrightarrow> owns (live w) R (spine_blocks X s) \<Longrightarrow> spine_at live R w X s ss"
  by (simp add: spine_at_def)

lemma spine_atD:
  assumes "spine_at live R w X s ss"
  shows "spine_is s ss" and "apart X (wk_stack s)" and "owns (live w) R (spine_blocks X s)"
  using assms by (simp_all add: spine_at_def)

text \<open>What a walk keeps: its own address and its upper bound.\<close>

definition walk_kept :: "('n, 'x) walk_t_scheme \<Rightarrow> ('n, 'x) walk_t_scheme \<Rightarrow> bool" where
  "walk_kept s s' \<longleftrightarrow> wk_self s' = wk_self s \<and> walk_t.more s' = walk_t.more s"

text \<open>\<open>walk_at\<close>: the walk \<open>s\<close> still has \<open>ds\<close> to yield.\<close>

definition walk_is ::
  "nat \<Rightarrow> bool \<Rightarrow> (('d, 'z) tnode_scheme, 'x) walk_t_scheme \<Rightarrow> ('d, 'z) node_tree list \<Rightarrow> 'd list \<Rightarrow> bool" where
  "walk_is H back s ss ds \<longleftrightarrow> stack_room H ss (wk_current s) \<and> to_come back ss (wk_current s) = ds"

text \<open>The bytes the stack asks for at most, for a tree of height \<open>H\<close>.\<close>

definition stack_limit :: "nat \<Rightarrow> size_t" where
  "stack_limit H = max (WALK_STACK_INIT_CAP * sizeof_ptr) (2 * H * sizeof_ptr)"

text \<open>One call of a walk.\<close>

definition walk_answer :: "'w vtable \<Rightarrow> nat \<Rightarrow> 'd list \<Rightarrow> 'd option \<Rightarrow> 'd list \<Rightarrow> 'w \<Rightarrow> bool" where
  "walk_answer t H ds r ds' w' \<longleftrightarrow>
     (case r of
        Some x \<Rightarrow> ds = x # ds'
      | None \<Rightarrow> ds' = ds \<and> (ds = [] \<or> refused_growth t (stack_limit H) w'))"

lemma ptr_exact:
  assumes "c * sizeof_ptr \<le> PTRDIFF_MAX"
  shows "wmul c sizeof_ptr = c * sizeof_ptr" and "wmul c 2 = c * 2" and "wmul (c * 2) sizeof_ptr = c * 2 * sizeof_ptr"
proof -
  show "wmul c sizeof_ptr = c * sizeof_ptr" using assms by (intro wmul_exact) (simp add: PTRDIFF_MAX_def)
  show "wmul c 2 = c * 2" "wmul (c * 2) sizeof_ptr = c * 2 * sizeof_ptr"
    by (rule double_exact [OF assms], simp add: sizeof_ptr_def)+
qed

context heap_allocator begin

lemma spine_push_at:
  assumes at: "spine_at live R w X s ss" and room: "length ss < H"
  obtains (pushed) st cap w' where "spine_push (Some t) node s w = Some (True, s\<lparr>wk_stack := st, wk_cap := cap, wk_len := Suc (length ss)\<rparr>, w')"
      and "spine_at live R w' X (s\<lparr>wk_stack := st, wk_cap := cap, wk_len := Suc (length ss)\<rparr>) (ss @ [node])"
  | (oom) w' where "spine_push (Some t) node s w = Some (False, s, w')" and "spine_at live R w' X s ss"
      and "refused_growth t (stack_limit H) w'"
proof -
  from at have s: "buf_is (wk_stack s) (wk_cap s) ss" "wk_len s = length ss" "wk_cap s * sizeof_ptr \<le> PTRDIFF_MAX"
    "apart X (wk_stack s)" "owns (live w) R (own_block X (wk_stack s) (wk_cap s * sizeof_ptr))"
    by (auto simp: spine_at_def spine_is_def spine_blocks_def)
  show ?thesis
  proof (cases "length ss = wk_cap s")
    case full: True
    let ?new = "if wk_cap s = 0 then WALK_STACK_INIT_CAP else wmul (wk_cap s) 2"
    let ?n = "if length ss = 0 then WALK_STACK_INIT_CAP else length ss * 2"
    note e = ptr_exact [OF s(3)]
    have n: "?new = ?n" "wmul (wk_cap s) sizeof_ptr = length ss * sizeof_ptr" "wmul ?n sizeof_ptr = ?n * sizeof_ptr" "length ss < ?n"
      using e full by (auto simp: WALK_STACK_INIT_CAP_def wmul_exact sizeof_ptr_def)
    have lim: "?n * sizeof_ptr \<le> stack_limit H"
      using room by (auto simp: stack_limit_def sizeof_ptr_def)
    have p: "0 < sizeof_ptr" "length ss \<le> ?n" "0 < ?n" using n(4) by (auto simp: sizeof_ptr_def)
    from s(5,4,1) p show ?thesis
    proof (cases rule: block_realloc_is)
      case (granted b w')
      obtain st where st: "block_write (Some b) (length ss) node = Some st" "buf_is st ?n (ss @ [node])"
        "map_option blk_addr st = map_option blk_addr (Some b)"
        by (rule block_append_is [OF granted(2) n(4)])
      let ?s = "s\<lparr>wk_stack := st, wk_cap := ?n, wk_len := Suc (length ss)\<rparr>"
      have "spine_at live R w' X ?s (ss @ [node])"
        using st(2) granted(3-5) own_block_same_addr [OF st(3)]
        by (simp add: spine_at_def spine_is_def spine_blocks_def)
      moreover have "spine_push (Some t) node s w = Some (True, ?s, w')"
        unfolding spine_push_def Let_def n(1) s(2) using full n(2,3) granted(1) st(1) by simp
      ultimately show ?thesis by (rule pushed [rotated])
    next
      case (refused w')
      have "refused_growth t (stack_limit H) w'"
        using refused(1) lim unfolding refused_growth_def block_realloc_def by (auto split: prod.splits)
      moreover have "spine_push (Some t) node s w = Some (False, s, w')"
        unfolding spine_push_def Let_def n(1) s(2) using full n(2,3) refused(1) by simp
      moreover have "spine_at live R w' X s ss" using at refused(2) by (simp add: spine_at_def spine_blocks_def)
      ultimately show ?thesis using oom by blast
    qed
  next
    case False
    with buf_is_len [OF s(1)] have "length ss < wk_cap s" by simp
    from block_append_is [OF s(1) this, of node] obtain st where
      st: "block_write (wk_stack s) (length ss) node = Some st" "buf_is st (wk_cap s) (ss @ [node])"
        "map_option blk_addr st = map_option blk_addr (wk_stack s)" by metis
    let ?s = "s\<lparr>wk_stack := st, wk_cap := wk_cap s, wk_len := Suc (length ss)\<rparr>"
    have "spine_at live R w X ?s (ss @ [node])"
      using st(2) s own_block_same_addr [OF st(3)] by (simp add: spine_at_def spine_is_def spine_blocks_def)
    moreover have "spine_push (Some t) node s w = Some (True, ?s, w)"
      using False s(2) st(1) by (simp add: spine_push_def)
    ultimately show ?thesis by (rule pushed [rotated])
  qed
qed

lemma push_side_at:
  assumes "spine_at live R w X s ss" and "walk_is H back s ss ds" and "wk_current s = c"
  shows "\<exists>ok s' ss' w'. push_side back (Some t) c s w = Some (ok, s', w') \<and> walk_kept s s' \<and>
    spine_at live R w' X s' ss' \<and> walk_is H back s' ss' ds \<and>
    (if ok then wk_current s' = Leaf else refused_growth t (stack_limit H) w')"
  using assms
proof (induction c arbitrary: w s ss)
  case Leaf
  then show ?case by (auto simp: walk_kept_def)
next
  case (Node l n r)
  from Node.prems(2,3) have room: "stack_room H ss (Node l n r)" and tc: "to_come back ss (Node l n r) = ds"
    by (simp_all add: walk_is_def)
  from Node.prems(1) stack_room_full [OF room] show ?case
  proof (cases rule: spine_push_at [where node = "Node l n r"])
    case (pushed st cap w1)
    let ?c = "if back then r else l"
    let ?s = "s\<lparr>wk_stack := st, wk_cap := cap, wk_len := Suc (length ss), wk_current := ?c\<rparr>"
    have sat: "spine_at live R w1 X ?s (ss @ [Node l n r])"
      using pushed(2) by (simp add: spine_at_def spine_is_def spine_blocks_def)
    have wi: "walk_is H back ?s (ss @ [Node l n r]) ds"
      using stack_room_push [OF room] to_come_push [of "back" ss l n r] tc by (simp add: walk_is_def)
    have "\<exists>ok s' ss' w'. push_side back (Some t) ?c ?s w1 = Some (ok, s', w') \<and> walk_kept ?s s' \<and>
      spine_at live R w' X s' ss' \<and> walk_is H back s' ss' ds \<and>
      (if ok then wk_current s' = Leaf else refused_growth t (stack_limit H) w')"
    proof (cases "back")
      case True
      with Node.IH(2) [OF sat wi] show ?thesis by simp
    next
      case False
      with Node.IH(1) [OF sat wi] show ?thesis by simp
    qed
    with pushed(1) show ?thesis by (simp add: walk_kept_def)
  next
    case (oom w1)
    with Node.prems(2) show ?thesis by (auto simp: walk_kept_def)
  qed
qed

lemma spine_atE:
  assumes "spine_at live R w X s ss"
  shows "wk_len s = length ss" and "buf_is (wk_stack s) (wk_cap s) ss"
  using assms by (auto simp: spine_at_def spine_is_def)

lemma spine_pop_at:
  assumes at: "spine_at live R w X s (ss @ [node])"
  shows "wk_len s \<noteq> 0" and "block_read (wk_stack s) (wk_len s - 1) = Some node"
    and "spine_at live R w X (s\<lparr>wk_len := wk_len s - 1, wk_current := c\<rparr>) ss"
proof -
  note b = spine_atE [OF at]
  show "wk_len s \<noteq> 0" using b(1) by simp
  show "block_read (wk_stack s) (wk_len s - 1) = Some node" using b(1) block_read_is [OF b(2), of "length ss"] by simp
  show "spine_at live R w X (s\<lparr>wk_len := wk_len s - 1, wk_current := c\<rparr>) ss"
    using at buf_is_prefix [OF b(2)] by (simp add: spine_at_def spine_is_def spine_blocks_def)
qed

lemma walk_next_at:
  assumes at: "spine_at live R w X s ss" and wi: "walk_is H back s ss ds"
  shows "\<exists>r s' ss' w' ds'. walk_next back (Some t) s w = Some (r, s', w') \<and> walk_kept s s' \<and>
    spine_at live R w' X s' ss' \<and> walk_is H back s' ss' ds' \<and> walk_answer t H ds r ds' w'"
proof -
  obtain ok s1 ss1 w1 where p: "push_side back (Some t) (wk_current s) s w = Some (ok, s1, w1)" "walk_kept s s1"
    "spine_at live R w1 X s1 ss1" "walk_is H back s1 ss1 ds"
    "if ok then wk_current s1 = Leaf else refused_growth t (stack_limit H) w1"
    using push_side_at [OF at wi refl] by blast
  show ?thesis
  proof (cases "ok \<and> ss1 \<noteq> []")
    case False
    have "walk_next back (Some t) s w = Some (None, s1, w1)"
      using p(1) False spine_atE(1) [OF p(3)] by (auto simp: walk_next_def)
    moreover have "walk_answer t H ds None ds w1"
      using False p(4,5) by (cases ok) (auto simp: walk_answer_def walk_is_def)
    ultimately show ?thesis using p(2-4) by blast
  next
    case True
    then obtain ss2 node where ss: "ss1 = ss2 @ [node]" by (metis rev_exhaust)
    from p(4) True p(5) have room: "stack_room H (ss2 @ [node]) Leaf" and tc: "to_come back (ss2 @ [node]) Leaf = ds"
      by (simp_all add: walk_is_def ss)
    from room obtain l n r where n: "node = Node l n r" unfolding stack_room_snoc by (cases node) auto
    let ?c = "if back then l else r"
    note q = spine_pop_at(1,2) [OF p(3) [unfolded ss]] spine_pop_at(3) [OF p(3) [unfolded ss], of ?c]
    let ?s = "s1\<lparr>wk_len := wk_len s1 - 1, wk_current := ?c\<rparr>"
    have "walk_next back (Some t) s w = Some (Some (nd_data n), ?s, w1)"
      using p(1) True q(1,2) n by (simp add: walk_next_def)
    moreover have "walk_is H back ?s ss2 (to_come back ss2 ?c)"
      using stack_room_pop [OF room [unfolded n]] by (simp add: walk_is_def)
    moreover have "walk_answer t H ds (Some (nd_data n)) (to_come back ss2 ?c) w1"
      unfolding tc [symmetric] n to_come_pop by (simp add: walk_answer_def)
    moreover have "walk_kept s ?s" using p(2) by (simp add: walk_kept_def)
    ultimately show ?thesis using q(3) by blast
  qed
qed

lemma spine_drop_at:
  assumes "spine_at live R w X s ss"
  obtains w' where "spine_drop (Some t) s w = Some w'" and "owns (live w') R X"
proof (cases "wk_stack s")
  case None
  with assms that show ?thesis by (simp add: spine_drop_def spine_at_def spine_blocks_def)
next
  case (Some b)
  from assms have s: "blk_addr b \<notin> dom X" "owns (live w) R (X(blk_addr b \<mapsto> wk_cap s * sizeof_ptr))"
    "wmul (wk_cap s) sizeof_ptr = wk_cap s * sizeof_ptr"
    using Some ptr_exact(1) [of "wk_cap s"] by (simp_all add: spine_at_def spine_is_def spine_blocks_def)
  obtain w' where "mem_free (Some t) (Some (blk_addr b)) (wk_cap s * sizeof_ptr) w = Some w'"
    "owns (live w') R (X(blk_addr b \<mapsto> wk_cap s * sizeof_ptr, blk_addr b := None))"
    by (rule owns_mem_free [OF s(2), of "blk_addr b" "wk_cap s * sizeof_ptr"]) simp
  moreover from s(1) have "X(blk_addr b \<mapsto> wk_cap s * sizeof_ptr, blk_addr b := None) = X"
    by (auto simp: fun_eq_iff fun_upd_apply domIff)
  ultimately show ?thesis using that Some s(3) by (simp add: spine_drop_def block_free_def del: mem_free.simps)
qed

subsection \<open>The plain iterators\<close>

lemma walk_closes:
  assumes "spine_is s ss" and "apart [wk_self s \<mapsto> sz] (wk_stack s)"
  shows "iter_closes live (iter_make nx (walk_drop (Some t) sz) s es al) (spine_blocks [wk_self s \<mapsto> sz] s)"
  unfolding iter_closes_def
proof (intro allI impI)
  fix w R
  assume "owns (live w) R (spine_blocks [wk_self s \<mapsto> sz] s)"
  with assms have "spine_at live R w [wk_self s \<mapsto> sz] s ss" by (rule spine_atI)
  then obtain w1 where 1: "spine_drop (Some t) s w = Some w1" "owns (live w1) R [wk_self s \<mapsto> sz]" by (rule spine_drop_at)
  obtain w2 where 2: "mem_free (Some t) (Some (wk_self s)) sz w1 = Some w2" "owns (live w2) R ([wk_self s \<mapsto> sz](wk_self s := None))"
    by (rule owns_mem_free [OF 1(2), of "wk_self s" sz]) simp
  from 1 2 show "\<exists>w'. iter_destroy (iter_make nx (walk_drop (Some t) sz) s es al) w = Some w' \<and> live w' = R"
    by (simp add: walk_drop_def del: mem_free.simps)
qed

lemma walk_yields:
  assumes "spine_is s ss" and "apart [wk_self s \<mapsto> sz] (wk_stack s)" and "walk_is H back s ss ds"
  shows "iter_until live (refused_growth t (stack_limit H)) ds (iter_make (walk_next back (Some t)) (walk_drop (Some t) sz) s es al)
    (spine_blocks [wk_self s \<mapsto> sz] s)"
  using assms
proof (induction ds arbitrary: s ss)
  case Nil
  let ?X = "[wk_self s \<mapsto> sz]"
  have "iter_rep live [] (iter_make (walk_next back (Some t)) (walk_drop (Some t) sz) s es al) (spine_blocks ?X s)"
  proof (rule iter_rep_NilI [OF walk_closes [OF Nil.prems(1,2)]])
    fix w R
    assume "owns (live w) R (spine_blocks ?X s)"
    with Nil.prems(1,2) have "spine_at live R w ?X s ss" by (rule spine_atI)
    from walk_next_at [OF this Nil.prems(3)] obtain r s' ss' w' ds' where
      n: "walk_next back (Some t) s w = Some (r, s', w')" "walk_kept s s'" "spine_at live R w' ?X s' ss'" "walk_answer t H [] r ds' w'"
      by blast
    from n(2) have k: "wk_self s' = wk_self s" by (simp add: walk_kept_def)
    from n(3) have s': "spine_is s' ss'" "apart [wk_self s' \<mapsto> sz] (wk_stack s')" "owns (live w') R (spine_blocks [wk_self s' \<mapsto> sz] s')"
      unfolding k by (rule spine_atD)+
    have "r = None" using n(4) by (cases r) (simp_all add: walk_answer_def)
    with n(1) s'(3) walk_closes [OF s'(1,2)]
    show "\<exists>it' w' B'. iter_next (iter_make (walk_next back (Some t)) (walk_drop (Some t) sz) s es al) w = Some (None, it', w') \<and>
        owns (live w') R B' \<and> iter_closes live it' B'" by auto
  qed
  then show ?case unfolding iter_until.simps .
next
  case (Cons d ds)
  let ?X = "[wk_self s \<mapsto> sz]" and ?it = "\<lambda>s. iter_make (walk_next back (Some t)) (walk_drop (Some t) sz) s es al"
  show ?case unfolding iter_until.simps
  proof (intro conjI allI impI walk_closes [OF Cons.prems(1,2)])
    fix w R
    assume "owns (live w) R (spine_blocks ?X s)"
    with Cons.prems(1,2) have "spine_at live R w ?X s ss" by (rule spine_atI)
    from walk_next_at [OF this Cons.prems(3)] obtain r s' ss' w' ds' where
      n: "walk_next back (Some t) s w = Some (r, s', w')" "walk_kept s s'" "spine_at live R w' ?X s' ss'" "walk_is H back s' ss' ds'"
        "walk_answer t H (d # ds) r ds' w'"
      by blast
    from n(2) have k: "wk_self s' = wk_self s" by (simp add: walk_kept_def)
    from n(3) have s': "spine_is s' ss'" "apart [wk_self s' \<mapsto> sz] (wk_stack s')" "owns (live w') R (spine_blocks [wk_self s' \<mapsto> sz] s')"
      unfolding k by (rule spine_atD)+
    have nx: "iter_next (?it s) w = Some (r, ?it s', w')" using n(1) by simp
    have "r = Some d \<and> iter_until live (refused_growth t (stack_limit H)) ds (?it s') (spine_blocks [wk_self s' \<mapsto> sz] s') \<or>
      r = None \<and> refused_growth t (stack_limit H) w'"
    proof (cases "r = None")
      case True
      with n(5) show ?thesis by (simp add: walk_answer_def)
    next
      case False
      with n(5) have "r = Some d" and ds': "ds' = ds" by (auto simp: walk_answer_def)
      with Cons.IH [OF s'(1,2) n(4) [unfolded ds']] show ?thesis by blast
    qed
    with nx s'(3) walk_closes [OF s'(1,2)] show "\<exists>it' w' B'. owns (live w') R B' \<and>
        (iter_next (?it s) w = Some (Some d, it', w') \<and> iter_until live (refused_growth t (stack_limit H)) ds it' B' \<or>
         iter_next (?it s) w = Some (None, it', w') \<and> refused_growth t (stack_limit H) w' \<and> iter_closes live it' B')"
      by blast
  qed
qed

text \<open>The walk over a whole tree, with the blocks it takes.\<close>

lemma tree_iter_built:
  assumes "sz \<le> 256"
  shows "iter_built_until live (refused_growth t (stack_limit (height T))) (Some t) (live w) es (in_order back T)
     (tree_iter back sz es (Some t) T w)"
proof (cases rule: iter_state_alloc [of sz w])
  case (granted a w')
  let ?s = "\<lparr>wk_self = a, wk_stack = None, wk_len = 0, wk_cap = 0, wk_current = T\<rparr>"
  let ?it = "iter_make (walk_next back (Some t)) (walk_drop (Some t) sz) ?s es (Some t)"
  have "iter_until live (refused_growth t (stack_limit (height T))) (in_order back T) ?it (spine_blocks [wk_self ?s \<mapsto> sz] ?s)"
    by (rule walk_yields [of _ "[]"]) (simp_all add: spine_is_def walk_is_def stack_room_start to_come_start)
  moreover have "tree_iter back sz es (Some t) T w = Some (?it, w')" using granted(1) by (simp add: tree_iter_def del: mem_alloc.simps)
  ultimately show ?thesis using granted(2) unfolding iter_built_until_def by (force simp: spine_blocks_def)
next
  case (refused w')
  from refused(3) assms have "starved (Some t)" by (rule starved_small)
  with refused show ?thesis by (simp add: iter_built_until_def tree_iter_def del: mem_alloc.simps)
qed

end

end
