(* ===== verification/Seqc_Tree_Range.thy ===== *)
theory Seqc_Tree_Range
  imports Seqc_Tree_Yields
begin

section \<open>Range walks\<close>

text \<open>
  The range iterators yield the data between two keys, bounds included. Priming the stack at the
  lower bound may run out of memory; the iterator then starts at a later element, and nothing
  tells its user.
\<close>

definition at_least :: "'k compare_fn \<Rightarrow> ('d \<Rightarrow> 'k) \<Rightarrow> 'k option \<Rightarrow> 'd \<Rightarrow> bool" where
  "at_least cmp key lo d \<longleftrightarrow> (case lo of None \<Rightarrow> True | Some k \<Rightarrow> 0 \<le> cmp (key d) k)"

definition at_most :: "'k compare_fn \<Rightarrow> ('d \<Rightarrow> 'k) \<Rightarrow> 'k option \<Rightarrow> 'd \<Rightarrow> bool" where
  "at_most cmp key hi d \<longleftrightarrow> (case hi of None \<Rightarrow> True | Some k \<Rightarrow> cmp (key d) k \<le> 0)"

definition in_range :: "'k compare_fn \<Rightarrow> ('d \<Rightarrow> 'k) \<Rightarrow> 'k option \<Rightarrow> 'k option \<Rightarrow> 'd list \<Rightarrow> 'd list" where
  "in_range cmp key lo hi ds = filter (at_most cmp key hi) (filter (at_least cmp key lo) ds)"

text \<open>A call of a range walk is a call of the plain walk whose answer is held against the bound.\<close>

lemma range_walk_next_eq:
  "range_walk_next cmp key al s w = do {
     (r, s, w) \<leftarrow> walk_next False al s w;
     case r of
       None \<Rightarrow> Some (None, s, w)
     | Some d \<Rightarrow> if \<not> at_most cmp key (map_option snd (rw_hi s)) d then Some (None, s\<lparr>wk_len := 0, wk_current := Leaf\<rparr>, w)
                else Some (Some d, s, w)
   }"
  unfolding range_walk_next_def walk_next_def at_most_def
  by (auto simp: not_le split: option.split tree.split Option.bind_split)

context compare_order begin

lemma above_bound_all:
  assumes "ordered cmp key (d # ds)" and "\<not> at_most cmp key hi d"
  shows "filter (at_most cmp key hi) (d # ds) = []"
proof -
  from assms(2) obtain k where k: "hi = Some k" "0 < cmp (key d) k" by (auto simp: at_most_def split: option.splits)
  have "\<not> cmp (key e) k \<le> 0" if "e \<in> set ds" for e
    using cmp_less_trans1 [of "key d" "key e" k] assms(1) that k(2) by (auto simp: ordered_Cons)
  with k show ?thesis by (auto simp: at_most_def filter_empty_conv)
qed

lemma at_least_node:
  assumes "ordered cmp key (elems (Node l n r))"
  shows "\<not> at_least cmp key lo (nd_data n) \<Longrightarrow> filter (at_least cmp key lo) (elems (Node l n r)) = filter (at_least cmp key lo) (elems r)"
    and "at_least cmp key lo (nd_data n) \<Longrightarrow>
      filter (at_least cmp key lo) (elems (Node l n r)) = filter (at_least cmp key lo) (elems l) @ nd_data n # elems r"
proof -
  from assms have o: "\<forall>e \<in> set (elems l). cmp (key e) (key (nd_data n)) < 0" "\<forall>e \<in> set (elems r). cmp (key (nd_data n)) (key e) < 0"
    by (auto simp: ordered_append ordered_Cons)
  {
    assume n: "\<not> at_least cmp key lo (nd_data n)"
    then obtain k where k: "lo = Some k" "cmp (key (nd_data n)) k < 0" by (auto simp: at_least_def split: option.splits)
    have "\<not> 0 \<le> cmp (key e) k" if "e \<in> set (elems l)" for e
      using o(1) that cmp_less_trans [of "key e" "key (nd_data n)" k] k(2) by fastforce
    then have "filter (at_least cmp key lo) (elems l) = []" unfolding filter_empty_conv by (simp add: at_least_def k(1))
    with n show "filter (at_least cmp key lo) (elems (Node l n r)) = filter (at_least cmp key lo) (elems r)" by simp
  next
    assume n: "at_least cmp key lo (nd_data n)"
    have "at_least cmp key lo e" if "e \<in> set (elems r)" for e
    proof (cases lo)
      case (Some k)
      with n have "\<not> cmp (key (nd_data n)) k < 0" by (simp add: at_least_def)
      with o(2) that have "\<not> cmp (key e) k < 0" using cmp_less_trans [of "key (nd_data n)" "key e" k] by blast
      with Some show ?thesis by (simp add: at_least_def)
    qed (simp add: at_least_def)
    then have "filter (at_least cmp key lo) (elems r) = elems r" by (intro filter_True) blast
    with n show "filter (at_least cmp key lo) (elems (Node l n r)) = filter (at_least cmp key lo) (elems l) @ nd_data n # elems r"
      by simp
  }
qed

end

subsection \<open>One call, and priming\<close>

context heap_allocator begin

lemma range_walk_next_at:
  assumes cmp: "compare_order cmp" and at: "spine_at live R w X s ss" and wi: "walk_is H False s ss ds" and o: "ordered cmp key ds"
  shows "\<exists>r s' ss' w' ds'. range_walk_next cmp key (Some t) s w = Some (r, s', w') \<and> walk_kept s s' \<and>
    spine_at live R w' X s' ss' \<and> walk_is H False s' ss' ds' \<and> ordered cmp key ds' \<and>
    walk_answer t H (filter (at_most cmp key (map_option snd (rw_hi s))) ds) r (filter (at_most cmp key (map_option snd (rw_hi s))) ds') w'"
proof -
  let ?hi = "map_option snd (rw_hi s)" and ?P = "at_most cmp key (map_option snd (rw_hi s))"
  obtain r s1 ss1 w1 ds1 where n: "walk_next False (Some t) s w = Some (r, s1, w1)" "walk_kept s s1"
    "spine_at live R w1 X s1 ss1" "walk_is H False s1 ss1 ds1" "walk_answer t H ds r ds1 w1"
    using walk_next_at [OF at wi] by blast
  have hi: "rw_hi s1 = rw_hi s" using n(2) by (cases s; cases s1) (simp add: walk_kept_def)
  show ?thesis
  proof (cases r)
    case None
    have "range_walk_next cmp key (Some t) s w = Some (None, s1, w1)" using n(1) None by (simp add: range_walk_next_eq)
    moreover have "ds1 = ds" "walk_answer t H (filter ?P ds) None (filter ?P ds) w1"
      using n(5) None by (auto simp: walk_answer_def)
    ultimately show ?thesis using n(2-4) o by blast
  next
    case (Some d)
    with n(5) have ds: "ds = d # ds1" by (simp add: walk_answer_def)
    show ?thesis
    proof (cases "?P d")
      case True
      have "range_walk_next cmp key (Some t) s w = Some (Some d, s1, w1)"
        using n(1) Some True hi by (simp add: range_walk_next_eq)
      moreover have "ordered cmp key ds1" "walk_answer t H (filter ?P ds) (Some d) (filter ?P ds1) w1"
        using o True by (simp_all add: ds ordered_Cons walk_answer_def)
      ultimately show ?thesis using n(2-4) by blast
    next
      case False
      let ?s = "s1\<lparr>wk_len := 0, wk_current := Leaf\<rparr>"
      have "range_walk_next cmp key (Some t) s w = Some (None, ?s, w1)"
        using n(1) Some False hi by (simp add: range_walk_next_eq)
      moreover have "walk_kept s ?s" "walk_is H False ?s [] []"
        using n(2) by (simp_all add: walk_kept_def walk_is_def stack_room_start)
      moreover have "spine_at live R w1 X ?s []"
        using n(3) buf_is_prefix [of "wk_stack s1" "wk_cap s1" "[]" ss1]
        by (simp add: spine_at_def spine_is_def spine_blocks_def)
      moreover have "filter ?P ds = []" unfolding ds
        by (rule compare_order.above_bound_all [OF cmp o [unfolded ds] False])
      then have "walk_answer t H (filter ?P ds) None (filter ?P []) w1" by (simp add: walk_answer_def)
      ultimately show ?thesis using ordered_Nil by blast
    qed
  qed
qed

lemma push_lo_at:
  assumes "spine_at live R w X s ss" and "stack_room H ss T" and "ordered cmp key (elems T)" and cmp: "compare_order cmp"
    and "wk_current s = Leaf"
  shows "\<exists>s' ss' w' zs. push_lo cmp key (Some t) lo T s w = Some (s', w') \<and> walk_kept s s' \<and>
    wk_current s' = Leaf \<and> spine_at live R w' X s' ss' \<and> stack_room H ss' Leaf \<and>
    filter (at_least cmp key (Some lo)) (elems T) @ to_come False ss Leaf = zs @ to_come False ss' Leaf \<and>
    (zs = [] \<or> refused_growth t (stack_limit H) w')"
  using assms
proof (induction T arbitrary: w s ss)
  case Leaf
  then show ?case by (auto simp: walk_kept_def)
next
  case (Node l n r)
  let ?P = "at_least cmp key (Some lo)"
  note f = compare_order.at_least_node [OF cmp Node.prems(3), of "Some lo"]
  from Node.prems(3) have o: "ordered cmp key (elems l)" "ordered cmp key (elems r)" by (auto simp: ordered_append ordered_Cons)
  show ?case
  proof (cases "?P (nd_data n)")
    case False
    then have "cmp (key (nd_data n)) lo < 0" by (simp add: at_least_def)
    moreover note Node.IH(2) [OF Node.prems(1) stack_room_side(2) [OF Node.prems(2)] o(2) cmp Node.prems(5)]
    ultimately show ?thesis unfolding f(1) [OF False] by simp
  next
    case True
    then have c: "\<not> cmp (key (nd_data n)) lo < 0" by (simp add: at_least_def)
    from Node.prems(1) stack_room_full [OF Node.prems(2)] show ?thesis
    proof (cases rule: spine_push_at [where node = "Node l n r"])
      case (pushed st cap w1)
      let ?s = "s\<lparr>wk_stack := st, wk_cap := cap, wk_len := Suc (length ss)\<rparr>"
      have cur: "wk_current ?s = Leaf" using Node.prems(5) by simp
      have tc: "to_come False (ss @ [Node l n r]) Leaf = nd_data n # elems r @ to_come False ss Leaf"
        by (simp add: to_come_def in_order_def)
      from Node.IH(1) [OF pushed(2) stack_room_push(1) [OF Node.prems(2)] o(1) cmp cur] obtain s' ss' w' zs where
        i: "push_lo cmp key (Some t) lo l ?s w1 = Some (s', w')" "walk_kept ?s s'" "wk_current s' = Leaf"
          "spine_at live R w' X s' ss'" "stack_room H ss' Leaf"
          "filter ?P (elems l) @ nd_data n # elems r @ to_come False ss Leaf = zs @ to_come False ss' Leaf"
          "zs = [] \<or> refused_growth t (stack_limit H) w'" unfolding tc by blast
      have "push_lo cmp key (Some t) lo (Node l n r) s w = Some (s', w')" using c pushed(1) i(1) by simp
      moreover have "walk_kept s s'" using i(2) by (simp add: walk_kept_def)
      moreover have "filter ?P (elems (Node l n r)) @ to_come False ss Leaf = zs @ to_come False ss' Leaf"
        unfolding f(2) [OF True] using i(6) by simp
      ultimately show ?thesis using i(3-5,7) by blast
    next
      case (oom w1)
      have "push_lo cmp key (Some t) lo (Node l n r) s w = Some (s, w1)" using c oom(1) by simp
      moreover have "stack_room H ss Leaf" using Node.prems(2) by (simp add: stack_room_def)
      moreover have "walk_kept s s" by (simp add: walk_kept_def)
      ultimately show ?thesis using oom(2,3) Node.prems(5) by blast
    qed
  qed
qed

end

subsection \<open>The range iterator\<close>

definition range_own :: "size_t \<Rightarrow> size_t \<Rightarrow> ('n, 'k) range_walk_t \<Rightarrow> (addr \<rightharpoonup> size_t)" where
  "range_own sz ks s = (case rw_hi s of None \<Rightarrow> [wk_self s \<mapsto> sz] | Some (a, hi) \<Rightarrow> [wk_self s \<mapsto> sz, a \<mapsto> ks])"

definition hi_apart :: "('n, 'k) range_walk_t \<Rightarrow> bool" where
  "hi_apart s \<longleftrightarrow> (case rw_hi s of None \<Rightarrow> True | Some (a, hi) \<Rightarrow> a \<noteq> wk_self s)"

lemma range_kept:
  assumes "walk_kept s s'"
  shows "range_own sz ks s' = range_own sz ks s" and "hi_apart s' = hi_apart s" and "rw_hi s' = rw_hi s"
proof -
  from assms have "wk_self s' = wk_self s" "rw_hi s' = rw_hi s" by (cases s; cases s'; simp add: walk_kept_def)+
  then show "range_own sz ks s' = range_own sz ks s" "hi_apart s' = hi_apart s" "rw_hi s' = rw_hi s"
    by (simp_all add: range_own_def hi_apart_def split: option.split)
qed

definition range_is ::
  "'k compare_fn \<Rightarrow> ('d \<Rightarrow> 'k) \<Rightarrow> nat \<Rightarrow> size_t \<Rightarrow> size_t \<Rightarrow> (('d, 'z) tnode_scheme, 'k) range_walk_t \<Rightarrow> 'd list \<Rightarrow> bool" where
  "range_is cmp key H sz ks s ds \<longleftrightarrow>
     hi_apart s \<and> (\<exists>ss es. spine_is s ss \<and> apart (range_own sz ks s) (wk_stack s) \<and> walk_is H False s ss es \<and>
       ordered cmp key es \<and> ds = filter (at_most cmp key (map_option snd (rw_hi s))) es)"

context heap_allocator begin

lemma range_closes:
  assumes "range_is cmp key H sz ks s ds"
  shows "iter_closes live (iter_make nx (range_walk_drop (Some t) sz ks) s es al) (spine_blocks (range_own sz ks s) s)"
  unfolding iter_closes_def
proof (intro allI impI)
  fix w R
  assume "owns (live w) R (spine_blocks (range_own sz ks s) s)"
  with assms obtain ss where at: "spine_at live R w (range_own sz ks s) s ss" and h: "hi_apart s"
    by (auto simp: spine_at_def range_is_def)
  obtain w1 where 1: "spine_drop (Some t) s w = Some w1" "owns (live w1) R (range_own sz ks s)" by (rule spine_drop_at [OF at])
  show "\<exists>w'. iter_destroy (iter_make nx (range_walk_drop (Some t) sz ks) s es al) w = Some w' \<and> live w' = R"
  proof (cases "rw_hi s")
    case None
    with 1(2) have "owns (live w1) R [wk_self s \<mapsto> sz]" by (simp add: range_own_def)
    then obtain w2 where "mem_free (Some t) (Some (wk_self s)) sz w1 = Some w2" "live w2 = R" by (rule release_one)
    with 1(1) None show ?thesis by (simp add: range_walk_drop_def del: mem_free.simps)
  next
    case (Some p)
    then obtain a k where p: "rw_hi s = Some (a, k)" "a \<noteq> wk_self s" using h by (cases p) (auto simp: hi_apart_def)
    with 1(2) have o: "owns (live w1) R [wk_self s \<mapsto> sz, a \<mapsto> ks]" by (simp add: range_own_def)
    obtain w2 where 2: "mem_free (Some t) (Some a) ks w1 = Some w2" "owns (live w2) R ([wk_self s \<mapsto> sz, a \<mapsto> ks](a := None))"
      by (rule owns_mem_free [OF o, of a ks]) simp
    have "[wk_self s \<mapsto> sz, a \<mapsto> ks](a := None) = [wk_self s \<mapsto> sz]" using p(2) by (auto simp: fun_eq_iff fun_upd_apply)
    with 2(2) have "owns (live w2) R [wk_self s \<mapsto> sz]" by simp
    then obtain w3 where "mem_free (Some t) (Some (wk_self s)) sz w2 = Some w3" "live w3 = R" by (rule release_one)
    with 1(1) 2(1) p(1) show ?thesis by (simp add: range_walk_drop_def del: mem_free.simps)
  qed
qed

text \<open>One call, with everything the next one needs.\<close>

lemma range_step:
  assumes "compare_order cmp" and "range_is cmp key H sz ks s ds" and "owns (live w) R (spine_blocks (range_own sz ks s) s)"
  obtains r s' w' ds' where "range_walk_next cmp key (Some t) s w = Some (r, s', w')" and "range_is cmp key H sz ks s' ds'"
    and "owns (live w') R (spine_blocks (range_own sz ks s') s')" and "walk_answer t H ds r ds' w'"
proof -
  from assms(2) obtain ss es where s: "hi_apart s" "spine_is s ss" "apart (range_own sz ks s) (wk_stack s)" "walk_is H False s ss es"
    "ordered cmp key es" "ds = filter (at_most cmp key (map_option snd (rw_hi s))) es" by (auto simp: range_is_def)
  from s(2,3) assms(3) have at: "spine_at live R w (range_own sz ks s) s ss" by (rule spine_atI)
  from range_walk_next_at [OF assms(1) at s(4,5)] obtain r s' ss' w' es' where
    n: "range_walk_next cmp key (Some t) s w = Some (r, s', w')" "walk_kept s s'" "spine_at live R w' (range_own sz ks s) s' ss'"
      "walk_is H False s' ss' es'" "ordered cmp key es'"
      "walk_answer t H ds r (filter (at_most cmp key (map_option snd (rw_hi s))) es') w'" unfolding s(6) by blast
  note k = range_kept [OF n(2)]
  from n(3) have "range_is cmp key H sz ks s' (filter (at_most cmp key (map_option snd (rw_hi s))) es')"
    unfolding range_is_def using n(4,5) s(1) k by (auto dest: spine_atD)
  moreover from n(3) have "owns (live w') R (spine_blocks (range_own sz ks s') s')" unfolding k(1) by (rule spine_atD)
  ultimately show ?thesis using that n(1,6) by blast
qed

lemma range_yields:
  assumes cmp: "compare_order cmp" and "range_is cmp key H sz ks s ds"
  shows "iter_until live (refused_growth t (stack_limit H)) ds
    (iter_make (range_walk_next cmp key (Some t)) (range_walk_drop (Some t) sz ks) s es al) (spine_blocks (range_own sz ks s) s)"
  using assms(2)
proof (induction ds arbitrary: s)
  case Nil
  let ?it = "\<lambda>s. iter_make (range_walk_next cmp key (Some t)) (range_walk_drop (Some t) sz ks) s es al"
  show ?case unfolding iter_until.simps
  proof (rule iter_rep_NilI [OF range_closes [OF Nil]])
    fix w R
    assume "owns (live w) R (spine_blocks (range_own sz ks s) s)"
    with cmp Nil obtain r s' w' ds' where n: "range_walk_next cmp key (Some t) s w = Some (r, s', w')" "range_is cmp key H sz ks s' ds'"
      "owns (live w') R (spine_blocks (range_own sz ks s') s')" "walk_answer t H [] r ds' w'" by (rule range_step)
    have "r = None" using n(4) by (cases r) (simp_all add: walk_answer_def)
    with n(1) have "iter_next (?it s) w = Some (None, ?it s', w')" by simp
    with n(3) range_closes [OF n(2)]
    show "\<exists>it' w' B'. iter_next (?it s) w = Some (None, it', w') \<and> owns (live w') R B' \<and> iter_closes live it' B'" by blast
  qed
next
  case (Cons d ds)
  let ?it = "\<lambda>s. iter_make (range_walk_next cmp key (Some t)) (range_walk_drop (Some t) sz ks) s es al"
  show ?case unfolding iter_until.simps
  proof (intro conjI allI impI range_closes [OF Cons.prems])
    fix w R
    assume "owns (live w) R (spine_blocks (range_own sz ks s) s)"
    with cmp Cons.prems obtain r s' w' ds' where n: "range_walk_next cmp key (Some t) s w = Some (r, s', w')"
      "range_is cmp key H sz ks s' ds'" "owns (live w') R (spine_blocks (range_own sz ks s') s')" "walk_answer t H (d # ds) r ds' w'"
      by (rule range_step)
    have nx: "iter_next (?it s) w = Some (r, ?it s', w')" using n(1) by simp
    have "r = Some d \<and> iter_until live (refused_growth t (stack_limit H)) ds (?it s') (spine_blocks (range_own sz ks s') s') \<or>
      r = None \<and> refused_growth t (stack_limit H) w'"
    proof (cases "r = None")
      case True
      with n(4) show ?thesis by (simp add: walk_answer_def)
    next
      case False
      with n(4) have "r = Some d" and ds': "ds' = ds" by (auto simp: walk_answer_def)
      with Cons.IH [OF n(2) [unfolded ds']] show ?thesis by blast
    qed
    with nx n(3) range_closes [OF n(2)] show "\<exists>it' w' B'. owns (live w') R B' \<and>
        (iter_next (?it s) w = Some (Some d, it', w') \<and> iter_until live (refused_growth t (stack_limit H)) ds it' B' \<or>
         iter_next (?it s) w = Some (None, it', w') \<and> refused_growth t (stack_limit H) w' \<and> iter_closes live it' B')"
      by blast
  qed
qed

text \<open>Priming from a fresh state: with its stack, or at once at the root when there is no lower bound.\<close>

lemma range_primed:
  assumes cmp: "compare_order cmp" and o: "ordered cmp key (elems T)" and h: "hi_apart s"
    and fresh: "wk_stack s = None" "wk_len s = 0" "wk_cap s = 0" "wk_current s = Leaf"
    and own: "owns (live w) R (range_own sz ks s)"
  obtains s' w' zs ys where
    "(case lo of Some k \<Rightarrow> push_lo cmp key (Some t) k T s w | None \<Rightarrow> Some (s\<lparr>wk_current := T\<rparr>, w)) = Some (s', w')"
    and "range_is cmp key (height T) sz ks s' ys" and "owns (live w') R (spine_blocks (range_own sz ks s') s')"
    and "in_range cmp key lo (map_option snd (rw_hi s)) (elems T) = zs @ ys"
    and "zs = [] \<or> refused_growth t (stack_limit (height T)) w'"
proof -
  let ?hi = "at_most cmp key (map_option snd (rw_hi s))"
  have at: "spine_at live R w (range_own sz ks s) s []"
    using fresh own by (simp add: spine_at_def spine_is_def spine_blocks_def)
  show ?thesis
  proof (cases lo)
    case None
    let ?s = "s\<lparr>wk_current := T\<rparr>"
    have k: "walk_kept s ?s" by (simp add: walk_kept_def)
    have "spine_at live R w (range_own sz ks s) ?s []" using at by (simp add: spine_at_def spine_is_def spine_blocks_def)
    note a = spine_atD [OF this]
    have "walk_is (height T) False ?s [] (elems T)" by (simp add: walk_is_def stack_room_start to_come_start in_order_def)
    then have "range_is cmp key (height T) sz ks ?s (filter ?hi (elems T))"
      unfolding range_is_def range_kept [OF k] using a(1,2) o h by blast
    moreover have "in_range cmp key lo (map_option snd (rw_hi s)) (elems T) = [] @ filter ?hi (elems T)"
      by (simp add: in_range_def None at_least_def [abs_def])
    ultimately show ?thesis using that [of ?s w "filter ?hi (elems T)" "[]"] a(3) None unfolding range_kept [OF k] by simp
  next
    case (Some k)
    have "stack_room (height T) [] T" by (simp add: stack_room_start)
    from push_lo_at [OF at this o cmp fresh(4), of k] obtain s' ss' w' zs where
      p: "push_lo cmp key (Some t) k T s w = Some (s', w')" "walk_kept s s'" "wk_current s' = Leaf"
        "spine_at live R w' (range_own sz ks s) s' ss'" "stack_room (height T) ss' Leaf"
        "filter (at_least cmp key (Some k)) (elems T) = zs @ to_come False ss' Leaf"
        "zs = [] \<or> refused_growth t (stack_limit (height T)) w'" by auto
    note a = spine_atD [OF p(4)]
    have "ordered cmp key (filter (at_least cmp key (Some k)) (elems T))" using o by (auto simp: ordered_def intro: sorted_wrt_filter)
    then have "ordered cmp key (to_come False ss' Leaf)" unfolding p(6) by (simp add: ordered_append)
    moreover have "walk_is (height T) False s' ss' (to_come False ss' Leaf)" using p(3,5) by (simp add: walk_is_def)
    ultimately have "range_is cmp key (height T) sz ks s' (filter ?hi (to_come False ss' Leaf))"
      unfolding range_is_def range_kept [OF p(2)] using a(1,2) h by blast
    moreover have "in_range cmp key lo (map_option snd (rw_hi s)) (elems T) = filter ?hi zs @ filter ?hi (to_come False ss' Leaf)"
      unfolding in_range_def Some p(6) by simp
    ultimately show ?thesis
      using that [of s' w' "filter ?hi (to_come False ss' Leaf)" "filter ?hi zs"] a(3) p(1,7) Some
      unfolding range_kept [OF p(2)] by auto
  qed
qed

lemma tree_iter_range_built:
  fixes T :: "('d, 'z) node_tree"
  assumes cmp: "compare_order cmp" and o: "ordered cmp key (elems T)" and sz: "sz \<le> 256" and ks: "ks \<le> PTRDIFF_MAX"
  shows "iter_built_until live (refused_growth t (stack_limit (height T))) (Some t) (live w) es (in_range cmp key lo hi (elems T))
     (tree_iter_range cmp key sz ks es (Some t) T lo hi w)"
proof (cases rule: iter_state_alloc [of sz w])
  case (granted a w1)
  let ?s = "\<lambda>q. \<lparr>wk_self = a, wk_stack = None, wk_len = 0, wk_cap = 0, wk_current = (Leaf :: ('d, 'z) node_tree), rw_hi = q\<rparr>"
  let ?it = "\<lambda>s. iter_make (range_walk_next cmp key (Some t)) (range_walk_drop (Some t) sz ks) s es (Some t)"
  let ?r = "tree_iter_range cmp key sz ks es (Some t) T lo hi w"
  have primed: "iter_built_until live (refused_growth t (stack_limit (height T))) (Some t) (live w) es (in_range cmp key lo hi (elems T)) ?r"
    if h: "hi_apart (?s q)" "map_option snd q = hi" and own: "owns (live w2) (live w) (range_own sz ks (?s q))"
      and r: "?r = do { (s, w) \<leftarrow> (case lo of Some k \<Rightarrow> push_lo cmp key (Some t) k T (?s q) w2 | None \<Rightarrow> Some ((?s q)\<lparr>wk_current := T\<rparr>, w2));
        Some (?it s, w) }" for q w2
  proof -
    have fresh: "wk_stack (?s q) = None" "wk_len (?s q) = 0" "wk_cap (?s q) = 0" "wk_current (?s q) = Leaf" by simp_all
    obtain s' w' zs ys where
      p: "(case lo of Some k \<Rightarrow> push_lo cmp key (Some t) k T (?s q) w2 | None \<Rightarrow> Some ((?s q)\<lparr>wk_current := T\<rparr>, w2)) = Some (s', w')"
        "range_is cmp key (height T) sz ks s' ys" "owns (live w') (live w) (spine_blocks (range_own sz ks s') s')"
        "in_range cmp key lo (map_option snd (rw_hi (?s q))) (elems T) = zs @ ys"
        "zs = [] \<or> refused_growth t (stack_limit (height T)) w'"
      by (rule range_primed [OF cmp o h(1) fresh own, where lo = lo])
    have "?r = Some (?it s', w')" unfolding r p(1) by simp
    moreover have "in_range cmp key lo hi (elems T) = zs @ ys" using p(4) h(2) by simp
    moreover note range_yields [OF cmp p(2), of es "Some t"] p(3,5)
    ultimately show ?thesis unfolding iter_built_until_def by (metis iter_make_simps(1-3))
  qed
  show ?thesis
  proof (cases hi)
    case None
    show ?thesis
      by (rule primed [of None w1]) (use granted None in \<open>simp_all add: hi_apart_def range_own_def tree_iter_range_def Let_def split: option.split del: mem_alloc.simps\<close>)
  next
    case (Some k)
    from granted(2) show ?thesis
    proof (cases rule: state_alloc [where n = ks])
      case b: (granted b w2)
      show ?thesis
        by (rule primed [of "Some (b, k)" w2])
          (use granted(1) b Some in \<open>simp_all add: hi_apart_def range_own_def tree_iter_range_def Let_def split: option.split del: mem_alloc.simps\<close>)
    next
      case b: (refused w2)
      obtain w3 where "mem_free (Some t) (Some a) sz w2 = Some w3" "live w3 = live w" by (rule release_one [OF b(2)])
      moreover from b(3) ks have "starved (Some t)" by (rule starvedI)
      ultimately show ?thesis using granted(1) b(1) Some
        by (simp add: iter_built_until_def tree_iter_range_def Let_def del: mem_alloc.simps mem_free.simps)
    qed
  qed
next
  case (refused w')
  from refused(3) sz have "starved (Some t)" by (rule starved_small)
  with refused show ?thesis by (simp add: iter_built_until_def tree_iter_range_def del: mem_alloc.simps)
qed

end

end
