(* ===== verification/Seqc_Balance.thy ===== *)
theory Seqc_Balance
  imports Seqc_Tree_Range
begin

section \<open>Rotations\<close>

text \<open>
  The balancing of \<open>src/avl/avl.c\<close>, which \<open>src/omap/omap.c\<close> repeats word for word. Heights are
  mathematical integers: a balanced tree of \<open>n\<close> nodes is at most \<open>2 * log2 (n + 1)\<close> high, which no
  \<open>int\<close> overflows.
\<close>

record 'd avl_node_t = "'d tnode" +
  nd_height :: int

type_synonym 'd avl_tree = "'d avl_node_t tree"

fun node_height :: "'d avl_tree \<Rightarrow> int" where
  "node_height Leaf = 0"
| "node_height (Node l n r) = nd_height n"

definition max2 :: "int \<Rightarrow> int \<Rightarrow> int" where
  "max2 a b = (if a > b then a else b)"

text \<open>The remaining helpers follow the pointer they are given, which must not be NULL.\<close>

fun update_height :: "'d avl_tree \<Rightarrow> 'd avl_tree option" where
  "update_height Leaf = None"
| "update_height (Node l n r) = Some (Node l (n\<lparr>nd_height := 1 + max2 (node_height l) (node_height r)\<rparr>) r)"

fun balance_factor :: "'d avl_tree \<Rightarrow> int option" where
  "balance_factor Leaf = None"
| "balance_factor (Node l n r) = Some (node_height l - node_height r)"

fun rotate_right :: "'d avl_tree \<Rightarrow> 'd avl_tree option" where
  "rotate_right (Node (Node A x B) y C) = do {
     y \<leftarrow> update_height (Node B y C);
     update_height (Node A x y)
   }"
| "rotate_right T = None"

fun rotate_left :: "'d avl_tree \<Rightarrow> 'd avl_tree option" where
  "rotate_left (Node A x (Node B y C)) = do {
     x \<leftarrow> update_height (Node A x B);
     update_height (Node x y C)
   }"
| "rotate_left T = None"

definition rebalance :: "'d avl_tree \<Rightarrow> 'd avl_tree option" where
  "rebalance T = do {
     T \<leftarrow> update_height T;
     bf \<leftarrow> balance_factor T;
     case T of
       Leaf \<Rightarrow> None
     | Node l n r \<Rightarrow>
         if bf > 1 then do {
           b \<leftarrow> balance_factor l;
           if b \<ge> 0 then rotate_right T
           else do { l \<leftarrow> rotate_left l; rotate_right (Node l n r) }
         } else if bf < -1 then do {
           b \<leftarrow> balance_factor r;
           if b \<le> 0 then rotate_left T
           else do { r \<leftarrow> rotate_right r; rotate_left (Node l n r) }
         } else Some T
   }"

subsection \<open>The invariant\<close>

text \<open>Balanced, and every node knows its height.\<close>

fun avl :: "'d avl_tree \<Rightarrow> bool" where
  "avl Leaf \<longleftrightarrow> True"
| "avl (Node l n r) \<longleftrightarrow> avl l \<and> avl r \<and> height l \<le> height r + 1 \<and> height r \<le> height l + 1 \<and>
     nd_height n = int (height (Node l n r))"

lemma avl_height: "avl T \<Longrightarrow> node_height T = int (height T)"
  by (cases T) simp_all

lemma max2_max [simp]: "max2 a b = max a b"
  by (simp add: max2_def)

text \<open>Rebalancing a node whose subtrees are balanced and differ by at most two.\<close>

definition rebalanced :: "'d avl_tree \<Rightarrow> 'd avl_tree \<Rightarrow> bool" where
  "rebalanced T T' \<longleftrightarrow> rebalance T = Some T' \<and> avl T' \<and> nodes T' = nodes T \<and>
     height T \<le> height T' + 1 \<and> height T' \<le> height T"

lemma rebalance_even:
  assumes "avl l" and "avl r" and "height l \<le> height r + 1" and "height r \<le> height l + 1"
  shows "\<exists>T'. rebalanced (Node l n r) T' \<and> height T' = height (Node l n r)"
  using assms by (auto simp: rebalanced_def rebalance_def avl_height)

lemma rebalance_left:
  assumes "avl l" and "avl r" and "height l = height r + 2"
  shows "\<exists>T'. rebalanced (Node l n r) T'"
proof -
  from assms(3) obtain A x B where l: "l = Node A x B" by (cases l) auto
  show ?thesis
  proof (cases "height B \<le> height A")
    case True
    with assms show ?thesis unfolding l
      by (auto simp: rebalanced_def rebalance_def avl_height max_def split: if_splits)
  next
    case False
    then obtain B1 y B2 where B: "B = Node B1 y B2" by (cases B) auto
    from False assms show ?thesis unfolding l B
      by (auto simp: rebalanced_def rebalance_def avl_height max_def split: if_splits)
  qed
qed

lemma rebalance_right:
  assumes "avl l" and "avl r" and "height r = height l + 2"
  shows "\<exists>T'. rebalanced (Node l n r) T'"
proof -
  from assms(3) obtain B y C where r: "r = Node B y C" by (cases r) auto
  show ?thesis
  proof (cases "height B \<le> height C")
    case True
    with assms show ?thesis unfolding r
      by (auto simp: rebalanced_def rebalance_def avl_height max_def split: if_splits)
  next
    case False
    then obtain B1 x B2 where B: "B = Node B1 x B2" by (cases B) auto
    from False assms show ?thesis unfolding r B
      by (auto simp: rebalanced_def rebalance_def avl_height max_def split: if_splits)
  qed
qed

lemma rebalance_ok:
  assumes "avl l" and "avl r" and "height l \<le> height r + 2" and "height r \<le> height l + 2"
  obtains T' where "rebalanced (Node l n r) T'"
    and "height l \<le> height r + 1 \<and> height r \<le> height l + 1 \<longrightarrow> height T' = height (Node l n r)"
proof -
  consider "height l \<le> height r + 1 \<and> height r \<le> height l + 1" | "height l = height r + 2" | "height r = height l + 2"
    using assms(3,4) by linarith
  then show ?thesis
  proof cases
    case 1
    with rebalance_even [OF assms(1,2)] that show ?thesis by blast
  next
    case 2
    with rebalance_left [OF assms(1,2)] that show ?thesis by fastforce
  next
    case 3
    with rebalance_right [OF assms(1,2)] that show ?thesis by fastforce
  qed
qed

definition tree_ht :: "'d avl_tree \<Rightarrow> int" where
  "tree_ht T = int (height T)"

definition new_node :: "addr \<Rightarrow> 'd \<Rightarrow> 'd avl_node_t" where
  "new_node a d = \<lparr>nd_self = a, nd_data = d, nd_height = 1\<rparr>"

context compare_order begin

lemma avl_balanced:
  assumes "\<And>d e. key (upd d e) = key e"
  shows "balanced cmp rebalance avl tree_ht new_node upd key"
proof unfold_locales
  fix l r l' :: "'b avl_tree" and n :: "'b avl_node_t"
  assume h: "avl (Node l n r)" "avl l'" "\<bar>tree_ht l' - tree_ht l\<bar> \<le> 1"
  then have "avl r" "height l' \<le> height r + 2" "height r \<le> height l' + 2" by (auto simp: tree_ht_def)
  from rebalance_ok [OF h(2) this] obtain T where T: "rebalanced (Node l' n r) T"
    "height l' \<le> height r + 1 \<and> height r \<le> height l' + 1 \<longrightarrow> height T = height (Node l' n r)" by blast
  with h show "\<exists>T. rebalance (Node l' n r) = Some T \<and> avl T \<and> \<bar>tree_ht T - tree_ht (Node l n r)\<bar> \<le> 1 \<and> nodes T = nodes (Node l' n r)"
    by (intro exI [of _ T]) (auto simp: rebalanced_def tree_ht_def)
next
  fix l r r' :: "'b avl_tree" and n :: "'b avl_node_t"
  assume h: "avl (Node l n r)" "avl r'" "\<bar>tree_ht r' - tree_ht r\<bar> \<le> 1"
  then have "avl l" "height l \<le> height r' + 2" "height r' \<le> height l + 2" by (auto simp: tree_ht_def)
  from rebalance_ok [OF this(1) h(2) this(2,3)] obtain T where T: "rebalanced (Node l n r') T"
    "height l \<le> height r' + 1 \<and> height r' \<le> height l + 1 \<longrightarrow> height T = height (Node l n r')" by blast
  with h show "\<exists>T. rebalance (Node l n r') = Some T \<and> avl T \<and> \<bar>tree_ht T - tree_ht (Node l n r)\<bar> \<le> 1 \<and> nodes T = nodes (Node l n r')"
    by (intro exI [of _ T]) (auto simp: rebalanced_def tree_ht_def)
qed (auto simp: tree_ht_def new_node_def assms)

end

subsection \<open>The height is logarithmic\<close>

lemma avl_size: "avl T \<Longrightarrow> 2 * k \<le> height T \<Longrightarrow> 2 ^ k \<le> size1 T"
proof (induction k arbitrary: T)
  case (Suc k)
  then obtain l n r where T: "T = Node l n r" by (cases T) auto
  from Suc.prems have "avl l" "avl r" "2 * k \<le> height l" "2 * k \<le> height r" unfolding T by auto
  with Suc.IH [of l] Suc.IH [of r] show ?case unfolding T by simp
qed (simp add: size1_size)

lemma avl_height_log: "avl T \<Longrightarrow> 2 ^ (height T div 2) \<le> Suc (length (nodes T))"
  using avl_size [of T "height T div 2"] by (simp add: nodes_def size1_size)

end
