(* ===== verification/Seqc_Avl.thy ===== *)
theory Seqc_Avl
  imports Seqc_Balance
begin

section \<open>The AVL tree\<close>

text \<open>
  \<open>src/avl/avl.c\<close>: the struct and the public operations, over the tree algorithms of
  \<open>Seqc_Tree\<close> and the rotations of \<open>Seqc_Balance\<close>. An element is its own key.
\<close>

record ('a, 'w) avl_t =
  av_self :: addr
  av_root :: "'a avl_tree"
  av_len :: size_t
  av_elem_size :: size_t
  av_cmp :: "'a compare_fn"
  av_alloc :: "'w allocator_t"

definition sizeof_avl_node_t :: size_t where
  "sizeof_avl_node_t = 24"

definition sizeof_avl_t :: size_t where
  "sizeof_avl_t = 48"

definition sizeof_avl_iter_state_t :: size_t where
  "sizeof_avl_iter_state_t = 56"

definition sizeof_avl_range_iter_state_t :: size_t where
  "sizeof_avl_range_iter_state_t = 72"

lemma sizeof_avl_node_t_small [simp]: "sizeof_avl_node_t \<le> 256" "sizeof_avl_t \<le> 256" "sizeof_avl_iter_state_t \<le> 256" "sizeof_avl_range_iter_state_t \<le> 256"
  by (simp_all add: sizeof_avl_node_t_def sizeof_avl_t_def sizeof_avl_iter_state_t_def sizeof_avl_range_iter_state_t_def)

subsection \<open>Operations\<close>

definition avl_node_alloc_size :: "size_t \<Rightarrow> size_t" where
  "avl_node_alloc_size es = wadd (data_offset sizeof_avl_node_t) es"

definition avl_create :: "size_t \<Rightarrow> 'a compare_fn \<Rightarrow> 'w allocator_t \<Rightarrow> 'w \<Rightarrow> (('a, 'w) avl_t option \<times> 'w) option" where
  "avl_create es cmp al w = do {
     (p, w) \<leftarrow> mem_alloc al sizeof_avl_t w;
     case p of
       None \<Rightarrow> Some (None, w)
     | Some a \<Rightarrow> Some (Some \<lparr>av_self = a, av_root = Leaf, av_len = 0, av_elem_size = es, av_cmp = cmp, av_alloc = al\<rparr>, w)
   }"

definition avl_do_insert ::
  "('a, 'w) avl_t \<Rightarrow> 'a avl_tree \<Rightarrow> 'a \<Rightarrow> 'w \<Rightarrow> (bool \<times> bool \<times> 'a avl_tree \<times> 'w) option" where
  "avl_do_insert t node elem w =
     tree_insert rebalance (av_alloc t) (avl_node_alloc_size (av_elem_size t)) new_node (\<lambda>d e. e) (av_cmp t) (\<lambda>e. e) elem node w"

definition avl_add ::
  "('a, 'w) avl_t option \<Rightarrow> 'a option \<Rightarrow> 'w \<Rightarrow> (seqc_status_t \<times> ('a, 'w) avl_t option \<times> 'w) option" where
  "avl_add t elem w =
     (case (t, elem) of
        (Some u, Some x) \<Rightarrow> do {
          (inserted, oom, new_root, w) \<leftarrow> avl_do_insert u (av_root u) x w;
          if oom then Some (SEQC_OOM, Some u, w)
          else do {
            let u = (if new_root \<noteq> Leaf then u\<lparr>av_root := new_root\<rparr> else u);
            let u = (if inserted then u\<lparr>av_len := Suc (av_len u)\<rparr> else u);
            Some (if inserted then SEQC_OK else SEQC_DUPLICATE, Some u, w)
          }
        }
      | _ \<Rightarrow> Some (SEQC_INVALID, t, w))"

definition avl_contains :: "('a, 'w) avl_t option \<Rightarrow> 'a option \<Rightarrow> bool" where
  "avl_contains t elem =
     (case (t, elem) of
        (Some u, Some x) \<Rightarrow> tree_find (av_cmp u) (\<lambda>e. e) x (av_root u) \<noteq> None
      | _ \<Rightarrow> False)"

definition avl_do_remove :: "('a, 'w) avl_t \<Rightarrow> 'a avl_tree \<Rightarrow> 'a \<Rightarrow> 'w \<Rightarrow> (bool \<times> 'a avl_tree \<times> 'w) option" where
  "avl_do_remove t node elem w =
     tree_remove rebalance (av_alloc t) (avl_node_alloc_size (av_elem_size t)) (av_cmp t) (\<lambda>e. e) elem node w"

definition avl_remove ::
  "('a, 'w) avl_t option \<Rightarrow> 'a option \<Rightarrow> 'w \<Rightarrow> (seqc_status_t \<times> ('a, 'w) avl_t option \<times> 'w) option" where
  "avl_remove t elem w =
     (case (t, elem) of
        (Some u, Some x) \<Rightarrow> do {
          (removed, root, w) \<leftarrow> avl_do_remove u (av_root u) x w;
          let u = u\<lparr>av_root := root\<rparr>;
          let u = (if removed then u\<lparr>av_len := av_len u - 1\<rparr> else u);
          Some (if removed then SEQC_OK else SEQC_NOT_FOUND, Some u, w)
        }
      | _ \<Rightarrow> Some (SEQC_INVALID, t, w))"

definition avl_min_ptr :: "('a, 'w) avl_t option \<Rightarrow> 'a avl_node_t option" where
  "avl_min_ptr t = do { u \<leftarrow> t; leftmost (av_root u) }"

definition avl_max_ptr :: "('a, 'w) avl_t option \<Rightarrow> 'a avl_node_t option" where
  "avl_max_ptr t = do { u \<leftarrow> t; rightmost (av_root u) }"

definition avl_min :: "('a, 'w) avl_t option \<Rightarrow> bool \<Rightarrow> (seqc_status_t \<times> 'a option) option" where
  "avl_min t out =
     (case t of
        None \<Rightarrow> Some (SEQC_INVALID, None)
      | Some u \<Rightarrow> seqc_copy_out (map_option (\<lambda>n. Some (nd_data n)) (avl_min_ptr t)) out)"

definition avl_max :: "('a, 'w) avl_t option \<Rightarrow> bool \<Rightarrow> (seqc_status_t \<times> 'a option) option" where
  "avl_max t out =
     (case t of
        None \<Rightarrow> Some (SEQC_INVALID, None)
      | Some u \<Rightarrow> seqc_copy_out (map_option (\<lambda>n. Some (nd_data n)) (avl_max_ptr t)) out)"

definition avl_len :: "('a, 'w) avl_t option \<Rightarrow> size_t" where
  "avl_len t = (case t of None \<Rightarrow> 0 | Some u \<Rightarrow> av_len u)"

definition avl_is_empty :: "('a, 'w) avl_t option \<Rightarrow> bool" where
  "avl_is_empty t = (case t of None \<Rightarrow> True | Some u \<Rightarrow> av_len u = 0)"

definition avl_height_of :: "('a, 'w) avl_t option \<Rightarrow> int" where
  "avl_height_of t = (case t of None \<Rightarrow> 0 | Some u \<Rightarrow> node_height (av_root u))"

definition avl_free_subtree :: "('a, 'w) avl_t \<Rightarrow> 'a avl_tree \<Rightarrow> 'w \<Rightarrow> 'w option" where
  "avl_free_subtree t node w = free_tree (av_alloc t) (avl_node_alloc_size (av_elem_size t)) node w"

definition avl_destroy :: "('a, 'w) avl_t option \<Rightarrow> 'w \<Rightarrow> 'w option" where
  "avl_destroy t w =
     (case t of
        None \<Rightarrow> Some w
      | Some u \<Rightarrow> do {
          w \<leftarrow> avl_free_subtree u (av_root u) w;
          mem_free (av_alloc u) (Some (av_self u)) sizeof_avl_t w
        })"

definition avl_clear :: "('a, 'w) avl_t option \<Rightarrow> 'w \<Rightarrow> (('a, 'w) avl_t option \<times> 'w) option" where
  "avl_clear t w =
     (case t of
        None \<Rightarrow> Some (None, w)
      | Some u \<Rightarrow> do {
          w \<leftarrow> avl_free_subtree u (av_root u) w;
          Some (Some (u\<lparr>av_root := Leaf, av_len := 0\<rparr>), w)
        })"

subsection \<open>Iterators\<close>

type_synonym 'a avl_iter_state_t = "'a avl_node_t walk_t"
type_synonym 'a avl_range_iter_state_t = "('a avl_node_t, 'a) range_walk_t"

definition avl_stack_push ::
  "'w allocator_t \<Rightarrow> 'a avl_tree \<Rightarrow> ('a avl_node_t, 'x) walk_t_scheme \<Rightarrow> 'w \<Rightarrow>
   (bool \<times> ('a avl_node_t, 'x) walk_t_scheme \<times> 'w) option" where
  "avl_stack_push = spine_push"

definition avl_iter_next :: "'w allocator_t \<Rightarrow> 'a avl_iter_state_t \<Rightarrow> 'w \<Rightarrow> ('a option \<times> 'a avl_iter_state_t \<times> 'w) option" where
  "avl_iter_next = walk_next False"

definition avl_iter_rev_next :: "'w allocator_t \<Rightarrow> 'a avl_iter_state_t \<Rightarrow> 'w \<Rightarrow> ('a option \<times> 'a avl_iter_state_t \<times> 'w) option" where
  "avl_iter_rev_next = walk_next True"

definition avl_iter_drop :: "'w allocator_t \<Rightarrow> 'a avl_iter_state_t \<Rightarrow> 'w \<Rightarrow> 'w option" where
  "avl_iter_drop al = walk_drop al sizeof_avl_iter_state_t"

definition avl_iter :: "('a, 'w) avl_t option \<Rightarrow> 'w \<Rightarrow> (('a, 'a avl_iter_state_t, 'w) iter_t \<times> 'w) option" where
  "avl_iter t w =
     (case t of
        None \<Rightarrow> Some (iter_zero, w)
      | Some u \<Rightarrow> tree_iter False sizeof_avl_iter_state_t (av_elem_size u) (av_alloc u) (av_root u) w)"

definition avl_iter_rev :: "('a, 'w) avl_t option \<Rightarrow> 'w \<Rightarrow> (('a, 'a avl_iter_state_t, 'w) iter_t \<times> 'w) option" where
  "avl_iter_rev t w =
     (case t of
        None \<Rightarrow> Some (iter_zero, w)
      | Some u \<Rightarrow> tree_iter True sizeof_avl_iter_state_t (av_elem_size u) (av_alloc u) (av_root u) w)"

definition avl_range_iter_next ::
  "'a compare_fn \<Rightarrow> 'w allocator_t \<Rightarrow> 'a avl_range_iter_state_t \<Rightarrow> 'w \<Rightarrow> ('a option \<times> 'a avl_range_iter_state_t \<times> 'w) option" where
  "avl_range_iter_next cmp = range_walk_next cmp (\<lambda>e. e)"

definition avl_range_iter_drop :: "'w allocator_t \<Rightarrow> size_t \<Rightarrow> 'a avl_range_iter_state_t \<Rightarrow> 'w \<Rightarrow> 'w option" where
  "avl_range_iter_drop al es = range_walk_drop al sizeof_avl_range_iter_state_t es"

definition avl_push_lo ::
  "'a compare_fn \<Rightarrow> 'w allocator_t \<Rightarrow> 'a \<Rightarrow> 'a avl_tree \<Rightarrow> 'a avl_range_iter_state_t \<Rightarrow> 'w \<Rightarrow> ('a avl_range_iter_state_t \<times> 'w) option" where
  "avl_push_lo cmp = push_lo cmp (\<lambda>e. e)"

definition avl_iter_range ::
  "('a, 'w) avl_t option \<Rightarrow> 'a option \<Rightarrow> 'a option \<Rightarrow> 'w \<Rightarrow> (('a, 'a avl_range_iter_state_t, 'w) iter_t \<times> 'w) option" where
  "avl_iter_range t lo hi w =
     (case t of
        None \<Rightarrow> Some (iter_zero, w)
      | Some u \<Rightarrow> tree_iter_range (av_cmp u) (\<lambda>e. e) sizeof_avl_range_iter_state_t (av_elem_size u) (av_elem_size u)
          (av_alloc u) (av_root u) lo hi w)"

definition avl_extend ::
  "('a, 'w) avl_t option \<Rightarrow> ('a, 's, 'w) iter_t \<Rightarrow> 'w \<Rightarrow> (seqc_status_t \<times> ('a, 'w) avl_t option \<times> 'w) option" where
  "avl_extend t it w =
     (case t of
        None \<Rightarrow> do { w \<leftarrow> iter_destroy it w; Some (SEQC_INVALID, None, w) }
      | Some u \<Rightarrow> seqc_extend t avl_add (av_elem_size u) (av_alloc u) it w)"

text \<open>The constructors install these functions.\<close>

lemma avl_iter_fields:
  "mem_alloc (av_alloc u) sizeof_avl_iter_state_t w = Some (Some a, w') \<Longrightarrow>
     avl_iter (Some u) w = Some (iter_make (avl_iter_next (av_alloc u)) (avl_iter_drop (av_alloc u))
       \<lparr>wk_self = a, wk_stack = None, wk_len = 0, wk_cap = 0, wk_current = av_root u\<rparr> (av_elem_size u) (av_alloc u), w')"
  by (simp add: avl_iter_def tree_iter_def avl_iter_next_def avl_iter_drop_def)

subsection \<open>The invariant\<close>

text \<open>\<open>avl_at\<close>: balanced, ordered, and its nodes hold \<open>ds\<close> in this order.\<close>

definition avl_at ::
  "'a compare_fn \<Rightarrow> 'w vtable \<Rightarrow> ('w \<Rightarrow> addr \<rightharpoonup> size_t) \<Rightarrow> (addr \<rightharpoonup> size_t) \<Rightarrow> 'w \<Rightarrow> ('a, 'w) avl_t \<Rightarrow> 'a list \<Rightarrow> bool" where
  "avl_at cmp t live R w u ds \<longleftrightarrow>
     av_alloc u = Some t \<and> av_cmp u = cmp \<and> av_len u = length ds \<and>
     tree_at avl cmp (\<lambda>e. e) live R w (av_self u) sizeof_avl_t (avl_node_alloc_size (av_elem_size u)) (av_root u) ds"

definition avl_is :: "'a compare_fn \<Rightarrow> 'w vtable \<Rightarrow> ('a, 'w) avl_t \<Rightarrow> 'a list \<Rightarrow> bool" where
  "avl_is cmp t u ds \<longleftrightarrow>
     av_alloc u = Some t \<and> av_cmp u = cmp \<and> av_len u = length ds \<and>
     tree_is avl cmp (\<lambda>e. e) (av_self u) (av_root u) ds"

definition avl_blocks :: "('a, 'w) avl_t \<Rightarrow> (addr \<rightharpoonup> size_t)" where
  "avl_blocks u = (tree_blocks (avl_node_alloc_size (av_elem_size u)) (av_root u))(av_self u \<mapsto> sizeof_avl_t)"

lemma avl_at_split: "avl_at cmp t live R w u ds \<longleftrightarrow> avl_is cmp t u ds \<and> owns (live w) R (avl_blocks u)"
  by (auto simp: avl_at_def avl_is_def avl_blocks_def tree_at_split)

definition avl_same :: "('a, 'w) avl_t \<Rightarrow> ('a, 'w) avl_t \<Rightarrow> bool" where
  "avl_same u u' \<longleftrightarrow> av_self u' = av_self u \<and> av_elem_size u' = av_elem_size u \<and> av_alloc u' = av_alloc u \<and> av_cmp u' = av_cmp u"

locale avl_set = heap_allocator t live + compare_order cmp
  for t :: "'w vtable" and live :: "'w \<Rightarrow> addr \<rightharpoonup> size_t" and cmp :: "'a compare_fn"

sublocale avl_set \<subseteq> tree_store t live cmp rebalance avl tree_ht new_node "\<lambda>d e. e" "\<lambda>e. e"
proof -
  have "balanced cmp rebalance avl tree_ht new_node (\<lambda>d e. e) (\<lambda>e. e)" by (rule avl_balanced) simp
  then show "tree_store t live cmp rebalance avl tree_ht new_node (\<lambda>d e. e) (\<lambda>e. e)"
    by (intro tree_store.intro heap_allocator_axioms)
qed

context avl_set begin

lemma avl_create_at:
  obtains (ok) u w' where "avl_create es cmp (Some t) w = Some (Some u, w')" and "avl_at cmp t live (live w) w' u []" and "av_elem_size u = es"
  | (oom) w' where "avl_create es cmp (Some t) w = Some (None, w')" and "live w' = live w"
      and "starved (Some t)"
proof (cases rule: iter_state_alloc [of sizeof_avl_t w])
  case (granted a w')
  let ?u = "\<lparr>av_self = a, av_root = Leaf, av_len = 0, av_elem_size = es, av_cmp = cmp, av_alloc = Some t\<rparr>"
  have "avl_create es cmp (Some t) w = Some (Some ?u, w')" using granted(1) by (simp add: avl_create_def del: mem_alloc.simps)
  moreover have "avl_at cmp t live (live w) w' ?u []" using new_tree_at [OF granted(2)] by (simp add: avl_at_def)
  ultimately show ?thesis by (rule ok) simp
next
  case (refused w')
  then show ?thesis using starved_small [OF refused(3)] by (intro oom [of w']) (simp_all add: avl_create_def del: mem_alloc.simps)
qed

lemma avl_add_at:
  assumes at: "avl_at cmp t live R w u ds"
  obtains (ok) u' w' where "avl_add (Some u) (Some x) w = Some (SEQC_OK, Some u', w')" and "\<not> present cmp (\<lambda>e. e) x ds"
      and "avl_at cmp t live R w' u' (put cmp (\<lambda>e. e) (\<lambda>d e. e) x ds)" and "avl_same u u'"
  | (duplicate) u' where "avl_add (Some u) (Some x) w = Some (SEQC_DUPLICATE, Some u', w)" and "present cmp (\<lambda>e. e) x ds"
      and "avl_at cmp t live R w u' ds" and "avl_same u u'"
  | (oom) w' where "avl_add (Some u) (Some x) w = Some (SEQC_OOM, Some u, w')" and "\<not> present cmp (\<lambda>e. e) x ds"
      and "avl_at cmp t live R w' u ds" and "refuses t (av_elem_size u + 256)"
proof -
  from at have u: "av_alloc u = Some t" "av_cmp u = cmp" "av_len u = length ds" by (simp_all add: avl_at_def)
  from at have "tree_at avl cmp (\<lambda>e. e) live R w (av_self u) sizeof_avl_t (avl_node_alloc_size (av_elem_size u)) (av_root u) ds"
    by (simp add: avl_at_def)
  then show ?thesis
  proof (cases rule: insert_at [where d = x])
    case (added T' w')
    have "T' \<noteq> Leaf" by (rule tree_at_put_not_Leaf [OF added(3)])
    let ?u = "u\<lparr>av_root := T', av_len := Suc (av_len u)\<rparr>"
    have "avl_add (Some u) (Some x) w = Some (SEQC_OK, Some ?u, w')"
      using added(1) u \<open>T' \<noteq> Leaf\<close> by (simp add: avl_add_def avl_do_insert_def Let_def)
    moreover have "avl_at cmp t live R w' ?u (put cmp (\<lambda>e. e) (\<lambda>d e. e) x ds)"
      using added(3,4) u by (simp add: avl_at_def)
    ultimately show ?thesis using ok added(2) by (simp add: avl_same_def)
  next
    case (present T')
    have "T' \<noteq> Leaf" by (rule tree_at_put_not_Leaf [OF present(3)])
    let ?u = "u\<lparr>av_root := T'\<rparr>"
    have "avl_add (Some u) (Some x) w = Some (SEQC_DUPLICATE, Some ?u, w)"
      using present(1) u \<open>T' \<noteq> Leaf\<close> by (simp add: avl_add_def avl_do_insert_def Let_def)
    moreover have "avl_at cmp t live R w ?u ds"
      using present(3) u put_present_same [OF present(2)] by (simp add: avl_at_def)
    ultimately show ?thesis using duplicate present(2) by (simp add: avl_same_def)
  next
    case (oom w')
    have "refuses t (av_elem_size u + 256)"
      by (rule refuses_tree_node [OF oom(4) [unfolded avl_node_alloc_size_def]]) (simp add: sizeof_avl_node_t_def)
    with oom show ?thesis using that(3) at u by (simp add: avl_add_def avl_do_insert_def avl_at_def)
  qed
qed

lemma avl_remove_at:
  assumes at: "avl_at cmp t live R w u ds"
  obtains u' w' where "avl_remove (Some u) (Some x) w =
      Some (if present cmp (\<lambda>e. e) x ds then SEQC_OK else SEQC_NOT_FOUND, Some u', w')"
    and "avl_at cmp t live R w' u' (del cmp (\<lambda>e. e) x ds)" and "avl_same u u'"
proof -
  from at have u: "av_alloc u = Some t" "av_cmp u = cmp" "av_len u = length ds" by (simp_all add: avl_at_def)
  from at have "tree_at avl cmp (\<lambda>e. e) live R w (av_self u) sizeof_avl_t (avl_node_alloc_size (av_elem_size u)) (av_root u) ds"
    by (simp add: avl_at_def)
  then show ?thesis
  proof (cases rule: remove_at [where k = x])
    case (removed T' w')
    let ?u = "u\<lparr>av_root := T', av_len := av_len u - 1\<rparr>"
    have "avl_remove (Some u) (Some x) w = Some (SEQC_OK, Some ?u, w')"
      using removed(1) u by (simp add: avl_remove_def avl_do_remove_def Let_def)
    moreover have "avl_at cmp t live R w' ?u (del cmp (\<lambda>e. e) x ds)" using removed(3,4) u by (simp add: avl_at_def)
    ultimately show ?thesis using that removed(2) by (simp add: avl_same_def)
  next
    case (absent T')
    let ?u = "u\<lparr>av_root := T'\<rparr>"
    have "avl_remove (Some u) (Some x) w = Some (SEQC_NOT_FOUND, Some ?u, w)"
      using absent(1) u by (simp add: avl_remove_def avl_do_remove_def Let_def)
    moreover have "avl_at cmp t live R w ?u (del cmp (\<lambda>e. e) x ds)" using absent(2,3) u by (simp add: avl_at_def del_absent)
    ultimately show ?thesis using that absent(2) by (simp add: avl_same_def)
  qed
qed

lemma avl_contains_is:
  assumes "avl_at cmp t live R w u ds"
  shows "avl_contains (Some u) (Some x) \<longleftrightarrow> present cmp (\<lambda>e. e) x ds"
proof -
  from assms have T: "elems (av_root u) = ds" "ordered cmp (\<lambda>e. e) ds" "av_cmp u = cmp" by (simp_all add: avl_at_def tree_at_def)
  have "map_option nd_data (tree_find cmp (\<lambda>e. e) x (av_root u)) = look cmp (\<lambda>e. e) x ds"
    unfolding T(1) [symmetric] by (rule tree_find_is) (use T in simp)
  then have "tree_find cmp (\<lambda>e. e) x (av_root u) = None \<longleftrightarrow> look cmp (\<lambda>e. e) x ds = None"
    by (metis option.map_disc_iff)
  with T(3) show ?thesis by (simp add: avl_contains_def look_None)
qed

lemma avl_min_max_is:
  assumes "avl_at cmp t live R w u ds"
  shows "avl_min (Some u) out = Some (if ds = [] then (SEQC_NOT_FOUND, None) else (SEQC_OK, if out then Some (hd ds) else None))"
    and "avl_max (Some u) out = Some (if ds = [] then (SEQC_NOT_FOUND, None) else (SEQC_OK, if out then Some (last ds) else None))"
proof -
  from assms have T: "elems (av_root u) = ds" by (simp add: avl_at_def tree_at_def)
  show "avl_min (Some u) out = Some (if ds = [] then (SEQC_NOT_FOUND, None) else (SEQC_OK, if out then Some (hd ds) else None))"
    using leftmost_is [of "av_root u"] unfolding T [symmetric]
    by (cases "av_root u = Leaf") (auto simp: avl_min_def avl_min_ptr_def hd_map simp flip: prod.collapse dest!: arg_cong [where f = snd])
  show "avl_max (Some u) out = Some (if ds = [] then (SEQC_NOT_FOUND, None) else (SEQC_OK, if out then Some (last ds) else None))"
    using rightmost_is [of "av_root u"] unfolding T [symmetric]
    by (cases "av_root u = Leaf") (auto simp: avl_max_def avl_max_ptr_def last_map dest!: arg_cong [where f = snd])
qed

lemma avl_clear_at:
  assumes at: "avl_at cmp t live R w u ds"
  obtains u' w' where "avl_clear (Some u) w = Some (Some u', w')" and "avl_at cmp t live R w' u' []" and "avl_same u u'"
proof -
  from at have u: "av_alloc u = Some t" "av_cmp u = cmp" by (simp_all add: avl_at_def)
  from at have "tree_at avl cmp (\<lambda>e. e) live R w (av_self u) sizeof_avl_t (avl_node_alloc_size (av_elem_size u)) (av_root u) ds"
    by (simp add: avl_at_def)
  then obtain w' where "free_tree (Some t) (avl_node_alloc_size (av_elem_size u)) (av_root u) w = Some w'"
    "tree_at avl cmp (\<lambda>e. e) live R w' (av_self u) sizeof_avl_t (avl_node_alloc_size (av_elem_size u)) Leaf []" by (rule free_at)
  with u show ?thesis
    by (intro that [of "u\<lparr>av_root := Leaf, av_len := 0\<rparr>" w']) (simp_all add: avl_clear_def avl_free_subtree_def avl_at_def avl_same_def)
qed

lemma avl_destroy_at:
  assumes at: "avl_at cmp t live R w u ds"
  obtains w' where "avl_destroy (Some u) w = Some w'" and "live w' = R"
proof -
  from at have u: "av_alloc u = Some t" by (simp add: avl_at_def)
  from at have "tree_at avl cmp (\<lambda>e. e) live R w (av_self u) sizeof_avl_t (avl_node_alloc_size (av_elem_size u)) (av_root u) ds"
    by (simp add: avl_at_def)
  then obtain w1 where 1: "free_tree (Some t) (avl_node_alloc_size (av_elem_size u)) (av_root u) w = Some w1"
    "live w1 = R(av_self u \<mapsto> sizeof_avl_t)" "av_self u \<notin> dom R" by (rule free_at)
  then have o: "owns (live w1) (R(av_self u \<mapsto> sizeof_avl_t)) Map.empty" by simp
  obtain w2 where "mem_free (Some t) (Some (av_self u)) sizeof_avl_t w1 = Some w2" "owns (live w2) R Map.empty"
    by (rule release_held [OF o 1(3)])
  with 1(1) u that show ?thesis by (simp add: avl_destroy_def avl_free_subtree_def del: mem_free.simps)
qed

text \<open>The height is the height of the tree, and logarithmic in the number of elements.\<close>

lemma avl_height_is:
  assumes "avl_at cmp t live R w u ds"
  shows "avl_height_of (Some u) = int (height (av_root u))" and "2 ^ (height (av_root u) div 2) \<le> Suc (length ds)"
proof -
  from assms have T: "avl (av_root u)" "elems (av_root u) = ds" by (simp_all add: avl_at_def tree_at_def)
  from T(1) show "avl_height_of (Some u) = int (height (av_root u))" by (simp add: avl_height_of_def avl_height)
  from avl_height_log [OF T(1)] show "2 ^ (height (av_root u) div 2) \<le> Suc (length ds)" unfolding T(2) [symmetric] by simp
qed

subsection \<open>Iterating and extending\<close>

lemma avl_iters_built:
  assumes "avl_is cmp t u ds"
  shows "iter_built_until live (refused_growth t (stack_limit (height (av_root u)))) (Some t) (live w) (av_elem_size u) ds
      (avl_iter (Some u) w)"
    and "iter_built_until live (refused_growth t (stack_limit (height (av_root u)))) (Some t) (live w) (av_elem_size u) (rev ds)
      (avl_iter_rev (Some u) w)"
    and "av_elem_size u \<le> PTRDIFF_MAX \<Longrightarrow> iter_built_until live (refused_growth t (stack_limit (height (av_root u)))) (Some t) (live w) (av_elem_size u)
      (in_range cmp (\<lambda>e. e) lo hi ds) (avl_iter_range (Some u) lo hi w)"
proof -
  from assms have u: "av_alloc u = Some t" "av_cmp u = cmp" "elems (av_root u) = ds" "ordered cmp (\<lambda>e. e) (elems (av_root u))"
    by (simp_all add: avl_is_def tree_is_def)
  show "iter_built_until live (refused_growth t (stack_limit (height (av_root u)))) (Some t) (live w) (av_elem_size u) ds
      (avl_iter (Some u) w)"
    using tree_iter_built [of _ "av_root u" w _ False] u by (simp add: avl_iter_def in_order_def)
  show "iter_built_until live (refused_growth t (stack_limit (height (av_root u)))) (Some t) (live w) (av_elem_size u) (rev ds)
      (avl_iter_rev (Some u) w)"
    using tree_iter_built [of _ "av_root u" w _ True] u by (simp add: avl_iter_rev_def in_order_def)
  show "iter_built_until live (refused_growth t (stack_limit (height (av_root u)))) (Some t) (live w) (av_elem_size u)
      (in_range cmp (\<lambda>e. e) lo hi ds) (avl_iter_range (Some u) lo hi w)" if "av_elem_size u \<le> PTRDIFF_MAX"
    using tree_iter_range_built [OF compare_order_axioms u(4) _ that, where w = w and lo = lo and hi = hi] u(1-3) that by (simp add: avl_iter_range_def)
qed

lemma avl_collection:
  "collection_add t live avl_add avl_blocks (avl_is cmp t) (\<lambda>ds x. put cmp (\<lambda>e. e) (\<lambda>d e. e) x ds) avl_same
    (\<lambda>u _. refuses t (av_elem_size u + 256))"
proof unfold_locales
  fix u :: "('a, 'w) avl_t" and ds w R x
  assume "avl_is cmp t u ds" "owns (live w) R (avl_blocks u)"
  then have "avl_at cmp t live R w u ds" by (simp add: avl_at_split)
  then show "\<exists>st u' w'. avl_add (Some u) (Some x) w = Some (st, Some u', w') \<and> owns (live w') R (avl_blocks u') \<and> avl_same u u' \<and>
      (if st = SEQC_OK \<or> st = SEQC_DUPLICATE then avl_is cmp t u' (put cmp (\<lambda>e. e) (\<lambda>d e. e) x ds) else st = SEQC_OOM \<and> avl_is cmp t u' ds \<and>
         refuses t (av_elem_size u + 256))"
    by (cases rule: avl_add_at [where x = x]) (auto simp: avl_at_split avl_same_def put_present_same)
qed (simp_all add: avl_same_def)

lemma avl_extend_at:
  assumes "avl_is cmp t u ds" and "owns2 (live w) R (avl_blocks u) B"
    and "iter_rep live xs it B" and "iter_is_valid it" and "it_elem_size it = av_elem_size u"
  shows "\<exists>st u' w' k. avl_extend (Some u) it w = Some (st, Some u', w') \<and>
    avl_at cmp t live R w' u' (foldl (\<lambda>ds x. put cmp (\<lambda>e. e) (\<lambda>d e. e) x ds) ds (take k xs)) \<and>
    (st = SEQC_OK \<and> k = length xs \<or> st = SEQC_OOM \<and> k \<le> length xs \<and>
      (refuses t (av_elem_size u + 256) \<or> k = 0 \<and> refuses t (av_elem_size u)))"
proof -
  have "avl_extend (Some u) it w = seqc_extend (Some u) avl_add (av_elem_size u) (Some t) it w"
    using assms(1) by (simp add: avl_extend_def avl_is_def)
  with collection_add.drain_at [OF avl_collection assms] show ?thesis unfolding avl_at_split by metis
qed

end

interpretation sys_avl: avl_set sys_allocator hp_live int_cmp
  by unfold_locales

interpretation sys_avl_add: collection_add sys_allocator hp_live avl_add avl_blocks "avl_is int_cmp sys_allocator"
  "\<lambda>ds x. put int_cmp (\<lambda>e. e) (\<lambda>d e. e) x ds" avl_same
  "\<lambda>u _. refuses sys_allocator (av_elem_size u + 256)"
  by (rule sys_avl.avl_collection)

end
