(* ===== verification/Seqc_Bstree.thy ===== *)
theory Seqc_Bstree
  imports Seqc_Tree_Range
begin

section \<open>The plain search tree\<close>

text \<open>
  \<open>src/bstree/bstree.c\<close>: the struct and the public operations, over the tree algorithms of
  \<open>Seqc_Tree\<close> without a rebalancing step. An element is its own key. \<open>bstree_add\<close> walks a pointer
  to the link where the new node goes; here the links on the way are set to the subtrees they
  already point to.
\<close>

type_synonym 'a bstree_node_t = "'a tnode"
type_synonym 'a bstree_nodes = "'a bstree_node_t tree"

definition bstree_new_node :: "addr \<Rightarrow> 'a \<Rightarrow> 'a bstree_node_t" where
  "bstree_new_node a d = \<lparr>nd_self = a, nd_data = d\<rparr>"

record ('a, 'w) bstree_t =
  bs_self :: addr
  bs_root :: "'a bstree_nodes"
  bs_len :: size_t
  bs_elem_size :: size_t
  bs_cmp :: "'a compare_fn"
  bs_alloc :: "'w allocator_t"

definition sizeof_bstree_node_t :: size_t where
  "sizeof_bstree_node_t = 16"

definition sizeof_bstree_t :: size_t where
  "sizeof_bstree_t = 48"

definition sizeof_bstree_iter_state_t :: size_t where
  "sizeof_bstree_iter_state_t = 56"

definition sizeof_bstree_range_iter_state_t :: size_t where
  "sizeof_bstree_range_iter_state_t = 72"

lemma sizeof_bstree_node_t_small [simp]: "sizeof_bstree_node_t \<le> 256" "sizeof_bstree_t \<le> 256" "sizeof_bstree_iter_state_t \<le> 256" "sizeof_bstree_range_iter_state_t \<le> 256"
  by (simp_all add: sizeof_bstree_node_t_def sizeof_bstree_t_def sizeof_bstree_iter_state_t_def sizeof_bstree_range_iter_state_t_def)

subsection \<open>Operations\<close>

definition bstree_node_alloc_size :: "size_t \<Rightarrow> size_t" where
  "bstree_node_alloc_size es = wadd (data_offset sizeof_bstree_node_t) es"

definition bstree_create :: "size_t \<Rightarrow> 'a compare_fn \<Rightarrow> 'w allocator_t \<Rightarrow> 'w \<Rightarrow> (('a, 'w) bstree_t option \<times> 'w) option" where
  "bstree_create es cmp al w = do {
     (p, w) \<leftarrow> mem_alloc al sizeof_bstree_t w;
     case p of
       None \<Rightarrow> Some (None, w)
     | Some a \<Rightarrow> Some (Some \<lparr>bs_self = a, bs_root = Leaf, bs_len = 0, bs_elem_size = es, bs_cmp = cmp, bs_alloc = al\<rparr>, w)
   }"

definition bstree_insert ::
  "('a, 'w) bstree_t \<Rightarrow> 'a bstree_nodes \<Rightarrow> 'a \<Rightarrow> 'w \<Rightarrow> (bool \<times> bool \<times> 'a bstree_nodes \<times> 'w) option" where
  "bstree_insert t node elem w =
     tree_insert Some (bs_alloc t) (bstree_node_alloc_size (bs_elem_size t)) bstree_new_node (\<lambda>d e. e) (bs_cmp t) (\<lambda>e. e) elem node w"

definition bstree_add ::
  "('a, 'w) bstree_t option \<Rightarrow> 'a option \<Rightarrow> 'w \<Rightarrow> (seqc_status_t \<times> ('a, 'w) bstree_t option \<times> 'w) option" where
  "bstree_add t elem w =
     (case (t, elem) of
        (Some u, Some x) \<Rightarrow> do {
          (inserted, oom, new_root, w) \<leftarrow> bstree_insert u (bs_root u) x w;
          if oom then Some (SEQC_OOM, Some u, w)
          else do {
            let u = (if new_root \<noteq> Leaf then u\<lparr>bs_root := new_root\<rparr> else u);
            let u = (if inserted then u\<lparr>bs_len := Suc (bs_len u)\<rparr> else u);
            Some (if inserted then SEQC_OK else SEQC_DUPLICATE, Some u, w)
          }
        }
      | _ \<Rightarrow> Some (SEQC_INVALID, t, w))"

definition bstree_contains :: "('a, 'w) bstree_t option \<Rightarrow> 'a option \<Rightarrow> bool" where
  "bstree_contains t elem =
     (case (t, elem) of
        (Some u, Some x) \<Rightarrow> tree_find (bs_cmp u) (\<lambda>e. e) x (bs_root u) \<noteq> None
      | _ \<Rightarrow> False)"

definition bstree_do_remove :: "('a, 'w) bstree_t \<Rightarrow> 'a bstree_nodes \<Rightarrow> 'a \<Rightarrow> 'w \<Rightarrow> (bool \<times> 'a bstree_nodes \<times> 'w) option" where
  "bstree_do_remove t node elem w =
     tree_remove Some (bs_alloc t) (bstree_node_alloc_size (bs_elem_size t)) (bs_cmp t) (\<lambda>e. e) elem node w"

definition bstree_remove ::
  "('a, 'w) bstree_t option \<Rightarrow> 'a option \<Rightarrow> 'w \<Rightarrow> (seqc_status_t \<times> ('a, 'w) bstree_t option \<times> 'w) option" where
  "bstree_remove t elem w =
     (case (t, elem) of
        (Some u, Some x) \<Rightarrow> do {
          (removed, root, w) \<leftarrow> bstree_do_remove u (bs_root u) x w;
          let u = u\<lparr>bs_root := root\<rparr>;
          let u = (if removed then u\<lparr>bs_len := bs_len u - 1\<rparr> else u);
          Some (if removed then SEQC_OK else SEQC_NOT_FOUND, Some u, w)
        }
      | _ \<Rightarrow> Some (SEQC_INVALID, t, w))"

definition bstree_min_ptr :: "('a, 'w) bstree_t option \<Rightarrow> 'a bstree_node_t option" where
  "bstree_min_ptr t = do { u \<leftarrow> t; leftmost (bs_root u) }"

definition bstree_max_ptr :: "('a, 'w) bstree_t option \<Rightarrow> 'a bstree_node_t option" where
  "bstree_max_ptr t = do { u \<leftarrow> t; rightmost (bs_root u) }"

definition bstree_min :: "('a, 'w) bstree_t option \<Rightarrow> bool \<Rightarrow> (seqc_status_t \<times> 'a option) option" where
  "bstree_min t out =
     (case t of
        None \<Rightarrow> Some (SEQC_INVALID, None)
      | Some u \<Rightarrow> seqc_copy_out (map_option (\<lambda>n. Some (nd_data n)) (bstree_min_ptr t)) out)"

definition bstree_max :: "('a, 'w) bstree_t option \<Rightarrow> bool \<Rightarrow> (seqc_status_t \<times> 'a option) option" where
  "bstree_max t out =
     (case t of
        None \<Rightarrow> Some (SEQC_INVALID, None)
      | Some u \<Rightarrow> seqc_copy_out (map_option (\<lambda>n. Some (nd_data n)) (bstree_max_ptr t)) out)"

definition bstree_len :: "('a, 'w) bstree_t option \<Rightarrow> size_t" where
  "bstree_len t = (case t of None \<Rightarrow> 0 | Some u \<Rightarrow> bs_len u)"

definition bstree_is_empty :: "('a, 'w) bstree_t option \<Rightarrow> bool" where
  "bstree_is_empty t = (case t of None \<Rightarrow> True | Some u \<Rightarrow> bs_len u = 0)"

text \<open>The height is counted in \<open>int\<close>: beyond \<open>INT_MAX\<close> the addition has no defined result.\<close>

definition INT_MAX :: int where
  "INT_MAX = 2 ^ 31 - 1"

fun bstree_height_node :: "'a bstree_nodes \<Rightarrow> int option" where
  "bstree_height_node Leaf = Some 0"
| "bstree_height_node (Node l n r) = do {
     hl \<leftarrow> bstree_height_node l;
     hr \<leftarrow> bstree_height_node r;
     let m = (if hl > hr then hl else hr);
     if m < INT_MAX then Some (1 + m) else None
   }"

definition bstree_height :: "('a, 'w) bstree_t option \<Rightarrow> int option" where
  "bstree_height t = (case t of None \<Rightarrow> Some 0 | Some u \<Rightarrow> bstree_height_node (bs_root u))"

definition bstree_free_subtree :: "('a, 'w) bstree_t \<Rightarrow> 'a bstree_nodes \<Rightarrow> 'w \<Rightarrow> 'w option" where
  "bstree_free_subtree t node w = free_tree (bs_alloc t) (bstree_node_alloc_size (bs_elem_size t)) node w"

definition bstree_destroy :: "('a, 'w) bstree_t option \<Rightarrow> 'w \<Rightarrow> 'w option" where
  "bstree_destroy t w =
     (case t of
        None \<Rightarrow> Some w
      | Some u \<Rightarrow> do {
          w \<leftarrow> bstree_free_subtree u (bs_root u) w;
          mem_free (bs_alloc u) (Some (bs_self u)) sizeof_bstree_t w
        })"

definition bstree_clear :: "('a, 'w) bstree_t option \<Rightarrow> 'w \<Rightarrow> (('a, 'w) bstree_t option \<times> 'w) option" where
  "bstree_clear t w =
     (case t of
        None \<Rightarrow> Some (None, w)
      | Some u \<Rightarrow> do {
          w \<leftarrow> bstree_free_subtree u (bs_root u) w;
          Some (Some (u\<lparr>bs_root := Leaf, bs_len := 0\<rparr>), w)
        })"

subsection \<open>Iterators\<close>

type_synonym 'a bstree_iter_state_t = "'a bstree_node_t walk_t"
type_synonym 'a bstree_range_iter_state_t = "('a bstree_node_t, 'a) range_walk_t"

definition bstree_stack_push ::
  "'w allocator_t \<Rightarrow> 'a bstree_nodes \<Rightarrow> ('a bstree_node_t, 'x) walk_t_scheme \<Rightarrow> 'w \<Rightarrow>
   (bool \<times> ('a bstree_node_t, 'x) walk_t_scheme \<times> 'w) option" where
  "bstree_stack_push = spine_push"

definition bstree_iter_next :: "'w allocator_t \<Rightarrow> 'a bstree_iter_state_t \<Rightarrow> 'w \<Rightarrow> ('a option \<times> 'a bstree_iter_state_t \<times> 'w) option" where
  "bstree_iter_next = walk_next False"

definition bstree_iter_rev_next :: "'w allocator_t \<Rightarrow> 'a bstree_iter_state_t \<Rightarrow> 'w \<Rightarrow> ('a option \<times> 'a bstree_iter_state_t \<times> 'w) option" where
  "bstree_iter_rev_next = walk_next True"

definition bstree_iter_drop :: "'w allocator_t \<Rightarrow> 'a bstree_iter_state_t \<Rightarrow> 'w \<Rightarrow> 'w option" where
  "bstree_iter_drop al = walk_drop al sizeof_bstree_iter_state_t"

definition bstree_iter :: "('a, 'w) bstree_t option \<Rightarrow> 'w \<Rightarrow> (('a, 'a bstree_iter_state_t, 'w) iter_t \<times> 'w) option" where
  "bstree_iter t w =
     (case t of
        None \<Rightarrow> Some (iter_zero, w)
      | Some u \<Rightarrow> tree_iter False sizeof_bstree_iter_state_t (bs_elem_size u) (bs_alloc u) (bs_root u) w)"

definition bstree_iter_rev :: "('a, 'w) bstree_t option \<Rightarrow> 'w \<Rightarrow> (('a, 'a bstree_iter_state_t, 'w) iter_t \<times> 'w) option" where
  "bstree_iter_rev t w =
     (case t of
        None \<Rightarrow> Some (iter_zero, w)
      | Some u \<Rightarrow> tree_iter True sizeof_bstree_iter_state_t (bs_elem_size u) (bs_alloc u) (bs_root u) w)"

definition bstree_range_iter_next ::
  "'a compare_fn \<Rightarrow> 'w allocator_t \<Rightarrow> 'a bstree_range_iter_state_t \<Rightarrow> 'w \<Rightarrow> ('a option \<times> 'a bstree_range_iter_state_t \<times> 'w) option" where
  "bstree_range_iter_next cmp = range_walk_next cmp (\<lambda>e. e)"

definition bstree_range_iter_drop :: "'w allocator_t \<Rightarrow> size_t \<Rightarrow> 'a bstree_range_iter_state_t \<Rightarrow> 'w \<Rightarrow> 'w option" where
  "bstree_range_iter_drop al es = range_walk_drop al sizeof_bstree_range_iter_state_t es"

definition bstree_push_lo ::
  "'a compare_fn \<Rightarrow> 'w allocator_t \<Rightarrow> 'a \<Rightarrow> 'a bstree_nodes \<Rightarrow> 'a bstree_range_iter_state_t \<Rightarrow> 'w \<Rightarrow> ('a bstree_range_iter_state_t \<times> 'w) option" where
  "bstree_push_lo cmp = push_lo cmp (\<lambda>e. e)"

definition bstree_iter_range ::
  "('a, 'w) bstree_t option \<Rightarrow> 'a option \<Rightarrow> 'a option \<Rightarrow> 'w \<Rightarrow> (('a, 'a bstree_range_iter_state_t, 'w) iter_t \<times> 'w) option" where
  "bstree_iter_range t lo hi w =
     (case t of
        None \<Rightarrow> Some (iter_zero, w)
      | Some u \<Rightarrow> tree_iter_range (bs_cmp u) (\<lambda>e. e) sizeof_bstree_range_iter_state_t (bs_elem_size u) (bs_elem_size u)
          (bs_alloc u) (bs_root u) lo hi w)"

definition bstree_extend ::
  "('a, 'w) bstree_t option \<Rightarrow> ('a, 's, 'w) iter_t \<Rightarrow> 'w \<Rightarrow> (seqc_status_t \<times> ('a, 'w) bstree_t option \<times> 'w) option" where
  "bstree_extend t it w =
     (case t of
        None \<Rightarrow> do { w \<leftarrow> iter_destroy it w; Some (SEQC_INVALID, None, w) }
      | Some u \<Rightarrow> seqc_extend t bstree_add (bs_elem_size u) (bs_alloc u) it w)"

text \<open>The constructors install these functions.\<close>

lemma bstree_iter_fields:
  "mem_alloc (bs_alloc u) sizeof_bstree_iter_state_t w = Some (Some a, w') \<Longrightarrow>
     bstree_iter (Some u) w = Some (iter_make (bstree_iter_next (bs_alloc u)) (bstree_iter_drop (bs_alloc u))
       \<lparr>wk_self = a, wk_stack = None, wk_len = 0, wk_cap = 0, wk_current = bs_root u\<rparr> (bs_elem_size u) (bs_alloc u), w')"
  by (simp add: bstree_iter_def tree_iter_def bstree_iter_next_def bstree_iter_drop_def)

subsection \<open>The invariant\<close>

text \<open>\<open>bstree_at\<close>: balanced, ordered, and its nodes hold \<open>ds\<close> in this order.\<close>

definition bstree_at ::
  "'a compare_fn \<Rightarrow> 'w vtable \<Rightarrow> ('w \<Rightarrow> addr \<rightharpoonup> size_t) \<Rightarrow> (addr \<rightharpoonup> size_t) \<Rightarrow> 'w \<Rightarrow> ('a, 'w) bstree_t \<Rightarrow> 'a list \<Rightarrow> bool" where
  "bstree_at cmp t live R w u ds \<longleftrightarrow>
     bs_alloc u = Some t \<and> bs_cmp u = cmp \<and> bs_len u = length ds \<and>
     tree_at (\<lambda>_. True) cmp (\<lambda>e. e) live R w (bs_self u) sizeof_bstree_t (bstree_node_alloc_size (bs_elem_size u)) (bs_root u) ds"

definition bstree_is :: "'a compare_fn \<Rightarrow> 'w vtable \<Rightarrow> ('a, 'w) bstree_t \<Rightarrow> 'a list \<Rightarrow> bool" where
  "bstree_is cmp t u ds \<longleftrightarrow>
     bs_alloc u = Some t \<and> bs_cmp u = cmp \<and> bs_len u = length ds \<and>
     tree_is (\<lambda>_. True) cmp (\<lambda>e. e) (bs_self u) (bs_root u) ds"

definition bstree_blocks :: "('a, 'w) bstree_t \<Rightarrow> (addr \<rightharpoonup> size_t)" where
  "bstree_blocks u = (tree_blocks (bstree_node_alloc_size (bs_elem_size u)) (bs_root u))(bs_self u \<mapsto> sizeof_bstree_t)"

lemma bstree_at_split: "bstree_at cmp t live R w u ds \<longleftrightarrow> bstree_is cmp t u ds \<and> owns (live w) R (bstree_blocks u)"
  by (auto simp: bstree_at_def bstree_is_def bstree_blocks_def tree_at_split)

definition bstree_same :: "('a, 'w) bstree_t \<Rightarrow> ('a, 'w) bstree_t \<Rightarrow> bool" where
  "bstree_same u u' \<longleftrightarrow> bs_self u' = bs_self u \<and> bs_elem_size u' = bs_elem_size u \<and> bs_alloc u' = bs_alloc u \<and> bs_cmp u' = bs_cmp u"

context compare_order begin

lemma bstree_balanced:
  "(\<And>d e. key (upd d e) = key e) \<Longrightarrow> balanced cmp Some (\<lambda>_. True) (\<lambda>_. 0) bstree_new_node upd key"
  by unfold_locales (simp_all add: bstree_new_node_def)

end

locale bstree_set = heap_allocator t live + compare_order cmp
  for t :: "'w vtable" and live :: "'w \<Rightarrow> addr \<rightharpoonup> size_t" and cmp :: "'a compare_fn"

sublocale bstree_set \<subseteq> tree_store t live cmp Some "\<lambda>_. True" "\<lambda>_. 0" bstree_new_node "\<lambda>d e. e" "\<lambda>e. e"
proof -
  have "balanced cmp Some (\<lambda>_. True) (\<lambda>_. 0) bstree_new_node (\<lambda>d e. e) (\<lambda>e. e)" by (rule bstree_balanced) simp
  then show "tree_store t live cmp Some (\<lambda>_. True) (\<lambda>_. 0) bstree_new_node (\<lambda>d e. e) (\<lambda>e. e)"
    by (intro tree_store.intro heap_allocator_axioms)
qed

context bstree_set begin

lemma bstree_create_at:
  obtains (ok) u w' where "bstree_create es cmp (Some t) w = Some (Some u, w')" and "bstree_at cmp t live (live w) w' u []" and "bs_elem_size u = es"
  | (oom) w' where "bstree_create es cmp (Some t) w = Some (None, w')" and "live w' = live w"
      and "starved (Some t)"
proof (cases rule: iter_state_alloc [of sizeof_bstree_t w])
  case (granted a w')
  let ?u = "\<lparr>bs_self = a, bs_root = Leaf, bs_len = 0, bs_elem_size = es, bs_cmp = cmp, bs_alloc = Some t\<rparr>"
  have "bstree_create es cmp (Some t) w = Some (Some ?u, w')" using granted(1) by (simp add: bstree_create_def del: mem_alloc.simps)
  moreover have "bstree_at cmp t live (live w) w' ?u []" using new_tree_at [OF granted(2)] by (simp add: bstree_at_def)
  ultimately show ?thesis by (rule ok) simp
next
  case (refused w')
  then show ?thesis using starved_small [OF refused(3)] by (intro oom [of w']) (simp_all add: bstree_create_def del: mem_alloc.simps)
qed

lemma bstree_add_at:
  assumes at: "bstree_at cmp t live R w u ds"
  obtains (ok) u' w' where "bstree_add (Some u) (Some x) w = Some (SEQC_OK, Some u', w')" and "\<not> present cmp (\<lambda>e. e) x ds"
      and "bstree_at cmp t live R w' u' (put cmp (\<lambda>e. e) (\<lambda>d e. e) x ds)" and "bstree_same u u'"
  | (duplicate) u' where "bstree_add (Some u) (Some x) w = Some (SEQC_DUPLICATE, Some u', w)" and "present cmp (\<lambda>e. e) x ds"
      and "bstree_at cmp t live R w u' ds" and "bstree_same u u'"
  | (oom) w' where "bstree_add (Some u) (Some x) w = Some (SEQC_OOM, Some u, w')" and "\<not> present cmp (\<lambda>e. e) x ds"
      and "bstree_at cmp t live R w' u ds" and "refuses t (bs_elem_size u + 256)"
proof -
  from at have u: "bs_alloc u = Some t" "bs_cmp u = cmp" "bs_len u = length ds" by (simp_all add: bstree_at_def)
  from at have "tree_at (\<lambda>_. True) cmp (\<lambda>e. e) live R w (bs_self u) sizeof_bstree_t (bstree_node_alloc_size (bs_elem_size u)) (bs_root u) ds"
    by (simp add: bstree_at_def)
  then show ?thesis
  proof (cases rule: insert_at [where d = x])
    case (added T' w')
    have "T' \<noteq> Leaf" by (rule tree_at_put_not_Leaf [OF added(3)])
    let ?u = "u\<lparr>bs_root := T', bs_len := Suc (bs_len u)\<rparr>"
    have "bstree_add (Some u) (Some x) w = Some (SEQC_OK, Some ?u, w')"
      using added(1) u \<open>T' \<noteq> Leaf\<close> by (simp add: bstree_add_def bstree_insert_def Let_def)
    moreover have "bstree_at cmp t live R w' ?u (put cmp (\<lambda>e. e) (\<lambda>d e. e) x ds)"
      using added(3,4) u by (simp add: bstree_at_def)
    ultimately show ?thesis using ok added(2) by (simp add: bstree_same_def)
  next
    case (present T')
    have "T' \<noteq> Leaf" by (rule tree_at_put_not_Leaf [OF present(3)])
    let ?u = "u\<lparr>bs_root := T'\<rparr>"
    have "bstree_add (Some u) (Some x) w = Some (SEQC_DUPLICATE, Some ?u, w)"
      using present(1) u \<open>T' \<noteq> Leaf\<close> by (simp add: bstree_add_def bstree_insert_def Let_def)
    moreover have "bstree_at cmp t live R w ?u ds"
      using present(3) u put_present_same [OF present(2)] by (simp add: bstree_at_def)
    ultimately show ?thesis using duplicate present(2) by (simp add: bstree_same_def)
  next
    case (oom w')
    have "refuses t (bs_elem_size u + 256)"
      by (rule refuses_tree_node [OF oom(4) [unfolded bstree_node_alloc_size_def]]) (simp add: sizeof_bstree_node_t_def)
    with oom show ?thesis using that(3) at u by (simp add: bstree_add_def bstree_insert_def bstree_at_def)
  qed
qed

lemma bstree_remove_at:
  assumes at: "bstree_at cmp t live R w u ds"
  obtains u' w' where "bstree_remove (Some u) (Some x) w =
      Some (if present cmp (\<lambda>e. e) x ds then SEQC_OK else SEQC_NOT_FOUND, Some u', w')"
    and "bstree_at cmp t live R w' u' (del cmp (\<lambda>e. e) x ds)" and "bstree_same u u'"
proof -
  from at have u: "bs_alloc u = Some t" "bs_cmp u = cmp" "bs_len u = length ds" by (simp_all add: bstree_at_def)
  from at have "tree_at (\<lambda>_. True) cmp (\<lambda>e. e) live R w (bs_self u) sizeof_bstree_t (bstree_node_alloc_size (bs_elem_size u)) (bs_root u) ds"
    by (simp add: bstree_at_def)
  then show ?thesis
  proof (cases rule: remove_at [where k = x])
    case (removed T' w')
    let ?u = "u\<lparr>bs_root := T', bs_len := bs_len u - 1\<rparr>"
    have "bstree_remove (Some u) (Some x) w = Some (SEQC_OK, Some ?u, w')"
      using removed(1) u by (simp add: bstree_remove_def bstree_do_remove_def Let_def)
    moreover have "bstree_at cmp t live R w' ?u (del cmp (\<lambda>e. e) x ds)" using removed(3,4) u by (simp add: bstree_at_def)
    ultimately show ?thesis using that removed(2) by (simp add: bstree_same_def)
  next
    case (absent T')
    let ?u = "u\<lparr>bs_root := T'\<rparr>"
    have "bstree_remove (Some u) (Some x) w = Some (SEQC_NOT_FOUND, Some ?u, w)"
      using absent(1) u by (simp add: bstree_remove_def bstree_do_remove_def Let_def)
    moreover have "bstree_at cmp t live R w ?u (del cmp (\<lambda>e. e) x ds)" using absent(2,3) u by (simp add: bstree_at_def del_absent)
    ultimately show ?thesis using that absent(2) by (simp add: bstree_same_def)
  qed
qed

lemma bstree_contains_is:
  assumes "bstree_at cmp t live R w u ds"
  shows "bstree_contains (Some u) (Some x) \<longleftrightarrow> present cmp (\<lambda>e. e) x ds"
proof -
  from assms have T: "elems (bs_root u) = ds" "ordered cmp (\<lambda>e. e) ds" "bs_cmp u = cmp" by (simp_all add: bstree_at_def tree_at_def)
  have "map_option nd_data (tree_find cmp (\<lambda>e. e) x (bs_root u)) = look cmp (\<lambda>e. e) x ds"
    unfolding T(1) [symmetric] by (rule tree_find_is) (use T in simp)
  then have "tree_find cmp (\<lambda>e. e) x (bs_root u) = None \<longleftrightarrow> look cmp (\<lambda>e. e) x ds = None"
    by (metis option.map_disc_iff)
  with T(3) show ?thesis by (simp add: bstree_contains_def look_None)
qed

lemma bstree_min_max_is:
  assumes "bstree_at cmp t live R w u ds"
  shows "bstree_min (Some u) out = Some (if ds = [] then (SEQC_NOT_FOUND, None) else (SEQC_OK, if out then Some (hd ds) else None))"
    and "bstree_max (Some u) out = Some (if ds = [] then (SEQC_NOT_FOUND, None) else (SEQC_OK, if out then Some (last ds) else None))"
proof -
  from assms have T: "elems (bs_root u) = ds" by (simp add: bstree_at_def tree_at_def)
  show "bstree_min (Some u) out = Some (if ds = [] then (SEQC_NOT_FOUND, None) else (SEQC_OK, if out then Some (hd ds) else None))"
    using leftmost_is [of "bs_root u"] unfolding T [symmetric]
    by (cases "bs_root u = Leaf") (auto simp: bstree_min_def bstree_min_ptr_def hd_map simp flip: prod.collapse dest!: arg_cong [where f = snd])
  show "bstree_max (Some u) out = Some (if ds = [] then (SEQC_NOT_FOUND, None) else (SEQC_OK, if out then Some (last ds) else None))"
    using rightmost_is [of "bs_root u"] unfolding T [symmetric]
    by (cases "bs_root u = Leaf") (auto simp: bstree_max_def bstree_max_ptr_def last_map dest!: arg_cong [where f = snd])
qed

lemma bstree_clear_at:
  assumes at: "bstree_at cmp t live R w u ds"
  obtains u' w' where "bstree_clear (Some u) w = Some (Some u', w')" and "bstree_at cmp t live R w' u' []" and "bstree_same u u'"
proof -
  from at have u: "bs_alloc u = Some t" "bs_cmp u = cmp" by (simp_all add: bstree_at_def)
  from at have "tree_at (\<lambda>_. True) cmp (\<lambda>e. e) live R w (bs_self u) sizeof_bstree_t (bstree_node_alloc_size (bs_elem_size u)) (bs_root u) ds"
    by (simp add: bstree_at_def)
  then obtain w' where "free_tree (Some t) (bstree_node_alloc_size (bs_elem_size u)) (bs_root u) w = Some w'"
    "tree_at (\<lambda>_. True) cmp (\<lambda>e. e) live R w' (bs_self u) sizeof_bstree_t (bstree_node_alloc_size (bs_elem_size u)) (Leaf :: 'a bstree_nodes) []" by (rule free_at)
  with u show ?thesis
    by (intro that [of "u\<lparr>bs_root := Leaf, bs_len := 0\<rparr>" w']) (simp_all add: bstree_clear_def bstree_free_subtree_def bstree_at_def bstree_same_def)
qed

lemma bstree_destroy_at:
  assumes at: "bstree_at cmp t live R w u ds"
  obtains w' where "bstree_destroy (Some u) w = Some w'" and "live w' = R"
proof -
  from at have u: "bs_alloc u = Some t" by (simp add: bstree_at_def)
  from at have "tree_at (\<lambda>_. True) cmp (\<lambda>e. e) live R w (bs_self u) sizeof_bstree_t (bstree_node_alloc_size (bs_elem_size u)) (bs_root u) ds"
    by (simp add: bstree_at_def)
  then obtain w1 where 1: "free_tree (Some t) (bstree_node_alloc_size (bs_elem_size u)) (bs_root u) w = Some w1"
    "live w1 = R(bs_self u \<mapsto> sizeof_bstree_t)" "bs_self u \<notin> dom R" by (rule free_at)
  then have o: "owns (live w1) (R(bs_self u \<mapsto> sizeof_bstree_t)) Map.empty" by simp
  obtain w2 where "mem_free (Some t) (Some (bs_self u)) sizeof_bstree_t w1 = Some w2" "owns (live w2) R Map.empty"
    by (rule release_held [OF o 1(3)])
  with 1(1) u that show ?thesis by (simp add: bstree_destroy_def bstree_free_subtree_def del: mem_free.simps)
qed

text \<open>The height is that of the tree as long as an \<open>int\<close> can hold it; a tree of ascending insertions is a list.\<close>

lemma bstree_height_node_is:
  "bstree_height_node T = (if int (height T) \<le> INT_MAX then Some (int (height T)) else None)"
proof (induction T)
  case (Node l n r)
  then show ?case by (auto simp: max_def)
qed (simp add: INT_MAX_def)

lemma bstree_height_is:
  "bstree_height (Some u) = (if int (height (bs_root u)) \<le> INT_MAX then Some (int (height (bs_root u))) else None)"
  by (simp add: bstree_height_def bstree_height_node_is)

subsection \<open>Iterating and extending\<close>

lemma bstree_iters_built:
  assumes "bstree_is cmp t u ds"
  shows "iter_built_until live (refused_growth t (stack_limit (height (bs_root u)))) (Some t) (live w) (bs_elem_size u) ds
      (bstree_iter (Some u) w)"
    and "iter_built_until live (refused_growth t (stack_limit (height (bs_root u)))) (Some t) (live w) (bs_elem_size u) (rev ds)
      (bstree_iter_rev (Some u) w)"
    and "bs_elem_size u \<le> PTRDIFF_MAX \<Longrightarrow> iter_built_until live (refused_growth t (stack_limit (height (bs_root u)))) (Some t) (live w) (bs_elem_size u)
      (in_range cmp (\<lambda>e. e) lo hi ds) (bstree_iter_range (Some u) lo hi w)"
proof -
  from assms have u: "bs_alloc u = Some t" "bs_cmp u = cmp" "elems (bs_root u) = ds" "ordered cmp (\<lambda>e. e) (elems (bs_root u))"
    by (simp_all add: bstree_is_def tree_is_def)
  show "iter_built_until live (refused_growth t (stack_limit (height (bs_root u)))) (Some t) (live w) (bs_elem_size u) ds
      (bstree_iter (Some u) w)"
    using tree_iter_built [of _ "bs_root u" w _ False] u by (simp add: bstree_iter_def in_order_def)
  show "iter_built_until live (refused_growth t (stack_limit (height (bs_root u)))) (Some t) (live w) (bs_elem_size u) (rev ds)
      (bstree_iter_rev (Some u) w)"
    using tree_iter_built [of _ "bs_root u" w _ True] u by (simp add: bstree_iter_rev_def in_order_def)
  show "iter_built_until live (refused_growth t (stack_limit (height (bs_root u)))) (Some t) (live w) (bs_elem_size u)
      (in_range cmp (\<lambda>e. e) lo hi ds) (bstree_iter_range (Some u) lo hi w)" if "bs_elem_size u \<le> PTRDIFF_MAX"
    using tree_iter_range_built [OF compare_order_axioms u(4) _ that, where w = w and lo = lo and hi = hi] u(1-3) that by (simp add: bstree_iter_range_def)
qed

lemma bstree_collection:
  "collection_add t live bstree_add bstree_blocks (bstree_is cmp t) (\<lambda>ds x. put cmp (\<lambda>e. e) (\<lambda>d e. e) x ds) bstree_same
    (\<lambda>u _. refuses t (bs_elem_size u + 256))"
proof unfold_locales
  fix u :: "('a, 'w) bstree_t" and ds w R x
  assume "bstree_is cmp t u ds" "owns (live w) R (bstree_blocks u)"
  then have "bstree_at cmp t live R w u ds" by (simp add: bstree_at_split)
  then show "\<exists>st u' w'. bstree_add (Some u) (Some x) w = Some (st, Some u', w') \<and> owns (live w') R (bstree_blocks u') \<and> bstree_same u u' \<and>
      (if st = SEQC_OK \<or> st = SEQC_DUPLICATE then bstree_is cmp t u' (put cmp (\<lambda>e. e) (\<lambda>d e. e) x ds) else st = SEQC_OOM \<and> bstree_is cmp t u' ds \<and>
         refuses t (bs_elem_size u + 256))"
    by (cases rule: bstree_add_at [where x = x]) (auto simp: bstree_at_split bstree_same_def put_present_same)
qed (simp_all add: bstree_same_def)

lemma bstree_extend_at:
  assumes "bstree_is cmp t u ds" and "owns2 (live w) R (bstree_blocks u) B"
    and "iter_rep live xs it B" and "iter_is_valid it" and "it_elem_size it = bs_elem_size u"
  shows "\<exists>st u' w' k. bstree_extend (Some u) it w = Some (st, Some u', w') \<and>
    bstree_at cmp t live R w' u' (foldl (\<lambda>ds x. put cmp (\<lambda>e. e) (\<lambda>d e. e) x ds) ds (take k xs)) \<and>
    (st = SEQC_OK \<and> k = length xs \<or> st = SEQC_OOM \<and> k \<le> length xs \<and>
      (refuses t (bs_elem_size u + 256) \<or> k = 0 \<and> refuses t (bs_elem_size u)))"
proof -
  have "bstree_extend (Some u) it w = seqc_extend (Some u) bstree_add (bs_elem_size u) (Some t) it w"
    using assms(1) by (simp add: bstree_extend_def bstree_is_def)
  with collection_add.drain_at [OF bstree_collection assms] show ?thesis unfolding bstree_at_split by metis
qed

end

interpretation sys_bstree: bstree_set sys_allocator hp_live int_cmp
  by unfold_locales

interpretation sys_bstree_add: collection_add sys_allocator hp_live bstree_add bstree_blocks "bstree_is int_cmp sys_allocator"
  "\<lambda>ds x. put int_cmp (\<lambda>e. e) (\<lambda>d e. e) x ds" bstree_same
  "\<lambda>u _. refuses sys_allocator (bs_elem_size u + 256)"
  by (rule sys_bstree.bstree_collection)

end
