(* ===== verification/Seqc_Ordered_Sets.thy ===== *)
theory Seqc_Ordered_Sets
  imports Seqc_Lifetime Seqc_Avl Seqc_Bstree
begin

section \<open>The ordered sets against ordered lists\<close>

text \<open>
  \<open>avl_t\<close> and \<open>bstree_t\<close> owe their clients the same: an ordered list without equal elements.
  \<open>ordered_set_spec\<close> says what each call may answer and what becomes of the list, for elements of
  \<open>n\<close> bytes: a node takes at most 256 more.
\<close>

datatype 'a set_op = SAdd 'a | SRemove 'a | SContains 'a | SMin | SMax | SLen | SClear

datatype 'a set_answer = Said seqc_status_t "'a option" | Truth bool | Amount size_t

abbreviation set_put :: "'a compare_fn \<Rightarrow> 'a \<Rightarrow> 'a list \<Rightarrow> 'a list" where
  "set_put cmp \<equiv> put cmp (\<lambda>e. e) (\<lambda>d e. e)"

abbreviation set_del :: "'a compare_fn \<Rightarrow> 'a \<Rightarrow> 'a list \<Rightarrow> 'a list" where
  "set_del cmp \<equiv> del cmp (\<lambda>e. e)"

abbreviation set_has :: "'a compare_fn \<Rightarrow> 'a \<Rightarrow> 'a list \<Rightarrow> bool" where
  "set_has cmp \<equiv> present cmp (\<lambda>e. e)"

fun ordered_set_spec :: "'w vtable \<Rightarrow> size_t \<Rightarrow> 'a compare_fn \<Rightarrow> 'a set_op \<Rightarrow> 'a list \<Rightarrow> 'a set_answer \<Rightarrow> 'a list \<Rightarrow> bool" where
  "ordered_set_spec t n cmp (SAdd x) ds r es \<longleftrightarrow>
     (if set_has cmp x ds then r = Said SEQC_DUPLICATE None \<and> es = ds
      else r = Said SEQC_OK None \<and> es = set_put cmp x ds \<or> r = Said SEQC_OOM None \<and> es = ds \<and> refuses t (n + 256))"
| "ordered_set_spec t n cmp (SRemove x) ds r es \<longleftrightarrow>
     es = set_del cmp x ds \<and> r = Said (if set_has cmp x ds then SEQC_OK else SEQC_NOT_FOUND) None"
| "ordered_set_spec t n cmp (SContains x) ds r es \<longleftrightarrow> es = ds \<and> r = Truth (set_has cmp x ds)"
| "ordered_set_spec t n cmp SMin ds r es \<longleftrightarrow>
     es = ds \<and> r = (if ds = [] then Said SEQC_NOT_FOUND None else Said SEQC_OK (Some (hd ds)))"
| "ordered_set_spec t n cmp SMax ds r es \<longleftrightarrow>
     es = ds \<and> r = (if ds = [] then Said SEQC_NOT_FOUND None else Said SEQC_OK (Some (last ds)))"
| "ordered_set_spec t n cmp SLen ds r es \<longleftrightarrow> es = ds \<and> r = Amount (length ds)"
| "ordered_set_spec t n cmp SClear ds r es \<longleftrightarrow> r = Said SEQC_OK None \<and> es = []"

subsection \<open>\<open>avl_t\<close>\<close>

fun avl_call ::
  "'a set_op \<Rightarrow> ('a, 'w) avl_t option \<Rightarrow> 'w \<Rightarrow> ('a set_answer \<times> ('a, 'w) avl_t option \<times> 'w) option" where
  "avl_call (SAdd x) t w = do { (st, t, w) \<leftarrow> avl_add t (Some x) w; Some (Said st None, t, w) }"
| "avl_call (SRemove x) t w = do { (st, t, w) \<leftarrow> avl_remove t (Some x) w; Some (Said st None, t, w) }"
| "avl_call (SContains x) t w = Some (Truth (avl_contains t (Some x)), t, w)"
| "avl_call SMin t w = do { (st, x) \<leftarrow> avl_min t True; Some (Said st x, t, w) }"
| "avl_call SMax t w = do { (st, x) \<leftarrow> avl_max t True; Some (Said st x, t, w) }"
| "avl_call SLen t w = Some (Amount (avl_len t), t, w)"
| "avl_call SClear t w = do { (t, w) \<leftarrow> avl_clear t w; Some (Said SEQC_OK None, t, w) }"

context avl_set begin

lemma avl_call_law:
  assumes u: "avl_at cmp t live R w u ds"
  shows "\<exists>r u' w' es. avl_call p (Some u) w = Some (r, Some u', w') \<and> ordered_set_spec t (av_elem_size u) cmp p ds r es \<and>
    avl_at cmp t live R w' u' es \<and> avl_same u u'"
proof (cases p)
  case (SAdd x)
  from u show ?thesis unfolding SAdd by (cases rule: avl_add_at [where x = x]) (auto simp: avl_same_def)
next
  case (SRemove x)
  from u obtain u' w' where "avl_remove (Some u) (Some x) w = Some (if set_has cmp x ds then SEQC_OK else SEQC_NOT_FOUND, Some u', w')"
    "avl_at cmp t live R w' u' (set_del cmp x ds)" "avl_same u u'" by (rule avl_remove_at)
  with SRemove show ?thesis by auto
next
  case (SContains x)
  with u avl_contains_is [OF u] show ?thesis by (simp add: avl_same_def)
next
  case SMin
  with u avl_min_max_is(1) [OF u, of True] show ?thesis by (auto simp: avl_same_def)
next
  case SMax
  with u avl_min_max_is(2) [OF u, of True] show ?thesis by (auto simp: avl_same_def)
next
  case SLen
  with u show ?thesis by (simp add: avl_len_def avl_at_def avl_same_def)
next
  case SClear
  from u obtain u' w' where "avl_clear (Some u) w = Some (Some u', w')" "avl_at cmp t live R w' u' []" "avl_same u u'" by (rule avl_clear_at)
  with SClear show ?thesis by auto
qed

lemma avl_lifetime_laws:
  "lifetime_laws t live (avl_create n cmp (Some t)) (on_handle avl_call) (\<lambda>u. avl_destroy (Some u))
    (ordered_set_spec t n cmp) [] (\<lambda>_. True) (sized av_elem_size n (avl_at cmp t live))"
proof unfold_locales
  fix w
  show "\<exists>c w'. avl_create n cmp (Some t) w = Some (c, w') \<and>
      (case c of None \<Rightarrow> live w' = live w \<and> starved (Some t) | Some c \<Rightarrow> sized av_elem_size n (avl_at cmp t live) (live w) w' c [])"
    by (cases rule: avl_create_at [of n w]) (auto simp: sized_def)
next
  fix R w p u ds
  assume "sized av_elem_size n (avl_at cmp t live) R w u ds"
  then show "\<exists>r u' w' es. on_handle avl_call p u w = Some (r, u', w') \<and> ordered_set_spec t n cmp p ds r es \<and>
      sized av_elem_size n (avl_at cmp t live) R w' u' es"
    using avl_call_law [of R w u ds p] by (fastforce simp: sized_def avl_same_def intro: on_handleI)
next
  fix R w u ds
  assume "sized av_elem_size n (avl_at cmp t live) R w u ds"
  then have "avl_at cmp t live R w u ds" by (rule sizedD)
  then show "\<exists>w'. avl_destroy (Some u) w = Some w' \<and> live w' = R" by (rule avl_destroy_at) blast
qed

end

interpretation sys_avl_life: lifetime_laws sys_allocator hp_live "avl_create 4 int_cmp (Some sys_allocator)"
  "on_handle avl_call" "\<lambda>u. avl_destroy (Some u)" "ordered_set_spec sys_allocator 4 int_cmp" "[]" "\<lambda>_. True"
  "sized av_elem_size 4 (avl_at int_cmp sys_allocator hp_live)"
  by (rule sys_avl.avl_lifetime_laws)

subsection \<open>\<open>bstree_t\<close>\<close>

fun bstree_call ::
  "'a set_op \<Rightarrow> ('a, 'w) bstree_t option \<Rightarrow> 'w \<Rightarrow> ('a set_answer \<times> ('a, 'w) bstree_t option \<times> 'w) option" where
  "bstree_call (SAdd x) t w = do { (st, t, w) \<leftarrow> bstree_add t (Some x) w; Some (Said st None, t, w) }"
| "bstree_call (SRemove x) t w = do { (st, t, w) \<leftarrow> bstree_remove t (Some x) w; Some (Said st None, t, w) }"
| "bstree_call (SContains x) t w = Some (Truth (bstree_contains t (Some x)), t, w)"
| "bstree_call SMin t w = do { (st, x) \<leftarrow> bstree_min t True; Some (Said st x, t, w) }"
| "bstree_call SMax t w = do { (st, x) \<leftarrow> bstree_max t True; Some (Said st x, t, w) }"
| "bstree_call SLen t w = Some (Amount (bstree_len t), t, w)"
| "bstree_call SClear t w = do { (t, w) \<leftarrow> bstree_clear t w; Some (Said SEQC_OK None, t, w) }"

context bstree_set begin

lemma bstree_call_law:
  assumes u: "bstree_at cmp t live R w u ds"
  shows "\<exists>r u' w' es. bstree_call p (Some u) w = Some (r, Some u', w') \<and> ordered_set_spec t (bs_elem_size u) cmp p ds r es \<and>
    bstree_at cmp t live R w' u' es \<and> bstree_same u u'"
proof (cases p)
  case (SAdd x)
  from u show ?thesis unfolding SAdd by (cases rule: bstree_add_at [where x = x]) (auto simp: bstree_same_def)
next
  case (SRemove x)
  from u obtain u' w' where "bstree_remove (Some u) (Some x) w = Some (if set_has cmp x ds then SEQC_OK else SEQC_NOT_FOUND, Some u', w')"
    "bstree_at cmp t live R w' u' (set_del cmp x ds)" "bstree_same u u'" by (rule bstree_remove_at)
  with SRemove show ?thesis by auto
next
  case (SContains x)
  with u bstree_contains_is [OF u] show ?thesis by (simp add: bstree_same_def)
next
  case SMin
  with u bstree_min_max_is(1) [OF u, of True] show ?thesis by (auto simp: bstree_same_def)
next
  case SMax
  with u bstree_min_max_is(2) [OF u, of True] show ?thesis by (auto simp: bstree_same_def)
next
  case SLen
  with u show ?thesis by (simp add: bstree_len_def bstree_at_def bstree_same_def)
next
  case SClear
  from u obtain u' w' where "bstree_clear (Some u) w = Some (Some u', w')" "bstree_at cmp t live R w' u' []" "bstree_same u u'" by (rule bstree_clear_at)
  with SClear show ?thesis by auto
qed

lemma bstree_lifetime_laws:
  "lifetime_laws t live (bstree_create n cmp (Some t)) (on_handle bstree_call) (\<lambda>u. bstree_destroy (Some u))
    (ordered_set_spec t n cmp) [] (\<lambda>_. True) (sized bs_elem_size n (bstree_at cmp t live))"
proof unfold_locales
  fix w
  show "\<exists>c w'. bstree_create n cmp (Some t) w = Some (c, w') \<and>
      (case c of None \<Rightarrow> live w' = live w \<and> starved (Some t) | Some c \<Rightarrow> sized bs_elem_size n (bstree_at cmp t live) (live w) w' c [])"
    by (cases rule: bstree_create_at [of n w]) (auto simp: sized_def)
next
  fix R w p u ds
  assume "sized bs_elem_size n (bstree_at cmp t live) R w u ds"
  then show "\<exists>r u' w' es. on_handle bstree_call p u w = Some (r, u', w') \<and> ordered_set_spec t n cmp p ds r es \<and>
      sized bs_elem_size n (bstree_at cmp t live) R w' u' es"
    using bstree_call_law [of R w u ds p] by (fastforce simp: sized_def bstree_same_def intro: on_handleI)
next
  fix R w u ds
  assume "sized bs_elem_size n (bstree_at cmp t live) R w u ds"
  then have "bstree_at cmp t live R w u ds" by (rule sizedD)
  then show "\<exists>w'. bstree_destroy (Some u) w = Some w' \<and> live w' = R" by (rule bstree_destroy_at) blast
qed

end

interpretation sys_bstree_life: lifetime_laws sys_allocator hp_live "bstree_create 4 int_cmp (Some sys_allocator)"
  "on_handle bstree_call" "\<lambda>u. bstree_destroy (Some u)" "ordered_set_spec sys_allocator 4 int_cmp" "[]" "\<lambda>_. True"
  "sized bs_elem_size 4 (bstree_at int_cmp sys_allocator hp_live)"
  by (rule sys_bstree.bstree_lifetime_laws)

end
