(* ===== verification/Seqc_Ordered_Properties.thy ===== *)
theory Seqc_Ordered_Properties
  imports Seqc_Ordered_Sets
begin

section \<open>Properties of the ordered sets\<close>

text \<open>
  What \<open>src/avl/avl.c\<close> and \<open>src/bstree/bstree.c\<close> promise their clients, for every allocator that
  keeps its contract and every comparison function that is a total preorder.
\<close>

text \<open>
  C23. A program that creates an \<open>avl_t\<close>, applies any sequence of insertions, removals, membership
  tests, reads of the least and greatest element and clearings, and destroys it, has a defined
  result: each answer is the one an ordered list without equal elements gives, and no node is
  leaked or freed twice. An insertion may answer \<open>SEQC_OOM\<close>, and then changes nothing, only if the
  allocator refuses a request for a node. The element size is that of a C object: positive, and at
  most \<open>PTRDIFF_MAX\<close>. (\<open>docs/avl.md\<close> promises NULL for an element size of zero, which \<open>avl_create\<close>
  does not check.)
\<close>
theorem avl_lifetime_correct:
  assumes "heap_allocator t live" and "compare_order cmp" and "0 < es" and "es \<le> PTRDIFF_MAX"
  shows "lifetime_ok t live (ordered_set_spec t es cmp) [] ps w
    (lifetime (avl_create es cmp (Some t)) (on_handle avl_call) (\<lambda>u. avl_destroy (Some u)) ps w)"
  by (rule lifetime_laws.lifetime_is_ok [OF avl_set.avl_lifetime_laws [OF avl_set.intro [OF assms(1,2)]]]) simp

theorem avl_lifetime_witness:
  "lifetime_ok sys_allocator hp_live (ordered_set_spec sys_allocator 4 int_cmp) [] [SAdd 1, SAdd 2, SAdd 3, SAdd 2, SRemove 2, SMin, SContains 2] (heap_with 0)
    (lifetime (avl_create 4 int_cmp (Some sys_allocator)) (on_handle avl_call) (\<lambda>u. avl_destroy (Some u))
      [SAdd 1, SAdd 2, SAdd 3, SAdd 2, SRemove 2, SMin, SContains 2] (heap_with 0))"
  by (rule avl_lifetime_correct [OF sys.heap_allocator_axioms int_cmp.compare_order_axioms]) (simp_all add: PTRDIFF_MAX_def)

text \<open>
  C24. After any such sequence of operations the tree is balanced, its stored heights are right,
  its elements ascend, and its height is logarithmic in \<open>avl_len\<close>.
\<close>
theorem avl_always_balanced:
  assumes "heap_allocator t live" and "compare_order cmp"
    and "avl_create es cmp (Some t) w = Some (Some u, w1)" and "run_ops (on_handle avl_call) ps u w1 = Some (rs, u', w2)"
  shows "avl (av_root u') \<and> ordered cmp (\<lambda>e. e) (elems (av_root u')) \<and> avl_height_of (Some u') = int (height (av_root u')) \<and>
    2 ^ (height (av_root u') div 2) \<le> Suc (avl_len (Some u'))"
proof -
  note s = avl_set.intro [OF assms(1,2)]
  have "sized av_elem_size es (avl_at cmp t live) (live w) w1 u []"
    unfolding sized_def using avl_set.avl_create_at [OF s, of es w] assms(3) by fastforce
  from lifetime_laws.run_allowed [OF avl_set.avl_lifetime_laws [OF s] this, of ps] assms(4) obtain ds where
    at: "avl_at cmp t live (live w) w2 u' ds" by (auto simp: sized_def)
  from at have "avl (av_root u')" "ordered cmp (\<lambda>e. e) (elems (av_root u'))" "avl_len (Some u') = length ds"
    by (auto simp: avl_at_def tree_at_def avl_len_def)
  with avl_set.avl_height_is [OF s at] show ?thesis by simp
qed

theorem avl_always_balanced_witness:
  "\<exists>u w1 rs u' w2. avl_create 4 int_cmp (Some sys_allocator) (heap_with 0) = Some (Some u, w1) \<and>
    run_ops (on_handle avl_call) [SAdd 1, SAdd 2, SAdd 3, SRemove 2] u w1 = Some (rs, u', w2) \<and>
    avl (av_root u') \<and> ordered int_cmp (\<lambda>e. e) (elems (av_root u')) \<and> avl_height_of (Some u') = int (height (av_root u')) \<and>
    2 ^ (height (av_root u') div 2) \<le> Suc (avl_len (Some u'))"
proof -
  obtain u w1 where c: "avl_create 4 int_cmp (Some sys_allocator) (heap_with 0) = Some (Some u, w1)"
    by (simp add: avl_create_def c_heap_defs sizeof_avl_t_def PTRDIFF_MAX_def)
  have "sized av_elem_size 4 (avl_at int_cmp sys_allocator hp_live) (hp_live (heap_with 0)) w1 u []"
    unfolding sized_def using sys_avl.avl_create_at [of 4 "heap_with 0"] c by fastforce
  from sys_avl_life.run_allowed [OF this, of "[SAdd 1, SAdd 2, SAdd 3, SRemove 2]"] obtain rs u' w2 where
    r: "run_ops (on_handle avl_call) [SAdd 1, SAdd 2, SAdd 3, SRemove 2] u w1 = Some (rs, u', w2)" by auto
  with c avl_always_balanced [OF sys.heap_allocator_axioms int_cmp.compare_order_axioms c r] show ?thesis by blast
qed

text \<open>
  C25. The iterators of an \<open>avl_t\<close> yield its elements ascending, descending, or those between two
  bounds ascending; they stop early, or a range starts late, only when the allocator has
  refused to grow a stack no larger than the height of the tree demands, and fail only if it
  is \<open>starved\<close>.
\<close>
theorem avl_iterators_correct:
  assumes "heap_allocator t live" and "compare_order cmp" and "avl_is cmp t u ds"
    and "av_elem_size u \<le> PTRDIFF_MAX"
  shows "iter_built_until live (refused_growth t (stack_limit (height (av_root u)))) (Some t) (live w) (av_elem_size u) ds
      (avl_iter (Some u) w) \<and>
    iter_built_until live (refused_growth t (stack_limit (height (av_root u)))) (Some t) (live w) (av_elem_size u) (rev ds)
      (avl_iter_rev (Some u) w) \<and>
    iter_built_until live (refused_growth t (stack_limit (height (av_root u)))) (Some t) (live w) (av_elem_size u)
      (in_range cmp (\<lambda>e. e) lo hi ds) (avl_iter_range (Some u) lo hi w)"
  by (intro conjI avl_set.avl_iters_built [OF avl_set.intro [OF assms(1,2)] assms(3)] assms(4))

theorem avl_iterators_witness:
  "let u = \<lparr>av_self = 1, av_root = Node (Node Leaf \<lparr>nd_self = 2, nd_data = 5, nd_height = 1\<rparr> Leaf)
        \<lparr>nd_self = 3, nd_data = 7, nd_height = 2\<rparr> Leaf, av_len = 2, av_elem_size = 8, av_cmp = int_cmp, av_alloc = Some sys_allocator\<rparr>
   in iter_built_until hp_live (refused_growth sys_allocator (stack_limit 2)) (Some sys_allocator) (hp_live (heap_with 0)) 8
        [5, 7] (avl_iter (Some u) (heap_with 0)) \<and>
      iter_built_until hp_live (refused_growth sys_allocator (stack_limit 2)) (Some sys_allocator) (hp_live (heap_with 0)) 8
        [7, 5] (avl_iter_rev (Some u) (heap_with 0)) \<and>
      iter_built_until hp_live (refused_growth sys_allocator (stack_limit 2)) (Some sys_allocator) (hp_live (heap_with 0)) 8
        [7] (avl_iter_range (Some u) (Some 6) None (heap_with 0))"
proof -
  let ?u = "\<lparr>av_self = 1, av_root = Node (Node Leaf \<lparr>nd_self = 2, nd_data = 5, nd_height = 1\<rparr> Leaf)
        \<lparr>nd_self = 3, nd_data = 7 :: int, nd_height = 2\<rparr> Leaf, av_len = 2, av_elem_size = 8, av_cmp = int_cmp, av_alloc = Some sys_allocator\<rparr>"
  have eight: "8 \<le> PTRDIFF_MAX" by (simp add: PTRDIFF_MAX_def)
  have "avl_is int_cmp sys_allocator ?u [5, 7]"
    by (simp add: avl_is_def tree_is_def ordered_def int_cmp_def)
  from avl_iterators_correct [OF sys.heap_allocator_axioms int_cmp.compare_order_axioms this, of "heap_with 0" "Some 6" None] eight
  show ?thesis by (simp add: in_range_def at_least_def at_most_def int_cmp_def numeral_2_eq_2)
qed

text \<open>
  C26. The same for \<open>bstree_t\<close> as for \<open>avl_t\<close>: it answers as an ordered list without equal elements,
  for every element size of a C object. (\<open>docs/bstree.md\<close> promises NULL for an element size of zero,
  which \<open>bstree_create\<close> does not check.)
\<close>
theorem bstree_lifetime_correct:
  assumes "heap_allocator t live" and "compare_order cmp" and "0 < es" and "es \<le> PTRDIFF_MAX"
  shows "lifetime_ok t live (ordered_set_spec t es cmp) [] ps w
    (lifetime (bstree_create es cmp (Some t)) (on_handle bstree_call) (\<lambda>u. bstree_destroy (Some u)) ps w)"
  by (rule lifetime_laws.lifetime_is_ok [OF bstree_set.bstree_lifetime_laws [OF bstree_set.intro [OF assms(1,2)]]]) simp

theorem bstree_lifetime_witness:
  "lifetime_ok oom_after_allocator hp_live (ordered_set_spec oom_after_allocator 4 int_cmp) [] [SAdd 2, SAdd 1, SAdd 3, SAdd 2, SRemove 2, SMax, SLen] (heap_with 3)
    (lifetime (bstree_create 4 int_cmp (Some oom_after_allocator)) (on_handle bstree_call) (\<lambda>u. bstree_destroy (Some u))
      [SAdd 2, SAdd 1, SAdd 3, SAdd 2, SRemove 2, SMax, SLen] (heap_with 3))"
  by (rule bstree_lifetime_correct [OF oom.heap_allocator_axioms int_cmp.compare_order_axioms]) (simp_all add: PTRDIFF_MAX_def)

text \<open>
  The iterators of a \<open>bstree_t\<close>, as those of an \<open>avl_t\<close>; \<open>bstree_height\<close> is the height of the
  tree, and has no defined result for a tree higher than \<open>INT_MAX\<close>.
\<close>
theorem bstree_iterators_correct:
  assumes "heap_allocator t live" and "compare_order cmp" and "bstree_is cmp t u ds"
    and "bs_elem_size u \<le> PTRDIFF_MAX"
  shows "iter_built_until live (refused_growth t (stack_limit (height (bs_root u)))) (Some t) (live w) (bs_elem_size u) ds
      (bstree_iter (Some u) w) \<and>
    iter_built_until live (refused_growth t (stack_limit (height (bs_root u)))) (Some t) (live w) (bs_elem_size u) (rev ds)
      (bstree_iter_rev (Some u) w) \<and>
    iter_built_until live (refused_growth t (stack_limit (height (bs_root u)))) (Some t) (live w) (bs_elem_size u)
      (in_range cmp (\<lambda>e. e) lo hi ds) (bstree_iter_range (Some u) lo hi w) \<and>
    bstree_height (Some u) = (if int (height (bs_root u)) \<le> INT_MAX then Some (int (height (bs_root u))) else None)"
  by (intro conjI bstree_set.bstree_iters_built [OF bstree_set.intro [OF assms(1,2)] assms(3)] assms(4)
    bstree_set.bstree_height_is [OF bstree_set.intro [OF assms(1,2)]])

theorem bstree_iterators_witness:
  "let u = \<lparr>bs_self = 1, bs_root = Node Leaf \<lparr>nd_self = 2, nd_data = 5\<rparr> (Node Leaf \<lparr>nd_self = 3, nd_data = 7\<rparr> Leaf),
        bs_len = 2, bs_elem_size = 8, bs_cmp = int_cmp, bs_alloc = Some sys_allocator\<rparr>
   in iter_built_until hp_live (refused_growth sys_allocator (stack_limit 2)) (Some sys_allocator) (hp_live (heap_with 0)) 8
        [5, 7] (bstree_iter (Some u) (heap_with 0)) \<and>
      iter_built_until hp_live (refused_growth sys_allocator (stack_limit 2)) (Some sys_allocator) (hp_live (heap_with 0)) 8
        [7, 5] (bstree_iter_rev (Some u) (heap_with 0)) \<and>
      iter_built_until hp_live (refused_growth sys_allocator (stack_limit 2)) (Some sys_allocator) (hp_live (heap_with 0)) 8
        [5] (bstree_iter_range (Some u) None (Some 6) (heap_with 0)) \<and> bstree_height (Some u) = Some 2"
proof -
  let ?u = "\<lparr>bs_self = 1, bs_root = Node Leaf \<lparr>nd_self = 2, nd_data = 5\<rparr> (Node Leaf \<lparr>nd_self = 3, nd_data = 7 :: int\<rparr> Leaf),
        bs_len = 2, bs_elem_size = 8, bs_cmp = int_cmp, bs_alloc = Some sys_allocator\<rparr>"
  have eight: "8 \<le> PTRDIFF_MAX" by (simp add: PTRDIFF_MAX_def)
  have "bstree_is int_cmp sys_allocator ?u [5, 7]"
    by (simp add: bstree_is_def tree_is_def ordered_def int_cmp_def)
  from bstree_iterators_correct [OF sys.heap_allocator_axioms int_cmp.compare_order_axioms this, of "heap_with 0" None "Some 6"] eight
  show ?thesis by (simp add: in_range_def at_least_def at_most_def int_cmp_def numeral_2_eq_2 INT_MAX_def)
qed

end
