(* ===== verification/Seqc_Entries.thy ===== *)
theory Seqc_Entries
  imports Seqc_Collection
begin

section \<open>Draining key/value entries into a map\<close>

text \<open>
  \<open>omap_extend\<close> and \<open>hashmap_extend\<close> have the same body: take entries (pairs of a key and a value
  pointer) from an iterator and hand each to the map's own set function until one does not answer
  \<open>SEQC_OK\<close>. It is the loop of \<open>seqc_extend\<close> without the temporary buffer, and a map never
  answers \<open>SEQC_DUPLICATE\<close>, so what \<open>collection_add\<close> proves of that loop holds of this one.
\<close>

type_synonym ('k, 'v, 'c, 'w) entry_set_fn =
  "'c option \<Rightarrow> 'k option \<Rightarrow> 'v option \<Rightarrow> 'w \<Rightarrow> (seqc_status_t \<times> 'c option \<times> 'w) option"

definition sizeof_entry_t :: size_t where
  "sizeof_entry_t = 16"

lemma sizeof_entry_t_small [simp]: "sizeof_entry_t \<le> 256"
  by (simp add: sizeof_entry_t_def)

partial_function (option) entries_loop ::
  "('k, 'v, 'c, 'w) entry_set_fn \<Rightarrow> ('k \<times> 'v, 's, 'w) iter_t \<Rightarrow> 'c option \<Rightarrow> 'w \<Rightarrow>
   (seqc_status_t \<times> ('k \<times> 'v, 's, 'w) iter_t \<times> 'c option \<times> 'w) option" where
  "entries_loop setter it m w = do {
     (r, it, w) \<leftarrow> iter_next it w;
     case r of
       None \<Rightarrow> Some (SEQC_OK, it, m, w)
     | Some e \<Rightarrow> do {
         (st, m, w) \<leftarrow> setter m (Some (fst e)) (Some (snd e)) w;
         if st \<noteq> SEQC_OK then Some (st, it, m, w) else entries_loop setter it m w
       }
   }"

definition entries_extend ::
  "('k, 'v, 'c, 'w) entry_set_fn \<Rightarrow> 'c option \<Rightarrow> ('k \<times> 'v, 's, 'w) iter_t \<Rightarrow> 'w \<Rightarrow> (seqc_status_t \<times> 'c option \<times> 'w) option" where
  "entries_extend setter m it w =
     (if m = None \<or> \<not> iter_is_valid it \<or> it_elem_size it \<noteq> sizeof_entry_t then do {
        w \<leftarrow> iter_destroy it w;
        Some (SEQC_INVALID, m, w)
      } else do {
        (st, it, m, w) \<leftarrow> entries_loop setter it m w;
        w \<leftarrow> iter_destroy it w;
        Some (st, m, w)
      })"

definition entry_add :: "('k, 'v, 'c, 'w) entry_set_fn \<Rightarrow> ('k \<times> 'v, 'c, 'w) seqc_add_fn" where
  "entry_add setter m e w = setter m (map_option fst e) (map_option snd e) w"

lemma entries_loop_is_drain:
  fixes setter :: "('k, 'v, 'c, 'w) entry_set_fn" and it :: "('k \<times> 'v, 's, 'w) iter_t"
  assumes "seqc_extend_loop add it c w = Some r" and "add = entry_add setter"
    and nodup: "\<And>c k v w st c' w'. setter c k v w = Some (st, c', w') \<Longrightarrow> st \<noteq> SEQC_DUPLICATE"
  shows "entries_loop setter it c w = Some r"
proof -
  have "add = entry_add setter \<longrightarrow> entries_loop setter it c w = Some r"
  proof (rule seqc_extend_loop.raw_induct [OF _ assms(1)])
    fix loop :: "('k \<times> 'v, 'c, 'w) seqc_add_fn \<Rightarrow> ('k \<times> 'v, 's, 'w) iter_t \<Rightarrow> 'c option \<Rightarrow> 'w \<Rightarrow>
        (seqc_status_t \<times> ('k \<times> 'v, 's, 'w) iter_t \<times> 'c option \<times> 'w) option" and add it c w r
    assume IH: "\<And>add it c w r. loop add it c w = Some r \<Longrightarrow> add = entry_add setter \<longrightarrow> entries_loop setter it c w = Some r"
      and run: "do {
        (x, it, w) \<leftarrow> iter_next it w;
        case x of
          None \<Rightarrow> Some (SEQC_OK, it, c, w)
        | Some x \<Rightarrow> do {
            (added, c, w) \<leftarrow> add c (Some x) w;
            if added \<noteq> SEQC_OK \<and> added \<noteq> SEQC_DUPLICATE then Some (added, it, c, w) else loop add it c w
          }
      } = Some r"
    show "add = entry_add setter \<longrightarrow> entries_loop setter it c w = Some r"
    proof
      assume add: "add = entry_add setter"
      from run obtain y it1 w1 where n: "iter_next it w = Some (y, it1, w1)" by (auto simp: bind_eq_Some_conv)
      show "entries_loop setter it c w = Some r"
      proof (cases y)
        case None
        with run n show ?thesis by (simp add: entries_loop.simps [of _ it])
      next
        case (Some e)
        with run n add obtain st c2 w2 where s: "setter c (Some (fst e)) (Some (snd e)) w1 = Some (st, c2, w2)"
          by (auto simp: bind_eq_Some_conv entry_add_def)
        from nodup [OF s] run n s Some add IH show ?thesis
          by (cases "st = SEQC_OK") (simp_all add: entries_loop.simps [of _ it] entry_add_def)
      qed
    qed
  qed
  with assms(2) show ?thesis by blast
qed

locale entry_fill = collection_fill t live "entry_add setter" blocks holds rests put same full
  for t :: "'w vtable" and live :: "'w \<Rightarrow> addr \<rightharpoonup> size_t" and setter :: "('k, 'v, 'c, 'w) entry_set_fn"
    and blocks holds rests put same full +
  assumes never_duplicate: "setter c k v w = Some (st, c', w') \<Longrightarrow> st \<noteq> SEQC_DUPLICATE"
begin

lemma entries_extend_at:
  assumes c: "holds c m" and o: "owns2 (live w) R (blocks c) B"
    and it: "iter_rep live es it B" "iter_is_valid it" "it_elem_size it = sizeof_entry_t"
  shows "\<exists>st c' w' k. entries_extend setter (Some c) it w = Some (st, Some c', w') \<and>
    owns (live w') R (blocks c') \<and> same c c' \<and> rests c' (foldl put m (take k es)) \<and>
    (st = SEQC_OK \<and> k = length es \<or> st = SEQC_OOM \<and> k < length es \<and> full c (foldl put m (take k es)))"
proof -
  from extend_loop [OF c o it(1)] obtain st it' c' w1 B' k where
    l: "seqc_extend_loop (entry_add setter) it (Some c) w = Some (st, it', Some c', w1)"
      "owns2 (live w1) R (blocks c') B'" "iter_closes live it' B'" "same c c'"
      "rests c' (foldl put m (take k es))" "st = SEQC_OK \<and> k = length es \<or> st = SEQC_OOM \<and> k < length es \<and> full c (foldl put m (take k es))"
    by blast
  have e: "entries_loop setter it (Some c) w = Some (st, it', Some c', w1)"
    by (rule entries_loop_is_drain [OF l(1) refl never_duplicate])
  obtain w2 where w2: "iter_destroy it' w1 = Some w2" "live w2 = R ++ blocks c'"
    by (rule iter_destroy_closes [OF l(3) owns2_right [OF l(2)]])
  have "entries_extend setter (Some c) it w = Some (st, Some c', w2)"
    using it(2,3) e w2(1) by (simp add: entries_extend_def)
  moreover have "owns (live w2) R (blocks c')" by (rule owns2_close_right [OF l(2) w2(2)])
  ultimately show ?thesis using l(4-6) by blast
qed

end

locale entry_map = entry_fill t live setter blocks holds holds put same full
  for t :: "'w vtable" and live :: "'w \<Rightarrow> addr \<rightharpoonup> size_t" and setter :: "('k, 'v, 'c, 'w) entry_set_fn"
    and blocks holds put same full
begin

lemmas entries_drain_at = entries_extend_at

end

text \<open>An argument that is rejected is still consumed.\<close>

lemma entries_extend_rejects:
  assumes "\<not> iter_is_valid it \<or> it_elem_size it \<noteq> sizeof_entry_t \<or> m = None"
    and "iter_closes live it B" and "owns (live w) R B"
  obtains w' where "entries_extend setter m it w = Some (SEQC_INVALID, m, w')" and "live w' = R"
proof -
  from assms(2,3) obtain w' where "iter_destroy it w = Some w'" "live w' = R" by (rule iter_destroy_closes)
  with assms(1) that show ?thesis by (auto simp: entries_extend_def)
qed

text \<open>An iterator over given elements, that owns nothing: what the examples drain.\<close>

definition listed_next :: "'a list \<Rightarrow> 'w \<Rightarrow> ('a option \<times> 'a list \<times> 'w) option" where
  "listed_next xs w = (case xs of [] \<Rightarrow> Some (None, [], w) | x # xs \<Rightarrow> Some (Some x, xs, w))"

definition listed :: "'a list \<Rightarrow> size_t \<Rightarrow> ('a, 'a list, 'w) iter_t" where
  "listed xs n = iter_make listed_next (\<lambda>_ w. Some w) xs n None"

lemma listed_rep: "iter_rep live xs (listed xs n) Map.empty"
proof (induction xs)
  case Nil
  have n: "iter_next (listed [] n) w = Some (None, listed [] n, w)" for w :: 'a
    by (simp add: listed_def listed_next_def)
  have c: "iter_closes live (listed [] n) Map.empty" by (simp add: listed_def iter_closes_def)
  show ?case by (rule iter_rep_Nil_still [OF c n c])
next
  case (Cons x xs)
  have c: "iter_closes live (listed (x # xs) n) Map.empty" by (simp add: listed_def iter_closes_def)
  have n: "iter_next (listed (x # xs) n) w = Some (Some x, listed xs n, w)" for w :: 'a
    by (simp add: listed_def listed_next_def)
  show ?case by (rule iter_rep_Cons_still [OF c n Cons.IH])
qed

lemma listed_fields [simp]: "iter_is_valid (listed xs n)" "it_elem_size (listed xs n) = n"
  by (simp_all add: listed_def)

end
