(* ===== verification/Seqc_Omap.thy ===== *)
theory Seqc_Omap
  imports Seqc_Balance Seqc_Entries
begin

section \<open>The ordered map\<close>

text \<open>
  \<open>src/omap/omap.c\<close>: the same balanced tree, whose nodes hold a key and a value. A key that is
  set again keeps its bytes and gets the new value. The file has its own copy of the rotations
  and tree walks of \<open>avl.c\<close>; the models of both are the same functions. An \<open>omap_entry_t\<close> is a
  pair of pointers into a node, here the pair of what they point to.
\<close>

type_synonym ('k, 'v) omap_node_t = "('k \<times> 'v) avl_node_t"
type_synonym ('k, 'v) omap_nodes = "('k \<times> 'v) avl_tree"

record ('k, 'v, 'w) omap_t =
  om_self :: addr
  om_root :: "('k, 'v) omap_nodes"
  om_len :: size_t
  om_key_size :: size_t
  om_val_size :: size_t
  om_cmp :: "'k compare_fn"
  om_alloc :: "'w allocator_t"

definition sizeof_omap_node_t :: size_t where
  "sizeof_omap_node_t = 24"

definition sizeof_omap_t :: size_t where
  "sizeof_omap_t = 56"

definition sizeof_omap_iter_state_t :: size_t where
  "sizeof_omap_iter_state_t = 56"

definition sizeof_omap_range_iter_state_t :: size_t where
  "sizeof_omap_range_iter_state_t = 72"

definition sizeof_omap_entry_t :: size_t where
  "sizeof_omap_entry_t = 16"

lemma sizeof_omap_node_t_small [simp]: "sizeof_omap_node_t \<le> 256" "sizeof_omap_t \<le> 256" "sizeof_omap_iter_state_t \<le> 256" "sizeof_omap_range_iter_state_t \<le> 256" "sizeof_omap_entry_t \<le> 256"
  by (simp_all add: sizeof_omap_node_t_def sizeof_omap_t_def sizeof_omap_iter_state_t_def sizeof_omap_range_iter_state_t_def sizeof_omap_entry_t_def)

subsection \<open>Nodes\<close>

definition key_off :: size_t where
  "key_off = data_offset sizeof_omap_node_t"

definition val_off :: "size_t \<Rightarrow> size_t" where
  "val_off ks = wadd (wadd key_off ks) (SEQC_MAX_ALIGN - 1) div SEQC_MAX_ALIGN * SEQC_MAX_ALIGN"

definition node_sz :: "size_t \<Rightarrow> size_t \<Rightarrow> size_t" where
  "node_sz ks vs = wadd (val_off ks) vs"

definition node_key :: "('k, 'v) omap_node_t \<Rightarrow> 'k" where
  "node_key n = fst (nd_data n)"

definition node_val :: "('k, 'v) omap_node_t \<Rightarrow> 'v" where
  "node_val n = snd (nd_data n)"

definition omap_new_node :: "addr \<Rightarrow> 'k \<times> 'v \<Rightarrow> ('k, 'v) omap_node_t" where
  "omap_new_node a kv = \<lparr>nd_self = a, nd_data = kv, nd_height = 1\<rparr>"

text \<open>The balancing code of this file.\<close>

definition omap_update_height :: "('k, 'v) omap_nodes \<Rightarrow> ('k, 'v) omap_nodes option" where
  "omap_update_height = update_height"

definition omap_balance_factor :: "('k, 'v) omap_nodes \<Rightarrow> int option" where
  "omap_balance_factor = balance_factor"

definition omap_rotate_right :: "('k, 'v) omap_nodes \<Rightarrow> ('k, 'v) omap_nodes option" where
  "omap_rotate_right = rotate_right"

definition omap_rotate_left :: "('k, 'v) omap_nodes \<Rightarrow> ('k, 'v) omap_nodes option" where
  "omap_rotate_left = rotate_left"

definition omap_rebalance :: "('k, 'v) omap_nodes \<Rightarrow> ('k, 'v) omap_nodes option" where
  "omap_rebalance = rebalance"

subsection \<open>Operations\<close>

definition omap_create ::
  "size_t \<Rightarrow> size_t \<Rightarrow> 'k compare_fn \<Rightarrow> 'w allocator_t \<Rightarrow> 'w \<Rightarrow> (('k, 'v, 'w) omap_t option \<times> 'w) option" where
  "omap_create ks vs cmp al w = do {
     (p, w) \<leftarrow> mem_alloc al sizeof_omap_t w;
     case p of
       None \<Rightarrow> Some (None, w)
     | Some a \<Rightarrow> Some (Some \<lparr>om_self = a, om_root = Leaf, om_len = 0, om_key_size = ks, om_val_size = vs,
         om_cmp = cmp, om_alloc = al\<rparr>, w)
   }"

text \<open>What \<open>do_set\<close> does to a node with an equal key.\<close>

definition new_value :: "'k \<times> 'v \<Rightarrow> 'k \<times> 'v \<Rightarrow> 'k \<times> 'v" where
  "new_value kv old = (fst old, snd kv)"

definition omap_do_set ::
  "('k, 'v, 'w) omap_t \<Rightarrow> ('k, 'v) omap_nodes \<Rightarrow> 'k \<Rightarrow> 'v \<Rightarrow> 'w \<Rightarrow> (bool \<times> bool \<times> ('k, 'v) omap_nodes \<times> 'w) option" where
  "omap_do_set m node k v w =
     tree_insert omap_rebalance (om_alloc m) (node_sz (om_key_size m) (om_val_size m)) omap_new_node new_value (om_cmp m) fst (k, v) node w"

definition omap_set ::
  "('k, 'v, 'w) omap_t option \<Rightarrow> 'k option \<Rightarrow> 'v option \<Rightarrow> 'w \<Rightarrow> (seqc_status_t \<times> ('k, 'v, 'w) omap_t option \<times> 'w) option" where
  "omap_set m key val w =
     (case (m, key, val) of
        (Some u, Some k, Some v) \<Rightarrow> do {
          (inserted, oom, new_root, w) \<leftarrow> omap_do_set u (om_root u) k v w;
          if oom then Some (SEQC_OOM, Some u, w)
          else do {
            let u = (if new_root \<noteq> Leaf then u\<lparr>om_root := new_root\<rparr> else u);
            let u = (if inserted then u\<lparr>om_len := Suc (om_len u)\<rparr> else u);
            Some (SEQC_OK, Some u, w)
          }
        }
      | _ \<Rightarrow> Some (SEQC_INVALID, m, w))"

definition omap_get_ptr :: "('k, 'v, 'w) omap_t option \<Rightarrow> 'k option \<Rightarrow> ('k, 'v) omap_node_t option" where
  "omap_get_ptr m key = do { u \<leftarrow> m; k \<leftarrow> key; tree_find (om_cmp u) fst k (om_root u) }"

definition omap_get :: "('k, 'v, 'w) omap_t option \<Rightarrow> 'k option \<Rightarrow> bool \<Rightarrow> (seqc_status_t \<times> 'v option) option" where
  "omap_get m key out =
     (if m = None \<or> key = None then Some (SEQC_INVALID, None)
      else seqc_copy_out (map_option (\<lambda>n. Some (node_val n)) (omap_get_ptr m key)) out)"

definition omap_contains :: "('k, 'v, 'w) omap_t option \<Rightarrow> 'k option \<Rightarrow> bool option" where
  "omap_contains m key = do { (st, x) \<leftarrow> omap_get m key False; Some (st = SEQC_OK) }"

definition omap_do_remove ::
  "('k, 'v, 'w) omap_t \<Rightarrow> ('k, 'v) omap_nodes \<Rightarrow> 'k \<Rightarrow> 'w \<Rightarrow> (bool \<times> ('k, 'v) omap_nodes \<times> 'w) option" where
  "omap_do_remove m node k w =
     tree_remove omap_rebalance (om_alloc m) (node_sz (om_key_size m) (om_val_size m)) (om_cmp m) fst k node w"

definition omap_remove ::
  "('k, 'v, 'w) omap_t option \<Rightarrow> 'k option \<Rightarrow> 'w \<Rightarrow> (seqc_status_t \<times> ('k, 'v, 'w) omap_t option \<times> 'w) option" where
  "omap_remove m key w =
     (case (m, key) of
        (Some u, Some k) \<Rightarrow> do {
          (removed, root, w) \<leftarrow> omap_do_remove u (om_root u) k w;
          let u = u\<lparr>om_root := root\<rparr>;
          let u = (if removed then u\<lparr>om_len := om_len u - 1\<rparr> else u);
          Some (if removed then SEQC_OK else SEQC_NOT_FOUND, Some u, w)
        }
      | _ \<Rightarrow> Some (SEQC_INVALID, m, w))"

definition omap_min_key_ptr :: "('k, 'v, 'w) omap_t option \<Rightarrow> ('k, 'v) omap_node_t option" where
  "omap_min_key_ptr m = do { u \<leftarrow> m; leftmost (om_root u) }"

definition omap_max_key_ptr :: "('k, 'v, 'w) omap_t option \<Rightarrow> ('k, 'v) omap_node_t option" where
  "omap_max_key_ptr m = do { u \<leftarrow> m; rightmost (om_root u) }"

definition omap_min_key :: "('k, 'v, 'w) omap_t option \<Rightarrow> bool \<Rightarrow> (seqc_status_t \<times> 'k option) option" where
  "omap_min_key m out =
     (case m of
        None \<Rightarrow> Some (SEQC_INVALID, None)
      | Some u \<Rightarrow> seqc_copy_out (map_option (\<lambda>n. Some (node_key n)) (omap_min_key_ptr m)) out)"

definition omap_max_key :: "('k, 'v, 'w) omap_t option \<Rightarrow> bool \<Rightarrow> (seqc_status_t \<times> 'k option) option" where
  "omap_max_key m out =
     (case m of
        None \<Rightarrow> Some (SEQC_INVALID, None)
      | Some u \<Rightarrow> seqc_copy_out (map_option (\<lambda>n. Some (node_key n)) (omap_max_key_ptr m)) out)"

text \<open>Copying an entry out; either destination may be NULL.\<close>

definition entry_out :: "('k, 'v) omap_node_t option \<Rightarrow> bool \<Rightarrow> bool \<Rightarrow> seqc_status_t \<times> 'k option \<times> 'v option" where
  "entry_out p key_out val_out =
     (case p of
        None \<Rightarrow> (SEQC_NOT_FOUND, None, None)
      | Some n \<Rightarrow> (SEQC_OK, if key_out then Some (node_key n) else None, if val_out then Some (node_val n) else None))"

definition omap_min_entry :: "('k, 'v, 'w) omap_t option \<Rightarrow> bool \<Rightarrow> bool \<Rightarrow> seqc_status_t \<times> 'k option \<times> 'v option" where
  "omap_min_entry m = entry_out (do { u \<leftarrow> m; leftmost (om_root u) })"

definition omap_max_entry :: "('k, 'v, 'w) omap_t option \<Rightarrow> bool \<Rightarrow> bool \<Rightarrow> seqc_status_t \<times> 'k option \<times> 'v option" where
  "omap_max_entry m = entry_out (do { u \<leftarrow> m; rightmost (om_root u) })"

definition omap_len :: "('k, 'v, 'w) omap_t option \<Rightarrow> size_t" where
  "omap_len m = (case m of None \<Rightarrow> 0 | Some u \<Rightarrow> om_len u)"

definition omap_is_empty :: "('k, 'v, 'w) omap_t option \<Rightarrow> bool" where
  "omap_is_empty m = (case m of None \<Rightarrow> True | Some u \<Rightarrow> om_len u = 0)"

definition omap_height :: "('k, 'v, 'w) omap_t option \<Rightarrow> int" where
  "omap_height m = (case m of None \<Rightarrow> 0 | Some u \<Rightarrow> node_height (om_root u))"

definition omap_free_subtree :: "('k, 'v, 'w) omap_t \<Rightarrow> ('k, 'v) omap_nodes \<Rightarrow> 'w \<Rightarrow> 'w option" where
  "omap_free_subtree m node w = free_tree (om_alloc m) (node_sz (om_key_size m) (om_val_size m)) node w"

definition omap_destroy :: "('k, 'v, 'w) omap_t option \<Rightarrow> 'w \<Rightarrow> 'w option" where
  "omap_destroy m w =
     (case m of
        None \<Rightarrow> Some w
      | Some u \<Rightarrow> do {
          w \<leftarrow> omap_free_subtree u (om_root u) w;
          mem_free (om_alloc u) (Some (om_self u)) sizeof_omap_t w
        })"

definition omap_clear :: "('k, 'v, 'w) omap_t option \<Rightarrow> 'w \<Rightarrow> (('k, 'v, 'w) omap_t option \<times> 'w) option" where
  "omap_clear m w =
     (case m of
        None \<Rightarrow> Some (None, w)
      | Some u \<Rightarrow> do {
          w \<leftarrow> omap_free_subtree u (om_root u) w;
          Some (Some (u\<lparr>om_root := Leaf, om_len := 0\<rparr>), w)
        })"

subsection \<open>Iterators\<close>

type_synonym ('k, 'v) omap_entry_t = "'k \<times> 'v"
type_synonym ('k, 'v) omap_iter_state_t = "('k, 'v) omap_node_t walk_t"
type_synonym ('k, 'v) omap_range_iter_state_t = "(('k, 'v) omap_node_t, 'k) range_walk_t"

definition omap_stack_push ::
  "'w allocator_t \<Rightarrow> ('k, 'v) omap_nodes \<Rightarrow> (('k, 'v) omap_node_t, 'x) walk_t_scheme \<Rightarrow> 'w \<Rightarrow>
   (bool \<times> (('k, 'v) omap_node_t, 'x) walk_t_scheme \<times> 'w) option" where
  "omap_stack_push = spine_push"

definition omap_iter_next ::
  "'w allocator_t \<Rightarrow> ('k, 'v) omap_iter_state_t \<Rightarrow> 'w \<Rightarrow> (('k, 'v) omap_entry_t option \<times> ('k, 'v) omap_iter_state_t \<times> 'w) option" where
  "omap_iter_next = walk_next False"

definition omap_iter_rev_next ::
  "'w allocator_t \<Rightarrow> ('k, 'v) omap_iter_state_t \<Rightarrow> 'w \<Rightarrow> (('k, 'v) omap_entry_t option \<times> ('k, 'v) omap_iter_state_t \<times> 'w) option" where
  "omap_iter_rev_next = walk_next True"

definition omap_iter_drop :: "'w allocator_t \<Rightarrow> ('k, 'v) omap_iter_state_t \<Rightarrow> 'w \<Rightarrow> 'w option" where
  "omap_iter_drop al = walk_drop al sizeof_omap_iter_state_t"

definition omap_iter ::
  "('k, 'v, 'w) omap_t option \<Rightarrow> 'w \<Rightarrow> ((('k, 'v) omap_entry_t, ('k, 'v) omap_iter_state_t, 'w) iter_t \<times> 'w) option" where
  "omap_iter m w =
     (case m of
        None \<Rightarrow> Some (iter_zero, w)
      | Some u \<Rightarrow> tree_iter False sizeof_omap_iter_state_t sizeof_omap_entry_t (om_alloc u) (om_root u) w)"

definition omap_iter_rev ::
  "('k, 'v, 'w) omap_t option \<Rightarrow> 'w \<Rightarrow> ((('k, 'v) omap_entry_t, ('k, 'v) omap_iter_state_t, 'w) iter_t \<times> 'w) option" where
  "omap_iter_rev m w =
     (case m of
        None \<Rightarrow> Some (iter_zero, w)
      | Some u \<Rightarrow> tree_iter True sizeof_omap_iter_state_t sizeof_omap_entry_t (om_alloc u) (om_root u) w)"

definition omap_range_iter_next ::
  "'k compare_fn \<Rightarrow> 'w allocator_t \<Rightarrow> ('k, 'v) omap_range_iter_state_t \<Rightarrow> 'w \<Rightarrow>
   (('k, 'v) omap_entry_t option \<times> ('k, 'v) omap_range_iter_state_t \<times> 'w) option" where
  "omap_range_iter_next cmp = range_walk_next cmp fst"

definition omap_range_iter_drop :: "'w allocator_t \<Rightarrow> size_t \<Rightarrow> ('k, 'v) omap_range_iter_state_t \<Rightarrow> 'w \<Rightarrow> 'w option" where
  "omap_range_iter_drop al ks = range_walk_drop al sizeof_omap_range_iter_state_t ks"

definition omap_push_lo ::
  "'k compare_fn \<Rightarrow> 'w allocator_t \<Rightarrow> 'k \<Rightarrow> ('k, 'v) omap_nodes \<Rightarrow> ('k, 'v) omap_range_iter_state_t \<Rightarrow> 'w \<Rightarrow>
   (('k, 'v) omap_range_iter_state_t \<times> 'w) option" where
  "omap_push_lo cmp = push_lo cmp fst"

definition omap_iter_range ::
  "('k, 'v, 'w) omap_t option \<Rightarrow> 'k option \<Rightarrow> 'k option \<Rightarrow> 'w \<Rightarrow>
   ((('k, 'v) omap_entry_t, ('k, 'v) omap_range_iter_state_t, 'w) iter_t \<times> 'w) option" where
  "omap_iter_range m lo hi w =
     (case m of
        None \<Rightarrow> Some (iter_zero, w)
      | Some u \<Rightarrow> tree_iter_range (om_cmp u) fst sizeof_omap_range_iter_state_t (om_key_size u) sizeof_omap_entry_t
          (om_alloc u) (om_root u) lo hi w)"

subsection \<open>Draining entries into a map\<close>

definition omap_extend ::
  "('k, 'v, 'w) omap_t option \<Rightarrow> (('k, 'v) omap_entry_t, 's, 'w) iter_t \<Rightarrow> 'w \<Rightarrow>
   (seqc_status_t \<times> ('k, 'v, 'w) omap_t option \<times> 'w) option" where
  "omap_extend = entries_extend omap_set"

subsection \<open>The invariant\<close>

text \<open>\<open>omap_at\<close>: balanced, the keys ascend, and the nodes hold the entries \<open>kvs\<close> in this order.\<close>

definition omap_node_size :: "('k, 'v, 'w) omap_t \<Rightarrow> size_t" where
  "omap_node_size u = node_sz (om_key_size u) (om_val_size u)"

definition omap_at ::
  "'k compare_fn \<Rightarrow> 'w vtable \<Rightarrow> ('w \<Rightarrow> addr \<rightharpoonup> size_t) \<Rightarrow> (addr \<rightharpoonup> size_t) \<Rightarrow> 'w \<Rightarrow> ('k, 'v, 'w) omap_t \<Rightarrow> ('k \<times> 'v) list \<Rightarrow> bool" where
  "omap_at cmp t live R w u kvs \<longleftrightarrow>
     om_alloc u = Some t \<and> om_cmp u = cmp \<and> om_len u = length kvs \<and>
     tree_at avl cmp fst live R w (om_self u) sizeof_omap_t (omap_node_size u) (om_root u) kvs"

definition omap_is :: "'k compare_fn \<Rightarrow> 'w vtable \<Rightarrow> ('k, 'v, 'w) omap_t \<Rightarrow> ('k \<times> 'v) list \<Rightarrow> bool" where
  "omap_is cmp t u kvs \<longleftrightarrow>
     om_alloc u = Some t \<and> om_cmp u = cmp \<and> om_len u = length kvs \<and>
     tree_is avl cmp fst (om_self u) (om_root u) kvs"

definition omap_blocks :: "('k, 'v, 'w) omap_t \<Rightarrow> (addr \<rightharpoonup> size_t)" where
  "omap_blocks u = (tree_blocks (omap_node_size u) (om_root u))(om_self u \<mapsto> sizeof_omap_t)"

lemma omap_at_split: "omap_at cmp t live R w u kvs \<longleftrightarrow> omap_is cmp t u kvs \<and> owns (live w) R (omap_blocks u)"
  by (auto simp: omap_at_def omap_is_def omap_blocks_def tree_at_split)

lemma omap_atD:
  assumes "omap_at cmp t live R w u kvs"
  shows "om_alloc u = Some t" "om_cmp u = cmp" "om_len u = length kvs"
    "tree_at avl cmp fst live R w (om_self u) sizeof_omap_t (node_sz (om_key_size u) (om_val_size u)) (om_root u) kvs"
  using assms by (simp_all add: omap_at_def omap_node_size_def)

definition omap_same :: "('k, 'v, 'w) omap_t \<Rightarrow> ('k, 'v, 'w) omap_t \<Rightarrow> bool" where
  "omap_same u u' \<longleftrightarrow> om_self u' = om_self u \<and> om_key_size u' = om_key_size u \<and> om_val_size u' = om_val_size u \<and>
     om_alloc u' = om_alloc u \<and> om_cmp u' = om_cmp u"

lemma omap_new_node_is: "omap_new_node = new_node"
  by (simp add: fun_eq_iff omap_new_node_def new_node_def)

text \<open>What setting a key does to the entries, and what \<open>get\<close> answers.\<close>

abbreviation map_put :: "'k compare_fn \<Rightarrow> 'k \<times> 'v \<Rightarrow> ('k \<times> 'v) list \<Rightarrow> ('k \<times> 'v) list" where
  "map_put cmp \<equiv> put cmp fst new_value"

abbreviation map_del :: "'k compare_fn \<Rightarrow> 'k \<Rightarrow> ('k \<times> 'v) list \<Rightarrow> ('k \<times> 'v) list" where
  "map_del cmp \<equiv> del cmp fst"

abbreviation map_has :: "'k compare_fn \<Rightarrow> 'k \<Rightarrow> ('k \<times> 'v) list \<Rightarrow> bool" where
  "map_has cmp \<equiv> present cmp fst"

abbreviation map_look :: "'k compare_fn \<Rightarrow> 'k \<Rightarrow> ('k \<times> 'v) list \<Rightarrow> ('k \<times> 'v) option" where
  "map_look cmp \<equiv> look cmp fst"

locale omap_store = heap_allocator t live + compare_order cmp
  for t :: "'w vtable" and live :: "'w \<Rightarrow> addr \<rightharpoonup> size_t" and cmp :: "'k compare_fn"

sublocale omap_store \<subseteq> tree_store t live cmp rebalance avl tree_ht new_node new_value fst
proof -
  have "balanced cmp rebalance avl tree_ht new_node new_value fst" by (rule avl_balanced) (simp add: new_value_def)
  then show "tree_store t live cmp rebalance avl tree_ht new_node new_value fst"
    by (intro tree_store.intro heap_allocator_axioms)
qed

context omap_store begin

lemma val_off_le: "val_off ks \<le> ks + 63"
proof -
  have "wadd (wadd key_off ks) 15 \<le> key_off + ks + 15" using wadd_le [of "wadd key_off ks" 15] wadd_le [of key_off ks] by linarith
  moreover have "key_off \<le> 39" using data_offset_le [of sizeof_omap_node_t] by (simp add: key_off_def sizeof_omap_node_t_def)
  moreover have "val_off ks \<le> wadd (wadd key_off ks) 15" by (simp add: val_off_def SEQC_MAX_ALIGN_def)
  ultimately show ?thesis by linarith
qed

lemma omap_node_size_le: "omap_node_size u \<le> om_key_size u + om_val_size u + 256"
  using wadd_le [of "val_off (om_key_size u)" "om_val_size u"] val_off_le [of "om_key_size u"]
  by (simp add: omap_node_size_def node_sz_def)

lemma omap_create_at:
  obtains (ok) u :: "('k, 'v, 'w) omap_t" and w' where "omap_create ks vs cmp (Some t) w = Some (Some u, w')" and "omap_at cmp t live (live w) w' u []"
      and "om_key_size u = ks" and "om_val_size u = vs"
  | (oom) w' where "omap_create ks vs cmp (Some t) w = Some (None :: ('k, 'v, 'w) omap_t option, w')" and "live w' = live w"
      and "starved (Some t)"
proof (cases rule: iter_state_alloc [of sizeof_omap_t w])
  case (granted a w')
  let ?u = "\<lparr>om_self = a, om_root = Leaf, om_len = 0, om_key_size = ks, om_val_size = vs, om_cmp = cmp, om_alloc = Some t\<rparr>"
  have "omap_create ks vs cmp (Some t) w = Some (Some ?u, w')" using granted(1) by (simp add: omap_create_def del: mem_alloc.simps)
  moreover have "omap_at cmp t live (live w) w' ?u []" using new_tree_at [OF granted(2)] by (simp add: omap_at_def)
  ultimately show ?thesis by (rule ok) simp_all
next
  case (refused w')
  then show ?thesis using starved_small [OF refused(3)] by (intro oom [of w']) (simp_all add: omap_create_def del: mem_alloc.simps)
qed

lemma omap_set_at:
  assumes at: "omap_at cmp t live R w u kvs"
  obtains (ok) u' w' where "omap_set (Some u) (Some k) (Some v) w = Some (SEQC_OK, Some u', w')"
      and "omap_at cmp t live R w' u' (map_put cmp (k, v) kvs)" and "omap_same u u'"
  | (oom) w' where "omap_set (Some u) (Some k) (Some v) w = Some (SEQC_OOM, Some u, w')" and "\<not> map_has cmp k kvs"
      and "omap_at cmp t live R w' u kvs" and "refuses t (om_key_size u + om_val_size u + 256)"
proof -
  note u = omap_atD [OF at]
  note defs = omap_set_def omap_do_set_def omap_new_node_is omap_rebalance_def Let_def
  from u(4) show ?thesis
  proof (cases rule: insert_at [where d = "(k, v)"])
    case (added T' w')
    have "T' \<noteq> Leaf" by (rule tree_at_put_not_Leaf [OF added(3)])
    let ?u = "u\<lparr>om_root := T', om_len := Suc (om_len u)\<rparr>"
    have "omap_set (Some u) (Some k) (Some v) w = Some (SEQC_OK, Some ?u, w')"
      using added(1) u \<open>T' \<noteq> Leaf\<close> by (simp add: defs)
    moreover have "omap_at cmp t live R w' ?u (map_put cmp (k, v) kvs)"
      using added(3,4) u by (simp add: omap_at_def omap_node_size_def)
    ultimately show ?thesis using ok by (simp add: omap_same_def)
  next
    case (present T')
    have "T' \<noteq> Leaf" by (rule tree_at_put_not_Leaf [OF present(3)])
    let ?u = "u\<lparr>om_root := T'\<rparr>"
    have "omap_set (Some u) (Some k) (Some v) w = Some (SEQC_OK, Some ?u, w)"
      using present(1) u \<open>T' \<noteq> Leaf\<close> by (simp add: defs)
    moreover have "omap_at cmp t live R w ?u (map_put cmp (k, v) kvs)"
      using present(3,4) u by (simp add: omap_at_def omap_node_size_def)
    ultimately show ?thesis using ok by (simp add: omap_same_def)
  next
    case (oom w')
    have "refuses t (om_key_size u + om_val_size u + 256)" by (rule refuses_mono [OF oom(4)]) (rule omap_node_size_le [unfolded omap_node_size_def])
    with oom show ?thesis using that(2) u by (simp add: defs omap_at_def omap_node_size_def)
  qed
qed

lemma omap_remove_at:
  assumes at: "omap_at cmp t live R w u kvs"
  obtains u' w' where "omap_remove (Some u) (Some k) w =
      Some (if map_has cmp k kvs then SEQC_OK else SEQC_NOT_FOUND, Some u', w')"
    and "omap_at cmp t live R w' u' (map_del cmp k kvs)" and "omap_same u u'"
proof -
  note u = omap_atD [OF at]
  note defs = omap_remove_def omap_do_remove_def omap_rebalance_def Let_def
  from u(4) show ?thesis
  proof (cases rule: remove_at [where k = k])
    case (removed T' w')
    let ?u = "u\<lparr>om_root := T', om_len := om_len u - 1\<rparr>"
    have "omap_remove (Some u) (Some k) w = Some (SEQC_OK, Some ?u, w')" using removed(1) u by (simp add: defs)
    moreover have "omap_at cmp t live R w' ?u (map_del cmp k kvs)" using removed(3,4) u by (simp add: omap_at_def omap_node_size_def)
    ultimately show ?thesis using that removed(2) by (simp add: omap_same_def)
  next
    case (absent T')
    let ?u = "u\<lparr>om_root := T'\<rparr>"
    have "omap_remove (Some u) (Some k) w = Some (SEQC_NOT_FOUND, Some ?u, w)" using absent(1) u by (simp add: defs)
    moreover have "omap_at cmp t live R w ?u (map_del cmp k kvs)"
      using absent(2,3) u by (simp add: omap_at_def omap_node_size_def del_absent)
    ultimately show ?thesis using that absent(2) by (simp add: omap_same_def)
  qed
qed

lemma omap_get_is:
  assumes "omap_at cmp t live R w u kvs"
  shows "omap_get (Some u) (Some k) out = Some (case map_look cmp k kvs of
      None \<Rightarrow> (SEQC_NOT_FOUND, None) | Some e \<Rightarrow> (SEQC_OK, if out then Some (snd e) else None))"
    and "omap_contains (Some u) (Some k) = Some (map_has cmp k kvs)"
proof -
  from assms have T: "elems (om_root u) = kvs" "ordered cmp fst kvs" "om_cmp u = cmp" by (simp_all add: omap_at_def tree_at_def)
  have f: "map_option nd_data (tree_find cmp fst k (om_root u)) = map_look cmp k kvs"
    unfolding T(1) [symmetric] by (rule tree_find_is) (use T in simp)
  show g: "omap_get (Some u) (Some k) out = Some (case map_look cmp k kvs of
      None \<Rightarrow> (SEQC_NOT_FOUND, None) | Some e \<Rightarrow> (SEQC_OK, if out then Some (snd e) else None))" for out
    unfolding f [symmetric] using T(3) by (simp add: omap_get_def omap_get_ptr_def node_val_def split: option.split)
  show "omap_contains (Some u) (Some k) = Some (map_has cmp k kvs)"
    unfolding omap_contains_def g using look_None [of cmp fst k kvs] by (auto split: option.split)
qed

lemma omap_ends:
  assumes "omap_at cmp t live R w u kvs"
  shows "map_option nd_data (leftmost (om_root u)) = (if kvs = [] then None else Some (hd kvs))"
    and "map_option nd_data (rightmost (om_root u)) = (if kvs = [] then None else Some (last kvs))"
proof -
  from assms have T: "elems (om_root u) = kvs" by (simp add: omap_at_def tree_at_def)
  show "map_option nd_data (leftmost (om_root u)) = (if kvs = [] then None else Some (hd kvs))"
    using leftmost_is [of "om_root u"] unfolding T [symmetric]
    by (cases "om_root u = Leaf") (auto simp: hd_map, metis snd_conv)
  show "map_option nd_data (rightmost (om_root u)) = (if kvs = [] then None else Some (last kvs))"
    using rightmost_is [of "om_root u"] unfolding T [symmetric]
    by (cases "om_root u = Leaf") (auto simp: last_map, metis snd_conv)
qed

lemma omap_min_max_is:
  assumes "omap_at cmp t live R w u kvs"
  shows "omap_min_key (Some u) out = Some (if kvs = [] then (SEQC_NOT_FOUND, None) else (SEQC_OK, if out then Some (fst (hd kvs)) else None))"
    and "omap_max_key (Some u) out = Some (if kvs = [] then (SEQC_NOT_FOUND, None) else (SEQC_OK, if out then Some (fst (last kvs)) else None))"
    and "omap_min_entry (Some u) True True =
      (if kvs = [] then (SEQC_NOT_FOUND, None, None) else (SEQC_OK, Some (fst (hd kvs)), Some (snd (hd kvs))))"
    and "omap_max_entry (Some u) True True =
      (if kvs = [] then (SEQC_NOT_FOUND, None, None) else (SEQC_OK, Some (fst (last kvs)), Some (snd (last kvs))))"
  using omap_ends [OF assms]
  by (auto simp: omap_min_key_def omap_min_key_ptr_def omap_max_key_def omap_max_key_ptr_def omap_min_entry_def omap_max_entry_def
      entry_out_def node_key_def node_val_def split: if_splits)

lemma omap_clear_at:
  fixes u :: "('k, 'v, 'w) omap_t"
  assumes at: "omap_at cmp t live R w u kvs"
  obtains u' w' where "omap_clear (Some u) w = Some (Some u', w')" and "omap_at cmp t live R w' u' []" and "omap_same u u'"
proof -
  note u = omap_atD [OF at]
  from u(4) obtain w' where "free_tree (Some t) (node_sz (om_key_size u) (om_val_size u)) (om_root u) w = Some w'"
    "tree_at avl cmp fst live R w' (om_self u) sizeof_omap_t (node_sz (om_key_size u) (om_val_size u)) (Leaf :: ('k, 'v) omap_nodes) []" by (rule free_at)
  with u show ?thesis
    by (intro that [of "u\<lparr>om_root := Leaf, om_len := 0\<rparr>" w'])
      (simp_all add: omap_clear_def omap_free_subtree_def omap_at_def omap_same_def omap_node_size_def)
qed

lemma omap_destroy_at:
  assumes at: "omap_at cmp t live R w u kvs"
  obtains w' where "omap_destroy (Some u) w = Some w'" and "live w' = R"
proof -
  note u = omap_atD [OF at]
  from u(4) obtain w1 where 1: "free_tree (Some t) (node_sz (om_key_size u) (om_val_size u)) (om_root u) w = Some w1"
    "live w1 = R(om_self u \<mapsto> sizeof_omap_t)" "om_self u \<notin> dom R" by (rule free_at)
  then have o: "owns (live w1) (R(om_self u \<mapsto> sizeof_omap_t)) Map.empty" by simp
  obtain w2 where "mem_free (Some t) (Some (om_self u)) sizeof_omap_t w1 = Some w2" "owns (live w2) R Map.empty"
    by (rule release_held [OF o 1(3)])
  with 1(1) u that show ?thesis by (simp add: omap_destroy_def omap_free_subtree_def del: mem_free.simps)
qed

lemma omap_height_is:
  assumes "omap_at cmp t live R w u kvs"
  shows "omap_height (Some u) = int (height (om_root u))" and "2 ^ (height (om_root u) div 2) \<le> Suc (length kvs)"
proof -
  from assms have T: "avl (om_root u)" "elems (om_root u) = kvs" by (simp_all add: omap_at_def tree_at_def)
  from T(1) show "omap_height (Some u) = int (height (om_root u))" by (simp add: omap_height_def avl_height)
  from avl_height_log [OF T(1)] show "2 ^ (height (om_root u) div 2) \<le> Suc (length kvs)" unfolding T(2) [symmetric] by simp
qed

subsection \<open>Iterating and extending\<close>

abbreviation omap_refused :: "('k, 'v, 'w) omap_t \<Rightarrow> 'w \<Rightarrow> bool" where
  "omap_refused u \<equiv> refused_growth t (stack_limit (height (om_root u)))"

lemma omap_iters_built:
  assumes "omap_is cmp t u kvs"
  shows "iter_built_until live (omap_refused u) (Some t) (live w) 16 kvs (omap_iter (Some u) w)"
    and "iter_built_until live (omap_refused u) (Some t) (live w) 16 (rev kvs) (omap_iter_rev (Some u) w)"
    and "om_key_size u \<le> PTRDIFF_MAX \<Longrightarrow> iter_built_until live (omap_refused u) (Some t) (live w) 16 (in_range cmp fst lo hi kvs) (omap_iter_range (Some u) lo hi w)"
proof -
  from assms have u: "om_alloc u = Some t" "om_cmp u = cmp" "elems (om_root u) = kvs" "ordered cmp fst (elems (om_root u))"
    by (simp_all add: omap_is_def tree_is_def)
  show "iter_built_until live (omap_refused u) (Some t) (live w) 16 kvs (omap_iter (Some u) w)"
    using tree_iter_built [of _ "om_root u" w _ False] u by (simp add: omap_iter_def in_order_def sizeof_omap_entry_t_def)
  show "iter_built_until live (omap_refused u) (Some t) (live w) 16 (rev kvs) (omap_iter_rev (Some u) w)"
    using tree_iter_built [of _ "om_root u" w _ True] u by (simp add: omap_iter_rev_def in_order_def sizeof_omap_entry_t_def)
  show "iter_built_until live (omap_refused u) (Some t) (live w) 16 (in_range cmp fst lo hi kvs) (omap_iter_range (Some u) lo hi w)"
    if "om_key_size u \<le> PTRDIFF_MAX"
    using tree_iter_range_built [OF compare_order_axioms u(4) _ that, where w = w and lo = lo and hi = hi] u(1-3)
    by (simp add: omap_iter_range_def sizeof_omap_entry_t_def)
qed

lemma omap_entry_map:
  "entry_map t live omap_set omap_blocks (omap_is cmp t) (\<lambda>kvs e. map_put cmp e kvs) omap_same
    (\<lambda>u _. refuses t (om_key_size u + om_val_size u + 256))"
proof unfold_locales
  fix u :: "('k, 'v, 'w) omap_t" and kvs w R and x :: "'k \<times> 'v"
  assume "omap_is cmp t u kvs" "owns (live w) R (omap_blocks u)"
  then have "omap_at cmp t live R w u kvs" by (simp add: omap_at_split)
  then show "\<exists>st u' w'. entry_add omap_set (Some u) (Some x) w = Some (st, Some u', w') \<and> owns (live w') R (omap_blocks u') \<and> omap_same u u' \<and>
      (if st = SEQC_OK \<or> st = SEQC_DUPLICATE then omap_is cmp t u' (map_put cmp x kvs) else st = SEQC_OOM \<and> omap_is cmp t u' kvs \<and>
         refuses t (om_key_size u + om_val_size u + 256))"
    by (cases rule: omap_set_at [where k = "fst x" and v = "snd x"]) (auto simp: omap_at_split omap_same_def entry_add_def)
qed (auto simp: omap_same_def omap_set_def Let_def bind_eq_Some_conv split: option.splits if_splits)

lemma omap_extend_at:
  assumes "omap_is cmp t u kvs" and "owns2 (live w) R (omap_blocks u) B"
    and "iter_rep live es it B" and "iter_is_valid it" and "it_elem_size it = 16"
  shows "\<exists>st u' w' n. omap_extend (Some u) it w = Some (st, Some u', w') \<and>
    omap_at cmp t live R w' u' (foldl (\<lambda>kvs e. map_put cmp e kvs) kvs (take n es)) \<and>
    (st = SEQC_OK \<and> n = length es \<or> st = SEQC_OOM \<and> n < length es \<and> refuses t (om_key_size u + om_val_size u + 256))"
  using entry_map.entries_drain_at [OF omap_entry_map assms(1-4)] assms(5)
  unfolding omap_at_split omap_extend_def sizeof_entry_t_def by metis

end

interpretation sys_omap: omap_store sys_allocator hp_live int_cmp
  by unfold_locales

interpretation sys_omap_set: entry_map sys_allocator hp_live omap_set omap_blocks "omap_is int_cmp sys_allocator"
  "\<lambda>kvs e. map_put int_cmp e kvs" omap_same
  "\<lambda>u _. refuses sys_allocator (om_key_size u + om_val_size u + 256)"
  by (rule sys_omap.omap_entry_map)

end
