(* ===== verification/Seqc_Omap_Properties.thy ===== *)
theory Seqc_Omap_Properties
  imports Seqc_Lifetime Seqc_Omap
begin

section \<open>The ordered map against ordered association lists\<close>

text \<open>
  \<open>ordered_map_spec\<close> says what each call of an \<open>omap_t\<close> may answer when the map holds the
  entries \<open>kvs\<close>, in the order of their keys, and what becomes of the entries. A key and its value
  have \<open>n\<close> bytes; a node takes at most 256 more.
\<close>

datatype ('k, 'v) map_op =
    MSet 'k 'v | MGet 'k | MContains 'k | MRemove 'k | MMinKey | MMaxKey | MMinEntry | MMaxEntry | MLen | MClear

datatype ('k, 'v) map_answer =
    Status seqc_status_t | Value seqc_status_t "'v option" | Key seqc_status_t "'k option"
  | Entry "seqc_status_t \<times> 'k option \<times> 'v option" | Holds bool | Count size_t

fun ordered_map_spec ::
  "'w vtable \<Rightarrow> size_t \<Rightarrow> 'k compare_fn \<Rightarrow> ('k, 'v) map_op \<Rightarrow> ('k \<times> 'v) list \<Rightarrow> ('k, 'v) map_answer \<Rightarrow> ('k \<times> 'v) list \<Rightarrow> bool" where
  "ordered_map_spec t n cmp (MSet k v) kvs r kvs' \<longleftrightarrow>
     r = Status SEQC_OK \<and> kvs' = map_put cmp (k, v) kvs \<or>
     r = Status SEQC_OOM \<and> \<not> map_has cmp k kvs \<and> kvs' = kvs \<and> refuses t (n + 256)"
| "ordered_map_spec t n cmp (MGet k) kvs r kvs' \<longleftrightarrow> kvs' = kvs \<and>
     r = (case map_look cmp k kvs of None \<Rightarrow> Value SEQC_NOT_FOUND None | Some e \<Rightarrow> Value SEQC_OK (Some (snd e)))"
| "ordered_map_spec t n cmp (MContains k) kvs r kvs' \<longleftrightarrow> kvs' = kvs \<and> r = Holds (map_has cmp k kvs)"
| "ordered_map_spec t n cmp (MRemove k) kvs r kvs' \<longleftrightarrow>
     kvs' = map_del cmp k kvs \<and> r = Status (if map_has cmp k kvs then SEQC_OK else SEQC_NOT_FOUND)"
| "ordered_map_spec t n cmp MMinKey kvs r kvs' \<longleftrightarrow>
     kvs' = kvs \<and> r = (if kvs = [] then Key SEQC_NOT_FOUND None else Key SEQC_OK (Some (fst (hd kvs))))"
| "ordered_map_spec t n cmp MMaxKey kvs r kvs' \<longleftrightarrow>
     kvs' = kvs \<and> r = (if kvs = [] then Key SEQC_NOT_FOUND None else Key SEQC_OK (Some (fst (last kvs))))"
| "ordered_map_spec t n cmp MMinEntry kvs r kvs' \<longleftrightarrow> kvs' = kvs \<and>
     r = Entry (if kvs = [] then (SEQC_NOT_FOUND, None, None) else (SEQC_OK, Some (fst (hd kvs)), Some (snd (hd kvs))))"
| "ordered_map_spec t n cmp MMaxEntry kvs r kvs' \<longleftrightarrow> kvs' = kvs \<and>
     r = Entry (if kvs = [] then (SEQC_NOT_FOUND, None, None) else (SEQC_OK, Some (fst (last kvs)), Some (snd (last kvs))))"
| "ordered_map_spec t n cmp MLen kvs r kvs' \<longleftrightarrow> kvs' = kvs \<and> r = Count (length kvs)"
| "ordered_map_spec t n cmp MClear kvs r kvs' \<longleftrightarrow> r = Status SEQC_OK \<and> kvs' = []"

fun omap_call ::
  "('k, 'v) map_op \<Rightarrow> ('k, 'v, 'w) omap_t option \<Rightarrow> 'w \<Rightarrow> (('k, 'v) map_answer \<times> ('k, 'v, 'w) omap_t option \<times> 'w) option" where
  "omap_call (MSet k v) m w = do { (st, m, w) \<leftarrow> omap_set m (Some k) (Some v) w; Some (Status st, m, w) }"
| "omap_call (MGet k) m w = do { (st, x) \<leftarrow> omap_get m (Some k) True; Some (Value st x, m, w) }"
| "omap_call (MContains k) m w = do { b \<leftarrow> omap_contains m (Some k); Some (Holds b, m, w) }"
| "omap_call (MRemove k) m w = do { (st, m, w) \<leftarrow> omap_remove m (Some k) w; Some (Status st, m, w) }"
| "omap_call MMinKey m w = do { (st, x) \<leftarrow> omap_min_key m True; Some (Key st x, m, w) }"
| "omap_call MMaxKey m w = do { (st, x) \<leftarrow> omap_max_key m True; Some (Key st x, m, w) }"
| "omap_call MMinEntry m w = Some (Entry (omap_min_entry m True True), m, w)"
| "omap_call MMaxEntry m w = Some (Entry (omap_max_entry m True True), m, w)"
| "omap_call MLen m w = Some (Count (omap_len m), m, w)"
| "omap_call MClear m w = do { (m, w) \<leftarrow> omap_clear m w; Some (Status SEQC_OK, m, w) }"

definition entry_size :: "('k, 'v, 'w) omap_t \<Rightarrow> size_t" where
  "entry_size u = om_key_size u + om_val_size u"

lemma entry_size_same: "omap_same u u' \<Longrightarrow> entry_size u' = entry_size u"
  by (simp add: omap_same_def entry_size_def)

context omap_store begin

lemma omap_call_law:
  assumes u: "omap_at cmp t live R w u kvs"
  shows "\<exists>r u' w' kvs'. omap_call p (Some u) w = Some (r, Some u', w') \<and> ordered_map_spec t (entry_size u) cmp p kvs r kvs' \<and>
    omap_at cmp t live R w' u' kvs' \<and> omap_same u u'"
proof (cases p)
  case (MSet k v)
  from u show ?thesis unfolding MSet by (cases rule: omap_set_at [where k = k and v = v]) (auto simp: omap_same_def entry_size_def)
next
  case (MGet k)
  with u omap_get_is(1) [OF u, of k True] show ?thesis by (auto simp: omap_same_def split: option.split)
next
  case (MContains k)
  with u omap_get_is(2) [OF u, of k] show ?thesis by (auto simp: omap_same_def)
next
  case (MRemove k)
  from u obtain u' w' where "omap_remove (Some u) (Some k) w = Some (if map_has cmp k kvs then SEQC_OK else SEQC_NOT_FOUND, Some u', w')"
    "omap_at cmp t live R w' u' (map_del cmp k kvs)" "omap_same u u'" by (rule omap_remove_at)
  with MRemove show ?thesis by auto
next
  case MLen
  with u show ?thesis by (simp add: omap_len_def omap_at_def omap_same_def)
next
  case MClear
  from u obtain u' w' where "omap_clear (Some u) w = Some (Some u', w')" "omap_at cmp t live R w' u' []" "omap_same u u'" by (rule omap_clear_at)
  with MClear show ?thesis by auto
qed (use u omap_min_max_is(1,2) [OF u, of True] omap_min_max_is(3,4) [OF u] in \<open>auto simp: omap_same_def\<close>)

lemma omap_lifetime_laws:
  "lifetime_laws t live (omap_create ks vs cmp (Some t) :: 'w \<Rightarrow> (('k, 'v, 'w) omap_t option \<times> 'w) option) (on_handle omap_call) (\<lambda>u. omap_destroy (Some u))
    (ordered_map_spec t (ks + vs) cmp) [] (\<lambda>_. True) (sized entry_size (ks + vs) (omap_at cmp t live))"
proof unfold_locales
  fix w
  show "\<exists>(c :: ('k, 'v, 'w) omap_t option) w'. omap_create ks vs cmp (Some t) w = Some (c, w') \<and>
      (case c of None \<Rightarrow> live w' = live w \<and> starved (Some t) | Some c \<Rightarrow> sized entry_size (ks + vs) (omap_at cmp t live) (live w) w' c [])"
    by (cases rule: omap_create_at [of ks vs w, where ?'v = 'v]) (auto simp: sized_def entry_size_def)
next
  fix R w p u kvs
  assume "sized entry_size (ks + vs) (omap_at cmp t live) R w u kvs"
  then show "\<exists>r u' w' kvs'. on_handle omap_call p u w = Some (r, u', w') \<and> ordered_map_spec t (ks + vs) cmp p kvs r kvs' \<and>
      sized entry_size (ks + vs) (omap_at cmp t live) R w' u' kvs'"
    using omap_call_law [of R w u kvs p] by (fastforce simp: sized_def entry_size_same intro: on_handleI)
next
  fix R w u kvs
  assume "sized entry_size (ks + vs) (omap_at cmp t live) R w u kvs"
  then have "omap_at cmp t live R w u kvs" by (rule sizedD)
  then show "\<exists>w'. omap_destroy (Some u) w = Some w' \<and> live w' = R" by (rule omap_destroy_at) blast
qed

end

interpretation sys_omap_life: lifetime_laws sys_allocator hp_live "omap_create 4 4 int_cmp (Some sys_allocator)"
  "on_handle omap_call" "\<lambda>u. omap_destroy (Some u)" "ordered_map_spec sys_allocator (4 + 4) int_cmp" "[]" "\<lambda>_. True"
  "sized entry_size (4 + 4) (omap_at int_cmp sys_allocator hp_live)"
  by (rule sys_omap.omap_lifetime_laws)

subsection \<open>Properties\<close>

text \<open>
  C28. A program that creates an \<open>omap_t\<close>, applies any sequence of its operations and destroys it
  has a defined result: each answer is the one of a list of entries in the order of their keys.
  Setting a key that is present replaces its value and never fails; setting a new key may answer
  \<open>SEQC_OOM\<close>, and then changes nothing, only if the allocator refuses a request for a node. No node is leaked or freed twice.
\<close>
theorem omap_lifetime_correct:
  assumes "heap_allocator t live" and "compare_order cmp"
  shows "lifetime_ok t live (ordered_map_spec t (ks + vs) cmp) [] ps w
    (lifetime (omap_create ks vs cmp (Some t)) (on_handle omap_call) (\<lambda>u. omap_destroy (Some u)) ps w)"
  by (rule lifetime_laws.lifetime_is_ok [OF omap_store.omap_lifetime_laws [OF omap_store.intro [OF assms]]]) simp

theorem omap_lifetime_witness:
  "lifetime_ok oom_after_allocator hp_live (ordered_map_spec oom_after_allocator (4 + 4) int_cmp) [] [MSet 2 True, MSet 1 False, MSet 2 False, MGet 2, MRemove 2, MMinEntry, MLen] (heap_with 2)
    (lifetime (omap_create 4 4 int_cmp (Some oom_after_allocator)) (on_handle omap_call) (\<lambda>u. omap_destroy (Some u))
      [MSet 2 True, MSet 1 False, MSet 2 False, MGet 2, MRemove 2, MMinEntry, MLen] (heap_with 2))"
  by (rule omap_lifetime_correct [OF oom.heap_allocator_axioms int_cmp.compare_order_axioms])

text \<open>
  C29. \<open>omap_extend\<close> sets the entries of an iterator one by one. It consumes the iterator and frees
  all it owned, on every path. It answers \<open>SEQC_OK\<close> when all entries arrived, or \<open>SEQC_OOM\<close>, and
  then a proper prefix of them did and the allocator refuses a request for a node; in both cases the map is balanced, ordered and holds what
  setting these entries in turn gives.
\<close>
theorem omap_extend_correct:
  assumes "heap_allocator t live" and "compare_order cmp"
    and "omap_is cmp t u kvs" and "owns2 (live w) R (omap_blocks u) B"
    and "iter_rep live es it B" and "iter_is_valid it" and "it_elem_size it = 16"
  shows "\<exists>st u' w' n. omap_extend (Some u) it w = Some (st, Some u', w') \<and>
    omap_at cmp t live R w' u' (foldl (\<lambda>kvs e. map_put cmp e kvs) kvs (take n es)) \<and>
    (st = SEQC_OK \<and> n = length es \<or> st = SEQC_OOM \<and> n < length es \<and> refuses t (om_key_size u + om_val_size u + 256))"
  by (rule omap_store.omap_extend_at [OF omap_store.intro [OF assms(1,2)] assms(3-7)])

theorem omap_extend_witness:
  "let u = \<lparr>om_self = 1, om_root = Leaf, om_len = 0, om_key_size = 8, om_val_size = 8, om_cmp = int_cmp, om_alloc = Some roomy_allocator\<rparr>
   in \<exists>u' w'. omap_extend (Some u) (listed [(3, True), (1, False), (3, False)] 16) [(1, sizeof_omap_t)] = Some (SEQC_OK, Some u', w') \<and>
    omap_at int_cmp roomy_allocator map_of Map.empty w' u' [(1, False), (3, False)]"
proof -
  let ?u = "\<lparr>om_self = 1, om_root = Leaf :: (int, bool) omap_nodes, om_len = 0, om_key_size = 8, om_val_size = 8,
    om_cmp = int_cmp, om_alloc = Some roomy_allocator\<rparr>" and ?es = "[(3, True), (1, False), (3, False)]"
  have u: "omap_is int_cmp roomy_allocator ?u []" by (simp add: omap_is_def tree_is_def)
  have o: "owns2 (map_of [(1, sizeof_omap_t)]) Map.empty (omap_blocks ?u) Map.empty"
    by (rule owns2_empty) (simp add: omap_blocks_def owns_def)
  have p: "foldl (\<lambda>kvs e. map_put int_cmp e kvs) [] ?es = [(1, False), (3, False)]"
    by (simp add: put_def present_def new_value_def int_cmp_def)
  have "\<not> refuses roomy_allocator (om_key_size ?u + om_val_size ?u + 256)" by (rule roomy_refuses) (simp add: PTRDIFF_MAX_def)
  with omap_extend_correct [OF roomy.heap_allocator_axioms int_cmp.compare_order_axioms u o listed_rep [of map_of ?es 16]] p
  show ?thesis by (fastforce simp: Let_def)
qed

end
