(* ===== verification/Seqc_Robin.thy ===== *)
theory Seqc_Robin
  imports Seqc_Roomy
begin

section \<open>Robin Hood tables\<close>

text \<open>
  \<open>hashmap_t\<close> and \<open>set_t\<close> keep their entries in an open-addressing table whose size is a power
  of two. A bucket stores its probe-sequence length (psl), one more than its distance from the home
  slot of its key; 0 marks an empty bucket, whose pointers are not read. An insertion swaps
  itself in where a bucket has a smaller psl. This theory holds the loops the two files
  share, the invariant of a table, and what the loops do to it.
  The psl is a byte: the increment is modulo 256 and the code asserts that it is not 0 again. A
  failing assertion is \<open>None\<close>, as undefined behaviour is.
\<close>

type_synonym 'k hash_fn = "'k \<Rightarrow> size_t \<Rightarrow> size_t"
type_synonym 'k eq_fn = "'k \<Rightarrow> 'k \<Rightarrow> size_t \<Rightarrow> bool"

record 'd bucket_t =
  bk_data :: "'d option"
  bk_psl :: nat

definition empty_bucket :: "'d bucket_t" where
  "empty_bucket = \<lparr>bk_data = None, bk_psl = 0\<rparr>"

definition uint8_inc :: "nat \<Rightarrow> nat" where
  "uint8_inc n = (n + 1) mod 256"

definition next_slot :: "size_t \<Rightarrow> size_t \<Rightarrow> size_t" where
  "next_slot cap slot = wadd slot 1 AND wsub cap 1"

subsection \<open>The loops\<close>

text \<open>
  The loop of an insertion ends at an empty bucket (\<open>None\<close> as its first result) or at a bucket
  with an equal key (\<open>Some\<close> its slot, with nothing stored there yet). \<open>d\<close> is the incoming entry,
  \<open>mx\<close> the highest psl stored so far.
\<close>

partial_function (option) rh_insert_loop ::
  "('d \<Rightarrow> 'k) \<Rightarrow> ('k \<Rightarrow> 'k \<Rightarrow> bool) \<Rightarrow> size_t \<Rightarrow> 'd bucket_t list \<Rightarrow> nat \<Rightarrow> size_t \<Rightarrow> 'd \<Rightarrow> nat \<Rightarrow>
   (size_t option \<times> 'd bucket_t list \<times> nat \<times> 'd) option" where
  "rh_insert_loop key eq cap bs mx slot d p =
     (if length bs \<le> slot then None
      else if bk_psl (bs ! slot) = 0 then
        Some (None, bs[slot := \<lparr>bk_data = Some d, bk_psl = p\<rparr>], if p > mx then p else mx, d)
      else do {
        c \<leftarrow> bk_data (bs ! slot);
        if eq (key c) (key d) then Some (Some slot, bs, mx, d)
        else do {
          let (bs, mx, d, p) =
            (if bk_psl (bs ! slot) < p
             then (bs[slot := \<lparr>bk_data = Some d, bk_psl = p\<rparr>], if p > mx then p else mx, c, bk_psl (bs ! slot))
             else (bs, mx, d, p));
          if uint8_inc p = 0 then None
          else rh_insert_loop key eq cap bs mx (next_slot cap slot) d (uint8_inc p)
        }
      })"

text \<open>The loop of a lookup: the slot of an equal key, if there is one.\<close>

partial_function (option) rh_find_loop ::
  "('d \<Rightarrow> 'k) \<Rightarrow> ('k \<Rightarrow> 'k \<Rightarrow> bool) \<Rightarrow> size_t \<Rightarrow> 'd bucket_t list \<Rightarrow> 'k \<Rightarrow> size_t \<Rightarrow> nat \<Rightarrow> size_t option option" where
  "rh_find_loop key eq cap bs k slot probe =
     (if length bs \<le> slot then None
      else if bk_psl (bs ! slot) = 0 \<or> bk_psl (bs ! slot) < probe then Some None
      else do {
        c \<leftarrow> bk_data (bs ! slot);
        if eq (key c) k then Some (Some slot)
        else rh_find_loop key eq cap bs k (next_slot cap slot) (uint8_inc probe)
      })"

subsection \<open>Slots around the circle\<close>

definition psl_at :: "'d bucket_t list \<Rightarrow> nat \<Rightarrow> nat" where
  "psl_at bs x = bk_psl (bs ! (x mod length bs))"

definition data_at :: "'d bucket_t list \<Rightarrow> nat \<Rightarrow> 'd option" where
  "data_at bs x = bk_data (bs ! (x mod length bs))"

text \<open>What the occupied buckets hold, in slot order.\<close>

definition contents :: "'d bucket_t list \<Rightarrow> 'd list" where
  "contents bs = map (\<lambda>b. the (bk_data b)) (filter (\<lambda>b. bk_psl b \<noteq> 0) bs)"

definition held :: "'d bucket_t \<Rightarrow> 'd multiset" where
  "held b = (if bk_psl b = 0 then {#} else {#the (bk_data b)#})"

lemma contents_Nil [simp]: "contents [] = []"
  by (simp add: contents_def)

lemma contents_Cons: "contents (b # bs) = (if bk_psl b = 0 then [] else [the (bk_data b)]) @ contents bs"
  by (simp add: contents_def)

lemma contents_append [simp]: "contents (bs @ cs) = contents bs @ contents cs"
  by (simp add: contents_def)

lemma contents_empty [simp]: "contents (replicate n empty_bucket) = []"
  by (simp add: contents_def empty_bucket_def)

lemma contents_update:
  "i < length bs \<Longrightarrow> mset (contents (bs[i := b])) + held (bs ! i) = mset (contents bs) + held b"
proof (induction bs arbitrary: i)
  case (Cons a bs)
  then show ?case by (cases i) (simp_all add: contents_Cons held_def)
qed simp

lemma length_contents: "length (contents bs) \<le> length bs"
  by (simp add: contents_def)

lemma contents_not_full:
  assumes "length (contents bs) < length bs"
  obtains i where "i < length bs" and "bk_psl (bs ! i) = 0"
proof -
  have "\<exists>i < length bs. bk_psl (bs ! i) = 0"
  proof (rule ccontr)
    assume "\<not> (\<exists>i < length bs. bk_psl (bs ! i) = 0)"
    then have "filter (\<lambda>b. bk_psl b \<noteq> 0) bs = bs" by (auto simp: filter_id_conv in_set_conv_nth)
    then have "length (contents bs) = length bs" by (simp add: contents_def)
    with assms show False by simp
  qed
  with that show ?thesis by blast
qed

text \<open>Some slot ahead is empty, less than a whole turn away.\<close>

lemma empty_ahead:
  assumes "length (contents bs) < length bs"
  obtains n where "n < length bs" and "psl_at bs (s + n) = 0"
proof -
  obtain i where i: "i < length bs" "bk_psl (bs ! i) = 0" using assms by (rule contents_not_full)
  let ?c = "length bs" and ?n = "(i + length bs - s mod length bs) mod length bs"
  have "s mod ?c < ?c" using i(1) by (intro mod_less_divisor) linarith
  have "(s + ?n) mod ?c = (s mod ?c + (i + ?c - s mod ?c)) mod ?c" by (metis mod_add_left_eq mod_add_right_eq)
  also have "\<dots> = i" using \<open>s mod ?c < ?c\<close> i(1) by simp
  finally have "psl_at bs (s + ?n) = 0" using i(2) by (simp add: psl_at_def)
  moreover have "?n < ?c" using i(1) by (intro mod_less_divisor) linarith
  ultimately show ?thesis using that by blast
qed

lemma next_slot_is:
  assumes "length bs = 2 ^ k" and "length bs < 2 ^ 64"
  shows "next_slot (length bs) (x mod length bs) = Suc x mod length bs"
proof -
  have "x mod length bs < length bs" using assms(1) by simp
  then have "wadd (x mod length bs) 1 = x mod length bs + 1" using assms(2) by (intro wadd_exact) simp
  moreover have "wsub (length bs) 1 = 2 ^ k - 1" using assms by (subst wsub_exact) simp_all
  ultimately have "next_slot (length bs) (x mod length bs) = (x mod length bs + 1) mod 2 ^ k"
    by (simp only: next_slot_def mask_mod)
  then show ?thesis by (simp add: mod_simps flip: assms(1))
qed

lemma home_slot_is:
  assumes "length bs = 2 ^ k" and "length bs < 2 ^ 64"
  shows "h AND wsub (length bs) 1 = h mod length bs"
proof -
  have "wsub (length bs) 1 = 2 ^ k - 1" using assms by (subst wsub_exact) simp_all
  then show ?thesis by (simp only: mask_mod assms(1))
qed

lemma near_slots: "0 < i \<Longrightarrow> i < c \<Longrightarrow> (x + i) mod c \<noteq> x mod c" for x :: nat
  using mod_eq_dvd_iff_nat [of x "x + i" c] by (auto dest: dvd_imp_le)

end
