(* ===== verification/Seqc_Robin_Insert.thy ===== *)
theory Seqc_Robin_Insert
  imports Seqc_Robin
begin

section \<open>The invariant of a Robin Hood table, and insertion\<close>

text \<open>
  \<open>rh_ok\<close>: around the circle a psl grows by at most one from a bucket to the next, and every entry
  is as far from its home slot as its psl says. The first half is what makes lookups right:
  between the home slot of an entry and its bucket, no psl is below the distance already gone.
\<close>

definition rh_ok :: "('d \<Rightarrow> 'k) \<Rightarrow> ('k \<Rightarrow> nat) \<Rightarrow> 'd bucket_t list \<Rightarrow> bool" where
  "rh_ok key hash bs \<longleftrightarrow> (\<exists>k. length bs = 2 ^ k) \<and> length bs < 2 ^ 64 \<and>
     (\<forall>x. psl_at bs (Suc x) \<le> Suc (psl_at bs x)) \<and>
     (\<forall>x. psl_at bs x \<noteq> 0 \<longrightarrow>
        (\<exists>d. data_at bs x = Some d \<and> (hash (key d) + psl_at bs x) mod length bs = Suc x mod length bs))"

lemma rh_okD:
  assumes "rh_ok key hash bs"
  obtains k where "length bs = 2 ^ k" and "length bs < 2 ^ 64" and "0 < length bs"
    and "\<And>x. psl_at bs (Suc x) \<le> Suc (psl_at bs x)"
    and "\<And>x. psl_at bs x \<noteq> 0 \<Longrightarrow>
      \<exists>d. data_at bs x = Some d \<and> (hash (key d) + psl_at bs x) mod length bs = Suc x mod length bs"
  using assms unfolding rh_ok_def by fastforce

lemma psl_at_cong: "x mod length bs = y mod length bs \<Longrightarrow> psl_at bs x = psl_at bs y"
  by (simp add: psl_at_def)

lemma data_at_cong: "x mod length bs = y mod length bs \<Longrightarrow> data_at bs x = data_at bs y"
  by (simp add: data_at_def)

lemma psl_update:
  "0 < length bs \<Longrightarrow> psl_at (bs[s mod length bs := b]) x =
    (if x mod length bs = s mod length bs then bk_psl b else psl_at bs x)"
  by (simp add: psl_at_def nth_list_update)

lemma data_update:
  "0 < length bs \<Longrightarrow> data_at (bs[s mod length bs := b]) x =
    (if x mod length bs = s mod length bs then bk_data b else data_at bs x)"
  by (simp add: data_at_def nth_list_update)

lemma psl_chain:
  assumes "\<And>x. psl_at bs (Suc x) \<le> Suc (psl_at bs x)"
  shows "psl_at bs (x + m) \<le> psl_at bs x + m"
proof (induction m)
  case (Suc m)
  with assms [of "x + m"] show ?case by simp
qed simp

lemma psl_between:
  assumes "\<And>x. psl_at bs (Suc x) \<le> Suc (psl_at bs x)" and "x \<le> y"
  shows "psl_at bs y \<le> psl_at bs x + (y - x)"
  using psl_chain [OF assms(1), of x "y - x"] assms(2) by simp

lemma Suc_mod_cong: "Suc x mod c = Suc y mod c \<longleftrightarrow> x mod c = y mod c"
proof
  assume h: "Suc x mod c = Suc y mod c"
  show "x mod c = y mod c"
  proof (cases "c = 0")
    case False
    have "(Suc x + (c - 1)) mod c = (Suc y + (c - 1)) mod c" using h by (metis mod_add_left_eq)
    with False show ?thesis by simp
  qed (use h in simp)
qed (metis mod_Suc_eq)

lemma add_mod_cancel: "(a + p) mod c = (b + p) mod c \<longleftrightarrow> a mod c = b mod c" for a :: nat
  by (induction p) (simp_all add: Suc_mod_cong)

lemma at_contents:
  assumes "psl_at bs x \<noteq> 0" and "0 < length bs"
  shows "the (data_at bs x) \<in> set (contents bs)"
proof -
  have "bs ! (x mod length bs) \<in> set bs" using assms(2) by (intro nth_mem mod_less_divisor)
  with assms(1) show ?thesis by (auto simp: contents_def psl_at_def data_at_def)
qed

lemma contents_at:
  assumes "d \<in> set (contents bs)"
  obtains x where "x < length bs" and "psl_at bs x \<noteq> 0" and "the (data_at bs x) = d"
proof -
  from assms obtain b where b: "b \<in> set bs" "bk_psl b \<noteq> 0" "d = the (bk_data b)" by (auto simp: contents_def)
  then obtain x where "x < length bs" "bs ! x = b" by (auto simp: in_set_conv_nth)
  with b that [of x] show ?thesis by (simp add: psl_at_def data_at_def)
qed

subsection \<open>Distinct keys\<close>

definition keys_apart :: "('d \<Rightarrow> 'k) \<Rightarrow> ('k \<Rightarrow> 'k \<Rightarrow> bool) \<Rightarrow> 'd multiset \<Rightarrow> bool" where
  "keys_apart key eq M \<longleftrightarrow> (\<forall>k. size (filter_mset (\<lambda>d. eq (key d) k) M) \<le> 1)"

definition absent :: "('d \<Rightarrow> 'k) \<Rightarrow> ('k \<Rightarrow> 'k \<Rightarrow> bool) \<Rightarrow> 'k \<Rightarrow> 'd multiset \<Rightarrow> bool" where
  "absent key eq k M \<longleftrightarrow> (\<forall>d \<in># M. \<not> eq (key d) k)"

lemma keys_apart_empty [simp]: "keys_apart key eq {#}"
  by (simp add: keys_apart_def)

lemma absent_simps [simp]:
  "absent key eq k {#}"
  "absent key eq k (add_mset d M) \<longleftrightarrow> \<not> eq (key d) k \<and> absent key eq k M"
  by (simp_all add: absent_def)

lemma keys_apart_drop: "keys_apart key eq (add_mset d M) \<Longrightarrow> keys_apart key eq M"
  unfolding keys_apart_def by (metis One_nat_def Suc_leD filter_mset_add_mset size_add_mset)

text \<open>A hash function and an equality that fit together: what \<open>hashmap.h\<close> and \<open>set.h\<close> ask of their caller.\<close>

locale key_hash =
  fixes hash :: "'k \<Rightarrow> nat" and eq :: "'k \<Rightarrow> 'k \<Rightarrow> bool"
  assumes eq_refl [simp]: "eq a a"
    and eq_sym: "eq a b \<Longrightarrow> eq b a"
    and eq_trans: "eq a b \<Longrightarrow> eq b c \<Longrightarrow> eq a c"
    and eq_hash: "eq a b \<Longrightarrow> hash a = hash b"
begin

lemma keys_apart_add: "keys_apart key eq (add_mset d M) \<longleftrightarrow> keys_apart key eq M \<and> absent key eq (key d) M"
proof
  assume h: "keys_apart key eq (add_mset d M)"
  then have "size (filter_mset (\<lambda>e. eq (key e) (key d)) (add_mset d M)) \<le> 1" unfolding keys_apart_def by blast
  then have "filter_mset (\<lambda>e. eq (key e) (key d)) M = {#}" by simp
  then have "\<forall>e \<in># M. \<not> eq (key e) (key d)" by (simp add: filter_mset_eq_mempty_iff)
  with keys_apart_drop [OF h] show "keys_apart key eq M \<and> absent key eq (key d) M" by (simp add: absent_def)
next
  assume h: "keys_apart key eq M \<and> absent key eq (key d) M"
  show "keys_apart key eq (add_mset d M)"
    unfolding keys_apart_def
  proof
    fix k
    show "size (filter_mset (\<lambda>e. eq (key e) k) (add_mset d M)) \<le> 1"
    proof (cases "eq (key d) k")
      case True
      have "\<not> eq (key e) k" if "e \<in># M" for e using h that True eq_trans [of "key e" k "key d"] eq_sym
        by (auto simp: absent_def)
      then have "filter_mset (\<lambda>e. eq (key e) k) M = {#}" by (simp add: filter_mset_eq_mempty_iff)
      with True show ?thesis by simp
    qed (use h in \<open>simp add: keys_apart_def\<close>)
  qed
qed

lemma absent_cong: "eq k k' \<Longrightarrow> absent key eq k M \<longleftrightarrow> absent key eq k' M"
  unfolding absent_def using eq_trans eq_sym by metis

text \<open>Buckets with equal keys are the same bucket.\<close>

lemma apart_slots:
  assumes a: "keys_apart key eq (mset (contents bs))" and "0 < length bs"
    and x: "psl_at bs x \<noteq> 0" "eq (key (the (data_at bs x))) k" and y: "psl_at bs y \<noteq> 0" "eq (key (the (data_at bs y))) k"
  shows "x mod length bs = y mod length bs"
proof (rule ccontr)
  assume ne: "x mod length bs \<noteq> y mod length bs"
  let ?x = "x mod length bs" and ?y = "y mod length bs"
  let ?cs = "bs[?x := empty_bucket]"
  have l: "?x < length bs" "?y < length bs" using assms(2) by simp_all
  have "mset (contents ?cs) + held (bs ! ?x) = mset (contents bs)"
    using contents_update [OF l(1), of empty_bucket] by (simp add: held_def empty_bucket_def)
  then have 1: "mset (contents bs) = add_mset (the (data_at bs x)) (mset (contents ?cs))"
    using x(1) by (simp add: held_def psl_at_def data_at_def)
  have "psl_at ?cs y \<noteq> 0" "data_at ?cs y = data_at bs y"
    using ne y(1) assms(2) psl_update [of bs x empty_bucket y] data_update [of bs x empty_bucket y] by simp_all
  then have "the (data_at bs y) \<in># mset (contents ?cs)" using at_contents [of ?cs y] assms(2) by simp
  moreover have "absent key eq (key (the (data_at bs x))) (mset (contents ?cs))" using a unfolding 1 keys_apart_add by simp
  ultimately have "\<not> eq (key (the (data_at bs y))) (key (the (data_at bs x)))" by (simp add: absent_def)
  with x(2) y(2) eq_trans eq_sym show False by blast
qed

end

subsection \<open>Putting an entry into a bucket\<close>

lemma place_ok:
  assumes ok: "rh_ok key hash bs" and p: "p \<le> Suc (psl_at bs r)" "psl_at bs (Suc r) \<le> p" "0 < p"
    and h: "(hash (key d) + p) mod length bs = Suc (Suc r) mod length bs"
  shows "rh_ok key hash (bs[Suc r mod length bs := \<lparr>bk_data = Some d, bk_psl = p\<rparr>])" (is "rh_ok key hash ?bs")
proof -
  from ok obtain k where k: "length bs = 2 ^ k" "length bs < 2 ^ 64" "0 < length bs"
    and step: "\<And>x. psl_at bs (Suc x) \<le> Suc (psl_at bs x)"
    and dist: "\<And>x. psl_at bs x \<noteq> 0 \<Longrightarrow>
      \<exists>d. data_at bs x = Some d \<and> (hash (key d) + psl_at bs x) mod length bs = Suc x mod length bs" by (rule rh_okD) blast
  note upd = psl_update [OF k(3), of "Suc r"] data_update [OF k(3), of "Suc r"]
  have ge: "psl_at bs x \<le> psl_at ?bs x" for x using p(2) psl_at_cong [of x bs "Suc r"] by (simp add: upd)
  have "psl_at ?bs (Suc x) \<le> Suc (psl_at ?bs x)" for x
  proof (cases "Suc x mod length bs = Suc r mod length bs")
    case True
    then have "psl_at bs x = psl_at bs r" by (intro psl_at_cong) (simp add: Suc_mod_cong)
    with True p(1) ge [of x] show ?thesis by (simp add: upd)
  next
    case False
    with step [of x] ge [of x] show ?thesis by (simp add: upd)
  qed
  moreover have "\<exists>e. data_at ?bs x = Some e \<and> (hash (key e) + psl_at ?bs x) mod length bs = Suc x mod length bs"
    if "psl_at ?bs x \<noteq> 0" for x
  proof (cases "x mod length bs = Suc r mod length bs")
    case True
    then have "Suc x mod length bs = Suc (Suc r) mod length bs" by (simp add: Suc_mod_cong)
    with True h show ?thesis by (simp add: upd)
  next
    case False
    with that dist [of x] show ?thesis by (simp add: upd)
  qed
  ultimately show ?thesis using k by (auto simp: rh_ok_def)
qed

lemma place_contents:
  assumes "0 < length bs"
  shows "mset (contents (bs[s mod length bs := \<lparr>bk_data = Some d, bk_psl = p\<rparr>])) + held (bs ! (s mod length bs)) =
    mset (contents bs) + (if p = 0 then {#} else {#d#})"
  using contents_update [of "s mod length bs" bs "\<lparr>bk_data = Some d, bk_psl = p\<rparr>"] assms by (simp add: held_def)

subsection \<open>The insertion loop\<close>

text \<open>
  What an insertion of a new key does: \<open>rh_inserted key hash bs mx d K r\<close>. No psl shrinks, the new
  ones are at most \<open>Suc K\<close>, and \<open>mx\<close> follows the largest.
\<close>

definition rh_inserted ::
  "('d \<Rightarrow> 'k) \<Rightarrow> ('k \<Rightarrow> nat) \<Rightarrow> 'd bucket_t list \<Rightarrow> nat \<Rightarrow> 'd \<Rightarrow> nat \<Rightarrow> (size_t option \<times> 'd bucket_t list \<times> nat \<times> 'd) option \<Rightarrow> bool" where
  "rh_inserted key hash bs mx d K r \<longleftrightarrow>
     (\<exists>bs' mx' d'. r = Some (None, bs', mx', d') \<and> length bs' = length bs \<and> rh_ok key hash bs' \<and>
        mset (contents bs') = add_mset d (mset (contents bs)) \<and>
        (\<forall>x. psl_at bs x \<le> psl_at bs' x \<and> psl_at bs' x \<le> max (psl_at bs x) (min mx' (Suc K))) \<and>
        mx \<le> mx' \<and> (mx' = mx \<or> (\<exists>x. mx' = psl_at bs' x)))"

text \<open>After a swap the incoming entry is another one; what its insertion does is what the first one does.\<close>

lemma rh_inserted_swap:
  assumes r: "rh_inserted key hash bs1 mx1 c K r" and p: "0 < p" "p \<le> Suc K" "psl_at bs s < p" and q: "psl_at bs s \<noteq> 0"
    and bs1: "bs1 = bs[s mod length bs := \<lparr>bk_data = Some d, bk_psl = p\<rparr>]" and mx1: "mx1 = (if p > mx then p else mx)"
    and c: "data_at bs s = Some c" and len: "0 < length bs"
  shows "rh_inserted key hash bs mx d K r"
proof -
  obtain bs' mx' d' where i: "r = Some (None, bs', mx', d')" "length bs' = length bs1" "rh_ok key hash bs'"
    "mset (contents bs') = add_mset c (mset (contents bs1))"
    "\<And>x. psl_at bs1 x \<le> psl_at bs' x" "\<And>x. psl_at bs' x \<le> max (psl_at bs1 x) (min mx' (Suc K))"
    "mx1 \<le> mx'" "mx' = mx1 \<or> (\<exists>x. mx' = psl_at bs' x)" using r unfolding rh_inserted_def by blast
  have upd: "psl_at bs1 x = (if x mod length bs = s mod length bs then p else psl_at bs x)" for x
    unfolding bs1 using psl_update [OF len, of s] by simp
  have same: "psl_at bs x = psl_at bs s" if "x mod length bs = s mod length bs" for x using that by (rule psl_at_cong)
  have "mset (contents bs') = add_mset d (mset (contents bs))"
    using place_contents [OF len, of s d p] q c p(1) unfolding i(4) bs1
    by (simp add: held_def psl_at_def data_at_def)
  moreover have "psl_at bs x \<le> psl_at bs' x \<and> psl_at bs' x \<le> max (psl_at bs x) (min mx' (Suc K))" for x
    using i(5,6) [of x] upd [of x] same [of x] p i(7) mx1 by (auto split: if_splits)
  moreover have "mx' = mx \<or> (\<exists>x. mx' = psl_at bs' x)"
  proof (cases "mx' = mx")
    case False
    show ?thesis
    proof (cases "mx' = mx1")
      case True
      with False mx1 have "mx' = p" by (auto split: if_splits)
      moreover have "psl_at bs' s = p" using i(5,6) [of s] upd [of s] \<open>mx' = p\<close> by simp
      ultimately show ?thesis by blast
    qed (use i(8) in blast)
  qed simp
  moreover have "mx \<le> mx'" using i(7) mx1 by (simp split: if_splits)
  ultimately show ?thesis unfolding rh_inserted_def using i(1-3) bs1 by (intro exI [of _ bs'] exI [of _ mx'] exI [of _ d']) simp
qed

lemma rh_inserted_here:
  assumes ok: "rh_ok key hash bs" and p: "0 < p" "p \<le> Suc (psl_at bs r)" "p \<le> Suc K"
    and h: "(hash (key d) + p) mod length bs = Suc (Suc r) mod length bs" and e: "psl_at bs (Suc r) = 0"
  shows "rh_inserted key hash bs mx d K
    (Some (None, bs[Suc r mod length bs := \<lparr>bk_data = Some d, bk_psl = p\<rparr>], if p > mx then p else mx, d))"
proof -
  let ?bs = "bs[Suc r mod length bs := \<lparr>bk_data = Some d, bk_psl = p\<rparr>]"
  have len: "0 < length bs" using ok by (rule rh_okD)
  have "mset (contents ?bs) = add_mset d (mset (contents bs))"
    using place_contents [OF len, of "Suc r" d p] e p(1) by (simp add: held_def psl_at_def)
  moreover have upd: "psl_at ?bs x = (if x mod length bs = Suc r mod length bs then p else psl_at bs x)" for x
    using psl_update [OF len, of "Suc r"] by simp
  then have "psl_at bs x \<le> psl_at ?bs x" for x using psl_at_cong [of x bs "Suc r"] e by simp
  moreover have "psl_at ?bs x \<le> max (psl_at bs x) (min (if p > mx then p else mx) (Suc K))" for x
    using upd [of x] p(3) by auto
  moreover have "p = psl_at ?bs (Suc r)" using upd [of "Suc r"] by simp
  ultimately show ?thesis
    unfolding rh_inserted_def using place_ok [OF ok p(2) _ p(1) h] e
    by (intro exI [of _ ?bs] exI [of _ "if p > mx then p else mx"] exI [of _ d]) auto
qed

context key_hash begin

lemma insert_absent:
  assumes "rh_ok key hash bs" and "keys_apart key eq (mset (contents bs))" "absent key eq (key d) (mset (contents bs))"
    and "n < length bs" "psl_at bs (Suc r + n) = 0"
    and "0 < p" "p \<le> Suc (psl_at bs r)" "p \<le> Suc K" and "(hash (key d) + p) mod length bs = Suc (Suc r) mod length bs"
    and "\<And>i. i \<le> n \<Longrightarrow> psl_at bs (Suc r + i) \<le> K" and "K < 255"
  shows "rh_inserted key hash bs mx d K (rh_insert_loop key eq (length bs) bs mx (Suc r mod length bs) d p)"
  using assms
proof (induction n arbitrary: bs r mx d p)
  case 0
  then have "0 < length bs" by simp
  then have s: "Suc r mod length bs < length bs" by (rule mod_less_divisor)
  have e: "psl_at bs (Suc r) = 0" using "0.prems"(5) by simp
  have "rh_insert_loop key eq (length bs) bs mx (Suc r mod length bs) d p =
      Some (None, bs[Suc r mod length bs := \<lparr>bk_data = Some d, bk_psl = p\<rparr>], if p > mx then p else mx, d)"
    using s e by (simp add: rh_insert_loop.simps psl_at_def)
  with rh_inserted_here [OF "0.prems"(1,6-9) e] show ?case by simp
next
  case (Suc n)
  note ok = Suc.prems(1)
  let ?c = "length bs" and ?s = "Suc r mod length bs" and ?q = "psl_at bs (Suc r)"
  from ok obtain k where k: "?c = 2 ^ k" "?c < 2 ^ 64" "0 < ?c"
    and step: "\<And>x. psl_at bs (Suc x) \<le> Suc (psl_at bs x)"
    and dist: "\<And>x. psl_at bs x \<noteq> 0 \<Longrightarrow>
      \<exists>d. data_at bs x = Some d \<and> (hash (key d) + psl_at bs x) mod length bs = Suc x mod length bs" by (rule rh_okD) blast
  have s: "?s < ?c" using k(3) by (rule mod_less_divisor)
  have nx: "next_slot ?c ?s = Suc (Suc r) mod ?c" by (rule next_slot_is [OF k(1,2)])
  show ?case
  proof (cases "?q = 0")
    case True
    then have "rh_insert_loop key eq ?c bs mx ?s d p =
        Some (None, bs[?s := \<lparr>bk_data = Some d, bk_psl = p\<rparr>], if p > mx then p else mx, d)"
      using s by (simp add: rh_insert_loop.simps psl_at_def)
    with rh_inserted_here [OF ok Suc.prems(6-9) True] show ?thesis by simp
  next
    case False
    obtain c where c: "data_at bs (Suc r) = Some c" "(hash (key c) + ?q) mod ?c = Suc (Suc r) mod ?c"
      using dist [OF False] by blast
    have "c \<in># mset (contents bs)" using at_contents [OF False k(3)] c(1) by simp
    then have ne: "\<not> eq (key c) (key d)" using Suc.prems(3) by (auto simp: absent_def)
    have q: "?q \<le> K" using Suc.prems(10) [of 0] by simp
    have more: "n < ?c" "psl_at bs (Suc (Suc r) + n) = 0" "\<And>i. i \<le> n \<Longrightarrow> psl_at bs (Suc (Suc r) + i) \<le> K"
      using Suc.prems(4,5) Suc.prems(10) [of "Suc _"] by simp_all
    show ?thesis
    proof (cases "?q < p")
      case False
      have "uint8_inc p = Suc p" using False q Suc.prems(11) by (simp add: uint8_inc_def)
      then have "rh_insert_loop key eq ?c bs mx ?s d p = rh_insert_loop key eq ?c bs mx (Suc (Suc r) mod ?c) d (Suc p)"
        using s \<open>?q \<noteq> 0\<close> c(1) ne False nx
        by (subst rh_insert_loop.simps) (simp add: psl_at_def data_at_def)
      moreover have "(hash (key d) + Suc p) mod ?c = Suc (Suc (Suc r)) mod ?c" using Suc.prems(9) by (simp add: Suc_mod_cong)
      with False q have "rh_inserted key hash bs mx d K (rh_insert_loop key eq ?c bs mx (Suc (Suc r) mod ?c) d (Suc p))"
        by (intro Suc.IH [OF ok Suc.prems(2,3) more(1,2) _ _ _ _ more(3) Suc.prems(11)]) simp_all
      ultimately show ?thesis by simp
    next
      case True
      let ?bs = "bs[?s := \<lparr>bk_data = Some d, bk_psl = p\<rparr>]" and ?mx = "if p > mx then p else mx"
      have "uint8_inc ?q = Suc ?q" using q Suc.prems(11) by (simp add: uint8_inc_def)
      then have run: "rh_insert_loop key eq ?c bs mx ?s d p =
          rh_insert_loop key eq (length ?bs) ?bs ?mx (Suc (Suc r) mod length ?bs) c (Suc ?q)"
        using s \<open>?q \<noteq> 0\<close> c(1) ne True nx
        by (subst rh_insert_loop.simps) (simp add: psl_at_def data_at_def)
      have upd: "psl_at ?bs x = (if x mod ?c = ?s then p else psl_at bs x)" for x
        using psl_update [OF k(3), of "Suc r"] by simp
      have m: "add_mset c (mset (contents ?bs)) = add_mset d (mset (contents bs))"
        using place_contents [OF k(3), of "Suc r" d p] \<open>?q \<noteq> 0\<close> c(1) Suc.prems(6)
        by (simp add: held_def psl_at_def data_at_def)
      have "keys_apart key eq (add_mset c (mset (contents ?bs)))"
        unfolding m keys_apart_add using Suc.prems(2,3) by blast
      then have a: "keys_apart key eq (mset (contents ?bs))" "absent key eq (key c) (mset (contents ?bs))"
        by (simp_all add: keys_apart_add)
      have far: "(Suc (Suc r) + i) mod ?c \<noteq> ?s" if "i \<le> n" for i
        using near_slots [of "Suc i" ?c "Suc r"] that Suc.prems(4) by simp
      have "rh_inserted key hash ?bs ?mx c K
          (rh_insert_loop key eq (length ?bs) ?bs ?mx (Suc (Suc r) mod length ?bs) c (Suc ?q))"
      proof (rule Suc.IH [OF place_ok a])
        show "psl_at bs (Suc r) \<le> p" using True by simp
        show "psl_at ?bs (Suc (Suc r) + n) = 0" using far [of n] more(2) by (simp add: upd)
        show "Suc ?q \<le> Suc (psl_at ?bs (Suc r))" using True by (simp add: upd)
        show "psl_at ?bs (Suc (Suc r) + i) \<le> K" if "i \<le> n" for i using far [OF that] more(3) [OF that] by (simp add: upd)
        show "(hash (key c) + Suc ?q) mod length ?bs = Suc (Suc (Suc r)) mod length ?bs" using c(2) by (simp add: Suc_mod_cong)
      qed (use Suc.prems ok q more(1) in simp_all)
      then show ?thesis unfolding run
        by (rule rh_inserted_swap [where s = "Suc r", OF _ Suc.prems(6,8) True \<open>?q \<noteq> 0\<close> refl refl c(1) k(3)])
    qed
  qed
qed

end

end
