(* ===== verification/Seqc_Robin_Find.thy ===== *)
theory Seqc_Robin_Find
  imports Seqc_Robin_Insert
begin

section \<open>Lookups, and how long a probe can get\<close>

text \<open>
  The probe loop of lookups finds an equal key if there is one and ends otherwise; an insertion
  over an equal key replaces its entry; moving the entries of a table into one twice as large makes
  no probe-sequence length grow.
\<close>

context key_hash begin

text \<open>An absent key is not found, whatever the probe counter.\<close>

lemma find_absent:
  assumes "rh_ok key hash bs" and "absent key eq k (mset (contents bs))" and "psl_at bs (s + n) = 0"
  shows "rh_find_loop key eq (length bs) bs k (s mod length bs) probe = Some None"
  using assms(3)
proof (induction n arbitrary: s probe)
  case 0
  have "0 < length bs" using assms(1) by (rule rh_okD)
  then have "s mod length bs < length bs" by (rule mod_less_divisor)
  with 0 show ?case by (simp add: rh_find_loop.simps psl_at_def)
next
  case (Suc n)
  from assms(1) obtain m where m: "length bs = 2 ^ m" "length bs < 2 ^ 64" "0 < length bs"
    and dist: "\<And>x. psl_at bs x \<noteq> 0 \<Longrightarrow>
      \<exists>d. data_at bs x = Some d \<and> (hash (key d) + psl_at bs x) mod length bs = Suc x mod length bs" by (rule rh_okD) blast
  have s: "s mod length bs < length bs" using m(3) by (rule mod_less_divisor)
  show ?case
  proof (cases "psl_at bs s = 0 \<or> psl_at bs s < probe")
    case True
    with s show ?thesis by (simp add: rh_find_loop.simps psl_at_def)
  next
    case False
    then obtain c where c: "data_at bs s = Some c" using dist [of s] by blast
    then have "c \<in># mset (contents bs)" using at_contents [of bs s] False m(3) by simp
    then have "\<not> eq (key c) k" using assms(2) by (auto simp: absent_def)
    then have "rh_find_loop key eq (length bs) bs k (s mod length bs) probe =
        rh_find_loop key eq (length bs) bs k (Suc s mod length bs) (uint8_inc probe)"
      using s False c next_slot_is [OF m(1,2), of s]
      by (subst rh_find_loop.simps) (simp add: psl_at_def data_at_def)
    with Suc show ?thesis by simp
  qed
qed

text \<open>
  On the way from its home slot to the bucket \<open>i\<close> of an equal key, with psl \<open>q\<close>, a probe passes
  buckets whose psl is at least the probe counter.
\<close>

lemma probe_path:
  assumes "rh_ok key hash bs" and "psl_at bs i = q" and "x + q = i + p" and "p \<le> q"
  shows "p \<le> psl_at bs x"
proof -
  from assms(1) have step: "\<And>x. psl_at bs (Suc x) \<le> Suc (psl_at bs x)" by (rule rh_okD) blast
  have "psl_at bs (x + (q - p)) \<le> psl_at bs x + (q - p)" by (rule psl_chain [OF step])
  moreover have "x + (q - p) = i" using assms(3,4) by simp
  ultimately show ?thesis using assms(2,4) by simp
qed

lemma find_present:
  assumes ok: "rh_ok key hash bs" and a: "keys_apart key eq (mset (contents bs))"
    and i: "psl_at bs i = q" "eq (key (the (data_at bs i))) k" and q: "q < 256"
    and "x + q = i + p" "0 < p" "p \<le> q"
  shows "rh_find_loop key eq (length bs) bs k (x mod length bs) p = Some (Some (i mod length bs))"
  using assms(6-8)
proof (induction "q - p" arbitrary: x p)
  case (0 p x)
  have len: "0 < length bs" using ok by (rule rh_okD)
  then have s: "x mod length bs < length bs" by (rule mod_less_divisor)
  have x: "x = i" "p = q" using 0 by simp_all
  then have "psl_at bs i \<noteq> 0" using 0 i(1) by simp
  then obtain c where "data_at bs i = Some c" using ok unfolding rh_ok_def by blast
  with s x i \<open>psl_at bs i \<noteq> 0\<close> show ?case
    by (subst rh_find_loop.simps) (simp add: psl_at_def data_at_def)
next
  case (Suc n p x)
  from ok obtain m where m: "length bs = 2 ^ m" "length bs < 2 ^ 64" "0 < length bs" by (rule rh_okD) blast
  have s: "x mod length bs < length bs" using m(3) by (rule mod_less_divisor)
  have ge: "p \<le> psl_at bs x" by (rule probe_path [OF ok i(1) Suc.prems(1,3)])
  have "psl_at bs x \<noteq> 0" using ge Suc.prems(2) by simp
  then obtain c where c: "data_at bs x = Some c" using ok unfolding rh_ok_def by blast
  show ?case
  proof (cases "eq (key c) k")
    case True
    have "psl_at bs i \<noteq> 0" using i(1) Suc.prems by simp
    then have "x mod length bs = i mod length bs"
      using apart_slots [OF a m(3) \<open>psl_at bs x \<noteq> 0\<close> _ _ i(2)] True c by simp
    with s ge Suc.prems(2) c True show ?thesis
      by (subst rh_find_loop.simps) (simp add: psl_at_def data_at_def)
  next
    case False
    have "uint8_inc p = Suc p" using Suc.prems(3) Suc(2) q by (simp add: uint8_inc_def)
    then have "rh_find_loop key eq (length bs) bs k (x mod length bs) p =
        rh_find_loop key eq (length bs) bs k (Suc x mod length bs) (Suc p)"
      using s ge Suc.prems(2) c False next_slot_is [OF m(1,2), of x]
      by (subst rh_find_loop.simps) (simp add: psl_at_def data_at_def)
    also have "\<dots> = Some (Some (i mod length bs))"
      by (rule Suc.hyps(1)) (use Suc.prems Suc.hyps(2) in simp_all)
    finally show ?thesis .
  qed
qed

text \<open>An insertion of a key that is there finds it in the same way, before it has swapped anything.\<close>

lemma insert_present:
  assumes ok: "rh_ok key hash bs" and a: "keys_apart key eq (mset (contents bs))"
    and i: "psl_at bs i = q" "eq (key (the (data_at bs i))) (key d)" and q: "q < 256"
    and "x + q = i + p" "0 < p" "p \<le> q"
  shows "rh_insert_loop key eq (length bs) bs mx (x mod length bs) d p = Some (Some (i mod length bs), bs, mx, d)"
  using assms(6-8)
proof (induction "q - p" arbitrary: x p)
  case (0 p x)
  have len: "0 < length bs" using ok by (rule rh_okD)
  then have s: "x mod length bs < length bs" by (rule mod_less_divisor)
  have x: "x = i" "p = q" using 0 by simp_all
  then have "psl_at bs i \<noteq> 0" using 0 i(1) by simp
  then obtain c where "data_at bs i = Some c" using ok unfolding rh_ok_def by blast
  with s x i \<open>psl_at bs i \<noteq> 0\<close> show ?case
    by (subst rh_insert_loop.simps) (simp add: psl_at_def data_at_def)
next
  case (Suc n p x)
  from ok obtain m where m: "length bs = 2 ^ m" "length bs < 2 ^ 64" "0 < length bs" by (rule rh_okD) blast
  have s: "x mod length bs < length bs" using m(3) by (rule mod_less_divisor)
  have ge: "p \<le> psl_at bs x" by (rule probe_path [OF ok i(1) Suc.prems(1,3)])
  have "psl_at bs x \<noteq> 0" using ge Suc.prems(2) by simp
  then obtain c where c: "data_at bs x = Some c" using ok unfolding rh_ok_def by blast
  show ?case
  proof (cases "eq (key c) (key d)")
    case True
    have "psl_at bs i \<noteq> 0" using i(1) Suc.prems by simp
    then have "x mod length bs = i mod length bs"
      using apart_slots [OF a m(3) \<open>psl_at bs x \<noteq> 0\<close> _ _ i(2)] True c by simp
    with s \<open>psl_at bs x \<noteq> 0\<close> c True show ?thesis
      by (subst rh_insert_loop.simps) (simp add: psl_at_def data_at_def)
  next
    case False
    have "uint8_inc p = Suc p" using Suc.prems(3) Suc(2) q by (simp add: uint8_inc_def)
    then have "rh_insert_loop key eq (length bs) bs mx (x mod length bs) d p =
        rh_insert_loop key eq (length bs) bs mx (Suc x mod length bs) d (Suc p)"
      using s \<open>psl_at bs x \<noteq> 0\<close> ge c False next_slot_is [OF m(1,2), of x]
      by (subst rh_insert_loop.simps) (simp add: psl_at_def data_at_def)
    also have "\<dots> = Some (Some (i mod length bs), bs, mx, d)"
      by (rule Suc.hyps(1)) (use Suc.prems Suc.hyps(2) in simp_all)
    finally show ?thesis .
  qed
qed

subsection \<open>A larger table has no longer probes\<close>

text \<open>
  When the entries of one table are put into another of twice the size, no psl there exceeds the
  largest of the first: the run of buckets that ends with an entry is full of entries whose home
  slots lie between the start of the run and its own home, and in the first table all of these
  found room within that stretch and its longest probe.
\<close>

lemma one_turn:
  fixes u v :: nat
  assumes "u mod c = v mod c" and "u < v + c" and "v < u + c"
  shows "u = v"
proof (cases u v rule: linorder_cases)
  case less
  then have "0 < v - u" "v - u < c" "u + (v - u) = v" using assms(3) by linarith+
  with near_slots [of "v - u" c u] assms(1) show ?thesis by simp
next
  case greater
  then have "0 < u - v" "u - v < c" "v + (u - v) = u" using assms(2) by linarith+
  with near_slots [of "u - v" c v] assms(1) show ?thesis by simp
qed

lemma run_start:
  assumes "psl_at bs e = 0" and "e < x" and "psl_at bs x \<noteq> 0"
  obtains s where "e \<le> s" "s < x" "psl_at bs s = 0" "\<And>y. s < y \<Longrightarrow> y \<le> x \<Longrightarrow> psl_at bs y \<noteq> 0"
proof -
  let ?P = "\<lambda>s. s < x \<and> psl_at bs s = 0"
  have P: "?P (GREATEST s. ?P s)" "e \<le> (GREATEST s. ?P s)"
    using assms(1,2) by (intro GreatestI_nat [of ?P e x] Greatest_le_nat [of ?P e x]; simp)+
  have "psl_at bs y \<noteq> 0" if "(GREATEST s. ?P s) < y" "y \<le> x" for y
  proof
    assume "psl_at bs y = 0"
    with assms(3) that(2) have "y < x" by (cases "y = x") simp_all
    with \<open>psl_at bs y = 0\<close> have "y \<le> (GREATEST s. ?P s)" by (intro Greatest_le_nat [of ?P y x]) simp_all
    with that(1) show False by simp
  qed
  with P that show ?thesis by blast
qed

text \<open>A probe passes only full buckets: no psl exceeds the number of entries.\<close>

lemma psl_le_contents:
  assumes "rh_ok key hash bs" and "length (contents bs) < length bs"
  shows "psl_at bs x \<le> length (contents bs)"
proof (cases "psl_at bs x = 0")
  case False
  let ?z = "x mod length bs + 2 * length bs"
  have b: "0 < length bs" using assms(1) by (rule rh_okD)
  have z: "psl_at bs ?z = psl_at bs x" by (rule psl_at_cong) simp
  obtain n where n: "n < length bs" "psl_at bs (?z - length bs + n) = 0" using empty_ahead [OF assms(2)] by blast
  have "?z - length bs + n < ?z" "psl_at bs ?z \<noteq> 0" using n(1) False z by simp_all
  with n(2) obtain s where s: "?z - length bs + n \<le> s" "s < ?z" "psl_at bs s = 0" "\<And>y. s < y \<Longrightarrow> y \<le> ?z \<Longrightarrow> psl_at bs y \<noteq> 0"
    by (rule run_start) blast
  from assms(1) have step: "\<And>y. psl_at bs (Suc y) \<le> Suc (psl_at bs y)" by (rule rh_okD) blast
  have "psl_at bs ?z \<le> psl_at bs s + (?z - s)" using s(2) by (intro psl_between [OF step]) linarith
  moreover have "?z - s \<le> length (contents bs)"
  proof -
    have inj: "inj_on (\<lambda>y. y mod length bs) {s<..?z}"
    proof (rule inj_onI)
      fix y y' assume y: "y \<in> {s<..?z}" "y' \<in> {s<..?z}" "y mod length bs = y' mod length bs"
      then have "y < y' + length bs" "y' < y + length bs" using s(1) by auto
      with y(3) show "y = y'" by (rule one_turn)
    qed
    have "(\<lambda>y. y mod length bs) ` {s<..?z} \<subseteq> {i. i < length bs \<and> bk_psl (bs ! i) \<noteq> 0}"
      using s(4) b by (auto simp: psl_at_def)
    then have "card ((\<lambda>y. y mod length bs) ` {s<..?z}) \<le> card {i. i < length bs \<and> bk_psl (bs ! i) \<noteq> 0}"
      by (intro card_mono) simp_all
    then show ?thesis unfolding card_image [OF inj] by (simp add: contents_def length_filter_conv_card)
  qed
  ultimately show ?thesis using s(3) z by simp
qed simp

lemma psl_no_longer:
  assumes A: "rh_ok key hash as" "\<And>x. psl_at as x \<le> K"
    and B: "rh_ok key hash bs" "keys_apart key eq (mset (contents bs))" "length bs = 2 * length as"
      "length (contents bs) < length bs" "set (contents bs) \<subseteq> set (contents as)"
  shows "psl_at bs x \<le> K"
proof (cases "psl_at bs x = 0")
  case False
  let ?c = "length as" and ?z = "x mod length bs + 2 * length bs"
  have c: "0 < ?c" using A(1) by (rule rh_okD)
  have b: "0 < length bs" using B(3) c by simp
  have z: "psl_at bs ?z = psl_at bs x" by (rule psl_at_cong) simp
  obtain n where n: "n < length bs" "psl_at bs (?z - length bs + n) = 0" using empty_ahead [OF B(4)] by blast
  have "?z - length bs + n < ?z" "psl_at bs ?z \<noteq> 0" using n(1) False z by simp_all
  with n(2) obtain s where s: "?z - length bs + n \<le> s" "s < ?z" "psl_at bs s = 0" "\<And>y. s < y \<Longrightarrow> y \<le> ?z \<Longrightarrow> psl_at bs y \<noteq> 0"
    by (rule run_start) blast
  from B(1) have step: "\<And>y. psl_at bs (Suc y) \<le> Suc (psl_at bs y)" by (rule rh_okD) blast
  text \<open>The home slots of the run lie in \<open>{s<..h}\<close>.\<close>
  let ?home = "\<lambda>y. Suc y - psl_at bs y" and ?h = "Suc ?z - psl_at bs ?z" and ?D = "\<lambda>y. the (data_at bs y)"
  have home: "s < ?home y" "?home y \<le> ?h" if "s < y" "y \<le> ?z" for y
  proof -
    have "psl_at bs y \<le> psl_at bs s + (y - s)" using that by (intro psl_between [OF step]) linarith
    with that s(3) show "s < ?home y" by linarith
    have "psl_at bs ?z \<le> psl_at bs y + (?z - y)" using that by (intro psl_between [OF step]) linarith
    with that show "?home y \<le> ?h" by linarith
  qed
  text \<open>Where the entries of the run are in the first table.\<close>
  have "\<exists>a. psl_at as a \<noteq> 0 \<and> the (data_at as a) = ?D y \<and> a < ?c" if "s < y" "y \<le> ?z" for y
  proof -
    have "?D y \<in> set (contents as)" using at_contents [OF s(4) [OF that] b] B(5) by blast
    then show ?thesis by (rule contents_at) blast
  qed
  then obtain at where at: "\<And>y. s < y \<Longrightarrow> y \<le> ?z \<Longrightarrow> psl_at as (at y) \<noteq> 0 \<and> the (data_at as (at y)) = ?D y \<and> at y < ?c"
    by metis
  have inj: "inj_on at {s<..?z}"
  proof (rule inj_onI)
    fix y y' assume y: "y \<in> {s<..?z}" "y' \<in> {s<..?z}" "at y = at y'"
    then have "?D y = ?D y'" using at [of y] at [of y'] by simp
    with apart_slots [OF B(2) b, of y "key (?D y)" y'] s(4) y have m: "y mod length bs = y' mod length bs" by simp
    have "y < y' + length bs" "y' < y + length bs" using y(1,2) s(1) by auto
    with m show "y = y'" by (rule one_turn)
  qed
  have "at ` {s<..?z} \<subseteq> (\<lambda>v. v mod ?c) ` {s<..?h + K - 1}"
  proof
    fix a assume "a \<in> at ` {s<..?z}"
    then obtain y where y: "s < y" "y \<le> ?z" "a = at y" by auto
    note ay = at [OF y(1,2), folded y(3)]
    from A(1) ay obtain d where d: "data_at as a = Some d" "(hash (key d) + psl_at as a) mod ?c = Suc a mod ?c"
      unfolding rh_ok_def by blast
    from B(1) s(4) [OF y(1,2)] obtain e where e: "data_at bs y = Some e" "(hash (key e) + psl_at bs y) mod length bs = Suc y mod length bs"
      unfolding rh_ok_def by blast
    have "d = e" using ay d(1) e(1) by simp
    have le: "psl_at bs y \<le> Suc y" using home [OF y(1,2)] by simp
    have "(hash (key e) + psl_at bs y) mod ?c = (?home y + psl_at bs y) mod ?c"
      using arg_cong [OF e(2), of "\<lambda>v. v mod ?c"] le by (simp add: B(3) mod_mod_cancel)
    then have "hash (key e) mod ?c = ?home y mod ?c" by (simp only: add_mod_cancel)
    then have "(?home y + psl_at as a) mod ?c = Suc a mod ?c" using d(2) \<open>d = e\<close> by (metis mod_add_left_eq)
    moreover have "?home y + psl_at as a = Suc (?home y + psl_at as a - 1)" using ay by simp
    ultimately have "(?home y + psl_at as a - 1) mod ?c = a mod ?c" by (metis Suc_mod_cong)
    moreover have "0 < psl_at as a" using ay by simp
    with home [OF y(1,2)] A(2) [of a] have "?home y + psl_at as a - 1 \<in> {s<..?h + K - 1}" unfolding greaterThanAtMost_iff by linarith
    moreover have "a mod ?c = a" using ay by simp
    ultimately show "a \<in> (\<lambda>v. v mod ?c) ` {s<..?h + K - 1}" by (metis imageI)
  qed
  then have "card {s<..?z} \<le> card ((\<lambda>v. v mod ?c) ` {s<..?h + K - 1})"
    using card_mono [OF finite_imageI [OF finite_greaterThanAtMost]] card_image [OF inj] by metis
  also have "\<dots> \<le> card {s<..?h + K - 1}" by (rule card_image_le) simp
  finally have "?z - s \<le> ?h + K - 1 - s" by simp
  with s(2) home [of ?z] show ?thesis using z by simp
qed simp

end

end
