(* ===== verification/Seqc_Robin_Remove.thy ===== *)
theory Seqc_Robin_Remove
  imports Seqc_Robin_Insert
begin

section \<open>Backward-shift deletion\<close>

text \<open>
  A bucket that is freed leaves a hole. As long as the next bucket is away from its home slot,
  its entry moves back into the hole, with a psl one smaller, and leaves the next hole.
  \<open>hole_ok\<close> is the invariant of a table with a hole at \<open>Suc r\<close>: the psl after the hole may exceed
  the one before it by two.
\<close>

definition hole_ok :: "('d \<Rightarrow> 'k) \<Rightarrow> ('k \<Rightarrow> nat) \<Rightarrow> 'd bucket_t list \<Rightarrow> nat \<Rightarrow> bool" where
  "hole_ok key hash bs r \<longleftrightarrow> (\<exists>k. length bs = 2 ^ k) \<and> length bs < 2 ^ 64 \<and> psl_at bs (Suc r) = 0 \<and>
     (\<forall>x. x mod length bs \<noteq> Suc r mod length bs \<longrightarrow> psl_at bs (Suc x) \<le> Suc (psl_at bs x)) \<and>
     psl_at bs (Suc (Suc r)) \<le> Suc (Suc (psl_at bs r)) \<and>
     (\<forall>x. psl_at bs x \<noteq> 0 \<longrightarrow>
        (\<exists>d. data_at bs x = Some d \<and> (hash (key d) + psl_at bs x) mod length bs = Suc x mod length bs))"

abbreviation psl_sum :: "'d bucket_t list \<Rightarrow> nat" where
  "psl_sum bs \<equiv> sum_list (map bk_psl bs)"

lemma psl_sum_update: "i < length bs \<Longrightarrow> psl_sum (bs[i := b]) + bk_psl (bs ! i) = psl_sum bs + bk_psl b"
proof (induction bs arbitrary: i)
  case (Cons a bs)
  then show ?case by (cases i) simp_all
qed simp

lemma hole_okD:
  assumes "hole_ok key hash bs r"
  shows "\<exists>k. length bs = 2 ^ k" and "length bs < 2 ^ 64" and "0 < length bs" and "psl_at bs (Suc r) = 0"
    and "\<And>x. x mod length bs \<noteq> Suc r mod length bs \<Longrightarrow> psl_at bs (Suc x) \<le> Suc (psl_at bs x)"
    and "psl_at bs (Suc (Suc r)) \<le> Suc (Suc (psl_at bs r))"
    and "\<And>x. psl_at bs x \<noteq> 0 \<Longrightarrow>
        \<exists>d. data_at bs x = Some d \<and> (hash (key d) + psl_at bs x) mod length bs = Suc x mod length bs"
  using assms unfolding hole_ok_def by auto

lemma hole_start:
  assumes ok: "rh_ok key hash bs" and b: "bk_psl b = 0"
  shows "hole_ok key hash (bs[Suc r mod length bs := b]) r"
proof -
  from ok obtain k where k: "length bs = 2 ^ k" "length bs < 2 ^ 64" "0 < length bs"
    and step: "\<And>x. psl_at bs (Suc x) \<le> Suc (psl_at bs x)"
    and dist: "\<And>x. psl_at bs x \<noteq> 0 \<Longrightarrow>
      \<exists>d. data_at bs x = Some d \<and> (hash (key d) + psl_at bs x) mod length bs = Suc x mod length bs" by (rule rh_okD) blast
  let ?bs = "bs[Suc r mod length bs := b]"
  note upd = psl_update [OF k(3), of "Suc r" b] data_update [OF k(3), of "Suc r" b]
  have "psl_at ?bs (Suc x) \<le> Suc (psl_at ?bs x)" if "x mod length bs \<noteq> Suc r mod length bs" for x
    using that step [of x] b by (simp add: upd)
  moreover have "psl_at ?bs (Suc (Suc r)) \<le> Suc (Suc (psl_at ?bs r))"
  proof (cases "r mod length bs = Suc r mod length bs \<or> Suc (Suc r) mod length bs = Suc r mod length bs")
    case True
    then have "Suc (Suc r) mod length bs = Suc r mod length bs" by (metis Suc_mod_cong)
    with b show ?thesis by (simp add: upd)
  next
    case False
    with step [of r] step [of "Suc r"] show ?thesis by (simp add: upd)
  qed
  moreover have "\<exists>d. data_at ?bs x = Some d \<and> (hash (key d) + psl_at ?bs x) mod length bs = Suc x mod length bs"
    if "psl_at ?bs x \<noteq> 0" for x
    using that dist [of x] b by (simp add: upd split: if_splits)
  moreover have "psl_at ?bs (Suc r) = 0" using b by (simp add: upd)
  ultimately show ?thesis using k unfolding hole_ok_def length_list_update by blast
qed

lemma hole_done:
  assumes "hole_ok key hash bs r" and "psl_at bs (Suc (Suc r)) \<le> 1"
  shows "rh_ok key hash bs"
proof -
  note h = hole_okD [OF assms(1)]
  have "psl_at bs (Suc x) \<le> Suc (psl_at bs x)" for x
  proof (cases "x mod length bs = Suc r mod length bs")
    case True
    then have "psl_at bs (Suc x) = psl_at bs (Suc (Suc r))" by (intro psl_at_cong) (simp add: Suc_mod_cong)
    with assms(2) show ?thesis by simp
  qed (use h(5) in simp)
  with h show ?thesis by (auto simp: rh_ok_def)
qed

text \<open>One shift: \<open>b\<close> is what the next hole is left with.\<close>

lemma hole_step:
  assumes ok: "hole_ok key hash bs r" and q: "1 < psl_at bs (Suc (Suc r))" and b: "bk_psl b = 0"
    and e: "e = \<lparr>bk_data = data_at bs (Suc (Suc r)), bk_psl = psl_at bs (Suc (Suc r)) - 1\<rparr>"
    and bs': "bs' = bs[Suc r mod length bs := e, Suc (Suc r) mod length bs := b]"
  shows "hole_ok key hash bs' (Suc r)" and "mset (contents bs') = mset (contents bs)" and "psl_sum bs = Suc (psl_sum bs')"
    and "psl_at bs' x \<le> max (psl_at bs x) (psl_at bs (Suc x))"
proof -
  note h = hole_okD [OF ok]
  let ?c = "length bs" and ?q = "psl_at bs (Suc (Suc r))"
  have ne: "Suc (Suc r) mod ?c \<noteq> Suc r mod ?c" using psl_at_cong [of "Suc (Suc r)" bs "Suc r"] h(4) q by auto
  then have ne': "r mod ?c \<noteq> Suc r mod ?c" by (simp add: Suc_mod_cong)
  have len: "length bs' = ?c" by (simp add: bs')
  have psl: "psl_at bs' x = (if x mod ?c = Suc (Suc r) mod ?c then 0 else if x mod ?c = Suc r mod ?c then ?q - 1 else psl_at bs x)" for x
    unfolding bs' using psl_update [of "bs[Suc r mod ?c := e]" "Suc (Suc r)" b x] psl_update [of bs "Suc r" e x] h(3) b
    by (simp add: e)
  have data: "data_at bs' x = (if x mod ?c = Suc (Suc r) mod ?c then bk_data b
      else if x mod ?c = Suc r mod ?c then data_at bs (Suc (Suc r)) else data_at bs x)" for x
    unfolding bs' using data_update [of "bs[Suc r mod ?c := e]" "Suc (Suc r)" b x] data_update [of bs "Suc r" e x] h(3)
    by (simp add: e)
  have "psl_at bs' (Suc x) \<le> Suc (psl_at bs' x)" if x: "x mod ?c \<noteq> Suc (Suc r) mod ?c" for x
  proof -
    consider "Suc x mod ?c = Suc (Suc r) mod ?c" | "Suc x mod ?c = Suc r mod ?c" | "Suc x mod ?c \<noteq> Suc (Suc r) mod ?c" "Suc x mod ?c \<noteq> Suc r mod ?c"
      by blast
    then show ?thesis
    proof cases
      case 2
      then have r: "x mod ?c = r mod ?c" by (simp add: Suc_mod_cong)
      with psl_at_cong [OF r] 2 x ne ne' h(6) show ?thesis by (simp add: psl)
    next
      case 3
      then have "x mod ?c \<noteq> Suc r mod ?c" by (simp add: Suc_mod_cong)
      with 3 x h(5) [of x] show ?thesis by (simp add: psl)
    qed (simp add: psl)
  qed
  moreover have "psl_at bs' (Suc (Suc (Suc r))) \<le> Suc (Suc (psl_at bs' (Suc r)))"
    using h(5) [of "Suc (Suc r)"] ne q psl_at_cong [of "Suc (Suc (Suc r))" bs "Suc r"] by (auto simp: psl)
  moreover have "\<exists>d. data_at bs' x = Some d \<and> (hash (key d) + psl_at bs' x) mod ?c = Suc x mod ?c" if x: "psl_at bs' x \<noteq> 0" for x
  proof (cases "x mod ?c = Suc r mod ?c")
    case True
    from h(7) [of "Suc (Suc r)"] q obtain d where
      d: "data_at bs (Suc (Suc r)) = Some d" "(hash (key d) + ?q) mod ?c = Suc (Suc (Suc r)) mod ?c" by auto
    have "?q = Suc (?q - 1)" using q by simp
    with d(2) have "(hash (key d) + (?q - 1)) mod ?c = Suc (Suc r) mod ?c" by (metis add_Suc_right Suc_mod_cong)
    moreover have "Suc x mod ?c = Suc (Suc r) mod ?c" using True by (simp add: Suc_mod_cong)
    ultimately show ?thesis using True ne d(1) x by (auto simp: psl data)
  next
    case False
    with x h(7) [of x] show ?thesis by (simp add: psl data split: if_splits)
  qed
  ultimately show "hole_ok key hash bs' (Suc r)" using h(1,2) by (auto simp: hole_ok_def len psl)
  have l: "Suc r mod ?c < ?c" "Suc (Suc r) mod ?c < length (bs[Suc r mod ?c := e])" using h(3) by simp_all
  have at: "bs ! (Suc (Suc r) mod ?c) = \<lparr>bk_data = data_at bs (Suc (Suc r)), bk_psl = ?q\<rparr>" by (simp add: psl_at_def data_at_def)
  have z: "bk_psl (bs ! (Suc r mod ?c)) = 0" using h(4) by (simp add: psl_at_def)
  show "mset (contents bs') = mset (contents bs)"
    using contents_update [OF l(1), of e] contents_update [OF l(2), of b] ne q b z
    by (simp add: bs' held_def e at)
  show "psl_sum bs = Suc (psl_sum bs')"
    using psl_sum_update [OF l(1), of e] psl_sum_update [OF l(2), of b] ne q b z
    by (simp add: bs' e at)
  show "psl_at bs' x \<le> max (psl_at bs x) (psl_at bs (Suc x))"
    using psl_at_cong [of "Suc x" bs "Suc (Suc r)"] by (auto simp: psl Suc_mod_cong)
qed

subsection \<open>The loop of \<open>hashmap_remove\<close>\<close>

partial_function (option) rh_shift_loop :: "size_t \<Rightarrow> 'd bucket_t list \<Rightarrow> size_t \<Rightarrow> size_t \<Rightarrow> 'd bucket_t list option" where
  "rh_shift_loop cap bs prev slot =
     (if length bs \<le> slot \<or> length bs \<le> prev then None
      else if 1 < bk_psl (bs ! slot)
        then rh_shift_loop cap
          (bs[prev := (bs ! slot)\<lparr>bk_psl := bk_psl (bs ! slot) - 1\<rparr>, slot := (bs ! slot)\<lparr>bk_psl := 0\<rparr>])
          slot (next_slot cap slot)
        else Some bs)"

definition rh_shifted :: "('d \<Rightarrow> 'k) \<Rightarrow> ('k \<Rightarrow> nat) \<Rightarrow> 'd bucket_t list \<Rightarrow> 'd bucket_t list option \<Rightarrow> bool" where
  "rh_shifted key hash bs r \<longleftrightarrow> (\<exists>bs'. r = Some bs' \<and> length bs' = length bs \<and> rh_ok key hash bs' \<and>
     mset (contents bs') = mset (contents bs) \<and> (\<forall>K. (\<forall>x. psl_at bs x \<le> K) \<longrightarrow> (\<forall>x. psl_at bs' x \<le> K)))"

lemma rh_shifted_step:
  assumes "rh_shifted key hash bs' r" and "length bs' = length bs" and "mset (contents bs') = mset (contents bs)"
    and "\<And>x. psl_at bs' x \<le> max (psl_at bs x) (psl_at bs (Suc x))"
  shows "rh_shifted key hash bs r"
proof -
  have "\<forall>x. psl_at bs' x \<le> K" if "\<forall>x. psl_at bs x \<le> K" for K
    using assms(4) that by (meson le_trans max.bounded_iff)
  with assms(1-3) show ?thesis unfolding rh_shifted_def by auto
qed

lemma shift_loop_ok:
  assumes "hole_ok key hash bs r"
  shows "rh_shifted key hash bs (rh_shift_loop (length bs) bs (Suc r mod length bs) (Suc (Suc r) mod length bs))"
  using assms
proof (induction "psl_sum bs" arbitrary: bs r rule: less_induct)
  case less
  note h = hole_okD [OF less.prems]
  let ?c = "length bs" and ?q = "psl_at bs (Suc (Suc r))"
  obtain k where k: "?c = 2 ^ k" using h(1) by blast
  have l: "Suc r mod ?c < ?c" "Suc (Suc r) mod ?c < ?c" using h(3) by simp_all
  show ?case
  proof (cases "1 < ?q")
    case False
    then have "rh_shift_loop ?c bs (Suc r mod ?c) (Suc (Suc r) mod ?c) = Some bs"
      using l by (simp add: rh_shift_loop.simps psl_at_def)
    with hole_done [OF less.prems] False show ?thesis by (simp add: rh_shifted_def)
  next
    case True
    let ?b = "bs ! (Suc (Suc r) mod ?c)"
    let ?bs = "bs[Suc r mod ?c := ?b\<lparr>bk_psl := bk_psl ?b - 1\<rparr>, Suc (Suc r) mod ?c := ?b\<lparr>bk_psl := 0\<rparr>]"
    have e: "?b\<lparr>bk_psl := bk_psl ?b - 1\<rparr> = \<lparr>bk_data = data_at bs (Suc (Suc r)), bk_psl = ?q - 1\<rparr>"
      by (simp add: psl_at_def data_at_def)
    have z: "bk_psl (?b\<lparr>bk_psl := 0\<rparr>) = 0" by simp
    note st = hole_step [OF less.prems True z e refl]
    have "rh_shift_loop ?c bs (Suc r mod ?c) (Suc (Suc r) mod ?c) =
        rh_shift_loop (length ?bs) ?bs (Suc (Suc r) mod length ?bs) (Suc (Suc (Suc r)) mod length ?bs)"
      using l True next_slot_is [OF k h(2), of "Suc (Suc r)"]
      by (subst rh_shift_loop.simps) (simp add: psl_at_def)
    with less.hyps [OF _ st(1)] st(3) have "rh_shifted key hash ?bs (rh_shift_loop ?c bs (Suc r mod ?c) (Suc (Suc r) mod ?c))" by simp
    then show ?thesis by (rule rh_shifted_step) (use st(2,4) in simp_all)
  qed
qed

subsection \<open>The loop of \<open>set_remove\<close>\<close>

partial_function (option) set_shift_loop :: "size_t \<Rightarrow> 'd bucket_t list \<Rightarrow> size_t \<Rightarrow> 'd bucket_t list option" where
  "set_shift_loop cap bs slot =
     (if length bs \<le> slot \<or> length bs \<le> next_slot cap slot then None
      else if bk_psl (bs ! next_slot cap slot) \<le> 1 then Some (bs[slot := empty_bucket])
      else set_shift_loop cap
        (bs[slot := (bs ! next_slot cap slot)\<lparr>bk_psl := bk_psl (bs ! next_slot cap slot) - 1\<rparr>]) (next_slot cap slot))"

lemma set_shift_loop_ok:
  assumes "hole_ok key hash (bs[Suc r mod length bs := empty_bucket]) r" and "psl_at bs (Suc r) \<noteq> 0" and "1 < length bs"
  shows "rh_shifted key hash (bs[Suc r mod length bs := empty_bucket]) (set_shift_loop (length bs) bs (Suc r mod length bs))"
  using assms
proof (induction "psl_sum (bs[Suc r mod length bs := empty_bucket])" arbitrary: bs r rule: less_induct)
  case less
  let ?c = "length bs" and ?hs = "bs[Suc r mod length bs := empty_bucket]"
  note h = hole_okD [OF less.prems(1)]
  obtain k where k: "?c = 2 ^ k" using h(1) by auto
  have len: "length ?hs = ?c" "0 < ?c" "?c < 2 ^ 64" using h(2,3) by simp_all
  have l: "Suc r mod ?c < ?c" "Suc (Suc r) mod ?c < ?c" using len(2) by simp_all
  have nx: "next_slot ?c (Suc r mod ?c) = Suc (Suc r) mod ?c" by (rule next_slot_is [OF k len(3)])
  have ne: "Suc (Suc r) mod ?c \<noteq> Suc r mod ?c" using near_slots [of 1 ?c "Suc r"] less.prems(3) by simp
  then have psl: "psl_at ?hs (Suc (Suc r)) = psl_at bs (Suc (Suc r))" and data: "data_at ?hs (Suc (Suc r)) = data_at bs (Suc (Suc r))"
    using psl_update [OF len(2), of "Suc r"] data_update [OF len(2), of "Suc r"] by simp_all
  show ?case
  proof (cases "1 < psl_at bs (Suc (Suc r))")
    case False
    then have "set_shift_loop ?c bs (Suc r mod ?c) = Some ?hs"
      using l by (simp add: set_shift_loop.simps nx psl_at_def)
    with hole_done [OF less.prems(1)] False psl show ?thesis by (simp add: rh_shifted_def)
  next
    case True
    let ?b = "bs ! (Suc (Suc r) mod ?c)"
    let ?e = "?b\<lparr>bk_psl := bk_psl ?b - 1\<rparr>"
    let ?bs = "bs[Suc r mod ?c := ?e]"
    have e: "?e = \<lparr>bk_data = data_at ?hs (Suc (Suc r)), bk_psl = psl_at ?hs (Suc (Suc r)) - 1\<rparr>"
      unfolding psl data by (simp add: psl_at_def data_at_def)
    have z: "bk_psl empty_bucket = 0" by (simp add: empty_bucket_def)
    have bs: "?bs[Suc (Suc r) mod length ?bs := empty_bucket] =
        ?hs[Suc r mod length ?hs := ?e, Suc (Suc r) mod length ?hs := empty_bucket]" by simp
    have "1 < psl_at ?hs (Suc (Suc r))" using True psl by simp
    note st = hole_step [OF less.prems(1) this z e bs]
    have run: "set_shift_loop ?c bs (Suc r mod ?c) = set_shift_loop (length ?bs) ?bs (Suc (Suc r) mod length ?bs)"
      using l True by (subst set_shift_loop.simps) (simp add: nx psl_at_def)
    have "psl_at ?bs (Suc (Suc r)) \<noteq> 0" using psl_update [OF len(2), of "Suc r"] ne True by simp
    from less.hyps [OF _ st(1) this] st(3) less.prems(3)
    have "rh_shifted key hash (?bs[Suc (Suc r) mod length ?bs := empty_bucket]) (set_shift_loop ?c bs (Suc r mod ?c))"
      unfolding run by simp
    then show ?thesis by (rule rh_shifted_step) (use st(2,4) in simp_all)
  qed
qed

end
