(* ===== verification/Seqc_Robin_Table.thy ===== *)
theory Seqc_Robin_Table
  imports Seqc_Robin_Find Seqc_Robin_Remove
begin

section \<open>Tables as finite collections of entries\<close>

text \<open>
  The view of a table that \<open>hashmap_t\<close> and \<open>set_t\<close> share: the multiset \<open>M\<close> of its entries, and what
  an insertion, a lookup, a replacement and a removal do to it.
\<close>

definition table_ok :: "('d \<Rightarrow> 'k) \<Rightarrow> ('k \<Rightarrow> nat) \<Rightarrow> ('k \<Rightarrow> 'k \<Rightarrow> bool) \<Rightarrow> 'd bucket_t list \<Rightarrow> 'd multiset \<Rightarrow> bool" where
  "table_ok key hash eq bs M \<longleftrightarrow> rh_ok key hash bs \<and> keys_apart key eq M \<and> mset (contents bs) = M"

definition psl_within :: "nat \<Rightarrow> 'd bucket_t list \<Rightarrow> bool" where
  "psl_within K bs \<longleftrightarrow> (\<forall>b \<in> set bs. bk_psl b \<le> K)"

lemma psl_within_at: "0 < length bs \<Longrightarrow> psl_within K bs \<longleftrightarrow> (\<forall>x. psl_at bs x \<le> K)"
  unfolding psl_within_def psl_at_def all_set_conv_all_nth by (metis mod_less mod_less_divisor)

lemma psl_within_mono: "psl_within K bs \<Longrightarrow> K \<le> K' \<Longrightarrow> psl_within K' bs"
  unfolding psl_within_def by (meson le_trans)

lemma table_okD:
  assumes "table_ok key hash eq bs M"
  shows "0 < length bs" and "\<exists>k. length bs = 2 ^ k" and "length bs < 2 ^ 64" and "size M \<le> length bs"
    and "length (contents bs) = size M"
proof -
  show "0 < length bs" "\<exists>k. length bs = 2 ^ k" "length bs < 2 ^ 64"
    using assms by (auto simp: table_ok_def rh_ok_def)
  have "length (contents bs) = size M" using assms by (metis table_ok_def size_mset)
  then show "length (contents bs) = size M" "size M \<le> length bs" using length_contents [of bs] by simp_all
qed

text \<open>A new table.\<close>

lemma empty_slots:
  "0 < n \<Longrightarrow> psl_at (replicate n empty_bucket) x = 0"
  by (simp add: psl_at_def empty_bucket_def)

lemma table_empty:
  assumes "n = 2 ^ k" and "n < 2 ^ 64"
  shows "table_ok key hash eq (replicate n empty_bucket) {#}"
  using assms by (auto simp: table_ok_def rh_ok_def empty_slots)

lemma psl_within_empty [simp]: "psl_within K (replicate n empty_bucket)"
  by (auto simp: psl_within_def empty_bucket_def)

text \<open>The slot of an entry.\<close>

lemma entry_slot:
  assumes "table_ok key hash eq bs M" and "e \<in># M"
  obtains i where "i < length bs" and "bk_psl (bs ! i) \<noteq> 0" and "bk_data (bs ! i) = Some e"
    and "(hash (key e) + bk_psl (bs ! i)) mod length bs = Suc i mod length bs"
proof -
  from assms have "e \<in> set (contents bs)" by (auto simp: table_ok_def)
  then obtain i where i: "i < length bs" "psl_at bs i \<noteq> 0" "the (data_at bs i) = e" by (rule contents_at)
  moreover from i(2) assms(1) obtain d where "data_at bs i = Some d" "(hash (key d) + psl_at bs i) mod length bs = Suc i mod length bs"
    unfolding table_ok_def rh_ok_def by blast
  ultimately show ?thesis using that [of i] by (simp add: psl_at_def data_at_def)
qed

lemma table_replace:
  assumes t: "table_ok key hash eq bs (add_mset e M)" and i: "i < length bs" "bk_psl (bs ! i) \<noteq> 0" "bk_data (bs ! i) = Some e"
    and k: "key e' = key e"
  shows "table_ok key hash eq (bs[i := (bs ! i)\<lparr>bk_data := Some e'\<rparr>]) (add_mset e' M)"
    and "psl_within K (bs[i := (bs ! i)\<lparr>bk_data := Some e'\<rparr>]) = psl_within K bs"
proof -
  let ?bs = "bs[i := (bs ! i)\<lparr>bk_data := Some e'\<rparr>]"
  have len: "0 < length bs" and im: "i mod length bs = i" using i(1) by (linarith, simp)
  have psl: "psl_at ?bs x = psl_at bs x" for x
    using psl_update [OF len, of i "(bs ! i)\<lparr>bk_data := Some e'\<rparr>" x] im by (auto simp: psl_at_def split: if_splits)
  have data: "data_at ?bs x = (if x mod length bs = i then Some e' else data_at bs x)" for x
    using data_update [OF len, of i "(bs ! i)\<lparr>bk_data := Some e'\<rparr>" x] im by (simp split: if_splits)
  have ok: "rh_ok key hash bs" using t by (simp add: table_ok_def)
  have "\<exists>d. data_at ?bs x = Some d \<and> (hash (key d) + psl_at ?bs x) mod length bs = Suc x mod length bs"
    if "psl_at ?bs x \<noteq> 0" for x
  proof -
    from that ok obtain d where d: "data_at bs x = Some d" "(hash (key d) + psl_at bs x) mod length bs = Suc x mod length bs"
      unfolding rh_ok_def psl by blast
    show ?thesis
    proof (cases "x mod length bs = i")
      case True
      then have "d = e" using d(1) i(3) by (simp add: data_at_def)
      with True d(2) k show ?thesis by (simp add: data psl)
    qed (use d in \<open>simp add: data psl\<close>)
  qed
  then have "rh_ok key hash ?bs" using ok unfolding rh_ok_def length_list_update psl by blast
  moreover have "mset (contents ?bs) = add_mset e' M"
    using contents_update [OF i(1), of "(bs ! i)\<lparr>bk_data := Some e'\<rparr>"] i t by (simp add: held_def table_ok_def)
  moreover have "size (filter_mset (\<lambda>d. eq (key d) x) (add_mset e' M)) = size (filter_mset (\<lambda>d. eq (key d) x) (add_mset e M))" for x
    using k by simp
  then have "keys_apart key eq (add_mset e' M)" using t unfolding table_ok_def keys_apart_def by presburger
  ultimately show "table_ok key hash eq ?bs (add_mset e' M)" by (simp add: table_ok_def)
  show "psl_within K ?bs = psl_within K bs" using psl len by (simp add: psl_within_at)
qed

text \<open>What a shift loop does to a table that has just lost the entry of slot \<open>i\<close>.\<close>

lemma table_shifted:
  assumes t: "table_ok key hash eq bs (add_mset e M)" and i: "i < length bs" "bk_psl (bs ! i) \<noteq> 0" "bk_data (bs ! i) = Some e"
    and b: "bk_psl b = 0" and K: "psl_within K bs" and r: "rh_shifted key hash (bs[i := b]) res"
  obtains bs' where "res = Some bs'" and "length bs' = length bs" and "table_ok key hash eq bs' M" and "psl_within K bs'"
proof -
  have len: "0 < length bs" and im: "i mod length bs = i" using i(1) by (linarith, simp)
  obtain bs' where bs': "res = Some bs'" "length bs' = length bs" "rh_ok key hash bs'" "mset (contents bs') = mset (contents (bs[i := b]))"
    "\<And>K. \<forall>x. psl_at (bs[i := b]) x \<le> K \<Longrightarrow> \<forall>x. psl_at bs' x \<le> K" using r unfolding rh_shifted_def by auto
  have "mset (contents (bs[i := b])) = M"
    using contents_update [OF i(1), of b] i b t by (simp add: held_def table_ok_def)
  with bs'(3,4) t keys_apart_drop have "table_ok key hash eq bs' M" unfolding table_ok_def by metis
  moreover have "\<forall>x. psl_at (bs[i := b]) x \<le> K"
    using psl_update [OF len, of i b] im b K len by (simp add: psl_within_at)
  then have "psl_within K bs'" using bs'(2,5) len by (simp add: psl_within_at)
  ultimately show ?thesis using that bs'(1,2) by blast
qed

lemma table_shift_ok:
  assumes t: "table_ok key hash eq bs M" and i: "i < length bs" and b: "bk_psl b = 0"
  shows "rh_shifted key hash (bs[i := b]) (rh_shift_loop (length bs) (bs[i := b]) i (next_slot (length bs) i))"
    and "bk_psl (bs ! i) \<noteq> 0 \<Longrightarrow> 1 < length bs \<Longrightarrow>
      rh_shifted key hash (bs[i := empty_bucket]) (set_shift_loop (length bs) bs i)"
proof -
  obtain k where k: "length bs = 2 ^ k" "length bs < 2 ^ 64" using table_okD [OF t] by blast
  have ok: "rh_ok key hash bs" using t by (simp add: table_ok_def)
  let ?r = "i + length bs - 1"
  have "Suc ?r = i + length bs" using i by linarith
  then have r: "Suc ?r mod length bs = i" using i by (simp del: Suc_eq_plus1)
  have nx: "next_slot (length bs) i = Suc (Suc ?r) mod length bs" using next_slot_is [OF k, of "Suc ?r"] unfolding r .
  note h = hole_start [OF ok, of _ ?r, unfolded r]
  show "rh_shifted key hash (bs[i := b]) (rh_shift_loop (length bs) (bs[i := b]) i (next_slot (length bs) i))"
    using shift_loop_ok [OF h [OF b]] r unfolding nx by simp
  show "rh_shifted key hash (bs[i := empty_bucket]) (set_shift_loop (length bs) bs i)" if "bk_psl (bs ! i) \<noteq> 0" "1 < length bs"
    using set_shift_loop_ok [of key hash bs ?r] h [of empty_bucket] r that by (simp add: psl_at_def empty_bucket_def)
qed

context key_hash begin

lemma present_split:
  assumes t: "table_ok key hash eq bs D" and "\<not> absent key eq k D"
  obtains c D0 where "D = add_mset c D0" and "eq (key c) k" and "absent key eq k D0"
proof -
  from assms(2) obtain c where c: "c \<in># D" "eq (key c) k" by (auto simp: absent_def)
  then obtain D0 where D0: "D = add_mset c D0" by (metis mset_add)
  have "keys_apart key eq (add_mset c D0)" using t D0 by (simp add: table_ok_def)
  then have "absent key eq (key c) D0" by (simp add: keys_apart_add)
  with absent_cong [OF c(2)] have "absent key eq k D0" by blast
  with D0 c(2) that show ?thesis by blast
qed

lemma entry_home:
  assumes "table_ok key hash eq bs M" and "e \<in># M" and "eq (key e) k"
  obtains i where "bk_psl (bs ! (i mod length bs)) \<noteq> 0" and "bk_data (bs ! (i mod length bs)) = Some e"
    and "hash k + bk_psl (bs ! (i mod length bs)) = Suc i"
proof -
  from assms(1,2) obtain j where j: "j < length bs" "bk_psl (bs ! j) \<noteq> 0" "bk_data (bs ! j) = Some e"
    "(hash (key e) + bk_psl (bs ! j)) mod length bs = Suc j mod length bs" by (rule entry_slot)
  let ?i = "hash k + bk_psl (bs ! j) - 1"
  have "Suc ?i mod length bs = Suc j mod length bs" using j(2,4) eq_hash [OF assms(3)] by simp
  then have "?i mod length bs = j" using j(1) by (simp only: Suc_mod_cong) simp
  with j that [of ?i] show ?thesis by simp
qed

lemma table_find_present:
  assumes t: "table_ok key hash eq bs M" and e: "e \<in># M" "eq (key e) k" and K: "psl_within 255 bs"
  obtains i where "rh_find_loop key eq (length bs) bs k (hash k AND wsub (length bs) 1) 1 = Some (Some i)"
    and "i < length bs" and "bk_psl (bs ! i) \<noteq> 0" and "bk_data (bs ! i) = Some e"
proof -
  obtain m where m: "length bs = 2 ^ m" "length bs < 2 ^ 64" "0 < length bs" using table_okD [OF t] by blast
  from t e obtain i where i: "bk_psl (bs ! (i mod length bs)) \<noteq> 0" "bk_data (bs ! (i mod length bs)) = Some e"
    "hash k + bk_psl (bs ! (i mod length bs)) = Suc i" by (rule entry_home)
  have "psl_at bs i \<le> 255" using K m(3) by (simp add: psl_within_at)
  then have "psl_at bs i < 256" by linarith
  then have "rh_find_loop key eq (length bs) bs k (hash k AND wsub (length bs) 1) 1 = Some (Some (i mod length bs))"
    unfolding home_slot_is [OF m(1,2)] using t i e(2) by (intro find_present [where q = "psl_at bs i"]) (simp_all add: table_ok_def psl_at_def data_at_def)
  from that [OF this] i m(3) show ?thesis by simp
qed

lemma table_insert_present:
  assumes t: "table_ok key hash eq bs M" and e: "e \<in># M" "eq (key e) (key d)" and K: "psl_within 255 bs"
  obtains i where "rh_insert_loop key eq (length bs) bs mx (hash (key d) AND wsub (length bs) 1) d 1 = Some (Some i, bs, mx, d)"
    and "i < length bs" and "bk_psl (bs ! i) \<noteq> 0" and "bk_data (bs ! i) = Some e"
proof -
  obtain m where m: "length bs = 2 ^ m" "length bs < 2 ^ 64" "0 < length bs" using table_okD [OF t] by blast
  from t e obtain i where i: "bk_psl (bs ! (i mod length bs)) \<noteq> 0" "bk_data (bs ! (i mod length bs)) = Some e"
    "hash (key d) + bk_psl (bs ! (i mod length bs)) = Suc i" by (rule entry_home)
  have "psl_at bs i \<le> 255" using K m(3) by (simp add: psl_within_at)
  then have "psl_at bs i < 256" by linarith
  then have "rh_insert_loop key eq (length bs) bs mx (hash (key d) AND wsub (length bs) 1) d 1 = Some (Some (i mod length bs), bs, mx, d)"
    unfolding home_slot_is [OF m(1,2)] using t i e(2) by (intro insert_present [where q = "psl_at bs i"]) (simp_all add: table_ok_def psl_at_def data_at_def)
  from that [OF this] i m(3) show ?thesis by simp
qed

lemma table_find_absent:
  assumes t: "table_ok key hash eq bs M" and a: "absent key eq k M" and n: "size M < length bs"
  shows "rh_find_loop key eq (length bs) bs k (hash k AND wsub (length bs) 1) 1 = Some None"
proof -
  obtain m where m: "length bs = 2 ^ m" "length bs < 2 ^ 64" using table_okD [OF t] by blast
  have "length (contents bs) < length bs" using table_okD(5) [OF t] n by simp
  then obtain n where "psl_at bs (hash k + n) = 0" by (rule empty_ahead)
  with t a show ?thesis unfolding home_slot_is [OF m] by (intro find_absent) (simp_all add: table_ok_def)
qed

text \<open>An insertion of a new key: no psl gets longer than \<open>Suc K\<close>, and \<open>mx\<close> bounds them all.\<close>

lemma table_insert_new:
  assumes t: "table_ok key hash eq bs M" and a: "absent key eq (key d) M" and n: "size M < length bs"
    and K: "psl_within K bs" "K < 255" "K \<le> mx"
  obtains bs' mx' d' where "rh_insert_loop key eq (length bs) bs mx (hash (key d) AND wsub (length bs) 1) d 1 = Some (None, bs', mx', d')"
    and "length bs' = length bs" and "table_ok key hash eq bs' (add_mset d M)" and "psl_within mx' bs'" and "psl_within (Suc K) bs'"
    and "mx' = mx \<or> (\<exists>b \<in> set bs'. mx' = bk_psl b)"
proof -
  obtain m where m: "length bs = 2 ^ m" "length bs < 2 ^ 64" "0 < length bs" using table_okD [OF t] by blast
  have l: "length (contents bs) < length bs" using table_okD(5) [OF t] n by simp
  let ?r = "hash (key d) + length bs - 1"
  have r: "Suc ?r = hash (key d) + length bs" using m(3) by simp
  obtain n where n: "n < length bs" "psl_at bs (Suc ?r + n) = 0" using empty_ahead [OF l] by blast
  have ok: "rh_ok key hash bs" "keys_apart key eq (mset (contents bs))" "absent key eq (key d) (mset (contents bs))"
    using t a by (simp_all add: table_ok_def)
  have k: "\<And>x. psl_at bs x \<le> K" using K(1) m(3) by (simp add: psl_within_at)
  have h: "(hash (key d) + 1) mod length bs = Suc (Suc ?r) mod length bs" unfolding r by (simp add: Suc_mod_cong)
  have "rh_inserted key hash bs mx d K (rh_insert_loop key eq (length bs) bs mx (Suc ?r mod length bs) d 1)"
    by (rule insert_absent [OF ok n _ _ _ h k K(2)]) simp_all
  then obtain bs' mx' d' where i: "rh_insert_loop key eq (length bs) bs mx (Suc ?r mod length bs) d 1 = Some (None, bs', mx', d')"
    "length bs' = length bs" "rh_ok key hash bs'" "mset (contents bs') = add_mset d (mset (contents bs))"
    "\<And>x. psl_at bs' x \<le> max (psl_at bs x) (min mx' (Suc K))" "mx \<le> mx'" "mx' = mx \<or> (\<exists>x. mx' = psl_at bs' x)"
    unfolding rh_inserted_def by blast
  have "table_ok key hash eq bs' (add_mset d M)" using i(3,4) t a by (simp add: table_ok_def keys_apart_add)
  moreover have "psl_at bs' x \<le> mx'" "psl_at bs' x \<le> Suc K" for x using i(5) [of x] k [of x] K(3) i(6) by simp_all
  then have "psl_within mx' bs'" "psl_within (Suc K) bs'" using m(3) i(2) by (simp_all add: psl_within_at)
  moreover have "mx' = mx \<or> (\<exists>b \<in> set bs'. mx' = bk_psl b)"
    using i(7) i(2) m(3) unfolding psl_at_def by (metis mod_less_divisor nth_mem)
  moreover have "rh_insert_loop key eq (length bs) bs mx (hash (key d) AND wsub (length bs) 1) d 1 = Some (None, bs', mx', d')"
    using i(1) unfolding r home_slot_is [OF m(1,2)] by simp
  ultimately show ?thesis using that i(2) by blast
qed

text \<open>Moving the entries of a table into one of twice its size: the bound of the first holds throughout.\<close>

lemma table_move:
  assumes A: "table_ok key hash eq as N" "psl_within K as" "K < 255"
    and t: "table_ok key hash eq bs M" "length bs = 2 * length as" and sub: "add_mset d M \<subseteq># N"
    and mx: "psl_within mx bs" "mx \<le> K"
  obtains bs' mx' d' where "rh_insert_loop key eq (length bs) bs mx (hash (key d) AND wsub (length bs) 1) d 1 = Some (None, bs', mx', d')"
    and "length bs' = length bs" and "table_ok key hash eq bs' (add_mset d M)" and "psl_within mx' bs'" and "mx' \<le> K"
proof -
  have "keys_apart key eq (add_mset d M)"
  proof -
    obtain N' where "N = N' + add_mset d M" using sub by (metis subset_mset.le_iff_add add.commute)
    moreover have "keys_apart key eq (N' + add_mset d M) \<Longrightarrow> keys_apart key eq (add_mset d M)"
      by (induction N') (use keys_apart_drop in \<open>fastforce simp del: union_mset_add_mset_right\<close>)+
    ultimately show ?thesis using A(1) by (simp add: table_ok_def)
  qed
  then have a: "absent key eq (key d) M" by (simp add: keys_apart_add)
  have "size (add_mset d M) \<le> size N" by (rule size_mset_mono [OF sub])
  then have n: "size M < length bs" "size (add_mset d M) < length bs" using table_okD(1,4) [OF A(1)] t(2) by simp_all
  have "mx < 255" using mx(2) A(3) by simp
  from t(1) a n(1) mx(1) this le_refl obtain bs' mx' d' where
    i: "rh_insert_loop key eq (length bs) bs mx (hash (key d) AND wsub (length bs) 1) d 1 = Some (None, bs', mx', d')"
    "length bs' = length bs" "table_ok key hash eq bs' (add_mset d M)" "psl_within mx' bs'"
    "mx' = mx \<or> (\<exists>b \<in> set bs'. mx' = bk_psl b)" by (rule table_insert_new) blast
  have la: "0 < length as" "0 < length bs'" using table_okD(1) [OF A(1)] i(2) t(2) by simp_all
  have "psl_at bs' x \<le> K" for x
  proof (rule psl_no_longer)
    show "rh_ok key hash as" "rh_ok key hash bs'" "keys_apart key eq (mset (contents bs'))"
      using A(1) i(3) by (simp_all add: table_ok_def)
    show "psl_at as x \<le> K" for x using A(2) la(1) by (simp add: psl_within_at)
    show "length bs' = 2 * length as" using i(2) t(2) by simp
    show "length (contents bs') < length bs'" using table_okD(5) [OF i(3)] n(2) i(2) by simp
    show "set (contents bs') \<subseteq> set (contents as)" using A(1) i(3) set_mset_mono [OF sub] by (simp add: table_ok_def flip: set_mset_mset)
  qed
  then have "psl_within K bs'" using la(2) by (simp add: psl_within_at)
  then have "mx' \<le> K" using i(5) mx(2) by (auto simp: psl_within_def)
  with that i show ?thesis by blast
qed

end

subsection \<open>How large a table gets\<close>

text \<open>
  An insertion into a table with \<open>n\<close> entries leaves its capacity \<open>c\<close> or doubles it, because of the
  load, or because the longest probe \<open>p\<close> is too long. A probe is no longer than the largest number
  of entries so far, so the table grows with that number only until it reaches 128. A pair \<open>s\<close> counts
  the most entries so far, the one to be inserted included, and the insertions since then.
\<close>

definition table_grown :: "nat \<Rightarrow> nat \<Rightarrow> nat \<Rightarrow> nat \<Rightarrow> bool" where
  "table_grown c p n c' \<longleftrightarrow> c' = c \<or> c' = 2 * c \<and> (3 * c \<le> 4 * Suc n \<or> 128 \<le> p)"

definition buckets_bound :: "nat \<Rightarrow> nat \<times> nat \<Rightarrow> nat" where
  "buckets_bound c0 s = 2 ^ snd s * max c0 (3 * fst s)"

definition peak_step :: "nat \<Rightarrow> nat \<times> nat \<Rightarrow> nat \<times> nat" where
  "peak_step n s = (max (fst s) (Suc n), if 128 \<le> fst s then Suc (snd s) else snd s)"

text \<open>After \<open>n\<close> insertions into a table with \<open>m\<close> entries whose longest probe is \<open>h\<close>.\<close>

definition peak_after :: "nat \<Rightarrow> nat \<Rightarrow> nat \<Rightarrow> nat \<times> nat" where
  "peak_after m h n = (max h (m + n), if max h (m + n) < 128 then 0 else n)"

definition peak_within :: "nat \<Rightarrow> nat \<Rightarrow> nat \<Rightarrow> nat \<times> nat \<Rightarrow> bool" where
  "peak_within m h n s \<longleftrightarrow> fst s \<le> fst (peak_after m h n) \<and> snd s \<le> snd (peak_after m h n)"

lemma peak_within_start: "peak_within m h 0 (h, 0)"
  by (simp add: peak_within_def peak_after_def)

lemma peak_within_step: "peak_within m h n s \<Longrightarrow> z \<le> m + n \<Longrightarrow> peak_within m h (Suc n) (peak_step z s)"
  by (auto simp: peak_within_def peak_after_def peak_step_def split: if_splits)

lemma peak_within_Suc: "peak_within m h n s \<Longrightarrow> peak_within m h (Suc n) s"
  by (auto simp: peak_within_def peak_after_def split: if_splits)

lemma buckets_bound_mono: "h \<le> h' \<Longrightarrow> k \<le> k' \<Longrightarrow> buckets_bound c0 (h, k) \<le> buckets_bound c0 (h', k')"
  unfolding buckets_bound_def by (intro mult_le_mono power_increasing) auto

lemma peak_within_bound: "peak_within m h n s \<Longrightarrow> buckets_bound c0 s \<le> buckets_bound c0 (peak_after m h n)"
  using buckets_bound_mono [of "fst s" "fst (peak_after m h n)" "snd s" "snd (peak_after m h n)" c0]
  by (simp add: peak_within_def)

lemma peak_after_mono: "n \<le> n' \<Longrightarrow> buckets_bound c0 (peak_after m h n) \<le> buckets_bound c0 (peak_after m h n')"
  unfolding peak_after_def by (rule buckets_bound_mono) (auto split: if_splits)

lemma buckets_bound_least: "c0 \<le> buckets_bound c0 s"
proof -
  have "1 * c0 \<le> 2 ^ snd s * max c0 (3 * fst s)" by (rule mult_le_mono) simp_all
  then show ?thesis by (simp add: buckets_bound_def)
qed

lemma table_grown_bound:
  assumes "table_grown c p n c'" and "c \<le> buckets_bound c0 s" and "p \<le> fst s"
  shows "c' \<le> buckets_bound c0 (peak_step n s)"
proof (cases "c' = c \<or> 128 \<le> p")
  case True
  have "buckets_bound c0 s \<le> buckets_bound c0 (peak_step n s)"
    using buckets_bound_mono [of "fst s" "fst (peak_step n s)" "snd s" "snd (peak_step n s)" c0] by (simp add: peak_step_def)
  moreover have "2 * buckets_bound c0 s \<le> buckets_bound c0 (peak_step n s)" if "128 \<le> p"
  proof -
    have "128 \<le> fst s" using that assms(3) by linarith
    moreover have "2 ^ Suc (snd s) * max c0 (3 * fst s) \<le> 2 ^ Suc (snd s) * max c0 (3 * max (fst s) (Suc n))"
      by (intro mult_le_mono2 max.mono) simp_all
    ultimately show ?thesis by (simp add: buckets_bound_def peak_step_def)
  qed
  ultimately show ?thesis using assms(1,2) True by (auto simp: table_grown_def)
next
  case False
  then have "c' = 2 * c" "3 * c \<le> 4 * Suc n" using assms(1) by (auto simp: table_grown_def)
  then have "c' \<le> 3 * Suc n" by linarith
  also have "3 * Suc n \<le> 1 * max c0 (3 * fst (peak_step n s))"
    unfolding nat_mult_1 by (rule le_trans [OF _ max.cobounded2]) (simp add: peak_step_def del: mult_Suc_right)
  also have "\<dots> \<le> buckets_bound c0 (peak_step n s)" unfolding buckets_bound_def by (intro mult_le_mono1) simp
  finally show ?thesis .
qed

context key_hash begin

lemma table_psl_size:
  assumes "table_ok key hash eq bs M" and "size M < length bs"
  shows "psl_within (size M) bs"
proof -
  note l = table_okD(1,5) [OF assms(1)]
  have "psl_at bs x \<le> size M" for x
    using psl_le_contents [of key bs x] assms l by (simp add: table_ok_def)
  with l(1) show ?thesis by (simp add: psl_within_at)
qed

end

subsection \<open>The blocks of a table\<close>

text \<open>
  The blocks an object owns, as a list of addresses with sizes: \<open>owns_cells\<close> is \<open>owns\<close> for such
  a list, and does not depend on its order.
\<close>

definition owns_cells :: "(addr \<rightharpoonup> size_t) \<Rightarrow> (addr \<rightharpoonup> size_t) \<Rightarrow> (addr \<times> size_t) list \<Rightarrow> bool" where
  "owns_cells L R xs \<longleftrightarrow> distinct (map fst xs) \<and> owns L R (map_of xs)"

lemma owns_cells_Nil [simp]: "owns_cells L R [] \<longleftrightarrow> L = R"
  by (simp add: owns_cells_def)

lemma owns_cells_perm:
  assumes "mset xs = mset ys"
  shows "owns_cells L R xs \<longleftrightarrow> owns_cells L R ys"
proof -
  have d: "distinct (map fst xs) \<longleftrightarrow> distinct (map fst ys)"
    by (rule mset_eq_imp_distinct_iff) (simp add: assms)
  have "map_of xs = map_of ys" if "distinct (map fst xs)"
    using map_of_inject_set [of xs ys] that d mset_eq_setD [OF assms] by simp
  with d show ?thesis unfolding owns_cells_def by metis
qed

lemma concat_perm: "mset xs = mset ys \<Longrightarrow> mset (concat (map f xs)) = mset (concat (map f ys))"
  by (simp add: mset_concat flip: sum_mset_sum_list mset_map image_mset.compositionality) (metis mset_map)

context heap_allocator begin

lemma cells_alloc:
  assumes "owns_cells (live w) R xs"
  obtains (granted) a w' where "mem_alloc (Some t) n w = Some (Some a, w')" and "owns_cells (live w') R ((a, n) # xs)"
      and "n \<le> PTRDIFF_MAX"
  | (refused) w' where "mem_alloc (Some t) n w = Some (None, w')" and "owns_cells (live w') R xs"
      and "refuses t n"
proof -
  have o: "owns (live w) R (map_of xs)" "distinct (map fst xs)" using assms by (simp_all add: owns_cells_def)
  obtain p w' where m: "mem_alloc (Some t) n w = Some (p, w')" by (cases "vt_alloc t n w") simp
  show ?thesis
  proof (cases p)
    case None
    with m have m': "mem_alloc (Some t) n w = Some (None, w')" by simp
    with owns_mem_alloc_refused [OF o(1) m'] o(2) refuses_alloc [OF m' order_refl] show ?thesis
      by (intro refused) (simp_all add: owns_cells_def)
  next
    case (Some a)
    with m have m': "mem_alloc (Some t) n w = Some (Some a, w')" by simp
    note g = owns_mem_alloc [OF o(1) m']
    have "a \<notin> set (map fst xs)" using g(2) by (auto simp: dom_map_of_conv_image_fst)
    with g o(2) have "owns_cells (live w') R ((a, n) # xs)" by (simp add: owns_cells_def)
    from granted [OF m' this g(3)] show ?thesis .
  qed
qed

lemma cells_free:
  assumes "owns_cells (live w) R ((a, n) # xs)"
  obtains w' where "mem_free (Some t) (Some a) n w = Some w'" and "owns_cells (live w') R xs"
proof -
  have o: "owns (live w) R ((map_of xs)(a \<mapsto> n))" "a \<notin> set (map fst xs)" "distinct (map fst xs)"
    using assms by (simp_all add: owns_cells_def)
  have "((map_of xs)(a \<mapsto> n)) a = Some n" by simp
  then obtain w' where w': "mem_free (Some t) (Some a) n w = Some w'" "owns (live w') R (((map_of xs)(a \<mapsto> n))(a := None))"
    by (rule owns_mem_free [OF o(1)])
  have "map_of xs a = None" using o(2) by (simp add: map_of_eq_None_iff)
  then have "((map_of xs)(a \<mapsto> n))(a := None) = map_of xs" by (auto simp: fun_eq_iff fun_upd_apply)
  with w' o(3) that show ?thesis by (simp add: owns_cells_def)
qed

end

primrec free_cells :: "'w allocator_t \<Rightarrow> (addr \<times> size_t) list \<Rightarrow> 'w \<Rightarrow> 'w option" where
  "free_cells al [] w = Some w"
| "free_cells al (x # xs) w = do { w \<leftarrow> mem_free al (Some (fst x)) (snd x) w; free_cells al xs w }"

lemma free_cells_append: "free_cells al (xs @ ys) w = do { w \<leftarrow> free_cells al xs w; free_cells al ys w }"
  by (induction xs arbitrary: w) (simp_all split: bind_split)

context heap_allocator begin

lemma free_cells_all:
  assumes "owns_cells (live w) R (xs @ ys)"
  shows "\<exists>w'. free_cells (Some t) xs w = Some w' \<and> owns_cells (live w') R ys"
  using assms
proof (induction xs arbitrary: w)
  case (Cons x xs)
  then have "owns_cells (live w) R ((fst x, snd x) # (xs @ ys))" by simp
  then obtain w1 where "mem_free (Some t) (Some (fst x)) (snd x) w = Some w1" "owns_cells (live w1) R (xs @ ys)" by (rule cells_free)
  with Cons.IH show ?case by (simp del: mem_free.simps)
qed simp

end

end
