(* ===== verification/Seqc_Robin_Scan.thy ===== *)
theory Seqc_Robin_Scan
  imports Seqc_Robin_Table Seqc_Iter
begin

section \<open>Walking over the buckets of a table\<close>

text \<open>
  The iterators of \<open>hashmap_t\<close> and \<open>set_t\<close> skip empty buckets, forwards or backwards; other loops
  visit all buckets up to the capacity.
\<close>

partial_function (option) scan_next :: "'d bucket_t list \<Rightarrow> size_t \<Rightarrow> size_t \<Rightarrow> ('d option \<times> size_t) option" where
  "scan_next bs cap slot =
     (if slot < cap then
        (if length bs \<le> slot then None
         else if bk_psl (bs ! slot) \<noteq> 0 then do { d \<leftarrow> bk_data (bs ! slot); Some (Some d, Suc slot) }
         else scan_next bs cap (Suc slot))
      else Some (None, slot))"

fun scan_prev :: "'d bucket_t list \<Rightarrow> size_t \<Rightarrow> ('d option \<times> size_t) option" where
  "scan_prev bs 0 = Some (None, 0)"
| "scan_prev bs (Suc i) =
     (if length bs \<le> i then None
      else if bk_psl (bs ! i) \<noteq> 0 then do { d \<leftarrow> bk_data (bs ! i); Some (Some d, i) }
      else scan_prev bs i)"

text \<open>The buckets that a loop up to \<open>cap\<close> reads.\<close>

definition buckets_upto :: "size_t \<Rightarrow> 'd bucket_t list \<Rightarrow> 'd bucket_t list option" where
  "buckets_upto cap bs = (if cap \<le> length bs then Some (take cap bs) else None)"

lemma buckets_upto_all [simp]: "buckets_upto (length bs) bs = Some bs"
  by (simp add: buckets_upto_def)

text \<open>The loop of the audits: the sum of the psls, and the largest.\<close>

primrec audit_loop :: "'d bucket_t list \<Rightarrow> nat \<Rightarrow> nat \<Rightarrow> nat \<times> nat" where
  "audit_loop [] acc mx = (acc, mx)"
| "audit_loop (b # bs) acc mx =
     (if bk_psl b \<noteq> 0 then audit_loop bs (acc + bk_psl b) (if bk_psl b > mx then bk_psl b else mx)
      else audit_loop bs acc mx)"

definition filled :: "'d bucket_t list \<Rightarrow> bool" where
  "filled bs \<longleftrightarrow> (\<forall>b \<in> set bs. bk_psl b \<noteq> 0 \<longrightarrow> bk_data b \<noteq> None)"

lemma table_filled: "table_ok key hash eq bs M \<Longrightarrow> filled bs"
  unfolding filled_def table_ok_def rh_ok_def psl_at_def data_at_def
  by (metis in_set_conv_nth mod_less option.distinct(1))

lemma filled_simps [simp]:
  "filled []"
  "filled (b # bs) \<longleftrightarrow> (bk_psl b \<noteq> 0 \<longrightarrow> bk_data b \<noteq> None) \<and> filled bs"
  by (auto simp: filled_def)

lemma scan_next_is:
  assumes "filled bs" and "slot \<le> length bs"
  shows "\<exists>slot'. slot' \<le> length bs \<and>
    scan_next bs (length bs) slot = Some (case contents (drop slot bs) of [] \<Rightarrow> None | d # ds \<Rightarrow> Some d, slot') \<and>
    (case contents (drop slot bs) of [] \<Rightarrow> contents (drop slot' bs) = [] | d # ds \<Rightarrow> contents (drop slot' bs) = ds)"
  using assms(2)
proof (induction "length bs - slot" arbitrary: slot)
  case 0
  then show ?case by (simp add: scan_next.simps)
next
  case (Suc n)
  then have s: "slot < length bs" by simp
  have d: "drop slot bs = bs ! slot # drop (Suc slot) bs" by (rule Cons_nth_drop_Suc [symmetric, OF s])
  have f: "bk_psl (bs ! slot) \<noteq> 0 \<Longrightarrow> bk_data (bs ! slot) \<noteq> None" using assms(1) s by (simp add: filled_def)
  show ?case
  proof (cases "bk_psl (bs ! slot) = 0")
    case True
    with Suc.hyps(1) [of "Suc slot"] Suc.hyps(2) s show ?thesis
      by (subst scan_next.simps) (simp add: d contents_Cons)
  next
    case False
    with f s show ?thesis by (subst scan_next.simps) (auto simp: d contents_Cons)
  qed
qed

lemma scan_prev_is:
  assumes "filled bs" and "slot \<le> length bs"
  shows "\<exists>slot'. slot' \<le> length bs \<and>
    scan_prev bs slot = Some (case rev (contents (take slot bs)) of [] \<Rightarrow> None | d # ds \<Rightarrow> Some d, slot') \<and>
    (case rev (contents (take slot bs)) of [] \<Rightarrow> contents (take slot' bs) = [] | d # ds \<Rightarrow> rev (contents (take slot' bs)) = ds)"
  using assms(2)
proof (induction slot)
  case (Suc i)
  then have s: "i < length bs" by simp
  have d: "take (Suc i) bs = take i bs @ [bs ! i]" by (rule take_Suc_conv_app_nth [OF s])
  have f: "bk_psl (bs ! i) \<noteq> 0 \<Longrightarrow> bk_data (bs ! i) \<noteq> None" using assms(1) s by (simp add: filled_def)
  show ?case
  proof (cases "bk_psl (bs ! i) = 0")
    case True
    with Suc s show ?thesis by (simp add: d contents_Cons)
  next
    case False
    with f s show ?thesis by (auto simp: d contents_Cons)
  qed
qed simp

text \<open>
  The iterators over them: \<open>mk slot\<close> is the iterator state at \<open>slot\<close>, \<open>yield\<close> what is handed out for
  an entry.
\<close>

lemma scan_iter_rep:
  assumes f: "filled bs" and slot: "slot \<le> length bs"
    and nx: "\<And>slot r slot' w. scan_next bs (length bs) slot = Some (r, slot') \<Longrightarrow> nx (mk slot) w = Some (map_option yield r, mk slot', w)"
    and closes: "\<And>slot. iter_closes live (iter_make nx dr (mk slot) es al) B"
  shows "iter_rep live (map yield (contents (drop slot bs))) (iter_make nx dr (mk slot) es al) B"
  using slot
proof (induction "contents (drop slot bs)" arbitrary: slot)
  case Nil
  from scan_next_is [OF f Nil.prems] obtain slot' where "scan_next bs (length bs) slot = Some (None, slot')"
    unfolding Nil.hyps [symmetric] by auto
  then have n: "iter_next (iter_make nx dr (mk slot) es al) w = Some (None, iter_make nx dr (mk slot') es al, w)" for w
    by (simp add: nx)
  show ?case unfolding Nil.hyps [symmetric] using iter_rep_Nil_still [OF closes n closes] by simp
next
  case (Cons d ds)
  from scan_next_is [OF f Cons.prems] obtain slot' where s: "slot' \<le> length bs" "scan_next bs (length bs) slot = Some (Some d, slot')"
    "ds = contents (drop slot' bs)" unfolding Cons.hyps(2) [symmetric] by auto
  then have n: "iter_next (iter_make nx dr (mk slot) es al) w = Some (Some (yield d), iter_make nx dr (mk slot') es al, w)" for w
    by (simp add: nx)
  show ?case unfolding Cons.hyps(2) [symmetric] s(3)
    using iter_rep_Cons_still [OF closes n Cons.hyps(1) [OF s(3,1)]] by simp
qed

lemma scan_iter_rev_rep:
  assumes f: "filled bs" and slot: "slot \<le> length bs"
    and nx: "\<And>slot r slot' w. scan_prev bs slot = Some (r, slot') \<Longrightarrow> nx (mk slot) w = Some (map_option yield r, mk slot', w)"
    and closes: "\<And>slot. iter_closes live (iter_make nx dr (mk slot) es al) B"
  shows "iter_rep live (map yield (rev (contents (take slot bs)))) (iter_make nx dr (mk slot) es al) B"
  using slot
proof (induction "rev (contents (take slot bs))" arbitrary: slot)
  case Nil
  from scan_prev_is [OF f Nil.prems] obtain slot' where "scan_prev bs slot = Some (None, slot')"
    unfolding Nil.hyps [symmetric] by auto
  then have n: "iter_next (iter_make nx dr (mk slot) es al) w = Some (None, iter_make nx dr (mk slot') es al, w)" for w
    by (simp add: nx)
  show ?case unfolding Nil.hyps [symmetric] using iter_rep_Nil_still [OF closes n closes] by simp
next
  case (Cons d ds)
  from scan_prev_is [OF f Cons.prems] obtain slot' where s: "slot' \<le> length bs" "scan_prev bs slot = Some (Some d, slot')"
    "ds = rev (contents (take slot' bs))" unfolding Cons.hyps(2) [symmetric] by auto
  then have n: "iter_next (iter_make nx dr (mk slot) es al) w = Some (Some (yield d), iter_make nx dr (mk slot') es al, w)" for w
    by (simp add: nx)
  show ?case unfolding Cons.hyps(2) [symmetric] s(3)
    using iter_rep_Cons_still [OF closes n Cons.hyps(1) [OF s(3,1)]] by simp
qed

end
