(* ===== verification/Seqc_Hashmap.thy ===== *)
theory Seqc_Hashmap
  imports Seqc_Robin_Scan Seqc_Entries Seqc_Buffer
begin

section \<open>The hash map\<close>

text \<open>
  \<open>src/hashmap/hashmap.c\<close>: a Robin Hood table whose entries are two blocks each, a copy of the
  key and a copy of the value. The hash function and the equality are parameters, as in C,
  where they get the key size as their last argument.
\<close>

definition HASH_PSL_THRESHOLD :: nat where
  "HASH_PSL_THRESHOLD = 128"

record ('k, 'v) hm_entry_t =
  hk_addr :: addr
  hk_key :: 'k
  hv_addr :: addr
  hv_value :: 'v

type_synonym ('k, 'v) hm_bucket_t = "('k, 'v) hm_entry_t bucket_t"

record ('k, 'v, 'w) hashmap_t =
  hm_self :: addr
  hm_buckets :: "(addr \<times> ('k, 'v) hm_bucket_t list) option"
  hm_cap :: size_t
  hm_len :: size_t
  hm_key_size :: size_t
  hm_val_size :: size_t
  hm_max_psl :: nat
  hm_hash :: "'k hash_fn"
  hm_eq :: "'k eq_fn"
  hm_alloc :: "'w allocator_t"

definition sizeof_bucket_t :: size_t where
  "sizeof_bucket_t = 24"

definition sizeof_hashmap_t :: size_t where
  "sizeof_hashmap_t = 80"

definition sizeof_hashmap_iter_state_t :: size_t where
  "sizeof_hashmap_iter_state_t = 16"

lemma sizeof_bucket_t_small [simp]: "sizeof_bucket_t \<le> 256" "sizeof_hashmap_t \<le> 256" "sizeof_hashmap_iter_state_t \<le> 256"
  by (simp_all add: sizeof_bucket_t_def sizeof_hashmap_t_def sizeof_hashmap_iter_state_t_def)

subsection \<open>Inserting and resizing\<close>

definition hashmap_get_slot :: "('k, 'v, 'w) hashmap_t \<Rightarrow> 'k \<Rightarrow> size_t" where
  "hashmap_get_slot m k = hm_hash m k (hm_key_size m) AND wsub (hm_cap m) 1"

definition hashmap_insert_raw ::
  "('k, 'v, 'w) hashmap_t \<Rightarrow> ('k, 'v) hm_entry_t \<Rightarrow> 'w \<Rightarrow> (('k, 'v, 'w) hashmap_t \<times> 'w) option" where
  "hashmap_insert_raw m incoming w = do {
     (a, bs) \<leftarrow> hm_buckets m;
     (found, bs, mx, incoming) \<leftarrow>
       rh_insert_loop hk_key (\<lambda>x y. hm_eq m x y (hm_key_size m)) (hm_cap m) bs (hm_max_psl m)
         (hashmap_get_slot m (hk_key incoming)) incoming 1;
     case found of
       None \<Rightarrow> Some (m\<lparr>hm_buckets := Some (a, bs), hm_max_psl := mx, hm_len := Suc (hm_len m)\<rparr>, w)
     | Some i \<Rightarrow> do {
         c \<leftarrow> bk_data (bs ! i);
         let bs = bs[i := (bs ! i)\<lparr>bk_data := Some (c\<lparr>hv_addr := hv_addr incoming, hv_value := hv_value incoming\<rparr>)\<rparr>];
         w \<leftarrow> mem_free (hm_alloc m) (Some (hk_addr incoming)) (hm_key_size m) w;
         w \<leftarrow> mem_free (hm_alloc m) (Some (hv_addr c)) (hm_val_size m) w;
         Some (m\<lparr>hm_buckets := Some (a, bs), hm_max_psl := mx\<rparr>, w)
       }
   }"

primrec hashmap_rehash ::
  "('k, 'v) hm_bucket_t list \<Rightarrow> ('k, 'v, 'w) hashmap_t \<Rightarrow> 'w \<Rightarrow> (('k, 'v, 'w) hashmap_t \<times> 'w) option" where
  "hashmap_rehash [] m w = Some (m, w)"
| "hashmap_rehash (b # bs) m w =
     (if bk_psl b \<noteq> 0
      then do { e \<leftarrow> bk_data b; (m, w) \<leftarrow> hashmap_insert_raw m e w; hashmap_rehash bs m w }
      else hashmap_rehash bs m w)"

definition hashmap_resize_and_rehash ::
  "('k, 'v, 'w) hashmap_t \<Rightarrow> size_t \<Rightarrow> 'w \<Rightarrow> (seqc_status_t \<times> ('k, 'v, 'w) hashmap_t \<times> 'w) option" where
  "hashmap_resize_and_rehash m new_cap w = do {
     (old_a, old) \<leftarrow> hm_buckets m;
     (p, w) \<leftarrow> mem_alloc (hm_alloc m) (wmul new_cap sizeof_bucket_t) w;
     case p of
       None \<Rightarrow> Some (SEQC_OOM, m, w)
     | Some a \<Rightarrow> do {
         old_buckets \<leftarrow> buckets_upto (hm_cap m) old;
         (u, w) \<leftarrow> hashmap_rehash old_buckets
           (m\<lparr>hm_buckets := Some (a, replicate (wmul new_cap sizeof_bucket_t div sizeof_bucket_t) empty_bucket),
              hm_cap := new_cap, hm_len := 0, hm_max_psl := 0\<rparr>) w;
         w \<leftarrow> mem_free (hm_alloc m) (Some old_a) (wmul (hm_cap m) sizeof_bucket_t) w;
         Some (SEQC_OK, u, w)
       }
   }"

definition hashmap_set ::
  "('k, 'v, 'w) hashmap_t option \<Rightarrow> 'k option \<Rightarrow> 'v option \<Rightarrow> 'w \<Rightarrow> (seqc_status_t \<times> ('k, 'v, 'w) hashmap_t option \<times> 'w) option" where
  "hashmap_set m key val w =
     (case (m, key, val) of
        (Some u, Some k, Some v) \<Rightarrow>
          if hm_buckets u = None then Some (SEQC_INVALID, m, w)
          else do {
            (rs, u, w) \<leftarrow>
              (if wmul (wadd (hm_len u) 1) 4 > wmul (hm_cap u) 3 \<or> hm_max_psl u \<ge> HASH_PSL_THRESHOLD
               then hashmap_resize_and_rehash u (wmul (hm_cap u) 2) w
               else Some (SEQC_OK, u, w));
            if rs \<noteq> SEQC_OK then Some (rs, Some u, w)
            else do {
              (key_copy, w) \<leftarrow> mem_alloc (hm_alloc u) (hm_key_size u) w;
              case key_copy of
                None \<Rightarrow> Some (SEQC_OOM, Some u, w)
              | Some ka \<Rightarrow> do {
                  (val_copy, w) \<leftarrow> mem_alloc (hm_alloc u) (hm_val_size u) w;
                  case val_copy of
                    None \<Rightarrow> do {
                      w \<leftarrow> mem_free (hm_alloc u) (Some ka) (hm_key_size u) w;
                      Some (SEQC_OOM, Some u, w)
                    }
                  | Some va \<Rightarrow> do {
                      (u, w) \<leftarrow> hashmap_insert_raw u \<lparr>hk_addr = ka, hk_key = k, hv_addr = va, hv_value = v\<rparr> w;
                      Some (SEQC_OK, Some u, w)
                    }
                }
            }
          }
      | _ \<Rightarrow> Some (SEQC_INVALID, m, w))"

subsection \<open>Creating, clearing, destroying\<close>

definition hashmap_create ::
  "size_t \<Rightarrow> size_t \<Rightarrow> 'k hash_fn option \<Rightarrow> 'k eq_fn option \<Rightarrow> 'w allocator_t \<Rightarrow> 'w \<Rightarrow>
   (('k, 'v, 'w) hashmap_t option \<times> 'w) option" where
  "hashmap_create ks vs hash eq al w =
     (case (hash, eq) of
        (Some h, Some e) \<Rightarrow>
          if al = None \<or> ks = 0 \<or> vs = 0 then Some (None, w)
          else do {
            (p, w) \<leftarrow> mem_alloc al sizeof_hashmap_t w;
            case p of
              None \<Rightarrow> Some (None, w)
            | Some self \<Rightarrow> do {
                (q, w) \<leftarrow> mem_alloc al (wmul 16 sizeof_bucket_t) w;
                case q of
                  None \<Rightarrow> do { w \<leftarrow> mem_free al (Some self) sizeof_hashmap_t w; Some (None, w) }
                | Some a \<Rightarrow> Some (Some \<lparr>hm_self = self,
                    hm_buckets = Some (a, replicate (wmul 16 sizeof_bucket_t div sizeof_bucket_t) empty_bucket),
                    hm_cap = 16, hm_len = 0, hm_key_size = ks, hm_val_size = vs, hm_max_psl = 0,
                    hm_hash = h, hm_eq = e, hm_alloc = al\<rparr>, w)
              }
          }
      | _ \<Rightarrow> Some (None, w))"

primrec hashmap_free_entries ::
  "'w allocator_t \<Rightarrow> size_t \<Rightarrow> size_t \<Rightarrow> ('k, 'v) hm_bucket_t list \<Rightarrow> 'w \<Rightarrow> 'w option" where
  "hashmap_free_entries al ks vs [] w = Some w"
| "hashmap_free_entries al ks vs (b # bs) w =
     (if bk_psl b \<noteq> 0 then do {
        e \<leftarrow> bk_data b;
        w \<leftarrow> mem_free al (Some (hk_addr e)) ks w;
        w \<leftarrow> mem_free al (Some (hv_addr e)) vs w;
        hashmap_free_entries al ks vs bs w
      } else hashmap_free_entries al ks vs bs w)"

definition hashmap_destroy :: "('k, 'v, 'w) hashmap_t option \<Rightarrow> 'w \<Rightarrow> 'w option" where
  "hashmap_destroy m w =
     (case m of
        None \<Rightarrow> Some w
      | Some u \<Rightarrow> do {
          w \<leftarrow> (case hm_buckets u of
             None \<Rightarrow> Some w
           | Some (a, bs) \<Rightarrow> do {
               visited \<leftarrow> buckets_upto (hm_cap u) bs;
               w \<leftarrow> hashmap_free_entries (hm_alloc u) (hm_key_size u) (hm_val_size u) visited w;
               mem_free (hm_alloc u) (Some a) (wmul (hm_cap u) sizeof_bucket_t) w
             });
          mem_free (hm_alloc u) (Some (hm_self u)) sizeof_hashmap_t w
        })"

definition hashmap_clear :: "('k, 'v, 'w) hashmap_t option \<Rightarrow> 'w \<Rightarrow> (('k, 'v, 'w) hashmap_t option \<times> 'w) option" where
  "hashmap_clear m w =
     (case m of
        None \<Rightarrow> Some (None, w)
      | Some u \<Rightarrow>
          (case hm_buckets u of
             None \<Rightarrow> Some (Some u, w)
           | Some (a, bs) \<Rightarrow> do {
               visited \<leftarrow> buckets_upto (hm_cap u) bs;
               w \<leftarrow> hashmap_free_entries (hm_alloc u) (hm_key_size u) (hm_val_size u) visited w;
               Some (Some (u\<lparr>hm_buckets := Some (a, replicate (hm_cap u) empty_bucket @ drop (hm_cap u) bs), hm_len := 0, hm_max_psl := 0\<rparr>), w)
             }))"

subsection \<open>Reading\<close>

definition hashmap_len :: "('k, 'v, 'w) hashmap_t option \<Rightarrow> size_t" where
  "hashmap_len m = (case m of None \<Rightarrow> 0 | Some u \<Rightarrow> hm_len u)"

definition hashmap_is_empty :: "('k, 'v, 'w) hashmap_t option \<Rightarrow> bool" where
  "hashmap_is_empty m \<longleftrightarrow> hashmap_len m = 0"

text \<open>A pointer to a value is its block with what it holds. The inner \<open>None\<close> is NULL.\<close>

definition hashmap_get_ptr ::
  "('k, 'v, 'w) hashmap_t option \<Rightarrow> 'k option \<Rightarrow> (addr \<times> 'v) option option" where
  "hashmap_get_ptr m key =
     (case (m, key) of
        (Some u, Some k) \<Rightarrow>
          (case hm_buckets u of
             None \<Rightarrow> Some None
           | Some (a, bs) \<Rightarrow> do {
               r \<leftarrow> rh_find_loop hk_key (\<lambda>x y. hm_eq u x y (hm_key_size u)) (hm_cap u) bs k (hashmap_get_slot u k) 1;
               case r of
                 None \<Rightarrow> Some None
               | Some i \<Rightarrow> do { e \<leftarrow> bk_data (bs ! i); Some (Some (hv_addr e, hv_value e)) }
             })
      | _ \<Rightarrow> Some None)"

definition hashmap_get ::
  "('k, 'v, 'w) hashmap_t option \<Rightarrow> 'k option \<Rightarrow> bool \<Rightarrow> (seqc_status_t \<times> 'v option) option" where
  "hashmap_get m key out =
     (case (m, key) of
        (Some u, Some k) \<Rightarrow>
          if hm_buckets u = None then Some (SEQC_NOT_FOUND, None)
          else do { p \<leftarrow> hashmap_get_ptr m key; seqc_copy_out (map_option (\<lambda>q. Some (snd q)) p) out }
      | _ \<Rightarrow> Some (SEQC_INVALID, None))"

definition hashmap_contains :: "('k, 'v, 'w) hashmap_t option \<Rightarrow> 'k option \<Rightarrow> bool option" where
  "hashmap_contains m key = do { (st, x) \<leftarrow> hashmap_get m key False; Some (st = SEQC_OK) }"

definition hashmap_is_healthy :: "('k, 'v, 'w) hashmap_t option \<Rightarrow> bool" where
  "hashmap_is_healthy m = (case m of None \<Rightarrow> False | Some u \<Rightarrow> hm_max_psl u \<le> HASH_PSL_THRESHOLD div 2)"

subsection \<open>Removing\<close>

definition hashmap_remove ::
  "('k, 'v, 'w) hashmap_t option \<Rightarrow> 'k option \<Rightarrow> 'w \<Rightarrow> (seqc_status_t \<times> ('k, 'v, 'w) hashmap_t option \<times> 'w) option" where
  "hashmap_remove m key w =
     (case (m, key) of
        (Some u, Some k) \<Rightarrow>
          (case hm_buckets u of
             None \<Rightarrow> Some (SEQC_INVALID, m, w)
           | Some (a, bs) \<Rightarrow> do {
               r \<leftarrow> rh_find_loop hk_key (\<lambda>x y. hm_eq u x y (hm_key_size u)) (hm_cap u) bs k (hashmap_get_slot u k) 1;
               case r of
                 None \<Rightarrow> Some (SEQC_NOT_FOUND, m, w)
               | Some i \<Rightarrow> do {
                   e \<leftarrow> bk_data (bs ! i);
                   w \<leftarrow> mem_free (hm_alloc u) (Some (hk_addr e)) (hm_key_size u) w;
                   w \<leftarrow> mem_free (hm_alloc u) (Some (hv_addr e)) (hm_val_size u) w;
                   bs \<leftarrow> rh_shift_loop (hm_cap u) (bs[i := (bs ! i)\<lparr>bk_psl := 0\<rparr>]) i (next_slot (hm_cap u) i);
                   Some (SEQC_OK, Some (u\<lparr>hm_buckets := Some (a, bs), hm_len := hm_len u - 1\<rparr>), w)
                 }
             })
      | _ \<Rightarrow> Some (SEQC_INVALID, m, w))"

subsection \<open>Iterators\<close>

type_synonym ('k, 'v) hashmap_entry_t = "'k \<times> 'v"

record ('k, 'v, 'w) hashmap_iter_state_t =
  hi_self :: addr
  hi_map :: "('k, 'v, 'w) hashmap_t"
  hi_slot :: size_t

definition entry_of :: "('k, 'v) hm_entry_t \<Rightarrow> ('k, 'v) hashmap_entry_t" where
  "entry_of e = (hk_key e, hv_value e)"

definition hashmap_iter_next ::
  "('k, 'v, 'w) hashmap_iter_state_t \<Rightarrow> 'w \<Rightarrow>
   (('k, 'v) hashmap_entry_t option \<times> ('k, 'v, 'w) hashmap_iter_state_t \<times> 'w) option" where
  "hashmap_iter_next s w = do {
     (a, bs) \<leftarrow> hm_buckets (hi_map s);
     (r, slot) \<leftarrow> scan_next bs (hm_cap (hi_map s)) (hi_slot s);
     Some (map_option entry_of r, s\<lparr>hi_slot := slot\<rparr>, w)
   }"

definition hashmap_iter_rev_next ::
  "('k, 'v, 'w) hashmap_iter_state_t \<Rightarrow> 'w \<Rightarrow>
   (('k, 'v) hashmap_entry_t option \<times> ('k, 'v, 'w) hashmap_iter_state_t \<times> 'w) option" where
  "hashmap_iter_rev_next s w = do {
     (a, bs) \<leftarrow> hm_buckets (hi_map s);
     (r, slot) \<leftarrow> scan_prev bs (hi_slot s);
     Some (map_option entry_of r, s\<lparr>hi_slot := slot\<rparr>, w)
   }"

definition hashmap_iter_drop :: "('k, 'v, 'w) hashmap_iter_state_t \<Rightarrow> 'w \<Rightarrow> 'w option" where
  "hashmap_iter_drop s w = mem_free (hm_alloc (hi_map s)) (Some (hi_self s)) sizeof_hashmap_iter_state_t w"

definition hashmap_iter ::
  "('k, 'v, 'w) hashmap_t option \<Rightarrow> 'w \<Rightarrow>
   ((('k, 'v) hashmap_entry_t, ('k, 'v, 'w) hashmap_iter_state_t, 'w) iter_t \<times> 'w) option" where
  "hashmap_iter m w =
     (case m of
        None \<Rightarrow> Some (iter_zero, w)
      | Some u \<Rightarrow>
          if hm_buckets u = None then Some (iter_zero, w)
          else do {
            (p, w) \<leftarrow> mem_alloc (hm_alloc u) sizeof_hashmap_iter_state_t w;
            case p of
              None \<Rightarrow> Some (iter_zero, w)
            | Some a \<Rightarrow> Some (iter_make hashmap_iter_next hashmap_iter_drop
                \<lparr>hi_self = a, hi_map = u, hi_slot = 0\<rparr> sizeof_entry_t (hm_alloc u), w)
          })"

definition hashmap_iter_rev ::
  "('k, 'v, 'w) hashmap_t option \<Rightarrow> 'w \<Rightarrow>
   ((('k, 'v) hashmap_entry_t, ('k, 'v, 'w) hashmap_iter_state_t, 'w) iter_t \<times> 'w) option" where
  "hashmap_iter_rev m w =
     (case m of
        None \<Rightarrow> Some (iter_zero, w)
      | Some u \<Rightarrow>
          if hm_buckets u = None then Some (iter_zero, w)
          else do {
            (p, w) \<leftarrow> mem_alloc (hm_alloc u) sizeof_hashmap_iter_state_t w;
            case p of
              None \<Rightarrow> Some (iter_zero, w)
            | Some a \<Rightarrow> Some (iter_make hashmap_iter_rev_next hashmap_iter_drop
                \<lparr>hi_self = a, hi_map = u, hi_slot = hm_cap u\<rparr> sizeof_entry_t (hm_alloc u), w)
          })"

definition hashmap_extend ::
  "('k, 'v, 'w) hashmap_t option \<Rightarrow> (('k, 'v) hashmap_entry_t, 's, 'w) iter_t \<Rightarrow> 'w \<Rightarrow>
   (seqc_status_t \<times> ('k, 'v, 'w) hashmap_t option \<times> 'w) option" where
  "hashmap_extend = entries_extend hashmap_set"

subsection \<open>The audit\<close>

text \<open>
  \<open>hashmap_audit\<close> computes two quotients in \<open>double\<close>. The division of two integers as doubles and
  the comparison with 3.0 are parameters; the sum of the psls is a double that only ever holds
  integers.
\<close>

record 'f hashmap_stats_t =
  hs_len :: size_t
  hs_cap :: size_t
  hs_load_factor :: 'f
  hs_max_psl :: nat
  hs_mean_psl :: 'f
  hs_is_healthy :: bool

definition hashmap_audit ::
  "(nat \<Rightarrow> nat \<Rightarrow> 'f) \<Rightarrow> ('f \<Rightarrow> bool) \<Rightarrow> 'f \<Rightarrow> ('k, 'v, 'w) hashmap_t option \<Rightarrow> 'f hashmap_stats_t option" where
  "hashmap_audit fdiv below_3 zero m =
     (case m of
        None \<Rightarrow> Some \<lparr>hs_len = 0, hs_cap = 0, hs_load_factor = zero, hs_max_psl = 0, hs_mean_psl = zero, hs_is_healthy = False\<rparr>
      | Some u \<Rightarrow> do {
          visited \<leftarrow> (case hm_buckets u of
              None \<Rightarrow> if hm_cap u = 0 then Some [] else None
            | Some (a, bs) \<Rightarrow> buckets_upto (hm_cap u) bs);
          let (acc, mx) = audit_loop visited 0 0;
          let mean = (if hm_len u > 0 then fdiv acc (hm_len u) else zero);
          Some \<lparr>hs_len = hm_len u, hs_cap = hm_cap u,
            hs_load_factor = (if hm_cap u > 0 then fdiv (hm_len u) (hm_cap u) else zero),
            hs_max_psl = mx, hs_mean_psl = mean,
            hs_is_healthy = (below_3 mean \<and> mx \<le> HASH_PSL_THRESHOLD div 2)\<rparr>
        })"

end
