(* ===== verification/Seqc_Hashmap_Laws.thy ===== *)
theory Seqc_Hashmap_Laws
  imports Seqc_Hashmap
begin

section \<open>What the hash map does to its entries\<close>

text \<open>
  \<open>hashmap_ok t hash eq ks u D\<close>: the table of \<open>u\<close> holds the entries \<open>D\<close>; \<open>max_psl\<close> bounds every
  psl, and exceeds \<open>124\<close> by at most the binary logarithm of the capacity. A capacity whose
  bytes fit \<open>PTRDIFF_MAX\<close> is at most \<open>2 ^ 58\<close>, so no psl gets near the 255 at which a byte
  wraps around. \<open>hashmap_ready\<close>: one more entry fits without disturbing that.
\<close>

definition hashmap_ok ::
  "'w vtable \<Rightarrow> 'k hash_fn \<Rightarrow> 'k eq_fn \<Rightarrow> size_t \<Rightarrow> ('k, 'v, 'w) hashmap_t \<Rightarrow> ('k, 'v) hm_entry_t multiset \<Rightarrow> bool" where
  "hashmap_ok t hash eq ks u D \<longleftrightarrow>
     hm_alloc u = Some t \<and> hm_hash u = hash \<and> hm_eq u = eq \<and> hm_key_size u = ks \<and> hm_len u = size D \<and>
     (\<exists>a bs k. hm_buckets u = Some (a, bs) \<and> hm_cap u = length bs \<and> length bs = 2 ^ k \<and> 4 \<le> k \<and>
        length bs * sizeof_bucket_t \<le> PTRDIFF_MAX \<and> size D < length bs \<and>
        table_ok hk_key (\<lambda>k. hash k ks) (\<lambda>a b. eq a b ks) bs D \<and>
        psl_within (hm_max_psl u) bs \<and> hm_max_psl u \<le> 124 + k)"

definition hashmap_ready ::
  "'w vtable \<Rightarrow> 'k hash_fn \<Rightarrow> 'k eq_fn \<Rightarrow> size_t \<Rightarrow> ('k, 'v, 'w) hashmap_t \<Rightarrow> ('k, 'v) hm_entry_t multiset \<Rightarrow> bool" where
  "hashmap_ready t hash eq ks u D \<longleftrightarrow> hashmap_ok t hash eq ks u D \<and> Suc (size D) < hm_cap u \<and>
     (\<exists>k. hm_cap u = 2 ^ k \<and> hm_max_psl u < 124 + k)"

text \<open>What setting a key in a map of \<open>n\<close> entries does to the capacity and the longest probe.\<close>

definition hashmap_grew :: "('k, 'v, 'w) hashmap_t \<Rightarrow> nat \<Rightarrow> ('k, 'v, 'w) hashmap_t \<Rightarrow> bool" where
  "hashmap_grew u n u' \<longleftrightarrow> table_grown (hm_cap u) (hm_max_psl u) n (hm_cap u') \<and> hm_max_psl u' \<le> max (hm_max_psl u) (Suc n)"

text \<open>A bound on what setting a key may request: a bucket array twice as large, a key and a value.\<close>

definition hashmap_request :: "('k, 'v, 'w) hashmap_t \<Rightarrow> size_t" where
  "hashmap_request u = 2 * hm_cap u * sizeof_bucket_t + hm_key_size u + hm_val_size u"

definition hashmap_same :: "('k, 'v, 'w) hashmap_t \<Rightarrow> ('k, 'v, 'w) hashmap_t \<Rightarrow> bool" where
  "hashmap_same u u' \<longleftrightarrow> hm_self u' = hm_self u \<and> hm_key_size u' = hm_key_size u \<and> hm_val_size u' = hm_val_size u \<and>
     hm_hash u' = hm_hash u \<and> hm_eq u' = hm_eq u \<and> hm_alloc u' = hm_alloc u"

lemma hashmap_same_refl [simp]: "hashmap_same u u"
  by (simp add: hashmap_same_def)

lemma hashmap_same_trans: "hashmap_same u u' \<Longrightarrow> hashmap_same u' u'' \<Longrightarrow> hashmap_same u u''"
  by (simp add: hashmap_same_def)

text \<open>The blocks of a map.\<close>

definition entry_cells :: "size_t \<Rightarrow> size_t \<Rightarrow> ('k, 'v) hm_entry_t \<Rightarrow> (addr \<times> size_t) list" where
  "entry_cells ks vs e = [(hk_addr e, ks), (hv_addr e, vs)]"

definition all_entry_cells :: "('k, 'v, 'w) hashmap_t \<Rightarrow> ('k, 'v) hm_entry_t list \<Rightarrow> (addr \<times> size_t) list" where
  "all_entry_cells u es = concat (map (entry_cells (hm_key_size u) (hm_val_size u)) es)"

definition hashmap_cells :: "('k, 'v, 'w) hashmap_t \<Rightarrow> (addr \<times> size_t) list" where
  "hashmap_cells u = (hm_self u, sizeof_hashmap_t) #
     (case hm_buckets u of
        None \<Rightarrow> []
      | Some (a, bs) \<Rightarrow> (a, hm_cap u * sizeof_bucket_t) # all_entry_cells u (contents bs))"

lemma all_entry_cells_simps [simp]:
  "all_entry_cells u [] = []"
  "all_entry_cells u (e # es) = (hk_addr e, hm_key_size u) # (hv_addr e, hm_val_size u) # all_entry_cells u es"
  by (simp_all add: all_entry_cells_def entry_cells_def)

lemma all_entry_cells_perm: "mset es = mset es' \<Longrightarrow> mset (all_entry_cells u es) = mset (all_entry_cells u es')"
  unfolding all_entry_cells_def by (rule concat_perm)

lemma all_entry_cells_same: "hashmap_same u u' \<Longrightarrow> all_entry_cells u' es = all_entry_cells u es"
  by (simp add: hashmap_same_def all_entry_cells_def)

text \<open>The entries in any order: the first of them can be brought to the front.\<close>

lemma hashmap_cells_as:
  assumes "hm_buckets u = Some (a, bs)" and "mset (contents bs) = mset es"
  shows "mset (hashmap_cells u) =
    mset ((hm_self u, sizeof_hashmap_t) # (a, hm_cap u * sizeof_bucket_t) # all_entry_cells u es)"
  using assms all_entry_cells_perm [OF assms(2), of u] by (simp add: hashmap_cells_def)

lemma hashmap_okD:
  assumes "hashmap_ok t hash eq ks u D"
  obtains a bs k where "hm_buckets u = Some (a, bs)" and "hm_cap u = length bs" and "length bs = 2 ^ k" and "4 \<le> k"
    and "length bs * sizeof_bucket_t \<le> PTRDIFF_MAX" and "size D < length bs"
    and "table_ok hk_key (\<lambda>k. hash k ks) (\<lambda>a b. eq a b ks) bs D"
    and "psl_within (hm_max_psl u) bs" and "hm_max_psl u \<le> 124 + k" and "k \<le> 58"
proof -
  from assms obtain a bs k where *: "hm_buckets u = Some (a, bs)" "hm_cap u = length bs" "length bs = 2 ^ k" "4 \<le> k"
    "length bs * sizeof_bucket_t \<le> PTRDIFF_MAX" "size D < length bs"
    "table_ok hk_key (\<lambda>k. hash k ks) (\<lambda>a b. eq a b ks) bs D"
    "psl_within (hm_max_psl u) bs" "hm_max_psl u \<le> 124 + k" unfolding hashmap_ok_def by blast
  have "(2 :: nat) ^ k < 2 ^ 59" using *(3,5) by (simp add: sizeof_bucket_t_def PTRDIFF_MAX_def)
  then have "k < 59" by (rule power_less_imp_less_exp [rotated]) simp
  with * that show ?thesis by simp
qed

lemma hashmap_okI:
  assumes "hm_alloc u = Some t" "hm_hash u = hash" "hm_eq u = eq" "hm_key_size u = ks" "hm_len u = size D"
    and "hm_buckets u = Some (a, bs)" "hm_cap u = length bs" "length bs = 2 ^ k" "4 \<le> k"
    and "length bs * sizeof_bucket_t \<le> PTRDIFF_MAX" "size D < length bs"
    and "table_ok hk_key (\<lambda>k. hash k ks) (\<lambda>a b. eq a b ks) bs D"
    and "psl_within (hm_max_psl u) bs" "hm_max_psl u \<le> 124 + k"
  shows "hashmap_ok t hash eq ks u D"
  using assms unfolding hashmap_ok_def by blast

lemma hashmap_ok_fields:
  assumes "hashmap_ok t hash eq ks u D"
  shows "hm_alloc u = Some t" "hm_hash u = hash" "hm_eq u = eq" "hm_key_size u = ks" "hm_len u = size D"
  using assms by (simp_all add: hashmap_ok_def)

locale hashmap_store = heap_allocator t live + key_hash "\<lambda>k. hash k ks" "\<lambda>a b. eq a b ks"
  for t :: "'w vtable" and live :: "'w \<Rightarrow> addr \<rightharpoonup> size_t" and hash :: "'k hash_fn" and eq :: "'k eq_fn" and ks :: size_t
begin

abbreviation ok :: "('k, 'v, 'w) hashmap_t \<Rightarrow> ('k, 'v) hm_entry_t multiset \<Rightarrow> bool" where
  "ok \<equiv> hashmap_ok t hash eq ks"

abbreviation ready :: "('k, 'v, 'w) hashmap_t \<Rightarrow> ('k, 'v) hm_entry_t multiset \<Rightarrow> bool" where
  "ready \<equiv> hashmap_ready t hash eq ks"

abbreviation table :: "('k, 'v) hm_bucket_t list \<Rightarrow> ('k, 'v) hm_entry_t multiset \<Rightarrow> bool" where
  "table \<equiv> table_ok hk_key (\<lambda>k. hash k ks) (\<lambda>a b. eq a b ks)"

subsection \<open>Growing\<close>

lemma rehash_at:
  assumes A: "table as N" "psl_within K as" "K < 255" "length bs = 2 * length as"
    and u: "hm_buckets u = Some (a, bs)" "hm_cap u = length bs" "hm_hash u = hash" "hm_eq u = eq" "hm_key_size u = ks" "hm_len u = size M"
    and t: "table bs M" "psl_within (hm_max_psl u) bs" "hm_max_psl u \<le> K"
    and c: "filled cs" "M + mset (contents cs) \<subseteq># N"
  shows "\<exists>bs' mx. hashmap_rehash cs u w =
      Some (u\<lparr>hm_buckets := Some (a, bs'), hm_max_psl := mx, hm_len := size M + length (contents cs)\<rparr>, w) \<and>
    length bs' = length bs \<and> table bs' (M + mset (contents cs)) \<and> psl_within mx bs' \<and> mx \<le> K"
  using u t c A(4)
proof (induction cs arbitrary: u bs M)
  case Nil
  have "u\<lparr>hm_buckets := Some (a, bs), hm_max_psl := hm_max_psl u, hm_len := size M\<rparr> = u" using Nil by simp
  with Nil show ?case by (intro exI [of _ bs] exI [of _ "hm_max_psl u"]) simp
next
  case (Cons c cs)
  show ?case
  proof (cases "bk_psl c = 0")
    case True
    with Cons.IH [OF Cons.prems(1-9)] Cons.prems show ?thesis by (simp add: contents_Cons)
  next
    case False
    then obtain e where e: "bk_data c = Some e" using Cons.prems(10) by auto
    have cs: "contents (c # cs) = e # contents cs" using False e by (simp add: contents_Cons)
    have "add_mset e M \<subseteq># M + mset (contents (c # cs))" by (simp add: cs)
    then have sub: "add_mset e M \<subseteq># N" using Cons.prems(11) by (rule subset_mset.order_trans)
    obtain bs1 mx1 d1 where i: "rh_insert_loop hk_key (\<lambda>a b. eq a b ks) (length bs) bs (hm_max_psl u)
          (hash (hk_key e) ks AND wsub (length bs) 1) e 1 = Some (None, bs1, mx1, d1)"
      "length bs1 = length bs" "table bs1 (add_mset e M)" "psl_within mx1 bs1" "mx1 \<le> K"
      using table_move [OF A(1-3) Cons.prems(7,12) sub Cons.prems(8,9)] by blast
    let ?u = "u\<lparr>hm_buckets := Some (a, bs1), hm_max_psl := mx1, hm_len := Suc (hm_len u)\<rparr>"
    have r: "hashmap_insert_raw u e w = Some (?u, w)"
      using i(1) Cons.prems(1-5) by (simp add: hashmap_insert_raw_def hashmap_get_slot_def)
    have "\<exists>bs' mx. hashmap_rehash cs ?u w =
        Some (?u\<lparr>hm_buckets := Some (a, bs'), hm_max_psl := mx, hm_len := size (add_mset e M) + length (contents cs)\<rparr>, w) \<and>
      length bs' = length bs1 \<and> table bs' (add_mset e M + mset (contents cs)) \<and> psl_within mx bs' \<and> mx \<le> K"
      by (rule Cons.IH) (use Cons.prems i cs in simp_all)
    with r False e i(2) show ?thesis by (auto simp: cs)
  qed
qed

lemma resize_at:
  fixes u :: "('k, 'v, 'w) hashmap_t"
  assumes ok: "ok u D" and o: "owns_cells (live w) R (hashmap_cells u)"
  obtains (grown) u' w' where "hashmap_resize_and_rehash u (wmul (hm_cap u) 2) w = Some (SEQC_OK, u', w')"
      and "ready u' D" and "owns_cells (live w') R (hashmap_cells u')" and "hashmap_same u u'"
      and "hm_cap u' = 2 * hm_cap u" and "hm_max_psl u' \<le> hm_max_psl u"
  | (oom) w' where "hashmap_resize_and_rehash u (wmul (hm_cap u) 2) w = Some (SEQC_OOM, u, w')"
      and "owns_cells (live w') R (hashmap_cells u)" and "refuses t (hashmap_request u)"
proof -
  note f = hashmap_ok_fields [OF ok]
  from ok obtain a bs k where b: "hm_buckets u = Some (a, bs)" "hm_cap u = length bs" "length bs = 2 ^ k" "4 \<le> k"
    "length bs * sizeof_bucket_t \<le> PTRDIFF_MAX" "size D < length bs" "table bs D"
    "psl_within (hm_max_psl u) bs" "hm_max_psl u \<le> 124 + k" "k \<le> 58" by (rule hashmap_okD)
  have z: "0 < sizeof_bucket_t" by (simp add: sizeof_bucket_t_def)
  note x = double_exact [OF b(5) z]
  show ?thesis using o
  proof (cases rule: cells_alloc [where n = "length bs * 2 * sizeof_bucket_t"])
    case (refused w')
    have "hashmap_resize_and_rehash u (wmul (hm_cap u) 2) w = Some (SEQC_OOM, u, w')"
      using refused(1) b(1,2) x f(1) by (simp add: hashmap_resize_and_rehash_def del: mem_alloc.simps)
    moreover have "refuses t (hashmap_request u)" by (rule refuses_mono [OF refused(3)]) (simp add: hashmap_request_def b(2))
    ultimately show ?thesis using refused(2) by (intro oom)
  next
    case (granted a' w')
    let ?n = "length bs * 2" and ?new = "replicate (length bs * 2) empty_bucket :: ('k, 'v) hm_bucket_t list"
    let ?u = "u\<lparr>hm_buckets := Some (a', ?new), hm_cap := ?n, hm_len := 0, hm_max_psl := 0\<rparr>"
    have n: "?n = 2 ^ Suc k" using b(3) by simp
    have "(2 :: nat) ^ Suc k \<le> 2 ^ 59" using b(10) by (intro power_increasing) simp_all
    then have n64: "?n < 2 ^ 64" unfolding n by simp
    have cs: "filled bs" "mset (contents bs) = D" using table_filled [OF b(7)] b(7) by (simp_all add: table_ok_def)
    have K: "hm_max_psl u < 255" using b(9,10) by linarith
    have "\<exists>bs' mx. hashmap_rehash bs ?u w' =
        Some (?u\<lparr>hm_buckets := Some (a', bs'), hm_max_psl := mx, hm_len := size ({#} :: ('k, 'v) hm_entry_t multiset) + length (contents bs)\<rparr>, w') \<and>
      length bs' = length ?new \<and> table bs' ({#} + mset (contents bs)) \<and> psl_within mx bs' \<and> mx \<le> hm_max_psl u"
      by (rule rehash_at [OF b(7,8) K]) (use f cs table_empty [OF n n64] in simp_all)
    then obtain bs' mx where r: "hashmap_rehash bs ?u w' =
        Some (?u\<lparr>hm_buckets := Some (a', bs'), hm_max_psl := mx, hm_len := length (contents bs)\<rparr>, w')"
      "length bs' = ?n" "table bs' D" "psl_within mx bs'" "mx \<le> hm_max_psl u" using cs(2) by auto
    let ?v = "?u\<lparr>hm_buckets := Some (a', bs'), hm_max_psl := mx, hm_len := length (contents bs)\<rparr>"
    have same: "hashmap_same u ?v" by (simp add: hashmap_same_def)
    have len: "length (contents bs) = size D" using cs(2) by (metis size_mset)
    have ok': "ok ?v D"
      by (rule hashmap_okI [where k = "Suc k" and bs = bs']) (use f r b len granted(3) in simp_all)
    have ready: "ready ?v D" unfolding hashmap_ready_def
      by (intro conjI ok' exI [of _ "Suc k"]) (use r(2,5) b(6,9) n in simp_all)
    have m: "mset (hashmap_cells ?v) = mset ((hm_self u, sizeof_hashmap_t) # (a', ?n * sizeof_bucket_t) # all_entry_cells u (contents bs))"
      using hashmap_cells_as [of ?v a' bs' "contents bs"] r(3) cs(2) all_entry_cells_same [OF same] by (simp add: table_ok_def)
    have "owns_cells (live w') R ((a, length bs * sizeof_bucket_t) # hashmap_cells ?v)"
      by (rule iffD1 [OF owns_cells_perm granted(2)]) (use m b(1,2) in \<open>simp add: hashmap_cells_def\<close>)
    then obtain w2 where w2: "mem_free (Some t) (Some a) (length bs * sizeof_bucket_t) w' = Some w2" "owns_cells (live w2) R (hashmap_cells ?v)"
      by (rule cells_free)
    have "wmul (length bs) sizeof_bucket_t = length bs * sizeof_bucket_t"
      by (rule wmul_exact) (use b(5) in \<open>simp add: PTRDIFF_MAX_def\<close>)
    then have "hashmap_resize_and_rehash u (wmul (hm_cap u) 2) w = Some (SEQC_OK, ?v, w2)"
      using granted(1) b(1,2) x f(1) r(1) w2(1) z by (simp add: hashmap_resize_and_rehash_def del: mem_alloc.simps mem_free.simps)
    then show ?thesis using ready w2(2) same by (rule grown) (use b(2) r(5) in simp_all)
  qed
qed

end

subsection \<open>Entries as pairs of key and value\<close>

text \<open>The abstract map: a multiset of pairs. A key that is set again keeps its bytes.\<close>

definition kv_has :: "('k \<Rightarrow> 'k \<Rightarrow> bool) \<Rightarrow> 'k \<Rightarrow> ('k \<times> 'v) multiset \<Rightarrow> bool" where
  "kv_has eq k M \<longleftrightarrow> (\<exists>e \<in># M. eq (fst e) k)"

definition kv_put :: "('k \<Rightarrow> 'k \<Rightarrow> bool) \<Rightarrow> 'k \<Rightarrow> 'v \<Rightarrow> ('k \<times> 'v) multiset \<Rightarrow> ('k \<times> 'v) multiset" where
  "kv_put eq k v M =
     (if kv_has eq k M then image_mset (\<lambda>e. if eq (fst e) k then (fst e, v) else e) M else add_mset (k, v) M)"

definition kv_del :: "('k \<Rightarrow> 'k \<Rightarrow> bool) \<Rightarrow> 'k \<Rightarrow> ('k \<times> 'v) multiset \<Rightarrow> ('k \<times> 'v) multiset" where
  "kv_del eq k M = filter_mset (\<lambda>e. \<not> eq (fst e) k) M"

lemma entry_of_simps [simp]: "fst (entry_of e) = hk_key e" "snd (entry_of e) = hv_value e"
  by (simp_all add: entry_of_def)

lemma kv_has_image: "kv_has eq k (image_mset entry_of D) \<longleftrightarrow> \<not> absent hk_key eq k D"
  by (auto simp: kv_has_def absent_def)

lemma kv_put_new: "absent hk_key eq k D \<Longrightarrow> kv_put eq k v (image_mset entry_of D) = add_mset (k, v) (image_mset entry_of D)"
  by (simp add: kv_put_def kv_has_image)

lemma kv_del_absent: "absent hk_key eq k D \<Longrightarrow> kv_del eq k (image_mset entry_of D) = image_mset entry_of D"
  unfolding kv_del_def absent_def by (subst filter_mset_eq_conv) auto

lemma kv_put_old:
  assumes "absent hk_key eq k D" and "eq (hk_key c) k"
  shows "kv_put eq k v (image_mset entry_of (add_mset c D)) = add_mset (hk_key c, v) (image_mset entry_of D)"
proof -
  have "image_mset (\<lambda>e. if eq (fst e) k then (fst e, v) else e) (image_mset entry_of D) = image_mset entry_of D"
    unfolding multiset.map_comp by (rule image_mset_cong) (use assms(1) in \<open>auto simp: absent_def\<close>)
  with assms show ?thesis by (simp add: kv_put_def kv_has_def)
qed

lemma kv_del_old:
  assumes "absent hk_key eq k D" and "eq (hk_key c) k"
  shows "kv_del eq k (image_mset entry_of (add_mset c D)) = image_mset entry_of D"
  using assms kv_del_absent [OF assms(1)] by (simp add: kv_del_def)

definition hashmap_is ::
  "'w vtable \<Rightarrow> 'k hash_fn \<Rightarrow> 'k eq_fn \<Rightarrow> size_t \<Rightarrow> ('k, 'v, 'w) hashmap_t \<Rightarrow> ('k \<times> 'v) multiset \<Rightarrow> bool" where
  "hashmap_is t hash eq ks u M \<longleftrightarrow>
     (\<exists>D. hashmap_ok t hash eq ks u D \<and> M = image_mset entry_of D) \<and> distinct (map fst (hashmap_cells u))"

definition hashmap_blocks :: "('k, 'v, 'w) hashmap_t \<Rightarrow> (addr \<rightharpoonup> size_t)" where
  "hashmap_blocks u = map_of (hashmap_cells u)"

definition hashmap_at ::
  "'w vtable \<Rightarrow> ('w \<Rightarrow> addr \<rightharpoonup> size_t) \<Rightarrow> 'k hash_fn \<Rightarrow> 'k eq_fn \<Rightarrow> size_t \<Rightarrow> (addr \<rightharpoonup> size_t) \<Rightarrow> 'w \<Rightarrow>
   ('k, 'v, 'w) hashmap_t \<Rightarrow> ('k \<times> 'v) multiset \<Rightarrow> bool" where
  "hashmap_at t live hash eq ks R w u M \<longleftrightarrow> hashmap_is t hash eq ks u M \<and> owns (live w) R (hashmap_blocks u)"

lemma hashmap_atI:
  "hashmap_ok t hash eq ks u D \<Longrightarrow> owns_cells (live w) R (hashmap_cells u) \<Longrightarrow> M = image_mset entry_of D \<Longrightarrow>
   hashmap_at t live hash eq ks R w u M"
  by (auto simp: hashmap_at_def hashmap_is_def hashmap_blocks_def owns_cells_def)

lemma hashmap_atE:
  assumes "hashmap_at t live hash eq ks R w u M"
  obtains D where "hashmap_ok t hash eq ks u D" and "owns_cells (live w) R (hashmap_cells u)" and "M = image_mset entry_of D"
  using assms by (auto simp: hashmap_at_def hashmap_is_def hashmap_blocks_def owns_cells_def)

context hashmap_store begin

abbreviation key_eq :: "'k \<Rightarrow> 'k \<Rightarrow> bool" where
  "key_eq \<equiv> \<lambda>a b. eq a b ks"

subsection \<open>Setting\<close>

lemma insert_raw_new:
  assumes r: "ready u D" and a: "absent hk_key key_eq (hk_key e) D"
    and o: "owns_cells (live w) R (entry_cells ks (hm_val_size u) e @ hashmap_cells u)"
  obtains u' where "hashmap_insert_raw u e w = Some (u', w)" and "ok u' (add_mset e D)"
    and "owns_cells (live w) R (hashmap_cells u')" and "hashmap_same u u'"
    and "hm_cap u' = hm_cap u" and "hm_max_psl u' \<le> max (hm_max_psl u) (Suc (size D))"
proof -
  from r have ok: "ok u D" by (simp add: hashmap_ready_def)
  note f = hashmap_ok_fields [OF ok]
  from ok obtain b bs k where b: "hm_buckets u = Some (b, bs)" "hm_cap u = length bs" "length bs = 2 ^ k" "4 \<le> k"
    "length bs * sizeof_bucket_t \<le> PTRDIFF_MAX" "size D < length bs" "table bs D"
    "psl_within (hm_max_psl u) bs" "hm_max_psl u \<le> 124 + k" "k \<le> 58" by (rule hashmap_okD)
  from r obtain k' where k': "hm_cap u = 2 ^ k'" "hm_max_psl u < 124 + k'" and room: "Suc (size D) < length bs"
    unfolding hashmap_ready_def b(2) by blast
  have "k' = k" by (rule power_inject_exp [THEN iffD1, of 2]) (use k'(1) b(2,3) in simp_all)
  with k'(2) room have rr: "Suc (size D) < length bs" "hm_max_psl u < 124 + k" by simp_all
  have K: "hm_max_psl u < 255" using b(9,10) by linarith
  obtain bs' mx' d' where i: "rh_insert_loop hk_key key_eq (length bs) bs (hm_max_psl u)
        (hash (hk_key e) ks AND wsub (length bs) 1) e 1 = Some (None, bs', mx', d')"
    "length bs' = length bs" "table bs' (add_mset e D)" "psl_within mx' bs'" "psl_within (Suc (hm_max_psl u)) bs'"
    "mx' = hm_max_psl u \<or> (\<exists>b \<in> set bs'. mx' = bk_psl b)"
    using table_insert_new [OF b(7) a b(6,8) K le_refl] by blast
  let ?u = "u\<lparr>hm_buckets := Some (b, bs'), hm_max_psl := mx', hm_len := Suc (hm_len u)\<rparr>"
  have run: "hashmap_insert_raw u e w = Some (?u, w)"
    using i(1) b(1,2) f by (simp add: hashmap_insert_raw_def hashmap_get_slot_def)
  have "mx' \<le> Suc (hm_max_psl u)" using i(5,6) by (auto simp: psl_within_def)
  then have ok': "ok ?u (add_mset e D)"
    by (intro hashmap_okI [where bs = bs' and k = k]) (use f b i rr in simp_all)
  have same: "hashmap_same u ?u" by (simp add: hashmap_same_def)
  have m: "mset (contents bs') = mset (e # contents bs)" using i(3) b(7) by (simp add: table_ok_def)
  have cells: "mset (entry_cells ks (hm_val_size u) e @ hashmap_cells u) = mset (hashmap_cells ?u)"
    using hashmap_cells_as [of ?u b bs' "e # contents bs", OF _ m] all_entry_cells_same [OF same] b(1) f(4)
    by (simp add: hashmap_cells_def entry_cells_def)
  have "psl_within (size (add_mset e D)) bs'" by (rule table_psl_size [OF i(3)]) (use rr(1) i(2) in simp)
  then have "mx' \<le> max (hm_max_psl u) (Suc (size D))" using i(6) by (auto simp: psl_within_def)
  then show ?thesis by (intro that [OF run ok' iffD1 [OF owns_cells_perm [OF cells] o] same]) simp_all
qed

lemma insert_raw_old:
  assumes r: "ready u (add_mset c D)" and c: "key_eq (hk_key c) (hk_key e)"
    and o: "owns_cells (live w) R (entry_cells ks (hm_val_size u) e @ hashmap_cells u)"
  obtains u' w' where "hashmap_insert_raw u e w = Some (u', w')"
    and "ok u' (add_mset (c\<lparr>hv_addr := hv_addr e, hv_value := hv_value e\<rparr>) D)"
    and "owns_cells (live w') R (hashmap_cells u')" and "hashmap_same u u'"
    and "hm_cap u' = hm_cap u" and "hm_max_psl u' = hm_max_psl u"
proof -
  from r have ok: "ok u (add_mset c D)" by (simp add: hashmap_ready_def)
  note f = hashmap_ok_fields [OF ok]
  from ok obtain b bs k where b: "hm_buckets u = Some (b, bs)" "hm_cap u = length bs" "length bs = 2 ^ k" "4 \<le> k"
    "length bs * sizeof_bucket_t \<le> PTRDIFF_MAX" "size (add_mset c D) < length bs" "table bs (add_mset c D)"
    "psl_within (hm_max_psl u) bs" "hm_max_psl u \<le> 124 + k" "k \<le> 58" by (rule hashmap_okD)
  have K: "psl_within 255 bs" by (rule psl_within_mono [OF b(8)]) (use b(9,10) in linarith)
  have "c \<in># add_mset c D" by simp
  from b(7) this c K obtain i where i: "rh_insert_loop hk_key key_eq (length bs) bs (hm_max_psl u)
        (hash (hk_key e) ks AND wsub (length bs) 1) e 1 = Some (Some i, bs, hm_max_psl u, e)"
    "i < length bs" "bk_psl (bs ! i) \<noteq> 0" "bk_data (bs ! i) = Some c" by (rule table_insert_present)
  let ?c = "c\<lparr>hv_addr := hv_addr e, hv_value := hv_value e\<rparr>"
  let ?bs = "bs[i := (bs ! i)\<lparr>bk_data := Some ?c\<rparr>]"
  let ?u = "u\<lparr>hm_buckets := Some (b, ?bs), hm_max_psl := hm_max_psl u\<rparr>"
  have "hk_key ?c = hk_key c" by simp
  note t' = table_replace [OF b(7) i(2-4) this]
  obtain ds where ds: "mset ds = D" using ex_mset by blast
  have same: "hashmap_same u ?u" by (simp add: hashmap_same_def)
  have m: "mset (contents bs) = mset (c # ds)" "mset (contents ?bs) = mset (?c # ds)"
    using b(7) t'(1) ds by (simp_all add: table_ok_def)
  have cells: "mset (entry_cells ks (hm_val_size u) e @ hashmap_cells u) =
      mset ((hk_addr e, ks) # (hv_addr c, hm_val_size u) # hashmap_cells ?u)"
    using hashmap_cells_as [OF b(1) m(1)] hashmap_cells_as [of ?u b ?bs, OF _ m(2)] all_entry_cells_same [OF same] f(4)
    by (simp add: entry_cells_def)
  have "owns_cells (live w) R ((hk_addr e, ks) # (hv_addr c, hm_val_size u) # hashmap_cells ?u)"
    using o owns_cells_perm [OF cells] by blast
  then obtain w1 where w1: "mem_free (Some t) (Some (hk_addr e)) ks w = Some w1"
    "owns_cells (live w1) R ((hv_addr c, hm_val_size u) # hashmap_cells ?u)" by (rule cells_free)
  from w1(2) obtain w2 where w2: "mem_free (Some t) (Some (hv_addr c)) (hm_val_size u) w1 = Some w2"
    "owns_cells (live w2) R (hashmap_cells ?u)" by (rule cells_free)
  have "hashmap_insert_raw u e w = Some (?u, w2)"
    using i b(1,2) f w1(1) w2(1) by (simp add: hashmap_insert_raw_def hashmap_get_slot_def del: mem_free.simps)
  moreover have "ok ?u (add_mset ?c D)"
    by (rule hashmap_okI [where bs = ?bs and k = k]) (use f b t' in simp_all)
  ultimately show ?thesis using w2(2) same by (intro that [of ?u w2]) simp_all
qed

lemma set_ready:
  assumes ok: "ok u D" and o: "owns_cells (live w) R (hashmap_cells u)"
  obtains (ready) u' w' where "(if wmul (wadd (hm_len u) 1) 4 > wmul (hm_cap u) 3 \<or> hm_max_psl u \<ge> HASH_PSL_THRESHOLD
        then hashmap_resize_and_rehash u (wmul (hm_cap u) 2) w else Some (SEQC_OK, u, w)) = Some (SEQC_OK, u', w')"
      and "ready u' D" and "owns_cells (live w') R (hashmap_cells u')" and "hashmap_same u u'"
      and "table_grown (hm_cap u) (hm_max_psl u) (size D) (hm_cap u')" and "hm_max_psl u' \<le> hm_max_psl u"
  | (oom) w' where "(if wmul (wadd (hm_len u) 1) 4 > wmul (hm_cap u) 3 \<or> hm_max_psl u \<ge> HASH_PSL_THRESHOLD
        then hashmap_resize_and_rehash u (wmul (hm_cap u) 2) w else Some (SEQC_OK, u, w)) = Some (SEQC_OOM, u, w')"
      and "owns_cells (live w') R (hashmap_cells u)" and "refuses t (hashmap_request u)"
proof -
  from ok obtain b bs k where b: "hm_buckets u = Some (b, bs)" "hm_cap u = length bs" "length bs = 2 ^ k" "4 \<le> k"
    "length bs * sizeof_bucket_t \<le> PTRDIFF_MAX" "size D < length bs" "table bs D"
    "psl_within (hm_max_psl u) bs" "hm_max_psl u \<le> 124 + k" "k \<le> 58" by (rule hashmap_okD)
  have len: "length bs \<le> 2 ^ 58" unfolding b(3) by (rule power_increasing) (use b(10) in simp_all)
  have cap: "wmul (hm_cap u) 3 = length bs * 3" unfolding b(2) by (rule wmul_exact) (use len in simp)
  have load: "wmul (wadd (hm_len u) 1) 4 = Suc (size D) * 4"
  proof -
    have "wadd (hm_len u) 1 = Suc (size D)" using b(6) len hashmap_ok_fields(5) [OF ok] by (subst wadd_exact) simp_all
    moreover have "wmul (Suc (size D)) 4 = Suc (size D) * 4" by (rule wmul_exact) (use b(6) len in simp)
    ultimately show ?thesis by simp
  qed
  show ?thesis
  proof (cases "wmul (wadd (hm_len u) 1) 4 > wmul (hm_cap u) 3 \<or> hm_max_psl u \<ge> HASH_PSL_THRESHOLD")
    case True
    from ok o show ?thesis
    proof (cases rule: resize_at)
      case (grown u' w')
      have "table_grown (hm_cap u) (hm_max_psl u) (size D) (hm_cap u')"
        using grown(5) True b(2) unfolding cap load by (auto simp: table_grown_def HASH_PSL_THRESHOLD_def)
      with True grown show ?thesis by (intro ready [of u' w']) simp_all
    next
      case (oom w')
      with True show ?thesis by (intro that(2) [of w']) simp_all
    qed
  next
    case False
    then have "Suc (size D) * 4 \<le> length bs * 3" "hm_max_psl u < 128" using cap load by (simp_all add: HASH_PSL_THRESHOLD_def)
    then have "ready u D" using ok b(2-4,6) by (auto simp: hashmap_ready_def intro!: exI [of _ k])
    with False o show ?thesis by (intro that(1) [of u w]) (simp_all add: table_grown_def)
  qed
qed

lemma hashmap_set_at:
  assumes at: "hashmap_at t live hash eq ks R w u M"
  obtains (ok) u' w' where "hashmap_set (Some u) (Some k) (Some v) w = Some (SEQC_OK, Some u', w')"
      and "hashmap_at t live hash eq ks R w' u' (kv_put key_eq k v M)" and "hashmap_same u u'"
      and "hashmap_grew u (size M) u'"
  | (oom) u' w' where "hashmap_set (Some u) (Some k) (Some v) w = Some (SEQC_OOM, Some u', w')"
      and "hashmap_at t live hash eq ks R w' u' M" and "hashmap_same u u'" and "refuses t (hashmap_request u)"
      and "hashmap_grew u (size M) u'"
proof -
  from at obtain D where D: "ok u D" "owns_cells (live w) R (hashmap_cells u)" "M = image_mset entry_of D" by (rule hashmap_atE)
  from D(1) obtain b bs where b: "hm_buckets u = Some (b, bs)" by (rule hashmap_okD)
  from D(1,2) show ?thesis
  proof (cases rule: set_ready)
    case (oom w1)
    have "hashmap_set (Some u) (Some k) (Some v) w = Some (SEQC_OOM, Some u, w1)"
      unfolding hashmap_set_def using b oom(1) by simp
    moreover have "hashmap_at t live hash eq ks R w1 u M" using D(1,3) oom(2) by (intro hashmap_atI)
    ultimately show ?thesis using oom(3) by (intro that(2) [of u w1]) (simp_all add: hashmap_grew_def table_grown_def)
  next
    case (ready u1 w1)
    note run = ready(1)
    have ok1: "ok u1 D" using ready(2) by (simp add: hashmap_ready_def)
    have M: "size M = size D" using D(3) by simp
    have grew: "hashmap_grew u (size M) u1" using ready(5,6) by (simp add: hashmap_grew_def M)
    note f = hashmap_ok_fields [OF ok1]
    from ready(3) show ?thesis
    proof (cases rule: cells_alloc [where n = ks])
      case (refused w2)
      have "hashmap_set (Some u) (Some k) (Some v) w = Some (SEQC_OOM, Some u1, w2)"
        unfolding hashmap_set_def using b run refused(1) f by (simp del: mem_alloc.simps)
      moreover have "hashmap_at t live hash eq ks R w2 u1 M" using ok1 D(3) refused(2) by (intro hashmap_atI)
      moreover have "refuses t (hashmap_request u)" by (rule refuses_mono [OF refused(3)]) (use ready(4) f in \<open>simp add: hashmap_request_def hashmap_same_def\<close>)
      ultimately show ?thesis using ready(4) grew by (intro that(2))
    next
      case (granted ka w2)
      note key = granted
      from key(2) show ?thesis
      proof (cases rule: cells_alloc [where n = "hm_val_size u1"])
        case (refused w3)
        from refused(2) obtain w4 where w4: "mem_free (Some t) (Some ka) ks w3 = Some w4" "owns_cells (live w4) R (hashmap_cells u1)"
          by (rule cells_free)
        have "hashmap_set (Some u) (Some k) (Some v) w = Some (SEQC_OOM, Some u1, w4)"
          unfolding hashmap_set_def using b run key(1) refused(1) f w4(1) by (simp del: mem_alloc.simps mem_free.simps)
        moreover have "hashmap_at t live hash eq ks R w4 u1 M" using ok1 D(3) w4(2) by (intro hashmap_atI)
        moreover have "refuses t (hashmap_request u)" by (rule refuses_mono [OF refused(3)]) (use ready(4) in \<open>simp add: hashmap_request_def hashmap_same_def\<close>)
        ultimately show ?thesis using ready(4) grew by (intro that(2))
      next
        case (granted va w3)
        let ?e = "\<lparr>hk_addr = ka, hk_key = k, hv_addr = va, hv_value = v\<rparr>"
        have "mset ((va, hm_val_size u1) # (ka, ks) # hashmap_cells u1) =
            mset (entry_cells ks (hm_val_size u1) ?e @ hashmap_cells u1)" by (simp add: entry_cells_def)
        from iffD1 [OF owns_cells_perm [OF this] granted(2)]
        have o: "owns_cells (live w3) R (entry_cells ks (hm_val_size u1) ?e @ hashmap_cells u1)" .
        have go: "hashmap_set (Some u) (Some k) (Some v) w =
            do { (u, w) \<leftarrow> hashmap_insert_raw u1 ?e w3; Some (SEQC_OK, Some u, w) }"
          unfolding hashmap_set_def using b run key(1) granted(1) f by (simp del: mem_alloc.simps mem_free.simps)
        show ?thesis
        proof (cases "absent hk_key key_eq k D")
          case True
          then have "absent hk_key key_eq (hk_key ?e) D" by simp
          from ready(2) this o obtain u2 where u2: "hashmap_insert_raw u1 ?e w3 = Some (u2, w3)" "ok u2 (add_mset ?e D)"
            "owns_cells (live w3) R (hashmap_cells u2)" "hashmap_same u1 u2"
            "hm_cap u2 = hm_cap u1" "hm_max_psl u2 \<le> max (hm_max_psl u1) (Suc (size D))" by (rule insert_raw_new)
          have "hashmap_grew u (size M) u2" using ready(5,6) u2(5,6) by (simp add: hashmap_grew_def M)
          moreover
          have "hashmap_at t live hash eq ks R w3 u2 (kv_put key_eq k v M)"
            using u2(2,3) by (rule hashmap_atI) (simp add: D(3) kv_put_new [OF True] entry_of_def)
          ultimately show ?thesis using go u2(1) hashmap_same_trans [OF ready(4) u2(4)] by (intro that(1) [of u2 w3]) simp_all
        next
          case False
          obtain b1 bs1 where t1: "table bs1 D" using ok1 by (rule hashmap_okD)
          from t1 False obtain c D0 where c: "D = add_mset c D0" "key_eq (hk_key c) k" "absent hk_key key_eq k D0"
            by (rule present_split)
          have "key_eq (hk_key c) (hk_key ?e)" using c(2) by simp
          from ready(2) [unfolded c(1)] this o obtain u2 w4 where u2: "hashmap_insert_raw u1 ?e w3 = Some (u2, w4)"
            "ok u2 (add_mset (c\<lparr>hv_addr := hv_addr ?e, hv_value := hv_value ?e\<rparr>) D0)"
            "owns_cells (live w4) R (hashmap_cells u2)" "hashmap_same u1 u2"
            "hm_cap u2 = hm_cap u1" "hm_max_psl u2 = hm_max_psl u1" by (rule insert_raw_old)
          have "hashmap_grew u (size M) u2" using ready(5,6) u2(5,6) by (simp add: hashmap_grew_def M)
          moreover
          have "hashmap_at t live hash eq ks R w4 u2 (kv_put key_eq k v M)"
            using u2(2,3) by (rule hashmap_atI) (unfold D(3) c(1) kv_put_old [OF c(3,2)], simp add: entry_of_def)
          ultimately show ?thesis using go u2(1) hashmap_same_trans [OF ready(4) u2(4)] by (intro that(1) [of u2 w4]) simp_all
        qed
      qed
    qed
  qed
qed

end

end
