(* ===== verification/Seqc_Hashmap_Ops.thy ===== *)
theory Seqc_Hashmap_Ops
  imports Seqc_Hashmap_Laws
begin

section \<open>The other operations of the hash map\<close>

text \<open>
  Creating, looking up, removing, clearing, destroying and iterating over a \<open>hashmap_t\<close>
  (\<open>src/hashmap/hashmap.c\<close>), each as what it does to the multiset of entries that \<open>hashmap_at\<close>
  abstracts to; how many buckets a table can have; and \<open>hashmap_extend\<close> as an instance of
  \<open>entry_fill\<close>.
\<close>

lemma free_entries_cells:
  assumes "filled bs"
  shows "hashmap_free_entries al (hm_key_size u) (hm_val_size u) bs w = free_cells al (all_entry_cells u (contents bs)) w"
  using assms
proof (induction bs arbitrary: w)
  case (Cons b bs)
  then have "hashmap_free_entries al (hm_key_size u) (hm_val_size u) bs = free_cells al (all_entry_cells u (contents bs))"
    by (intro ext) simp
  with Cons.prems show ?case by (cases "bk_psl b = 0") (auto simp: contents_Cons simp del: mem_free.simps)
qed simp

text \<open>What a lookup answers: the value of the entry with an equal key.\<close>

definition kv_look :: "('k \<Rightarrow> 'k \<Rightarrow> bool) \<Rightarrow> 'k \<Rightarrow> ('k \<times> 'v) multiset \<Rightarrow> 'v option \<Rightarrow> bool" where
  "kv_look eq k M r \<longleftrightarrow> (case r of None \<Rightarrow> \<not> kv_has eq k M | Some v \<Rightarrow> (\<exists>e \<in># M. eq (fst e) k \<and> snd e = v))"

lemma hashmap_remove_cap:
  "hashmap_remove (Some u) (Some k) w = Some (st, Some u', w') \<Longrightarrow> hm_cap u' = hm_cap u \<and> hm_max_psl u' = hm_max_psl u"
  by (auto simp: hashmap_remove_def bind_eq_Some_conv simp del: mem_free.simps split: option.splits)

lemma hashmap_clear_cap:
  "hashmap_clear (Some u) w = Some (Some u', w') \<Longrightarrow> hm_cap u' = hm_cap u \<and> hm_max_psl u' \<le> hm_max_psl u"
  by (auto simp: hashmap_clear_def bind_eq_Some_conv simp del: mem_free.simps split: option.splits)

text \<open>A map with what bounds the number of its buckets, \<open>c0\<close> of them at first.\<close>

type_synonym ('k, 'v) table = "('k \<times> 'v) multiset \<times> nat \<times> nat"

definition map_within ::
  "'w vtable \<Rightarrow> 'k hash_fn \<Rightarrow> 'k eq_fn \<Rightarrow> size_t \<Rightarrow> size_t \<Rightarrow> nat \<Rightarrow> ('k, 'v, 'w) hashmap_t \<Rightarrow> ('k, 'v) table \<Rightarrow> bool" where
  "map_within t hash eq ks vs c0 u m \<longleftrightarrow>
     hashmap_is t hash eq ks u (fst m) \<and> hm_val_size u = vs \<and> hm_cap u \<le> buckets_bound c0 (snd m) \<and> hm_max_psl u \<le> fst (snd m)"

definition hashmap_within ::
  "'w vtable \<Rightarrow> ('w \<Rightarrow> addr \<rightharpoonup> size_t) \<Rightarrow> 'k hash_fn \<Rightarrow> 'k eq_fn \<Rightarrow> size_t \<Rightarrow> size_t \<Rightarrow> nat \<Rightarrow>
   (addr \<rightharpoonup> size_t) \<Rightarrow> 'w \<Rightarrow> ('k, 'v, 'w) hashmap_t \<Rightarrow> ('k, 'v) table \<Rightarrow> bool" where
  "hashmap_within t live hash eq ks vs c0 R w u m \<longleftrightarrow>
     map_within t hash eq ks vs c0 u m \<and> owns (live w) R (hashmap_blocks u)"

definition within_put :: "('k \<Rightarrow> 'k \<Rightarrow> bool) \<Rightarrow> ('k, 'v) table \<Rightarrow> 'k \<times> 'v \<Rightarrow> ('k, 'v) table" where
  "within_put eq m e = (kv_put eq (fst e) (snd e) (fst m), peak_step (size (fst m)) (snd m))"

definition within_full :: "'w vtable \<Rightarrow> nat \<Rightarrow> size_t \<Rightarrow> ('k, 'v) table \<Rightarrow> bool" where
  "within_full t c0 n m \<longleftrightarrow> refuses t (2 * buckets_bound c0 (snd m) * sizeof_bucket_t + n)"

lemma within_puts: "fst (foldl (within_put eq) m es) = foldl (\<lambda>M e. kv_put eq (fst e) (snd e) M) (fst m) es"
  by (induction es arbitrary: m) (simp_all add: within_put_def)

lemma size_kv_put: "size (kv_put eq k v M) \<le> Suc (size M)"
  by (simp add: kv_put_def)

lemma within_puts_peak:
  "peak_within (size M) h (length es) (snd (foldl (within_put eq) (M, h, 0) es)) \<and>
   size (fst (foldl (within_put eq) (M, h, 0) es)) \<le> size M + length es"
proof (induction es rule: rev_induct)
  case Nil
  then show ?case by (simp add: peak_within_start)
next
  case (snoc e es)
  obtain N s where m: "foldl (within_put eq) (M, h, 0) es = (N, s)" by (rule prod.exhaust)
  with snoc have "peak_within (size M) h (length es) s" "size N \<le> size M + length es" by simp_all
  with peak_within_step size_kv_put [of eq "fst e" "snd e" N] m show ?case by (simp add: within_put_def [of _ "(N, s)"])
qed

context hashmap_store begin

subsection \<open>Creating\<close>

lemma hashmap_create_at:
  assumes "0 < ks" and "0 < vs"
  obtains (ok) u :: "('k, 'v, 'w) hashmap_t" and w' where "hashmap_create ks vs (Some hash) (Some eq) (Some t) w = Some (Some u, w')"
      and "hashmap_at t live hash eq ks (live w) w' u {#}" and "hm_val_size u = vs" and "hm_cap u = 16" and "hm_max_psl u = 0"
  | (oom) w' where "hashmap_create ks vs (Some hash) (Some eq) (Some t) w = Some (None :: ('k, 'v, 'w) hashmap_t option, w')"
      and "live w' = live w" and "starved (Some t)"
proof -
  have small: "16 * sizeof_bucket_t \<le> PTRDIFF_MAX" by (simp add: sizeof_bucket_t_def PTRDIFF_MAX_def)
  have z: "wmul 16 sizeof_bucket_t = 16 * sizeof_bucket_t" "16 * sizeof_bucket_t div sizeof_bucket_t = 16" "0 < sizeof_bucket_t"
    by (simp_all add: wmul_def sizeof_bucket_t_def size_mod_def)
  have o: "owns_cells (live w) (live w) []" by simp
  then show ?thesis
  proof (cases rule: cells_alloc [where n = sizeof_hashmap_t])
    case (refused w')
    then show ?thesis using assms starved_small [OF refused(3)] by (intro oom [of w']) (simp_all add: hashmap_create_def del: mem_alloc.simps)
  next
    case (granted self w1)
    note self = granted
    from self(2) show ?thesis
    proof (cases rule: cells_alloc [where n = "16 * sizeof_bucket_t"])
      case (refused w2)
      from refused(2) obtain w3 where w3: "mem_free (Some t) (Some self) sizeof_hashmap_t w2 = Some w3" "owns_cells (live w3) (live w) []"
        by (rule cells_free)
      then show ?thesis using assms self(1) refused(1) z starvedI [OF refused(3) small]
        by (intro oom [of w3]) (simp_all add: hashmap_create_def del: mem_alloc.simps mem_free.simps)
    next
      case (granted a w2)
      let ?bs = "replicate 16 empty_bucket :: ('k, 'v) hm_bucket_t list"
      let ?u = "\<lparr>hm_self = self, hm_buckets = Some (a, ?bs), hm_cap = 16, hm_len = 0, hm_key_size = ks, hm_val_size = vs,
        hm_max_psl = 0, hm_hash = hash, hm_eq = eq, hm_alloc = Some t\<rparr>"
      have "hashmap_create ks vs (Some hash) (Some eq) (Some t) w = Some (Some ?u, w2)"
        using assms self(1) granted(1) z by (simp add: hashmap_create_def del: mem_alloc.simps)
      moreover have "ok ?u {#}"
        by (rule hashmap_okI [where k = 4 and bs = ?bs]) (use granted(3) in \<open>simp_all add: table_empty [where k = 4]\<close>)
      moreover have "owns_cells (live w2) (live w) (hashmap_cells ?u)"
        by (rule iffD1 [OF owns_cells_perm granted(2)]) (simp add: hashmap_cells_def)
      ultimately show ?thesis by (intro that(1) [of ?u w2]) (auto intro: hashmap_atI)
    qed
  qed
qed

subsection \<open>Lookups\<close>

lemma hashmap_get_is:
  assumes at: "hashmap_at t live hash eq ks R w u M"
  shows "\<exists>r. kv_look key_eq k M r \<and>
    hashmap_get (Some u) (Some k) out = Some (case r of None \<Rightarrow> (SEQC_NOT_FOUND, None) | Some v \<Rightarrow> (SEQC_OK, if out then Some v else None)) \<and>
    hashmap_contains (Some u) (Some k) = Some (kv_has key_eq k M)"
proof -
  from at obtain D where D: "ok u D" "M = image_mset entry_of D" by (rule hashmap_atE)
  note f = hashmap_ok_fields [OF D(1)]
  from D(1) obtain b bs m where b: "hm_buckets u = Some (b, bs)" "hm_cap u = length bs" "size D < length bs" "table bs D"
    "psl_within (hm_max_psl u) bs" "hm_max_psl u \<le> 124 + m" "m \<le> 58" by (rule hashmap_okD) blast
  note defs = hashmap_get_def hashmap_contains_def hashmap_get_ptr_def hashmap_get_slot_def
  show ?thesis
  proof (cases "absent hk_key key_eq k D")
    case True
    have "rh_find_loop hk_key key_eq (length bs) bs k (hash k ks AND wsub (length bs) 1) 1 = Some None"
      by (rule table_find_absent [OF b(4) True b(3)])
    with True b(1,2) f show ?thesis
      by (intro exI [of _ None]) (simp add: defs kv_look_def D(2) kv_has_image)
  next
    case False
    with b(4) obtain c D0 where c: "D = add_mset c D0" "key_eq (hk_key c) k" by (rule present_split)
    have "c \<in># D" using c(1) by simp
    moreover have "psl_within 255 bs" by (rule psl_within_mono [OF b(5)]) (use b(6,7) in linarith)
    ultimately obtain i where i: "rh_find_loop hk_key key_eq (length bs) bs k (hash k ks AND wsub (length bs) 1) 1 = Some (Some i)"
      "i < length bs" "bk_psl (bs ! i) \<noteq> 0" "bk_data (bs ! i) = Some c" using table_find_present [OF b(4) _ c(2)] by blast
    have "kv_has key_eq k M" using False D(2) by (simp add: kv_has_image)
    moreover have "kv_look key_eq k M (Some (hv_value c))" using c(2) by (auto simp: kv_look_def D(2) c(1))
    ultimately show ?thesis using i b(1,2) f by (intro exI [of _ "Some (hv_value c)"]) (simp add: defs)
  qed
qed

subsection \<open>Removing\<close>

lemma hashmap_remove_at:
  assumes at: "hashmap_at t live hash eq ks R w u M"
  obtains u' w' where "hashmap_remove (Some u) (Some k) w = Some (if kv_has key_eq k M then SEQC_OK else SEQC_NOT_FOUND, Some u', w')"
    and "hashmap_at t live hash eq ks R w' u' (kv_del key_eq k M)" and "hashmap_same u u'"
proof -
  from at obtain D where D: "ok u D" "owns_cells (live w) R (hashmap_cells u)" "M = image_mset entry_of D" by (rule hashmap_atE)
  note f = hashmap_ok_fields [OF D(1)]
  from D(1) obtain b bs m where b: "hm_buckets u = Some (b, bs)" "hm_cap u = length bs" "length bs = 2 ^ m" "4 \<le> m"
    "length bs * sizeof_bucket_t \<le> PTRDIFF_MAX" "size D < length bs" "table bs D"
    "psl_within (hm_max_psl u) bs" "hm_max_psl u \<le> 124 + m" "m \<le> 58" by (rule hashmap_okD)
  note defs = hashmap_remove_def hashmap_get_slot_def
  show ?thesis
  proof (cases "absent hk_key key_eq k D")
    case True
    have "rh_find_loop hk_key key_eq (length bs) bs k (hash k ks AND wsub (length bs) 1) 1 = Some None"
      by (rule table_find_absent [OF b(7) True b(6)])
    then have "hashmap_remove (Some u) (Some k) w = Some (SEQC_NOT_FOUND, Some u, w)" using b(1,2) f by (simp add: defs)
    moreover have "kv_del key_eq k M = M" "\<not> kv_has key_eq k M" using True D(3) by (simp_all add: kv_del_absent kv_has_image)
    ultimately show ?thesis using at that by simp
  next
    case False
    with b(7) obtain c D0 where c: "D = add_mset c D0" "key_eq (hk_key c) k" "absent hk_key key_eq k D0" by (rule present_split)
    have "c \<in># D" using c(1) by simp
    moreover have "psl_within 255 bs" by (rule psl_within_mono [OF b(8)]) (use b(9,10) in linarith)
    ultimately obtain i where i: "rh_find_loop hk_key key_eq (length bs) bs k (hash k ks AND wsub (length bs) 1) 1 = Some (Some i)"
      "i < length bs" "bk_psl (bs ! i) \<noteq> 0" "bk_data (bs ! i) = Some c" using table_find_present [OF b(7) _ c(2)] by blast
    let ?z = "(bs ! i)\<lparr>bk_psl := 0\<rparr>"
    have sh: "rh_shifted hk_key (\<lambda>k. hash k ks) (bs[i := ?z]) (rh_shift_loop (length bs) (bs[i := ?z]) i (next_slot (length bs) i))"
      by (rule table_shift_ok(1) [OF b(7) i(2)]) simp
    obtain bs' where s: "rh_shift_loop (length bs) (bs[i := ?z]) i (next_slot (length bs) i) = Some bs'" "length bs' = length bs"
      "table bs' D0" "psl_within (hm_max_psl u) bs'"
      by (rule table_shifted [OF b(7) [unfolded c(1)] i(2-4) _ b(8) sh]) simp_all
    let ?u = "u\<lparr>hm_buckets := Some (b, bs'), hm_len := hm_len u - 1\<rparr>"
    have same: "hashmap_same u ?u" by (simp add: hashmap_same_def)
    have m: "mset (contents bs) = mset (c # contents bs')" using b(7) s(3) c(1) by (simp add: table_ok_def)
    have "mset (hashmap_cells u) = mset ((hk_addr c, ks) # (hv_addr c, hm_val_size u) # hashmap_cells ?u)"
      using hashmap_cells_as [OF b(1) m] hashmap_cells_as [of ?u b bs' "contents bs'"] all_entry_cells_same [OF same] f(4) by simp
    from iffD1 [OF owns_cells_perm [OF this] D(2)] obtain w1 where w1: "mem_free (Some t) (Some (hk_addr c)) ks w = Some w1"
      "owns_cells (live w1) R ((hv_addr c, hm_val_size u) # hashmap_cells ?u)" by (rule cells_free)
    from w1(2) obtain w2 where w2: "mem_free (Some t) (Some (hv_addr c)) (hm_val_size u) w1 = Some w2"
      "owns_cells (live w2) R (hashmap_cells ?u)" by (rule cells_free)
    have "hashmap_remove (Some u) (Some k) w = Some (SEQC_OK, Some ?u, w2)"
      using i s(1) b(1,2) f w1(1) w2(1) by (simp add: defs del: mem_free.simps)
    moreover have "ok ?u D0"
      by (rule hashmap_okI [where bs = bs' and k = m]) (use f b s c(1) in simp_all)
    then have "hashmap_at t live hash eq ks R w2 ?u (kv_del key_eq k M)"
      using w2(2) by (rule hashmap_atI) (simp only: D(3) c(1) kv_del_old [where eq = key_eq, OF c(3,2)])
    moreover have "kv_has key_eq k M" using False D(3) by (simp add: kv_has_image)
    ultimately show ?thesis using that same by simp
  qed
qed

subsection \<open>Clearing and destroying\<close>

lemma free_all_entries:
  assumes "ok u D" and "owns_cells (live w) R (hashmap_cells u)" and "hm_buckets u = Some (a, bs)"
  obtains w' where "hashmap_free_entries (Some t) (hm_key_size u) (hm_val_size u) bs w = Some w'"
    and "owns_cells (live w') R [(a, hm_cap u * sizeof_bucket_t), (hm_self u, sizeof_hashmap_t)]"
proof -
  from assms(1,3) have f: "filled bs" by (auto elim!: hashmap_okD dest: table_filled)
  have "mset (hashmap_cells u) =
      mset (all_entry_cells u (contents bs) @ [(a, hm_cap u * sizeof_bucket_t), (hm_self u, sizeof_hashmap_t)])"
    using assms(3) by (simp add: hashmap_cells_def)
  from free_cells_all [OF iffD1 [OF owns_cells_perm [OF this] assms(2)]] obtain w' where
    "free_cells (Some t) (all_entry_cells u (contents bs)) w = Some w'"
    "owns_cells (live w') R [(a, hm_cap u * sizeof_bucket_t), (hm_self u, sizeof_hashmap_t)]" by blast
  with that show ?thesis by (simp add: free_entries_cells [OF f])
qed

lemma hashmap_clear_at:
  fixes u :: "('k, 'v, 'w) hashmap_t"
  assumes at: "hashmap_at t live hash eq ks R w u M"
  obtains u' w' where "hashmap_clear (Some u) w = Some (Some u', w')" and "hashmap_at t live hash eq ks R w' u' {#}"
    and "hashmap_same u u'"
proof -
  from at obtain D where D: "ok u D" "owns_cells (live w) R (hashmap_cells u)" by (rule hashmap_atE)
  note f = hashmap_ok_fields [OF D(1)]
  from D(1) obtain b bs m where b: "hm_buckets u = Some (b, bs)" "hm_cap u = length bs" "length bs = 2 ^ m" "4 \<le> m"
    "length bs * sizeof_bucket_t \<le> PTRDIFF_MAX" "m \<le> 58" by (rule hashmap_okD) blast
  obtain w' where w': "hashmap_free_entries (Some t) (hm_key_size u) (hm_val_size u) bs w = Some w'"
    "owns_cells (live w') R [(b, hm_cap u * sizeof_bucket_t), (hm_self u, sizeof_hashmap_t)]" by (rule free_all_entries [OF D b(1)])
  let ?bs = "replicate (length bs) empty_bucket :: ('k, 'v) hm_bucket_t list"
  let ?u = "u\<lparr>hm_buckets := Some (b, ?bs), hm_len := 0, hm_max_psl := 0\<rparr>"
  have n64: "length bs < 2 ^ 64" unfolding b(3) by (rule power_strict_increasing) (use b(6) in simp_all)
  have "hashmap_clear (Some u) w = Some (Some ?u, w')" using b(1,2) f w'(1) by (simp add: hashmap_clear_def)
  moreover have "ok ?u {#}"
    by (rule hashmap_okI [where bs = ?bs and k = m]) (use f b n64 table_empty [OF b(3) n64] in simp_all)
  moreover have "owns_cells (live w') R (hashmap_cells ?u)"
    by (rule iffD1 [OF owns_cells_perm w'(2)]) (simp add: hashmap_cells_def)
  ultimately show ?thesis by (intro that [of ?u w']) (auto intro: hashmap_atI simp: hashmap_same_def)
qed

lemma hashmap_destroy_at:
  assumes at: "hashmap_at t live hash eq ks R w u M"
  obtains w' where "hashmap_destroy (Some u) w = Some w'" and "live w' = R"
proof -
  from at obtain D where D: "ok u D" "owns_cells (live w) R (hashmap_cells u)" by (rule hashmap_atE)
  note f = hashmap_ok_fields [OF D(1)]
  from D(1) obtain b bs where b: "hm_buckets u = Some (b, bs)" "hm_cap u = length bs"
    "length bs * sizeof_bucket_t \<le> PTRDIFF_MAX" by (rule hashmap_okD) blast
  obtain w1 where w1: "hashmap_free_entries (Some t) (hm_key_size u) (hm_val_size u) bs w = Some w1"
    "owns_cells (live w1) R [(b, hm_cap u * sizeof_bucket_t), (hm_self u, sizeof_hashmap_t)]" by (rule free_all_entries [OF D b(1)])
  have z: "wmul (length bs) sizeof_bucket_t = length bs * sizeof_bucket_t"
    by (rule wmul_exact) (use b(3) in \<open>simp add: PTRDIFF_MAX_def\<close>)
  from w1(2) obtain w2 where w2: "mem_free (Some t) (Some b) (hm_cap u * sizeof_bucket_t) w1 = Some w2"
    "owns_cells (live w2) R [(hm_self u, sizeof_hashmap_t)]" by (rule cells_free)
  from w2(2) obtain w3 where w3: "mem_free (Some t) (Some (hm_self u)) sizeof_hashmap_t w2 = Some w3" "owns_cells (live w3) R []"
    by (rule cells_free)
  with w1(1) w2(1) b f(1) z that show ?thesis by (simp add: hashmap_destroy_def del: mem_free.simps)
qed

subsection \<open>Iterating and extending\<close>

lemma hashmap_iter_closes:
  assumes "hm_alloc (hi_map s) = Some t" and "hi_self s = a"
  shows "iter_closes live (iter_make nx hashmap_iter_drop s es al) [a \<mapsto> sizeof_hashmap_iter_state_t]"
  by (rule iter_closes_block) (simp add: hashmap_iter_drop_def assms)

lemma hashmap_iters_built:
  assumes "hashmap_is t hash eq ks u M"
  shows "\<exists>es. mset es = M \<and> iter_built live (Some t) (live w) 16 es (hashmap_iter (Some u) w) \<and>
    iter_built live (Some t) (live w) 16 (rev es) (hashmap_iter_rev (Some u) w)"
proof -
  from assms obtain D where D: "ok u D" "M = image_mset entry_of D" by (auto simp: hashmap_is_def)
  note f = hashmap_ok_fields [OF D(1)]
  from D(1) obtain b bs where b: "hm_buckets u = Some (b, bs)" "hm_cap u = length bs" "table bs D" by (rule hashmap_okD) blast
  let ?es = "map entry_of (contents bs)"
  have "mset ?es = M" using b(3) D(2) by (simp add: table_ok_def)
  moreover have "iter_built live (Some t) (live w) 16 ?es (hashmap_iter (Some u) w) \<and>
    iter_built live (Some t) (live w) 16 (rev ?es) (hashmap_iter_rev (Some u) w)"
  proof (cases rule: iter_state_alloc [of sizeof_hashmap_iter_state_t w])
    case (refused w')
    then show ?thesis using b f(1)
      by (intro conjI iter_built_zero [of _ w']) (simp_all add: starved_small [OF refused(3)] hashmap_iter_def hashmap_iter_rev_def del: mem_alloc.simps)
  next
    case (granted a w')
    let ?mk = "\<lambda>slot. \<lparr>hi_self = a, hi_map = u, hi_slot = slot\<rparr>"
    have n: "hashmap_iter_next (?mk slot) w = Some (map_option entry_of r, ?mk slot', w)"
      if "scan_next bs (length bs) slot = Some (r, slot')" for slot r slot' and w :: 'w
      using that b by (simp add: hashmap_iter_next_def)
    have p: "hashmap_iter_rev_next (?mk slot) w = Some (map_option entry_of r, ?mk slot', w)"
      if "scan_prev bs slot = Some (r, slot')" for slot r slot' and w :: 'w
      using that b by (simp add: hashmap_iter_rev_next_def)
    have c: "iter_closes live (iter_make nx hashmap_iter_drop (?mk slot) 16 (Some t)) [a \<mapsto> sizeof_hashmap_iter_state_t]" for slot nx
      using f(1) by (intro hashmap_iter_closes) simp_all
    have "iter_rep live (map entry_of (contents (drop 0 bs))) (iter_make hashmap_iter_next hashmap_iter_drop (?mk 0) 16 (Some t))
        [a \<mapsto> sizeof_hashmap_iter_state_t]"
      by (rule scan_iter_rep [where mk = ?mk and nx = hashmap_iter_next and yield = entry_of]) (use table_filled [OF b(3)] n c in simp_all)
    note fr = this
    have fwd: "iter_built live (Some t) (live w) 16 ?es (hashmap_iter (Some u) w)"
      by (rule iter_built_valid [where live = live, OF _ _ _ granted(2)
          fr [unfolded drop_0]]) (use granted b f(1) in \<open>simp_all add: hashmap_iter_def sizeof_entry_t_def del: mem_alloc.simps\<close>)
    have "iter_rep live (map entry_of (rev (contents (take (length bs) bs))))
        (iter_make hashmap_iter_rev_next hashmap_iter_drop (?mk (length bs)) 16 (Some t)) [a \<mapsto> sizeof_hashmap_iter_state_t]"
      by (rule scan_iter_rev_rep [where mk = ?mk and nx = hashmap_iter_rev_next and yield = entry_of]) (use table_filled [OF b(3)] p c in simp_all)
    note br = this [unfolded take_all [OF order_refl] rev_map [symmetric]]
    have "iter_built live (Some t) (live w) 16 (rev ?es) (hashmap_iter_rev (Some u) w)"
      by (rule iter_built_valid [where live = live, OF _ _ _ granted(2) br])
        (use granted b f(1) in \<open>simp_all add: hashmap_iter_rev_def sizeof_entry_t_def del: mem_alloc.simps\<close>)
    with fwd show ?thesis ..
  qed
  ultimately show ?thesis by blast
qed

lemma resize_status: "hashmap_resize_and_rehash u n w = Some (st, u', w') \<Longrightarrow> st = SEQC_OK \<or> st = SEQC_OOM"
  by (auto simp: hashmap_resize_and_rehash_def bind_eq_Some_conv simp del: mem_alloc.simps mem_free.simps split: option.splits)

lemma set_status:
  assumes "hashmap_set (Some u) (Some k) (Some v) w = Some (st, c, w')"
  shows "st \<noteq> SEQC_DUPLICATE"
proof (cases "hm_buckets u = None")
  case False
  let ?grow = "if wmul (wadd (hm_len u) 1) 4 > wmul (hm_cap u) 3 \<or> hm_max_psl u \<ge> HASH_PSL_THRESHOLD
    then hashmap_resize_and_rehash u (wmul (hm_cap u) 2) w else Some (SEQC_OK, u, w)"
  from assms False obtain rs u1 w1 where g: "?grow = Some (rs, u1, w1)"
    unfolding hashmap_set_def by (cases ?grow) auto
  then have rs: "rs = SEQC_OK \<or> rs = SEQC_OOM" using resize_status by (metis Pair_inject option.inject)
  show ?thesis
  proof (cases "rs = SEQC_OK")
    case True
    with assms False g show ?thesis unfolding hashmap_set_def
      by (auto simp: bind_eq_Some_conv simp del: mem_alloc.simps mem_free.simps split: option.splits)
  qed (use assms False g rs in \<open>simp add: hashmap_set_def\<close>)
qed (use assms in \<open>simp add: hashmap_set_def\<close>)

lemma hashmap_set_within:
  fixes u :: "('k, 'v, 'w) hashmap_t"
  assumes m: "map_within t hash eq ks vs c0 u m" and o: "owns (live w) R (hashmap_blocks u)"
  obtains (ok) u' w' where "hashmap_set (Some u) (Some k) (Some v) w = Some (SEQC_OK, Some u', w')"
      and "owns (live w') R (hashmap_blocks u')" and "map_within t hash eq ks vs c0 u' (within_put key_eq m (k, v))"
      and "hashmap_same u u'"
  | (oom) u' w' where "hashmap_set (Some u) (Some k) (Some v) w = Some (SEQC_OOM, Some u', w')"
      and "owns (live w') R (hashmap_blocks u')" and "map_within t hash eq ks vs c0 u' (fst m, peak_step (size (fst m)) (snd m))"
      and "hashmap_same u u'" and "within_full t c0 (ks + vs) m"
proof -
  from m o have at: "hashmap_at t live hash eq ks R w u (fst m)"
    and sz: "hm_val_size u = vs" "hm_cap u \<le> buckets_bound c0 (snd m)" "hm_max_psl u \<le> fst (snd m)" "hm_key_size u = ks"
    by (auto simp: hashmap_at_def map_within_def hashmap_is_def hashmap_ok_def)
  have grew: "hm_cap u' \<le> buckets_bound c0 (peak_step (size (fst m)) (snd m))" "hm_max_psl u' \<le> fst (peak_step (size (fst m)) (snd m))"
    if "hashmap_grew u (size (fst m)) u'" for u' :: "('k, 'v, 'w) hashmap_t"
  proof -
    have g: "table_grown (hm_cap u) (hm_max_psl u) (size (fst m)) (hm_cap u')" "hm_max_psl u' \<le> max (hm_max_psl u) (Suc (size (fst m)))"
      using that by (simp_all add: hashmap_grew_def)
    show "hm_cap u' \<le> buckets_bound c0 (peak_step (size (fst m)) (snd m))" by (rule table_grown_bound [OF g(1) sz(2,3)])
    show "hm_max_psl u' \<le> fst (peak_step (size (fst m)) (snd m))" using g(2) sz(3) by (auto simp: peak_step_def)
  qed
  from at show ?thesis
  proof (cases rule: hashmap_set_at [where k = k and v = v])
    case (ok u' w')
    with grew [OF ok(4)] sz show ?thesis
      by (intro that(1) [of u' w']) (simp_all add: hashmap_at_def map_within_def within_put_def hashmap_same_def)
  next
    case (oom u' w')
    have "within_full t c0 (ks + vs) m" unfolding within_full_def
      by (rule refuses_mono [OF oom(4)]) (use sz in \<open>simp add: hashmap_request_def\<close>)
    with oom grew [OF oom(5)] sz show ?thesis
      by (intro that(2) [of u' w']) (simp_all add: hashmap_at_def map_within_def hashmap_same_def)
  qed
qed

lemma hashmap_entry_fill:
  "entry_fill t live hashmap_set hashmap_blocks (map_within t hash eq ks vs c0) (\<lambda>u m. hashmap_is t hash eq ks u (fst m))
    (within_put key_eq) hashmap_same (\<lambda>u. within_full t c0 (ks + vs))"
proof unfold_locales
  fix u :: "('k, 'v, 'w) hashmap_t" and m w R and x :: "'k \<times> 'v"
  assume "map_within t hash eq ks vs c0 u m" "owns (live w) R (hashmap_blocks u)"
  then show "\<exists>st u' w'. entry_add hashmap_set (Some u) (Some x) w = Some (st, Some u', w') \<and> owns (live w') R (hashmap_blocks u') \<and>
      hashmap_same u u' \<and> (if st = SEQC_OK \<or> st = SEQC_DUPLICATE then map_within t hash eq ks vs c0 u' (within_put key_eq m x)
        else st = SEQC_OOM \<and> hashmap_is t hash eq ks u' (fst m) \<and> within_full t c0 (ks + vs) m)"
  proof (cases rule: hashmap_set_within [where k = "fst x" and v = "snd x"])
    case (oom u' w')
    from oom(3) have "hashmap_is t hash eq ks u' (fst m)" by (simp add: map_within_def)
    with oom show ?thesis by (simp add: entry_add_def)
  qed (simp add: entry_add_def)
next
  fix c :: "('k, 'v, 'w) hashmap_t option" and k v w st c' w'
  assume "hashmap_set c k v w = Some (st, c', w')"
  then show "st \<noteq> SEQC_DUPLICATE"
    by (cases c; cases k; cases v) (auto dest!: set_status simp: hashmap_set_def [of None] hashmap_set_def [of "Some _" None] hashmap_set_def [of "Some _" "Some _" None])
qed (auto simp: map_within_def intro: hashmap_same_trans)

lemma hashmap_extend_at:
  assumes u: "hashmap_is t hash eq ks u M" and "owns2 (live w) R (hashmap_blocks u) B"
    and "iter_rep live es it B" and "iter_is_valid it" and "it_elem_size it = 16"
  shows "\<exists>st u' w' n. hashmap_extend (Some u) it w = Some (st, Some u', w') \<and>
    hashmap_at t live hash eq ks R w' u' (foldl (\<lambda>M e. kv_put key_eq (fst e) (snd e) M) M (take n es)) \<and>
    (st = SEQC_OK \<and> n = length es \<or>
     st = SEQC_OOM \<and> n < length es \<and>
     refuses t (2 * buckets_bound (hm_cap u) (peak_after (size M) (hm_max_psl u) n) * sizeof_bucket_t + (ks + hm_val_size u)))"
proof -
  let ?m = "\<lambda>n. foldl (within_put key_eq) (M, hm_max_psl u, 0) (take n es)"
  have m: "map_within t hash eq ks (hm_val_size u) (hm_cap u) u (M, hm_max_psl u, 0)"
    using u by (simp add: map_within_def buckets_bound_least)
  have "it_elem_size it = sizeof_entry_t" using assms(5) by (simp add: sizeof_entry_t_def)
  from entry_fill.entries_extend_at [OF hashmap_entry_fill m assms(2-4) this] obtain st u' w' n where
    e: "entries_extend hashmap_set (Some u) it w = Some (st, Some u', w')" "owns (live w') R (hashmap_blocks u')"
    "hashmap_is t hash eq ks u' (foldl (\<lambda>M e. kv_put key_eq (fst e) (snd e) M) M (take n es))"
    "st = SEQC_OK \<and> n = length es \<or> st = SEQC_OOM \<and> n < length es \<and> within_full t (hm_cap u) (ks + hm_val_size u) (?m n)"
    unfolding within_puts fst_conv by blast
  have "refuses t (2 * buckets_bound (hm_cap u) (peak_after (size M) (hm_max_psl u) n) * sizeof_bucket_t + (ks + hm_val_size u))"
    if "n < length es" and full: "within_full t (hm_cap u) (ks + hm_val_size u) (?m n)"
  proof (rule refuses_mono [OF full [unfolded within_full_def]])
    have "peak_within (size M) (hm_max_psl u) n (snd (?m n))"
      using within_puts_peak [of M "hm_max_psl u" "take n es" key_eq] that(1) by simp
    from peak_within_bound [OF this, of "hm_cap u"]
    show "2 * buckets_bound (hm_cap u) (snd (?m n)) * sizeof_bucket_t + (ks + hm_val_size u) \<le>
      2 * buckets_bound (hm_cap u) (peak_after (size M) (hm_max_psl u) n) * sizeof_bucket_t + (ks + hm_val_size u)" by simp
  qed
  with e show ?thesis
    by (intro exI [of _ st] exI [of _ u'] exI [of _ w'] exI [of _ n]) (auto simp: hashmap_at_def hashmap_extend_def)
qed

end

end
