(* ===== verification/Seqc_Hash.thy ===== *)
theory Seqc_Hash
  imports Seqc_Robin_Insert
begin

section \<open>The library's own hash functions\<close>

text \<open>
  \<open>hash_fnv1a\<close>, \<open>hash_eq_bytes\<close>, \<open>hash_cstr\<close> and \<open>hash_eq_cstr\<close> of \<open>src/hashmap/hashmap.c\<close>. A key is the
  list of the bytes it points to, as numbers below 256; a read past the last of them is undefined.
\<close>

type_synonym byte = nat

definition FNV_OFFSET :: size_t where
  "FNV_OFFSET = 14695981039346656037"

definition FNV_PRIME :: size_t where
  "FNV_PRIME = 1099511628211"

fun fnv1a_loop :: "size_t \<Rightarrow> byte list \<Rightarrow> size_t" where
  "fnv1a_loop h [] = h"
| "fnv1a_loop h (b # bs) = fnv1a_loop (wmul (h XOR b) FNV_PRIME) bs"

definition hash_fnv1a :: "byte list option \<Rightarrow> size_t \<Rightarrow> size_t option" where
  "hash_fnv1a key n =
     (if n = 0 \<or> key = None then Some 0
      else if length (the key) < n then None
      else Some (fnv1a_loop FNV_OFFSET (take n (the key))))"

definition hash_eq_bytes :: "byte list option \<Rightarrow> byte list option \<Rightarrow> size_t \<Rightarrow> bool option" where
  "hash_eq_bytes a b n =
     (if n = 0 then Some True
      else case (a, b) of
        (Some x, Some y) \<Rightarrow> if length x < n \<or> length y < n then None else Some (take n x = take n y)
      | _ \<Rightarrow> Some False)"

text \<open>
  A C string is the list of the bytes from its start on; it ends at the first 0. A key is a pointer
  to the pointer to the string, and \<open>sizeof(char *)\<close> is 8.
\<close>

fun cstr :: "byte list \<Rightarrow> byte list option" where
  "cstr [] = None"
| "cstr (b # bs) = (if b = 0 then Some [] else map_option (Cons b) (cstr bs))"

definition hash_cstr :: "byte list option option \<Rightarrow> size_t \<Rightarrow> size_t option" where
  "hash_cstr key n =
     (if n \<noteq> 8 then Some 0
      else case key of
        None \<Rightarrow> Some 0
      | Some None \<Rightarrow> Some 0
      | Some (Some s) \<Rightarrow> map_option (fnv1a_loop FNV_OFFSET) (cstr s))"

text \<open>\<open>strcmp\<close> of a NULL string is undefined.\<close>

definition hash_eq_cstr :: "byte list option option \<Rightarrow> byte list option option \<Rightarrow> size_t \<Rightarrow> bool option" where
  "hash_eq_cstr a b n =
     (if n \<noteq> 8 then Some False
      else case (a, b) of
        (Some x, Some y) \<Rightarrow> do { s \<leftarrow> x; s \<leftarrow> cstr s; u \<leftarrow> y; u \<leftarrow> cstr u; Some (s = u) }
      | _ \<Rightarrow> Some False)"

lemma fnv1a_loop_bound: "h < 2 ^ 64 \<Longrightarrow> fnv1a_loop h bs < 2 ^ 64"
proof (induction bs arbitrary: h)
  case (Cons b bs)
  show ?case using Cons.IH [OF wmul_bound] by simp
qed simp

subsection \<open>They fit together\<close>

text \<open>
  What \<open>hashmap_t\<close> and \<open>set_t\<close> need of a hash function and an equality, at one key size: the
  equality is an equivalence, and equal keys have the same hash.
\<close>

definition hash_fits :: "'k hash_fn \<Rightarrow> 'k eq_fn \<Rightarrow> size_t \<Rightarrow> bool" where
  "hash_fits hash eq n \<longleftrightarrow> key_hash (\<lambda>k. hash k n) (\<lambda>a b. eq a b n)"

text \<open>The functions on keys whose bytes are all there, as a table calls them.\<close>

definition bytes_hash :: "byte list \<Rightarrow> size_t \<Rightarrow> size_t" where
  "bytes_hash k n = (if n = 0 then 0 else fnv1a_loop FNV_OFFSET (take n k))"

definition bytes_eq :: "byte list \<Rightarrow> byte list \<Rightarrow> size_t \<Rightarrow> bool" where
  "bytes_eq a b n \<longleftrightarrow> n = 0 \<or> take n a = take n b"

lemma hash_fnv1a_is: "n \<le> length k \<Longrightarrow> hash_fnv1a (Some k) n = Some (bytes_hash k n)"
  by (simp add: hash_fnv1a_def bytes_hash_def)

lemma hash_eq_bytes_is: "n \<le> length a \<Longrightarrow> n \<le> length b \<Longrightarrow> hash_eq_bytes (Some a) (Some b) n = Some (bytes_eq a b n)"
  by (auto simp: hash_eq_bytes_def bytes_eq_def)

lemma bytes_key_hash: "key_hash (\<lambda>k. bytes_hash k n) (\<lambda>a b. bytes_eq a b n)"
  by unfold_locales (auto simp: bytes_hash_def bytes_eq_def)

lemma bytes_fit: "hash_fits bytes_hash bytes_eq n"
  by (simp add: hash_fits_def bytes_key_hash)

text \<open>A hash function that maps every key to the same slot fits, too.\<close>

definition flat_hash :: "byte list \<Rightarrow> size_t \<Rightarrow> size_t" where
  "flat_hash k n = 5"

lemma flat_fit: "hash_fits flat_hash bytes_eq n"
  unfolding hash_fits_def by unfold_locales (auto simp: flat_hash_def bytes_eq_def)

definition cstr_hash :: "byte list \<Rightarrow> size_t \<Rightarrow> size_t" where
  "cstr_hash s n = (case cstr s of None \<Rightarrow> 0 | Some bs \<Rightarrow> fnv1a_loop FNV_OFFSET bs)"

definition cstr_eq :: "byte list \<Rightarrow> byte list \<Rightarrow> size_t \<Rightarrow> bool" where
  "cstr_eq a b n \<longleftrightarrow> cstr a = cstr b"

lemma hash_cstr_is: "cstr s \<noteq> None \<Longrightarrow> hash_cstr (Some (Some s)) 8 = Some (cstr_hash s 8)"
  by (auto simp: hash_cstr_def cstr_hash_def)

lemma hash_eq_cstr_is:
  "cstr a \<noteq> None \<Longrightarrow> cstr b \<noteq> None \<Longrightarrow> hash_eq_cstr (Some (Some a)) (Some (Some b)) 8 = Some (cstr_eq a b 8)"
  by (auto simp: hash_eq_cstr_def cstr_eq_def)

interpretation bytes8: key_hash "\<lambda>k. bytes_hash k 8" "\<lambda>a b. bytes_eq a b 8"
  by (rule bytes_key_hash)

interpretation cstr8: key_hash "\<lambda>k. cstr_hash k 8" "\<lambda>a b. cstr_eq a b 8"
  by unfold_locales (auto simp: cstr_hash_def cstr_eq_def)

end
