(* ===== verification/Seqc_Hashmap_Properties.thy ===== *)
theory Seqc_Hashmap_Properties
  imports Seqc_Lifetime Seqc_Hashmap_Ops Seqc_Hash
begin

section \<open>The hash map against multisets of entries\<close>

text \<open>
  \<open>hash_map_spec\<close> says what each call of a \<open>hashmap_t\<close> may answer when the map holds the entries \<open>M\<close>,
  and what becomes of them. Setting a key fails only if the allocator refuses a request for a key, a
  value or twice the buckets: \<open>s\<close> has the most entries so far and the settings since they reached
  128, and \<open>buckets_bound 16 s\<close> bounds the buckets. \<open>n\<close> is the size of a key and a value.
\<close>

datatype ('k, 'v) table_op = HSet 'k 'v | HGet 'k | HContains 'k | HRemove 'k | HLen | HIsEmpty | HClear

datatype 'v table_answer = TStatus seqc_status_t | TValue seqc_status_t "'v option" | TTruth bool | TCount size_t

fun hash_map_spec ::
  "'w vtable \<Rightarrow> size_t \<Rightarrow> ('k \<Rightarrow> 'k \<Rightarrow> bool) \<Rightarrow> ('k, 'v) table_op \<Rightarrow> ('k, 'v) table \<Rightarrow> 'v table_answer \<Rightarrow> ('k, 'v) table \<Rightarrow> bool" where
  "hash_map_spec t n eq (HSet k v) (M, s) r m \<longleftrightarrow>
     r = TStatus SEQC_OK \<and> m = (kv_put eq k v M, peak_step (size M) s) \<or>
     r = TStatus SEQC_OOM \<and> m = (M, peak_step (size M) s) \<and> refuses t (2 * buckets_bound 16 s * sizeof_bucket_t + n)"
| "hash_map_spec t n eq (HGet k) (M, s) r m \<longleftrightarrow> m = (M, s) \<and>
     (\<exists>x. kv_look eq k M x \<and> r = (if x = None then TValue SEQC_NOT_FOUND None else TValue SEQC_OK x))"
| "hash_map_spec t n eq (HContains k) (M, s) r m \<longleftrightarrow> m = (M, s) \<and> r = TTruth (kv_has eq k M)"
| "hash_map_spec t n eq (HRemove k) (M, s) r m \<longleftrightarrow>
     m = (kv_del eq k M, s) \<and> r = TStatus (if kv_has eq k M then SEQC_OK else SEQC_NOT_FOUND)"
| "hash_map_spec t n eq HLen (M, s) r m \<longleftrightarrow> m = (M, s) \<and> r = TCount (size M)"
| "hash_map_spec t n eq HIsEmpty (M, s) r m \<longleftrightarrow> m = (M, s) \<and> r = TTruth (M = {#})"
| "hash_map_spec t n eq HClear (M, s) r m \<longleftrightarrow> r = TStatus SEQC_OK \<and> m = ({#}, s)"

fun hashmap_call ::
  "('k, 'v) table_op \<Rightarrow> ('k, 'v, 'w) hashmap_t option \<Rightarrow> 'w \<Rightarrow> ('v table_answer \<times> ('k, 'v, 'w) hashmap_t option \<times> 'w) option" where
  "hashmap_call (HSet k v) m w = do { (st, m, w) \<leftarrow> hashmap_set m (Some k) (Some v) w; Some (TStatus st, m, w) }"
| "hashmap_call (HGet k) m w = do { (st, x) \<leftarrow> hashmap_get m (Some k) True; Some (TValue st x, m, w) }"
| "hashmap_call (HContains k) m w = do { b \<leftarrow> hashmap_contains m (Some k); Some (TTruth b, m, w) }"
| "hashmap_call (HRemove k) m w = do { (st, m, w) \<leftarrow> hashmap_remove m (Some k) w; Some (TStatus st, m, w) }"
| "hashmap_call HLen m w = Some (TCount (hashmap_len m), m, w)"
| "hashmap_call HIsEmpty m w = Some (TTruth (hashmap_is_empty m), m, w)"
| "hashmap_call HClear m w = do { (m, w) \<leftarrow> hashmap_clear m w; Some (TStatus SEQC_OK, m, w) }"

context hashmap_store begin

lemma hashmap_len_is: "hashmap_at t live hash eq ks R w u M \<Longrightarrow> hashmap_len (Some u) = size M"
  by (auto elim!: hashmap_atE simp: hashmap_len_def hashmap_ok_def)

lemma hashmap_call_law:
  fixes u :: "('k, 'v, 'w) hashmap_t"
  assumes "hashmap_within t live hash eq ks vs 16 R w u m"
  shows "\<exists>r u' w' m'. hashmap_call p (Some u) w = Some (r, Some u', w') \<and> hash_map_spec t (ks + vs) key_eq p m r m' \<and>
    hashmap_within t live hash eq ks vs 16 R w' u' m'"
proof -
  obtain M s where m: "m = (M, s)" by (rule prod.exhaust)
  from assms have wi: "map_within t hash eq ks vs 16 u (M, s)" "owns (live w) R (hashmap_blocks u)"
    by (simp_all add: hashmap_within_def m)
  then have u: "hashmap_at t live hash eq ks R w u M" by (simp add: map_within_def hashmap_at_def)
  have within: "hashmap_within t live hash eq ks vs 16 R w' u' (M', s)" if "hashmap_at t live hash eq ks R w' u' M'"
    "hashmap_same u u'" "hm_cap u' = hm_cap u" "hm_max_psl u' \<le> hm_max_psl u" for u' :: "('k, 'v, 'w) hashmap_t" and w' M'
    using that wi by (simp add: hashmap_within_def map_within_def hashmap_at_def hashmap_same_def)
  show ?thesis
  proof (cases p)
    case (HSet k v)
    from wi show ?thesis unfolding HSet m
    proof (cases rule: hashmap_set_within [where k = k and v = v])
      case (ok u' w')
      then show "\<exists>r u' w' m'. hashmap_call (HSet k v) (Some u) w = Some (r, Some u', w') \<and>
          hash_map_spec t (ks + vs) key_eq (HSet k v) (M, s) r m' \<and> hashmap_within t live hash eq ks vs 16 R w' u' m'"
        by (intro exI [of _ "TStatus SEQC_OK"] exI [of _ u'] exI [of _ w'] exI [of _ "within_put key_eq (M, s) (k, v)"])
          (simp add: hashmap_within_def within_put_def)
    next
      case (oom u' w')
      then show "\<exists>r u' w' m'. hashmap_call (HSet k v) (Some u) w = Some (r, Some u', w') \<and>
          hash_map_spec t (ks + vs) key_eq (HSet k v) (M, s) r m' \<and> hashmap_within t live hash eq ks vs 16 R w' u' m'"
        by (intro exI [of _ "TStatus SEQC_OOM"] exI [of _ u'] exI [of _ w'] exI [of _ "(M, peak_step (size M) s)"])
          (simp add: hashmap_within_def within_full_def)
    qed
  next
    case (HGet k)
    from hashmap_get_is [OF u, of k True] obtain r where "kv_look key_eq k M r" "hashmap_get (Some u) (Some k) True =
      Some (case r of None \<Rightarrow> (SEQC_NOT_FOUND, None) | Some v \<Rightarrow> (SEQC_OK, if True then Some v else None))" by blast
    with assms m show ?thesis unfolding HGet by (cases r) auto
  next
    case (HContains k)
    with assms m hashmap_get_is [OF u, of k True] show ?thesis by auto
  next
    case (HRemove k)
    from u obtain u' w' where r: "hashmap_remove (Some u) (Some k) w = Some (if kv_has key_eq k M then SEQC_OK else SEQC_NOT_FOUND, Some u', w')"
      "hashmap_at t live hash eq ks R w' u' (kv_del key_eq k M)" "hashmap_same u u'" by (rule hashmap_remove_at)
    from within [OF r(2,3)] hashmap_remove_cap [OF r(1)] HRemove m r(1) show ?thesis by auto
  next
    case HClear
    from u obtain u' w' where r: "hashmap_clear (Some u) w = Some (Some u', w')" "hashmap_at t live hash eq ks R w' u' {#}"
      "hashmap_same u u'" by (rule hashmap_clear_at)
    from within [OF r(2,3)] hashmap_clear_cap [OF r(1)] HClear m r(1) show ?thesis by auto
  qed (use assms m hashmap_len_is [OF u] in \<open>auto simp: hashmap_is_empty_def\<close>)
qed

lemma hashmap_lifetime_laws:
  assumes "0 < ks" and "0 < vs"
  shows "lifetime_laws t live (hashmap_create ks vs (Some hash) (Some eq) (Some t) :: 'w \<Rightarrow> (('k, 'v, 'w) hashmap_t option \<times> 'w) option)
    (on_handle hashmap_call) (\<lambda>u. hashmap_destroy (Some u))
    (hash_map_spec t (ks + vs) key_eq) ({#}, 0, 0) (\<lambda>_. True) (hashmap_within t live hash eq ks vs 16)"
proof unfold_locales
  fix w
  show "\<exists>(c :: ('k, 'v, 'w) hashmap_t option) w'. hashmap_create ks vs (Some hash) (Some eq) (Some t) w = Some (c, w') \<and>
      (case c of None \<Rightarrow> live w' = live w \<and> starved (Some t) | Some c \<Rightarrow> hashmap_within t live hash eq ks vs 16 (live w) w' c ({#}, 0, 0))"
    using assms by (cases rule: hashmap_create_at [of vs w, where ?'v = 'v]) (auto simp: hashmap_within_def map_within_def hashmap_at_def buckets_bound_def)
next
  fix R w p m and u :: "('k, 'v, 'w) hashmap_t"
  assume "hashmap_within t live hash eq ks vs 16 R w u m"
  then show "\<exists>r u' w' m'. on_handle hashmap_call p u w = Some (r, u', w') \<and> hash_map_spec t (ks + vs) key_eq p m r m' \<and>
      hashmap_within t live hash eq ks vs 16 R w' u' m'"
    using hashmap_call_law [of vs R w u m p] by (fastforce intro: on_handleI)
next
  fix R w m and u :: "('k, 'v, 'w) hashmap_t"
  assume "hashmap_within t live hash eq ks vs 16 R w u m"
  then have "hashmap_at t live hash eq ks R w u (fst m)" by (simp add: hashmap_within_def map_within_def hashmap_at_def)
  then show "\<exists>w'. hashmap_destroy (Some u) w = Some w' \<and> live w' = R" by (rule hashmap_destroy_at) blast
qed

lemma hashmap_created:
  fixes u :: "('k, 'v, 'w) hashmap_t"
  assumes "hashmap_create ks vs (Some hash) (Some eq) (Some t) w = Some (Some u, w1)"
  shows "hashmap_within t live hash eq ks vs 16 (live w) w1 u ({#}, 0, 0)" and "0 < ks" and "0 < vs"
proof -
  show z: "0 < ks" "0 < vs" using assms by (auto simp: hashmap_create_def split: if_splits)
  then show "hashmap_within t live hash eq ks vs 16 (live w) w1 u ({#}, 0, 0)"
    by (cases rule: hashmap_create_at [of vs w, where ?'v = 'v]) (use assms in \<open>simp_all add: hashmap_within_def map_within_def hashmap_at_def buckets_bound_def\<close>)
qed

lemma hashmap_run:
  assumes "hashmap_create ks vs (Some hash) (Some eq) (Some t) w = Some (Some u, w1)"
  obtains rs u' w2 M where "run_ops (on_handle hashmap_call) ps u w1 = Some (rs, u', w2)"
    and "hashmap_at t live hash eq ks (live w) w2 u' M"
proof -
  have "\<forall>p \<in> set ps. True" by simp
  from lifetime_laws.run_allowed [OF hashmap_lifetime_laws [OF hashmap_created(2,3) [OF assms]] hashmap_created(1) [OF assms] this]
    that show ?thesis unfolding hashmap_within_def map_within_def hashmap_at_def by blast
qed

text \<open>Copying the entries of one map into another.\<close>

lemma hashmap_copy_at:
  assumes src: "hashmap_is t hash' eq' ks' s N" and "hashmap_store t live hash' eq' ks'"
    and dst: "hashmap_at t live hash eq ks R w u M"
  shows "\<exists>es n st u' w'. mset es = N \<and>
    (do { (it, w) \<leftarrow> hashmap_iter (Some s) w; hashmap_extend (Some u) it w }) = Some (st, Some u', w') \<and>
    hashmap_at t live hash eq ks R w' u' (foldl (\<lambda>M e. kv_put key_eq (fst e) (snd e) M) M (take n es)) \<and>
    (st = SEQC_OK \<and> n = length es \<or>
     st = SEQC_OOM \<and> n < length es \<and> refuses t (2 * buckets_bound (hm_cap u) (peak_after (size M) (hm_max_psl u) n) * sizeof_bucket_t + (ks + hm_val_size u)) \<or>
     st = SEQC_INVALID \<and> n = 0 \<and> starved (Some t))"
proof -
  from hashmap_store.hashmap_iters_built [OF assms(2) src, of w] obtain es where
    es: "mset es = N" "iter_built live (Some t) (live w) 16 es (hashmap_iter (Some s) w)" by blast
  from dst have u: "hashmap_is t hash eq ks u M" "owns (live w) R (hashmap_blocks u)" by (simp_all add: hashmap_at_def)
  from es(2) obtain it w1 where it: "hashmap_iter (Some s) w = Some (it, w1)"
    "it = iter_zero \<and> live w1 = live w \<and> starved (Some t) \<or>
     iter_is_valid it \<and> it_elem_size it = 16 \<and> (\<exists>B. owns (live w1) (live w) B \<and> iter_rep live es it B)"
    unfolding iter_built_def by blast
  show ?thesis
  proof (cases "it = iter_zero \<and> live w1 = live w \<and> starved (Some t)")
    case True
    have "owns (live w1) R (hashmap_blocks u)" using True u(2) by simp
    then have "hashmap_at t live hash eq ks R w1 u M" using u(1) by (simp add: hashmap_at_def)
    moreover have "hashmap_extend (Some u) it w1 = Some (SEQC_INVALID, Some u, w1)"
      using True by (simp add: hashmap_extend_def entries_extend_def)
    ultimately show ?thesis using it(1) es(1) True
      by (intro exI [of _ es] exI [of _ 0] exI [of _ SEQC_INVALID] exI [of _ u] exI [of _ w1]) simp
  next
    case False
    with it(2) obtain B where v: "iter_is_valid it" "it_elem_size it = 16" "owns (live w1) (live w) B" "iter_rep live es it B" by blast
    have "owns2 (live w1) R (hashmap_blocks u) B" by (rule owns2I [OF u(2) v(3)])
    with u(1) obtain st u' w' n where "hashmap_extend (Some u) it w1 = Some (st, Some u', w')"
      "hashmap_at t live hash eq ks R w' u' (foldl (\<lambda>M e. kv_put key_eq (fst e) (snd e) M) M (take n es))"
      "st = SEQC_OK \<and> n = length es \<or>
       st = SEQC_OOM \<and> n < length es \<and> refuses t (2 * buckets_bound (hm_cap u) (peak_after (size M) (hm_max_psl u) n) * sizeof_bucket_t + (ks + hm_val_size u))"
      using hashmap_extend_at [OF _ _ v(4,1,2)] by blast
    with it(1) es(1) show ?thesis
      by (intro exI [of _ es] exI [of _ n] exI [of _ st] exI [of _ u'] exI [of _ w']) auto
  qed
qed

lemma hashmap_is_apart: "hashmap_is t hash eq ks u M \<Longrightarrow> keys_apart fst key_eq M"
  by (auto simp: hashmap_is_def hashmap_ok_def table_ok_def keys_apart_def filter_mset_image_mset)

lemma puts_apart:
  assumes "keys_apart fst key_eq (mset es + M)"
  shows "foldl (\<lambda>M e. kv_put key_eq (fst e) (snd e) M) M es = M + mset es"
  using assms
proof (induction es arbitrary: M)
  case (Cons e es)
  then have "keys_apart fst key_eq (add_mset e (mset es + M))" by simp
  then have "absent fst key_eq (fst e) M" unfolding keys_apart_add by (auto simp: absent_def)
  then have "kv_put key_eq (fst e) (snd e) M = add_mset e M" by (auto simp: kv_put_def kv_has_def absent_def)
  with Cons show ?case by simp
qed simp

end

interpretation sys_hashmap: hashmap_store sys_allocator hp_live bytes_hash bytes_eq 8
  by unfold_locales

interpretation sys_hashmap_life: lifetime_laws sys_allocator hp_live
  "hashmap_create 8 4 (Some bytes_hash) (Some bytes_eq) (Some sys_allocator)"
  "on_handle hashmap_call" "\<lambda>u. hashmap_destroy (Some u)" "hash_map_spec sys_allocator 12 (\<lambda>a b. bytes_eq a b 8)" "({#}, 0, 0)" "\<lambda>_. True"
  "hashmap_within sys_allocator hp_live bytes_hash bytes_eq 8 4 16"
  using sys_hashmap.hashmap_lifetime_laws [of 4] by simp

interpretation sys_hashmap_set: entry_fill sys_allocator hp_live hashmap_set hashmap_blocks
  "map_within sys_allocator bytes_hash bytes_eq 8 4 16" "\<lambda>u m. hashmap_is sys_allocator bytes_hash bytes_eq 8 u (fst m)"
  "within_put (\<lambda>a b. bytes_eq a b 8)" hashmap_same "\<lambda>u. within_full sys_allocator 16 (8 + 4)"
  by (rule sys_hashmap.hashmap_entry_fill)

subsection \<open>Properties\<close>

lemma hashmap_storeI: "heap_allocator t live \<Longrightarrow> hash_fits hash eq ks \<Longrightarrow> hashmap_store t live hash eq ks"
  by (simp add: hashmap_store_def hash_fits_def)

text \<open>
  C30. A program that creates a \<open>hashmap_t\<close>, applies any sequence of its operations and destroys it
  has a defined result, for every hash function and equality that fit together, however many
  collisions there are: each answer is the one of a multiset of entries with distinct keys, every
  probe ends, the assertion on the probe counter never fails, and no block is leaked or freed
  twice. Setting a key may answer \<open>SEQC_OOM\<close>, and then changes no entry, only if the allocator
  refuses a request for a key, a value or twice the buckets: as long as the map held at most \<open>n\<close>
  entries, \<open>n < 127\<close>, it has at most \<open>max 16 (3 * Suc n)\<close> buckets; after that each setting may
  double them.
\<close>
theorem hashmap_lifetime_correct:
  assumes "heap_allocator t live" and "hash_fits hash eq ks" and "0 < ks" and "0 < vs"
  shows "lifetime_ok t live (hash_map_spec t (ks + vs) (\<lambda>a b. eq a b ks)) ({#}, 0, 0) ps w
    (lifetime (hashmap_create ks vs (Some hash) (Some eq) (Some t)) (on_handle hashmap_call) (\<lambda>u. hashmap_destroy (Some u)) ps w)"
  by (rule lifetime_laws.lifetime_is_ok [OF hashmap_store.hashmap_lifetime_laws [OF hashmap_storeI [OF assms(1,2)] assms(3,4)]]) simp

theorem hashmap_lifetime_witness:
  "lifetime_ok oom_after_allocator hp_live (hash_map_spec oom_after_allocator 5 (\<lambda>a b. bytes_eq a b 1)) ({#}, 0, 0)
    [HSet [7] True, HSet [9] False, HSet [7] False, HGet [7], HRemove [9], HContains [9], HLen] (heap_with 6)
    (lifetime (hashmap_create 1 4 (Some bytes_hash) (Some bytes_eq) (Some oom_after_allocator)) (on_handle hashmap_call)
      (\<lambda>u. hashmap_destroy (Some u))
      [HSet [7] True, HSet [9] False, HSet [7] False, HGet [7], HRemove [9], HContains [9], HLen] (heap_with 6))"
  using hashmap_lifetime_correct [OF oom.heap_allocator_axioms bytes_fit, of 1 4] by simp

text \<open>
  C31. After any such sequence of operations \<open>max_psl\<close> bounds the probe-sequence length of every
  bucket, and is at most 182, although only a resize at 128 holds it down and a resize need not
  spread the keys: the byte it is kept in never wraps around, even for a constant hash function.
\<close>
theorem hashmap_psl_bounded:
  assumes "heap_allocator t live" and "hash_fits hash eq ks"
    and "hashmap_create ks vs (Some hash) (Some eq) (Some t) w = Some (Some u, w1)"
    and "run_ops (on_handle hashmap_call) ps u w1 = Some (rs, u', w2)"
  shows "\<exists>a bs. hm_buckets u' = Some (a, bs) \<and> length bs = hm_cap u' \<and> length (contents bs) = hm_len u' \<and>
    (\<forall>b \<in> set bs. bk_psl b \<le> hm_max_psl u') \<and> hm_max_psl u' \<le> 182"
proof -
  note s = hashmap_storeI [OF assms(1,2)]
  obtain rs' v w3 M where r: "run_ops (on_handle hashmap_call) ps u w1 = Some (rs', v, w3)"
    "hashmap_at t live hash eq ks (live w) w3 v M" by (rule hashmap_store.hashmap_run [OF s assms(3)])
  have "v = u'" using r(1) assms(4) by simp
  with r(2) obtain D where ok: "hashmap_ok t hash eq ks u' D" by (auto elim: hashmap_atE)
  then obtain a bs k where b: "hm_buckets u' = Some (a, bs)" "hm_cap u' = length bs"
    "table_ok hk_key (\<lambda>k. hash k ks) (\<lambda>a b. eq a b ks) bs D" "psl_within (hm_max_psl u') bs" "hm_max_psl u' \<le> 124 + k" "k \<le> 58"
    by (rule hashmap_okD) blast
  have "hm_max_psl u' \<le> 182" using b(5,6) by linarith
  with b table_okD(5) [OF b(3)] hashmap_ok_fields(5) [OF ok] show ?thesis by (auto simp: psl_within_def)
qed

theorem hashmap_psl_bounded_witness:
  "\<exists>u w1 rs u' w2. hashmap_create 1 4 (Some flat_hash) (Some bytes_eq) (Some sys_allocator) (heap_with 0) = Some (Some u, w1) \<and>
    run_ops (on_handle hashmap_call) (map (\<lambda>i. HSet [i] True) [0..<256]) u w1 = Some (rs, u', w2) \<and>
    (\<exists>a bs. hm_buckets u' = Some (a, bs) \<and> length bs = hm_cap u' \<and> length (contents bs) = hm_len u' \<and>
      (\<forall>b \<in> set bs. bk_psl b \<le> hm_max_psl u') \<and> hm_max_psl u' \<le> 182)"
proof -
  obtain u :: "(byte list, bool, c_heap) hashmap_t" and w1 where
    c: "hashmap_create 1 4 (Some flat_hash) (Some bytes_eq) (Some sys_allocator) (heap_with 0) = Some (Some u, w1)"
    by (simp add: hashmap_create_def c_heap_defs sizeof_hashmap_t_def sizeof_bucket_t_def PTRDIFF_MAX_def wmul_def size_mod_def)
  obtain rs u' w2 where r: "run_ops (on_handle hashmap_call) (map (\<lambda>i. HSet [i] True) [0..<256]) u w1 = Some (rs, u', w2)"
    by (rule hashmap_store.hashmap_run [OF hashmap_storeI [OF sys.heap_allocator_axioms flat_fit] c])
  note hashmap_psl_bounded [OF sys.heap_allocator_axioms flat_fit c r]
  with c r show ?thesis by blast
qed

text \<open>
  C32. The iterators of a \<open>hashmap_t\<close> yield each entry once, forwards or backwards in the same order;
  draining one into another map with \<open>hashmap_extend\<close> sets its entries one by one, in full, or up
  to the point where the allocator refused a request for an entry or twice the buckets. A full
  copy into an empty map holds the same entries. The source is another map: its blocks lie in the
  frame \<open>R\<close>.
\<close>
theorem hashmap_copy_correct:
  assumes "heap_allocator t live" and "hash_fits hash eq ks"
    and "hashmap_is t hash eq ks s N" and "hashmap_at t live hash eq ks R w u M" and "hashmap_blocks s \<subseteq>\<^sub>m R"
  shows "(\<exists>es. mset es = N \<and> iter_built live (Some t) (live w) 16 es (hashmap_iter (Some s) w) \<and>
      iter_built live (Some t) (live w) 16 (rev es) (hashmap_iter_rev (Some s) w)) \<and>
    (\<exists>es n st u' w' M'. mset es = N \<and>
      (do { (it, w) \<leftarrow> hashmap_iter (Some s) w; hashmap_extend (Some u) it w }) = Some (st, Some u', w') \<and>
      M' = foldl (\<lambda>M e. kv_put (\<lambda>a b. eq a b ks) (fst e) (snd e) M) M (take n es) \<and>
      hashmap_at t live hash eq ks R w' u' M' \<and>
      (st = SEQC_OK \<and> n = length es \<or>
       st = SEQC_OOM \<and> n < length es \<and> refuses t (2 * buckets_bound (hm_cap u) (peak_after (size M) (hm_max_psl u) n) * sizeof_bucket_t + (ks + hm_val_size u)) \<or>
       st = SEQC_INVALID \<and> n = 0 \<and> starved (Some t)) \<and>
      (M = {#} \<and> st = SEQC_OK \<longrightarrow> M' = N))"
proof -
  note h = hashmap_storeI [OF assms(1,2)]
  from hashmap_store.hashmap_copy_at [OF h assms(3) h assms(4)] obtain es n st u' w' where
    c: "mset es = N" "(do { (it, w) \<leftarrow> hashmap_iter (Some s) w; hashmap_extend (Some u) it w }) = Some (st, Some u', w')"
    "hashmap_at t live hash eq ks R w' u' (foldl (\<lambda>M e. kv_put (\<lambda>a b. eq a b ks) (fst e) (snd e) M) M (take n es))"
    "st = SEQC_OK \<and> n = length es \<or>
     st = SEQC_OOM \<and> n < length es \<and> refuses t (2 * buckets_bound (hm_cap u) (peak_after (size M) (hm_max_psl u) n) * sizeof_bucket_t + (ks + hm_val_size u)) \<or>
     st = SEQC_INVALID \<and> n = 0 \<and> starved (Some t)" by blast
  have "foldl (\<lambda>M e. kv_put (\<lambda>a b. eq a b ks) (fst e) (snd e) M) {#} es = N"
    using hashmap_store.puts_apart [OF h, of es "{#}"] hashmap_store.hashmap_is_apart [OF h assms(3)] c(1) by simp
  with c show ?thesis
    by (intro conjI hashmap_store.hashmap_iters_built [OF h assms(3)] exI [of _ es] exI [of _ n] exI [of _ st] exI [of _ u'] exI [of _ w']) auto
qed

lemma hashmap_roomy_create:
  assumes "hash_fits hash eq ks" and "0 < ks" and "0 < vs"
  obtains u :: "('k, 'v, (addr \<times> size_t) list) hashmap_t" and w' where
    "hashmap_create ks vs (Some hash) (Some eq) (Some roomy_allocator) w = Some (Some u, w')"
    and "hashmap_within roomy_allocator map_of hash eq ks vs 16 (map_of w) w' u ({#}, 0, 0)"
  using lifetime_laws.create_law [OF hashmap_store.hashmap_lifetime_laws [OF hashmap_storeI [OF roomy.heap_allocator_axioms assms(1)] assms(2,3)], of w]
    roomy_not_starved by (fastforce split: option.splits)

text \<open>The example: a map with two entries, and a new one beside it.\<close>

lemma hashmap_pair_here:
  obtains s u :: "(byte list, bool, (addr \<times> size_t) list) hashmap_t" and w0 rs s' w1 w2 where
    "hashmap_create 1 4 (Some bytes_hash) (Some bytes_eq) (Some roomy_allocator) [] = Some (Some s, w0)"
    and "run_ops (on_handle hashmap_call) [HSet [7] True, HSet [9] False] s w0 = Some (rs, s', w1)"
    and "hashmap_create 1 4 (Some bytes_hash) (Some bytes_eq) (Some roomy_allocator) w1 = Some (Some u, w2)"
    and "hashmap_is roomy_allocator bytes_hash bytes_eq 1 s' {#([7], True), ([9], False)#}" and "hashmap_blocks s' \<subseteq>\<^sub>m map_of w1"
    and "hashmap_at roomy_allocator map_of bytes_hash bytes_eq 1 (map_of w1) w2 u {#}" and "hm_val_size u = 4" and "hm_cap u \<le> 16" and "hm_max_psl u = 0"
proof -
  note h = hashmap_storeI [OF roomy.heap_allocator_axioms bytes_fit [of 1]]
  obtain s :: "(byte list, bool, (addr \<times> size_t) list) hashmap_t" and w0 where
    c: "hashmap_create 1 4 (Some bytes_hash) (Some bytes_eq) (Some roomy_allocator) [] = Some (Some s, w0)"
      "hashmap_within roomy_allocator map_of bytes_hash bytes_eq 1 4 16 (map_of []) w0 s ({#}, 0, 0)"
    by (rule hashmap_roomy_create [OF bytes_fit [of 1] zero_less_one zero_less_numeral])
  have "\<forall>p \<in> set [HSet [7] True, HSet [9] False]. True" by simp
  from lifetime_laws.run_allowed [OF hashmap_store.hashmap_lifetime_laws [OF h zero_less_one zero_less_numeral] c(2) this]
  obtain rs s' w1 m where r: "run_ops (on_handle hashmap_call) [HSet [7] True, HSet [9] False] s w0 = Some (rs, s', w1)"
    "allowed (hash_map_spec roomy_allocator (1 + 4) (\<lambda>a b. bytes_eq a b 1)) [HSet [7] True, HSet [9] False] ({#}, 0, 0) rs m"
    "hashmap_within roomy_allocator map_of bytes_hash bytes_eq 1 4 16 (map_of []) w1 s' m" by blast
  have "m = ({#([7], True), ([9], False)#}, 2, 0)" using r(2)
    by (auto simp: allowed_Cons_iff roomy_refuses PTRDIFF_MAX_def sizeof_bucket_t_def kv_put_def kv_has_def bytes_eq_def
      buckets_bound_def peak_step_def)
  with r(3) have N: "hashmap_is roomy_allocator bytes_hash bytes_eq 1 s' {#([7], True), ([9], False)#}" "hashmap_blocks s' \<subseteq>\<^sub>m map_of w1"
    by (auto simp: hashmap_within_def map_within_def owns_def)
  obtain u :: "(byte list, bool, (addr \<times> size_t) list) hashmap_t" and w2 where
    u: "hashmap_create 1 4 (Some bytes_hash) (Some bytes_eq) (Some roomy_allocator) w1 = Some (Some u, w2)"
      "hashmap_within roomy_allocator map_of bytes_hash bytes_eq 1 4 16 (map_of w1) w2 u ({#}, 0, 0)"
    by (rule hashmap_roomy_create [OF bytes_fit [of 1] zero_less_one zero_less_numeral])
  from u(2) show ?thesis
    by (intro that [OF c(1) r(1) u(1) N]) (simp_all add: hashmap_within_def map_within_def hashmap_at_def buckets_bound_def)
qed

theorem hashmap_copy_witness:
  "\<exists>s w0 rs s' w1 u w2 u' w'. hashmap_create 1 4 (Some bytes_hash) (Some bytes_eq) (Some roomy_allocator) [] = Some (Some s, w0) \<and>
    run_ops (on_handle hashmap_call) [HSet [7] True, HSet [9] False] s w0 = Some (rs, s', w1) \<and>
    hashmap_create 1 4 (Some bytes_hash) (Some bytes_eq) (Some roomy_allocator) w1 = Some (Some u, w2) \<and>
    (do { (it, w) \<leftarrow> hashmap_iter (Some s') w2; hashmap_extend (Some u) it w }) = Some (SEQC_OK, Some u', w') \<and>
    hashmap_at roomy_allocator map_of bytes_hash bytes_eq 1 (map_of w1) w' u' {#([7], True), ([9], False)#}"
proof -
  obtain s u :: "(byte list, bool, (addr \<times> size_t) list) hashmap_t" and w0 rs s' w1 w2 where
    c: "hashmap_create 1 4 (Some bytes_hash) (Some bytes_eq) (Some roomy_allocator) [] = Some (Some s, w0)"
      "run_ops (on_handle hashmap_call) [HSet [7] True, HSet [9] False] s w0 = Some (rs, s', w1)"
      "hashmap_create 1 4 (Some bytes_hash) (Some bytes_eq) (Some roomy_allocator) w1 = Some (Some u, w2)"
    and N: "hashmap_is roomy_allocator bytes_hash bytes_eq 1 s' {#([7], True), ([9], False)#}" "hashmap_blocks s' \<subseteq>\<^sub>m map_of w1"
    and at: "hashmap_at roomy_allocator map_of bytes_hash bytes_eq 1 (map_of w1) w2 u {#}" and sz: "hm_val_size u = 4" "hm_cap u \<le> 16" "hm_max_psl u = 0"
    by (rule hashmap_pair_here)
  from hashmap_copy_correct [OF roomy.heap_allocator_axioms bytes_fit N(1) at N(2), unfolded size_empty] obtain es n st u' w' M' where
    z: "mset es = {#([7 :: byte], True), ([9], False)#}"
    "(do { (it, w) \<leftarrow> hashmap_iter (Some s') w2; hashmap_extend (Some u) it w }) = Some (st, Some u', w')"
    "hashmap_at roomy_allocator map_of bytes_hash bytes_eq 1 (map_of w1) w' u' M'"
    "st = SEQC_OK \<and> n = length es \<or>
     st = SEQC_OOM \<and> n < length es \<and> refuses roomy_allocator
        (2 * buckets_bound (hm_cap u) (peak_after 0 (hm_max_psl u) n) * sizeof_bucket_t + (1 + hm_val_size u)) \<or>
     st = SEQC_INVALID \<and> n = 0 \<and> starved (Some roomy_allocator)"
    "st = SEQC_OK \<longrightarrow> M' = {#([7], True), ([9], False)#}" by blast
  have "size (mset es) = 2" unfolding z(1) by simp
  then have len: "length es = 2" by simp
  have "\<not> refuses roomy_allocator
      (2 * buckets_bound (hm_cap u) (peak_after 0 (hm_max_psl u) n) * sizeof_bucket_t + (1 + hm_val_size u))" if "n < 2"
  proof (rule roomy_refuses)
    have "buckets_bound (hm_cap u) (peak_after 0 (hm_max_psl u) n) \<le> 16"
      using sz that by (simp add: buckets_bound_def peak_after_def)
    then show "2 * buckets_bound (hm_cap u) (peak_after 0 (hm_max_psl u) n) * sizeof_bucket_t + (1 + hm_val_size u) \<le> PTRDIFF_MAX"
      by (simp add: sz sizeof_bucket_t_def PTRDIFF_MAX_def)
  qed
  with z(4,5) len roomy_not_starved have "st = SEQC_OK" "M' = {#([7], True), ([9], False)#}" by auto
  with c z(2,3) show ?thesis by blast
qed

end
