(* ===== verification/Seqc_Set.thy ===== *)
theory Seqc_Set
  imports Seqc_Robin_Scan Seqc_Collection
begin

section \<open>The hash set\<close>

text \<open>
  \<open>src/set/set.c\<close>: a Robin Hood table whose entries are one block each, a copy of the element. The
  bucket array is allocated by the first addition; until then it is NULL and the capacity is 0.
  An entry is the address of its block with what it holds.
\<close>

definition SET_INITIAL_CAP :: size_t where
  "SET_INITIAL_CAP = 16"

definition SET_PSL_THRESHOLD :: nat where
  "SET_PSL_THRESHOLD = 128"

type_synonym 'a set_entry = "addr \<times> 'a"
type_synonym 'a set_bucket_t = "'a set_entry bucket_t"

record ('a, 'w) set_t =
  se_self :: addr
  se_buckets :: "(addr \<times> 'a set_bucket_t list) option"
  se_cap :: size_t
  se_len :: size_t
  se_elem_size :: size_t
  se_max_psl :: nat
  se_hash :: "'a hash_fn"
  se_eq :: "'a eq_fn"
  se_alloc :: "'w allocator_t"

definition sizeof_set_bucket_t :: size_t where
  "sizeof_set_bucket_t = 16"

definition sizeof_set_t :: size_t where
  "sizeof_set_t = 72"

definition sizeof_set_iter_state_t :: size_t where
  "sizeof_set_iter_state_t = 32"

lemma sizeof_set_bucket_t_small [simp]: "sizeof_set_bucket_t \<le> 256" "sizeof_set_t \<le> 256" "sizeof_set_iter_state_t \<le> 256"
  by (simp_all add: sizeof_set_bucket_t_def sizeof_set_t_def sizeof_set_iter_state_t_def)

subsection \<open>Inserting and resizing\<close>

definition set_slot :: "('a, 'w) set_t \<Rightarrow> 'a \<Rightarrow> size_t" where
  "set_slot s k = se_hash s k (se_elem_size s) AND wsub (se_cap s) 1"

definition set_key_eq :: "('a, 'w) set_t \<Rightarrow> 'a \<Rightarrow> 'a \<Rightarrow> bool" where
  "set_key_eq s a b = se_eq s a b (se_elem_size s)"

definition set_insert_raw ::
  "('a, 'w) set_t \<Rightarrow> 'a set_entry \<Rightarrow> 'w \<Rightarrow> (bool \<times> ('a, 'w) set_t \<times> 'w) option" where
  "set_insert_raw s incoming w = do {
     (a, bs) \<leftarrow> se_buckets s;
     (found, bs, mx, incoming) \<leftarrow>
       rh_insert_loop snd (set_key_eq s) (se_cap s) bs (se_max_psl s) (set_slot s (snd incoming)) incoming 1;
     case found of
       None \<Rightarrow> Some (True, s\<lparr>se_buckets := Some (a, bs), se_max_psl := mx\<rparr>, w)
     | Some i \<Rightarrow> do {
         w \<leftarrow> mem_free (se_alloc s) (Some (fst incoming)) (se_elem_size s) w;
         Some (False, s\<lparr>se_buckets := Some (a, bs), se_max_psl := mx\<rparr>, w)
       }
   }"

primrec set_rehash :: "'a set_bucket_t list \<Rightarrow> ('a, 'w) set_t \<Rightarrow> 'w \<Rightarrow> (('a, 'w) set_t \<times> 'w) option" where
  "set_rehash [] s w = Some (s, w)"
| "set_rehash (b # bs) s w =
     (if bk_psl b > 0
      then do { e \<leftarrow> bk_data b; (ignored, s, w) \<leftarrow> set_insert_raw s e w; set_rehash bs s w }
      else set_rehash bs s w)"

definition set_resize :: "('a, 'w) set_t \<Rightarrow> 'w \<Rightarrow> (seqc_status_t \<times> ('a, 'w) set_t \<times> 'w) option" where
  "set_resize s w = do {
     let new_cap = wmul (se_cap s) 2;
     (old_a, old) \<leftarrow> se_buckets s;
     (p, w) \<leftarrow> mem_alloc (se_alloc s) (wmul new_cap sizeof_set_bucket_t) w;
     case p of
       None \<Rightarrow> Some (SEQC_OOM, s, w)
     | Some a \<Rightarrow> do {
         old_buckets \<leftarrow> buckets_upto (se_cap s) old;
         (u, w) \<leftarrow> set_rehash old_buckets
           (s\<lparr>se_buckets := Some (a, replicate (wmul new_cap sizeof_set_bucket_t div sizeof_set_bucket_t) empty_bucket),
              se_cap := new_cap, se_max_psl := 0\<rparr>) w;
         w \<leftarrow> mem_free (se_alloc s) (Some old_a) (wmul (se_cap s) sizeof_set_bucket_t) w;
         Some (SEQC_OK, u, w)
       }
   }"

subsection \<open>Operations\<close>

definition set_create ::
  "size_t \<Rightarrow> 'a hash_fn \<Rightarrow> 'a eq_fn \<Rightarrow> 'w allocator_t \<Rightarrow> 'w \<Rightarrow> (('a, 'w) set_t option \<times> 'w) option" where
  "set_create es hash eq al w = do {
     (p, w) \<leftarrow> mem_alloc al sizeof_set_t w;
     case p of
       None \<Rightarrow> Some (None, w)
     | Some self \<Rightarrow> Some (Some \<lparr>se_self = self, se_buckets = None, se_cap = 0, se_len = 0, se_elem_size = es,
         se_max_psl = 0, se_hash = hash, se_eq = eq, se_alloc = al\<rparr>, w)
   }"

definition set_contains :: "('a, 'w) set_t option \<Rightarrow> 'a option \<Rightarrow> bool option" where
  "set_contains s elem =
     (case (s, elem) of
        (Some u, Some x) \<Rightarrow>
          if se_len u = 0 then Some False
          else do {
            (a, bs) \<leftarrow> se_buckets u;
            r \<leftarrow> rh_find_loop snd (set_key_eq u) (se_cap u) bs x (set_slot u x) 1;
            Some (r \<noteq> None)
          }
      | _ \<Rightarrow> Some False)"

text \<open>The first half of \<open>set_add\<close>: the bucket array, allocated on demand.\<close>

definition set_first_buckets :: "('a, 'w) set_t \<Rightarrow> 'w \<Rightarrow> (seqc_status_t \<times> ('a, 'w) set_t \<times> 'w) option" where
  "set_first_buckets u w =
     (if se_cap u = 0 then do {
        (p, w) \<leftarrow> mem_alloc (se_alloc u) (wmul SET_INITIAL_CAP sizeof_set_bucket_t) w;
        case p of
          None \<Rightarrow> Some (SEQC_OOM, u\<lparr>se_buckets := None\<rparr>, w)
        | Some a \<Rightarrow> Some (SEQC_OK, u\<lparr>se_buckets := Some (a, replicate SET_INITIAL_CAP empty_bucket), se_cap := SET_INITIAL_CAP\<rparr>, w)
      } else Some (SEQC_OK, u, w))"

definition set_add ::
  "('a, 'w) set_t option \<Rightarrow> 'a option \<Rightarrow> 'w \<Rightarrow> (seqc_status_t \<times> ('a, 'w) set_t option \<times> 'w) option" where
  "set_add s elem w =
     (case (s, elem) of
        (Some u, Some x) \<Rightarrow> do {
          (st, u, w) \<leftarrow> set_first_buckets u w;
          if st \<noteq> SEQC_OK then Some (st, Some u, w)
          else do {
            (rs, u, w) \<leftarrow>
              (if wmul (se_len u) 4 \<ge> wmul (se_cap u) 3 \<or> se_max_psl u \<ge> SET_PSL_THRESHOLD
               then set_resize u w else Some (SEQC_OK, u, w));
            if rs \<noteq> SEQC_OK then Some (rs, Some u, w)
            else do {
              (key, w) \<leftarrow> mem_alloc (se_alloc u) (se_elem_size u) w;
              case key of
                None \<Rightarrow> Some (SEQC_OOM, Some u, w)
              | Some a \<Rightarrow> do {
                  (inserted, u, w) \<leftarrow> set_insert_raw u (a, x) w;
                  if \<not> inserted then Some (SEQC_DUPLICATE, Some u, w)
                  else Some (SEQC_OK, Some (u\<lparr>se_len := Suc (se_len u)\<rparr>), w)
                }
            }
          }
        }
      | _ \<Rightarrow> Some (SEQC_INVALID, s, w))"

definition set_remove ::
  "('a, 'w) set_t option \<Rightarrow> 'a option \<Rightarrow> 'w \<Rightarrow> (seqc_status_t \<times> ('a, 'w) set_t option \<times> 'w) option" where
  "set_remove s elem w =
     (case (s, elem) of
        (Some u, Some x) \<Rightarrow>
          if se_len u = 0 then Some (SEQC_NOT_FOUND, s, w)
          else do {
            (a, bs) \<leftarrow> se_buckets u;
            r \<leftarrow> rh_find_loop snd (set_key_eq u) (se_cap u) bs x (set_slot u x) 1;
            case r of
              None \<Rightarrow> Some (SEQC_NOT_FOUND, s, w)
            | Some i \<Rightarrow> do {
                e \<leftarrow> bk_data (bs ! i);
                w \<leftarrow> mem_free (se_alloc u) (Some (fst e)) (se_elem_size u) w;
                bs \<leftarrow> set_shift_loop (se_cap u) bs i;
                Some (SEQC_OK, Some (u\<lparr>se_buckets := Some (a, bs), se_len := se_len u - 1\<rparr>), w)
              }
          }
      | _ \<Rightarrow> Some (SEQC_NOT_FOUND, s, w))"

definition set_len :: "('a, 'w) set_t option \<Rightarrow> size_t" where
  "set_len s = (case s of None \<Rightarrow> 0 | Some u \<Rightarrow> se_len u)"

definition set_is_empty :: "('a, 'w) set_t option \<Rightarrow> bool" where
  "set_is_empty s \<longleftrightarrow> set_len s = 0"

primrec set_free_entries :: "'w allocator_t \<Rightarrow> size_t \<Rightarrow> 'a set_bucket_t list \<Rightarrow> 'w \<Rightarrow> 'w option" where
  "set_free_entries al es [] w = Some w"
| "set_free_entries al es (b # bs) w =
     (if bk_psl b > 0 then do {
        e \<leftarrow> bk_data b;
        w \<leftarrow> mem_free al (Some (fst e)) es w;
        set_free_entries al es bs w
      } else set_free_entries al es bs w)"

definition set_destroy :: "('a, 'w) set_t option \<Rightarrow> 'w \<Rightarrow> 'w option" where
  "set_destroy s w =
     (case s of
        None \<Rightarrow> Some w
      | Some u \<Rightarrow> do {
          w \<leftarrow> (case se_buckets u of
             None \<Rightarrow> Some w
           | Some (a, bs) \<Rightarrow> do {
               visited \<leftarrow> buckets_upto (se_cap u) bs;
               w \<leftarrow> set_free_entries (se_alloc u) (se_elem_size u) visited w;
               mem_free (se_alloc u) (Some a) (wmul (se_cap u) sizeof_set_bucket_t) w
             });
          mem_free (se_alloc u) (Some (se_self u)) sizeof_set_t w
        })"

definition set_clear :: "('a, 'w) set_t option \<Rightarrow> 'w \<Rightarrow> (('a, 'w) set_t option \<times> 'w) option" where
  "set_clear s w =
     (case s of
        None \<Rightarrow> Some (None, w)
      | Some u \<Rightarrow>
          (case se_buckets u of
             None \<Rightarrow> Some (Some u, w)
           | Some (a, bs) \<Rightarrow> do {
               visited \<leftarrow> buckets_upto (se_cap u) bs;
               w \<leftarrow> set_free_entries (se_alloc u) (se_elem_size u) visited w;
               Some (Some (u\<lparr>se_buckets := Some (a, replicate (se_cap u) empty_bucket @ drop (se_cap u) bs), se_len := 0, se_max_psl := 0\<rparr>), w)
             }))"

definition set_is_healthy :: "('a, 'w) set_t option \<Rightarrow> bool" where
  "set_is_healthy s = (case s of None \<Rightarrow> False | Some u \<Rightarrow> se_max_psl u \<le> SET_PSL_THRESHOLD div 2)"

text \<open>The audit, with the arithmetic of \<open>double\<close> as parameters.\<close>

record 'f set_stats_t =
  ss_len :: size_t
  ss_cap :: size_t
  ss_load_factor :: 'f
  ss_max_psl :: nat
  ss_mean_psl :: 'f
  ss_is_healthy :: bool

definition set_audit ::
  "(nat \<Rightarrow> nat \<Rightarrow> 'f) \<Rightarrow> ('f \<Rightarrow> bool) \<Rightarrow> 'f \<Rightarrow> ('a, 'w) set_t option \<Rightarrow> 'f set_stats_t option" where
  "set_audit fdiv below_3 zero s =
     (case s of
        None \<Rightarrow> Some \<lparr>ss_len = 0, ss_cap = 0, ss_load_factor = zero, ss_max_psl = 0, ss_mean_psl = zero, ss_is_healthy = False\<rparr>
      | Some u \<Rightarrow> do {
          visited \<leftarrow> (case se_buckets u of
              None \<Rightarrow> if se_cap u = 0 then Some [] else None
            | Some (a, bs) \<Rightarrow> buckets_upto (se_cap u) bs);
          let (acc, mx) = audit_loop visited 0 0;
          let mean = (if se_len u > 0 then fdiv acc (se_len u) else zero);
          Some \<lparr>ss_len = se_len u, ss_cap = se_cap u,
            ss_load_factor = (if se_cap u > 0 then fdiv (se_len u) (se_cap u) else zero),
            ss_max_psl = mx, ss_mean_psl = mean,
            ss_is_healthy = (below_3 mean \<and> mx \<le> SET_PSL_THRESHOLD div 2)\<rparr>
        })"

subsection \<open>Iterators\<close>

text \<open>The two iterator states have the same fields.\<close>

record 'a set_iter_state_t =
  si_self :: addr
  si_buckets :: "'a set_bucket_t list"
  si_cap :: size_t
  si_pos :: size_t

text \<open>The buckets the state points to: none for a NULL array, every access to which is undefined.\<close>

definition set_bucket_list :: "('a, 'w) set_t \<Rightarrow> 'a set_bucket_t list" where
  "set_bucket_list u = (case se_buckets u of None \<Rightarrow> [] | Some (a, bs) \<Rightarrow> bs)"

definition set_iter_next :: "'a set_iter_state_t \<Rightarrow> 'w \<Rightarrow> ('a option \<times> 'a set_iter_state_t \<times> 'w) option" where
  "set_iter_next s w = do {
     (r, pos) \<leftarrow> scan_next (si_buckets s) (si_cap s) (si_pos s);
     Some (map_option snd r, s\<lparr>si_pos := pos\<rparr>, w)
   }"

definition set_iter_rev_next :: "'a set_iter_state_t \<Rightarrow> 'w \<Rightarrow> ('a option \<times> 'a set_iter_state_t \<times> 'w) option" where
  "set_iter_rev_next s w = do {
     (r, pos) \<leftarrow> scan_prev (si_buckets s) (si_pos s);
     Some (map_option snd r, s\<lparr>si_pos := pos\<rparr>, w)
   }"

definition set_iter_drop :: "'w allocator_t \<Rightarrow> 'a set_iter_state_t \<Rightarrow> 'w \<Rightarrow> 'w option" where
  "set_iter_drop al s w = mem_free al (Some (si_self s)) sizeof_set_iter_state_t w"

definition set_iter :: "('a, 'w) set_t option \<Rightarrow> 'w \<Rightarrow> (('a, 'a set_iter_state_t, 'w) iter_t \<times> 'w) option" where
  "set_iter s w =
     (case s of
        None \<Rightarrow> Some (iter_zero, w)
      | Some u \<Rightarrow> do {
          (p, w) \<leftarrow> mem_alloc (se_alloc u) sizeof_set_iter_state_t w;
          case p of
            None \<Rightarrow> Some (iter_zero, w)
          | Some a \<Rightarrow> Some (iter_make set_iter_next (set_iter_drop (se_alloc u))
              \<lparr>si_self = a, si_buckets = set_bucket_list u, si_cap = se_cap u, si_pos = 0\<rparr> (se_elem_size u) (se_alloc u), w)
        })"

definition set_iter_rev :: "('a, 'w) set_t option \<Rightarrow> 'w \<Rightarrow> (('a, 'a set_iter_state_t, 'w) iter_t \<times> 'w) option" where
  "set_iter_rev s w =
     (case s of
        None \<Rightarrow> Some (iter_zero, w)
      | Some u \<Rightarrow> do {
          (p, w) \<leftarrow> mem_alloc (se_alloc u) sizeof_set_iter_state_t w;
          case p of
            None \<Rightarrow> Some (iter_zero, w)
          | Some a \<Rightarrow> Some (iter_make set_iter_rev_next (set_iter_drop (se_alloc u))
              \<lparr>si_self = a, si_buckets = set_bucket_list u, si_cap = se_cap u, si_pos = se_cap u\<rparr> (se_elem_size u) (se_alloc u), w)
        })"

subsection \<open>Set algebra\<close>

text \<open>
  The loop of all three operations: add the elements that \<open>keep\<close> admits to \<open>dest\<close>, up to the first
  addition that fails. The operands are snapshots: \<open>dest\<close> is another set.
\<close>

primrec set_add_each ::
  "('a \<Rightarrow> bool option) \<Rightarrow> 'a set_bucket_t list \<Rightarrow> ('a, 'w) set_t option \<Rightarrow> 'w \<Rightarrow>
   (seqc_status_t \<times> ('a, 'w) set_t option \<times> 'w) option" where
  "set_add_each keep [] dest w = Some (SEQC_OK, dest, w)"
| "set_add_each keep (b # bs) dest w =
     (if bk_psl b = 0 then set_add_each keep bs dest w
      else do {
        e \<leftarrow> bk_data b;
        k \<leftarrow> keep (snd e);
        if \<not> k then set_add_each keep bs dest w
        else do {
          (st, dest, w) \<leftarrow> set_add dest (Some (snd e)) w;
          if st \<noteq> SEQC_OK \<and> st \<noteq> SEQC_DUPLICATE then Some (st, dest, w)
          else set_add_each keep bs dest w
        }
      })"

definition set_union ::
  "('a, 'w) set_t option \<Rightarrow> ('a, 'w) set_t option \<Rightarrow> ('a, 'w) set_t option \<Rightarrow> 'w \<Rightarrow>
   (seqc_status_t \<times> ('a, 'w) set_t option \<times> 'w) option" where
  "set_union dest a b w =
     (case (dest, a, b) of
        (Some d, Some p, Some q) \<Rightarrow> do {
          visited \<leftarrow> buckets_upto (se_cap p) (set_bucket_list p);
          (st, dest, w) \<leftarrow> set_add_each (\<lambda>_. Some True) visited dest w;
          if st \<noteq> SEQC_OK then Some (st, dest, w)
          else do {
            visited \<leftarrow> buckets_upto (se_cap q) (set_bucket_list q);
            set_add_each (\<lambda>_. Some True) visited dest w
          }
        }
      | _ \<Rightarrow> Some (SEQC_INVALID, dest, w))"

definition set_intersection ::
  "('a, 'w) set_t option \<Rightarrow> ('a, 'w) set_t option \<Rightarrow> ('a, 'w) set_t option \<Rightarrow> 'w \<Rightarrow>
   (seqc_status_t \<times> ('a, 'w) set_t option \<times> 'w) option" where
  "set_intersection dest a b w =
     (case (dest, a, b) of
        (Some d, Some p, Some q) \<Rightarrow> do {
          let src = (if se_len p \<le> se_len q then p else q);
          let other = (if se_len p \<le> se_len q then q else p);
          visited \<leftarrow> buckets_upto (se_cap src) (set_bucket_list src);
          set_add_each (\<lambda>x. set_contains (Some other) (Some x)) visited dest w
        }
      | _ \<Rightarrow> Some (SEQC_INVALID, dest, w))"

definition set_difference ::
  "('a, 'w) set_t option \<Rightarrow> ('a, 'w) set_t option \<Rightarrow> ('a, 'w) set_t option \<Rightarrow> 'w \<Rightarrow>
   (seqc_status_t \<times> ('a, 'w) set_t option \<times> 'w) option" where
  "set_difference dest a b w =
     (case (dest, a, b) of
        (Some d, Some p, Some q) \<Rightarrow> do {
          visited \<leftarrow> buckets_upto (se_cap p) (set_bucket_list p);
          set_add_each (\<lambda>x. map_option Not (set_contains (Some q) (Some x))) visited dest w
        }
      | _ \<Rightarrow> Some (SEQC_INVALID, dest, w))"

text \<open>\<open>set_extend\<close> has its own copy of the body of \<open>seqc_extend\<close>.\<close>

definition set_extend ::
  "('a, 'w) set_t option \<Rightarrow> ('a, 's, 'w) iter_t \<Rightarrow> 'w \<Rightarrow> (seqc_status_t \<times> ('a, 'w) set_t option \<times> 'w) option" where
  "set_extend s it w =
     (case s of
        None \<Rightarrow> do { w \<leftarrow> iter_destroy it w; Some (SEQC_INVALID, None, w) }
      | Some u \<Rightarrow> seqc_extend s set_add (se_elem_size u) (se_alloc u) it w)"

end
