(* ===== verification/Seqc_Set_Laws.thy ===== *)
theory Seqc_Set_Laws
  imports Seqc_Set
begin

section \<open>What the hash set does to its elements\<close>

text \<open>
  \<open>set_ok t hash eq es u D\<close>: either nothing was ever added and there is no table, or the table of
  \<open>u\<close> holds the entries \<open>D\<close>, with the bound on \<open>max_psl\<close> that the hash map has.
\<close>

definition set_fields ::
  "'w vtable \<Rightarrow> 'a hash_fn \<Rightarrow> 'a eq_fn \<Rightarrow> size_t \<Rightarrow> ('a, 'w) set_t \<Rightarrow> 'a set_entry multiset \<Rightarrow> bool" where
  "set_fields t hash eq es u D \<longleftrightarrow>
     se_alloc u = Some t \<and> se_hash u = hash \<and> se_eq u = eq \<and> se_elem_size u = es \<and> se_len u = size D"

definition set_table ::
  "'w vtable \<Rightarrow> 'a hash_fn \<Rightarrow> 'a eq_fn \<Rightarrow> size_t \<Rightarrow> ('a, 'w) set_t \<Rightarrow> 'a set_entry multiset \<Rightarrow> bool" where
  "set_table t hash eq es u D \<longleftrightarrow> set_fields t hash eq es u D \<and>
     (\<exists>a bs k. se_buckets u = Some (a, bs) \<and> se_cap u = length bs \<and> length bs = 2 ^ k \<and> 4 \<le> k \<and>
        length bs * sizeof_set_bucket_t \<le> PTRDIFF_MAX \<and> size D < length bs \<and>
        table_ok snd (\<lambda>k. hash k es) (\<lambda>a b. eq a b es) bs D \<and>
        psl_within (se_max_psl u) bs \<and> se_max_psl u \<le> 124 + k)"

definition set_ready ::
  "'w vtable \<Rightarrow> 'a hash_fn \<Rightarrow> 'a eq_fn \<Rightarrow> size_t \<Rightarrow> ('a, 'w) set_t \<Rightarrow> 'a set_entry multiset \<Rightarrow> bool" where
  "set_ready t hash eq es u D \<longleftrightarrow> set_table t hash eq es u D \<and> Suc (size D) < se_cap u \<and>
     (\<exists>k. se_cap u = 2 ^ k \<and> se_max_psl u < 124 + k)"

definition set_ok ::
  "'w vtable \<Rightarrow> 'a hash_fn \<Rightarrow> 'a eq_fn \<Rightarrow> size_t \<Rightarrow> ('a, 'w) set_t \<Rightarrow> 'a set_entry multiset \<Rightarrow> bool" where
  "set_ok t hash eq es u D \<longleftrightarrow>
     set_fields t hash eq es u D \<and> D = {#} \<and> se_cap u = 0 \<and> se_buckets u = None \<and> se_max_psl u = 0 \<or>
     set_table t hash eq es u D"

definition set_same :: "('a, 'w) set_t \<Rightarrow> ('a, 'w) set_t \<Rightarrow> bool" where
  "set_same u u' \<longleftrightarrow> se_self u' = se_self u \<and> se_elem_size u' = se_elem_size u \<and>
     se_hash u' = se_hash u \<and> se_eq u' = se_eq u \<and> se_alloc u' = se_alloc u"

lemma set_same_refl [simp]: "set_same u u"
  by (simp add: set_same_def)

lemma set_same_trans: "set_same u u' \<Longrightarrow> set_same u' u'' \<Longrightarrow> set_same u u''"
  by (simp add: set_same_def)

text \<open>The blocks of a set.\<close>

definition key_cells :: "size_t \<Rightarrow> 'a set_entry list \<Rightarrow> (addr \<times> size_t) list" where
  "key_cells es ds = map (\<lambda>e. (fst e, es)) ds"

definition set_cells :: "('a, 'w) set_t \<Rightarrow> (addr \<times> size_t) list" where
  "set_cells u = (se_self u, sizeof_set_t) #
     (case se_buckets u of
        None \<Rightarrow> []
      | Some (a, bs) \<Rightarrow> (a, se_cap u * sizeof_set_bucket_t) # key_cells (se_elem_size u) (contents bs))"

lemma key_cells_simps [simp]:
  "key_cells es [] = []"
  "key_cells es (e # ds) = (fst e, es) # key_cells es ds"
  by (simp_all add: key_cells_def)

lemma set_cells_as:
  assumes "se_buckets u = Some (a, bs)" and "mset (contents bs) = mset ds"
  shows "mset (set_cells u) = mset ((se_self u, sizeof_set_t) # (a, se_cap u * sizeof_set_bucket_t) # key_cells (se_elem_size u) ds)"
  using assms by (simp add: set_cells_def key_cells_def)

lemma set_tableD:
  assumes "set_table t hash eq es u D"
  obtains a bs k where "se_buckets u = Some (a, bs)" and "se_cap u = length bs" and "length bs = 2 ^ k" and "4 \<le> k"
    and "length bs * sizeof_set_bucket_t \<le> PTRDIFF_MAX" and "size D < length bs"
    and "table_ok snd (\<lambda>k. hash k es) (\<lambda>a b. eq a b es) bs D"
    and "psl_within (se_max_psl u) bs" and "se_max_psl u \<le> 124 + k" and "k \<le> 58"
proof -
  from assms obtain a bs k where *: "se_buckets u = Some (a, bs)" "se_cap u = length bs" "length bs = 2 ^ k" "4 \<le> k"
    "length bs * sizeof_set_bucket_t \<le> PTRDIFF_MAX" "size D < length bs"
    "table_ok snd (\<lambda>k. hash k es) (\<lambda>a b. eq a b es) bs D"
    "psl_within (se_max_psl u) bs" "se_max_psl u \<le> 124 + k" unfolding set_table_def by blast
  have "(2 :: nat) ^ k < 2 ^ 59" using *(3,5) by (simp add: sizeof_set_bucket_t_def PTRDIFF_MAX_def)
  then have "k < 59" by (rule power_less_imp_less_exp [rotated]) simp
  with * that show ?thesis by simp
qed

lemma set_tableI:
  assumes "set_fields t hash eq es u D"
    and "se_buckets u = Some (a, bs)" "se_cap u = length bs" "length bs = 2 ^ k" "4 \<le> k"
    and "length bs * sizeof_set_bucket_t \<le> PTRDIFF_MAX" "size D < length bs"
    and "table_ok snd (\<lambda>k. hash k es) (\<lambda>a b. eq a b es) bs D"
    and "psl_within (se_max_psl u) bs" "se_max_psl u \<le> 124 + k"
  shows "set_table t hash eq es u D"
  using assms unfolding set_table_def by blast

lemma set_fieldsD:
  assumes "set_fields t hash eq es u D"
  shows "se_alloc u = Some t" "se_elem_size u = es" "se_len u = size D" "set_key_eq u = (\<lambda>a b. eq a b es)"
    and "\<And>k. set_slot u k = hash k es AND wsub (se_cap u) 1" "se_hash u = hash" "se_eq u = eq"
  using assms by (simp_all add: set_fields_def set_key_eq_def set_slot_def fun_eq_iff)

lemma set_table_fields: "set_table t hash eq es u D \<Longrightarrow> set_fields t hash eq es u D"
  by (simp add: set_table_def)

lemma set_ok_fields: "set_ok t hash eq es u D \<Longrightarrow> set_fields t hash eq es u D"
  by (auto simp: set_ok_def set_table_def)

lemma set_okE:
  assumes "set_ok t hash eq es u D"
  obtains (none) "set_fields t hash eq es u D" and "D = {#}" and "se_cap u = 0" and "se_buckets u = None" and "se_max_psl u = 0"
  | (some) "set_table t hash eq es u D"
  using assms by (auto simp: set_ok_def)

text \<open>What an addition to a set of \<open>n\<close> elements does to the capacity and the longest probe.\<close>

definition set_grew :: "('a, 'w) set_t \<Rightarrow> nat \<Rightarrow> ('a, 'w) set_t \<Rightarrow> bool" where
  "set_grew u n u' \<longleftrightarrow>
     table_grown (max SET_INITIAL_CAP (se_cap u)) (se_max_psl u) n (max SET_INITIAL_CAP (se_cap u')) \<and>
     se_max_psl u' \<le> max (se_max_psl u) (Suc n)"

text \<open>A bound on what an addition may request: the first bucket array or one twice as large, and a key.\<close>

definition set_request :: "('a, 'w) set_t \<Rightarrow> size_t" where
  "set_request u = 2 * max SET_INITIAL_CAP (se_cap u) * sizeof_set_bucket_t + se_elem_size u"

lemma set_first_buckets_cap: "set_first_buckets u w = Some (st, u', w') \<Longrightarrow> se_cap u' \<le> max SET_INITIAL_CAP (se_cap u)"
  by (auto simp: set_first_buckets_def bind_eq_Some_conv simp del: mem_alloc.simps split: if_splits option.splits)

locale set_store = heap_allocator t live + key_hash "\<lambda>k. hash k es" "\<lambda>a b. eq a b es"
  for t :: "'w vtable" and live :: "'w \<Rightarrow> addr \<rightharpoonup> size_t" and hash :: "'a hash_fn" and eq :: "'a eq_fn" and es :: size_t
begin

abbreviation ok :: "('a, 'w) set_t \<Rightarrow> 'a set_entry multiset \<Rightarrow> bool" where
  "ok \<equiv> set_ok t hash eq es"

abbreviation tabled :: "('a, 'w) set_t \<Rightarrow> 'a set_entry multiset \<Rightarrow> bool" where
  "tabled \<equiv> set_table t hash eq es"

abbreviation ready :: "('a, 'w) set_t \<Rightarrow> 'a set_entry multiset \<Rightarrow> bool" where
  "ready \<equiv> set_ready t hash eq es"

abbreviation table :: "'a set_bucket_t list \<Rightarrow> 'a set_entry multiset \<Rightarrow> bool" where
  "table \<equiv> table_ok snd (\<lambda>k. hash k es) (\<lambda>a b. eq a b es)"

abbreviation key_eq :: "'a \<Rightarrow> 'a \<Rightarrow> bool" where
  "key_eq \<equiv> \<lambda>a b. eq a b es"

subsection \<open>Growing\<close>

lemma set_rehash_at:
  assumes A: "table as N" "psl_within K as" "K < 255" "length bs = 2 * length as"
    and u: "se_buckets u = Some (a, bs)" "se_cap u = length bs" "se_hash u = hash" "se_eq u = eq" "se_elem_size u = es"
    and t: "table bs M" "psl_within (se_max_psl u) bs" "se_max_psl u \<le> K"
    and c: "filled cs" "M + mset (contents cs) \<subseteq># N"
  shows "\<exists>bs' mx. set_rehash cs u w = Some (u\<lparr>se_buckets := Some (a, bs'), se_max_psl := mx\<rparr>, w) \<and>
    length bs' = length bs \<and> table bs' (M + mset (contents cs)) \<and> psl_within mx bs' \<and> mx \<le> K"
  using u t c A(4)
proof (induction cs arbitrary: u bs M)
  case Nil
  have "u\<lparr>se_buckets := Some (a, bs), se_max_psl := se_max_psl u\<rparr> = u" using Nil by simp
  with Nil show ?case by (intro exI [of _ bs] exI [of _ "se_max_psl u"]) simp
next
  case (Cons c cs)
  show ?case
  proof (cases "bk_psl c = 0")
    case True
    with Cons.IH [OF Cons.prems(1-8)] Cons.prems show ?thesis by (simp add: contents_Cons)
  next
    case False
    then obtain e where e: "bk_data c = Some e" using Cons.prems(9) by auto
    have cs: "contents (c # cs) = e # contents cs" using False e by (simp add: contents_Cons)
    have "add_mset e M \<subseteq># M + mset (contents (c # cs))" by (simp add: cs)
    then have sub: "add_mset e M \<subseteq># N" using Cons.prems(10) by (rule subset_mset.order_trans)
    obtain bs1 mx1 d1 where i: "rh_insert_loop snd key_eq (length bs) bs (se_max_psl u)
          (hash (snd e) es AND wsub (length bs) 1) e 1 = Some (None, bs1, mx1, d1)"
      "length bs1 = length bs" "table bs1 (add_mset e M)" "psl_within mx1 bs1" "mx1 \<le> K"
      using table_move [OF A(1-3) Cons.prems(6,11) sub Cons.prems(7,8)] by blast
    let ?u = "u\<lparr>se_buckets := Some (a, bs1), se_max_psl := mx1\<rparr>"
    have q: "set_key_eq u = key_eq" "set_slot u (snd e) = hash (snd e) es AND wsub (length bs) 1"
      using Cons.prems(2-5) by (simp_all add: set_key_eq_def set_slot_def fun_eq_iff)
    have r: "set_insert_raw u e w = Some (True, ?u, w)"
      using i(1) Cons.prems(1,2) q by (simp add: set_insert_raw_def)
    have "\<exists>bs' mx. set_rehash cs ?u w = Some (?u\<lparr>se_buckets := Some (a, bs'), se_max_psl := mx\<rparr>, w) \<and>
      length bs' = length bs1 \<and> table bs' (add_mset e M + mset (contents cs)) \<and> psl_within mx bs' \<and> mx \<le> K"
      by (rule Cons.IH) (use Cons.prems i cs in simp_all)
    with r False e i(2) show ?thesis by (auto simp: cs)
  qed
qed

lemma set_resize_at:
  fixes u :: "('a, 'w) set_t"
  assumes ok: "tabled u D" and o: "owns_cells (live w) R (set_cells u)"
  obtains (grown) u' w' where "set_resize u w = Some (SEQC_OK, u', w')"
      and "ready u' D" and "owns_cells (live w') R (set_cells u')" and "set_same u u'"
      and "se_cap u' = 2 * se_cap u" and "se_max_psl u' \<le> se_max_psl u"
  | (oom) w' where "set_resize u w = Some (SEQC_OOM, u, w')" and "owns_cells (live w') R (set_cells u)"
      and "refuses t (set_request u)"
proof -
  note f = set_fieldsD [OF set_table_fields [OF ok]]
  from ok obtain a bs k where b: "se_buckets u = Some (a, bs)" "se_cap u = length bs" "length bs = 2 ^ k" "4 \<le> k"
    "length bs * sizeof_set_bucket_t \<le> PTRDIFF_MAX" "size D < length bs" "table bs D"
    "psl_within (se_max_psl u) bs" "se_max_psl u \<le> 124 + k" "k \<le> 58" by (rule set_tableD)
  have z: "0 < sizeof_set_bucket_t" by (simp add: sizeof_set_bucket_t_def)
  note x = double_exact [OF b(5) z]
  show ?thesis using o
  proof (cases rule: cells_alloc [where n = "length bs * 2 * sizeof_set_bucket_t"])
    case (refused w')
    have "set_resize u w = Some (SEQC_OOM, u, w')"
      using refused(1) b(1,2) x f(1) by (simp add: set_resize_def del: mem_alloc.simps)
    moreover have "refuses t (set_request u)" by (rule refuses_mono [OF refused(3)], unfold set_request_def, rule trans_le_add1, rule mult_le_mono1) (simp add: b(2))
    ultimately show ?thesis using refused(2) by (intro oom)
  next
    case (granted a' w')
    let ?n = "length bs * 2" and ?new = "replicate (length bs * 2) empty_bucket :: 'a set_bucket_t list"
    let ?u = "u\<lparr>se_buckets := Some (a', ?new), se_cap := ?n, se_max_psl := 0\<rparr>"
    have n: "?n = 2 ^ Suc k" using b(3) by simp
    have "(2 :: nat) ^ Suc k \<le> 2 ^ 59" using b(10) by (intro power_increasing) simp_all
    then have n64: "?n < 2 ^ 64" unfolding n by simp
    have cs: "filled bs" "mset (contents bs) = D" using table_filled [OF b(7)] b(7) by (simp_all add: table_ok_def)
    have K: "se_max_psl u < 255" using b(9,10) by linarith
    have "\<exists>bs' mx. set_rehash bs ?u w' = Some (?u\<lparr>se_buckets := Some (a', bs'), se_max_psl := mx\<rparr>, w') \<and>
      length bs' = length ?new \<and> table bs' ({#} + mset (contents bs)) \<and> psl_within mx bs' \<and> mx \<le> se_max_psl u"
      by (rule set_rehash_at [OF b(7,8) K]) (use f cs table_empty [OF n n64] in simp_all)
    then obtain bs' mx where r: "set_rehash bs ?u w' = Some (?u\<lparr>se_buckets := Some (a', bs'), se_max_psl := mx\<rparr>, w')"
      "length bs' = ?n" "table bs' D" "psl_within mx bs'" "mx \<le> se_max_psl u" using cs(2) by auto
    let ?v = "?u\<lparr>se_buckets := Some (a', bs'), se_max_psl := mx\<rparr>"
    have same: "set_same u ?v" by (simp add: set_same_def)
    have ok': "tabled ?v D"
      by (rule set_tableI [where k = "Suc k" and bs = bs']) (use f r b granted(3) in \<open>simp_all add: set_fields_def\<close>)
    have ready: "ready ?v D" unfolding set_ready_def
      by (intro conjI ok' exI [of _ "Suc k"]) (use r(2,5) b(6,9) n in simp_all)
    have m: "mset (set_cells ?v) = mset ((se_self u, sizeof_set_t) # (a', ?n * sizeof_set_bucket_t) # key_cells (se_elem_size u) (contents bs))"
      using set_cells_as [of ?v a' bs' "contents bs"] r(3) cs(2) by (simp add: table_ok_def)
    have "owns_cells (live w') R ((a, length bs * sizeof_set_bucket_t) # set_cells ?v)"
      by (rule iffD1 [OF owns_cells_perm granted(2)]) (use m b(1,2) in \<open>simp add: set_cells_def\<close>)
    then obtain w2 where w2: "mem_free (Some t) (Some a) (length bs * sizeof_set_bucket_t) w' = Some w2" "owns_cells (live w2) R (set_cells ?v)"
      by (rule cells_free)
    have "wmul (length bs) sizeof_set_bucket_t = length bs * sizeof_set_bucket_t"
      by (rule wmul_exact) (use b(5) in \<open>simp add: PTRDIFF_MAX_def\<close>)
    then have "set_resize u w = Some (SEQC_OK, ?v, w2)"
      using granted(1) b(1,2) x f(1) r(1) w2(1) z by (simp add: set_resize_def del: mem_alloc.simps mem_free.simps)
    then show ?thesis using ready w2(2) same by (rule grown) (use b(2) r(5) in simp_all)
  qed
qed

end

subsection \<open>The elements of a set\<close>

definition el_has :: "('a \<Rightarrow> 'a \<Rightarrow> bool) \<Rightarrow> 'a \<Rightarrow> 'a multiset \<Rightarrow> bool" where
  "el_has eq x M \<longleftrightarrow> (\<exists>y \<in># M. eq y x)"

definition el_put :: "('a \<Rightarrow> 'a \<Rightarrow> bool) \<Rightarrow> 'a \<Rightarrow> 'a multiset \<Rightarrow> 'a multiset" where
  "el_put eq x M = (if el_has eq x M then M else add_mset x M)"

definition el_del :: "('a \<Rightarrow> 'a \<Rightarrow> bool) \<Rightarrow> 'a \<Rightarrow> 'a multiset \<Rightarrow> 'a multiset" where
  "el_del eq x M = filter_mset (\<lambda>y. \<not> eq y x) M"

lemma el_has_image: "el_has eq x (image_mset snd D) \<longleftrightarrow> \<not> absent snd eq x D"
  by (auto simp: el_has_def absent_def)

lemma el_del_absent: "absent snd eq x D \<Longrightarrow> el_del eq x (image_mset snd D) = image_mset snd D"
  unfolding el_del_def absent_def by (subst filter_mset_eq_conv) auto

lemma el_del_old:
  assumes "absent snd eq x D" and "eq (snd c) x"
  shows "el_del eq x (image_mset snd (add_mset c D)) = image_mset snd D"
  using assms el_del_absent [OF assms(1)] by (simp add: el_del_def)

definition set_is ::
  "'w vtable \<Rightarrow> 'a hash_fn \<Rightarrow> 'a eq_fn \<Rightarrow> size_t \<Rightarrow> ('a, 'w) set_t \<Rightarrow> 'a multiset \<Rightarrow> bool" where
  "set_is t hash eq es u M \<longleftrightarrow>
     (\<exists>D. set_ok t hash eq es u D \<and> M = image_mset snd D) \<and> distinct (map fst (set_cells u))"

definition set_blocks :: "('a, 'w) set_t \<Rightarrow> (addr \<rightharpoonup> size_t)" where
  "set_blocks u = map_of (set_cells u)"

definition set_at ::
  "'w vtable \<Rightarrow> ('w \<Rightarrow> addr \<rightharpoonup> size_t) \<Rightarrow> 'a hash_fn \<Rightarrow> 'a eq_fn \<Rightarrow> size_t \<Rightarrow> (addr \<rightharpoonup> size_t) \<Rightarrow> 'w \<Rightarrow>
   ('a, 'w) set_t \<Rightarrow> 'a multiset \<Rightarrow> bool" where
  "set_at t live hash eq es R w u M \<longleftrightarrow> set_is t hash eq es u M \<and> owns (live w) R (set_blocks u)"

lemma set_atI:
  "set_ok t hash eq es u D \<Longrightarrow> owns_cells (live w) R (set_cells u) \<Longrightarrow> M = image_mset snd D \<Longrightarrow>
   set_at t live hash eq es R w u M"
  by (auto simp: set_at_def set_is_def set_blocks_def owns_cells_def)

lemma set_atE:
  assumes "set_at t live hash eq es R w u M"
  obtains D where "set_ok t hash eq es u D" and "owns_cells (live w) R (set_cells u)" and "M = image_mset snd D"
  using assms by (auto simp: set_at_def set_is_def set_blocks_def owns_cells_def)

lemma set_okI: "set_table t hash eq es u D \<Longrightarrow> set_ok t hash eq es u D"
  by (simp add: set_ok_def)

context set_store begin

subsection \<open>Adding\<close>

lemma set_insert_raw_new:
  assumes r: "ready u D" and a: "absent snd key_eq (snd e) D"
    and o: "owns_cells (live w) R ((fst e, es) # set_cells u)"
  obtains u' where "set_insert_raw u e w = Some (True, u', w)" and "tabled (u'\<lparr>se_len := Suc (se_len u')\<rparr>) (add_mset e D)"
    and "owns_cells (live w) R (set_cells u')" and "set_same u u'"
    and "se_cap u' = se_cap u" and "se_max_psl u' \<le> max (se_max_psl u) (Suc (size D))"
proof -
  from r have ok: "tabled u D" by (simp add: set_ready_def)
  note f = set_fieldsD [OF set_table_fields [OF ok]]
  from ok obtain b bs k where b: "se_buckets u = Some (b, bs)" "se_cap u = length bs" "length bs = 2 ^ k" "4 \<le> k"
    "length bs * sizeof_set_bucket_t \<le> PTRDIFF_MAX" "size D < length bs" "table bs D"
    "psl_within (se_max_psl u) bs" "se_max_psl u \<le> 124 + k" "k \<le> 58" by (rule set_tableD)
  from r obtain k' where k': "se_cap u = 2 ^ k'" "se_max_psl u < 124 + k'" and room: "Suc (size D) < length bs"
    unfolding set_ready_def b(2) by blast
  have "k' = k" by (rule power_inject_exp [THEN iffD1, of 2]) (use k'(1) b(2,3) in simp_all)
  with k'(2) room have rr: "Suc (size D) < length bs" "se_max_psl u < 124 + k" by simp_all
  have K: "se_max_psl u < 255" using b(9,10) by linarith
  obtain bs' mx' d' where i: "rh_insert_loop snd key_eq (length bs) bs (se_max_psl u)
        (hash (snd e) es AND wsub (length bs) 1) e 1 = Some (None, bs', mx', d')"
    "length bs' = length bs" "table bs' (add_mset e D)" "psl_within mx' bs'" "psl_within (Suc (se_max_psl u)) bs'"
    "mx' = se_max_psl u \<or> (\<exists>b \<in> set bs'. mx' = bk_psl b)"
    using table_insert_new [OF b(7) a b(6,8) K le_refl] by blast
  let ?u = "u\<lparr>se_buckets := Some (b, bs'), se_max_psl := mx'\<rparr>"
  have run: "set_insert_raw u e w = Some (True, ?u, w)"
    using i(1) b(1,2) f by (simp add: set_insert_raw_def)
  have "mx' \<le> Suc (se_max_psl u)" using i(5,6) by (auto simp: psl_within_def)
  then have ok': "tabled (?u\<lparr>se_len := Suc (se_len ?u)\<rparr>) (add_mset e D)"
    by (intro set_tableI [where bs = bs' and k = k]) (use f b i rr in \<open>simp_all add: set_fields_def\<close>)
  have same: "set_same u ?u" by (simp add: set_same_def)
  have m: "mset (contents bs') = mset (e # contents bs)" using i(3) b(7) by (simp add: table_ok_def)
  have cells: "mset ((fst e, es) # set_cells u) = mset (set_cells ?u)"
    using set_cells_as [of ?u b bs' "e # contents bs", OF _ m] b(1) f(2) by (simp add: set_cells_def)
  have "psl_within (size (add_mset e D)) bs'" by (rule table_psl_size [OF i(3)]) (use rr(1) i(2) in simp)
  then have "mx' \<le> max (se_max_psl u) (Suc (size D))" using i(6) by (auto simp: psl_within_def)
  then show ?thesis by (intro that [OF run ok' iffD1 [OF owns_cells_perm [OF cells] o] same]) simp_all
qed

lemma set_insert_raw_old:
  assumes r: "ready u D" and c: "\<not> absent snd key_eq (snd e) D"
    and o: "owns_cells (live w) R ((fst e, es) # set_cells u)"
  obtains w' where "set_insert_raw u e w = Some (False, u, w')" and "owns_cells (live w') R (set_cells u)"
proof -
  from r have ok: "tabled u D" by (simp add: set_ready_def)
  note f = set_fieldsD [OF set_table_fields [OF ok]]
  from ok obtain b bs k where b: "se_buckets u = Some (b, bs)" "se_cap u = length bs" "table bs D"
    "psl_within (se_max_psl u) bs" "se_max_psl u \<le> 124 + k" "k \<le> 58" by (rule set_tableD) blast
  have K: "psl_within 255 bs" by (rule psl_within_mono [OF b(4)]) (use b(5,6) in linarith)
  from b(3) c obtain d D0 where d: "D = add_mset d D0" "key_eq (snd d) (snd e)" by (rule present_split)
  have "d \<in># D" using d(1) by simp
  from b(3) this d(2) K obtain i where i: "rh_insert_loop snd key_eq (length bs) bs (se_max_psl u)
        (hash (snd e) es AND wsub (length bs) 1) e 1 = Some (Some i, bs, se_max_psl u, e)" by (rule table_insert_present)
  from o obtain w1 where w1: "mem_free (Some t) (Some (fst e)) es w = Some w1" "owns_cells (live w1) R (set_cells u)" by (rule cells_free)
  have u: "u\<lparr>se_buckets := Some (b, bs), se_max_psl := se_max_psl u\<rparr> = u" using b(1) by simp
  have "set_insert_raw u e w = Some (False, u, w1)"
    using i b(1,2) f w1(1) u by (simp add: set_insert_raw_def del: mem_free.simps)
  then show ?thesis using w1(2) by (rule that)
qed

lemma set_first_buckets_at:
  assumes h: "ok u D" and o: "owns_cells (live w) R (set_cells u)"
  obtains (ok) u' w' where "set_first_buckets u w = Some (SEQC_OK, u', w')"
      and "tabled u' D" and "owns_cells (live w') R (set_cells u')" and "set_same u u'"
      and "max SET_INITIAL_CAP (se_cap u') = max SET_INITIAL_CAP (se_cap u)" and "se_max_psl u' = se_max_psl u"
  | (oom) w' where "set_first_buckets u w = Some (SEQC_OOM, u, w')" and "owns_cells (live w') R (set_cells u)"
      and "refuses t (set_request u)"
  using h
proof (cases rule: set_okE)
  case none
  note f = set_fieldsD [OF none(1)]
  have z: "wmul SET_INITIAL_CAP sizeof_set_bucket_t = 256"
    by (simp add: wmul_def SET_INITIAL_CAP_def sizeof_set_bucket_t_def size_mod_def)
  from o show ?thesis
  proof (cases rule: cells_alloc [where n = 256])
    case (granted a w')
    let ?bs = "replicate SET_INITIAL_CAP empty_bucket :: 'a set_bucket_t list"
    let ?u = "u\<lparr>se_buckets := Some (a, ?bs), se_cap := SET_INITIAL_CAP\<rparr>"
    have l: "length ?bs = 2 ^ 4" by (simp add: SET_INITIAL_CAP_def)
    have "set_first_buckets u w = Some (SEQC_OK, ?u, w')"
      using granted(1) none(3) f(1) z by (simp add: set_first_buckets_def del: mem_alloc.simps)
    moreover have "table ?bs {#}" by (rule table_empty [where k = 4]) (simp_all add: SET_INITIAL_CAP_def)
    then have "tabled ?u D"
      by (intro set_tableI [where k = 4 and bs = ?bs])
        (use none f l in \<open>simp_all add: set_fields_def SET_INITIAL_CAP_def sizeof_set_bucket_t_def PTRDIFF_MAX_def\<close>)
    moreover have "mset ((a, 256) # set_cells u) = mset (set_cells ?u)"
      using none(4) by (simp add: set_cells_def SET_INITIAL_CAP_def sizeof_set_bucket_t_def)
    from iffD1 [OF owns_cells_perm [OF this] granted(2)] have "owns_cells (live w') R (set_cells ?u)" .
    ultimately show ?thesis by (rule ok) (use none(3) in \<open>simp_all add: set_same_def\<close>)
  next
    case (refused w')
    have "u\<lparr>se_buckets := None\<rparr> = u" using none(4) by simp
    then have "set_first_buckets u w = Some (SEQC_OOM, u, w')"
      using refused(1) none(3) f(1) z by (simp add: set_first_buckets_def del: mem_alloc.simps)
    moreover have "refuses t (set_request u)"
      by (rule refuses_mono [OF refused(3)]) (simp add: set_request_def SET_INITIAL_CAP_def sizeof_set_bucket_t_def)
    ultimately show ?thesis using refused(2) by (intro oom)
  qed
next
  case some
  then have "se_cap u \<noteq> 0" by (auto elim: set_tableD)
  then have "set_first_buckets u w = Some (SEQC_OK, u, w)" by (simp add: set_first_buckets_def)
  then show ?thesis using some o set_same_refl by (rule ok) simp_all
qed

definition set_grow_if :: "('a, 'w) set_t \<Rightarrow> 'w \<Rightarrow> (seqc_status_t \<times> ('a, 'w) set_t \<times> 'w) option" where
  "set_grow_if u w = (if wmul (se_len u) 4 \<ge> wmul (se_cap u) 3 \<or> se_max_psl u \<ge> SET_PSL_THRESHOLD
     then set_resize u w else Some (SEQC_OK, u, w))"

lemma set_grow_if_at:
  assumes ok: "tabled u D" and o: "owns_cells (live w) R (set_cells u)"
  obtains (ready) u' w' where "set_grow_if u w = Some (SEQC_OK, u', w')"
      and "ready u' D" and "owns_cells (live w') R (set_cells u')" and "set_same u u'" and "set_grew u (size D) u'"
      and "se_max_psl u' \<le> se_max_psl u"
  | (oom) w' where "set_grow_if u w = Some (SEQC_OOM, u, w')" and "owns_cells (live w') R (set_cells u)"
      and "refuses t (set_request u)"
proof -
  from ok obtain b bs k where b: "se_buckets u = Some (b, bs)" "se_cap u = length bs" "length bs = 2 ^ k" "4 \<le> k"
    "length bs * sizeof_set_bucket_t \<le> PTRDIFF_MAX" "size D < length bs" "table bs D"
    "psl_within (se_max_psl u) bs" "se_max_psl u \<le> 124 + k" "k \<le> 58" by (rule set_tableD)
  have len: "length bs \<le> 2 ^ 58" unfolding b(3) by (rule power_increasing) (use b(10) in simp_all)
  have "(2 :: nat) ^ 4 \<le> length bs" unfolding b(3) by (rule power_increasing) (use b(4) in simp_all)
  then have len16: "SET_INITIAL_CAP \<le> length bs" by (simp add: SET_INITIAL_CAP_def)
  have cap: "wmul (se_cap u) 3 = length bs * 3" unfolding b(2) by (rule wmul_exact) (use len in simp)
  have load: "wmul (se_len u) 4 = size D * 4"
    unfolding set_fieldsD(3) [OF set_table_fields [OF ok]] by (rule wmul_exact) (use b(6) len in simp)
  show ?thesis
  proof (cases "wmul (se_len u) 4 \<ge> wmul (se_cap u) 3 \<or> se_max_psl u \<ge> SET_PSL_THRESHOLD")
    case True
    from ok o show ?thesis
    proof (cases rule: set_resize_at)
      case (grown u' w')
      have "max SET_INITIAL_CAP (length bs) = length bs" "max SET_INITIAL_CAP (2 * length bs) = 2 * length bs" using len16 by simp_all
      then have "set_grew u (size D) u'"
        using grown(5,6) True b(2) unfolding cap load by (auto simp: set_grew_def table_grown_def SET_PSL_THRESHOLD_def)
      with True grown show ?thesis by (intro ready [of u' w']) (simp_all add: set_grow_if_def)
    next
      case (oom w')
      with True show ?thesis by (intro that(2) [of w']) (simp_all add: set_grow_if_def)
    qed
  next
    case False
    then have "size D * 4 < length bs * 3" "se_max_psl u < 128" using cap load by (simp_all add: SET_PSL_THRESHOLD_def)
    then have "ready u D" using ok b(2-4,6) len16 by (auto simp: set_ready_def SET_INITIAL_CAP_def intro!: exI [of _ k])
    with False o show ?thesis by (intro that(1) [of u w]) (simp_all add: set_grow_if_def set_grew_def table_grown_def)
  qed
qed

lemma set_add_at:
  assumes at: "set_at t live hash eq es R w u M"
  obtains (ok) u' w' where "set_add (Some u) (Some x) w = Some (if el_has key_eq x M then SEQC_DUPLICATE else SEQC_OK, Some u', w')"
      and "set_at t live hash eq es R w' u' (el_put key_eq x M)" and "set_same u u'"
      and "set_grew u (size M) u'"
  | (oom) u' w' where "set_add (Some u) (Some x) w = Some (SEQC_OOM, Some u', w')"
      and "set_at t live hash eq es R w' u' M" and "set_same u u'" and "refuses t (set_request u)"
      and "set_grew u (size M) u'"
proof -
  from at obtain D where D: "ok u D" "owns_cells (live w) R (set_cells u)" "M = image_mset snd D" by (rule set_atE)
  from D(1,2) show ?thesis
  proof (cases rule: set_first_buckets_at)
    case (oom w1)
    have "set_add (Some u) (Some x) w = Some (SEQC_OOM, Some u, w1)" using oom(1) by (simp add: set_add_def)
    moreover have "set_at t live hash eq es R w1 u M" using D(1) oom(2) D(3) by (rule set_atI)
    ultimately show ?thesis using oom(3) by (intro that(2) [of u w1]) (simp_all add: set_grew_def table_grown_def)
  next
    case (ok u1 w1)
    note first = ok
    have M: "size M = size D" using D(3) by simp
    from first(2,3) show ?thesis
    proof (cases rule: set_grow_if_at)
      case (oom w2)
      have "set_add (Some u) (Some x) w = Some (SEQC_OOM, Some u1, w2)"
        using first(1) oom(1) [unfolded set_grow_if_def] by (simp add: set_add_def)
      moreover have "set_at t live hash eq es R w2 u1 M" using set_okI [OF first(2)] oom(2) D(3) by (rule set_atI)
      moreover have "refuses t (set_request u)"
        by (rule refuses_mono [OF oom(3)])
          (use first(4) set_first_buckets_cap [OF first(1)] in \<open>simp add: set_request_def set_same_def\<close>)
      moreover have "set_grew u (size M) u1" using first(5,6) by (simp add: set_grew_def table_grown_def)
      ultimately show ?thesis using first(4) by (intro that(2))
    next
      case (ready u2 w2)
      have tab: "tabled u2 D" using ready(2) by (simp add: set_ready_def)
      note f = set_fieldsD [OF set_table_fields [OF tab]] and same = set_same_trans [OF first(4) ready(4)]
      have grew: "set_grew u (size M) u2" using ready(5) first(5,6) by (simp add: set_grew_def M)
      from ready(3) show ?thesis
      proof (cases rule: cells_alloc [where n = es])
        case (refused w3)
        have "set_add (Some u) (Some x) w = Some (SEQC_OOM, Some u2, w3)"
          using first(1) ready(1) [unfolded set_grow_if_def] refused(1) f by (simp add: set_add_def del: mem_alloc.simps)
        moreover have "set_at t live hash eq es R w3 u2 M" using set_okI [OF tab] refused(2) D(3) by (rule set_atI)
        moreover have "refuses t (set_request u)" by (rule refuses_mono [OF refused(3)]) (use same f in \<open>simp add: set_request_def set_same_def\<close>)
        ultimately show ?thesis using same grew by (intro that(2))
      next
        case (granted a w3)
        have go: "set_add (Some u) (Some x) w = do { (inserted, u, w) \<leftarrow> set_insert_raw u2 (a, x) w3;
            if \<not> inserted then Some (SEQC_DUPLICATE, Some u, w) else Some (SEQC_OK, Some (u\<lparr>se_len := Suc (se_len u)\<rparr>), w) }"
          using first(1) ready(1) [unfolded set_grow_if_def] granted(1) f by (simp add: set_add_def del: mem_alloc.simps)
        have o: "owns_cells (live w3) R ((fst (a, x), es) # set_cells u2)" using granted(2) by simp
        show ?thesis
        proof (cases "absent snd key_eq x D")
          case True
          then have "absent snd key_eq (snd (a, x)) D" by simp
          from ready(2) this o obtain u3 where u3: "set_insert_raw u2 (a, x) w3 = Some (True, u3, w3)"
            "tabled (u3\<lparr>se_len := Suc (se_len u3)\<rparr>) (add_mset (a, x) D)" "owns_cells (live w3) R (set_cells u3)" "set_same u2 u3"
            "se_cap u3 = se_cap u2" "se_max_psl u3 \<le> max (se_max_psl u2) (Suc (size D))" by (rule set_insert_raw_new)
          let ?u = "u3\<lparr>se_len := Suc (se_len u3)\<rparr>"
          have no: "\<not> el_has key_eq x M" using True D(3) by (simp add: el_has_image)
          have "owns_cells (live w3) R (set_cells ?u)" using u3(3) by (simp add: set_cells_def split: option.splits prod.splits)
          from set_okI [OF u3(2)] this have "set_at t live hash eq es R w3 ?u (el_put key_eq x M)"
            by (rule set_atI) (use no D(3) in \<open>simp add: el_put_def\<close>)
          moreover have "set_same u ?u" using set_same_trans [OF same u3(4)] by (simp add: set_same_def)
          moreover have "set_grew u (size M) ?u" using grew u3(5,6) ready(6) first(6) by (auto simp: set_grew_def M)
          ultimately show ?thesis using go u3(1) no by (intro that(1) [of ?u w3]) simp_all
        next
          case False
          then have "\<not> absent snd key_eq (snd (a, x)) D" by simp
          from ready(2) this o obtain w4 where w4: "set_insert_raw u2 (a, x) w3 = Some (False, u2, w4)"
            "owns_cells (live w4) R (set_cells u2)" by (rule set_insert_raw_old)
          have yes: "el_has key_eq x M" using False D(3) by (simp add: el_has_image)
          from set_okI [OF tab] w4(2) have "set_at t live hash eq es R w4 u2 (el_put key_eq x M)"
            by (rule set_atI) (use yes D(3) in \<open>simp add: el_put_def\<close>)
          then show ?thesis using go w4(1) yes same grew by (intro that(1) [of u2 w4]) simp_all
        qed
      qed
    qed
  qed
qed

end

end
