(* ===== verification/Seqc_Set_Ops.thy ===== *)
theory Seqc_Set_Ops
  imports Seqc_Set_Laws
begin

section \<open>The other operations of the hash set\<close>

text \<open>
  Creating, looking up, removing, clearing, destroying and iterating over a \<open>set_t\<close>
  (\<open>src/set/set.c\<close>), each as what it does to the multiset of elements that \<open>set_at\<close> abstracts to.
\<close>

lemma set_free_entries_cells:
  assumes "filled bs"
  shows "set_free_entries al es bs w = free_cells al (key_cells es (contents bs)) w"
  using assms
proof (induction bs arbitrary: w)
  case (Cons b bs)
  then have "set_free_entries al es bs = free_cells al (key_cells es (contents bs))" by (intro ext) simp
  with Cons.prems show ?case by (cases "bk_psl b = 0") (auto simp: contents_Cons simp del: mem_free.simps)
qed simp

lemma el_del_none: "\<not> el_has eq x M \<Longrightarrow> el_del eq x M = M"
  unfolding el_del_def el_has_def by (subst filter_mset_eq_conv) auto

text \<open>The empty set has nothing to find, and its table may be missing.\<close>

context set_store begin

subsection \<open>Creating\<close>

lemma set_create_at:
  obtains (ok) u :: "('a, 'w) set_t" and w' where "set_create es hash eq (Some t) w = Some (Some u, w')"
      and "set_at t live hash eq es (live w) w' u {#}" and "se_cap u = 0" and "se_max_psl u = 0"
  | (oom) w' where "set_create es hash eq (Some t) w = Some (None :: ('a, 'w) set_t option, w')" and "live w' = live w"
      and "starved (Some t)"
proof -
  have o: "owns_cells (live w) (live w) []" by simp
  then show ?thesis
  proof (cases rule: cells_alloc [where n = sizeof_set_t])
    case (refused w')
    then show ?thesis using starved_small [OF refused(3)] by (intro oom [of w']) (simp_all add: set_create_def del: mem_alloc.simps)
  next
    case (granted self w1)
    let ?u = "\<lparr>se_self = self, se_buckets = None, se_cap = 0, se_len = 0, se_elem_size = es,
         se_max_psl = 0, se_hash = hash, se_eq = eq, se_alloc = Some t\<rparr> :: ('a, 'w) set_t"
    have "set_create es hash eq (Some t) w = Some (Some ?u, w1)"
      using granted(1) by (simp add: set_create_def del: mem_alloc.simps)
    moreover have "ok ?u {#}" by (simp add: set_ok_def set_fields_def)
    moreover have "owns_cells (live w1) (live w) (set_cells ?u)" using granted(2) by (simp add: set_cells_def)
    ultimately show ?thesis by (intro that(1) [of ?u w1]) (auto intro: set_atI)
  qed
qed

subsection \<open>Lookups\<close>

lemma set_len_is: "set_at t live hash eq es R w u M \<Longrightarrow> set_len (Some u) = size M"
  by (auto elim!: set_atE dest!: set_ok_fields simp: set_len_def set_fields_def)

lemma set_contains_ok:
  assumes "ok u D"
  shows "set_contains (Some u) (Some x) = Some (\<not> absent snd key_eq x D)"
  using assms
proof (cases rule: set_okE)
  case none
  then show ?thesis by (simp add: set_contains_def set_fields_def absent_def)
next
  case some
  note f = set_fieldsD [OF set_table_fields [OF some]]
  from some obtain b bs m where b: "se_buckets u = Some (b, bs)" "se_cap u = length bs" "size D < length bs" "table bs D"
    "psl_within (se_max_psl u) bs" "se_max_psl u \<le> 124 + m" "m \<le> 58" by (rule set_tableD) blast
  show ?thesis
  proof (cases "absent snd key_eq x D")
    case True
    have "rh_find_loop snd key_eq (length bs) bs x (hash x es AND wsub (length bs) 1) 1 = Some None"
      by (rule table_find_absent [OF b(4) True b(3)])
    with True b(1,2) f show ?thesis by (simp add: set_contains_def)
  next
    case False
    with b(4) obtain c D0 where c: "D = add_mset c D0" "key_eq (snd c) x" by (rule present_split)
    have "c \<in># D" using c(1) by simp
    moreover have "psl_within 255 bs" by (rule psl_within_mono [OF b(5)]) (use b(6,7) in linarith)
    ultimately obtain i where "rh_find_loop snd key_eq (length bs) bs x (hash x es AND wsub (length bs) 1) 1 = Some (Some i)"
      using table_find_present [OF b(4) _ c(2)] by blast
    with False b(1,2) f c(1) show ?thesis by (simp add: set_contains_def)
  qed
qed

lemma set_contains_is: "set_is t hash eq es u M \<Longrightarrow> set_contains (Some u) (Some x) = Some (el_has key_eq x M)"
  by (auto simp: set_is_def set_contains_ok el_has_image)

subsection \<open>Removing\<close>

lemma set_remove_at:
  assumes at: "set_at t live hash eq es R w u M"
  obtains u' w' where "set_remove (Some u) (Some x) w = Some (if el_has key_eq x M then SEQC_OK else SEQC_NOT_FOUND, Some u', w')"
    and "set_at t live hash eq es R w' u' (el_del key_eq x M)" and "set_same u u'"
proof -
  from at obtain D where D: "ok u D" "owns_cells (live w) R (set_cells u)" "M = image_mset snd D" by (rule set_atE)
  show ?thesis
  proof (cases "el_has key_eq x M")
    case False
    then have "absent snd key_eq x D" using D(3) by (simp add: el_has_image)
    from D(1) have "set_remove (Some u) (Some x) w = Some (SEQC_NOT_FOUND, Some u, w)"
    proof (cases rule: set_okE)
      case some
      note f = set_fieldsD [OF set_table_fields [OF some]]
      from some obtain b bs where b: "se_buckets u = Some (b, bs)" "se_cap u = length bs" "size D < length bs" "table bs D"
        by (rule set_tableD) blast
      have "rh_find_loop snd key_eq (length bs) bs x (hash x es AND wsub (length bs) 1) 1 = Some None"
        by (rule table_find_absent [OF b(4) \<open>absent snd key_eq x D\<close> b(3)])
      with b(1,2) f show ?thesis by (simp add: set_remove_def)
    qed (simp add: set_remove_def set_fields_def)
    with at False el_del_none [OF False] show ?thesis by (intro that [of u w]) simp_all
  next
    case True
    then have np: "\<not> absent snd key_eq x D" using D(3) by (simp add: el_has_image)
    with D(1) have tab: "set_table t hash eq es u D" by (auto elim: set_okE simp: absent_def)
    note f = set_fieldsD [OF set_table_fields [OF tab]]
    from tab obtain b bs m where b: "se_buckets u = Some (b, bs)" "se_cap u = length bs" "length bs = 2 ^ m" "4 \<le> m"
      "length bs * sizeof_set_bucket_t \<le> PTRDIFF_MAX" "size D < length bs" "table bs D"
      "psl_within (se_max_psl u) bs" "se_max_psl u \<le> 124 + m" "m \<le> 58" by (rule set_tableD)
    from b(7) np obtain c D0 where c: "D = add_mset c D0" "key_eq (snd c) x" "absent snd key_eq x D0" by (rule present_split)
    have "c \<in># D" using c(1) by simp
    moreover have "psl_within 255 bs" by (rule psl_within_mono [OF b(8)]) (use b(9,10) in linarith)
    ultimately obtain i where i: "rh_find_loop snd key_eq (length bs) bs x (hash x es AND wsub (length bs) 1) 1 = Some (Some i)"
      "i < length bs" "bk_psl (bs ! i) \<noteq> 0" "bk_data (bs ! i) = Some c" using table_find_present [OF b(7) _ c(2)] by blast
    have "(2 :: nat) ^ 1 \<le> 2 ^ m" by (rule power_increasing) (use b(4) in simp_all)
    then have l1: "1 < length bs" using b(3) by simp
    have sh: "rh_shifted snd (\<lambda>k. hash k es) (bs[i := empty_bucket]) (set_shift_loop (length bs) bs i)"
      by (rule table_shift_ok(2) [OF b(7) i(2) _ i(3) l1, of empty_bucket]) (simp add: empty_bucket_def)
    obtain bs' where s: "set_shift_loop (length bs) bs i = Some bs'" "length bs' = length bs"
      "table bs' D0" "psl_within (se_max_psl u) bs'"
      by (rule table_shifted [OF b(7) [unfolded c(1)] i(2-4) _ b(8) sh]) (simp_all add: empty_bucket_def)
    let ?u = "u\<lparr>se_buckets := Some (b, bs'), se_len := se_len u - 1\<rparr>"
    have m: "mset (contents bs) = mset (c # contents bs')" using b(7) s(3) c(1) by (simp add: table_ok_def)
    have "mset (set_cells u) = mset ((fst c, es) # set_cells ?u)"
      using set_cells_as [OF b(1) m] set_cells_as [of ?u b bs' "contents bs'"] f(2) by simp
    from iffD1 [OF owns_cells_perm [OF this] D(2)] obtain w1 where w1: "mem_free (Some t) (Some (fst c)) es w = Some w1"
      "owns_cells (live w1) R (set_cells ?u)" by (rule cells_free)
    have "size D \<noteq> 0" using c(1) by simp
    then have "set_remove (Some u) (Some x) w = Some (SEQC_OK, Some ?u, w1)"
      using i s(1) b(1,2) f w1(1) by (simp add: set_remove_def del: mem_free.simps)
    moreover have "set_table t hash eq es ?u D0"
      by (rule set_tableI [where bs = bs' and k = m]) (use f b s c(1) in \<open>simp_all add: set_fields_def\<close>)
    from set_okI [OF this] w1(2) have "set_at t live hash eq es R w1 ?u (el_del key_eq x M)"
      by (rule set_atI) (simp only: D(3) c(1) el_del_old [where eq = key_eq, OF c(3,2)])
    ultimately show ?thesis using True by (intro that [of ?u w1]) (simp_all add: set_same_def)
  qed
qed

subsection \<open>Clearing and destroying\<close>

lemma set_free_all:
  assumes "set_table t hash eq es u D" and "owns_cells (live w) R (set_cells u)" and "se_buckets u = Some (a, bs)"
  obtains w' where "set_free_entries (Some t) (se_elem_size u) bs w = Some w'"
    and "owns_cells (live w') R [(a, se_cap u * sizeof_set_bucket_t), (se_self u, sizeof_set_t)]"
proof -
  from assms(1,3) have f: "filled bs" by (auto elim!: set_tableD dest: table_filled)
  have "mset (set_cells u) =
      mset (key_cells (se_elem_size u) (contents bs) @ [(a, se_cap u * sizeof_set_bucket_t), (se_self u, sizeof_set_t)])"
    using assms(3) by (simp add: set_cells_def)
  from free_cells_all [OF iffD1 [OF owns_cells_perm [OF this] assms(2)]] obtain w' where
    "free_cells (Some t) (key_cells (se_elem_size u) (contents bs)) w = Some w'"
    "owns_cells (live w') R [(a, se_cap u * sizeof_set_bucket_t), (se_self u, sizeof_set_t)]" by blast
  with that show ?thesis by (simp add: set_free_entries_cells [OF f])
qed

lemma set_clear_at:
  fixes u :: "('a, 'w) set_t"
  assumes at: "set_at t live hash eq es R w u M"
  obtains u' w' where "set_clear (Some u) w = Some (Some u', w')" and "set_at t live hash eq es R w' u' {#}" and "set_same u u'"
proof -
  from at obtain D where D: "ok u D" "owns_cells (live w) R (set_cells u)" by (rule set_atE)
  from D(1) show ?thesis
  proof (cases rule: set_okE)
    case none
    have "set_at t live hash eq es R w u {#}" using D none(2) by (intro set_atI [of _ _ _ _ _ "{#}"]) simp_all
    with none(4) show ?thesis by (intro that [of u w]) (simp_all add: set_clear_def)
  next
    case some
    note f = set_fieldsD [OF set_table_fields [OF some]]
    from some obtain b bs m where b: "se_buckets u = Some (b, bs)" "se_cap u = length bs" "length bs = 2 ^ m" "4 \<le> m"
      "length bs * sizeof_set_bucket_t \<le> PTRDIFF_MAX" "m \<le> 58" by (rule set_tableD) blast
    obtain w' where w': "set_free_entries (Some t) (se_elem_size u) bs w = Some w'"
      "owns_cells (live w') R [(b, se_cap u * sizeof_set_bucket_t), (se_self u, sizeof_set_t)]" by (rule set_free_all [OF some D(2) b(1)])
    let ?bs = "replicate (length bs) empty_bucket :: 'a set_bucket_t list"
    let ?u = "u\<lparr>se_buckets := Some (b, ?bs), se_len := 0, se_max_psl := 0\<rparr>"
    have n64: "length bs < 2 ^ 64" unfolding b(3) by (rule power_strict_increasing) (use b(6) in simp_all)
    have "set_clear (Some u) w = Some (Some ?u, w')" using b(1,2) f w'(1) by (simp add: set_clear_def)
    moreover have "set_table t hash eq es ?u {#}"
      by (rule set_tableI [where bs = ?bs and k = m]) (use f b n64 table_empty [OF b(3) n64] in \<open>simp_all add: set_fields_def\<close>)
    moreover have "owns_cells (live w') R (set_cells ?u)"
      by (rule iffD1 [OF owns_cells_perm w'(2)]) (simp add: set_cells_def)
    ultimately show ?thesis by (intro that [of ?u w']) (auto intro: set_atI set_okI simp: set_same_def)
  qed
qed

lemma set_destroy_at:
  assumes at: "set_at t live hash eq es R w u M"
  obtains w' where "set_destroy (Some u) w = Some w'" and "live w' = R"
proof -
  from at obtain D where D: "ok u D" "owns_cells (live w) R (set_cells u)" by (rule set_atE)
  from D(1) show ?thesis
  proof (cases rule: set_okE)
    case none
    have "owns_cells (live w) R [(se_self u, sizeof_set_t)]" using D(2) none(4) by (simp add: set_cells_def)
    then obtain w' where "mem_free (Some t) (Some (se_self u)) sizeof_set_t w = Some w'" "owns_cells (live w') R []" by (rule cells_free)
    with none set_fieldsD(1) [OF none(1)] that show ?thesis by (simp add: set_destroy_def del: mem_free.simps)
  next
    case some
    note f = set_fieldsD [OF set_table_fields [OF some]]
    from some obtain b bs where b: "se_buckets u = Some (b, bs)" "se_cap u = length bs"
      "length bs * sizeof_set_bucket_t \<le> PTRDIFF_MAX" by (rule set_tableD) blast
    obtain w1 where w1: "set_free_entries (Some t) (se_elem_size u) bs w = Some w1"
      "owns_cells (live w1) R [(b, se_cap u * sizeof_set_bucket_t), (se_self u, sizeof_set_t)]" by (rule set_free_all [OF some D(2) b(1)])
    have z: "wmul (length bs) sizeof_set_bucket_t = length bs * sizeof_set_bucket_t"
      by (rule wmul_exact) (use b(3) in \<open>simp add: PTRDIFF_MAX_def\<close>)
    from w1(2) obtain w2 where w2: "mem_free (Some t) (Some b) (se_cap u * sizeof_set_bucket_t) w1 = Some w2"
      "owns_cells (live w2) R [(se_self u, sizeof_set_t)]" by (rule cells_free)
    from w2(2) obtain w3 where w3: "mem_free (Some t) (Some (se_self u)) sizeof_set_t w2 = Some w3" "owns_cells (live w3) R []"
      by (rule cells_free)
    with w1(1) w2(1) b f(1) z that show ?thesis by (simp add: set_destroy_def del: mem_free.simps)
  qed
qed

subsection \<open>Iterating\<close>

text \<open>The buckets of a set, also of one without a table.\<close>

lemma set_buckets_ok:
  assumes "ok u D"
  shows "filled (set_bucket_list u)" and "se_cap u = length (set_bucket_list u)" and "mset (contents (set_bucket_list u)) = D"
    and "buckets_upto (se_cap u) (set_bucket_list u) = Some (set_bucket_list u)"
proof -
  have *: "filled (set_bucket_list u) \<and> se_cap u = length (set_bucket_list u) \<and> mset (contents (set_bucket_list u)) = D"
    using assms
  proof (cases rule: set_okE)
    case some
    then obtain b bs where b: "se_buckets u = Some (b, bs)" "se_cap u = length bs" "table bs D" by (rule set_tableD) blast
    then show ?thesis using table_filled [OF b(3)] by (simp add: set_bucket_list_def table_ok_def)
  qed (simp add: set_bucket_list_def)
  then show "filled (set_bucket_list u)" "se_cap u = length (set_bucket_list u)" "mset (contents (set_bucket_list u)) = D" by simp_all
  show "buckets_upto (se_cap u) (set_bucket_list u) = Some (set_bucket_list u)" using * by simp
qed

lemma set_iter_closes:
  assumes "al = Some t" and "si_self s = a"
  shows "iter_closes live (iter_make nx (set_iter_drop al) s es' al') [a \<mapsto> sizeof_set_iter_state_t]"
  by (rule iter_closes_block) (simp add: set_iter_drop_def assms)

lemma set_iters_built:
  assumes "set_is t hash eq es u M"
  shows "\<exists>xs. mset xs = M \<and> iter_built live (Some t) (live w) es xs (set_iter (Some u) w) \<and>
    iter_built live (Some t) (live w) es (rev xs) (set_iter_rev (Some u) w)"
proof -
  from assms obtain D where D: "ok u D" "M = image_mset snd D" by (auto simp: set_is_def)
  note f = set_fieldsD [OF set_ok_fields [OF D(1)]] and b = set_buckets_ok [OF D(1)]
  let ?bs = "set_bucket_list u"
  let ?xs = "map snd (contents ?bs)"
  have "mset ?xs = M" using b(3) D(2) by simp
  moreover have "iter_built live (Some t) (live w) es ?xs (set_iter (Some u) w) \<and>
    iter_built live (Some t) (live w) es (rev ?xs) (set_iter_rev (Some u) w)"
  proof (cases rule: iter_state_alloc [of sizeof_set_iter_state_t w])
    case (refused w')
    then show ?thesis using f(1)
      by (intro conjI iter_built_zero [of _ w']) (simp_all add: starved_small [OF refused(3)] set_iter_def set_iter_rev_def del: mem_alloc.simps)
  next
    case (granted a w')
    let ?mk = "\<lambda>pos. \<lparr>si_self = a, si_buckets = ?bs, si_cap = length ?bs, si_pos = pos\<rparr>"
    have n: "set_iter_next (?mk pos) w = Some (map_option snd r, ?mk pos', w)"
      if "scan_next ?bs (length ?bs) pos = Some (r, pos')" for pos r pos' and w :: 'w
      using that by (simp add: set_iter_next_def)
    have p: "set_iter_rev_next (?mk pos) w = Some (map_option snd r, ?mk pos', w)"
      if "scan_prev ?bs pos = Some (r, pos')" for pos r pos' and w :: 'w
      using that by (simp add: set_iter_rev_next_def)
    have c: "iter_closes live (iter_make nx (set_iter_drop (Some t)) (?mk pos) es (Some t)) [a \<mapsto> sizeof_set_iter_state_t]" for pos nx
      by (intro set_iter_closes) simp_all
    have fr: "iter_rep live (map snd (contents (drop 0 ?bs))) (iter_make set_iter_next (set_iter_drop (Some t)) (?mk 0) es (Some t))
        [a \<mapsto> sizeof_set_iter_state_t]"
      by (rule scan_iter_rep [where mk = ?mk and nx = set_iter_next and yield = snd]) (use b(1) n c in simp_all)
    have fwd: "iter_built live (Some t) (live w) es ?xs (set_iter (Some u) w)"
      by (rule iter_built_valid [where live = live, OF _ _ _ granted(2) fr [unfolded drop_0]])
        (use granted b(2) f in \<open>simp_all add: set_iter_def del: mem_alloc.simps\<close>)
    have "iter_rep live (map snd (rev (contents (take (length ?bs) ?bs))))
        (iter_make set_iter_rev_next (set_iter_drop (Some t)) (?mk (length ?bs)) es (Some t)) [a \<mapsto> sizeof_set_iter_state_t]"
      by (rule scan_iter_rev_rep [where mk = ?mk and nx = set_iter_rev_next and yield = snd]) (use b(1) p c in simp_all)
    note br = this [unfolded take_all [OF order_refl] rev_map [symmetric]]
    have "iter_built live (Some t) (live w) es (rev ?xs) (set_iter_rev (Some u) w)"
      by (rule iter_built_valid [where live = live, OF _ _ _ granted(2) br])
        (use granted b(2) f in \<open>simp_all add: set_iter_rev_def del: mem_alloc.simps\<close>)
    with fwd show ?thesis ..
  qed
  ultimately show ?thesis by blast
qed

end

end
