(* ===== verification/Seqc_Set_Algebra.thy ===== *)
theory Seqc_Set_Algebra
  imports Seqc_Set_Ops
begin

section \<open>Draining into a set, and set algebra\<close>

text \<open>
  Adding elements one after the other: \<open>el_join eq M N\<close> is \<open>M\<close> with the elements of \<open>N\<close> that
  have no equal in \<open>M\<close>.
\<close>

definition el_puts :: "('a \<Rightarrow> 'a \<Rightarrow> bool) \<Rightarrow> 'a multiset \<Rightarrow> 'a list \<Rightarrow> 'a multiset" where
  "el_puts eq M xs = foldl (\<lambda>M x. el_put eq x M) M xs"

definition el_join :: "('a \<Rightarrow> 'a \<Rightarrow> bool) \<Rightarrow> 'a multiset \<Rightarrow> 'a multiset \<Rightarrow> 'a multiset" where
  "el_join eq M N = M + filter_mset (\<lambda>x. \<not> el_has eq x M) N"

lemma el_puts_simps [simp]:
  "el_puts eq M [] = M"
  "el_puts eq M (x # xs) = el_puts eq (el_put eq x M) xs"
  by (simp_all add: el_puts_def)

lemma el_has_add [simp]: "el_has eq x (add_mset y M) \<longleftrightarrow> eq y x \<or> el_has eq x M"
  by (auto simp: el_has_def)

lemma el_join_mono: "N \<subseteq># N' \<Longrightarrow> el_join eq M N \<subseteq># el_join eq M N'"
  by (simp add: el_join_def multiset_filter_mono)

lemma el_join_sub: "M \<subseteq># el_join eq M N"
  by (simp add: el_join_def)

lemma el_join_empty [simp]: "el_join eq {#} N = N"
  by (simp add: el_join_def el_has_def filter_mset_True)

lemma take_filter_sub: "mset (filter P (take n xs)) \<subseteq># filter_mset P (mset xs)"
  by (metis append_take_drop_id filter_append mset_append mset_filter mset_subset_eq_add_left)

lemma set_remove_cap:
  "set_remove (Some u) (Some x) w = Some (st, Some u', w') \<Longrightarrow> se_cap u' = se_cap u \<and> se_max_psl u' = se_max_psl u"
  by (auto simp: set_remove_def bind_eq_Some_conv simp del: mem_free.simps split: option.splits if_splits)

lemma set_clear_cap:
  "set_clear (Some u) w = Some (Some u', w') \<Longrightarrow> se_cap u' = se_cap u \<and> se_max_psl u' \<le> se_max_psl u"
  by (auto simp: set_clear_def bind_eq_Some_conv simp del: mem_free.simps split: option.splits)

text \<open>A set with what bounds the number of its buckets, \<open>c0\<close> of them at first.\<close>

type_synonym 'a bounded_set = "'a multiset \<times> nat \<times> nat"

definition set_within ::
  "'w vtable \<Rightarrow> 'a hash_fn \<Rightarrow> 'a eq_fn \<Rightarrow> size_t \<Rightarrow> nat \<Rightarrow> ('a, 'w) set_t \<Rightarrow> 'a bounded_set \<Rightarrow> bool" where
  "set_within t hash eq es c0 u m \<longleftrightarrow>
     set_is t hash eq es u (fst m) \<and> max SET_INITIAL_CAP (se_cap u) \<le> buckets_bound c0 (snd m) \<and> se_max_psl u \<le> fst (snd m)"

definition set_bounded ::
  "'w vtable \<Rightarrow> ('w \<Rightarrow> addr \<rightharpoonup> size_t) \<Rightarrow> 'a hash_fn \<Rightarrow> 'a eq_fn \<Rightarrow> size_t \<Rightarrow> nat \<Rightarrow>
   (addr \<rightharpoonup> size_t) \<Rightarrow> 'w \<Rightarrow> ('a, 'w) set_t \<Rightarrow> 'a bounded_set \<Rightarrow> bool" where
  "set_bounded t live hash eq es c0 R w u m \<longleftrightarrow> set_within t hash eq es c0 u m \<and> owns (live w) R (set_blocks u)"

definition bounded_put :: "('a \<Rightarrow> 'a \<Rightarrow> bool) \<Rightarrow> 'a bounded_set \<Rightarrow> 'a \<Rightarrow> 'a bounded_set" where
  "bounded_put eq m x = (el_put eq x (fst m), peak_step (size (fst m)) (snd m))"

definition bounded_full :: "'w vtable \<Rightarrow> nat \<Rightarrow> size_t \<Rightarrow> 'a bounded_set \<Rightarrow> bool" where
  "bounded_full t c0 n m \<longleftrightarrow> refuses t (2 * buckets_bound c0 (snd m) * sizeof_set_bucket_t + n)"

lemma bounded_puts: "fst (foldl (bounded_put eq) m xs) = el_puts eq (fst m) xs"
  by (induction xs arbitrary: m) (simp_all add: bounded_put_def el_puts_def)

lemma size_el_put: "size (el_put eq x M) \<le> Suc (size M)"
  by (simp add: el_put_def)

lemma bounded_puts_peak:
  "peak_within (size M) h (length xs) (snd (foldl (bounded_put eq) (M, h, 0) xs)) \<and>
   size (fst (foldl (bounded_put eq) (M, h, 0) xs)) \<le> size M + length xs"
proof (induction xs rule: rev_induct)
  case Nil
  then show ?case by (simp add: peak_within_start)
next
  case (snoc x xs)
  obtain N s where m: "foldl (bounded_put eq) (M, h, 0) xs = (N, s)" by (rule prod.exhaust)
  with snoc have "peak_within (size M) h (length xs) s" "size N \<le> size M + length xs" by simp_all
  with peak_within_step size_el_put [of eq x N] m show ?case by (simp add: bounded_put_def [of _ "(N, s)"])
qed

context set_store begin

lemma set_is_apart: "set_is t hash eq es u M \<Longrightarrow> keys_apart (\<lambda>x. x) key_eq M"
  by (auto simp: set_is_def set_ok_def set_table_def table_ok_def keys_apart_def filter_mset_image_mset)

lemma keys_apart_sub: "keys_apart key key_eq N \<Longrightarrow> M \<subseteq># N \<Longrightarrow> keys_apart key key_eq M"
  unfolding keys_apart_def by (meson le_trans multiset_filter_mono size_mset_mono)

lemma el_puts_join:
  "keys_apart (\<lambda>x. x) key_eq (mset xs) \<Longrightarrow> el_puts key_eq M xs = el_join key_eq M (mset xs)"
proof (induction xs arbitrary: M)
  case (Cons x xs)
  then have apart: "keys_apart (\<lambda>x. x) key_eq (mset xs)" "absent (\<lambda>x. x) key_eq x (mset xs)"
    by (simp_all add: keys_apart_add)
  have "filter_mset (\<lambda>y. \<not> el_has key_eq y (add_mset x M)) (mset xs) = filter_mset (\<lambda>y. \<not> el_has key_eq y M) (mset xs)"
    by (rule filter_mset_cong) (use apart(2) eq_sym in \<open>auto simp: absent_def\<close>)
  then show ?case using Cons.IH [OF apart(1), of "el_put key_eq x M"] by (simp add: el_join_def el_put_def)
qed (simp add: el_join_def)

subsection \<open>Extending\<close>

lemma set_is_size: "set_is t hash eq es u M \<Longrightarrow> se_elem_size u = es"
  by (auto simp: set_is_def dest!: set_ok_fields simp: set_fields_def)

lemma set_add_within:
  fixes u :: "('a, 'w) set_t"
  assumes m: "set_within t hash eq es c0 u m" and o: "owns (live w) R (set_blocks u)"
  obtains (ok) u' w' where "set_add (Some u) (Some x) w = Some (if el_has key_eq x (fst m) then SEQC_DUPLICATE else SEQC_OK, Some u', w')"
      and "owns (live w') R (set_blocks u')" and "set_within t hash eq es c0 u' (bounded_put key_eq m x)" and "set_same u u'"
  | (oom) u' w' where "set_add (Some u) (Some x) w = Some (SEQC_OOM, Some u', w')"
      and "owns (live w') R (set_blocks u')" and "set_within t hash eq es c0 u' (fst m, peak_step (size (fst m)) (snd m))"
      and "set_same u u'" and "bounded_full t c0 es m"
proof -
  from m o have at: "set_at t live hash eq es R w u (fst m)"
    and c: "max SET_INITIAL_CAP (se_cap u) \<le> buckets_bound c0 (snd m)" "se_max_psl u \<le> fst (snd m)"
    and es: "se_elem_size u = es" using set_is_size by (auto simp: set_at_def set_within_def)
  have grew: "max SET_INITIAL_CAP (se_cap u') \<le> buckets_bound c0 (peak_step (size (fst m)) (snd m))"
      "se_max_psl u' \<le> fst (peak_step (size (fst m)) (snd m))"
    if "set_grew u (size (fst m)) u'" for u' :: "('a, 'w) set_t"
  proof -
    have g: "table_grown (max SET_INITIAL_CAP (se_cap u)) (se_max_psl u) (size (fst m)) (max SET_INITIAL_CAP (se_cap u'))"
      "se_max_psl u' \<le> max (se_max_psl u) (Suc (size (fst m)))" using that by (simp_all add: set_grew_def)
    show "max SET_INITIAL_CAP (se_cap u') \<le> buckets_bound c0 (peak_step (size (fst m)) (snd m))" by (rule table_grown_bound [OF g(1) c])
    show "se_max_psl u' \<le> fst (peak_step (size (fst m)) (snd m))" using g(2) c(2) by (auto simp: peak_step_def)
  qed
  from at show ?thesis
  proof (cases rule: set_add_at [where x = x])
    case (ok u' w')
    with grew [OF ok(4)] show ?thesis
      by (intro that(1) [of u' w']) (simp_all add: set_at_def set_within_def bounded_put_def)
  next
    case (oom u' w')
    have "bounded_full t c0 es m" unfolding bounded_full_def
      by (rule refuses_mono [OF oom(4)]) (use c es in \<open>simp add: set_request_def\<close>)
    with oom grew [OF oom(5)] show ?thesis
      by (intro that(2) [of u' w']) (simp_all add: set_at_def set_within_def)
  qed
qed

lemma set_collection_fill:
  "collection_fill t live set_add set_blocks (set_within t hash eq es c0) (\<lambda>u m. set_is t hash eq es u (fst m))
    (bounded_put key_eq) set_same (\<lambda>u. bounded_full t c0 es)"
proof unfold_locales
  fix u :: "('a, 'w) set_t" and m w R and x :: 'a
  assume "set_within t hash eq es c0 u m" "owns (live w) R (set_blocks u)"
  then show "\<exists>st u' w'. set_add (Some u) (Some x) w = Some (st, Some u', w') \<and> owns (live w') R (set_blocks u') \<and>
      set_same u u' \<and> (if st = SEQC_OK \<or> st = SEQC_DUPLICATE then set_within t hash eq es c0 u' (bounded_put key_eq m x)
        else st = SEQC_OOM \<and> set_is t hash eq es u' (fst m) \<and> bounded_full t c0 es m)"
  proof (cases rule: set_add_within [where x = x])
    case (oom u' w')
    from oom(3) have "set_is t hash eq es u' (fst m)" by (simp add: set_within_def)
    with oom show ?thesis by simp
  qed auto
qed (auto simp: set_within_def intro: set_same_trans)

lemma set_within_start:
  "set_is t hash eq es u M \<Longrightarrow> set_within t hash eq es (max SET_INITIAL_CAP (se_cap u)) u (M, se_max_psl u, 0)"
  by (simp add: set_within_def buckets_bound_least del: max.bounded_iff)

lemma set_extend_at:
  assumes u: "set_is t hash eq es u M" and "owns2 (live w) R (set_blocks u) B"
    and "iter_rep live xs it B" and "iter_is_valid it" and "it_elem_size it = es"
  shows "\<exists>st u' w' n. set_extend (Some u) it w = Some (st, Some u', w') \<and>
    set_at t live hash eq es R w' u' (el_puts key_eq M (take n xs)) \<and>
    (st = SEQC_OK \<and> n = length xs \<or>
     st = SEQC_OOM \<and> n \<le> length xs \<and>
     refuses t (2 * buckets_bound (max SET_INITIAL_CAP (se_cap u)) (peak_after (size M) (se_max_psl u) n) * sizeof_set_bucket_t + es))"
proof -
  let ?c = "max SET_INITIAL_CAP (se_cap u)" and ?m = "\<lambda>n. foldl (bounded_put key_eq) (M, se_max_psl u, 0) (take n xs)"
  from u obtain D where "ok u D" by (auto simp: set_is_def)
  note f = set_fieldsD [OF set_ok_fields [OF this]]
  from collection_fill.extend_at [OF set_collection_fill set_within_start [OF u] assms(2-5)] obtain st u' w' n where
    e: "seqc_extend (Some u) set_add es (Some t) it w = Some (st, Some u', w')" "owns (live w') R (set_blocks u')"
    "set_is t hash eq es u' (el_puts key_eq M (take n xs))"
    "st = SEQC_OK \<and> n = length xs \<or>
     st = SEQC_OOM \<and> n \<le> length xs \<and> (bounded_full t ?c es (?m n) \<or> n = 0 \<and> refuses t es)"
    unfolding bounded_puts fst_conv by blast
  have "refuses t (2 * buckets_bound ?c (peak_after (size M) (se_max_psl u) n) * sizeof_set_bucket_t + es)"
    if n: "n \<le> length xs" and full: "bounded_full t ?c es (?m n) \<or> n = 0 \<and> refuses t es"
    using full
  proof
    assume full: "bounded_full t ?c es (?m n)"
    have "peak_within (size M) (se_max_psl u) n (snd (?m n))"
      using bounded_puts_peak [of M "se_max_psl u" "take n xs" key_eq] n by simp
    from peak_within_bound [OF this, of ?c] show ?thesis
      by (intro refuses_mono [OF full [unfolded bounded_full_def]]) (simp del: max.bounded_iff)
  qed (auto elim: refuses_mono)
  with e f show ?thesis
    by (intro exI [of _ st] exI [of _ u'] exI [of _ w'] exI [of _ n]) (auto simp: set_at_def set_extend_def simp del: max.bounded_iff)
qed

subsection \<open>Algebra\<close>

lemma set_bounded_at: "set_bounded t live hash eq es c0 R w u m \<Longrightarrow> set_at t live hash eq es R w u (fst m)"
  by (simp add: set_bounded_def set_within_def set_at_def)

lemma set_add_bounded:
  assumes "set_bounded t live hash eq es c0 R w u (M, s)"
  obtains (ok) u' w' where "set_add (Some u) (Some x) w = Some (if el_has key_eq x M then SEQC_DUPLICATE else SEQC_OK, Some u', w')"
      and "set_bounded t live hash eq es c0 R w' u' (el_put key_eq x M, peak_step (size M) s)"
  | (oom) u' w' where "set_add (Some u) (Some x) w = Some (SEQC_OOM, Some u', w')"
      and "set_bounded t live hash eq es c0 R w' u' (M, peak_step (size M) s)"
      and "refuses t (2 * buckets_bound c0 s * sizeof_set_bucket_t + es)"
proof -
  from assms have "set_within t hash eq es c0 u (M, s)" "owns (live w) R (set_blocks u)" by (simp_all add: set_bounded_def)
  then show ?thesis
  proof (cases rule: set_add_within [where x = x])
    case (ok u' w')
    then show ?thesis by (intro that(1) [of u' w']) (simp_all add: set_bounded_def bounded_put_def)
  next
    case (oom u' w')
    then show ?thesis by (intro that(2) [of u' w']) (simp_all add: set_bounded_def bounded_full_def)
  qed
qed

text \<open>
  One loop over the buckets of another set: \<open>m0\<close> and \<open>h0\<close> are the size and the longest probe that the
  destination had \<open>j\<close> elements ago.
\<close>

lemma set_add_each_at:
  assumes "filled bs" and "\<And>x. x \<in> set (map snd (contents bs)) \<Longrightarrow> keep x = Some (P x)"
    and "set_bounded t live hash eq es c0 R w u (M, s)" and "peak_within m0 h0 j s" and "size M \<le> m0 + j"
  shows "\<exists>st u' w' n s'. set_add_each keep bs (Some u) w = Some (st, Some u', w') \<and>
    set_bounded t live hash eq es c0 R w' u' (el_puts key_eq M (filter P (take n (map snd (contents bs)))), s') \<and>
    (st = SEQC_OK \<and> n = length (contents bs) \<and> peak_within m0 h0 (j + n) s' \<and>
       size (el_puts key_eq M (filter P (take n (map snd (contents bs))))) \<le> m0 + (j + n) \<or>
     st = SEQC_OOM \<and> n < length (contents bs) \<and>
       refuses t (2 * buckets_bound c0 (peak_after m0 h0 (j + n)) * sizeof_set_bucket_t + es))"
  using assms
proof (induction bs arbitrary: u w M s j)
  case Nil
  then show ?case by (intro exI [of _ SEQC_OK] exI [of _ u] exI [of _ w] exI [of _ 0] exI [of _ s]) simp
next
  case (Cons b bs)
  show ?case
  proof (cases "bk_psl b = 0")
    case True
    with Cons.prems Cons.IH [of w u M s j] show ?thesis by (simp add: contents_Cons)
  next
    case False
    with Cons.prems(1) obtain e where e: "bk_data b = Some e" and fb: "filled bs" by auto
    have cs: "contents (b # bs) = e # contents bs" using False e by (simp add: contents_Cons)
    have ke: "keep (snd e) = Some (P (snd e))" and kr: "\<And>x. x \<in> set (map snd (contents bs)) \<Longrightarrow> keep x = Some (P x)"
      using Cons.prems(2) by (simp_all add: cs)
    note IH = Cons.IH [OF fb kr, where j = "Suc j"]
    show ?thesis
    proof (cases "P (snd e)")
      case False
      from Cons.prems(5) have "size M \<le> m0 + Suc j" by simp
      from IH [OF _ Cons.prems(3) peak_within_Suc [OF Cons.prems(4)] this] obtain st u' w' n s' where
        r: "set_add_each keep bs (Some u) w = Some (st, Some u', w')"
        "set_bounded t live hash eq es c0 R w' u' (el_puts key_eq M (filter P (take n (map snd (contents bs)))), s')"
        "st = SEQC_OK \<and> n = length (contents bs) \<and> peak_within m0 h0 (Suc j + n) s' \<and>
           size (el_puts key_eq M (filter P (take n (map snd (contents bs))))) \<le> m0 + (Suc j + n) \<or>
         st = SEQC_OOM \<and> n < length (contents bs) \<and>
           refuses t (2 * buckets_bound c0 (peak_after m0 h0 (Suc j + n)) * sizeof_set_bucket_t + es)" by blast
      with False ke e \<open>bk_psl b \<noteq> 0\<close> show ?thesis
        by (intro exI [of _ st] exI [of _ u'] exI [of _ w'] exI [of _ "Suc n"] exI [of _ s']) (auto simp: cs)
    next
      case True
      from Cons.prems(3) show ?thesis
      proof (cases rule: set_add_bounded [where x = "snd e"])
        case (ok u1 w1)
        have "size (el_put key_eq (snd e) M) \<le> m0 + Suc j" using Cons.prems(5) size_el_put [of key_eq "snd e" M] by simp
        from IH [OF _ ok(2) peak_within_step [OF Cons.prems(4,5)] this] obtain st u' w' n s' where
          r: "set_add_each keep bs (Some u1) w1 = Some (st, Some u', w')"
          "set_bounded t live hash eq es c0 R w' u'
            (el_puts key_eq (el_put key_eq (snd e) M) (filter P (take n (map snd (contents bs)))), s')"
          "st = SEQC_OK \<and> n = length (contents bs) \<and> peak_within m0 h0 (Suc j + n) s' \<and>
             size (el_puts key_eq (el_put key_eq (snd e) M) (filter P (take n (map snd (contents bs))))) \<le> m0 + (Suc j + n) \<or>
           st = SEQC_OOM \<and> n < length (contents bs) \<and>
             refuses t (2 * buckets_bound c0 (peak_after m0 h0 (Suc j + n)) * sizeof_set_bucket_t + es)" by blast
        have "set_add_each keep (b # bs) (Some u) w = Some (st, Some u', w')"
          using True ke e \<open>bk_psl b \<noteq> 0\<close> ok(1) r(1) by simp
        with True r show ?thesis
          by (intro exI [of _ st] exI [of _ u'] exI [of _ w'] exI [of _ "Suc n"] exI [of _ s']) (auto simp: cs)
      next
        case (oom u1 w1)
        have "set_add_each keep (b # bs) (Some u) w = Some (SEQC_OOM, Some u1, w1)"
          using True ke e \<open>bk_psl b \<noteq> 0\<close> oom(1) by simp
        moreover have "refuses t (2 * buckets_bound c0 (peak_after m0 h0 (j + 0)) * sizeof_set_bucket_t + es)"
          by (rule refuses_mono [OF oom(3)]) (use peak_within_bound [OF Cons.prems(4), of c0] in simp)
        ultimately show ?thesis using oom(2)
          by (intro exI [of _ SEQC_OOM] exI [of _ u1] exI [of _ w1] exI [of _ 0] exI [of _ "peak_step (size M) s"]) (simp add: cs)
      qed
    qed
  qed
qed

lemma set_add_from:
  assumes src: "set_is t hash eq es p N" and keep: "\<And>x. keep x = Some (P x)"
    and dst: "set_bounded t live hash eq es c0 R w u (M, s)" and peak: "peak_within m0 h0 j s" "size M \<le> m0 + j"
  obtains (full) u' w' s' where "set_add_each keep (set_bucket_list p) (Some u) w = Some (SEQC_OK, Some u', w')"
      and "set_bounded t live hash eq es c0 R w' u' (el_join key_eq M (filter_mset P N), s')"
      and "peak_within m0 h0 (j + size N) s'" and "size (el_join key_eq M (filter_mset P N)) \<le> m0 + (j + size N)"
  | (oom) u' w' M' where "set_add_each keep (set_bucket_list p) (Some u) w = Some (SEQC_OOM, Some u', w')"
      and "set_at t live hash eq es R w' u' M'" and "M \<subseteq># M'" and "M' \<subseteq># el_join key_eq M (filter_mset P N)"
      and "refuses t (2 * buckets_bound c0 (peak_after m0 h0 (j + size N)) * sizeof_set_bucket_t + es)"
proof -
  from src obtain D where D: "ok p D" "N = image_mset snd D" by (auto simp: set_is_def)
  note b = set_buckets_ok [OF D(1)]
  let ?xs = "map snd (contents (set_bucket_list p))"
  have N: "mset ?xs = N" using b(3) D(2) by simp
  have len: "length (contents (set_bucket_list p)) = size N" using arg_cong [OF N, of size] by simp
  have sub: "mset (filter P (take n ?xs)) \<subseteq># filter_mset P N" for n using take_filter_sub [of P n ?xs] N by simp
  have apart: "keys_apart (\<lambda>x. x) key_eq (mset (filter P (take n ?xs)))" for n
    by (rule keys_apart_sub [OF set_is_apart [OF src] subset_mset.order_trans [OF sub multiset_filter_subset]])
  have puts: "el_puts key_eq M (filter P (take n ?xs)) = el_join key_eq M (mset (filter P (take n ?xs)))" for n
    by (rule el_puts_join [OF apart])
  from set_add_each_at [where keep = keep, OF b(1) keep dst peak] obtain st u' w' n s' where
    r: "set_add_each keep (set_bucket_list p) (Some u) w = Some (st, Some u', w')"
    "set_bounded t live hash eq es c0 R w' u' (el_puts key_eq M (filter P (take n ?xs)), s')"
    "st = SEQC_OK \<and> n = size N \<and> peak_within m0 h0 (j + n) s' \<and> size (el_puts key_eq M (filter P (take n ?xs))) \<le> m0 + (j + n) \<or>
     st = SEQC_OOM \<and> n < size N \<and> refuses t (2 * buckets_bound c0 (peak_after m0 h0 (j + n)) * sizeof_set_bucket_t + es)"
    unfolding len by blast
  from r(3) show ?thesis
  proof (elim disjE conjE)
    assume st: "st = SEQC_OK" and n: "n = size N" and pk: "peak_within m0 h0 (j + n) s'"
      and sz: "size (el_puts key_eq M (filter P (take n ?xs))) \<le> m0 + (j + n)"
    have "mset (filter P (take n ?xs)) = filter_mset P N" using n N len by simp
    with st n pk sz r(1,2) puts [of n] show ?thesis by (intro that(1) [of u' w' s']) simp_all
  next
    assume st: "st = SEQC_OOM" and n: "n < size N"
      and full: "refuses t (2 * buckets_bound c0 (peak_after m0 h0 (j + n)) * sizeof_set_bucket_t + es)"
    have "refuses t (2 * buckets_bound c0 (peak_after m0 h0 (j + size N)) * sizeof_set_bucket_t + es)"
      by (rule refuses_mono [OF full]) (use peak_after_mono [of "j + n" "j + size N" c0 m0 h0] n in simp)
    then show ?thesis using st r(1) set_bounded_at [OF r(2)] puts [of n] el_join_sub el_join_mono [OF sub]
      by (intro that(2) [of u' w']) simp_all
  qed
qed

end

text \<open>
  What an algebraic operation leaves in \<open>dest\<close>: all of \<open>T\<close>, or, when the allocator refused a
  request for at most \<open>c\<close> buckets or an element, a part that includes what was there.
\<close>

definition joined_into ::
  "'w vtable \<Rightarrow> ('w \<Rightarrow> addr \<rightharpoonup> size_t) \<Rightarrow> 'a hash_fn \<Rightarrow> 'a eq_fn \<Rightarrow> size_t \<Rightarrow> (addr \<rightharpoonup> size_t) \<Rightarrow> nat \<Rightarrow>
   'a multiset \<Rightarrow> 'a multiset \<Rightarrow> (seqc_status_t \<times> ('a, 'w) set_t option \<times> 'w) option \<Rightarrow> bool" where
  "joined_into t live hash eq es R c M T res \<longleftrightarrow>
     (\<exists>st u' w' M'. res = Some (st, Some u', w') \<and> set_at t live hash eq es R w' u' M' \<and>
        (st = SEQC_OK \<and> M' = T \<or>
         st = SEQC_OOM \<and> M \<subseteq># M' \<and> M' \<subseteq># T \<and> refuses t (c * sizeof_set_bucket_t + es)))"

lemma joined_into_mono:
  assumes "joined_into t live hash eq es R c M T res" and "M0 \<subseteq># M" and "c \<le> d"
  shows "joined_into t live hash eq es R d M0 T res"
proof -
  have "M0 \<subseteq># M'" if "M \<subseteq># M'" for M' using assms(2) that by (rule subset_mset.order_trans)
  moreover have "refuses t (d * sizeof_set_bucket_t + es)" if "refuses t (c * sizeof_set_bucket_t + es)"
    using that by (rule refuses_mono) (use assms(3) in simp)
  ultimately show ?thesis using assms(1) unfolding joined_into_def by blast
qed

context set_store begin

lemma set_buckets_is:
  assumes "set_is t hash eq es p N"
  shows "buckets_upto (se_cap p) (set_bucket_list p) = Some (set_bucket_list p)" and "se_len p = size N"
proof -
  from assms obtain D where D: "ok p D" "N = image_mset snd D" by (auto simp: set_is_def)
  from set_buckets_ok(4) [OF D(1)] show "buckets_upto (se_cap p) (set_bucket_list p) = Some (set_bucket_list p)" .
  from set_fieldsD(3) [OF set_ok_fields [OF D(1)]] D(2) show "se_len p = size N" by simp
qed

abbreviation room :: "('a, 'w) set_t \<Rightarrow> 'a multiset \<Rightarrow> nat \<Rightarrow> nat" where
  "room u M n \<equiv> 2 * buckets_bound (max SET_INITIAL_CAP (se_cap u)) (peak_after (size M) (se_max_psl u) n)"

lemma set_at_start:
  assumes "set_at t live hash eq es R w u M"
  shows "set_bounded t live hash eq es (max SET_INITIAL_CAP (se_cap u)) R w u (M, se_max_psl u, 0)"
    and "peak_within (size M) (se_max_psl u) 0 (se_max_psl u, 0)" and "size M \<le> size M + 0"
  using assms by (simp_all add: set_bounded_def set_within_start set_at_def peak_within_start del: max.bounded_iff)

lemma set_add_from_joins:
  assumes "set_is t hash eq es p N" and "\<And>x. keep x = Some (P x)"
    and "set_bounded t live hash eq es c0 R w u (M, s)" and "peak_within m0 h0 j s" and "size M \<le> m0 + j"
  shows "joined_into t live hash eq es R (2 * buckets_bound c0 (peak_after m0 h0 (j + size N))) M (el_join key_eq M (filter_mset P N))
    (set_add_each keep (set_bucket_list p) (Some u) w)"
  using assms by (cases rule: set_add_from [where keep = keep and P = P]) (auto simp: joined_into_def dest: set_bounded_at)

lemmas set_add_start = set_add_from_joins [OF _ _ set_at_start, unfolded add_0]

lemma set_union_at:
  assumes a: "set_is t hash eq es p A" and b: "set_is t hash eq es q B" and d: "set_at t live hash eq es R w u M"
  shows "joined_into t live hash eq es R (room u M (size A + size B)) M (el_join key_eq (el_join key_eq M A) B)
    (set_union (Some u) (Some p) (Some q) w)"
proof -
  have go: "set_union (Some u) (Some p) (Some q) w = do {
      (st, dest, w) \<leftarrow> set_add_each (\<lambda>_. Some True) (set_bucket_list p) (Some u) w;
      if st \<noteq> SEQC_OK then Some (st, dest, w) else set_add_each (\<lambda>_. Some True) (set_bucket_list q) dest w }"
    using set_buckets_is(1) [OF a] set_buckets_is(1) [OF b] by (simp add: set_union_def cong: if_cong)
  have "(\<lambda>_. Some True) x = Some True" for x :: 'a by simp
  from a this set_at_start [OF d] show ?thesis
  proof (cases rule: set_add_from [where keep = "\<lambda>_. Some True" and P = "\<lambda>_. True"])
    case (full u1 w1 s1)
    have j: "joined_into t live hash eq es R (room u M (size A + size B)) (el_join key_eq M A) (el_join key_eq (el_join key_eq M A) B)
        (set_add_each (\<lambda>_. Some True) (set_bucket_list q) (Some u1) w1)"
      using set_add_from_joins [OF b, where keep = "\<lambda>_. Some True" and P = "\<lambda>_. True", OF _ full(2-4)] by (simp add: filter_mset_True)
    from joined_into_mono [OF j el_join_sub order_refl] full(1) go show ?thesis by simp
  next
    case (oom u1 w1 M')
    have "M' \<subseteq># el_join key_eq (el_join key_eq M A) B"
      using oom(4) by (rule subset_mset.order_trans) (simp add: filter_mset_True el_join_sub)
    moreover have "refuses t (room u M (size A + size B) * sizeof_set_bucket_t + es)"
      by (rule refuses_mono [OF oom(5)])
        (use peak_after_mono [of "size A" "size A + size B" "max SET_INITIAL_CAP (se_cap u)" "size M" "se_max_psl u"] in simp)
    ultimately show ?thesis using oom go unfolding joined_into_def by auto
  qed
qed

lemma set_intersection_at:
  assumes a: "set_is t hash eq es p A" and b: "set_is t hash eq es q B" and d: "set_at t live hash eq es R w u M"
  shows "joined_into t live hash eq es R (room u M (min (size A) (size B))) M
    (el_join key_eq M (if size A \<le> size B then filter_mset (\<lambda>x. el_has key_eq x B) A else filter_mset (\<lambda>x. el_has key_eq x A) B))
    (set_intersection (Some u) (Some p) (Some q) w)"
  using set_add_start [OF a _ d d d, of _ "\<lambda>x. el_has key_eq x B"] set_add_start [OF b _ d d d, of _ "\<lambda>x. el_has key_eq x A"]
  by (simp add: set_intersection_def set_buckets_is [OF a] set_buckets_is [OF b] set_contains_is [OF a] set_contains_is [OF b] min_def)

lemma set_difference_at:
  assumes a: "set_is t hash eq es p A" and b: "set_is t hash eq es q B" and d: "set_at t live hash eq es R w u M"
  shows "joined_into t live hash eq es R (room u M (size A)) M (el_join key_eq M (filter_mset (\<lambda>x. \<not> el_has key_eq x B) A))
    (set_difference (Some u) (Some p) (Some q) w)"
  using set_add_start [OF a _ d d d, of _ "\<lambda>x. \<not> el_has key_eq x B"]
  by (simp add: set_difference_def set_buckets_is [OF a] set_contains_is [OF b])

end

end
