(* ===== verification/Seqc_Set_Properties.thy ===== *)
theory Seqc_Set_Properties
  imports Seqc_Lifetime Seqc_Set_Algebra Seqc_Hash
begin

section \<open>The hash set against multisets without equal elements\<close>

text \<open>
  \<open>hash_set_spec\<close> says what each call of a \<open>set_t\<close> may answer when the set holds the elements \<open>M\<close>,
  and what becomes of them. An addition fails only if the allocator refuses a request for an element
  or for twice the buckets: \<open>s\<close> has the most elements so far and the additions since they reached
  128, and \<open>buckets_bound 16 s\<close> bounds the buckets. \<open>n\<close> is the size of an element.
\<close>

datatype 'a hset_op = EAdd 'a | ERemove 'a | EContains 'a | ELen | EIsEmpty | EClear

datatype hset_answer = EStatus seqc_status_t | ETruth bool | ECount size_t

fun hash_set_spec ::
  "'w vtable \<Rightarrow> size_t \<Rightarrow> ('a \<Rightarrow> 'a \<Rightarrow> bool) \<Rightarrow> 'a hset_op \<Rightarrow> 'a bounded_set \<Rightarrow> hset_answer \<Rightarrow> 'a bounded_set \<Rightarrow> bool" where
  "hash_set_spec t n eq (EAdd x) (M, s) r m \<longleftrightarrow>
     r = EStatus (if el_has eq x M then SEQC_DUPLICATE else SEQC_OK) \<and> m = (el_put eq x M, peak_step (size M) s) \<or>
     r = EStatus SEQC_OOM \<and> m = (M, peak_step (size M) s) \<and> refuses t (2 * buckets_bound 16 s * sizeof_set_bucket_t + n)"
| "hash_set_spec t n eq (ERemove x) (M, s) r m \<longleftrightarrow>
     r = EStatus (if el_has eq x M then SEQC_OK else SEQC_NOT_FOUND) \<and> m = (el_del eq x M, s)"
| "hash_set_spec t n eq (EContains x) (M, s) r m \<longleftrightarrow> m = (M, s) \<and> r = ETruth (el_has eq x M)"
| "hash_set_spec t n eq ELen (M, s) r m \<longleftrightarrow> m = (M, s) \<and> r = ECount (size M)"
| "hash_set_spec t n eq EIsEmpty (M, s) r m \<longleftrightarrow> m = (M, s) \<and> r = ETruth (M = {#})"
| "hash_set_spec t n eq EClear (M, s) r m \<longleftrightarrow> r = EStatus SEQC_OK \<and> m = ({#}, s)"

fun hset_call ::
  "'a hset_op \<Rightarrow> ('a, 'w) set_t option \<Rightarrow> 'w \<Rightarrow> (hset_answer \<times> ('a, 'w) set_t option \<times> 'w) option" where
  "hset_call (EAdd x) s w = do { (st, s, w) \<leftarrow> set_add s (Some x) w; Some (EStatus st, s, w) }"
| "hset_call (ERemove x) s w = do { (st, s, w) \<leftarrow> set_remove s (Some x) w; Some (EStatus st, s, w) }"
| "hset_call (EContains x) s w = do { b \<leftarrow> set_contains s (Some x); Some (ETruth b, s, w) }"
| "hset_call ELen s w = Some (ECount (set_len s), s, w)"
| "hset_call EIsEmpty s w = Some (ETruth (set_is_empty s), s, w)"
| "hset_call EClear s w = do { (s, w) \<leftarrow> set_clear s w; Some (EStatus SEQC_OK, s, w) }"

context set_store begin

lemma hset_call_law:
  assumes "set_bounded t live hash eq es 16 R w u m"
  shows "\<exists>r u' w' m'. hset_call p (Some u) w = Some (r, Some u', w') \<and> hash_set_spec t es key_eq p m r m' \<and>
    set_bounded t live hash eq es 16 R w' u' m'"
proof -
  obtain M s where m: "m = (M, s)" by (rule prod.exhaust)
  note at = set_bounded_at [OF assms, unfolded m fst_conv]
  show ?thesis
  proof (cases p)
    case (EAdd x)
    from assms [unfolded m] show ?thesis unfolding EAdd m
    proof (cases rule: set_add_bounded [where x = x])
      case (ok u' w')
      then show "\<exists>r u' w' m'. hset_call (EAdd x) (Some u) w = Some (r, Some u', w') \<and>
          hash_set_spec t es key_eq (EAdd x) (M, s) r m' \<and> set_bounded t live hash eq es 16 R w' u' m'"
        by (intro exI [of _ "EStatus (if el_has key_eq x M then SEQC_DUPLICATE else SEQC_OK)"] exI [of _ u'] exI [of _ w']
          exI [of _ "(el_put key_eq x M, peak_step (size M) s)"]) simp
    next
      case (oom u' w')
      then show "\<exists>r u' w' m'. hset_call (EAdd x) (Some u) w = Some (r, Some u', w') \<and>
          hash_set_spec t es key_eq (EAdd x) (M, s) r m' \<and> set_bounded t live hash eq es 16 R w' u' m'"
        by (intro exI [of _ "EStatus SEQC_OOM"] exI [of _ u'] exI [of _ w'] exI [of _ "(M, peak_step (size M) s)"]) simp
    qed
  next
    case (ERemove x)
    from at obtain u' w' where r: "set_remove (Some u) (Some x) w = Some (if el_has key_eq x M then SEQC_OK else SEQC_NOT_FOUND, Some u', w')"
      "set_at t live hash eq es R w' u' (el_del key_eq x M)" by (rule set_remove_at)
    have "set_bounded t live hash eq es 16 R w' u' (el_del key_eq x M, s)"
      using r(2) assms set_remove_cap [OF r(1)] by (simp add: set_bounded_def set_within_def set_at_def m)
    with ERemove m r(1) show ?thesis by auto
  next
    case (EContains x)
    with assms m at set_contains_is [of u M x] show ?thesis by (auto simp: set_at_def)
  next
    case EClear
    from at obtain u' w' where r: "set_clear (Some u) w = Some (Some u', w')" "set_at t live hash eq es R w' u' {#}" by (rule set_clear_at)
    have "set_bounded t live hash eq es 16 R w' u' ({#}, s)"
      using r(2) assms set_clear_cap [OF r(1)] by (simp add: set_bounded_def set_within_def set_at_def m)
    with EClear m r(1) show ?thesis by auto
  qed (use assms m set_len_is [OF at] in \<open>auto simp: set_is_empty_def\<close>)
qed

lemma set_lifetime_laws:
  "lifetime_laws t live (set_create es hash eq (Some t)) (on_handle hset_call) (\<lambda>u. set_destroy (Some u))
    (hash_set_spec t es key_eq) ({#}, 0, 0) (\<lambda>_. True) (set_bounded t live hash eq es 16)"
proof unfold_locales
  fix w
  show "\<exists>c w'. set_create es hash eq (Some t) w = Some (c, w') \<and>
      (case c of None \<Rightarrow> live w' = live w \<and> starved (Some t) | Some c \<Rightarrow> set_bounded t live hash eq es 16 (live w) w' c ({#}, 0, 0))"
    by (cases rule: set_create_at [of w]) (auto simp: set_bounded_def set_within_def set_at_def buckets_bound_def SET_INITIAL_CAP_def)
next
  fix R w p m and u :: "('a, 'w) set_t"
  assume "set_bounded t live hash eq es 16 R w u m"
  then show "\<exists>r u' w' m'. on_handle hset_call p u w = Some (r, u', w') \<and> hash_set_spec t es key_eq p m r m' \<and>
      set_bounded t live hash eq es 16 R w' u' m'"
    using hset_call_law [of R w u m p] by (fastforce intro: on_handleI)
next
  fix R w m and u :: "('a, 'w) set_t"
  assume "set_bounded t live hash eq es 16 R w u m"
  from set_bounded_at [OF this] show "\<exists>w'. set_destroy (Some u) w = Some w' \<and> live w' = R" by (rule set_destroy_at) blast
qed

lemma set_created:
  assumes "set_create es hash eq (Some t) w = Some (Some u, w1)"
  shows "set_bounded t live hash eq es 16 (live w) w1 u ({#}, 0, 0)" and "set_at t live hash eq es (live w) w1 u {#}"
proof -
  show "set_bounded t live hash eq es 16 (live w) w1 u ({#}, 0, 0)"
    by (cases rule: set_create_at [of w]) (use assms in \<open>auto simp: set_bounded_def set_within_def set_at_def buckets_bound_def SET_INITIAL_CAP_def\<close>)
  from set_bounded_at [OF this] show "set_at t live hash eq es (live w) w1 u {#}" by simp
qed

lemma set_run:
  assumes "set_create es hash eq (Some t) w = Some (Some u, w1)"
  obtains rs u' w2 M where "run_ops (on_handle hset_call) ps u w1 = Some (rs, u', w2)"
    and "set_at t live hash eq es (live w) w2 u' M"
proof -
  have "\<forall>p \<in> set ps. True" by simp
  from lifetime_laws.run_allowed [OF set_lifetime_laws set_created(1) [OF assms] this] that set_bounded_at
    show ?thesis by blast
qed

lemma set_copy_at:
  assumes src: "set_is t hash eq es s N" and dst: "set_at t live hash eq es R w u M"
  shows "\<exists>xs n st u' w'. mset xs = N \<and>
    (do { (it, w) \<leftarrow> set_iter (Some s) w; set_extend (Some u) it w }) = Some (st, Some u', w') \<and>
    set_at t live hash eq es R w' u' (el_puts key_eq M (take n xs)) \<and>
    (st = SEQC_OK \<and> n = length xs \<or>
     st = SEQC_OOM \<and> n \<le> length xs \<and> refuses t (2 * buckets_bound (max SET_INITIAL_CAP (se_cap u)) (peak_after (size M) (se_max_psl u) n) * sizeof_set_bucket_t + es) \<or>
     st = SEQC_INVALID \<and> n = 0 \<and> starved (Some t))"
proof -
  from set_iters_built [OF src, of w] obtain xs where
    xs: "mset xs = N" "iter_built live (Some t) (live w) es xs (set_iter (Some s) w)" by blast
  from dst have u: "set_is t hash eq es u M" "owns (live w) R (set_blocks u)" by (simp_all add: set_at_def)
  from xs(2) obtain it w1 where it: "set_iter (Some s) w = Some (it, w1)"
    "it = iter_zero \<and> live w1 = live w \<and> starved (Some t) \<or>
     iter_is_valid it \<and> it_elem_size it = es \<and> (\<exists>B. owns (live w1) (live w) B \<and> iter_rep live xs it B)"
    unfolding iter_built_def by blast
  show ?thesis
  proof (cases "it = iter_zero \<and> live w1 = live w \<and> starved (Some t)")
    case True
    have "owns (live w1) R (set_blocks u)" using True u(2) by simp
    then have "set_at t live hash eq es R w1 u M" using u(1) by (simp add: set_at_def)
    moreover have "set_extend (Some u) it w1 = Some (SEQC_INVALID, Some u, w1)"
      using True by (simp add: set_extend_def seqc_extend_def)
    ultimately show ?thesis using it(1) xs(1) True
      by (intro exI [of _ xs] exI [of _ 0] exI [of _ SEQC_INVALID] exI [of _ u] exI [of _ w1]) simp
  next
    case False
    with it(2) obtain B where v: "iter_is_valid it" "it_elem_size it = es" "owns (live w1) (live w) B" "iter_rep live xs it B" by blast
    have "owns2 (live w1) R (set_blocks u) B" by (rule owns2I [OF u(2) v(3)])
    with u(1) obtain st u' w' n where "set_extend (Some u) it w1 = Some (st, Some u', w')"
      "set_at t live hash eq es R w' u' (el_puts key_eq M (take n xs))"
      "st = SEQC_OK \<and> n = length xs \<or>
       st = SEQC_OOM \<and> n \<le> length xs \<and> refuses t (2 * buckets_bound (max SET_INITIAL_CAP (se_cap u)) (peak_after (size M) (se_max_psl u) n) * sizeof_set_bucket_t + es)"
      using set_extend_at [OF _ _ v(4,1,2)] by blast
    with it(1) xs(1) show ?thesis
      by (intro exI [of _ xs] exI [of _ n] exI [of _ st] exI [of _ u'] exI [of _ w']) auto
  qed
qed

end

interpretation sys_set: set_store sys_allocator hp_live bytes_hash bytes_eq 8
  by unfold_locales

interpretation sys_set_life: lifetime_laws sys_allocator hp_live "set_create 8 bytes_hash bytes_eq (Some sys_allocator)"
  "on_handle hset_call" "\<lambda>u. set_destroy (Some u)" "hash_set_spec sys_allocator 8 (\<lambda>a b. bytes_eq a b 8)" "({#}, 0, 0)" "\<lambda>_. True"
  "set_bounded sys_allocator hp_live bytes_hash bytes_eq 8 16"
  by (rule sys_set.set_lifetime_laws)

interpretation sys_set_add: collection_fill sys_allocator hp_live set_add set_blocks
  "set_within sys_allocator bytes_hash bytes_eq 8 16" "\<lambda>u m. set_is sys_allocator bytes_hash bytes_eq 8 u (fst m)"
  "bounded_put (\<lambda>a b. bytes_eq a b 8)" set_same "\<lambda>u. bounded_full sys_allocator 16 8"
  by (rule sys_set.set_collection_fill)

lemma set_storeI: "heap_allocator t live \<Longrightarrow> hash_fits hash eq es \<Longrightarrow> set_store t live hash eq es"
  by (simp add: set_store_def hash_fits_def)

lemma set_roomy_create:
  assumes "hash_fits hash eq es"
  obtains u :: "('a, (addr \<times> size_t) list) set_t" and w' where
    "set_create es hash eq (Some roomy_allocator) w = Some (Some u, w')"
    and "set_bounded roomy_allocator map_of hash eq es 16 (map_of w) w' u ({#}, 0, 0)"
  using lifetime_laws.create_law [OF set_store.set_lifetime_laws [OF set_storeI [OF roomy.heap_allocator_axioms assms]], of w]
    roomy_not_starved by (fastforce split: option.splits)

text \<open>The examples: a set with two elements, and a new one beside it.\<close>

lemma set_pair_here:
  obtains p :: "(byte list, (addr \<times> size_t) list) set_t" and w0 rs p' w1 u w2 where
    "set_create 1 bytes_hash bytes_eq (Some roomy_allocator) [] = Some (Some p, w0)"
    and "run_ops (on_handle hset_call) [EAdd [7], EAdd [9]] p w0 = Some (rs, p', w1)"
    and "set_create 1 bytes_hash bytes_eq (Some roomy_allocator) w1 = Some (Some u, w2)"
    and "set_is roomy_allocator bytes_hash bytes_eq 1 p' {#[7], [9]#}" and "set_blocks p' \<subseteq>\<^sub>m map_of w1"
    and "set_at roomy_allocator map_of bytes_hash bytes_eq 1 (map_of w1) w2 u {#}" and "max SET_INITIAL_CAP (se_cap u) \<le> 16" and "se_max_psl u = 0"
proof -
  note h = set_storeI [OF roomy.heap_allocator_axioms bytes_fit [of 1]]
  obtain p :: "(byte list, (addr \<times> size_t) list) set_t" and w0 where
    c: "set_create 1 bytes_hash bytes_eq (Some roomy_allocator) [] = Some (Some p, w0)"
      "set_bounded roomy_allocator map_of bytes_hash bytes_eq 1 16 (map_of []) w0 p ({#}, 0, 0)"
    by (rule set_roomy_create [OF bytes_fit [of 1]])
  have "\<forall>q \<in> set [EAdd [7], EAdd [9]]. True" by simp
  from lifetime_laws.run_allowed [OF set_store.set_lifetime_laws [OF h] c(2) this] obtain rs p' w1 m where
    r: "run_ops (on_handle hset_call) [EAdd [7], EAdd [9]] p w0 = Some (rs, p', w1)"
      "allowed (hash_set_spec roomy_allocator 1 (\<lambda>a b. bytes_eq a b 1)) [EAdd [7], EAdd [9]] ({#}, 0, 0) rs m"
      "set_bounded roomy_allocator map_of bytes_hash bytes_eq 1 16 (map_of []) w1 p' m" by blast
  have "m = ({#[7], [9]#}, 2, 0)" using r(2)
    by (auto simp: allowed_Cons_iff roomy_refuses PTRDIFF_MAX_def sizeof_set_bucket_t_def el_put_def el_has_def bytes_eq_def
      buckets_bound_def peak_step_def)
  with r(3) have p: "set_is roomy_allocator bytes_hash bytes_eq 1 p' {#[7], [9]#}" "set_blocks p' \<subseteq>\<^sub>m map_of w1"
    by (auto simp: set_bounded_def set_within_def owns_def)
  obtain u :: "(byte list, (addr \<times> size_t) list) set_t" and w2 where
    u: "set_create 1 bytes_hash bytes_eq (Some roomy_allocator) w1 = Some (Some u, w2)"
      "set_bounded roomy_allocator map_of bytes_hash bytes_eq 1 16 (map_of w1) w2 u ({#}, 0, 0)"
    by (rule set_roomy_create [OF bytes_fit [of 1]])
  from set_store.set_bounded_at [OF h u(2)] u(2) show ?thesis
    by (intro that [OF c(1) r(1) u(1) p]) (simp_all add: set_bounded_def set_within_def buckets_bound_def)
qed

lemma few_buckets: "c \<le> 16 \<Longrightarrow> h = 0 \<Longrightarrow> n \<le> 4 \<Longrightarrow> buckets_bound c (peak_after 0 h n) \<le> 16"
  by (simp add: buckets_bound_def peak_after_def)

lemma joined_into_roomy:
  assumes "joined_into roomy_allocator map_of hash eq es R c M T res" and "c * sizeof_set_bucket_t + es \<le> PTRDIFF_MAX"
  shows "\<exists>u' w'. res = Some (SEQC_OK, Some u', w') \<and> set_at roomy_allocator map_of hash eq es R w' u' T"
  using assms(1) roomy_refuses [OF assms(2)] by (auto simp: joined_into_def)

text \<open>A set that is live when another is created lies in the frame of the other.\<close>

lemma set_at_frame:
  assumes "set_at t live hash eq es R w u M"
  shows "set_is t hash eq es u M" and "set_blocks u \<subseteq>\<^sub>m live w"
  using assms by (auto simp: set_at_def owns_def)

subsection \<open>Properties\<close>

text \<open>
  C33. A program that creates a \<open>set_t\<close>, applies any sequence of additions, removals, membership
  tests, length queries and clearings, and destroys it has a defined result, for every hash
  function and equality that fit together: each answer is the one of a multiset without equal
  elements, every probe and every backward shift ends, and no block is leaked or freed twice. An
  addition may answer \<open>SEQC_OOM\<close>, and then changes no element, only if the allocator refuses a
  request for an element or for twice the buckets: as long as the set held at most \<open>n\<close> elements,
  \<open>n < 127\<close>, it has at most \<open>max 16 (3 * Suc n)\<close> buckets; after that each addition may double them. The
  element size is positive. (\<open>docs/set.md\<close> promises NULL for an element size of zero, which
  \<open>set_create\<close> does not check.)
\<close>
theorem set_lifetime_correct:
  assumes "heap_allocator t live" and "hash_fits hash eq es" and "0 < es"
  shows "lifetime_ok t live (hash_set_spec t es (\<lambda>a b. eq a b es)) ({#}, 0, 0) ps w
    (lifetime (set_create es hash eq (Some t)) (on_handle hset_call) (\<lambda>u. set_destroy (Some u)) ps w)"
  by (rule lifetime_laws.lifetime_is_ok [OF set_store.set_lifetime_laws [OF set_storeI [OF assms(1,2)]]]) simp

theorem set_lifetime_witness:
  "lifetime_ok oom_after_allocator hp_live (hash_set_spec oom_after_allocator 1 (\<lambda>a b. bytes_eq a b 1)) ({#}, 0, 0)
    [EAdd [7], EAdd [9], EAdd [7], EContains [9], ERemove [7], EContains [7], ELen] (heap_with 3)
    (lifetime (set_create 1 bytes_hash bytes_eq (Some oom_after_allocator)) (on_handle hset_call)
      (\<lambda>u. set_destroy (Some u)) [EAdd [7], EAdd [9], EAdd [7], EContains [9], ERemove [7], EContains [7], ELen] (heap_with 3))"
  by (rule set_lifetime_correct [OF oom.heap_allocator_axioms bytes_fit]) simp

text \<open>
  C34. \<open>set_union\<close>, \<open>set_intersection\<close> and \<open>set_difference\<close> add to \<open>dest\<close> what their names say, without
  clearing it first: into an empty \<open>dest\<close> the union is \<open>a\<close> with the elements of \<open>b\<close> that have no
  equal in \<open>a\<close>, the intersection the elements of the smaller operand with an equal in the
  other, the difference those of \<open>a\<close> without an equal in \<open>b\<close>. Only when the allocator refuses a request for
  an element or for buckets, as many as so many additions may need, is \<open>dest\<close> left between
  what it held and that. The operands may be the same set, but \<open>dest\<close> is another:
  their blocks belong to the frame \<open>R\<close>, which no operation on \<open>dest\<close> touches.
\<close>
theorem set_algebra_correct:
  assumes "heap_allocator t live" and "hash_fits hash eq es"
    and "set_is t hash eq es p A" and "set_is t hash eq es q B" and "set_at t live hash eq es R w u M"
    and "set_blocks p \<subseteq>\<^sub>m R" and "set_blocks q \<subseteq>\<^sub>m R"
  shows "(let same = \<lambda>a b. eq a b es;
        room = \<lambda>n. 2 * buckets_bound (max SET_INITIAL_CAP (se_cap u)) (peak_after (size M) (se_max_psl u) n) in
    joined_into t live hash eq es R (room (size A + size B)) M (el_join same (el_join same M A) B) (set_union (Some u) (Some p) (Some q) w) \<and>
    joined_into t live hash eq es R (room (min (size A) (size B))) M
      (el_join same M (if size A \<le> size B then {# x \<in># A. el_has same x B #} else {# x \<in># B. el_has same x A #}))
      (set_intersection (Some u) (Some p) (Some q) w) \<and>
    joined_into t live hash eq es R (room (size A)) M (el_join same M {# x \<in># A. \<not> el_has same x B #})
      (set_difference (Some u) (Some p) (Some q) w))"
proof -
  note s = set_storeI [OF assms(1,2)]
  note at = assms(3-5)
  show ?thesis unfolding Let_def
    by (intro conjI set_store.set_union_at [OF s at] set_store.set_intersection_at [OF s at] set_store.set_difference_at [OF s at])
qed

theorem set_algebra_witness:
  "\<exists>p w0 rs p' w1 u w2. set_create 1 bytes_hash bytes_eq (Some roomy_allocator) [] = Some (Some p, w0) \<and>
    run_ops (on_handle hset_call) [EAdd [7], EAdd [9]] p w0 = Some (rs, p', w1) \<and>
    set_create 1 bytes_hash bytes_eq (Some roomy_allocator) w1 = Some (Some u, w2) \<and>
    (\<exists>u' w'. set_union (Some u) (Some p') (Some p') w2 = Some (SEQC_OK, Some u', w') \<and>
      set_at roomy_allocator map_of bytes_hash bytes_eq 1 (map_of w1) w' u' {#[7], [9]#}) \<and>
    (\<exists>u' w'. set_intersection (Some u) (Some p') (Some p') w2 = Some (SEQC_OK, Some u', w') \<and>
      set_at roomy_allocator map_of bytes_hash bytes_eq 1 (map_of w1) w' u' {#[7], [9]#}) \<and>
    (\<exists>u' w'. set_difference (Some u) (Some p') (Some p') w2 = Some (SEQC_OK, Some u', w') \<and>
      set_at roomy_allocator map_of bytes_hash bytes_eq 1 (map_of w1) w' u' {#})"
proof -
  obtain p :: "(byte list, (addr \<times> size_t) list) set_t" and w0 rs p' w1 u w2 where
    c: "set_create 1 bytes_hash bytes_eq (Some roomy_allocator) [] = Some (Some p, w0)"
      "run_ops (on_handle hset_call) [EAdd [7], EAdd [9]] p w0 = Some (rs, p', w1)"
      "set_create 1 bytes_hash bytes_eq (Some roomy_allocator) w1 = Some (Some u, w2)"
    and A: "set_is roomy_allocator bytes_hash bytes_eq 1 p' {#[7], [9]#}" "set_blocks p' \<subseteq>\<^sub>m map_of w1"
    and at: "set_at roomy_allocator map_of bytes_hash bytes_eq 1 (map_of w1) w2 u {#}" and cap: "max SET_INITIAL_CAP (se_cap u) \<le> 16" "se_max_psl u = 0"
    by (rule set_pair_here)
  note all = set_algebra_correct [OF roomy.heap_allocator_axioms bytes_fit A(1) A(1) at A(2) A(2), unfolded Let_def]
  have fits: "2 * buckets_bound (max SET_INITIAL_CAP (se_cap u)) (peak_after (size ({#} :: byte list multiset)) (se_max_psl u) n) *
      sizeof_set_bucket_t + 1 \<le> PTRDIFF_MAX" if "n \<le> 4" for n
    using few_buckets [OF cap, of n] that by (simp add: sizeof_set_bucket_t_def PTRDIFF_MAX_def)
  note un = joined_into_roomy [OF all [THEN conjunct1] fits]
    and inter = joined_into_roomy [OF all [THEN conjunct2, THEN conjunct1] fits]
    and diff = joined_into_roomy [OF all [THEN conjunct2, THEN conjunct2] fits]
  from un have "\<exists>u' w'. set_union (Some u) (Some p') (Some p') w2 = Some (SEQC_OK, Some u', w') \<and>
      set_at roomy_allocator map_of bytes_hash bytes_eq 1 (map_of w1) w' u' {#[7], [9]#}"
    by (simp add: el_join_def el_has_def bytes_eq_def)
  moreover from inter have "\<exists>u' w'. set_intersection (Some u) (Some p') (Some p') w2 = Some (SEQC_OK, Some u', w') \<and>
      set_at roomy_allocator map_of bytes_hash bytes_eq 1 (map_of w1) w' u' {#[7], [9]#}"
    by (simp add: el_join_def el_has_def bytes_eq_def)
  moreover from diff have "\<exists>u' w'. set_difference (Some u) (Some p') (Some p') w2 = Some (SEQC_OK, Some u', w') \<and>
      set_at roomy_allocator map_of bytes_hash bytes_eq 1 (map_of w1) w' u' {#}"
    by (simp add: el_join_def el_has_def bytes_eq_def)
  ultimately show ?thesis using c by blast
qed

text \<open>
  C35. The iterators of a \<open>set_t\<close> yield each element once, forwards or backwards in the same order,
  also when nothing was ever added; draining one into another set with \<open>set_extend\<close> adds its
  elements one by one, in full or up to the point where the allocator refused a request for an
  element or for twice the buckets. A full copy into an empty set holds the same elements.
\<close>
theorem set_copy_correct:
  assumes "heap_allocator t live" and "hash_fits hash eq es"
    and "set_is t hash eq es s N" and "set_at t live hash eq es R w u M" and "set_blocks s \<subseteq>\<^sub>m R"
  shows "(\<exists>xs. mset xs = N \<and> iter_built live (Some t) (live w) es xs (set_iter (Some s) w) \<and>
      iter_built live (Some t) (live w) es (rev xs) (set_iter_rev (Some s) w)) \<and>
    (\<exists>xs n st u' w' M'. mset xs = N \<and>
      (do { (it, w) \<leftarrow> set_iter (Some s) w; set_extend (Some u) it w }) = Some (st, Some u', w') \<and>
      M' = el_puts (\<lambda>a b. eq a b es) M (take n xs) \<and> set_at t live hash eq es R w' u' M' \<and>
      (st = SEQC_OK \<and> n = length xs \<or>
       st = SEQC_OOM \<and> n \<le> length xs \<and> refuses t (2 * buckets_bound (max SET_INITIAL_CAP (se_cap u)) (peak_after (size M) (se_max_psl u) n) * sizeof_set_bucket_t + es) \<or>
       st = SEQC_INVALID \<and> n = 0 \<and> starved (Some t)) \<and>
      (M = {#} \<and> st = SEQC_OK \<longrightarrow> M' = N))"
proof -
  note h = set_storeI [OF assms(1,2)]
  from set_store.set_copy_at [OF h assms(3,4)] obtain xs n st u' w' where
    c: "mset xs = N" "(do { (it, w) \<leftarrow> set_iter (Some s) w; set_extend (Some u) it w }) = Some (st, Some u', w')"
    "set_at t live hash eq es R w' u' (el_puts (\<lambda>a b. eq a b es) M (take n xs))"
    "st = SEQC_OK \<and> n = length xs \<or>
     st = SEQC_OOM \<and> n \<le> length xs \<and> refuses t (2 * buckets_bound (max SET_INITIAL_CAP (se_cap u)) (peak_after (size M) (se_max_psl u) n) * sizeof_set_bucket_t + es) \<or>
     st = SEQC_INVALID \<and> n = 0 \<and> starved (Some t)" by blast
  have "el_puts (\<lambda>a b. eq a b es) {#} xs = N"
    using set_store.el_puts_join [OF h, of xs "{#}"] set_store.set_is_apart [OF h assms(3)] c(1) by simp
  with c show ?thesis
    by (intro conjI set_store.set_iters_built [OF h assms(3)] exI [of _ xs] exI [of _ n] exI [of _ st] exI [of _ u'] exI [of _ w']) auto
qed

theorem set_copy_witness:
  "\<exists>s w0 rs s' w1 u w2 u' w'. set_create 1 bytes_hash bytes_eq (Some roomy_allocator) [] = Some (Some s, w0) \<and>
    run_ops (on_handle hset_call) [EAdd [7], EAdd [9]] s w0 = Some (rs, s', w1) \<and>
    set_create 1 bytes_hash bytes_eq (Some roomy_allocator) w1 = Some (Some u, w2) \<and>
    (do { (it, w) \<leftarrow> set_iter (Some s') w2; set_extend (Some u) it w }) = Some (SEQC_OK, Some u', w') \<and>
    set_at roomy_allocator map_of bytes_hash bytes_eq 1 (map_of w1) w' u' {#[7], [9]#}"
proof -
  obtain s :: "(byte list, (addr \<times> size_t) list) set_t" and w0 rs s' w1 u w2 where
    c: "set_create 1 bytes_hash bytes_eq (Some roomy_allocator) [] = Some (Some s, w0)"
      "run_ops (on_handle hset_call) [EAdd [7], EAdd [9]] s w0 = Some (rs, s', w1)"
      "set_create 1 bytes_hash bytes_eq (Some roomy_allocator) w1 = Some (Some u, w2)"
    and A: "set_is roomy_allocator bytes_hash bytes_eq 1 s' {#[7], [9]#}" "set_blocks s' \<subseteq>\<^sub>m map_of w1"
    and at: "set_at roomy_allocator map_of bytes_hash bytes_eq 1 (map_of w1) w2 u {#}" and cap: "max SET_INITIAL_CAP (se_cap u) \<le> 16" "se_max_psl u = 0"
    by (rule set_pair_here)
  from set_copy_correct [OF roomy.heap_allocator_axioms bytes_fit A(1) at A(2), unfolded size_empty] obtain xs n st u' w' M' where
    z: "mset xs = {#[7 :: byte], [9]#}"
    "(do { (it, w) \<leftarrow> set_iter (Some s') w2; set_extend (Some u) it w }) = Some (st, Some u', w')"
    "set_at roomy_allocator map_of bytes_hash bytes_eq 1 (map_of w1) w' u' M'"
    "st = SEQC_OK \<and> n = length xs \<or>
     st = SEQC_OOM \<and> n \<le> length xs \<and> refuses roomy_allocator
        (2 * buckets_bound (max SET_INITIAL_CAP (se_cap u)) (peak_after 0 (se_max_psl u) n) * sizeof_set_bucket_t + 1) \<or>
     st = SEQC_INVALID \<and> n = 0 \<and> starved (Some roomy_allocator)"
    "st = SEQC_OK \<longrightarrow> M' = {#[7], [9]#}" by blast
  have "size (mset xs) = 2" unfolding z(1) by simp
  then have len: "length xs = 2" by simp
  have "2 * buckets_bound (max SET_INITIAL_CAP (se_cap u)) (peak_after 0 (se_max_psl u) n) * sizeof_set_bucket_t + 1 \<le> PTRDIFF_MAX" if "n \<le> 2"
    using few_buckets [OF cap, of n] that by (simp add: sizeof_set_bucket_t_def PTRDIFF_MAX_def)
  then have "\<not> refuses roomy_allocator (2 * buckets_bound (max SET_INITIAL_CAP (se_cap u)) (peak_after 0 (se_max_psl u) n) *
      sizeof_set_bucket_t + 1)" if "n \<le> 2" using that by (intro roomy_refuses)
  with z(4,5) len roomy_not_starved have "st = SEQC_OK" "M' = {#[7], [9]#}" by auto
  with c z(2,3) show ?thesis by blast
qed

end
