(* ===== verification/Seqc_String.thy ===== *)
theory Seqc_String
  imports Seqc_Iter Seqc_Hash
begin

section \<open>Strings\<close>

text \<open>
  \<open>src/string/string.c\<close>: \<open>string_t\<close> is a pointer into a block of bytes with a length. A pointer is
  the block and the offset into it; a cell that was never written is \<open>None\<close>. Reads outside the
  block, reads of such cells and reads through NULL are undefined, and so, in C11, are a \<open>memcmp\<close>
  or \<open>memcpy\<close> with a NULL argument even of no bytes, and arithmetic on NULL.
\<close>

type_synonym char_ptr = "byte elem_ptr"

record string_t =
  str_ptr :: "char_ptr option"
  str_len :: size_t

definition string_null :: string_t where
  "string_null = \<lparr>str_ptr = None, str_len = 0\<rparr>"

definition STRING_NOT_FOUND :: size_t where
  "STRING_NOT_FOUND = SIZE_MAX"

definition sizeof_string_t :: size_t where
  "sizeof_string_t = 16"

lemma sizeof_string_t_small [simp]: "sizeof_string_t \<le> 256"
  by (simp add: sizeof_string_t_def)

subsection \<open>Bytes in memory\<close>

definition ptr_add :: "char_ptr option \<Rightarrow> nat \<Rightarrow> char_ptr option option" where
  "ptr_add p n = do {
     (b, i) \<leftarrow> p;
     if i + n \<le> length (cells b) then Some (Some (b, i + n)) else None
   }"

definition char_at :: "char_ptr option \<Rightarrow> nat \<Rightarrow> byte option" where
  "char_at p i = do { (b, k) \<leftarrow> p; block_read (Some b) (k + i) }"

text \<open>The \<open>n\<close> bytes that \<open>memcmp\<close> and \<open>memcpy\<close> read from \<open>p\<close> on.\<close>

definition mem_bytes :: "char_ptr option \<Rightarrow> size_t \<Rightarrow> byte list option" where
  "mem_bytes p n = do {
     (b, i) \<leftarrow> p;
     if i + n \<le> length (cells b) then those (take n (drop i (cells b))) else None
   }"

text \<open>\<open>memcmp\<close>, of which the standard fixes the sign.\<close>

fun bytes_cmp :: "byte list \<Rightarrow> byte list \<Rightarrow> int" where
  "bytes_cmp (x # xs) (y # ys) = (if x = y then bytes_cmp xs ys else if x < y then -1 else 1)"
| "bytes_cmp xs ys = 0"

definition mem_cmp :: "char_ptr option \<Rightarrow> char_ptr option \<Rightarrow> size_t \<Rightarrow> int option" where
  "mem_cmp p q n = do { xs \<leftarrow> mem_bytes p n; ys \<leftarrow> mem_bytes q n; Some (bytes_cmp xs ys) }"

text \<open>\<open>memcpy\<close> to the start of a block.\<close>

definition mem_fill :: "byte block \<Rightarrow> byte list \<Rightarrow> byte block option" where
  "mem_fill b xs =
     (if length xs \<le> length (cells b) then Some (b\<lparr>cells := overwrite (cells b) 0 (map Some xs)\<rparr>) else None)"

text \<open>\<open>strlen\<close>.\<close>

fun strlen_cells :: "byte option list \<Rightarrow> size_t option" where
  "strlen_cells [] = None"
| "strlen_cells (c # cs) = do { x \<leftarrow> c; if x = 0 then Some 0 else map_option Suc (strlen_cells cs) }"

definition c_strlen :: "char_ptr \<Rightarrow> size_t option" where
  "c_strlen p = strlen_cells (drop (snd p) (cells (fst p)))"

subsection \<open>Letters and blanks\<close>

definition ascii_lower :: "byte \<Rightarrow> byte" where
  "ascii_lower c = (if 65 \<le> c \<and> c \<le> 90 then c + 32 else c)"

definition ascii_upper :: "byte \<Rightarrow> byte" where
  "ascii_upper c = (if 97 \<le> c \<and> c \<le> 122 then c - 32 else c)"

text \<open>\<open>isspace\<close> in the C locale, the only one the library's callers get without \<open>setlocale\<close>.\<close>

definition is_space :: "byte \<Rightarrow> bool" where
  "is_space c \<longleftrightarrow> c = 32 \<or> 9 \<le> c \<and> c \<le> 13"

subsection \<open>Construction\<close>

definition string_view_cstr :: "char_ptr option \<Rightarrow> string_t option" where
  "string_view_cstr s =
     (case s of
        None \<Rightarrow> Some string_null
      | Some p \<Rightarrow> do { n \<leftarrow> c_strlen p; Some \<lparr>str_ptr = Some p, str_len = n\<rparr> })"

definition string_from_cstr :: "char_ptr option \<Rightarrow> 'w allocator_t \<Rightarrow> 'w \<Rightarrow> (string_t \<times> 'w) option" where
  "string_from_cstr s al w =
     (case s of
        None \<Rightarrow> Some (string_null, w)
      | Some p \<Rightarrow> do {
          len \<leftarrow> c_strlen p;
          if len = 0 then Some (string_null, w)
          else do {
            (buf, w) \<leftarrow> block_alloc al 1 len w;
            case buf of
              None \<Rightarrow> Some (string_null, w)
            | Some b \<Rightarrow> do {
                xs \<leftarrow> mem_bytes s len;
                b \<leftarrow> mem_fill b xs;
                Some (\<lparr>str_ptr = Some (b, 0), str_len = len\<rparr>, w)
              }
          }
        })"

definition string_copy :: "string_t \<Rightarrow> 'w allocator_t \<Rightarrow> 'w \<Rightarrow> (string_t \<times> 'w) option" where
  "string_copy s al w =
     (if str_ptr s = None \<or> str_len s = 0 then Some (string_null, w)
      else do {
        (buf, w) \<leftarrow> block_alloc al 1 (str_len s) w;
        case buf of
          None \<Rightarrow> Some (string_null, w)
        | Some b \<Rightarrow> do {
            xs \<leftarrow> mem_bytes (str_ptr s) (str_len s);
            b \<leftarrow> mem_fill b xs;
            Some (\<lparr>str_ptr = Some (b, 0), str_len = str_len s\<rparr>, w)
          }
      })"

text \<open>The copy with its final NUL, in a block of the caller's or in a new one.\<close>

definition terminated :: "string_t \<Rightarrow> byte block \<Rightarrow> byte block option" where
  "terminated s b = do {
     b \<leftarrow> (if str_ptr s \<noteq> None \<and> str_len s > 0
           then do { xs \<leftarrow> mem_bytes (str_ptr s) (str_len s); mem_fill b xs } else Some b);
     r \<leftarrow> block_write (Some b) (str_len s) 0;
     r
   }"

definition string_to_cstr :: "string_t \<Rightarrow> 'w allocator_t \<Rightarrow> 'w \<Rightarrow> (byte block option \<times> 'w) option" where
  "string_to_cstr s al w = do {
     (buf, w) \<leftarrow> block_alloc al 1 (wadd (str_len s) 1) w;
     case buf of
       None \<Rightarrow> Some (None, w)
     | Some b \<Rightarrow> do { b \<leftarrow> terminated s b; Some (Some b, w) }
   }"

text \<open>The inner option is the pointer that is returned: NULL, or the buffer as it is then.\<close>

definition string_to_cstr_buf :: "string_t \<Rightarrow> byte block option \<Rightarrow> size_t \<Rightarrow> byte block option option" where
  "string_to_cstr_buf s buf bufsize =
     (case buf of
        None \<Rightarrow> Some None
      | Some b \<Rightarrow>
          if bufsize = 0 \<or> str_len s \<ge> bufsize then Some None
          else do { b \<leftarrow> terminated s b; Some (Some b) })"

subsection \<open>Comparison\<close>

definition string_equals :: "string_t \<Rightarrow> string_t \<Rightarrow> bool option" where
  "string_equals a b =
     (if str_len a = str_len b then do { c \<leftarrow> mem_cmp (str_ptr a) (str_ptr b) (str_len a); Some (c = 0) } else Some False)"

function equals_case_insensitive_loop :: "string_t \<Rightarrow> string_t \<Rightarrow> size_t \<Rightarrow> bool option" where
  "equals_case_insensitive_loop a b i =
     (if i < str_len a then do {
        x \<leftarrow> char_at (str_ptr a) i;
        y \<leftarrow> char_at (str_ptr b) i;
        if ascii_lower x \<noteq> ascii_lower y then Some False else equals_case_insensitive_loop a b (Suc i)
      } else Some True)"
  by pat_completeness auto
termination
  by (relation "measure (\<lambda>(a, b, i). str_len a - i)") auto

definition string_equals_case_insensitive :: "string_t \<Rightarrow> string_t \<Rightarrow> bool option" where
  "string_equals_case_insensitive a b =
     (if str_len a \<noteq> str_len b then Some False else equals_case_insensitive_loop a b 0)"

definition len_cmp :: "size_t \<Rightarrow> size_t \<Rightarrow> int" where
  "len_cmp m n = (if m > n then 1 else 0) - (if m < n then 1 else 0)"

definition string_compare :: "string_t \<Rightarrow> string_t \<Rightarrow> int option" where
  "string_compare a b = do {
     let mn = (if str_len a < str_len b then str_len a else str_len b);
     c \<leftarrow> mem_cmp (str_ptr a) (str_ptr b) mn;
     if c \<noteq> 0 then Some c else Some (len_cmp (str_len a) (str_len b))
   }"

function compare_case_insensitive_loop :: "string_t \<Rightarrow> string_t \<Rightarrow> size_t \<Rightarrow> size_t \<Rightarrow> int option" where
  "compare_case_insensitive_loop a b mn i =
     (if i < mn then do {
        x \<leftarrow> char_at (str_ptr a) i;
        y \<leftarrow> char_at (str_ptr b) i;
        let c = int (ascii_lower x) - int (ascii_lower y);
        if c \<noteq> 0 then Some c else compare_case_insensitive_loop a b mn (Suc i)
      } else Some (len_cmp (str_len a) (str_len b)))"
  by pat_completeness auto
termination
  by (relation "measure (\<lambda>(a, b, mn, i). mn - i)") auto

definition string_compare_case_insensitive :: "string_t \<Rightarrow> string_t \<Rightarrow> int option" where
  "string_compare_case_insensitive a b =
     compare_case_insensitive_loop a b (if str_len a < str_len b then str_len a else str_len b) 0"

subsection \<open>Queries\<close>

definition string_starts_with :: "string_t \<Rightarrow> string_t \<Rightarrow> bool option" where
  "string_starts_with s prefix =
     (if str_len prefix > str_len s then Some False
      else do { c \<leftarrow> mem_cmp (str_ptr s) (str_ptr prefix) (str_len prefix); Some (c = 0) })"

definition string_ends_with :: "string_t \<Rightarrow> string_t \<Rightarrow> bool option" where
  "string_ends_with s suffix =
     (if str_len suffix > str_len s then Some False
      else do {
        p \<leftarrow> ptr_add (str_ptr s) (str_len s - str_len suffix);
        c \<leftarrow> mem_cmp p (str_ptr suffix) (str_len suffix);
        Some (c = 0)
      })"

function find_char_loop :: "string_t \<Rightarrow> byte \<Rightarrow> size_t \<Rightarrow> size_t option" where
  "find_char_loop s c i =
     (if i < str_len s then do {
        x \<leftarrow> char_at (str_ptr s) i;
        if x = c then Some i else find_char_loop s c (Suc i)
      } else Some STRING_NOT_FOUND)"
  by pat_completeness auto
termination
  by (relation "measure (\<lambda>(s, c, i). str_len s - i)") auto

definition string_find_char :: "string_t \<Rightarrow> byte \<Rightarrow> size_t option" where
  "string_find_char s c = find_char_loop s c 0"

fun rfind_char_loop :: "string_t \<Rightarrow> byte \<Rightarrow> size_t \<Rightarrow> size_t option" where
  "rfind_char_loop s c 0 = Some STRING_NOT_FOUND"
| "rfind_char_loop s c (Suc i) = do {
     x \<leftarrow> char_at (str_ptr s) i;
     if x = c then Some i else rfind_char_loop s c i
   }"

definition string_rfind_char :: "string_t \<Rightarrow> byte \<Rightarrow> size_t option" where
  "string_rfind_char s c = rfind_char_loop s c (str_len s)"

function string_find_loop :: "string_t \<Rightarrow> string_t \<Rightarrow> size_t \<Rightarrow> size_t option" where
  "string_find_loop s needle i =
     (if i \<le> str_len s - str_len needle then do {
        p \<leftarrow> ptr_add (str_ptr s) i;
        c \<leftarrow> mem_cmp p (str_ptr needle) (str_len needle);
        if c = 0 then Some i else string_find_loop s needle (Suc i)
      } else Some STRING_NOT_FOUND)"
  by pat_completeness auto
termination
  by (relation "measure (\<lambda>(s, needle, i). Suc (str_len s - str_len needle) - i)") auto

definition string_find :: "string_t \<Rightarrow> string_t \<Rightarrow> size_t option" where
  "string_find s needle =
     (if str_len needle = 0 then Some 0
      else if str_len needle > str_len s then Some STRING_NOT_FOUND
      else string_find_loop s needle 0)"

definition string_contains :: "string_t \<Rightarrow> string_t \<Rightarrow> bool option" where
  "string_contains s needle = do { i \<leftarrow> string_find s needle; Some (i \<noteq> STRING_NOT_FOUND) }"

declare equals_case_insensitive_loop.simps [simp del] compare_case_insensitive_loop.simps [simp del]
  find_char_loop.simps [simp del] string_find_loop.simps [simp del]

subsection \<open>Views\<close>

definition string_slice :: "string_t \<Rightarrow> size_t \<Rightarrow> size_t \<Rightarrow> string_t option" where
  "string_slice s start en =
     (if str_ptr s = None \<or> start \<ge> str_len s \<or> en \<le> start then Some string_null
      else do {
        let en = (if en > str_len s then str_len s else en);
        p \<leftarrow> ptr_add (str_ptr s) start;
        Some \<lparr>str_ptr = p, str_len = en - start\<rparr>
      })"

function string_trim_left :: "string_t \<Rightarrow> string_t option" where
  "string_trim_left s =
     (if str_len s > 0 then do {
        c \<leftarrow> char_at (str_ptr s) 0;
        if is_space c then do {
          p \<leftarrow> ptr_add (str_ptr s) 1;
          string_trim_left \<lparr>str_ptr = p, str_len = str_len s - 1\<rparr>
        } else Some s
      } else Some s)"
  by pat_completeness auto
termination
  by (relation "measure str_len") auto

function string_trim_right :: "string_t \<Rightarrow> string_t option" where
  "string_trim_right s =
     (if str_len s > 0 then do {
        c \<leftarrow> char_at (str_ptr s) (str_len s - 1);
        if is_space c then string_trim_right (s\<lparr>str_len := str_len s - 1\<rparr>) else Some s
      } else Some s)"
  by pat_completeness auto
termination
  by (relation "measure str_len") auto

declare string_trim_left.simps [simp del] string_trim_right.simps [simp del]

definition string_trim :: "string_t \<Rightarrow> string_t option" where
  "string_trim s = do { s \<leftarrow> string_trim_left s; string_trim_right s }"

subsection \<open>Letter case\<close>

function map_chars_loop :: "(byte \<Rightarrow> byte) \<Rightarrow> string_t \<Rightarrow> byte block option \<Rightarrow> size_t \<Rightarrow> byte block option option" where
  "map_chars_loop f s buf i =
     (if i < str_len s then do {
        c \<leftarrow> char_at (str_ptr s) i;
        buf \<leftarrow> block_write buf i (f c);
        map_chars_loop f s buf (Suc i)
      } else Some buf)"
  by pat_completeness auto
termination
  by (relation "measure (\<lambda>(f, s, buf, i). str_len s - i)") auto

declare map_chars_loop.simps [simp del]

definition mapped_copy :: "(byte \<Rightarrow> byte) \<Rightarrow> string_t \<Rightarrow> 'w allocator_t \<Rightarrow> 'w \<Rightarrow> (string_t \<times> 'w) option" where
  "mapped_copy f s al w =
     (if str_ptr s = None \<or> str_len s = 0 then Some (string_null, w)
      else do {
        (buf, w) \<leftarrow> block_alloc al 1 (str_len s) w;
        if buf = None then Some (string_null, w)
        else do {
          buf \<leftarrow> map_chars_loop f s buf 0;
          Some (\<lparr>str_ptr = map_option (\<lambda>b. (b, 0)) buf, str_len = str_len s\<rparr>, w)
        }
      })"

definition string_to_uppercase :: "string_t \<Rightarrow> 'w allocator_t \<Rightarrow> 'w \<Rightarrow> (string_t \<times> 'w) option" where
  "string_to_uppercase = mapped_copy ascii_upper"

definition string_to_lowercase :: "string_t \<Rightarrow> 'w allocator_t \<Rightarrow> 'w \<Rightarrow> (string_t \<times> 'w) option" where
  "string_to_lowercase = mapped_copy ascii_lower"

subsection \<open>The tokenizer without allocation\<close>

text \<open>What it returns, and the new \<open>*rest\<close> and \<open>*token\<close> (\<open>None\<close> where it writes none).\<close>

definition string_split_next :: "string_t option \<Rightarrow> byte \<Rightarrow> bool \<Rightarrow> (bool \<times> string_t option \<times> string_t option) option" where
  "string_split_next rest sep token =
     (case rest of
        None \<Rightarrow> Some (False, None, None)
      | Some r \<Rightarrow>
          if \<not> token \<or> str_ptr r = None then Some (False, rest, None)
          else do {
            i \<leftarrow> string_find_char r sep;
            if i = STRING_NOT_FOUND then Some (True, Some string_null, Some r)
            else do {
              p \<leftarrow> ptr_add (str_ptr r) (i + 1);
              Some (True, Some \<lparr>str_ptr = p, str_len = str_len r - i - 1\<rparr>, Some \<lparr>str_ptr = str_ptr r, str_len = i\<rparr>)
            }
          })"

subsection \<open>Keys of hash tables\<close>

text \<open>A key is a pointer to a \<open>string_t\<close>.\<close>

function string_hash_loop :: "(byte \<Rightarrow> byte) \<Rightarrow> string_t \<Rightarrow> size_t \<Rightarrow> size_t \<Rightarrow> size_t option" where
  "string_hash_loop f s i h =
     (if i < str_len s then do {
        c \<leftarrow> char_at (str_ptr s) i;
        string_hash_loop f s (Suc i) (wmul (h XOR f c) FNV_PRIME)
      } else Some h)"
  by pat_completeness auto
termination
  by (relation "measure (\<lambda>(f, s, i, h). str_len s - i)") auto

declare string_hash_loop.simps [simp del]

definition string_hash :: "string_t option \<Rightarrow> size_t \<Rightarrow> size_t option" where
  "string_hash key key_size =
     (case key of
        None \<Rightarrow> Some 0
      | Some s \<Rightarrow> if str_ptr s = None \<or> str_len s = 0 then Some 0 else string_hash_loop (\<lambda>c. c) s 0 FNV_OFFSET)"

definition string_hash_case_insensitive :: "string_t option \<Rightarrow> size_t \<Rightarrow> size_t option" where
  "string_hash_case_insensitive key key_size =
     (case key of
        None \<Rightarrow> Some 0
      | Some s \<Rightarrow> if str_ptr s = None \<or> str_len s = 0 then Some 0 else string_hash_loop ascii_lower s 0 FNV_OFFSET)"

definition string_key_eq :: "string_t option \<Rightarrow> string_t option \<Rightarrow> size_t \<Rightarrow> bool option" where
  "string_key_eq a b key_size = (case (a, b) of (Some x, Some y) \<Rightarrow> string_equals x y | _ \<Rightarrow> Some False)"

definition string_key_eq_case_insensitive :: "string_t option \<Rightarrow> string_t option \<Rightarrow> size_t \<Rightarrow> bool option" where
  "string_key_eq_case_insensitive a b key_size =
     (case (a, b) of (Some x, Some y) \<Rightarrow> string_equals_case_insensitive x y | _ \<Rightarrow> Some False)"

subsection \<open>Iterators over the bytes\<close>

text \<open>A slice starts at a block, so a pointer into the middle of one is the block from there on.\<close>

definition block_from :: "char_ptr \<Rightarrow> byte block" where
  "block_from p = \<lparr>blk_addr = blk_addr (fst p) + snd p, cells = drop (snd p) (cells (fst p))\<rparr>"

definition string_as_slice :: "string_t \<Rightarrow> byte slice_t" where
  "string_as_slice s = \<lparr>sl_ptr = map_option block_from (str_ptr s), sl_len = str_len s, sl_elem_size = 1\<rparr>"

definition string_chars :: "string_t \<Rightarrow> 'w allocator_t \<Rightarrow> 'w \<Rightarrow> ((byte, byte slice_iter_state_t, 'w) iter_t \<times> 'w) option" where
  "string_chars s = iter_from_slice (string_as_slice s)"

definition string_chars_rev :: "string_t \<Rightarrow> 'w allocator_t \<Rightarrow> 'w \<Rightarrow> ((byte, byte slice_iter_state_t, 'w) iter_t \<times> 'w) option" where
  "string_chars_rev s = iter_from_slice_rev (string_as_slice s)"

end
