(* ===== verification/Seqc_Strbuf.thy ===== *)
theory Seqc_Strbuf
  imports Seqc_String Seqc_Vec
begin

section \<open>The string builder, and what is built with it\<close>

text \<open>
  \<open>strbuf_t\<close> is a \<open>vec_t\<close> of bytes. A string appended to a builder is a view of other memory: the
  model holds what it showed when the call began.
\<close>

record 'w strbuf_t =
  sb_self :: addr
  sb_chars :: "(byte, 'w) vec_t option"
  sb_alloc :: "'w allocator_t"

definition sizeof_strbuf_t :: size_t where
  "sizeof_strbuf_t = 24"

lemma sizeof_strbuf_t_small [simp]: "sizeof_strbuf_t \<le> 256"
  by (simp add: sizeof_strbuf_t_def)

definition strbuf_create :: "'w allocator_t \<Rightarrow> 'w \<Rightarrow> ('w strbuf_t option \<times> 'w) option" where
  "strbuf_create al w = do {
     (p, w) \<leftarrow> mem_alloc al sizeof_strbuf_t w;
     case p of
       None \<Rightarrow> Some (None, w)
     | Some a \<Rightarrow> do {
         (v, w) \<leftarrow> vec_create 1 al w;
         if v = None then do { w \<leftarrow> mem_free al (Some a) sizeof_strbuf_t w; Some (None, w) }
         else Some (Some \<lparr>sb_self = a, sb_chars = v, sb_alloc = al\<rparr>, w)
       }
   }"

definition strbuf_clear :: "'w strbuf_t option \<Rightarrow> 'w strbuf_t option" where
  "strbuf_clear sb = map_option (\<lambda>u. u\<lparr>sb_chars := vec_clear (sb_chars u)\<rparr>) sb"

definition strbuf_truncate :: "'w strbuf_t option \<Rightarrow> size_t \<Rightarrow> 'w strbuf_t option" where
  "strbuf_truncate sb len = map_option (\<lambda>u. u\<lparr>sb_chars := vec_truncate (sb_chars u) len\<rparr>) sb"

definition strbuf_destroy :: "'w strbuf_t option \<Rightarrow> 'w \<Rightarrow> 'w option" where
  "strbuf_destroy sb w =
     (case sb of
        None \<Rightarrow> Some w
      | Some u \<Rightarrow> do {
          w \<leftarrow> vec_destroy (sb_chars u) w;
          mem_free (sb_alloc u) (Some (sb_self u)) sizeof_strbuf_t w
        })"

text \<open>A NULL builder is dereferenced by the appending functions: no defined result.\<close>

definition strbuf_append_char :: "'w strbuf_t option \<Rightarrow> byte \<Rightarrow> 'w \<Rightarrow> (seqc_status_t \<times> 'w strbuf_t option \<times> 'w) option" where
  "strbuf_append_char sb c w = do {
     u \<leftarrow> sb;
     (st, v, w) \<leftarrow> vec_push (sb_chars u) (Some c) w;
     Some (st, Some (u\<lparr>sb_chars := v\<rparr>), w)
   }"

function strbuf_append_loop ::
  "'w strbuf_t \<Rightarrow> string_t \<Rightarrow> size_t \<Rightarrow> 'w \<Rightarrow> (seqc_status_t \<times> 'w strbuf_t option \<times> 'w) option" where
  "strbuf_append_loop u s i w =
     (if i < str_len s then do {
        c \<leftarrow> char_at (str_ptr s) i;
        (st, v, w) \<leftarrow> vec_push (sb_chars u) (Some c) w;
        if st \<noteq> SEQC_OK then Some (st, Some (u\<lparr>sb_chars := v\<rparr>), w)
        else strbuf_append_loop (u\<lparr>sb_chars := v\<rparr>) s (Suc i) w
      } else Some (SEQC_OK, Some u, w))"
  by pat_completeness auto
termination
  by (relation "measure (\<lambda>(u, s, i, w). str_len s - i)") auto

declare strbuf_append_loop.simps [simp del]

text \<open>With nothing to append, even \<open>sb\<close> is not looked at.\<close>

definition strbuf_append :: "'w strbuf_t option \<Rightarrow> string_t \<Rightarrow> 'w \<Rightarrow> (seqc_status_t \<times> 'w strbuf_t option \<times> 'w) option" where
  "strbuf_append sb s w =
     (if str_len s = 0 then Some (SEQC_OK, sb, w) else do { u \<leftarrow> sb; strbuf_append_loop u s 0 w })"

definition strbuf_append_cstr ::
  "'w strbuf_t option \<Rightarrow> char_ptr option \<Rightarrow> 'w \<Rightarrow> (seqc_status_t \<times> 'w strbuf_t option \<times> 'w) option" where
  "strbuf_append_cstr sb s w = do { v \<leftarrow> string_view_cstr s; strbuf_append sb v w }"

definition strbuf_view :: "'w strbuf_t option \<Rightarrow> string_t" where
  "strbuf_view sb =
     (case sb of
        None \<Rightarrow> string_null
      | Some u \<Rightarrow> let s = vec_as_slice (sb_chars u)
          in \<lparr>str_ptr = map_option (\<lambda>b. (b, 0)) (sl_ptr s), str_len = sl_len s\<rparr>)"

definition strbuf_to_string :: "'w strbuf_t option \<Rightarrow> 'w allocator_t \<Rightarrow> 'w \<Rightarrow> (string_t \<times> 'w) option" where
  "strbuf_to_string sb = string_copy (strbuf_view sb)"

definition strbuf_finish :: "'w strbuf_t option \<Rightarrow> string_t" where
  "strbuf_finish sb = strbuf_view sb"

definition strbuf_is_empty :: "'w strbuf_t option \<Rightarrow> bool" where
  "strbuf_is_empty sb = (case sb of None \<Rightarrow> True | Some u \<Rightarrow> vec_is_empty (sb_chars u))"

definition strbuf_len :: "'w strbuf_t option \<Rightarrow> size_t option" where
  "strbuf_len sb = do { u \<leftarrow> sb; Some (vec_len (sb_chars u)) }"

subsection \<open>Numbers and formats\<close>

text \<open>What \<open>snprintf\<close> writes for \<open>%lld\<close>: a sign and the decimal digits.\<close>

fun digits :: "nat \<Rightarrow> byte list" where
  "digits n = (if n < 10 then [48 + n] else digits (n div 10) @ [48 + n mod 10])"

declare digits.simps [simp del]

definition decimal :: "int \<Rightarrow> byte list" where
  "decimal v = (if v < 0 then 45 # digits (nat (- v)) else digits (nat v))"

text \<open>
  The buffer on the stack: 32 bytes, of which \<open>snprintf\<close> writes those that fit and a NUL. The
  address of a stack object is not the allocator's.
\<close>

definition stack_string :: "addr \<Rightarrow> byte list \<Rightarrow> char_ptr" where
  "stack_string a xs = (\<lparr>blk_addr = a, cells = map Some (take 31 xs) @ Some 0 # replicate (31 - length (take 31 xs)) None\<rparr>, 0)"

definition strbuf_append_int ::
  "addr \<Rightarrow> 'w strbuf_t option \<Rightarrow> int \<Rightarrow> 'w \<Rightarrow> (seqc_status_t \<times> 'w strbuf_t option \<times> 'w) option" where
  "strbuf_append_int stack sb v w =
     (if length (decimal v) > 0 then strbuf_append_cstr sb (Some (stack_string stack (decimal v))) w
      else Some (SEQC_OK, sb, w))"

text \<open>
  \<open>vsnprintf\<close> is a parameter: \<open>formatted\<close> is what it produces for the format and the arguments, \<open>None\<close>
  when it reports an error. Short output goes through a buffer on the stack, longer output
  through a block of the builder's allocator.
\<close>

primrec append_bytes ::
  "'w strbuf_t option \<Rightarrow> byte list \<Rightarrow> 'w \<Rightarrow> (seqc_status_t \<times> 'w strbuf_t option \<times> 'w) option" where
  "append_bytes sb [] w = Some (SEQC_OK, sb, w)"
| "append_bytes sb (c # cs) w = do {
     (st, sb, w) \<leftarrow> strbuf_append_char sb c w;
     if st \<noteq> SEQC_OK then Some (st, sb, w) else append_bytes sb cs w
   }"

definition strbuf_append_fmt ::
  "'w strbuf_t option \<Rightarrow> byte list option \<Rightarrow> 'w \<Rightarrow> (seqc_status_t \<times> 'w strbuf_t option \<times> 'w) option" where
  "strbuf_append_fmt sb formatted w =
     (case formatted of
        None \<Rightarrow> Some (SEQC_OK, sb, w)
      | Some xs \<Rightarrow>
          if xs = [] then Some (SEQC_OK, sb, w)
          else if length xs + 1 \<le> 256 then append_bytes sb xs w
          else do {
            u \<leftarrow> sb;
            (buf, w) \<leftarrow> mem_alloc (sb_alloc u) (length xs + 1) w;
            case buf of
              None \<Rightarrow> Some (SEQC_OOM, sb, w)
            | Some a \<Rightarrow> do {
                (st, sb, w) \<leftarrow> append_bytes sb xs w;
                w \<leftarrow> mem_free (sb_alloc u) (Some a) (length xs + 1) w;
                Some (st, sb, w)
              }
          })"

subsection \<open>Replacing\<close>

partial_function (option) replace_loop ::
  "string_t \<Rightarrow> string_t \<Rightarrow> string_t \<Rightarrow> seqc_status_t \<Rightarrow> size_t \<Rightarrow> 'w strbuf_t option \<Rightarrow> 'w \<Rightarrow>
   (seqc_status_t \<times> 'w strbuf_t option \<times> 'w) option" where
  "replace_loop s needle replacement st pos sb w =
     (if st = SEQC_OK \<and> pos < str_len s then do {
        remaining \<leftarrow> string_slice s pos (str_len s);
        found \<leftarrow> string_find remaining needle;
        if found = STRING_NOT_FOUND then strbuf_append sb remaining w
        else do {
          piece \<leftarrow> string_slice remaining 0 found;
          (st, sb, w) \<leftarrow> strbuf_append sb piece w;
          (st, sb, w) \<leftarrow> (if st = SEQC_OK then strbuf_append sb replacement w else Some (st, sb, w));
          replace_loop s needle replacement st (wadd pos (wadd found (str_len needle))) sb w
        }
      } else Some (st, sb, w))"

definition string_replace ::
  "string_t \<Rightarrow> string_t \<Rightarrow> string_t \<Rightarrow> 'w allocator_t \<Rightarrow> 'w \<Rightarrow> (string_t \<times> 'w) option" where
  "string_replace s needle replacement al w =
     (if str_len needle = 0 then string_copy s al w
      else do {
        (sb, w) \<leftarrow> strbuf_create al w;
        if sb = None then Some (string_null, w)
        else do {
          (st, sb, w) \<leftarrow> replace_loop s needle replacement SEQC_OK 0 sb w;
          (result, w) \<leftarrow> (if st = SEQC_OK then strbuf_to_string sb al w else Some (string_null, w));
          w \<leftarrow> strbuf_destroy sb w;
          Some (result, w)
        }
      })"

subsection \<open>Joining\<close>

partial_function (option) join_loop ::
  "(string_t, 's, 'w) iter_t \<Rightarrow> string_t \<Rightarrow> bool \<Rightarrow> seqc_status_t \<Rightarrow> 'w strbuf_t option \<Rightarrow> 'w \<Rightarrow>
   (seqc_status_t \<times> (string_t, 's, 'w) iter_t \<times> 'w strbuf_t option \<times> 'w) option" where
  "join_loop it sep first st sb w =
     (if st = SEQC_OK then do {
        (r, it, w) \<leftarrow> iter_next it w;
        case r of
          None \<Rightarrow> Some (st, it, sb, w)
        | Some token \<Rightarrow> do {
            (st, sb, w) \<leftarrow> (if \<not> first then strbuf_append sb sep w else Some (st, sb, w));
            (st, sb, w) \<leftarrow> (if st = SEQC_OK then strbuf_append sb token w else Some (st, sb, w));
            join_loop it sep False st sb w
          }
      } else Some (st, it, sb, w))"

definition string_join ::
  "(string_t, 's, 'w) iter_t \<Rightarrow> string_t \<Rightarrow> 'w allocator_t \<Rightarrow> 'w \<Rightarrow> (string_t \<times> 'w) option" where
  "string_join it sep al w = do {
     (sb, w) \<leftarrow> (if iter_is_valid it then strbuf_create al w else Some (None, w));
     if sb = None then do { w \<leftarrow> iter_destroy it w; Some (string_null, w) }
     else do {
       (st, it, sb, w) \<leftarrow> join_loop it sep True SEQC_OK sb w;
       w \<leftarrow> iter_destroy it w;
       (result, w) \<leftarrow> (if st = SEQC_OK then strbuf_to_string sb al w else Some (string_null, w));
       w \<leftarrow> strbuf_destroy sb w;
       Some (result, w)
     }
   }"

subsection \<open>Reading numbers\<close>

text \<open>
  \<open>strtoll\<close> in base 10 on a string that ends at its first NUL: blanks, a sign, digits. The result is
  the value, the index of the first byte not taken, and whether the value was out of range.
\<close>

definition is_digit :: "byte \<Rightarrow> bool" where
  "is_digit c \<longleftrightarrow> 48 \<le> c \<and> c \<le> 57"

definition digits_value :: "byte list \<Rightarrow> int" where
  "digits_value ds = foldl (\<lambda>n c. 10 * n + (int c - 48)) 0 ds"

definition c_strtoll :: "byte list \<Rightarrow> int \<times> nat \<times> bool" where
  "c_strtoll buf =
     (let blanks = takeWhile is_space buf;
          rest = dropWhile is_space buf;
          signed = (rest \<noteq> [] \<and> (hd rest = 43 \<or> hd rest = 45));
          neg = (rest \<noteq> [] \<and> hd rest = 45);
          ds = takeWhile is_digit (if signed then tl rest else rest);
          v = (if neg then - digits_value ds else digits_value ds)
      in if ds = [] then (0, 0, False)
         else (if v > LLONG_MAX then LLONG_MAX else if v < LLONG_MIN then LLONG_MIN else v,
           length blanks + (if signed then 1 else 0) + length ds, v > LLONG_MAX \<or> v < LLONG_MIN))"

text \<open>The copy of a short string on the stack with its NUL, and what is read from it.\<close>

definition string_to_int :: "string_t \<Rightarrow> (bool \<times> int option) option" where
  "string_to_int s =
     (if str_ptr s = None \<or> str_len s = 0 \<or> str_len s \<ge> 24 then Some (False, None)
      else do {
        xs \<leftarrow> mem_bytes (str_ptr s) (str_len s);
        let buf = xs @ [0];
        let (val, en, erange) = c_strtoll buf;
        if en = 0 \<or> buf ! en \<noteq> 0 \<or> erange then Some (False, None) else Some (True, Some val)
      })"

text \<open>\<open>strtod\<close> is a parameter with the same interface.\<close>

definition string_to_double :: "(byte list \<Rightarrow> 'd \<times> nat \<times> bool) \<Rightarrow> string_t \<Rightarrow> (bool \<times> 'd option) option" where
  "string_to_double c_strtod s =
     (if str_ptr s = None \<or> str_len s = 0 \<or> str_len s \<ge> 64 then Some (False, None)
      else do {
        xs \<leftarrow> mem_bytes (str_ptr s) (str_len s);
        let buf = xs @ [0];
        let (val, en, erange) = c_strtod buf;
        if en > length xs then None
        else if en = 0 \<or> buf ! en \<noteq> 0 \<or> erange then Some (False, None) else Some (True, Some val)
      })"

end
