(* ===== verification/Seqc_String_Laws.thy ===== *)
theory Seqc_String_Laws
  imports Seqc_String Seqc_Compare
begin

section \<open>What the string functions compute\<close>

text \<open>
  \<open>points_to p xs\<close>: the bytes from \<open>p\<close> on start with \<open>xs\<close>. \<open>str_is s xs\<close>: \<open>s\<close> is a view of the bytes \<open>xs\<close>,
  with a pointer that is not NULL; \<open>str_holds s xs\<close> also allows \<open>{NULL, 0}\<close> for no bytes.
\<close>

definition points_to :: "char_ptr option \<Rightarrow> byte list \<Rightarrow> bool" where
  "points_to p xs \<longleftrightarrow> (\<exists>b k zs. p = Some (b, k) \<and> k \<le> length (cells b) \<and> drop k (cells b) = map Some xs @ zs)"

definition str_is :: "string_t \<Rightarrow> byte list \<Rightarrow> bool" where
  "str_is s xs \<longleftrightarrow> points_to (str_ptr s) xs \<and> str_len s = length xs \<and> length xs \<le> PTRDIFF_MAX"

definition str_holds :: "string_t \<Rightarrow> byte list \<Rightarrow> bool" where
  "str_holds s xs \<longleftrightarrow> str_is s xs \<or> s = string_null \<and> xs = []"

named_theorems str_simps \<open>evaluation of accesses to the bytes of a string\<close>

lemma shows_prefix: "points_to p (xs @ ys) \<Longrightarrow> points_to p xs"
  unfolding points_to_def by fastforce

lemma shows_take: "points_to p xs \<Longrightarrow> points_to p (take n xs)"
  by (rule shows_prefix [of p _ "drop n xs"]) simp

lemma mem_bytes_shows:
  assumes "points_to p xs" and "n \<le> length xs"
  shows "mem_bytes p n = Some (take n xs)"
proof -
  from assms(1) obtain b k zs where p: "p = Some (b, k)" "k \<le> length (cells b)" "drop k (cells b) = map Some xs @ zs"
    by (auto simp: points_to_def)
  have "length (cells b) - k = length xs + length zs" using arg_cong [OF p(3), of length] by simp
  then have "k + n \<le> length (cells b)" using assms(2) p(2) by linarith
  moreover have "take n (drop k (cells b)) = map Some (take n xs)" using assms(2) by (simp add: p(3) take_map)
  ultimately show ?thesis using p(1) by (simp add: mem_bytes_def those_map_Some)
qed

lemma char_at_shows:
  assumes "points_to p xs" and "i < length xs"
  shows "char_at p i = Some (xs ! i)"
proof -
  from assms(1) obtain b k zs where p: "p = Some (b, k)" "k \<le> length (cells b)" "drop k (cells b) = map Some xs @ zs"
    by (auto simp: points_to_def)
  have "length (cells b) - k = length xs + length zs" using arg_cong [OF p(3), of length] by simp
  then have "k + i < length (cells b)" using assms(2) p(2) by linarith
  moreover have "cells b ! (k + i) = drop k (cells b) ! i" using p(2) by simp
  ultimately show ?thesis using assms(2) p by (simp add: char_at_def block_read_def nth_append)
qed

lemma ptr_add_shows:
  assumes "points_to p (xs @ ys)"
  obtains q where "ptr_add p (length xs) = Some q" and "points_to q ys"
proof -
  from assms obtain b k zs where p: "p = Some (b, k)" "k \<le> length (cells b)" "drop k (cells b) = map Some (xs @ ys) @ zs"
    by (auto simp: points_to_def)
  have "length (cells b) - k = length xs + length ys + length zs" using arg_cong [OF p(3), of length] by simp
  then have l: "k + length xs \<le> length (cells b)" using p(2) by linarith
  have "drop (k + length xs) (cells b) = drop (length xs) (drop k (cells b))" by (simp add: add.commute)
  then have "drop (k + length xs) (cells b) = map Some ys @ zs" unfolding p(3) by simp
  with l p(1) that show ?thesis by (auto simp: ptr_add_def points_to_def)
qed

lemma str_isD: "str_is s xs \<Longrightarrow> str_len s = length xs" "str_is s xs \<Longrightarrow> length xs \<le> PTRDIFF_MAX" "str_is s xs \<Longrightarrow> str_ptr s \<noteq> None"
  by (auto simp: str_is_def points_to_def)

lemma str_holdsD: "str_holds s xs \<Longrightarrow> str_len s = length xs" "str_holds s xs \<Longrightarrow> length xs \<le> PTRDIFF_MAX"
  by (auto simp: str_holds_def string_null_def dest: str_isD)

lemma str_is_holds: "str_is s xs \<Longrightarrow> str_holds s xs"
  by (simp add: str_holds_def)

lemma str_holds_null [simp]: "str_holds string_null xs \<longleftrightarrow> xs = []"
  by (auto simp: str_holds_def str_is_def points_to_def string_null_def)

lemma str_holds_is: "str_holds s xs \<Longrightarrow> xs \<noteq> [] \<or> str_ptr s \<noteq> None \<Longrightarrow> str_is s xs"
  by (auto simp: str_holds_def string_null_def)

lemma mem_bytes_is [str_simps]: "str_is s xs \<Longrightarrow> n \<le> length xs \<Longrightarrow> mem_bytes (str_ptr s) n = Some (take n xs)"
  by (simp add: str_is_def mem_bytes_shows)

lemma char_at_is [str_simps]: "str_is s xs \<Longrightarrow> i < length xs \<Longrightarrow> char_at (str_ptr s) i = Some (xs ! i)"
  by (simp add: str_is_def char_at_shows)

lemma char_at_holds: "str_holds s xs \<Longrightarrow> i < length xs \<Longrightarrow> char_at (str_ptr s) i = Some (xs ! i)"
  using char_at_is by (auto dest: str_holds_is)

text \<open>A part of a view, from offset \<open>i\<close> on.\<close>

lemma sub_view:
  assumes "str_is s xs" and "i + n \<le> length xs"
  obtains p where "ptr_add (str_ptr s) i = Some p" and "str_is \<lparr>str_ptr = p, str_len = n\<rparr> (take n (drop i xs))"
proof -
  have "points_to (str_ptr s) (take i xs @ drop i xs)" "length (take i xs) = i" using assms by (simp_all add: str_is_def)
  then obtain p where "ptr_add (str_ptr s) i = Some p" "points_to p (drop i xs)" using ptr_add_shows by metis
  with assms that [of p] show ?thesis by (simp add: str_is_def shows_take)
qed

lemma str_len_view: "str_is s xs \<Longrightarrow> n \<le> length xs \<Longrightarrow> str_is (s\<lparr>str_len := n\<rparr>) (take n xs)"
  by (simp add: str_is_def shows_take)

lemma not_found_large: "n \<le> PTRDIFF_MAX \<Longrightarrow> n \<noteq> STRING_NOT_FOUND"
  by (simp add: PTRDIFF_MAX_def STRING_NOT_FOUND_def SIZE_MAX_def)

subsection \<open>Comparison\<close>

lemma bytes_cmp_eq: "length xs = length ys \<Longrightarrow> bytes_cmp xs ys = 0 \<longleftrightarrow> xs = ys"
  by (induction xs ys rule: bytes_cmp.induct) auto

lemma string_equals_is: "str_is a xs \<Longrightarrow> str_is b ys \<Longrightarrow> string_equals a b = Some (xs = ys)"
  by (auto simp: string_equals_def mem_cmp_def str_isD(1) str_simps bytes_cmp_eq)

lemma equals_case_insensitive_loop_is:
  assumes "str_is a xs" and "str_is b ys" and "length xs = length ys" and "i \<le> length xs"
  shows "equals_case_insensitive_loop a b i = Some (map ascii_lower (drop i xs) = map ascii_lower (drop i ys))"
  using assms(4)
proof (induction "length xs - i" arbitrary: i)
  case 0
  then show ?case using assms by (subst equals_case_insensitive_loop.simps) (simp add: str_isD(1))
next
  case (Suc n)
  then have i: "i < length xs" "i < length ys" using assms(3) by simp_all
  have d: "drop i xs = xs ! i # drop (Suc i) xs" "drop i ys = ys ! i # drop (Suc i) ys" using i by (simp_all add: Cons_nth_drop_Suc)
  have "equals_case_insensitive_loop a b (Suc i) = Some (map ascii_lower (drop (Suc i) xs) = map ascii_lower (drop (Suc i) ys))"
    by (rule Suc.hyps(1)) (use Suc.hyps(2) i in simp_all)
  with i show ?case using assms by (simp add: equals_case_insensitive_loop.simps [of a b i] str_isD(1) str_simps d)
qed

lemma string_equals_case_insensitive_is:
  assumes "str_is a xs" and "str_is b ys"
  shows "string_equals_case_insensitive a b = Some (map ascii_lower xs = map ascii_lower ys)"
proof (cases "length xs = length ys")
  case True
  with equals_case_insensitive_loop_is [OF assms True, of 0] assms show ?thesis
    by (simp add: string_equals_case_insensitive_def str_isD(1))
next
  case False
  then have "map ascii_lower xs \<noteq> map ascii_lower ys" by (metis length_map)
  with False assms show ?thesis by (simp add: string_equals_case_insensitive_def str_isD(1))
qed

text \<open>The lexicographic order of byte lists, as a three-way comparison.\<close>

fun lex_cmp :: "byte list \<Rightarrow> byte list \<Rightarrow> int" where
  "lex_cmp [] [] = 0"
| "lex_cmp [] (y # ys) = -1"
| "lex_cmp (x # xs) [] = 1"
| "lex_cmp (x # xs) (y # ys) = (if x = y then lex_cmp xs ys else if x < y then -1 else 1)"

lemma lex_cmp_eq [simp]: "lex_cmp xs ys = 0 \<longleftrightarrow> xs = ys"
  by (induction xs ys rule: lex_cmp.induct) auto

lemma lex_cmp_swap: "lex_cmp ys xs = - lex_cmp xs ys"
  by (induction xs ys rule: lex_cmp.induct) auto

lemma lex_cmp_trans: "lex_cmp xs ys \<le> 0 \<Longrightarrow> lex_cmp ys zs \<le> 0 \<Longrightarrow> lex_cmp xs zs \<le> 0"
proof (induction xs zs arbitrary: ys rule: lex_cmp.induct)
  case (3 x xs)
  then show ?case by (cases ys) auto
next
  case (4 x xs z zs)
  then show ?case by (cases ys) (auto split: if_splits)
qed simp_all

lemma lex_cmp_bytes:
  "lex_cmp xs ys = (let mn = min (length xs) (length ys); c = bytes_cmp (take mn xs) (take mn ys)
     in if c \<noteq> 0 then c else len_cmp (length xs) (length ys))"
  by (induction xs ys rule: lex_cmp.induct) (auto simp: len_cmp_def Let_def)

lemma string_compare_is: "str_is a xs \<Longrightarrow> str_is b ys \<Longrightarrow> string_compare a b = Some (lex_cmp xs ys)"
  by (auto simp: string_compare_def mem_cmp_def str_isD(1) str_simps lex_cmp_bytes [of xs ys] min_def Let_def)

lemma compare_case_insensitive_loop_is:
  assumes "str_is a xs" and "str_is b ys" and "mn = min (length xs) (length ys)" and "i \<le> mn"
  shows "\<exists>c. compare_case_insensitive_loop a b mn i = Some c \<and>
    sgn c = (let d = bytes_cmp (map ascii_lower (drop i (take mn xs))) (map ascii_lower (drop i (take mn ys)))
      in if d \<noteq> 0 then d else len_cmp (length xs) (length ys))"
  using assms(4)
proof (induction "mn - i" arbitrary: i)
  case 0
  then have "i = mn" by simp
  then show ?case using str_isD(1) [OF assms(1)] str_isD(1) [OF assms(2)]
    by (subst compare_case_insensitive_loop.simps) (simp add: len_cmp_def)
next
  case (Suc n)
  have mn: "i < mn" using Suc.hyps(2) by linarith
  then have i: "i < mn" "i < length xs" "i < length ys" using assms(3) by simp_all
  have d: "drop i (take mn xs) = xs ! i # drop (Suc i) (take mn xs)" "drop i (take mn ys) = ys ! i # drop (Suc i) (take mn ys)"
    using Cons_nth_drop_Suc [of i "take mn xs"] Cons_nth_drop_Suc [of i "take mn ys"] i assms(3) by simp_all
  have r: "compare_case_insensitive_loop a b mn i =
      (if ascii_lower (xs ! i) \<noteq> ascii_lower (ys ! i) then Some (int (ascii_lower (xs ! i)) - int (ascii_lower (ys ! i)))
       else compare_case_insensitive_loop a b mn (Suc i))"
    using i(1) char_at_is [OF assms(1) i(2)] char_at_is [OF assms(2) i(3)]
    by (subst compare_case_insensitive_loop.simps) (simp add: Let_def)
  show ?case
  proof (cases "ascii_lower (xs ! i) = ascii_lower (ys ! i)")
    case True
    have "n = mn - Suc i" "Suc i \<le> mn" using Suc.hyps(2) i by simp_all
    from Suc.hyps(1) [OF this] r d True show ?thesis by simp
  qed (use r d in \<open>auto simp: sgn_if\<close>)
qed

lemma string_compare_case_insensitive_is:
  assumes "str_is a xs" and "str_is b ys"
  shows "\<exists>c. string_compare_case_insensitive a b = Some c \<and> sgn c = lex_cmp (map ascii_lower xs) (map ascii_lower ys)"
proof -
  have "(if str_len a < str_len b then str_len a else str_len b) = min (length xs) (length ys)"
    using str_isD(1) [OF assms(1)] str_isD(1) [OF assms(2)] by simp
  then have "string_compare_case_insensitive a b = compare_case_insensitive_loop a b (min (length xs) (length ys)) 0"
    by (simp add: string_compare_case_insensitive_def)
  with compare_case_insensitive_loop_is [OF assms refl, of 0] show ?thesis
    by (simp only: lex_cmp_bytes [of "map ascii_lower xs"] Let_def length_map take_map drop_0 le0 simp_thms)
qed

interpretation lex: compare_order lex_cmp
proof unfold_locales
  show "sgn (lex_cmp a b) = - sgn (lex_cmp b a)" for a b unfolding lex_cmp_swap [of a b] by (rule sgn_minus)
qed (rule lex_cmp_trans)

subsection \<open>Searching\<close>

primrec find_sub :: "'a list \<Rightarrow> 'a list \<Rightarrow> nat option" where
  "find_sub d [] = (if d = [] then Some 0 else None)"
| "find_sub d (x # xs) = (if take (length d) (x # xs) = d then Some 0 else map_option Suc (find_sub d xs))"

lemma find_sub_Nil [simp]: "find_sub [] xs = Some 0"
  by (cases xs) simp_all

lemma find_sub_short: "length xs < length d \<Longrightarrow> find_sub d xs = None"
  by (induction xs) auto

text \<open>It is the first place where \<open>d\<close> stands.\<close>

lemma find_sub_Some:
  assumes "find_sub d xs = Some i"
  shows "i + length d \<le> length xs" and "take (length d) (drop i xs) = d" and "\<forall>j < i. take (length d) (drop j xs) \<noteq> d"
proof -
  have "i + length d \<le> length xs \<and> take (length d) (drop i xs) = d \<and> (\<forall>j < i. take (length d) (drop j xs) \<noteq> d)"
    using assms
  proof (induction xs arbitrary: i)
    case (Cons x xs)
    show ?case
    proof (cases "take (length d) (x # xs) = d")
      case True
      moreover have "length (take (length d) (x # xs)) \<le> length (x # xs)" by simp
      ultimately show ?thesis using Cons.prems by auto
    next
      case False
      with Cons.prems obtain k where k: "find_sub d xs = Some k" "i = Suc k" by auto
      from Cons.IH [OF k(1)] False k(2) show ?thesis by (auto simp: drop_Cons' less_Suc_eq_0_disj)
    qed
  qed (auto split: if_splits)
  then show "i + length d \<le> length xs" "take (length d) (drop i xs) = d" "\<forall>j < i. take (length d) (drop j xs) \<noteq> d" by simp_all
qed

lemma find_sub_None: "find_sub d xs = None \<Longrightarrow> \<forall>j. take (length d) (drop j xs) \<noteq> d"
proof (induction xs)
  case (Cons x xs)
  then show ?case by (auto simp: drop_Cons' split: if_splits)
qed (auto split: if_splits)

definition found :: "nat option \<Rightarrow> size_t" where
  "found r = (case r of None \<Rightarrow> STRING_NOT_FOUND | Some i \<Rightarrow> i)"

lemma found_simps [simp]: "found None = STRING_NOT_FOUND" "found (Some i) = i"
  by (simp_all add: found_def)

lemma string_find_loop_is:
  assumes "str_is s xs" and "str_is n d" and "d \<noteq> []" and "length d \<le> length xs" and "i \<le> Suc (length xs - length d)"
  shows "string_find_loop s n i = Some (found (map_option (\<lambda>k. i + k) (find_sub d (drop i xs))))"
  using assms(5)
proof (induction "Suc (length xs - length d) - i" arbitrary: i)
  case 0
  have "0 < length d" using assms(3) by simp
  then have "length (drop i xs) < length d" using 0 assms(4) unfolding length_drop by linarith
  then have "find_sub d (drop i xs) = None" by (rule find_sub_short)
  with 0 show ?case using assms(1,2) by (simp add: string_find_loop.simps [of s n i] str_isD(1))
next
  case (Suc m)
  have i: "i \<le> length xs - length d" using Suc.hyps(2) by simp
  then have l: "i + length d \<le> length xs" using assms(4) by simp
  have dr: "drop i xs = xs ! i # drop (Suc i) xs" using l assms(3) by (cases d) (simp_all add: Cons_nth_drop_Suc)
  from assms(1) l obtain p where p: "ptr_add (str_ptr s) i = Some p" "str_is \<lparr>str_ptr = p, str_len = length d\<rparr> (take (length d) (drop i xs))"
    by (rule sub_view)
  have "mem_bytes p (length d) = Some (take (length d) (drop i xs))"
    using mem_bytes_is [OF p(2), of "length d"] l by simp
  then have c: "mem_cmp p (str_ptr n) (str_len n) = Some (bytes_cmp (take (length d) (drop i xs)) d)"
    using assms(2) by (simp add: mem_cmp_def str_isD(1) str_simps)
  have e: "bytes_cmp (take (length d) (drop i xs)) d = 0 \<longleftrightarrow> take (length d) (drop i xs) = d"
    by (rule bytes_cmp_eq) (use l in simp)
  have "string_find_loop s n (Suc i) = Some (found (map_option (\<lambda>k. Suc i + k) (find_sub d (drop (Suc i) xs))))"
    by (rule Suc.hyps(1)) (use Suc.hyps(2) i in simp_all)
  moreover have "string_find_loop s n i = (if take (length d) (drop i xs) = d then Some i else string_find_loop s n (Suc i))"
    using i p(1) c e str_isD(1) [OF assms(1)] str_isD(1) [OF assms(2)] by (simp add: string_find_loop.simps [of s n i])
  moreover have "find_sub d (drop i xs) = (if take (length d) (drop i xs) = d then Some 0 else map_option Suc (find_sub d (drop (Suc i) xs)))"
    unfolding dr by simp
  ultimately show ?case by (simp add: option.map_comp comp_def)
qed

lemma string_find_is:
  assumes "str_holds s xs" and "str_holds n d"
  shows "string_find s n = Some (found (find_sub d xs))"
proof -
  note l = str_holdsD(1) [OF assms(1)] str_holdsD(1) [OF assms(2)]
  consider "d = []" | "d \<noteq> []" "length xs < length d" | "d \<noteq> []" "length d \<le> length xs" by fastforce
  then show ?thesis
  proof cases
    case 3
    then have "xs \<noteq> []" by auto
    with assms 3 have "str_is s xs" "str_is n d" by (auto intro: str_holds_is)
    from string_find_loop_is [OF this 3, of 0] 3 l show ?thesis by (simp add: string_find_def option.map_ident)
  qed (use l in \<open>simp_all add: string_find_def find_sub_short\<close>)
qed

lemma string_contains_is:
  assumes "str_holds s xs" and "str_holds n d"
  shows "string_contains s n = Some (find_sub d xs \<noteq> None)"
proof (cases "find_sub d xs")
  case (Some i)
  then have "i \<le> PTRDIFF_MAX" using find_sub_Some(1) [OF Some] str_holdsD(2) [OF assms(1)] by linarith
  with Some show ?thesis by (simp add: string_contains_def string_find_is [OF assms] not_found_large)
qed (simp add: string_contains_def string_find_is [OF assms])

lemma find_char_loop_is:
  assumes "str_holds s xs" and "i \<le> length xs"
  shows "find_char_loop s c i = Some (found (map_option (\<lambda>k. i + k) (first_index (\<lambda>x. x = c) (drop i xs))))"
  using assms(2)
proof (induction "length xs - i" arbitrary: i)
  case 0
  then show ?case using assms(1) by (simp add: find_char_loop.simps [of s c i] str_holdsD(1))
next
  case (Suc n)
  then have i: "i < length xs" by simp
  have d: "drop i xs = xs ! i # drop (Suc i) xs" using i by (simp add: Cons_nth_drop_Suc)
  have "find_char_loop s c (Suc i) = Some (found (map_option (\<lambda>k. Suc i + k) (first_index (\<lambda>x. x = c) (drop (Suc i) xs))))"
    by (rule Suc.hyps(1)) (use Suc.hyps(2) i in simp_all)
  with i char_at_holds [OF assms(1) i] show ?case using str_holdsD(1) [OF assms(1)]
    by (simp add: find_char_loop.simps [of s c i] d option.map_comp comp_def)
qed

lemma string_find_char_is: "str_holds s xs \<Longrightarrow> string_find_char s c = Some (found (first_index (\<lambda>x. x = c) xs))"
  using find_char_loop_is [of s xs 0 c] by (simp add: string_find_char_def option.map_ident)

definition last_index :: "('a \<Rightarrow> bool) \<Rightarrow> 'a list \<Rightarrow> nat option" where
  "last_index P xs = map_option (\<lambda>i. length xs - 1 - i) (first_index P (rev xs))"

lemma last_index_snoc: "last_index P (xs @ [x]) = (if P x then Some (length xs) else last_index P xs)"
  by (simp add: last_index_def option.map_comp comp_def)

lemma rfind_char_loop_is:
  "str_holds s xs \<Longrightarrow> i \<le> length xs \<Longrightarrow> rfind_char_loop s c i = Some (found (last_index (\<lambda>x. x = c) (take i xs)))"
proof (induction i)
  case 0
  then show ?case by (simp add: last_index_def)
next
  case (Suc i)
  then show ?case using char_at_holds [OF Suc.prems(1), of i]
    by (simp add: take_Suc_conv_app_nth last_index_snoc)
qed

lemma string_rfind_char_is: "str_holds s xs \<Longrightarrow> string_rfind_char s c = Some (found (last_index (\<lambda>x. x = c) xs))"
  using rfind_char_loop_is [of s xs "length xs" c] by (simp add: string_rfind_char_def str_holdsD(1))

lemma string_starts_with_is: "str_is s xs \<Longrightarrow> str_is p ys \<Longrightarrow> string_starts_with s p = Some (take (length ys) xs = ys)"
  by (auto simp: string_starts_with_def mem_cmp_def str_isD(1) str_simps bytes_cmp_eq)

lemma string_ends_with_is:
  assumes "str_is s xs" and "str_is p ys"
  shows "string_ends_with s p = Some (length ys \<le> length xs \<and> drop (length xs - length ys) xs = ys)"
proof (cases "length ys \<le> length xs")
  case True
  then have "length xs - length ys + length ys \<le> length xs" by simp
  with assms(1) obtain q where q: "ptr_add (str_ptr s) (length xs - length ys) = Some q"
    "str_is \<lparr>str_ptr = q, str_len = length ys\<rparr> (take (length ys) (drop (length xs - length ys) xs))" by (rule sub_view)
  have "mem_bytes q (length ys) = Some (drop (length xs - length ys) xs)" using mem_bytes_is [OF q(2), of "length ys"] True by simp
  moreover have "length (drop (length xs - length ys) xs) = length ys" using True by simp
  ultimately show ?thesis using True assms q(1)
    by (simp add: string_ends_with_def mem_cmp_def str_isD(1) str_simps bytes_cmp_eq)
qed (use assms in \<open>simp add: string_ends_with_def str_isD(1)\<close>)

end
