(* ===== verification/Seqc_String_Make.thy ===== *)
theory Seqc_String_Make
  imports Seqc_String_Laws
begin

section \<open>Strings that are made: views, copies, keys\<close>

text \<open>
  What slicing and trimming leave of a string, all views of its bytes; the outcomes of a function
  that allocates a string, \<open>str_made\<close>; copies, changes of letter case and C strings in these
  terms; strings as the keys of hash tables (\<open>src/string/string.c\<close>).
\<close>

subsection \<open>Views\<close>

lemma string_slice_is:
  assumes "str_holds s xs"
  obtains r where "string_slice s i j = Some r" and "str_holds r (take (j - i) (drop i xs))"
    and "str_is s xs \<Longrightarrow> i < length xs \<Longrightarrow> i < j \<Longrightarrow> str_is r (take (j - i) (drop i xs))"
proof (cases "str_ptr s = None \<or> i \<ge> str_len s \<or> j \<le> i")
  case True
  have "take (j - i) (drop i xs) = []"
  proof (cases "xs = []")
    case False
    then have "str_is s xs" using assms by (intro str_holds_is) simp_all
    with True show ?thesis by (auto dest: str_isD)
  qed simp
  moreover have "\<not> (str_is s xs \<and> i < length xs \<and> i < j)" using True by (auto dest: str_isD)
  moreover have "string_slice s i j = Some string_null" using True by (simp add: string_slice_def)
  ultimately show ?thesis using that [of string_null] by auto
next
  case False
  then have s: "str_is s xs" using assms by (intro str_holds_is) simp_all
  have i: "i < length xs" "i < j" using False str_isD(1) [OF s] by simp_all
  let ?j = "min j (length xs)"
  have "i + (?j - i) \<le> length xs" using i by simp
  with s obtain p where p: "ptr_add (str_ptr s) i = Some p" "str_is \<lparr>str_ptr = p, str_len = ?j - i\<rparr> (take (?j - i) (drop i xs))"
    by (rule sub_view)
  have e: "take (?j - i) (drop i xs) = take (j - i) (drop i xs)" by (cases "j \<le> length xs") (simp_all add: min_def)
  obtain q where "str_ptr s = Some q" using False by auto
  then have "string_slice s i j = Some \<lparr>str_ptr = p, str_len = ?j - i\<rparr>"
    using False p(1) str_isD(1) [OF s] by (simp add: string_slice_def min_def Let_def)
  then show ?thesis by (rule that) (use p(2) e in \<open>simp_all add: str_is_holds\<close>)
qed

lemma string_trim_left_is:
  assumes "str_holds s xs"
  obtains r where "string_trim_left s = Some r" and "str_holds r (dropWhile is_space xs)"
  using assms
proof (induction xs arbitrary: s thesis)
  case Nil
  then show ?case by (subst (asm) string_trim_left.simps) (simp add: str_holdsD(1))
next
  case (Cons x xs)
  then have s: "str_is s (x # xs)" by (intro str_holds_is) simp_all
  have c: "char_at (str_ptr s) 0 = Some x" using char_at_is [OF s, of 0] by simp
  show ?case
  proof (cases "is_space x")
    case True
    have "1 + length xs \<le> length (x # xs)" by simp
    with s obtain p where p: "ptr_add (str_ptr s) 1 = Some p" "str_is \<lparr>str_ptr = p, str_len = length xs\<rparr> (take (length xs) (drop 1 (x # xs)))"
      by (rule sub_view)
    have h: "str_holds \<lparr>str_ptr = p, str_len = length xs\<rparr> xs" using p(2) by (simp add: str_is_holds)
    obtain r where "string_trim_left \<lparr>str_ptr = p, str_len = length xs\<rparr> = Some r" "str_holds r (dropWhile is_space xs)"
      by (rule Cons.IH [OF _ h])
    moreover have "string_trim_left s = string_trim_left \<lparr>str_ptr = p, str_len = length xs\<rparr>"
      using True c p(1) str_isD(1) [OF s] by (subst string_trim_left.simps) simp
    ultimately show ?thesis using Cons.prems(1) [of r] True by simp
  next
    case False
    then have "string_trim_left s = Some s" using c str_isD(1) [OF s] by (subst string_trim_left.simps) simp
    then show ?thesis by (rule Cons.prems(1)) (use False Cons.prems(2) in simp)
  qed
qed

definition trim_end :: "byte list \<Rightarrow> byte list" where
  "trim_end xs = rev (dropWhile is_space (rev xs))"

lemma string_trim_right_is:
  assumes "str_holds s xs"
  obtains r where "string_trim_right s = Some r" and "str_holds r (trim_end xs)"
  using assms
proof (induction xs arbitrary: s thesis rule: rev_induct)
  case Nil
  then show ?case by (subst (asm) string_trim_right.simps) (simp add: str_holdsD(1) trim_end_def)
next
  case (snoc x xs)
  then have s: "str_is s (xs @ [x])" by (intro str_holds_is) simp_all
  have c: "char_at (str_ptr s) (str_len s - 1) = Some x" using char_at_is [OF s, of "length xs"] str_isD(1) [OF s] by simp
  show ?case
  proof (cases "is_space x")
    case True
    have h: "str_holds (s\<lparr>str_len := str_len s - 1\<rparr>) xs"
      using str_len_view [OF s, of "length xs"] str_isD(1) [OF s] by (simp add: str_is_holds)
    obtain r where "string_trim_right (s\<lparr>str_len := str_len s - 1\<rparr>) = Some r" "str_holds r (trim_end xs)"
      by (rule snoc.IH [OF _ h])
    moreover have "string_trim_right s = string_trim_right (s\<lparr>str_len := str_len s - 1\<rparr>)"
      using True c str_isD(1) [OF s] by (subst string_trim_right.simps) simp
    ultimately show ?thesis using snoc.prems(1) [of r] True by (simp add: trim_end_def)
  next
    case False
    then have "string_trim_right s = Some s" using c str_isD(1) [OF s] by (subst string_trim_right.simps) simp
    then show ?thesis by (rule snoc.prems(1)) (use False snoc.prems(2) in \<open>simp add: trim_end_def\<close>)
  qed
qed

lemma string_trim_is:
  assumes "str_holds s xs"
  shows "\<exists>r. string_trim s = Some r \<and> str_holds r (trim_end (dropWhile is_space xs))"
proof -
  from assms obtain q where q: "string_trim_left s = Some q" "str_holds q (dropWhile is_space xs)" by (rule string_trim_left_is)
  from q(2) obtain r where "string_trim_right q = Some r" "str_holds r (trim_end (dropWhile is_space xs))" by (rule string_trim_right_is)
  with q(1) show ?thesis by (simp add: string_trim_def)
qed

subsection \<open>Copies\<close>

text \<open>
  A string that owns its block of exactly \<open>length xs\<close> bytes, and the two outcomes of a function
  that makes one: \<open>{NULL, 0}\<close> only when there is nothing to store or the allocator refuses a
  request. The largest request on the way to \<open>n\<close> bytes is that of a builder which doubles, or of
  a struct.
\<close>

definition building_refused :: "'w vtable \<Rightarrow> nat \<Rightarrow> bool" where
  "building_refused t n \<longleftrightarrow> refuses t (2 * n + 64)"

lemma building_refusedI:
  "mem_alloc (Some t) k w = Some (None, w') \<Longrightarrow> k \<le> 2 * n + 64 \<Longrightarrow> building_refused t n"
  "mem_realloc (Some t) p m k w = Some (None, w') \<Longrightarrow> k \<le> 2 * n + 64 \<Longrightarrow> building_refused t n"
  unfolding building_refused_def by (erule (1) refuses_alloc, erule (1) refuses_realloc)

lemma building_refused_mono: "building_refused t m \<Longrightarrow> m \<le> n \<Longrightarrow> building_refused t n"
  unfolding building_refused_def by (erule refuses_mono) simp

definition owned_str :: "string_t \<Rightarrow> byte list \<Rightarrow> (addr \<rightharpoonup> size_t) \<Rightarrow> (addr \<rightharpoonup> size_t) \<Rightarrow> bool" where
  "owned_str r xs L R \<longleftrightarrow> (\<exists>b. str_ptr r = Some (b, 0) \<and> str_len r = length xs \<and> cells b = map Some xs \<and>
     length xs \<le> PTRDIFF_MAX \<and> owns L R [blk_addr b \<mapsto> length xs])"

definition str_made :: "'w vtable \<Rightarrow> (addr \<rightharpoonup> size_t) \<Rightarrow> (addr \<rightharpoonup> size_t) \<Rightarrow> string_t \<Rightarrow> byte list \<Rightarrow> bool" where
  "str_made t L R r xs \<longleftrightarrow>
     xs \<noteq> [] \<and> owned_str r xs L R \<or> r = string_null \<and> L = R \<and> (xs = [] \<or> building_refused t (length xs))"

lemma owned_str_is: "owned_str r xs L R \<Longrightarrow> str_is r xs"
  by (auto simp: owned_str_def str_is_def points_to_def)

lemma str_made_null: "xs = [] \<or> building_refused t (length xs) \<Longrightarrow> str_made t L L string_null xs"
  by (auto simp: str_made_def)

lemma str_holds_empty: "str_holds s xs \<Longrightarrow> str_ptr s = None \<or> str_len s = 0 \<Longrightarrow> xs = []"
  using str_holdsD(1) [of s xs] by (auto simp: str_holds_def dest: str_isD(3))

lemma mem_fill_fresh: "cells b = replicate (length xs) None \<Longrightarrow> mem_fill b xs = Some (b\<lparr>cells := map Some xs\<rparr>)"
  by (simp add: mem_fill_def overwrite_def)

context heap_allocator begin

lemma char_block_alloc:
  assumes "0 < n"
  obtains (granted) b :: "byte block" and w' where "block_alloc (Some t) 1 n w = Some (Some b, w')"
      and "cells b = replicate n None" and "owns (live w') (live w) [blk_addr b \<mapsto> n]" and "n \<le> PTRDIFF_MAX"
  | (refused) w' where "block_alloc (Some t) 1 n w = Some (None :: byte block option, w')" and "live w' = live w"
      and "building_refused t n"
proof -
  have o: "owns (live w) (live w) Map.empty" by simp
  have "0 < (1 :: nat)" by simp
  from o this assms show ?thesis
  proof (cases rule: block_alloc_fresh [where 'e = byte])
    case (granted b w')
    then show ?thesis by (intro that(1) [of b w']) simp_all
  next
    case (refused w')
    from refused(1) have "mem_alloc (Some t) n w = Some (None, w')" by (simp add: block_alloc_def split: option.splits prod.splits)
    then have "building_refused t n" by (rule building_refusedI) (use assms in simp_all)
    with refused show ?thesis by (intro that(2) [of w']) simp_all
  qed
qed

lemma string_copy_at:
  assumes "str_holds s xs"
  shows "\<exists>r w'. string_copy s (Some t) w = Some (r, w') \<and> str_made t (live w') (live w) r xs"
proof (cases "str_ptr s = None \<or> str_len s = 0")
  case True
  then show ?thesis using str_holds_empty [OF assms] by (simp add: string_copy_def str_made_null)
next
  case False
  then have s: "str_is s xs" using assms by (intro str_holds_is) simp_all
  have xs: "xs \<noteq> []" "0 < length xs" using False str_isD(1) [OF s] by auto
  obtain q where q: "str_ptr s = Some q" using False by auto
  from xs(2) show ?thesis
  proof (cases rule: char_block_alloc [of _ w])
    case (granted b w')
    have "string_copy s (Some t) w = Some (\<lparr>str_ptr = Some (b\<lparr>cells := map Some xs\<rparr>, 0), str_len = length xs\<rparr>, w')"
      using False q granted(1) str_isD(1) [OF s] mem_bytes_is [OF s le_refl] mem_fill_fresh [OF granted(2)]
      by (simp add: string_copy_def)
    then show ?thesis using granted xs(1) by (simp add: str_made_def owned_str_def)
  next
    case (refused w')
    then show ?thesis using False q str_isD(1) [OF s] by (simp add: string_copy_def str_made_def)
  qed
qed

lemma map_chars_loop_is:
  assumes s: "str_is s xs" and "buf_is buf (length xs) (map f (take i xs))" and "i \<le> length xs"
  shows "\<exists>buf'. map_chars_loop f s buf i = Some buf' \<and> buf_is buf' (length xs) (map f xs) \<and> map_option blk_addr buf' = map_option blk_addr buf"
  using assms(2,3)
proof (induction "length xs - i" arbitrary: i buf)
  case 0
  then show ?case using str_isD(1) [OF s] by (simp add: map_chars_loop.simps [of f s buf i])
next
  case (Suc n)
  then have i: "i < length xs" by simp
  then have "length (map f (take i xs)) < length xs" by simp
  with Suc.prems(1) obtain buf1 where b: "block_write buf (length (map f (take i xs))) (f (xs ! i)) = Some buf1"
    "buf_is buf1 (length xs) (map f (take i xs) @ [f (xs ! i)])" "map_option blk_addr buf1 = map_option blk_addr buf"
    by (rule block_append_is)
  have "map f (take i xs) @ [f (xs ! i)] = map f (take (Suc i) xs)" using i by (simp add: take_Suc_conv_app_nth)
  with b(2) have "buf_is buf1 (length xs) (map f (take (Suc i) xs))" by simp
  from Suc.hyps(1) [OF _ this] Suc.hyps(2) i obtain buf' where
    "map_chars_loop f s buf1 (Suc i) = Some buf'" "buf_is buf' (length xs) (map f xs)" "map_option blk_addr buf' = map_option blk_addr buf1"
    by (metis Suc_diff_Suc Suc_leI diff_Suc_1)
  moreover have "map_chars_loop f s buf i = map_chars_loop f s buf1 (Suc i)"
    using i b(1) char_at_is [OF s i] str_isD(1) [OF s] by (simp add: map_chars_loop.simps [of f s buf i])
  ultimately show ?case using b(3) by simp
qed

lemma mapped_copy_at:
  assumes "str_holds s xs"
  shows "\<exists>r w'. mapped_copy f s (Some t) w = Some (r, w') \<and> str_made t (live w') (live w) r (map f xs)"
proof (cases "str_ptr s = None \<or> str_len s = 0")
  case True
  then show ?thesis using str_holds_empty [OF assms] by (simp add: mapped_copy_def str_made_null)
next
  case False
  then have s: "str_is s xs" using assms by (intro str_holds_is) simp_all
  have xs: "xs \<noteq> []" "0 < length xs" using False str_isD(1) [OF s] by auto
  obtain q where q: "str_ptr s = Some q" using False by auto
  from xs(2) show ?thesis
  proof (cases rule: char_block_alloc [of _ w])
    case (granted b w')
    have "buf_is (Some b) (length xs) (map f (take 0 xs))" using granted(2) xs(2) by (intro buf_is_SomeI [where ys = "cells b"]) simp_all
    from map_chars_loop_is [OF s this] obtain buf where r: "map_chars_loop f s (Some b) 0 = Some buf"
      "buf_is buf (length xs) (map f xs)" "map_option blk_addr buf = Some (blk_addr b)" by auto
    from r(3) obtain c where c: "buf = Some c" "blk_addr c = blk_addr b" by auto
    have cc: "cells c = map Some (map f xs)" using r(2) c(1) by (auto elim!: buf_is_SomeE)
    have "mapped_copy f s (Some t) w = Some (\<lparr>str_ptr = Some (c, 0), str_len = length xs\<rparr>, w')"
      using False q granted(1) str_isD(1) [OF s] r(1) c(1) by (simp add: mapped_copy_def)
    then show ?thesis using granted xs(1) cc c(2) by (simp add: str_made_def owned_str_def)
  next
    case (refused w')
    then show ?thesis using False q str_isD(1) [OF s] by (simp add: mapped_copy_def str_made_def)
  qed
qed

end

subsection \<open>C strings\<close>

lemma strlen_cells_is: "\<forall>x \<in> set xs. x \<noteq> 0 \<Longrightarrow> strlen_cells (map Some xs @ Some 0 # zs) = Some (length xs)"
  by (induction xs) auto

lemma c_strlen_is:
  assumes "points_to (Some p) (xs @ [0])" and "\<forall>x \<in> set xs. x \<noteq> 0"
  shows "c_strlen p = Some (length xs)"
  using assms by (auto simp: points_to_def c_strlen_def strlen_cells_is)

lemma string_view_cstr_is:
  assumes "points_to (Some p) (xs @ [0])" and "\<forall>x \<in> set xs. x \<noteq> 0" and "length xs \<le> PTRDIFF_MAX"
  shows "\<exists>r. string_view_cstr (Some p) = Some r \<and> str_is r xs"
  using c_strlen_is [OF assms(1,2)] shows_prefix [OF assms(1)] assms(3) by (simp add: string_view_cstr_def str_is_def)

lemma terminated_is:
  assumes "str_holds s xs" and "length (cells b) = Suc n" and "length xs \<le> n"
  obtains c where "terminated s b = Some c" and "points_to (Some (c, 0)) (xs @ [0])" and "blk_addr c = blk_addr b"
proof -
  let ?c = "b\<lparr>cells := map Some xs @ drop (length xs) (cells b)\<rparr>"
  have "(if str_ptr s \<noteq> None \<and> str_len s > 0
           then do { xs \<leftarrow> mem_bytes (str_ptr s) (str_len s); mem_fill b xs } else Some b) = Some ?c"
  proof (cases "str_ptr s \<noteq> None \<and> str_len s > 0")
    case True
    then have "str_is s xs" using assms(1) by (intro str_holds_is) simp_all
    with True assms(2,3) show ?thesis by (simp add: str_isD(1) mem_bytes_is mem_fill_def overwrite_def)
  next
    case False
    then have "xs = []" using assms(1) str_holdsD(1) [OF assms(1)] by (auto simp: str_holds_def dest: str_isD(3))
    then show ?thesis by (subst if_not_P [OF False]) simp
  qed
  moreover obtain z zs where z: "drop (length xs) (cells b) = z # zs" using assms(2,3)
    by (metis drop_eq_Nil le_SucI less_Suc_eq_le list.exhaust not_less)
  ultimately have "terminated s b = Some (b\<lparr>cells := map Some xs @ Some 0 # zs\<rparr>)"
    using str_holdsD(1) [OF assms(1)] by (simp add: terminated_def block_write_def list_update_append)
  then show ?thesis by (rule that) (simp_all add: points_to_def)
qed

subsection \<open>Keys\<close>

definition str_hash :: "byte list \<Rightarrow> size_t \<Rightarrow> size_t" where
  "str_hash xs n = (if xs = [] then 0 else fnv1a_loop FNV_OFFSET xs)"

definition str_hash_ci :: "byte list \<Rightarrow> size_t \<Rightarrow> size_t" where
  "str_hash_ci xs n = str_hash (map ascii_lower xs) n"

definition str_eq :: "byte list \<Rightarrow> byte list \<Rightarrow> size_t \<Rightarrow> bool" where
  "str_eq xs ys n \<longleftrightarrow> xs = ys"

definition str_eq_ci :: "byte list \<Rightarrow> byte list \<Rightarrow> size_t \<Rightarrow> bool" where
  "str_eq_ci xs ys n \<longleftrightarrow> map ascii_lower xs = map ascii_lower ys"

lemma string_hash_loop_is:
  assumes s: "str_is s xs" and "i \<le> length xs"
  shows "string_hash_loop f s i h = Some (fnv1a_loop h (map f (drop i xs)))"
  using assms(2)
proof (induction "length xs - i" arbitrary: i h)
  case 0
  then show ?case using str_isD(1) [OF s] by (simp add: string_hash_loop.simps [of f s i h])
next
  case (Suc n)
  then have i: "i < length xs" by simp
  have "drop i xs = xs ! i # drop (Suc i) xs" using i by (simp add: Cons_nth_drop_Suc)
  moreover have "string_hash_loop f s (Suc i) (wmul (h XOR f (xs ! i)) FNV_PRIME) =
      Some (fnv1a_loop (wmul (h XOR f (xs ! i)) FNV_PRIME) (map f (drop (Suc i) xs)))"
    by (rule Suc.hyps(1)) (use Suc.hyps(2) i in simp_all)
  ultimately show ?case using i char_at_is [OF s i] str_isD(1) [OF s] by (simp add: string_hash_loop.simps [of f s i h])
qed

lemma string_hash_is:
  assumes "str_holds s xs"
  shows "string_hash (Some s) n = Some (str_hash xs n)"
    and "string_hash_case_insensitive (Some s) n = Some (str_hash_ci xs n)"
proof -
  note l = str_holdsD(1) [OF assms]
  have "string_hash (Some s) n = Some (str_hash xs n) \<and> string_hash_case_insensitive (Some s) n = Some (str_hash_ci xs n)"
  proof (cases "xs = []")
    case False
    then have s: "str_is s xs" using assms by (intro str_holds_is) simp_all
    obtain q where "str_ptr s = Some q" using str_isD(3) [OF s] by auto
    with False show ?thesis using string_hash_loop_is [OF s, of 0] l
      by (simp add: string_hash_def string_hash_case_insensitive_def str_hash_def str_hash_ci_def)
  qed (use l in \<open>simp add: string_hash_def string_hash_case_insensitive_def str_hash_def str_hash_ci_def\<close>)
  then show "string_hash (Some s) n = Some (str_hash xs n)" "string_hash_case_insensitive (Some s) n = Some (str_hash_ci xs n)" by simp_all
qed

lemma string_key_eq_is:
  assumes "str_is a xs" and "str_is b ys"
  shows "string_key_eq (Some a) (Some b) n = Some (str_eq xs ys n)"
    and "string_key_eq_case_insensitive (Some a) (Some b) n = Some (str_eq_ci xs ys n)"
  using string_equals_is [OF assms] string_equals_case_insensitive_is [OF assms]
  by (simp_all add: string_key_eq_def string_key_eq_case_insensitive_def str_eq_def str_eq_ci_def)

text \<open>Each pair is what \<open>hashmap_t\<close> and \<open>set_t\<close> ask for.\<close>

interpretation str_key: key_hash "\<lambda>k. str_hash k 16" "\<lambda>a b. str_eq a b 16"
  by unfold_locales (auto simp: str_eq_def)

interpretation str_key_ci: key_hash "\<lambda>k. str_hash_ci k 16" "\<lambda>a b. str_eq_ci a b 16"
  by unfold_locales (auto simp: str_eq_ci_def str_hash_ci_def)

lemma str_fit: "hash_fits str_hash str_eq n" "hash_fits str_hash_ci str_eq_ci n"
  unfolding hash_fits_def by (unfold_locales; auto simp: str_eq_def str_eq_ci_def str_hash_ci_def)+

end
