(* ===== verification/Seqc_Strbuf_Laws.thy ===== *)
theory Seqc_Strbuf_Laws
  imports Seqc_Strbuf Seqc_String_Make
begin

section \<open>What the builder builds\<close>

text \<open>
  \<open>sb_at t live R w u xs\<close>: the builder \<open>u\<close> holds the bytes \<open>xs\<close>, and besides the frame \<open>R\<close> the allocator's
  blocks are exactly those of \<open>u\<close>. Each operation of \<open>strbuf_t\<close> (\<open>src/string/string.c\<close>) is a lemma
  about \<open>sb_at\<close>, by way of the lemmas about the vector that a builder is made of.
\<close>

definition sb_is :: "'w vtable \<Rightarrow> 'w strbuf_t \<Rightarrow> byte list \<Rightarrow> bool" where
  "sb_is t u xs \<longleftrightarrow>
     (\<exists>v. sb_chars u = Some v \<and> vec_is t v xs \<and> v_elem_size v = 1 \<and> sb_alloc u = Some t \<and> sb_self u \<notin> dom (vec_blocks v))"

definition sb_blocks :: "'w strbuf_t \<Rightarrow> (addr \<rightharpoonup> size_t)" where
  "sb_blocks u = (case sb_chars u of None \<Rightarrow> Map.empty | Some v \<Rightarrow> vec_blocks v)(sb_self u \<mapsto> sizeof_strbuf_t)"

definition sb_at ::
  "'w vtable \<Rightarrow> ('w \<Rightarrow> addr \<rightharpoonup> size_t) \<Rightarrow> (addr \<rightharpoonup> size_t) \<Rightarrow> 'w \<Rightarrow> 'w strbuf_t \<Rightarrow> byte list \<Rightarrow> bool" where
  "sb_at t live R w u xs \<longleftrightarrow> sb_is t u xs \<and> owns (live w) R (sb_blocks u)"

text \<open>The vector works in the frame of the builder's own struct.\<close>

lemma sb_atI:
  "sb_chars u = Some v \<Longrightarrow> v_elem_size v = 1 \<Longrightarrow> sb_alloc u = Some t \<Longrightarrow> vec_at t live (R(sb_self u \<mapsto> sizeof_strbuf_t)) w v xs \<Longrightarrow> sb_self u \<notin> dom R \<Longrightarrow>
   sb_at t live R w u xs"
  using owns_wrap_iff [of "sb_self u" "vec_blocks v" "live w" R sizeof_strbuf_t]
  by (simp add: sb_at_def sb_is_def sb_blocks_def vec_at_def)

lemma sb_atE:
  assumes "sb_at t live R w u xs"
  obtains v where "sb_chars u = Some v" and "sb_alloc u = Some t"
    and "vec_at t live (R(sb_self u \<mapsto> sizeof_strbuf_t)) w v xs" and "sb_self u \<notin> dom R" and "v_elem_size v = 1"
proof -
  from assms have a: "sb_is t u xs" "owns (live w) R (sb_blocks u)" by (simp_all add: sb_at_def)
  from a(1) obtain v where v: "sb_chars u = Some v" "vec_is t v xs" "sb_alloc u = Some t" "sb_self u \<notin> dom (vec_blocks v)" "v_elem_size v = 1"
    unfolding sb_is_def by blast
  have "owns (live w) R ((vec_blocks v)(sb_self u \<mapsto> sizeof_strbuf_t))" using a(2) v(1) by (simp add: sb_blocks_def)
  with owns_wrap_iff [of "sb_self u" "vec_blocks v" "live w" R sizeof_strbuf_t]
  v(4) have "owns (live w) (R(sb_self u \<mapsto> sizeof_strbuf_t)) (vec_blocks v)" "sb_self u \<notin> dom R" by blast+
  with v that show ?thesis by (simp add: vec_at_def)
qed

lemma sb_view_is:
  assumes "sb_is t u xs"
  shows "str_len (strbuf_view (Some u)) = length xs" and "str_holds (strbuf_view (Some u)) xs"
proof -
  from assms obtain v where v: "sb_chars u = Some v" "vec_is t v xs" by (auto simp: sb_is_def)
  then show l: "str_len (strbuf_view (Some u)) = length xs" by (simp add: strbuf_view_def vec_as_slice_def vec_is_def)
  show "str_holds (strbuf_view (Some u)) xs"
  proof (cases "v_data v")
    case None
    with v show ?thesis by (simp add: strbuf_view_def vec_as_slice_def vec_is_def string_null_def [symmetric])
  next
    case (Some b)
    from v(2) have d: "buf_is (Some b) (v_cap v) xs" "v_cap v * v_elem_size v \<le> PTRDIFF_MAX" "elem_size_ok (v_elem_size v)"
      by (simp_all add: vec_is_def Some)
    from d(1) obtain zs where z: "cells b = map Some xs @ zs" by (rule buf_is_SomeE)
    have "length xs * 1 \<le> v_cap v * v_elem_size v"
      by (rule mult_le_mono) (use buf_is_len [OF d(1)] d(3) in \<open>simp_all add: elem_size_ok_def\<close>)
    then have "length xs \<le> PTRDIFF_MAX" using d(2) by linarith
    with v Some z have "str_is (strbuf_view (Some u)) xs"
      by (simp add: strbuf_view_def vec_as_slice_def vec_is_def str_is_def points_to_def)
    then show ?thesis by (rule str_is_holds)
  qed
qed

text \<open>What a vector that could not be made or grown says of the allocator.\<close>

lemma vec_create_refused:
  assumes "vec_create 1 (Some t) w = Some (None :: (byte, 'w) vec_t option, w')"
  shows "building_refused t 0"
proof -
  from assms have "\<exists>w2. mem_alloc (Some t) sizeof_vec_t w = Some (None, w2)"
    by (cases "vt_alloc t sizeof_vec_t w") (auto simp: vec_create_def split: option.splits if_splits)
  then show ?thesis by (auto intro: building_refusedI(1) simp: sizeof_vec_t_def simp del: mem_alloc.simps)
qed

lemma vec_push_refused:
  assumes "vec_push (Some v) (Some x) w = Some (SEQC_OOM, Some v, w')" and v: "vec_is t v xs" "v_elem_size v = 1"
  shows "building_refused t (length xs)"
proof -
  from v have f: "v_alloc v = Some t" "v_len v = length xs" "v_cap v \<le> PTRDIFF_MAX" "length xs \<le> v_cap v"
    using vec_is_cap [OF v(1)] by (simp_all add: vec_is_def)
  let ?nc = "if v_cap v = 0 then INITIAL_CAP else wmul (v_cap v) 2"
  let ?q = "map_option blk_addr (v_data v)" and ?m = "wmul (v_len v) 1" and ?n = "wmul ?nc 1"
  have w2: "wmul (v_cap v) 2 = 2 * v_cap v" using f(3) by (simp add: PTRDIFF_MAX_def wmul_exact)
  then have n: "?n = ?nc" using f(3) by (simp add: PTRDIFF_MAX_def INITIAL_CAP_def wmul_exact)
  from assms(1) have "v_cap v = length xs \<and> (\<exists>w2. mem_realloc (Some t) ?q ?m ?n w = Some (None, w2))"
    using f v(2) by (cases "vt_realloc t ?q ?m ?n w")
      (auto simp: vec_push_def vec_push_grow_def block_realloc_def Let_def SIZE_MAX_def PTRDIFF_MAX_def split: if_splits option.splits bind_splits)
  then obtain w2 where r: "mem_realloc (Some t) ?q ?m ?n w = Some (None, w2)" and full: "v_cap v = length xs" by blast
  show ?thesis by (rule building_refusedI(2) [OF r]) (use n w2 full in \<open>simp_all add: INITIAL_CAP_def\<close>)
qed

context heap_allocator begin

lemma strbuf_create_at:
  assumes "live w = R"
  obtains (ok) u w' where "strbuf_create (Some t) w = Some (Some u, w')" and "sb_at t live R w' u []"
  | (oom) w' where "strbuf_create (Some t) w = Some (None, w')" and "live w' = R" and "building_refused t 0"
proof (cases rule: iter_state_alloc [of sizeof_strbuf_t w])
  case (granted a w1)
  have R: "live w1 = R(a \<mapsto> sizeof_strbuf_t)" "a \<notin> dom R" using granted(2) assms by (auto simp: owns_def)
  have es: "elem_size_ok 1" by (simp add: elem_size_ok_def)
  from es R(1) show ?thesis
  proof (cases rule: vec_create_at [where 'e = byte])
    case (ok v w2)
    let ?u = "\<lparr>sb_self = a, sb_chars = Some v, sb_alloc = Some t\<rparr>"
    have "strbuf_create (Some t) w = Some (Some ?u, w2)"
      using granted(1) ok(1) by (simp add: strbuf_create_def del: mem_alloc.simps)
    moreover have "sb_at t live R w2 ?u []" by (rule sb_atI) (use ok(2,3) R(2) in simp_all)
    ultimately show ?thesis by (rule that(1))
  next
    case (oom w2)
    have "owns (live w2) R [a \<mapsto> sizeof_strbuf_t]" using oom(2) R by (auto simp: owns_def)
    then obtain w3 where w3: "mem_free (Some t) (Some a) sizeof_strbuf_t w2 = Some w3" "owns (live w3) R ([a \<mapsto> sizeof_strbuf_t](a := None))"
      by (rule owns_mem_free [where p = a]) (simp_all del: mem_free.simps)
    have "strbuf_create (Some t) w = Some (None, w3)"
      using granted(1) oom(1) w3(1) by (simp add: strbuf_create_def del: mem_alloc.simps mem_free.simps)
    then show ?thesis by (rule that(2)) (use w3(2) vec_create_refused [OF oom(1)] in simp_all)
  qed
next
  case (refused w')
  then have "strbuf_create (Some t) w = Some (None, w')" by (simp add: strbuf_create_def del: mem_alloc.simps)
  moreover have "building_refused t 0" by (rule building_refusedI(1) [OF refused(1)]) (simp_all add: sizeof_strbuf_t_def)
  ultimately show ?thesis by (intro oom [of w']) (use refused(2) assms in simp_all)
qed

lemma strbuf_destroy_at:
  assumes "sb_at t live R w u xs"
  obtains w' where "strbuf_destroy (Some u) w = Some w'" and "live w' = R"
proof -
  from assms obtain v where v: "sb_chars u = Some v" "sb_alloc u = Some t"
    "vec_at t live (R(sb_self u \<mapsto> sizeof_strbuf_t)) w v xs" "sb_self u \<notin> dom R" "v_elem_size v = 1" by (rule sb_atE)
  from v(3) obtain w1 where w1: "vec_destroy (Some v) w = Some w1" "live w1 = R(sb_self u \<mapsto> sizeof_strbuf_t)" by (rule vec_destroy_at)
  have "owns (live w1) R [sb_self u \<mapsto> sizeof_strbuf_t]" using w1(2) v(4) by (auto simp: owns_def)
  then obtain w2 where "mem_free (Some t) (Some (sb_self u)) sizeof_strbuf_t w1 = Some w2"
    "owns (live w2) R ([sb_self u \<mapsto> sizeof_strbuf_t](sb_self u := None))" by (rule owns_mem_free [where p = "sb_self u"]) (simp_all del: mem_free.simps)
  with w1(1) v(1,2) that show ?thesis by (simp add: strbuf_destroy_def del: mem_free.simps)
qed

subsection \<open>Appending\<close>

lemma strbuf_append_char_at:
  assumes "sb_at t live R w u xs"
  obtains (ok) u' w' where "strbuf_append_char (Some u) c w = Some (SEQC_OK, Some u', w')" and "sb_at t live R w' u' (xs @ [c])"
  | (oom) u' w' where "strbuf_append_char (Some u) c w = Some (SEQC_OOM, Some u', w')" and "sb_at t live R w' u' xs"
      and "building_refused t (length xs)"
proof -
  from assms obtain v where v: "sb_chars u = Some v" "sb_alloc u = Some t"
    "vec_at t live (R(sb_self u \<mapsto> sizeof_strbuf_t)) w v xs" "sb_self u \<notin> dom R" "v_elem_size v = 1" by (rule sb_atE)
  from v(3) show ?thesis
  proof (cases rule: vec_push_at [where x = c])
    case (ok v' w')
    have "sb_at t live R w' (u\<lparr>sb_chars := Some v'\<rparr>) (xs @ [c])" by (rule sb_atI) (use v ok in \<open>simp_all add: vec_same_def\<close>)
    with ok(1) v(1) show ?thesis by (intro that(1)) (simp_all add: strbuf_append_char_def)
  next
    case (oom w')
    have "sb_at t live R w' (u\<lparr>sb_chars := Some v\<rparr>) xs" by (rule sb_atI) (use v oom in simp_all)
    moreover have "building_refused t (length xs)"
      by (rule vec_push_refused [OF oom(1)]) (use v in \<open>simp_all add: vec_at_def\<close>)
    ultimately show ?thesis using oom(1) v(1) by (intro that(2)) (simp_all add: strbuf_append_char_def)
  qed
qed

lemma strbuf_append_loop_step:
  "strbuf_append_loop u s i w =
    (if i < str_len s then do {
       c \<leftarrow> char_at (str_ptr s) i;
       (st, sb, w) \<leftarrow> strbuf_append_char (Some u) c w;
       u \<leftarrow> sb;
       if st \<noteq> SEQC_OK then Some (st, Some u, w) else strbuf_append_loop u s (Suc i) w
     } else Some (SEQC_OK, Some u, w))"
  by (cases "char_at (str_ptr s) i"; cases "vec_push (sb_chars u) (Some (the (char_at (str_ptr s) i))) w")
    (auto simp: strbuf_append_loop.simps [of u s i w] strbuf_append_char_def)

lemma strbuf_append_loop_at:
  assumes s: "str_is s ys" and "sb_at t live R w u xs" and "i \<le> length ys"
  shows "\<exists>st u' w' n. strbuf_append_loop u s i w = Some (st, Some u', w') \<and> sb_at t live R w' u' (xs @ take n (drop i ys)) \<and>
    (st = SEQC_OK \<and> i + n = length ys \<or> st = SEQC_OOM \<and> building_refused t (length xs + (length ys - i)))"
  using assms(2,3)
proof (induction "length ys - i" arbitrary: i w u xs)
  case 0
  then show ?case using str_isD(1) [OF s]
    by (intro exI [of _ SEQC_OK] exI [of _ u] exI [of _ w] exI [of _ 0]) (simp add: strbuf_append_loop_step [of u s i w])
next
  case (Suc m)
  then have i: "i < length ys" by simp
  have d: "drop i ys = ys ! i # drop (Suc i) ys" using i by (simp add: Cons_nth_drop_Suc)
  note c = char_at_is [OF s i] str_isD(1) [OF s]
  from Suc.prems(1) show ?case
  proof (cases rule: strbuf_append_char_at [where c = "ys ! i"])
    case (ok u1 w1)
    have "m = length ys - Suc i" "Suc i \<le> length ys" using Suc.hyps(2) i by simp_all
    from Suc.hyps(1) [OF this(1) ok(2) this(2)] obtain st u' w' n where
      r: "strbuf_append_loop u1 s (Suc i) w1 = Some (st, Some u', w')"
      "sb_at t live R w' u' ((xs @ [ys ! i]) @ take n (drop (Suc i) ys))" "st = SEQC_OK \<and> Suc i + n = length ys \<or> st = SEQC_OOM \<and> building_refused t (length (xs @ [ys ! i]) + (length ys - Suc i))" by blast
    have "strbuf_append_loop u s i w = Some (st, Some u', w')"
      using i c ok(1) r(1) by (simp add: strbuf_append_loop_step [of u s i w])
    moreover have "sb_at t live R w' u' (xs @ take (Suc n) (drop i ys))" using r(2) by (simp add: d)
    moreover have eq: "length (xs @ [ys ! i]) + (length ys - Suc i) = length xs + (length ys - i)" using i by simp
    have "st = SEQC_OK \<and> i + Suc n = length ys \<or> st = SEQC_OOM \<and> building_refused t (length xs + (length ys - i))"
      using r(3) unfolding eq by auto
    ultimately show ?thesis
      by (intro exI [of _ st] exI [of _ u'] exI [of _ w'] exI [of _ "Suc n"]) auto
  next
    case (oom u1 w1)
    have "strbuf_append_loop u s i w = Some (SEQC_OOM, Some u1, w1)"
      using i c oom(1) by (simp add: strbuf_append_loop_step [of u s i w])
    moreover have "building_refused t (length xs + (length ys - i))" by (rule building_refused_mono [OF oom(3)]) simp
    ultimately show ?thesis using oom(2)
      by (intro exI [of _ SEQC_OOM] exI [of _ u1] exI [of _ w1] exI [of _ 0]) simp
  qed
qed

lemma strbuf_append_at:
  assumes "sb_at t live R w u xs" and "str_holds s ys"
  obtains (ok) u' w' where "strbuf_append (Some u) s w = Some (SEQC_OK, Some u', w')" and "sb_at t live R w' u' (xs @ ys)"
  | (oom) u' w' n where "strbuf_append (Some u) s w = Some (SEQC_OOM, Some u', w')" and "sb_at t live R w' u' (xs @ take n ys)"
      and "building_refused t (length xs + length ys)"
proof (cases "ys = []")
  case True
  with assms show ?thesis by (intro ok [of u w]) (simp_all add: strbuf_append_def str_holdsD(1))
next
  case False
  then have s: "str_is s ys" using assms(2) by (intro str_holds_is) simp_all
  from strbuf_append_loop_at [OF s assms(1), of 0] obtain st u' w' n where
    r: "strbuf_append_loop u s 0 w = Some (st, Some u', w')" "sb_at t live R w' u' (xs @ take n ys)"
    "st = SEQC_OK \<and> n = length ys \<or> st = SEQC_OOM \<and> building_refused t (length xs + length ys)" by auto
  have "strbuf_append (Some u) s w = Some (st, Some u', w')" using r(1) False str_isD(1) [OF s] by (simp add: strbuf_append_def)
  with r(2,3) that show ?thesis by (cases "st = SEQC_OK") auto
qed

lemma append_bytes_at:
  assumes "sb_at t live R w u xs"
  shows "\<exists>st u' w' n. append_bytes (Some u) ys w = Some (st, Some u', w') \<and> sb_at t live R w' u' (xs @ take n ys) \<and>
    (st = SEQC_OK \<and> n = length ys \<or> st = SEQC_OOM \<and> building_refused t (length xs + length ys))"
  using assms
proof (induction ys arbitrary: w u xs)
  case Nil
  then show ?case by (intro exI [of _ SEQC_OK] exI [of _ u] exI [of _ w] exI [of _ 0]) simp
next
  case (Cons c cs)
  from Cons.prems show ?case
  proof (cases rule: strbuf_append_char_at [where c = c])
    case (ok u1 w1)
    from Cons.IH [OF ok(2)] obtain st u' w' n where
      r: "append_bytes (Some u1) cs w1 = Some (st, Some u', w')" "sb_at t live R w' u' ((xs @ [c]) @ take n cs)"
      "st = SEQC_OK \<and> n = length cs \<or> st = SEQC_OOM \<and> building_refused t (length (xs @ [c]) + length cs)" by blast
    with ok(1) show ?thesis
      by (intro exI [of _ st] exI [of _ u'] exI [of _ w'] exI [of _ "Suc n"]) auto
  next
    case (oom u1 w1)
    from oom(3) have "building_refused t (length xs + length (c # cs))" by (rule building_refused_mono) simp
    with oom show ?thesis
      by (intro exI [of _ SEQC_OOM] exI [of _ u1] exI [of _ w1] exI [of _ 0]) simp
  qed
qed

lemma strbuf_to_string_at:
  assumes "sb_is t u xs"
  shows "\<exists>r w'. strbuf_to_string (Some u) (Some t) w = Some (r, w') \<and> str_made t (live w') (live w) r xs"
  unfolding strbuf_to_string_def by (rule string_copy_at [OF sb_view_is(2) [OF assms]])

end

end
