(* ===== verification/Seqc_Number.thy ===== *)
theory Seqc_Number
  imports Seqc_Strbuf_Laws
begin

section \<open>Numbers as text\<close>

text \<open>
  The decimal digits that \<open>strbuf_append_int\<close> writes and the reading of them in \<open>string_to_int\<close>:
  the digits of a 64-bit number fit the 20 bytes of the local buffer, \<open>strtoll\<close> reads them back,
  and what else \<open>string_to_int\<close> accepts.
\<close>

lemma digits_unfold: "digits n = (if n < 10 then [48 + n] else digits (n div 10) @ [48 + n mod 10])"
  by (rule digits.simps)

lemma digits_not_Nil [simp]: "digits n \<noteq> []"
  by (subst digits_unfold) simp

lemma digits_are_digits: "c \<in> set (digits n) \<Longrightarrow> is_digit c"
proof (induction n rule: digits.induct)
  case (1 n)
  show ?case
  proof (cases "n < 10")
    case True
    with 1(2) have "c = 48 + n" by (subst (asm) digits_unfold) simp
    with True show ?thesis by (simp add: is_digit_def)
  next
    case False
    with 1(2) have "c \<in> set (digits (n div 10)) \<or> c = 48 + n mod 10" by (subst (asm) digits_unfold) auto
    with 1(1) [OF False] show ?thesis by (auto simp: is_digit_def)
  qed
qed

lemma digits_value_snoc: "digits_value (ds @ [c]) = 10 * digits_value ds + (int c - 48)"
  by (simp add: digits_value_def)

lemma digits_value_digits [simp]: "digits_value (digits n) = int n"
proof (induction n rule: digits.induct)
  case (1 n)
  show ?case
  proof (cases "n < 10")
    case True
    then show ?thesis by (subst digits_unfold) (simp add: digits_value_def)
  next
    case False
    then have "digits_value (digits n) = 10 * int (n div 10) + int (n mod 10)"
      using 1 by (subst digits_unfold) (simp add: digits_value_snoc)
    also have "\<dots> = int (10 * (n div 10) + n mod 10)" by (simp only: of_nat_add of_nat_mult of_nat_numeral)
    also have "10 * (n div 10) + n mod 10 = n" by simp
    finally show ?thesis .
  qed
qed

lemma length_digits: "0 < k \<Longrightarrow> n < 10 ^ k \<Longrightarrow> length (digits n) \<le> k"
proof (induction k arbitrary: n)
  case (Suc k)
  show ?case
  proof (cases "n < 10")
    case True
    then show ?thesis by (subst digits_unfold) simp
  next
    case False
    then have "0 < k" using Suc.prems(2) by (cases k) simp_all
    moreover have "n div 10 < 10 ^ k" using Suc.prems(2) by (simp add: less_mult_imp_div_less mult.commute)
    ultimately have "length (digits (n div 10)) \<le> k" by (rule Suc.IH)
    with False show ?thesis by (subst digits_unfold) simp
  qed
qed simp

lemma decimal_bytes: "c \<in> set (decimal v) \<Longrightarrow> is_digit c \<or> c = 45"
  by (auto simp: decimal_def split: if_splits dest: digits_are_digits)

lemma length_decimal:
  assumes "llong v"
  shows "0 < length (decimal v)" and "length (decimal v) \<le> 20"
proof -
  have "\<bar>v\<bar> < 10 ^ 19" using assms by (auto simp: llong_def LLONG_MIN_def LLONG_MAX_def abs_less_iff)
  then have "nat \<bar>v\<bar> < 10 ^ 19" by (simp add: nat_less_iff)
  then have d: "length (digits (nat \<bar>v\<bar>)) \<le> 19" by (rule length_digits [rotated]) simp
  show "length (decimal v) \<le> 20" using d by (cases "v < 0") (simp_all add: decimal_def)
qed (simp add: decimal_def)

subsection \<open>Reading what was written\<close>

lemma take_digits: "takeWhile is_digit (digits n @ [0]) = digits n"
proof -
  have "\<not> is_digit 0" by (simp add: is_digit_def)
  then show ?thesis using digits_are_digits [of _ n] by (simp add: takeWhile_append2)
qed

lemma first_digit: "\<exists>c ds. digits n = c # ds \<and> 48 \<le> c \<and> c \<le> 57"
proof (cases "digits n")
  case (Cons c ds)
  then have "is_digit c" using digits_are_digits [of c n] by simp
  with Cons show ?thesis by (simp add: is_digit_def)
qed simp

lemma c_strtoll_decimal:
  assumes "llong v"
  shows "c_strtoll (decimal v @ [0]) = (v, length (decimal v), False)"
proof (cases "v < 0")
  case True
  have "takeWhile is_space (45 # digits (nat (- v)) @ [0]) = []" "dropWhile is_space (45 # digits (nat (- v)) @ [0]) = 45 # digits (nat (- v)) @ [0]"
    by (simp_all add: is_space_def)
  with True assms show ?thesis by (simp add: c_strtoll_def decimal_def take_digits llong_def Let_def)
next
  case False
  obtain c ds where c: "digits (nat v) = c # ds" "48 \<le> c" "c \<le> 57" using first_digit by blast
  have sp: "takeWhile is_space (digits (nat v) @ [0]) = []" "dropWhile is_space (digits (nat v) @ [0]) = digits (nat v) @ [0]"
    using c by (simp_all add: is_space_def)
  have hd: "hd (digits (nat v) @ [0]) = c" using c(1) by simp
  show ?thesis using False assms c(2,3) by (simp add: c_strtoll_def decimal_def sp hd take_digits llong_def Let_def)
qed

lemma string_to_int_decimal:
  assumes "str_holds s (decimal v)" and "llong v"
  shows "string_to_int s = Some (True, Some v)"
proof -
  note l = length_decimal [OF assms(2)]
  have s: "str_is s (decimal v)" using assms(1) l(1) by (intro str_holds_is) auto
  obtain q where "str_ptr s = Some q" using str_isD(3) [OF s] by auto
  with mem_bytes_is [OF s le_refl] l str_isD(1) [OF s] show ?thesis
    by (simp add: string_to_int_def c_strtoll_decimal [OF assms(2)])
qed

text \<open>
  What else is accepted: leading blanks, a plus sign, and anything behind a NUL.
\<close>

lemma string_to_int_lenient:
  "str_is s [32, 43, 55] \<Longrightarrow> string_to_int s = Some (True, Some 7)"
  "str_is s [55, 0, 120] \<Longrightarrow> string_to_int s = Some (True, Some 7)"
proof -
  have a: "c_strtoll [32, 43, 55, 0] = (7, 3, False)" "c_strtoll [55, 0, 120, 0] = (7, 1, False)"
    by (simp_all add: c_strtoll_def is_space_def is_digit_def digits_value_def LLONG_MAX_def LLONG_MIN_def)
  have r: "string_to_int s = (let (val, en, erange) = c_strtoll (xs @ [0]) in
      if en = 0 \<or> (xs @ [0]) ! en \<noteq> 0 \<or> erange then Some (False, None) else Some (True, Some val))"
    if h: "str_is s xs" "xs \<noteq> []" "length xs < 24" for xs
  proof -
    obtain q where "str_ptr s = Some q" using str_isD(3) [OF h(1)] by auto
    with mem_bytes_is [OF h(1) le_refl] str_isD(1) [OF h(1)] h(2,3) show ?thesis by (simp add: string_to_int_def Let_def)
  qed
  show "string_to_int s = Some (True, Some 7)" if "str_is s [32, 43, 55]" using r [OF that] a by simp
  show "string_to_int s = Some (True, Some 7)" if "str_is s [55, 0, 120]" using r [OF that] a by simp
qed

subsection \<open>Writing\<close>

lemma stack_string_is:
  assumes "llong v"
  shows "points_to (Some (stack_string a (decimal v))) (decimal v @ [0])"
proof -
  have "take 31 (decimal v) = decimal v" using length_decimal(2) [OF assms] by simp
  then show ?thesis by (simp add: points_to_def stack_string_def)
qed

context heap_allocator begin

lemma strbuf_append_int_at:
  assumes "sb_at t live R w u xs" and v: "llong v"
  obtains (ok) u' w' where "strbuf_append_int a (Some u) v w = Some (SEQC_OK, Some u', w')" and "sb_at t live R w' u' (xs @ decimal v)"
  | (oom) u' w' n where "strbuf_append_int a (Some u) v w = Some (SEQC_OOM, Some u', w')" and "sb_at t live R w' u' (xs @ take n (decimal v))"
      and "building_refused t (length xs + length (decimal v))"
proof -
  have nz: "\<forall>x \<in> set (decimal v). x \<noteq> 0" using decimal_bytes [of _ v] by (fastforce simp: is_digit_def)
  have "length (decimal v) \<le> PTRDIFF_MAX" using length_decimal(2) [OF v] by (simp add: PTRDIFF_MAX_def)
  from string_view_cstr_is [OF stack_string_is [OF v] nz this, of a] obtain r where
    r: "string_view_cstr (Some (stack_string a (decimal v))) = Some r" "str_is r (decimal v)" by blast
  have go: "strbuf_append_int a (Some u) v w = strbuf_append (Some u) r w"
    using length_decimal(1) [OF v] r(1) by (simp add: strbuf_append_int_def strbuf_append_cstr_def)
  from assms(1) str_is_holds [OF r(2)] show ?thesis
    by (cases rule: strbuf_append_at) (use go that in auto)
qed

end

end
