(* ===== verification/Seqc_Strbuf_Lifetime.thy ===== *)
theory Seqc_Strbuf_Lifetime
  imports Seqc_Lifetime Seqc_Number
begin

section \<open>Whole programs over a string builder\<close>

text \<open>
  The calls of a client between \<open>strbuf_create\<close> and \<open>strbuf_destroy\<close>. \<open>SInt\<close> carries the address of
  the buffer on the stack, \<open>SFmt\<close> what \<open>vsnprintf\<close> produced, and \<open>SView\<close> reads the bytes of the view.
\<close>

datatype strbuf_op = SAppend string_t | SCstr "char_ptr option" | SChar byte | SInt addr int | SFmt "byte list option"
  | STruncate size_t | SClean | SLength | SEmpty | SView

datatype strbuf_answer = Status seqc_status_t | Void | Size size_t | Flag bool | Bytes "byte list"

definition view_bytes :: "string_t \<Rightarrow> byte list option" where
  "view_bytes s = (if str_len s = 0 then Some [] else mem_bytes (str_ptr s) (str_len s))"

definition status_of :: "(seqc_status_t \<times> 'w strbuf_t option \<times> 'w) option \<Rightarrow> (strbuf_answer \<times> 'w strbuf_t option \<times> 'w) option" where
  "status_of r = do { (st, sb, w) \<leftarrow> r; Some (Status st, sb, w) }"

fun strbuf_call :: "strbuf_op \<Rightarrow> 'w strbuf_t option \<Rightarrow> 'w \<Rightarrow> (strbuf_answer \<times> 'w strbuf_t option \<times> 'w) option" where
  "strbuf_call (SAppend s) sb w = status_of (strbuf_append sb s w)"
| "strbuf_call (SCstr s) sb w = status_of (strbuf_append_cstr sb s w)"
| "strbuf_call (SChar c) sb w = status_of (strbuf_append_char sb c w)"
| "strbuf_call (SInt a v) sb w = status_of (strbuf_append_int a sb v w)"
| "strbuf_call (SFmt f) sb w = status_of (strbuf_append_fmt sb f w)"
| "strbuf_call (STruncate n) sb w = Some (Void, strbuf_truncate sb n, w)"
| "strbuf_call SClean sb w = Some (Void, strbuf_clear sb, w)"
| "strbuf_call SLength sb w = do { n \<leftarrow> strbuf_len sb; Some (Size n, sb, w) }"
| "strbuf_call SEmpty sb w = Some (Flag (strbuf_is_empty sb), sb, w)"
| "strbuf_call SView sb w = do { xs \<leftarrow> view_bytes (strbuf_view sb); Some (Bytes xs, sb, w) }"

text \<open>
  Appending stores everything, or answers \<open>SEQC_OOM\<close> with a prefix stored, and that only if the
  allocator refuses a request of the size that was needed.
\<close>

definition appends :: "'w vtable \<Rightarrow> byte list \<Rightarrow> byte list \<Rightarrow> strbuf_answer \<Rightarrow> byte list \<Rightarrow> bool" where
  "appends t ys xs r xs' \<longleftrightarrow>
     r = Status SEQC_OK \<and> xs' = xs @ ys \<or>
     r = Status SEQC_OOM \<and> (\<exists>n. xs' = xs @ take n ys) \<and> building_refused t (length xs + length ys)"

fun strbuf_spec :: "'w vtable \<Rightarrow> strbuf_op \<Rightarrow> byte list \<Rightarrow> strbuf_answer \<Rightarrow> byte list \<Rightarrow> bool" where
  "strbuf_spec t (SAppend s) xs r xs' \<longleftrightarrow> (\<exists>ys. str_holds s ys \<and> appends t ys xs r xs')"
| "strbuf_spec t (SCstr p) xs r xs' \<longleftrightarrow>
     (case p of
        None \<Rightarrow> r = Status SEQC_OK \<and> xs' = xs
      | Some q \<Rightarrow> \<exists>ys. points_to p (ys @ [0]) \<and> 0 \<notin> set ys \<and> appends t ys xs r xs')"
| "strbuf_spec t (SChar c) xs r xs' \<longleftrightarrow> appends t [c] xs r xs'"
| "strbuf_spec t (SInt a v) xs r xs' \<longleftrightarrow> appends t (decimal v) xs r xs'"
| "strbuf_spec t (SFmt f) xs r xs' \<longleftrightarrow> appends t (case f of None \<Rightarrow> [] | Some ys \<Rightarrow> ys) xs r xs'"
| "strbuf_spec t (STruncate n) xs r xs' \<longleftrightarrow> r = Void \<and> xs' = take n xs"
| "strbuf_spec t SClean xs r xs' \<longleftrightarrow> r = Void \<and> xs' = []"
| "strbuf_spec t SLength xs r xs' \<longleftrightarrow> r = Size (length xs) \<and> xs' = xs"
| "strbuf_spec t SEmpty xs r xs' \<longleftrightarrow> r = Flag (xs = []) \<and> xs' = xs"
| "strbuf_spec t SView xs r xs' \<longleftrightarrow> r = Bytes xs \<and> xs' = xs"

text \<open>The arguments a client may pass: strings that hold bytes, C strings with their NUL, 64-bit numbers.\<close>

fun strbuf_legal :: "strbuf_op \<Rightarrow> bool" where
  "strbuf_legal (SAppend s) \<longleftrightarrow> (\<exists>ys. str_holds s ys)"
| "strbuf_legal (SCstr p) \<longleftrightarrow> (p \<noteq> None \<longrightarrow> (\<exists>ys. points_to p (ys @ [0]) \<and> 0 \<notin> set ys \<and> length ys \<le> PTRDIFF_MAX))"
| "strbuf_legal (SInt a v) \<longleftrightarrow> llong v"
| "strbuf_legal _ \<longleftrightarrow> True"

lemma view_bytes_is: "str_holds s xs \<Longrightarrow> view_bytes s = Some xs"
  using str_holdsD(1) [of s xs] mem_bytes_is [of s xs "length xs"]
  by (cases "xs = []") (simp_all add: view_bytes_def str_holds_is)

context heap_allocator begin

lemma appendsI:
  "st = SEQC_OK \<and> n = length ys \<or> st = SEQC_OOM \<and> building_refused t (length xs + length ys) \<Longrightarrow>
   appends t ys xs (Status st) (xs @ take n ys)"
  by (auto simp: appends_def)

lemma append_call:
  assumes "sb_at t live R w u xs" and "str_holds s ys"
  shows "\<exists>r u' w' xs'. status_of (strbuf_append (Some u) s w) = Some (r, Some u', w') \<and> appends t ys xs r xs' \<and> sb_at t live R w' u' xs'"
  using assms
proof (cases rule: strbuf_append_at)
  case (ok u' w')
  then show ?thesis by (auto simp: status_of_def appends_def)
next
  case (oom u' w' n)
  then show ?thesis by (fastforce simp: status_of_def appends_def)
qed

lemma append_fmt_call:
  assumes "sb_at t live R w u xs"
  shows "\<exists>r u' w' xs'. status_of (strbuf_append_fmt (Some u) (Some ys) w) = Some (r, Some u', w') \<and> appends t ys xs r xs' \<and>
    sb_at t live R w' u' xs'"
proof -
  consider "ys = []" | "ys \<noteq> []" "length ys + 1 \<le> 256" | "ys \<noteq> []" "length ys + 1 > 256" by linarith
  then show ?thesis
  proof cases
    case 1
    with assms show ?thesis by (simp add: strbuf_append_fmt_def status_of_def appends_def)
  next
    case 2
    then have go: "strbuf_append_fmt (Some u) (Some ys) w = append_bytes (Some u) ys w" by (simp add: strbuf_append_fmt_def)
    from append_bytes_at [OF assms, of ys] obtain st u' w' n where
      r: "append_bytes (Some u) ys w = Some (st, Some u', w')" "sb_at t live R w' u' (xs @ take n ys)"
      "st = SEQC_OK \<and> n = length ys \<or> st = SEQC_OOM \<and> building_refused t (length xs + length ys)" by blast
    from go r(1) have "status_of (strbuf_append_fmt (Some u) (Some ys) w) = Some (Status st, Some u', w')" by (simp add: status_of_def)
    with r(2) appendsI [OF r(3)] show ?thesis by blast
  next
    case 3
    from assms have al: "sb_alloc u = Some t" by (auto simp: sb_at_def sb_is_def)
    have o: "owns (live w) R (sb_blocks u)" using assms by (simp add: sb_at_def)
    have go: "strbuf_append_fmt (Some u) (Some ys) w = do {
        (buf, w) \<leftarrow> mem_alloc (Some t) (length ys + 1) w;
        case buf of
          None \<Rightarrow> Some (SEQC_OOM, Some u, w)
        | Some a \<Rightarrow> do {
            (st, sb, w) \<leftarrow> append_bytes (Some u) ys w;
            w \<leftarrow> mem_free (Some t) (Some a) (length ys + 1) w;
            Some (st, sb, w) } }" using 3 by (simp add: strbuf_append_fmt_def al del: mem_alloc.simps mem_free.simps cong: option.case_cong)
    show ?thesis
    proof (cases rule: iter_state_alloc [of "length ys + 1" w])
      case (refused w')
      have "building_refused t (length xs + length ys)"
        by (rule building_refusedI(1) [OF refused(1)]) simp_all
      then have "appends t ys xs (Status SEQC_OOM) (xs @ take 0 ys)" by (intro appendsI) simp
      moreover have "sb_at t live R w' u (xs @ take 0 ys)" using assms refused(2) by (simp add: sb_at_def)
      moreover have "status_of (strbuf_append_fmt (Some u) (Some ys) w) = Some (Status SEQC_OOM, Some u, w')"
        using go refused(1) by (simp add: status_of_def del: mem_alloc.simps)
      ultimately show ?thesis by blast
    next
      case (granted a w1)
      let ?n = "length ys + 1"
      have o2: "owns2 (live w1) R (sb_blocks u) [a \<mapsto> ?n]" by (rule owns2I [OF o granted(2)])
      have "sb_at t live (R ++ [a \<mapsto> ?n]) w1 u xs" using assms owns2_left [OF o2] by (simp add: sb_at_def)
      from append_bytes_at [OF this, of ys] obtain st u' w2 n where
        r: "append_bytes (Some u) ys w1 = Some (st, Some u', w2)" "sb_at t live (R ++ [a \<mapsto> ?n]) w2 u' (xs @ take n ys)"
        "st = SEQC_OK \<and> n = length ys \<or> st = SEQC_OOM \<and> building_refused t (length xs + length ys)" by blast
      have o3: "owns2 (live w2) R (sb_blocks u') [a \<mapsto> ?n]"
        by (rule owns2_step_left [OF o2]) (use r(2) in \<open>simp add: sb_at_def\<close>)
      obtain w3 where w3: "mem_free (Some t) (Some a) ?n w2 = Some w3" "live w3 = R ++ sb_blocks u'"
        by (rule release_one [OF owns2_right [OF o3]])
      have "sb_at t live R w3 u' (xs @ take n ys)" using r(2) owns2_close_right [OF o3 w3(2)] by (simp add: sb_at_def)
      moreover have "status_of (strbuf_append_fmt (Some u) (Some ys) w) = Some (Status st, Some u', w3)"
        using go granted(1) r(1) w3(1) by (simp add: status_of_def del: mem_alloc.simps mem_free.simps)
      ultimately show ?thesis using appendsI [OF r(3)] by blast
    qed
  qed
qed

lemma cstr_call:
  assumes "sb_at t live R w u xs" and "points_to (Some q) (ys @ [0])" and "0 \<notin> set ys" and "length ys \<le> PTRDIFF_MAX"
  shows "\<exists>r u' w' xs'. status_of (strbuf_append_cstr (Some u) (Some q) w) = Some (r, Some u', w') \<and> appends t ys xs r xs' \<and>
    sb_at t live R w' u' xs'"
proof -
  have "\<forall>x \<in> set ys. x \<noteq> 0" using assms(3) by metis
  from string_view_cstr_is [OF assms(2) this assms(4)] obtain v where
    v: "string_view_cstr (Some q) = Some v" "str_is v ys" by blast
  then have "strbuf_append_cstr (Some u) (Some q) w = strbuf_append (Some u) v w" by (simp add: strbuf_append_cstr_def)
  with append_call [OF assms(1) str_is_holds [OF v(2)]] show ?thesis by simp
qed

lemma int_call:
  assumes "sb_at t live R w u xs" and "llong v"
  shows "\<exists>r u' w' xs'. status_of (strbuf_append_int a (Some u) v w) = Some (r, Some u', w') \<and> appends t (decimal v) xs r xs' \<and>
    sb_at t live R w' u' xs'"
  using assms
proof (cases rule: strbuf_append_int_at [where a = a])
  case (ok u' w')
  then show ?thesis by (auto simp: status_of_def appends_def)
next
  case (oom u' w' n)
  then show ?thesis by (fastforce simp: status_of_def appends_def)
qed

lemma char_call:
  assumes "sb_at t live R w u xs"
  shows "\<exists>r u' w' xs'. status_of (strbuf_append_char (Some u) c w) = Some (r, Some u', w') \<and> appends t [c] xs r xs' \<and>
    sb_at t live R w' u' xs'"
  using assms
proof (cases rule: strbuf_append_char_at [where c = c])
  case (ok u' w')
  then show ?thesis by (auto simp: status_of_def appends_def)
next
  case (oom u' w')
  have "building_refused t (length xs + length [c])" by (rule building_refused_mono [OF oom(3)]) simp
  then have "appends t [c] xs (Status SEQC_OOM) (xs @ take 0 [c])" by (intro appendsI) simp
  with oom(1,2) show ?thesis by (auto simp: status_of_def)
qed

text \<open>Shortening keeps the vector's buffer.\<close>

lemma strbuf_truncate_at:
  assumes "sb_at t live R w u xs"
  obtains u' where "strbuf_truncate (Some u) n = Some u'" and "sb_at t live R w u' (take n xs)"
proof -
  from assms obtain v where v: "sb_chars u = Some v" "sb_alloc u = Some t"
    "vec_at t live (R(sb_self u \<mapsto> sizeof_strbuf_t)) w v xs" "sb_self u \<notin> dom R" "v_elem_size v = 1" by (rule sb_atE)
  from v(3) obtain v' where v': "vec_truncate (Some v) n = Some v'"
    "vec_at t live (R(sb_self u \<mapsto> sizeof_strbuf_t)) w v' (take n xs)" "vec_same v v'" by (rule vec_truncate_at)
  have "sb_at t live R w (u\<lparr>sb_chars := Some v'\<rparr>) (take n xs)"
    by (rule sb_atI) (use v v' in \<open>simp_all add: vec_same_def\<close>)
  moreover have "strbuf_truncate (Some u) n = Some (u\<lparr>sb_chars := Some v'\<rparr>)" using v(1) v'(1) by (simp add: strbuf_truncate_def)
  ultimately show ?thesis by (rule that [rotated])
qed

lemma strbuf_clear_at:
  assumes "sb_at t live R w u xs"
  obtains u' where "strbuf_clear (Some u) = Some u'" and "sb_at t live R w u' []"
proof -
  from assms obtain v where v: "sb_chars u = Some v" "sb_alloc u = Some t"
    "vec_at t live (R(sb_self u \<mapsto> sizeof_strbuf_t)) w v xs" "sb_self u \<notin> dom R" "v_elem_size v = 1" by (rule sb_atE)
  have "sb_at t live R w (u\<lparr>sb_chars := Some (v\<lparr>v_len := 0\<rparr>)\<rparr>) []"
    by (rule sb_atI) (use v vec_clear_at [OF v(3)] in simp_all)
  moreover have "strbuf_clear (Some u) = Some (u\<lparr>sb_chars := Some (v\<lparr>v_len := 0\<rparr>)\<rparr>)"
    using v(1) by (simp add: strbuf_clear_def vec_clear_def)
  ultimately show ?thesis by (rule that [rotated])
qed

lemma strbuf_reads:
  assumes "sb_is t u xs"
  shows "strbuf_len (Some u) = Some (length xs)" and "strbuf_is_empty (Some u) = (xs = [])"
    and "view_bytes (strbuf_view (Some u)) = Some xs"
  using assms view_bytes_is [OF sb_view_is(2) [OF assms]]
  by (auto simp: strbuf_len_def strbuf_is_empty_def sb_is_def vec_is_def vec_len_def vec_is_empty_def)

lemma strbuf_call_law:
  assumes at: "sb_at t live R w u xs" and "strbuf_legal p"
  shows "\<exists>r u' w' xs'. strbuf_call p (Some u) w = Some (r, Some u', w') \<and> strbuf_spec t p xs r xs' \<and> sb_at t live R w' u' xs'"
proof (cases p)
  case (SAppend s)
  with assms(2) obtain ys where ys: "str_holds s ys" by auto
  from append_call [OF at ys] obtain r u' w' xs' where
    "status_of (strbuf_append (Some u) s w) = Some (r, Some u', w')" "appends t ys xs r xs'" "sb_at t live R w' u' xs'" by blast
  with SAppend ys show ?thesis by auto
next
  case (SCstr q)
  show ?thesis
  proof (cases q)
    case None
    then show ?thesis using SCstr at
      by (simp add: strbuf_append_cstr_def string_view_cstr_def string_null_def strbuf_append_def status_of_def)
  next
    case (Some c)
    with assms(2) SCstr obtain ys where ys: "points_to (Some c) (ys @ [0])" "0 \<notin> set ys" "length ys \<le> PTRDIFF_MAX" by auto
    from cstr_call [OF at ys] obtain r u' w' xs' where
      "status_of (strbuf_append_cstr (Some u) (Some c) w) = Some (r, Some u', w')" "appends t ys xs r xs'" "sb_at t live R w' u' xs'" by blast
    with SCstr Some ys show ?thesis by auto
  qed
next
  case (SChar c)
  from char_call [OF at] SChar show ?thesis by simp
next
  case (SInt a v)
  with int_call [OF at, of v a] assms(2) show ?thesis by simp
next
  case (SFmt f)
  show ?thesis
  proof (cases f)
    case None
    then show ?thesis using SFmt at by (simp add: strbuf_append_fmt_def status_of_def appends_def)
  next
    case (Some ys)
    with append_fmt_call [OF at, of ys] SFmt show ?thesis by simp
  qed
next
  case (STruncate n)
  from at obtain u' where "strbuf_truncate (Some u) n = Some u'" "sb_at t live R w u' (take n xs)" by (rule strbuf_truncate_at)
  then show ?thesis using STruncate by simp
next
  case SClean
  from at obtain u' where "strbuf_clear (Some u) = Some u'" "sb_at t live R w u' []" by (rule strbuf_clear_at)
  then show ?thesis using SClean by simp
qed (use at strbuf_reads [of u xs] in \<open>simp_all add: sb_at_def\<close>)

lemma strbuf_lifetime_laws:
  "lifetime_laws t live (strbuf_create (Some t)) (on_handle strbuf_call) (\<lambda>u. strbuf_destroy (Some u))
    (strbuf_spec t) [] strbuf_legal (sb_at t live)"
proof unfold_locales
  fix w
  show "\<exists>c w'. strbuf_create (Some t) w = Some (c, w') \<and>
      (case c of None \<Rightarrow> live w' = live w \<and> starved (Some t) | Some c \<Rightarrow> sb_at t live (live w) w' c [])"
    by (cases rule: strbuf_create_at [OF refl, of w])
      (auto simp: building_refused_def elim: starved_small)
next
  fix R w p and u :: "'w strbuf_t" and xs
  assume "sb_at t live R w u xs" "strbuf_legal p"
  then show "\<exists>r u' w' xs'. on_handle strbuf_call p u w = Some (r, u', w') \<and> strbuf_spec t p xs r xs' \<and> sb_at t live R w' u' xs'"
    using strbuf_call_law [of R w u xs p] by (fastforce intro: on_handleI)
next
  fix R w and u :: "'w strbuf_t" and xs
  assume "sb_at t live R w u xs"
  then show "\<exists>w'. strbuf_destroy (Some u) w = Some w' \<and> live w' = R" by (rule strbuf_destroy_at) blast
qed

end

interpretation sys_strbuf_life: lifetime_laws sys_allocator hp_live "strbuf_create (Some sys_allocator)"
  "on_handle strbuf_call" "\<lambda>u. strbuf_destroy (Some u)" "strbuf_spec sys_allocator" "[]" strbuf_legal "sb_at sys_allocator hp_live"
  by (rule sys.strbuf_lifetime_laws)

end
