(* ===== verification/Seqc_Split.thy ===== *)
theory Seqc_Split
  imports Seqc_String
begin

section \<open>Splitting a string\<close>

text \<open>\<open>string_split_substr\<close> and \<open>string_split_any\<close>: an iterator of views into the string.\<close>

record split_state_t =
  sp_self :: addr
  sp_src :: string_t
  sp_delim :: string_t
  sp_pos :: size_t
  sp_anychar :: bool

definition sizeof_split_state_t :: size_t where
  "sizeof_split_state_t = 48"

lemma sizeof_split_state_t_small [simp]: "sizeof_split_state_t \<le> 256"
  by (simp add: sizeof_split_state_t_def)

function charset_has :: "string_t \<Rightarrow> byte \<Rightarrow> size_t \<Rightarrow> bool option" where
  "charset_has cset c j =
     (if j < str_len cset then do {
        d \<leftarrow> char_at (str_ptr cset) j;
        if c = d then Some True else charset_has cset c (Suc j)
      } else Some False)"
  by pat_completeness auto
termination
  by (relation "measure (\<lambda>(cset, c, j). str_len cset - j)") auto

function charset_find_loop :: "string_t \<Rightarrow> string_t \<Rightarrow> size_t \<Rightarrow> size_t option" where
  "charset_find_loop s cset i =
     (if i < str_len s then do {
        hit \<leftarrow> (if str_len cset = 0 then Some False else do { c \<leftarrow> char_at (str_ptr s) i; charset_has cset c 0 });
        if hit then Some i else charset_find_loop s cset (Suc i)
      } else Some STRING_NOT_FOUND)"
  by pat_completeness auto
termination
  by (relation "measure (\<lambda>(s, cset, i). str_len s - i)") auto

definition charset_find :: "string_t \<Rightarrow> string_t \<Rightarrow> size_t option" where
  "charset_find s cset = charset_find_loop s cset 0"

declare charset_has.simps [simp del] charset_find_loop.simps [simp del]

definition split_next :: "split_state_t \<Rightarrow> 'w \<Rightarrow> (string_t option \<times> split_state_t \<times> 'w) option" where
  "split_next s w =
     (if sp_pos s > str_len (sp_src s) then Some (None, s, w)
      else do {
        p \<leftarrow> ptr_add (str_ptr (sp_src s)) (sp_pos s);
        let remaining = \<lparr>str_ptr = p, str_len = str_len (sp_src s) - sp_pos s\<rparr>;
        off \<leftarrow> (if str_len (sp_delim s) > 0
                then if sp_anychar s then charset_find remaining (sp_delim s) else string_find remaining (sp_delim s)
                else Some STRING_NOT_FOUND);
        let blen = (if str_len (sp_delim s) > 0 \<and> sp_anychar s then 1 else str_len (sp_delim s));
        if off = STRING_NOT_FOUND then Some (Some remaining, s\<lparr>sp_pos := wadd (str_len (sp_src s)) 1\<rparr>, w)
        else Some (Some \<lparr>str_ptr = str_ptr remaining, str_len = off\<rparr>, s\<lparr>sp_pos := wadd (sp_pos s) (wadd off blen)\<rparr>, w)
      })"

definition split_drop :: "'w allocator_t \<Rightarrow> split_state_t \<Rightarrow> 'w \<Rightarrow> 'w option" where
  "split_drop al s w = mem_free al (Some (sp_self s)) sizeof_split_state_t w"

definition split_make ::
  "string_t \<Rightarrow> string_t \<Rightarrow> bool \<Rightarrow> 'w allocator_t \<Rightarrow> 'w \<Rightarrow> ((string_t, split_state_t, 'w) iter_t \<times> 'w) option" where
  "split_make s delim anychar al w = do {
     (p, w) \<leftarrow> mem_alloc al sizeof_split_state_t w;
     case p of
       None \<Rightarrow> Some (iter_zero, w)
     | Some a \<Rightarrow> Some (iter_make split_next (split_drop al)
         \<lparr>sp_self = a, sp_src = s, sp_delim = delim, sp_pos = 0, sp_anychar = anychar\<rparr> sizeof_string_t al, w)
   }"

definition string_split_substr ::
  "string_t \<Rightarrow> string_t \<Rightarrow> 'w allocator_t \<Rightarrow> 'w \<Rightarrow> ((string_t, split_state_t, 'w) iter_t \<times> 'w) option" where
  "string_split_substr s delim = split_make s delim False"

definition string_split_any ::
  "string_t \<Rightarrow> string_t \<Rightarrow> 'w allocator_t \<Rightarrow> 'w \<Rightarrow> ((string_t, split_state_t, 'w) iter_t \<times> 'w) option" where
  "string_split_any s cset = split_make s cset True"

end
