(* ===== verification/Seqc_Split_Laws.thy ===== *)
theory Seqc_Split_Laws
  imports Seqc_Split Seqc_String_Make
begin

section \<open>Pieces\<close>

text \<open>
  A boundary finder says where the first boundary of a list is, and how long; \<open>pieces\<close> are what
  stands between the boundaries.
\<close>

function pieces :: "('a list \<Rightarrow> (nat \<times> nat) option) \<Rightarrow> 'a list \<Rightarrow> 'a list list" where
  "pieces bd xs =
     (case bd xs of
        None \<Rightarrow> [xs]
      | Some (i, n) \<Rightarrow> if 0 < n \<and> i + n \<le> length xs then take i xs # pieces bd (drop (i + n) xs) else [xs])"
  by pat_completeness auto
termination
  by (relation "measure (\<lambda>(bd, xs). length xs)") auto

declare pieces.simps [simp del]

definition boundary :: "bool \<Rightarrow> 'a list \<Rightarrow> 'a list \<Rightarrow> (nat \<times> nat) option" where
  "boundary anychar d xs =
     (if d = [] then None
      else if anychar then map_option (\<lambda>i. (i, 1)) (first_index (\<lambda>x. x \<in> set d) xs)
      else map_option (\<lambda>i. (i, length d)) (find_sub d xs))"

definition join_with :: "'a list \<Rightarrow> 'a list list \<Rightarrow> 'a list" where
  "join_with sep ys = (case ys of [] \<Rightarrow> [] | y # zs \<Rightarrow> y @ concat (map (\<lambda>z. sep @ z) zs))"

lemma boundary_Some:
  assumes "boundary anychar d xs = Some (i, n)"
  shows "0 < n" and "i + n \<le> length xs" and "n \<le> length d"
  using assms find_sub_Some(1) [of d xs i] first_index_Some [of _ xs i]
  by (auto simp: boundary_def Suc_le_eq split: if_splits)

lemma pieces_None: "bd xs = None \<Longrightarrow> pieces bd xs = [xs]"
  by (simp add: pieces.simps)

lemma pieces_Some:
  "boundary anychar d xs = Some (i, n) \<Longrightarrow>
   pieces (boundary anychar d) xs = take i xs # pieces (boundary anychar d) (drop (i + n) xs)"
  using boundary_Some [of anychar d xs i n] by (simp add: pieces.simps [of _ xs])

lemma pieces_not_Nil [simp]: "pieces bd xs \<noteq> []"
  by (subst pieces.simps) (simp split: option.splits)

lemma join_with_Cons: "zs \<noteq> [] \<Longrightarrow> join_with sep (y # zs) = y @ sep @ join_with sep zs"
  by (cases zs) (simp_all add: join_with_def)

lemma join_with_single [simp]: "join_with sep [y] = y"
  by (simp add: join_with_def)

text \<open>Joining the pieces with what separated them gives the list back, and no piece contains it.\<close>

lemma join_pieces: "join_with d (pieces (boundary False d) xs) = xs"
proof (induction "length xs" arbitrary: xs rule: less_induct)
  case less
  show ?case
  proof (cases "boundary False d xs")
    case (Some q)
    then obtain i n where b: "boundary False d xs = Some (i, n)" by (cases q) simp
    then have i: "find_sub d xs = Some i" "n = length d" "d \<noteq> []" by (auto simp: boundary_def split: if_splits)
    note bb = boundary_Some [OF b]
    have IH: "join_with d (pieces (boundary False d) (drop (i + n) xs)) = drop (i + n) xs"
      by (rule less.hyps) (use bb in simp)
    have "take i xs @ d @ drop (i + n) xs = xs"
      using find_sub_Some(2) [OF i(1)] i(2) append_take_drop_id [of i xs] append_take_drop_id [of "length d" "drop i xs"]
      by (metis add.commute drop_drop)
    then show ?thesis by (simp add: pieces_Some [OF b] join_with_Cons IH)
  qed (simp add: pieces_None)
qed

lemma find_sub_take:
  assumes "find_sub d xs = Some i" and "d \<noteq> []"
  shows "find_sub d (take i xs) = None"
proof (rule ccontr)
  assume "find_sub d (take i xs) \<noteq> None"
  then obtain j where j: "find_sub d (take i xs) = Some j" by blast
  have l: "j + length d \<le> i" using find_sub_Some(1) [OF j] by simp
  have "take (length d) (drop j (take i xs)) = take (length d) (drop j xs)" using l by (simp add: drop_take min_def)
  then have "take (length d) (drop j xs) = d" using find_sub_Some(2) [OF j] by simp
  moreover have "0 < length d" using assms(2) by simp
  then have "j < i" using l by linarith
  ultimately show False using find_sub_Some(3) [OF assms(1)] by blast
qed

lemma pieces_clean:
  "d \<noteq> [] \<Longrightarrow> y \<in> set (pieces (boundary False d) xs) \<Longrightarrow> find_sub d y = None"
proof (induction "length xs" arbitrary: xs rule: less_induct)
  case less
  show ?case
  proof (cases "boundary False d xs")
    case None
    then have "find_sub d xs = None" using less.prems(1) by (simp add: boundary_def)
    with less.prems(2) None show ?thesis by (simp add: pieces_None)
  next
    case (Some q)
    then obtain i n where b: "boundary False d xs = Some (i, n)" by (cases q) simp
    then have i: "find_sub d xs = Some i" using less.prems(1) by (auto simp: boundary_def)
    from less.prems(2) consider "y = take i xs" | "y \<in> set (pieces (boundary False d) (drop (i + n) xs))"
      by (auto simp: pieces_Some [OF b])
    then show ?thesis
    proof cases
      case 1
      with find_sub_take [OF i less.prems(1)] show ?thesis by simp
    next
      case 2
      show ?thesis by (rule less.hyps [OF _ less.prems(1) 2]) (use boundary_Some [OF b] in simp)
    qed
  qed
qed

section \<open>The splitting iterators\<close>

lemma charset_has_is:
  assumes s: "str_is cset cs" and "j \<le> length cs"
  shows "charset_has cset c j = Some (c \<in> set (drop j cs))"
  using assms(2)
proof (induction "length cs - j" arbitrary: j)
  case 0
  then show ?case using str_isD(1) [OF s] by (simp add: charset_has.simps [of cset c j])
next
  case (Suc n)
  then have j: "j < length cs" by simp
  have "drop j cs = cs ! j # drop (Suc j) cs" using j by (simp add: Cons_nth_drop_Suc)
  moreover have "charset_has cset c (Suc j) = Some (c \<in> set (drop (Suc j) cs))"
    by (rule Suc.hyps(1)) (use Suc.hyps(2) j in simp_all)
  ultimately show ?case using j char_at_is [OF s j] str_isD(1) [OF s] by (simp add: charset_has.simps [of cset c j])
qed

lemma charset_find_loop_is:
  assumes s: "str_is s xs" and c: "str_is cset cs" "cs \<noteq> []" and "i \<le> length xs"
  shows "charset_find_loop s cset i = Some (found (map_option (\<lambda>k. i + k) (first_index (\<lambda>x. x \<in> set cs) (drop i xs))))"
  using assms(4)
proof (induction "length xs - i" arbitrary: i)
  case 0
  then show ?case using str_isD(1) [OF s] by (simp add: charset_find_loop.simps [of s cset i])
next
  case (Suc n)
  then have i: "i < length xs" by simp
  have d: "drop i xs = xs ! i # drop (Suc i) xs" using i by (simp add: Cons_nth_drop_Suc)
  have "charset_find_loop s cset (Suc i) = Some (found (map_option (\<lambda>k. Suc i + k) (first_index (\<lambda>x. x \<in> set cs) (drop (Suc i) xs))))"
    by (rule Suc.hyps(1)) (use Suc.hyps(2) i in simp_all)
  with i char_at_is [OF s i] charset_has_is [OF c(1), of 0 "xs ! i"] c(2) str_isD(1) [OF s] str_isD(1) [OF c(1)] show ?case
    by (simp add: charset_find_loop.simps [of s cset i] d option.map_comp comp_def)
qed

lemma charset_find_is:
  "str_is s xs \<Longrightarrow> str_is cset cs \<Longrightarrow> cs \<noteq> [] \<Longrightarrow> charset_find s cset = Some (found (first_index (\<lambda>x. x \<in> set cs) xs))"
  using charset_find_loop_is [of s xs cset cs 0] by (simp add: charset_find_def option.map_ident)

text \<open>One step: the next piece and the position behind its boundary, or the rest.\<close>

lemma split_next_piece:
  assumes s: "str_is (sp_src st) xs" and d: "str_holds (sp_delim st) ds" and p: "sp_pos st \<le> length xs"
  obtains (rest) v where "boundary (sp_anychar st) ds (drop (sp_pos st) xs) = None" and "str_is v (drop (sp_pos st) xs)"
      and "\<And>w :: 'w. split_next st w = Some (Some v, st\<lparr>sp_pos := Suc (length xs)\<rparr>, w)"
  | (piece) i n v where "boundary (sp_anychar st) ds (drop (sp_pos st) xs) = Some (i, n)" and "str_is v (take i (drop (sp_pos st) xs))"
      and "\<And>w :: 'w. split_next st w = Some (Some v, st\<lparr>sp_pos := sp_pos st + (i + n)\<rparr>, w)" and "sp_pos st + (i + n) \<le> length xs"
proof -
  let ?xs = "drop (sp_pos st) xs"
  have "sp_pos st + (length xs - sp_pos st) \<le> length xs" using p by simp
  with s obtain q where q: "ptr_add (str_ptr (sp_src st)) (sp_pos st) = Some q"
    "str_is \<lparr>str_ptr = q, str_len = length xs - sp_pos st\<rparr> (take (length xs - sp_pos st) ?xs)" by (rule sub_view)
  let ?r = "\<lparr>str_ptr = q, str_len = length xs - sp_pos st\<rparr>"
  have r: "str_is ?r ?xs" using q(2) by simp
  have l: "length xs \<le> PTRDIFF_MAX" "str_len (sp_src st) = length xs" "str_len (sp_delim st) = length ds"
    using str_isD [OF s] str_holdsD [OF d] by simp_all
  have big: "m \<le> PTRDIFF_MAX \<Longrightarrow> m < 2 ^ 64 - 1" for m by (simp add: PTRDIFF_MAX_def)
  have w1: "wadd (length xs) 1 = Suc (length xs)" using big [OF l(1)] by (simp add: wadd_exact)
  let ?off = "if str_len (sp_delim st) > 0
                then if sp_anychar st then charset_find ?r (sp_delim st) else string_find ?r (sp_delim st)
                else Some STRING_NOT_FOUND"
  have off: "?off = Some (found (map_option fst (boundary (sp_anychar st) ds ?xs)))"
  proof (cases "ds = []")
    case False
    then have "str_is (sp_delim st) ds" using d by (intro str_holds_is) simp_all
    with False l(3) charset_find_is [OF r] string_find_is [OF str_is_holds [OF r] d] show ?thesis
      by (simp add: boundary_def option.map_comp comp_def option.map_ident)
  qed (simp add: l(3) boundary_def)
  show ?thesis
  proof (cases "boundary (sp_anychar st) ds ?xs")
    case None
    have "split_next st w = Some (Some ?r, st\<lparr>sp_pos := Suc (length xs)\<rparr>, w)" for w :: 'w
      using p q(1) off None w1 unfolding split_next_def by (simp add: l Let_def)
    then show ?thesis by (rule rest [OF None r])
  next
    case (Some b)
    then obtain i n where b: "boundary (sp_anychar st) ds ?xs = Some (i, n)" by (cases b) simp
    note bb = boundary_Some [OF b]
    have le: "sp_pos st + (i + n) \<le> length xs" using bb(2) p by simp
    have n: "(if str_len (sp_delim st) > 0 \<and> sp_anychar st then 1 else str_len (sp_delim st)) = n"
      using b l(3) by (auto simp: boundary_def split: if_splits)
    have i: "i \<noteq> STRING_NOT_FOUND" using bb(2) l(1) by (intro not_found_large) simp
    have w: "wadd i n = i + n" "wadd (sp_pos st) (i + n) = sp_pos st + (i + n)" using le big [OF l(1)] by (simp_all add: wadd_exact)
    let ?v = "\<lparr>str_ptr = q, str_len = i\<rparr>"
    have "split_next st w = Some (Some ?v, st\<lparr>sp_pos := sp_pos st + (i + n)\<rparr>, w)" for w :: 'w
      using p q(1) off b i n w unfolding split_next_def by (simp add: l Let_def)
    moreover have "str_is ?v (take i ?xs)" using str_len_view [OF r, of i] bb(2) by simp
    ultimately show ?thesis using b le by (intro piece [of i n ?v])
  qed
qed

context heap_allocator begin

lemma split_iter_closes:
  "sp_self st = a \<Longrightarrow> iter_closes live (iter_make split_next (split_drop (Some t)) st es al) [a \<mapsto> sizeof_split_state_t]"
  by (rule iter_closes_block) (simp add: split_drop_def)

lemma split_iter_rep:
  assumes "str_is (sp_src st) xs" and "str_holds (sp_delim st) ds" and "sp_self st = a" and "sp_pos st \<le> length xs"
  shows "\<exists>vs. list_all2 str_is vs (pieces (boundary (sp_anychar st) ds) (drop (sp_pos st) xs)) \<and>
    iter_rep live vs (iter_make split_next (split_drop (Some t)) st es al) [a \<mapsto> sizeof_split_state_t]"
  using assms
proof (induction "length xs - sp_pos st" arbitrary: st rule: less_induct)
  case less
  note c = split_iter_closes [OF less.prems(3)]
  from less.prems(1,2,4) show ?case
  proof (cases rule: split_next_piece [where ?'w = 'w])
    case (rest v)
    let ?st = "st\<lparr>sp_pos := Suc (length xs)\<rparr>"
    have "split_next ?st w = Some (None, ?st, w)" for w :: 'w
      using less.prems(1) by (simp add: split_next_def str_isD(1))
    then have n: "iter_next (iter_make split_next (split_drop (Some t)) ?st es al) w =
        Some (None, iter_make split_next (split_drop (Some t)) ?st es al, w)" for w by simp
    have c': "iter_closes live (iter_make split_next (split_drop (Some t)) ?st es al) [a \<mapsto> sizeof_split_state_t]"
      by (rule split_iter_closes) (use less.prems(3) in simp)
    note e = iter_rep_Nil_still [OF c' n c']
    have "iter_rep live [v] (iter_make split_next (split_drop (Some t)) st es al) [a \<mapsto> sizeof_split_state_t]"
      by (rule iter_rep_Cons_still [OF c _ e]) (simp add: rest(3))
    moreover have "list_all2 str_is [v] (pieces (boundary (sp_anychar st) ds) (drop (sp_pos st) xs))"
      using rest(1,2) by (simp add: pieces_None)
    ultimately show ?thesis by blast
  next
    case (piece i n v)
    let ?st = "st\<lparr>sp_pos := sp_pos st + (i + n)\<rparr>"
    have "\<exists>vs. list_all2 str_is vs (pieces (boundary (sp_anychar ?st) ds) (drop (sp_pos ?st) xs)) \<and>
      iter_rep live vs (iter_make split_next (split_drop (Some t)) ?st es al) [a \<mapsto> sizeof_split_state_t]"
      by (rule less.hyps) (use less.prems piece(4) boundary_Some(1) [OF piece(1)] in simp_all)
    then obtain vs where vs: "list_all2 str_is vs (pieces (boundary (sp_anychar st) ds) (drop (sp_pos st + (i + n)) xs))"
      "iter_rep live vs (iter_make split_next (split_drop (Some t)) ?st es al) [a \<mapsto> sizeof_split_state_t]" by auto
    have "iter_rep live (v # vs) (iter_make split_next (split_drop (Some t)) st es al) [a \<mapsto> sizeof_split_state_t]"
      by (rule iter_rep_Cons_still [OF c _ vs(2)]) (simp add: piece(3))
    moreover have "list_all2 str_is (v # vs) (pieces (boundary (sp_anychar st) ds) (drop (sp_pos st) xs))"
      using vs(1) piece(2) by (simp add: pieces_Some [OF piece(1)] add.commute)
    ultimately show ?thesis by blast
  qed
qed

text \<open>What the two constructors build: an iterator of views of the pieces, in order.\<close>

lemma split_make_built:
  assumes "str_is s xs" and "str_holds d ds"
  shows "\<exists>vs. list_all2 str_is vs (pieces (boundary anychar ds) xs) \<and>
    iter_built live (Some t) (live w) 16 vs (split_make s d anychar (Some t) w)"
proof (cases rule: iter_state_alloc [of sizeof_split_state_t w])
  case (granted a w')
  let ?st = "\<lparr>sp_self = a, sp_src = s, sp_delim = d, sp_pos = 0, sp_anychar = anychar\<rparr>"
  from split_iter_rep [of ?st xs ds a 16 "Some t"] assms obtain vs where vs: "list_all2 str_is vs (pieces (boundary anychar ds) xs)"
    "iter_rep live vs (iter_make split_next (split_drop (Some t)) ?st 16 (Some t)) [a \<mapsto> sizeof_split_state_t]" by auto
  have "iter_built live (Some t) (live w) 16 vs (split_make s d anychar (Some t) w)"
    by (rule iter_built_valid [where live = live, OF _ _ _ granted(2) vs(2)])
      (use granted(1) in \<open>simp_all add: split_make_def sizeof_string_t_def del: mem_alloc.simps\<close>)
  with vs(1) show ?thesis by blast
next
  case (refused w')
  have "\<exists>vs. list_all2 str_is vs (pieces (boundary anychar ds) xs)"
    using split_iter_rep [of "\<lparr>sp_self = 0, sp_src = s, sp_delim = d, sp_pos = 0, sp_anychar = anychar\<rparr>" xs ds 0] assms by auto
  then obtain vs where vs: "list_all2 str_is vs (pieces (boundary anychar ds) xs)" by blast
  have "iter_built live (Some t) (live w) 16 vs (split_make s d anychar (Some t) w)"
    by (rule iter_built_zero [of _ w']) (use refused(1,2) starved_small [OF refused(3)] in \<open>simp_all add: split_make_def del: mem_alloc.simps\<close>)
  with vs show ?thesis by blast
qed

text \<open>It is the zeroed iterator only when its state was refused.\<close>

lemma split_make_zero:
  assumes "split_make s d anychar (Some t) w = Some (iter_zero, w')"
  shows "building_refused t n"
proof -
  from assms have "mem_alloc (Some t) sizeof_split_state_t w = Some (None, w')"
    by (cases "vt_alloc t sizeof_split_state_t w") (auto simp: split_make_def iter_make_def iter_zero_def split: option.splits)
  then show ?thesis by (rule building_refusedI(1)) (simp_all add: sizeof_split_state_t_def)
qed

end

end
