(* ===== verification/Seqc_Join.thy ===== *)
theory Seqc_Join
  imports Seqc_Strbuf_Laws Seqc_Split_Laws
begin

section \<open>Replacing and joining\<close>

text \<open>
  \<open>string_replace\<close> and \<open>string_join\<close> (\<open>src/string/string.c\<close>): both build a string that is
  \<open>join_with\<close> of pieces. The loops are proved for a builder that already holds something, so that an
  induction on the pieces goes through; memory that is refused ends them with what is needed to
  free everything.
\<close>

subsection \<open>\<open>string_replace\<close>\<close>

context heap_allocator begin

lemma replace_loop_at:
  assumes s: "str_holds s xs" and n: "str_holds needle d" "d \<noteq> []" and r: "str_holds replacement rs"
  shows "sb_at t live R w u ys \<Longrightarrow> pos \<le> length xs \<Longrightarrow>
    \<exists>st u' w' zs. replace_loop s needle replacement SEQC_OK pos (Some u) w = Some (st, Some u', w') \<and> sb_at t live R w' u' zs \<and>
      (st = SEQC_OK \<and> zs = ys @ join_with rs (pieces (boundary False d) (drop pos xs)) \<or>
       st = SEQC_OOM \<and> building_refused t (length ys + length (join_with rs (pieces (boundary False d) (drop pos xs)))))"
proof (induction "length xs - pos" arbitrary: pos w u ys rule: less_induct)
  case less
  note l = str_holdsD(1) [OF s] and nl = str_holdsD(1) [OF n(1)]
  note unfold = replace_loop.simps [of s needle replacement SEQC_OK pos "Some u" w]
  show ?case
  proof (cases "pos < length xs")
    case False
    then have "drop pos xs = []" "replace_loop s needle replacement SEQC_OK pos (Some u) w = Some (SEQC_OK, Some u, w)"
      using l unfold by simp_all
    moreover have "boundary False d [] = None" using n(2) by (simp add: boundary_def)
    ultimately show ?thesis using less.prems(1) by (auto simp: pieces_None)
  next
    case True
    from s obtain rem where rem: "string_slice s pos (str_len s) = Some rem" "str_holds rem (take (str_len s - pos) (drop pos xs))"
      by (rule string_slice_is)
    have h: "str_holds rem (drop pos xs)" using rem(2) l by simp
    note f = string_find_is [OF h n(1)]
    show ?thesis
    proof (cases "find_sub d (drop pos xs)")
      case None
      have go: "replace_loop s needle replacement SEQC_OK pos (Some u) w = strbuf_append (Some u) rem w"
        using unfold True l rem(1) f None by simp
      have p: "pieces (boundary False d) (drop pos xs) = [drop pos xs]" using None n(2) by (simp add: pieces_None boundary_def)
      from less.prems(1) h show ?thesis
        by (cases rule: strbuf_append_at) (use go p in auto)
    next
      case (Some i)
      have b: "boundary False d (drop pos xs) = Some (i, length d)" using Some n(2) by (simp add: boundary_def)
      have le: "pos + (i + length d) \<le> length xs" using boundary_Some(2) [OF b] True by simp
      have i: "i \<noteq> STRING_NOT_FOUND" using le str_holdsD(2) [OF s] by (intro not_found_large) simp
      from h obtain pc where pc: "string_slice rem 0 i = Some pc" "str_holds pc (take (i - 0) (drop 0 (drop pos xs)))"
        by (rule string_slice_is)
      have "pos + (i + length d) < 2 ^ 64" using le str_holdsD(2) [OF s] by (simp add: PTRDIFF_MAX_def)
      then have w: "wadd pos (wadd i (str_len needle)) = pos + (i + length d)" by (simp add: wadd_exact nl)
      have pp: "join_with rs (pieces (boundary False d) (drop pos xs)) =
          take i (drop pos xs) @ rs @ join_with rs (pieces (boundary False d) (drop (pos + (i + length d)) xs))"
        by (simp add: pieces_Some [OF b] join_with_Cons add.commute)
      have go: "replace_loop s needle replacement SEQC_OK pos (Some u) w = do {
          (st, sb, w) \<leftarrow> strbuf_append (Some u) pc w;
          (st, sb, w) \<leftarrow> (if st = SEQC_OK then strbuf_append sb replacement w else Some (st, sb, w));
          replace_loop s needle replacement st (pos + (i + length d)) sb w }"
        using unfold True l rem(1) f Some i pc(1) w by simp
      have stop: "replace_loop s needle replacement SEQC_OOM q sb w = Some (SEQC_OOM, sb, w)" for q sb and w :: 'w
        by (subst replace_loop.simps) simp
      have pc': "str_holds pc (take i (drop pos xs))" using pc(2) by simp
      from less.prems(1) pc' show ?thesis
      proof (cases rule: strbuf_append_at)
        case (oom u1 w1 k)
        from oom(3) have "building_refused t (length ys + length (join_with rs (pieces (boundary False d) (drop pos xs))))"
          by (rule building_refused_mono) (simp add: pp)
        with oom(1,2) show ?thesis using go stop by auto
      next
        case (ok u1 w1)
        note first = ok
        from first(2) r show ?thesis
        proof (cases rule: strbuf_append_at)
          case (oom u2 w2 k)
          from oom(3) have "building_refused t (length ys + length (join_with rs (pieces (boundary False d) (drop pos xs))))"
            by (rule building_refused_mono) (simp add: pp)
          with oom(1,2) show ?thesis using go first(1) stop by auto
        next
          case (ok u2 w2)
          have "length xs - (pos + (i + length d)) < length xs - pos" using le n(2) \<open>pos < length xs\<close> by (cases d) simp_all
          from less.hyps [OF this ok(2) le] obtain st u' w' zs where
            "replace_loop s needle replacement SEQC_OK (pos + (i + length d)) (Some u2) w2 = Some (st, Some u', w')"
            "sb_at t live R w' u' zs" "st = SEQC_OK \<and> zs = ((ys @ take i (drop pos xs)) @ rs) @
              join_with rs (pieces (boundary False d) (drop (pos + (i + length d)) xs)) \<or>
              st = SEQC_OOM \<and> building_refused t (length ((ys @ take i (drop pos xs)) @ rs) +
                length (join_with rs (pieces (boundary False d) (drop (pos + (i + length d)) xs))))" by blast
          then show ?thesis using go first(1) ok(1) pp by (auto simp: add.assoc)
        qed
      qed
    qed
  qed
qed

text \<open>What both functions do with the finished builder.\<close>

lemma builder_result:
  assumes "sb_at t live R w u zs" and "st = SEQC_OK \<and> zs = ys \<or> st = SEQC_OOM \<and> building_refused t (length ys)"
  shows "\<exists>r w'. (do { (result, w) \<leftarrow> (if st = SEQC_OK then strbuf_to_string (Some u) (Some t) w else Some (string_null, w));
      w \<leftarrow> strbuf_destroy (Some u) w; Some (result, w) }) = Some (r, w') \<and> str_made t (live w') R r ys"
proof (cases "st = SEQC_OK")
  case False
  from assms(1) obtain w' where "strbuf_destroy (Some u) w = Some w'" "live w' = R" by (rule strbuf_destroy_at)
  with False assms(2) show ?thesis by (simp add: str_made_null)
next
  case True
  then have zs: "zs = ys" using assms(2) by simp
  have u: "sb_is t u zs" "owns (live w) R (sb_blocks u)" using assms(1) by (simp_all add: sb_at_def)
  from strbuf_to_string_at [OF u(1)] obtain r w1 where r: "strbuf_to_string (Some u) (Some t) w = Some (r, w1)"
    "str_made t (live w1) (live w) r zs" by blast
  show ?thesis
  proof (cases "zs \<noteq> [] \<and> owned_str r zs (live w1) (live w)")
    case False
    then have n: "r = string_null" "live w1 = live w" "zs = [] \<or> building_refused t (length zs)"
      using r(2) by (auto simp: str_made_def)
    have "sb_at t live R w1 u zs" using u n(2) by (simp add: sb_at_def)
    then obtain w' where "strbuf_destroy (Some u) w1 = Some w'" "live w' = R" by (rule strbuf_destroy_at)
    with True r(1) n(1,3) zs show ?thesis by (simp add: str_made_null)
  next
    case own: True
    then obtain b where b: "str_ptr r = Some (b, 0)" "str_len r = length zs" "cells b = map Some zs" "length zs \<le> PTRDIFF_MAX"
      "owns (live w1) (live w) [blk_addr b \<mapsto> length zs]" by (auto simp: owned_str_def)
    let ?B = "[blk_addr b \<mapsto> length zs]"
    have o2: "owns2 (live w1) R (sb_blocks u) ?B" by (rule owns2I [OF u(2) b(5)])
    have "sb_at t live (R ++ ?B) w1 u zs" using u(1) owns2_left [OF o2] by (simp add: sb_at_def)
    then obtain w' where d: "strbuf_destroy (Some u) w1 = Some w'" "live w' = R ++ ?B" by (rule strbuf_destroy_at)
    have "owns (live w') R ?B" by (rule owns2_close_left [OF o2 d(2)])
    then have "owned_str r zs (live w') R" using b by (auto simp: owned_str_def)
    with True r(1) d(1) own zs show ?thesis by (auto simp: str_made_def)
  qed
qed

lemma string_replace_at:
  assumes "str_holds s xs" and "str_holds needle d" and "d \<noteq> []" and "str_holds replacement rs"
  shows "\<exists>r w'. string_replace s needle replacement (Some t) w = Some (r, w') \<and>
    str_made t (live w') (live w) r (join_with rs (pieces (boundary False d) xs))"
proof -
  have eq: "live w = live w" ..
  then show ?thesis
  proof (cases rule: strbuf_create_at)
    case (ok u w1)
    from replace_loop_at [OF assms ok(2), of 0] obtain st u' w2 zs where
      r: "replace_loop s needle replacement SEQC_OK 0 (Some u) w1 = Some (st, Some u', w2)" "sb_at t live (live w) w2 u' zs"
      "st = SEQC_OK \<and> zs = join_with rs (pieces (boundary False d) xs) \<or>
       st = SEQC_OOM \<and> building_refused t (length (join_with rs (pieces (boundary False d) xs)))" by auto
    have "string_replace s needle replacement (Some t) w =
        do { (result, w) \<leftarrow> (if st = SEQC_OK then strbuf_to_string (Some u') (Some t) w2 else Some (string_null, w2));
          w \<leftarrow> strbuf_destroy (Some u') w; Some (result, w) }"
      using ok(1) r(1) assms(3) str_holdsD(1) [OF assms(2)] by (simp add: string_replace_def)
    with builder_result [OF r(2,3)] show ?thesis by simp
  next
    case (oom w1)
    from oom(3) have "building_refused t (length (join_with rs (pieces (boundary False d) xs)))"
      by (rule building_refused_mono) simp
    with oom(1,2) show ?thesis using assms(3) str_holdsD(1) [OF assms(2)] by (simp add: string_replace_def str_made_null)
  qed
qed

subsection \<open>\<open>string_join\<close>\<close>

definition join_rest :: "bool \<Rightarrow> byte list \<Rightarrow> byte list list \<Rightarrow> byte list" where
  "join_rest first sep ys = (if first then join_with sep ys else concat (map (\<lambda>z. sep @ z) ys))"

lemma join_rest_simps [simp]:
  "join_rest first sep [] = []"
  "join_rest first sep (y # ys) = (if first then [] else sep) @ y @ join_rest False sep ys"
  by (simp_all add: join_rest_def join_with_def)

lemma join_loop_at:
  assumes sep: "str_holds sep ss"
  shows "list_all2 str_holds vs yss \<Longrightarrow> iter_rep live vs it B \<Longrightarrow> sb_is t u xs \<Longrightarrow> owns2 (live w) R (sb_blocks u) B \<Longrightarrow>
    \<exists>st it' u' w' B' zs. join_loop it sep first SEQC_OK (Some u) w = Some (st, it', Some u', w') \<and>
      owns2 (live w') R (sb_blocks u') B' \<and> iter_closes live it' B' \<and> sb_is t u' zs \<and>
      (st = SEQC_OK \<and> zs = xs @ join_rest first ss yss \<or>
       st = SEQC_OOM \<and> building_refused t (length xs + length (join_rest first ss yss)))"
proof (induction vs arbitrary: yss it B u xs w first)
  case Nil
  then have yss: "yss = []" by simp
  obtain it' w' B' where n: "iter_next it w = Some (None, it', w')"
      "owns (live w') (R ++ sb_blocks u) B'" "iter_closes live it' B'"
    by (rule iter_rep_NilE [OF Nil.prems(2) owns2_right [OF Nil.prems(4)]])
  have "owns2 (live w') R (sb_blocks u) B'" by (rule owns2_step_right [OF Nil.prems(4) n(2)])
  moreover have "join_loop it sep first SEQC_OK (Some u) w = Some (SEQC_OK, it', Some u, w')"
    using n(1) by (simp add: join_loop.simps [of it])
  ultimately show ?case using n(3) Nil.prems(3) yss by auto
next
  case (Cons v vs)
  from Cons.prems(1) obtain y ys where yss: "yss = y # ys" "str_holds v y" "list_all2 str_holds vs ys" by (auto simp: list_all2_Cons1)
  obtain it1 w1 B1 where n: "iter_next it w = Some (Some v, it1, w1)"
      "owns (live w1) (R ++ sb_blocks u) B1" "iter_rep live vs it1 B1"
    by (rule iter_rep_ConsE [OF Cons.prems(2) owns2_right [OF Cons.prems(4)]])
  have o1: "owns2 (live w1) R (sb_blocks u) B1" by (rule owns2_step_right [OF Cons.prems(4) n(2)])
  have at1: "sb_at t live (R ++ B1) w1 u xs" using Cons.prems(3) owns2_left [OF o1] by (simp add: sb_at_def)
  have go: "join_loop it sep first SEQC_OK (Some u) w = do {
      (st, sb, w) \<leftarrow> (if \<not> first then strbuf_append (Some u) sep w1 else Some (SEQC_OK, Some u, w1));
      (st, sb, w) \<leftarrow> (if st = SEQC_OK then strbuf_append sb v w else Some (st, sb, w));
      join_loop it1 sep False st sb w }" using n(1) by (simp add: join_loop.simps [of it])
  have stop: "join_loop it1 sep False SEQC_OOM sb w = Some (SEQC_OOM, it1, sb, w)" for sb w by (subst join_loop.simps) simp
  have fin: "\<exists>st it' u' w' B' zs. Some (SEQC_OOM, it1, Some u2, w2) = Some (st, it', Some u', w') \<and>
      owns2 (live w') R (sb_blocks u') B' \<and> iter_closes live it' B' \<and> sb_is t u' zs \<and>
      (st = SEQC_OK \<and> zs = xs @ join_rest first ss yss \<or>
       st = SEQC_OOM \<and> building_refused t (length xs + length (join_rest first ss yss)))"
    if "sb_at t live (R ++ B1) w2 u2 zs" "building_refused t n" "n \<le> length xs + length (join_rest first ss yss)" for u2 w2 zs n
    using that(1) building_refused_mono [OF that(2,3)] owns2_step_left [OF o1, of "live w2" "sb_blocks u2"] iter_rep_closes [OF n(3)]
    by (auto simp: sb_at_def)
  obtain st1 u1 w2 zs1 where s1: "(if \<not> first then strbuf_append (Some u) sep w1 else Some (SEQC_OK, Some u, w1)) = Some (st1, Some u1, w2)"
    "sb_at t live (R ++ B1) w2 u1 zs1" "st1 = SEQC_OK \<and> zs1 = xs @ (if first then [] else ss) \<or>
       st1 = SEQC_OOM \<and> \<not> first \<and> building_refused t (length xs + length ss)"
  proof (cases first)
    case True
    with at1 show ?thesis by (intro that [of SEQC_OK u w1 xs]) simp_all
  next
    case False
    from at1 sep show ?thesis
      by (cases rule: strbuf_append_at) (use False that in auto)
  qed
  show ?case
  proof (cases "st1 = SEQC_OK")
    case False
    then have "join_loop it sep first SEQC_OK (Some u) w = Some (SEQC_OOM, it1, Some u1, w2)" using go s1(1,3) stop by auto
    moreover have "building_refused t (length xs + length ss)" "\<not> first" using False s1(3) by auto
    ultimately show ?thesis using fin [OF s1(2), of "length xs + length ss"] yss(1) by simp
  next
    case True
    from s1(2) yss(2) show ?thesis
    proof (cases rule: strbuf_append_at)
      case (oom u2 w3 k)
      then have "join_loop it sep first SEQC_OK (Some u) w = Some (SEQC_OOM, it1, Some u2, w3)" using go s1(1) True stop by simp
      moreover have "zs1 = xs @ (if first then [] else ss)" using True s1(3) by auto
      ultimately show ?thesis using fin [OF oom(2,3)] yss(1) by simp
    next
      case (ok u2 w3)
      have u2: "sb_is t u2 (zs1 @ y)" "owns2 (live w3) R (sb_blocks u2) B1"
        using ok(2) owns2_step_left [OF o1] by (simp_all add: sb_at_def)
      from Cons.IH [OF yss(3) n(3) u2, of False] obtain st it' u' w' B' zs where
        r: "join_loop it1 sep False SEQC_OK (Some u2) w3 = Some (st, it', Some u', w')" "owns2 (live w') R (sb_blocks u') B'"
        "iter_closes live it' B'" "sb_is t u' zs" "st = SEQC_OK \<and> zs = (zs1 @ y) @ join_rest False ss ys \<or>
         st = SEQC_OOM \<and> building_refused t (length (zs1 @ y) + length (join_rest False ss ys))" by blast
      have "join_loop it sep first SEQC_OK (Some u) w = Some (st, it', Some u', w')" using go s1(1) True ok(1) r(1) by simp
      moreover have "st = SEQC_OK \<and> zs = xs @ join_rest first ss yss \<or>
          st = SEQC_OOM \<and> building_refused t (length xs + length (join_rest first ss yss))"
        using r(5) s1(3) True yss(1) by (auto simp: add.assoc)
      ultimately show ?thesis using r(2-4) by blast
    qed
  qed
qed

lemma string_join_at:
  assumes sep: "str_holds sep ss" and vs: "list_all2 str_holds vs yss" and it: "iter_rep live vs it B" "owns (live w) R B"
    and True: "iter_is_valid it"
  shows "\<exists>r w'. string_join it sep (Some t) w = Some (r, w') \<and> str_made t (live w') R r (join_with ss yss)"
proof -
  have "live w = live w" ..
  then show ?thesis
  proof (cases rule: strbuf_create_at)
    case (oom w1)
    have "owns (live w1) R B" using it(2) oom(2) by simp
    then obtain w2 where "iter_destroy it w1 = Some w2" "live w2 = R" using iter_destroy_closes [OF iter_rep_closes [OF it(1)]] by blast
    moreover from oom(3) have "building_refused t (length (join_with ss yss))" by (rule building_refused_mono) simp
    ultimately show ?thesis using True oom(1) by (simp add: string_join_def str_made_null)
  next
    case (ok u w1)
    have u: "sb_is t u []" "owns2 (live w1) R (sb_blocks u) B"
      using ok(2) owns2_sym [OF owns2I [OF it(2)]] by (simp_all add: sb_at_def)
    from join_loop_at [OF sep vs it(1) u, of True] obtain st it' u' w2 B' zs where
      l: "join_loop it sep True SEQC_OK (Some u) w1 = Some (st, it', Some u', w2)" "owns2 (live w2) R (sb_blocks u') B'"
      "iter_closes live it' B'" "sb_is t u' zs" "st = SEQC_OK \<and> zs = join_with ss yss \<or> st = SEQC_OOM \<and> building_refused t (length (join_with ss yss))"
      by (auto simp: join_rest_def)
    obtain w3 where w3: "iter_destroy it' w2 = Some w3" "live w3 = R ++ sb_blocks u'"
      by (rule iter_destroy_closes [OF l(3) owns2_right [OF l(2)]])
    have "sb_at t live R w3 u' zs" using l(4) owns2_close_right [OF l(2) w3(2)] by (simp add: sb_at_def)
    from builder_result [OF this l(5)] ok(1) True l(1) w3(1) show ?thesis by (simp add: string_join_def)
  qed
qed

lemma string_join_zero: "string_join iter_zero sep (Some t) w = Some (string_null, w)"
  by (simp add: string_join_def iter_zero_def iter_is_valid_def iter_destroy_def)

end

end
