(* ===== verification/Seqc_Tokens.thy ===== *)
theory Seqc_Tokens
  imports Seqc_Join
begin

section \<open>The tokenizer loop\<close>

text \<open>
  The loop that \<open>string.h\<close> documents for \<open>string_split_next\<close>: call it until it answers false. The
  result is the list of the tokens.
\<close>

partial_function (option) token_loop :: "string_t \<Rightarrow> byte \<Rightarrow> string_t list option" where
  "token_loop rest sep = do {
     (more, rest, token) \<leftarrow> string_split_next (Some rest) sep True;
     if \<not> more then Some []
     else do { rest \<leftarrow> rest; token \<leftarrow> token; tokens \<leftarrow> token_loop rest sep; Some (token # tokens) }
   }"

lemma token_loop_null: "token_loop string_null sep = Some []"
  by (subst token_loop.simps) (simp add: string_split_next_def string_null_def)

lemma boundary_char: "boundary True [c] xs = map_option (\<lambda>i. (i, 1)) (first_index (\<lambda>x. x = c) xs)"
  by (simp add: boundary_def)

lemma token_loop_is:
  assumes "str_is s xs"
  shows "\<exists>vs. token_loop s sep = Some vs \<and> list_all2 str_is vs (pieces (boundary True [sep]) xs)"
  using assms
proof (induction "length xs" arbitrary: xs s rule: less_induct)
  case less
  note l = str_isD(1,2) [OF less.prems]
  obtain q where q: "str_ptr s = Some q" using str_isD(3) [OF less.prems] by auto
  note f = string_find_char_is [OF str_is_holds [OF less.prems], of sep]
  show ?case
  proof (cases "first_index (\<lambda>x. x = sep) xs")
    case None
    then have "string_split_next (Some s) sep True = Some (True, Some string_null, Some s)"
      using f q by (simp add: string_split_next_def)
    then have "token_loop s sep = Some [s]" by (simp add: token_loop.simps [of s] token_loop_null)
    moreover have "pieces (boundary True [sep]) xs = [xs]" using None by (simp add: pieces_None boundary_char)
    ultimately show ?thesis using less.prems by simp
  next
    case (Some i)
    have b: "boundary True [sep] xs = Some (i, 1)" using Some by (simp add: boundary_char)
    have le: "i + 1 \<le> length xs" using boundary_Some(2) [OF b] by simp
    have i: "i \<noteq> STRING_NOT_FOUND" using le l(2) by (intro not_found_large) simp
    have "(i + 1) + (length xs - (i + 1)) \<le> length xs" using le by simp
    with less.prems obtain p where p: "ptr_add (str_ptr s) (i + 1) = Some p"
      "str_is \<lparr>str_ptr = p, str_len = length xs - (i + 1)\<rparr> (take (length xs - (i + 1)) (drop (i + 1) xs))" by (rule sub_view)
    let ?r = "\<lparr>str_ptr = p, str_len = length xs - (i + 1)\<rparr>" and ?v = "\<lparr>str_ptr = str_ptr s, str_len = i\<rparr>"
    have r: "str_is ?r (drop (i + 1) xs)" using p(2) by simp
    have "length (drop (i + 1) xs) < length xs" using le by simp
    from less.hyps [OF this r] obtain vs where vs: "token_loop ?r sep = Some vs"
      "list_all2 str_is vs (pieces (boundary True [sep]) (drop (i + 1) xs))" by blast
    have "string_split_next (Some s) sep True = Some (True, Some ?r, Some ?v)"
      using f q i Some p(1) l(1) by (simp add: string_split_next_def)
    then have "token_loop s sep = Some (?v # vs)" using vs(1) by (simp add: token_loop.simps [of s])
    moreover have v: "s\<lparr>str_len := i\<rparr> = ?v" by (cases s) simp
    have "str_is ?v (take i xs)" by (rule str_len_view [OF less.prems, of i, unfolded v]) (use le in simp)
    ultimately show ?thesis using vs(2) by (simp add: pieces_Some [OF b])
  qed
qed

text \<open>How many pieces there are.\<close>

lemma first_index_split:
  assumes "first_index P xs = Some i"
  shows "length (filter P xs) = Suc (length (filter P (drop (Suc i) xs)))"
proof -
  note s = first_index_Some [OF assms]
  have "xs = take i xs @ xs ! i # drop (Suc i) xs" using s by (simp add: id_take_nth_drop)
  then have "filter P xs = filter P (take i xs) @ filter P (xs ! i # drop (Suc i) xs)" by (metis filter_append)
  moreover have "filter P (take i xs) = []"
    using s by (auto simp: filter_empty_conv in_set_conv_nth)
  ultimately show ?thesis using s by simp
qed

lemma length_pieces_char: "length (pieces (boundary True [c]) xs) = Suc (length (filter (\<lambda>x. x = c) xs))"
proof (induction "length xs" arbitrary: xs rule: less_induct)
  case less
  show ?case
  proof (cases "first_index (\<lambda>x. x = c) xs")
    case None
    then show ?thesis using first_index_None [of "\<lambda>x. x = c" xs]
      by (auto simp: pieces_None boundary_char filter_empty_conv)
  next
    case (Some i)
    have b: "boundary True [c] xs = Some (i, 1)" using Some by (simp add: boundary_char)
    have "length (pieces (boundary True [c]) (drop (i + 1) xs)) = Suc (length (filter (\<lambda>x. x = c) (drop (i + 1) xs)))"
      by (rule less.hyps) (use boundary_Some(2) [OF b] in simp)
    with first_index_split [OF Some] show ?thesis by (simp add: pieces_Some [OF b])
  qed
qed

end
