(* ===== verification/Seqc_String_Properties.thy ===== *)
theory Seqc_String_Properties
  imports Seqc_Strbuf_Lifetime Seqc_Tokens
begin

section \<open>Strings: properties that span the component\<close>

text \<open>
  What \<open>src/string/string.c\<close> promises its clients about comparing, searching, building, splitting,
  joining and reading numbers. The witnesses run on strings in a block of their own and on the
  allocator that refuses nothing reasonable.
\<close>

subsection \<open>Strings and allocators for the witnesses\<close>

lemma roomy_grants:
  assumes "2 * n + 64 \<le> PTRDIFF_MAX"
  shows "\<not> building_refused roomy_allocator n"
  using assms by (simp add: building_refused_def roomy_refuses)

lemma roomy_makes:
  assumes "str_made roomy_allocator L R r xs" and "xs \<noteq> []" and "length xs \<le> 1000"
  shows "owned_str r xs L R"
proof -
  have "\<not> building_refused roomy_allocator (length xs)" by (rule roomy_grants) (use assms(3) in \<open>simp add: PTRDIFF_MAX_def\<close>)
  with assms show ?thesis by (auto simp: str_made_def)
qed

text \<open>A string in a block of its own, for the witnesses.\<close>

definition str_of :: "byte list \<Rightarrow> string_t" where
  "str_of xs = \<lparr>str_ptr = Some (\<lparr>blk_addr = 7, cells = map Some xs\<rparr>, 0), str_len = length xs\<rparr>"

lemma str_of_is: "length xs \<le> 1000 \<Longrightarrow> str_is (str_of xs) xs"
  by (simp add: str_is_def points_to_def str_of_def PTRDIFF_MAX_def)

lemma str_of_holds: "length xs \<le> 1000 \<Longrightarrow> str_holds (str_of xs) xs"
  by (rule str_is_holds [OF str_of_is])

subsection \<open>Order and keys\<close>

abbreviation byte_less :: "(byte \<times> byte) set" where
  "byte_less \<equiv> {(x, y). x < y}"

lemma lex_cmp_lexord: "lex_cmp xs ys < 0 \<longleftrightarrow> (xs, ys) \<in> lexord byte_less"
  by (induction xs ys rule: lex_cmp.induct) auto

lemma string_compare_ci_sign:
  assumes "str_is a xs" and "str_is b ys"
  obtains c where "string_compare_case_insensitive a b = Some c"
    and "c < 0 \<longleftrightarrow> (map ascii_lower xs, map ascii_lower ys) \<in> lexord byte_less"
    and "c = 0 \<longleftrightarrow> map ascii_lower xs = map ascii_lower ys"
proof -
  from string_compare_case_insensitive_is [OF assms] obtain c where
    c: "string_compare_case_insensitive a b = Some c" "sgn c = lex_cmp (map ascii_lower xs) (map ascii_lower ys)" by blast
  have "c < 0 \<longleftrightarrow> sgn c < 0" "c = 0 \<longleftrightarrow> sgn c = 0" by (simp_all add: sgn_if)
  with c(1) show ?thesis by (intro that) (simp_all add: c(2) lex_cmp_lexord)
qed

text \<open>
  C27. Comparing strings is comparing their bytes: \<open>string_equals\<close> decides equality, the sign of
  \<open>string_compare\<close> is that of the lexicographic order of the bytes with shorter strings first, the
  case-insensitive versions do the same after folding ASCII letters, and each hash function for
  string keys agrees with its equality: equal keys have equal hashes.
\<close>
theorem string_compare_correct:
  assumes "str_is a xs" and "str_is b ys"
  shows "string_equals a b = Some (xs = ys) \<and>
    string_equals_case_insensitive a b = Some (map ascii_lower xs = map ascii_lower ys) \<and>
    (\<exists>c. string_compare a b = Some c \<and> (c < 0 \<longleftrightarrow> (xs, ys) \<in> lexord byte_less) \<and> (c = 0 \<longleftrightarrow> xs = ys)) \<and>
    (\<exists>c. string_compare_case_insensitive a b = Some c \<and>
      (c < 0 \<longleftrightarrow> (map ascii_lower xs, map ascii_lower ys) \<in> lexord byte_less) \<and>
      (c = 0 \<longleftrightarrow> map ascii_lower xs = map ascii_lower ys)) \<and>
    string_key_eq (Some a) (Some b) n = Some (xs = ys) \<and>
    string_key_eq_case_insensitive (Some a) (Some b) n = Some (map ascii_lower xs = map ascii_lower ys) \<and>
    (\<exists>h k. string_hash (Some a) n = Some h \<and> string_hash (Some b) n = Some k \<and> (xs = ys \<longrightarrow> h = k)) \<and>
    (\<exists>h k. string_hash_case_insensitive (Some a) n = Some h \<and> string_hash_case_insensitive (Some b) n = Some k \<and>
      (map ascii_lower xs = map ascii_lower ys \<longrightarrow> h = k))"
proof -
  note h = string_hash_is [OF str_is_holds [OF assms(1)], of n] string_hash_is [OF str_is_holds [OF assms(2)], of n]
  obtain c where c: "string_compare_case_insensitive a b = Some c"
    "c < 0 \<longleftrightarrow> (map ascii_lower xs, map ascii_lower ys) \<in> lexord byte_less" "c = 0 \<longleftrightarrow> map ascii_lower xs = map ascii_lower ys"
    by (rule string_compare_ci_sign [OF assms])
  show ?thesis using h c string_compare_is [OF assms] string_equals_is [OF assms] string_equals_case_insensitive_is [OF assms]
      string_key_eq_is [OF assms, of n]
    by (simp add: lex_cmp_lexord str_eq_def str_eq_ci_def str_hash_ci_def)
qed

theorem string_compare_witness:
  "string_equals_case_insensitive (str_of [65, 98]) (str_of [97, 98]) = Some True \<and>
    (\<exists>c. string_compare (str_of [65, 98]) (str_of [97, 98]) = Some c \<and> c < 0)"
  using string_compare_correct [OF str_of_is [of "[65, 98]"] str_of_is [of "[97, 98]"], of 16] by (auto simp: ascii_lower_def)

subsection \<open>Searching\<close>

definition occurs :: "byte list \<Rightarrow> byte list \<Rightarrow> nat \<Rightarrow> bool" where
  "occurs ds xs i \<longleftrightarrow> i + length ds \<le> length xs \<and> take (length ds) (drop i xs) = ds"

text \<open>The answer \<open>i\<close> is the first, or the last, place with the property, or \<open>STRING_NOT_FOUND\<close>.\<close>

definition first_place :: "(nat \<Rightarrow> bool) \<Rightarrow> size_t \<Rightarrow> bool" where
  "first_place P i \<longleftrightarrow> (if \<exists>k. P k then P i \<and> (\<forall>j < i. \<not> P j) else i = STRING_NOT_FOUND)"

definition last_place :: "(nat \<Rightarrow> bool) \<Rightarrow> size_t \<Rightarrow> bool" where
  "last_place P i \<longleftrightarrow> (if \<exists>k. P k then P i \<and> (\<forall>j > i. \<not> P j) else i = STRING_NOT_FOUND)"

lemma occurs_find: "(\<exists>i. occurs ds xs i) \<longleftrightarrow> find_sub ds xs \<noteq> None"
proof (cases "find_sub ds xs")
  case None
  with find_sub_None [OF None] show ?thesis by (auto simp: occurs_def)
next
  case (Some i)
  with find_sub_Some [OF Some] show ?thesis by (auto simp: occurs_def)
qed

lemma find_sub_place: "first_place (occurs ds xs) (found (find_sub ds xs))"
proof (cases "find_sub ds xs")
  case None
  then show ?thesis using occurs_find [of ds xs] by (simp add: first_place_def)
next
  case (Some i)
  note f = find_sub_Some [OF Some]
  have "occurs ds xs i" using f by (simp add: occurs_def)
  moreover have "\<forall>j < i. \<not> occurs ds xs j" using f(3) by (simp add: occurs_def)
  ultimately show ?thesis using Some by (auto simp: first_place_def)
qed

lemma first_index_place: "first_place (\<lambda>i. i < length xs \<and> xs ! i = c) (found (first_index (\<lambda>x. x = c) xs))"
proof (cases "first_index (\<lambda>x. x = c) xs")
  case None
  then have "\<forall>x \<in> set xs. x \<noteq> c" by (simp add: first_index_None)
  then have "\<not> (\<exists>k. k < length xs \<and> xs ! k = c)" using nth_mem by metis
  with None show ?thesis unfolding first_place_def by auto
next
  case (Some i)
  with first_index_Some [OF Some] show ?thesis by (auto simp: first_place_def)
qed

lemma last_index_place: "last_place (\<lambda>i. i < length xs \<and> xs ! i = c) (found (last_index (\<lambda>x. x = c) xs))"
proof (induction xs rule: rev_induct)
  case Nil
  then show ?case by (simp add: last_index_def last_place_def)
next
  case (snoc x xs)
  show ?case
  proof (cases "x = c")
    case True
    have "last_place (\<lambda>i. i < length (xs @ [x]) \<and> (xs @ [x]) ! i = c) (length xs)"
      unfolding last_place_def using True by (auto intro: exI [of _ "length xs"])
    with True show ?thesis by (simp add: last_index_snoc)
  next
    case False
    then have "(\<lambda>i. i < length (xs @ [x]) \<and> (xs @ [x]) ! i = c) = (\<lambda>i. i < length xs \<and> xs ! i = c)"
      by (auto simp: fun_eq_iff nth_append)
    with False snoc.IH show ?thesis by (simp add: last_index_snoc)
  qed
qed

text \<open>
  \<open>string_starts_with\<close> and \<open>string_ends_with\<close> compare with \<open>memcmp\<close> when the needle is not the longer
  string, which needs two pointers.
\<close>

definition needs_pointer :: "string_t \<Rightarrow> string_t \<Rightarrow> bool" where
  "needs_pointer s needle \<longleftrightarrow> str_len needle \<le> str_len s \<and> (str_ptr s = None \<or> str_ptr needle = None)"

lemma string_starts_with_holds:
  assumes "str_holds s xs" and "str_holds needle ds"
  shows "string_starts_with s needle = (if needs_pointer s needle then None else Some (occurs ds xs 0))"
proof (cases "length ds \<le> length xs")
  case True
  then have "occurs ds xs 0 \<longleftrightarrow> take (length ds) xs = ds" by (auto simp: occurs_def)
  with True assms str_holdsD(1) [OF assms(1)] str_holdsD(1) [OF assms(2)] show ?thesis
    using string_starts_with_is [OF str_holds_is str_holds_is, of s xs needle ds]
    by (auto simp: needs_pointer_def string_starts_with_def mem_cmp_def mem_bytes_def bind_eq_None_conv)
qed (use str_holdsD(1) [OF assms(1)] str_holdsD(1) [OF assms(2)] in \<open>simp add: needs_pointer_def string_starts_with_def occurs_def\<close>)

lemma string_ends_with_holds:
  assumes "str_holds s xs" and "str_holds needle ds"
  shows "string_ends_with s needle = (if needs_pointer s needle then None else Some (\<exists>i. occurs ds xs i \<and> i + length ds = length xs))"
proof -
  have e: "(\<exists>i. occurs ds xs i \<and> i + length ds = length xs) \<longleftrightarrow> length ds \<le> length xs \<and> drop (length xs - length ds) xs = ds"
    by (auto simp: occurs_def intro!: exI [of _ "length xs - length ds"])
  show ?thesis
  proof (cases "length ds \<le> length xs")
    case True
    with assms str_holdsD(1) [OF assms(1)] str_holdsD(1) [OF assms(2)] show ?thesis
      unfolding e using string_ends_with_is [OF str_holds_is str_holds_is, of s xs needle ds]
      by (auto simp: needs_pointer_def string_ends_with_def mem_cmp_def mem_bytes_def ptr_add_def bind_eq_None_conv)
  qed (use str_holdsD(1) [OF assms(1)] str_holdsD(1) [OF assms(2)] in \<open>simp add: e needs_pointer_def string_ends_with_def\<close>)
qed

text \<open>
  C36. \<open>string_find\<close> answers the first place where the needle stands, or \<open>STRING_NOT_FOUND\<close> when it
  stands nowhere, and \<open>string_contains\<close> whether it stands anywhere; \<open>string_find_char\<close> and
  \<open>string_rfind_char\<close> answer the first and the last place of a character. These four never read
  outside the strings, \<open>{NULL, 0}\<close> included. \<open>string_starts_with\<close> and \<open>string_ends_with\<close> answer
  whether the needle stands at the start and at the end, without reading outside the strings, except
  that they are undefined when one of the two strings is \<open>{NULL, 0}\<close> and the needle is not the
  longer one: then they hand NULL to \<open>memcmp\<close>.
\<close>
theorem string_search_correct:
  assumes "str_holds s xs" and "str_holds needle ds"
  shows "(\<exists>i. string_find s needle = Some i \<and> first_place (occurs ds xs) i) \<and>
    string_contains s needle = Some (\<exists>i. occurs ds xs i) \<and>
    (\<exists>i. string_find_char s c = Some i \<and> first_place (\<lambda>i. i < length xs \<and> xs ! i = c) i) \<and>
    (\<exists>i. string_rfind_char s c = Some i \<and> last_place (\<lambda>i. i < length xs \<and> xs ! i = c) i) \<and>
    string_starts_with s needle = (if needs_pointer s needle then None else Some (occurs ds xs 0)) \<and>
    string_ends_with s needle =
      (if needs_pointer s needle then None else Some (\<exists>i. occurs ds xs i \<and> i + length ds = length xs))"
  using assms find_sub_place [of ds xs] first_index_place [of xs c] last_index_place [of xs c] occurs_find [of ds xs]
  by (auto simp: string_find_is string_contains_is string_find_char_is string_rfind_char_is
    simp del: split_paired_Ex simp: string_starts_with_holds string_ends_with_holds)

theorem string_search_witness:
  "string_find (str_of [97, 97, 98]) (str_of [97, 98]) = Some 1 \<and> first_place (occurs [97, 98] [97, 97, 98]) 1 \<and>
   string_ends_with (str_of [97, 97, 98]) (str_of [97, 98]) = Some True \<and> string_starts_with string_null string_null = None"
proof -
  have "string_find (str_of [97, 97, 98]) (str_of [97, 98]) = Some 1" by code_simp
  moreover have "\<not> needs_pointer (str_of [97, 97, 98]) (str_of [97, 98])" by code_simp
  moreover have "needs_pointer string_null string_null" by code_simp
  moreover have "occurs [97, 98] [97, 97, 98] 1" by code_simp
  ultimately show ?thesis
    using string_search_correct [OF str_of_holds [of "[97, 97, 98]"] str_of_holds [of "[97, 98]"]]
      string_search_correct [of string_null "[]" string_null "[]"]
    by (auto intro!: exI [of _ 1])
qed

subsection \<open>Building\<close>

text \<open>
  C37. A program that creates a \<open>strbuf_t\<close>, appends strings, C strings, characters, 64-bit numbers
  and formatted text, truncates, clears, reads and views it in any order, and destroys it, has a
  defined result for every allocator that keeps its contract: the view shows exactly the bytes
  stored so far, an append answers \<open>SEQC_OOM\<close>, with a prefix of its bytes stored, only when the
  allocator refuses a request of the size that was needed, and no block is leaked, the temporary
  block of long formats included.
\<close>
theorem strbuf_lifetime_correct:
  assumes "heap_allocator t live" and "\<forall>p \<in> set ps. strbuf_legal p"
  shows "lifetime_ok t live (strbuf_spec t) [] ps w
    (lifetime (strbuf_create (Some t)) (on_handle strbuf_call) (\<lambda>u. strbuf_destroy (Some u)) ps w)"
  by (rule lifetime_laws.lifetime_is_ok [OF heap_allocator.strbuf_lifetime_laws [OF assms(1)] assms(2)])

theorem strbuf_lifetime_witness:
  "lifetime_ok roomy_allocator map_of (strbuf_spec roomy_allocator) [] [SAppend (str_of [97, 98]), SInt 7 (-42), SFmt (Some (replicate 300 120)), STruncate 4, SView] []
    (lifetime (strbuf_create (Some roomy_allocator)) (on_handle strbuf_call) (\<lambda>u. strbuf_destroy (Some u))
      [SAppend (str_of [97, 98]), SInt 7 (-42), SFmt (Some (replicate 300 120)), STruncate 4, SView] [])"
  by (rule strbuf_lifetime_correct [OF roomy.heap_allocator_axioms])
    (use str_of_holds [of "[97, 98]"] in \<open>auto simp: llong_def LLONG_MIN_def LLONG_MAX_def\<close>)

subsection \<open>Splitting, joining, replacing\<close>

definition split_then_join :: "string_t \<Rightarrow> string_t \<Rightarrow> string_t \<Rightarrow> 'w allocator_t \<Rightarrow> 'w \<Rightarrow> (string_t \<times> 'w) option" where
  "split_then_join s delim sep al w = do { (it, w) \<leftarrow> string_split_substr s delim al w; string_join it sep al w }"

text \<open>A client that writes a number into a builder and reads it back from the view.\<close>

definition int_round_trip :: "addr \<Rightarrow> int \<Rightarrow> 'w allocator_t \<Rightarrow> 'w \<Rightarrow> ((seqc_status_t \<times> bool \<times> int option) option \<times> 'w) option" where
  "int_round_trip stack v al w = do {
     (sb, w) \<leftarrow> strbuf_create al w;
     if sb = None then Some (None, w)
     else do {
       (st, sb, w) \<leftarrow> strbuf_append_int stack sb v w;
       (ok, n) \<leftarrow> string_to_int (strbuf_view sb);
       w \<leftarrow> strbuf_destroy sb w;
       Some (Some (st, ok, n), w)
     }
   }"

lemma string_to_int_defined:
  assumes "str_holds s xs"
  obtains ok n where "string_to_int s = Some (ok, n)"
proof (cases "str_ptr s = None \<or> str_len s = 0 \<or> str_len s \<ge> 24")
  case True
  then have "string_to_int s = Some (False, None)" by (auto simp: string_to_int_def)
  then show ?thesis by (rule that)
next
  case False
  then have s: "str_is s xs" using assms by (intro str_holds_is) (auto dest: str_holds_empty)
  obtain v en e where "c_strtoll (xs @ [0]) = (v, en, e)" by (cases "c_strtoll (xs @ [0])") auto
  with False mem_bytes_is [OF s le_refl] str_isD(1) [OF s] have "\<exists>ok n. string_to_int s = Some (ok, n)"
    by (auto simp: string_to_int_def Let_def)
  with that show ?thesis by blast
qed

context heap_allocator begin

lemma split_then_join_at:
  assumes "str_is s xs" and "str_holds delim ds" and "str_holds sep ss"
  shows "\<exists>r w'. split_then_join s delim sep (Some t) w = Some (r, w') \<and>
    str_made t (live w') (live w) r (join_with ss (pieces (boundary False ds) xs))"
proof -
  from split_make_built [OF assms(1,2)] obtain vs it w1 where
    vs: "list_all2 str_is vs (pieces (boundary False ds) xs)" and it: "string_split_substr s delim (Some t) w = Some (it, w1)"
    "it = iter_zero \<and> live w1 = live w \<or> iter_is_valid it \<and> (\<exists>B. owns (live w1) (live w) B \<and> iter_rep live vs it B)"
    unfolding iter_built_def string_split_substr_def by blast
  have hs: "list_all2 str_holds vs (pieces (boundary False ds) xs)" using vs by (rule list_all2_mono) (rule str_is_holds)
  show ?thesis
  proof (cases "it = iter_zero")
    case True
    then have "live w1 = live w" using it(2) by (auto simp: iter_is_valid_def iter_zero_def)
    moreover have "building_refused t n" for n
      by (rule split_make_zero) (use it(1) True in \<open>simp add: string_split_substr_def\<close>)
    ultimately show ?thesis using it(1) True by (simp add: split_then_join_def string_join_zero str_made_null)
  next
    case False
    then obtain B where B: "iter_is_valid it" "owns (live w1) (live w) B" "iter_rep live vs it B" using it(2) by blast
    from string_join_at [OF assms(3) hs B(3,2,1)] it(1) show ?thesis by (simp add: split_then_join_def)
  qed
qed

lemma int_round_trip_at:
  assumes "llong v"
  shows "\<exists>r w'. int_round_trip stack v (Some t) w = Some (r, w') \<and> live w' = live w \<and>
    (r = Some (SEQC_OK, True, Some v) \<or> building_refused t 20)"
proof -
  have R: "live w = live w" ..
  then show ?thesis
  proof (cases rule: strbuf_create_at)
    case (oom w1)
    from oom(3) have "building_refused t 20" by (rule building_refused_mono) simp
    with oom(1,2) show ?thesis by (simp add: int_round_trip_def)
  next
    case (ok u w1)
    note made = ok
    from made(2) assms show ?thesis
    proof (cases rule: strbuf_append_int_at [where a = stack])
      case (ok u' w2)
      have "sb_is t u' (decimal v)" using ok(2) by (simp add: sb_at_def)
      from string_to_int_decimal [OF sb_view_is(2) [OF this] assms] have n: "string_to_int (strbuf_view (Some u')) = Some (True, Some v)" .
      from ok(2) obtain w3 where "strbuf_destroy (Some u') w2 = Some w3" "live w3 = live w" by (rule strbuf_destroy_at)
      with n made(1) ok(1) show ?thesis by (simp add: int_round_trip_def)
    next
      case (oom u' w2 n)
      have "sb_is t u' ([] @ take n (decimal v))" using oom(2) by (simp add: sb_at_def)
      from sb_view_is(2) [OF this] obtain b k where n: "string_to_int (strbuf_view (Some u')) = Some (b, k)" by (rule string_to_int_defined)
      from oom(2) obtain w3 where w3: "strbuf_destroy (Some u') w2 = Some w3" "live w3 = live w" by (rule strbuf_destroy_at)
      from oom(3) have "building_refused t 20" by (rule building_refused_mono) (use length_decimal(2) [OF assms] in simp)
      with w3 n made(1) oom(1) show ?thesis by (simp add: int_round_trip_def)
    qed
  qed
qed

end

text \<open>
  C38. \<open>string_replace\<close> cuts the string at the occurrences of the needle into pieces that do not
  contain it and joins them with the replacement; splitting with \<open>string_split_substr\<close> and joining
  with \<open>string_join\<close> gives the same bytes; and splitting and joining with the same delimiter gives
  the string back, as \<open>string.h\<close> promises. Each result is a new block of exactly its size, or
  \<open>{NULL, 0}\<close> when it is empty or the allocator refuses a request, and nothing else stays allocated.
\<close>
theorem split_join_replace_correct:
  assumes "heap_allocator t live" and "str_is s xs" and "str_holds delim ds" and "ds \<noteq> []" and "str_holds sep ss"
  shows "\<exists>yss. join_with ds yss = xs \<and> (\<forall>y \<in> set yss. \<not> (\<exists>i. occurs ds y i)) \<and>
    (\<exists>r w'. string_replace s delim sep (Some t) w = Some (r, w') \<and> str_made t (live w') (live w) r (join_with ss yss)) \<and>
    (\<exists>r w'. split_then_join s delim sep (Some t) w = Some (r, w') \<and> str_made t (live w') (live w) r (join_with ss yss)) \<and>
    (\<exists>r w'. split_then_join s delim delim (Some t) w = Some (r, w') \<and> str_made t (live w') (live w) r xs)"
proof (intro exI [of _ "pieces (boundary False ds) xs"] conjI)
  show "join_with ds (pieces (boundary False ds) xs) = xs" by (rule join_pieces)
  show "\<forall>y \<in> set (pieces (boundary False ds) xs). \<not> (\<exists>i. occurs ds y i)"
    using pieces_clean [OF assms(4)] occurs_find by auto
  show "\<exists>r w'. string_replace s delim sep (Some t) w = Some (r, w') \<and>
      str_made t (live w') (live w) r (join_with ss (pieces (boundary False ds) xs))"
    by (rule heap_allocator.string_replace_at [OF assms(1) str_is_holds [OF assms(2)] assms(3-5)])
  show "\<exists>r w'. split_then_join s delim sep (Some t) w = Some (r, w') \<and>
      str_made t (live w') (live w) r (join_with ss (pieces (boundary False ds) xs))"
    by (rule heap_allocator.split_then_join_at [OF assms(1,2,3,5)])
  show "\<exists>r w'. split_then_join s delim delim (Some t) w = Some (r, w') \<and> str_made t (live w') (live w) r xs"
    using heap_allocator.split_then_join_at [OF assms(1,2,3,3), of w] by (simp only: join_pieces)
qed

theorem split_join_replace_witness:
  "\<exists>r w'. split_then_join (str_of [97, 44, 98]) (str_of [44]) (str_of [44]) (Some roomy_allocator) [] = Some (r, w') \<and>
    str_is r [97, 44, 98]"
proof -
  have "str_holds (str_of [44]) [44]" by (rule str_of_holds) simp
  from split_join_replace_correct [OF roomy.heap_allocator_axioms str_of_is [of "[97, 44, 98]"] this _ this, of "[]"]
  obtain r w' where r: "split_then_join (str_of [97, 44, 98]) (str_of [44]) (str_of [44]) (Some roomy_allocator) [] = Some (r, w')"
    "str_made roomy_allocator (map_of w') (map_of []) r [97, 44, 98]" by auto
  have "owned_str r [97, 44, 98] (map_of w') (map_of [])" by (rule roomy_makes [OF r(2)]) simp_all
  with r(1) owned_str_is show ?thesis by blast
qed

subsection \<open>Numbers\<close>

text \<open>
  C39. Every \<open>long long\<close> that \<open>strbuf_append_int\<close> writes is read back by \<open>string_to_int\<close> unchanged,
  \<open>LLONG_MIN\<close> and \<open>LLONG_MAX\<close> included; the program is defined, leaks nothing and falls short only
  when the allocator refuses a request for at most 20 digits.
\<close>
theorem int_round_trip_correct:
  assumes "heap_allocator t live" and "LLONG_MIN \<le> v" and "v \<le> LLONG_MAX"
  shows "\<exists>r w'. int_round_trip stack v (Some t) w = Some (r, w') \<and> live w' = live w \<and>
    (r = Some (SEQC_OK, True, Some v) \<or> building_refused t 20)"
  by (rule heap_allocator.int_round_trip_at [OF assms(1)]) (simp add: llong_def assms(2,3))

theorem int_round_trip_witness:
  "\<exists>w'. int_round_trip 7 (- (2 ^ 63)) (Some roomy_allocator) [] = Some (Some (SEQC_OK, True, Some (- (2 ^ 63))), w')"
  using int_round_trip_correct [OF roomy.heap_allocator_axioms, of "- (2 ^ 63)" 7 "[]"] roomy_grants [of 20]
  by (auto simp: LLONG_MIN_def LLONG_MAX_def PTRDIFF_MAX_def)

subsection \<open>The tokenizer\<close>

lemma find_sub_char: "find_sub [c] xs = first_index (\<lambda>x. x = c) xs"
  by (induction xs) auto

lemma boundary_char_sub: "boundary True [c] xs = boundary False [c] xs"
  by (simp add: boundary_def find_sub_char)

lemma pieces_char: "pieces (boundary True [c]) xs = pieces (boundary False [c]) xs"
  using boundary_char_sub by (metis ext)

text \<open>
  C40. The loop over \<open>string_split_next\<close> ends: it answers true once more than there are separators in
  the string and then false. The tokens are views that contain no separator, and joined with
  it they are the string.
\<close>
theorem token_loop_correct:
  assumes "str_is s xs"
  shows "\<exists>vs yss. token_loop s sep = Some vs \<and> list_all2 str_is vs yss \<and> length vs = Suc (count_list xs sep) \<and>
    join_with [sep] yss = xs \<and> (\<forall>y \<in> set yss. sep \<notin> set y)"
proof -
  from token_loop_is [OF assms, of sep] obtain vs where
    vs: "token_loop s sep = Some vs" "list_all2 str_is vs (pieces (boundary True [sep]) xs)" by blast
  have "filter ((=) sep) xs = filter (\<lambda>x. x = sep) xs" by (rule filter_cong) auto
  then have "length vs = Suc (count_list xs sep)"
    using list_all2_lengthD [OF vs(2)] by (simp add: length_pieces_char count_list_eq_length_filter)
  moreover have "sep \<notin> set y" if "y \<in> set (pieces (boundary True [sep]) xs)" for y
  proof -
    have "find_sub [sep] y = None" by (rule pieces_clean [OF _ that [unfolded pieces_char]]) simp
    then show ?thesis by (auto simp: find_sub_char first_index_None)
  qed
  moreover have "join_with [sep] (pieces (boundary True [sep]) xs) = xs" unfolding pieces_char by (rule join_pieces)
  ultimately show ?thesis using vs by blast
qed

theorem token_loop_witness:
  "\<exists>vs. token_loop (str_of [97, 44, 44, 98]) 44 = Some vs \<and> length vs = 3"
  using token_loop_correct [OF str_of_is [of "[97, 44, 44, 98]"], of 44] by auto

end
