(* ===== verification/Seqc_String_Io.thy ===== *)
theory Seqc_String_Io
  imports Seqc_String_Make
begin

section \<open>Writing strings to a stream\<close>

text \<open>
  \<open>src/string/string_io.c\<close>. The stream functions of the C library are parameters: \<open>fw\<close> is \<open>fwrite\<close> of
  single bytes, which answers how many it wrote, and \<open>pc\<close> is \<open>putchar\<close>, which answers whether the
  byte was written. The stream is threaded through; a NULL stream is \<open>None\<close>.
\<close>

definition string_fwrite ::
  "(byte list \<Rightarrow> 'f \<Rightarrow> size_t \<times> 'f) \<Rightarrow> string_t \<Rightarrow> 'f option \<Rightarrow> (size_t \<times> 'f option) option" where
  "string_fwrite fw s file =
     (case file of
        None \<Rightarrow> Some (0, None)
      | Some f \<Rightarrow>
          if str_ptr s = None \<or> str_len s = 0 then Some (0, Some f)
          else do {
            xs \<leftarrow> mem_bytes (str_ptr s) (str_len s);
            let (n, f) = fw xs f;
            Some (n, Some f)
          })"

definition string_print :: "(byte list \<Rightarrow> 'f \<Rightarrow> size_t \<times> 'f) \<Rightarrow> string_t \<Rightarrow> 'f \<Rightarrow> (size_t \<times> 'f option) option" where
  "string_print fw s out = string_fwrite fw s (Some out)"

definition string_println ::
  "(byte list \<Rightarrow> 'f \<Rightarrow> size_t \<times> 'f) \<Rightarrow> (byte \<Rightarrow> 'f \<Rightarrow> bool \<times> 'f) \<Rightarrow> string_t \<Rightarrow> 'f \<Rightarrow> (size_t \<times> 'f option) option" where
  "string_println fw pc s out = do {
     (n, f) \<leftarrow> string_fwrite fw s (Some out);
     f \<leftarrow> f;
     let (ok, f) = pc 10 f;
     Some (if ok then wadd n 1 else n, Some f)
   }"

text \<open>What the C standard says of the two: \<open>seen f\<close> is what was written to \<open>f\<close> so far.\<close>

locale byte_stream =
  fixes fw :: "byte list \<Rightarrow> 'f \<Rightarrow> size_t \<times> 'f" and pc :: "byte \<Rightarrow> 'f \<Rightarrow> bool \<times> 'f" and seen :: "'f \<Rightarrow> byte list"
  assumes fw_law: "fw xs f = (n, f') \<Longrightarrow> n \<le> length xs \<and> seen f' = seen f @ take n xs"
    and pc_law: "pc c f = (b, f') \<Longrightarrow> seen f' = seen f @ (if b then [c] else [])"
begin

text \<open>The count that is returned is that of the bytes that came out, a prefix of the string.\<close>

lemma string_fwrite_is:
  assumes "str_holds s xs"
  obtains n f' where "string_fwrite fw s (Some f) = Some (n, Some f')" and "n \<le> length xs" and "seen f' = seen f @ take n xs"
proof (cases "str_ptr s = None \<or> str_len s = 0")
  case True
  with str_holds_empty [OF assms] that [of 0 f] show ?thesis by (auto simp: string_fwrite_def)
next
  case False
  then have s: "str_is s xs" using assms by (intro str_holds_is) (auto dest: str_holds_empty)
  obtain n f' where "fw xs f = (n, f')" by (cases "fw xs f")
  with fw_law [OF this] False mem_bytes_is [OF s le_refl] str_isD(1) [OF s] that [of n f'] show ?thesis
    by (auto simp: string_fwrite_def)
qed

lemma string_println_is:
  assumes "str_holds s xs"
  obtains n f' k where "string_println fw pc s f = Some (n, Some f')" and "k \<le> length xs"
    and "seen f' = seen f @ take k xs \<and> n = k \<or> seen f' = seen f @ take k xs @ [10] \<and> n = Suc k"
proof -
  obtain k f1 where 1: "string_fwrite fw s (Some f) = Some (k, Some f1)" "k \<le> length xs" "seen f1 = seen f @ take k xs"
    by (rule string_fwrite_is [OF assms])
  obtain b f2 where 2: "pc 10 f1 = (b, f2)" by (cases "pc 10 f1")
  have "k < 2 ^ 64 - 1" using 1(2) str_holdsD(2) [OF assms] by (simp add: PTRDIFF_MAX_def)
  then have "wadd k 1 = Suc k" by (simp add: wadd_exact)
  with 1 2 pc_law [OF 2] that [of "if b then Suc k else k" f2 k] show ?thesis by (simp add: string_println_def split: if_splits)
qed

end

text \<open>A file on a device with room for so many more bytes.\<close>

record device =
  dv_seen :: "byte list"
  dv_room :: nat

definition dv_fwrite :: "byte list \<Rightarrow> device \<Rightarrow> size_t \<times> device" where
  "dv_fwrite xs d = (let n = min (dv_room d) (length xs) in (n, \<lparr>dv_seen = dv_seen d @ take n xs, dv_room = dv_room d - n\<rparr>))"

definition dv_putchar :: "byte \<Rightarrow> device \<Rightarrow> bool \<times> device" where
  "dv_putchar c d = (if dv_room d = 0 then (False, d) else (True, \<lparr>dv_seen = dv_seen d @ [c], dv_room = dv_room d - 1\<rparr>))"

interpretation device: byte_stream dv_fwrite dv_putchar dv_seen
  by unfold_locales (auto simp: dv_fwrite_def dv_putchar_def Let_def split: if_splits)

end
