(* ===== verification/Spec2Isabelle.thy ===== *)
theory Spec2Isabelle
  imports Seqc_List_Lifetimes Seqc_Pipelines Seqc_Ordered_Properties Seqc_Omap_Properties Seqc_Hashmap_Properties Seqc_Set_Properties
    Seqc_Adapt_Window Seqc_Iter_Sources Seqc_String_Properties Seqc_String_Io
begin

text \<open>
  seqc is a C11 library of collections: sequences (\<open>vec\<close>, \<open>ringbuf\<close>, \<open>queue\<close>, \<open>stack\<close>, \<open>list\<close>, \<open>dlist\<close>,
  \<open>pqueue\<close>), ordered and hashed sets and maps (\<open>avl\<close>, \<open>bstree\<close>, \<open>omap\<close>, \<open>hashmap\<close>, \<open>set\<close>), strings with a
  builder, and lazy iterators that every collection can produce and be extended from. A
  collection is a handle to a struct, obtained from \<open>X_create\<close> with an allocator and given
  back with \<open>X_destroy\<close>. This development models all of \<open>src/*.c\<close> and \<open>src/*/*.c\<close> and proves,
  for every allocator that keeps its contract, that programs over these collections have a
  defined result, answer as an abstract specification says, and leak nothing.

  \<^bold>\<open>How the code is modelled.\<close> A function of the library is a HOL function in the option monad:
  \<open>None\<close> stands for undefined behaviour (a read or write outside a block, a read of memory that
  was not written, a free of a block that is not live or with a wrong size, signed overflow), a
  failed assertion, or a loop that does not end. So every theorem that states a result
  \<open>Some \<dots>\<close> also states that the call ends and is defined. A struct is a record with the fields of
  the source and the address of its own block; a handle that may be NULL is an \<open>option\<close>;
  \<open>seqc_status_t\<close> is a datatype. \<open>size_t\<close> is \<open>nat\<close> with the wrap-around of \<open>2 ^ 64\<close> written out
  (\<open>wadd\<close>, \<open>wsub\<close>, \<open>wmul\<close>), a byte counter is kept in 0 to 255 where the code has \<open>uint8_t\<close>.
  An array is a block of cells, each with a value or not yet written. Nodes of lists are kept in
  a map from addresses, nodes of trees form a tree whose nodes carry their addresses.
  The world \<open>'w\<close> is the state of the allocator and is passed through every call.

  \<^bold>\<open>The allocator.\<close> \<open>arena_allocator\<close> is not part of the repository. Its interface is the record
  \<open>vtable\<close> of \<open>Seqc_Alloc\<close>, a parameter of every function, and its contract is the locale
  \<open>heap_allocator\<close>: a granted block is fresh and at most \<open>PTRDIFF_MAX\<close> bytes, a refused request changes
  nothing, a block is freed with the size it was allocated with. The locale is interpreted on a
  \<open>malloc\<close> that grants addresses in ascending order (\<open>sys_allocator\<close>), on the test allocator of
  \<open>test/oom_alloc.h\<close> that refuses after a number of calls (\<open>oom_after_allocator\<close>), and on one that
  grants everything up to \<open>PTRDIFF_MAX\<close> (\<open>roomy_allocator\<close>, \<open>Seqc_Roomy\<close>). \<open>refuses t n\<close> says that \<open>t\<close>
  refuses some request of at most \<open>n\<close> bytes; \<open>starved\<close> that it refuses one of at most
  \<open>PTRDIFF_MAX\<close>. Wherever a specification allows \<open>SEQC_OOM\<close>, a NULL handle or an invalid iterator, it
  allows it only together with such a refusal, with the bound \<open>n\<close> computed from the number of
  elements (\<open>growth\<close>), the size of a node, the bytes of a string (\<open>building_refused\<close>) or the
  number of buckets. A table doubles by its load, and also when a probe gets long: \<open>buckets_bound\<close>
  is linear in the largest number of entries until that reaches 128, since no probe is longer
  than the table has entries, and doubles with every insertion after that.

  \<^bold>\<open>Theories and sources.\<close>
  \<^item> \<open>Seqc_Prelude\<close>: status codes (\<open>include/seqc/status.h\<close>), machine arithmetic, shared lemmas.
    \<open>Seqc_Alloc\<close>, \<open>Seqc_Roomy\<close>: allocators; \<open>owns L R B\<close> says that the live blocks \<open>L\<close> are the frame
    \<open>R\<close> and the blocks \<open>B\<close>, apart from each other. \<open>Seqc_Buffer\<close>: blocks of elements, \<open>memcpy\<close>,
    \<open>memmove\<close>. \<open>Seqc_Compare\<close>: comparison functions as total preorders (\<open>compare_order\<close>).
  \<^item> \<open>Seqc_Slice\<close>: \<open>src/slice/slice.c\<close>. \<open>Seqc_Vec\<close>: \<open>src/vec/vec.c\<close>. \<open>Seqc_Stack\<close>: \<open>src/stack/stack.c\<close>.
    \<open>Seqc_Ring\<close>, \<open>Seqc_Queue\<close>, \<open>Seqc_Ringbuf\<close>: \<open>src/queue/queue.c\<close>, \<open>src/ringbuf/ringbuf.c\<close>.
    \<open>Seqc_Heap\<close>, \<open>Seqc_Pqueue\<close>: \<open>src/pqueue/pqueue.c\<close>. \<open>Seqc_Nodes\<close>, \<open>Seqc_List\<close>, \<open>Seqc_Dlist\<close>:
    \<open>src/list/list.c\<close>, \<open>src/dlist/dlist.c\<close>.
  \<^item> \<open>Seqc_Iter\<close>, \<open>Seqc_Adapt\<close>, \<open>Seqc_Adapt_One\<close>, \<open>Seqc_Adapt_Two\<close>, \<open>Seqc_Adapt_Buffer\<close>,
    \<open>Seqc_Adapt_Window\<close>, \<open>Seqc_Iter_Sources\<close>, \<open>Seqc_Terminals\<close>: \<open>src/iter/iter.c\<close>. An iterator is its
    state with the functions that step and destroy it. \<open>iter_rep live xs it B\<close>: \<open>it\<close> owns the
    blocks \<open>B\<close>, yields \<open>xs\<close>, then ends, and can be destroyed at any time. \<open>iter_built\<close> is the result of a constructor. \<open>Seqc_Pipelines\<close> composes them.
  \<^item> \<open>Seqc_Collection\<close>, \<open>Seqc_Entries\<close>: \<open>src/collection.c\<close>, the body of every \<open>X_extend\<close>. The locales
    \<open>collection_fill\<close> and \<open>entry_fill\<close>, with the special cases \<open>collection_add\<close> and \<open>entry_map\<close>, state
    what the drain relies on an add function for; each collection interprets one.
  \<^item> \<open>Seqc_Tree\<close>, \<open>Seqc_Tree_Owned\<close>, \<open>Seqc_Tree_Walk\<close>, \<open>Seqc_Tree_Yields\<close>, \<open>Seqc_Tree_Range\<close>: what
    \<open>src/avl/avl.c\<close>, \<open>src/bstree/bstree.c\<close> and \<open>src/omap/omap.c\<close> share, insertion and removal with a
    parameter for the rebalancing; \<open>Seqc_Balance\<close>: rotations; \<open>Seqc_Avl\<close>, \<open>Seqc_Bstree\<close>, \<open>Seqc_Omap\<close>:
    the operations of each; \<open>Seqc_Ordered_Sets\<close>, \<open>Seqc_Ordered_Properties\<close>, \<open>Seqc_Omap_Properties\<close>:
    them against sorted lists.
  \<^item> \<open>Seqc_Robin\<close>, \<open>Seqc_Robin_Insert\<close>, \<open>Seqc_Robin_Find\<close>, \<open>Seqc_Robin_Remove\<close>, \<open>Seqc_Robin_Table\<close>,
    \<open>Seqc_Robin_Scan\<close>: the Robin Hood tables of \<open>src/hashmap/hashmap.c\<close> and \<open>src/set/set.c\<close>, for any hash
    and equality that fit together (\<open>key_hash\<close>); \<open>Seqc_Hashmap\<close> and \<open>Seqc_Set\<close> with their \<open>_Laws\<close>,
    \<open>_Ops\<close>, \<open>_Algebra\<close> and \<open>_Properties\<close>; \<open>Seqc_Hash\<close>: the functions of
    \<open>include/seqc/hash.h\<close> for byte strings.
  \<^item> \<open>Seqc_String\<close>, \<open>Seqc_Split\<close>, \<open>Seqc_Strbuf\<close>: the functions of \<open>src/string/string.c\<close>;
    \<open>Seqc_String_Laws\<close>, \<open>Seqc_String_Make\<close>, \<open>Seqc_Split_Laws\<close>, \<open>Seqc_Strbuf_Laws\<close>, \<open>Seqc_Join\<close>,
    \<open>Seqc_Number\<close>, \<open>Seqc_Tokens\<close>, \<open>Seqc_Strbuf_Lifetime\<close>, \<open>Seqc_String_Properties\<close>: what they do;
    \<open>Seqc_String_Io\<close>: \<open>src/string/string_io.c\<close>.
  \<^item> \<open>Seqc_Lifetime\<close>, \<open>Seqc_Array_Lifetimes\<close>, \<open>Seqc_List_Lifetimes\<close>: whole programs over one collection.

  \<^bold>\<open>What the lemmas show.\<close> For a collection \<open>X\<close>, \<open>X_is t u m\<close> is its invariant and abstraction: the
  handle \<open>u\<close> holds the abstract value \<open>m\<close> (a list, a sorted list, a multiset), and \<open>X_at\<close> adds
  that the live blocks are the frame and those of \<open>u\<close>. One lemma per operation gives its
  result on every branch, as cases \<open>ok\<close> and \<open>oom\<close> where it allocates. The locale \<open>lifetime_laws\<close>
  turns them into the theorem that every program \<open>create; ops; destroy\<close> is defined, gets
  answers that the specification \<open>X_spec\<close> allows, and ends with the blocks it started with. On
  top of that: AVL trees stay balanced with height at most logarithmic (C24); probe lengths of
  hash tables stay below what a byte holds (C31); iterators and pipelines compute the list
  functions they are named after (C8 to C21); iterators of trees and tables yield the contents in
  order or once each, and copying preserves them (C25, C32, C35); set algebra (C34); strings
  compare, search, replace, split and join as byte lists do (C27, C36, C38), numbers survive the
  way to text and back (C39), tokenizing ends (C40). C16 and C22 say when the
  iterators have undefined behaviour: a range does exactly when the step past its last element
  leaves \<open>long long\<close>, and windows and chunks do when their byte count wraps around, at the first
  element that does not fit. So do \<open>string_starts_with\<close> and \<open>string_ends_with\<close> on \<open>{NULL, 0}\<close> (C36). The
  witnesses run the theorems on concrete allocators, hash functions and elements.

  \<^bold>\<open>Loops.\<close> Loops over a list that the model has at hand recurse on it. Loops with a counter are \<open>function\<close>s
  with a measure, or \<open>partial_function (option)\<close> where the code gives no bound by itself: the
  probe loops, backward shifts, chains of nodes, drains, the loops of adaptors that skip, of
  terminals, of \<open>string_replace\<close> and \<open>string_join\<close>. Their theorems state a result, and so that they end. There is no fuel.

  \<^bold>\<open>Not modelled.\<close>
  \<^item> Alignment, and padding of elements: sizes are those of an LP64 platform (\<open>sizeof_vec_t\<close> and
    so on), an element is a HOL value with a size.
  \<^item> Elements of more than \<open>PTRDIFF_MAX\<close> bytes, which no C object has: the size of a node of a tree
    (\<open>node_alloc_size\<close>, \<open>node_sz\<close>) wraps around for element sizes near \<open>2 ^ 64\<close>, and that the copy
    of \<open>make_node\<close> would then leave the node is not expressed. The documents promise NULL when a
    collection is created with an element size of zero; \<open>vec_create\<close>, \<open>stack_create\<close> and
    \<open>hashmap_create\<close> keep that promise, the others do not check it, and the properties of their
    lifetimes are about positive sizes (those of \<open>omap\<close>, which promises nothing, about all).
  \<^item> Aliasing through pointers into a collection. A view (a slice of a vector, \<open>strbuf_view\<close>, an
    iterator over a collection) is a snapshot of the bytes; that it dangles when the collection
    changes is not expressed. An element pointer that points into the collection it is
    pushed to, and a \<open>dest\<close> of the set operations that is also an operand, are excluded.
  \<^item> Nodes of a search tree are a value of type \<open>tree\<close> with addresses; the links as memory are
    modelled for the lists. AVL heights are mathematical integers.
  \<^item> The C library: \<open>qsort\<close>, \<open>vsnprintf\<close>, \<open>strtod\<close>, \<open>fwrite\<close>, \<open>putchar\<close> are parameters, with the contract
    of \<open>qsort\<close> as a hypothesis of C21; \<open>strtoll\<close> and \<open>isspace\<close> are written out for the C locale, and
    of \<open>memcmp\<close> only the sign is used. The ratios of the audit functions are over an abstract
    type with a division.
  \<^item> Comparison, hash, map and filter callbacks are HOL functions that do not change the world; that of
    \<open>iter_foreach\<close> changes its own context, that of \<open>iter_flat_map\<close> allocates. The library has no
    concurrency.
  \<^item> Declarations and comments of \<open>include/seqc/*.h\<close>, tests and build files.
\<close>

section \<open>Sequences\<close>

text \<open>
  C1. A program that creates a \<open>vec_t\<close>, applies any sequence of pushes, pops, insertions, removals,
  writes, truncations, clearings, reservations (that do not wrap around) and reads, and destroys
  it, has a defined result for every allocator that keeps its contract, each answer is the one
  the list specification gives, and no block is leaked or freed twice. An operation that allocates
  may answer \<open>SEQC_OOM\<close>, and then changes nothing, but only if the allocator refuses a request no
  larger than the operation needs; creating fails only if it refuses one of at most \<open>PTRDIFF_MAX\<close>
  bytes.
\<close>
theorem vec_lifetime_correct:
  assumes "heap_allocator t live" and "elem_size_ok es" and "\<forall>p \<in> set ps. vec_legal es p"
  shows "lifetime_ok t live (vec_spec t es) [] ps w
    (lifetime (vec_create es (Some t)) (on_handle vec_call) (\<lambda>v. vec_destroy (Some v)) ps w)"
  by (rule lifetime_laws.lifetime_is_ok [OF heap_allocator.vec_lifetime_laws [OF assms(1,2)] assms(3)])

theorem vec_lifetime_witness:
  "lifetime_ok sys_allocator hp_live (vec_spec sys_allocator 4) [] [VPush (1 :: int), VInsert 0 2, VRemove 1, VReserve 40, VPop, VPop] (heap_with 0)
    (lifetime (vec_create 4 (Some sys_allocator)) (on_handle vec_call) (\<lambda>v. vec_destroy (Some v))
      [VPush 1, VInsert 0 2, VRemove 1, VReserve 40, VPop, VPop] (heap_with 0))"
  by (rule vec_lifetime_correct [OF sys.heap_allocator_axioms]) (simp_all add: elem_size_ok_def)

text \<open>
  C2. The same for \<open>ringbuf_t\<close>: pushes and pops at both ends, indexed access and clearing are those
  of a double-ended sequence, through every wrap-around of the masked indices and every regrowth.
\<close>
theorem ringbuf_lifetime_correct:
  assumes "heap_allocator t live" and "elem_size_ok es"
  shows "lifetime_ok t live (ringbuf_spec t es) [] ps w
    (lifetime (ringbuf_create es (Some t)) (on_handle ringbuf_call) (\<lambda>r. ringbuf_destroy (Some r)) ps w)"
  by (rule lifetime_laws.lifetime_is_ok [OF heap_allocator.ringbuf_lifetime_laws [OF assms]]) simp

theorem ringbuf_lifetime_witness:
  "lifetime_ok oom_after_allocator hp_live (ringbuf_spec oom_after_allocator 4) [] [RPushFront (1 :: int), RPushBack 2, RPopBack, RPopFront, RPopFront] (heap_with 1)
    (lifetime (ringbuf_create 4 (Some oom_after_allocator)) (on_handle ringbuf_call) (\<lambda>r. ringbuf_destroy (Some r))
      [RPushFront 1, RPushBack 2, RPopBack, RPopFront, RPopFront] (heap_with 1))"
  by (rule ringbuf_lifetime_correct [OF oom.heap_allocator_axioms]) (simp add: elem_size_ok_def)

text \<open>
  C3. The same for \<open>queue_t\<close>: first in, first out.
\<close>
theorem queue_lifetime_correct:
  assumes "heap_allocator t live" and "elem_size_ok es"
  shows "lifetime_ok t live (queue_spec t es) [] ps w
    (lifetime (queue_create es (Some t)) (on_handle queue_call) (\<lambda>q. queue_destroy (Some q)) ps w)"
  by (rule lifetime_laws.lifetime_is_ok [OF heap_allocator.queue_lifetime_laws [OF assms]]) simp

theorem queue_lifetime_witness:
  "lifetime_ok sys_allocator hp_live (queue_spec sys_allocator 4) [] [QPush (1 :: int), QPush 2, QFront, QBack, QPop] (heap_with 0)
    (lifetime (queue_create 4 (Some sys_allocator)) (on_handle queue_call) (\<lambda>q. queue_destroy (Some q))
      [QPush 1, QPush 2, QFront, QBack, QPop] (heap_with 0))"
  by (rule queue_lifetime_correct [OF sys.heap_allocator_axioms]) (simp add: elem_size_ok_def)

text \<open>
  C4. The same for \<open>seqc_stack_t\<close>: last in, first out.
\<close>
theorem stack_lifetime_correct:
  assumes "heap_allocator t live" and "elem_size_ok es"
  shows "lifetime_ok t live (stack_spec t es) [] ps w
    (lifetime (stack_create es (Some t)) (on_handle stack_call) (\<lambda>s. stack_destroy (Some s)) ps w)"
  by (rule lifetime_laws.lifetime_is_ok [OF heap_allocator.stack_lifetime_laws [OF assms]]) simp

theorem stack_lifetime_witness:
  "lifetime_ok oom_after_allocator hp_live (stack_spec oom_after_allocator 4) [] [SPush (1 :: int), SPush 2, SPeek, SPop] (heap_with 2)
    (lifetime (stack_create 4 (Some oom_after_allocator)) (on_handle stack_call) (\<lambda>s. stack_destroy (Some s))
      [SPush 1, SPush 2, SPeek, SPop] (heap_with 2))"
  by (rule stack_lifetime_correct [OF oom.heap_allocator_axioms]) (simp add: elem_size_ok_def)

text \<open>
  C5. The same for \<open>pqueue_t\<close> with a comparison function that is a total preorder: what is popped or
  peeked is a least element of the multiset that was pushed. A queue whose vector could not be
  allocated is returned all the same and answers every push with \<open>SEQC_INVALID\<close>; only then does
  it answer so.
\<close>
theorem pqueue_lifetime_correct:
  assumes "heap_allocator t live" and "elem_size_ok es" and "compare_order cmp"
  shows "lifetime_ok t live (pqueue_spec t es cmp) {#} ps w
    (lifetime (pqueue_create es cmp (Some t)) (on_handle pqueue_call) (\<lambda>q. pqueue_destroy (Some q)) ps w)"
  by (rule lifetime_laws.lifetime_is_ok [OF heap_allocator.pqueue_lifetime_laws [OF assms]]) simp

theorem pqueue_lifetime_witness:
  "lifetime_ok sys_allocator hp_live (pqueue_spec sys_allocator 4 int_cmp) {#} [PPush 3, PPush 1, PPeek, PPop] (heap_with 0)
    (lifetime (pqueue_create 4 int_cmp (Some sys_allocator)) (on_handle pqueue_call) (\<lambda>q. pqueue_destroy (Some q))
      [PPush 3, PPush 1, PPeek, PPop] (heap_with 0))"
  by (rule pqueue_lifetime_correct [OF sys.heap_allocator_axioms _ int_cmp.compare_order_axioms])
    (simp add: elem_size_ok_def)

text \<open>
  C6. The same for \<open>list_t\<close>, whose nodes are linked in memory: no operation reads a freed node, and
  \<open>head\<close>, \<open>tail\<close> and the links stay consistent at both ends.
\<close>
theorem list_lifetime_correct:
  assumes "heap_allocator t live" and "elem_size_ok es"
  shows "lifetime_ok t live (deque_spec t es) [] ps w
    (lifetime (list_create es (Some t)) (on_handle list_call) (\<lambda>l. list_destroy (Some l)) ps w)"
  by (rule lifetime_laws.lifetime_is_ok [OF heap_allocator.list_lifetime_laws [OF assms]]) simp

theorem list_lifetime_witness:
  "lifetime_ok oom_after_allocator hp_live (deque_spec oom_after_allocator 4) [] [PushBack (1 :: int), PushFront 2, PopBack, Clear, PopFront] (heap_with 3)
    (lifetime (list_create 4 (Some oom_after_allocator)) (on_handle list_call) (\<lambda>l. list_destroy (Some l))
      [PushBack 1, PushFront 2, PopBack, Clear, PopFront] (heap_with 3))"
  by (rule list_lifetime_correct [OF oom.heap_allocator_axioms]) (simp add: elem_size_ok_def)

text \<open>
  C7. The same for \<open>dlist_t\<close>, with the links in both directions.
\<close>
theorem dlist_lifetime_correct:
  assumes "heap_allocator t live" and "elem_size_ok es"
  shows "lifetime_ok t live (deque_spec t es) [] ps w
    (lifetime (dlist_create es (Some t)) (on_handle dlist_call) (\<lambda>l. dlist_destroy (Some l)) ps w)"
  by (rule lifetime_laws.lifetime_is_ok [OF heap_allocator.dlist_lifetime_laws [OF assms]]) simp

theorem dlist_lifetime_witness:
  "lifetime_ok sys_allocator hp_live (deque_spec sys_allocator 4) [] [PushBack (1 :: int), PushFront 2, PopBack, Back, PopFront] (heap_with 0)
    (lifetime (dlist_create 4 (Some sys_allocator)) (on_handle dlist_call) (\<lambda>l. dlist_destroy (Some l))
      [PushBack 1, PushFront 2, PopBack, Back, PopFront] (heap_with 0))"
  by (rule dlist_lifetime_correct [OF sys.heap_allocator_axioms]) (simp add: elem_size_ok_def)

end
